(* ===== verification/HA_Prelude.thy ===== *)
theory HA_Prelude
  imports Main "HOL-Library.Word"
begin

unbundle bit_operations_syntax

section \<open>Shared notions: machine types, C characters, bytes and strings\<close>

text \<open>
  The machine types of the C code, the ASCII constants it compares with, the
  promotion of a (signed) \<open>char\<close> to a 32-bit integer, and the lemmas on words,
  digits and lists that the component theories share.  A pair of a pointer and
  a length is the list of the bytes it spans.  A zero-terminated string is the
  list of its bytes, and reading at the end of the list gives the terminator
  (\<open>cur\<close>, \<open>at\<close>), so that a loop \<open>while (*s)\<close> stops there or at an embedded zero,
  whichever comes first.
\<close>

type_synonym byte = "8 word"
type_synonym u16 = "16 word"
type_synonym u32 = "32 word"
type_synonym u64 = "64 word"

text \<open>Facts that unfold the small readers and classifiers of this theory.\<close>

named_theorems byte_defs
named_theorems char_facts

abbreviation NUL :: byte where "NUL \<equiv> 0"
abbreviation HT :: byte where "HT \<equiv> 9"
abbreviation LF :: byte where "LF \<equiv> 10"
abbreviation CR :: byte where "CR \<equiv> 13"
abbreviation SP :: byte where "SP \<equiv> 32"
abbreviation DQUOTE :: byte where "DQUOTE \<equiv> 34"
abbreviation PERCENT :: byte where "PERCENT \<equiv> 37"
abbreviation PLUS :: byte where "PLUS \<equiv> 43"
abbreviation COMMA :: byte where "COMMA \<equiv> 44"
abbreviation MINUS :: byte where "MINUS \<equiv> 45"
abbreviation DOT :: byte where "DOT \<equiv> 46"
abbreviation SLASH :: byte where "SLASH \<equiv> 47"
abbreviation COLON :: byte where "COLON \<equiv> 58"
abbreviation SEMICOLON :: byte where "SEMICOLON \<equiv> 59"
abbreviation EQUALS :: byte where "EQUALS \<equiv> 61"
abbreviation BACKSLASH :: byte where "BACKSLASH \<equiv> 92"
abbreviation UNDERSCORE :: byte where "UNDERSCORE \<equiv> 95"

text \<open>The bytes of an ASCII literal.\<close>

definition bytes :: "string \<Rightarrow> byte list" where
  "bytes s = map of_char s"

lemma bytes_simps [simp]:
  "bytes [] = []"
  "bytes (c # cs) = of_char c # bytes cs"
  "length (bytes cs) = length cs"
  by (simp_all add: bytes_def)

text \<open>\<open>*s\<close> and \<open>s[i]\<close> on a zero-terminated string.\<close>

fun cur :: "byte list \<Rightarrow> byte" where
  "cur [] = 0"
| "cur (c # s) = c"

definition at :: "byte list \<Rightarrow> nat \<Rightarrow> byte" where
  "at s i = cur (drop i s)"

lemma at_nth: "at s i = (if i < length s then s ! i else 0)"
  by (auto simp: at_def Cons_nth_drop_Suc [symmetric])

lemma at_simps [simp]:
  "at [] i = 0"
  "at (c # s) 0 = c"
  "at (c # s) (Suc i) = at s i"
  by (simp_all add: at_def)

lemma at_numeral [simp]: "at (c # s) (numeral k) = at s (pred_numeral k)"
  by (simp add: numeral_eq_Suc)

lemma at_one [simp]: "at (c # s) 1 = at s 0"
  by (simp add: at_def)

lemma cur_at: "cur s = at s 0"
  by (simp add: at_def)

text \<open>
  \<open>c - '0'\<close> stored in an unsigned int: the signed character is promoted before
  the subtraction, so a byte below \<open>'0'\<close> or above 127 gives a large value.
\<close>

definition digit_of :: "byte \<Rightarrow> u32" where
  "digit_of c = scast c - 48"

definition is_digit :: "byte \<Rightarrow> bool" where
  "is_digit c \<longleftrightarrow> 48 \<le> c \<and> c \<le> 57"

lemma byte_less_256: "unat (c :: byte) < 256"
  using unsigned_less [of c] by simp

lemma u32_less: "unat (x :: u32) < 2 ^ 32"
  using unsigned_less [of x] by simp

lemma byte_bounds: "0 \<le> uint (c :: byte)" "uint (c :: byte) < 256"
  using uint_lt2p [of c] by simp_all

lemma mod_shift_up: "n \<le> x \<Longrightarrow> x < 2 * n \<Longrightarrow> x mod n = x - n" for x n :: int
  by (rule int_mod_pos_eq [where q = 1]) simp_all

lemma mod_shift_down: "- n \<le> x \<Longrightarrow> x < 0 \<Longrightarrow> x mod n = x + n" for x n :: int
  by (rule int_mod_pos_eq [where q = "-1"]) simp_all

lemma sint_byte: "sint (c :: byte) = (if uint c < 128 then uint c else uint c - 256)"
proof -
  have "sint c = signed_take_bit 7 (uint c)" by (simp add: sint_uint)
  also have "\<dots> = (uint c + 128) mod 256 - 128"
    by (simp add: signed_take_bit_eq_take_bit_shift take_bit_eq_mod)
  finally have s: "sint c = (uint c + 128) mod 256 - 128" by simp
  show ?thesis
    using byte_bounds [of c]
    by (cases "uint c < 128") (simp_all add: s mod_shift_up)
qed

lemma sint_byte_lower: "- 128 \<le> sint (c :: byte)"
  unfolding sint_byte using byte_bounds [of c] by (simp only: split: if_split) linarith

lemma uint_digit_of: "uint (digit_of c) = (sint c - 48) mod 2 ^ 32"
proof -
  have "digit_of c = word_of_int (sint c - 48)"
    by (simp only: digit_of_def scast_eq of_int_diff of_int_numeral)
  then show ?thesis by (simp only: uint_word_of_int) simp
qed

lemma is_digit_uint: "is_digit c \<longleftrightarrow> 48 \<le> uint c \<and> uint c \<le> 57"
  by (simp add: is_digit_def word_le_def)

lemma is_digit_unat: "is_digit c \<longleftrightarrow> 48 \<le> unat c \<and> unat c \<le> 57"
  by (simp add: is_digit_def word_le_nat_alt)

lemma uint_digit_of_digit: "is_digit c \<Longrightarrow> uint (digit_of c) = uint c - 48"
  by (subst uint_digit_of) (simp add: sint_byte is_digit_uint)

lemma unat_digit_of:
  assumes "is_digit c"
  shows "unat (digit_of c) = unat c - 48"
proof -
  have "int (unat (digit_of c)) = int (unat c) - 48"
    using uint_digit_of_digit [OF assms] by simp
  then show ?thesis by linarith
qed

lemma digit_of_gt9 [char_facts]: "digit_of c > 9 \<longleftrightarrow> \<not> is_digit c"
proof (cases "is_digit c")
  case True
  then have "uint (digit_of c) \<le> 9"
    by (simp add: uint_digit_of_digit) (simp add: is_digit_uint)
  with True show ?thesis by (simp add: word_less_def)
next
  case False
  then have c: "uint c < 48 \<or> 57 < uint c" by (auto simp: is_digit_uint)
  have "9 < (sint c - 48) mod 2 ^ 32"
  proof (cases "48 \<le> sint c")
    case True
    with c byte_bounds [of c] show ?thesis by (auto simp: sint_byte split: if_splits)
  next
    case False
    then have "(sint c - 48) mod 2 ^ 32 = sint c - 48 + 2 ^ 32"
      using byte_bounds [of c] by (intro mod_shift_down) (auto simp: sint_byte split: if_splits)
    moreover have "- 128 \<le> sint c" by (rule sint_byte_lower)
    ultimately show ?thesis by simp
  qed
  then have "9 < uint (digit_of c)" by (simp only: uint_digit_of)
  then show ?thesis using False by (simp add: word_less_def)
qed

definition digit_val :: "byte \<Rightarrow> nat" where
  "digit_val c = unat c - 48"

lemma digit_val_le: "is_digit c \<Longrightarrow> digit_val c \<le> 9"
  by (simp only: is_digit_unat digit_val_def) linarith

text \<open>The number that a string of decimal digits denotes.\<close>

definition dec_value :: "byte list \<Rightarrow> nat" where
  "dec_value ds = foldl (\<lambda>a c. a * 10 + digit_val c) 0 ds"

lemma dec_value_Nil [simp]: "dec_value [] = 0"
  by (simp add: dec_value_def)

lemma dec_value_snoc [simp]: "dec_value (ds @ [c]) = dec_value ds * 10 + digit_val c"
  by (simp add: dec_value_def)

lemma foldl_dec: "foldl (\<lambda>a c. a * 10 + digit_val c) a ds = a * 10 ^ length ds + dec_value ds"
proof (induction ds arbitrary: a)
  case Nil
  then show ?case by simp
next
  case (Cons c ds)
  have "foldl (\<lambda>a c. a * 10 + digit_val c) a (c # ds)
      = (a * 10 + digit_val c) * 10 ^ length ds + dec_value ds"
    using Cons.IH by simp
  moreover have "dec_value (c # ds) = digit_val c * 10 ^ length ds + dec_value ds"
    using Cons.IH [of "digit_val c"] by (simp add: dec_value_def)
  ultimately show ?case by (simp add: algebra_simps)
qed

lemma dec_value_Cons: "dec_value (c # ds) = digit_val c * 10 ^ length ds + dec_value ds"
  using foldl_dec [of "digit_val c" ds] by (simp add: dec_value_def)

lemma dec_value_bound: "list_all is_digit ds \<Longrightarrow> dec_value ds < 10 ^ length ds"
proof (induction ds)
  case Nil
  then show ?case by simp
next
  case (Cons c ds)
  have "digit_val c * 10 ^ length ds \<le> 9 * 10 ^ length ds"
    using Cons.prems digit_val_le by (intro mult_right_mono) simp_all
  moreover have "dec_value ds < 10 ^ length ds" using Cons by simp
  ultimately have "dec_value (c # ds) < 10 * 10 ^ length ds"
    unfolding dec_value_Cons by linarith
  then show ?case by simp
qed

text \<open>
  Two's complement reading of a signed result that overflowed: \<open>m\<close> is half the
  range, \<open>2 ^ 31\<close> for an int and \<open>2 ^ 63\<close> for a long long.
\<close>

definition wrap_s :: "int \<Rightarrow> int \<Rightarrow> int" where
  "wrap_s m x = (x + m) mod (2 * m) - m"

lemma wrap_s_id: "- m \<le> x \<Longrightarrow> x < m \<Longrightarrow> wrap_s m x = x"
  by (simp add: wrap_s_def)

lemma wrap_s_over: "m \<le> x \<Longrightarrow> x < 2 * m \<Longrightarrow> wrap_s m x = x - 2 * m"
  unfolding wrap_s_def by (subst mod_shift_up) simp_all

lemma wrap_s_under: "- (2 * m) \<le> x \<Longrightarrow> x < - m \<Longrightarrow> wrap_s m x = x + 2 * m"
  unfolding wrap_s_def by (subst mod_shift_down) simp_all

lemma digit_of_digit: "is_digit c \<Longrightarrow> digit_of c = of_nat (digit_val c)"
  by (rule word_unat_eq_iff [THEN iffD2])
    (use digit_val_le [of c] in \<open>simp add: unat_digit_of digit_val_def unat_of_nat take_bit_nat_eq_self\<close>)

lemma sint_digit:
  assumes "is_digit c"
  shows "sint c - 48 = int (digit_val c)"
proof -
  have "48 \<le> unat c" using assms by (simp add: is_digit_unat)
  then have "int (digit_val c) = int (unat c) - 48"
    by (simp only: digit_val_def of_nat_diff of_nat_numeral)
  then show ?thesis using assms by (simp add: sint_byte is_digit_uint)
qed

text \<open>The signed reading of a word of any width, and of its negation.\<close>

lemma two_pow_len: "2 * 2 ^ (LENGTH('a) - Suc 0) = (2 :: int) ^ LENGTH('a::len)"
  by (metis One_nat_def Suc_pred len_gt_0 power_Suc)

lemma sint_cases:
  fixes w :: "'a::len word"
  shows "sint w = (if uint w < 2 ^ (LENGTH('a) - 1) then uint w else uint w - 2 ^ LENGTH('a))"
proof -
  let ?n = "LENGTH('a) - Suc 0"
  have u: "0 \<le> uint w" "uint w < 2 * 2 ^ ?n"
    using uint_lt2p [of w] by (simp_all only: two_pow_len) simp_all
  have "sint w = (uint w + 2 ^ ?n) mod (2 * 2 ^ ?n) - 2 ^ ?n"
    by (simp add: sint_uint signed_take_bit_eq_take_bit_shift take_bit_eq_mod two_pow_len)
  then show ?thesis using u
    by (cases "uint w < 2 ^ ?n") (simp_all add: mod_shift_up flip: two_pow_len)
qed

lemma uint_minus_neg:
  fixes w :: "'a::len word"
  assumes "sint w < 0"
  shows "uint (- w) = - sint w"
proof -
  have u: "0 \<le> uint w" "uint w < 2 ^ LENGTH('a)" using uint_lt2p [of w] by simp_all
  have s: "sint w = uint w - 2 ^ LENGTH('a)" and n: "\<not> uint w < 2 ^ (LENGTH('a) - 1)"
    using assms u(1) by (simp_all add: sint_cases split: if_splits)
  have "uint w \<noteq> 0" using n by auto
  then have "(- uint w) mod 2 ^ LENGTH('a) = - uint w + 2 ^ LENGTH('a)"
    using u by (intro mod_shift_down) linarith+
  then show ?thesis by (simp add: s uint_word_ariths)
qed

text \<open>Bytes, bit by bit.\<close>

lemma less8: "(n::nat) < 8 \<longleftrightarrow> n = 0 \<or> n = 1 \<or> n = 2 \<or> n = 3 \<or> n = 4 \<or> n = 5 \<or> n = 6 \<or> n = 7"
  by auto

lemma byte_eqI: "(\<And>n. n < 8 \<Longrightarrow> bit x n = bit y n) \<Longrightarrow> x = (y :: byte)"
  by (rule bit_word_eqI) simp

lemma byte_bit_ge [simp]: "8 \<le> n \<Longrightarrow> \<not> bit (x :: byte) n"
  using bit_imp_le_length [of x n] by auto

lemma byte_plus_or: "x AND y = 0 \<Longrightarrow> x + y = x OR y" for x y :: byte
  by (simp add: disjunctive_add_eq_or)

lemma byte_less_64:
  assumes "\<And>n. n < 8 \<Longrightarrow> 6 \<le> n \<Longrightarrow> \<not> bit x n"
  shows "unat (x :: byte) < 64"
proof -
  have "bit x n = bit (take_bit 6 x) n" if "n < 8" for n
    using assms [OF that] by (cases "n < 6") (auto simp: bit_simps)
  then have "x = take_bit 6 x" by (rule byte_eqI)
  then have "unat x = take_bit 6 (unat x)" by (metis unsigned_take_bit_eq)
  then show ?thesis using take_bit_nat_less_exp [of 6 "unat x"] by simp
qed

text \<open>C division and remainder of signed integers truncate towards zero.\<close>

definition c_div :: "int \<Rightarrow> int \<Rightarrow> int" where
  "c_div a b = sgn a * sgn b * (\<bar>a\<bar> div \<bar>b\<bar>)"

definition c_rem :: "int \<Rightarrow> int \<Rightarrow> int" where
  "c_rem a b = a - b * c_div a b"

lemma c_div_nonneg: "0 \<le> a \<Longrightarrow> 0 < b \<Longrightarrow> c_div a b = a div b"
  by (cases "a = 0") (simp_all add: c_div_def)

lemma c_rem_nonneg: "0 \<le> a \<Longrightarrow> 0 < b \<Longrightarrow> c_rem a b = a mod b"
  by (simp add: c_rem_def c_div_nonneg minus_mult_div_eq_mod)

text \<open>A signed value stored in, or cast to, an unsigned int.\<close>

definition uns :: "int \<Rightarrow> int" where
  "uns x = x mod 2 ^ 32"

lemma uns_id: "0 \<le> x \<Longrightarrow> x < 2 ^ 32 \<Longrightarrow> uns x = x"
  by (simp add: uns_def)

text \<open>The result of a fallible operation, its error forgotten.\<close>

fun ok :: "'e + 'a \<Rightarrow> 'a option" where
  "ok (Inl e) = None"
| "ok (Inr a) = Some a"

end
