(* ===== verification/HA_Numbers.thy ===== *)
theory HA_Numbers
  imports HA_Prelude
begin

section \<open>Printing and parsing numbers, times and sizes (src/standard.c)\<close>

text \<open>
  The integer printers (\<open>ulltoa\<close>, \<open>ultoa_o\<close>, \<open>lltoa\<close>, \<open>ltoa_o\<close>, \<open>utoa_pad\<close>,
  \<open>ultoa_r\<close>), the integer parsers (\<open>str2ui\<close> to \<open>strl2llrc_dotted\<close>) and the
  parsers of times and sizes with a unit.  A printer that stores into
  \<open>dst[size]\<close> is a function that gives the bytes before the terminating zero,
  or \<open>None\<close> where the C code returns NULL.  A parser that returns a status and
  stores a value gives an option or a sum, an error pointer being the text that
  is left at the error.  \<open>unsigned long\<close> has 64 bits, as on the x86-64 build.
\<close>

subsection \<open>Printing\<close>

text \<open>The switch on the value: the index of the first digit's weight.\<close>

definition ulltoa_i :: "u64 \<Rightarrow> nat" where
  "ulltoa_i n =
    (if n \<le> 9 then 0 else if n \<le> 99 then 1 else if n \<le> 999 then 2
     else if n \<le> 9999 then 3 else if n \<le> 99999 then 4 else if n \<le> 999999 then 5
     else if n \<le> 9999999 then 6 else if n \<le> 99999999 then 7 else if n \<le> 999999999 then 8
     else if n \<le> 9999999999 then 9 else if n \<le> 99999999999 then 10
     else if n \<le> 999999999999 then 11 else if n \<le> 9999999999999 then 12
     else if n \<le> 99999999999999 then 13 else if n \<le> 999999999999999 then 14
     else if n \<le> 9999999999999999 then 15 else if n \<le> 99999999999999999 then 16
     else if n \<le> 999999999999999999 then 17 else if n \<le> 9999999999999999999 then 18
     else 19)"

text \<open>The loop \<open>for (; i >= 0; i--) { dst[i] = n % 10 + '0'; n /= 10; }\<close>.\<close>

fun put_digits :: "nat \<Rightarrow> u64 \<Rightarrow> byte list" where
  "put_digits 0 n = []"
| "put_digits (Suc k) n = put_digits k (n div 10) @ [ucast (n mod 10) + 48]"

definition ulltoa :: "u64 \<Rightarrow> nat \<Rightarrow> byte list option" where
  "ulltoa n sz =
    (let i = ulltoa_i n
     in if i + 2 > sz then None else Some (put_digits (i + 1) n))"

definition ultoa_o :: "u64 \<Rightarrow> nat \<Rightarrow> byte list option" where
  "ultoa_o n sz =
    (let i = ulltoa_i n
     in if i + 2 > sz then None else Some (put_digits (i + 1) n))"

definition ltoa_o :: "u64 \<Rightarrow> nat \<Rightarrow> byte list option" where
  "ltoa_o n sz =
    (if n <s 0 then
       (if sz < 3 then None
        else map_option (\<lambda>ds. MINUS # ds) (ultoa_o (- n) (sz - 1)))
     else ultoa_o n sz)"

definition lltoa :: "u64 \<Rightarrow> nat \<Rightarrow> byte list option" where
  "lltoa n sz =
    (if n <s 0 then
       (if sz < 3 then None
        else map_option (\<lambda>ds. MINUS # ds) (ulltoa (- n) (sz - 1)))
     else ulltoa n sz)"

definition utoa_pad_i :: "u32 \<Rightarrow> nat" where
  "utoa_pad_i n =
    (if n \<le> 9 then 0 else if n \<le> 99 then 1 else if n \<le> 999 then 2
     else if n \<le> 9999 then 3 else if n \<le> 99999 then 4 else if n \<le> 999999 then 5
     else if n \<le> 9999999 then 6 else if n \<le> 99999999 then 7 else if n \<le> 999999999 then 8
     else 9)"

definition utoa_pad :: "u32 \<Rightarrow> nat \<Rightarrow> byte list option" where
  "utoa_pad n sz =
    (let i = utoa_pad_i n
     in if i + 2 > sz then None
        else let i = (if i < sz then sz - 2 else i)
             in Some (put_digits (i + 1) (ucast n)))"

text \<open>
  \<open>ultoa_r\<close> fills the buffer from its end; \<open>room\<close> is the number of bytes before
  the terminator.  With no room at all its first digit would be stored before
  the buffer, which is the result \<open>None\<close>.
\<close>

fun ultoa_r_loop :: "nat \<Rightarrow> u64 \<Rightarrow> byte list \<Rightarrow> byte list" where
  "ultoa_r_loop 0 n acc = acc"
| "ultoa_r_loop (Suc room) n acc =
    (let acc = (48 + ucast (n mod 10)) # acc; n = n div 10
     in if n \<noteq> 0 then ultoa_r_loop room n acc else acc)"

definition ultoa_r :: "u64 \<Rightarrow> nat \<Rightarrow> byte list option" where
  "ultoa_r n sz = (if sz < 2 then None else Some (ultoa_r_loop (sz - 1) n []))"

definition limit_r :: "u64 \<Rightarrow> nat \<Rightarrow> byte list option \<Rightarrow> byte list option" where
  "limit_r n sz alt =
    (if n \<noteq> 0 then ultoa_r n sz else Some (case alt of Some a \<Rightarrow> a | None \<Rightarrow> []))"

text \<open>
  \<open>strlcpy2\<close>: copies until \<open>sz - 1\<close> bytes or the end of the source; the value
  is the copied bytes (their number is the return value), \<open>None\<close> when \<open>sz\<close> is 0
  and nothing is written.
\<close>

fun strlcpy2_loop :: "nat \<Rightarrow> byte list \<Rightarrow> byte list" where
  "strlcpy2_loop 0 src = []"
| "strlcpy2_loop (Suc sz) src =
    (if sz \<noteq> 0 \<and> cur src \<noteq> 0 then cur src # strlcpy2_loop sz (drop 1 src) else [])"

definition strlcpy2 :: "byte list \<Rightarrow> nat \<Rightarrow> byte list option" where
  "strlcpy2 src sz = (if sz = 0 then None else Some (strlcpy2_loop sz src))"

subsection \<open>Parsing integers\<close>

fun strl2ui_loop :: "byte list \<Rightarrow> u32 \<Rightarrow> u32" where
  "strl2ui_loop [] i = i"
| "strl2ui_loop (c # s) i = strl2ui_loop s (i * 10 - 48 + ucast c)"

definition strl2ui :: "byte list \<Rightarrow> u32" where
  "strl2ui s = strl2ui_loop s 0"

definition str2ui :: "byte list \<Rightarrow> u32" where
  "str2ui s = strl2ui_loop (takeWhile (\<lambda>c. c \<noteq> 0) s) 0"

fun strl2uic_loop :: "byte list \<Rightarrow> u32 \<Rightarrow> u32" where
  "strl2uic_loop [] i = i"
| "strl2uic_loop (c # s) i =
    (let j = digit_of c; k = i * 10
     in if j > 9 then i else strl2uic_loop s (k + j))"

definition strl2uic :: "byte list \<Rightarrow> u32" where
  "strl2uic s = strl2uic_loop s 0"

definition str2uic :: "byte list \<Rightarrow> u32" where
  "str2uic s = strl2uic_loop s 0"

fun read_uint_loop :: "byte list \<Rightarrow> u32 \<Rightarrow> u32 \<times> byte list" where
  "read_uint_loop [] i = (i, [])"
| "read_uint_loop (c # s) i =
    (let j = digit_of c; k = i * 10
     in if j > 9 then (i, c # s) else read_uint_loop s (k + j))"

definition read_uint :: "byte list \<Rightarrow> u32 \<times> byte list" where
  "read_uint s = read_uint_loop s 0"

text \<open>
  The signed parsers subtract \<open>'0'\<close> into a signed int, so a byte below \<open>'0'\<close> or
  above 127 gives a negative \<open>j\<close> that the test \<open>j > 9\<close> lets through.  Their
  overflow tests compare a sum after the fact: the sum is taken modulo the width
  (\<open>wrap_s\<close>), which is what these tests rely on.
\<close>

fun strl2ic_pos :: "byte list \<Rightarrow> int \<Rightarrow> int" where
  "strl2ic_pos [] i = i"
| "strl2ic_pos (c # s) i =
    (let j = sint c - 48; k = wrap_s (2 ^ 31) (i * 10)
     in if j > 9 then i else strl2ic_pos s (wrap_s (2 ^ 31) (k + j)))"

fun strl2ic_neg :: "byte list \<Rightarrow> int \<Rightarrow> int" where
  "strl2ic_neg [] i = i"
| "strl2ic_neg (c # s) i =
    (let j = sint c - 48; k = wrap_s (2 ^ 31) (i * 10)
     in if j > 9 then i else strl2ic_neg s (wrap_s (2 ^ 31) (k - j)))"

definition strl2ic :: "byte list \<Rightarrow> int" where
  "strl2ic s =
    (case s of [] \<Rightarrow> 0
     | c # r \<Rightarrow> if c \<noteq> MINUS then strl2ic_pos s 0 else strl2ic_neg r 0)"

text \<open>
  \<open>strl2irc\<close> and \<open>strl2llrc\<close> differ in the width only: \<open>m\<close> is half the range, so
  the largest value is \<open>m - 1\<close> and \<open>MIN / 10\<close>, truncated towards zero, is
  \<open>- (m div 10)\<close>.
\<close>

fun strl2rc_pos :: "int \<Rightarrow> byte list \<Rightarrow> int \<Rightarrow> int option" where
  "strl2rc_pos m [] i = Some i"
| "strl2rc_pos m (c # s) i =
    (let j = sint c - 48
     in if j > 9 then None
        else if i > (m - 1) div 10 then None
        else let i = i * 10
             in if wrap_s m (i + j) < i then None
                else strl2rc_pos m s (wrap_s m (i + j)))"

fun strl2rc_neg :: "int \<Rightarrow> byte list \<Rightarrow> int \<Rightarrow> int option" where
  "strl2rc_neg m [] i = Some i"
| "strl2rc_neg m (c # s) i =
    (let j = sint c - 48
     in if j > 9 then None
        else if i < - (m div 10) then None
        else let i = i * 10
             in if wrap_s m (i - j) > i then None
                else strl2rc_neg m s (wrap_s m (i - j)))"

definition strl2irc :: "byte list \<Rightarrow> int option" where
  "strl2irc s =
    (case s of [] \<Rightarrow> None
     | c # r \<Rightarrow> if c \<noteq> MINUS then strl2rc_pos (2 ^ 31) s 0 else strl2rc_neg (2 ^ 31) r 0)"

definition strl2llrc :: "byte list \<Rightarrow> int option" where
  "strl2llrc s =
    (case s of [] \<Rightarrow> None
     | c # r \<Rightarrow> if c \<noteq> MINUS then strl2rc_pos (2 ^ 63) s 0 else strl2rc_neg (2 ^ 63) r 0)"

text \<open>
  The composition \<open>(major << 16) | (minor & 0xffff)\<close> of two 64-bit signed
  numbers, either of which may be negative.
\<close>

definition strl2llrc_dotted :: "byte list \<Rightarrow> int option" where
  "strl2llrc_dotted text =
    (let a = takeWhile (\<lambda>c. c \<noteq> DOT) text; p = dropWhile (\<lambda>c. c \<noteq> DOT) text
     in case strl2llrc a of None \<Rightarrow> None
        | Some major \<Rightarrow>
            if major \<ge> 65536 then None
            else case (if p \<noteq> [] then strl2llrc (drop 1 p) else Some 0) of
                None \<Rightarrow> None
              | Some minor \<Rightarrow>
                  if minor \<ge> 65536 then None
                  else Some (wrap_s (2 ^ 63) (push_bit 16 major) OR (minor AND 65535)))"

subsection \<open>Times and sizes with a unit\<close>

text \<open>The output scale that the caller's flags select (\<open>TIME_UNIT_US\<close> is 0).\<close>

definition time_out_scale :: "nat \<Rightarrow> u32 \<times> u32" where
  "time_out_scale unit_flags =
    (let u = unit_flags mod 8
     in if u = 0 then (1000000, 1) else if u = 1 then (1000, 1) else if u = 2 then (1, 1)
        else if u = 3 then (1, 60) else if u = 4 then (1, 3600) else if u = 5 then (1, 86400)
        else (1, 1))"

text \<open>The input scale of the suffix, \<open>None\<close> for an unknown one.\<close>

definition time_in_scale :: "byte list \<Rightarrow> (u32 \<times> u32) option" where
  "time_in_scale text =
    (let c = cur text
     in if c = 0x73 then Some (1, 1)
        else if c = 0x75 then (if at text 1 = 0x73 then Some (1, 1000000) else Some (1, 1))
        else if c = 0x6d then (if at text 1 = 0x73 then Some (1, 1000) else Some (60, 1))
        else if c = 0x68 then Some (3600, 1)
        else if c = 0x64 then Some (86400, 1)
        else None)"

definition reduce_pair :: "u32 \<Rightarrow> u32 \<Rightarrow> u32 \<times> u32" where
  "reduce_pair mul dv =
    (let (mul, dv) = (if mul mod dv = 0 then (mul div dv, 1) else (mul, dv))
     in if dv mod mul = 0 then (1, dv div mul) else (mul, dv))"

definition time_scale :: "u32 \<Rightarrow> u32 \<times> u32 \<Rightarrow> u32 \<times> u32 \<Rightarrow> u32" where
  "time_scale v inp out =
    (let (imult, idiv) = inp; (omult, odiv) = out;
         (omult, idiv) = reduce_pair omult idiv;
         (imult, odiv) = reduce_pair imult odiv
     in (v * (imult * omult) + (idiv * odiv - 1)) div (idiv * odiv))"

definition parse_time_err :: "byte list \<Rightarrow> nat \<Rightarrow> byte list + u32" where
  "parse_time_err text unit_flags =
    (let (v, text) = read_uint_loop text 0
     in if cur text = 0 then Inr (time_scale v (1, 1) (1, 1))
        else case time_in_scale text of
            None \<Rightarrow> Inl text
          | Some inp \<Rightarrow> Inr (time_scale v inp (time_out_scale unit_flags)))"

fun parse_size_loop :: "byte list \<Rightarrow> u32 \<Rightarrow> byte list + u32 \<times> byte list" where
  "parse_size_loop [] v = Inr (v, [])"
| "parse_size_loop (c # s) v =
    (let j = digit_of c
     in if j > 9 then Inr (v, c # s)
        else if v > NOT 0 div 10 then Inl (c # s)
        else let v = v * 10
             in if v > v + j then Inl (c # s) else parse_size_loop s (v + j))"

definition parse_size_err :: "byte list \<Rightarrow> byte list + u32" where
  "parse_size_err text =
    (case parse_size_loop text 0 of
       Inl e \<Rightarrow> Inl e
     | Inr (v, text) \<Rightarrow>
         let c = cur text
         in if c = 0 then Inr v
            else if c = 0x4b \<or> c = 0x6b then
              (if v > drop_bit 10 (NOT 0) then Inl text else Inr (push_bit 10 v))
            else if c = 0x4d \<or> c = 0x6d then
              (if v > drop_bit 20 (NOT 0) then Inl text else Inr (push_bit 20 v))
            else if c = 0x47 \<or> c = 0x67 then
              (if v > drop_bit 30 (NOT 0) then Inl text else Inr (push_bit 30 v))
            else Inl text)"

end
