(* ===== verification/HA_Numbers_Proofs.thy ===== *)
theory HA_Numbers_Proofs
  imports HA_Numbers
begin

section \<open>Correctness of the number printers and parsers\<close>

text \<open>
  Each printer gives the canonical decimal text of its number; the checked
  parsers accept exactly the texts whose value fits and return that value; the
  unchecked ones return the value of the leading digits modulo \<open>2 ^ 32\<close>; printing
  and parsing are inverse; the time parser rounds the scaled value up.
\<close>

subsection \<open>Printers\<close>

definition canonical :: "byte list \<Rightarrow> nat \<Rightarrow> bool" where
  "canonical ds n \<longleftrightarrow>
    ds \<noteq> [] \<and> list_all is_digit ds \<and> dec_value ds = n \<and> (length ds = 1 \<or> hd ds \<noteq> 48)"

lemma unat_digit_byte: "unat (ucast (n mod 10) + 48 :: byte) = unat (n :: u64) mod 10 + 48"
proof -
  have m: "unat (n mod 10) < 10" by (simp add: unat_mod)
  have "unat (ucast (n mod 10) :: byte) = unat (n mod 10)"
    using m by (simp add: unsigned_ucast_eq take_bit_nat_eq_self)
  then show ?thesis
    using m by (simp add: unat_word_ariths unat_mod)
qed

lemma digit_byte:
  "is_digit (ucast (n mod 10) + 48 :: byte)"
  "digit_val (ucast ((n :: u64) mod 10) + 48) = unat n mod 10"
  unfolding is_digit_unat digit_val_def unat_digit_byte by auto

lemma length_put_digits [simp]: "length (put_digits k n) = k"
  by (induction k n rule: put_digits.induct) simp_all

lemma put_digits_digits: "list_all is_digit (put_digits k n)"
  by (induction k n rule: put_digits.induct) (simp_all add: digit_byte)

lemma put_digits_value: "dec_value (put_digits k n) = unat n mod 10 ^ k"
proof (induction k n rule: put_digits.induct)
  case (1 n)
  then show ?case by simp
next
  case (2 k n)
  then have "dec_value (put_digits (Suc k) n) = unat n div 10 mod 10 ^ k * 10 + unat n mod 10"
    by (simp add: digit_byte unat_div)
  then show ?case by (simp add: mod_mult2_eq)
qed

lemma ulltoa_i_upper: "unat n < 10 ^ (ulltoa_i n + 1)"
proof -
  have "unat n < 2 ^ 64" using unsigned_less [of n] by simp
  then show ?thesis by (simp add: ulltoa_i_def word_le_nat_alt)
qed

lemma ulltoa_i_lower: "0 < ulltoa_i n \<Longrightarrow> 10 ^ ulltoa_i n \<le> unat n"
  by (auto simp: ulltoa_i_def word_le_nat_alt split: if_splits)

lemma canonicalI:
  assumes "list_all is_digit ds" "dec_value ds = n" "length ds = Suc i" "0 < i \<Longrightarrow> 10 ^ i \<le> n"
  shows "canonical ds n"
proof -
  from assms(3) obtain c r where ds: "ds = c # r" and len: "length r = i"
    by (cases ds) auto
  have "dec_value r < 10 ^ i" using assms(1) dec_value_bound [of r] by (simp add: ds len)
  then have "c \<noteq> 48" if "0 < i"
    using assms(2) assms(4) [OF that] by (auto simp: ds len dec_value_Cons digit_val_def)
  then show ?thesis using assms(1,2) len by (auto simp: canonical_def ds)
qed

lemma ulltoa_canonical: "canonical (put_digits (ulltoa_i n + 1) n) (unat n)"
  by (rule canonicalI [where i = "ulltoa_i n"])
    (simp_all only: put_digits_digits put_digits_value length_put_digits ulltoa_i_lower
      mod_less [OF ulltoa_i_upper] Suc_eq_plus1)

lemma ultoa_o_ulltoa: "ultoa_o = ulltoa"
  by (intro ext) (simp add: ultoa_o_def ulltoa_def)

subsection \<open>Unchecked parsers\<close>

lemma read_uint_step:
  "is_digit c \<Longrightarrow> (of_nat a * 10 + digit_of c :: u32) = of_nat (a * 10 + digit_val c)"
  by (simp add: digit_of_digit)

lemma read_uint_loop_eq:
  "read_uint_loop s (of_nat a) =
    (of_nat (foldl (\<lambda>a c. a * 10 + digit_val c) a (takeWhile is_digit s)), dropWhile is_digit s)"
proof (induction s arbitrary: a)
  case Nil
  then show ?case by simp
next
  case (Cons c s)
  show ?case
  proof (cases "is_digit c")
    case True
    then show ?thesis using Cons.IH [of "a * 10 + digit_val c"]
      by (simp only: read_uint_loop.simps Let_def char_facts read_uint_step takeWhile.simps
          dropWhile.simps foldl_Cons if_True if_False simp_thms)
  next
    case False
    then show ?thesis by (simp add: char_facts)
  qed
qed

lemma read_uint_eq:
  "read_uint s = (of_nat (dec_value (takeWhile is_digit s)), dropWhile is_digit s)"
  using read_uint_loop_eq [of s 0] by (simp add: read_uint_def dec_value_def)

lemma strl2uic_loop_read: "strl2uic_loop s i = fst (read_uint_loop s i)"
  by (induction s i rule: strl2uic_loop.induct) (simp_all add: Let_def)

lemma strl2uic_eq: "strl2uic s = of_nat (dec_value (takeWhile is_digit s))"
  using read_uint_eq [of s] by (simp add: strl2uic_def strl2uic_loop_read read_uint_def)

lemma strl2ui_loop_digits:
  "list_all is_digit s \<Longrightarrow> strl2ui_loop s i = strl2uic_loop s i"
proof (induction s arbitrary: i)
  case Nil
  then show ?case by simp
next
  case (Cons c s)
  have "sint c = uint c" using Cons.prems by (simp add: sint_byte is_digit_uint)
  then have "(scast c :: u32) = ucast c" by (simp only: scast_eq ucast_eq)
  then have "(ucast c :: u32) = digit_of c + 48" by (simp add: digit_of_def)
  with Cons show ?case by (simp add: char_facts Let_def)
qed

subsection \<open>Checked signed parsers\<close>

text \<open>
  What \<open>strl2irc\<close> and \<open>strl2llrc\<close> are meant to compute, for half range \<open>m\<close>: an
  optional minus sign and digits whose value fits.
\<close>

definition signed_value :: "int \<Rightarrow> byte list \<Rightarrow> int option" where
  "signed_value m s =
    (case s of [] \<Rightarrow> None
     | c # r \<Rightarrow>
         if c = MINUS then
           (if list_all is_digit r \<and> int (dec_value r) \<le> m then Some (- int (dec_value r)) else None)
         else
           (if list_all is_digit s \<and> int (dec_value s) < m then Some (int (dec_value s)) else None))"

lemma sint_minus_48:
  fixes c :: byte
  assumes "\<not> is_digit c"
  shows "sint c - 48 > 9 \<or> - 176 \<le> sint c - 48 \<and> sint c - 48 < 0"
proof (cases "sint c < 48")
  case True
  then show ?thesis using sint_byte_lower [of c] by linarith
next
  case False
  then have "uint c < 128" "uint c = sint c"
    using byte_bounds [of c] by (auto simp: sint_byte split: if_splits)
  with False assms show ?thesis by (simp add: is_digit_uint)
qed

lemma wrap_s_below: "256 \<le> m \<Longrightarrow> 0 \<le> i \<Longrightarrow> i < m \<Longrightarrow> - 176 \<le> j \<Longrightarrow> j < 0 \<Longrightarrow> wrap_s m (i + j) < i"
  by (subst wrap_s_id) simp_all

lemma strl2rc_pos_eq:
  assumes m: "256 \<le> m"
  shows "0 \<le> i \<Longrightarrow> i < m \<Longrightarrow>
    strl2rc_pos m s i =
      (if list_all is_digit s \<and> i * 10 ^ length s + int (dec_value s) < m
       then Some (i * 10 ^ length s + int (dec_value s)) else None)"
proof (induction s arbitrary: i)
  case Nil
  then show ?case by simp
next
  case (Cons c s)
  let ?j = "sint c - 48"
  let ?v = "i * 10 ^ length (c # s) + int (dec_value (c # s))"
  have lim: "i \<le> (m - 1) div 10 \<longleftrightarrow> i * 10 < m" by linarith
  show ?case
  proof (cases "is_digit c")
    case False
    then have "wrap_s m (i * 10 + ?j) < i * 10" if "i * 10 < m" "\<not> ?j > 9"
      using sint_minus_48 [OF False] wrap_s_below [OF m, of "i * 10" ?j] that Cons.prems by simp
    with False lim show ?thesis by (auto simp: Let_def not_less)
  next
    case True
    then have j: "0 \<le> ?j" "?j \<le> 9" using digit_val_le [of c] by (simp_all only: sint_digit) simp_all
    have v: "?v = (i * 10 + ?j) * 10 ^ length s + int (dec_value s)"
      using True by (simp add: dec_value_Cons sint_digit algebra_simps)
    show ?thesis
    proof (cases "i * 10 + ?j < m")
      case small: True
      then have "wrap_s m (i * 10 + ?j) = i * 10 + ?j" using Cons.prems j m by (simp add: wrap_s_id)
      then have "strl2rc_pos m (c # s) i = strl2rc_pos m s (i * 10 + ?j)"
        using small j lim by (simp add: Let_def)
      then show ?thesis using Cons.IH [of "i * 10 + ?j"] Cons.prems j small True
        by (simp only: v list.pred_inject) simp
    next
      case over: False
      have "m * 1 \<le> (i * 10 + ?j) * 10 ^ length s"
        using over Cons.prems j by (intro mult_mono) simp_all
      then have "\<not> ?v < m" unfolding v by simp
      moreover have "strl2rc_pos m (c # s) i = None"
      proof (cases "i * 10 < m")
        case True
        then have "wrap_s m (i * 10 + ?j) = i * 10 + ?j - 2 * m"
          using over j m by (intro wrap_s_over) simp_all
        then show ?thesis using True lim j m by (simp add: Let_def)
      next
        case False
        then show ?thesis using lim j by (simp add: Let_def)
      qed
      ultimately show ?thesis by simp
    qed
  qed
qed

lemma wrap_s_above: "256 \<le> m \<Longrightarrow> i \<le> 0 \<Longrightarrow> - m \<le> i \<Longrightarrow> - 176 \<le> j \<Longrightarrow> j < 0 \<Longrightarrow> i < wrap_s m (i - j)"
  by (subst wrap_s_id) simp_all

lemma strl2rc_neg_eq:
  assumes m: "256 \<le> m"
  shows "i \<le> 0 \<Longrightarrow> - m \<le> i \<Longrightarrow>
    strl2rc_neg m s i =
      (if list_all is_digit s \<and> - m \<le> i * 10 ^ length s - int (dec_value s)
       then Some (i * 10 ^ length s - int (dec_value s)) else None)"
proof (induction s arbitrary: i)
  case Nil
  then show ?case by simp
next
  case (Cons c s)
  let ?j = "sint c - 48"
  let ?v = "i * 10 ^ length (c # s) - int (dec_value (c # s))"
  have lim: "i < - (m div 10) \<longleftrightarrow> i * 10 < - m" by linarith
  show ?case
  proof (cases "is_digit c")
    case False
    then have "i * 10 < wrap_s m (i * 10 - ?j)" if "- m \<le> i * 10" "\<not> ?j > 9"
      using sint_minus_48 [OF False] wrap_s_above [OF m, of "i * 10" ?j] that Cons.prems by simp
    with False lim show ?thesis by (auto simp: Let_def not_less)
  next
    case True
    then have j: "0 \<le> ?j" "?j \<le> 9" using digit_val_le [of c] by (simp_all only: sint_digit) simp_all
    have v: "?v = (i * 10 - ?j) * 10 ^ length s - int (dec_value s)"
      using True by (simp add: dec_value_Cons sint_digit algebra_simps)
    show ?thesis
    proof (cases "- m \<le> i * 10 - ?j")
      case small: True
      then have "wrap_s m (i * 10 - ?j) = i * 10 - ?j" using Cons.prems j m by (simp add: wrap_s_id)
      then have "strl2rc_neg m (c # s) i = strl2rc_neg m s (i * 10 - ?j)"
        using small j lim by (simp add: Let_def)
      then show ?thesis using Cons.IH [of "i * 10 - ?j"] Cons.prems j small True
        by (simp only: v list.pred_inject) simp
    next
      case over: False
      have "(m + 1) * 1 \<le> (?j - i * 10) * 10 ^ length s"
        using over Cons.prems j m by (intro mult_mono) simp_all
      then have "\<not> - m \<le> ?v" unfolding v by (simp add: algebra_simps)
      moreover have "strl2rc_neg m (c # s) i = None"
      proof (cases "- m \<le> i * 10")
        case True
        then have "wrap_s m (i * 10 - ?j) = i * 10 - ?j + 2 * m"
          using over j m by (intro wrap_s_under) simp_all
        then show ?thesis using True lim j m by (simp add: Let_def)
      next
        case False
        then show ?thesis using lim j by (simp add: Let_def)
      qed
      ultimately show ?thesis by simp
    qed
  qed
qed

lemma signed_parse_eq:
  assumes "256 \<le> m"
  shows "(case s of [] \<Rightarrow> None
     | c # r \<Rightarrow> if c \<noteq> MINUS then strl2rc_pos m s 0 else strl2rc_neg m r 0) = signed_value m s"
  using strl2rc_pos_eq [OF assms, of 0 s] strl2rc_neg_eq [OF assms, of 0 "tl s"] assms
  by (cases s) (simp_all add: signed_value_def del: strl2rc_pos.simps strl2rc_neg.simps)

text \<open>Strl2irc.  It accepts exactly an optional minus sign followed by digits whose value fits an
  int, and returns that value; every other text, an overflow included, is an error.\<close>

theorem strl2irc_exact: "strl2irc s = signed_value (2 ^ 31) s"
  unfolding strl2irc_def by (rule signed_parse_eq) simp

text \<open>Strl2llrc.\<close>

theorem strl2llrc_exact: "strl2llrc s = signed_value (2 ^ 63) s"
  unfolding strl2llrc_def by (rule signed_parse_eq) simp

subsection \<open>Printing then parsing\<close>

lemma canonical_not_minus: "canonical ds n \<Longrightarrow> \<exists>c r. ds = c # r \<and> c \<noteq> MINUS \<and> is_digit c"
  by (cases ds) (auto simp: canonical_def is_digit_def)

lemma strl2llrc_canonical:
  assumes "canonical ds n"
  shows "int n < 2 ^ 63 \<Longrightarrow> strl2llrc ds = Some (int n)"
    and "int n \<le> 2 ^ 63 \<Longrightarrow> strl2llrc (MINUS # ds) = Some (- int n)"
  using canonical_not_minus [OF assms] assms
  by (auto simp: strl2llrc_exact signed_value_def canonical_def)

text \<open>Lltoa then strl2llrc.  Whenever the printer has room, parsing what it printed gives the number
  back, for every signed 64-bit value, the smallest one included.\<close>

theorem lltoa_strl2llrc:
  assumes "lltoa n sz = Some ds"
  shows "strl2llrc ds = Some (sint n)"
proof (cases "sint n < 0")
  case True
  with assms obtain es where ds: "ds = MINUS # es" and "ulltoa (- n) (sz - 1) = Some es"
    by (auto simp: lltoa_def word_sless_alt split: if_splits)
  then have can: "canonical es (unat (- n))"
    using ulltoa_canonical [of "- n"] by (simp add: ulltoa_def Let_def split: if_splits)
  have u: "int (unat (- n)) = - sint n" using uint_minus_neg [OF True] by simp
  moreover have "- sint n \<le> 2 ^ 63" using sint_greater_eq [of n] by simp
  ultimately show ?thesis using strl2llrc_canonical(2) [OF can] by (simp add: ds)
next
  case False
  with assms have "ulltoa n sz = Some ds" by (simp add: lltoa_def word_sless_alt)
  then have can: "canonical ds (unat n)"
    using ulltoa_canonical [of n] by (simp add: ulltoa_def Let_def split: if_splits)
  have "sint n = uint n" using False sint_cases [of n] uint_lt2p [of n] by (simp split: if_splits)
  moreover have "sint n < 2 ^ 63" using sint_less [of n] by simp
  ultimately show ?thesis using strl2llrc_canonical(1) [OF can] by simp
qed

theorem lltoa_strl2llrc_witness:
  "strl2llrc (bytes ''-120'') = Some (sint (- 120 :: u64))"
  by (rule lltoa_strl2llrc [of _ 8])
    code_simp

subsection \<open>Sizes\<close>

abbreviation dec_from :: "nat \<Rightarrow> byte list \<Rightarrow> nat" where
  "dec_from a s \<equiv> foldl (\<lambda>a c. a * 10 + digit_val c) a (takeWhile is_digit s)"

lemma dec_from_mono: "a \<le> dec_from a s"
proof -
  have "a * 1 \<le> a * 10 ^ length (takeWhile is_digit s)" by (intro mult_le_mono2) simp
  then show ?thesis unfolding foldl_dec by linarith
qed

lemma unat_small: "n < 2 ^ 32 \<Longrightarrow> unat (of_nat n :: u32) = n"
  by (simp add: unat_of_nat take_bit_nat_eq_self)

lemma unat_wrap: "2 ^ 32 \<le> n \<Longrightarrow> n < 2 * 2 ^ 32 \<Longrightarrow> unat (of_nat n :: u32) = n - 2 ^ 32"
  by (simp add: unat_of_nat mod_if)

lemma parse_size_loop_eq:
  "a < 2 ^ 32 \<Longrightarrow> ok (parse_size_loop s (of_nat a)) =
    (if dec_from a s < 2 ^ 32 then Some (of_nat (dec_from a s), dropWhile is_digit s) else None)"
proof (induction s arbitrary: a)
  case Nil
  then show ?case by simp
next
  case (Cons c s)
  show ?case
  proof (cases "is_digit c")
    case False
    then show ?thesis using Cons.prems by (simp add: char_facts)
  next
    case True
    let ?d = "digit_val c"
    let ?w = "of_nat a * 10 + digit_of c :: u32"
    have d: "?d \<le> 9" using True by (rule digit_val_le)
    have w: "?w = of_nat (a * 10 + ?d)" using True by (rule read_uint_step)
    have times_ten: "(of_nat a * 10 :: u32) = of_nat (a * 10)" by simp
    have lim: "of_nat a > (NOT 0 div 10 :: u32) \<longleftrightarrow> a > 429496729"
      using Cons.prems by (simp add: word_less_nat_alt unat_of_nat take_bit_nat_eq_self unat_div)
    have m: "dec_from (a * 10 + ?d) s = dec_from a (c # s)" using True by simp
    show ?thesis
    proof (cases "a * 10 + ?d < 2 ^ 32")
      case small: True
      have ten: "unat (of_nat a * 10 :: u32) = a * 10"
        unfolding times_ten using small by (intro unat_small) simp
      have "\<not> of_nat a * 10 > ?w"
        using ten unat_small [OF small] unfolding w word_less_nat_alt by linarith
      moreover have "\<not> a > 429496729" using small by simp
      ultimately have "parse_size_loop (c # s) (of_nat a) = parse_size_loop s ?w"
        using True lim by (simp add: char_facts Let_def)
      then show ?thesis using Cons.IH [OF small] True
        by (simp only: w m dropWhile.simps if_True)
    next
      case over: False
      have "ok (parse_size_loop (c # s) (of_nat a)) = None"
      proof (cases "a > 429496729")
        case False
        then have lt: "a * 10 + ?d < 2 * 2 ^ 32" "a * 10 < 2 ^ 32" using d by simp_all
        have "unat ?w = a * 10 + ?d - 2 ^ 32"
          unfolding w using over lt(1) by (intro unat_wrap) simp_all
        moreover have "unat (of_nat a * 10 :: u32) = a * 10"
          unfolding times_ten using lt(2) by (rule unat_small)
        ultimately have "of_nat a * 10 > ?w"
          unfolding word_less_nat_alt using over lt d by simp
        then show ?thesis using True lim False by (simp add: char_facts Let_def)
      qed (use True lim in \<open>simp add: char_facts Let_def\<close>)
      moreover have "\<not> dec_from a (c # s) < 2 ^ 32"
        using over dec_from_mono [of "a * 10 + ?d" s] m by simp
      ultimately show ?thesis by simp
    qed
  qed
qed

text \<open>The multiplier of the suffix \<open>c\<close> of a size.\<close>

definition size_factor :: "byte \<Rightarrow> nat option" where
  "size_factor c =
    (if c = 0 then Some 1
     else if c = 0x4b \<or> c = 0x6b then Some (2 ^ 10)
     else if c = 0x4d \<or> c = 0x6d then Some (2 ^ 20)
     else if c = 0x47 \<or> c = 0x67 then Some (2 ^ 30)
     else None)"

lemma all_ones_shift:
  "drop_bit 10 (NOT 0 :: u32) = of_nat 4194303"
  "drop_bit 20 (NOT 0 :: u32) = of_nat 4095"
  "drop_bit 30 (NOT 0 :: u32) = of_nat 3"
  by (simp_all add: word_unat_eq_iff unat_drop_bit_eq mask_eq_decr_exp)

lemma of_nat_gt: "n < 2 ^ 32 \<Longrightarrow> k < 2 ^ 32 \<Longrightarrow> (of_nat n > (of_nat k :: u32)) \<longleftrightarrow> n > k"
  by (simp only: word_less_nat_alt unat_small)

lemma push_bit_of_nat_u32: "push_bit k (of_nat n :: u32) = of_nat (n * 2 ^ k)"
  by (simp add: push_bit_eq_mult)

text \<open>Sizes.  A size with an optional k, m or g suffix is accepted exactly when its value in
  bytes fits 32 bits, and is then that value: no multiplication or shift ever wraps.  Text after a
  suffix letter is ignored.\<close>

theorem parse_size_exact:
  "ok (parse_size_err text) =
    (let n = dec_value (takeWhile is_digit text)
     in case size_factor (cur (dropWhile is_digit text)) of
          None \<Rightarrow> None
        | Some k \<Rightarrow> if n * k < 2 ^ 32 then Some (of_nat (n * k)) else None)"
proof -
  let ?n = "dec_from 0 text" and ?r = "dropWhile is_digit text"
  have loop: "ok (parse_size_loop text 0) = (if ?n < 2 ^ 32 then Some (of_nat ?n, ?r) else None)"
    using parse_size_loop_eq [of 0 "text"] by simp
  have n: "dec_value (takeWhile is_digit text) = ?n" by (simp add: dec_value_def)
  show ?thesis
  proof (cases "?n < 2 ^ 32")
    case True
    then have "parse_size_loop text 0 = Inr (of_nat ?n, ?r)"
      using loop by (cases "parse_size_loop text 0") auto
    then show ?thesis using True
      by (simp only: parse_size_err_def n sum.case prod.case all_ones_shift push_bit_of_nat_u32)
        (auto simp: size_factor_def Let_def of_nat_gt simp del: of_nat_mult of_nat_numeral of_nat_power)
  next
    case False
    then obtain e where "parse_size_loop text 0 = Inl e"
      using loop by (cases "parse_size_loop text 0") auto
    then show ?thesis using False unfolding parse_size_err_def n
      by (auto simp: size_factor_def Let_def split: option.split)
  qed
qed

subsection \<open>Times\<close>

text \<open>The suffixes with their length in microseconds, and the caller's units.\<close>

definition time_suffixes :: "(byte list \<times> nat) list" where
  "time_suffixes =
    [([0x75, 0x73], 1), ([0x6d, 0x73], 10 ^ 3), ([0x73], 10 ^ 6), ([0x6d], 60 * 10 ^ 6),
     ([0x68], 3600 * 10 ^ 6), ([0x64], 86400 * 10 ^ 6)]"

definition time_outputs :: "(nat \<times> nat) list" where
  "time_outputs =
    [(0, 1), (1, 10 ^ 3), (2, 10 ^ 6), (3, 60 * 10 ^ 6), (4, 3600 * 10 ^ 6), (5, 86400 * 10 ^ 6)]"

text \<open>The reductions that the units need.\<close>

lemma reduce_table:
  "reduce_pair 1000000 1 = (1000000, 1)"
  "reduce_pair 1000000 1000 = (1000, 1)"
  "reduce_pair 1000000 1000000 = (1, 1)"
  "reduce_pair 1000 1 = (1000, 1)"
  "reduce_pair 1000 1000 = (1, 1)"
  "reduce_pair 1000 1000000 = (1, 1000)"
  "reduce_pair 1 1 = (1, 1)"
  "reduce_pair 1 1000 = (1, 1000)"
  "reduce_pair 1 1000000 = (1, 1000000)"
  "reduce_pair 1 60 = (1, 60)"
  "reduce_pair 1 3600 = (1, 3600)"
  "reduce_pair 1 86400 = (1, 86400)"
  "reduce_pair 60 1 = (60, 1)"
  "reduce_pair 60 60 = (1, 1)"
  "reduce_pair 60 3600 = (1, 60)"
  "reduce_pair 60 86400 = (1, 1440)"
  "reduce_pair 3600 1 = (3600, 1)"
  "reduce_pair 3600 60 = (60, 1)"
  "reduce_pair 3600 3600 = (1, 1)"
  "reduce_pair 3600 86400 = (1, 24)"
  "reduce_pair 86400 1 = (86400, 1)"
  "reduce_pair 86400 60 = (1440, 1)"
  "reduce_pair 86400 3600 = (24, 1)"
  "reduce_pair 86400 86400 = (1, 1)"
  by (simp_all add: reduce_pair_def Let_def)

lemma time_scale_all:
  "\<forall>(us_out, out) \<in> set [(1, 1000000, 1), (1000, 1000, 1), (1000000, 1, 1),
      (60000000, 1, 60), (3600000000, 1, 3600), (86400000000, 1, 86400)].
   \<forall>(us_in, inp) \<in> set [(1, 1, 1000000), (1000, 1, 1000), (1000000, 1, 1), (60000000, 60, 1),
      (3600000000, 3600, 1), (86400000000, 86400, 1)].
    time_scale v inp out =
      (v * of_nat (us_in div min us_in us_out) + (of_nat (us_out div min us_in us_out) - 1))
        div of_nat (us_out div min us_in us_out)"
  by (simp add: time_scale_def reduce_table)

lemma time_scale_table:
  assumes "(suf, us_in) \<in> set time_suffixes" "(fl, us_out) \<in> set time_outputs"
    and "time_in_scale suf = Some inp"
  shows "time_scale v inp (time_out_scale fl) =
      (v * of_nat (us_in div min us_in us_out) + (of_nat (us_out div min us_in us_out) - 1))
        div of_nat (us_out div min us_in us_out)"
proof -
  have "(us_out, time_out_scale fl) \<in> set [(1, 1000000, 1), (1000, 1000, 1), (1000000, 1, 1),
      (60000000, 1, 60), (3600000000, 1, 3600), (86400000000, 1, 86400)]"
    using assms(2) by (auto simp: time_outputs_def time_out_scale_def)
  moreover have "(us_in, inp) \<in> set [(1, 1, 1000000), (1000, 1, 1000), (1000000, 1, 1),
      (60000000, 60, 1), (3600000000, 3600, 1), (86400000000, 86400, 1)]"
    using assms(1,3) by (auto simp: time_suffixes_def time_in_scale_def at_def)
  ultimately show ?thesis using time_scale_all [of v] by blast
qed

lemma time_table_dvd:
  assumes "(suf, us_in) \<in> set time_suffixes" "(fl, us_out) \<in> set time_outputs"
  shows "us_in = us_in div min us_in us_out * min us_in us_out"
    "us_out = us_out div min us_in us_out * min us_in us_out" "0 < min us_in us_out"
  using assms by (auto simp: time_suffixes_def time_outputs_def)

lemma ceil_div_cancel:
  assumes "0 < (g :: nat)" "0 < q"
  shows "(x * g + q * g - 1) div (q * g) = (x + q - 1) div q"
proof -
  obtain h r where gq: "g = Suc h" "q = Suc r" using assms by (metis gr0_implies_Suc)
  then have "x * g + q * g - 1 = h + g * (x + r)" by (simp add: algebra_simps)
  moreover have "(h + g * (x + r)) div g = x + r"
    using assms(1) gq(1) by (subst div_mult_self2) simp_all
  moreover have "x + r = x + q - 1" using gq by simp
  ultimately have "(x * g + q * g - 1) div g = x + q - 1" by (simp only:)
  then show ?thesis by (metis div_mult2_eq mult.commute)
qed

lemma ceil_div_u32:
  assumes "n * k + q - 1 < 2 ^ 32" "0 < q" "q < 2 ^ 32"
  shows "(of_nat n * of_nat k + (of_nat q - 1)) div of_nat q = (of_nat ((n * k + q - 1) div q) :: u32)"
proof -
  have "of_nat n * of_nat k + (of_nat q - 1) = (of_nat (n * k + q - 1) :: u32)"
    using assms(2) by (simp add: of_nat_diff)
  then have "unat ((of_nat n * of_nat k + (of_nat q - 1)) div of_nat q :: u32) = (n * k + q - 1) div q"
    using assms(1,3) by (simp only: unat_div unat_small)
  moreover have "(n * k + q - 1) div q < 2 ^ 32"
    using assms(1) div_le_dividend le_less_trans by blast
  ultimately show ?thesis by (simp only: word_unat_eq_iff unat_small)
qed

text \<open>Times.  A number followed by a unit suffix is converted to the unit the caller asks for, rounded
  up, for every pair of units, as long as the number in the finer of the two scales fits 32 bits.\<close>

theorem parse_time_rounds_up:
  assumes ds: "list_all is_digit ds"
    and suf: "(suf, us_in) \<in> set time_suffixes" and fl: "(fl, us_out) \<in> set time_outputs"
    and fits: "dec_value ds * (us_in div min us_in us_out) + us_out div min us_in us_out - 1 < 2 ^ 32"
  shows "parse_time_err (ds @ suf) fl = Inr (of_nat ((dec_value ds * us_in + us_out - 1) div us_out))"
proof -
  let ?g = "min us_in us_out" and ?n = "dec_value ds"
  let ?k = "us_in div ?g" and ?q = "us_out div ?g"
  note tab = time_table_dvd [OF suf fl]
  have cs: "takeWhile is_digit (ds @ suf) = ds" "dropWhile is_digit (ds @ suf) = suf" "cur suf \<noteq> 0"
    using ds suf by (auto simp: list_all_iff time_suffixes_def is_digit_def takeWhile_append dropWhile_append)
  have q: "0 < ?q" "?q < 2 ^ 32" "0 < ?k" using suf fl fits
    by (auto simp: time_suffixes_def time_outputs_def)
  obtain inp where inp: "time_in_scale suf = Some inp"
    using suf by (auto simp: time_suffixes_def time_in_scale_def at_def)
  note sc = time_scale_table [OF suf fl inp, of "of_nat ?n"]
  have "parse_time_err (ds @ suf) fl = Inr (time_scale (of_nat ?n) inp (time_out_scale fl))"
    using cs inp read_uint_eq [of "ds @ suf"] by (simp add: parse_time_err_def read_uint_def)
  also have "\<dots> = Inr (of_nat ((?n * ?k + ?q - 1) div ?q))"
    using fits q by (simp only: sc ceil_div_u32)
  also have "(?n * ?k + ?q - 1) div ?q = (?n * us_in + us_out - 1) div us_out"
    using ceil_div_cancel [of ?g ?q "?n * ?k"] tab q by (simp add: mult.assoc)
  finally show ?thesis .
qed

theorem parse_time_rounds_up_witness:
  "parse_time_err (bytes ''1500'' @ bytes ''us'') 1 = Inr (of_nat 2)"
proof -
  have "(bytes ''us'', 1) \<in> set time_suffixes" "(1, 10 ^ 3) \<in> set time_outputs"
    by (simp_all add: time_suffixes_def time_outputs_def)
  moreover have "dec_value (bytes ''1500'') = 1500" "list_all is_digit (bytes ''1500'')"
    by code_simp+
  ultimately show ?thesis using parse_time_rounds_up [of "bytes ''1500''" "bytes ''us''" 1 1 "10 ^ 3"]
    by simp
qed

end
