(* ===== verification/HA_Strings.thy ===== *)
theory HA_Strings
  imports HA_Numbers_Proofs
begin

section \<open>String helpers (src/standard.c, include/common/standard.h)\<close>

text \<open>
  Hexadecimal digits, URL encoding and decoding, CSV quoting, the searches and
  comparisons of byte strings, and the textual IPv4 addresses.  Functions that
  write through a pointer give the bytes they write; \<open>(start, stop)\<close> is the
  number of bytes between them.
\<close>

subsection \<open>Definitions\<close>

text \<open>The character is decremented in place, so the arithmetic is on 8 bits.\<close>

definition ishex :: "byte \<Rightarrow> bool" where
  "ishex c =
    (let s = c - 48
     in if s \<le> 9 then True
        else let s = s - 17
             in if s \<le> 5 then True
                else let s = s - 32 in s \<le> 5)"

definition hex2i :: "byte \<Rightarrow> int" where
  "hex2i b =
    (let c = sint b - 48
     in if (word_of_int c :: byte) > 9 then
          let c = c - 17
          in if (word_of_int c :: byte) > 5 then
               let c = c - 32
               in if (word_of_int c :: byte) > 5 then - 11 + 10 else c + 10
             else c + 10
        else c)"

definition isalnum_b :: "byte \<Rightarrow> bool" where
  "isalnum_b c \<longleftrightarrow> 48 \<le> c \<and> c \<le> 57 \<or> 65 \<le> c \<and> c \<le> 90 \<or> 97 \<le> c \<and> c \<le> 122"

text \<open>The text at the first invalid character, \<open>None\<close> when there is none.\<close>

fun invalid_char_loop :: "byte list \<Rightarrow> byte list option" where
  "invalid_char_loop [] = None"
| "invalid_char_loop (c # s) =
    (if c = 0 then None
     else if \<not> isalnum_b c \<and> c \<noteq> DOT \<and> c \<noteq> COLON \<and> c \<noteq> UNDERSCORE \<and> c \<noteq> MINUS
     then Some (c # s) else invalid_char_loop s)"

definition invalid_char :: "byte list \<Rightarrow> byte list option" where
  "invalid_char name = (if cur name = 0 then Some name else invalid_char_loop name)"

definition hextab :: "byte \<Rightarrow> byte" where
  "hextab n = (if n < 10 then 48 + n else 65 + (n - 10))"

fun encode_loop :: "bool \<Rightarrow> byte \<Rightarrow> (byte \<Rightarrow> bool) \<Rightarrow> nat \<Rightarrow> byte list \<Rightarrow> byte list" where
  "encode_loop stop0 escape tagged room [] = []"
| "encode_loop stop0 escape tagged room (c # s) =
    (if room = 0 \<or> (stop0 \<and> c = 0) then []
     else if \<not> tagged c then c # encode_loop stop0 escape tagged (room - 1) s
     else if room \<le> 3 then []
     else escape # hextab (drop_bit 4 c AND 15) # hextab (c AND 15)
            # encode_loop stop0 escape tagged (room - 3) s)"

definition encode_string :: "nat \<Rightarrow> byte \<Rightarrow> (byte \<Rightarrow> bool) \<Rightarrow> byte list \<Rightarrow> byte list option" where
  "encode_string n escape tagged s =
    (if 0 < n then Some (encode_loop True escape tagged (n - 1) s) else None)"

definition encode_chunk :: "nat \<Rightarrow> byte \<Rightarrow> (byte \<Rightarrow> bool) \<Rightarrow> byte list \<Rightarrow> byte list option" where
  "encode_chunk n escape tagged s =
    (if 0 < n then Some (encode_loop False escape tagged (n - 1) s) else None)"

text \<open>
  The decoding is in place, but the write position never passes the read
  position, so the loop reads the original bytes.  The flag tells success.
\<close>

fun url_decode_loop :: "byte list \<Rightarrow> byte list \<times> bool" where
  "url_decode_loop [] = ([], True)"
| "url_decode_loop (c # s) =
    (if c = 0 then ([], True)
     else if c = PLUS then
       (let (out, fine) = url_decode_loop s in (SP # out, fine))
     else if c = PERCENT then
       (if \<not> ishex (at s 0) \<or> \<not> ishex (at s 1) then ([], False)
        else let (out, fine) = url_decode_loop (drop 2 s)
             in (word_of_int (hex2i (at s 0) * 16 + hex2i (at s 1)) # out, fine))
     else (let (out, fine) = url_decode_loop s in (c # out, fine)))"

definition url_decode :: "byte list \<Rightarrow> int \<times> byte list" where
  "url_decode string =
    (let (out, fine) = url_decode_loop string
     in (if fine then int (length out) else - 1, out))"

text \<open>
  \<open>qstr\<close> fills one of the static buffers, whose earlier content stays behind
  what it writes; \<open>QSTR_SIZE\<close> is 200.
\<close>

fun qstr_loop :: "nat \<Rightarrow> byte list \<Rightarrow> byte list" where
  "qstr_loop 0 str = []"
| "qstr_loop (Suc room) str =
    (if cur str = 0 then []
     else if cur str = DQUOTE then DQUOTE # DQUOTE # qstr_loop (room - 1) (drop 1 str)
     else cur str # qstr_loop room (drop 1 str))"

definition qstr :: "byte list \<Rightarrow> byte list \<Rightarrow> byte list" where
  "qstr old str =
    (let w = [DQUOTE] @ qstr_loop (200 - 3 - 1) str @ [DQUOTE] in w @ drop (length w) old)"

text \<open>\<open>quote_arg\<close> keeps at most 29 characters of the argument.\<close>

definition quote_arg :: "byte list option \<Rightarrow> byte list" where
  "quote_arg ptr =
    (case ptr of None \<Rightarrow> bytes ''end of line''
     | Some s \<Rightarrow>
         if cur s = 0 then bytes ''end of line''
         else [39] @ take 29 (takeWhile (\<lambda>c. c \<noteq> 0) s) @ [39])"

datatype std_op = STD_OP_EQ | STD_OP_NE | STD_OP_LE | STD_OP_LT | STD_OP_GE | STD_OP_GT

definition get_std_op :: "byte list \<Rightarrow> std_op option" where
  "get_std_op str =
    (let c = at str 0; d = at str 1;
         ret = (if c = 0x65 \<and> d = 0x71 then Some STD_OP_EQ
                else if c = 0x6e \<and> d = 0x65 then Some STD_OP_NE
                else if c = 0x6c then
                  (if d = 0x65 then Some STD_OP_LE else if d = 0x74 then Some STD_OP_LT else None)
                else if c = 0x67 then
                  (if d = 0x65 then Some STD_OP_GE else if d = 0x74 then Some STD_OP_GT else None)
                else None)
     in if ret = None \<or> at str 2 \<noteq> 0 then None else ret)"

fun word_match_loop :: "byte list \<Rightarrow> byte list \<Rightarrow> bool" where
  "word_match_loop sample [] = list_all (\<lambda>c. \<not> (c \<noteq> SP \<and> c \<noteq> HT)) sample"
| "word_match_loop [] (w # word) = False"
| "word_match_loop (s # sample) (w # word) =
    (let c = s XOR w
     in if c \<noteq> 0 \<and> c \<noteq> 0x41 XOR 0x61 then False else word_match_loop sample word)"

definition word_match :: "byte list \<Rightarrow> byte list \<Rightarrow> bool" where
  "word_match sample word =
    (if length sample < length word then False else word_match_loop sample word)"

text \<open>The position is relative to the start of the haystack.\<close>

function my_memmem_loop :: "byte list \<Rightarrow> byte list \<Rightarrow> nat \<Rightarrow> nat option" where
  "my_memmem_loop needle hay pos =
    (let skip = length (takeWhile (\<lambda>c. c \<noteq> cur needle) hay); c = drop skip hay
     in if c = [] then None
        else if length c < length needle then None
        else if take (length needle) c = needle then Some (pos + skip)
        else my_memmem_loop needle (drop 1 c) (pos + skip + 1))"
  by pat_completeness auto
termination
  by (relation "measure (\<lambda>(needle, hay, pos). length hay)") (auto simp: Let_def)

definition my_memmem :: "byte list \<Rightarrow> byte list \<Rightarrow> nat option" where
  "my_memmem haystack needle =
    (if length haystack < length needle then None else my_memmem_loop needle haystack 0)"

text \<open>
  The scan of a dotted address: the number of octets seen, the flag
  \<open>saw_digit\<close>, and the octets so far, the current one first.  The result gives
  the octets and the text that stopped the scan; \<open>None\<close> is a malformed address.
\<close>

fun ip4_scan :: "byte list \<Rightarrow> nat \<Rightarrow> bool \<Rightarrow> byte list \<Rightarrow> (nat \<times> byte list \<times> byte list) option" where
  "ip4_scan [] octets saw tp = Some (octets, tp, [])"
| "ip4_scan (ch # addr) octets saw tp =
    (let digit = ch - 48
     in if digit > 9 \<and> ch \<noteq> DOT then Some (octets, tp, ch # addr)
        else if digit \<le> 9 then
          (let new = unat (cur tp) * 10 + unat digit
           in if new > 255 then None
              else let tp = of_nat new # drop 1 tp
                   in if \<not> saw then
                        (if octets + 1 > 4 then None else ip4_scan addr (octets + 1) True tp)
                      else ip4_scan addr octets saw tp)
        else if ch = DOT \<and> saw then
          (if octets = 4 then None else ip4_scan addr octets False (0 # tp))
        else None)"

definition buf2ip :: "byte list \<Rightarrow> (nat \<times> byte list) option" where
  "buf2ip buf =
    (case ip4_scan buf 0 False [0] of None \<Rightarrow> None
     | Some (octets, tp, rest) \<Rightarrow>
         if octets < 4 then None else Some (length buf - length rest, rev tp))"

text \<open>
  \<open>url2ipv4\<close> advances past each character before it looks at it, and returns
  \<open>addr - cp - 1\<close>: the character that stopped the scan has been passed too, the
  terminating zero has not.
\<close>

definition url2ipv4 :: "byte list \<Rightarrow> (nat \<times> byte list) option" where
  "url2ipv4 s =
    (let addr = takeWhile (\<lambda>c. c \<noteq> 0) s
     in case ip4_scan addr 0 False [0] of None \<Rightarrow> None
     | Some (octets, tp, rest) \<Rightarrow>
         if octets < 4 then None
         else Some ((if rest = [] then length addr else length addr - length rest + 1) - 1, rev tp))"

definition cidr2dotted :: "int \<Rightarrow> u32 option" where
  "cidr2dotted cidr =
    (if cidr < 0 \<or> cidr > 32 then None
     else Some (if cidr \<noteq> 0 then push_bit (nat (32 - cidr)) (NOT 0) else 0))"

definition in_net_ipv4 :: "u32 \<Rightarrow> u32 \<Rightarrow> u32 \<Rightarrow> bool" where
  "in_net_ipv4 addr msk net \<longleftrightarrow> addr AND msk = net AND msk"

definition rfc4291_pfx :: "byte list" where
  "rfc4291_pfx = [0, 0, 0, 0, 0, 0, 0, 0, 0, 0, 0xFF, 0xFF]"

definition v4tov6 :: "byte list \<Rightarrow> byte list" where
  "v4tov6 sin_addr = rfc4291_pfx @ take 4 sin_addr"

definition v6tov4 :: "byte list \<Rightarrow> byte list option" where
  "v6tov4 sin6_addr =
    (if take 12 sin6_addr = rfc4291_pfx then Some (take 4 (drop 12 sin6_addr)) else None)"

text \<open>\<open>parse_binary\<close> into a buffer it allocates (\<open>None\<close>) or one of the given size.\<close>

fun parse_binary_loop :: "byte list \<Rightarrow> byte list option" where
  "parse_binary_loop (a # b # p) =
    (if \<not> ishex a then None else if \<not> ishex b then None
     else map_option (\<lambda>r. word_of_int (hex2i a * 16 + hex2i b) # r) (parse_binary_loop p))"
| "parse_binary_loop p = Some []"

definition parse_binary :: "byte list \<Rightarrow> nat option \<Rightarrow> (nat \<times> byte list) option" where
  "parse_binary source room =
    (let len = length source
     in if len mod 2 \<noteq> 0 then None
        else let len = len div 2
             in if (case room of None \<Rightarrow> False | Some n \<Rightarrow> n < len) then None
                else map_option (\<lambda>out. (len * 2, out)) (parse_binary_loop source))"

subsection \<open>Encoding and decoding\<close>

lemma nibble_table:
  "list_all (\<lambda>k. ishex (hextab (of_nat k)) \<and> hex2i (hextab (of_nat k)) = int k) [0..<16]"
  by code_simp

lemma nibble_cases:
  assumes "unat (n :: byte) < 16"
  shows "ishex (hextab n)" "hex2i (hextab n) = int (unat n)"
proof -
  have "unat n \<in> set [0..<16]" using assms by simp
  then have "ishex (hextab (of_nat (unat n))) \<and> hex2i (hextab (of_nat (unat n))) = int (unat n)"
    using nibble_table unfolding list_all_iff by blast
  then show "ishex (hextab n)" "hex2i (hextab n) = int (unat n)" by simp_all
qed

lemma unat_and_15: "unat (x AND 15 :: byte) = unat x mod 16"
proof -
  have "x AND 15 = take_bit 4 x" by (simp add: take_bit_eq_mask mask_eq_decr_exp)
  then have "x AND 15 = x mod 16" by (simp add: take_bit_eq_mod)
  then show ?thesis by (simp only: unat_mod) simp
qed

lemma unat_nibbles:
  "unat (drop_bit 4 c AND 15 :: byte) = unat c div 16"
  "unat (c AND 15 :: byte) = unat c mod 16"
proof -
  show "unat (c AND 15) = unat c mod 16" by (rule unat_and_15)
  have "unat (drop_bit 4 c AND 15) = unat c div 2 ^ 4 mod 16"
    by (simp only: unat_and_15 unat_drop_bit_eq) (simp add: drop_bit_eq_div)
  then show "unat (drop_bit 4 c AND 15) = unat c div 16" using byte_less_256 [of c] by simp
qed

lemma hex_roundtrip:
  fixes c :: byte
  defines "hi \<equiv> hextab (drop_bit 4 c AND 15)" and "lo \<equiv> hextab (c AND 15)"
  shows "ishex hi" "ishex lo" "word_of_int (hex2i hi * 16 + hex2i lo) = c"
proof -
  have b: "unat (drop_bit 4 c AND 15) < 16" "unat (c AND 15) < 16"
    using byte_less_256 [of c] unfolding unat_nibbles by simp_all
  show "ishex hi" "ishex lo" unfolding hi_def lo_def using b by (simp_all only: nibble_cases)
  have "hex2i hi * 16 + hex2i lo = int (unat c div 16 * 16 + unat c mod 16)"
    using nibble_cases(2) [OF b(1), unfolded unat_nibbles(1)]
      nibble_cases(2) [OF b(2), unfolded unat_nibbles(2)]
    by (simp only: hi_def lo_def of_nat_add of_nat_mult of_nat_numeral)
  also have "\<dots> = int (unat c)" by (simp only: div_mult_mod_eq)
  finally show "word_of_int (hex2i hi * 16 + hex2i lo) = c" by simp
qed

lemma encode_loop_length: "length (encode_loop z e t room s) \<le> room"
  by (induction z e t room s rule: encode_loop.induct) auto

text \<open>Bounded encoding.  The encoders never write past the space they are given: what they store and
  the terminating zero fit it.\<close>

theorem encode_fits:
  assumes "encode_string n e t s = Some out \<or> encode_chunk n e t s = Some out"
  shows "length out + 1 \<le> n"
  using assms encode_loop_length [of _ e t "n - 1" s]
  by (auto simp: encode_string_def encode_chunk_def Suc_le_eq split: if_splits)
    (metis Suc_pred le_imp_less_Suc)+

theorem encode_fits_witness: "length (bytes ''a%20'') + 1 \<le> 9"
  by (rule encode_fits [of 9 PERCENT "\<lambda>c. c = SP" "bytes ''a ''"]) code_simp

lemma url_decode_encode_loop:
  assumes "t PERCENT" "t PLUS" "t 0"
  shows "3 * length s < room \<Longrightarrow> url_decode_loop (encode_loop False PERCENT t room s) = (s, True)"
proof (induction s arbitrary: room)
  case Nil
  then show ?case by simp
next
  case (Cons c s)
  show ?case
  proof (cases "t c")
    case True
    with Cons show ?thesis using hex_roundtrip [of c]
      by (simp del: of_int_add of_int_mult)
  next
    case False
    then have "c \<noteq> 0" "c \<noteq> PERCENT" "c \<noteq> PLUS" using assms by auto
    with Cons False show ?thesis by simp
  qed
qed

text \<open>URL round trip.  Decoding what encode_chunk wrote with escape '%' gives the bytes back, when the set
  of escaped characters holds '%', '+' and zero and the output has room for every byte to be escaped.\<close>

theorem url_decode_encode:
  assumes "t PERCENT" "t PLUS" "t 0" "3 * length s + 1 < n"
    and "encode_chunk n PERCENT t s = Some out"
  shows "url_decode out = (int (length s), s)"
proof -
  have "out = encode_loop False PERCENT t (n - 1) s"
    using assms(5) by (simp add: encode_chunk_def split: if_splits)
  then have "url_decode_loop out = (s, True)"
    using url_decode_encode_loop [of t s "n - 1"] assms by simp
  then show ?thesis by (simp add: url_decode_def)
qed

theorem url_decode_encode_witness: "url_decode (bytes ''a%20b'') = (int 3, bytes ''a b'')"
  using url_decode_encode [of "\<lambda>c. c \<in> {0, SP, PERCENT, PLUS}" "bytes ''a b''" 20 "bytes ''a%20b''"]
  by (simp add: encode_chunk_def hextab_def)

text \<open>No growth.  Decoding in place is safe: the result is never longer than the input.\<close>

theorem url_decode_shrinks: "length (snd (url_decode s)) \<le> length s"
proof -
  have "length (fst (url_decode_loop s)) \<le> length s"
    by (induction s rule: url_decode_loop.induct) (auto simp: split_beta)
  then show ?thesis by (simp add: url_decode_def split_beta)
qed

subsection \<open>Searching and comparing\<close>

definition occurs_at :: "byte list \<Rightarrow> byte list \<Rightarrow> nat \<Rightarrow> bool" where
  "occurs_at needle hay i \<longleftrightarrow> i + length needle \<le> length hay \<and> take (length needle) (drop i hay) = needle"

lemma occurs_first_char:
  assumes "occurs_at needle hay i" "needle \<noteq> []"
  shows "length (takeWhile (\<lambda>c. c \<noteq> cur needle) hay) \<le> i"
proof (rule ccontr)
  assume "\<not> ?thesis"
  then have i: "i < length (takeWhile (\<lambda>c. c \<noteq> cur needle) hay)" by simp
  then have "hay ! i \<in> set (takeWhile (\<lambda>c. c \<noteq> cur needle) hay)"
    using nth_mem [OF i] takeWhile_nth [OF i] by metis
  then have "hay ! i \<noteq> cur needle" by (blast dest: set_takeWhileD)
  moreover have "i < length hay"
    using i length_takeWhile_le [of "\<lambda>c. c \<noteq> cur needle" hay] by linarith
  then have "hd (take (length needle) (drop i hay)) = hay ! i"
    using assms(2) by (simp add: hd_drop_conv_nth)
  then have "hay ! i = cur needle"
    using assms by (cases needle; cases "drop i hay") (auto simp: occurs_at_def)
  ultimately show False by simp
qed

lemma occurs_at_drop: "p \<le> length hay \<Longrightarrow> occurs_at needle (drop p hay) i = occurs_at needle hay (p + i)"
  by (auto simp: occurs_at_def add.commute)

definition first_at :: "byte list \<Rightarrow> byte list \<Rightarrow> nat \<Rightarrow> nat option \<Rightarrow> bool" where
  "first_at needle hay pos r \<longleftrightarrow>
    (case r of None \<Rightarrow> \<forall>i. \<not> occurs_at needle hay i
     | Some k \<Rightarrow> \<exists>i. k = pos + i \<and> occurs_at needle hay i \<and> (\<forall>j<i. \<not> occurs_at needle hay j))"

lemma first_at_shift:
  assumes "first_at needle (drop p hay) (pos + p) r" "p \<le> length hay"
    and "\<And>i. occurs_at needle hay i \<Longrightarrow> p \<le> i"
  shows "first_at needle hay pos r"
proof (cases r)
  case None
  have "\<not> occurs_at needle hay i" for i
    using assms None occurs_at_drop [OF assms(2), of needle "i - p"]
    by (cases "p \<le> i") (auto simp: first_at_def)
  then show ?thesis by (simp add: first_at_def None)
next
  case (Some k)
  then obtain i where i: "k = pos + p + i" "occurs_at needle hay (p + i)"
      "\<forall>j<i. \<not> occurs_at needle hay (p + j)"
    using assms(1) by (auto simp: first_at_def occurs_at_drop [OF assms(2)])
  have "\<not> occurs_at needle hay j" if "j < p + i" for j
    using assms(3) [of j] i(3) that by (metis le_add_diff_inverse nat_add_left_cancel_less)
  with i show ?thesis by (auto simp: first_at_def Some)
qed

declare my_memmem_loop.simps [simp del]

lemma my_memmem_loop_spec:
  "needle \<noteq> [] \<Longrightarrow> first_at needle hay pos (my_memmem_loop needle hay pos)"
proof (induction needle hay pos rule: my_memmem_loop.induct)
  case (1 needle hay pos)
  let ?skip = "length (takeWhile (\<lambda>c. c \<noteq> cur needle) hay)"
  let ?c = "drop ?skip hay"
  note fst = occurs_first_char [OF _ "1.prems", of hay]
  have le: "?skip \<le> length hay" by (rule length_takeWhile_le)
  consider (no) "length ?c < length needle" | (hit) "\<not> length ?c < length needle" "take (length needle) ?c = needle"
    | (miss) "\<not> length ?c < length needle" "take (length needle) ?c \<noteq> needle" by blast
  then show ?case
  proof cases
    case no
    then have "\<not> occurs_at needle hay i" for i using fst [of i] by (auto simp: occurs_at_def)
    moreover have "my_memmem_loop needle hay pos = None"
      using no by (simp add: my_memmem_loop.simps [of needle hay pos] Let_def)
    ultimately show ?thesis by (simp add: first_at_def)
  next
    case hit
    then have "occurs_at needle hay ?skip" using "1.prems" le by (auto simp: occurs_at_def)
    moreover have "\<not> occurs_at needle hay j" if "j < ?skip" for j using fst [of j] that by auto
    moreover have "my_memmem_loop needle hay pos = Some (pos + ?skip)"
      using hit "1.prems" by (auto simp: my_memmem_loop.simps [of needle hay pos] Let_def)
    ultimately show ?thesis by (auto simp: first_at_def)
  next
    case miss
    then have c: "?c \<noteq> []" using "1.prems" by auto
    then have "?skip < length hay" by simp
    have rec: "my_memmem_loop needle hay pos = my_memmem_loop needle (drop 1 ?c) (pos + ?skip + 1)"
      using c miss by (simp add: my_memmem_loop.simps [of needle hay pos] Let_def)
    have IH: "first_at needle (drop (?skip + 1) hay) (pos + (?skip + 1)) (my_memmem_loop needle hay pos)"
      using "1.IH" [OF refl refl c miss "1.prems"] unfolding rec by (simp add: add.assoc)
    show ?thesis
    proof (rule first_at_shift [OF IH])
      show "?skip + 1 \<le> i" if "occurs_at needle hay i" for i
        using fst [OF that] that miss by (cases "i = ?skip") (auto simp: occurs_at_def)
    qed (use \<open>?skip < length hay\<close> in simp)
  qed
qed

text \<open>Substring search.  my_memmem finds the first occurrence of a non-empty needle, and reports that there
  is none only when there is none.\<close>

theorem my_memmem_first:
  assumes "needle \<noteq> []"
  shows "first_at needle hay 0 (my_memmem hay needle)"
  using my_memmem_loop_spec [OF assms, of hay 0]
  by (auto simp: my_memmem_def first_at_def occurs_at_def)

theorem my_memmem_first_witness: "first_at (bytes ''ab'') (bytes ''xaab'') 0 (Some 2)"
proof -
  have "my_memmem (bytes ''xaab'') (bytes ''ab'') = Some 2"
    by (simp add: my_memmem_def my_memmem_loop.simps Let_def)
  then show ?thesis using my_memmem_first [of "bytes ''ab''" "bytes ''xaab''"] by simp
qed

subsection \<open>Words of a header\<close>

definition is_alpha :: "byte \<Rightarrow> bool" where
  "is_alpha c \<longleftrightarrow> 65 \<le> c \<and> c \<le> 90 \<or> 97 \<le> c \<and> c \<le> 122"

definition to_lower :: "byte \<Rightarrow> byte" where
  "to_lower c = (if 65 \<le> c \<and> c \<le> 90 then c + 32 else c)"

lemma alpha_table:
  "list_all (\<lambda>k. let w = of_nat k :: byte; v = (if k < 91 then of_nat (k + 32) else of_nat (k - 32))
     in w XOR 32 = v \<and> to_lower w = to_lower v) ([65..<91] @ [97..<123])"
  by code_simp

lemma alpha_flip:
  assumes "is_alpha w"
  shows "w XOR 32 = (if w \<le> 90 then w + 32 else w - 32)" "to_lower (w XOR 32) = to_lower w"
proof -
  have "unat w \<in> set ([65..<91] @ [97..<123])"
    using assms unfolding set_append set_upt is_alpha_def word_le_nat_alt by auto
  from alpha_table [unfolded list_all_iff, rule_format, OF this]
  have a: "w XOR 32 = (if unat w < 91 then of_nat (unat w + 32) else of_nat (unat w - 32))"
    "to_lower (w XOR 32) = to_lower w" by (simp_all add: Let_def)
  then show "to_lower (w XOR 32) = to_lower w" by simp
  have "32 \<le> unat w" using assms by (auto simp: is_alpha_def word_le_nat_alt)
  with a(1) show "w XOR 32 = (if w \<le> 90 then w + 32 else w - 32)"
    by (simp add: word_le_nat_alt of_nat_diff less_Suc_eq_le)
qed

lemma xor_cancel: "s XOR w = k \<longleftrightarrow> s = w XOR k" for s w k :: byte
proof
  assume "s XOR w = k"
  then have "w XOR k = w XOR (s XOR w)" by simp
  also have "\<dots> = s" by (simp add: xor.left_commute)
  finally show "s = w XOR k" by simp
next
  assume "s = w XOR k"
  then have "s XOR w = w XOR (w XOR k)" by (simp add: xor.commute)
  then show "s XOR w = k" by (simp flip: xor.assoc)
qed

lemma alpha_same_letter:
  assumes "is_alpha w"
  shows "s XOR w = 0 \<or> s XOR w = 32 \<longleftrightarrow> to_lower s = to_lower w"
proof -
  have x: "s XOR w = 0 \<longleftrightarrow> s = w" "s XOR w = 32 \<longleftrightarrow> s = w XOR 32"
    using xor_cancel [of s w 0] xor_cancel [of s w 32] by simp_all
  show ?thesis
  proof
    assume "s XOR w = 0 \<or> s XOR w = 32"
    then show "to_lower s = to_lower w" using alpha_flip(2) [OF assms] by (auto simp: x)
  next
    assume l: "to_lower s = to_lower w"
    have "s = w \<or> s = (if w \<le> 90 then w + 32 else w - 32)"
    proof (cases "65 \<le> s \<and> s \<le> 90")
      case True
      then have "unat (s + 32) = unat s + 32" by (simp add: unat_word_ariths word_le_nat_alt)
      with True l assms show ?thesis
        by (auto simp: to_lower_def is_alpha_def word_le_nat_alt split: if_splits)
    next
      case False
      with l show ?thesis by (auto simp: to_lower_def split: if_splits)
    qed
    then show "s XOR w = 0 \<or> s XOR w = 32" by (simp only: x alpha_flip(1) [OF assms])
  qed
qed

lemma word_match_loop_alpha:
  "list_all is_alpha word \<Longrightarrow> length word \<le> length sample \<Longrightarrow>
    word_match_loop sample word \<longleftrightarrow>
      map to_lower (take (length word) sample) = map to_lower word \<and>
      list_all (\<lambda>c. c = SP \<or> c = HT) (drop (length word) sample)"
proof (induction sample word rule: word_match_loop.induct)
  case (3 s sample w word)
  then have "s XOR w = 0 \<or> s XOR w = 32 \<longleftrightarrow> to_lower s = to_lower w"
    using alpha_same_letter [of w s] by simp
  with 3 show ?case by (auto simp: Let_def)
qed (auto simp: list_all_iff)

text \<open>Word_match.  For a word made of letters it is a case-insensitive comparison of the sample's first
  characters, which only spaces and tabs may follow.\<close>

theorem word_match_letters:
  assumes "list_all is_alpha word"
  shows "word_match sample word \<longleftrightarrow>
    length word \<le> length sample \<and>
    map to_lower (take (length word) sample) = map to_lower word \<and>
    list_all (\<lambda>c. c = SP \<or> c = HT) (drop (length word) sample)"
  using word_match_loop_alpha [OF assms, of sample] by (auto simp: word_match_def)

theorem word_match_letters_witness:
  "word_match (bytes ''Close '') (bytes ''close'') \<longleftrightarrow> True"
proof -
  have "list_all is_alpha (bytes ''close'')" by code_simp
  moreover have "map to_lower (take 5 (bytes ''Close '')) = map to_lower (bytes ''close'')"
    by code_simp
  ultimately show ?thesis using word_match_letters [of "bytes ''close''" "bytes ''Close ''"] by simp
qed

text \<open>Word_match outside letters.  The comparison ignores one bit of every character, so a control character
  can stand for punctuation: keep<CR>alive matches keep-alive.\<close>

theorem word_match_control_char: "word_match (bytes ''keep'' @ [CR] @ bytes ''alive'') (bytes ''keep-alive'')"
  by code_simp

text \<open>Qstr.  On a zeroed buffer the result reads as the quoted string; on a buffer that an earlier, longer call
  filled, what the caller reads runs on into the earlier string, since no terminator is written.\<close>

theorem qstr_reuse_leaks:
  "takeWhile (\<lambda>c. c \<noteq> 0) (qstr (replicate 201 0) (bytes ''ab'')) = DQUOTE # bytes ''ab'' @ [DQUOTE] \<and>
   takeWhile (\<lambda>c. c \<noteq> 0) (qstr (qstr (replicate 201 0) (bytes ''longer'')) (bytes ''ab''))
     = DQUOTE # bytes ''ab'' @ [DQUOTE] @ bytes ''ger'' @ [DQUOTE]"
  by (rule conjI; code_simp)

subsection \<open>Dotted addresses\<close>

lemma uint_minus_48: "uint (c - 48 :: byte) = (uint c - 48) mod 256"
  by (simp add: uint_word_ariths)

lemma byte_digit: "c - 48 \<le> 9 \<longleftrightarrow> is_digit c"
proof (cases "48 \<le> uint c")
  case True
  then have "uint (c - 48) = uint c - 48" using byte_bounds [of c] by (simp add: uint_minus_48)
  then show ?thesis using True by (simp add: word_le_def is_digit_uint)
next
  case False
  then have "uint (c - 48) = uint c - 48 + 256"
    using byte_bounds [of c] unfolding uint_minus_48 by (intro mod_shift_down) linarith+
  then have "\<not> uint (c - 48) \<le> 9" using byte_bounds [of c] by linarith
  then show ?thesis using False by (simp add: word_le_def is_digit_uint)
qed

lemma unat_byte_digit: "is_digit c \<Longrightarrow> unat (c - 48) = digit_val c"
  by (simp add: digit_val_def unat_sub is_digit_def)

lemma ip4_scan_digits:
  "list_all is_digit ds \<Longrightarrow> foldl (\<lambda>a c. a * 10 + digit_val c) (unat t) ds \<le> 255 \<Longrightarrow>
    ip4_scan (ds @ r) octets True (t # tp) =
    ip4_scan r octets True (of_nat (foldl (\<lambda>a c. a * 10 + digit_val c) (unat t) ds) # tp)"
proof (induction ds arbitrary: t)
  case Nil
  then show ?case by simp
next
  case (Cons c ds)
  let ?v = "unat t * 10 + digit_val c"
  have d: "is_digit c" "c - 48 \<le> 9" "\<not> c - 48 > 9" using Cons.prems by (simp_all add: byte_digit not_less)
  have "?v * 1 \<le> ?v * 10 ^ length ds" by (intro mult_le_mono2) simp
  also have "\<dots> \<le> foldl (\<lambda>a c. a * 10 + digit_val c) ?v ds" unfolding foldl_dec by simp
  also have "\<dots> \<le> 255" using Cons.prems(2) by simp
  finally have "?v \<le> 255" by simp
  then have v: "unat (of_nat ?v :: byte) = ?v" by (simp add: unat_of_nat take_bit_nat_eq_self del: of_nat_add of_nat_mult)
  have "ip4_scan ((c # ds) @ r) octets True (t # tp) = ip4_scan (ds @ r) octets True (of_nat ?v # tp)"
    using d \<open>?v \<le> 255\<close> by (simp add: Let_def unat_byte_digit del: of_nat_add of_nat_mult)
  then show ?case using Cons.IH [of "of_nat ?v"] Cons.prems by (simp add: v del: of_nat_add of_nat_mult)
qed

text \<open>An octet is a non-empty string of digits whose value fits a byte.\<close>

definition octet_text :: "byte list \<Rightarrow> bool" where
  "octet_text ds \<longleftrightarrow> ds \<noteq> [] \<and> list_all is_digit ds \<and> dec_value ds \<le> 255"

lemma ip4_scan_octet:
  assumes "octet_text ds" "octets < 4"
  shows "ip4_scan (ds @ r) octets False (0 # tp) =
    ip4_scan r (octets + 1) True (of_nat (dec_value ds) # tp)"
proof -
  obtain c es where ds: "ds = c # es" and c: "is_digit c" "list_all is_digit es" "dec_value (c # es) \<le> 255"
    using assms(1) by (cases ds) (auto simp: octet_text_def)
  have d: "c - 48 \<le> 9" "\<not> c - 48 > 9" using c(1) by (simp_all add: byte_digit not_less)
  have v: "digit_val c \<le> 9" using digit_val_le [OF c(1)] .
  then have u: "unat (of_nat (digit_val c) :: byte) = digit_val c"
    by (simp add: unat_of_nat take_bit_nat_eq_self)
  have "ip4_scan (ds @ r) octets False (0 # tp)
      = ip4_scan (es @ r) (octets + 1) True (of_nat (digit_val c) # tp)"
    using d v assms(2) c(1) by (simp add: ds Let_def unat_byte_digit)
  then show ?thesis using ip4_scan_digits [of es "of_nat (digit_val c)" r "octets + 1" tp] c(2,3)
    by (simp add: ds u dec_value_def)
qed

lemma ip4_scan_dot:
  "octets < 4 \<Longrightarrow> ip4_scan (DOT # r) octets True tp = ip4_scan r octets False (0 # tp)"
  by (simp add: Let_def)

definition dotted :: "byte list \<Rightarrow> byte list \<Rightarrow> byte list \<Rightarrow> byte list \<Rightarrow> byte list" where
  "dotted a b c d = a @ [DOT] @ b @ [DOT] @ c @ [DOT] @ d"

lemma ip4_scan_dotted:
  assumes "octet_text a" "octet_text b" "octet_text c" "octet_text d"
    and "rest = [] \<or> (\<not> is_digit (hd rest) \<and> hd rest \<noteq> DOT)"
  shows "ip4_scan (dotted a b c d @ rest) 0 False [0] =
    Some (4, map (\<lambda>x. of_nat (dec_value x)) [d, c, b, a], rest)"
proof -
  have stop: "ip4_scan rest (Suc (Suc (Suc (Suc 0)))) True tp = Some (4, tp, rest)" for tp
    using assms(5) byte_digit [of "hd rest"] by (cases rest) (auto simp: Let_def not_less)
  show ?thesis
    unfolding dotted_def append_assoc append_Cons append_Nil
    using assms(1-4) stop
    by (simp add: ip4_scan_octet ip4_scan_dot numeral_eq_Suc del: ip4_scan.simps)
qed

text \<open>Buf2ip.  Four octets separated by dots, at the end of the buffer or before any other character than
  a digit or a dot, are read as their address, and the length of the address is returned.\<close>

theorem buf2ip_dotted:
  assumes "octet_text a" "octet_text b" "octet_text c" "octet_text d"
    and "rest = [] \<or> (\<not> is_digit (hd rest) \<and> hd rest \<noteq> DOT)"
  shows "buf2ip (dotted a b c d @ rest) =
    Some (length (dotted a b c d), map (\<lambda>x. of_nat (dec_value x)) [a, b, c, d])"
  using ip4_scan_dotted [OF assms] by (simp add: buf2ip_def)

theorem buf2ip_dotted_witness:
  "buf2ip (dotted (bytes ''10'') (bytes ''0'') (bytes ''2'') (bytes ''255'') @ bytes '':80'') =
    Some (10, [10, 0, 2, 255])"
proof -
  have o: "octet_text (bytes ''10'')" "octet_text (bytes ''0'')" "octet_text (bytes ''2'')"
    "octet_text (bytes ''255'')" by code_simp+
  have r: "bytes '':80'' = [] \<or> (\<not> is_digit (hd (bytes '':80'')) \<and> hd (bytes '':80'') \<noteq> DOT)"
    by code_simp
  have "map (\<lambda>x. of_nat (dec_value x)) [bytes ''10'', bytes ''0'', bytes ''2'', bytes ''255'']
      = [10, 0, 2, 255 :: byte]" by code_simp
  then show ?thesis using buf2ip_dotted [OF o r] by (simp add: dotted_def)
qed

text \<open>Url2ipv4.  It returns the length of the address when something follows it, but one less when the
  address ends the string.\<close>

theorem url2ipv4_length:
  assumes "octet_text a" "octet_text b" "octet_text c" "octet_text d"
    and "rest = [] \<or> (\<not> is_digit (hd rest) \<and> hd rest \<noteq> DOT)" "0 \<notin> set rest"
  shows "url2ipv4 (dotted a b c d @ rest) =
    Some (length (dotted a b c d) - (if rest = [] then 1 else 0),
      map (\<lambda>x. of_nat (dec_value x)) [a, b, c, d])"
proof -
  have nz: "0 \<notin> set x" if "octet_text x" for x
    using that by (auto simp: octet_text_def list_all_iff is_digit_def)
  define whole where "whole = dotted a b c d @ rest"
  have "0 \<notin> set whole" using assms nz by (auto simp: whole_def dotted_def)
  then have tw: "takeWhile (\<lambda>c. c \<noteq> 0) whole = whole" by (auto simp: takeWhile_eq_all_conv)
  have "length whole - length rest = length (dotted a b c d)" by (simp add: whole_def)
  moreover have "rest = [] \<Longrightarrow> length whole = length (dotted a b c d)" by (simp add: whole_def)
  ultimately show ?thesis
    using ip4_scan_dotted [OF assms(1-5), folded whole_def]
    unfolding url2ipv4_def whole_def [symmetric] by (auto simp: tw)
qed

theorem url2ipv4_length_witness: "url2ipv4 (bytes ''1.2.3.4'') = Some (6, [1, 2, 3, 4])"
proof -
  have o: "octet_text (bytes ''1'')" "octet_text (bytes ''2'')" "octet_text (bytes ''3'')"
    "octet_text (bytes ''4'')" by code_simp+
  have "map (\<lambda>x. of_nat (dec_value x)) [bytes ''1'', bytes ''2'', bytes ''3'', bytes ''4'']
      = [1, 2, 3, 4 :: byte]" by code_simp
  then show ?thesis using url2ipv4_length [OF o, of "[]"] by (simp add: dotted_def)
qed

end
