(* ===== verification/HA_Hash.thy ===== *)
theory HA_Hash
  imports HA_Prelude
begin

section \<open>Hashes and base64 (src/hash.c, src/base64.c)\<close>

text \<open>
  The three string hashes, the integer hash \<open>full_hash\<close> with which consistent
  hashing spreads servers, and the two base64 codecs.  \<open>hash_wt6\<close> works on
  32 bits; the other two on \<open>unsigned long\<close>, 64 bits.  Characters are signed, so
  a byte above 127 is promoted to a negative number.
\<close>

subsection \<open>Hashes\<close>

text \<open>A shift of a 32-bit value by 32 (\<open>step0 = 0\<close>) is undefined in C; on x86 it is a shift by 0.\<close>

definition hash_wt6_step :: "u32 \<times> u32 \<times> nat \<times> nat \<Rightarrow> byte \<Rightarrow> u32 \<times> u32 \<times> nat \<times> nat" where
  "hash_wt6_step st c =
    (let (h0, h1, step0, step1) = st;
         t = scast c :: u32;
         h0 = NOT (h0 XOR t);
         h1 = NOT (h1 + t);
         t = push_bit step0 h1 OR drop_bit ((32 - step0) mod 32) h1;
         h1 = push_bit step1 h0 OR drop_bit ((32 - step1) mod 32) h0;
         h0 = t;
         t = (drop_bit 16 h0 XOR h1) AND 0xffff
     in (h0, h1, unat (t AND 0x1F), unat (drop_bit 11 t)))"

definition hash_wt6 :: "byte list \<Rightarrow> u32" where
  "hash_wt6 key =
    (let (h0, h1, _, _) = foldl hash_wt6_step (0xa53c965a, 0x5ca6953a, 6, 18) key
     in h0 XOR h1)"

definition djb2_step :: "u64 \<Rightarrow> byte \<Rightarrow> u64" where
  "djb2_step hash c = (push_bit 5 hash + hash) + scast c"

text \<open>The loop unrolled eight times, then the switch on the rest.\<close>

fun hash_djb2_loop :: "byte list \<Rightarrow> u64 \<Rightarrow> u64" where
  "hash_djb2_loop (a # b # c # d # e # f # g # h # key) hash =
    hash_djb2_loop key
      (djb2_step (djb2_step (djb2_step (djb2_step (djb2_step (djb2_step (djb2_step
        (djb2_step hash a) b) c) d) e) f) g) h)"
| "hash_djb2_loop [a, b, c, d, e, f, g] hash =
    djb2_step (djb2_step (djb2_step (djb2_step (djb2_step (djb2_step
      (djb2_step hash a) b) c) d) e) f) g"
| "hash_djb2_loop [a, b, c, d, e, f] hash =
    djb2_step (djb2_step (djb2_step (djb2_step (djb2_step (djb2_step hash a) b) c) d) e) f"
| "hash_djb2_loop [a, b, c, d, e] hash =
    djb2_step (djb2_step (djb2_step (djb2_step (djb2_step hash a) b) c) d) e"
| "hash_djb2_loop [a, b, c, d] hash = djb2_step (djb2_step (djb2_step (djb2_step hash a) b) c) d"
| "hash_djb2_loop [a, b, c] hash = djb2_step (djb2_step (djb2_step hash a) b) c"
| "hash_djb2_loop [a, b] hash = djb2_step (djb2_step hash a) b"
| "hash_djb2_loop [a] hash = djb2_step hash a"
| "hash_djb2_loop [] hash = hash"

definition hash_djb2 :: "byte list \<Rightarrow> u64" where
  "hash_djb2 key = hash_djb2_loop key 5381"

definition hash_sdbm :: "byte list \<Rightarrow> u64" where
  "hash_sdbm key = foldl (\<lambda>hash c. scast c + push_bit 6 hash + push_bit 16 hash - hash) 0 key"

definition full_hash :: "u32 \<Rightarrow> u32" where
  "full_hash a =
    (let a = (a + 0x7ed55d16) + push_bit 12 a;
         a = (a XOR 0xc761c23c) XOR drop_bit 19 a;
         a = (a + 0x165667b1) + push_bit 5 a;
         a = (a + 0xd3a2646c) XOR push_bit 9 a;
         a = (a + 0xfd7046c5) + push_bit 3 a;
         a = (a XOR 0xb55a4f09) XOR drop_bit 16 a
     in a * 3221225473)"

text \<open>Djb2.  The loop unrolled eight times computes, for every key, what one step per byte computes.\<close>

theorem hash_djb2_unrolled: "hash_djb2 key = foldl djb2_step 5381 key"
proof -
  have "hash_djb2_loop key hash = foldl djb2_step hash key" for hash
    by (induction key hash rule: hash_djb2_loop.induct) simp_all
  then show ?thesis by (simp add: hash_djb2_def)
qed

subsection \<open>Base64\<close>

definition base64tab :: "byte list" where
  "base64tab = bytes ''ABCDEFGHIJKLMNOPQRSTUVWXYZabcdefghijklmnopqrstuvwxyz0123456789+/''"

definition base64rev :: "byte list" where
  "base64rev = bytes ''b###cXYZ'' @ [0x5b, 0x5c, 0x5d, 0x5e, 0x5f, 0x60] @
    bytes ''a###d###$%&'' @ [0x27] @ bytes ''()*+,-./0123456789:;<=######>?@ABCDEFGHIJKLMNOPQRSTUVW''"

definition b64chr :: "byte \<Rightarrow> byte" where
  "b64chr n = base64tab ! unat n"

fun a2base64_loop :: "byte list \<Rightarrow> byte list" where
  "a2base64_loop (a # b # c # s) =
    [b64chr (drop_bit 2 a),
     b64chr (push_bit 4 (a AND 3) OR drop_bit 4 b),
     b64chr (push_bit 2 (b AND 0x0F) OR drop_bit 6 c),
     b64chr (c AND 0x3F)] @ a2base64_loop s"
| "a2base64_loop [] = []"
| "a2base64_loop [a] = [b64chr (drop_bit 2 a), b64chr (push_bit 4 (a AND 3)), EQUALS, EQUALS]"
| "a2base64_loop [a, b] =
    [b64chr (drop_bit 2 a), b64chr (push_bit 4 (a AND 3) OR drop_bit 4 b),
     b64chr (push_bit 2 (b AND 0x0F)), EQUALS]"

definition a2base64 :: "byte list \<Rightarrow> nat \<Rightarrow> byte list option" where
  "a2base64 inp olen =
    (let convlen = ((length inp + 2) div 3) * 4
     in if convlen \<ge> olen then None else Some (a2base64_loop inp))"

text \<open>The table lookup shared by the decoders: \<open>None\<close> is an invalid character, 64 the padding.\<close>

definition b64val :: "byte \<Rightarrow> byte option" where
  "b64val c =
    (let b = c - 43
     in if b > 0x7a - 43 then None
        else let b = base64rev ! unat b - 35 - 1
             in if b <s 0 then None else Some b)"

fun base64dec_loop :: "byte list \<Rightarrow> byte list \<Rightarrow> nat \<Rightarrow> byte list option" where
  "base64dec_loop [] t pad = Some []"
| "base64dec_loop (c # inp) t pad =
    (case b64val c of None \<Rightarrow> None
     | Some b \<Rightarrow>
         if pad > 0 \<and> b \<noteq> 64 then None
         else if pad > 0 \<and> length t < 2 then None
         else let pad = (if b = 64 then pad + 1 else pad); t = t @ [b]
              in if length t = 4 then
                   map_option (\<lambda>r. take (3 - pad)
                       [push_bit 2 (t ! 0) + drop_bit 4 (t ! 1),
                        push_bit 4 (t ! 1) + drop_bit 2 (t ! 2),
                        push_bit 6 (t ! 2) + t ! 3] @ r)
                     (base64dec_loop inp [] 0)
                 else base64dec_loop inp t pad)"

text \<open>The error is \<open>-1\<close> for a malformed input and \<open>-2\<close> for a short output buffer.\<close>

definition base64dec :: "byte list \<Rightarrow> nat \<Rightarrow> int + byte list" where
  "base64dec inp olen =
    (if length inp mod 4 \<noteq> 0 then Inl (- 1)
     else if olen < length inp div 4 * 3 then Inl (- 2)
     else case base64dec_loop inp [] 0 of None \<Rightarrow> Inl (- 1) | Some out \<Rightarrow> Inr out)"

fun s30tob64_loop :: "nat \<Rightarrow> u32 \<Rightarrow> byte list" where
  "s30tob64_loop 0 inp = []"
| "s30tob64_loop (Suc i) inp =
    base64tab ! unat (drop_bit 24 inp AND 0x3F) # s30tob64_loop i (push_bit 6 inp)"

definition s30tob64 :: "u32 \<Rightarrow> byte list" where
  "s30tob64 inp = s30tob64_loop 5 inp"

fun b64tos30_loop :: "nat \<Rightarrow> byte list \<Rightarrow> u32 \<Rightarrow> u32 option" where
  "b64tos30_loop 0 inp out = Some out"
| "b64tos30_loop (Suc i) inp out =
    (case b64val (cur inp) of None \<Rightarrow> None
     | Some b \<Rightarrow> if b = 64 then None else b64tos30_loop i (drop 1 inp) (push_bit 6 out + ucast b))"

definition b64tos30 :: "byte list \<Rightarrow> u32 option" where
  "b64tos30 inp = b64tos30_loop 5 inp 0"

lemma base64tab_code [code]:
  "base64tab =
    [65, 66, 67, 68, 69, 70, 71, 72, 73, 74, 75, 76, 77, 78, 79, 80, 81, 82, 83, 84, 85, 86,
     87, 88, 89, 90, 97, 98, 99, 100, 101, 102, 103, 104, 105, 106, 107, 108, 109, 110, 111,
     112, 113, 114, 115, 116, 117, 118, 119, 120, 121, 122, 48, 49, 50, 51, 52, 53, 54, 55, 56,
     57, 43, 47]"
  by (simp add: base64tab_def)

lemma base64rev_code [code]:
  "base64rev =
    [98, 35, 35, 35, 99, 88, 89, 90, 91, 92, 93, 94, 95, 96, 97, 35, 35, 35, 100, 35, 35, 35,
     36, 37, 38, 39, 40, 41, 42, 43, 44, 45, 46, 47, 48, 49, 50, 51, 52, 53, 54, 55, 56, 57,
     58, 59, 60, 61, 35, 35, 35, 35, 35, 35, 62, 63, 64, 65, 66, 67, 68, 69, 70, 71, 72, 73,
     74, 75, 76, 77, 78, 79, 80, 81, 82, 83, 84, 85, 86, 87]"
  by (simp add: base64rev_def)

lemma b64_table:
  "list_all (\<lambda>k. b64val (b64chr (of_nat k)) = Some (of_nat k)) [0..<64]"
  by code_simp

lemma b64val_b64chr:
  assumes "unat n < 64"
  shows "b64val (b64chr n) = Some n" "n \<noteq> 64"
proof -
  have "unat n \<in> set [0..<64]" using assms by simp
  then have "b64val (b64chr (of_nat (unat n))) = Some (of_nat (unat n))"
    using b64_table unfolding list_all_iff by blast
  then show "b64val (b64chr n) = Some n" by simp
  show "n \<noteq> 64" using assms by auto
qed

lemma b64val_pad: "b64val EQUALS = Some 64"
  by code_simp

lemma b64_dec_group:
  assumes "unat a < 64" "unat b < 64" "unat c < 64" "unat d < 64"
  shows "base64dec_loop (b64chr a # b64chr b # b64chr c # b64chr d # s) [] 0 =
    map_option (\<lambda>r. [push_bit 2 a + drop_bit 4 b, push_bit 4 b + drop_bit 2 c, push_bit 6 c + d] @ r)
      (base64dec_loop s [] 0)"
  using assms by (simp add: b64val_b64chr Let_def cong: map_option_cong)

lemma b64_dec_pad1:
  assumes "unat a < 64" "unat b < 64" "unat c < 64"
  shows "base64dec_loop [b64chr a, b64chr b, b64chr c, EQUALS] [] 0 =
    Some [push_bit 2 a + drop_bit 4 b, push_bit 4 b + drop_bit 2 c]"
  using assms by (simp add: b64val_b64chr b64val_pad Let_def)

lemma b64_dec_pad2:
  assumes "unat a < 64" "unat b < 64"
  shows "base64dec_loop [b64chr a, b64chr b, EQUALS, EQUALS] [] 0 =
    Some [push_bit 2 a + drop_bit 4 b]"
  using assms by (simp add: b64val_b64chr b64val_pad Let_def)

lemma b64_bits:
  fixes a b c :: byte
  defines "p \<equiv> drop_bit 2 a" and "q \<equiv> push_bit 4 (a AND 3) OR drop_bit 4 b"
    and "r \<equiv> push_bit 2 (b AND 0x0F) OR drop_bit 6 c" and "s \<equiv> c AND 0x3F"
  shows "push_bit 2 p + drop_bit 4 q = a" "push_bit 4 q + drop_bit 2 r = b" "push_bit 6 r + s = c"
    "unat p < 64" "unat q < 64" "unat r < 64" "unat s < 64"
proof -
  have "push_bit 2 p AND drop_bit 4 q = 0" "push_bit 4 q AND drop_bit 2 r = 0" "push_bit 6 r AND s = 0"
    unfolding p_def q_def r_def s_def
    by (rule byte_eqI, auto simp: less8 bit_simps; simp add: numeral_eq_Suc)+
  moreover have "push_bit 2 p OR drop_bit 4 q = a" "push_bit 4 q OR drop_bit 2 r = b" "push_bit 6 r OR s = c"
    unfolding p_def q_def r_def s_def
    by (rule byte_eqI, auto simp: less8 bit_simps; simp add: numeral_eq_Suc)+
  ultimately show "push_bit 2 p + drop_bit 4 q = a" "push_bit 4 q + drop_bit 2 r = b" "push_bit 6 r + s = c"
    by (simp_all only: byte_plus_or)
  show "unat p < 64" "unat q < 64" "unat r < 64" "unat s < 64"
    unfolding p_def q_def r_def s_def
    by (rule byte_less_64, auto simp: less8 bit_simps)+
qed

lemma base64dec_loop_a2base64: "base64dec_loop (a2base64_loop s) [] 0 = Some s"
proof (induction s rule: a2base64_loop.induct)
  case (1 a b c s)
  then show ?case
    using b64_bits(1,5) [where a = a and b = b] b64_bits(2) [where a = a and b = b and c = c]
      b64_bits(3,6) [where b = b and c = c] b64_bits(4) [where a = a] b64_bits(7) [where c = c]
    by (simp add: b64_dec_group del: base64dec_loop.simps)
next
  case 2
  then show ?case by simp
next
  case (3 a)
  then show ?case using b64_bits(1,5) [where a = a and b = 0] b64_bits(4) [where a = a]
    by (simp add: b64_dec_pad2 del: base64dec_loop.simps)
next
  case (4 a b)
  then show ?case
    using b64_bits(1,5) [where a = a and b = b] b64_bits(2) [where a = a and b = b and c = 0]
      b64_bits(4) [where a = a] b64_bits(6) [where b = b and c = 0]
    by (simp add: b64_dec_pad1 del: base64dec_loop.simps)
qed

lemma length_a2base64_loop: "length (a2base64_loop s) = (length s + 2) div 3 * 4"
  by (induction s rule: a2base64_loop.induct; simp; presburger)

text \<open>C40: base64.  Decoding an encoded message gives the message back, for every message, whenever the output
  buffer of the decoder has the size that its own check asks for.\<close>

theorem base64_roundtrip:
  assumes "a2base64 s n = Some enc" "length enc div 4 * 3 \<le> olen"
  shows "base64dec enc olen = Inr s"
proof -
  have "enc = a2base64_loop s" using assms(1) by (simp add: a2base64_def Let_def split: if_splits)
  then show ?thesis
    using assms(2) by (simp add: base64dec_def base64dec_loop_a2base64 length_a2base64_loop)
qed

theorem base64_roundtrip_witness: "base64dec (bytes ''aGFwcm94eQ=='') 9 = Inr (bytes ''haproxy'')"
  by (rule base64_roundtrip [of _ 13]) code_simp+

text \<open>Base64 padding.  The decoder's comment excludes "X===" as well as "===="; the check that is
  made on the next character rejects the second, but takes the first as an empty message.\<close>

theorem base64dec_three_pads:
  "base64dec (bytes ''A==='') 3 = Inr [] \<and> base64dec (bytes ''===='') 3 = Inl (- 1)"
  by (rule conjI; code_simp)

end
