(* ===== verification/HA_Time.thy ===== *)
theory HA_Time
  imports HA_Prelude
begin

section \<open>Ticks, the internal clock, rate counters
  (include/common/ticks.h, time.h, src/time.c, src/freq_ctr.c)\<close>

text \<open>
  Ticks are 32-bit millisecond dates that wrap, compared by the sign of their
  difference; 0 is eternity.  The internal clock \<open>now\<close> follows the system's but
  is monotonic.  The rate counters measure events over the current and the last
  period.  The fields of a \<open>struct timeval\<close> are 64-bit signed and far from their
  limits: they are integers here, and the casts to \<open>unsigned\<close> of the comparisons
  are written out (\<open>uns\<close>).
\<close>

subsection \<open>Ticks\<close>

definition tick_isset :: "u32 \<Rightarrow> bool" where
  "tick_isset expire \<longleftrightarrow> expire \<noteq> 0"

definition tick_add :: "u32 \<Rightarrow> u32 \<Rightarrow> u32" where
  "tick_add now timeout = (let now = now + timeout in if now = 0 then now + 1 else now)"

definition tick_add_ifset :: "u32 \<Rightarrow> u32 \<Rightarrow> u32" where
  "tick_add_ifset now timeout = (if timeout = 0 then 0 else tick_add now timeout)"

definition tick_is_lt :: "u32 \<Rightarrow> u32 \<Rightarrow> bool" where
  "tick_is_lt t1 t2 \<longleftrightarrow> t1 - t2 <s 0"

definition tick_is_le :: "u32 \<Rightarrow> u32 \<Rightarrow> bool" where
  "tick_is_le t1 t2 \<longleftrightarrow> t1 - t2 \<le>s 0"

definition tick_is_expired :: "u32 \<Rightarrow> u32 \<Rightarrow> bool" where
  "tick_is_expired timer now = (if \<not> tick_isset timer then False else timer - now \<le>s 0)"

definition tick_first :: "u32 \<Rightarrow> u32 \<Rightarrow> u32" where
  "tick_first t1 t2 =
    (if \<not> tick_isset t1 then t2 else if \<not> tick_isset t2 then t1
     else if t1 - t2 \<le>s 0 then t1 else t2)"

definition tick_first_2nz :: "u32 \<Rightarrow> u32 \<Rightarrow> u32" where
  "tick_first_2nz t1 t2 =
    (if \<not> tick_isset t1 then t2 else if t1 - t2 \<le>s 0 then t1 else t2)"

definition tick_remain :: "u32 \<Rightarrow> u32 \<Rightarrow> u32" where
  "tick_remain now exp = (if tick_is_expired exp now then 0 else exp - now)"

text \<open>Tick_add.  A date computed by tick_add is never the eternity value, so a timer that was armed stays
  armed.\<close>

theorem tick_add_isset: "tick_isset (tick_add now timeout)"
  by (simp add: tick_isset_def tick_add_def Let_def)

lemma sle_zero: "w \<le>s 0 \<longleftrightarrow> unat (w :: u32) = 0 \<or> 2 ^ 31 \<le> unat w"
proof -
  define n where "n = unat w"
  have u: "uint w = int n" by (simp add: n_def)
  have "n < 2 ^ 32" using unsigned_less [of w] by (simp add: n_def)
  moreover have "sint w = (if int n < 2 ^ 31 then int n else int n - 2 ^ 32)"
    using sint_cases [of w] unfolding u by simp
  ultimately have "sint w \<le> 0 \<longleftrightarrow> n = 0 \<or> 2 ^ 31 \<le> n" by auto
  then show ?thesis by (simp add: word_sle_eq n_def)
qed

lemma timer_difference:
  assumes "d < 2 ^ 31" "t < 2 ^ 31"
  shows "(now + of_nat t - (now + of_nat d) :: u32) \<le>s 0 \<longleftrightarrow> t \<le> d"
proof -
  have e: "(now + of_nat t - (now + of_nat d) :: u32) = of_nat t - of_nat d" by simp
  show ?thesis
  proof (cases "t < d")
    case True
    then have "(of_nat t - of_nat d :: u32) = of_nat (2 ^ 32 + t - d)"
      using assms by (simp add: of_nat_diff)
    then have "unat (of_nat t - of_nat d :: u32) = 2 ^ 32 + t - d"
      using True assms by (simp only: unat_of_nat) (simp add: take_bit_nat_eq_self)
    with True assms show ?thesis by (simp add: e sle_zero)
  next
    case False
    then have "(of_nat t - of_nat d :: u32) = of_nat (t - d)" by (simp add: of_nat_diff)
    then have "unat (of_nat t - of_nat d :: u32) = t - d"
      using assms by (simp only: unat_of_nat) (simp add: take_bit_nat_eq_self)
    with False assms show ?thesis by (auto simp: e sle_zero)
  qed
qed

text \<open>Timers across the wrap.  A timer armed t ms ahead, t below 2^31, has not expired d ms later while
  d < t, and has expired from d = t on (from t + 1 when the date itself would be eternity), whatever the
  date it was armed at and wherever the 32-bit clock wraps in between.\<close>

theorem tick_expiry:
  assumes "0 < t" "t + 1 < 2 ^ 31" "d < 2 ^ 31"
  shows "tick_is_expired (tick_add now (of_nat t)) (now + of_nat d) \<longleftrightarrow>
    (if now + of_nat t = 0 then t + 1 \<le> d else t \<le> d)"
proof (cases "now + of_nat t = 0")
  case True
  then have "tick_add now (of_nat t) = now + of_nat (t + 1)"
    by (simp add: tick_add_def Let_def add.commute add.left_commute)
  then show ?thesis
    using True timer_difference [of d "t + 1" now] assms tick_add_isset [of now "of_nat t"]
    by (simp add: tick_is_expired_def del: of_nat_add of_nat_Suc)
next
  case False
  then show ?thesis
    using timer_difference [of d t now] assms
    by (simp add: tick_is_expired_def tick_add_def tick_isset_def)
qed

theorem tick_expiry_witness:
  "tick_is_expired (tick_add (- 5) (of_nat 10)) (- 5 + of_nat 10) \<longleftrightarrow>
    (if (- 5 :: u32) + of_nat 10 = 0 then 10 + 1 \<le> (10 :: nat) else 10 \<le> (10 :: nat))"
  by (rule tick_expiry) simp_all

subsection \<open>struct timeval\<close>

record timeval =
  tv_sec :: int
  tv_usec :: int

definition tv_add :: "timeval \<Rightarrow> timeval \<Rightarrow> timeval" where
  "tv_add from inc =
    (let usec = tv_usec from + tv_usec inc; sec = tv_sec from + tv_sec inc
     in if usec \<ge> 1000000 then \<lparr>tv_sec = sec + 1, tv_usec = usec - 1000000\<rparr>
        else \<lparr>tv_sec = sec, tv_usec = usec\<rparr>)"

function tv_carry :: "int \<Rightarrow> int \<Rightarrow> timeval" where
  "tv_carry sec usec =
    (if usec \<ge> 1000000 then tv_carry (sec + 1) (usec - 1000000)
     else \<lparr>tv_sec = sec, tv_usec = usec\<rparr>)"
  by pat_completeness auto
termination
  by (relation "measure (\<lambda>(sec, usec). nat usec)") auto

declare tv_carry.simps [simp del]

definition tv_ms_add :: "timeval \<Rightarrow> int \<Rightarrow> timeval" where
  "tv_ms_add from ms =
    tv_carry (tv_sec from + c_div ms 1000) (tv_usec from + c_rem ms 1000 * 1000)"

definition tv_islt :: "timeval \<Rightarrow> timeval \<Rightarrow> bool" where
  "tv_islt tv1 tv2 =
    (if uns (tv_sec tv1) = uns (tv_sec tv2) then uns (tv_usec tv1) < uns (tv_usec tv2)
     else uns (tv_sec tv1) < uns (tv_sec tv2))"

definition tv_isle :: "timeval \<Rightarrow> timeval \<Rightarrow> bool" where
  "tv_isle tv1 tv2 =
    (if uns (tv_sec tv1) = uns (tv_sec tv2) then uns (tv_usec tv1) \<le> uns (tv_usec tv2)
     else uns (tv_sec tv1) < uns (tv_sec tv2))"

definition tv_isgt :: "timeval \<Rightarrow> timeval \<Rightarrow> bool" where
  "tv_isgt tv1 tv2 =
    (if uns (tv_sec tv1) = uns (tv_sec tv2) then uns (tv_usec tv1) > uns (tv_usec tv2)
     else uns (tv_sec tv1) > uns (tv_sec tv2))"

definition tv_ms_cmp :: "timeval \<Rightarrow> timeval \<Rightarrow> int" where
  "tv_ms_cmp tv1 tv2 =
    (let s1 = uns (tv_sec tv1); s2 = uns (tv_sec tv2);
         u1 = uns (tv_usec tv1); u2 = uns (tv_usec tv2)
     in if s1 = s2 then
          (if u2 \<ge> uns (u1 + 1000) then - 1 else if u1 \<ge> uns (u2 + 1000) then 1 else 0)
        else if s2 > uns (s1 + 1) \<or> (s2 = uns (s1 + 1) \<and> uns (u2 + 1000000) \<ge> uns (u1 + 1000))
        then - 1
        else if s1 > uns (s2 + 1) \<or> (s1 = uns (s2 + 1) \<and> uns (u1 + 1000000) \<ge> uns (u2 + 1000))
        then 1 else 0)"

definition tv_iseternity :: "timeval \<Rightarrow> bool" where
  "tv_iseternity tv \<longleftrightarrow> tv_usec tv = - 1"

definition tv_ms_cmp2 :: "timeval \<Rightarrow> timeval \<Rightarrow> int" where
  "tv_ms_cmp2 tv1 tv2 =
    (if tv_iseternity tv1 then (if tv_iseternity tv2 then 0 else 1)
     else if tv_iseternity tv2 then - 1 else tv_ms_cmp tv1 tv2)"

definition tv_ms_le2 :: "timeval \<Rightarrow> timeval \<Rightarrow> bool" where
  "tv_ms_le2 tv1 tv2 =
    (let s1 = uns (tv_sec tv1); s2 = uns (tv_sec tv2);
         u1 = uns (tv_usec tv1); u2 = uns (tv_usec tv2)
     in if s1 > uns (s2 + 1) then False
        else if s1 < s2 then True
        else if s1 = s2 then u2 \<ge> uns (u1 + 1000)
        else if s1 = uns (s2 + 1) \<and> uns (u1 + 1000000) \<ge> uns (u2 + 1000) then False
        else True)"

definition tv_ms_elapsed :: "timeval \<Rightarrow> timeval \<Rightarrow> int" where
  "tv_ms_elapsed tv1 tv2 =
    (tv_sec tv2 - tv_sec tv1) * 1000 + c_div (tv_usec tv2 - tv_usec tv1) 1000"

definition tv_ms_remain :: "timeval \<Rightarrow> timeval \<Rightarrow> int" where
  "tv_ms_remain tv1 tv2 = (if tv_ms_cmp tv1 tv2 \<ge> 0 then 0 else tv_ms_elapsed tv1 tv2)"

definition tv_remain :: "timeval \<Rightarrow> timeval \<Rightarrow> timeval" where
  "tv_remain tv1 tv2 =
    (let usec = tv_usec tv2 - tv_usec tv1; sec = tv_sec tv2 - tv_sec tv1
     in if wrap_s (2 ^ 31) sec > 0 then
          (if wrap_s (2 ^ 31) usec < 0 then \<lparr>tv_sec = sec - 1, tv_usec = usec + 1000000\<rparr>
           else \<lparr>tv_sec = sec, tv_usec = usec\<rparr>)
        else if sec = 0 then
          (if wrap_s (2 ^ 31) usec < 0 then \<lparr>tv_sec = sec, tv_usec = 0\<rparr>
           else \<lparr>tv_sec = sec, tv_usec = usec\<rparr>)
        else \<lparr>tv_sec = 0, tv_usec = 0\<rparr>)"

subsection \<open>The internal clock\<close>

record clock =
  cnow :: timeval
  cdate :: timeval
  tv_offset :: timeval
  after_poll :: timeval
  before_poll :: timeval
  samp_time :: u32
  idle_time :: u32
  idle_pct :: u32
  curr_sec_ms :: u32
  ms_left_scaled :: u32
  now_ms :: u32

text \<open>The label \<open>to_ms\<close> at the end of \<open>tv_update_date\<close>.\<close>

definition clock_to_ms :: "timeval \<Rightarrow> clock \<Rightarrow> clock" where
  "clock_to_ms adjusted c =
    (let ms = word_of_int (c_div (tv_usec adjusted) 1000)
     in c\<lparr>cnow := adjusted, curr_sec_ms := ms,
          ms_left_scaled := (999 - ms) * 4294967,
          now_ms := word_of_int (tv_sec adjusted * 1000) + ms\<rparr>)"

text \<open>The label \<open>fixup\<close>: the date is taken from the previous one, and the offset recomputed.\<close>

definition clock_fixup :: "int \<Rightarrow> bool \<Rightarrow> clock \<Rightarrow> clock" where
  "clock_fixup max_wait interrupted c =
    (let adjusted = tv_ms_add (cnow c) (if interrupted then 0 else max_wait);
         sec = tv_sec adjusted - tv_sec (cdate c);
         usec = tv_usec adjusted - tv_usec (cdate c);
         off = (if usec < 0 then \<lparr>tv_sec = sec - 1, tv_usec = usec + 1000000\<rparr>
                else \<lparr>tv_sec = sec, tv_usec = usec\<rparr>)
     in clock_to_ms adjusted (c\<lparr>tv_offset := off\<rparr>))"

text \<open>\<open>sysdate\<close> is what \<open>gettimeofday\<close> returned.\<close>

definition tv_update_date :: "timeval \<Rightarrow> int \<Rightarrow> bool \<Rightarrow> clock \<Rightarrow> clock" where
  "tv_update_date sysdate max_wait interrupted c =
    (let c = c\<lparr>cdate := sysdate\<rparr>
     in if max_wait < 0 then
          clock_to_ms sysdate
            (c\<lparr>tv_offset := \<lparr>tv_sec = 0, tv_usec = 0\<rparr>, after_poll := sysdate,
               samp_time := 0, idle_time := 0, idle_pct := 100\<rparr>)
        else
          let adjusted = tv_add sysdate (tv_offset c)
          in if tv_islt adjusted (cnow c) then clock_fixup max_wait interrupted c
             else if tv_islt adjusted (tv_ms_add (cnow c) (max_wait + 1000))
             then clock_to_ms adjusted c
             else clock_fixup max_wait interrupted c)"

definition measure_idle :: "clock \<Rightarrow> clock" where
  "measure_idle c =
    (let diff = (\<lambda>a b. word_of_int ((tv_sec a - tv_sec b) * 1000000 + (tv_usec a - tv_usec b)));
         idle = idle_time c + diff (cdate c) (before_poll c);
         samp = samp_time c + diff (cdate c) (after_poll c);
         c = c\<lparr>idle_time := idle, samp_time := samp, after_poll := cdate c\<rparr>
     in if samp < 500000 then c
        else c\<lparr>idle_pct := (100 * idle + samp div 2) div samp, idle_time := 0, samp_time := 0\<rparr>)"

text \<open>A normalised date, in microseconds, and dates on which the 32-bit comparisons are exact.\<close>

definition tv_ok :: "timeval \<Rightarrow> bool" where
  "tv_ok tv \<longleftrightarrow> 0 \<le> tv_sec tv \<and> tv_sec tv < 2 ^ 32 \<and> 0 \<le> tv_usec tv \<and> tv_usec tv < 1000000"

definition tv_us :: "timeval \<Rightarrow> int" where
  "tv_us tv = tv_sec tv * 1000000 + tv_usec tv"

named_theorems tv_facts

lemma tv_carry_us [tv_facts]: "tv_us (tv_carry sec usec) = sec * 1000000 + usec"
  by (induction sec usec rule: tv_carry.induct) (subst tv_carry.simps, simp add: tv_us_def)

lemma tv_carry_norm:
  "0 \<le> usec \<Longrightarrow> 0 \<le> tv_usec (tv_carry sec usec) \<and> tv_usec (tv_carry sec usec) < 1000000"
  by (induction sec usec rule: tv_carry.induct) (subst (1 2) tv_carry.simps, simp)

lemma tv_add_us [tv_facts]: "tv_us (tv_add a b) = tv_us a + tv_us b"
  by (simp add: tv_add_def tv_us_def Let_def)

lemma tv_ms_add_us [tv_facts]: "0 \<le> ms \<Longrightarrow> tv_us (tv_ms_add a ms) = tv_us a + ms * 1000"
proof -
  assume ms: "0 \<le> ms"
  have "c_div ms 1000 * 1000 + c_rem ms 1000 = ms" by (simp add: c_rem_def)
  then show ?thesis unfolding tv_ms_add_def tv_carry_us by (simp add: tv_us_def algebra_simps)
qed

lemma tv_ms_add_norm:
  "0 \<le> ms \<Longrightarrow> 0 \<le> tv_usec a \<Longrightarrow> 0 \<le> tv_usec (tv_ms_add a ms) \<and> tv_usec (tv_ms_add a ms) < 1000000"
  unfolding tv_ms_add_def by (rule tv_carry_norm) (simp add: c_rem_nonneg)

lemma tv_islt_us: "tv_ok a \<Longrightarrow> tv_ok b \<Longrightarrow> tv_islt a b \<longleftrightarrow> tv_us a < tv_us b"
  by (auto simp: tv_islt_def tv_ok_def tv_us_def uns_id)

lemma tv_sec_us: "0 \<le> tv_usec a \<Longrightarrow> tv_usec a < 1000000 \<Longrightarrow> tv_sec a = tv_us a div 1000000"
  by (simp add: tv_us_def)

lemma tv_ok_us: "0 \<le> tv_usec a \<Longrightarrow> tv_usec a < 1000000 \<Longrightarrow>
    tv_ok a \<longleftrightarrow> 0 \<le> tv_us a \<and> tv_us a < 2 ^ 32 * 1000000"
  by (auto simp: tv_ok_def tv_us_def)

lemma clock_to_ms_now [simp]: "cnow (clock_to_ms a c) = a" "tv_offset (clock_to_ms a c) = tv_offset c"
  "cdate (clock_to_ms a c) = cdate c"
  by (simp_all add: clock_to_ms_def Let_def)

lemma clock_fixup_now [simp]:
  "cnow (clock_fixup w i c) = tv_ms_add (cnow c) (if i then 0 else w)"
  by (simp add: clock_fixup_def Let_def)

text \<open>The internal clock.  As long as the dates fit the 32-bit comparisons, a call after a poll never moves
  the clock backwards, whatever the system clock did, never moves it further forwards than the poll's
  timeout plus one second, and leaves it normalised.\<close>

theorem tv_update_date_monotonic:
  fixes interrupted :: bool
  assumes now: "tv_ok (cnow c)" and sys: "tv_ok (tv_add sysdate (tv_offset c))"
    and w: "0 \<le> max_wait" and far: "tv_us (cnow c) + (max_wait + 1000) * 1000 < 2 ^ 32 * 1000000"
  defines "c' \<equiv> tv_update_date sysdate max_wait interrupted c"
  shows "tv_us (cnow c) \<le> tv_us (cnow c') \<and>
    tv_us (cnow c') \<le> tv_us (cnow c) + (max_wait + 1000) * 1000 \<and> tv_ok (cnow c')"
proof -
  let ?adj = "tv_add sysdate (tv_offset c)" and ?lim = "tv_ms_add (cnow c) (max_wait + 1000)"
  let ?fix = "tv_ms_add (cnow c) (if interrupted then 0 else max_wait)"
  have u: "0 \<le> tv_usec (cnow c)" "0 \<le> tv_us (cnow c)" using now by (auto simp: tv_ok_def tv_us_def)
  have fix_us: "tv_us ?fix = tv_us (cnow c) + (if interrupted then 0 else max_wait) * 1000"
    and end_us: "tv_us ?lim = tv_us (cnow c) + (max_wait + 1000) * 1000"
    using w by (simp_all add: tv_ms_add_us)
  have "tv_ok ?lim" "tv_ok ?fix"
    using w u far tv_ms_add_norm [of "max_wait + 1000" "cnow c"]
      tv_ms_add_norm [of "if interrupted then 0 else max_wait" "cnow c"]
    by (simp_all add: tv_ok_us fix_us end_us split: if_splits)
  then have ok: "tv_ok ?lim" "tv_ok ?fix" by auto
  have "cnow c' = (if tv_us ?adj < tv_us (cnow c) \<or> \<not> tv_us ?adj < tv_us ?lim then ?fix else ?adj)"
    using w now sys ok by (simp add: c'_def tv_update_date_def Let_def tv_islt_us)
  then show ?thesis using w ok sys by (auto simp: fix_us end_us)
qed

theorem tv_update_date_monotonic_witness:
  "let c = \<lparr>cnow = \<lparr>tv_sec = 5, tv_usec = 0\<rparr>, cdate = \<lparr>tv_sec = 5, tv_usec = 0\<rparr>,
      tv_offset = \<lparr>tv_sec = 0, tv_usec = 0\<rparr>, after_poll = \<lparr>tv_sec = 5, tv_usec = 0\<rparr>,
      before_poll = \<lparr>tv_sec = 5, tv_usec = 0\<rparr>, samp_time = 0, idle_time = 0, idle_pct = 100,
      curr_sec_ms = 0, ms_left_scaled = 0, now_ms = 0\<rparr>;
      c' = tv_update_date \<lparr>tv_sec = 3, tv_usec = 7\<rparr> 10 False c
    in tv_us (cnow c) \<le> tv_us (cnow c') \<and>
      tv_us (cnow c') \<le> tv_us (cnow c) + (10 + 1000) * 1000 \<and> tv_ok (cnow c')"
  unfolding Let_def
  by (rule tv_update_date_monotonic) (simp_all add: tv_ok_def tv_add_def tv_us_def)

text \<open>Tv_ms_le2.  Its comment promises tv_ms_cmp2 <= 0, but for two equal dates that comparison holds and
  tv_ms_le2 is false.\<close>

theorem tv_ms_le2_equal_dates:
  assumes "tv_ok tv"
  shows "tv_ms_cmp2 tv tv \<le> 0 \<and> \<not> tv_ms_le2 tv tv"
  using assms by (auto simp: tv_ok_def tv_ms_cmp2_def tv_iseternity_def tv_ms_cmp_def tv_ms_le2_def
      Let_def uns_id)

theorem tv_ms_le2_equal_dates_witness:
  "tv_ms_cmp2 \<lparr>tv_sec = 1, tv_usec = 2\<rparr> \<lparr>tv_sec = 1, tv_usec = 2\<rparr> \<le> 0 \<and>
   \<not> tv_ms_le2 \<lparr>tv_sec = 1, tv_usec = 2\<rparr> \<lparr>tv_sec = 1, tv_usec = 2\<rparr>"
  by (rule tv_ms_le2_equal_dates) (simp add: tv_ok_def)

end
