(* ===== verification/HA_Freq.thy ===== *)
theory HA_Freq
  imports HA_Time
begin

section \<open>Event-rate counters (src/freq_ctr.c, include/proto/freq_ctr.h)\<close>

text \<open>
  A counter holds the number of events of the current period and of the last
  one.  The dates come from the clock: \<open>sec\<close> is \<open>now.tv_sec\<close> as an unsigned int,
  \<open>left\<close> is \<open>ms_left_scaled\<close> and \<open>now\<close> is \<open>now_ms\<close>.
\<close>

definition mul32hi :: "u32 \<Rightarrow> u32 \<Rightarrow> u32" where
  "mul32hi a b = ucast (drop_bit 32 ((ucast a :: u64) * ucast b))"

definition div64_32 :: "u64 \<Rightarrow> u32 \<Rightarrow> u32" where
  "div64_32 o1 o2 = ucast (o1 div ucast o2)"

record freq_ctr =
  curr_sec :: u32
  curr_ctr :: u32
  prev_ctr :: u32

record freq_ctr_period =
  p_curr_tick :: u32
  p_curr_ctr :: u32
  p_prev_ctr :: u32

definition rotate_freq_ctr :: "u32 \<Rightarrow> freq_ctr \<Rightarrow> freq_ctr" where
  "rotate_freq_ctr sec ctr =
    (let ctr = ctr\<lparr>prev_ctr := curr_ctr ctr\<rparr>;
         ctr = (if sec - curr_sec ctr \<noteq> 1 then ctr\<lparr>prev_ctr := 0\<rparr> else ctr)
     in ctr\<lparr>curr_sec := sec, curr_ctr := 0\<rparr>)"

definition update_freq_ctr :: "u32 \<Rightarrow> freq_ctr \<Rightarrow> u32 \<Rightarrow> freq_ctr" where
  "update_freq_ctr sec ctr inc =
    (if curr_sec ctr = sec then ctr\<lparr>curr_ctr := curr_ctr ctr + inc\<rparr>
     else (rotate_freq_ctr sec ctr)\<lparr>curr_ctr := inc\<rparr>)"

definition rotate_freq_ctr_period :: "u32 \<Rightarrow> freq_ctr_period \<Rightarrow> u32 \<Rightarrow> freq_ctr_period" where
  "rotate_freq_ctr_period now ctr period =
    (let ctr = ctr\<lparr>p_prev_ctr := p_curr_ctr ctr, p_curr_tick := p_curr_tick ctr + period\<rparr>;
         ctr = (if now - p_curr_tick ctr \<ge> period
                then ctr\<lparr>p_prev_ctr := 0, p_curr_tick := now\<rparr> else ctr)
     in ctr\<lparr>p_curr_ctr := 0\<rparr>)"

definition update_freq_ctr_period :: "u32 \<Rightarrow> freq_ctr_period \<Rightarrow> u32 \<Rightarrow> u32 \<Rightarrow> freq_ctr_period" where
  "update_freq_ctr_period now ctr period inc =
    (if now - p_curr_tick ctr < period then ctr\<lparr>p_curr_ctr := p_curr_ctr ctr + inc\<rparr>
     else (rotate_freq_ctr_period now ctr period)\<lparr>p_curr_ctr := inc\<rparr>)"

definition read_freq_ctr :: "u32 \<Rightarrow> u32 \<Rightarrow> freq_ctr \<Rightarrow> u32" where
  "read_freq_ctr sec left ctr =
    (let age = sec - curr_sec ctr
     in if age > 1 then 0
        else let (curr, past) = (if age = 0 then (curr_ctr ctr, prev_ctr ctr) else (0, curr_ctr ctr))
             in if past \<le> 1 \<and> curr = 0 then past else curr + mul32hi past left)"

text \<open>The events of the sliding period, the block that the next two functions share.\<close>

definition freq_ctr_curr :: "u32 \<Rightarrow> u32 \<Rightarrow> freq_ctr \<Rightarrow> u32" where
  "freq_ctr_curr sec left ctr =
    (let age = sec - curr_sec ctr
     in if age \<le> 1 then
          (let (curr, past) = (if age = 0 then (curr_ctr ctr, prev_ctr ctr) else (0, curr_ctr ctr))
           in curr + mul32hi past left)
        else 0)"

definition freq_ctr_remain :: "u32 \<Rightarrow> u32 \<Rightarrow> freq_ctr \<Rightarrow> u32 \<Rightarrow> u32 \<Rightarrow> u32" where
  "freq_ctr_remain sec left ctr freq pend =
    (let curr = freq_ctr_curr sec left ctr + pend
     in if curr \<ge> freq then 0 else freq - curr)"

text \<open>\<open>None\<close> is the division by zero that a null frequency and no event would give.\<close>

definition next_event_delay :: "u32 \<Rightarrow> u32 \<Rightarrow> freq_ctr \<Rightarrow> u32 \<Rightarrow> u32 \<Rightarrow> u32 option" where
  "next_event_delay sec left ctr freq pend =
    (let curr = freq_ctr_curr sec left ctr + pend
     in if curr < freq then Some 0
        else if curr = 0 then None
        else let wait = 999 div curr in Some (if wait > 1 then wait else 1))"

definition read_freq_ctr_period :: "u32 \<Rightarrow> freq_ctr_period \<Rightarrow> u32 \<Rightarrow> u32" where
  "read_freq_ctr_period now ctr period =
    (let curr = p_curr_ctr ctr; past = p_prev_ctr ctr;
         remain = p_curr_tick ctr + period - now;
         avg = (\<lambda>curr past remain.
           if past \<le> 1 \<and> curr = 0 then past
           else curr + div64_32 (ucast past * ucast remain) period)
     in if remain <s 0 then
          (let remain = remain + period
           in if remain <s 0 then 0 else avg 0 curr remain)
        else avg curr past remain)"

definition freq_ctr_remain_period :: "u32 \<Rightarrow> freq_ctr_period \<Rightarrow> u32 \<Rightarrow> u32 \<Rightarrow> u32 \<Rightarrow> u32" where
  "freq_ctr_remain_period now ctr period freq pend =
    (let curr = p_curr_ctr ctr; past = p_prev_ctr ctr;
         remain = p_curr_tick ctr + period - now;
         (curr, past, remain) =
           (if remain <s 0 then
              (let past = curr; curr = 0; remain = remain + period
               in (curr, if remain <s 0 then 0 else past, remain))
            else (curr, past, remain));
         curr = (if past \<noteq> 0 then curr + div64_32 (ucast past * ucast remain) period else curr);
         curr = curr + pend;
         freq = freq - curr
     in if freq <s 0 then 0 else freq)"

definition swrate_add :: "u32 \<Rightarrow> u32 \<Rightarrow> u32 \<Rightarrow> u32" where
  "swrate_add swsum n v = swsum * (n - 1) div n + v"

definition swrate_avg :: "u32 \<Rightarrow> u32 \<Rightarrow> u32" where
  "swrate_avg swsum n = (swsum + n - 1) div n"

lemma unat_mul32hi: "unat (mul32hi a b) = unat a * unat b div 2 ^ 32"
proof -
  have a: "unat a < 2 ^ 32" "unat b < 2 ^ 32" by (rule u32_less)+
  then have "unat a * unat b < 2 ^ 32 * 2 ^ 32" by (intro mult_strict_mono) simp_all
  then have p: "unat a * unat b < 2 ^ 64" by simp
  have u: "unat (ucast x :: u64) = unat x" for x :: u32
    using u32_less [of x] by (simp add: unsigned_ucast_eq take_bit_nat_eq_self)
  have "unat ((ucast a :: u64) * ucast b) = unat a * unat b"
    using p by (simp add: unat_word_ariths u)
  then have d: "unat (drop_bit 32 ((ucast a :: u64) * ucast b)) = unat a * unat b div 2 ^ 32"
    by (simp only: unat_drop_bit_eq) (simp add: drop_bit_eq_div)
  have "unat a * unat b div 2 ^ 32 < 2 ^ 32" using p by (simp add: less_mult_imp_div_less)
  with d show ?thesis by (simp add: mul32hi_def unsigned_ucast_eq take_bit_nat_eq_self)
qed

lemma mul32hi_le: "unat (mul32hi a b) \<le> unat a"
proof -
  have "unat b \<le> 2 ^ 32" using u32_less [of b] by linarith
  then have "unat a * unat b \<le> unat a * 2 ^ 32" by (rule mult_le_mono2)
  then have "unat a * unat b div 2 ^ 32 \<le> unat a * 2 ^ 32 div 2 ^ 32" by (rule div_le_mono)
  then show ?thesis by (simp add: unat_mul32hi)
qed

text \<open>Rate measure.  The rate read in the second of the last update lies between the events of this second
  and these plus the events of the previous one, as long as their sum fits 32 bits.\<close>

theorem read_freq_ctr_bounds:
  assumes "sec = curr_sec ctr" "unat (curr_ctr ctr) + unat (prev_ctr ctr) < 2 ^ 32"
  shows "unat (curr_ctr ctr) \<le> unat (read_freq_ctr sec left ctr) \<and>
    unat (read_freq_ctr sec left ctr) \<le> unat (curr_ctr ctr) + unat (prev_ctr ctr)"
proof -
  have m: "unat (mul32hi (prev_ctr ctr) left) \<le> unat (prev_ctr ctr)" by (rule mul32hi_le)
  then have "unat (curr_ctr ctr + mul32hi (prev_ctr ctr) left)
      = unat (curr_ctr ctr) + unat (mul32hi (prev_ctr ctr) left)"
    using assms(2) by (simp add: unat_word_ariths)
  then show ?thesis using m assms(1) by (auto simp: read_freq_ctr_def Let_def)
qed

theorem read_freq_ctr_bounds_witness:
  "unat (5 :: u32) \<le> unat (read_freq_ctr 7 2147483648 \<lparr>curr_sec = 7, curr_ctr = 5, prev_ctr = 10\<rparr>) \<and>
   unat (read_freq_ctr 7 2147483648 \<lparr>curr_sec = 7, curr_ctr = 5, prev_ctr = 10\<rparr>) \<le> 15"
  using read_freq_ctr_bounds [of 7 "\<lparr>curr_sec = 7, curr_ctr = 5, prev_ctr = 10\<rparr>" 2147483648] by simp

text \<open>Rate limiting.  For a limit that is not null the two limiters agree: an event may occur at once
  exactly when the number of remaining events is positive, and otherwise the delay is between 1 and 999 ms.
  The remaining number never exceeds the limit.\<close>

theorem freq_limit_agree:
  assumes "freq \<noteq> 0"
  shows "\<exists>delay. next_event_delay sec left ctr freq pend = Some delay \<and>
    (delay = 0 \<longleftrightarrow> freq_ctr_remain sec left ctr freq pend \<noteq> 0) \<and>
    delay \<le> 999 \<and> freq_ctr_remain sec left ctr freq pend \<le> freq"
proof -
  define c where "c = freq_ctr_curr sec left ctr + pend"
  have d: "999 div c \<le> 999" by (simp add: word_le_nat_alt unat_div)
  show ?thesis
  proof (cases "c < freq")
    case True
    then have "freq - c \<noteq> 0" "freq - c \<le> freq"
      by (auto simp: word_le_nat_alt word_less_nat_alt unat_sub)
    then show ?thesis using True
      by (simp add: next_event_delay_def freq_ctr_remain_def Let_def c_def [symmetric] not_le [symmetric])
  next
    case False
    then have "c \<noteq> 0" using assms by (auto simp: word_neq_0_conv [symmetric])
    with False d show ?thesis
      by (auto simp: next_event_delay_def freq_ctr_remain_def Let_def c_def [symmetric])
  qed
qed

theorem freq_limit_agree_witness:
  "\<exists>delay. next_event_delay 7 0 \<lparr>curr_sec = 7, curr_ctr = 5, prev_ctr = 10\<rparr> 5 0 = Some delay \<and>
    (delay = 0 \<longleftrightarrow> freq_ctr_remain 7 0 \<lparr>curr_sec = 7, curr_ctr = 5, prev_ctr = 10\<rparr> 5 0 \<noteq> 0) \<and>
    delay \<le> 999 \<and> freq_ctr_remain 7 0 \<lparr>curr_sec = 7, curr_ctr = 5, prev_ctr = 10\<rparr> 5 0 \<le> 5"
  by (rule freq_limit_agree) simp

end
