(* ===== verification/HA_Buffer.thy ===== *)
theory HA_Buffer
  imports HA_Prelude
begin

section \<open>Buffers (include/common/buffer.h, src/buffer.c)\<close>

text \<open>
  A buffer is a ring of \<open>size\<close> bytes at \<open>data\<close>.  The pointer \<open>p\<close> separates the
  \<open>o\<close> bytes of output before it from the \<open>i\<close> bytes of input after it; pointers
  are offsets from \<open>data\<close>, and \<open>size\<close> is the length of \<open>data\<close>.
\<close>

subsection \<open>State and operations\<close>

record buffer =
  data :: "byte list"
  ptr :: nat
  inp :: nat
  out :: nat

abbreviation bsize :: "buffer \<Rightarrow> nat" where
  "bsize b \<equiv> length (data b)"

text \<open>\<open>memcpy\<close> of a block into the area, which keeps its length.\<close>

definition blit :: "nat \<Rightarrow> byte list \<Rightarrow> byte list \<Rightarrow> byte list" where
  "blit pos blk d = take (length d) (take pos d @ blk @ drop (pos + length blk) d)"

definition b_ptr :: "buffer \<Rightarrow> int \<Rightarrow> nat" where
  "b_ptr b ofs =
    (let ret = int (ptr b) + ofs
     in nat (if ofs > 0 \<and> ret \<ge> int (bsize b) then ret - int (bsize b)
             else if ofs < 0 \<and> ret < 0 then ret + int (bsize b) else ret))"

definition b_adv :: "buffer \<Rightarrow> nat \<Rightarrow> buffer" where
  "b_adv b adv = b\<lparr>inp := inp b - adv, out := out b + adv, ptr := b_ptr b (int adv)\<rparr>"

definition b_rew :: "buffer \<Rightarrow> nat \<Rightarrow> buffer" where
  "b_rew b adv = b\<lparr>inp := inp b + adv, out := out b - adv, ptr := b_ptr b (- int adv)\<rparr>"

definition bi_end :: "buffer \<Rightarrow> nat" where
  "bi_end b = (let ret = ptr b + inp b in if ret \<ge> bsize b then ret - bsize b else ret)"

definition bi_contig_data :: "buffer \<Rightarrow> nat" where
  "bi_contig_data b = (let d = bsize b - ptr b in if d > inp b then inp b else d)"

definition bo_ptr :: "buffer \<Rightarrow> nat" where
  "bo_ptr b = (if ptr b < out b then ptr b + bsize b - out b else ptr b - out b)"

definition bo_contig_data :: "buffer \<Rightarrow> nat" where
  "bo_contig_data b = (if ptr b < out b then out b - ptr b else out b)"

definition buffer_len :: "buffer \<Rightarrow> nat" where
  "buffer_len b = inp b + out b"

definition buffer_not_empty :: "buffer \<Rightarrow> bool" where
  "buffer_not_empty b \<longleftrightarrow> inp b \<noteq> 0 \<or> out b \<noteq> 0"

definition buffer_empty :: "buffer \<Rightarrow> bool" where
  "buffer_empty b \<longleftrightarrow> \<not> buffer_not_empty b"

definition buffer_wrap_add :: "buffer \<Rightarrow> nat \<Rightarrow> nat" where
  "buffer_wrap_add b q = (if q \<ge> bsize b then q - bsize b else q)"

definition buffer_total_space :: "buffer \<Rightarrow> nat" where
  "buffer_total_space b = bsize b - buffer_len b"

definition buffer_contig_space :: "buffer \<Rightarrow> nat" where
  "buffer_contig_space b =
    (let right = (if out b \<le> ptr b then bsize b else ptr b + bsize b - out b);
         left = buffer_wrap_add b (ptr b + inp b)
     in right - left)"

definition buffer_realign :: "buffer \<Rightarrow> buffer \<times> nat" where
  "buffer_realign b =
    (let b = (if inp b = 0 \<and> out b = 0 then b\<lparr>ptr := 0\<rparr> else b)
     in (b, buffer_contig_space b))"

definition buffer_flush :: "buffer \<Rightarrow> buffer" where
  "buffer_flush b =
    b\<lparr>ptr := buffer_wrap_add b (ptr b + inp b), out := out b + inp b, inp := 0\<rparr>"

definition bo_putchr :: "buffer \<Rightarrow> byte \<Rightarrow> buffer" where
  "bo_putchr b c =
    (if buffer_len b = bsize b then b
     else let b = b\<lparr>data := blit (ptr b) [c] (data b)\<rparr>;
              b = b\<lparr>ptr := b_ptr b 1\<rparr>
          in b\<lparr>out := out b + 1\<rparr>)"

text \<open>
  \<open>memcpy(b->p, blk, ...)\<close> and the move of the pointer by \<open>adv\<close>.  The second copy of
  \<open>bo_putblk\<close> reads from \<open>blk\<close> again, and advances by \<open>half\<close> again.
\<close>

definition bo_copy :: "buffer \<Rightarrow> byte list \<Rightarrow> nat \<Rightarrow> buffer" where
  "bo_copy b blk adv =
    b\<lparr>data := blit (ptr b) blk (data b), ptr := b_ptr (b\<lparr>data := blit (ptr b) blk (data b)\<rparr>) (int adv)\<rparr>"

definition bo_putblk :: "buffer \<Rightarrow> byte list \<Rightarrow> buffer" where
  "bo_putblk b blk =
    (let cur_len = buffer_len b;
         len = (if length blk > bsize b - cur_len then bsize b - cur_len else length blk)
     in if len = 0 then b
        else let half = buffer_contig_space b;
                 half = (if half > len then len else half);
                 b = bo_copy b (take half blk) half;
                 b = (if len > half then bo_copy b (take (len - half) blk) half else b)
             in b\<lparr>out := out b + len\<rparr>)"

text \<open>
  \<open>buffer_replace2\<close> replaces the bytes between \<open>pos\<close> and \<open>end\<close> by \<open>str\<close>; the
  value is the shift.  \<open>memmove\<close> of the tail, then the copy.
\<close>

definition buffer_replace2 :: "buffer \<Rightarrow> nat \<Rightarrow> nat \<Rightarrow> byte list \<Rightarrow> int \<times> buffer" where
  "buffer_replace2 b pos en str =
    (let delta = int (length str) - (int en - int pos)
     in if int (bi_end b) + delta \<ge> int (bsize b) then (0, b)
        else if buffer_not_empty b \<and> int (bi_end b) + delta > int (bo_ptr b) \<and> bo_ptr b \<ge> bi_end b
        then (0, b)
        else let d = blit (nat (int en + delta)) (take (bi_end b - en) (drop en (data b))) (data b);
                 d = blit pos str d;
                 b = b\<lparr>data := d, inp := nat (int (inp b) + delta)\<rparr>;
                 b = (if buffer_empty b then b\<lparr>ptr := 0\<rparr> else b)
             in (delta, b))"

definition buffer_insert_line2 :: "buffer \<Rightarrow> nat \<Rightarrow> byte list option \<Rightarrow> nat \<Rightarrow> nat \<times> buffer" where
  "buffer_insert_line2 b pos str len =
    (let delta = len + 2
     in if bi_end b + delta \<ge> bsize b then (0, b)
        else let d = blit (pos + delta) (take (bi_end b - pos) (drop pos (data b))) (data b);
                 d = (case str of Some s \<Rightarrow> if len \<noteq> 0 then blit pos (take len s @ [CR, LF]) d else d
                      | None \<Rightarrow> d)
             in (delta, b\<lparr>data := d, inp := inp b + delta\<rparr>))"

definition buffer_slow_realign :: "buffer \<Rightarrow> buffer" where
  "buffer_slow_realign b =
    (if inp b \<noteq> 0 then
       (let (block1, block2) =
              (if ptr b + inp b > bsize b
               then (bsize b - ptr b, ptr b + inp b - bsize b) else (inp b, 0));
            swap_buffer = take block2 (data b);
            d = blit 0 (take block1 (drop (ptr b) (data b))) (data b);
            d = (if block2 \<noteq> 0 then blit block1 swap_buffer d else d)
        in b\<lparr>data := d, ptr := 0\<rparr>)
     else b\<lparr>ptr := 0\<rparr>)"

subsection \<open>What a buffer holds\<close>

definition ring :: "byte list \<Rightarrow> nat \<Rightarrow> nat \<Rightarrow> byte list" where
  "ring d s n = map (\<lambda>k. d ! ((s + k) mod length d)) [0..<n]"

definition buf_ok :: "buffer \<Rightarrow> bool" where
  "buf_ok b \<longleftrightarrow> ptr b < bsize b \<and> inp b + out b \<le> bsize b"

definition buf_in :: "buffer \<Rightarrow> byte list" where
  "buf_in b = ring (data b) (ptr b) (inp b)"

definition buf_out :: "buffer \<Rightarrow> byte list" where
  "buf_out b = ring (data b) (bo_ptr b) (out b)"

named_theorems buf_defs

declare buf_ok_def [buf_defs] buf_in_def [buf_defs] buf_out_def [buf_defs]

lemma length_ring [simp]: "length (ring d s n) = n"
  by (simp add: ring_def)

lemma ring_mod: "ring d (s mod length d) n = ring d s n"
  by (simp add: ring_def mod_add_left_eq)

lemma nth_ring: "k < n \<Longrightarrow> ring d s n ! k = d ! ((s + k) mod length d)"
  by (simp add: ring_def)

lemma ring_append: "ring d s (m + n) = ring d s m @ ring d (s + m) n"
  by (rule nth_equalityI) (auto simp: nth_ring nth_append add.assoc)

lemma ring_take_drop: "n \<le> m \<Longrightarrow> take n (ring d s m) = ring d s n \<and> drop n (ring d s m) = ring d (s + n) (m - n)"
  using ring_append [of d s n "m - n"] by simp

lemma mod_wrap: "x < 2 * n \<Longrightarrow> x mod n = (if x < n then x else x - n)" for x n :: nat
  by (cases "x < n") (simp_all add: le_mod_geq)

lemma length_blit [simp]: "length (blit pos blk d) = length d"
  by (simp add: blit_def)

lemma blit_Nil [simp]: "blit pos blk d = [] \<longleftrightarrow> d = []"
  by (metis length_0_conv length_blit)

lemma blit_nth:
  "pos + length blk \<le> length d \<Longrightarrow> k < length d \<Longrightarrow>
    blit pos blk d ! k = (if pos \<le> k \<and> k < pos + length blk then blk ! (k - pos) else d ! k)"
  by (auto simp: blit_def nth_append min_def)

lemma b_ptr_pos: "ptr b < bsize b \<Longrightarrow> n \<le> bsize b \<Longrightarrow> b_ptr b (int n) = (ptr b + n) mod bsize b"
  by (auto simp: b_ptr_def Let_def mod_wrap nat_diff_distrib')

lemma b_ptr_neg: "ptr b < bsize b \<Longrightarrow> n \<le> bsize b \<Longrightarrow>
    b_ptr b (- int n) = (ptr b + (bsize b - n)) mod bsize b"
  by (auto simp: b_ptr_def Let_def mod_wrap)

lemma bo_ptr_mod: "buf_ok b \<Longrightarrow> bo_ptr b = (ptr b + (bsize b - out b)) mod bsize b"
  by (auto simp: bo_ptr_def buf_ok_def mod_wrap)

lemma bi_end_mod: "buf_ok b \<Longrightarrow> bi_end b = (ptr b + inp b) mod bsize b"
  by (auto simp: bi_end_def buf_ok_def mod_wrap Let_def)

lemma buffer_eqI:
  "data a = data b \<Longrightarrow> ptr a = ptr b \<Longrightarrow> inp a = inp b \<Longrightarrow> out a = out b \<Longrightarrow> a = (b :: buffer)"
  by simp


lemma ring_cong: "s mod length d = s' mod length d \<Longrightarrow> ring d s n = ring d s' n"
  by (metis ring_mod)

lemma ring_Suc: "ring d s (Suc n) = ring d s n @ [d ! ((s + n) mod length d)]"
  using ring_append [of d s n 1] by (simp add: ring_def)

lemma ring_blit_outside:
  assumes "pos + length blk \<le> length d" "d \<noteq> []"
    and "\<And>k. k < n \<Longrightarrow> (s + k) mod length d < pos \<or> pos + length blk \<le> (s + k) mod length d"
  shows "ring (blit pos blk d) s n = ring d s n"
proof (rule nth_equalityI)
  fix k assume "k < length (ring (blit pos blk d) s n)"
  then show "ring (blit pos blk d) s n ! k = ring d s n ! k"
    using assms(3) [of k] assms(1,2) by (auto simp: nth_ring blit_nth)
qed simp

lemma ring_blit_inside:
  assumes "pos + length blk \<le> length d" "d \<noteq> []"
  shows "ring (blit pos blk d) pos (length blk) = blk"
  by (rule nth_equalityI) (use assms in \<open>auto simp: nth_ring blit_nth\<close>)

lemma buf_out_ring: "buf_ok b \<Longrightarrow> buf_out b = ring (data b) (ptr b + (bsize b - out b)) (out b)"
  unfolding buf_out_def by (subst bo_ptr_mod) (simp_all add: ring_mod)

lemma buf_ok_simps:
  "buf_ok b \<Longrightarrow> ptr b < bsize b" "buf_ok b \<Longrightarrow> inp b + out b \<le> bsize b" "buf_ok b \<Longrightarrow> data b \<noteq> []"
  by (auto simp: buf_ok_def)

lemma length_buf [simp]: "length (buf_in b) = inp b" "length (buf_out b) = out b"
  by (simp_all add: buf_defs)

subsection \<open>Moving the border between input and output\<close>

lemma b_adv_ok: "buf_ok b \<Longrightarrow> n \<le> inp b \<Longrightarrow> buf_ok (b_adv b n)"
  using b_ptr_pos [of b n] buf_ok_simps(3) [of b] by (auto simp: buf_ok_def b_adv_def)

lemma b_adv_in:
  assumes "buf_ok b" "n \<le> inp b"
  shows "buf_in (b_adv b n) = drop n (buf_in b)"
proof -
  have "b_ptr b (int n) = (ptr b + n) mod bsize b"
    using assms by (auto simp: buf_ok_def intro!: b_ptr_pos)
  then show ?thesis using assms
    by (simp add: buf_in_def b_adv_def ring_take_drop ring_mod)
qed

lemma b_adv_out:
  assumes "buf_ok b" "n \<le> inp b"
  shows "buf_out (b_adv b n) = buf_out b @ take n (buf_in b)"
proof -
  have k: "buf_ok (b_adv b n)" using assms by (rule b_adv_ok)
  have p: "b_ptr b (int n) = (ptr b + n) mod bsize b"
    using assms by (auto simp: buf_ok_def intro!: b_ptr_pos)
  have le: "inp b + out b \<le> bsize b" using assms by (simp add: buf_ok_def)
  have "((ptr b + n) mod bsize b + (bsize b - (out b + n))) mod bsize b
      = (ptr b + n + (bsize b - (out b + n))) mod bsize b" by (simp add: mod_add_left_eq)
  also have "ptr b + n + (bsize b - (out b + n)) = ptr b + (bsize b - out b)"
    using le assms(2) by linarith
  finally have m: "((ptr b + n) mod bsize b + (bsize b - (out b + n))) mod bsize b
      = (ptr b + (bsize b - out b)) mod bsize b" .
  have "buf_out (b_adv b n)
      = ring (data b) ((ptr b + n) mod bsize b + (bsize b - (out b + n))) (out b + n)"
    unfolding buf_out_ring [OF k] by (simp add: b_adv_def p)
  also have "\<dots> = ring (data b) (ptr b + (bsize b - out b)) (out b + n)"
    by (rule ring_cong) (rule m)
  also have "\<dots> = ring (data b) (ptr b + (bsize b - out b)) (out b)
      @ ring (data b) (ptr b + (bsize b - out b) + out b) n" by (rule ring_append)
  also have "ring (data b) (ptr b + (bsize b - out b) + out b) n = ring (data b) (ptr b) n"
    using le by (intro ring_cong) simp
  finally show ?thesis using assms
    by (simp add: buf_out_ring) (simp add: buf_in_def ring_take_drop)
qed

lemma b_rew_adv:
  assumes "buf_ok b" "n \<le> inp b"
  shows "b_rew (b_adv b n) n = b"
proof -
  have "b_ptr (b_adv b n) (- int n) = ptr b"
  proof -
    have k: "buf_ok (b_adv b n)" using assms by (rule b_adv_ok)
    have "b_ptr (b_adv b n) (- int n) = (ptr (b_adv b n) + (bsize b - n)) mod bsize b"
      using b_ptr_neg [of "b_adv b n" n] assms k by (auto simp: buf_ok_def b_adv_def)
    also have "ptr (b_adv b n) = (ptr b + n) mod bsize b"
      using assms by (auto simp: b_adv_def buf_ok_def intro!: b_ptr_pos)
    also have "((ptr b + n) mod bsize b + (bsize b - n)) mod bsize b
        = (ptr b + n + (bsize b - n)) mod bsize b" by (simp add: mod_add_left_eq)
    also have "\<dots> = ptr b" using assms by (simp add: buf_ok_def)
    finally show ?thesis .
  qed
  with assms show ?thesis by (simp add: b_rew_def) (simp add: b_adv_def)
qed

subsection \<open>Writing at the end\<close>

lemma mod_eq_small:
  fixes x j m :: nat
  assumes "(x + j) mod m = x mod m" "0 < j" "j < m"
  shows False
proof -
  have "(x + j) mod m = (x mod m + j) mod m" by (simp add: mod_add_left_eq)
  moreover have "x mod m < m" using assms by simp
  ultimately show False using assms by (auto simp: mod_wrap split: if_splits)
qed

lemma ring_write_contig:
  assumes pos: "pos = (s + n) mod length d" and fit: "pos + length blk \<le> length d"
    and room: "n + length blk \<le> length d" and ne: "d \<noteq> []"
  shows "ring (blit pos blk d) s (n + length blk) = ring d s n @ blk"
proof -
  have "ring (blit pos blk d) s n = ring d s n"
  proof (rule ring_blit_outside [OF fit ne])
    fix k assume k: "k < n"
    show "(s + k) mod length d < pos \<or> pos + length blk \<le> (s + k) mod length d"
    proof (rule ccontr)
      assume "\<not> ?thesis"
      then have c: "pos \<le> (s + k) mod length d" "(s + k) mod length d < pos + length blk"
        by (simp_all only: de_Morgan_disj not_less not_le)
      define j where "j = (s + k) mod length d - pos"
      have j: "j < length blk" "(s + k) mod length d = pos + j"
        using c unfolding j_def by linarith+
      have "(s + k + (n - k + j)) mod length d = (pos + j) mod length d"
      proof -
        have "s + k + (n - k + j) = s + n + j" using k by linarith
        then show ?thesis by (simp only: pos mod_add_left_eq)
      qed
      also have "\<dots> = (s + k) mod length d" using j fit by simp
      finally have e: "(s + k + (n - k + j)) mod length d = (s + k) mod length d" .
      show False by (rule mod_eq_small [OF e]) (use k j room in linarith)+
    qed
  qed
  moreover have "ring (blit pos blk d) (s + n) (length blk) = blk"
    using ring_mod [of "blit pos blk d" "s + n"] ring_blit_inside [OF fit ne] by (simp add: pos)
  ultimately show ?thesis by (simp add: ring_append)
qed

lemma ring_write_wrap:
  assumes pos: "pos = (s + n) mod length d" and wrap: "length d < pos + length blk"
    and room: "n + length blk \<le> length d" and ne: "d \<noteq> []"
  shows "ring (blit 0 (drop (length d - pos) blk) (blit pos (take (length d - pos) blk) d)) s
      (n + length blk) = ring d s n @ blk"
proof -
  let ?m = "length d - pos"
  let ?d = "blit pos (take ?m blk) d"
  have pl: "pos < length d" using ne by (simp add: pos)
  have lt: "length (take ?m blk) = ?m" using wrap by simp
  have r1: "ring ?d s (n + ?m) = ring d s n @ take ?m blk"
    using ring_write_contig [of pos s n d "take ?m blk"] pos wrap room ne pl by (simp add: lt)
  have "(s + (n + ?m)) mod length d = (pos + ?m) mod length d"
    by (simp add: pos mod_add_left_eq ac_simps)
  then have z: "0 = (s + (n + ?m)) mod length ?d" using pl by simp
  have "ring (blit 0 (drop ?m blk) ?d) s (n + ?m + length (drop ?m blk))
      = ring ?d s (n + ?m) @ drop ?m blk"
    using wrap room ne pl by (intro ring_write_contig [OF z]) auto
  then show ?thesis using wrap by (simp add: r1)
qed

definition buf_contents :: "buffer \<Rightarrow> byte list" where
  "buf_contents b = buf_out b @ buf_in b"

lemma length_contents [simp]: "length (buf_contents b) = out b + inp b"
  by (simp add: buf_contents_def)

lemma buf_contents_ring:
  assumes "buf_ok b"
  shows "buf_contents b = ring (data b) (bo_ptr b) (out b + inp b)"
proof -
  have "(bo_ptr b + out b) mod bsize b = (ptr b + (bsize b - out b) + out b) mod bsize b"
    unfolding bo_ptr_mod [OF assms] by (rule mod_add_left_eq)
  also have "\<dots> = ptr b mod bsize b" using assms by (simp add: buf_ok_def)
  finally have "ring (data b) (bo_ptr b + out b) (inp b) = ring (data b) (ptr b) (inp b)"
    by (rule ring_cong)
  then show ?thesis by (simp add: buf_contents_def buf_out_def buf_in_def ring_append)
qed

lemma bi_end_contents:
  assumes "buf_ok b"
  shows "bi_end b = (bo_ptr b + (out b + inp b)) mod bsize b"
proof -
  have "(bo_ptr b + (out b + inp b)) mod bsize b
      = (ptr b + (bsize b - out b) + (out b + inp b)) mod bsize b"
    unfolding bo_ptr_mod [OF assms] by (rule mod_add_left_eq)
  also have "ptr b + (bsize b - out b) + (out b + inp b) = ptr b + inp b + bsize b"
    using assms by (simp add: buf_ok_def)
  finally show ?thesis by (simp add: bi_end_mod [OF assms])
qed

lemma bi_end_lt: "buf_ok b \<Longrightarrow> bi_end b < bsize b"
  by (simp add: bi_end_mod) (use buf_ok_simps(3) in auto)

lemma ring_contig: "s + n \<le> length d \<Longrightarrow> ring d s n = take n (drop s d)"
  by (rule nth_equalityI) (auto simp: nth_ring)

subsection \<open>Properties\<close>

text \<open>Advancing a buffer by at most its input moves that many bytes from the head of
  the input to the tail of the output, over a wrap too, and rewinding undoes it.\<close>

theorem b_adv_moves:
  assumes "buf_ok b" "n \<le> inp b"
  shows "buf_ok (b_adv b n)
    \<and> buf_out (b_adv b n) = buf_out b @ take n (buf_in b)
    \<and> buf_in (b_adv b n) = drop n (buf_in b)
    \<and> b_rew (b_adv b n) n = b"
  using b_adv_ok [OF assms] b_adv_out [OF assms] b_adv_in [OF assms] b_rew_adv [OF assms] by simp

theorem b_adv_moves_witness:
  "buf_in (b_adv \<lparr>data = [1, 2, 3, 4], ptr = 3, inp = 3, out = 1\<rparr> 2)
    = drop 2 (buf_in \<lparr>data = [1, 2, 3, 4], ptr = 3, inp = 3, out = 1\<rparr>)"
  using b_adv_moves [of "\<lparr>data = [1, 2, 3, 4], ptr = 3, inp = 3, out = 1\<rparr>" 2]
  by (simp add: buf_ok_def)

text \<open>On a buffer without output, \<open>buffer_slow_realign\<close> moves the input to the start of
  the area, in one piece and unchanged, whether it wrapped or not.\<close>

theorem slow_realign_contents:
  assumes "buf_ok b" "out b = 0"
  shows "ptr (buffer_slow_realign b) = 0
    \<and> take (inp b) (data (buffer_slow_realign b)) = buf_in b
    \<and> buf_in (buffer_slow_realign b) = buf_in b"
proof -
  let ?r = "buffer_slow_realign b"
  have le: "ptr b < bsize b" "inp b \<le> bsize b" "data b \<noteq> []" "bsize ?r = bsize b" "inp ?r = inp b"
    using assms by (auto simp: buf_ok_def buffer_slow_realign_def Let_def)
  have t: "take (inp b) (data ?r) = buf_in b"
  proof (rule nth_equalityI)
    fix k assume k: "k < length (take (inp b) (data ?r))"
    then show "take (inp b) (data ?r) ! k = buf_in b ! k" using le
      by (auto simp: buffer_slow_realign_def Let_def buf_in_def nth_ring blit_nth mod_wrap)
        (simp_all add: add.commute)
  qed (use le in simp)
  moreover have "ptr ?r = 0" by (simp add: buffer_slow_realign_def Let_def split: prod.split)
  ultimately show ?thesis using le by (simp add: buf_in_def [of ?r] ring_contig)
qed

theorem slow_realign_contents_witness:
  "take 3 (data (buffer_slow_realign \<lparr>data = [7, 8, 9, 6], ptr = 3, inp = 3, out = 0\<rparr>)) = [6, 7, 8]"
  using slow_realign_contents [of "\<lparr>data = [7, 8, 9, 6], ptr = 3, inp = 3, out = 0\<rparr>"]
  by (simp add: buf_defs ring_def upt_rec)

text \<open>What \<open>buffer_replace2\<close> does to the area: the tail moves, then the string comes in.\<close>

lemma blit_fit: "pos + length blk \<le> length d \<Longrightarrow>
    blit pos blk d = take pos d @ blk @ drop (pos + length blk) d"
  by (simp add: blit_def)

lemma splice_data:
  assumes "pos \<le> en" "en \<le> e" "e \<le> length d" "e + length str \<le> length d + (en - pos)"
  shows "blit pos str (blit (pos + length str) (take (e - en) (drop en d)) d)
    = take pos d @ str @ take (e - en) (drop en d) @ drop (e + length str - (en - pos)) d"
proof -
  define tl where "tl = take (e - en) (drop en d)"
  have f: "pos + length str + (e - en) \<le> length d" using assms by linarith
  have x: "e + length str - (en - pos) = pos + length str + length tl"
    and l: "length tl = e - en" using assms by (simp_all add: tl_def)
  have b: "blit (pos + length str) tl d
      = take (pos + length str) d @ tl @ drop (pos + length str + length tl) d"
    using f by (intro blit_fit) (simp add: l)
  have b': "blit pos str (blit (pos + length str) tl d) = take pos (blit (pos + length str) tl d)
      @ str @ drop (pos + length str) (blit (pos + length str) tl d)"
    using f by (intro blit_fit) simp
  show ?thesis unfolding x tl_def [symmetric] b' unfolding b using f by (simp add: min_def)
qed

lemma splice_in:
  assumes "s \<le> pos" "pos \<le> en" "en \<le> s + n" "s + n \<le> length d"
    and "s + n + length str \<le> length d + (en - pos)"
  shows "ring (blit pos str (blit (pos + length str) (take (s + n - en) (drop en d)) d)) s
      (n + length str - (en - pos))
    = take (pos - s) (ring d s n) @ str @ drop (en - s) (ring d s n)"
proof -
  let ?d = "blit pos str (blit (pos + length str) (take (s + n - en) (drop en d)) d)"
  have "ring ?d s (n + length str - (en - pos)) = take (n + length str - (en - pos)) (drop s ?d)"
    using assms by (intro ring_contig) simp
  also have "\<dots> = drop s (take pos d) @ str @ take (s + n - en) (drop en d)"
  proof -
    define x y where "x = drop s (take pos d)" and "y = take (s + n - en) (drop en d)"
    have l: "length x = pos - s" "length y = s + n - en"
      and m: "n + length str - (en - pos) = length x + length str + length y"
      using assms by (simp_all add: x_def y_def)
    have "drop s ?d = x @ str @ y @ drop (s + n + length str - (en - pos)) d"
      unfolding splice_data [OF assms(2-5)] using assms by (simp add: x_def y_def)
    then show ?thesis unfolding m x_def [symmetric] y_def [symmetric] by simp
  qed
  finally have "ring ?d s (n + length str - (en - pos))
      = drop s (take pos d) @ str @ take (s + n - en) (drop en d)" .
  moreover have "take (pos - s) (ring d s n) = drop s (take pos d)"
    "drop (en - s) (ring d s n) = take (s + n - en) (drop en d)"
    using assms by (simp_all add: ring_contig drop_take min_def add.commute)
  ultimately show ?thesis by (simp only:)
qed

lemma splice_out:
  assumes "pos \<le> en" "en \<le> e" "e \<le> length d" "e + length str \<le> length d + (en - pos)" "d \<noteq> []"
    and out: "\<And>k. k < n \<Longrightarrow> (s + k) mod length d < pos
      \<or> e + length str - (en - pos) \<le> (s + k) mod length d"
  shows "ring (blit pos str (blit (pos + length str) (take (e - en) (drop en d)) d)) s n = ring d s n"
proof (rule nth_equalityI)
  fix k assume "k < length (ring (blit pos str (blit (pos + length str) (take (e - en) (drop en d)) d)) s n)"
  then have k: "k < n" by simp
  have "(s + k) mod length d < length d" using assms(5) by simp
  with out [OF k] assms(1-4)
  show "ring (blit pos str (blit (pos + length str) (take (e - en) (drop en d)) d)) s n ! k
      = ring d s n ! k"
    using k by (auto simp: nth_ring blit_nth)
qed simp



text \<open>Both output writers are an advance over bytes just put at the input's place.\<close>

lemma bo_putchr_out:
  assumes ok: "buf_ok b" and i: "inp b = 0" and room: "out b < bsize b"
  shows "buf_ok (bo_putchr b c) \<and> buf_out (bo_putchr b c) = buf_out b @ [c] \<and> inp (bo_putchr b c) = 0"
proof -
  let ?b = "b\<lparr>data := blit (ptr b) [c] (data b), inp := 1\<rparr>"
  have e: "bi_end b = ptr b" using ok i by (simp add: bi_end_def buf_ok_def Let_def)
  have k: "buf_ok ?b" using ok room i by (simp add: buf_ok_def)
  have "buf_contents ?b = ring (blit (ptr b) [c] (data b)) (bo_ptr b) (out b + length [c])"
    using buf_contents_ring [OF k] by (simp add: bo_ptr_def)
  also have "\<dots> = ring (data b) (bo_ptr b) (out b) @ [c]"
    using ok i room e bi_end_contents [OF ok] by (intro ring_write_contig) (auto simp: buf_ok_def)
  finally have "buf_out (b_adv ?b 1) = buf_out b @ [c]"
    using b_adv_out [OF k, of 1] by (simp add: buf_contents_def) (simp add: buf_out_def)
  moreover have "bo_putchr b c = b_adv ?b 1"
    using room i by (simp add: bo_putchr_def b_adv_def buffer_len_def b_ptr_def Let_def)
  moreover have "buf_ok (b_adv ?b 1)" using k by (rule b_adv_ok) simp
  ultimately show ?thesis by (simp add: b_adv_def)
qed

lemma bo_putblk_contig:
  assumes ok: "buf_ok b" and i: "inp b = 0" and fits: "length blk \<le> buffer_contig_space b"
    and room: "length blk \<le> bsize b - out b" and ne: "blk \<noteq> []"
  shows "bo_putblk b blk = b_adv (b\<lparr>data := blit (ptr b) blk (data b), inp := length blk\<rparr>) (length blk)"
proof -
  have h: "(if buffer_contig_space b > length blk then length blk else buffer_contig_space b) = length blk"
    using fits by auto
  have "bo_putblk b blk = (bo_copy b blk (length blk))\<lparr>out := out b + length blk\<rparr>"
    using room ne i fits by (auto simp: bo_putblk_def Let_def buffer_len_def h bo_copy_def)
  also have "\<dots> = b_adv (b\<lparr>data := blit (ptr b) blk (data b), inp := length blk\<rparr>) (length blk)"
    using i by (intro buffer_eqI) (simp_all add: b_adv_def bo_copy_def b_ptr_def Let_def)
  finally show ?thesis .
qed

text \<open>With no input pending, \<open>bo_putblk\<close> appends the whole block to the output when it fits
  in the contiguous space, and no byte that was there is lost.\<close>

theorem bo_putblk_appends:
  assumes ok: "buf_ok b" and i: "inp b = 0" and fits: "length blk \<le> buffer_contig_space b"
    and room: "length blk \<le> bsize b - out b"
  shows "buf_ok (bo_putblk b blk) \<and> buf_out (bo_putblk b blk) = buf_out b @ blk"
proof (cases "blk = []")
  case True
  then show ?thesis using ok by (simp add: bo_putblk_def)
next
  case False
  let ?b = "b\<lparr>data := blit (ptr b) blk (data b), inp := length blk\<rparr>"
  have e: "bi_end b = ptr b" using ok i by (simp add: bi_end_def buf_ok_def Let_def)
  have k: "buf_ok ?b" using ok room i by (auto simp: buf_ok_def)
  have fit: "ptr b + length blk \<le> bsize b"
    using fits ok i room by (auto simp: buffer_contig_space_def buffer_wrap_add_def buf_ok_def Let_def split: if_splits)
  have "buf_contents ?b = ring (blit (ptr b) blk (data b)) (bo_ptr b) (out b + length blk)"
    using buf_contents_ring [OF k] by (simp add: bo_ptr_def)
  also have "\<dots> = ring (data b) (bo_ptr b) (out b) @ blk"
    using ok i room e bi_end_contents [OF ok] fit by (intro ring_write_contig) (auto simp: buf_ok_def)
  finally have "buf_out (b_adv ?b (length blk)) = buf_out b @ blk"
    using b_adv_out [OF k, of "length blk"] by (simp add: buf_contents_def) (simp add: buf_out_def)
  moreover have "buf_ok (b_adv ?b (length blk))" using k by (rule b_adv_ok) simp
  ultimately show ?thesis using bo_putblk_contig [OF assms False] by simp
qed

theorem bo_putblk_appends_witness:
  "buf_out (bo_putblk \<lparr>data = [0, 1, 0, 0], ptr = 2, inp = 0, out = 1\<rparr> [5, 6]) = [1, 5, 6]"
  using bo_putblk_appends [of "\<lparr>data = [0, 1, 0, 0], ptr = 2, inp = 0, out = 1\<rparr>" "[5, 6]"]
  by (simp add: buf_defs buffer_contig_space_def buffer_wrap_add_def bo_ptr_def ring_def upt_rec)

text \<open>\<open>bo_putblk\<close> corrupts a block that has to wrap, although it fits: its second copy
  starts again from the head of the block and moves the pointer by the length of the first
  copy, so the output is neither the old output nor the old output and the block.\<close>

theorem bo_putblk_wrap_corrupts:
  "\<exists>b blk. buf_ok b \<and> inp b = 0 \<and> length blk \<le> buffer_total_space b
    \<and> buf_out (bo_putblk b blk) = [2, 9, 1, 1] \<and> buf_out b @ blk = [9, 1, 2, 3]"
proof -
  let ?b = "\<lparr>data = [0, 0, 9, 0], ptr = 3, inp = 0, out = 1\<rparr>"
  show ?thesis
    by (rule exI [of _ ?b], rule exI [of _ "[1, 2, 3]"]) code_simp
qed

end
