(* ===== verification/HA_Fifo.thy ===== *)
theory HA_Fifo
  imports HA_Prelude
begin

section \<open>The contract of a byte stream\<close>

text \<open>
  What the two ends of a channel rely on: a writer that gets a positive answer
  has appended its block, a refused block leaves the stream as it was, and a
  reader that consumes some of the readable bytes removes them from the head.
  Every interleaving of writes and reads then delivers what was accepted, in
  order; the lemma is proved once here, for any implementation.
\<close>

datatype fifo_op = Put "byte list" | Get nat

text \<open>
  A run: the bytes that the writer saw accepted, the bytes the reader got, and
  the final state.
\<close>

fun fifo_run ::
  "('s \<Rightarrow> byte list \<Rightarrow> int \<times> 's) \<Rightarrow> ('s \<Rightarrow> byte list) \<Rightarrow> ('s \<Rightarrow> nat \<Rightarrow> 's) \<Rightarrow> 's \<Rightarrow> fifo_op list
    \<Rightarrow> byte list \<times> byte list \<times> 's" where
  "fifo_run put readable skip s [] = ([], [], s)"
| "fifo_run put readable skip s (Put blk # ops) =
    (let (r, s') = put s blk;
         (sent, got, t) = fifo_run put readable skip s' ops
     in ((if r > 0 then blk else []) @ sent, got, t))"
| "fifo_run put readable skip s (Get n # ops) =
    (let bs = take n (readable s);
         (sent, got, t) = fifo_run put readable skip (skip s (length bs)) ops
     in (sent, bs @ got, t))"

locale byte_fifo =
  fixes inv :: "'s \<Rightarrow> bool"
    and contents :: "'s \<Rightarrow> byte list"
    and readable :: "'s \<Rightarrow> byte list"
    and put :: "'s \<Rightarrow> byte list \<Rightarrow> int \<times> 's"
    and skip :: "'s \<Rightarrow> nat \<Rightarrow> 's"
  assumes put_inv: "inv s \<Longrightarrow> inv (snd (put s blk))"
    and put_accepted: "inv s \<Longrightarrow> fst (put s blk) > 0 \<Longrightarrow> contents (snd (put s blk)) = contents s @ blk"
    and put_refused: "inv s \<Longrightarrow> fst (put s blk) \<le> 0 \<Longrightarrow> contents (snd (put s blk)) = contents s"
    and readable_prefix: "inv s \<Longrightarrow> readable s = take (length (readable s)) (contents s)"
    and skip_inv: "inv s \<Longrightarrow> n \<le> length (readable s) \<Longrightarrow> inv (skip s n)"
    and skip_contents: "inv s \<Longrightarrow> n \<le> length (readable s) \<Longrightarrow> contents (skip s n) = drop n (contents s)"
begin

abbreviation run :: "'s \<Rightarrow> fifo_op list \<Rightarrow> byte list \<times> byte list \<times> 's" where
  "run \<equiv> fifo_run put readable skip"

lemma take_readable: "inv s \<Longrightarrow> take n (readable s) @ drop (length (take n (readable s))) (contents s) = contents s"
  by (subst (1) readable_prefix) (simp_all add: min_def)

theorem run_in_order:
  "inv s \<Longrightarrow> run s ops = (sent, got, t) \<Longrightarrow> inv t \<and> contents s @ sent = got @ contents t"
proof (induction ops arbitrary: s sent got t)
  case Nil
  then show ?case by simp
next
  case (Cons op ops)
  show ?case
  proof (cases op)
    case (Put blk)
    obtain r s' where p: "put s blk = (r, s')" by (cases "put s blk")
    obtain a g t' where q: "run s' ops = (a, g, t')" by (cases "run s' ops")
    have i: "inv s'" using put_inv [OF Cons.prems(1), of blk] by (simp add: p)
    have "contents s' = contents s @ (if r > 0 then blk else [])"
      using put_accepted [OF Cons.prems(1), of blk] put_refused [OF Cons.prems(1), of blk]
      by (auto simp: p)
    then show ?thesis using Cons.IH [OF i q] Cons.prems(2) by (auto simp: Put p q split: if_splits)
  next
    case (Get n)
    define bs where "bs = take n (readable s)"
    obtain a g t' where q: "run (skip s (length bs)) ops = (a, g, t')"
      by (cases "run (skip s (length bs)) ops")
    have l: "length bs \<le> length (readable s)" by (simp add: bs_def)
    have "inv t' \<and> contents (skip s (length bs)) @ a = g @ contents t'"
      using Cons.IH [OF skip_inv [OF Cons.prems(1) l] q] .
    moreover have "contents s = bs @ contents (skip s (length bs))"
      using take_readable [OF Cons.prems(1), of n] skip_contents [OF Cons.prems(1) l]
      by (simp add: bs_def)
    ultimately show ?thesis using Cons.prems(2) q by (auto simp: Get bs_def Let_def)
  qed
qed

end

end
