(* ===== verification/HA_Channel.thy ===== *)
theory HA_Channel
  imports HA_Buffer HA_Time HA_Fifo
begin

section \<open>Channels (src/channel.c, include/proto/channel.h)\<close>

text \<open>
  A channel carries bytes from a producer to a consumer through its buffer.  The
  producer appends input; input becomes output when an analyser or the forward
  counter \<open>to_forward\<close> lets it through; the consumer reads output.  The flags are
  the 32-bit word of the code, \<open>to_forward\<close> is an unsigned int (a number below
  \<open>2 ^ 32\<close>, its wrap-around written out) and \<open>maxrewrite\<close> is the global tunable,
  an argument of the operations that read it.  Buffer sizes are below \<open>2 ^ 31\<close>, as
  the code's use of int for them assumes.
\<close>

subsection \<open>State\<close>

abbreviation CF_READ_PARTIAL :: u32 where "CF_READ_PARTIAL \<equiv> 0x2"
abbreviation CF_READ_TIMEOUT :: u32 where "CF_READ_TIMEOUT \<equiv> 0x4"
abbreviation CF_SHUTR :: u32 where "CF_SHUTR \<equiv> 0x20"
abbreviation CF_SHUTR_NOW :: u32 where "CF_SHUTR_NOW \<equiv> 0x40"
abbreviation CF_READ_NOEXP :: u32 where "CF_READ_NOEXP \<equiv> 0x80"
abbreviation CF_WRITE_PARTIAL :: u32 where "CF_WRITE_PARTIAL \<equiv> 0x200"
abbreviation CF_WRITE_TIMEOUT :: u32 where "CF_WRITE_TIMEOUT \<equiv> 0x400"
abbreviation CF_WAKE_WRITE :: u32 where "CF_WAKE_WRITE \<equiv> 0x1000"
abbreviation CF_SHUTW :: u32 where "CF_SHUTW \<equiv> 0x2000"
abbreviation CF_SHUTW_NOW :: u32 where "CF_SHUTW_NOW \<equiv> 0x4000"

record channel =
  flags :: u32
  buf :: buffer
  to_forward :: int
  pipe :: bool
  total_bytes :: int

definition CHN_INFINITE_FORWARD :: int where
  "CHN_INFINITE_FORWARD = 2 ^ 32 - 1"

definition MID_RANGE :: int where
  "MID_RANGE = 2 ^ 31"

definition has_flag :: "channel \<Rightarrow> u32 \<Rightarrow> bool" where
  "has_flag c m \<longleftrightarrow> flags c AND m \<noteq> 0"

subsection \<open>Forwarding\<close>

definition channel_forward_slow :: "channel \<Rightarrow> int \<Rightarrow> int \<times> channel" where
  "channel_forward_slow c n =
    (let forwarded = int (inp (buf c));
         c = c\<lparr>buf := b_adv (buf c) (inp (buf c))\<rparr>
     in if to_forward c = CHN_INFINITE_FORWARD then (n, c)
        else if n = CHN_INFINITE_FORWARD then (n, c\<lparr>to_forward := n\<rparr>)
        else let new_forward = (to_forward c + n - forwarded) mod 2 ^ 32;
                 new_forward = (if new_forward \<le> to_forward c then MID_RANGE else new_forward)
             in if new_forward > to_forward c
                then (forwarded + (new_forward - to_forward c), c\<lparr>to_forward := new_forward\<rparr>)
                else (forwarded, c))"

definition channel_forward :: "channel \<Rightarrow> int \<Rightarrow> int \<times> channel" where
  "channel_forward c n =
    (if n < 2 ^ 32 \<and> n \<le> int (inp (buf c)) then (n, c\<lparr>buf := b_adv (buf c) (nat n)\<rparr>)
     else channel_forward_slow c n)"

subsection \<open>Space\<close>

definition channel_is_empty :: "channel \<Rightarrow> bool" where
  "channel_is_empty c \<longleftrightarrow> out (buf c) = 0 \<and> \<not> pipe c"

definition channel_reserved :: "int \<Rightarrow> channel \<Rightarrow> bool" where
  "channel_reserved maxrewrite c \<longleftrightarrow>
    int (bsize (buf c)) - int (out (buf c)) - int (inp (buf c)) - maxrewrite \<ge> 0"

definition channel_full :: "int \<Rightarrow> channel \<Rightarrow> bool" where
  "channel_full maxrewrite c =
    (let rem = int (bsize (buf c)) - int (out (buf c)) - int (inp (buf c))
     in if rem = 0 then True
        else if to_forward c \<ge> int (bsize (buf c)) then False
        else rem - maxrewrite + int (out (buf c)) + to_forward c \<le> 0)"

definition channel_input_closed :: "channel \<Rightarrow> bool" where
  "channel_input_closed c \<longleftrightarrow> has_flag c CF_SHUTR"

definition channel_output_closed :: "channel \<Rightarrow> bool" where
  "channel_output_closed c \<longleftrightarrow> has_flag c CF_SHUTW"

definition buffer_reserved :: "int \<Rightarrow> channel \<Rightarrow> int" where
  "buffer_reserved maxrewrite c =
    (let ret = wrap_s (2 ^ 31) (maxrewrite - to_forward c - int (out (buf c)))
     in if to_forward c = CHN_INFINITE_FORWARD then 0 else if ret \<le> 0 then 0 else ret)"

definition buffer_max_len :: "int \<Rightarrow> channel \<Rightarrow> int" where
  "buffer_max_len maxrewrite c = int (bsize (buf c)) - buffer_reserved maxrewrite c"

definition bi_avail :: "int \<Rightarrow> channel \<Rightarrow> int" where
  "bi_avail maxrewrite c =
    (let rem = int (bsize (buf c)) - int (out (buf c)) - int (inp (buf c))
     in if rem = 0 then rem
        else if to_forward c \<ge> int (bsize (buf c)) then rem
        else let rem2 = rem - maxrewrite + int (out (buf c)) + to_forward c;
                 rem = (if rem > rem2 then rem2 else rem)
             in if rem > 0 then rem else 0)"

subsection \<open>The producer's side\<close>

definition channel_erase :: "channel \<Rightarrow> channel" where
  "channel_erase c = c\<lparr>buf := (buf c)\<lparr>out := 0, inp := 0, ptr := 0\<rparr>, to_forward := 0\<rparr>"

definition bi_erase :: "channel \<Rightarrow> channel" where
  "bi_erase c =
    (if out (buf c) = 0 then channel_erase c
     else let c = c\<lparr>to_forward := 0\<rparr>
          in if inp (buf c) = 0 then c else c\<lparr>buf := (buf c)\<lparr>inp := 0\<rparr>\<rparr>)"

definition bo_inject :: "channel \<Rightarrow> byte list \<Rightarrow> int \<times> channel" where
  "bo_inject c msg =
    (if msg = [] then (- 1, c)
     else if length msg > bsize (buf c) then (- 2, c)
     else let (b, room) = buffer_realign (buf c);
              c = c\<lparr>buf := b\<rparr>
          in if length msg > room then (int room, c)
             else let b = b\<lparr>data := blit (ptr b) msg (data b), out := out b + length msg\<rparr>
                  in (- 1, c\<lparr>buf := b\<lparr>ptr := b_ptr b (int (length msg))\<rparr>,
                            total_bytes := (total_bytes c + int (length msg)) mod 2 ^ 64\<rparr>))"

definition bi_putchr :: "int \<Rightarrow> channel \<Rightarrow> byte \<Rightarrow> int \<times> channel" where
  "bi_putchr maxrewrite c x =
    (if channel_input_closed c then (- 2, c)
     else if channel_full maxrewrite c then (- 1, c\<lparr>flags := flags c OR CF_WAKE_WRITE\<rparr>)
     else let b = buf c;
              b = b\<lparr>data := blit (bi_end b) [x] (data b), inp := inp b + 1\<rparr>;
              c = c\<lparr>buf := b, flags := flags c OR CF_READ_PARTIAL\<rparr>;
              c = (if to_forward c \<ge> 1 then
                     let c = (if to_forward c \<noteq> CHN_INFINITE_FORWARD
                              then c\<lparr>to_forward := to_forward c - 1\<rparr> else c)
                     in c\<lparr>buf := b_adv (buf c) 1\<rparr>
                   else c)
          in (1, c\<lparr>total_bytes := (total_bytes c + 1) mod 2 ^ 64\<rparr>))"

text \<open>The copy of a block that fits, in one or two pieces, and the share of it that is forwarded.\<close>

definition put_input :: "buffer \<Rightarrow> byte list \<Rightarrow> buffer" where
  "put_input b blk =
    (let room = buffer_contig_space b;
         d = blit (bi_end b) (take room blk) (data b);
         d = (if length blk > room then blit 0 (drop room blk) d else d)
     in b\<lparr>data := d, inp := inp b + length blk\<rparr>)"

definition forward_new :: "channel \<Rightarrow> nat \<Rightarrow> channel" where
  "forward_new c len =
    (if to_forward c \<noteq> 0 then
       (if to_forward c \<noteq> CHN_INFINITE_FORWARD then
          let fwd = (if int len > to_forward c then nat (to_forward c) else len)
          in c\<lparr>to_forward := to_forward c - int fwd, buf := b_adv (buf c) fwd\<rparr>
        else c\<lparr>buf := b_adv (buf c) len\<rparr>)
     else c)"

definition bi_putblk :: "int \<Rightarrow> channel \<Rightarrow> byte list \<Rightarrow> int \<times> channel" where
  "bi_putblk maxrewrite c blk =
    (let len = length blk
     in if channel_input_closed c then (- 2, c)
        else let limit = buffer_max_len maxrewrite c
             in if int len > limit - int (buffer_len (buf c)) then
                  (if int len > limit then (- 3, c)
                   else (- 1, c\<lparr>flags := flags c OR CF_WAKE_WRITE\<rparr>))
                else if len = 0 then (0, c)
                else let c = c\<lparr>buf := put_input (buf c) blk,
                               total_bytes := (total_bytes c + int len) mod 2 ^ 64\<rparr>;
                         c = forward_new c len
                     in (int len, c\<lparr>flags := flags c OR CF_READ_PARTIAL\<rparr>))"

subsection \<open>The consumer's side\<close>

definition bo_skip :: "channel \<Rightarrow> nat \<Rightarrow> channel" where
  "bo_skip c len =
    (let b = (buf c)\<lparr>out := out (buf c) - len\<rparr>;
         b = (if buffer_empty b then b\<lparr>ptr := 0\<rparr> else b)
     in c\<lparr>buf := b, flags := flags c OR CF_WRITE_PARTIAL\<rparr>)"

definition bo_getchr :: "channel \<Rightarrow> int" where
  "bo_getchr c =
    (if has_flag c CF_SHUTW \<or> channel_is_empty c
     then (if has_flag c (CF_SHUTW OR CF_SHUTW_NOW) then - 2 else - 1)
     else sint (data (buf c) ! bo_ptr (buf c)))"

text \<open>
  \<open>bo_getline\<close> copies into the caller's area: the value is the return code and the
  bytes copied.  The store \<open>str[max-1] = 0\<close> happens before the loop; with an
  empty buffer (the data being in the pipe) it falls before the area: None.
\<close>

fun getline_loop :: "buffer \<Rightarrow> nat \<Rightarrow> nat \<Rightarrow> byte list" where
  "getline_loop b 0 p = []"
| "getline_loop b (Suc m) p =
    (let x = data b ! p
     in x # (if x = LF then [] else getline_loop b m (buffer_wrap_add b (p + 1))))"

definition bo_getline :: "int \<Rightarrow> channel \<Rightarrow> nat \<Rightarrow> (int \<times> byte list) option" where
  "bo_getline maxrewrite c len =
    (if has_flag c CF_SHUTW \<or> channel_is_empty c
     then Some (if has_flag c (CF_SHUTW OR CF_SHUTW_NOW) then - 1 else 0, [])
     else if len > out (buf c) \<and> out (buf c) = 0 then None
     else let m = (if len > out (buf c) then out (buf c) else len);
              str = getline_loop (buf c) m (bo_ptr (buf c));
              ret = length str
          in if ret > 0 \<and> ret < len \<and> (ret < out (buf c) \<or> \<not> channel_full maxrewrite c)
                \<and> last str \<noteq> LF \<and> \<not> has_flag c (CF_SHUTW OR CF_SHUTW_NOW)
             then Some (0, str) else Some (int ret, str))"

definition bo_getblk :: "channel \<Rightarrow> nat \<Rightarrow> nat \<Rightarrow> int \<times> byte list" where
  "bo_getblk c len offset =
    (if has_flag c CF_SHUTW then (- 1, [])
     else if len + offset > out (buf c) then
       (if has_flag c (CF_SHUTW OR CF_SHUTW_NOW) then (- 1, []) else (0, []))
     else let b = buf c;
              firstblock = bsize b - bo_ptr b
          in if firstblock > offset then
               (if firstblock \<ge> len + offset
                then (int len, take len (drop (bo_ptr b + offset) (data b)))
                else (int len, take (firstblock - offset) (drop (bo_ptr b + offset) (data b))
                        @ take (len + offset - firstblock) (data b)))
             else (int len, take len (drop (offset - firstblock) (data b))))"

subsection \<open>The byte stream a channel carries\<close>

definition ch_ok :: "channel \<Rightarrow> bool" where
  "ch_ok c \<longleftrightarrow> buf_ok (buf c)"

definition ch_contents :: "channel \<Rightarrow> byte list" where
  "ch_contents c = buf_contents (buf c)"

definition ch_readable :: "channel \<Rightarrow> byte list" where
  "ch_readable c = buf_out (buf c)"

named_theorems ch_defs

declare ch_ok_def [ch_defs] ch_contents_def [ch_defs] ch_readable_def [ch_defs]

lemma b_adv_contents: "buf_ok b \<Longrightarrow> n \<le> inp b \<Longrightarrow> buf_contents (b_adv b n) = buf_contents b"
  by (simp add: buf_contents_def b_adv_out b_adv_in)

lemma wrap_bi_end: "buffer_wrap_add b (ptr b + inp b) = bi_end b"
  by (simp add: buffer_wrap_add_def bi_end_def Let_def)

lemma put_input_data:
  assumes ok: "buf_ok b" and room: "buffer_len b + length blk \<le> bsize b"
  shows "ring (data (put_input b blk)) (bo_ptr b) (out b + inp b + length blk)
    = ring (data b) (bo_ptr b) (out b + inp b) @ blk"
proof -
  have p: "bi_end b = (bo_ptr b + (out b + inp b)) mod bsize b" by (rule bi_end_contents [OF ok])
  have l: "out b + inp b + length blk \<le> bsize b" using room by (simp add: buffer_len_def)
  have ne: "data b \<noteq> []" using ok by (rule buf_ok_simps)
  have el: "bi_end b < bsize b" using ok by (rule bi_end_lt)
  show ?thesis
  proof (cases "length blk \<le> buffer_contig_space b")
    case True
    have "bi_end b + length blk \<le> bsize b"
    proof (cases "out b \<le> ptr b")
      case le: True
      then show ?thesis using True el by (simp add: buffer_contig_space_def wrap_bi_end)
    next
      case False
      then show ?thesis using ok l by (simp add: bi_end_def buf_ok_def Let_def)
    qed
    then show ?thesis
      using ring_write_contig [OF p _ l ne] True by (simp add: put_input_def Let_def)
  next
    case False
    have "buffer_contig_space b = bsize b - bi_end b"
      using False ok l
      by (auto simp: buffer_contig_space_def wrap_bi_end)
        (auto simp: buf_ok_def bi_end_def Let_def split: if_splits)
    then show ?thesis
      using ring_write_wrap [OF p _ l ne] False el by (simp add: put_input_def Let_def)
  qed
qed

lemma put_input_ok:
  assumes ok: "buf_ok b" and room: "buffer_len b + length blk \<le> bsize b"
  shows "buf_ok (put_input b blk)" and "buf_contents (put_input b blk) = buf_contents b @ blk"
    and "inp (put_input b blk) = inp b + length blk" and "out (put_input b blk) = out b"
proof -
  show k: "buf_ok (put_input b blk)"
    using ok room by (auto simp: put_input_def buf_ok_def buffer_len_def Let_def)
  show i: "inp (put_input b blk) = inp b + length blk" "out (put_input b blk) = out b"
    by (simp_all add: put_input_def Let_def)
  have "bo_ptr (put_input b blk) = bo_ptr b" by (simp add: bo_ptr_def put_input_def Let_def)
  then show "buf_contents (put_input b blk) = buf_contents b @ blk"
    unfolding buf_contents_ring [OF k] buf_contents_ring [OF ok] i
    using put_input_data [OF ok room] by (simp add: add.assoc)
qed

lemma buffer_reserved_nonneg: "0 \<le> buffer_reserved mr c"
  by (simp add: buffer_reserved_def Let_def)

text \<open>A block is accepted exactly when it fits below the limit, and then its bytes follow the others.\<close>

lemma bi_putblk_accepted:
  assumes "fst (bi_putblk mr c blk) > 0" and ok: "ch_ok c"
  shows "\<exists>fwd. fwd \<le> inp (put_input (buf c) blk)
    \<and> buf (snd (bi_putblk mr c blk)) = b_adv (put_input (buf c) blk) fwd
    \<and> buffer_len (buf c) + length blk \<le> bsize (buf c)"
proof -
  have l: "\<not> int (length blk) > buffer_max_len mr c - int (buffer_len (buf c))" "blk \<noteq> []"
    and cl: "\<not> channel_input_closed c"
    using assms(1) by (auto simp: bi_putblk_def Let_def split: if_splits)
  have "buffer_len (buf c) + length blk \<le> bsize (buf c)"
    using l buffer_reserved_nonneg [of mr c] by (simp add: buffer_max_len_def)
  moreover have "\<exists>fwd. fwd \<le> inp (buf c) + length blk
      \<and> buf (snd (bi_putblk mr c blk)) = b_adv (put_input (buf c) blk) fwd"
  proof -
    have "b_adv b 0 = b" for b by (simp add: b_adv_def b_ptr_def)
    then have "\<exists>fwd \<le> length blk. buf (forward_new c' (length blk)) = b_adv (buf c') fwd" for c'
      by (intro exI [of _ "if to_forward c' = 0 then 0
          else if to_forward c' \<noteq> CHN_INFINITE_FORWARD \<and> int (length blk) > to_forward c'
          then nat (to_forward c') else length blk"]) (auto simp: forward_new_def Let_def)
    from this [of "c\<lparr>buf := put_input (buf c) blk,
        total_bytes := (total_bytes c + int (length blk)) mod 2 ^ 64\<rparr>"]
    obtain fwd where "fwd \<le> length blk" and "buf (snd (bi_putblk mr c blk)) = b_adv (put_input (buf c) blk) fwd"
      using l cl by (auto simp: bi_putblk_def Let_def)
    then show ?thesis by (intro exI [of _ fwd]) simp
  qed
  ultimately show ?thesis by (auto simp: put_input_def Let_def)
qed

lemma bi_putblk_refused: "fst (bi_putblk mr c blk) \<le> 0 \<Longrightarrow> buf (snd (bi_putblk mr c blk)) = buf c"
  by (auto simp: bi_putblk_def Let_def split: if_splits)

lemma bo_skip_buf:
  assumes ok: "buf_ok b" and n: "n \<le> out b"
  shows "buf_ok (b\<lparr>out := out b - n\<rparr>)" "buf_contents (b\<lparr>out := out b - n\<rparr>) = drop n (buf_contents b)"
proof -
  let ?b = "b\<lparr>out := out b - n\<rparr>"
  show k: "buf_ok ?b" using ok n by (auto simp: buf_ok_def)
  have "buf_out ?b = drop n (buf_out b)"
    using buf_out_ring [OF ok] buf_out_ring [OF k] n ok ring_take_drop [OF n]
    by (auto simp: buf_ok_def algebra_simps intro!: arg_cong2 [where f = "ring (data b)"])
  then show "buf_contents ?b = drop n (buf_contents b)"
    using n by (simp add: buf_contents_def buf_in_def)
qed

interpretation chn: byte_fifo ch_ok ch_contents ch_readable "bi_putblk mr" bo_skip for mr
proof unfold_locales
  fix c :: channel and blk :: "byte list" and n :: nat
  assume ok: "ch_ok c"
  note [simp] = ch_defs
  show "ch_ok (snd (bi_putblk mr c blk))"
  proof (cases "fst (bi_putblk mr c blk) > 0")
    case True
    then show ?thesis using bi_putblk_accepted [OF True ok] ok by (auto intro!: b_adv_ok put_input_ok(1))
  next
    case False
    then show ?thesis using bi_putblk_refused [of mr c blk] ok by simp
  qed
  show "ch_contents (snd (bi_putblk mr c blk)) = ch_contents c @ blk"
    if "fst (bi_putblk mr c blk) > 0"
    using bi_putblk_accepted [OF that ok] ok by (auto simp: b_adv_contents put_input_ok)
  show "ch_contents (snd (bi_putblk mr c blk)) = ch_contents c"
    if "fst (bi_putblk mr c blk) \<le> 0"
    using bi_putblk_refused [OF that] by simp
  show "ch_readable c = take (length (ch_readable c)) (ch_contents c)"
    by (simp add: buf_contents_def)
  assume n: "n \<le> length (ch_readable c)"
  have b: "buf (bo_skip c n) = (let b = (buf c)\<lparr>out := out (buf c) - n\<rparr>
      in if buffer_empty b then b\<lparr>ptr := 0\<rparr> else b)"
    by (simp add: bo_skip_def Let_def)
  have k: "buf_ok ((buf c)\<lparr>out := out (buf c) - n\<rparr>)"
    "buf_contents ((buf c)\<lparr>out := out (buf c) - n\<rparr>) = drop n (buf_contents (buf c))"
    using bo_skip_buf [of "buf c" n] ok n by simp_all
  show "ch_ok (bo_skip c n)" using k(1) by (auto simp: b Let_def buf_ok_def)
  show "ch_contents (bo_skip c n) = drop n (ch_contents c)"
  proof (cases "buffer_empty ((buf c)\<lparr>out := out (buf c) - n\<rparr>)")
    case True
    then show ?thesis using k(2)
      by (simp add: b Let_def) (simp add: buffer_empty_def buffer_not_empty_def buf_contents_def buf_defs ring_def)
  next
    case False
    then show ?thesis using k(2) by (simp add: b Let_def)
  qed
qed

text \<open>C3: whatever the sequence of \<open>bi_putblk\<close> calls of a producer and of reads and \<open>bo_skip\<close>
  calls of a consumer, and wherever they wrap, the bytes the consumer got followed by those still
  in the channel are the bytes that were there followed by the blocks the producer saw accepted.\<close>

theorem channel_in_order:
  assumes "ch_ok c"
    and "fifo_run (bi_putblk maxrewrite) ch_readable bo_skip c ops = (sent, got, c')"
  shows "ch_ok c' \<and> ch_contents c @ sent = got @ ch_contents c'"
  using assms by (rule chn.run_in_order)

theorem channel_in_order_witness:
  "[] @ [1, 2, 3, 4, 5] = [1, 2, 3, 4] @ ch_contents (snd (snd
    (fifo_run (bi_putblk 0) ch_readable bo_skip
      \<lparr>flags = 0, buf = \<lparr>data = [0, 0, 0, 0], ptr = 2, inp = 0, out = 0\<rparr>, to_forward = 9,
        pipe = False, total_bytes = 0\<rparr>
      [Put [1, 2, 3], Get 2, Put [9, 9, 9, 9], Put [4, 5], Get 2])))"
proof -
  let ?c = "\<lparr>flags = 0, buf = \<lparr>data = [0, 0, 0, 0], ptr = 2, inp = 0, out = 0\<rparr>, to_forward = 9,
    pipe = False, total_bytes = 0\<rparr> :: channel"
  let ?ops = "[Put [1, 2, 3], Get 2, Put [9, 9, 9, 9], Put [4, 5], Get 2]"
  let ?run = "fifo_run (bi_putblk 0) ch_readable bo_skip"
  have "?run ?c ?ops = ([1, 2, 3, 4, 5], [1, 2, 3, 4], snd (snd (?run ?c ?ops)))" by code_simp
  moreover have "ch_ok ?c" "ch_contents ?c = []" by code_simp+
  ultimately show ?thesis using channel_in_order [of ?c 0 ?ops] by metis
qed

subsection \<open>Forwarding and space\<close>

lemma mod32_cases:
  fixes x :: int
  assumes "0 \<le> x" "x < 2 * 2 ^ 32"
  shows "x mod 2 ^ 32 = (if x < 2 ^ 32 then x else x - 2 ^ 32)"
  using assms mod_shift_up [of "2 ^ 32" x] by auto

text \<open>\<open>channel_forward\<close> accounts for exactly what it announces: the growth of the output and
  of the forward counter together is the value it returns, which never exceeds the request, and
  is the whole request unless the counter would overflow an unsigned int.\<close>

theorem channel_forward_accounts:
  assumes ok: "ch_ok c" and tf: "0 \<le> to_forward c" "to_forward c < CHN_INFINITE_FORWARD"
    and n: "0 \<le> n" "n < CHN_INFINITE_FORWARD" and i: "int (inp (buf c)) < 2 ^ 31"
    and r: "channel_forward c n = (ret, c')"
  shows "int (out (buf c')) + to_forward c' = int (out (buf c)) + to_forward c + ret
    \<and> ret \<le> n
    \<and> (to_forward c + n - int (inp (buf c)) < 2 ^ 32 \<longrightarrow> ret = n)
    \<and> ch_contents c' = ch_contents c"
proof -
  let ?i = "int (inp (buf c))"
  have cs: "buf_contents (b_adv (buf c) m) = buf_contents (buf c)" if "m \<le> inp (buf c)" for m
    using ok that by (simp add: ch_ok_def b_adv_contents)
  have o: "out (b_adv b m) = out b + m" for b m by (simp add: b_adv_def)
  show ?thesis
  proof (cases "n \<le> ?i")
    case True
    with n r cs [of "nat n"] show ?thesis
      by (auto simp: channel_forward_def CHN_INFINITE_FORWARD_def o ch_contents_def)
  next
    case False
    have m: "(to_forward c + n - ?i) mod 4294967296
        = (if to_forward c + n - ?i < 2 ^ 32 then to_forward c + n - ?i
           else to_forward c + n - ?i - 2 ^ 32)"
      using False tf n mod32_cases [of "to_forward c + n - ?i"] by (simp add: CHN_INFINITE_FORWARD_def)
    have r': "channel_forward_slow c n = (ret, c')"
      using r False by (simp add: channel_forward_def)
    show ?thesis
      using r' False tf n i cs [OF order_refl] unfolding channel_forward_slow_def Let_def
      by (auto simp: m CHN_INFINITE_FORWARD_def MID_RANGE_def ch_contents_def o split: if_splits)
  qed
qed

theorem channel_forward_accounts_witness:
  "\<exists>c'. channel_forward \<lparr>flags = 0, buf = \<lparr>data = [1, 2, 3, 4], ptr = 1, inp = 2, out = 1\<rparr>,
        to_forward = 0, pipe = False, total_bytes = 0\<rparr> 5 = (5, c')
    \<and> int (out (buf c')) + to_forward c' = 6"
proof -
  let ?c = "\<lparr>flags = 0, buf = \<lparr>data = [1, 2, 3, 4], ptr = 1, inp = 2, out = 1\<rparr>,
    to_forward = 0, pipe = False, total_bytes = 0\<rparr> :: channel"
  have r: "channel_forward ?c 5 = (5, snd (channel_forward ?c 5))" by code_simp
  show ?thesis using channel_forward_accounts [OF _ _ _ _ _ _ r] r
    by (auto simp: ch_ok_def buf_ok_def CHN_INFINITE_FORWARD_def)
qed

text \<open>The test \<open>channel_full\<close> and the count \<open>bi_avail\<close> agree: a channel is full exactly when
  no byte may be added to its input.\<close>

theorem channel_full_avail:
  assumes "ch_ok c"
  shows "channel_full maxrewrite c \<longleftrightarrow> bi_avail maxrewrite c = 0"
proof -
  have "int (bsize (buf c)) - int (out (buf c)) - int (inp (buf c)) \<ge> 0"
    using assms by (simp add: ch_ok_def buf_ok_def)
  then show ?thesis by (auto simp: channel_full_def bi_avail_def Let_def)
qed

theorem channel_full_avail_witness:
  "channel_full 1 \<lparr>flags = 0, buf = \<lparr>data = [1, 2, 3, 4], ptr = 1, inp = 3, out = 0\<rparr>,
        to_forward = 0, pipe = False, total_bytes = 0\<rparr>
    \<longleftrightarrow> bi_avail 1 \<lparr>flags = 0, buf = \<lparr>data = [1, 2, 3, 4], ptr = 1, inp = 3, out = 0\<rparr>,
        to_forward = 0, pipe = False, total_bytes = 0\<rparr> = 0"
  by (rule channel_full_avail) (simp add: ch_ok_def buf_ok_def)

text \<open>The reserve that \<open>buffer_reserved\<close> computes leaves its documented range, 0 to
  \<open>maxrewrite\<close>, when the forward counter is above \<open>2 ^ 31\<close>: the unsigned difference becomes a
  large positive int, and \<open>bi_putblk\<close> then refuses every block as larger than the buffer.\<close>

theorem buffer_reserved_overflow:
  assumes "0 \<le> maxrewrite" "maxrewrite + 2 ^ 31 < to_forward c" "to_forward c < 2 ^ 32 - 2 ^ 17"
    and "out (buf c) = 0" "bsize (buf c) + nat maxrewrite < 2 ^ 16" "\<not> channel_input_closed c" "blk \<noteq> []"
  shows "buffer_reserved maxrewrite c > maxrewrite \<and> bi_putblk maxrewrite c blk = (- 3, c)"
proof -
  have "wrap_s (2 ^ 31) (maxrewrite - to_forward c) = maxrewrite - to_forward c + 2 * 2 ^ 31"
    using assms by (intro wrap_s_under) auto
  then have r: "buffer_reserved maxrewrite c = maxrewrite - to_forward c + 2 ^ 32"
    using assms by (simp add: buffer_reserved_def CHN_INFINITE_FORWARD_def)
  moreover have "buffer_max_len maxrewrite c < 0" using assms by (simp add: buffer_max_len_def r)
  ultimately show ?thesis using assms by (simp add: bi_putblk_def Let_def)
qed

theorem buffer_reserved_overflow_witness:
  "bi_putblk 4 \<lparr>flags = 0, buf = \<lparr>data = replicate 16 0, ptr = 0, inp = 0, out = 0\<rparr>,
        to_forward = 3000000000, pipe = False, total_bytes = 0\<rparr> [1]
    = (- 3, \<lparr>flags = 0, buf = \<lparr>data = replicate 16 0, ptr = 0, inp = 0, out = 0\<rparr>,
        to_forward = 3000000000, pipe = False, total_bytes = 0\<rparr>)"
  using buffer_reserved_overflow [of 4 "\<lparr>flags = 0, buf = \<lparr>data = replicate 16 0, ptr = 0, inp = 0,
      out = 0\<rparr>, to_forward = 3000000000, pipe = False, total_bytes = 0\<rparr>" "[1]"]
  by (simp add: channel_input_closed_def has_flag_def)

subsection \<open>Reading\<close>

lemma buf_out_nth:
  assumes "buf_ok b" "k < out b"
  shows "buf_out b ! k = data b ! (if k < bsize b - bo_ptr b then bo_ptr b + k else k - (bsize b - bo_ptr b))"
proof -
  have "bo_ptr b < bsize b" using assms by (auto simp: bo_ptr_def buf_ok_def)
  moreover have "k < bsize b" using assms by (simp add: buf_ok_def)
  ultimately have "(bo_ptr b + k) mod bsize b
      = (if k < bsize b - bo_ptr b then bo_ptr b + k else k - (bsize b - bo_ptr b))"
    by (auto simp: mod_wrap)
  then show ?thesis using assms(2) by (simp add: buf_out_def nth_ring)
qed

text \<open>\<open>bo_getblk\<close> copies exactly the requested range of the output, whether it lies before the
  wrap, over it or after it.\<close>

theorem bo_getblk_range:
  assumes ok: "ch_ok c" and open_out: "\<not> has_flag c CF_SHUTW" and len: "len + offset \<le> out (buf c)"
  shows "bo_getblk c len offset = (int len, take len (drop offset (ch_readable c)))"
proof -
  define b where "b = buf c"
  have b: "buf_ok b" "out b \<le> bsize b" "bo_ptr b < bsize b"
    using ok by (auto simp: ch_ok_def b_def buf_ok_def bo_ptr_def)
  let ?f = "bsize b - bo_ptr b"
  let ?r = "if ?f > offset then
      if ?f \<ge> len + offset then take len (drop (bo_ptr b + offset) (data b))
      else take (?f - offset) (drop (bo_ptr b + offset) (data b)) @ take (len + offset - ?f) (data b)
    else take len (drop (offset - ?f) (data b))"
  have "?r = take len (drop offset (buf_out b))"
  proof (rule nth_equalityI)
    show l: "length ?r = length (take len (drop offset (buf_out b)))"
      using len b by (auto simp: b_def [symmetric])
    fix k assume "k < length ?r"
    then have k: "k < len" "offset + k < out b" unfolding l using len by (simp_all add: b_def [symmetric])
    then show "?r ! k = take len (drop offset (buf_out b)) ! k"
      using b len
      by (auto simp: buf_out_nth nth_append b_def [symmetric] add.assoc)
        (auto intro!: arg_cong2 [where f = nth])
  qed
  moreover have "bo_getblk c len offset = (int len, ?r)"
    using open_out len by (simp add: bo_getblk_def b_def [symmetric] Let_def)
  ultimately show ?thesis by (simp only: ch_readable_def b_def)
qed

theorem bo_getblk_range_witness:
  "bo_getblk \<lparr>flags = 0, buf = \<lparr>data = [1, 2, 3, 4], ptr = 2, inp = 0, out = 4\<rparr>, to_forward = 0,
      pipe = False, total_bytes = 0\<rparr> 2 1 = (2, [4, 1])"
  using bo_getblk_range [of "\<lparr>flags = 0, buf = \<lparr>data = [1, 2, 3, 4], ptr = 2, inp = 0, out = 4\<rparr>,
      to_forward = 0, pipe = False, total_bytes = 0\<rparr>" 2 1]
  by (simp add: ch_defs buf_defs has_flag_def bo_ptr_def ring_def upt_rec)

text \<open>A line: the bytes up to the first line feed included, or all of them.\<close>

fun upto_lf :: "byte list \<Rightarrow> byte list" where
  "upto_lf [] = []"
| "upto_lf (x # xs) = (if x = LF then [x] else x # upto_lf xs)"

lemma getline_loop_ring:
  "data b \<noteq> [] \<Longrightarrow> p < bsize b \<Longrightarrow> getline_loop b m p = upto_lf (ring (data b) p m)"
proof (induction m arbitrary: p)
  case 0
  then show ?case by (simp add: ring_def)
next
  case (Suc m)
  have "ring (data b) p (Suc m) = data b ! p # ring (data b) (p + 1) m"
    using ring_append [of "data b" p 1 m] Suc.prems by (simp add: ring_def)
  also have "ring (data b) (p + 1) m = ring (data b) (buffer_wrap_add b (p + 1)) m"
    using Suc.prems by (intro ring_cong) (auto simp: buffer_wrap_add_def le_mod_geq)
  finally show ?case
    using Suc.IH [of "buffer_wrap_add b (p + 1)"] Suc.prems by (auto simp: buffer_wrap_add_def Let_def)
qed

lemma upto_lf_Nil [simp]: "upto_lf xs = [] \<longleftrightarrow> xs = []"
  by (cases xs) auto

text \<open>On an open channel with output, \<open>bo_getline\<close> copies the output up to the first line
  feed or the caller's limit; it returns the number of bytes copied when a line feed or the limit
  was reached, and never reads beyond the output.\<close>

theorem bo_getline_line:
  assumes ok: "ch_ok c" and open_out: "\<not> has_flag c CF_SHUTW" and ne: "0 < out (buf c)"
  shows "\<exists>ret. bo_getline maxrewrite c len = Some (ret, upto_lf (take len (ch_readable c)))
    \<and> (ret = 0 \<or> ret = int (length (upto_lf (take len (ch_readable c)))))
    \<and> (LF \<in> set (take len (ch_readable c)) \<or> len \<le> out (buf c) \<longrightarrow>
        ret = int (length (upto_lf (take len (ch_readable c)))))"
proof -
  define str where "str = upto_lf (take len (ch_readable c))"
  define m where "m = (if len > out (buf c) then out (buf c) else len)"
  have p: "bo_ptr (buf c) < bsize (buf c)" "data (buf c) \<noteq> []"
    using ok by (auto simp: ch_ok_def buf_ok_def bo_ptr_def)
  have "ring (data (buf c)) (bo_ptr (buf c)) m = take len (ch_readable c)"
    using ring_take_drop [of m "out (buf c)" "data (buf c)" "bo_ptr (buf c)"]
    by (auto simp: ch_readable_def buf_out_def m_def)
  then have g: "getline_loop (buf c) m (bo_ptr (buf c)) = str"
    unfolding str_def using getline_loop_ring [OF p(2,1)] by simp
  have lf: "last (upto_lf xs) = LF" if "LF \<in> set xs" for xs
    using that by (induction xs rule: upto_lf.induct) auto
  have full: "LF \<notin> set xs \<Longrightarrow> length (upto_lf xs) = length xs" for xs
    by (induction xs) auto
  have r: "\<exists>ret. bo_getline maxrewrite c len = Some (ret, str) \<and> (ret = 0 \<or> ret = int (length str))
      \<and> (\<not> (length str < len \<and> last str \<noteq> LF) \<longrightarrow> ret = int (length str))"
    using open_out ne
    by (auto simp: bo_getline_def channel_is_empty_def Let_def m_def [symmetric] g)
  have "\<not> (length str < len \<and> last str \<noteq> LF)"
    if "LF \<in> set (take len (ch_readable c)) \<or> len \<le> out (buf c)"
    using that lf [of "take len (ch_readable c)"] full [of "take len (ch_readable c)"]
    by (cases "LF \<in> set (take len (ch_readable c))") (auto simp: str_def ch_readable_def)
  with r show ?thesis unfolding str_def by blast
qed

theorem bo_getline_line_witness:
  "\<exists>ret. bo_getline 0 \<lparr>flags = 0, buf = \<lparr>data = [LF, 2, 65, 66], ptr = 2, inp = 0, out = 4\<rparr>,
      to_forward = 0, pipe = False, total_bytes = 0\<rparr> 8 = Some (ret, [65, 66, LF]) \<and> ret = 3"
  using bo_getline_line [of "\<lparr>flags = 0, buf = \<lparr>data = [LF, 2, 65, 66], ptr = 2, inp = 0, out = 4\<rparr>,
      to_forward = 0, pipe = False, total_bytes = 0\<rparr>" 0 8]
  by (simp add: ch_defs buf_defs has_flag_def bo_ptr_def ring_def upt_rec)

text \<open>When the only pending data are in the kernel pipe, \<open>bo_getline\<close> stores a zero before the
  start of the caller's area: the buffer's output is empty but the channel is not.\<close>

theorem bo_getline_pipe_underflow:
  assumes "pipe c" "out (buf c) = 0" "\<not> has_flag c CF_SHUTW" "0 < len"
  shows "bo_getline maxrewrite c len = None"
  using assms by (simp add: bo_getline_def channel_is_empty_def)

theorem bo_getline_pipe_underflow_witness:
  "bo_getline 0 \<lparr>flags = 0, buf = \<lparr>data = [0], ptr = 0, inp = 0, out = 0\<rparr>, to_forward = 0,
      pipe = True, total_bytes = 0\<rparr> 8 = None"
  by (rule bo_getline_pipe_underflow) (simp_all add: has_flag_def)

end
