(* ===== verification/HA_Ebtree.thy ===== *)
theory HA_Ebtree
  imports HA_Prelude
begin

section \<open>Elastic binary trees (ebtree/ebtree.h, ebtree/eb32tree.h, ebtree/eb32tree.c)\<close>

text \<open>
  The ordered containers of the program: timers, load balancing trees, run
  queues.  Each element is a structure with a key, a leaf part and a node part;
  a leaf hangs below the node part of some element, and an element's node part
  may be in use anywhere above its leaf.  Here an element is a number, \<open>key\<close> gives
  its key, and the tree that the tagged pointers form is a value of \<open>eb\<close>: a node
  carries the element whose node part it is, its \<open>bit\<close> (negative in a tree of
  duplicates) and its two branches.  Functions that walk up the parent pointers
  are recursive functions that remember what lies to the right or left of the path.
\<close>

subsection \<open>Trees\<close>

datatype eb = Leaf nat | Node nat int eb eb

text \<open>\<open>bsr\<close>: the position of the highest bit set, counted from 1.\<close>

definition flsnz :: "u32 \<Rightarrow> nat" where
  "flsnz x = length (takeWhile (\<lambda>n. drop_bit n x \<noteq> 0) [0..<32])"

fun eb_walk_left :: "eb \<Rightarrow> nat" where
  "eb_walk_left (Leaf i) = i"
| "eb_walk_left (Node i b l r) = eb_walk_left l"

fun eb_walk_right :: "eb \<Rightarrow> nat" where
  "eb_walk_right (Leaf i) = i"
| "eb_walk_right (Node i b l r) = eb_walk_right r"

definition eb_first :: "eb option \<Rightarrow> nat option" where
  "eb_first t = map_option eb_walk_left t"

definition eb_last :: "eb option \<Rightarrow> nat option" where
  "eb_last t = map_option eb_walk_right t"

subsection \<open>Insertion\<close>

text \<open>
  A tree of duplicates: \<open>hole p t\<close> tells if the right spine below a node of bit \<open>p\<close> skips a
  level, \<open>spine_bit\<close> is the bit of the last node of the spine.
\<close>

fun hole :: "int \<Rightarrow> eb \<Rightarrow> bool" where
  "hole p (Leaf i) = False"
| "hole p (Node i b l r) = (b > p + 1 \<or> hole b r)"

fun spine_bit :: "int \<Rightarrow> eb \<Rightarrow> int" where
  "spine_bit p (Leaf i) = p"
| "spine_bit p (Node i b l r) = spine_bit b r"

fun dup_at_leaf :: "nat \<Rightarrow> eb \<Rightarrow> eb" where
  "dup_at_leaf new (Leaf i) = Node new (- 1) (Leaf i) (Leaf new)"
| "dup_at_leaf new (Node i b l r) = Node i b l (dup_at_leaf new r)"

fun dup_above :: "nat \<Rightarrow> eb \<Rightarrow> eb" where
  "dup_above new (Leaf i) = Leaf i"
| "dup_above new (Node i b l r) =
    (if hole b r then Node i b l (dup_above new r) else Node new (b - 1) (Node i b l r) (Leaf new))"

definition eb_insert_dup :: "eb \<Rightarrow> nat \<Rightarrow> eb" where
  "eb_insert_dup sub new = (if spine_bit 0 sub < - 1 then dup_at_leaf new sub else dup_above new sub)"

text \<open>Where the descent stops: \<open>new\<close> takes the place of the subtree \<open>t\<close> of element \<open>old\<close>.\<close>

definition insert_here :: "(nat \<Rightarrow> u32) \<Rightarrow> nat \<Rightarrow> nat \<Rightarrow> eb \<Rightarrow> eb" where
  "insert_here key new old t =
    (let bit = (if key new = key old then - 1 else int (flsnz (key new XOR key old)) - 1)
     in if key new \<ge> key old then Node new bit t (Leaf new) else Node new bit (Leaf new) t)"

text \<open>The result is the tree and the element found or inserted.\<close>

fun eb32_insert_below :: "(nat \<Rightarrow> u32) \<Rightarrow> bool \<Rightarrow> nat \<Rightarrow> eb \<Rightarrow> eb \<times> nat" where
  "eb32_insert_below key unique new (Leaf old) =
    (if key new = key old \<and> unique then (Leaf old, old) else (insert_here key new old (Leaf old), new))"
| "eb32_insert_below key unique new (Node old b l r) =
    (if b < 0 \<or> drop_bit (nat b) (key new XOR key old) \<ge> 2 then
       if key new = key old then
         if unique then (Node old b l r, old) else (eb_insert_dup (Node old b l r) new, new)
       else (insert_here key new old (Node old b l r), new)
     else if drop_bit (nat b) (key new) AND 1 = 0
     then let (l, e) = eb32_insert_below key unique new l in (Node old b l r, e)
     else let (r, e) = eb32_insert_below key unique new r in (Node old b l r, e))"

definition eb32_insert :: "(nat \<Rightarrow> u32) \<Rightarrow> bool \<Rightarrow> nat \<Rightarrow> eb option \<Rightarrow> eb option \<times> nat" where
  "eb32_insert key unique new t =
    (case t of None \<Rightarrow> (Some (Leaf new), new)
     | Some t \<Rightarrow> map_prod Some id (eb32_insert_below key unique new t))"

subsection \<open>Deletion\<close>

fun leaves :: "eb \<Rightarrow> nat list" where
  "leaves (Leaf i) = [i]"
| "leaves (Node i b l r) = leaves l @ leaves r"

text \<open>
  The parent of the leaf gives its place to the leaf's sibling; when the node part of the element
  is in use elsewhere, the node part of the parent, now free, replaces it.
\<close>

fun eb_unlink :: "nat \<Rightarrow> eb \<Rightarrow> eb option \<times> nat option" where
  "eb_unlink x (Leaf i) = (if i = x then (None, None) else (Some (Leaf i), None))"
| "eb_unlink x (Node i b l r) =
    (if l = Leaf x then (Some r, Some i)
     else if r = Leaf x then (Some l, Some i)
     else if x \<in> set (leaves l)
     then let (l', p) = eb_unlink x l in (map_option (\<lambda>l'. Node i b l' r) l', p)
     else let (r', p) = eb_unlink x r in (map_option (\<lambda>r'. Node i b l r') r', p))"

fun eb_rename :: "nat \<Rightarrow> nat \<Rightarrow> eb \<Rightarrow> eb" where
  "eb_rename x p (Leaf i) = Leaf i"
| "eb_rename x p (Node i b l r) = Node (if i = x then p else i) b (eb_rename x p l) (eb_rename x p r)"

definition eb_delete :: "nat \<Rightarrow> eb option \<Rightarrow> eb option" where
  "eb_delete x t =
    (case t of None \<Rightarrow> None
     | Some t \<Rightarrow>
         if x \<notin> set (leaves t) then Some t
         else let (t', p) = eb_unlink x t
              in case p of None \<Rightarrow> t' | Some p \<Rightarrow> map_option (eb_rename x p) t')"

subsection \<open>Lookups\<close>

text \<open>
  At a tree of duplicates of another key \<open>__eb32_lookup\<close> shifts by a negative bit, which C leaves
  undefined; \<open>nat\<close> stands for some shift there, and none of the leaves below has the key anyway.
\<close>

fun eb32_lookup_below :: "(nat \<Rightarrow> u32) \<Rightarrow> u32 \<Rightarrow> eb \<Rightarrow> nat option" where
  "eb32_lookup_below key x (Leaf i) = (if key i = x then Some i else None)"
| "eb32_lookup_below key x (Node i b l r) =
    (if key i = x then Some (if b < 0 then eb_walk_left l else i)
     else if drop_bit (nat b) (key i XOR x) \<ge> 2 then None
     else if drop_bit (nat b) x AND 1 = 0 then eb32_lookup_below key x l else eb32_lookup_below key x r)"

definition eb32_lookup :: "(nat \<Rightarrow> u32) \<Rightarrow> eb option \<Rightarrow> u32 \<Rightarrow> nat option" where
  "eb32_lookup key t x = Option.bind t (eb32_lookup_below key x)"

text \<open>\<open>up\<close> is the element that walking up from the subtree reaches: the first to its right, the last to its left.\<close>

fun eb32_ge_below :: "(nat \<Rightarrow> u32) \<Rightarrow> u32 \<Rightarrow> nat option \<Rightarrow> eb \<Rightarrow> nat option" where
  "eb32_ge_below key x up (Leaf i) = (if key i \<ge> x then Some i else up)"
| "eb32_ge_below key x up (Node i b l r) =
    (if b < 0 then if key i \<ge> x then Some (eb_walk_left l) else up
     else if drop_bit (nat b) (x XOR key i) \<ge> 2 then
       if drop_bit (nat b) (key i) > drop_bit (nat b) x then Some (eb_walk_left l) else up
     else if drop_bit (nat b) x AND 1 = 0 then eb32_ge_below key x (Some (eb_walk_left r)) l
     else eb32_ge_below key x up r)"

definition eb32_lookup_ge :: "(nat \<Rightarrow> u32) \<Rightarrow> eb option \<Rightarrow> u32 \<Rightarrow> nat option" where
  "eb32_lookup_ge key t x = Option.bind t (eb32_ge_below key x None)"

fun eb32_le_below :: "(nat \<Rightarrow> u32) \<Rightarrow> u32 \<Rightarrow> nat option \<Rightarrow> eb \<Rightarrow> nat option" where
  "eb32_le_below key x up (Leaf i) = (if key i \<le> x then Some i else up)"
| "eb32_le_below key x up (Node i b l r) =
    (if b < 0 then if key i \<le> x then Some (eb_walk_right r) else up
     else if drop_bit (nat b) (x XOR key i) \<ge> 2 then
       if drop_bit (nat b) (key i) < drop_bit (nat b) x then Some (eb_walk_right r) else up
     else if drop_bit (nat b) x AND 1 = 0 then eb32_le_below key x up l
     else eb32_le_below key x (Some (eb_walk_right l)) r)"

definition eb32_lookup_le :: "(nat \<Rightarrow> u32) \<Rightarrow> eb option \<Rightarrow> u32 \<Rightarrow> nat option" where
  "eb32_lookup_le key t x = Option.bind t (eb32_le_below key x None)"

subsection \<open>Walking through a tree\<close>

fun eb_next_below :: "nat \<Rightarrow> nat option \<Rightarrow> eb \<Rightarrow> nat option" where
  "eb_next_below x up (Leaf i) = up"
| "eb_next_below x up (Node i b l r) =
    (if x \<in> set (leaves l) then eb_next_below x (Some (eb_walk_left r)) l else eb_next_below x up r)"

definition eb_next :: "nat \<Rightarrow> eb option \<Rightarrow> nat option" where
  "eb_next x t = Option.bind t (eb_next_below x None)"

fun eb_prev_below :: "nat \<Rightarrow> nat option \<Rightarrow> eb \<Rightarrow> nat option" where
  "eb_prev_below x up (Leaf i) = up"
| "eb_prev_below x up (Node i b l r) =
    (if x \<in> set (leaves l) then eb_prev_below x up l else eb_prev_below x (Some (eb_walk_right l)) r)"

definition eb_prev :: "nat \<Rightarrow> eb option \<Rightarrow> nat option" where
  "eb_prev x t = Option.bind t (eb_prev_below x None)"

end
