(* ===== verification/HA_Ebtree_Search.thy ===== *)
theory HA_Ebtree_Search
  imports HA_Ebtree
begin

section \<open>Order in elastic trees: insertion and lookups\<close>

text \<open>
  The keys of a tree come in order because below a node they share their high
  bits and its bit separates the branches.  The lemmas on words give the
  comparison of two keys from their first different bit; insertion then acts on
  the list of elements as insertion into a sorted list, and the lookups search
  that list.
\<close>

subsection \<open>Bits\<close>

lemma drop_bit_mono: "drop_bit n x \<noteq> 0 \<Longrightarrow> m \<le> n \<Longrightarrow> drop_bit m (x :: u32) \<noteq> 0"
  by (metis drop_bit_drop_bit drop_bit_of_0 le_add_diff_inverse2)

lemma length_takeWhile_upt:
  assumes "n < k"
  shows "n < length (takeWhile P [0..<k]) \<longleftrightarrow> (\<forall>m \<le> n. P m)"
proof
  assume n: "n < length (takeWhile P [0..<k])"
  show "\<forall>m \<le> n. P m"
  proof (intro allI impI)
    fix m assume "m \<le> n"
    then have m: "m < length (takeWhile P [0..<k])" using n by simp
    have "m < k" using m length_takeWhile_le [of P "[0..<k]"] by simp
    then have "takeWhile P [0..<k] ! m = m" using takeWhile_nth [OF m] by simp
    then have "m \<in> set (takeWhile P [0..<k])" using nth_mem [OF m] by simp
    then show "P m" by (rule set_takeWhileD [THEN conjunct2])
  qed
next
  assume a: "\<forall>m \<le> n. P m"
  show "n < length (takeWhile P [0..<k])"
  proof (rule ccontr)
    assume "\<not> n < length (takeWhile P [0..<k])"
    then have l: "length (takeWhile P [0..<k]) \<le> n" by simp
    then have "length (takeWhile P [0..<k]) < length [0..<k]" using assms by simp
    from nth_length_takeWhile [OF this] show False using a l assms by simp
  qed
qed

lemma flsnz_drop: "n < 32 \<Longrightarrow> drop_bit n x \<noteq> 0 \<longleftrightarrow> n < flsnz x"
  unfolding flsnz_def by (subst length_takeWhile_upt) (auto dest: drop_bit_mono)

lemma flsnz_le: "flsnz x \<le> 32"
  unfolding flsnz_def using length_takeWhile_le [of _ "[0..<32]"] by (metis length_upt minus_nat.diff_0)

lemma drop_Suc: "drop_bit (Suc n) x = (0 :: u32) \<longleftrightarrow> \<not> 2 \<le> drop_bit n x"
proof -
  have "drop_bit (Suc n) x = drop_bit n x div 2" by (simp add: drop_bit_Suc drop_bit_half)
  then show ?thesis by (simp add: word_le_nat_alt unat_div word_unat_eq_iff) arith
qed

lemma drop_xor: "drop_bit n (a XOR b) = (0 :: u32) \<longleftrightarrow> drop_bit n a = drop_bit n b"
  by (simp add: drop_bit_xor) (metis xor_self_eq bit.xor_left_self xor.right_neutral)

lemma and_1_bit: "drop_bit n x AND 1 = (0 :: u32) \<longleftrightarrow> \<not> bit x n"
  by (simp add: bit_iff_odd_drop_bit and_one_eq even_iff_mod_2_eq_zero)

text \<open>Two keys with a common prefix are in the order of the first bit on which they differ.\<close>

lemma prefix_less:
  assumes "drop_bit (Suc n) a = drop_bit (Suc n) b" "\<not> bit a n" "bit b n"
  shows "a < (b :: u32)"
proof -
  let ?p = "2 ^ Suc n :: nat"
  have nb: "n < 32" using bit_imp_le_length [OF assms(3)] by simp
  have q: "unat b div ?p = unat a div ?p"
    using arg_cong [OF assms(1), of unat] nb by (simp only: unsigned_drop_bit_eq flip: drop_bit_eq_div)
       (simp add: take_bit_nat_eq_self [OF u32_less])
  have m: "x mod ?p = 2 ^ n * (x div 2 ^ n mod 2) + x mod 2 ^ n" for x :: nat
    using mod_mult2_eq [of x "2 ^ n" 2] by (simp add: mult.commute)
  have "bit (unat a) n = bit a n" "bit (unat b) n = bit b n" by (simp_all add: bit_unsigned_iff)
  then have "even (unat a div 2 ^ n)" "odd (unat b div 2 ^ n)"
    using assms(2,3) bit_iff_odd [of "unat a" n] bit_iff_odd [of "unat b" n] by simp_all
  then have "unat a mod ?p < 2 ^ n" "2 ^ n \<le> unat b mod ?p"
    unfolding m by (simp_all add: even_iff_mod_2_eq_zero odd_iff_mod_2_eq_one)
  note lt = this
  have "unat a div ?p * ?p + unat a mod ?p = unat a" "unat a div ?p * ?p + unat b mod ?p = unat b"
    using div_mult_mod_eq [of "unat a" ?p] div_mult_mod_eq [of "unat b" ?p] unfolding q by blast+
  then show ?thesis using lt unfolding word_less_nat_alt by linarith
qed

text \<open>The bit that \<open>insert_here\<close> computes is the highest on which the two keys differ.\<close>

lemma flsnz_xor:
  assumes "a \<noteq> (b :: u32)"
  obtains d where "flsnz (a XOR b) = Suc d" "d < 32" "drop_bit (Suc d) a = drop_bit (Suc d) b" "bit a d \<noteq> bit b d"
proof -
  have nz: "a XOR b \<noteq> 0" using assms drop_xor [of 0 a b] by simp
  then have pos: "0 < flsnz (a XOR b)" using flsnz_drop [of 0 "a XOR b"] by simp
  then obtain d where d: "flsnz (a XOR b) = Suc d" by (cases "flsnz (a XOR b)") auto
  have d32: "d < 32" using d flsnz_le [of "a XOR b"] by simp
  have hi: "drop_bit (Suc d) (a XOR b) = 0"
  proof (cases "Suc d < 32")
    case True
    then show ?thesis using flsnz_drop [OF True, of "a XOR b"] d by simp
  next
    case False
    then show ?thesis by (intro bit_word_eqI) (auto simp: bit_drop_bit_eq dest: bit_imp_le_length)
  qed
  have "drop_bit d (a XOR b) \<noteq> 0" using flsnz_drop [OF d32, of "a XOR b"] d by simp
  moreover have "\<not> 2 \<le> drop_bit d (a XOR b)" using hi drop_Suc by blast
  ultimately have "drop_bit d (a XOR b) = 1"
    by (simp add: word_le_nat_alt word_unat_eq_iff)
  then have "bit (a XOR b) d" by (simp add: bit_iff_odd_drop_bit)
  then have "bit a d \<noteq> bit b d" by (auto simp: bit_xor_iff)
  then show thesis using that d d32 hi drop_xor by blast
qed

subsection \<open>The invariant\<close>

text \<open>
  Below a node all keys agree above its bit, and the bit tells the branches apart; in a tree of
  duplicates all keys are equal.  The element that lends its node part is a leaf below: the first
  one with its key, and in a tree of duplicates the first of the right branch.
\<close>

definition agree :: "nat \<Rightarrow> u32 \<Rightarrow> u32 \<Rightarrow> bool" where
  "agree n a b \<longleftrightarrow> drop_bit n a = drop_bit n b"

fun eb_ok :: "(nat \<Rightarrow> u32) \<Rightarrow> eb \<Rightarrow> bool" where
  "eb_ok key (Leaf i) = True"
| "eb_ok key (Node i b l r) =
    (eb_ok key l \<and> eb_ok key r \<and>
     (if b < 0 then i = eb_walk_left r \<and> (\<forall>x \<in> set (leaves l @ leaves r). agree 0 (key i) (key x))
      else i \<in> set (leaves l @ leaves r)
        \<and> find (\<lambda>x. key x = key i) (leaves l @ leaves r) = Some i
        \<and> (\<forall>x \<in> set (leaves l @ leaves r). agree (Suc (nat b)) (key i) (key x))
        \<and> (\<forall>x \<in> set (leaves l). \<not> bit (key x) (nat b)) \<and> (\<forall>x \<in> set (leaves r). bit (key x) (nat b))))"

lemma leaves_not_Nil [simp]: "leaves t \<noteq> []"
  by (induction t) auto

lemma walk_left_hd: "eb_walk_left t = hd (leaves t)"
  by (induction t) auto

lemma walk_right_last: "eb_walk_right t = last (leaves t)"
  by (induction t) auto

lemma walk_in [simp]: "eb_walk_left t \<in> set (leaves t)" "eb_walk_right t \<in> set (leaves t)"
  by (simp_all add: walk_left_hd walk_right_last)

lemma dup_keys: "eb_ok key (Node i b l r) \<Longrightarrow> b < 0 \<Longrightarrow> x \<in> set (leaves (Node i b l r)) \<Longrightarrow> key x = key i"
proof -
  assume "eb_ok key (Node i b l r)" "b < 0" "x \<in> set (leaves (Node i b l r))"
  then have "agree 0 (key i) (key x)" by auto
  then show ?thesis by (simp add: agree_def)
qed

lemma eb_ok_branches:
  assumes "eb_ok key (Node i b l r)" "0 \<le> b" "x \<in> set (leaves l)" "y \<in> set (leaves r)"
  shows "key x < key y"
proof (rule prefix_less [of "nat b"])
  have "agree (Suc (nat b)) (key i) (key x)" "agree (Suc (nat b)) (key i) (key y)" using assms by simp_all
  then show "drop_bit (Suc (nat b)) (key x) = drop_bit (Suc (nat b)) (key y)" by (simp add: agree_def)
qed (use assms in simp_all)

text \<open>The elements come in the order of their keys.\<close>

lemma eb_ok_sorted: "eb_ok key t \<Longrightarrow> sorted (map key (leaves t))"
proof (induction t)
  case (Node i b l r)
  show ?case
  proof (cases "b < 0")
    case True
    then have "x \<in> set (leaves l @ leaves r) \<Longrightarrow> key x = key i" for x using dup_keys [OF Node.prems] by simp
    then show ?thesis using Node by (auto simp: sorted_append)
  next
    case False
    then show ?thesis using Node eb_ok_branches [OF Node.prems] by (auto simp: sorted_append less_imp_le)
  qed
qed simp

subsection \<open>Insertion keeps the order\<close>

text \<open>After all the elements whose key is not greater.\<close>

definition insert_sorted :: "(nat \<Rightarrow> u32) \<Rightarrow> nat \<Rightarrow> nat list \<Rightarrow> nat list" where
  "insert_sorted key new xs =
    takeWhile (\<lambda>x. key x \<le> key new) xs @ new # dropWhile (\<lambda>x. key x \<le> key new) xs"

lemma insert_sorted_last: "\<forall>x \<in> set xs. key x \<le> key new \<Longrightarrow> insert_sorted key new xs = xs @ [new]"
  by (simp add: insert_sorted_def takeWhile_eq_all_conv [THEN iffD2] dropWhile_eq_Nil_conv [THEN iffD2])

lemma insert_sorted_first: "\<forall>x \<in> set xs. key new < key x \<Longrightarrow> insert_sorted key new xs = new # xs"
  by (cases xs) (auto simp: insert_sorted_def not_le)

lemma insert_sorted_left:
  "ys \<noteq> [] \<Longrightarrow> \<forall>y \<in> set ys. key new < key y \<Longrightarrow> insert_sorted key new (xs @ ys) = insert_sorted key new xs @ ys"
proof (induction xs)
  case Nil
  then show ?case by (simp add: insert_sorted_first)
next
  case (Cons x xs)
  then show ?case by (simp add: insert_sorted_def)
qed

lemma insert_sorted_right:
  "\<forall>x \<in> set xs. key x \<le> key new \<Longrightarrow> insert_sorted key new (xs @ ys) = xs @ insert_sorted key new ys"
  by (induction xs) (simp_all add: insert_sorted_def)

lemma dup_at_leaf_simps [simp]:
  "leaves (dup_at_leaf new t) = leaves t @ [new]" "eb_walk_left (dup_at_leaf new t) = eb_walk_left t"
  by (induction t) simp_all

lemma dup_above_leaves: "leaves (dup_above new (Node i b l r)) = leaves (Node i b l r) @ [new]"
proof (induction r arbitrary: i b l)
  case (Node j c l' r')
  then show ?case by (simp del: dup_above.simps add: dup_above.simps [of new i])
qed simp

lemma dup_above_left [simp]: "eb_walk_left (dup_above new t) = eb_walk_left t"
  by (induction t) simp_all

text \<open>Where all keys are equal every node is one of a tree of duplicates.\<close>

lemma all_dup:
  assumes "eb_ok key (Node i b l r)" "\<forall>x \<in> set (leaves l @ leaves r). key x = k"
  shows "b < 0"
proof (rule ccontr)
  assume "\<not> b < 0"
  then have "key (eb_walk_left l) < key (eb_walk_left r)" using eb_ok_branches [OF assms(1)] by simp
  then show False using assms(2) by simp
qed

lemma dup_at_leaf_ok:
  "eb_ok key t \<Longrightarrow> \<forall>x \<in> set (leaves t). key x = k \<Longrightarrow> key new = k \<Longrightarrow> eb_ok key (dup_at_leaf new t)"
proof (induction t)
  case (Node i b l r)
  have b: "b < 0" using all_dup [OF Node.prems(1), of k] Node.prems(2) by simp
  moreover have "key i = k" using Node.prems(1,2) b by simp
  ultimately show ?case using Node by (simp add: agree_def)
qed (simp add: agree_def)

lemma dup_above_ok:
  "eb_ok key t \<Longrightarrow> \<forall>x \<in> set (leaves t). key x = k \<Longrightarrow> key new = k \<Longrightarrow> eb_ok key (dup_above new t)"
proof (induction t)
  case (Node i b l r)
  have b: "b < 0" using all_dup [OF Node.prems(1), of k] Node.prems(2) by simp
  have i: "key i = k" using Node.prems(1,2) b by simp
  show ?case
  proof (cases "hole b r")
    case True
    then obtain j c l' r' where r: "r = Node j c l' r'" by (cases r) auto
    have "leaves (dup_above new r) = leaves r @ [new]" unfolding r by (rule dup_above_leaves)
    then show ?thesis using Node b i True by (simp add: agree_def)
  next
    case False
    then show ?thesis using Node.prems b i by (simp add: agree_def)
  qed
qed simp

lemma eb_insert_dup_ok:
  assumes "eb_ok key (Node i b l r)" "b < 0" "key new = key i"
  shows "eb_ok key (eb_insert_dup (Node i b l r) new)"
    "leaves (eb_insert_dup (Node i b l r) new) = leaves (Node i b l r) @ [new]"
proof -
  have "\<forall>x \<in> set (leaves (Node i b l r)). key x = key i" using dup_keys [OF assms(1,2)] by blast
  then show "eb_ok key (eb_insert_dup (Node i b l r) new)"
    unfolding eb_insert_dup_def using dup_at_leaf_ok [OF assms(1) _ assms(3)] dup_above_ok [OF assms(1) _ assms(3)] by presburger
  show "leaves (eb_insert_dup (Node i b l r) new) = leaves (Node i b l r) @ [new]"
    unfolding eb_insert_dup_def using dup_above_leaves by simp
qed

lemma agree_mono: "agree m a b \<Longrightarrow> m \<le> n \<Longrightarrow> agree n a b"
  unfolding agree_def by (metis drop_bit_drop_bit le_add_diff_inverse2)

lemma agree_bit: "agree n a b \<Longrightarrow> bit a n = bit b n"
  by (simp add: agree_def bit_iff_odd_drop_bit)

lemma agree_trans: "agree n a b \<Longrightarrow> agree n b c \<Longrightarrow> agree n a c"
  and agree_sym: "agree n a b \<Longrightarrow> agree n b a"
  by (simp_all add: agree_def)

lemma set_insert_sorted [simp]: "set (insert_sorted key new xs) = insert new (set xs)"
  unfolding insert_sorted_def using takeWhile_dropWhile_id [of "\<lambda>x. key x \<le> key new" xs]
  by (metis (no_types, lifting) Un_insert_right list.simps(15) set_append)

lemma find_append: "find P (xs @ ys) = (case find P xs of None \<Rightarrow> find P ys | Some x \<Rightarrow> Some x)"
  by (induction xs) simp_all

lemma find_insert_sorted:
  assumes "sorted (map key xs)" "find (\<lambda>x. key x = k) xs = Some i"
  shows "find (\<lambda>x. key x = k) (insert_sorted key new xs) = Some i"
  using assms
proof (induction xs)
  case (Cons x xs)
  show ?case
  proof (cases "key x \<le> key new")
    case True
    then have "insert_sorted key new (x # xs) = x # insert_sorted key new xs" by (simp add: insert_sorted_def)
    then show ?thesis using Cons by (cases "key x = k") simp_all
  next
    case False
    then have e: "insert_sorted key new (x # xs) = new # x # xs" by (simp add: insert_sorted_def)
    have "i \<in> set (x # xs)" "key i = k" using Cons.prems(2) unfolding find_Some_iff by (metis nth_mem)+
    then have "key x \<le> k" using Cons.prems(1) by auto
    then have "key new \<noteq> k" using False by auto
    then show ?thesis using Cons.prems(2) e by simp
  qed
qed simp

text \<open>Placing the new element above a subtree whose keys agree with \<open>old\<close> on the bit that tells them apart.\<close>

lemma insert_here_ok:
  assumes t: "eb_ok key t" "\<forall>x \<in> set (leaves t). agree d (key old) (key x)"
    and d: "flsnz (key new XOR key old) = Suc d" "agree (Suc d) (key new) (key old)" "bit (key new) d \<noteq> bit (key old) d"
  shows "eb_ok key (insert_here key new old t)" "leaves (insert_here key new old t) = insert_sorted key new (leaves t)"
proof -
  have ne: "key new \<noteq> key old" using d(3) by auto
  have x: "agree (Suc d) (key new) (key x)" "bit (key x) d = bit (key old) d" "key x \<noteq> key new" if "x \<in> set (leaves t)" for x
    using t(2) that d(2,3) agree_bit [of d "key old" "key x"] agree_mono [of d "key old" "key x" "Suc d"]
      agree_trans [of "Suc d" "key new" "key old" "key x"] by auto
  have less: "key new < key x \<longleftrightarrow> bit (key old) d" "key x < key new \<longleftrightarrow> bit (key new) d" if "x \<in> set (leaves t)" for x
    using x [OF that] d(3) prefix_less [of d "key new" "key x"] prefix_less [of d "key x" "key new"]
    by (auto simp: agree_def)
  have old: "key new < key old \<longleftrightarrow> bit (key old) d"
    using d(2,3) ne prefix_less [of d "key new" "key old"] prefix_less [of d "key old" "key new"]
    by (auto simp: agree_def)
  have nf: "find (\<lambda>x. key x = key new) (leaves t) = None" using x(3) by (auto simp: find_None_iff)
  have e: "insert_here key new old t = (if bit (key new) d then Node new (int d) t (Leaf new) else Node new (int d) (Leaf new) t)"
    using ne d(1,3) old by (auto simp: insert_here_def Let_def)
  show "eb_ok key (insert_here key new old t)"
    unfolding e using t(1) x d(3) nf by (auto simp: agree_def find_append)
  show "leaves (insert_here key new old t) = insert_sorted key new (leaves t)"
    unfolding e using less d(3)
    by (auto simp: insert_sorted_last insert_sorted_first less_imp_le)
qed

lemma insert_below_node:
  assumes ok: "eb_ok key (Node i b l r)" and stop: "b < 0 \<or> drop_bit (nat b) (key new XOR key i) \<ge> 2"
    and ne: "key new \<noteq> key i"
  shows "eb_ok key (insert_here key new i (Node i b l r))"
    "leaves (insert_here key new i (Node i b l r)) = insert_sorted key new (leaves (Node i b l r))"
proof -
  obtain d where d: "flsnz (key new XOR key i) = Suc d" "d < 32" "agree (Suc d) (key new) (key i)"
    "bit (key new) d \<noteq> bit (key i) d"
    using flsnz_xor [OF ne] by (auto simp: agree_def)
  have "agree d (key i) (key x)" if x: "x \<in> set (leaves (Node i b l r))" for x
  proof (cases "b < 0")
    case True
    then show ?thesis using dup_keys [OF ok True x] by (simp add: agree_def)
  next
    case False
    then have "drop_bit (Suc (nat b)) (key new XOR key i) \<noteq> 0" using stop drop_Suc by blast
    then have "Suc (nat b) \<le> d"
      using d(1) flsnz_drop [of "Suc (nat b)" "key new XOR key i"] drop_bit_mono [of "Suc (nat b)" "key new XOR key i" "Suc d"]
        d(3) drop_xor by (metis agree_def le_less_linear less_Suc_eq_le drop_bit_mono)
    moreover have "agree (Suc (nat b)) (key i) (key x)" using ok False x by auto
    ultimately show ?thesis by (rule agree_mono [rotated])
  qed
  with insert_here_ok [OF ok _ d(1,3,4)] show "eb_ok key (insert_here key new i (Node i b l r))"
    "leaves (insert_here key new i (Node i b l r)) = insert_sorted key new (leaves (Node i b l r))" by blast+
qed

text \<open>Walking down: the new key agrees with the node above its bit.\<close>

lemma walk_down_order:
  assumes ok: "eb_ok key (Node i b l r)" "0 \<le> b" and a: "agree (Suc (nat b)) k (key i)"
  shows "\<not> bit k (nat b) \<Longrightarrow> \<forall>y \<in> set (leaves r). k < key y"
    "bit k (nat b) \<Longrightarrow> \<forall>x \<in> set (leaves l). key x < k"
proof -
  have x: "agree (Suc (nat b)) k (key x)" if "x \<in> set (leaves l @ leaves r)" for x
    using ok a that agree_trans [OF a] by auto
  have bits: "\<forall>x \<in> set (leaves l). \<not> bit (key x) (nat b)" "\<forall>x \<in> set (leaves r). bit (key x) (nat b)" using ok by simp_all
  show "\<forall>y \<in> set (leaves r). k < key y" if "\<not> bit k (nat b)"
  proof
    fix y assume "y \<in> set (leaves r)"
    then show "k < key y" using that x [of y] bits by (intro prefix_less [of "nat b"]) (simp_all add: agree_def)
  qed
  show "\<forall>x \<in> set (leaves l). key x < k" if "bit k (nat b)"
  proof
    fix y assume "y \<in> set (leaves l)"
    then show "key y < k" using that x [of y] bits by (intro prefix_less [of "nat b"]) (simp_all add: agree_def)
  qed
qed

lemma insert_leaf_ok:
  "eb_ok key (insert_here key new old (Leaf old)) \<and>
   leaves (insert_here key new old (Leaf old)) = insert_sorted key new [old]"
proof (cases "key new = key old")
  case False
  then obtain d where "flsnz (key new XOR key old) = Suc d" "agree (Suc d) (key new) (key old)" "bit (key new) d \<noteq> bit (key old) d"
    using flsnz_xor [OF False] by (auto simp: agree_def)
  from insert_here_ok [of key "Leaf old" d old new, OF _ _ this] show ?thesis by (simp add: agree_def)
qed (simp add: insert_here_def insert_sorted_def agree_def)

lemma insert_below_ok:
  assumes "eb_ok key t" "\<not> unique \<or> (\<forall>x \<in> set (leaves t). key x \<noteq> key new)"
  shows "eb_ok key (fst (eb32_insert_below key unique new t)) \<and>
    leaves (fst (eb32_insert_below key unique new t)) = insert_sorted key new (leaves t) \<and>
    snd (eb32_insert_below key unique new t) = new"
  using assms
proof (induction t)
  case (Leaf old)
  then show ?case using insert_leaf_ok [of key new old] by auto
next
  case (Node i b l r)
  let ?t = "Node i b l r"
  have i: "i \<in> set (leaves ?t)" using Node.prems(1) by (auto split: if_splits)
  show ?case
  proof (cases "b < 0 \<or> drop_bit (nat b) (key new XOR key i) \<ge> 2")
    case stop: True
    show ?thesis
    proof (cases "key new = key i")
      case False
      then show ?thesis using insert_below_node [OF Node.prems(1) stop False] stop by simp
    next
      case True
      then have b: "b < 0" using stop by (auto simp: word_le_nat_alt)
      have "insert_sorted key new (leaves ?t) = leaves ?t @ [new]"
        using dup_keys [OF Node.prems(1) b] True by (intro insert_sorted_last) auto
      moreover have "\<not> unique" using Node.prems(2) i True by auto
      ultimately show ?thesis using eb_insert_dup_ok [OF Node.prems(1) b True] True b by simp
    qed
  next
    case False
    then have "\<not> b < 0" "drop_bit (Suc (nat b)) (key new XOR key i) = 0" using drop_Suc by blast+
    then have b: "0 \<le> b" and a: "agree (Suc (nat b)) (key new) (key i)" unfolding agree_def drop_xor by simp_all
    note order = walk_down_order [OF Node.prems(1) b a]
    have f: "find (\<lambda>x. key x = key i) (insert_sorted key new (leaves ?t)) = Some i"
      using find_insert_sorted [OF eb_ok_sorted [OF Node.prems(1)]] Node.prems(1) b by simp
    show ?thesis
    proof (cases "bit (key new) (nat b)")
      case True
      have "insert_sorted key new (leaves ?t) = leaves l @ insert_sorted key new (leaves r)"
        using order(2) [OF True] by (simp add: insert_sorted_right less_imp_le)
      then show ?thesis using Node False b a f True by (auto simp: split_def and_1_bit agree_sym)
    next
      case bit: False
      have "insert_sorted key new (leaves ?t) = insert_sorted key new (leaves l) @ leaves r"
        using order(1) [OF bit] by (simp add: insert_sorted_left)
      then show ?thesis using Node False b a f bit by (auto simp: split_def and_1_bit agree_sym)
    qed
  qed
qed

subsection \<open>Lookups find what the order says\<close>

lemma insert_below_found:
  assumes "eb_ok key t" "find (\<lambda>x. key x = key new) (leaves t) = Some e"
  shows "\<exists>e. eb32_insert_below key True new t = (t, e) \<and> e \<in> set (leaves t) \<and> key e = key new"
  using assms
proof (induction t arbitrary: e)
  case (Node i b l r)
  let ?t = "Node i b l r"
  have i: "i \<in> set (leaves ?t)" using Node.prems(1) by (auto split: if_splits)
  have e: "e \<in> set (leaves ?t)" "key e = key new"
    using Node.prems(2) unfolding find_Some_iff by (metis nth_mem)+
  show ?case
  proof (cases "b < 0 \<or> drop_bit (nat b) (key new XOR key i) \<ge> 2")
    case stop: True
    have "key new = key i"
    proof (cases "b < 0")
      case True
      then show ?thesis using dup_keys [OF Node.prems(1) True e(1)] e(2) by simp
    next
      case False
      then have "drop_bit (Suc (nat b)) (key new XOR key i) \<noteq> 0" using stop drop_Suc by blast
      moreover have "agree (Suc (nat b)) (key i) (key e)" using Node.prems(1) False e(1) by auto
      ultimately show ?thesis using e(2) by (simp add: agree_def drop_xor del: drop_bit_xor)
    qed
    then show ?thesis using stop i by simp
  next
    case False
    then have "\<not> b < 0" "drop_bit (Suc (nat b)) (key new XOR key i) = 0" using drop_Suc by blast+
    then have b: "0 \<le> b" and a: "agree (Suc (nat b)) (key new) (key i)" unfolding agree_def drop_xor by simp_all
    note order = walk_down_order [OF Node.prems(1) b a]
    show ?thesis
    proof (cases "bit (key new) (nat b)")
      case True
      then have "find (\<lambda>x. key x = key new) (leaves l) = None" using order(2) by (force simp: find_None_iff)
      then have "find (\<lambda>x. key x = key new) (leaves r) = Some e" using Node.prems(2) by (simp add: find_append)
      from Node.IH(2) [OF _ this] show ?thesis using Node.prems(1) False True by (auto simp: and_1_bit)
    next
      case bit: False
      then have "find (\<lambda>x. key x = key new) (leaves r) = None" using order(1) by (force simp: find_None_iff)
      then have "find (\<lambda>x. key x = key new) (leaves l) = Some e"
        using Node.prems(2) by (simp add: find_append split: option.splits)
      from Node.IH(1) [OF _ this] show ?thesis using Node.prems(1) False bit by (auto simp: and_1_bit)
    qed
  qed
qed (auto split: if_splits)

lemma lookup_below: "eb_ok key t \<Longrightarrow> eb32_lookup_below key x t = find (\<lambda>i. key i = x) (leaves t)"
proof (induction t)
  case (Node i b l r)
  let ?t = "Node i b l r"
  show ?case
  proof (cases "b < 0")
    case True
    have k: "key y = key i" if "y \<in> set (leaves ?t)" for y using dup_keys [OF Node.prems True that] .
    show ?thesis
    proof (cases "key i = x")
      case eq: True
      obtain y ys where y: "leaves l = y # ys" by (cases "leaves l") auto
      then show ?thesis using True eq k [of y] by (simp add: walk_left_hd)
    next
      case False
      then have "find (\<lambda>i. key i = x) (leaves l) = None" "find (\<lambda>i. key i = x) (leaves r) = None"
        using k by (auto simp: find_None_iff)
      then show ?thesis using Node False True by (simp add: find_append)
    qed
  next
    case b: False
    show ?thesis
    proof (cases "key i = x \<or> drop_bit (nat b) (key i XOR x) \<ge> 2")
      case True
      have "find (\<lambda>i. key i = x) (leaves ?t) = None" if "key i \<noteq> x"
      proof -
        have "drop_bit (Suc (nat b)) (key i XOR x) \<noteq> 0" using True that drop_Suc by blast
        then have "\<not> agree (Suc (nat b)) (key i) x" by (simp add: agree_def drop_xor del: drop_bit_xor)
        moreover have "agree (Suc (nat b)) (key i) (key y)" if "y \<in> set (leaves ?t)" for y using Node.prems b that by auto
        ultimately show ?thesis by (auto simp: find_None_iff)
      qed
      then show ?thesis using True b Node.prems by auto
    next
      case False
      then have "drop_bit (Suc (nat b)) (key i XOR x) = 0" using drop_Suc by blast
      then have a: "agree (Suc (nat b)) x (key i)" unfolding agree_def drop_xor by simp
      note order = walk_down_order [OF Node.prems _ a]
      have "bit x (nat b) \<Longrightarrow> find (\<lambda>i. key i = x) (leaves l) = None"
        "\<not> bit x (nat b) \<Longrightarrow> find (\<lambda>i. key i = x) (leaves r) = None"
        using order b by (force simp: find_None_iff)+
      then show ?thesis using Node False b by (auto simp: find_append and_1_bit split: option.splits)
    qed
  qed
qed simp

text \<open>
  What the test on the common bits says of a key \<open>x\<close> and a node with a bit: either \<open>x\<close> agrees with the keys
  of the subtree above the bit, or it is below or above all of them.
\<close>

lemma drop_less: "drop_bit n a < drop_bit n b \<Longrightarrow> a < (b :: u32)"
proof (rule ccontr)
  assume "drop_bit n a < drop_bit n b" "\<not> a < b"
  then have "unat b \<le> unat a" by (simp add: word_less_nat_alt)
  then have "drop_bit n (unat b) \<le> drop_bit n (unat a)" by (simp add: drop_bit_eq_div div_le_mono)
  then have "drop_bit n b \<le> drop_bit n a"
    by (simp add: word_le_nat_alt unsigned_drop_bit_eq take_bit_nat_eq_self [OF u32_less])
  then show False using \<open>drop_bit n a < drop_bit n b\<close> by simp
qed

lemma node_cases:
  assumes ok: "eb_ok key (Node i b l r)" "0 \<le> b" and far: "drop_bit (nat b) (x XOR key i) \<ge> 2"
  shows "drop_bit (nat b) (key i) > drop_bit (nat b) x \<Longrightarrow> y \<in> set (leaves (Node i b l r)) \<Longrightarrow> x < key y"
    "\<not> drop_bit (nat b) (key i) > drop_bit (nat b) x \<Longrightarrow> y \<in> set (leaves (Node i b l r)) \<Longrightarrow> key y < x"
    "drop_bit (nat b) (key i) < drop_bit (nat b) x \<longleftrightarrow> \<not> drop_bit (nat b) (key i) > drop_bit (nat b) x"
proof -
  let ?S = "Suc (nat b)"
  have ne: "drop_bit ?S x \<noteq> drop_bit ?S (key i)" using far drop_Suc drop_xor by metis
  have half: "drop_bit ?S z = drop_bit (nat b) z div 2" for z :: u32 by (simp add: drop_bit_Suc drop_bit_half)
  have mono: "drop_bit ?S u \<le> drop_bit ?S v" if "drop_bit (nat b) u \<le> drop_bit (nat b) v" for u v :: u32
    using that unfolding half by (simp add: word_le_nat_alt unat_div div_le_mono)
  have a: "drop_bit ?S (key i) = drop_bit ?S (key y)" if "y \<in> set (leaves (Node i b l r))" for y
  proof -
    have "agree ?S (key i) (key y)" using ok that by auto
    then show ?thesis by (simp add: agree_def)
  qed
  show "x < key y" if "drop_bit (nat b) (key i) > drop_bit (nat b) x" "y \<in> set (leaves (Node i b l r))"
  proof (rule drop_less)
    show "drop_bit ?S x < drop_bit ?S (key y)"
      unfolding a [OF that(2), symmetric] using mono [OF less_imp_le [OF that(1)]] ne by (rule le_neq_trans)
  qed
  show "key y < x" if "\<not> drop_bit (nat b) (key i) > drop_bit (nat b) x" "y \<in> set (leaves (Node i b l r))"
  proof (rule drop_less)
    have "drop_bit (nat b) (key i) \<le> drop_bit (nat b) x" using that(1) by (simp only: not_less)
    from mono [OF this] ne [symmetric] show "drop_bit ?S (key y) < drop_bit ?S x"
      unfolding a [OF that(2), symmetric] by (rule le_neq_trans)
  qed
  have "drop_bit (nat b) x \<noteq> drop_bit (nat b) (key i)" using ne half by metis
  then show "drop_bit (nat b) (key i) < drop_bit (nat b) x \<longleftrightarrow> \<not> drop_bit (nat b) (key i) > drop_bit (nat b) x"
    by auto
qed

lemma near_agree:
  assumes "\<not> drop_bit n (x XOR k) \<ge> 2"
  shows "agree (Suc n) x k"
proof -
  have "drop_bit (Suc n) (x XOR k) = 0" using assms drop_Suc by blast
  then show ?thesis unfolding agree_def drop_xor .
qed

definition or_else :: "'a option \<Rightarrow> 'a option \<Rightarrow> 'a option" where
  "or_else a b = (case a of None \<Rightarrow> b | Some x \<Rightarrow> Some x)"

lemma or_else_simps [simp]: "or_else None b = b" "or_else (Some x) b = Some x" "or_else a None = a"
  "or_else (or_else a b) c = or_else a (or_else b c)"
  by (simp_all add: or_else_def split: option.split)

lemma find_append': "find P (xs @ ys) = or_else (find P xs) (find P ys)"
  by (simp add: find_append or_else_def)

lemma find_hd: "xs \<noteq> [] \<Longrightarrow> P (hd xs) \<Longrightarrow> find P xs = Some (hd xs)"
  by (cases xs) simp_all

lemma find_none: "\<forall>x \<in> set xs. \<not> P x \<Longrightarrow> find P xs = None"
  by (simp add: find_None_iff)

lemma ge_below: "eb_ok key t \<Longrightarrow> eb32_ge_below key x up t = or_else (find (\<lambda>i. x \<le> key i) (leaves t)) up"
proof (induction t arbitrary: up)
  case (Node i b l r)
  let ?t = "Node i b l r" and ?P = "\<lambda>i. x \<le> key i"
  have first: "find ?P (leaves ?t) = Some (eb_walk_left l)" if "\<forall>y \<in> set (leaves ?t). x \<le> key y"
    using that find_hd [of "leaves ?t" ?P] by (simp add: walk_left_hd)
  have none: "find ?P (leaves ?t) = None" if "\<forall>y \<in> set (leaves ?t). key y < x"
    using that by (intro find_none) (auto simp: not_le)
  show ?case
  proof (cases "b < 0")
    case True
    show ?thesis
    proof (cases "key i \<ge> x")
      case ge: True
      then have "\<forall>y \<in> set (leaves ?t). x \<le> key y" using dup_keys [OF Node.prems True] by metis
      from first [OF this] show ?thesis using True ge by simp
    next
      case lt: False
      then have "\<forall>y \<in> set (leaves ?t). key y < x" using dup_keys [OF Node.prems True] by (metis not_le)
      from none [OF this] show ?thesis using True lt by simp
    qed
  next
    case False
    then have b: "0 \<le> b" by simp
    show ?thesis
    proof (cases "drop_bit (nat b) (x XOR key i) \<ge> 2")
      case far: True
      note c = node_cases [OF Node.prems b far]
      show ?thesis using False far first none c(1,2)
        by (cases "drop_bit (nat b) (key i) > drop_bit (nat b) x") (auto simp: less_imp_le)
    next
      case near: False
      note order = walk_down_order [OF Node.prems b near_agree [OF near]]
      show ?thesis
      proof (cases "bit x (nat b)")
        case True
        then have "find ?P (leaves l) = None" using order(2) by (intro find_none) (auto simp: not_le)
        then show ?thesis using Node False near True by (simp add: and_1_bit find_append')
      next
        case bit: False
        then have "find ?P (leaves r) = Some (eb_walk_left r)"
          using order(1) find_hd [of "leaves r" ?P] by (simp add: walk_left_hd less_imp_le)
        then show ?thesis using Node False near bit by (simp add: and_1_bit find_append')
      qed
    qed
  qed
qed simp

lemma find_last: "xs \<noteq> [] \<Longrightarrow> P (last xs) \<Longrightarrow> find P (rev xs) = Some (last xs)"
  by (cases xs rule: rev_cases) simp_all

lemma le_below: "eb_ok key t \<Longrightarrow> eb32_le_below key x up t = or_else (find (\<lambda>i. key i \<le> x) (rev (leaves t))) up"
proof (induction t arbitrary: up)
  case (Node i b l r)
  let ?t = "Node i b l r" and ?P = "\<lambda>i. key i \<le> x"
  have final: "find ?P (rev (leaves ?t)) = Some (eb_walk_right r)" if "\<forall>y \<in> set (leaves ?t). key y \<le> x"
    using that find_last [of "leaves ?t" ?P] by (simp add: walk_right_last del: rev_append)
  have none: "find ?P (rev (leaves ?t)) = None" if "\<forall>y \<in> set (leaves ?t). x < key y"
    using that by (intro find_none) (auto simp: not_le)
  show ?case
  proof (cases "b < 0")
    case True
    show ?thesis
    proof (cases "key i \<le> x")
      case le: True
      then have "\<forall>y \<in> set (leaves ?t). key y \<le> x" using dup_keys [OF Node.prems True] by metis
      from final [OF this] show ?thesis using True le by simp
    next
      case gt: False
      then have "\<forall>y \<in> set (leaves ?t). x < key y" using dup_keys [OF Node.prems True] by (metis not_le)
      from none [OF this] show ?thesis using True gt by simp
    qed
  next
    case False
    then have b: "0 \<le> b" by simp
    show ?thesis
    proof (cases "drop_bit (nat b) (x XOR key i) \<ge> 2")
      case far: True
      note c = node_cases [OF Node.prems b far]
      show ?thesis
      proof (cases "drop_bit (nat b) (key i) > drop_bit (nat b) x")
        case True
        then have "\<forall>y \<in> set (leaves ?t). x < key y" using c(1) by blast
        from none [OF this] show ?thesis using False far True c(3) by simp
      next
        case below: False
        then have "\<forall>y \<in> set (leaves ?t). key y \<le> x" using c(2) less_imp_le by blast
        from final [OF this] show ?thesis using False far below c(3) by simp
      qed
    next
      case near: False
      note order = walk_down_order [OF Node.prems b near_agree [OF near]]
      show ?thesis
      proof (cases "bit x (nat b)")
        case True
        then have "find ?P (rev (leaves l)) = Some (eb_walk_right l)"
          using order(2) find_last [of "leaves l" ?P] by (simp add: walk_right_last less_imp_le)
        then show ?thesis using Node False near True by (simp add: and_1_bit find_append')
      next
        case bit: False
        then have "find ?P (rev (leaves r)) = None" using order(1) by (intro find_none) (auto simp: not_le)
        then show ?thesis using Node False near bit by (simp add: and_1_bit find_append')
      qed
    qed
  qed
qed simp

subsection \<open>Neighbours\<close>

lemma split_at:
  assumes "as @ bs = xs @ x # ys"
  shows "\<exists>zs. as = xs @ x # zs \<and> ys = zs @ bs \<or> xs = as @ zs \<and> bs = zs @ x # ys"
proof -
  from assms obtain us where "as = xs @ us \<and> us @ bs = x # ys \<or> as @ us = xs \<and> bs = us @ x # ys"
    by (auto simp: append_eq_append_conv2)
  then show ?thesis by (cases us) auto
qed

lemma next_below:
  "distinct (leaves t) \<Longrightarrow> leaves t = xs @ x # ys \<Longrightarrow>
    eb_next_below x up t = (case ys of [] \<Rightarrow> up | y # _ \<Rightarrow> Some y)"
proof (induction t arbitrary: up xs ys)
  case (Leaf i)
  then show ?case by (cases xs) auto
next
  case (Node i b l r)
  have dl: "distinct (leaves l)" using Node.prems(1) by simp
  obtain zs where "leaves l = xs @ x # zs \<and> ys = zs @ leaves r \<or> xs = leaves l @ zs \<and> leaves r = zs @ x # ys"
    using split_at [of "leaves l" "leaves r" xs x ys] Node.prems(2) by auto
  then show ?case
  proof
    assume l: "leaves l = xs @ x # zs \<and> ys = zs @ leaves r"
    then have "ys = leaves r \<or> (\<exists>y zs'. zs = y # zs')" by (cases zs) auto
    then show ?thesis
      using Node.IH(1) [OF dl conjunct1 [OF l], of "Some (eb_walk_left r)"] l
      by (cases "leaves r") (auto simp: walk_left_hd)
  next
    assume r: "xs = leaves l @ zs \<and> leaves r = zs @ x # ys"
    then show ?thesis using Node.IH(2) [of zs ys up] Node.prems(1) by auto
  qed
qed

lemma prev_below:
  "distinct (leaves t) \<Longrightarrow> leaves t = xs @ x # ys \<Longrightarrow>
    eb_prev_below x up t = (if xs = [] then up else Some (last xs))"
proof (induction t arbitrary: up xs ys)
  case (Leaf i)
  then show ?case by (cases xs) auto
next
  case (Node i b l r)
  have dl: "distinct (leaves l)" using Node.prems(1) by simp
  obtain zs where "leaves l = xs @ x # zs \<and> ys = zs @ leaves r \<or> xs = leaves l @ zs \<and> leaves r = zs @ x # ys"
    using split_at [of "leaves l" "leaves r" xs x ys] Node.prems(2) by auto
  then show ?case
  proof
    assume l: "leaves l = xs @ x # zs \<and> ys = zs @ leaves r"
    then show ?thesis using Node.IH(1) [OF dl conjunct1 [OF l], of up] by auto
  next
    assume r: "xs = leaves l @ zs \<and> leaves r = zs @ x # ys"
    then show ?thesis
      using Node.IH(2) [of zs ys "Some (eb_walk_right l)"] Node.prems(1) by (auto simp: walk_right_last)
  qed
qed

end
