(* ===== verification/HA_Ebtree_Order.thy ===== *)
theory HA_Ebtree_Order
  imports HA_Ebtree_Search
begin

section \<open>Elastic trees as sorted lists\<close>

text \<open>
  Deletion hands the node part of the leaf's parent over to the element that
  loses its leaf.  With the invariant that every node part belongs to the first
  element of its key below it, the tree stays in order, and the whole interface
  is that of a sorted list: the contract \<open>key_order\<close>, on which the users of the
  trees rely.
\<close>

subsection \<open>Deletion keeps the order\<close>

fun nodes :: "eb \<Rightarrow> nat list" where
  "nodes (Leaf i) = []"
| "nodes (Node i b l r) = i # nodes l @ nodes r"

lemma nodes_leaves: "eb_ok key t \<Longrightarrow> set (nodes t) \<subseteq> set (leaves t)"
proof (induction t)
  case (Node i b l r)
  then have "i \<in> set (leaves (Node i b l r))" by (auto split: if_splits)
  then show ?case using Node by auto
qed simp

lemma rename_simps [simp]: "leaves (eb_rename x p t) = leaves t" "eb_walk_left (eb_rename x p t) = eb_walk_left t"
  by (induction t) simp_all

lemma rename_id: "x \<notin> set (nodes t) \<Longrightarrow> eb_rename x p t = t"
  by (induction t) auto

lemma find_remove1: "find P xs = Some i \<Longrightarrow> i \<noteq> x \<Longrightarrow> find P (remove1 x xs) = Some i"
  by (induction xs) (auto split: if_splits)

lemma remove1_branches:
  "x \<in> set xs \<Longrightarrow> remove1 x (xs @ ys) = remove1 x xs @ ys" "x \<notin> set xs \<Longrightarrow> remove1 x (xs @ ys) = xs @ remove1 x ys"
  by (simp_all add: remove1_append)

text \<open>A node keeps its place when elements below leave it and another first element of its key takes it over.\<close>

lemma node_ok:
  assumes ok: "eb_ok key (Node i b l r)" and sub: "eb_ok key l'" "eb_ok key r'"
    and ls: "set (leaves l') \<subseteq> set (leaves l)" "set (leaves r') \<subseteq> set (leaves r)"
    and j: "j \<in> set (leaves l' @ leaves r')" "b < 0 \<longrightarrow> j = eb_walk_left r'"
      "0 \<le> b \<longrightarrow> find (\<lambda>x. key x = key j) (leaves l' @ leaves r') = Some j"
  shows "eb_ok key (Node j b l' r')"
proof (cases "b < 0")
  case True
  have k: "key x = key i" if "x \<in> set (leaves l' @ leaves r')" for x
    using dup_keys [OF ok True, of x] that ls by auto
  have "agree 0 (key j) (key x)" if "x \<in> set (leaves l' @ leaves r')" for x
    unfolding k [OF that] k [OF j(1)] by (simp add: agree_def)
  then show ?thesis using True sub j(2) by simp
next
  case False
  have a: "agree (Suc (nat b)) (key i) (key x)" if "x \<in> set (leaves l' @ leaves r')" for x
    using ok False that ls by auto
  have "agree (Suc (nat b)) (key j) (key x)" if "x \<in> set (leaves l' @ leaves r')" for x
    using a [OF that] a [OF j(1)] agree_trans agree_sym by blast
  moreover have "\<forall>x \<in> set (leaves l'). \<not> bit (key x) (nat b)" "\<forall>x \<in> set (leaves r'). bit (key x) (nat b)"
    using ok False ls by auto
  ultimately show ?thesis using False sub j by simp
qed

text \<open>
  Unlinking a leaf that has a parent \<open>p\<close>: the tree, once \<open>p\<close> stands in for the element, is in order; and
  \<open>p\<close> comes first among the elements with its key when the leaf did.
\<close>

definition unlinked :: "(nat \<Rightarrow> u32) \<Rightarrow> nat \<Rightarrow> eb \<Rightarrow> eb \<Rightarrow> nat \<Rightarrow> bool" where
  "unlinked key x t t' p \<longleftrightarrow>
    leaves t' = remove1 x (leaves t) \<and> p \<in> set (nodes t) \<and> set (nodes t') = set (nodes t) - {p}
    \<and> distinct (nodes t') \<and> (p \<noteq> x \<longrightarrow> p \<in> set (leaves t')) \<and> eb_ok key (eb_rename x p t')
    \<and> (find (\<lambda>y. key y = key x) (leaves t) = Some x \<and> p \<noteq> x \<longrightarrow> find (\<lambda>y. key y = key p) (leaves t') = Some p)"

lemma unlinkedI:
  assumes "leaves t' = remove1 x (leaves t)" "p \<in> set (nodes t)" "set (nodes t') = set (nodes t) - {p}"
    "distinct (nodes t')" "p \<noteq> x \<Longrightarrow> p \<in> set (leaves t')" "eb_ok key (eb_rename x p t')"
    "find (\<lambda>y. key y = key x) (leaves t) = Some x \<Longrightarrow> p \<noteq> x \<Longrightarrow> find (\<lambda>y. key y = key p) (leaves t') = Some p"
  shows "unlinked key x t t' p"
  unfolding unlinked_def using assms by blast

definition eb_inv :: "(nat \<Rightarrow> u32) \<Rightarrow> eb \<Rightarrow> bool" where
  "eb_inv key t \<longleftrightarrow> eb_ok key t \<and> distinct (leaves t) \<and> distinct (nodes t)"

lemma unlinked_left_leaf:
  assumes "eb_inv key (Node i b (Leaf x) r)"
  shows "unlinked key x (Node i b (Leaf x) r) r i"
proof -
  have r: "set (nodes r) \<subseteq> set (leaves r)" "x \<notin> set (leaves r)" "i \<notin> set (nodes r)" "distinct (nodes r)"
    using assms nodes_leaves [of key r] by (auto simp: eb_inv_def)
  then have "eb_rename x i r = r" by (intro rename_id) auto
  moreover have "find (\<lambda>y. key y = key i) (leaves r) = Some i" "i \<in> set (leaves r)" if "i \<noteq> x"
  proof -
    show "i \<in> set (leaves r)" using assms that by (auto simp: eb_inv_def split: if_splits)
    show "find (\<lambda>y. key y = key i) (leaves r) = Some i"
    proof (cases "b < 0")
      case True
      then show ?thesis using assms find_hd [of "leaves r" "\<lambda>y. key y = key i"] by (simp add: eb_inv_def walk_left_hd)
    next
      case False
      then show ?thesis using assms that by (auto simp: eb_inv_def split: if_splits)
    qed
  qed
  ultimately show ?thesis using assms r by (auto simp: unlinked_def eb_inv_def)
qed

lemma unlinked_right_leaf:
  assumes "eb_inv key (Node i b l (Leaf x))"
  shows "unlinked key x (Node i b l (Leaf x)) l i"
proof -
  have l: "set (nodes l) \<subseteq> set (leaves l)" "x \<notin> set (leaves l)" "i \<notin> set (nodes l)" "distinct (nodes l)"
    using assms nodes_leaves [of key l] by (auto simp: eb_inv_def)
  then have "eb_rename x i l = l" by (intro rename_id) auto
  moreover have "find (\<lambda>y. key y = key i) (leaves l) = Some i" "i \<in> set (leaves l)" if "i \<noteq> x"
    using assms that by (auto simp: eb_inv_def find_append split: if_splits option.splits)
  moreover have "remove1 x (leaves l @ [x]) = leaves l" using l(2) by (simp add: remove1_append)
  ultimately show ?thesis using assms l by (auto simp: unlinked_def eb_inv_def)
qed

lemma unlinked_left:
  assumes inv: "eb_inv key (Node i b l r)" and x: "x \<in> set (leaves l)" and u: "unlinked key x l l' p"
  shows "unlinked key x (Node i b l r) (Node i b l' r) p"
proof -
  have ok: "eb_ok key (Node i b l r)" and d: "x \<notin> set (leaves r)" "x \<notin> set (nodes r)" "distinct (leaves l)"
    "i \<notin> set (nodes l)" "set (nodes l) \<inter> set (nodes r) = {}" "distinct (nodes r)" "i \<notin> set (nodes r)"
    using inv x nodes_leaves [of key r] by (auto simp: eb_inv_def)
  have r: "eb_rename x p r = r" using d(2) by (rule rename_id)
  have l': "leaves l' = remove1 x (leaves l)" "set (leaves l') \<subseteq> set (leaves l)" "p \<in> set (nodes l)"
    "p \<noteq> x \<longrightarrow> p \<in> set (leaves l')"
    using u set_remove1_subset [of x "leaves l"] by (auto simp: unlinked_def)
  have first: "find (\<lambda>y. key y = key p) (leaves l' @ leaves r) = Some p"
    if "find (\<lambda>y. key y = key x) (leaves l @ leaves r) = Some x" "p \<noteq> x"
  proof -
    have "find (\<lambda>y. key y = key x) (leaves l) \<noteq> None" using x by (auto simp: find_None_iff)
    then have "find (\<lambda>y. key y = key x) (leaves l) = Some x" using that(1) by (auto simp: find_append)
    then have "find (\<lambda>y. key y = key p) (leaves l') = Some p" using u that(2) unfolding unlinked_def by blast
    then show ?thesis by (simp add: find_append)
  qed
  let ?j = "if i = x then p else i"
  have px: "p \<noteq> x" if "i = x" using that l'(3) d(4) by auto
  have neg: "b < 0 \<longrightarrow> i = eb_walk_left r" using ok by simp
  then have dup: "b < 0 \<longrightarrow> ?j = eb_walk_left r" using d(1) by (metis walk_in(1))
  have keeps_first: "find (\<lambda>y. key y = key ?j) (leaves l' @ leaves r) = Some ?j" if b: "0 \<le> b"
  proof (cases "i = x")
    case True
    then have "find (\<lambda>y. key y = key x) (leaves l @ leaves r) = Some x" using ok b by simp
    from first [OF this px [OF True]] show ?thesis by (simp add: True)
  next
    case False
    have "find (\<lambda>y. key y = key i) (leaves l @ leaves r) = Some i" using ok b by simp
    from find_remove1 [OF this False] show ?thesis using False x by (simp add: l'(1) remove1_branches)
  qed
  have "eb_ok key (Node ?j b (eb_rename x p l') r)"
  proof (rule node_ok [OF ok])
    show "eb_ok key (eb_rename x p l')" "eb_ok key r" using u ok by (simp_all add: unlinked_def)
    show "set (leaves (eb_rename x p l')) \<subseteq> set (leaves l)" "set (leaves r) \<subseteq> set (leaves r)" using l'(2) by simp_all
    show "b < 0 \<longrightarrow> ?j = eb_walk_left r" by (rule dup)
    show "?j \<in> set (leaves (eb_rename x p l') @ leaves r)"
    proof (cases "i = x")
      case True
      then show ?thesis using px [OF True] l'(4) by simp
    next
      case False
      have "i \<in> set (leaves l) \<union> set (leaves r)" using ok by (auto split: if_splits)
      then show ?thesis using False d(3) by (simp add: l'(1))
    qed
    show "0 \<le> b \<longrightarrow> find (\<lambda>y. key y = key ?j) (leaves (eb_rename x p l') @ leaves r) = Some ?j"
      using keeps_first by simp
  qed
  then have ok': "eb_ok key (eb_rename x p (Node i b l' r))" by (simp only: eb_rename.simps r)
  show ?thesis
  proof (rule unlinkedI)
    show "leaves (Node i b l' r) = remove1 x (leaves (Node i b l r))" using l'(1) x by (simp add: remove1_branches)
    show "p \<in> set (nodes (Node i b l r))" using l'(3) by simp
    show "set (nodes (Node i b l' r)) = set (nodes (Node i b l r)) - {p}" "distinct (nodes (Node i b l' r))"
      using u d l'(3) by (auto simp: unlinked_def)
    show "p \<in> set (leaves (Node i b l' r))" if "p \<noteq> x" using l'(4) that by simp
    show "find (\<lambda>y. key y = key p) (leaves (Node i b l' r)) = Some p"
      if "find (\<lambda>y. key y = key x) (leaves (Node i b l r)) = Some x" "p \<noteq> x"
      using first that by simp
  qed (rule ok')
qed

lemma unlinked_right:
  assumes inv: "eb_inv key (Node i b l r)" and x: "x \<in> set (leaves r)" and u: "unlinked key x r r' p"
  shows "unlinked key x (Node i b l r) (Node i b l r') p"
proof -
  have ok: "eb_ok key (Node i b l r)" and d: "x \<notin> set (leaves l)" "x \<notin> set (nodes l)" "distinct (leaves r)"
    "i \<notin> set (nodes r)" "set (nodes l) \<inter> set (nodes r) = {}" "distinct (nodes l)" "i \<notin> set (nodes l)"
    using inv x nodes_leaves [of key l] by (auto simp: eb_inv_def)
  have l: "eb_rename x p l = l" using d(2) by (rule rename_id)
  have r': "leaves r' = remove1 x (leaves r)" "set (leaves r') \<subseteq> set (leaves r)" "p \<in> set (nodes r)"
    "p \<noteq> x \<longrightarrow> p \<in> set (leaves r')"
    using u set_remove1_subset [of x "leaves r"] by (auto simp: unlinked_def)
  have first_r: "find (\<lambda>y. key y = key p) (leaves r') = Some p"
    if "find (\<lambda>y. key y = key x) (leaves r) = Some x" "p \<noteq> x"
    using u that unfolding unlinked_def by blast
  have first: "find (\<lambda>y. key y = key p) (leaves l @ leaves r') = Some p"
    if f: "find (\<lambda>y. key y = key x) (leaves l @ leaves r) = Some x" and ne: "p \<noteq> x"
  proof -
    have nl: "find (\<lambda>y. key y = key x) (leaves l) = None"
      using f d(1) by (cases "find (\<lambda>y. key y = key x) (leaves l)") (auto simp: find_append find_Some_iff)
    have b: "\<not> b < 0"
    proof
      assume "b < 0"
      then have "key (eb_walk_left l) = key x" using dup_keys [OF ok] x by simp
      then show False using nl by (auto simp: find_None_iff)
    qed
    have "key y < key p" if "y \<in> set (leaves l)" for y
      using eb_ok_branches [OF ok _ that] b r'(2,4) ne by auto
    then have "find (\<lambda>y. key y = key p) (leaves l) = None" by (force simp: find_None_iff)
    moreover have "find (\<lambda>y. key y = key x) (leaves r) = Some x" using f nl by (simp add: find_append)
    ultimately show ?thesis using first_r ne by (simp add: find_append)
  qed
  let ?j = "if i = x then p else i"
  have px: "p \<noteq> x" if "i = x" using that r'(3) d(4) by auto
  have dup: "?j = eb_walk_left r'" if neg: "b < 0"
  proof -
    have i: "i = hd (leaves r)" using ok neg by (simp add: walk_left_hd)
    show ?thesis
    proof (cases "i = x")
      case True
      then have "find (\<lambda>y. key y = key p) (leaves r') = Some p"
        using first_r [OF _ px] find_hd [of "leaves r" "\<lambda>y. key y = key x"] i by simp
      moreover have "hd (leaves r') \<in> set (leaves (Node i b l r))" "p \<in> set (leaves (Node i b l r))"
        using r'(2,4) px [OF True] subsetD [OF r'(2) hd_in_set [OF leaves_not_Nil]] by auto
      then have "key (hd (leaves r')) = key p" using dup_keys [OF ok neg] by metis
      ultimately show ?thesis using True find_hd [of "leaves r'" "\<lambda>y. key y = key p"] by (simp add: walk_left_hd)
    next
      case False
      then show ?thesis using i x r'(1) by (cases "leaves r") (auto simp: walk_left_hd)
    qed
  qed
  have keeps_first: "find (\<lambda>y. key y = key ?j) (leaves l @ leaves r') = Some ?j" if b: "0 \<le> b"
  proof (cases "i = x")
    case True
    then have "find (\<lambda>y. key y = key x) (leaves l @ leaves r) = Some x" using ok b by simp
    from first [OF this px [OF True]] show ?thesis by (simp add: True)
  next
    case False
    have "find (\<lambda>y. key y = key i) (leaves l @ leaves r) = Some i" using ok b by simp
    from find_remove1 [OF this False] show ?thesis using False d(1) by (simp add: r'(1) remove1_branches)
  qed
  have "eb_ok key (Node ?j b l (eb_rename x p r'))"
  proof (rule node_ok [OF ok])
    show "eb_ok key l" "eb_ok key (eb_rename x p r')" using u ok by (simp_all add: unlinked_def)
    show "set (leaves l) \<subseteq> set (leaves l)" "set (leaves (eb_rename x p r')) \<subseteq> set (leaves r)" using r'(2) by simp_all
    show "b < 0 \<longrightarrow> ?j = eb_walk_left (eb_rename x p r')" using dup by simp
    show "?j \<in> set (leaves l @ leaves (eb_rename x p r'))"
    proof (cases "i = x")
      case True
      then show ?thesis using px [OF True] r'(4) by simp
    next
      case False
      have "i \<in> set (leaves l) \<union> set (leaves r)" using ok by (auto split: if_splits)
      then show ?thesis using False d(3) by (simp add: r'(1))
    qed
    show "0 \<le> b \<longrightarrow> find (\<lambda>y. key y = key ?j) (leaves l @ leaves (eb_rename x p r')) = Some ?j"
      using keeps_first by simp
  qed
  then have ok': "eb_ok key (eb_rename x p (Node i b l r'))" by (simp only: eb_rename.simps l)
  show ?thesis
  proof (rule unlinkedI)
    show "leaves (Node i b l r') = remove1 x (leaves (Node i b l r))" using r'(1) d(1) by (simp add: remove1_branches)
    show "p \<in> set (nodes (Node i b l r))" using r'(3) by simp
    show "set (nodes (Node i b l r')) = set (nodes (Node i b l r)) - {p}" "distinct (nodes (Node i b l r'))"
      using u d r'(3) by (auto simp: unlinked_def)
    show "p \<in> set (leaves (Node i b l r'))" if "p \<noteq> x" using r'(4) that by simp
    show "find (\<lambda>y. key y = key p) (leaves (Node i b l r')) = Some p"
      if "find (\<lambda>y. key y = key x) (leaves (Node i b l r)) = Some x" "p \<noteq> x"
      using first that by simp
  qed (rule ok')
qed

lemma unlink_ok:
  assumes "eb_inv key t" "x \<in> set (leaves t)" "t \<noteq> Leaf x"
  shows "\<exists>t' p. eb_unlink x t = (Some t', Some p) \<and> unlinked key x t t' p"
  using assms
proof (induction t)
  case (Node i b l r)
  have sub: "eb_inv key l" "eb_inv key r" using Node.prems(1) by (auto simp: eb_inv_def)
  consider "l = Leaf x" | "l \<noteq> Leaf x" "r = Leaf x" | "l \<noteq> Leaf x" "r \<noteq> Leaf x" "x \<in> set (leaves l)"
    | "l \<noteq> Leaf x" "r \<noteq> Leaf x" "x \<notin> set (leaves l)" "x \<in> set (leaves r)"
    using Node.prems(2) by auto
  then show ?case
  proof cases
    case 1
    then show ?thesis using unlinked_left_leaf Node.prems(1) by auto
  next
    case 2
    then show ?thesis using unlinked_right_leaf Node.prems(1) by auto
  next
    case 3
    then show ?thesis using Node.IH(1) [OF sub(1)] unlinked_left [OF Node.prems(1)] by auto
  next
    case 4
    then show ?thesis using Node.IH(2) [OF sub(2)] unlinked_right [OF Node.prems(1)] by auto
  qed
qed simp

subsection \<open>Roots\<close>

definition eb_contents :: "eb option \<Rightarrow> nat list" where
  "eb_contents t = (case t of None \<Rightarrow> [] | Some t \<Rightarrow> leaves t)"

definition eb_root_ok :: "(nat \<Rightarrow> u32) \<Rightarrow> eb option \<Rightarrow> bool" where
  "eb_root_ok key t \<longleftrightarrow> (case t of None \<Rightarrow> True | Some t \<Rightarrow> eb_inv key t)"

lemma distinct_insert_sorted: "distinct xs \<Longrightarrow> new \<notin> set xs \<Longrightarrow> distinct (insert_sorted key new xs)"
proof (induction xs)
  case (Cons x xs)
  have "insert_sorted key new (x # xs) = (if key x \<le> key new then x # insert_sorted key new xs else new # x # xs)"
    by (simp add: insert_sorted_def)
  then show ?case using Cons by auto
qed (simp add: insert_sorted_def)

lemma nodes_dup_at_leaf:
  "new \<notin> set (nodes t) \<Longrightarrow> distinct (nodes t) \<Longrightarrow>
    distinct (nodes (dup_at_leaf new t)) \<and> set (nodes (dup_at_leaf new t)) = insert new (set (nodes t))"
  by (induction t) auto

lemma nodes_dup_above:
  "new \<notin> set (nodes t) \<Longrightarrow> distinct (nodes t) \<Longrightarrow>
    distinct (nodes (dup_above new t)) \<and> set (nodes (dup_above new t)) \<subseteq> insert new (set (nodes t))"
  by (induction t) auto

lemma nodes_insert_below:
  "new \<notin> set (nodes t) \<Longrightarrow> distinct (nodes t) \<Longrightarrow>
    distinct (nodes (fst (eb32_insert_below key unique new t)))
    \<and> set (nodes (fst (eb32_insert_below key unique new t))) \<subseteq> insert new (set (nodes t))"
proof (induction t)
  case (Leaf old)
  then show ?case by (simp add: insert_here_def Let_def)
next
  case (Node i b l r)
  let ?t = "Node i b l r"
  show ?case
  proof (cases "b < 0 \<or> drop_bit (nat b) (key new XOR key i) \<ge> 2")
    case True
    have "distinct (nodes (eb_insert_dup ?t new)) \<and> set (nodes (eb_insert_dup ?t new)) \<subseteq> insert new (set (nodes ?t))"
      unfolding eb_insert_dup_def using nodes_dup_at_leaf [OF Node.prems] nodes_dup_above [OF Node.prems] by auto
    moreover have "distinct (nodes (insert_here key new i ?t)) \<and> set (nodes (insert_here key new i ?t)) \<subseteq> insert new (set (nodes ?t))"
      using Node.prems by (auto simp: insert_here_def Let_def)
    ultimately show ?thesis using True Node.prems by (auto simp del: nodes.simps)
  next
    case False
    then have "\<not> b < 0" "\<not> drop_bit (nat b) (key new XOR key i) \<ge> 2" by blast+
    then show ?thesis using Node by (auto simp: split_def Let_def)
  qed
qed

lemma insert_keeps_inv:
  assumes "eb_root_ok key t" "new \<notin> set (eb_contents t)" "\<not> unique \<or> (\<forall>x \<in> set (eb_contents t). key x \<noteq> key new)"
  shows "eb_root_ok key (fst (eb32_insert key unique new t))"
    "eb_contents (fst (eb32_insert key unique new t)) = insert_sorted key new (eb_contents t)"
    "snd (eb32_insert key unique new t) = new"
proof -
  have "eb_root_ok key (fst (eb32_insert key unique new t)) \<and>
    eb_contents (fst (eb32_insert key unique new t)) = insert_sorted key new (eb_contents t) \<and> snd (eb32_insert key unique new t) = new"
  proof (cases t)
    case None
    then show ?thesis by (simp add: eb32_insert_def eb_root_ok_def eb_inv_def eb_contents_def insert_sorted_def)
  next
    case (Some u)
    then have inv: "eb_ok key u" "distinct (leaves u)" "distinct (nodes u)" "new \<notin> set (leaves u)" "new \<notin> set (nodes u)"
      using assms(1,2) nodes_leaves [of key u] by (auto simp: eb_root_ok_def eb_inv_def eb_contents_def)
    have "\<not> unique \<or> (\<forall>x \<in> set (leaves u). key x \<noteq> key new)" using assms(3) Some by (simp add: eb_contents_def)
    note ok = insert_below_ok [OF inv(1) this]
    have "distinct (insert_sorted key new (leaves u))" using inv(2,4) by (rule distinct_insert_sorted)
    then show ?thesis using ok nodes_insert_below [OF inv(5,3), of key unique] Some
      by (simp add: eb32_insert_def eb_root_ok_def eb_inv_def eb_contents_def map_prod_def split_def)
  qed
  then show "eb_root_ok key (fst (eb32_insert key unique new t))"
    "eb_contents (fst (eb32_insert key unique new t)) = insert_sorted key new (eb_contents t)"
    "snd (eb32_insert key unique new t) = new" by blast+
qed

lemma nodes_rename: "nodes (eb_rename x p t) = map (\<lambda>i. if i = x then p else i) (nodes t)"
  by (induction t) simp_all

lemma distinct_rename: "p \<notin> set (nodes t) \<Longrightarrow> distinct (nodes t) \<Longrightarrow> distinct (nodes (eb_rename x p t))"
  by (auto simp: nodes_rename distinct_map inj_on_def)

lemma delete_keeps_inv:
  assumes "eb_root_ok key t"
  shows "eb_root_ok key (eb_delete x t)" "eb_contents (eb_delete x t) = remove1 x (eb_contents t)"
proof -
  have "eb_root_ok key (eb_delete x t) \<and> eb_contents (eb_delete x t) = remove1 x (eb_contents t)"
  proof (cases t)
    case None
    then show ?thesis by (simp add: eb_delete_def eb_root_ok_def eb_contents_def)
  next
    case (Some u)
    then have inv: "eb_inv key u" using assms by (simp add: eb_root_ok_def)
    consider "x \<notin> set (leaves u)" | "u = Leaf x" | "x \<in> set (leaves u)" "u \<noteq> Leaf x" by blast
    then show ?thesis
    proof cases
      case 1
      then show ?thesis using Some assms by (simp add: eb_delete_def eb_contents_def remove1_idem)
    next
      case 2
      then show ?thesis using Some by (simp add: eb_delete_def eb_contents_def eb_root_ok_def)
    next
      case 3
      then obtain t' p where u: "eb_unlink x u = (Some t', Some p)" "unlinked key x u t' p" using unlink_ok [OF inv] by blast
      have p: "p \<notin> set (nodes t')" "distinct (nodes t')" "eb_ok key (eb_rename x p t')" "leaves t' = remove1 x (leaves u)"
        using u(2) by (auto simp: unlinked_def)
      have "distinct (leaves t')" using inv p(4) by (simp add: eb_inv_def)
      then show ?thesis using 3 Some u(1) p distinct_rename [OF p(1,2), of x]
        by (simp add: eb_delete_def eb_contents_def eb_root_ok_def eb_inv_def)
    qed
  qed
  then show "eb_root_ok key (eb_delete x t)" "eb_contents (eb_delete x t) = remove1 x (eb_contents t)" by blast+
qed

lemma first_contents: "eb_first t = (case eb_contents t of [] \<Rightarrow> None | x # _ \<Rightarrow> Some x)"
proof (cases t)
  case (Some u)
  then show ?thesis by (cases "leaves u") (simp_all add: eb_first_def eb_contents_def walk_left_hd)
qed (simp add: eb_first_def eb_contents_def)

lemma last_contents: "eb_last t = (if eb_contents t = [] then None else Some (last (eb_contents t)))"
  by (cases t) (simp_all add: eb_last_def eb_contents_def walk_right_last)

lemma next_contents:
  assumes "eb_root_ok key t" "eb_contents t = xs @ x # ys"
  shows "eb_next x t = (case ys of [] \<Rightarrow> None | y # _ \<Rightarrow> Some y)"
  using assms next_below [of "the t" xs x ys None]
  by (cases t) (simp_all add: eb_next_def eb_contents_def eb_root_ok_def eb_inv_def)

lemma prev_contents:
  assumes "eb_root_ok key t" "eb_contents t = xs @ x # ys"
  shows "eb_prev x t = (if xs = [] then None else Some (last xs))"
  using assms prev_below [of "the t" xs x ys None]
  by (cases t) (simp_all add: eb_prev_def eb_contents_def eb_root_ok_def eb_inv_def)

lemma contents_sorted: "eb_root_ok key t \<Longrightarrow> sorted (map key (eb_contents t)) \<and> distinct (eb_contents t)"
  by (cases t) (auto simp: eb_root_ok_def eb_inv_def eb_contents_def eb_ok_sorted)

lemma lookup_contents: "eb_root_ok key t \<Longrightarrow> eb32_lookup key t x = find (\<lambda>i. key i = x) (eb_contents t)"
  by (cases t) (simp_all add: eb32_lookup_def eb_root_ok_def eb_inv_def eb_contents_def lookup_below)

lemma ge_contents: "eb_root_ok key t \<Longrightarrow> eb32_lookup_ge key t x = find (\<lambda>i. x \<le> key i) (eb_contents t)"
  by (cases t) (simp_all add: eb32_lookup_ge_def eb_root_ok_def eb_inv_def eb_contents_def ge_below)

lemma le_contents: "eb_root_ok key t \<Longrightarrow> eb32_lookup_le key t x = find (\<lambda>i. key i \<le> x) (rev (eb_contents t))"
  by (cases t) (simp_all add: eb32_lookup_le_def eb_root_ok_def eb_inv_def eb_contents_def le_below)

text \<open>Keys of elements that are not in the tree do not matter.\<close>

lemma eb_ok_cong: "\<forall>x \<in> set (leaves t). key x = key' x \<Longrightarrow> eb_ok key t \<Longrightarrow> eb_ok key' t"
proof (induction t)
  case (Node i b l r)
  have i: "i \<in> set (leaves l @ leaves r)" using Node.prems(2) by (auto split: if_splits)
  then have ki: "key i = key' i" using Node.prems(1) by simp
  have f: "find (\<lambda>x. key x = key i) (leaves l @ leaves r) = find (\<lambda>x. key' x = key' i) (leaves l @ leaves r)"
    using Node.prems(1) ki by (intro find_cong) auto
  show ?case
  proof (cases "b < 0")
    case True
    then show ?thesis using Node ki by auto
  next
    case False
    then show ?thesis using Node ki f i by simp
  qed
qed simp

lemma root_ok_cong: "eb_root_ok key t \<Longrightarrow> \<forall>x \<in> set (eb_contents t). key x = key' x \<Longrightarrow> eb_root_ok key' t"
  using eb_ok_cong by (cases t) (auto simp: eb_root_ok_def eb_inv_def eb_contents_def)

subsection \<open>The contract\<close>

text \<open>
  What the users of a tree rely on: it holds a list of elements in the order of their keys, equal keys
  in the order of their insertion; the operations act on this list.
\<close>

locale key_order =
  fixes valid :: "(nat \<Rightarrow> u32) \<Rightarrow> 't \<Rightarrow> bool" and contents :: "'t \<Rightarrow> nat list"
    and put :: "(nat \<Rightarrow> u32) \<Rightarrow> nat \<Rightarrow> 't \<Rightarrow> 't" and remove :: "nat \<Rightarrow> 't \<Rightarrow> 't"
    and least :: "'t \<Rightarrow> nat option"
  assumes put_valid: "valid key t \<Longrightarrow> x \<notin> set (contents t) \<Longrightarrow> valid key (put key x t)"
    and put_contents: "valid key t \<Longrightarrow> x \<notin> set (contents t) \<Longrightarrow> contents (put key x t) = insert_sorted key x (contents t)"
    and remove_valid: "valid key t \<Longrightarrow> valid key (remove x t)"
    and remove_contents: "valid key t \<Longrightarrow> contents (remove x t) = remove1 x (contents t)"
    and least_contents: "least t = (case contents t of [] \<Rightarrow> None | x # _ \<Rightarrow> Some x)"
    and in_order: "valid key t \<Longrightarrow> sorted (map key (contents t)) \<and> distinct (contents t)"
    and valid_cong: "valid key t \<Longrightarrow> \<forall>x \<in> set (contents t). key x = key' x \<Longrightarrow> valid key' t"
begin

lemma least_minimal: "valid key t \<Longrightarrow> least t = Some x \<Longrightarrow> x \<in> set (contents t) \<and> (\<forall>y \<in> set (contents t). key x \<le> key y)"
  using in_order [of key t] by (auto simp: least_contents split: list.splits)

text \<open>Moving an element to its new key.\<close>

definition requeue :: "(nat \<Rightarrow> u32) \<Rightarrow> nat \<Rightarrow> 't \<Rightarrow> 't" where
  "requeue key x t = put key x (remove x t)"

lemma requeue_contents:
  assumes "valid key t" "\<forall>y. y \<noteq> x \<longrightarrow> key' y = key y"
  shows "valid key' (requeue key' x t)" "contents (requeue key' x t) = insert_sorted key' x (remove1 x (contents t))"
    "set (contents (requeue key' x t)) = insert x (set (contents t))"
proof -
  let ?t = "remove x t"
  have d: "distinct (contents t)" using in_order [OF assms(1)] by simp
  have c: "contents ?t = remove1 x (contents t)" and x: "x \<notin> set (contents ?t)"
    using remove_contents [OF assms(1)] d by simp_all
  have v: "valid key' ?t" using valid_cong [OF remove_valid [OF assms(1)], of x key'] assms(2) x by metis
  show "valid key' (requeue key' x t)" unfolding requeue_def by (rule put_valid [OF v x])
  show e: "contents (requeue key' x t) = insert_sorted key' x (remove1 x (contents t))"
    unfolding requeue_def put_contents [OF v x] c ..
  show "set (contents (requeue key' x t)) = insert x (set (contents t))" unfolding e using d by auto
qed

end

definition eb32_put :: "(nat \<Rightarrow> u32) \<Rightarrow> nat \<Rightarrow> eb option \<Rightarrow> eb option" where
  "eb32_put key x t = fst (eb32_insert key False x t)"

interpretation eb32: key_order eb_root_ok eb_contents eb32_put eb_delete eb_first
proof unfold_locales
  fix key key' :: "nat \<Rightarrow> u32" and t :: "eb option" and x
  assume ok: "eb_root_ok key t"
  show "eb_root_ok key (eb_delete x t)" "eb_contents (eb_delete x t) = remove1 x (eb_contents t)"
    using delete_keeps_inv [OF ok] .
  show "sorted (map key (eb_contents t)) \<and> distinct (eb_contents t)" using contents_sorted [OF ok] .
  show "eb_root_ok key (eb32_put key x t)" "eb_contents (eb32_put key x t) = insert_sorted key x (eb_contents t)"
    if "x \<notin> set (eb_contents t)"
    using insert_keeps_inv [OF ok that, of False] by (simp_all add: eb32_put_def)
  show "eb_root_ok key' t" if "\<forall>x \<in> set (eb_contents t). key x = key' x" using root_ok_cong [OF ok that] .
qed (rule first_contents)

subsection \<open>Sequences of operations\<close>

datatype eb_op = Insert nat | Delete nat

fun eb_run :: "(nat \<Rightarrow> u32) \<Rightarrow> eb_op list \<Rightarrow> eb option \<Rightarrow> eb option" where
  "eb_run key [] t = t"
| "eb_run key (Insert x # ops) t = eb_run key ops (fst (eb32_insert key False x t))"
| "eb_run key (Delete x # ops) t = eb_run key ops (eb_delete x t)"

text \<open>The same operations on a sorted list; an element is inserted only while it is not in the list.\<close>

fun list_run :: "(nat \<Rightarrow> u32) \<Rightarrow> eb_op list \<Rightarrow> nat list \<Rightarrow> nat list option" where
  "list_run key [] xs = Some xs"
| "list_run key (Insert x # ops) xs = (if x \<in> set xs then None else list_run key ops (insert_sorted key x xs))"
| "list_run key (Delete x # ops) xs = list_run key ops (remove1 x xs)"

lemma eb_run_list:
  "eb_root_ok key t \<Longrightarrow> list_run key ops (eb_contents t) = Some xs \<Longrightarrow>
    eb_root_ok key (eb_run key ops t) \<and> eb_contents (eb_run key ops t) = xs"
proof (induction key ops t rule: eb_run.induct)
  case (2 key x ops t)
  then have x: "x \<notin> set (eb_contents t)" by (auto split: if_splits)
  then show ?case using 2 insert_keeps_inv [OF 2(2) x, of False] by simp
next
  case (3 key x ops t)
  then show ?case using delete_keeps_inv [OF 3(2), of x] by simp
qed simp

text \<open>C4: elastic trees.  Any sequence of insertions, of elements not in the tree, and deletions gives the
  tree whose elements are, in order, those of a list kept sorted by key, equal keys in the order of
  insertion: the bits, the trees of duplicates and the node parts that deletions hand over never
  change this.\<close>

theorem eb32_refines_sorted_list:
  assumes "list_run key ops [] = Some xs"
  shows "eb_contents (eb_run key ops None) = xs \<and> sorted (map key xs)
    \<and> eb_first (eb_run key ops None) = (if xs = [] then None else Some (hd xs))"
proof -
  have "eb_root_ok key (eb_run key ops None) \<and> eb_contents (eb_run key ops None) = xs"
    using eb_run_list [of key None ops xs] assms by (simp add: eb_root_ok_def eb_contents_def)
  then show ?thesis using contents_sorted [of key "eb_run key ops None"] by (cases xs) (auto simp: first_contents)
qed

theorem eb32_refines_sorted_list_witness:
  "let key = (\<lambda>x. if x = 1 then 40 else if x = 2 then 7 else 40 :: u32);
      ops = [Insert 1, Insert 2, Insert 3, Insert 4, Delete 1]
   in eb_contents (eb_run key ops None) = [2, 3, 4] \<and> sorted (map key [2, 3, 4])
    \<and> eb_first (eb_run key ops None) = (if [2, 3, 4 :: nat] = [] then None else Some (hd [2, 3, 4]))"
  unfolding Let_def by (rule eb32_refines_sorted_list) (simp add: insert_sorted_def)

text \<open>C5: lookups.  On every tree that the operations build, a lookup finds the first element with the key,
  the lookups by bound the first element not below and the last one not above it, and the walks give
  the neighbours in this order.\<close>

theorem eb32_lookups:
  assumes "list_run key ops [] = Some xs"
  shows "eb32_lookup key (eb_run key ops None) x = find (\<lambda>i. key i = x) xs
    \<and> eb32_lookup_ge key (eb_run key ops None) x = find (\<lambda>i. x \<le> key i) xs
    \<and> eb32_lookup_le key (eb_run key ops None) x = find (\<lambda>i. key i \<le> x) (rev xs)
    \<and> (\<forall>as y z bs. xs = as @ y # z # bs \<longrightarrow>
         eb_next y (eb_run key ops None) = Some z \<and> eb_prev z (eb_run key ops None) = Some y)"
proof -
  have ok: "eb_root_ok key (eb_run key ops None)" and c: "eb_contents (eb_run key ops None) = xs"
    using eb_run_list [of key None ops xs] assms by (simp_all add: eb_root_ok_def eb_contents_def)
  have "eb_next y (eb_run key ops None) = Some z \<and> eb_prev z (eb_run key ops None) = Some y"
    if "xs = as @ y # z # bs" for as y z bs
    using next_contents [OF ok, of as y "z # bs"] prev_contents [OF ok, of "as @ [y]" z bs] that c by simp
  then show ?thesis using lookup_contents [OF ok] ge_contents [OF ok] le_contents [OF ok] c by auto
qed

theorem eb32_lookups_witness:
  "let key = (\<lambda>x. if x = 1 then 40 else if x = 2 then 7 else 40 :: u32);
      ops = [Insert 1, Insert 2, Insert 3]; t = eb_run key ops None; xs = [2, 1, 3]
   in eb32_lookup key t 40 = find (\<lambda>i. key i = 40) xs
    \<and> eb32_lookup_ge key t 40 = find (\<lambda>i. 40 \<le> key i) xs
    \<and> eb32_lookup_le key t 40 = find (\<lambda>i. key i \<le> 40) (rev xs)
    \<and> (\<forall>as y z bs. xs = as @ y # z # bs \<longrightarrow> eb_next y t = Some z \<and> eb_prev z t = Some y)"
  unfolding Let_def by (rule eb32_lookups) (simp add: insert_sorted_def)

end
