(* ===== verification/HA_Task.thy ===== *)
theory HA_Task
  imports HA_Time HA_Ebtree_Order
begin

section \<open>Tasks: wait queue and run queue (src/task.c, include/proto/task.h)\<close>

text \<open>
  Tasks wait in an elastic tree sorted by date until they expire, and in another one, sorted by an
  insertion counter moved by their niceness, until they are run.  A task is a number; \<open>task_of\<close> gives its
  structure.  Dates and counters wrap.  A timer stays at an old place as long as this is not later
  than its date, and is moved when the scan meets it.  \<open>last_timer\<close> points to a task whose node part
  is the top of a tree of duplicates, where a timer with the same date is linked without a descent.
\<close>

subsection \<open>State\<close>

record task =
  rq_key :: u32
  tstate :: u16
  nice :: int
  calls :: u32
  wq_key :: u32
  expire :: u32

record sched =
  task_of :: "nat \<Rightarrow> task"
  timers :: "eb option"
  rqueue :: "eb option"
  rqueue_ticks :: u32
  run_queue :: u32
  niced_tasks :: u32
  nb_tasks :: u32
  run_queue_cur :: u32
  nb_tasks_cur :: u32
  last_timer :: "nat option"
  wq_bit :: "nat \<Rightarrow> int"

abbreviation TASK_SLEEPING :: u16 where "TASK_SLEEPING \<equiv> 0"
abbreviation TASK_RUNNING :: u16 where "TASK_RUNNING \<equiv> 1"
abbreviation TASK_WOKEN_TIMER :: u16 where "TASK_WOKEN_TIMER \<equiv> 4"
abbreviation TASK_WOKEN_ANY :: u16 where "TASK_WOKEN_ANY \<equiv> 0xFE"
abbreviation TIMER_LOOK_BACK :: u32 where "TIMER_LOOK_BACK \<equiv> 0x80000000"
abbreviation TICK_ETERNITY :: u32 where "TICK_ETERNITY \<equiv> 0"

definition wq_keys :: "sched \<Rightarrow> nat \<Rightarrow> u32" where
  "wq_keys s t = wq_key (task_of s t)"

definition rq_keys :: "sched \<Rightarrow> nat \<Rightarrow> u32" where
  "rq_keys s t = rq_key (task_of s t)"

definition upd_task :: "nat \<Rightarrow> (task \<Rightarrow> task) \<Rightarrow> sched \<Rightarrow> sched" where
  "upd_task t f s = s\<lparr>task_of := (task_of s)(t := f (task_of s t))\<rparr>"

text \<open>The bit stored in the node part of an element, when this part is in use (\<open>node_p\<close> not null).\<close>

fun node_bit :: "nat \<Rightarrow> eb \<Rightarrow> int option" where
  "node_bit x (Leaf i) = None"
| "node_bit x (Node i b l r) =
    (if i = x then Some b else case node_bit x l of Some c \<Rightarrow> Some c | None \<Rightarrow> node_bit x r)"

definition root_bit :: "nat \<Rightarrow> eb option \<Rightarrow> int option" where
  "root_bit x tr = Option.bind tr (node_bit x)"

text \<open>A node part that is released keeps its last bit.\<close>

definition set_timers :: "eb option \<Rightarrow> sched \<Rightarrow> sched" where
  "set_timers tr s =
    s\<lparr>timers := tr, wq_bit := (\<lambda>x. case root_bit x tr of Some b \<Rightarrow> b | None \<Rightarrow> wq_bit s x)\<rparr>"

definition task_in_rq :: "nat \<Rightarrow> sched \<Rightarrow> bool" where
  "task_in_rq t s \<longleftrightarrow> t \<in> set (eb_contents (rqueue s))"

definition task_in_wq :: "nat \<Rightarrow> sched \<Rightarrow> bool" where
  "task_in_wq t s \<longleftrightarrow> t \<in> set (eb_contents (timers s))"

subsection \<open>Run queue\<close>

definition nice_offset :: "u32 \<Rightarrow> int \<Rightarrow> u32" where
  "nice_offset len n =
    (if n > 0 then len * word_of_int n div 32 else - (len * word_of_int (- n) div 32))"

definition rq_stamp :: "nat \<Rightarrow> sched \<Rightarrow> sched" where
  "rq_stamp t s =
    (let s = s\<lparr>run_queue := run_queue s + 1, rqueue_ticks := rqueue_ticks s + 1\<rparr>;
         n = nice (task_of s t);
         key = rqueue_ticks s + (if n \<noteq> 0 then nice_offset (run_queue s) n else 0);
         s = (if n \<noteq> 0 then s\<lparr>niced_tasks := niced_tasks s + 1\<rparr> else s)
     in upd_task t (\<lambda>k. k\<lparr>rq_key := key, tstate := tstate k AND NOT TASK_WOKEN_ANY\<rparr>) s)"

definition do_task_wakeup :: "nat \<Rightarrow> sched \<Rightarrow> sched" where
  "do_task_wakeup t s = (let s = rq_stamp t s in s\<lparr>rqueue := eb32_put (rq_keys s) t (rqueue s)\<rparr>)"

definition task_wakeup :: "nat \<Rightarrow> u16 \<Rightarrow> sched \<Rightarrow> sched" where
  "task_wakeup t f s =
    upd_task t (\<lambda>k. k\<lparr>tstate := tstate k OR f\<rparr>) (if task_in_rq t s then s else do_task_wakeup t s)"

definition do_task_unlink_rq :: "nat \<Rightarrow> sched \<Rightarrow> sched" where
  "do_task_unlink_rq t s =
    s\<lparr>rqueue := eb_delete t (rqueue s), run_queue := run_queue s - 1,
      niced_tasks := (if nice (task_of s t) \<noteq> 0 then niced_tasks s - 1 else niced_tasks s)\<rparr>"

definition task_unlink_rq :: "nat \<Rightarrow> sched \<Rightarrow> sched" where
  "task_unlink_rq t s = (if task_in_rq t s then do_task_unlink_rq t s else s)"

subsection \<open>Wait queue\<close>

definition do_task_unlink_wq :: "nat \<Rightarrow> sched \<Rightarrow> sched" where
  "do_task_unlink_wq t s =
    (let s = set_timers (eb_delete t (timers s)) s
     in if last_timer s = Some t then s\<lparr>last_timer := None\<rparr> else s)"

definition task_unlink_wq :: "nat \<Rightarrow> sched \<Rightarrow> sched" where
  "task_unlink_wq t s = (if task_in_wq t s then do_task_unlink_wq t s else s)"

text \<open>\<open>eb_insert_dup\<close> on the node of element \<open>sub\<close>, somewhere in the tree.\<close>

fun eb_dup_at :: "nat \<Rightarrow> nat \<Rightarrow> eb \<Rightarrow> eb" where
  "eb_dup_at sub new (Leaf i) = Leaf i"
| "eb_dup_at sub new (Node i b l r) =
    (if i = sub then eb_insert_dup (Node i b l r) new
     else Node i b (eb_dup_at sub new l) (eb_dup_at sub new r))"

definition can_dup :: "nat \<Rightarrow> nat \<Rightarrow> sched \<Rightarrow> bool" where
  "can_dup l t s \<longleftrightarrow> wq_bit s l < 0 \<and> wq_keys s l = wq_keys s t \<and> root_bit l (timers s) \<noteq> None"

definition queue_dup :: "nat \<Rightarrow> nat \<Rightarrow> sched \<Rightarrow> sched" where
  "queue_dup l t s =
    (let s = set_timers (map_option (eb_dup_at l t) (timers s)) s
     in if wq_bit s t < wq_bit s l then s\<lparr>last_timer := Some t\<rparr> else s)"

definition queue_insert :: "nat \<Rightarrow> sched \<Rightarrow> sched" where
  "queue_insert t s =
    (let s = set_timers (eb32_put (wq_keys s) t (timers s)) s
     in if root_bit t (timers s) \<noteq> None \<and>
           (case last_timer s of None \<Rightarrow> True | Some l \<Rightarrow> wq_bit s t < wq_bit s l)
        then s\<lparr>last_timer := Some t\<rparr> else s)"

definition do_task_queue :: "nat \<Rightarrow> sched \<Rightarrow> sched" where
  "do_task_queue t s =
    (let s = (if task_in_wq t s then do_task_unlink_wq t s else s);
         s = upd_task t (\<lambda>k. k\<lparr>wq_key := expire k\<rparr>) s
     in case last_timer s of
          None \<Rightarrow> queue_insert t s
        | Some l \<Rightarrow> if can_dup l t s then queue_dup l t s else queue_insert t s)"

definition task_queue :: "nat \<Rightarrow> sched \<Rightarrow> sched" where
  "task_queue t s =
    (let k = task_of s t
     in if \<not> tick_isset (expire k) then s
        else if \<not> task_in_wq t s \<or> tick_is_lt (expire k) (wq_key k) then do_task_queue t s else s)"

definition task_schedule :: "nat \<Rightarrow> u32 \<Rightarrow> sched \<Rightarrow> sched" where
  "task_schedule t when s =
    (if task_in_rq t s then s
     else let when = (if task_in_wq t s then tick_first when (expire (task_of s t)) else when);
              s = upd_task t (\<lambda>k. k\<lparr>expire := when\<rparr>) s
          in if \<not> task_in_wq t s \<or> tick_is_lt (expire (task_of s t)) (wq_keys s t) then do_task_queue t s else s)"

definition task_delete :: "nat \<Rightarrow> sched \<Rightarrow> sched" where
  "task_delete t s = task_unlink_rq t (task_unlink_wq t s)"

definition task_init :: "nat \<Rightarrow> sched \<Rightarrow> sched" where
  "task_init t = upd_task t (\<lambda>k. k\<lparr>tstate := TASK_SLEEPING, nice := 0, calls := 0\<rparr>)"

definition task_new :: "nat \<Rightarrow> sched \<Rightarrow> sched" where
  "task_new t s = task_init t (s\<lparr>nb_tasks := nb_tasks s + 1\<rparr>)"

definition task_free :: "sched \<Rightarrow> sched" where
  "task_free s = s\<lparr>nb_tasks := nb_tasks s - 1\<rparr>"

subsection \<open>Waking up expired tasks\<close>

text \<open>The result is the new state and the date of the next event; \<open>n\<close> bounds the iterations.\<close>

fun wake_loop :: "nat \<Rightarrow> u32 \<Rightarrow> nat option \<Rightarrow> sched \<Rightarrow> (sched \<times> u32) option" where
  "wake_loop 0 now eb s = None"
| "wake_loop (Suc n) now eb s =
    (case (case eb of None \<Rightarrow> eb_first (timers s) | Some e \<Rightarrow> Some e) of
       None \<Rightarrow> Some (s, TICK_ETERNITY)
     | Some e \<Rightarrow>
         if tick_is_lt now (wq_keys s e) then Some (s, wq_keys s e)
         else let eb = eb_next e (timers s);
                  s = do_task_unlink_wq e s;
                  date = expire (task_of s e)
              in if \<not> tick_is_expired date now then
                   if \<not> tick_isset date then wake_loop n now eb s
                   else let s = do_task_queue e s
                        in wake_loop n now
                             (case eb of None \<Rightarrow> Some e | Some x \<Rightarrow> if wq_keys s x > wq_keys s e then Some e else Some x) s
                 else wake_loop n now eb (task_wakeup e TASK_WOKEN_TIMER s))"

definition wake_expired_tasks :: "u32 \<Rightarrow> sched \<Rightarrow> (sched \<times> u32) option" where
  "wake_expired_tasks now s =
    wake_loop (Suc (length (eb_contents (timers s)))) now
      (eb32_lookup_ge (wq_keys s) (timers s) (now - TIMER_LOOK_BACK)) s"

subsection \<open>Running tasks\<close>

text \<open>\<open>h t\<close> is the function \<open>process\<close> of task \<open>t\<close>: it gives the new state, and whether the task is still alive.\<close>

type_synonym handler = "nat \<Rightarrow> sched \<Rightarrow> sched \<times> bool"

definition after_run :: "nat \<Rightarrow> u32 \<Rightarrow> sched \<Rightarrow> sched \<times> u32" where
  "after_run t date s =
    (let s = upd_task t (\<lambda>k. k\<lparr>tstate := tstate k AND NOT TASK_RUNNING\<rparr>) s
     in if expire (task_of s t) \<noteq> 0
        then (task_queue t s, tick_first_2nz date (expire (task_of s t))) else (s, date))"

fun run_loop :: "handler \<Rightarrow> nat \<Rightarrow> nat option \<Rightarrow> u32 \<Rightarrow> sched \<Rightarrow> sched \<times> u32" where
  "run_loop h 0 eb date s = (s, date)"
| "run_loop h (Suc n) eb date s =
    (case (case eb of None \<Rightarrow> eb_first (rqueue s) | Some e \<Rightarrow> Some e) of
       None \<Rightarrow> (s, date)
     | Some t \<Rightarrow>
         let eb = eb_next t (rqueue s);
             s = do_task_unlink_rq t s;
             s = upd_task t (\<lambda>k. k\<lparr>tstate := tstate k OR TASK_RUNNING, calls := calls k + 1\<rparr>) s;
             (s, alive) = h t s
         in if alive then
              let (s, date) = after_run t date s;
                  eb = (if task_in_rq t s \<and> (case eb of None \<Rightarrow> True | Some x \<Rightarrow> tick_is_lt (rq_keys s t) (rq_keys s x))
                        then eb32_lookup_ge (rq_keys s) (rqueue s) (rqueue_ticks s - TIMER_LOOK_BACK) else eb)
              in run_loop h n eb date s
            else run_loop h n eb date s)"

definition max_processed :: "sched \<Rightarrow> u32" where
  "max_processed s =
    (let m = (if run_queue s > 200 then 200 else run_queue s)
     in if niced_tasks s \<noteq> 0 then (m + 3) div 4 else m)"

definition process_runnable_tasks :: "handler \<Rightarrow> u32 \<Rightarrow> sched \<Rightarrow> sched \<times> u32" where
  "process_runnable_tasks h next s =
    (let s = s\<lparr>run_queue_cur := run_queue s, nb_tasks_cur := nb_tasks s\<rparr>
     in if run_queue s = 0 then (s, next)
        else run_loop h (unat (max_processed s))
               (eb32_lookup_ge (rq_keys s) (rqueue s) (rqueue_ticks s - TIMER_LOOK_BACK)) next s)"

end
