(* ===== verification/HA_Task_Proofs.thy ===== *)
theory HA_Task_Proofs
  imports HA_Task
begin

section \<open>Tasks: the queues and the dates (src/task.c)\<close>

text \<open>
  The invariant of the scheduler, kept by every operation: both trees are valid, the counters are
  the sizes of the run queue, \<open>last_timer\<close> points into the wait queue.  Then what the scan of
  expired timers does, for every date and where no date wraps.
\<close>

subsection \<open>Linking a duplicate directly\<close>

definition dup_after :: "(nat \<Rightarrow> u32) \<Rightarrow> nat \<Rightarrow> nat list \<Rightarrow> nat list \<Rightarrow> bool" where
  "dup_after key new xs ys \<longleftrightarrow> (\<exists>as e bs. xs = as @ e # bs \<and> ys = as @ e # new # bs \<and> key e = key new)"

lemma dup_after_last: "xs \<noteq> [] \<Longrightarrow> key (last xs) = key new \<Longrightarrow> dup_after key new xs (xs @ [new])"
  unfolding dup_after_def by (rule exI [of _ "butlast xs"], rule exI [of _ "last xs"], rule exI [of _ "[]"]) simp

lemma dup_after_append:
  "dup_after key new xs ys \<Longrightarrow> dup_after key new (xs @ zs) (ys @ zs)"
  "dup_after key new xs ys \<Longrightarrow> dup_after key new (zs @ xs) (zs @ ys)"
proof -
  assume "dup_after key new xs ys"
  then obtain as e bs where e: "xs = as @ e # bs" "ys = as @ e # new # bs" "key e = key new" by (auto simp: dup_after_def)
  then show "dup_after key new (xs @ zs) (ys @ zs)" unfolding dup_after_def
    by (intro exI [of _ as] exI [of _ e] exI [of _ "bs @ zs"]) simp
  show "dup_after key new (zs @ xs) (zs @ ys)" unfolding dup_after_def
    by (intro exI [of _ "zs @ as"] exI [of _ e] exI [of _ bs]) (simp add: e)
qed

lemma dup_after_all: "dup_after key new xs ys \<Longrightarrow> \<forall>x \<in> set xs. Q (key x) \<Longrightarrow> \<forall>x \<in> set ys. Q (key x)"
proof -
  assume "dup_after key new xs ys" and Q: "\<forall>x \<in> set xs. Q (key x)"
  then obtain as e bs where e: "xs = as @ e # bs" "ys = as @ e # new # bs" "key e = key new" by (auto simp: dup_after_def)
  have "Q (key new)" using Q e(1) unfolding e(3) [symmetric] by simp
  then show ?thesis using Q unfolding e(1,2) by simp
qed

lemma dup_after_find: "dup_after key new xs ys \<Longrightarrow> find (\<lambda>x. Q (key x)) ys = find (\<lambda>x. Q (key x)) xs"
  by (auto simp: dup_after_def find_append split: option.split)

lemma dup_after_set: "dup_after key new xs ys \<Longrightarrow> set ys = insert new (set xs) \<and> length ys = Suc (length xs)"
  by (auto simp: dup_after_def)

lemma dup_after_distinct: "dup_after key new xs ys \<Longrightarrow> distinct xs \<Longrightarrow> new \<notin> set xs \<Longrightarrow> distinct ys"
  by (auto simp: dup_after_def)

lemma dup_after_hd: "dup_after key new xs ys \<Longrightarrow> hd ys = hd xs"
  by (auto simp: dup_after_def hd_append)

lemma node_dup_left:
  assumes "eb_ok key (Node i c l r)" "eb_ok key l'" and d: "dup_after key new (leaves l) (leaves l')"
  shows "eb_ok key (Node i c l' r)"
proof (cases "c < 0")
  case True
  then have "\<forall>x \<in> set (leaves l). agree 0 (key i) (key x)" using assms(1) by (auto simp del: walk_in)
  from dup_after_all [OF d this] show ?thesis using True assms(1,2) by auto
next
  case False
  note all = dup_after_all [OF d]
  have "find (\<lambda>x. key x = key i) (leaves l' @ leaves r) = find (\<lambda>x. key x = key i) (leaves l @ leaves r)"
    using dup_after_find [OF dup_after_append(1) [OF d], of "\<lambda>y. y = key i"] .
  moreover have "\<forall>x \<in> set (leaves l'). agree (Suc (nat c)) (key i) (key x)" "\<forall>x \<in> set (leaves l'). \<not> bit (key x) (nat c)"
    using all [of "agree (Suc (nat c)) (key i)"] all [of "\<lambda>y. \<not> bit y (nat c)"] False assms(1) by simp_all
  ultimately show ?thesis using False assms(1,2) dup_after_set [OF d] by auto
qed

lemma node_dup_right:
  assumes "eb_ok key (Node i c l r)" "eb_ok key r'" and d: "dup_after key new (leaves r) (leaves r')"
  shows "eb_ok key (Node i c l r')"
proof (cases "c < 0")
  case True
  then have "\<forall>x \<in> set (leaves r). agree 0 (key i) (key x)" using assms(1) by (auto simp del: walk_in)
  from dup_after_all [OF d this] show ?thesis
    using True assms(1,2) dup_after_hd [OF d] by (auto simp: walk_left_hd)
next
  case False
  note all = dup_after_all [OF d]
  have "find (\<lambda>x. key x = key i) (leaves l @ leaves r') = find (\<lambda>x. key x = key i) (leaves l @ leaves r)"
    using dup_after_find [OF dup_after_append(2) [OF d], of "\<lambda>y. y = key i"] .
  moreover have "\<forall>x \<in> set (leaves r'). agree (Suc (nat c)) (key i) (key x)" "\<forall>x \<in> set (leaves r'). bit (key x) (nat c)"
    using all [of "agree (Suc (nat c)) (key i)"] all [of "\<lambda>y. bit y (nat c)"] False assms(1) by simp_all
  ultimately show ?thesis using False assms(1,2) dup_after_set [OF d] by auto
qed

lemma node_bit_nodes: "node_bit x t = None \<longleftrightarrow> x \<notin> set (nodes t)"
  by (induction t) (auto split: option.splits)

lemma dup_at_id: "sub \<notin> set (nodes t) \<Longrightarrow> eb_dup_at sub new t = t"
  by (induction t) simp_all

lemma dup_at_ok:
  assumes "eb_ok key t" "node_bit sub t = Some b" "b < 0" "key new = key sub" "distinct (nodes t)"
  shows "eb_ok key (eb_dup_at sub new t) \<and> dup_after key new (leaves t) (leaves (eb_dup_at sub new t))"
  using assms
proof (induction t)
  case (Node i c l r)
  let ?t = "Node i c l r"
  consider "i = sub" | "i \<noteq> sub" "node_bit sub l = Some b" | "i \<noteq> sub" "node_bit sub l = None" "node_bit sub r = Some b"
    using Node.prems(2) by (auto split: if_splits option.splits)
  then show ?case
  proof cases
    case 1
    then have c: "c < 0" "key new = key i" using Node.prems by simp_all
    have "last (leaves ?t) \<in> set (leaves ?t)" by (intro last_in_set) simp
    then have "key (last (leaves ?t)) = key new" using dup_keys [OF Node.prems(1) c(1)] c(2) by simp
    then show ?thesis using 1 eb_insert_dup_ok [OF Node.prems(1) c] dup_after_last [of "leaves ?t" key new] by simp
  next
    case 2
    then have "sub \<in> set (nodes l)" using node_bit_nodes [of sub l] by auto
    then have r: "eb_dup_at sub new r = r" using Node.prems(5) by (intro dup_at_id) auto
    have "eb_ok key l" "distinct (nodes l)" using Node.prems by simp_all
    note ih = Node.IH(1) [OF this(1) 2(2) Node.prems(3,4) this(2)]
    then have "eb_ok key (Node i c (eb_dup_at sub new l) r)" using node_dup_left [OF Node.prems(1)] by blast
    then show ?thesis using ih dup_after_append(1) 2(1) r by (simp del: eb_ok.simps)
  next
    case 3
    then have "sub \<notin> set (nodes l)" using node_bit_nodes [of sub l] by auto
    then have l: "eb_dup_at sub new l = l" by (rule dup_at_id)
    have "eb_ok key r" "distinct (nodes r)" using Node.prems by simp_all
    note ih = Node.IH(2) [OF this(1) 3(3) Node.prems(3,4) this(2)]
    then have "eb_ok key (Node i c l (eb_dup_at sub new r))" using node_dup_right [OF Node.prems(1)] by blast
    then show ?thesis using ih dup_after_append(2) 3(1) l by (simp del: eb_ok.simps)
  qed
qed simp

lemma nodes_dup_at:
  "new \<notin> set (nodes t) \<Longrightarrow> distinct (nodes t) \<Longrightarrow>
    distinct (nodes (eb_dup_at sub new t)) \<and> set (nodes (eb_dup_at sub new t)) \<subseteq> insert new (set (nodes t))"
proof (induction t)
  case (Node i b l r)
  show ?case
  proof (cases "i = sub")
    case True
    then show ?thesis using nodes_dup_at_leaf [OF Node.prems] nodes_dup_above [OF Node.prems]
      by (auto simp: eb_insert_dup_def simp del: nodes.simps)
  next
    case False
    have "sub \<notin> set (nodes l) \<or> sub \<notin> set (nodes r)" using Node.prems(2) by auto
    then have "eb_dup_at sub new l = l \<or> eb_dup_at sub new r = r" using dup_at_id by blast
    then show ?thesis using Node False by (elim disjE) (simp_all, (blast+))
  qed
qed simp

lemma root_dup_at:
  assumes "eb_root_ok key tr" "root_bit sub tr = Some b" "b < 0" "key new = key sub" "new \<notin> set (eb_contents tr)"
  shows "eb_root_ok key (map_option (eb_dup_at sub new) tr)"
    "dup_after key new (eb_contents tr) (eb_contents (map_option (eb_dup_at sub new) tr))"
proof -
  obtain t where t: "tr = Some t" "node_bit sub t = Some b" using assms(2) by (auto simp: root_bit_def bind_eq_Some_conv)
  have inv: "eb_ok key t" "distinct (leaves t)" "distinct (nodes t)" using assms(1) t(1) by (simp_all add: eb_root_ok_def eb_inv_def)
  have "new \<notin> set (leaves t)" using assms(5) t(1) by (simp add: eb_contents_def)
  then have new: "new \<notin> set (leaves t)" "new \<notin> set (nodes t)" using nodes_leaves [OF inv(1)] by auto
  note d = dup_at_ok [OF inv(1) t(2) assms(3,4) inv(3)]
  then show "eb_root_ok key (map_option (eb_dup_at sub new) tr)"
    using nodes_dup_at [OF new(2) inv(3), of sub] dup_after_distinct [OF conjunct2 [OF d] inv(2) new(1)] t(1)
    by (simp add: eb_root_ok_def eb_inv_def)
  show "dup_after key new (eb_contents tr) (eb_contents (map_option (eb_dup_at sub new) tr))"
    using d t(1) by (simp add: eb_contents_def)
qed

subsection \<open>The invariant\<close>

definition rq_ok :: "sched \<Rightarrow> bool" where
  "rq_ok s \<longleftrightarrow> eb_root_ok (rq_keys s) (rqueue s) \<and> run_queue s = of_nat (length (eb_contents (rqueue s)))
    \<and> niced_tasks s = of_nat (length (filter (\<lambda>t. nice (task_of s t) \<noteq> 0) (eb_contents (rqueue s))))"

definition wq_ok :: "sched \<Rightarrow> bool" where
  "wq_ok s \<longleftrightarrow> eb_root_ok (wq_keys s) (timers s)
    \<and> (\<forall>x b. root_bit x (timers s) = Some b \<longrightarrow> wq_bit s x = b)
    \<and> (\<forall>l. last_timer s = Some l \<longrightarrow> task_in_wq l s)"

lemma upd_task_simps [simp]:
  "timers (upd_task t f s) = timers s" "rqueue (upd_task t f s) = rqueue s" "last_timer (upd_task t f s) = last_timer s"
  "wq_bit (upd_task t f s) = wq_bit s" "run_queue (upd_task t f s) = run_queue s" "niced_tasks (upd_task t f s) = niced_tasks s"
  "rqueue_ticks (upd_task t f s) = rqueue_ticks s" "task_of (upd_task t f s) = (task_of s)(t := f (task_of s t))"
  by (simp_all add: upd_task_def)

lemma set_timers_simps [simp]:
  "timers (set_timers tr s) = tr" "rqueue (set_timers tr s) = rqueue s" "last_timer (set_timers tr s) = last_timer s"
  "run_queue (set_timers tr s) = run_queue s" "niced_tasks (set_timers tr s) = niced_tasks s"
  "rqueue_ticks (set_timers tr s) = rqueue_ticks s" "task_of (set_timers tr s) = task_of s"
  "root_bit x tr = Some b \<Longrightarrow> wq_bit (set_timers tr s) x = b"
  by (simp_all add: set_timers_def)

lemma keys_simps:
  "wq_keys (set_timers tr s) = wq_keys s" "rq_keys (set_timers tr s) = rq_keys s"
  "wq_keys (s\<lparr>last_timer := l\<rparr>) = wq_keys s" "rq_keys (s\<lparr>last_timer := l\<rparr>) = rq_keys s"
  "wq_keys (s\<lparr>rqueue := rq\<rparr>) = wq_keys s" "rq_keys (s\<lparr>rqueue := rq\<rparr>) = rq_keys s"
  "wq_keys (upd_task t f s) = (wq_keys s)(t := wq_key (f (task_of s t)))"
  "rq_keys (upd_task t f s) = (rq_keys s)(t := rq_key (f (task_of s t)))"
  by (auto simp: wq_keys_def rq_keys_def)

lemma rq_ok_cong:
  assumes "rq_ok s" "rqueue s' = rqueue s" "run_queue s' = run_queue s" "niced_tasks s' = niced_tasks s"
    "\<And>t. task_in_rq t s \<Longrightarrow> rq_key (task_of s' t) = rq_key (task_of s t) \<and> nice (task_of s' t) = nice (task_of s t)"
  shows "rq_ok s'"
proof -
  have "eb_root_ok (rq_keys s') (rqueue s)"
  proof (rule eb32.valid_cong)
    show "eb_root_ok (rq_keys s) (rqueue s)" using assms(1) by (simp add: rq_ok_def)
    show "\<forall>x \<in> set (eb_contents (rqueue s)). rq_keys s x = rq_keys s' x"
      using assms(5) by (simp add: rq_keys_def task_in_rq_def)
  qed
  moreover have "filter (\<lambda>t. nice (task_of s' t) \<noteq> 0) (eb_contents (rqueue s)) = filter (\<lambda>t. nice (task_of s t) \<noteq> 0) (eb_contents (rqueue s))"
    by (rule filter_cong [OF refl]) (use assms(5) in \<open>simp add: task_in_rq_def\<close>)
  ultimately show ?thesis using assms(1-4) by (simp add: rq_ok_def)
qed

lemma wq_ok_cong:
  assumes "wq_ok s" "timers s' = timers s" "wq_bit s' = wq_bit s" "last_timer s' = last_timer s"
    "\<And>t. task_in_wq t s \<Longrightarrow> wq_key (task_of s' t) = wq_key (task_of s t)"
  shows "wq_ok s'"
proof -
  have "eb_root_ok (wq_keys s') (timers s)"
  proof (rule eb32.valid_cong)
    show "eb_root_ok (wq_keys s) (timers s)" using assms(1) by (simp add: wq_ok_def)
    show "\<forall>x \<in> set (eb_contents (timers s)). wq_keys s x = wq_keys s' x"
      using assms(5) by (simp add: wq_keys_def task_in_wq_def)
  qed
  then show ?thesis using assms(1-4) by (simp add: wq_ok_def task_in_wq_def)
qed

subsection \<open>Wait queue operations\<close>

lemma unlink_wq_simps [simp]:
  "task_of (do_task_unlink_wq t s) = task_of s" "timers (do_task_unlink_wq t s) = eb_delete t (timers s)"
  "rqueue (do_task_unlink_wq t s) = rqueue s" "run_queue (do_task_unlink_wq t s) = run_queue s"
  "niced_tasks (do_task_unlink_wq t s) = niced_tasks s" "rqueue_ticks (do_task_unlink_wq t s) = rqueue_ticks s"
  "wq_keys (do_task_unlink_wq t s) = wq_keys s" "rq_keys (do_task_unlink_wq t s) = rq_keys s"
  by (simp_all add: do_task_unlink_wq_def Let_def keys_simps)

lemma unlink_wq_ok:
  assumes "wq_ok s"
  shows "wq_ok (do_task_unlink_wq t s)" "eb_contents (timers (do_task_unlink_wq t s)) = remove1 t (eb_contents (timers s))"
proof -
  have ok: "eb_root_ok (wq_keys s) (timers s)" using assms by (simp add: wq_ok_def)
  show c: "eb_contents (timers (do_task_unlink_wq t s)) = remove1 t (eb_contents (timers s))"
    using eb32.remove_contents [OF ok] by simp
  have d: "distinct (eb_contents (timers s))" using contents_sorted [OF ok] by simp
  show "wq_ok (do_task_unlink_wq t s)"
    using assms eb32.remove_valid [OF ok, of t] eb32.remove_contents [OF ok, of t] d
    by (auto simp: wq_ok_def task_in_wq_def do_task_unlink_wq_def Let_def keys_simps split: if_splits)
qed

definition inserted :: "(nat \<Rightarrow> u32) \<Rightarrow> nat \<Rightarrow> nat list \<Rightarrow> nat list \<Rightarrow> bool" where
  "inserted key new xs ys \<longleftrightarrow> ys = insert_sorted key new xs \<or> dup_after key new xs ys"

lemma inserted_set: "inserted key new xs ys \<Longrightarrow> set ys = insert new (set xs)"
  by (auto simp: inserted_def dup_after_set set_insert_sorted)

lemma inserted_hd:
  "inserted key new xs ys \<Longrightarrow> sorted (map key xs) \<Longrightarrow> hd ys = (case xs of [] \<Rightarrow> new | x # _ \<Rightarrow> if key x > key new then new else x)"
  by (cases xs) (fastforce simp: inserted_def insert_sorted_def dup_after_def not_less Cons_eq_append_conv)+

lemma queue_insert_ok:
  assumes "wq_ok s" "\<not> task_in_wq t s"
  shows "wq_ok (queue_insert t s)" "task_of (queue_insert t s) = task_of s"
    "eb_contents (timers (queue_insert t s)) = insert_sorted (wq_keys s) t (eb_contents (timers s))"
    "rqueue (queue_insert t s) = rqueue s" "run_queue (queue_insert t s) = run_queue s"
    "niced_tasks (queue_insert t s) = niced_tasks s" "rqueue_ticks (queue_insert t s) = rqueue_ticks s"
proof -
  have ok: "eb_root_ok (wq_keys s) (timers s)" and n: "t \<notin> set (eb_contents (timers s))"
    using assms by (simp_all add: wq_ok_def task_in_wq_def)
  note p = eb32.put_valid [OF ok n] eb32.put_contents [OF ok n]
  show "wq_ok (queue_insert t s)"
    using assms(1) p by (auto simp: wq_ok_def task_in_wq_def queue_insert_def Let_def keys_simps set_insert_sorted)
  show "eb_contents (timers (queue_insert t s)) = insert_sorted (wq_keys s) t (eb_contents (timers s))"
    using p by (simp add: queue_insert_def Let_def)
qed (simp_all add: queue_insert_def Let_def)

lemma queue_dup_ok:
  assumes "wq_ok s" "\<not> task_in_wq t s" "can_dup l t s"
  shows "wq_ok (queue_dup l t s)" "task_of (queue_dup l t s) = task_of s"
    "dup_after (wq_keys s) t (eb_contents (timers s)) (eb_contents (timers (queue_dup l t s)))"
    "rqueue (queue_dup l t s) = rqueue s" "run_queue (queue_dup l t s) = run_queue s"
    "niced_tasks (queue_dup l t s) = niced_tasks s" "rqueue_ticks (queue_dup l t s) = rqueue_ticks s"
proof -
  have ok: "eb_root_ok (wq_keys s) (timers s)" and n: "t \<notin> set (eb_contents (timers s))"
    using assms by (simp_all add: wq_ok_def task_in_wq_def)
  obtain b where b: "root_bit l (timers s) = Some b" "b < 0" "wq_keys s t = wq_keys s l"
    using assms(1,3) by (auto simp: can_dup_def wq_ok_def)
  note p = root_dup_at [OF ok b n]
  show "wq_ok (queue_dup l t s)"
    using assms(1) p(1) dup_after_set [OF p(2)]
    by (auto simp: wq_ok_def task_in_wq_def queue_dup_def Let_def keys_simps)
  show "dup_after (wq_keys s) t (eb_contents (timers s)) (eb_contents (timers (queue_dup l t s)))"
    using p(2) by (simp add: queue_dup_def Let_def)
qed (simp_all add: queue_dup_def Let_def)

definition sched_ok :: "sched \<Rightarrow> bool" where
  "sched_ok s \<longleftrightarrow> rq_ok s \<and> wq_ok s"

abbreviation wq_list :: "sched \<Rightarrow> nat list" where
  "wq_list s \<equiv> eb_contents (timers s)"

abbreviation rq_list :: "sched \<Rightarrow> nat list" where
  "rq_list s \<equiv> eb_contents (rqueue s)"

definition at_date :: "nat \<Rightarrow> sched \<Rightarrow> sched" where
  "at_date t s = upd_task t (\<lambda>k. k\<lparr>wq_key := expire k\<rparr>) s"

lemma at_date_ok:
  assumes "sched_ok s" "\<not> task_in_wq t s"
  shows "sched_ok (at_date t s)"
  unfolding sched_ok_def
proof
  have ok: "rq_ok s" "wq_ok s" using assms(1) by (simp_all add: sched_ok_def)
  show "rq_ok (at_date t s)" by (rule rq_ok_cong [OF ok(1)]) (simp_all add: at_date_def)
  show "wq_ok (at_date t s)" by (rule wq_ok_cong [OF ok(2)]) (use assms(2) in \<open>auto simp: at_date_def\<close>)
qed

lemma unlink_wq_sched:
  assumes "sched_ok s"
  shows "sched_ok (do_task_unlink_wq t s)" "wq_list (do_task_unlink_wq t s) = remove1 t (wq_list s)"
    "\<not> task_in_wq t (do_task_unlink_wq t s)"
proof -
  have w: "wq_ok s" "rq_ok s" using assms by (simp_all add: sched_ok_def)
  note u = unlink_wq_ok [OF w(1), of t]
  then show "wq_list (do_task_unlink_wq t s) = remove1 t (wq_list s)" by simp
  show "sched_ok (do_task_unlink_wq t s)"
    using u(1) rq_ok_cong [OF w(2), of "do_task_unlink_wq t s"] by (simp add: sched_ok_def)
  have "distinct (wq_list s)" using w(1) contents_sorted [of "wq_keys s" "timers s"] by (simp add: wq_ok_def)
  then show "\<not> task_in_wq t (do_task_unlink_wq t s)" using u(2) by (simp add: task_in_wq_def)
qed

text \<open>Queueing a task: it gets the place of its date, whichever way it is linked.\<close>

lemma task_queue_sched:
  assumes "sched_ok s"
  shows "sched_ok (do_task_queue t s)" "task_of (do_task_queue t s) = task_of (at_date t s)"
    "inserted (wq_keys (at_date t s)) t (remove1 t (wq_list s)) (wq_list (do_task_queue t s))"
    "rqueue (do_task_queue t s) = rqueue s" "rqueue_ticks (do_task_queue t s) = rqueue_ticks s"
proof -
  define u where "u = (if task_in_wq t s then do_task_unlink_wq t s else s)"
  define v where "v = at_date t u"
  have u: "sched_ok u" "\<not> task_in_wq t u" "wq_list u = remove1 t (wq_list s)" "task_of u = task_of s"
    "rqueue u = rqueue s" "rqueue_ticks u = rqueue_ticks s"
    using assms unlink_wq_sched [OF assms, of t] by (simp_all add: u_def task_in_wq_def remove1_idem)
  have v: "sched_ok v" "\<not> task_in_wq t v" "wq_list v = remove1 t (wq_list s)" "task_of v = task_of (at_date t s)"
    "rqueue v = rqueue s" "rqueue_ticks v = rqueue_ticks s"
    using at_date_ok [OF u(1,2)] u(2-6) by (simp_all add: v_def at_date_def task_in_wq_def)
  have e: "do_task_queue t s = (case last_timer v of None \<Rightarrow> queue_insert t v
      | Some l \<Rightarrow> if can_dup l t v then queue_dup l t v else queue_insert t v)"
    by (simp only: do_task_queue_def Let_def at_date_def [symmetric] u_def [symmetric] v_def [symmetric])
  have k: "wq_keys v = wq_keys (at_date t s)" using v(4) by (simp add: wq_keys_def fun_eq_iff)
  have w: "wq_ok v" "rq_ok v" using v(1) by (simp_all add: sched_ok_def)
  have r: "rq_ok s'" if "rqueue s' = rqueue v" "run_queue s' = run_queue v" "niced_tasks s' = niced_tasks v" "task_of s' = task_of v" for s'
    using rq_ok_cong [OF w(2) that(1-3)] that(4) by simp
  consider l where "last_timer v = Some l" "can_dup l t v" "do_task_queue t s = queue_dup l t v"
    | "do_task_queue t s = queue_insert t v"
    by (cases "last_timer v"; cases "\<exists>l. last_timer v = Some l \<and> can_dup l t v")
      (auto simp: e)
  then have "sched_ok (do_task_queue t s) \<and> task_of (do_task_queue t s) = task_of (at_date t s)
    \<and> inserted (wq_keys (at_date t s)) t (remove1 t (wq_list s)) (wq_list (do_task_queue t s))
    \<and> rqueue (do_task_queue t s) = rqueue s \<and> rqueue_ticks (do_task_queue t s) = rqueue_ticks s"
  proof cases
    case 1
    note q = queue_dup_ok [OF w(1) v(2) 1(2)]
    then show ?thesis using r [OF q(4-6) q(2)] v k 1(3) by (simp add: sched_ok_def inserted_def)
  next
    case 2
    note q = queue_insert_ok [OF w(1) v(2)]
    then show ?thesis using r [OF q(4-6) q(2)] v k 2 by (simp add: sched_ok_def inserted_def)
  qed
  then show "sched_ok (do_task_queue t s)" "task_of (do_task_queue t s) = task_of (at_date t s)"
    "inserted (wq_keys (at_date t s)) t (remove1 t (wq_list s)) (wq_list (do_task_queue t s))"
    "rqueue (do_task_queue t s) = rqueue s" "rqueue_ticks (do_task_queue t s) = rqueue_ticks s" by blast+
qed

subsection \<open>Run queue operations\<close>

definition woken :: "nat \<Rightarrow> sched \<Rightarrow> sched \<Rightarrow> bool" where
  "woken t s s' \<longleftrightarrow> (\<exists>k st. task_of s' = (task_of s)(t := (task_of s t)\<lparr>rq_key := k, tstate := st\<rparr>))
    \<and> timers s' = timers s \<and> wq_bit s' = wq_bit s \<and> last_timer s' = last_timer s"

lemma woken_wq:
  assumes "woken t s s'"
  shows "wq_keys s' = wq_keys s" "wq_ok s \<Longrightarrow> wq_ok s'" "expire (task_of s' u) = expire (task_of s u)"
    "nice (task_of s' u) = nice (task_of s u)"
proof -
  obtain k st where e: "task_of s' = (task_of s)(t := (task_of s t)\<lparr>rq_key := k, tstate := st\<rparr>)" "timers s' = timers s"
    "wq_bit s' = wq_bit s" "last_timer s' = last_timer s" using assms by (auto simp: woken_def)
  then show "wq_keys s' = wq_keys s" "expire (task_of s' u) = expire (task_of s u)"
    "nice (task_of s' u) = nice (task_of s u)" by (auto simp: wq_keys_def)
  show "wq_ok s'" if "wq_ok s" by (rule wq_ok_cong [OF that]) (use e in auto)
qed

lemma rq_stamp_simps:
  "run_queue (rq_stamp t s) = run_queue s + 1"
  "niced_tasks (rq_stamp t s) = niced_tasks s + (if nice (task_of s t) \<noteq> 0 then 1 else 0)"
  "rqueue (rq_stamp t s) = rqueue s" "timers (rq_stamp t s) = timers s"
  "rqueue_ticks (rq_stamp t s) = rqueue_ticks s + 1" "woken t s (rq_stamp t s)"
  by (auto simp: rq_stamp_def Let_def woken_def)

lemma filter_split: "length (filter P xs) = length (filter P (takeWhile Q xs)) + length (filter P (dropWhile Q xs))"
  by (metis filter_append length_append takeWhile_dropWhile_id)

lemma filter_insert_sorted:
  "length (filter P (insert_sorted key t xs)) = length (filter P xs) + (if P t then 1 else 0)"
  using filter_split [of P xs "\<lambda>x. key x \<le> key t"] by (simp add: insert_sorted_def)

lemma length_insert_sorted: "length (insert_sorted key t xs) = Suc (length xs)"
  using filter_insert_sorted [of "\<lambda>x. True" key t xs] by simp

lemma do_wakeup_ok:
  assumes "rq_ok s" "\<not> task_in_rq t s"
  shows "rq_ok (do_task_wakeup t s)" "set (rq_list (do_task_wakeup t s)) = insert t (set (rq_list s))"
    "woken t s (do_task_wakeup t s)"
proof -
  note s = rq_stamp_simps [of t s]
  have e: "do_task_wakeup t s = (rq_stamp t s)\<lparr>rqueue := eb32_put (rq_keys (rq_stamp t s)) t (rqueue s)\<rparr>"
    by (simp add: do_task_wakeup_def Let_def s)
  have new: "t \<notin> set (rq_list s)" using assms(2) by (simp add: task_in_rq_def)
  have ok: "eb_root_ok (rq_keys (rq_stamp t s)) (rqueue s)"
  proof (rule eb32.valid_cong)
    show "eb_root_ok (rq_keys s) (rqueue s)" using assms(1) by (simp add: rq_ok_def)
    show "\<forall>x \<in> set (rq_list s). rq_keys s x = rq_keys (rq_stamp t s) x"
      using new s(6) by (auto simp: rq_keys_def woken_def)
  qed
  note p = eb32.put_valid [OF ok new] eb32.put_contents [OF ok new]
  show "set (rq_list (do_task_wakeup t s)) = insert t (set (rq_list s))" unfolding e using p(2) by (simp add: set_insert_sorted)
  show "woken t s (do_task_wakeup t s)" unfolding e using s(6) by (simp add: woken_def)
  have n: "nice (task_of (rq_stamp t s) u) = nice (task_of s u)" for u using woken_wq(4) [OF s(6)] .
  show "rq_ok (do_task_wakeup t s)"
    using assms(1) p new unfolding e by (simp add: rq_ok_def keys_simps s(1,2) n length_insert_sorted filter_insert_sorted)
qed

lemma task_wakeup_ok:
  assumes "sched_ok s"
  shows "sched_ok (task_wakeup t f s)" "set (rq_list (task_wakeup t f s)) = insert t (set (rq_list s))"
    "woken t s (task_wakeup t f s)" "tstate (task_of (task_wakeup t f s) t) AND f = f"
proof -
  define u where "u = (if task_in_rq t s then s else do_task_wakeup t s)"
  have ok: "rq_ok s" "wq_ok s" using assms by (simp_all add: sched_ok_def)
  have "woken t s s" by (auto simp: woken_def intro!: exI [of _ "rq_key (task_of s t)"] exI [of _ "tstate (task_of s t)"])
  then have u: "rq_ok u" "set (rq_list u) = insert t (set (rq_list s))" "woken t s u"
    using ok do_wakeup_ok [OF ok(1), of t] by (auto simp: u_def task_in_rq_def)
  have e: "task_wakeup t f s = upd_task t (\<lambda>k. k\<lparr>tstate := tstate k OR f\<rparr>) u" by (simp add: task_wakeup_def u_def)
  show "set (rq_list (task_wakeup t f s)) = insert t (set (rq_list s))" using u(2) by (simp add: e)
  obtain k st where k: "task_of u = (task_of s)(t := (task_of s t)\<lparr>rq_key := k, tstate := st\<rparr>)"
    using u(3) by (auto simp: woken_def)
  have "task_of (task_wakeup t f s) = (task_of s)(t := (task_of s t)\<lparr>rq_key := k, tstate := st OR f\<rparr>)"
    by (simp add: e k)
  then show w: "woken t s (task_wakeup t f s)" using u(3) unfolding woken_def by (intro conjI exI) (auto simp: e)
  have "rq_ok (task_wakeup t f s)" by (rule rq_ok_cong [OF u(1)]) (simp_all add: e)
  then show "sched_ok (task_wakeup t f s)" using woken_wq(2) [OF w ok(2)] by (simp add: sched_ok_def)
  show "tstate (task_of (task_wakeup t f s) t) AND f = f"
    by (simp add: e and.commute bit.conj_disj_distrib)
qed

subsection \<open>The scan of the timers\<close>

definition due :: "u32 \<Rightarrow> sched \<Rightarrow> nat \<Rightarrow> bool" where
  "due now s e \<longleftrightarrow> \<not> tick_is_lt now (wq_keys s e)"

text \<open>How the scan may change the scheduler.\<close>

definition wake_rel :: "u32 \<Rightarrow> sched \<Rightarrow> sched \<Rightarrow> bool" where
  "wake_rel now s s' \<longleftrightarrow> set (wq_list s') \<subseteq> set (wq_list s) \<and> set (rq_list s) \<subseteq> set (rq_list s')
    \<and> (\<forall>t. expire (task_of s' t) = expire (task_of s t))
    \<and> (\<forall>t. t \<notin> set (wq_list s) \<longrightarrow> task_of s' t = task_of s t)
    \<and> (\<forall>t. wq_keys s' t = wq_keys s t \<or> wq_keys s' t = expire (task_of s t) \<and> tick_isset (expire (task_of s t)))
    \<and> (\<forall>t \<in> set (rq_list s') - set (rq_list s). t \<in> set (wq_list s) \<and> tick_is_expired (expire (task_of s t)) now)
    \<and> (\<forall>t \<in> set (wq_list s) - set (wq_list s'). \<not> tick_isset (expire (task_of s t))
        \<or> tick_is_expired (expire (task_of s t)) now \<and> t \<in> set (rq_list s')
          \<and> tstate (task_of s' t) AND TASK_WOKEN_TIMER = TASK_WOKEN_TIMER)"

lemma wake_rel_refl [simp]: "wake_rel now s s"
  by (simp add: wake_rel_def)

lemma wake_relD:
  assumes "wake_rel now s s'"
  shows "set (wq_list s') \<subseteq> set (wq_list s)" "set (rq_list s) \<subseteq> set (rq_list s')"
    "expire (task_of s' t) = expire (task_of s t)"
    "t \<notin> set (wq_list s) \<Longrightarrow> task_of s' t = task_of s t"
    "wq_keys s' t = wq_keys s t \<or> wq_keys s' t = expire (task_of s t) \<and> tick_isset (expire (task_of s t))"
    "t \<in> set (rq_list s') \<Longrightarrow> t \<notin> set (rq_list s) \<Longrightarrow> t \<in> set (wq_list s) \<and> tick_is_expired (expire (task_of s t)) now"
    "t \<in> set (wq_list s) \<Longrightarrow> t \<notin> set (wq_list s') \<Longrightarrow> \<not> tick_isset (expire (task_of s t))
        \<or> tick_is_expired (expire (task_of s t)) now \<and> t \<in> set (rq_list s')
          \<and> tstate (task_of s' t) AND TASK_WOKEN_TIMER = TASK_WOKEN_TIMER"
  using assms unfolding wake_rel_def by blast+

lemma wake_rel_trans:
  assumes 1: "wake_rel now s s'" and 2: "wake_rel now s' s''"
  shows "wake_rel now s s''"
  unfolding wake_rel_def
proof (intro conjI allI ballI impI)
  note a = wake_relD [OF 1] and b = wake_relD [OF 2]
  show "set (wq_list s'') \<subseteq> set (wq_list s)" using a(1) b(1) by blast
  show "set (rq_list s) \<subseteq> set (rq_list s'')" using a(2) b(2) by blast
  show "expire (task_of s'' t) = expire (task_of s t)" for t using a(3) b(3) by simp
  show "task_of s'' t = task_of s t" if "t \<notin> set (wq_list s)" for t
    using a(4) [OF that] b(4) [of t] a(1) that by auto
  show "wq_keys s'' t = wq_keys s t \<or> wq_keys s'' t = expire (task_of s t) \<and> tick_isset (expire (task_of s t))" for t
    using a(5) [of t] b(5) [of t] a(3) [of t] by auto
  show "t \<in> set (wq_list s)" "tick_is_expired (expire (task_of s t)) now"
    if "t \<in> set (rq_list s'') - set (rq_list s)" for t
    using that a(1) a(6) [of t] b(6) [of t] a(3) [of t] by auto
  show "\<not> tick_isset (expire (task_of s t)) \<or> tick_is_expired (expire (task_of s t)) now \<and> t \<in> set (rq_list s'')
      \<and> tstate (task_of s'' t) AND TASK_WOKEN_TIMER = TASK_WOKEN_TIMER"
    if t: "t \<in> set (wq_list s) - set (wq_list s'')" for t
  proof (cases "t \<in> set (wq_list s')")
    case True
    then show ?thesis using b(7) [of t] t a(3) [of t] by simp
  next
    case False
    then show ?thesis using a(7) [of t] b(4) [of t] b(2) t by auto
  qed
qed

lemma uint_zero: "uint (y :: u32) = 0 \<longleftrightarrow> y = 0" "0 < uint y \<longleftrightarrow> y \<noteq> 0"
  using uint_nonnegative [of y] by (auto simp: less_le uint_0_iff)

lemma uint_opposite: "uint (- y :: u32) = (if y = 0 then 0 else 2 ^ 32 - uint y)"
  using uint_bounded [of y] uint_nonnegative [of y]
  by (auto simp: uint_word_ariths zmod_zminus1_eq_if uint_zero)

lemma sless_zero: "y <s 0 \<longleftrightarrow> 2 ^ 31 \<le> uint (y :: u32)"
  using sint_cases [of y] uint_bounded [of y] by (auto simp: word_sless_alt split: if_splits)

lemma tick_is_lt_ahead: "tick_is_lt now x \<longleftrightarrow> 0 < uint (x - now) \<and> uint (x - now) \<le> 2 ^ 31"
proof -
  have "now - x = - (x - now)" by simp
  then show ?thesis using uint_opposite [of "x - now"] uint_nonnegative [of "x - now"]
    by (auto simp: tick_is_lt_def sless_zero uint_zero)
qed

lemma tick_expired_ahead: "tick_isset x \<Longrightarrow> tick_is_expired x now \<longleftrightarrow> \<not> (0 < uint (x - now) \<and> uint (x - now) < 2 ^ 31)"
proof -
  have "y \<le>s 0 \<longleftrightarrow> y = 0 \<or> y <s 0" for y :: u32 by (auto simp: word_sle_eq word_sless_alt le_less signed_eq_0_iff)
  then show "tick_isset x \<Longrightarrow> tick_is_expired x now \<longleftrightarrow> \<not> (0 < uint (x - now) \<and> uint (x - now) < 2 ^ 31)"
    using uint_nonnegative [of "x - now"] by (auto simp: tick_is_expired_def sless_zero uint_zero not_less)
qed

lemma future_not_due: "\<not> tick_is_expired x now \<Longrightarrow> tick_isset x \<Longrightarrow> tick_is_lt now x"
  by (simp add: tick_is_lt_ahead tick_expired_ahead)

text \<open>The three ways of handling a timer that looks expired.\<close>

lemma drop_timer:
  assumes "sched_ok s" "e \<in> set (wq_list s)" "\<not> tick_isset (expire (task_of s e))"
  shows "wake_rel now s (do_task_unlink_wq e s)"
proof -
  have "t = e" if "t \<in> set (wq_list s)" "t \<notin> set (remove1 e (wq_list s))" for t
    using that by (metis in_set_remove1)
  then show ?thesis using assms unlink_wq_sched(2) [OF assms(1), of e]
    by (auto simp: wake_rel_def dest: set_remove1_subset [THEN subsetD])
qed

lemma wake_timer:
  assumes "sched_ok s" "e \<in> set (wq_list s)" "tick_is_expired (expire (task_of s e)) now"
  defines "s' \<equiv> task_wakeup e TASK_WOKEN_TIMER (do_task_unlink_wq e s)"
  shows "wake_rel now s s'" "sched_ok s'" "wq_list s' = remove1 e (wq_list s)" "wq_keys s' = wq_keys s"
proof -
  note u = unlink_wq_sched [OF assms(1), of e]
  note w = task_wakeup_ok [OF u(1), of e TASK_WOKEN_TIMER, folded s'_def]
  obtain k st where t: "task_of s' = (task_of s)(e := (task_of s e)\<lparr>rq_key := k, tstate := st\<rparr>)" "timers s' = timers (do_task_unlink_wq e s)"
    using w(3) by (auto simp: woken_def)
  show ok: "sched_ok s'" by (rule w(1))
  show l: "wq_list s' = remove1 e (wq_list s)" using u(2) t(2) by simp
  show k: "wq_keys s' = wq_keys s" using woken_wq(1) [OF w(3)] by simp
  show "wake_rel now s s'"
    unfolding wake_rel_def
  proof (intro conjI allI ballI impI)
    show "set (wq_list s') \<subseteq> set (wq_list s)" unfolding l by (rule set_remove1_subset)
    show "set (rq_list s) \<subseteq> set (rq_list s')" using w(2) by auto
    show "expire (task_of s' t) = expire (task_of s t)" for t using woken_wq(3) [OF w(3)] by simp
    show "task_of s' t = task_of s t" if "t \<notin> set (wq_list s)" for t using that assms(2) t(1) by auto
    show "wq_keys s' t = wq_keys s t \<or> wq_keys s' t = expire (task_of s t) \<and> tick_isset (expire (task_of s t))" for t
      using k by simp
    show "t \<in> set (wq_list s)" "tick_is_expired (expire (task_of s t)) now" if "t \<in> set (rq_list s') - set (rq_list s)" for t
      using that w(2) assms(2,3) by auto
    fix t assume "t \<in> set (wq_list s) - set (wq_list s')"
    then have "t = e" unfolding l by (metis Diff_iff in_set_remove1)
    then show "\<not> tick_isset (expire (task_of s t)) \<or> tick_is_expired (expire (task_of s t)) now \<and> t \<in> set (rq_list s')
      \<and> tstate (task_of s' t) AND TASK_WOKEN_TIMER = TASK_WOKEN_TIMER"
      using assms(3) w(2,4) by simp
  qed
qed

lemma move_timer:
  assumes "sched_ok s" "e \<in> set (wq_list s)" "\<not> tick_is_expired (expire (task_of s e)) now" "tick_isset (expire (task_of s e))"
  defines "s' \<equiv> do_task_queue e (do_task_unlink_wq e s)"
  shows "wake_rel now s s'" "sched_ok s'" "wq_keys s' = (wq_keys s)(e := expire (task_of s e))"
    "inserted (wq_keys s') e (remove1 e (wq_list s)) (wq_list s')" "set (wq_list s') = set (wq_list s)"
proof -
  note u = unlink_wq_sched [OF assms(1), of e]
  note q = task_queue_sched [OF u(1), of e, folded s'_def]
  show "sched_ok s'" by (rule q(1))
  show k: "wq_keys s' = (wq_keys s)(e := expire (task_of s e))"
    using q(2) by (auto simp: wq_keys_def at_date_def)
  have "wq_keys (at_date e (do_task_unlink_wq e s)) = wq_keys s'" using q(2) by (simp add: wq_keys_def fun_eq_iff)
  moreover have "remove1 e (wq_list (do_task_unlink_wq e s)) = remove1 e (wq_list s)"
    using u(2,3) by (simp add: remove1_idem task_in_wq_def)
  ultimately show i: "inserted (wq_keys s') e (remove1 e (wq_list s)) (wq_list s')" using q(3) by simp
  have "insert e (set (remove1 e (wq_list s))) = set (wq_list s)"
    using assms(2) set_remove1_subset [of e "wq_list s"] by (auto) (metis in_set_remove1)
  then show l: "set (wq_list s') = set (wq_list s)" using inserted_set [OF i] by simp
  show "wake_rel now s s'"
    using l q(2,4) k assms(2,4) by (auto simp: wake_rel_def at_date_def)
qed

lemma wake_loop_safe:
  assumes "sched_ok s" "\<forall>x. eb = Some x \<longrightarrow> x \<in> set (wq_list s)" "card {x \<in> set (wq_list s). due now s x} < n"
  shows "\<exists>s' date. wake_loop n now eb s = Some (s', date) \<and> sched_ok s' \<and> wake_rel now s s'"
  using assms
proof (induction n arbitrary: eb s)
  case (Suc n)
  define cur where "cur = (case eb of None \<Rightarrow> eb_first (timers s) | Some e \<Rightarrow> Some e)"
  show ?case
  proof (cases cur)
    case None
    then show ?thesis using Suc.prems(1) by (simp add: cur_def)
  next
    case (Some e)
    have ok: "eb_root_ok (wq_keys s) (timers s)" using Suc.prems(1) by (simp add: sched_ok_def wq_ok_def)
    have e: "e \<in> set (wq_list s)"
      using Some Suc.prems(2) by (auto simp: cur_def first_contents split: option.splits list.splits)
    show ?thesis
    proof (cases "due now s e")
      case False
      then show ?thesis using Some Suc.prems(1) by (simp add: cur_def due_def)
    next
      case True
      note u = unlink_wq_sched [OF Suc.prems(1), of e]
      obtain xs ys where split: "wq_list s = xs @ e # ys" using e by (auto simp: in_set_conv_decomp)
      define nx where "nx = eb_next e (timers s)"
      have nx: "nx = (case ys of [] \<Rightarrow> None | y # _ \<Rightarrow> Some y)"
        unfolding nx_def using next_contents [OF ok split] .
      have dist: "distinct (wq_list s)" using contents_sorted [OF ok] by simp
      then have nxs: "\<forall>x. nx = Some x \<longrightarrow> x \<in> set (remove1 e (wq_list s))"
        using nx split by (auto simp: remove1_append split: list.splits)
      have fin: "finite {x \<in> set (wq_list s). due now s x}" by simp
      have fewer: "card {x \<in> set (wq_list s'). due now s' x} < n"
        if "set (wq_list s') \<subseteq> set (wq_list s)" "\<forall>x. x \<noteq> e \<longrightarrow> wq_keys s' x = wq_keys s x"
          "e \<in> set (wq_list s') \<longrightarrow> \<not> due now s' e" for s'
      proof -
        have "{x \<in> set (wq_list s'). due now s' x} \<subseteq> {x \<in> set (wq_list s). due now s x} - {e}"
          using that by (auto simp: due_def)
        from card_mono [OF _ this] have "card {x \<in> set (wq_list s'). due now s' x} \<le> card {x \<in> set (wq_list s). due now s x} - 1"
          using e True by simp
        moreover have "0 < card {x \<in> set (wq_list s). due now s x}" using e True by (auto simp: card_gt_0_iff)
        ultimately show ?thesis using Suc.prems(3) by linarith
      qed
      have go: "\<exists>s'' date. wake_loop n now eb' s' = Some (s'', date) \<and> sched_ok s'' \<and> wake_rel now s s''"
        if "sched_ok s'" "\<forall>x. eb' = Some x \<longrightarrow> x \<in> set (wq_list s')" "wake_rel now s s'"
          "card {x \<in> set (wq_list s'). due now s' x} < n" for s' eb'
        using Suc.IH [OF that(1,2,4)] wake_rel_trans [OF that(3)] by blast
      let ?date = "expire (task_of s e)"
      have rem: "e \<notin> set (remove1 e (wq_list s))" "set (remove1 e (wq_list s)) \<subseteq> set (wq_list s)"
        using dist by (auto dest: set_remove1_subset [THEN subsetD])
      consider "tick_is_expired ?date now" | "\<not> tick_is_expired ?date now" "\<not> tick_isset ?date"
        | "\<not> tick_is_expired ?date now" "tick_isset ?date" by blast
      then show ?thesis
      proof cases
        case 1
        note w = wake_timer [OF Suc.prems(1) e 1]
        have "\<exists>s'' date. wake_loop n now nx (task_wakeup e TASK_WOKEN_TIMER (do_task_unlink_wq e s)) = Some (s'', date)
          \<and> sched_ok s'' \<and> wake_rel now s s''"
          using w rem nxs by (intro go fewer) (simp_all add: w)
        then show ?thesis using Some True 1 by (simp add: cur_def due_def nx_def Let_def)
      next
        case 2
        have "\<exists>s'' date. wake_loop n now nx (do_task_unlink_wq e s) = Some (s'', date) \<and> sched_ok s'' \<and> wake_rel now s s''"
          using u rem nxs drop_timer [OF Suc.prems(1) e 2(2)] by (intro go fewer) (simp_all add: task_in_wq_def)
        then show ?thesis using Some True 2 by (simp add: cur_def due_def nx_def Let_def)
      next
        case 3
        note m = move_timer [OF Suc.prems(1) e 3]
        let ?s = "do_task_queue e (do_task_unlink_wq e s)"
        let ?eb = "case nx of None \<Rightarrow> Some e | Some x \<Rightarrow> if wq_keys ?s x > wq_keys ?s e then Some e else Some x"
        have "\<not> due now ?s e" using future_not_due [OF 3] m(3) by (simp add: due_def)
        moreover have "\<forall>x. ?eb = Some x \<longrightarrow> x \<in> set (wq_list ?s)"
          using nxs rem e m(5) by (auto split: option.splits if_splits)
        ultimately have "\<exists>s'' date. wake_loop n now ?eb ?s = Some (s'', date) \<and> sched_ok s'' \<and> wake_rel now s s''"
          using m by (intro go fewer) simp_all
        then show ?thesis using Some True 3 by (simp add: cur_def due_def nx_def Let_def)
      qed
    qed
  qed
qed simp

text \<open>From the first timer on, the loop stops at the first one that is not due.\<close>

definition first_pending :: "u32 \<Rightarrow> sched \<Rightarrow> u32 \<Rightarrow> bool" where
  "first_pending now s date \<longleftrightarrow> (case wq_list s of [] \<Rightarrow> date = TICK_ETERNITY
     | e # _ \<Rightarrow> date = wq_keys s e \<and> \<not> due now s e)"

lemma wake_loop_first:
  assumes "sched_ok s" "eb = None \<or> eb = eb_first (timers s)" "wake_loop n now eb s = Some (s', date)"
  shows "first_pending now s' date"
  using assms
proof (induction n arbitrary: eb s)
  case (Suc n)
  have cur: "(case eb of None \<Rightarrow> eb_first (timers s) | Some e \<Rightarrow> Some e) = (case wq_list s of [] \<Rightarrow> None | e # _ \<Rightarrow> Some e)"
    using Suc.prems(2) by (auto simp: first_contents split: option.splits list.splits)
  have ok: "eb_root_ok (wq_keys s) (timers s)" using Suc.prems(1) by (simp add: sched_ok_def wq_ok_def)
  show ?case
  proof (cases "wq_list s")
    case Nil
    then show ?thesis using Suc.prems(3) by (auto simp: cur first_pending_def)
  next
    case (Cons e ys)
    have nx: "eb_next e (timers s) = (case ys of [] \<Rightarrow> None | y # _ \<Rightarrow> Some y)"
      using next_contents [OF ok, of "[]" e ys] Cons by simp
    have rem: "remove1 e (wq_list s) = ys" using Cons by simp
    have e: "e \<in> set (wq_list s)" using Cons by simp
    have srt: "sorted (map (wq_keys s) (wq_list s))" "e \<notin> set ys" using contents_sorted [OF ok] Cons by simp_all
    show ?thesis
    proof (cases "due now s e")
      case False
      then show ?thesis using Suc.prems(3) Cons by (auto simp: cur first_pending_def due_def)
    next
      case True
      note u = unlink_wq_sched [OF Suc.prems(1), of e]
      let ?date = "expire (task_of s e)"
      consider "tick_is_expired ?date now" | "\<not> tick_is_expired ?date now" "\<not> tick_isset ?date"
        | "\<not> tick_is_expired ?date now" "tick_isset ?date" by blast
      then show ?thesis
      proof cases
        case 1
        note w = wake_timer [OF Suc.prems(1) e 1]
        show ?thesis
          by (rule Suc.IH [OF w(2)])
            (use Suc.prems(3) Cons True 1 w(3) rem nx in \<open>simp_all add: cur due_def first_contents Let_def\<close>)
      next
        case 2
        show ?thesis
          by (rule Suc.IH [OF u(1)])
            (use Suc.prems(3) Cons True 2 u(2) rem nx in \<open>simp_all add: cur due_def first_contents Let_def\<close>)
      next
        case 3
        note m = move_timer [OF Suc.prems(1) e 3]
        let ?s = "do_task_queue e (do_task_unlink_wq e s)"
        let ?nx = "eb_next e (timers s)"
        have keys: "map (wq_keys ?s) ys = map (wq_keys s) ys" using m(3) srt(2) by auto
        have i: "inserted (wq_keys ?s) e ys (wq_list ?s)" using m(4) rem by simp
        have "hd (wq_list ?s) = (case ys of [] \<Rightarrow> e | x # _ \<Rightarrow> if wq_keys ?s x > wq_keys ?s e then e else x)"
          using inserted_hd [OF i] srt(1) Cons keys by simp
        moreover have "wq_list ?s \<noteq> []" using m(5) e by auto
        ultimately have first: "(case ?nx of None \<Rightarrow> Some e | Some x \<Rightarrow> if wq_keys ?s x > wq_keys ?s e then Some e else Some x)
          = eb_first (timers ?s)"
          by (auto simp: nx first_contents split: list.splits if_splits)
        show ?thesis
          by (rule Suc.IH [OF m(2)])
            (use Suc.prems(3) Cons True 3 first in \<open>simp_all add: cur due_def Let_def\<close>)
      qed
    qed
  qed
qed simp

text \<open>Dates that do not wrap around the current date: the unsigned order is the order of time.\<close>

definition near :: "u32 \<Rightarrow> u32 \<Rightarrow> bool" where
  "near now x \<longleftrightarrow> \<bar>uint x - uint now\<bar> < 2 ^ 31"

lemma ahead_if: "uint (x - now :: u32) = (if uint now \<le> uint x then uint x - uint now else uint x - uint now + 2 ^ 32)"
  by (simp add: uint_sub_if')

lemma near_lt: "near now x \<Longrightarrow> tick_is_lt now x \<longleftrightarrow> uint now < uint x"
  unfolding tick_is_lt_ahead ahead_if near_def by auto

lemma near_expired: "near now x \<Longrightarrow> tick_isset x \<Longrightarrow> tick_is_expired x now \<longleftrightarrow> uint x \<le> uint now"
  unfolding tick_expired_ahead ahead_if near_def by auto

definition all_near :: "u32 \<Rightarrow> sched \<Rightarrow> bool" where
  "all_near now s \<longleftrightarrow> (\<forall>t \<in> set (wq_list s). near now (wq_keys s t)
     \<and> (tick_isset (expire (task_of s t)) \<longrightarrow> near now (expire (task_of s t)) \<and> uint (wq_keys s t) \<le> uint (expire (task_of s t))))"

lemma scan_start:
  assumes "sched_ok s" "all_near now s"
  shows "eb32_lookup_ge (wq_keys s) (timers s) (now - TIMER_LOOK_BACK) \<in> {None, eb_first (timers s)}"
proof -
  have ok: "eb_root_ok (wq_keys s) (timers s)" using assms(1) by (simp add: sched_ok_def wq_ok_def)
  let ?x = "now - TIMER_LOOK_BACK"
  have x: "uint ?x = (if 2 ^ 31 \<le> uint now then uint now - 2 ^ 31 else uint now + 2 ^ 31)"
    unfolding ahead_if by simp
  have near: "\<bar>uint (wq_keys s t) - uint now\<bar> < 2 ^ 31" if "t \<in> set (wq_list s)" for t
    using assms(2) that by (simp add: all_near_def near_def)
  show ?thesis
  proof (cases "2 ^ 31 \<le> uint now")
    case True
    then have "?x \<le> wq_keys s t" if "t \<in> set (wq_list s)" for t
      using near [OF that] x by (simp add: word_le_def)
    then show ?thesis unfolding ge_contents [OF ok] first_contents by (cases "wq_list s") auto
  next
    case False
    then have "\<not> ?x \<le> wq_keys s t" if "t \<in> set (wq_list s)" for t
      using near [OF that] x by (simp add: word_le_def)
    then show ?thesis unfolding ge_contents [OF ok] by (simp add: find_none)
  qed
qed

lemma wake_expired_result:
  assumes "sched_ok s"
  shows "\<exists>s' date. wake_expired_tasks now s = Some (s', date) \<and> sched_ok s' \<and> wake_rel now s s'"
proof -
  have ok: "eb_root_ok (wq_keys s) (timers s)" using assms by (simp add: sched_ok_def wq_ok_def)
  let ?eb = "eb32_lookup_ge (wq_keys s) (timers s) (now - TIMER_LOOK_BACK)"
  have "\<forall>x. ?eb = Some x \<longrightarrow> x \<in> set (wq_list s)"
    unfolding ge_contents [OF ok] by (auto simp: find_Some_iff)
  moreover have "card {x \<in> set (wq_list s). due now s x} < Suc (length (wq_list s))"
    using card_mono [of "set (wq_list s)" "{x \<in> set (wq_list s). due now s x}"] card_length [of "wq_list s"] by auto
  ultimately show ?thesis unfolding wake_expired_tasks_def using wake_loop_safe [OF assms] by blast
qed

text \<open>C7: expired timers, at every date.  \<open>wake_expired_tasks\<close> returns, keeps the queues consistent, removes no
  task from the run queue, wakes up only tasks whose date is reached, and a task leaves the wait queue
  only if it is woken up with the timer flag or has no date.\<close>

theorem wake_expired_safe:
  assumes "sched_ok s"
  shows "\<exists>s' date. wake_expired_tasks now s = Some (s', date) \<and> sched_ok s'
    \<and> set (wq_list s') \<subseteq> set (wq_list s) \<and> set (rq_list s) \<subseteq> set (rq_list s')
    \<and> (\<forall>t \<in> set (rq_list s') - set (rq_list s). t \<in> set (wq_list s) \<and> tick_is_expired (expire (task_of s t)) now)
    \<and> (\<forall>t \<in> set (wq_list s) - set (wq_list s'). \<not> tick_isset (expire (task_of s t))
        \<or> t \<in> set (rq_list s') \<and> tstate (task_of s' t) AND TASK_WOKEN_TIMER = TASK_WOKEN_TIMER)"
proof -
  obtain s' date where "wake_expired_tasks now s = Some (s', date)" "sched_ok s'" "wake_rel now s s'"
    using wake_expired_result [OF assms] by blast
  then show ?thesis unfolding wake_rel_def by blast
qed

text \<open>C8: expired timers, exactly.  Where no date in the wait queue wraps around the current one, every task whose
  date is reached is woken up, no timer that looks expired stays, and the date returned is the earliest
  left in the wait queue, or eternity when it is empty.\<close>

theorem wake_expired_exact:
  assumes "sched_ok s" "all_near now s"
  shows "\<exists>s' date. wake_expired_tasks now s = Some (s', date)
    \<and> (\<forall>t \<in> set (wq_list s). tick_is_expired (expire (task_of s t)) now \<longrightarrow>
        t \<in> set (rq_list s') \<and> t \<notin> set (wq_list s') \<and> tstate (task_of s' t) AND TASK_WOKEN_TIMER = TASK_WOKEN_TIMER)
    \<and> (\<forall>t \<in> set (wq_list s'). now < wq_keys s' t \<and> date \<le> wq_keys s' t)
    \<and> (if wq_list s' = [] then date = TICK_ETERNITY else date \<in> wq_keys s' ` set (wq_list s'))"
proof -
  obtain s' date where w: "wake_expired_tasks now s = Some (s', date)" "sched_ok s'" "wake_rel now s s'"
    using wake_expired_result [OF assms(1)] by blast
  note r = wake_relD [OF w(3)]
  have first: "first_pending now s' date"
    using scan_start [OF assms] by (intro wake_loop_first [OF assms(1) _ w(1) [unfolded wake_expired_tasks_def]]) blast
  have ok': "eb_root_ok (wq_keys s') (timers s')" using w(2) by (simp add: sched_ok_def wq_ok_def)
  have near: "near now (wq_keys s t)" "tick_isset (expire (task_of s t)) \<Longrightarrow> near now (expire (task_of s t))
      \<and> uint (wq_keys s t) \<le> uint (expire (task_of s t))" if "t \<in> set (wq_list s)" for t
    using assms(2) that by (auto simp: all_near_def)
  have key: "uint now < uint (wq_keys s' t) \<and> date \<le> wq_keys s' t" if t: "t \<in> set (wq_list s')" for t
  proof -
    obtain e ys where l: "wq_list s' = e # ys" using t by (cases "wq_list s'") auto
    then have d: "date = wq_keys s' e" "\<not> due now s' e" using first by (simp_all add: first_pending_def)
    have "e \<in> set (wq_list s)" using r(1) l by auto
    then have "near now (wq_keys s' e)" using near [of e] r(5) [of e] by auto
    then have "uint now < uint (wq_keys s' e)" using d(2) near_lt by (simp add: due_def)
    moreover have "wq_keys s' e \<le> wq_keys s' t" using contents_sorted [OF ok'] l t by auto
    ultimately show ?thesis using d(1) by (simp add: word_le_def)
  qed
  have "t \<in> set (rq_list s') \<and> t \<notin> set (wq_list s') \<and> tstate (task_of s' t) AND TASK_WOKEN_TIMER = TASK_WOKEN_TIMER"
    if t: "t \<in> set (wq_list s)" "tick_is_expired (expire (task_of s t)) now" for t
  proof -
    have i: "tick_isset (expire (task_of s t))" using t(2) by (auto simp: tick_is_expired_def split: if_splits)
    have "uint (expire (task_of s t)) \<le> uint now" using near(2) [OF t(1) i] near_expired i t(2) by blast
    moreover have "wq_keys s' t = wq_keys s t \<or> wq_keys s' t = expire (task_of s t)" using r(5) by blast
    ultimately have "\<not> uint now < uint (wq_keys s' t)" using near(2) [OF t(1) i] by auto
    then have "t \<notin> set (wq_list s')" using key by blast
    then show ?thesis using r(7) [OF t(1)] i by blast
  qed
  moreover have "if wq_list s' = [] then date = TICK_ETERNITY else date \<in> wq_keys s' ` set (wq_list s')"
    using first by (auto simp: first_pending_def split: list.splits)
  ultimately show ?thesis using w(1) key by (auto simp: word_less_def)
qed

text \<open>An example: three timers, one reached, one disabled, one in the future.\<close>

definition task1 :: "u32 \<Rightarrow> task" where
  "task1 date = \<lparr>rq_key = 0, tstate = 0, nice = 0, calls = 0, wq_key = 0, expire = date\<rparr>"

definition idle :: "(nat \<Rightarrow> u32) \<Rightarrow> sched" where
  "idle dates = \<lparr>task_of = (\<lambda>t. task1 (dates t)), timers = None, rqueue = None, rqueue_ticks = 0, run_queue = 0,
     niced_tasks = 0, nb_tasks = 3, run_queue_cur = 0, nb_tasks_cur = 0, last_timer = None, wq_bit = (\<lambda>t. 0)\<rparr>"

lemma idle_ok: "sched_ok (idle dates)"
  by (simp add: sched_ok_def rq_ok_def wq_ok_def idle_def eb_root_ok_def eb_contents_def root_bit_def)

definition sched1 :: sched where
  "sched1 = task_queue 2 (task_queue 1 (task_queue 0 (idle (\<lambda>t. if t = 0 then 90 else if t = 1 then 100 else 140))))"

lemma queue_once:
  "sched_ok s \<Longrightarrow> tick_isset (expire (task_of s t)) \<Longrightarrow> \<not> task_in_wq t s \<Longrightarrow>
    sched_ok (task_queue t s) \<and> set (wq_list (task_queue t s)) = insert t (set (wq_list s))
    \<and> task_of (task_queue t s) = (task_of s)(t := (task_of s t)\<lparr>wq_key := expire (task_of s t)\<rparr>)"
  using task_queue_sched [of s t] inserted_set
  by (fastforce simp: task_queue_def Let_def at_date_def task_in_wq_def remove1_idem)

lemma sched1_ok: "sched_ok sched1" "all_near 120 sched1"
proof -
  let ?s0 = "idle (\<lambda>t. if t = 0 then 90 else if t = 1 then 100 else 140)"
  have 0: "sched_ok ?s0" "set (wq_list ?s0) = {}" "task_of ?s0 = (\<lambda>t. task1 (if t = 0 then 90 else if t = 1 then 100 else 140))"
    using idle_ok by (simp_all add: idle_def eb_contents_def)
  note 1 = queue_once [OF 0(1), of 0, simplified 0 task_in_wq_def task1_def tick_isset_def, simplified]
  note 2 = queue_once [OF conjunct1 [OF 1], of 1, simplified 1 task_in_wq_def tick_isset_def, simplified]
  note 3 = queue_once [OF conjunct1 [OF 2], of 2, simplified 1 2 task_in_wq_def tick_isset_def, simplified]
  show "sched_ok sched1" unfolding sched1_def using 3 by simp
  show "all_near 120 sched1" unfolding sched1_def all_near_def using 3 2 1
    by (simp add: wq_keys_def near_def)
qed

theorem wake_expired_safe_witness:
  "\<exists>s' date. wake_expired_tasks 120 sched1 = Some (s', date) \<and> sched_ok s'
    \<and> set (wq_list s') \<subseteq> set (wq_list sched1) \<and> set (rq_list sched1) \<subseteq> set (rq_list s')
    \<and> (\<forall>t \<in> set (rq_list s') - set (rq_list sched1). t \<in> set (wq_list sched1) \<and> tick_is_expired (expire (task_of sched1 t)) 120)
    \<and> (\<forall>t \<in> set (wq_list sched1) - set (wq_list s'). \<not> tick_isset (expire (task_of sched1 t))
        \<or> t \<in> set (rq_list s') \<and> tstate (task_of s' t) AND TASK_WOKEN_TIMER = TASK_WOKEN_TIMER)"
  by (rule wake_expired_safe [OF sched1_ok(1)])

theorem wake_expired_exact_witness:
  "\<exists>s' date. wake_expired_tasks 120 sched1 = Some (s', date)
    \<and> (\<forall>t \<in> set (wq_list sched1). tick_is_expired (expire (task_of sched1 t)) 120 \<longrightarrow>
        t \<in> set (rq_list s') \<and> t \<notin> set (wq_list s') \<and> tstate (task_of s' t) AND TASK_WOKEN_TIMER = TASK_WOKEN_TIMER)
    \<and> (\<forall>t \<in> set (wq_list s'). 120 < wq_keys s' t \<and> date \<le> wq_keys s' t)
    \<and> (if wq_list s' = [] then date = TICK_ETERNITY else date \<in> wq_keys s' ` set (wq_list s'))"
  by (rule wake_expired_exact [OF sched1_ok])

end
