(* ===== verification/HA_Task_Run.thy ===== *)
theory HA_Task_Run
  imports HA_Task_Proofs
begin

section \<open>Tasks: examples and the run queue (src/task.c)\<close>

text \<open>
  The theorems on expired timers applied to an example, the case where dates wrap, and what a call
  of \<open>process_runnable_tasks\<close> runs, in which order.
\<close>

subsection \<open>Expired timers: examples\<close>

definition late :: sched where
  "late = upd_task 0 (\<lambda>k. k\<lparr>expire := 10\<rparr>)
     (task_queue 1 (task_queue 0 (idle (\<lambda>t. if t = 0 then 0xFFFFFFE0 else 0xFFFFFFF0))))"

text \<open>Expired timers across the wrap.  The scan compares the next timer with the one it has moved as unsigned
  numbers: when the clock has just wrapped, a timer moved to a date after the wrap hides those that
  expired before it.  Here the date of task 1 was reached 19 ms ago, but the call leaves it in the wait
  queue and returns the date of task 0.\<close>

theorem wake_expired_wrap_late:
  "tick_is_expired (expire (task_of late 1)) 3 \<and>
   map_option (\<lambda>(s, date). (rq_list s, wq_list s, date)) (wake_expired_tasks 3 late) = Some ([], [0, 1], 10)"
  by code_simp

subsection \<open>What a call runs\<close>

text \<open>The functions of the tasks leave the run queue alone.\<close>

definition quiet :: "handler \<Rightarrow> bool" where
  "quiet h \<longleftrightarrow> (\<forall>t s. let s' = fst (h t s) in rqueue s' = rqueue s \<and> run_queue s' = run_queue s
     \<and> niced_tasks s' = niced_tasks s \<and> rqueue_ticks s' = rqueue_ticks s
     \<and> (\<forall>u. rq_key (task_of s' u) = rq_key (task_of s u) \<and> nice (task_of s' u) = nice (task_of s u)
          \<and> calls (task_of s' u) = calls (task_of s u)))"

definition same_rq :: "sched \<Rightarrow> sched \<Rightarrow> bool" where
  "same_rq s s' \<longleftrightarrow> rqueue s' = rqueue s \<and> run_queue s' = run_queue s
     \<and> niced_tasks s' = niced_tasks s \<and> rqueue_ticks s' = rqueue_ticks s
     \<and> (\<forall>u. rq_key (task_of s' u) = rq_key (task_of s u) \<and> nice (task_of s' u) = nice (task_of s u)
          \<and> calls (task_of s' u) = calls (task_of s u))"

lemma quiet_same: "quiet h \<Longrightarrow> same_rq s (fst (h t s))"
  by (simp add: quiet_def same_rq_def Let_def)

lemma same_rq_trans: "same_rq s s' \<Longrightarrow> same_rq s' s'' \<Longrightarrow> same_rq s s''"
  by (simp add: same_rq_def)

lemma same_rq_ok: "same_rq s s' \<Longrightarrow> rq_ok s \<Longrightarrow> rq_ok s'"
  by (rule rq_ok_cong [of s]) (simp_all add: same_rq_def)

lemma task_queue_same: "same_rq s (task_queue t s)"
  by (auto simp: same_rq_def task_queue_def do_task_queue_def do_task_unlink_wq_def queue_dup_def queue_insert_def
      Let_def split: option.split)

lemma after_run_same: "same_rq s (fst (after_run t date s))"
proof -
  have "same_rq s (upd_task t (\<lambda>k. k\<lparr>tstate := tstate k AND NOT TASK_RUNNING\<rparr>) s)" by (simp add: same_rq_def)
  then show ?thesis using same_rq_trans [OF _ task_queue_same] by (simp add: after_run_def Let_def)
qed

definition start_run :: "nat \<Rightarrow> sched \<Rightarrow> sched" where
  "start_run t s = upd_task t (\<lambda>k. k\<lparr>tstate := tstate k OR TASK_RUNNING, calls := calls k + 1\<rparr>) (do_task_unlink_rq t s)"

lemma start_run_ok:
  assumes "rq_ok s" "rq_list s = A @ t # B"
  shows "rq_ok (start_run t s)" "rq_list (start_run t s) = A @ B" "rqueue_ticks (start_run t s) = rqueue_ticks s"
    "calls (task_of (start_run t s) u) = calls (task_of s u) + (if u = t then 1 else 0)"
proof -
  have ok: "eb_root_ok (rq_keys s) (rqueue s)" using assms(1) by (simp add: rq_ok_def)
  have d: "t \<notin> set A" using contents_sorted [OF ok] assms(2) by auto
  have c: "eb_contents (eb_delete t (rqueue s)) = A @ B"
    using eb32.remove_contents [OF ok, of t] assms(2) d by (simp add: remove1_append)
  then show "rq_list (start_run t s) = A @ B" by (simp add: start_run_def do_task_unlink_rq_def)
  have k: "rq_keys (start_run t s) = rq_keys s" "\<And>u. nice (task_of (start_run t s) u) = nice (task_of s u)"
    by (auto simp: start_run_def do_task_unlink_rq_def rq_keys_def)
  then show "rq_ok (start_run t s)"
    using assms eb32.remove_valid [OF ok, of t] c
    by (simp add: rq_ok_def start_run_def do_task_unlink_rq_def)
qed (simp_all add: start_run_def do_task_unlink_rq_def)

definition has_run :: "nat list \<Rightarrow> sched \<Rightarrow> sched \<Rightarrow> bool" where
  "has_run ts s s' \<longleftrightarrow> (\<forall>u. calls (task_of s' u) = calls (task_of s u) + of_nat (count_list ts u))"

lemma run_step:
  assumes "quiet h" "rq_ok s" "rq_list s = A @ t # C" "(case eb of None \<Rightarrow> eb_first (rqueue s) | Some e \<Rightarrow> Some e) = Some t"
  obtains s2 d where "run_loop h (Suc n) eb date s = run_loop h n (case C of [] \<Rightarrow> None | u # _ \<Rightarrow> Some u) d s2"
    "rq_ok s2" "rq_list s2 = A @ C" "has_run [t] s s2"
proof -
  have ok: "eb_root_ok (rq_keys s) (rqueue s)" using assms(2) by (simp add: rq_ok_def)
  have nx: "eb_next t (rqueue s) = (case C of [] \<Rightarrow> None | u # _ \<Rightarrow> Some u)" using next_contents [OF ok assms(3)] .
  have tn: "t \<notin> set (A @ C)" using contents_sorted [OF ok] assms(3) by auto
  note st = start_run_ok [OF assms(2,3)]
  obtain s1 alive where h: "h t (start_run t s) = (s1, alive)" by (cases "h t (start_run t s)")
  then have same1: "same_rq (start_run t s) s1" using quiet_same [OF assms(1), of "start_run t s" t] by simp
  obtain s2 d where a: "after_run t date s1 = (s2, d)" by (cases "after_run t date s1")
  then have same2: "same_rq (start_run t s) s2" using after_run_same [of s1 t date] same_rq_trans [OF same1] by simp
  have facts: "rq_ok s'" "rq_list s' = A @ C" "has_run [t] s s'" if "same_rq (start_run t s) s'" for s'
    using same_rq_ok [OF that st(1)] that st(2,4) by (auto simp: same_rq_def has_run_def)
  show thesis
  proof (cases alive)
    case False
    then show ?thesis using that [OF _ facts [OF same1]] h assms(4) nx by (simp add: start_run_def)
  next
    case True
    have "\<not> task_in_rq t s2" using same2 st(2) tn by (simp add: task_in_rq_def same_rq_def)
    then show ?thesis using that [OF _ facts [OF same2]] h a True assms(4) nx by (simp add: start_run_def)
  qed
qed

lemma has_run_Cons: "has_run [t] s s1 \<Longrightarrow> has_run ts s1 s2 \<Longrightarrow> has_run (t # ts) s s2"
  by (auto simp: has_run_def)

text \<open>The state before the first iteration, and the task that the scan starts from.\<close>

definition run_start :: "sched \<Rightarrow> sched" where
  "run_start s = s\<lparr>run_queue_cur := run_queue s, nb_tasks_cur := nb_tasks s\<rparr>"

definition run_cursor :: "sched \<Rightarrow> nat option" where
  "run_cursor s = eb32_lookup_ge (rq_keys s) (rqueue s) (rqueue_ticks s - TIMER_LOOK_BACK)"

lemma run_loop_quiet:
  assumes "quiet h" "rq_ok s" "rq_list s = A @ B" "eb = (case B of [] \<Rightarrow> None | t # _ \<Rightarrow> Some t)" "n \<le> length A + length B"
  shows "rq_ok (fst (run_loop h n eb date s))
    \<and> rq_list (fst (run_loop h n eb date s)) = (if n \<le> length B then A @ drop n B else drop (n - length B) A)
    \<and> has_run (take n (B @ A)) s (fst (run_loop h n eb date s))"
  using assms(2-5)
proof (induction n arbitrary: A B eb date s)
  case 0
  then show ?case by (simp add: has_run_def)
next
  case (Suc n)
  show ?case
  proof (cases B)
    case (Cons t C)
    then have l: "rq_list s = A @ t # C" and cur: "(case eb of None \<Rightarrow> eb_first (rqueue s) | Some e \<Rightarrow> Some e) = Some t"
      using Suc.prems(2,3) by simp_all
    obtain s2 d where r: "run_loop h (Suc n) eb date s = run_loop h n (case C of [] \<Rightarrow> None | u # _ \<Rightarrow> Some u) d s2"
      "rq_ok s2" "rq_list s2 = A @ C" "has_run [t] s s2" by (rule run_step [OF assms(1) Suc.prems(1) l cur])
    from Suc.IH [OF r(2,3) refl, of d] Suc.prems(4) Cons show ?thesis
      unfolding r(1) using has_run_Cons [OF r(4)] by (simp add: Suc_le_eq)
  next
    case Nil
    then obtain t C where A: "A = t # C" using Suc.prems(4) by (cases A) auto
    then have l: "rq_list s = [] @ t # C" and cur: "(case eb of None \<Rightarrow> eb_first (rqueue s) | Some e \<Rightarrow> Some e) = Some t"
      using Suc.prems(2,3) Nil by (simp_all add: first_contents)
    obtain s2 d where r: "run_loop h (Suc n) eb date s = run_loop h n (case C of [] \<Rightarrow> None | u # _ \<Rightarrow> Some u) d s2"
      "rq_ok s2" "rq_list s2 = [] @ C" "has_run [t] s s2" by (rule run_step [OF assms(1) Suc.prems(1) l cur])
    from Suc.IH [OF r(2,3) refl, of d] Suc.prems(4) Nil A show ?thesis
      unfolding r(1) using has_run_Cons [OF r(4)] by simp
  qed
qed

lemma max_processed_le: "unat (max_processed s) \<le> unat (run_queue s) \<and> unat (max_processed s) \<le> 200"
proof -
  define m where "m = (if run_queue s > 200 then 200 else run_queue s)"
  have m: "unat m \<le> unat (run_queue s)" "unat m \<le> 200" by (auto simp: m_def word_less_nat_alt)
  then have "unat (m + 3) = unat m + 3" by (simp add: unat_word_ariths)
  then have "unat ((m + 3) div 4) = (unat m + 3) div 4" by (simp add: unat_div)
  moreover have "(unat m + 3) div 4 \<le> unat m" by (cases "unat m = 0") simp_all
  ultimately have "unat ((m + 3) div 4) \<le> unat m" by simp
  then show ?thesis using m by (auto simp: max_processed_def Let_def m_def [symmetric])
qed

lemma count_distinct: "distinct xs \<Longrightarrow> count_list xs x = (if x \<in> set xs then 1 else 0)"
  by (induction xs) auto

text \<open>The order in which tasks are run: by their position in the queue, counted from half a turn before the
  insertion counter.\<close>

definition run_order :: "sched \<Rightarrow> nat list" where
  "run_order s =
    (let before = (\<lambda>t. rq_keys s t < rqueue_ticks s - TIMER_LOOK_BACK)
     in dropWhile before (rq_list s) @ takeWhile before (rq_list s))"

text \<open>C9: the run queue.  When the functions of the tasks leave the run queue alone (\<open>quiet\<close>: they wake up, nice and
  delete no task), a call of \<open>process_runnable_tasks\<close> runs the first 200 tasks at most of the queue, a quarter
  of this when some are niced, each exactly once and in the order of their positions around the wrapping
  insertion counter: after each number of iterations of its loop exactly as many of the first tasks in this
  order have been run.  The others stay in the queue, whose counter remains exact.\<close>

theorem process_runnable_exact:
  assumes "quiet h" "rq_ok s" "length (rq_list s) < 2 ^ 32"
    and n: "n = unat (max_processed s)" and s': "s' = fst (process_runnable_tasks h date s)"
  shows "(\<forall>j \<le> n. \<forall>t. calls (task_of (fst (run_loop h j (run_cursor s) date (run_start s))) t)
        = calls (task_of s t) + (if t \<in> set (take j (run_order s)) then 1 else 0))
    \<and> s' = fst (run_loop h n (run_cursor s) date (run_start s))
    \<and> set (rq_list s') = set (drop n (run_order s)) \<and> n \<le> length (run_order s) \<and> n \<le> 200
    \<and> set (run_order s) = set (rq_list s) \<and> distinct (run_order s)
    \<and> run_queue s' = of_nat (length (rq_list s'))"
proof -
  let ?s = "run_start s"
  let ?P = "\<lambda>t. rq_keys s t < rqueue_ticks s - TIMER_LOOK_BACK"
  define A B where "A = takeWhile ?P (rq_list s)" and "B = dropWhile ?P (rq_list s)"
  have ok: "eb_root_ok (rq_keys s) (rqueue s)" and rq: "run_queue s = of_nat (length (rq_list s))"
    using assms(2) by (simp_all add: rq_ok_def)
  have rqn: "unat (run_queue s) = length (rq_list s)" using assms(3) unfolding rq unat_of_nat by (simp add: take_bit_nat_eq_self)
  have le: "n \<le> length (rq_list s)" "n \<le> 200" using max_processed_le [of s] rqn n by auto
  have ord: "run_order s = B @ A" by (simp add: run_order_def Let_def A_def B_def)
  have AB: "rq_list s = A @ B" by (simp add: A_def B_def)
  have keys: "rq_keys ?s = rq_keys s" by (simp add: rq_keys_def fun_eq_iff run_start_def)
  have s: "rq_ok ?s" by (rule rq_ok_cong [OF assms(2)]) (simp_all add: run_start_def)
  have l: "rq_list ?s = A @ B" and mp: "max_processed ?s = max_processed s"
    using AB by (simp_all add: max_processed_def run_start_def)
  have dist: "distinct (B @ A)" using contents_sorted [OF ok] AB by auto
  have "find (\<lambda>t. \<not> ?P t) xs = (case dropWhile ?P xs of [] \<Rightarrow> None | t # _ \<Rightarrow> Some t)" for xs
    by (induction xs) simp_all
  then have start: "run_cursor s = (case B of [] \<Rightarrow> None | t # _ \<Rightarrow> Some t)"
    unfolding run_cursor_def ge_contents [OF ok] B_def by (simp add: not_less)
  have run: "rq_ok (fst (run_loop h j (run_cursor s) date ?s))
      \<and> rq_list (fst (run_loop h j (run_cursor s) date ?s)) = (if j \<le> length B then A @ drop j B else drop (j - length B) A)
      \<and> has_run (take j (B @ A)) ?s (fst (run_loop h j (run_cursor s) date ?s))" if "j \<le> n" for j
    using run_loop_quiet [OF assms(1) s l start, of j date] le(1) AB that by simp
  have "calls (task_of (fst (run_loop h j (run_cursor s) date ?s)) t)
      = calls (task_of s t) + (if t \<in> set (take j (run_order s)) then 1 else 0)" if "j \<le> n" for j t
  proof -
    have "has_run (take j (B @ A)) ?s (fst (run_loop h j (run_cursor s) date ?s))" using run [OF that] by blast
    then have "calls (task_of (fst (run_loop h j (run_cursor s) date ?s)) t)
        = calls (task_of ?s t) + of_nat (count_list (take j (B @ A)) t)" unfolding has_run_def by blast
    then show ?thesis
      unfolding count_distinct [OF distinct_take [OF dist, of j]] ord by (simp add: run_start_def)
  qed
  moreover have e: "s' = fst (run_loop h n (run_cursor s) date ?s)"
  proof (cases "run_queue s = 0")
    case True
    then have "n = 0" using rqn le(1) by simp
    then show ?thesis using s' True by (simp add: process_runnable_tasks_def run_start_def)
  next
    case False
    then show ?thesis
      using s' n mp keys by (simp add: process_runnable_tasks_def Let_def run_start_def run_cursor_def)
  qed
  moreover have "set (rq_list s') = set (drop n (run_order s))" using run [of n] by (auto simp: ord e)
  moreover have "run_queue s' = of_nat (length (rq_list s'))" using run [of n] by (simp add: rq_ok_def e)
  ultimately show ?thesis using le AB ord dist by auto
qed

text \<open>Two tasks woken up, the second one niced; the function of a task clears its date.\<close>

definition clear_date :: handler where
  "clear_date t s = (upd_task t (\<lambda>k. k\<lparr>expire := 0\<rparr>) s, True)"

definition sched2 :: sched where
  "sched2 = task_wakeup 1 TASK_WOKEN_TIMER (upd_task 1 (\<lambda>k. k\<lparr>nice := 64\<rparr>) (task_wakeup 0 TASK_WOKEN_TIMER (idle (\<lambda>t. 0))))"

lemma sched2_ok: "rq_ok sched2"
proof -
  let ?s = "task_wakeup 0 TASK_WOKEN_TIMER (idle (\<lambda>t. 0))"
  have "sched_ok ?s" by (rule task_wakeup_ok(1) [OF idle_ok])
  then have ok: "rq_ok ?s" "wq_ok ?s" by (simp_all add: sched_ok_def)
  have l: "set (rq_list ?s) = {0}" using task_wakeup_ok(2) [OF idle_ok] by (simp add: idle_def eb_contents_def)
  have "rq_ok (upd_task 1 (\<lambda>k. k\<lparr>nice := 64\<rparr>) ?s)"
    by (rule rq_ok_cong [OF ok(1)]) (simp_all add: task_in_rq_def l)
  moreover have "wq_ok (upd_task 1 (\<lambda>k. k\<lparr>nice := 64\<rparr>) ?s)" by (rule wq_ok_cong [OF ok(2)]) simp_all
  ultimately have "sched_ok (upd_task 1 (\<lambda>k. k\<lparr>nice := 64\<rparr>) ?s)" by (simp add: sched_ok_def)
  then show ?thesis unfolding sched2_def using task_wakeup_ok(1) sched_ok_def by blast
qed

theorem process_runnable_exact_witness:
  "let s = sched2; n = unat (max_processed s); s' = fst (process_runnable_tasks clear_date 7 s)
   in (\<forall>j \<le> n. \<forall>t. calls (task_of (fst (run_loop clear_date j (run_cursor s) 7 (run_start s))) t)
        = calls (task_of s t) + (if t \<in> set (take j (run_order s)) then 1 else 0))
    \<and> s' = fst (run_loop clear_date n (run_cursor s) 7 (run_start s))
    \<and> set (rq_list s') = set (drop n (run_order s)) \<and> n \<le> length (run_order s) \<and> n \<le> 200
    \<and> set (run_order s) = set (rq_list s) \<and> distinct (run_order s)
    \<and> run_queue s' = of_nat (length (rq_list s'))"
  unfolding Let_def
proof (rule process_runnable_exact [OF _ sched2_ok])
  show "quiet clear_date" by (simp add: quiet_def clear_date_def)
  have "length (rq_list sched2) = 2" by code_simp
  then show "length (rq_list sched2) < 2 ^ 32" by simp
qed simp_all

text \<open>The invariant over every sequence of operations, by any callers.\<close>

datatype task_op =
    New_task nat | Set_nice nat int | Wakeup nat u16 | Queue_at nat u32 | Schedule nat u32
  | Delete_task nat | Expire_at u32

text \<open>
  The niceness of a task is set by \<open>session_accept\<close> and \<open>peer_session_create\<close>, from that of the listener, before
  the first wakeup, and by the rules \<open>set-nice\<close> while the task runs.
\<close>

definition set_nice :: "nat \<Rightarrow> int \<Rightarrow> sched \<Rightarrow> sched" where
  "set_nice t n = upd_task t (\<lambda>k. k\<lparr>nice := n\<rparr>)"

fun task_op_step :: "task_op \<Rightarrow> sched \<Rightarrow> sched option" where
  "task_op_step (New_task t) s = Some (task_new t s)"
| "task_op_step (Set_nice t n) s = Some (set_nice t n s)"
| "task_op_step (Wakeup t f) s = Some (task_wakeup t f s)"
| "task_op_step (Queue_at t date) s = Some (task_queue t (upd_task t (\<lambda>k. k\<lparr>expire := date\<rparr>) s))"
| "task_op_step (Schedule t date) s = Some (task_schedule t date s)"
| "task_op_step (Delete_task t) s = Some (task_delete t s)"
| "task_op_step (Expire_at now) s = map_option fst (wake_expired_tasks now s)"

text \<open>
  The pool gives a task that is in no queue.  The niceness of a task that waits in the run queue may not
  change: \<open>niced_tasks\<close> is counted up when the task enters the queue and down when it leaves it.
\<close>

fun task_op_valid :: "task_op \<Rightarrow> sched \<Rightarrow> bool" where
  "task_op_valid (New_task t) s \<longleftrightarrow> \<not> task_in_rq t s \<and> \<not> task_in_wq t s"
| "task_op_valid (Set_nice t n) s \<longleftrightarrow> \<not> task_in_rq t s"
| "task_op_valid _ s \<longleftrightarrow> True"

fun task_ops_valid :: "task_op list \<Rightarrow> sched \<Rightarrow> bool" where
  "task_ops_valid [] s \<longleftrightarrow> True"
| "task_ops_valid (op # ops) s \<longleftrightarrow>
    task_op_valid op s \<and> (case task_op_step op s of None \<Rightarrow> True | Some s' \<Rightarrow> task_ops_valid ops s')"

fun task_ops_run :: "task_op list \<Rightarrow> sched \<Rightarrow> sched option" where
  "task_ops_run [] s = Some s"
| "task_ops_run (op # ops) s = Option.bind (task_op_step op s) (task_ops_run ops)"

lemma set_expire_ok: "sched_ok s \<Longrightarrow> sched_ok (upd_task t (\<lambda>k. k\<lparr>expire := date\<rparr>) s)"
  unfolding sched_ok_def
  by (auto intro: rq_ok_cong [of s] wq_ok_cong [of s])

lemma set_nice_ok: "sched_ok s \<Longrightarrow> \<not> task_in_rq t s \<Longrightarrow> sched_ok (set_nice t n s)"
  unfolding sched_ok_def set_nice_def
  by (auto intro: rq_ok_cong [of s] wq_ok_cong [of s] simp: task_in_rq_def)

lemma task_new_ok: "sched_ok s \<Longrightarrow> \<not> task_in_rq t s \<Longrightarrow> sched_ok (task_new t s)"
  unfolding sched_ok_def task_new_def task_init_def
  by (auto intro: rq_ok_cong [of s] wq_ok_cong [of s] simp: task_in_rq_def)

lemma task_queue_ok: "sched_ok s \<Longrightarrow> sched_ok (task_queue t s)"
  by (simp add: task_queue_def Let_def task_queue_sched)

lemma task_schedule_ok: "sched_ok s \<Longrightarrow> sched_ok (task_schedule t date s)"
  unfolding task_schedule_def Let_def using set_expire_ok task_queue_sched(1) by auto

lemma unlink_rq_ok:
  assumes "sched_ok s"
  shows "sched_ok (task_unlink_rq t s)"
proof (cases "task_in_rq t s")
  case True
  then obtain A B where l: "rq_list s = A @ t # B" by (auto simp: task_in_rq_def in_set_conv_decomp)
  have ok: "rq_ok s" "wq_ok s" using assms by (simp_all add: sched_ok_def)
  have "rq_ok (do_task_unlink_rq t s)"
    by (rule rq_ok_cong [OF start_run_ok(1) [OF ok(1) l]]) (auto simp: start_run_def)
  moreover have "wq_ok (do_task_unlink_rq t s)" by (rule wq_ok_cong [OF ok(2)]) (simp_all add: do_task_unlink_rq_def)
  ultimately show ?thesis using True by (simp add: task_unlink_rq_def sched_ok_def)
qed (use assms in \<open>simp add: task_unlink_rq_def\<close>)

lemma task_delete_ok: "sched_ok s \<Longrightarrow> sched_ok (task_delete t s)"
  unfolding task_delete_def task_unlink_wq_def using unlink_wq_sched(1) unlink_rq_ok by auto

lemma task_op_ok: "sched_ok s \<Longrightarrow> task_op_valid op s \<Longrightarrow> \<exists>s'. task_op_step op s = Some s' \<and> sched_ok s'"
  using wake_expired_result [of s]
  by (cases op) (fastforce simp: task_wakeup_ok task_queue_ok set_expire_ok task_schedule_ok task_delete_ok
      set_nice_ok task_new_ok)+

lemma task_ops_ok: "sched_ok s \<Longrightarrow> task_ops_valid ops s \<Longrightarrow> \<exists>s'. task_ops_run ops s = Some s' \<and> sched_ok s'"
proof (induction ops arbitrary: s)
  case (Cons op ops)
  then show ?case using task_op_ok [OF Cons.prems(1), of op] by fastforce
qed simp

text \<open>C6: the scheduler's invariant.  Any sequence of creations, settings of the niceness, wakeups, timer changes,
  schedulings, deletions and scans of the expired timers, from a scheduler without tasks, in which no
  task is created or niced while it waits in the run queue, returns, and leaves the wait queue sorted by
  date, the run queue by position, its two counters exact, that of the niced tasks included, and
  \<open>last_timer\<close> pointing, if at all, to a task of the wait queue, hence never to one that was freed.\<close>

theorem scheduler_invariant:
  assumes "task_ops_valid ops (idle dates)"
  shows "\<exists>s. task_ops_run ops (idle dates) = Some s
    \<and> sorted (map (wq_keys s) (wq_list s)) \<and> sorted (map (rq_keys s) (rq_list s))
    \<and> run_queue s = of_nat (length (rq_list s))
    \<and> niced_tasks s = of_nat (length (filter (\<lambda>t. nice (task_of s t) \<noteq> 0) (rq_list s)))
    \<and> (case last_timer s of None \<Rightarrow> True | Some t \<Rightarrow> task_in_wq t s)"
proof -
  obtain s where s: "task_ops_run ops (idle dates) = Some s" "sched_ok s" using task_ops_ok [OF idle_ok assms] by blast
  then have "eb_root_ok (wq_keys s) (timers s)" "eb_root_ok (rq_keys s) (rqueue s)" by (simp_all add: sched_ok_def rq_ok_def wq_ok_def)
  then show ?thesis using s contents_sorted by (auto simp: sched_ok_def rq_ok_def wq_ok_def split: option.split)
qed

text \<open>Three tasks, two of them niced; one of these leaves the queue again.\<close>

definition nice_ops :: "task_op list" where
  "nice_ops = [New_task 0, Set_nice 0 (- 64), Wakeup 0 TASK_WOKEN_TIMER, New_task 1, Wakeup 1 TASK_WOKEN_TIMER,
     New_task 2, Set_nice 2 1024, Wakeup 2 TASK_WOKEN_TIMER, Delete_task 0, Queue_at 3 100, Expire_at 5]"

theorem scheduler_invariant_witness:
  "\<exists>s. task_ops_run nice_ops (idle (\<lambda>_. 0)) = Some s
    \<and> sorted (map (wq_keys s) (wq_list s)) \<and> sorted (map (rq_keys s) (rq_list s))
    \<and> run_queue s = of_nat (length (rq_list s))
    \<and> niced_tasks s = of_nat (length (filter (\<lambda>t. nice (task_of s t) \<noteq> 0) (rq_list s)))
    \<and> (case last_timer s of None \<Rightarrow> True | Some t \<Rightarrow> task_in_wq t s) \<and> niced_tasks s = 1"
proof -
  have v: "task_ops_valid nice_ops (idle (\<lambda>_. 0))" by code_simp
  have "map_option niced_tasks (task_ops_run nice_ops (idle (\<lambda>_. 0))) = Some 1" by code_simp
  with scheduler_invariant [OF v] show ?thesis by auto
qed

text \<open>The count of the niced tasks below zero.  \<open>session_shutdown\<close>, on the command line or when a server goes down, sets the
  niceness of the task of a session that may already wait in the run queue.  The task was not counted
  when it entered the queue but is when it leaves it: \<open>niced_tasks\<close> wraps to its greatest value, and from then on a
  call runs at most a quarter of its tasks although none is niced.\<close>

theorem niced_tasks_underflow:
  "let s = task_wakeup 1 TASK_WOKEN_ANY (task_wakeup 0 TASK_WOKEN_ANY (task_new 1 (task_new 0 (idle (\<lambda>_. 0)))));
       s = task_wakeup 0 TASK_WOKEN_ANY (set_nice 0 1024 s);
       s' = fst (process_runnable_tasks clear_date 0 (fst (process_runnable_tasks clear_date 0 s)))
   in niced_tasks s = 0 \<and> rq_list s = [0, 1] \<and> rq_list s' = [] \<and> niced_tasks s' = 0xFFFFFFFF
     \<and> max_processed (s'\<lparr>run_queue := 100\<rparr>) = 25"
  by code_simp

end
