(* ===== verification/HA_Server.thy ===== *)
theory HA_Server
  imports HA_Hash
begin

section \<open>Servers and backends (include/types/server.h, include/proto/backend.h, src/backend.c, src/queue.c)\<close>

text \<open>
  The state that load balancing and queueing share.  The servers of a backend
  are the list \<open>srv\<close>, in declaration order, and a pointer to a server is its
  position in this list.  Weights are unsigned in the code and never exceed
  \<open>SRV_EWGHT_MAX\<close>, so that they and their sums are integers here; \<open>wscore\<close> and
  the positions in the trees, which go below zero and wrap, keep their 32 bits.
\<close>

subsection \<open>State\<close>

datatype srv_state = SRV_ST_STOPPED | SRV_ST_STARTING | SRV_ST_RUNNING | SRV_ST_STOPPING

abbreviation SRV_ADMF_FMAINT :: byte where "SRV_ADMF_FMAINT \<equiv> 0x1"
abbreviation SRV_ADMF_IMAINT :: byte where "SRV_ADMF_IMAINT \<equiv> 0x2"
abbreviation SRV_ADMF_MAINT :: byte where "SRV_ADMF_MAINT \<equiv> 0x3"
abbreviation SRV_ADMF_FDRAIN :: byte where "SRV_ADMF_FDRAIN \<equiv> 0x4"
abbreviation SRV_ADMF_IDRAIN :: byte where "SRV_ADMF_IDRAIN \<equiv> 0x8"
abbreviation SRV_ADMF_DRAIN :: byte where "SRV_ADMF_DRAIN \<equiv> 0xC"

record server =
  state :: srv_state
  prev_state :: srv_state
  admin :: byte
  prev_admin :: byte
  is_backup :: bool
  served :: int
  cur_sess :: int
  maxconn :: u32
  minconn :: u32
  nbpend :: int
  uweight :: int
  eweight :: int
  prev_eweight :: int
  wscore :: u32
  last_change :: int
  slowstart :: int
  track :: "nat option"

record lb_map =
  map_srv :: "nat option list"
  map_recalc :: bool
  rr_idx :: int

record proxy =
  srv :: "server list"
  srv_act :: int
  srv_bck :: int
  use_all_bk :: bool
  beconn :: u32
  fullconn :: u32
  tot_wact :: int
  tot_wbck :: int
  tot_weight :: int
  tot_used :: int
  wmult :: int
  wdiv :: int
  fbck :: "nat option"
  lbmap :: lb_map

definition upd_srv :: "nat \<Rightarrow> (server \<Rightarrow> server) \<Rightarrow> proxy \<Rightarrow> proxy" where
  "upd_srv k f px = px\<lparr>srv := (srv px)[k := f (srv px ! k)]\<rparr>"

lemma nth_update: "k < length xs \<Longrightarrow> xs[i := y] ! k = (if i = k then y else xs ! k)"
  by auto

subsection \<open>Usable servers\<close>

definition lb_usable :: "int \<Rightarrow> byte \<Rightarrow> srv_state \<Rightarrow> bool" where
  "lb_usable weight adm s \<longleftrightarrow> weight \<noteq> 0 \<and> adm AND SRV_ADMF_MAINT = 0 \<and> adm AND SRV_ADMF_DRAIN = 0 \<and>
    (case s of SRV_ST_STARTING \<Rightarrow> True | SRV_ST_RUNNING \<Rightarrow> True
     | SRV_ST_STOPPING \<Rightarrow> False | SRV_ST_STOPPED \<Rightarrow> False)"

definition srv_is_usable :: "server \<Rightarrow> bool" where
  "srv_is_usable s = lb_usable (eweight s) (admin s) (state s)"

definition srv_was_usable :: "server \<Rightarrow> bool" where
  "srv_was_usable s = lb_usable (prev_eweight s) (prev_admin s) (prev_state s)"

definition srv_lb_commit_status :: "server \<Rightarrow> server" where
  "srv_lb_commit_status s = s\<lparr>prev_state := state s, prev_admin := admin s, prev_eweight := eweight s\<rparr>"

definition srv_lb_status_changed :: "server \<Rightarrow> bool" where
  "srv_lb_status_changed s \<longleftrightarrow>
    state s \<noteq> prev_state s \<or> admin s \<noteq> prev_admin s \<or> eweight s \<noteq> prev_eweight s"

definition server_is_draining :: "server \<Rightarrow> bool" where
  "server_is_draining s \<longleftrightarrow> uweight s = 0 \<or> admin s AND SRV_ADMF_DRAIN \<noteq> 0"

subsection \<open>Counting servers and weights\<close>

fun recount_loop :: "nat \<Rightarrow> server list \<Rightarrow> proxy \<Rightarrow> proxy" where
  "recount_loop k [] px = px"
| "recount_loop k (s # ss) px =
    recount_loop (Suc k) ss
      (if \<not> srv_is_usable s then px
       else if is_backup s then
         px\<lparr>fbck := (if srv_bck px = 0 \<and> \<not> use_all_bk px then Some k else fbck px),
            srv_bck := srv_bck px + 1, tot_wbck := tot_wbck px + eweight s\<rparr>
       else px\<lparr>srv_act := srv_act px + 1, tot_wact := tot_wact px + eweight s\<rparr>)"

definition recount_servers :: "proxy \<Rightarrow> proxy" where
  "recount_servers px =
    recount_loop 0 (srv px) (px\<lparr>srv_act := 0, srv_bck := 0, tot_wact := 0, tot_wbck := 0, fbck := None\<rparr>)"

definition update_backend_weight :: "proxy \<Rightarrow> proxy" where
  "update_backend_weight px =
    (if srv_act px \<noteq> 0 then px\<lparr>tot_weight := tot_wact px, tot_used := srv_act px\<rparr>
     else case fbck px of
       Some k \<Rightarrow> px\<lparr>tot_weight := eweight (srv px ! k), tot_used := 1\<rparr>
     | None \<Rightarrow> px\<lparr>tot_weight := tot_wbck px, tot_used := srv_bck px\<rparr>)"

subsection \<open>The dynamic connection limit\<close>

definition srv_dynamic_maxconn :: "int \<Rightarrow> proxy \<Rightarrow> server \<Rightarrow> u32" where
  "srv_dynamic_maxconn now px s =
    (let m = (if beconn px \<ge> fullconn px then maxconn s
              else if minconn s = maxconn s then maxconn s
              else max (minconn s) (beconn px * maxconn s div fullconn px))
     in if state s = SRV_ST_STARTING \<and> now < last_change s + slowstart s \<and> now \<ge> last_change s
        then let ratio = word_of_int (100 * (now - last_change s) div slowstart s)
             in max 1 (m * ratio div 100)
        else m)"

definition server_has_room :: "int \<Rightarrow> proxy \<Rightarrow> server \<Rightarrow> bool" where
  "server_has_room now px s \<longleftrightarrow>
    maxconn s = 0 \<or> (word_of_int (cur_sess s) :: u32) < srv_dynamic_maxconn now px s"

subsection \<open>Hash of a key\<close>

datatype hash_func = BE_LB_HFCN_SDBM | BE_LB_HFCN_DJB2 | BE_LB_HFCN_WT6

definition gen_hash :: "hash_func \<Rightarrow> byte list \<Rightarrow> u64" where
  "gen_hash f key =
    (case f of BE_LB_HFCN_DJB2 \<Rightarrow> hash_djb2 key
     | BE_LB_HFCN_WT6 \<Rightarrow> ucast (hash_wt6 key)
     | BE_LB_HFCN_SDBM \<Rightarrow> hash_sdbm key)"

subsection \<open>What the counters hold\<close>

text \<open>The servers that take part in load balancing, active or backup.\<close>

definition lb_servers :: "bool \<Rightarrow> server list \<Rightarrow> server list" where
  "lb_servers bck ss = filter (\<lambda>s. is_backup s = bck \<and> srv_is_usable s) ss"

definition weight_sum :: "bool \<Rightarrow> server list \<Rightarrow> int" where
  "weight_sum bck ss = sum_list (map eweight (lb_servers bck ss))"

definition first_backup :: "server list \<Rightarrow> nat option" where
  "first_backup ss = find (\<lambda>k. is_backup (ss ! k) \<and> srv_is_usable (ss ! k)) [0..<length ss]"

lemma lb_servers_simps [simp]:
  "lb_servers bck [] = []"
  "lb_servers bck (s # ss) = (if is_backup s = bck \<and> srv_is_usable s then s # lb_servers bck ss else lb_servers bck ss)"
  by (simp_all add: lb_servers_def)

lemma weight_sum_simps [simp]:
  "weight_sum bck [] = 0"
  "weight_sum bck (s # ss) = (if is_backup s = bck \<and> srv_is_usable s then eweight s else 0) + weight_sum bck ss"
  by (simp_all add: weight_sum_def)

lemma recount_loop_frame [simp]:
  "srv (recount_loop k ss px) = srv px"
  "use_all_bk (recount_loop k ss px) = use_all_bk px"
  "beconn (recount_loop k ss px) = beconn px"
  "fullconn (recount_loop k ss px) = fullconn px"
  "tot_weight (recount_loop k ss px) = tot_weight px"
  "tot_used (recount_loop k ss px) = tot_used px"
  "wmult (recount_loop k ss px) = wmult px"
  "wdiv (recount_loop k ss px) = wdiv px"
  "lbmap (recount_loop k ss px) = lbmap px"
  by (induction k ss px rule: recount_loop.induct) simp_all

lemma recount_loop_counts:
  "srv_act (recount_loop k ss px) = srv_act px + int (length (lb_servers False ss))"
  "srv_bck (recount_loop k ss px) = srv_bck px + int (length (lb_servers True ss))"
  "tot_wact (recount_loop k ss px) = tot_wact px + weight_sum False ss"
  "tot_wbck (recount_loop k ss px) = tot_wbck px + weight_sum True ss"
  by (induction k ss px rule: recount_loop.induct) simp_all

lemma first_backup_Cons:
  "first_backup (s # ss) = (if is_backup s \<and> srv_is_usable s then Some 0 else map_option Suc (first_backup ss))"
proof -
  have "[0..<length (s # ss)] = 0 # map Suc [0..<length ss]"
    by (simp add: map_Suc_upt upt_conv_Cons del: upt_Suc)
  moreover have "find P (map Suc xs) = map_option Suc (find (\<lambda>k. P (Suc k)) xs)" for P and xs :: "nat list"
    by (induction xs) simp_all
  ultimately show ?thesis by (simp add: first_backup_def del: upt_Suc)
qed

lemma recount_loop_fbck:
  "0 \<le> srv_bck px \<Longrightarrow> fbck (recount_loop k ss px) =
    (if srv_bck px = 0 \<and> \<not> use_all_bk px \<and> first_backup ss \<noteq> None
     then map_option (\<lambda>j. k + j) (first_backup ss) else fbck px)"
proof (induction k ss px rule: recount_loop.induct)
  case (2 k s ss px)
  show ?case
  proof (cases "srv_is_usable s \<and> is_backup s")
    case True
    with 2 show ?thesis by (simp add: first_backup_Cons)
  next
    case False
    with 2 show ?thesis
      by (cases "first_backup ss"; cases "srv_is_usable s") (simp_all add: first_backup_Cons)
  qed
qed (simp add: first_backup_def)

lemma recount_servers_counts:
  "srv_act (recount_servers px) = int (length (lb_servers False (srv px)))"
  "srv_bck (recount_servers px) = int (length (lb_servers True (srv px)))"
  "tot_wact (recount_servers px) = weight_sum False (srv px)"
  "tot_wbck (recount_servers px) = weight_sum True (srv px)"
  "fbck (recount_servers px) = (if use_all_bk px then None else first_backup (srv px))"
  "srv (recount_servers px) = srv px" "lbmap (recount_servers px) = lbmap px"
  "use_all_bk (recount_servers px) = use_all_bk px"
  "wmult (recount_servers px) = wmult px" "wdiv (recount_servers px) = wdiv px"
  by (auto simp: recount_servers_def recount_loop_counts recount_loop_fbck option.map_ident)

lemma update_backend_weight_frame [simp]:
  "srv (update_backend_weight px) = srv px" "lbmap (update_backend_weight px) = lbmap px"
  "srv_act (update_backend_weight px) = srv_act px" "srv_bck (update_backend_weight px) = srv_bck px"
  "fbck (update_backend_weight px) = fbck px" "use_all_bk (update_backend_weight px) = use_all_bk px"
  "tot_wact (update_backend_weight px) = tot_wact px" "tot_wbck (update_backend_weight px) = tot_wbck px"
  "wmult (update_backend_weight px) = wmult px" "wdiv (update_backend_weight px) = wdiv px"
  by (simp_all add: update_backend_weight_def split: option.split)

text \<open>With positive weights a backend has no usable server exactly when its total weight is null.\<close>

definition weights_ok :: "proxy \<Rightarrow> bool" where
  "weights_ok px \<longleftrightarrow> (\<forall>s \<in> set (srv px). 0 \<le> eweight s)"

lemma usable_weight: "srv_is_usable s \<Longrightarrow> 0 \<le> eweight s \<Longrightarrow> 0 < eweight s"
  by (auto simp: srv_is_usable_def lb_usable_def)

lemma weight_sum_pos:
  "\<forall>s \<in> set ss. 0 \<le> eweight s \<Longrightarrow> int (length (lb_servers b ss)) \<le> weight_sum b ss"
proof (induction ss)
  case (Cons s ss)
  then show ?case using usable_weight [of s] by auto
qed simp

text \<open>Without active server and without the option allbackups, the first usable backup server serves alone.\<close>

definition single_backup :: "proxy \<Rightarrow> bool" where
  "single_backup px \<longleftrightarrow> srv_act px = 0 \<and> \<not> use_all_bk px"

text \<open>The counters of the backend are those that a recount would give.\<close>

definition counted :: "proxy \<Rightarrow> bool" where
  "counted px \<longleftrightarrow> update_backend_weight (recount_servers px) = px"

subsection \<open>Bounds of the dynamic limit\<close>

lemma unat_mult_small: "unat a * unat b < 2 ^ 32 \<Longrightarrow> unat (a * b :: u32) = unat a * unat b"
  by (simp add: unat_word_ariths)

lemma scaled_maxconn:
  assumes "b < f" "unat b * unat m < 2 ^ 32"
  shows "b * m div f \<le> (m :: u32)"
proof -
  have "unat b * unat m \<le> unat f * unat m" using assms(1) by (simp add: word_less_nat_alt)
  from div_le_mono [OF this, of "unat f"] have "unat b * unat m div unat f \<le> unat m"
    using assms(1) by (simp add: word_less_nat_alt)
  then show ?thesis using assms(2) by (simp add: word_le_nat_alt unat_div unat_mult_small)
qed

lemma slowstart_ratio:
  fixes m :: u32
  assumes "0 \<le> r" "r \<le> 100" "unat m < 2 ^ 25" "1 \<le> m"
  shows "max 1 (m * word_of_int r div 100) \<le> m"
proof -
  have r: "unat (word_of_int r :: u32) = nat r" using assms(1,2) by (simp add: unsigned_of_int take_bit_int_eq_self)
  have le: "unat m * nat r \<le> unat m * 100" using assms(2) by (intro mult_left_mono) auto
  have "unat m * 100 < 2 ^ 32" using assms(3) by simp
  with le have "unat m * nat r < 2 ^ 32" by (rule le_less_trans)
  then have "unat (m * word_of_int r) = unat m * nat r" using unat_mult_small [of m "word_of_int r"] r by simp
  moreover have "unat m * nat r div 100 \<le> unat m" using div_le_mono [OF le, of 100] by simp
  ultimately have "m * word_of_int r div 100 \<le> m" by (simp add: word_le_nat_alt unat_div)
  then show ?thesis using assms(4) by simp
qed

text \<open>The dynamic limit.  For a server with \<open>0 < minconn \<le> maxconn\<close> and as long as the products fit
  32 bits, the limit is between 1 and maxconn, and at least minconn except while the server warms up.\<close>

theorem dynamic_maxconn_bounds:
  assumes "0 < minconn s" "minconn s \<le> maxconn s"
    and "unat (beconn px) * unat (maxconn s) < 2 ^ 32" "unat (maxconn s) < 2 ^ 25"
  shows "1 \<le> srv_dynamic_maxconn now px s \<and> srv_dynamic_maxconn now px s \<le> maxconn s
    \<and> (state s \<noteq> SRV_ST_STARTING \<longrightarrow> minconn s \<le> srv_dynamic_maxconn now px s)"
proof -
  define m where "m = (if beconn px \<ge> fullconn px then maxconn s
    else if minconn s = maxconn s then maxconn s else max (minconn s) (beconn px * maxconn s div fullconn px))"
  have m: "minconn s \<le> m" "m \<le> maxconn s"
    using assms scaled_maxconn [OF _ assms(3)] by (auto simp: m_def)
  have one: "1 \<le> m" using assms(1) m(1) by (metis le_less_trans word_less_1 not_le)
  have small: "unat m < 2 ^ 25" using m(2) assms(4) by (simp add: word_le_nat_alt)
  let ?warm = "state s = SRV_ST_STARTING \<and> now < last_change s + slowstart s \<and> now \<ge> last_change s"
  let ?r = "100 * (now - last_change s) div slowstart s"
  have e: "srv_dynamic_maxconn now px s = (if ?warm then max 1 (m * word_of_int ?r div 100) else m)"
    by (simp add: srv_dynamic_maxconn_def m_def Let_def)
  have "0 \<le> ?r \<and> ?r \<le> 100" if w: ?warm
    using w zdiv_mono1 [of "100 * (now - last_change s)" "100 * slowstart s" "slowstart s"]
    by (auto simp: pos_imp_zdiv_nonneg_iff)
  then show ?thesis
    unfolding e using m one slowstart_ratio [OF _ _ small one, of ?r] order_trans [OF _ m(2)] by auto
qed

theorem dynamic_maxconn_bounds_witness:
  "let s = \<lparr>state = SRV_ST_STARTING, prev_state = SRV_ST_RUNNING, admin = 0, prev_admin = 0, is_backup = False,
        served = 0, cur_sess = 0, maxconn = 100, minconn = 10, nbpend = 0, uweight = 1, eweight = 1,
        prev_eweight = 1, wscore = 0, last_change = 5, slowstart = 60, track = None\<rparr>;
      px = \<lparr>srv = [s], srv_act = 1, srv_bck = 0, use_all_bk = False, beconn = 30, fullconn = 60,
        tot_wact = 1, tot_wbck = 0, tot_weight = 1, tot_used = 1, wmult = 1, wdiv = 1, fbck = None,
        lbmap = \<lparr>map_srv = [Some 0], map_recalc = False, rr_idx = 0\<rparr>\<rparr>
   in 1 \<le> srv_dynamic_maxconn 20 px s \<and> srv_dynamic_maxconn 20 px s \<le> maxconn s
    \<and> (state s \<noteq> SRV_ST_STARTING \<longrightarrow> minconn s \<le> srv_dynamic_maxconn 20 px s)"
  unfolding Let_def by (rule dynamic_maxconn_bounds) simp_all

end
