(* ===== verification/HA_LB_Map.thy ===== *)
theory HA_LB_Map
  imports HA_Server
begin

section \<open>Static map load balancing (src/lb_map.c)\<close>

text \<open>
  The map is an array in which every server that takes part in load balancing
  has as many entries as its weight, interleaved.  It is recomputed lazily.  The
  code dereferences the server found for each entry and stores into the array
  without a check: both accesses are checked here, and None is the result of a
  function that would read a null pointer or leave the array.
\<close>

subsection \<open>Building the map\<close>

definition takes_part :: "bool \<Rightarrow> server \<Rightarrow> bool" where
  "takes_part flag s \<longleftrightarrow> is_backup s = flag \<and> srv_is_usable s"

text \<open>The inner loop: the servers with their scores updated, and the best one.\<close>

fun best_loop :: "int \<Rightarrow> bool \<Rightarrow> nat \<Rightarrow> server list \<Rightarrow> nat option \<Rightarrow> int \<Rightarrow> server list \<times> nat option" where
  "best_loop tot flag k [] best mx = ([], best)"
| "best_loop tot flag k (s # ss) best mx =
    (if takes_part flag s then
       if tot = 1 then (s # ss, Some k)
       else let s = s\<lparr>wscore := wscore s + word_of_int (eweight s)\<rparr>;
                v = uint ((wscore s + word_of_int tot) div word_of_int tot);
                (best, mx) = (if best = None \<or> v > mx then (Some k, v) else (best, mx))
            in map_prod ((#) s) id (best_loop tot flag (Suc k) ss best mx)
     else map_prod ((#) s) id (best_loop tot flag (Suc k) ss best mx))"

fun map_loop :: "nat \<Rightarrow> int \<Rightarrow> bool \<Rightarrow> nat \<Rightarrow> server list \<Rightarrow> nat option list \<Rightarrow> (server list \<times> nat option list) option" where
  "map_loop 0 tot flag pos ss mp = Some (ss, mp)"
| "map_loop (Suc n) tot flag pos ss mp =
    (case best_loop tot flag 0 ss None 0 of
       (ss, None) \<Rightarrow> None
     | (ss, Some b) \<Rightarrow>
         if pos \<ge> length mp then None
         else map_loop n tot flag (Suc pos) (ss[b := (ss ! b)\<lparr>wscore := wscore (ss ! b) - word_of_int tot\<rparr>])
                (mp[pos := Some b]))"

definition recalc_server_map :: "proxy \<Rightarrow> proxy option" where
  "recalc_server_map px =
    (if tot_used px = 0 then Some (px\<lparr>lbmap := (lbmap px)\<lparr>map_recalc := False\<rparr>\<rparr>)
     else let tot = tot_weight px; flag = (srv_act px = 0)
          in map_option (\<lambda>(ss, mp). px\<lparr>srv := ss, lbmap := (lbmap px)\<lparr>map_srv := mp, map_recalc := False\<rparr>\<rparr>)
               (map_loop (nat tot) tot flag 0 (map (\<lambda>s. s\<lparr>wscore := 0\<rparr>) (srv px)) (map_srv (lbmap px))))"

subsection \<open>Initialisation and status changes\<close>

function euclid :: "int \<Rightarrow> int \<Rightarrow> int" where
  "euclid p w = (if w = 0 then p else euclid w (p mod w))"
  by auto
termination
  by (relation "measure (\<lambda>(p, w). nat \<bar>w\<bar>)") (auto simp: abs_mod_less)

declare euclid.simps [simp del]

fun pgcd_loop :: "int \<Rightarrow> server list \<Rightarrow> int" where
  "pgcd_loop p [] = p"
| "pgcd_loop p (s # ss) = (if p > 1 then pgcd_loop (euclid p (uweight s)) ss else p)"

definition weights_gcd :: "server list \<Rightarrow> int" where
  "weights_gcd ss =
    (case dropWhile (\<lambda>s. uweight s = 0) ss of [] \<Rightarrow> 1 | s # ss \<Rightarrow> pgcd_loop (uweight s) ss)"

definition set_eweight :: "proxy \<Rightarrow> server \<Rightarrow> server" where
  "set_eweight px s =
    srv_lb_commit_status (s\<lparr>eweight := (uweight s * wdiv px + wmult px - 1) div wmult px\<rparr>)"

definition group_weight :: "bool \<Rightarrow> server list \<Rightarrow> int" where
  "group_weight bck ss = sum_list (map eweight (filter (\<lambda>s. is_backup s = bck) ss))"

definition init_server_map :: "proxy \<Rightarrow> proxy option" where
  "init_server_map px =
    (if srv px = [] then Some px
     else let px = px\<lparr>wmult := weights_gcd (srv px)\<rparr>;
              ss = map (set_eweight px) (srv px);
              act = max (group_weight False ss) (group_weight True ss);
              act = (if act = 0 then 1 else act);
              px = px\<lparr>srv := ss, lbmap := (lbmap px)\<lparr>map_srv := replicate (nat act) None, map_recalc := True\<rparr>\<rparr>
          in recalc_server_map (update_backend_weight (recount_servers px)))"

definition map_changed :: "proxy \<Rightarrow> proxy" where
  "map_changed px =
    (let px = update_backend_weight (recount_servers px) in px\<lparr>lbmap := (lbmap px)\<lparr>map_recalc := True\<rparr>\<rparr>)"

definition map_set_server_status_down :: "nat \<Rightarrow> proxy \<Rightarrow> proxy" where
  "map_set_server_status_down k px =
    (let s = srv px ! k
     in if \<not> srv_lb_status_changed s then px
        else upd_srv k srv_lb_commit_status (if srv_is_usable s then px else map_changed px))"

definition map_set_server_status_up :: "nat \<Rightarrow> proxy \<Rightarrow> proxy" where
  "map_set_server_status_up k px =
    (let s = srv px ! k
     in if \<not> srv_lb_status_changed s then px
        else upd_srv k srv_lb_commit_status (if \<not> srv_is_usable s then px else map_changed px))"

subsection \<open>Choosing a server\<close>

definition rr_accepts :: "int \<Rightarrow> proxy \<Rightarrow> nat \<Rightarrow> bool" where
  "rr_accepts now px k \<longleftrightarrow>
    (let s = srv px ! k
     in maxconn s = 0 \<or> nbpend s = 0 \<and> (word_of_int (served s) :: u32) < srv_dynamic_maxconn now px s)"

text \<open>
  The loop of the round robin: \<open>i\<close> is \<open>newidx\<close> before the access, \<open>av\<close> the avoided
  server with its index.  It makes at most \<open>tot_weight\<close> turns.
\<close>

fun rr_loop :: "nat \<Rightarrow> int \<Rightarrow> proxy \<Rightarrow> nat option \<Rightarrow> nat \<Rightarrow> (nat \<times> int) option \<Rightarrow> (nat option \<times> int) option" where
  "rr_loop 0 now px avoid i av = None"
| "rr_loop (Suc n) now px avoid i av =
    (if i \<ge> length (map_srv (lbmap px)) then None
     else case map_srv (lbmap px) ! i of None \<Rightarrow> None
     | Some k \<Rightarrow>
         if rr_accepts now px k \<and> Some k \<noteq> avoid then Some (Some k, int i + 1)
         else let av = (if rr_accepts now px k then Some (k, int i + 1) else av);
                  i = (if int i + 1 = tot_weight px then 0 else i + 1)
              in if int i \<noteq> rr_idx (lbmap px) then rr_loop n now px avoid i av
                 else Some (case av of None \<Rightarrow> (None, rr_idx (lbmap px)) | Some (k, j) \<Rightarrow> (Some k, j)))"

definition fresh_map :: "proxy \<Rightarrow> proxy option" where
  "fresh_map px = (if map_recalc (lbmap px) then recalc_server_map px else Some px)"

definition reset_rr :: "proxy \<Rightarrow> proxy" where
  "reset_rr px =
    (if rr_idx (lbmap px) < 0 \<or> rr_idx (lbmap px) \<ge> tot_weight px
     then px\<lparr>lbmap := (lbmap px)\<lparr>rr_idx := 0\<rparr>\<rparr> else px)"

definition map_get_server_rr :: "int \<Rightarrow> nat option \<Rightarrow> proxy \<Rightarrow> (nat option \<times> proxy) option" where
  "map_get_server_rr now avoid px =
    (if tot_weight px = 0 then Some (None, px)
     else case fresh_map px of None \<Rightarrow> None
     | Some px \<Rightarrow>
         let px = reset_rr px
         in map_option (\<lambda>(r, i). (r, px\<lparr>lbmap := (lbmap px)\<lparr>rr_idx := i\<rparr>\<rparr>))
              (rr_loop (nat (tot_weight px)) now px avoid (nat (rr_idx (lbmap px))) None))"

definition map_get_server_hash :: "u32 \<Rightarrow> proxy \<Rightarrow> (nat option \<times> proxy) option" where
  "map_get_server_hash h px =
    (if tot_weight px = 0 then Some (None, px)
     else case fresh_map px of None \<Rightarrow> None
     | Some px \<Rightarrow>
         let i = nat (uint h mod tot_weight px)
         in if i \<ge> length (map_srv (lbmap px)) then None else Some (map_srv (lbmap px) ! i, px))"

subsection \<open>One round of the construction\<close>

definition bump :: "bool \<Rightarrow> server \<Rightarrow> server" where
  "bump flag s = (if takes_part flag s then s\<lparr>wscore := wscore s + word_of_int (eweight s)\<rparr> else s)"

definition score_val :: "int \<Rightarrow> server \<Rightarrow> int" where
  "score_val tot s = uint ((wscore s + word_of_int tot) div word_of_int tot)"

lemma best_loop_servers: "tot \<noteq> 1 \<Longrightarrow> fst (best_loop tot flag k ss best mx) = map (bump flag) ss"
  by (induction tot flag k ss best mx rule: best_loop.induct) (simp_all add: bump_def Let_def)

text \<open>The best of the first \<open>i\<close> servers, with its value.\<close>

definition is_best :: "int \<Rightarrow> bool \<Rightarrow> server list \<Rightarrow> nat \<Rightarrow> nat option \<Rightarrow> int \<Rightarrow> bool" where
  "is_best tot flag ss i best mx \<longleftrightarrow>
    (case best of None \<Rightarrow> \<forall>j < i. \<not> takes_part flag (ss ! j)
     | Some b \<Rightarrow> b < i \<and> takes_part flag (ss ! b) \<and> mx = score_val tot (bump flag (ss ! b))
         \<and> (\<forall>j < i. takes_part flag (ss ! j) \<longrightarrow> score_val tot (bump flag (ss ! j)) \<le> mx))"

lemma best_loop_best:
  assumes "tot \<noteq> 1" "is_best tot flag ss k best mx" "k \<le> length ss"
  shows "\<exists>mx'. is_best tot flag ss (length ss) (snd (best_loop tot flag k (drop k ss) best mx)) mx'"
  using assms
proof (induction "length ss - k" arbitrary: k best mx)
  case (Suc n)
  then have k: "k < length ss" and drop: "drop k ss = ss ! k # drop (Suc k) ss"
    by (simp_all add: Cons_nth_drop_Suc)
  let ?v = "score_val tot (bump flag (ss ! k))"
  let ?new = "takes_part flag (ss ! k) \<and> (best = None \<or> ?v > mx)"
  let ?b = "if ?new then Some k else best" and ?m = "if ?new then ?v else mx"
  have "snd (best_loop tot flag k (drop k ss) best mx) = snd (best_loop tot flag (Suc k) (drop (Suc k) ss) ?b ?m)"
    using Suc.prems(1) by (simp add: drop score_val_def bump_def Let_def)
  moreover have "is_best tot flag ss (Suc k) ?b ?m"
    using Suc.prems(2) by (auto simp: is_best_def less_Suc_eq split: option.splits)
  ultimately show ?case using Suc.hyps Suc.prems(1) k by simp
qed auto

subsection \<open>The whole construction\<close>

definition members :: "bool \<Rightarrow> server list \<Rightarrow> nat set" where
  "members flag ss = {k. k < length ss \<and> takes_part flag (ss ! k)}"

text \<open>The score of server \<open>k\<close> after \<open>n\<close> entries: what it earned less what it was given.\<close>

definition due :: "int \<Rightarrow> server list \<Rightarrow> nat option list \<Rightarrow> nat \<Rightarrow> nat \<Rightarrow> int" where
  "due tot ss0 mp n k = int n * eweight (ss0 ! k) - tot * int (count_list (take n mp) (Some k))"

definition map_inv :: "int \<Rightarrow> bool \<Rightarrow> server list \<Rightarrow> nat \<Rightarrow> server list \<Rightarrow> nat option list \<Rightarrow> bool" where
  "map_inv tot flag ss0 n ss mp \<longleftrightarrow>
    length ss = length ss0 \<and> (\<forall>k < length ss0. (ss ! k)\<lparr>wscore := 0\<rparr> = (ss0 ! k)\<lparr>wscore := 0\<rparr>)
    \<and> n \<le> length mp \<and> set (take n mp) \<subseteq> Some ` members flag ss0
    \<and> (\<forall>k \<in> members flag ss0. wscore (ss ! k) = word_of_int (due tot ss0 mp n k) \<and> - tot \<le> due tot ss0 mp n k
         \<and> (int n = tot \<longrightarrow> 0 \<le> due tot ss0 mp n k))"

lemma finite_members [simp]: "finite (members flag ss)"
  by (simp add: members_def)

lemma members_weight: "(\<Sum>k \<in> members flag ss. eweight (ss ! k)) = weight_sum flag ss"
proof -
  have "weight_sum flag ss = sum_list (map (\<lambda>k. eweight (ss ! k)) (filter (\<lambda>k. takes_part flag (ss ! k)) [0..<length ss]))"
    unfolding weight_sum_def lb_servers_def takes_part_def [symmetric]
    by (subst map_nth [of ss, symmetric], subst filter_map) (simp add: o_def)
  also have "\<dots> = (\<Sum>k \<in> set (filter (\<lambda>k. takes_part flag (ss ! k)) [0..<length ss]). eweight (ss ! k))"
    by (rule sum_list_distinct_conv_sum_set) simp
  also have "set (filter (\<lambda>k. takes_part flag (ss ! k)) [0..<length ss]) = members flag ss"
    by (auto simp: members_def)
  finally show ?thesis by simp
qed

lemma count_members:
  assumes "set xs \<subseteq> Some ` members flag ss"
  shows "(\<Sum>k \<in> members flag ss. count_list xs (Some k)) = length xs"
  using sum_count_set [OF assms] by (simp add: sum.reindex)

lemma takes_part_wscore: "s\<lparr>wscore := 0\<rparr> = t\<lparr>wscore := 0\<rparr> \<Longrightarrow> takes_part flag s = takes_part flag t \<and> eweight s = eweight t"
  by (cases s; cases t) (simp add: takes_part_def srv_is_usable_def)

lemma score_val_int:
  assumes "wscore s = word_of_int a" "- tot \<le> a" "a + tot < 2 ^ 32" "0 < tot" "tot < 2 ^ 32"
  shows "score_val tot s = (a + tot) div tot"
proof -
  have "uint (word_of_int (a + tot) :: u32) = a + tot"
    using assms by (simp add: uint_word_of_int del: of_int_add)
  then have "uint (wscore s + word_of_int tot) = a + tot" by (simp add: assms(1))
  moreover have "uint (word_of_int tot :: u32) = tot" using assms by (simp add: uint_word_of_int)
  ultimately show ?thesis by (simp add: score_val_def uint_div_distrib)
qed

lemma due_step:
  assumes "n < length mp"
  shows "due tot ss0 (mp[n := Some b]) (Suc n) k = due tot ss0 mp n k + eweight (ss0 ! k) - (if k = b then tot else 0)"
  using assms by (auto simp: due_def take_Suc_conv_app_nth algebra_simps)

lemma due_sum:
  assumes "map_inv tot flag ss0 n ss mp" "weight_sum flag ss0 = tot"
  shows "(\<Sum>k \<in> members flag ss0. due tot ss0 mp n k) = 0"
proof -
  have "(\<Sum>k \<in> members flag ss0. int (count_list (take n mp) (Some k))) = int n"
    using assms count_members [of "take n mp" flag ss0] by (simp add: map_inv_def flip: of_nat_sum)
  then show ?thesis
    using assms(2) by (simp add: due_def sum_subtractf members_weight flip: sum_distrib_left)
qed

lemma le_div_mult: "0 < t \<Longrightarrow> c \<le> x div t \<longleftrightarrow> c * t \<le> x" for c t x :: int
proof
  assume "0 < t" "c \<le> x div t"
  then show "c * t \<le> x"
    using mult_right_mono [of c "x div t" t] div_mult_mod_eq [of x t] pos_mod_sign [of t x] by linarith
next
  assume "0 < t" "c * t \<le> x"
  then show "c \<le> x div t" using zdiv_mono1 [of "c * t" x t] by simp
qed

lemma member_weight:
  "\<forall>s \<in> set ss. 0 \<le> eweight s \<Longrightarrow> k \<in> members flag ss \<Longrightarrow> 0 < eweight (ss ! k)"
  using usable_weight [of "ss ! k"] by (auto simp: members_def takes_part_def)

lemma due_above:
  assumes "map_inv tot flag ss0 n ss mp" "\<forall>s \<in> set ss0. 0 \<le> eweight s" "k \<in> members flag ss0"
  shows "- tot < due tot ss0 mp n k + eweight (ss0 ! k)"
  using assms(1,3) member_weight [OF assms(2,3)] by (force simp: map_inv_def)

text \<open>Among the servers that take part, one has a positive score.\<close>

lemma some_due:
  assumes "map_inv tot flag ss0 n ss mp" "weight_sum flag ss0 = tot" "0 < tot"
  obtains k where "k \<in> members flag ss0" "0 < due tot ss0 mp n k + eweight (ss0 ! k)"
proof -
  let ?a = "\<lambda>k. due tot ss0 mp n k + eweight (ss0 ! k)"
  have "(\<Sum>k \<in> members flag ss0. ?a k) = tot"
    using due_sum [OF assms(1,2)] assms(2) by (simp add: sum.distrib members_weight)
  then have "\<not> (\<forall>k \<in> members flag ss0. ?a k \<le> 0)"
    using sum_nonpos [of "members flag ss0" ?a] assms(3) by fastforce
  then show thesis using that by force
qed

text \<open>The best server has a score that is not negative, and at least the total if one has.\<close>

lemma round_best:
  assumes inv: "map_inv tot flag ss0 n ss mp" and tot: "weight_sum flag ss0 = tot" "1 < tot" "tot * tot + tot < 2 ^ 32"
    and w: "\<forall>s \<in> set ss0. 0 \<le> eweight s" and n: "int n < tot"
  obtains b where "best_loop tot flag 0 ss None 0 = (map (bump flag) ss, Some b)" "b \<in> members flag ss0"
    "0 \<le> due tot ss0 mp n b + eweight (ss0 ! b)"
    "\<And>k. k \<in> members flag ss0 \<Longrightarrow> tot \<le> due tot ss0 mp n k + eweight (ss0 ! k) \<Longrightarrow>
       tot \<le> due tot ss0 mp n b + eweight (ss0 ! b)"
proof -
  let ?a = "\<lambda>k. due tot ss0 mp n k + eweight (ss0 ! k)"
  have same: "k < length ss0 \<Longrightarrow> takes_part flag (ss ! k) = takes_part flag (ss0 ! k) \<and> eweight (ss ! k) = eweight (ss0 ! k)" for k
    using inv takes_part_wscore [of "ss ! k" "ss0 ! k" flag] by (simp add: map_inv_def)
  have len: "length ss = length ss0" using inv by (simp add: map_inv_def)
  note pos = member_weight [OF w]
  have le: "eweight (ss0 ! k) \<le> tot" if "k \<in> members flag ss0" for k
    using member_le_sum [OF that, of "\<lambda>k. eweight (ss0 ! k)"] pos tot(1) by (force simp: members_weight)
  have val: "score_val tot (bump flag (ss ! k)) = (?a k + tot) div tot" if k: "k \<in> members flag ss0" for k
  proof (rule score_val_int)
    have "wscore (ss ! k) = word_of_int (due tot ss0 mp n k)" "- tot \<le> due tot ss0 mp n k"
      using inv k by (simp_all add: map_inv_def)
    then show "wscore (bump flag (ss ! k)) = word_of_int (?a k)" "- tot \<le> ?a k"
      using k same pos [OF k] by (auto simp: bump_def members_def)
    have "?a k \<le> (int n + 1) * eweight (ss0 ! k)" using tot(2) by (simp add: due_def algebra_simps)
    also have "\<dots> \<le> tot * tot" using n le [OF k] pos [OF k] by (intro mult_mono) auto
    finally show "?a k + tot < 2 ^ 32" using tot(3) by simp
    have "tot \<le> tot * tot" using tot(2) by simp
    then show "0 < tot" "tot < 2 ^ 32" using tot(2,3) by linarith+
  qed
  obtain k where k: "k \<in> members flag ss0" "0 < ?a k" using some_due [OF inv tot(1)] tot(2) by auto
  have "is_best tot flag ss 0 None 0" by (simp add: is_best_def)
  with best_loop_best [of tot flag ss 0 None 0] tot(2) obtain mx
    where mx: "is_best tot flag ss (length ss) (snd (best_loop tot flag 0 ss None 0)) mx" by auto
  obtain b where b: "snd (best_loop tot flag 0 ss None 0) = Some b"
    using mx k(1) same len by (cases "snd (best_loop tot flag 0 ss None 0)") (auto simp: is_best_def members_def)
  have bm: "b \<in> members flag ss0" using mx b same [of b] len by (auto simp: is_best_def members_def)
  have best: "(?a j + tot) div tot \<le> (?a b + tot) div tot" if "j \<in> members flag ss0" for j
    using mx b that same len val [OF that] val [OF bm] by (auto simp: is_best_def members_def)
  have ge: "c \<le> (?a j + tot) div tot \<longleftrightarrow> (c - 1) * tot \<le> ?a j" for c j
    using tot(2) by (simp add: le_div_mult algebra_simps)
  show thesis
  proof (rule that [OF _ bm])
    show "best_loop tot flag 0 ss None 0 = (map (bump flag) ss, Some b)"
      using best_loop_servers [of tot flag 0 ss None 0] b tot(2) by (metis less_irrefl prod.collapse)
    show "0 \<le> ?a b" using best [OF k(1)] ge [of 1 k] ge [of 1 b] k(2) by simp
    show "tot \<le> ?a b" if "j \<in> members flag ss0" "tot \<le> ?a j" for j
      using best [OF that(1)] ge [of 2 j] ge [of 2 b] that(2) by simp
  qed
qed

text \<open>
  Before the last entry every score is a multiple of the total above its opposite, so none is
  negative; the best one is the total itself.
\<close>

lemma last_round:
  assumes inv: "map_inv tot flag ss0 n ss mp" and tot: "weight_sum flag ss0 = tot" "1 < tot"
    and w: "\<forall>s \<in> set ss0. 0 \<le> eweight s" and k: "k \<in> members flag ss0"
    and big: "\<And>k. k \<in> members flag ss0 \<Longrightarrow> tot \<le> due tot ss0 mp n k + eweight (ss0 ! k) \<Longrightarrow>
       tot \<le> due tot ss0 mp n b + eweight (ss0 ! b)"
    and e: "int (Suc n) = tot"
  shows "0 \<le> due tot ss0 mp n k + eweight (ss0 ! k) - (if k = b then tot else 0)"
proof -
  let ?a = "\<lambda>k. due tot ss0 mp n k + eweight (ss0 ! k)"
  let ?q = "\<lambda>j. eweight (ss0 ! j) - int (count_list (take n mp) (Some j))"
  have mult: "?a j = tot * ?q j" for j by (simp add: due_def algebra_simps flip: e)
  have nn: "0 \<le> ?a j" if "j \<in> members flag ss0" for j
    using due_above [OF inv w that] mult [of j] tot(2) mult_left_mono [of "?q j" "- 1" tot]
    by (cases "0 \<le> ?q j") simp_all
  obtain j where j: "j \<in> members flag ss0" "0 < ?a j" using some_due [OF inv tot(1)] tot(2) by auto
  have "1 \<le> ?q j" using j(2) mult [of j] tot(2) by (simp add: zero_less_mult_iff)
  from mult_left_mono [OF this, of tot] have "tot \<le> ?a j" using mult [of j] tot(2) by simp
  then have "tot \<le> ?a b" using big [OF j(1)] by simp
  then show ?thesis using nn [OF k] by simp
qed

lemma map_inv_step:
  assumes inv: "map_inv tot flag ss0 n ss mp" and tot: "weight_sum flag ss0 = tot" "1 < tot"
    and w: "\<forall>s \<in> set ss0. 0 \<le> eweight s" and n: "n < length mp"
    and b: "b \<in> members flag ss0" "0 \<le> due tot ss0 mp n b + eweight (ss0 ! b)"
    and big: "\<And>k. k \<in> members flag ss0 \<Longrightarrow> tot \<le> due tot ss0 mp n k + eweight (ss0 ! k) \<Longrightarrow>
       tot \<le> due tot ss0 mp n b + eweight (ss0 ! b)"
  defines "ss1 \<equiv> map (bump flag) ss"
  shows "map_inv tot flag ss0 (Suc n) (ss1[b := (ss1 ! b)\<lparr>wscore := wscore (ss1 ! b) - word_of_int tot\<rparr>]) (mp[n := Some b])"
proof -
  let ?a = "\<lambda>k. due tot ss0 mp n k + eweight (ss0 ! k)"
  let ?ss = "ss1[b := (ss1 ! b)\<lparr>wscore := wscore (ss1 ! b) - word_of_int tot\<rparr>]"
  have len: "length ss = length ss0" and bl: "b < length ss0" using inv b by (auto simp: map_inv_def members_def)
  have same: "(ss ! k)\<lparr>wscore := 0\<rparr> = (ss0 ! k)\<lparr>wscore := 0\<rparr>" if "k < length ss0" for k
    using inv that by (simp add: map_inv_def)
  have frame: "(?ss ! k)\<lparr>wscore := 0\<rparr> = (ss0 ! k)\<lparr>wscore := 0\<rparr>" if k: "k < length ss0" for k
    using same [OF k] k bl len by (simp add: ss1_def nth_list_update bump_def)
  have score: "wscore (?ss ! k) = word_of_int (?a k - (if k = b then tot else 0))"
    if k: "k \<in> members flag ss0" for k
  proof -
    have "k < length ss0" "takes_part flag (ss0 ! k)" using k by (simp_all add: members_def)
    moreover have "wscore (ss ! k) = word_of_int (due tot ss0 mp n k)" using inv k by (simp add: map_inv_def)
    ultimately show ?thesis
      using takes_part_wscore [OF same, of k flag] bl len by (auto simp: ss1_def bump_def nth_list_update)
  qed
  have "set (take (Suc n) (mp[n := Some b])) \<subseteq> Some ` members flag ss0"
    using inv b n by (auto simp: map_inv_def take_Suc_conv_app_nth)
  moreover have "- tot \<le> ?a k - (if k = b then tot else 0)" if "k \<in> members flag ss0" for k
    using due_above [OF inv w that] b(2) by auto
  moreover have "0 \<le> ?a k - (if k = b then tot else 0)" if "k \<in> members flag ss0" "int (Suc n) = tot" for k
    by (rule last_round [OF inv tot w that(1) big that(2)])
  ultimately show ?thesis
    using frame score n len unfolding map_inv_def due_step [OF n] by (simp add: ss1_def)
qed

lemma map_loop_inv:
  assumes "map_inv tot flag ss0 pos ss mp" "weight_sum flag ss0 = tot" "1 < tot" "tot * tot + tot < 2 ^ 32"
    "\<forall>s \<in> set ss0. 0 \<le> eweight s" "int pos + int n = tot" "nat tot \<le> length mp"
  shows "\<exists>ss' mp'. map_loop n tot flag pos ss mp = Some (ss', mp')
    \<and> map_inv tot flag ss0 (nat tot) ss' mp' \<and> length mp' = length mp"
  using assms
proof (induction n arbitrary: pos ss mp)
  case 0
  then have "pos = nat tot" by simp
  with 0 show ?case by simp
next
  case (Suc n)
  then have pos: "int pos < tot" "pos < length mp" by linarith+
  obtain b where b: "best_loop tot flag 0 ss None 0 = (map (bump flag) ss, Some b)" "b \<in> members flag ss0"
    "0 \<le> due tot ss0 mp pos b + eweight (ss0 ! b)"
    and big: "\<And>k. k \<in> members flag ss0 \<Longrightarrow> tot \<le> due tot ss0 mp pos k + eweight (ss0 ! k) \<Longrightarrow>
       tot \<le> due tot ss0 mp pos b + eweight (ss0 ! b)"
    using round_best [OF Suc.prems(1-5) pos(1)] by blast
  note inv = map_inv_step [OF Suc.prems(1-3,5) pos(2) b(2,3) big]
  show ?case using Suc.IH [OF inv Suc.prems(2-5)] Suc.prems(6,7) pos(2) b(1) by simp
qed

text \<open>With a total of one there is exactly one server to place.\<close>

lemma map_one:
  assumes tot: "weight_sum flag ss = 1" and w: "\<forall>s \<in> set ss. 0 \<le> eweight s"
  obtains b where "members flag ss = {b}" "eweight (ss ! b) = 1" "best_loop 1 flag k ss None 0 = (ss, Some (k + b))"
  using assms
proof (induction ss arbitrary: k thesis)
  case (Cons s ss)
  show ?case
  proof (cases "takes_part flag s")
    case True
    then have "0 < eweight s" using Cons.prems(3) usable_weight by (simp add: takes_part_def)
    moreover have "int (length (lb_servers flag ss)) \<le> weight_sum flag ss" using weight_sum_pos Cons.prems(3) by simp
    moreover have "eweight s + weight_sum flag ss = 1" using True Cons.prems(2) by (simp add: takes_part_def)
    ultimately have "eweight s = 1" "length (lb_servers flag ss) = 0" by linarith+
    then have e: "eweight s = 1" "lb_servers flag ss = []" by simp_all
    then have "members flag (s # ss) = {0}"
      using True by (auto simp: members_def lb_servers_def filter_empty_conv takes_part_def less_Suc_eq_0_disj)
    then show ?thesis using True e Cons.prems(1) [of 0] by simp
  next
    case False
    then have "weight_sum flag ss = 1" using Cons.prems(2) by (auto simp: takes_part_def)
    then obtain b where b: "members flag ss = {b}" "eweight (ss ! b) = 1"
      "best_loop 1 flag (Suc k) ss None 0 = (ss, Some (Suc k + b))"
      using Cons.IH Cons.prems(3) by (metis list.set_intros(2))
    have "members flag (s # ss) = Suc ` members flag ss"
      using False by (auto simp: members_def less_Suc_eq_0_disj)
    then show ?thesis using False b Cons.prems(1) [of "Suc b"] by simp
  qed
qed simp

definition map_exact :: "bool \<Rightarrow> server list \<Rightarrow> nat \<Rightarrow> nat option list \<Rightarrow> bool" where
  "map_exact flag ss tot mp \<longleftrightarrow> tot \<le> length mp \<and>
    (\<forall>k. count_list (take tot mp) (Some k) = (if k \<in> members flag ss then nat (eweight (ss ! k)) else 0))
    \<and> None \<notin> set (take tot mp)"

lemma map_inv_exact:
  assumes inv: "map_inv tot flag ss0 (nat tot) ss mp" and tot: "weight_sum flag ss0 = tot" "0 < tot"
    and w: "\<forall>s \<in> set ss0. 0 \<le> eweight s"
  shows "map_exact flag ss0 (nat tot) mp"
proof -
  let ?c = "\<lambda>k. int (count_list (take (nat tot) mp) (Some k))"
  have sub: "set (take (nat tot) mp) \<subseteq> Some ` members flag ss0" and len: "nat tot \<le> length mp"
    using inv by (auto simp: map_inv_def)
  have le: "0 \<le> eweight (ss0 ! k) - ?c k" if "k \<in> members flag ss0" for k
  proof -
    have "0 \<le> tot * (eweight (ss0 ! k) - ?c k)" using inv tot(2) that by (simp add: map_inv_def due_def algebra_simps)
    then show ?thesis using tot(2) by (simp add: zero_le_mult_iff)
  qed
  have "(\<Sum>k \<in> members flag ss0. eweight (ss0 ! k) - ?c k) = 0"
    using count_members [OF sub] len tot by (simp add: sum_subtractf members_weight flip: of_nat_sum)
  then have "\<forall>k \<in> members flag ss0. ?c k = eweight (ss0 ! k)"
    using sum_nonneg_eq_0_iff [of "members flag ss0" "\<lambda>k. eweight (ss0 ! k) - ?c k"] le by simp
  moreover have "count_list (take (nat tot) mp) (Some k) = 0" if "k \<notin> members flag ss0" for k
    using sub that by (auto simp: count_list_0_iff)
  ultimately show ?thesis using sub len by (force simp: map_exact_def)
qed

lemma weight_sum_reset [simp]: "weight_sum flag (map (\<lambda>s. s\<lparr>wscore := w\<rparr>) ss) = weight_sum flag ss"
  by (induction ss) (simp_all add: srv_is_usable_def)

text \<open>
  The construction is safe and exact whenever the array is large enough: the scores it leaves are
  all it changes in the servers.
\<close>

lemma map_loop_exact:
  assumes tot: "weight_sum flag ss = tot" "0 < tot" "tot * tot + tot < 2 ^ 32"
    and w: "\<forall>s \<in> set ss. 0 \<le> eweight s" and len: "nat tot \<le> length mp"
  obtains ss' mp' where "map_loop (nat tot) tot flag 0 (map (\<lambda>s. s\<lparr>wscore := 0\<rparr>) ss) mp = Some (ss', mp')"
    "map_exact flag ss (nat tot) mp'" "length mp' = length mp"
    "map (\<lambda>s. s\<lparr>wscore := 0\<rparr>) ss' = map (\<lambda>s. s\<lparr>wscore := 0\<rparr>) ss"
proof (cases "tot = 1")
  case True
  let ?ss = "map (\<lambda>s. s\<lparr>wscore := 0\<rparr>) ss"
  have 1: "weight_sum flag ?ss = 1" "\<forall>s \<in> set ?ss. 0 \<le> eweight s"
    using tot(1) w True by simp_all
  from map_one [OF this] obtain b where b: "members flag ?ss = {b}" "eweight (?ss ! b) = 1"
    "best_loop 1 flag 0 ?ss None 0 = (?ss, Some (0 + b))" by blast
  have m: "members flag ?ss = members flag ss" by (auto simp: members_def takes_part_def srv_is_usable_def)
  obtain x mp1 where mp: "mp = x # mp1" using len True by (cases mp) auto
  have bl: "b < length ss" using b(1) by (auto simp: members_def)
  show thesis
  proof (rule that)
    show "map_loop (nat tot) tot flag 0 ?ss mp = Some (?ss[b := (?ss ! b)\<lparr>wscore := wscore (?ss ! b) - word_of_int tot\<rparr>], Some b # mp1)"
      using True b(3) mp by simp
    show "map_exact flag ss (nat tot) (Some b # mp1)" using True b m bl by (auto simp: map_exact_def)
    show "length (Some b # mp1) = length mp" using mp by simp
    show "map (\<lambda>s. s\<lparr>wscore := 0\<rparr>) (?ss[b := (?ss ! b)\<lparr>wscore := wscore (?ss ! b) - word_of_int tot\<rparr>]) = ?ss"
      using bl by (intro nth_equalityI) (simp_all add: nth_list_update)
  qed
next
  case False
  have "map_inv tot flag ss 0 (map (\<lambda>s. s\<lparr>wscore := 0\<rparr>) ss) mp"
    using tot(2) by (auto simp: map_inv_def due_def members_def)
  from map_loop_inv [OF this tot(1) _ tot(3) w _ len, of "nat tot"] False tot(2)
    obtain ss' mp' where r: "map_loop (nat tot) tot flag 0 (map (\<lambda>s. s\<lparr>wscore := 0\<rparr>) ss) mp = Some (ss', mp')"
    "map_inv tot flag ss (nat tot) ss' mp'" "length mp' = length mp" by auto
  then show thesis
    using that [OF r(1) map_inv_exact [OF r(2) tot(1,2) w] r(3)]
    unfolding map_inv_def by (simp add: list_eq_iff_nth_eq)
qed

subsection \<open>The map of a backend\<close>

abbreviation lb_flag :: "proxy \<Rightarrow> bool" where
  "lb_flag px \<equiv> srv_act px = 0"

lemma counted_counts:
  assumes "counted px"
  shows "srv_act px = int (length (lb_servers False (srv px)))"
    "srv_act px \<noteq> 0 \<or> use_all_bk px \<Longrightarrow> tot_weight px = weight_sum (lb_flag px) (srv px)"
    "srv_act px \<noteq> 0 \<or> use_all_bk px \<Longrightarrow> tot_used px = int (length (lb_servers (lb_flag px) (srv px)))"
proof -
  let ?r = "recount_servers px"
  have u: "update_backend_weight ?r = px" using assms by (simp add: counted_def)
  have act: "srv_act px = srv_act ?r"
    using arg_cong [OF u, of srv_act] by simp
  then show "srv_act px = int (length (lb_servers False (srv px)))" by (simp add: recount_servers_counts)
  assume a: "srv_act px \<noteq> 0 \<or> use_all_bk px"
  have "tot_weight (update_backend_weight ?r) = weight_sum (lb_flag px) (srv px) \<and>
    tot_used (update_backend_weight ?r) = int (length (lb_servers (lb_flag px) (srv px)))"
    using a act by (auto simp: update_backend_weight_def recount_servers_counts)
  then show "tot_weight px = weight_sum (lb_flag px) (srv px)"
    "tot_used px = int (length (lb_servers (lb_flag px) (srv px)))" unfolding u by simp_all
qed

text \<open>The construction finds a server for every entry as soon as one server takes part.\<close>

lemma best_loop_some:
  "best \<noteq> None \<or> (\<exists>s \<in> set ss. takes_part flag s) \<Longrightarrow> snd (best_loop tot flag k ss best mx) \<noteq> None"
  by (induction tot flag k ss best mx rule: best_loop.induct) (auto simp: Let_def)

lemma best_loop_members:
  "map (takes_part flag) (fst (best_loop tot flag k ss best mx)) = map (takes_part flag) ss"
  by (induction tot flag k ss best mx rule: best_loop.induct)
     (auto simp: Let_def takes_part_def srv_is_usable_def)

lemma map_loop_safe:
  "\<exists>s \<in> set ss. takes_part flag s \<Longrightarrow> pos + n \<le> length mp \<Longrightarrow> map_loop n tot flag pos ss mp \<noteq> None"
proof (induction n arbitrary: pos ss mp)
  case (Suc n)
  obtain ss' b where r: "best_loop tot flag 0 ss None 0 = (ss', Some b)"
    using best_loop_some [of None ss flag tot 0 0] Suc.prems(1) by (metis option.collapse prod.collapse)
  have "map (takes_part flag) ss' = map (takes_part flag) ss" using best_loop_members [of flag tot 0 ss None 0] r by simp
  moreover have t: "True \<in> set (map (takes_part flag) ss)" using Suc.prems(1) by force
  moreover have "map (takes_part flag) (ss'[b := (ss' ! b)\<lparr>wscore := w\<rparr>]) = map (takes_part flag) ss'" for w
  proof -
    have "takes_part flag ((ss' ! b)\<lparr>wscore := w\<rparr>) = takes_part flag (ss' ! b)" by (simp add: takes_part_def srv_is_usable_def)
    then have "map (takes_part flag) (ss'[b := (ss' ! b)\<lparr>wscore := w\<rparr>]) = map (takes_part flag) (ss'[b := ss' ! b])"
      unfolding map_update by simp
    then show ?thesis by simp
  qed
  ultimately have "True \<in> set (map (takes_part flag) (ss'[b := (ss' ! b)\<lparr>wscore := wscore (ss' ! b) - word_of_int tot\<rparr>]))"
    using t by (simp del: set_map)
  then have "\<exists>s \<in> set (ss'[b := (ss' ! b)\<lparr>wscore := wscore (ss' ! b) - word_of_int tot\<rparr>]). takes_part flag s" by auto
  then show ?case using Suc.IH [of _ "Suc pos" "mp[pos := Some b]"] Suc.prems(2) r by simp
qed simp

lemma counted_member:
  assumes "counted px" "tot_used px \<noteq> 0"
  shows "\<exists>s \<in> set (srv px). takes_part (lb_flag px) s"
proof -
  have u: "update_backend_weight (recount_servers px) = px" using assms(1) by (simp add: counted_def)
  have "lb_servers (lb_flag px) (srv px) \<noteq> []"
  proof (cases "srv_act px \<noteq> 0 \<or> use_all_bk px")
    case True
    then show ?thesis using counted_counts(3) [OF assms(1)] assms(2) by auto
  next
    case False
    then have "tot_used px = (case first_backup (srv px) of None \<Rightarrow> int (length (lb_servers True (srv px))) | Some k \<Rightarrow> 1)"
      using arg_cong [OF u, of tot_used] counted_counts(1) [OF assms(1)]
      by (simp add: update_backend_weight_def recount_servers_counts split: option.splits)
    moreover have "lb_servers True (srv px) \<noteq> []" if "first_backup (srv px) = Some k" for k
      using that by (auto simp: first_backup_def find_Some_iff lb_servers_def filter_empty_conv)
    ultimately show ?thesis using assms(2) False by (auto split: option.splits)
  qed
  then show ?thesis by (auto simp: lb_servers_def takes_part_def filter_empty_conv)
qed

text \<open>C13: building the map.  In an array at least as long as the total weight, \<open>recalc_server_map\<close> neither leaves
  the array nor meets a null pointer.  With active servers, or with the option allbackups, each server of the group in
  use gets exactly as many entries as its weight, and only the scores of the servers change, as long as the
  square of the total weight fits 32 bits.  (Without them the entries are shared with backup servers that
  should not serve: see below.)\<close>

theorem recalc_map_exact:
  assumes "counted px" "weights_ok px" "nat (tot_weight px) \<le> length (map_srv (lbmap px))"
  shows "recalc_server_map px \<noteq> None
    \<and> (\<not> single_backup px \<and> tot_weight px * tot_weight px + tot_weight px < 2 ^ 32 \<longrightarrow>
      (\<exists>ss mp. recalc_server_map px
          = Some (px\<lparr>srv := ss, lbmap := (lbmap px)\<lparr>map_srv := mp, map_recalc := False\<rparr>\<rparr>)
        \<and> map_exact (lb_flag px) (srv px) (nat (tot_weight px)) mp \<and> length mp = length (map_srv (lbmap px))
        \<and> map (\<lambda>s. s\<lparr>wscore := 0\<rparr>) ss = map (\<lambda>s. s\<lparr>wscore := 0\<rparr>) (srv px)))"
proof (cases "tot_used px = 0")
  case True
  have "map_exact (lb_flag px) (srv px) (nat (tot_weight px)) (map_srv (lbmap px))" if "\<not> single_backup px"
  proof -
    have g: "srv_act px \<noteq> 0 \<or> use_all_bk px" using that by (auto simp: single_backup_def)
    have "lb_servers (lb_flag px) (srv px) = []" "tot_weight px = 0"
      using counted_counts(2,3) [OF assms(1) g] True by (simp_all add: weight_sum_def)
    then show ?thesis by (auto simp: map_exact_def members_def lb_servers_def filter_empty_conv takes_part_def)
  qed
  then show ?thesis using True
    by (auto intro!: exI [of _ "srv px"] exI [of _ "map_srv (lbmap px)"] simp: recalc_server_map_def)
next
  case False
  have "\<exists>s \<in> set (map (\<lambda>s. s\<lparr>wscore := 0\<rparr>) (srv px)). takes_part (lb_flag px) s"
    using counted_member [OF assms(1) False] by (auto simp: takes_part_def srv_is_usable_def)
  from map_loop_safe [OF this, of 0 "nat (tot_weight px)"] assms(3)
  have safe: "recalc_server_map px \<noteq> None" using False by (simp add: recalc_server_map_def Let_def)
  have "\<exists>ss mp. recalc_server_map px
          = Some (px\<lparr>srv := ss, lbmap := (lbmap px)\<lparr>map_srv := mp, map_recalc := False\<rparr>\<rparr>)
        \<and> map_exact (lb_flag px) (srv px) (nat (tot_weight px)) mp \<and> length mp = length (map_srv (lbmap px))
        \<and> map (\<lambda>s. s\<lparr>wscore := 0\<rparr>) ss = map (\<lambda>s. s\<lparr>wscore := 0\<rparr>) (srv px)"
    if "\<not> single_backup px" "tot_weight px * tot_weight px + tot_weight px < 2 ^ 32"
  proof -
    have g: "srv_act px \<noteq> 0 \<or> use_all_bk px" using that(1) by (auto simp: single_backup_def)
    have w: "\<forall>s \<in> set (srv px). 0 \<le> eweight s" using assms(2) by (simp add: weights_ok_def)
    have t: "weight_sum (lb_flag px) (srv px) = tot_weight px" using counted_counts(2) [OF assms(1) g] by simp
    have "0 < tot_weight px"
      using weight_sum_pos [OF w, of "lb_flag px"] False counted_counts(3) [OF assms(1) g] t
      by (cases "lb_servers (lb_flag px) (srv px)") simp_all
    from map_loop_exact [OF t this that(2) w assms(3)] obtain ss mp
      where r: "map_loop (nat (tot_weight px)) (tot_weight px) (lb_flag px) 0 (map (\<lambda>s. s\<lparr>wscore := 0\<rparr>) (srv px))
          (map_srv (lbmap px)) = Some (ss, mp)"
        "map_exact (lb_flag px) (srv px) (nat (tot_weight px)) mp" "length mp = length (map_srv (lbmap px))"
        "map (\<lambda>s. s\<lparr>wscore := 0\<rparr>) ss = map (\<lambda>s. s\<lparr>wscore := 0\<rparr>) (srv px)" .
    then show ?thesis using False
      by (intro exI [of _ ss] exI [of _ mp]) (simp add: recalc_server_map_def)
  qed
  with safe show ?thesis by blast
qed

theorem recalc_map_exact_witness:
  "let s = \<lparr>state = SRV_ST_RUNNING, prev_state = SRV_ST_RUNNING, admin = 0, prev_admin = 0, is_backup = False,
        served = 0, cur_sess = 0, maxconn = 0, minconn = 0, nbpend = 0, uweight = 2, eweight = 2,
        prev_eweight = 2, wscore = 0, last_change = 0, slowstart = 0, track = None\<rparr>;
      px = \<lparr>srv = [s, s\<lparr>eweight := 1\<rparr>], srv_act = 2, srv_bck = 0, use_all_bk = False, beconn = 0, fullconn = 0,
        tot_wact = 3, tot_wbck = 0, tot_weight = 3, tot_used = 2, wmult = 1, wdiv = 1, fbck = None,
        lbmap = \<lparr>map_srv = [None, None, None], map_recalc = True, rr_idx = 0\<rparr>\<rparr>
   in recalc_server_map px \<noteq> None
    \<and> (\<not> single_backup px \<and> tot_weight px * tot_weight px + tot_weight px < 2 ^ 32 \<longrightarrow>
      (\<exists>ss mp. recalc_server_map px
          = Some (px\<lparr>srv := ss, lbmap := (lbmap px)\<lparr>map_srv := mp, map_recalc := False\<rparr>\<rparr>)
        \<and> map_exact (lb_flag px) (srv px) (nat (tot_weight px)) mp \<and> length mp = length (map_srv (lbmap px))
        \<and> map (\<lambda>s. s\<lparr>wscore := 0\<rparr>) ss = map (\<lambda>s. s\<lparr>wscore := 0\<rparr>) (srv px)))"
  unfolding Let_def
  by (rule recalc_map_exact)
     (simp_all add: counted_def recount_servers_def update_backend_weight_def weights_ok_def srv_is_usable_def
        lb_usable_def)

text \<open>The first backup server.  Without the option allbackups only the first usable backup server
  should serve, and the weight of the map is its weight; but the entries are shared with the other
  backup servers whenever this weight is above one: with weights 2 and 3, the second entry goes to
  the second server.\<close>

theorem map_first_backup_shared:
  "let s = \<lparr>state = SRV_ST_RUNNING, prev_state = SRV_ST_RUNNING, admin = 0, prev_admin = 0, is_backup = True,
        served = 0, cur_sess = 0, maxconn = 0, minconn = 0, nbpend = 0, uweight = 2, eweight = 0,
        prev_eweight = 0, wscore = 0, last_change = 0, slowstart = 0, track = None\<rparr>;
      px = \<lparr>srv = [s, s\<lparr>uweight := 3\<rparr>], srv_act = 0, srv_bck = 0, use_all_bk = False, beconn = 0, fullconn = 0,
        tot_wact = 0, tot_wbck = 0, tot_weight = 0, tot_used = 0, wmult = 1, wdiv = 1, fbck = None,
        lbmap = \<lparr>map_srv = [], map_recalc = True, rr_idx = 0\<rparr>\<rparr>
   in map_option (\<lambda>px. (fbck px, tot_used px, take (nat (tot_weight px)) (map_srv (lbmap px)))) (init_server_map px)
        = Some (Some 0, 1, [Some 0, Some 1])"
  by code_simp

subsection \<open>Round robin over the map\<close>

abbreviation entry :: "proxy \<Rightarrow> nat \<Rightarrow> nat" where
  "entry px j \<equiv> the (map_srv (lbmap px) ! j)"

text \<open>A backend whose map is up to date.\<close>

definition map_ready :: "proxy \<Rightarrow> bool" where
  "map_ready px \<longleftrightarrow> 0 < tot_weight px \<and> \<not> map_recalc (lbmap px)
    \<and> map_exact (lb_flag px) (srv px) (nat (tot_weight px)) (map_srv (lbmap px))"

lemma exact_nth:
  assumes "map_exact flag ss tot mp" "j < tot"
  shows "j < length mp" "mp ! j = Some (the (mp ! j))" "the (mp ! j) \<in> members flag ss"
proof -
  show len: "j < length mp" using assms by (simp add: map_exact_def)
  have m: "mp ! j \<in> set (take tot mp)" using assms len by (auto simp: in_set_conv_nth map_exact_def)
  moreover have "None \<notin> set (take tot mp)" using assms(1) by (simp add: map_exact_def)
  ultimately show some: "mp ! j = Some (the (mp ! j))" by (metis option.collapse)
  show "the (mp ! j) \<in> members flag ss"
  proof (rule ccontr)
    assume "the (mp ! j) \<notin> members flag ss"
    then have "count_list (take tot mp) (mp ! j) = 0" using assms(1) some by (metis map_exact_def)
    then show False using m by (simp add: count_list_0_iff)
  qed
qed

lemma exact_member:
  assumes "map_exact flag ss tot mp" "k \<in> members flag ss" "\<forall>s \<in> set ss. 0 \<le> eweight s"
  obtains j where "j < tot" "mp ! j = Some k"
proof -
  have "count_list (take tot mp) (Some k) \<noteq> 0"
    using assms member_weight [OF assms(3,2)] by (simp add: map_exact_def)
  then show thesis using that by (auto simp: count_list_0_iff in_set_conv_nth)
qed

lemma rr_next:
  assumes "r < T" "u < T"
  shows "(if int ((r + u) mod T) + 1 = int T then 0 else (r + u) mod T + 1) = (r + Suc u) mod T"
    and "(r + Suc u) mod T = r \<longleftrightarrow> Suc u = T"
proof -
  show "(if int ((r + u) mod T) + 1 = int T then 0 else (r + u) mod T + 1) = (r + Suc u) mod T"
    by (simp add: mod_Suc flip: of_nat_Suc)
  show "(r + Suc u) mod T = r \<longleftrightarrow> Suc u = T"
  proof
    assume "(r + Suc u) mod T = r"
    then have "T dvd Suc u" using mod_eq_dvd_iff_nat [of r "r + Suc u" T] assms(1) by simp
    then show "Suc u = T" using assms(2) by (auto dest: dvd_imp_le)
  qed (use assms(1) in \<open>auto simp: mod_add_self2\<close>)
qed

text \<open>
  The loop from its turn \<open>u\<close> on: it has met no server that accepts but the avoided one, and
  remembers this one if it did.
\<close>

lemma rr_loop_result:
  fixes px :: proxy and now :: int
  defines "T \<equiv> nat (tot_weight px)" and "acc \<equiv> rr_accepts now px"
  defines "e \<equiv> \<lambda>u. entry px ((nat (rr_idx (lbmap px)) + u) mod T)"
  assumes "map_ready px" "0 \<le> rr_idx (lbmap px)" "rr_idx (lbmap px) < tot_weight px" "u + n = T" "0 < n"
    and "\<forall>v < u. acc (e v) \<longrightarrow> Some (e v) = avoid \<and> av \<noteq> None"
    and "\<forall>k j. av = Some (k, j) \<longrightarrow> Some k = avoid \<and> acc k \<and> (\<exists>v < T. k = e v)"
  shows "\<exists>res i. rr_loop n now px avoid ((nat (rr_idx (lbmap px)) + u) mod T) av = Some (res, i) \<and>
    (case res of None \<Rightarrow> \<forall>v < T. \<not> acc (e v)
     | Some k \<Rightarrow> acc k \<and> (\<exists>v < T. k = e v) \<and> (Some k = avoid \<longrightarrow> (\<forall>v < T. acc (e v) \<longrightarrow> Some (e v) = avoid)))"
  using assms(7-)
proof (induction n arbitrary: u av)
  case (Suc n)
  let ?r = "nat (rr_idx (lbmap px))"
  let ?i = "(?r + u) mod T"
  have T: "0 < T" "int T = tot_weight px" "?r < T" "u < T" "int ?r = rr_idx (lbmap px)"
    using assms(4-6) Suc.prems(1) by (auto simp: map_ready_def T_def)
  have i: "?i < T" using T by simp
  have ex: "map_exact (lb_flag px) (srv px) T (map_srv (lbmap px))" using assms(4) by (simp add: map_ready_def T_def)
  obtain k where en: "?i < length (map_srv (lbmap px))" "map_srv (lbmap px) ! ?i = Some k" and eu: "e u = k"
    using exact_nth [OF ex i] by (metis e_def)
  show ?case
  proof (cases "acc (e u) \<and> Some (e u) \<noteq> avoid")
    case True
    then have "rr_loop (Suc n) now px avoid ?i av = Some (Some k, int ?i + 1)"
      using en by (simp add: eu acc_def)
    then show ?thesis using True T(4) eu by auto
  next
    case False
    define av' where "av' = (if acc (e u) then Some (e u, int ?i + 1) else av)"
    define i' where "i' = (if int ?i + 1 = tot_weight px then 0 else ?i + 1)"
    have i': "i' = (?r + Suc u) mod T" and home: "i' = ?r \<longleftrightarrow> Suc u = T"
      using rr_next [OF T(3,4)] T(2) by (simp_all add: i'_def)
    have step: "rr_loop (Suc n) now px avoid ?i av =
      (if int i' \<noteq> rr_idx (lbmap px) then rr_loop n now px avoid i' av'
       else Some (case av' of None \<Rightarrow> (None, rr_idx (lbmap px)) | Some (k, j) \<Rightarrow> (Some k, j)))"
      using en False unfolding acc_def by (simp add: eu av'_def acc_def i'_def Let_def)
    have old: "\<forall>v < Suc u. acc (e v) \<longrightarrow> Some (e v) = avoid \<and> av' \<noteq> None"
      using Suc.prems(3) False by (auto simp: less_Suc_eq av'_def)
    have av: "\<forall>k j. av' = Some (k, j) \<longrightarrow> Some k = avoid \<and> acc k \<and> (\<exists>v < T. k = e v)"
      using Suc.prems(4) False T(4) by (auto simp: av'_def)
    show ?thesis
    proof (cases "n = 0")
      case True
      then have "Suc u = T" using Suc.prems(1) by simp
      then have fin: "int i' = rr_idx (lbmap px)" and all: "\<forall>v < T. acc (e v) \<longrightarrow> Some (e v) = avoid \<and> av' \<noteq> None"
        using T old by (simp_all add: i')
      show ?thesis
      proof (cases av')
        case None
        then show ?thesis using fin all unfolding step by simp
      next
        case (Some p)
        then show ?thesis using fin all av unfolding step by (cases p; cases avoid) auto
      qed
    next
      case False
      then have "i' \<noteq> ?r" using home Suc.prems(1) by simp
      then have "int i' \<noteq> rr_idx (lbmap px)" using T(5) by linarith
      then show ?thesis using Suc.IH [OF _ _ old av] False Suc.prems(1) unfolding step i' by simp
    qed
  qed
qed simp

text \<open>What the loop may answer, in terms of the servers of the map.\<close>

definition rr_choice :: "(nat \<Rightarrow> bool) \<Rightarrow> nat set \<Rightarrow> nat option \<Rightarrow> nat option \<Rightarrow> bool" where
  "rr_choice acc M avoid res \<longleftrightarrow>
    (case res of None \<Rightarrow> \<forall>k \<in> M. \<not> acc k
     | Some k \<Rightarrow> k \<in> M \<and> acc k \<and> (Some k = avoid \<longrightarrow> (\<forall>j \<in> M. acc j \<longrightarrow> Some j = avoid)))"

lemma rr_loop_members:
  assumes ready: "map_ready px" and w: "weights_ok px"
    and range: "0 \<le> rr_idx (lbmap px)" "rr_idx (lbmap px) < tot_weight px"
  shows "\<exists>res i. rr_loop (nat (tot_weight px)) now px avoid (nat (rr_idx (lbmap px))) None = Some (res, i)
    \<and> rr_choice (rr_accepts now px) (members (lb_flag px) (srv px)) avoid res"
proof -
  let ?T = "nat (tot_weight px)" and ?M = "members (lb_flag px) (srv px)" and ?r = "nat (rr_idx (lbmap px))"
  let ?e = "\<lambda>u. entry px ((?r + u) mod ?T)"
  have t: "0 < ?T" "?r < ?T" using range by simp_all
  have ex: "map_exact (lb_flag px) (srv px) ?T (map_srv (lbmap px))" using ready by (simp add: map_ready_def)
  have all: "(\<exists>v < ?T. k = ?e v) \<longleftrightarrow> k \<in> ?M" for k
  proof
    assume "\<exists>v < ?T. k = ?e v"
    then show "k \<in> ?M" using exact_nth(3) [OF ex] t by auto
  next
    assume "k \<in> ?M"
    then obtain j where j: "j < ?T" "map_srv (lbmap px) ! j = Some k"
      using exact_member [OF ex] w by (auto simp: weights_ok_def)
    have "(?r + (j + (?T - ?r))) mod ?T = j" using j(1) t by simp
    then have "k = ?e ((j + (?T - ?r)) mod ?T)" using j(2) by (simp add: mod_add_right_eq)
    then show "\<exists>v < ?T. k = ?e v" using t(1) mod_less_divisor by blast
  qed
  have q: "(\<forall>v < ?T. P (?e v)) \<longleftrightarrow> (\<forall>k \<in> ?M. P k)" for P using all by metis
  from rr_loop_result [OF ready range, of 0 ?T now avoid None]
  show ?thesis using t by (simp add: rr_choice_def conj_left_commute all q [of "\<lambda>k. \<not> rr_accepts now px k"]
        q [of "\<lambda>k. rr_accepts now px k \<longrightarrow> Some k = avoid"] cong: option.case_cong)
qed

lemma reset_rr_simps [simp]:
  "srv (reset_rr px) = srv px" "srv_act (reset_rr px) = srv_act px" "tot_weight (reset_rr px) = tot_weight px"
  "map_srv (lbmap (reset_rr px)) = map_srv (lbmap px)" "map_recalc (lbmap (reset_rr px)) = map_recalc (lbmap px)"
  "rr_accepts now (reset_rr px) = rr_accepts now px"
  by (auto simp: reset_rr_def rr_accepts_def srv_dynamic_maxconn_def fun_eq_iff)

lemma reset_rr_range:
  "0 < tot_weight px \<Longrightarrow> 0 \<le> rr_idx (lbmap (reset_rr px)) \<and> rr_idx (lbmap (reset_rr px)) < tot_weight px"
  by (auto simp: reset_rr_def)

text \<open>Round robin choice.  With an up-to-date map \<open>map_get_server_rr\<close> always returns, and its choice is
  a usable server that accepts a connection and is not the one to avoid, if there is one; else the one
  to avoid if it accepts; and no server only when none accepts.\<close>

theorem map_rr_choice:
  assumes "map_ready px" "weights_ok px"
  shows "\<exists>res px'. map_get_server_rr now avoid px = Some (res, px') \<and>
    (case res of
       None \<Rightarrow> \<forall>k \<in> members (lb_flag px) (srv px). \<not> rr_accepts now px k
     | Some k \<Rightarrow> k \<in> members (lb_flag px) (srv px) \<and> rr_accepts now px k \<and>
         (Some k = avoid \<longrightarrow> (\<forall>j \<in> members (lb_flag px) (srv px). rr_accepts now px j \<longrightarrow> Some j = avoid)))"
proof -
  have t: "0 < tot_weight px" and fresh: "fresh_map px = Some px"
    using assms(1) by (simp_all add: map_ready_def fresh_map_def)
  have "map_ready (reset_rr px)" "weights_ok (reset_rr px)"
    using assms by (simp_all add: map_ready_def weights_ok_def)
  from rr_loop_members [OF this, of now avoid] reset_rr_range [OF t] t fresh
  show ?thesis by (auto simp: map_get_server_rr_def rr_choice_def Let_def)
qed

theorem map_rr_choice_witness:
  "let s = \<lparr>state = SRV_ST_RUNNING, prev_state = SRV_ST_RUNNING, admin = 0, prev_admin = 0, is_backup = False,
        served = 0, cur_sess = 0, maxconn = 0, minconn = 0, nbpend = 0, uweight = 1, eweight = 1,
        prev_eweight = 1, wscore = 0, last_change = 0, slowstart = 0, track = None\<rparr>;
      px = \<lparr>srv = [s], srv_act = 1, srv_bck = 0, use_all_bk = False, beconn = 0, fullconn = 0,
        tot_wact = 1, tot_wbck = 0, tot_weight = 1, tot_used = 1, wmult = 1, wdiv = 1, fbck = None,
        lbmap = \<lparr>map_srv = [Some 0], map_recalc = False, rr_idx = 5\<rparr>\<rparr>
   in \<exists>res px'. map_get_server_rr 0 (Some 0) px = Some (res, px') \<and>
    (case res of
       None \<Rightarrow> \<forall>k \<in> members (lb_flag px) (srv px). \<not> rr_accepts 0 px k
     | Some k \<Rightarrow> k \<in> members (lb_flag px) (srv px) \<and> rr_accepts 0 px k \<and>
         (Some k = Some 0 \<longrightarrow> (\<forall>j \<in> members (lb_flag px) (srv px). rr_accepts 0 px j \<longrightarrow> Some j = Some 0)))"
  unfolding Let_def
  by (rule map_rr_choice)
     (auto simp: map_ready_def map_exact_def members_def takes_part_def srv_is_usable_def lb_usable_def weights_ok_def)

subsection \<open>Fairness\<close>

text \<open>The servers that \<open>n\<close> calls in a row return.\<close>

fun rr_calls :: "nat \<Rightarrow> int \<Rightarrow> proxy \<Rightarrow> nat option list option" where
  "rr_calls 0 now px = Some []"
| "rr_calls (Suc n) now px =
    (case map_get_server_rr now None px of None \<Rightarrow> None
     | Some (r, px') \<Rightarrow> map_option ((#) r) (rr_calls n now px'))"

lemma rr_call_unlimited:
  assumes ready: "map_ready px" and free: "\<forall>k \<in> members (lb_flag px) (srv px). rr_accepts now px k"
    and i: "i = nat (rr_idx (lbmap (reset_rr px)))"
  shows "map_get_server_rr now None px
    = Some (map_srv (lbmap px) ! i, (reset_rr px)\<lparr>lbmap := (lbmap (reset_rr px))\<lparr>rr_idx := int i + 1\<rparr>\<rparr>)"
proof -
  have t: "0 < tot_weight px" and fresh: "fresh_map px = Some px"
    and ex: "map_exact (lb_flag px) (srv px) (nat (tot_weight px)) (map_srv (lbmap px))"
    using ready by (simp_all add: map_ready_def fresh_map_def)
  have il: "i < nat (tot_weight px)" using reset_rr_range [OF t] i by simp
  obtain k where k: "map_srv (lbmap px) ! i = Some k" "i < length (map_srv (lbmap px))" "k \<in> members (lb_flag px) (srv px)"
    using exact_nth [OF ex il] by (metis option.collapse)
  have "rr_accepts now px k" using k(3) free by blast
  moreover obtain n where "nat (tot_weight px) = Suc n" using t by (metis Suc_pred' zero_less_nat_eq)
  ultimately show ?thesis using t fresh k i by (simp add: map_get_server_rr_def Let_def)
qed

lemma rr_calls_rotate:
  assumes "map_ready px" "\<forall>k \<in> members (lb_flag px) (srv px). rr_accepts now px k" "i = nat (rr_idx (lbmap (reset_rr px)))"
  shows "rr_calls n now px = Some (map (\<lambda>u. map_srv (lbmap px) ! ((i + u) mod nat (tot_weight px))) [0..<n])"
  using assms
proof (induction n arbitrary: px i)
  case (Suc n)
  let ?T = "nat (tot_weight px)"
  let ?px = "(reset_rr px)\<lparr>lbmap := (lbmap (reset_rr px))\<lparr>rr_idx := int i + 1\<rparr>\<rparr>"
  have t: "0 < tot_weight px" using Suc.prems(1) by (simp add: map_ready_def)
  then have il: "i < ?T" using reset_rr_range [OF t] Suc.prems(3) by simp
  have "rr_accepts now ?px = rr_accepts now (reset_rr px)"
    by (simp add: rr_accepts_def srv_dynamic_maxconn_def fun_eq_iff del: reset_rr_simps)
  then have ready: "map_ready ?px" "\<forall>k \<in> members (lb_flag ?px) (srv ?px). rr_accepts now ?px k"
    using Suc.prems by (simp_all add: map_ready_def)
  have idx: "nat (rr_idx (lbmap (reset_rr ?px))) = (i + 1) mod ?T"
    using il t by (auto simp: reset_rr_def [of ?px] mod_Suc nat_less_iff)
  have "rr_calls n now ?px = Some (map (\<lambda>u. map_srv (lbmap px) ! ((i + Suc u) mod ?T)) [0..<n])"
    using Suc.IH [OF ready refl] unfolding idx by (simp add: mod_add_left_eq mod_Suc_eq)
  moreover have "[0..<Suc n] = 0 # map Suc [0..<n]" by (simp add: map_Suc_upt upt_conv_Cons del: upt_Suc)
  ultimately show ?case
    using rr_call_unlimited [OF Suc.prems] il by (simp add: o_def del: upt_Suc)
qed simp

lemma count_rotate: "count_list (rotate n xs) x = count_list xs x"
proof -
  have "count_list (rotate1 ys) x = count_list ys x" for ys by (cases ys) simp_all
  then show ?thesis by (induction n) simp_all
qed

text \<open>C14: weighted fairness.  Once the map is built with as many entries for each server of the group in use as its
  weight (which \<open>recalc_map_exact\<close> gives with active servers or allbackups), and while no server of the group in use is saturated (each has no
  limit, or no queue and free connections), as many calls in a row as the total weight choose each
  server exactly as often as its weight, from wherever the round starts.\<close>

theorem map_rr_fair:
  assumes "map_ready px" "\<forall>j \<in> members (lb_flag px) (srv px). rr_accepts now px j" "k \<in> members (lb_flag px) (srv px)"
    and "weights_ok px"
  shows "\<exists>calls. rr_calls (nat (tot_weight px)) now px = Some calls \<and>
    int (count_list calls (Some k)) = eweight (srv px ! k)"
proof -
  let ?T = "nat (tot_weight px)" and ?i = "nat (rr_idx (lbmap (reset_rr px)))"
  let ?mp = "take ?T (map_srv (lbmap px))"
  have ex: "map_exact (lb_flag px) (srv px) ?T (map_srv (lbmap px))" using assms(1) by (simp add: map_ready_def)
  then have len: "length ?mp = ?T" by (simp add: map_exact_def)
  have "0 < ?T" using assms(1) by (simp add: map_ready_def)
  then have rot: "map (\<lambda>u. map_srv (lbmap px) ! ((?i + u) mod ?T)) [0..<?T] = rotate ?i ?mp"
    using len by (intro nth_equalityI) (simp_all add: nth_rotate)
  have "count_list (rotate ?i ?mp) (Some k) = nat (eweight (srv px ! k))"
    using ex assms(3) by (simp add: count_rotate map_exact_def)
  then show ?thesis
    using rr_calls_rotate [OF assms(1,2) refl, of ?T] rot assms(3,4) by (auto simp: weights_ok_def members_def)
qed

text \<open>Three servers of weights 3, 2 and 1, the second one with a limit, after the map is built.\<close>

definition map3 :: proxy where
  "map3 = (let s = \<lparr>state = SRV_ST_RUNNING, prev_state = SRV_ST_RUNNING, admin = 0, prev_admin = 0, is_backup = False,
        served = 0, cur_sess = 0, maxconn = 0, minconn = 0, nbpend = 0, uweight = 3, eweight = 3,
        prev_eweight = 3, wscore = 0, last_change = 0, slowstart = 0, track = None\<rparr>
     in the (init_server_map \<lparr>srv = [s, s\<lparr>uweight := 2, served := 4, maxconn := 9\<rparr>, s\<lparr>uweight := 1\<rparr>],
        srv_act = 0, srv_bck = 0, use_all_bk = False, beconn = 0, fullconn = 0, tot_wact = 0, tot_wbck = 0,
        tot_weight = 0, tot_used = 0, wmult = 1, wdiv = 1, fbck = None,
        lbmap = \<lparr>map_srv = [], map_recalc = True, rr_idx = 5\<rparr>\<rparr>))"

lemma map3_facts:
  "lb_flag map3 = False" "length (srv map3) = 3" "tot_weight map3 = 6" "map_recalc (lbmap map3) = False"
  "map_srv (lbmap map3) = [Some 0, Some 0, Some 1, Some 0, Some 1, Some 2]"
  "map eweight (srv map3) = [3, 2, 1]"
  "list_all (rr_accepts 0 map3) [0, 1, 2]"
  by code_simp+

lemma map3_members: "members (lb_flag map3) (srv map3) = {0, 1, 2}"
proof -
  have t: "takes_part False (srv map3 ! 0)" "takes_part False (srv map3 ! 1)" "takes_part False (srv map3 ! 2)" by code_simp+
  have "k < 3 \<longleftrightarrow> k = 0 \<or> k = 1 \<or> k = 2" for k :: nat by auto
  then show ?thesis unfolding members_def map3_facts(1,2) using t by auto
qed

lemma map3_weight: "k < 3 \<Longrightarrow> eweight (srv map3 ! k) = [3, 2, 1] ! k"
  using map3_facts(2,6) by (metis nth_map)

lemma map3_ready: "map_ready map3" "weights_ok map3"
proof -
  have "map_exact False (srv map3) 6 [Some 0, Some 0, Some 1, Some 0, Some 1, Some 2]"
    using map3_members map3_weight map3_facts(1) by (auto simp: map_exact_def)
  then show "map_ready map3" by (simp add: map_ready_def map3_facts)
  have "list_all ((\<le>) 0) (map eweight (srv map3))" unfolding map3_facts(6) by simp
  then show "weights_ok map3" by (simp add: weights_ok_def list_all_iff)
qed

theorem map_rr_fair_witness:
  "\<exists>calls. rr_calls (nat (tot_weight map3)) 0 map3 = Some calls \<and> int (count_list calls (Some 1)) = eweight (srv map3 ! 1)
    \<and> length calls = 6 \<and> eweight (srv map3 ! 1) = 2"
proof -
  have a: "\<forall>j \<in> members (lb_flag map3) (srv map3). rr_accepts 0 map3 j" using map3_facts(7) unfolding map3_members by simp
  have "map_option length (rr_calls 6 0 map3) = Some 6" by code_simp
  moreover have m: "1 \<in> members (lb_flag map3) (srv map3)" by (simp add: map3_members)
  ultimately show ?thesis
    using map_rr_fair [OF map3_ready(1) a m map3_ready(2)] map3_weight [of 1] by (auto simp: map3_facts(3))
qed

end
