(* ===== verification/HA_LB_Count.thy ===== *)
theory HA_LB_Count
  imports HA_Server
begin

section \<open>Counters of a backend under status changes (src/lb_fas.c, src/lb_fwlc.c, src/lb_fwrr.c, src/lb_chash.c)\<close>

text \<open>
  The dynamic load balancing algorithms have the same code to update the counters of the backend
  when the status of one server changes: the number and weight of active and backup servers and
  the first backup server.  The lemmas compare these steps with a recount of all the servers.
\<close>

subsection \<open>Counters of the backend\<close>

text \<open>The search for another first backup server, after server \<open>k\<close>.\<close>

definition next_backup :: "server list \<Rightarrow> nat \<Rightarrow> nat option" where
  "next_backup ss k = find (\<lambda>j. is_backup (ss ! j) \<and> srv_is_usable (ss ! j)) [Suc k..<length ss]"

definition lose_server :: "nat \<Rightarrow> proxy \<Rightarrow> proxy" where
  "lose_server k px =
    (let s = srv px ! k
     in if is_backup s
        then px\<lparr>tot_wbck := tot_wbck px - prev_eweight s, srv_bck := srv_bck px - 1,
                fbck := (if fbck px = Some k then next_backup (srv px) k else fbck px)\<rparr>
        else px\<lparr>tot_wact := tot_wact px - prev_eweight s, srv_act := srv_act px - 1\<rparr>)"

definition gain_server :: "nat \<Rightarrow> proxy \<Rightarrow> proxy" where
  "gain_server k px =
    (let s = srv px ! k
     in if is_backup s
        then px\<lparr>tot_wbck := tot_wbck px + eweight s, srv_bck := srv_bck px + 1,
                fbck := (if use_all_bk px then fbck px
                         else case fbck px of None \<Rightarrow> Some k
                         | Some j \<Rightarrow> if k < j \<and> j < length (srv px) then Some k else Some j)\<rparr>
        else px\<lparr>tot_wact := tot_wact px + eweight s, srv_act := srv_act px + 1\<rparr>)"

definition reweigh_server :: "nat \<Rightarrow> proxy \<Rightarrow> proxy" where
  "reweigh_server k px =
    (let s = srv px ! k
     in if is_backup s then px\<lparr>tot_wbck := tot_wbck px + eweight s - prev_eweight s\<rparr>
        else px\<lparr>tot_wact := tot_wact px + eweight s - prev_eweight s\<rparr>)"

definition commit_server :: "nat \<Rightarrow> proxy \<Rightarrow> proxy" where
  "commit_server k = upd_srv k srv_lb_commit_status"

definition initial_weight :: "int \<Rightarrow> int \<Rightarrow> server \<Rightarrow> server" where
  "initial_weight mult scale s =
    srv_lb_commit_status (s\<lparr>eweight := (uweight s * scale + mult - 1) div mult\<rparr>)"

subsection \<open>The counters follow a recount\<close>

definition counts_ok :: "proxy \<Rightarrow> bool" where
  "counts_ok px \<longleftrightarrow> srv_act px = int (length (lb_servers False (srv px)))
    \<and> srv_bck px = int (length (lb_servers True (srv px)))
    \<and> tot_wact px = weight_sum False (srv px) \<and> tot_wbck px = weight_sum True (srv px)
    \<and> fbck px = (if use_all_bk px then None else first_backup (srv px))"

lemma recount_frame:
  "beconn (recount_servers px) = beconn px" "fullconn (recount_servers px) = fullconn px"
  "tot_weight (recount_servers px) = tot_weight px" "tot_used (recount_servers px) = tot_used px"
  by (simp_all add: recount_servers_def)

lemma recount_more: "proxy.more (recount_loop k ss px) = proxy.more px"
  by (induction k ss px rule: recount_loop.induct) simp_all

lemma recount_id: "counts_ok px \<Longrightarrow> recount_servers px = px"
  by (rule proxy.equality) (auto simp: counts_ok_def recount_servers_counts recount_frame)

lemma counted_iff: "counted px \<longleftrightarrow> counts_ok px \<and> update_backend_weight px = px"
proof
  assume c: "counted px"
  let ?r = "recount_servers px"
  have u: "update_backend_weight ?r = px" using c by (simp add: counted_def)
  have "srv_act px = srv_act ?r" "srv_bck px = srv_bck ?r" "tot_wact px = tot_wact ?r"
    "tot_wbck px = tot_wbck ?r" "fbck px = fbck ?r" by (metis u update_backend_weight_frame)+
  then have ok: "counts_ok px" by (simp add: counts_ok_def recount_servers_counts)
  then show "counts_ok px \<and> update_backend_weight px = px" using u recount_id by simp
qed (simp add: counted_def recount_id)

lemma backup_alone:
  assumes "counts_ok px" "single_backup px"
  shows "srv_act px = 0" "fbck px = first_backup (srv px)" "first_backup (srv px) = None \<Longrightarrow> srv_bck px = 0"
proof -
  show "srv_act px = 0" "fbck px = first_backup (srv px)" using assms by (simp_all add: counts_ok_def single_backup_def)
  assume "first_backup (srv px) = None"
  then have "lb_servers True (srv px) = []"
    by (auto simp: first_backup_def find_None_iff lb_servers_def filter_empty_conv in_set_conv_nth)
  then show "srv_bck px = 0" using assms(1) by (simp add: counts_ok_def)
qed

text \<open>What a server adds to a count.\<close>

definition counts_for :: "bool \<Rightarrow> server \<Rightarrow> int" where
  "counts_for b s = (if is_backup s = b \<and> srv_is_usable s then 1 else 0)"

definition weighs_for :: "bool \<Rightarrow> server \<Rightarrow> int" where
  "weighs_for b s = (if is_backup s = b \<and> srv_is_usable s then eweight s else 0)"

lemma sum_update: "k < length xs \<Longrightarrow> sum_list (xs[k := x]) = sum_list xs - xs ! k + (x :: int)"
  by (induction xs arbitrary: k) (auto simp: nth_Cons split: nat.splits)

lemma counts_sum: "int (length (lb_servers b ss)) = sum_list (map (counts_for b) ss)"
  by (induction ss) (simp_all add: counts_for_def)

lemma weighs_sum: "weight_sum b ss = sum_list (map (weighs_for b) ss)"
  by (induction ss) (simp_all add: weighs_for_def)

lemma counts_update:
  "k < length ss \<Longrightarrow> int (length (lb_servers b (ss[k := s]))) =
    int (length (lb_servers b ss)) - counts_for b (ss ! k) + counts_for b s"
  by (simp add: counts_sum map_update sum_update)

lemma weighs_update:
  "k < length ss \<Longrightarrow> weight_sum b (ss[k := s]) = weight_sum b ss - weighs_for b (ss ! k) + weighs_for b s"
  by (simp add: weighs_sum map_update sum_update)

lemma first_backup_iff:
  "first_backup ss = Some j \<longleftrightarrow> j < length ss \<and> is_backup (ss ! j) \<and> srv_is_usable (ss ! j)
    \<and> (\<forall>i < j. \<not> (is_backup (ss ! i) \<and> srv_is_usable (ss ! i)))"
  unfolding first_backup_def find_Some_iff by (auto intro: exI [of _ j])

lemma first_backup_none:
  "first_backup ss = None \<longleftrightarrow> (\<forall>i < length ss. \<not> (is_backup (ss ! i) \<and> srv_is_usable (ss ! i)))"
  unfolding first_backup_def find_None_iff by auto

lemma next_backup_iff:
  "next_backup ss k = Some j \<longleftrightarrow> k < j \<and> j < length ss \<and> is_backup (ss ! j) \<and> srv_is_usable (ss ! j)
    \<and> (\<forall>i. k < i \<and> i < j \<longrightarrow> \<not> (is_backup (ss ! i) \<and> srv_is_usable (ss ! i)))"
proof
  let ?B = "\<lambda>i. is_backup (ss ! i) \<and> srv_is_usable (ss ! i)"
  assume "next_backup ss k = Some j"
  then obtain i where i: "i < length [Suc k..<length ss]" "j = Suc k + i" "?B j"
    "\<And>m. m < i \<Longrightarrow> \<not> ?B (Suc k + m)"
    unfolding next_backup_def find_Some_iff by (auto simp del: upt_Suc)
  have "\<not> ?B m" if "k < m" "m < j" for m
    using i(4) [of "m - Suc k"] that i(2) by simp
  then show "k < j \<and> j < length ss \<and> is_backup (ss ! j) \<and> srv_is_usable (ss ! j)
    \<and> (\<forall>i. k < i \<and> i < j \<longrightarrow> \<not> ?B i)" using i by auto
next
  let ?B = "\<lambda>i. is_backup (ss ! i) \<and> srv_is_usable (ss ! i)"
  assume a: "k < j \<and> j < length ss \<and> is_backup (ss ! j) \<and> srv_is_usable (ss ! j)
    \<and> (\<forall>i. k < i \<and> i < j \<longrightarrow> \<not> ?B i)"
  then show "next_backup ss k = Some j"
    unfolding next_backup_def find_Some_iff by (intro exI [of _ "j - Suc k"]) (auto simp del: upt_Suc)
qed

lemma next_backup_none:
  "next_backup ss k = None \<longleftrightarrow> (\<forall>i. k < i \<and> i < length ss \<longrightarrow> \<not> (is_backup (ss ! i) \<and> srv_is_usable (ss ! i)))"
  unfolding next_backup_def find_None_iff by auto

lemma first_backup_same:
  assumes "\<And>i. i < length ss \<Longrightarrow> (is_backup (ss' ! i) \<and> srv_is_usable (ss' ! i)) = (is_backup (ss ! i) \<and> srv_is_usable (ss ! i))"
    "length ss' = length ss"
  shows "first_backup ss' = first_backup ss"
  unfolding first_backup_def assms(2) by (rule find_cong) (use assms(1) in simp_all)

lemma first_backup_put:
  assumes "k < length ss" "(is_backup s \<and> srv_is_usable s) = (is_backup (ss ! k) \<and> srv_is_usable (ss ! k))"
  shows "first_backup (ss[k := s]) = first_backup ss"
proof (rule first_backup_same)
  show "(is_backup (ss[k := s] ! i) \<and> srv_is_usable (ss[k := s] ! i)) = (is_backup (ss ! i) \<and> srv_is_usable (ss ! i))"
    if "i < length ss" for i using assms that by (cases "i = k") simp_all
qed simp

text \<open>Losing the first backup server, and regaining one.\<close>

lemma first_backup_lost:
  assumes "k < length ss" "is_backup (ss ! k)" "srv_is_usable (ss ! k)" "\<not> srv_is_usable s"
  shows "first_backup (ss[k := s]) = (if first_backup ss = Some k then next_backup (ss[k := s]) k else first_backup ss)"
proof (cases "first_backup ss")
  case None
  then show ?thesis using assms by (auto simp: first_backup_none)
next
  case (Some j)
  note j = Some [unfolded first_backup_iff]
  show ?thesis
  proof (cases "j = k")
    case True
    have before: "\<not> (is_backup (ss[k := s] ! i) \<and> srv_is_usable (ss[k := s] ! i))" if "i \<le> k" for i
      using j that assms True by (cases "i = k") auto
    show ?thesis
    proof (cases "next_backup (ss[k := s]) k")
      case None
      then have "first_backup (ss[k := s]) = None"
        using before unfolding first_backup_none next_backup_none by (meson not_le)
      then show ?thesis using None Some True by simp
    next
      case (Some m)
      then have "first_backup (ss[k := s]) = Some m"
        using before unfolding first_backup_iff next_backup_iff by (meson not_le)
      then show ?thesis using Some \<open>first_backup ss = Some j\<close> True by simp
    qed
  next
    case False
    then have "j < k" using j assms by (meson not_less_iff_gr_or_eq)
    then have "first_backup (ss[k := s]) = Some j" using j unfolding first_backup_iff by auto
    then show ?thesis using Some False by simp
  qed
qed

lemma first_backup_gained:
  assumes "k < length ss" "is_backup s" "srv_is_usable s" "\<not> srv_is_usable (ss ! k)"
  shows "first_backup (ss[k := s]) = (case first_backup ss of None \<Rightarrow> Some k
    | Some j \<Rightarrow> if k < j \<and> j < length ss then Some k else Some j)"
proof (cases "first_backup ss")
  case None
  then have "first_backup (ss[k := s]) = Some k"
    using assms unfolding first_backup_none first_backup_iff by (auto simp: nth_update)
  then show ?thesis using None by simp
next
  case (Some j)
  note j = Some [unfolded first_backup_iff]
  have "j \<noteq> k" using j assms by auto
  then have "first_backup (ss[k := s]) = Some (if k < j then k else j)"
    using j assms unfolding first_backup_iff by (auto simp: nth_update)
  then show ?thesis using Some j by simp
qed

text \<open>A server of a counted backend gets a new status, the previous one being the counted one.\<close>

definition settled :: "server \<Rightarrow> bool" where
  "settled s \<longleftrightarrow> srv_was_usable s = srv_is_usable s \<and> prev_eweight s = eweight s \<and> 0 \<le> eweight s"

definition put_srv :: "nat \<Rightarrow> server \<Rightarrow> proxy \<Rightarrow> proxy" where
  "put_srv k s px = px\<lparr>srv := (srv px)[k := s]\<rparr>"

lemma put_srv_simps [simp]:
  "srv (put_srv k s px) = (srv px)[k := s]" "srv_act (put_srv k s px) = srv_act px" "srv_bck (put_srv k s px) = srv_bck px"
  "tot_wact (put_srv k s px) = tot_wact px" "tot_wbck (put_srv k s px) = tot_wbck px" "fbck (put_srv k s px) = fbck px"
  "use_all_bk (put_srv k s px) = use_all_bk px" "put_srv k s' (put_srv k s px) = put_srv k s' px"
  by (simp_all add: put_srv_def)

definition succeeds :: "server \<Rightarrow> server \<Rightarrow> bool" where
  "succeeds s s' \<longleftrightarrow> is_backup s' = is_backup s \<and> prev_eweight s' = eweight s \<and> srv_was_usable s' = srv_is_usable s"

named_theorems status_defs

lemmas [status_defs] = counts_ok_def counts_update weighs_update counts_for_def weighs_for_def succeeds_def

lemma lose_server_counts:
  assumes "counts_ok px" "k < length (srv px)" "succeeds (srv px ! k) s" "srv_is_usable (srv px ! k)" "\<not> srv_is_usable s"
  shows "counts_ok (lose_server k (put_srv k s px))"
  using assms first_backup_lost [OF assms(2) _ assms(4,5)]
    first_backup_put [OF assms(2), of s]
  by (auto simp: status_defs lose_server_def Let_def nth_update)

lemma gain_server_counts:
  assumes "counts_ok px" "k < length (srv px)" "succeeds (srv px ! k) s" "\<not> srv_is_usable (srv px ! k)" "srv_is_usable s"
  shows "counts_ok (gain_server k (put_srv k s px))"
  using assms first_backup_gained [OF assms(2) _ assms(5,4)]
    first_backup_put [OF assms(2), of s]
  by (auto simp: status_defs gain_server_def Let_def nth_update split: option.splits)

lemma reweigh_server_counts:
  assumes "counts_ok px" "k < length (srv px)" "succeeds (srv px ! k) s" "srv_is_usable (srv px ! k)" "srv_is_usable s"
  shows "counts_ok (reweigh_server k (put_srv k s px))"
  using assms first_backup_put [OF assms(2), of s]
  by (auto simp: status_defs reweigh_server_def Let_def nth_update)

lemma same_counts:
  assumes "counts_ok px" "k < length (srv px)" "is_backup s = is_backup (srv px ! k)"
    "srv_is_usable s = srv_is_usable (srv px ! k)" "srv_is_usable s \<longrightarrow> eweight s = eweight (srv px ! k)"
  shows "counts_ok (put_srv k s px)"
  using assms first_backup_put [OF assms(2), of s]
  by (auto simp: status_defs nth_update)

lemma commit_put: "commit_server k px = put_srv k (srv_lb_commit_status (srv px ! k)) px"
  by (simp add: commit_server_def upd_srv_def put_srv_def)

lemma commit_status_simps [simp]:
  "srv_is_usable (srv_lb_commit_status s) = srv_is_usable s" "is_backup (srv_lb_commit_status s) = is_backup s"
  "eweight (srv_lb_commit_status s) = eweight s" "served (srv_lb_commit_status s) = served s"
  "srv_was_usable (srv_lb_commit_status s) = srv_is_usable s" "prev_eweight (srv_lb_commit_status s) = eweight s"
  by (simp_all add: srv_lb_commit_status_def srv_is_usable_def srv_was_usable_def)

lemma settled_commit [simp]: "settled (srv_lb_commit_status s) = (0 \<le> eweight s)"
  by (simp add: settled_def)

lemma counts_ok_update [simp]: "counts_ok (update_backend_weight px) = counts_ok px"
  by (simp add: counts_ok_def)

lemma put_srv_update:
  "k < length (srv px) \<Longrightarrow> eweight s = eweight (srv px ! k) \<Longrightarrow>
    update_backend_weight (put_srv k s px) = put_srv k s (update_backend_weight px)"
  by (auto simp: update_backend_weight_def put_srv_def nth_list_update split: option.split)

lemma update_idem [simp]: "update_backend_weight (update_backend_weight px) = update_backend_weight px"
  by (simp add: update_backend_weight_def split: option.split)

lemma counted_commit_update:
  assumes "counts_ok px" "k < length (srv px)"
  shows "counted (commit_server k (update_backend_weight px))"
  using assms same_counts [of "update_backend_weight px" k "srv_lb_commit_status (srv px ! k)"]
  by (simp add: counted_iff commit_put put_srv_update)

lemma counted_put_same:
  assumes "counted px" "k < length (srv px)" "is_backup s = is_backup (srv px ! k)"
    "srv_is_usable s = srv_is_usable (srv px ! k)" "srv_is_usable s \<longrightarrow> eweight s = eweight (srv px ! k)"
  shows "counted (put_srv k s px)"
proof -
  have c: "counts_ok px" "update_backend_weight px = px" using assms(1) by (simp_all add: counted_iff)
  have "update_backend_weight (put_srv k s px) = put_srv k s (update_backend_weight px)"
  proof (cases "fbck px = Some k")
    case True
    then have "first_backup (srv px) = Some k" using c(1) by (auto simp: counts_ok_def split: if_splits)
    then show ?thesis using assms(4,5) by (intro put_srv_update [OF assms(2)]) (simp add: first_backup_iff)
  next
    case False
    then show ?thesis using assms(2)
      by (auto simp: update_backend_weight_def put_srv_def nth_list_update split: option.split)
  qed
  then show ?thesis using c same_counts [OF c(1) assms(2-5)] by (simp add: counted_iff)
qed

subsection \<open>What a status change does to the backend\<close>

text \<open>The effect on the backend of the functions that the algorithms register, whatever their trees.\<close>

definition backend_ok :: "proxy \<Rightarrow> bool" where
  "backend_ok px \<longleftrightarrow> counted px \<and> (\<forall>s \<in> set (srv px). settled s)"

definition px_status_down :: "nat \<Rightarrow> proxy \<Rightarrow> proxy" where
  "px_status_down k px =
    (let s = srv px ! k
     in if \<not> srv_lb_status_changed s then px
        else if srv_is_usable s then commit_server k px
        else if \<not> srv_was_usable s then commit_server k (update_backend_weight px)
        else commit_server k (update_backend_weight (lose_server k px)))"

definition px_status_up :: "nat \<Rightarrow> proxy \<Rightarrow> proxy" where
  "px_status_up k px =
    (let s = srv px ! k
     in if \<not> srv_lb_status_changed s then px
        else if \<not> srv_is_usable s then commit_server k px
        else if srv_was_usable s then commit_server k (update_backend_weight px)
        else commit_server k (update_backend_weight (gain_server k px)))"

definition px_update_weight :: "nat \<Rightarrow> proxy \<Rightarrow> proxy" where
  "px_update_weight k px =
    (let s = srv px ! k; old_state = srv_was_usable s; new_state = srv_is_usable s
     in if \<not> srv_lb_status_changed s then px
        else if \<not> old_state \<and> \<not> new_state then commit_server k px
        else if \<not> old_state \<and> new_state then px_status_up k px
        else if old_state \<and> \<not> new_state then px_status_down k px
        else commit_server k (update_backend_weight (reweigh_server k px)))"

definition px_change :: "proxy \<Rightarrow> nat \<Rightarrow> server \<Rightarrow> bool" where
  "px_change px k s \<longleftrightarrow> backend_ok px \<and> k < length (srv px) \<and> succeeds (srv px ! k) s \<and> 0 \<le> eweight s"

lemma same_status: "\<not> srv_lb_status_changed s \<Longrightarrow> srv_is_usable s = srv_was_usable s \<and> eweight s = prev_eweight s"
  by (simp add: srv_lb_status_changed_def srv_is_usable_def srv_was_usable_def)

lemma srv_commit [simp]: "srv (commit_server k px) = (srv px)[k := srv_lb_commit_status (srv px ! k)]"
  by (simp add: commit_put)

lemma status_frame [simp]:
  "srv (lose_server k px) = srv px" "srv (gain_server k px) = srv px" "srv (reweigh_server k px) = srv px"
  by (simp_all add: lose_server_def gain_server_def reweigh_server_def Let_def)

lemma settled_put: "backend_ok px \<Longrightarrow> settled s \<Longrightarrow> \<forall>s' \<in> set ((srv px)[k := s]). settled s'"
  using set_update_subset_insert [of "srv px" k s] by (auto simp: backend_ok_def)

lemma px_same:
  assumes "px_change px k s" "srv_is_usable s = srv_is_usable (srv px ! k)" "srv_is_usable s \<longrightarrow> eweight s = eweight (srv px ! k)"
    "settled s"
  shows "backend_ok (put_srv k s px)"
  using assms settled_put [of px s k] counted_put_same [of px k s]
  by (simp add: px_change_def backend_ok_def succeeds_def)

lemma px_unchanged:
  assumes "px_change px k s" "\<not> srv_lb_status_changed s"
  shows "backend_ok (put_srv k s px)"
  using same_status [OF assms(2)] assms(1) px_same [OF assms(1)] by (auto simp: px_change_def succeeds_def settled_def)

lemma commit_put_put: "k < length (srv px) \<Longrightarrow> commit_server k (put_srv k s px) = put_srv k (srv_lb_commit_status s) px"
  by (simp add: commit_put)

lemma px_commit_same:
  assumes "px_change px k s" "srv_is_usable s = srv_is_usable (srv px ! k)" "srv_is_usable s \<longrightarrow> eweight s = eweight (srv px ! k)"
  shows "backend_ok (commit_server k (put_srv k s px))"
  using assms settled_put [of px "srv_lb_commit_status s" k] counted_put_same [of px k "srv_lb_commit_status s"]
  by (simp add: px_change_def backend_ok_def succeeds_def commit_put_put)

lemma px_committed:
  assumes "px_change px k s" "counts_ok qx" "srv qx = (srv px)[k := s]"
  shows "backend_ok (commit_server k (update_backend_weight qx))"
proof -
  have k: "k < length (srv px)" and w: "0 \<le> eweight s" and ok: "backend_ok px" using assms(1) by (simp_all add: px_change_def)
  have "counted (commit_server k (update_backend_weight qx))" using counted_commit_update [OF assms(2)] k assms(3) by simp
  moreover have "srv (commit_server k (update_backend_weight qx)) = (srv px)[k := srv_lb_commit_status s]"
    using k assms(3) by simp
  ultimately show ?thesis using settled_put [OF ok, of "srv_lb_commit_status s" k] w by (simp add: backend_ok_def)
qed

lemma px_changeD:
  assumes "px_change px k s"
  shows "counts_ok px" "k < length (srv px)" "succeeds (srv px ! k) s" "is_backup s = is_backup (srv px ! k)"
    "srv_was_usable s = srv_is_usable (srv px ! k)" "srv (put_srv k s px) ! k = s"
  using assms by (simp_all add: px_change_def backend_ok_def counted_iff succeeds_def)

lemma px_status_down_ok:
  assumes c: "px_change px k s" and "srv_is_usable s \<longrightarrow> srv_is_usable (srv px ! k) \<and> eweight s = eweight (srv px ! k)"
  shows "backend_ok (px_status_down k (put_srv k s px))"
proof -
  note d = px_changeD [OF c]
  have "counts_ok (put_srv k s px)" if "\<not> srv_is_usable s" "\<not> srv_is_usable (srv px ! k)"
    using same_counts [OF d(1,2,4)] that by simp
  then show ?thesis
    using px_unchanged [OF c] px_commit_same [OF c] px_committed [OF c, of "put_srv k s px"]
      px_committed [OF c, of "lose_server k (put_srv k s px)"] lose_server_counts [OF d(1-3)] assms(2) d
    by (auto simp: px_status_down_def Let_def)
qed

lemma px_status_up_ok:
  assumes c: "px_change px k s" and "srv_is_usable (srv px ! k) \<longrightarrow> srv_is_usable s \<and> eweight s = eweight (srv px ! k)"
  shows "backend_ok (px_status_up k (put_srv k s px))"
proof -
  note d = px_changeD [OF c]
  have "counts_ok (put_srv k s px)" if "srv_is_usable s" "srv_is_usable (srv px ! k)"
    using same_counts [OF d(1,2,4)] that assms(2) by simp
  then show ?thesis
    using px_unchanged [OF c] px_commit_same [OF c] px_committed [OF c, of "put_srv k s px"]
      px_committed [OF c, of "gain_server k (put_srv k s px)"] gain_server_counts [OF d(1-3)] assms(2) d
    by (auto simp: px_status_up_def Let_def)
qed

lemma px_update_weight_ok:
  assumes c: "px_change px k s"
  shows "backend_ok (px_update_weight k (put_srv k s px))"
proof -
  note d = px_changeD [OF c]
  show ?thesis
    using px_unchanged [OF c] px_commit_same [OF c] px_status_up_ok [OF c] px_status_down_ok [OF c]
      px_committed [OF c, of "reweigh_server k (put_srv k s px)"] reweigh_server_counts [OF d(1-3)] d
    by (auto simp: px_update_weight_def Let_def)
qed

lemma px_srv:
  "k < length (srv px) \<Longrightarrow> \<exists>s. (s = srv px ! k \<or> s = srv_lb_commit_status (srv px ! k))
     \<and> srv (px_status_down k px) = (srv px)[k := s]"
  "k < length (srv px) \<Longrightarrow> \<exists>s. (s = srv px ! k \<or> s = srv_lb_commit_status (srv px ! k))
     \<and> srv (px_status_up k px) = (srv px)[k := s]"
  "k < length (srv px) \<Longrightarrow> \<exists>s. (s = srv px ! k \<or> s = srv_lb_commit_status (srv px ! k))
     \<and> srv (px_update_weight k px) = (srv px)[k := s]"
  by (auto simp: px_status_down_def px_status_up_def px_update_weight_def Let_def)

text \<open>None of the steps moves a server from a group to the other.\<close>

definition same_groups :: "proxy \<Rightarrow> proxy \<Rightarrow> bool" where
  "same_groups px qx \<longleftrightarrow> map is_backup (srv qx) = map is_backup (srv px)"

lemma same_groups_nth:
  assumes "same_groups px qx" "k < length (srv px)"
  shows "is_backup (srv qx ! k) = is_backup (srv px ! k)"
proof -
  have "length (srv qx) = length (srv px)" using assms(1) by (metis same_groups_def length_map)
  then show ?thesis using arg_cong [OF assms(1) [unfolded same_groups_def], of "\<lambda>xs. xs ! k"] assms(2) by simp
qed

lemma groups_put: "is_backup s = is_backup (srv px ! k) \<Longrightarrow> same_groups px (put_srv k s px)"
proof (cases "k < length (srv px)")
  case True
  assume "is_backup s = is_backup (srv px ! k)"
  then have "(map is_backup (srv px))[k := is_backup s] = map is_backup (srv px)" using True by (simp add: list_update_same_conv)
  then show ?thesis by (simp add: same_groups_def map_update)
qed (simp add: same_groups_def list_update_beyond)

lemma groups_frame [simp]:
  "same_groups px (lose_server k px)" "same_groups px (gain_server k px)" "same_groups px (reweigh_server k px)"
  "same_groups px (commit_server k px)" "same_groups px (commit_server k (update_backend_weight px))"
proof -
  have "same_groups px (put_srv k (srv_lb_commit_status (srv px ! k)) px)" by (rule groups_put) simp
  then show "same_groups px (commit_server k px)" "same_groups px (commit_server k (update_backend_weight px))"
    by (simp_all add: same_groups_def commit_put)
qed (simp_all add: same_groups_def)

end
