(* ===== verification/HA_LB_Tree.thy ===== *)
theory HA_LB_Tree
  imports HA_LB_Count HA_Ebtree_Order "HOL-Library.Monad_Syntax"
begin

section \<open>Load balancing with trees: first available server and least connections (src/lb_fas.c, src/lb_fwlc.c)\<close>

text \<open>
  Both algorithms keep the usable servers of a backend in two elastic trees, one for the active and
  one for the backup servers; the first sorts them by identifier, the other by the number of
  connections over the weight.  The two files have the same code but for the key: the functions
  below take it as the argument \<open>kf\<close> (\<open>None\<close> where computing it divides by zero).  The backend's
  counters are updated step by step when a server's status changes; the theorems compare them with
  a recount.  A server is linked in at most one tree, so that unlinking removes it from both.
\<close>

subsection \<open>State\<close>

datatype lb_group = Act | Bck

record lb_trees =
  be :: proxy
  tree_act :: "eb option"
  tree_bck :: "eb option"
  lb_tree :: "nat \<Rightarrow> lb_group option"
  lb_key :: "nat \<Rightarrow> u32"
  puid :: "nat \<Rightarrow> u32"

abbreviation SRV_EWGHT_MAX :: int where "SRV_EWGHT_MAX \<equiv> 4096"
abbreviation BE_WEIGHT_SCALE :: int where "BE_WEIGHT_SCALE \<equiv> 16"

type_synonym key_fun = "lb_trees \<Rightarrow> nat \<Rightarrow> u32 option"

definition fas_key :: key_fun where
  "fas_key t k = Some (puid t k)"

definition fwlc_key :: key_fun where
  "fwlc_key t k =
    (let s = srv (be t) ! k
     in if eweight s = 0 then None
        else Some (word_of_int (served s * SRV_EWGHT_MAX) div word_of_int (eweight s)))"

definition on_be :: "(proxy \<Rightarrow> proxy) \<Rightarrow> lb_trees \<Rightarrow> lb_trees" where
  "on_be f t = t\<lparr>be := f (be t)\<rparr>"

definition group_of :: "server \<Rightarrow> lb_group" where
  "group_of s = (if is_backup s then Bck else Act)"

subsection \<open>Operations\<close>

definition remove_from_tree :: "nat \<Rightarrow> lb_trees \<Rightarrow> lb_trees" where
  "remove_from_tree k t = t\<lparr>lb_tree := (lb_tree t)(k := None)\<rparr>"

definition dequeue_srv :: "nat \<Rightarrow> lb_trees \<Rightarrow> lb_trees" where
  "dequeue_srv k t = t\<lparr>tree_act := eb_delete k (tree_act t), tree_bck := eb_delete k (tree_bck t)\<rparr>"

definition queue_srv :: "key_fun \<Rightarrow> nat \<Rightarrow> lb_trees \<Rightarrow> lb_trees option" where
  "queue_srv kf k t = do {
     x \<leftarrow> kf t k;
     let t = t\<lparr>lb_key := (lb_key t)(k := x)\<rparr>;
     g \<leftarrow> lb_tree t k;
     Some (case g of Act \<Rightarrow> t\<lparr>tree_act := eb32_put (lb_key t) k (tree_act t)\<rparr>
           | Bck \<Rightarrow> t\<lparr>tree_bck := eb32_put (lb_key t) k (tree_bck t)\<rparr>)
   }"

definition srv_reposition :: "key_fun \<Rightarrow> nat \<Rightarrow> lb_trees \<Rightarrow> lb_trees option" where
  "srv_reposition kf k t =
    (if lb_tree t k = None then Some t else queue_srv kf k (dequeue_srv k t))"

definition set_tree :: "nat \<Rightarrow> lb_trees \<Rightarrow> lb_trees" where
  "set_tree k t = t\<lparr>lb_tree := (lb_tree t)(k := Some (group_of (srv (be t) ! k)))\<rparr>"

definition lbt_set_server_status_down :: "key_fun \<Rightarrow> nat \<Rightarrow> lb_trees \<Rightarrow> lb_trees option" where
  "lbt_set_server_status_down kf k t =
    (let s = srv (be t) ! k
     in if \<not> srv_lb_status_changed s then Some t
        else if srv_is_usable s then Some (on_be (commit_server k) t)
        else if \<not> srv_was_usable s then Some (on_be (\<lambda>px. commit_server k (update_backend_weight px)) t)
        else let t = on_be (lose_server k) t;
                 t = remove_from_tree k (dequeue_srv k t)
             in Some (on_be (\<lambda>px. commit_server k (update_backend_weight px)) t))"

definition lbt_set_server_status_up :: "key_fun \<Rightarrow> nat \<Rightarrow> lb_trees \<Rightarrow> lb_trees option" where
  "lbt_set_server_status_up kf k t =
    (let s = srv (be t) ! k
     in if \<not> srv_lb_status_changed s then Some t
        else if \<not> srv_is_usable s then Some (on_be (commit_server k) t)
        else if srv_was_usable s then Some (on_be (\<lambda>px. commit_server k (update_backend_weight px)) t)
        else map_option (on_be (\<lambda>px. commit_server k (update_backend_weight px)))
               (queue_srv kf k (on_be (gain_server k) (set_tree k t))))"

definition lbt_update_server_weight :: "key_fun \<Rightarrow> nat \<Rightarrow> lb_trees \<Rightarrow> lb_trees option" where
  "lbt_update_server_weight kf k t =
    (let s = srv (be t) ! k; old_state = srv_was_usable s; new_state = srv_is_usable s
     in if \<not> srv_lb_status_changed s then Some t
        else if \<not> old_state \<and> \<not> new_state then Some (on_be (commit_server k) t)
        else if \<not> old_state \<and> new_state then lbt_set_server_status_up kf k t
        else if old_state \<and> \<not> new_state then lbt_set_server_status_down kf k t
        else let t = (if lb_tree t k \<noteq> None then dequeue_srv k t else t)
             in map_option (on_be (\<lambda>px. commit_server k (update_backend_weight px)))
                  (queue_srv kf k (set_tree k (on_be (reweigh_server k) t))))"

fun queue_all :: "key_fun \<Rightarrow> nat list \<Rightarrow> lb_trees \<Rightarrow> lb_trees option" where
  "queue_all kf [] t = Some t"
| "queue_all kf (k # ks) t =
    (if \<not> srv_is_usable (srv (be t) ! k) then queue_all kf ks t
     else Option.bind (queue_srv kf k (set_tree k t)) (queue_all kf ks))"

definition lbt_init_server_tree :: "key_fun \<Rightarrow> lb_trees \<Rightarrow> lb_trees option" where
  "lbt_init_server_tree kf t =
    (let px = be t; px = px\<lparr>wdiv := BE_WEIGHT_SCALE\<rparr>;
         px = px\<lparr>srv := map (initial_weight (wmult px) (wdiv px)) (srv px)\<rparr>;
         px = update_backend_weight (recount_servers px)
     in queue_all kf [0..<length (srv px)] (t\<lparr>be := px, tree_act := None, tree_bck := None\<rparr>))"

text \<open>The walk through the tree from a first candidate; \<open>n\<close> bounds the number of servers.\<close>

definition has_slot :: "int \<Rightarrow> proxy \<Rightarrow> nat \<Rightarrow> bool" where
  "has_slot now px k =
    (let s = srv px ! k
     in maxconn s = 0 \<or> nbpend s = 0 \<and> (word_of_int (served s) :: u32) < srv_dynamic_maxconn now px s)"

fun tree_walk :: "nat \<Rightarrow> int \<Rightarrow> proxy \<Rightarrow> nat option \<Rightarrow> eb option \<Rightarrow> nat option \<Rightarrow> nat option \<Rightarrow> nat option option" where
  "tree_walk n now px avoid tr None avoided = Some avoided"
| "tree_walk 0 now px avoid tr (Some k) avoided = None"
| "tree_walk (Suc n) now px avoid tr (Some k) avoided =
    (if has_slot now px k \<and> Some k \<noteq> avoid then Some (Some k)
     else tree_walk n now px avoid tr (eb_next k tr) (if has_slot now px k then Some k else avoided))"

definition lbt_get_next_server :: "int \<Rightarrow> lb_trees \<Rightarrow> nat option \<Rightarrow> nat option option" where
  "lbt_get_next_server now t srvtoavoid =
    (let px = be t; n = length (srv px)
     in if srv_act px \<noteq> 0 then tree_walk n now px srvtoavoid (tree_act t) (eb_first (tree_act t)) None
        else if fbck px \<noteq> None then Some (fbck px)
        else if srv_bck px \<noteq> 0 then tree_walk n now px srvtoavoid (tree_bck t) (eb_first (tree_bck t)) None
        else Some None)"

text \<open>The two algorithms.\<close>

definition fas_srv_reposition :: "nat \<Rightarrow> lb_trees \<Rightarrow> lb_trees option" where
  "fas_srv_reposition = srv_reposition fas_key"

definition fas_set_server_status_down :: "nat \<Rightarrow> lb_trees \<Rightarrow> lb_trees option" where
  "fas_set_server_status_down = lbt_set_server_status_down fas_key"

definition fas_set_server_status_up :: "nat \<Rightarrow> lb_trees \<Rightarrow> lb_trees option" where
  "fas_set_server_status_up = lbt_set_server_status_up fas_key"

definition fas_update_server_weight :: "nat \<Rightarrow> lb_trees \<Rightarrow> lb_trees option" where
  "fas_update_server_weight = lbt_update_server_weight fas_key"

definition fas_init_server_tree :: "lb_trees \<Rightarrow> lb_trees option" where
  "fas_init_server_tree = lbt_init_server_tree fas_key"

definition fas_get_next_server :: "int \<Rightarrow> lb_trees \<Rightarrow> nat option \<Rightarrow> nat option option" where
  "fas_get_next_server = lbt_get_next_server"

definition fwlc_srv_reposition :: "nat \<Rightarrow> lb_trees \<Rightarrow> lb_trees option" where
  "fwlc_srv_reposition = srv_reposition fwlc_key"

definition fwlc_set_server_status_down :: "nat \<Rightarrow> lb_trees \<Rightarrow> lb_trees option" where
  "fwlc_set_server_status_down = lbt_set_server_status_down fwlc_key"

definition fwlc_set_server_status_up :: "nat \<Rightarrow> lb_trees \<Rightarrow> lb_trees option" where
  "fwlc_set_server_status_up = lbt_set_server_status_up fwlc_key"

definition fwlc_update_server_weight :: "nat \<Rightarrow> lb_trees \<Rightarrow> lb_trees option" where
  "fwlc_update_server_weight = lbt_update_server_weight fwlc_key"

definition fwlc_init_server_tree :: "lb_trees \<Rightarrow> lb_trees option" where
  "fwlc_init_server_tree = lbt_init_server_tree fwlc_key"

definition fwlc_get_next_server :: "int \<Rightarrow> lb_trees \<Rightarrow> nat option \<Rightarrow> nat option option" where
  "fwlc_get_next_server = lbt_get_next_server"

subsection \<open>The trees hold the usable servers\<close>

definition placed :: "lb_trees \<Rightarrow> (nat \<Rightarrow> lb_group option) \<Rightarrow> bool" where
  "placed t P \<longleftrightarrow> lb_tree t = P \<and> eb_root_ok (lb_key t) (tree_act t) \<and> eb_root_ok (lb_key t) (tree_bck t)
    \<and> set (eb_contents (tree_act t)) = {k. P k = Some Act} \<and> set (eb_contents (tree_bck t)) = {k. P k = Some Bck}"

definition place :: "proxy \<Rightarrow> nat \<Rightarrow> lb_group option" where
  "place px k = (if k < length (srv px) \<and> srv_is_usable (srv px ! k) then Some (group_of (srv px ! k)) else None)"

definition keys_ok :: "key_fun \<Rightarrow> lb_trees \<Rightarrow> bool" where
  "keys_ok kf t \<longleftrightarrow> (\<forall>k. lb_tree t k \<noteq> None \<longrightarrow> kf t k = Some (lb_key t k))"

definition lbt_ok :: "key_fun \<Rightarrow> lb_trees \<Rightarrow> bool" where
  "lbt_ok kf t \<longleftrightarrow> counted (be t) \<and> (\<forall>s \<in> set (srv (be t)). settled s) \<and> placed t (place (be t)) \<and> keys_ok kf t"

lemma on_be_simps [simp]:
  "be (on_be f t) = f (be t)" "tree_act (on_be f t) = tree_act t" "tree_bck (on_be f t) = tree_bck t"
  "lb_tree (on_be f t) = lb_tree t" "lb_key (on_be f t) = lb_key t" "puid (on_be f t) = puid t"
  "on_be f (on_be g t) = on_be (\<lambda>px. f (g px)) t"
  by (simp_all add: on_be_def)

lemma unlink_simps [simp]:
  "be (dequeue_srv k t) = be t" "lb_tree (dequeue_srv k t) = lb_tree t" "lb_key (dequeue_srv k t) = lb_key t"
  "puid (dequeue_srv k t) = puid t" "be (remove_from_tree k t) = be t" "lb_key (remove_from_tree k t) = lb_key t"
  "puid (remove_from_tree k t) = puid t" "lb_tree (remove_from_tree k t) = (lb_tree t)(k := None)"
  by (simp_all add: dequeue_srv_def remove_from_tree_def)

lemma placed_on_be [simp]: "placed (on_be f t) P = placed t P"
  by (simp add: placed_def)

lemma unlink_placed: "placed t P \<Longrightarrow> placed (remove_from_tree k (dequeue_srv k t)) (P(k := None))"
proof -
  assume p: "placed t P"
  then have ok: "eb_root_ok (lb_key t) (tree_act t)" "eb_root_ok (lb_key t) (tree_bck t)" by (simp_all add: placed_def)
  show ?thesis
    using p eb32.remove_valid [OF ok(1), of k] eb32.remove_valid [OF ok(2), of k]
      eb32.remove_contents [OF ok(1), of k] eb32.remove_contents [OF ok(2), of k]
      eb32.in_order [OF ok(1)] eb32.in_order [OF ok(2)]
    by (auto simp: placed_def remove_from_tree_def dequeue_srv_def split: if_splits)
qed

lemma put_valid_new:
  assumes "eb_root_ok key tr" "k \<notin> set (eb_contents tr)"
  shows "eb_root_ok (key(k := x)) tr" "eb_root_ok (key(k := x)) (eb32_put (key(k := x)) k tr)"
    "set (eb_contents (eb32_put (key(k := x)) k tr)) = insert k (set (eb_contents tr))"
proof -
  show ok: "eb_root_ok (key(k := x)) tr" using eb32.valid_cong [OF assms(1), of "key(k := x)"] assms(2) by auto
  show "eb_root_ok (key(k := x)) (eb32_put (key(k := x)) k tr)" by (rule eb32.put_valid [OF ok assms(2)])
  show "set (eb_contents (eb32_put (key(k := x)) k tr)) = insert k (set (eb_contents tr))"
    unfolding eb32.put_contents [OF ok assms(2)] by simp
qed

lemma queue_placed:
  assumes "placed t P" "P k = None" "kf (t\<lparr>lb_tree := P(k := Some g)\<rparr>) k = Some x"
  obtains t' where "queue_srv kf k (t\<lparr>lb_tree := P(k := Some g)\<rparr>) = Some t'" "placed t' (P(k := Some g))"
    "lb_key t' = (lb_key t)(k := x)" "be t' = be t" "puid t' = puid t"
proof -
  have ok: "eb_root_ok (lb_key t) (tree_act t)" "eb_root_ok (lb_key t) (tree_bck t)"
    and n: "k \<notin> set (eb_contents (tree_act t))" "k \<notin> set (eb_contents (tree_bck t))"
    using assms(1,2) by (auto simp: placed_def)
  note act = put_valid_new [OF ok(1) n(1), of x] and bck = put_valid_new [OF ok(2) n(2), of x]
  let ?t = "t\<lparr>lb_tree := P(k := Some g), lb_key := (lb_key t)(k := x)\<rparr>"
  show thesis
  proof (rule that)
    show "queue_srv kf k (t\<lparr>lb_tree := P(k := Some g)\<rparr>) = Some (case g of
        Act \<Rightarrow> ?t\<lparr>tree_act := eb32_put (lb_key ?t) k (tree_act t)\<rparr>
      | Bck \<Rightarrow> ?t\<lparr>tree_bck := eb32_put (lb_key ?t) k (tree_bck t)\<rparr>)"
      using assms(3) by (simp add: queue_srv_def Let_def split: lb_group.split)
  qed (use assms(1,2) act bck in \<open>auto simp: placed_def split: lb_group.splits\<close>)
qed

lemma place_put:
  "k < length (srv px) \<Longrightarrow> srv px' = (srv px)[k := s] \<Longrightarrow>
    place px' = (place px)(k := if srv_is_usable s then Some (group_of s) else None)"
  by (auto simp: place_def fun_eq_iff nth_list_update)

lemma be_commute:
  "dequeue_srv k (on_be f t) = on_be f (dequeue_srv k t)" "remove_from_tree k (on_be f t) = on_be f (remove_from_tree k t)"
  by (simp_all add: dequeue_srv_def remove_from_tree_def on_be_def)

lemma set_tree_be: "set_tree k t = t\<lparr>lb_tree := (lb_tree t)(k := Some (group_of (srv (be t) ! k)))\<rparr>"
  by (simp add: set_tree_def)

lemma on_be_lb_tree: "on_be f (t\<lparr>lb_tree := P\<rparr>) = (on_be f t)\<lparr>lb_tree := P\<rparr>"
  by (simp add: on_be_def)

lemma lbt_okD:
  assumes "lbt_ok kf t"
  shows "counts_ok (be t)" "counted (be t)" "placed t (place (be t))" "keys_ok kf t" "lb_tree t = place (be t)"
    "k < length (srv (be t)) \<Longrightarrow> settled (srv (be t) ! k)"
  using assms by (auto simp: lbt_ok_def counted_iff placed_def)

subsection \<open>What the key has to satisfy\<close>

text \<open>
  The key of a server is a function of the server itself, and defined while the server is usable.
  The operations then keep the trees and the counters, whatever the order.
\<close>

locale lb_sorted =
  fixes kf :: key_fun
  assumes kf_own: "served (srv (be t) ! k) = served (srv (be t') ! k) \<Longrightarrow>
      eweight (srv (be t) ! k) = eweight (srv (be t') ! k) \<Longrightarrow> puid t k = puid t' k \<Longrightarrow> kf t k = kf t' k"
    and kf_usable: "srv_is_usable (srv (be t) ! k) \<Longrightarrow> kf t k \<noteq> None"
begin

lemma keys_on_be:
  assumes "keys_ok kf t" "\<forall>i. lb_tree t i \<noteq> None \<longrightarrow> served (srv (f (be t)) ! i) = served (srv (be t) ! i)
    \<and> eweight (srv (f (be t)) ! i) = eweight (srv (be t) ! i)"
  shows "keys_ok kf (on_be f t)"
  unfolding keys_ok_def
proof (intro allI impI)
  fix i assume "lb_tree (on_be f t) i \<noteq> None"
  then have i: "lb_tree t i \<noteq> None" by simp
  then have "kf (on_be f t) i = kf t i" using assms(2) by (intro kf_own) simp_all
  then show "kf (on_be f t) i = Some (lb_key (on_be f t) i)" using assms(1) i by (simp add: keys_ok_def)
qed

lemma keys_queue:
  assumes "placed t P" "keys_ok kf t" "P k = None" "srv_is_usable (srv (be t) ! k)"
  obtains t' where "queue_srv kf k (t\<lparr>lb_tree := P(k := Some g)\<rparr>) = Some t'" "placed t' (P(k := Some g))"
    "be t' = be t" "keys_ok kf t'"
proof -
  let ?t = "t\<lparr>lb_tree := P(k := Some g)\<rparr>"
  obtain x where x: "kf ?t k = Some x" using kf_usable [of ?t k] assms(4) by auto
  obtain t' where t': "queue_srv kf k ?t = Some t'" "placed t' (P(k := Some g))"
    "lb_key t' = (lb_key t)(k := x)" "be t' = be t" "puid t' = puid t"
    using queue_placed [where kf = kf, OF assms(1,3) x] by blast
  have "kf t' i = Some (lb_key t' i)" if "lb_tree t' i \<noteq> None" for i
  proof (cases "i = k")
    case True
    have "kf t' k = kf ?t k" by (rule kf_own) (simp_all add: t')
    then show ?thesis using x t' True by simp
  next
    case False
    have "lb_tree t i \<noteq> None" using that t'(2) assms(1) False by (simp add: placed_def)
    moreover have "kf t' i = kf t i" by (rule kf_own) (simp_all add: t')
    ultimately show ?thesis using assms(2) t' False by (simp add: keys_ok_def)
  qed
  then show thesis using that t' by (simp add: keys_ok_def)
qed

lemma keys_unlink: "keys_ok kf t \<Longrightarrow> keys_ok kf (remove_from_tree k (dequeue_srv k t))"
proof -
  assume "keys_ok kf t"
  moreover have "kf (remove_from_tree k (dequeue_srv k t)) i = kf t i" for i by (rule kf_own) simp_all
  ultimately show ?thesis by (simp add: keys_ok_def)
qed

lemma finish:
  assumes "counts_ok (be t)" "k < length (srv (be t))" "\<forall>i < length (srv (be t)). i \<noteq> k \<longrightarrow> settled (srv (be t) ! i)"
    "0 \<le> eweight (srv (be t) ! k)" "placed t (place (be t))" "keys_ok kf t"
  shows "lbt_ok kf (on_be (\<lambda>px. commit_server k (update_backend_weight px)) t)"
proof -
  let ?f = "\<lambda>px. commit_server k (update_backend_weight px)"
  have pl: "place (?f (be t)) = place (be t)"
    using place_put [OF assms(2), of "?f (be t)"] assms(2) by (simp add: fun_eq_iff place_def group_of_def)
  have "keys_ok kf (on_be ?f t)" using assms(2) by (intro keys_on_be [OF assms(6)]) (auto simp: nth_list_update)
  moreover have "settled s" if "s \<in> set (srv (?f (be t)))" for s
  proof -
    from that obtain i where "i < length (srv (be t))" "s = srv (?f (be t)) ! i" by (auto simp: in_set_conv_nth)
    then show ?thesis using assms(3,4) by (cases "i = k") simp_all
  qed
  ultimately show ?thesis using counted_commit_update [OF assms(1,2)] assms(5) pl by (simp add: lbt_ok_def)
qed

text \<open>Server \<open>k\<close> of a consistent state \<open>t\<close> has just become \<open>s\<close>.\<close>

definition change :: "lb_trees \<Rightarrow> nat \<Rightarrow> server \<Rightarrow> bool" where
  "change t k s \<longleftrightarrow> lbt_ok kf t \<and> k < length (srv (be t)) \<and> succeeds (srv (be t) ! k) s \<and> 0 \<le> eweight s"

lemma others_settled: "change t k s \<Longrightarrow> \<forall>i < length (srv (be t)). i \<noteq> k \<longrightarrow> settled (srv (be t) ! i)"
  using lbt_okD(6) [of kf t] by (simp add: change_def)

lemma unchanged_ok:
  assumes ok: "lbt_ok kf t" and "srv_is_usable s = srv_is_usable (srv (be t) ! k)"
    "srv_is_usable s \<longrightarrow> eweight s = eweight (srv (be t) ! k)" "srv_is_usable s \<longrightarrow> served s = served (srv (be t) ! k)" "settled s"
    and k: "k < length (srv (be t))" and b: "is_backup s = is_backup (srv (be t) ! k)"
  shows "lbt_ok kf (on_be (put_srv k s) t)"
proof -
  note d = lbt_okD [OF ok]
  have pl: "place (put_srv k s (be t)) = place (be t)"
    using place_put [OF k, of "put_srv k s (be t)" s] assms(2) b k by (simp add: fun_eq_iff place_def group_of_def)
  have "keys_ok kf (on_be (put_srv k s) t)"
    using assms(3,4) assms(2) k by (intro keys_on_be [OF d(4)]) (auto simp: d(5) place_def nth_update split: if_splits)
  moreover have "\<forall>s' \<in> set ((srv (be t))[k := s]). settled s'"
    using ok assms(5) set_update_subset_insert [of "srv (be t)" k s] by (auto simp: lbt_ok_def)
  ultimately show ?thesis using counted_put_same [OF d(2) k b assms(2,3)] d(3) pl by (simp add: lbt_ok_def)
qed

lemma commit_only:
  assumes "change t k s" "srv_is_usable s = srv_is_usable (srv (be t) ! k)"
    "srv_is_usable s \<longrightarrow> eweight s = eweight (srv (be t) ! k)" "srv_is_usable s \<longrightarrow> served s = served (srv (be t) ! k)"
  shows "lbt_ok kf (on_be (commit_server k) (on_be (put_srv k s) t))"
proof -
  have k: "k < length (srv (be t))" and ok: "lbt_ok kf t" using assms(1) by (simp_all add: change_def)
  have "on_be (commit_server k) (on_be (put_srv k s) t) = on_be (put_srv k (srv_lb_commit_status s)) t"
    using k by (simp add: on_be_def commit_put)
  then show ?thesis
    using unchanged_ok [OF ok _ _ _ _ k, of "srv_lb_commit_status s"] assms by (simp add: change_def succeeds_def)
qed

lemma neither_usable:
  assumes "change t k s" "\<not> srv_is_usable s" "\<not> srv_is_usable (srv (be t) ! k)"
  shows "lbt_ok kf (on_be (\<lambda>px. commit_server k (update_backend_weight px)) (on_be (put_srv k s) t))"
proof (rule finish)
  have ok: "lbt_ok kf t" and k: "k < length (srv (be t))" and b: "is_backup s = is_backup (srv (be t) ! k)"
    using assms(1) by (simp_all add: change_def succeeds_def)
  note d = lbt_okD [OF ok]
  show "counts_ok (be (on_be (put_srv k s) t))" using same_counts [OF d(1) k b] assms(2,3) by simp
  show "placed (on_be (put_srv k s) t) (place (be (on_be (put_srv k s) t)))"
    using d(3) place_put [OF k, of "put_srv k s (be t)" s] assms(2,3) k by (simp add: place_def fun_upd_idem)
  show "keys_ok kf (on_be (put_srv k s) t)"
    using assms(3) by (intro keys_on_be [OF d(4)]) (auto simp: d(5) place_def nth_update split: if_splits)
qed (use assms others_settled [OF assms(1)] in \<open>simp_all add: change_def\<close>)

lemma lose_ok:
  assumes "change t k s" "\<not> srv_is_usable s" "srv_is_usable (srv (be t) ! k)"
  shows "lbt_ok kf (on_be (\<lambda>px. commit_server k (update_backend_weight px))
    (remove_from_tree k (dequeue_srv k (on_be (lose_server k) (on_be (put_srv k s) t)))))"
    (is "lbt_ok kf (on_be _ ?t)")
proof (rule finish)
  have ok: "lbt_ok kf t" and k: "k < length (srv (be t))" and su: "succeeds (srv (be t) ! k) s"
    using assms(1) by (simp_all add: change_def)
  note d = lbt_okD [OF ok]
  let ?f = "\<lambda>px. lose_server k (put_srv k s px)"
  have t: "?t = on_be ?f (remove_from_tree k (dequeue_srv k t))" by (simp add: be_commute)
  show "counts_ok (be ?t)" using lose_server_counts [OF d(1) k su assms(3,2)] by simp
  show "placed ?t (place (be ?t))"
    unfolding t using unlink_placed [OF d(3), of k] place_put [OF k, of "?f (be t)" s] assms(2) by simp
  show "keys_ok kf ?t"
    unfolding t using k by (intro keys_on_be [OF keys_unlink [OF d(4)]]) (auto simp: nth_list_update)
qed (use assms others_settled [OF assms(1)] in \<open>simp_all add: change_def\<close>)

lemma gain_ok:
  assumes "change t k s" "srv_is_usable s" "\<not> srv_is_usable (srv (be t) ! k)"
  obtains t' where "queue_srv kf k (on_be (gain_server k) (set_tree k (on_be (put_srv k s) t))) = Some t'"
    "lbt_ok kf (on_be (\<lambda>px. commit_server k (update_backend_weight px)) t')" "srv (be t') = (srv (be t))[k := s]"
proof -
  have ok: "lbt_ok kf t" and k: "k < length (srv (be t))" and su: "succeeds (srv (be t) ! k) s" and w: "0 \<le> eweight s"
    using assms(1) by (simp_all add: change_def)
  note d = lbt_okD [OF ok]
  let ?f = "\<lambda>px. gain_server k (put_srv k s px)" and ?P = "place (be t)"
  let ?t = "on_be ?f t"
  have t: "on_be (gain_server k) (set_tree k (on_be (put_srv k s) t)) = ?t\<lparr>lb_tree := ?P(k := Some (group_of s))\<rparr>"
    using k by (simp add: set_tree_be on_be_lb_tree d(5))
  have "keys_ok kf ?t" using assms(3) by (intro keys_on_be [OF d(4)]) (auto simp: d(5) place_def nth_update split: if_splits)
  moreover have "?P k = None" using assms(3) by (simp add: place_def)
  ultimately obtain t' where t': "queue_srv kf k (?t\<lparr>lb_tree := ?P(k := Some (group_of s))\<rparr>) = Some t'"
    "placed t' (?P(k := Some (group_of s)))" "be t' = be ?t" "keys_ok kf t'"
    using keys_queue [of ?t ?P k "group_of s"] d(3) assms(2) k by auto
  have "lbt_ok kf (on_be (\<lambda>px. commit_server k (update_backend_weight px)) t')"
  proof (rule finish)
    show "counts_ok (be t')" using gain_server_counts [OF d(1) k su assms(3,2)] t'(3) by simp
    show "placed t' (place (be t'))" using t'(2,3) place_put [OF k, of "be t'" s] assms(2) by simp
  qed (use others_settled [OF assms(1)] t' k w in simp_all)
  then show thesis using that t t' by simp
qed

lemma requeue_ok:
  assumes "change t k s" "srv_is_usable s" "srv_is_usable (srv (be t) ! k)" "srv (f (be t)) = (srv (be t))[k := s]"
  obtains t' where "queue_srv kf k ((dequeue_srv k (on_be f t))\<lparr>lb_tree := (place (be t))(k := Some (group_of s))\<rparr>) = Some t'"
    "placed t' (place (be t'))" "be t' = f (be t)" "keys_ok kf t'"
proof -
  have ok: "lbt_ok kf t" and k: "k < length (srv (be t))" using assms(1) by (simp_all add: change_def)
  note d = lbt_okD [OF ok]
  let ?P = "(place (be t))(k := None)" and ?t = "on_be f (remove_from_tree k (dequeue_srv k t))"
  have t: "(dequeue_srv k (on_be f t))\<lparr>lb_tree := (place (be t))(k := Some (group_of s))\<rparr> = ?t\<lparr>lb_tree := ?P(k := Some (group_of s))\<rparr>"
    by (simp add: dequeue_srv_def on_be_def remove_from_tree_def)
  have "keys_ok kf ?t"
    using k assms(4) by (intro keys_on_be [OF keys_unlink [OF d(4)]]) (auto simp: nth_list_update)
  moreover have "placed ?t ?P" using unlink_placed [OF d(3), of k] by simp
  ultimately obtain t' where t': "queue_srv kf k (?t\<lparr>lb_tree := ?P(k := Some (group_of s))\<rparr>) = Some t'"
    "placed t' (?P(k := Some (group_of s)))" "be t' = be ?t" "keys_ok kf t'"
    using keys_queue [of ?t ?P k "group_of s"] assms(2,4) k by auto
  have "placed t' (place (be t'))" using t'(2,3) place_put [OF k, of "be t'" s] assms(2,4) by simp
  then show thesis using that t t' by simp
qed

lemma reposition_ok:
  assumes "change t k s" "srv_is_usable s = srv_is_usable (srv (be t) ! k)" "eweight s = eweight (srv (be t) ! k)" "settled s"
  obtains t' where "srv_reposition kf k (on_be (put_srv k s) t) = Some t'" "lbt_ok kf t'" "srv (be t') = (srv (be t))[k := s]"
proof (cases "srv_is_usable s")
  case False
  have "lb_tree t k = None" using assms(1,2) False by (auto simp: change_def lbt_okD place_def)
  then have "srv_reposition kf k (on_be (put_srv k s) t) = Some (on_be (put_srv k s) t)" by (simp add: srv_reposition_def)
  then show ?thesis using that unchanged_ok [of t s k] assms False by (simp add: change_def succeeds_def)
next
  case True
  have ok: "lbt_ok kf t" and k: "k < length (srv (be t))" and b: "is_backup s = is_backup (srv (be t) ! k)"
    using assms(1) by (simp_all add: change_def succeeds_def)
  note d = lbt_okD [OF ok]
  have g: "place (be t) k = Some (group_of s)" using assms(2) True k b by (simp add: place_def group_of_def)
  obtain t' where t': "queue_srv kf k ((dequeue_srv k (on_be (put_srv k s) t))\<lparr>lb_tree := (place (be t))(k := Some (group_of s))\<rparr>) = Some t'"
    "placed t' (place (be t'))" "be t' = put_srv k s (be t)" "keys_ok kf t'"
    using requeue_ok [OF assms(1) True, of "put_srv k s"] assms(2) True by auto
  have "(dequeue_srv k (on_be (put_srv k s) t))\<lparr>lb_tree := (place (be t))(k := Some (group_of s))\<rparr>
    = dequeue_srv k (on_be (put_srv k s) t)"
    using g d(5) by (intro lb_trees.equality) (simp_all add: fun_upd_idem)
  then have e: "srv_reposition kf k (on_be (put_srv k s) t) = Some t'"
    using t'(1) g d(5) by (simp add: srv_reposition_def)
  have "\<forall>s' \<in> set ((srv (be t))[k := s]). settled s'"
    using ok assms(4) set_update_subset_insert [of "srv (be t)" k s] by (auto simp: lbt_ok_def)
  then have "lbt_ok kf t'" using counted_put_same [OF d(2) k b assms(2)] assms(3) t' by (simp add: lbt_ok_def)
  then show ?thesis using that e t'(3) by simp
qed

lemma no_change_ok:
  assumes "change t k s" "\<not> srv_lb_status_changed s" "srv_is_usable s \<longrightarrow> served s = served (srv (be t) ! k)"
  shows "lbt_ok kf (on_be (put_srv k s) t)"
proof (rule unchanged_ok)
  show "srv_is_usable s = srv_is_usable (srv (be t) ! k)" "srv_is_usable s \<longrightarrow> eweight s = eweight (srv (be t) ! k)"
    "settled s"
    using same_status [OF assms(2)] assms(1) by (auto simp: change_def succeeds_def settled_def)
qed (use assms in \<open>simp_all add: change_def succeeds_def\<close>)

lemma status_down_ok:
  assumes "change t k s" "srv_is_usable s \<longrightarrow> srv_is_usable (srv (be t) ! k) \<and> eweight s = eweight (srv (be t) ! k)"
    "served s = served (srv (be t) ! k)"
  obtains t' where "lbt_set_server_status_down kf k (on_be (put_srv k s) t) = Some t'" "lbt_ok kf t'"
proof -
  let ?t = "on_be (put_srv k s) t"
  have k: "srv (be ?t) ! k = s" using assms(1) by (simp add: change_def)
  have was: "srv_was_usable s = srv_is_usable (srv (be t) ! k)" using assms(1) by (simp add: change_def succeeds_def)
  consider "\<not> srv_lb_status_changed s" | "srv_lb_status_changed s" "srv_is_usable s"
    | "srv_lb_status_changed s" "\<not> srv_is_usable s" "\<not> srv_was_usable s"
    | "srv_lb_status_changed s" "\<not> srv_is_usable s" "srv_was_usable s" by blast
  then show thesis
  proof cases
    case 1
    then show ?thesis using that no_change_ok [OF assms(1)] assms(3) k by (simp add: lbt_set_server_status_down_def)
  next
    case 2
    then show ?thesis using that commit_only [OF assms(1)] assms(2,3) k by (simp add: lbt_set_server_status_down_def)
  next
    case 3
    then show ?thesis using that neither_usable [OF assms(1)] was k by (simp add: lbt_set_server_status_down_def)
  next
    case 4
    then show ?thesis using that lose_ok [OF assms(1)] was k by (simp add: lbt_set_server_status_down_def Let_def)
  qed
qed

lemma status_up_ok:
  assumes "change t k s" "srv_is_usable (srv (be t) ! k) \<longrightarrow> srv_is_usable s \<and> eweight s = eweight (srv (be t) ! k)"
    "served s = served (srv (be t) ! k)"
  obtains t' where "lbt_set_server_status_up kf k (on_be (put_srv k s) t) = Some t'" "lbt_ok kf t'"
proof -
  let ?t = "on_be (put_srv k s) t"
  have k: "srv (be ?t) ! k = s" and kl: "k < length (srv (be t))" using assms(1) by (simp_all add: change_def)
  have was: "srv_was_usable s = srv_is_usable (srv (be t) ! k)" using assms(1) by (simp add: change_def succeeds_def)
  consider "\<not> srv_lb_status_changed s" | "srv_lb_status_changed s" "\<not> srv_is_usable s"
    | "srv_lb_status_changed s" "srv_is_usable s" "srv_was_usable s"
    | "srv_lb_status_changed s" "srv_is_usable s" "\<not> srv_was_usable s" by blast
  then show thesis
  proof cases
    case 1
    then show ?thesis using that no_change_ok [OF assms(1)] assms(3) k by (simp add: lbt_set_server_status_up_def)
  next
    case 2
    then show ?thesis using that commit_only [OF assms(1)] assms(2,3) k by (simp add: lbt_set_server_status_up_def)
  next
    case 3
    have "lbt_ok kf (on_be (\<lambda>px. commit_server k (update_backend_weight px)) ?t)"
    proof (rule finish)
      have ok: "lbt_ok kf t" and b: "is_backup s = is_backup (srv (be t) ! k)"
        using assms(1) by (simp_all add: change_def succeeds_def)
      note d = lbt_okD [OF ok]
      show "counts_ok (be ?t)" using same_counts [OF d(1) kl b] 3 was assms(2) by simp
      show "placed ?t (place (be ?t))"
        using d(3) place_put [OF kl, of "be ?t" s] 3 was b kl by (simp add: place_def fun_upd_idem group_of_def)
      show "keys_ok kf ?t" using assms(2,3) 3 was by (intro keys_on_be [OF d(4)]) (auto simp: nth_list_update kl)
    qed (use others_settled [OF assms(1)] kl assms(1) in \<open>simp_all add: change_def\<close>)
    then show ?thesis using that 3 k by (simp add: lbt_set_server_status_up_def)
  next
    case 4
    then obtain t' where "queue_srv kf k (on_be (gain_server k) (set_tree k ?t)) = Some t'"
      "lbt_ok kf (on_be (\<lambda>px. commit_server k (update_backend_weight px)) t')"
      using gain_ok [OF assms(1)] was by blast
    then show ?thesis using that 4 k by (simp add: lbt_set_server_status_up_def)
  qed
qed

lemma update_weight_ok:
  assumes "change t k s" "served s = served (srv (be t) ! k)"
  obtains t' where "lbt_update_server_weight kf k (on_be (put_srv k s) t) = Some t'" "lbt_ok kf t'"
proof -
  let ?t = "on_be (put_srv k s) t"
  have k: "srv (be ?t) ! k = s" and kl: "k < length (srv (be t))" and su: "succeeds (srv (be t) ! k) s"
    using assms(1) by (simp_all add: change_def)
  have ok: "lbt_ok kf t" using assms(1) by (simp add: change_def)
  note d = lbt_okD [OF ok]
  have was: "srv_was_usable s = srv_is_usable (srv (be t) ! k)" using su by (simp add: succeeds_def)
  consider "\<not> srv_lb_status_changed s" | "srv_lb_status_changed s" "\<not> srv_is_usable s" "\<not> srv_was_usable s"
    | "srv_lb_status_changed s" "srv_is_usable s" "\<not> srv_was_usable s"
    | "srv_lb_status_changed s" "\<not> srv_is_usable s" "srv_was_usable s"
    | "srv_lb_status_changed s" "srv_is_usable s" "srv_was_usable s" by blast
  then show thesis
  proof cases
    case 1
    then show ?thesis using that no_change_ok [OF assms(1)] assms(2) k by (simp add: lbt_update_server_weight_def)
  next
    case 2
    then show ?thesis using that commit_only [OF assms(1)] was k by (simp add: lbt_update_server_weight_def)
  next
    case 3
    then show ?thesis using that status_up_ok [OF assms(1) _ assms(2)] was k
      by (auto simp: lbt_update_server_weight_def)
  next
    case 4
    then show ?thesis using that status_down_ok [OF assms(1) _ assms(2)] was k
      by (auto simp: lbt_update_server_weight_def)
  next
    case 5
    let ?f = "\<lambda>px. reweigh_server k (put_srv k s px)"
    obtain t' where t': "queue_srv kf k ((dequeue_srv k (on_be ?f t))\<lparr>lb_tree := (place (be t))(k := Some (group_of s))\<rparr>) = Some t'"
      "placed t' (place (be t'))" "be t' = ?f (be t)" "keys_ok kf t'"
      using requeue_ok [OF assms(1), of ?f] 5 was by auto
    have "lb_tree t k \<noteq> None" using 5 was kl d(5) by (simp add: place_def)
    then have e: "lbt_update_server_weight kf k ?t
      = Some (on_be (\<lambda>px. commit_server k (update_backend_weight px)) t')"
      using 5 k kl t'(1) d(5) by (simp add: lbt_update_server_weight_def set_tree_be be_commute)
    have "lbt_ok kf (on_be (\<lambda>px. commit_server k (update_backend_weight px)) t')"
    proof (rule finish)
      show "counts_ok (be t')" using reweigh_server_counts [OF d(1) kl su] 5 was t'(3) by simp
    qed (use others_settled [OF assms(1)] kl assms(1) t' in \<open>simp_all add: change_def\<close>)
    then show ?thesis using that e by blast
  qed
qed

end

interpretation fas: lb_sorted fas_key
  by unfold_locales (simp_all add: fas_key_def)

interpretation fwlc: lb_sorted fwlc_key
  by unfold_locales (auto simp: fwlc_key_def srv_is_usable_def lb_usable_def Let_def)

subsection \<open>Every sequence of status changes\<close>

text \<open>
  The callers change the state and the administrative flags of a server, then report a status that
  went down or up (\<open>src/server.c\<close>); \<open>server_recalc_eweight\<close> changes the weight too; a connection taken or
  released changes \<open>served\<close>.  A backend starts with no server in a tree.
\<close>

definition set_status :: "srv_state \<Rightarrow> byte \<Rightarrow> int \<Rightarrow> server \<Rightarrow> server" where
  "set_status st adm w s = s\<lparr>state := st, admin := adm, eweight := w\<rparr>"

definition add_served :: "int \<Rightarrow> server \<Rightarrow> server" where
  "add_served n s = s\<lparr>served := served s + n\<rparr>"

text \<open>What else changes in a server while it works: its connections and those waiting for it.\<close>

definition set_load :: "int \<Rightarrow> int \<Rightarrow> server \<Rightarrow> server" where
  "set_load n p s = s\<lparr>served := n, nbpend := p\<rparr>"

definition pristine :: "lb_trees \<Rightarrow> bool" where
  "pristine t \<longleftrightarrow> (\<forall>k. lb_tree t k = None) \<and> 0 < wmult (be t) \<and> (\<forall>s \<in> set (srv (be t)). 0 \<le> uweight s)"

inductive lb_reachable :: "key_fun \<Rightarrow> lb_trees \<Rightarrow> bool" for kf where
  init: "pristine t \<Longrightarrow> lbt_init_server_tree kf t = Some t' \<Longrightarrow> lb_reachable kf t'"
| down: "lb_reachable kf t \<Longrightarrow> k < length (srv (be t)) \<Longrightarrow> s = set_status st adm (eweight (srv (be t) ! k)) (srv (be t) ! k) \<Longrightarrow>
    srv_is_usable s \<longrightarrow> srv_is_usable (srv (be t) ! k) \<Longrightarrow>
    lbt_set_server_status_down kf k (on_be (put_srv k s) t) = Some t' \<Longrightarrow> lb_reachable kf t'"
| up: "lb_reachable kf t \<Longrightarrow> k < length (srv (be t)) \<Longrightarrow> s = set_status st adm (eweight (srv (be t) ! k)) (srv (be t) ! k) \<Longrightarrow>
    srv_is_usable (srv (be t) ! k) \<longrightarrow> srv_is_usable s \<Longrightarrow>
    lbt_set_server_status_up kf k (on_be (put_srv k s) t) = Some t' \<Longrightarrow> lb_reachable kf t'"
| weight: "lb_reachable kf t \<Longrightarrow> k < length (srv (be t)) \<Longrightarrow> s = set_status st adm w (srv (be t) ! k) \<Longrightarrow> 0 \<le> w \<Longrightarrow>
    lbt_update_server_weight kf k (on_be (put_srv k s) t) = Some t' \<Longrightarrow> lb_reachable kf t'"
| conn: "lb_reachable kf t \<Longrightarrow> k < length (srv (be t)) \<Longrightarrow> s = add_served n (srv (be t) ! k) \<Longrightarrow>
    srv_reposition kf k (on_be (put_srv k s) t) = Some t' \<Longrightarrow> lb_reachable kf t'"

lemma set_status_succeeds: "settled s \<Longrightarrow> succeeds s (set_status st adm w s)"
  by (auto simp: settled_def succeeds_def set_status_def srv_was_usable_def)

lemma add_served_simps:
  "settled s \<Longrightarrow> succeeds s (add_served n s)" "settled (add_served n s) = settled s" "eweight (add_served n s) = eweight s"
  "srv_is_usable (add_served n s) = srv_is_usable s"
  by (auto simp: settled_def succeeds_def add_served_def srv_was_usable_def srv_is_usable_def)

lemma served_status: "served (set_status st adm w s) = served s" "eweight (set_status st adm w s) = w"
  by (simp_all add: set_status_def)

lemma set_load_simps [simp]:
  "is_backup (set_load n p s) = is_backup s" "srv_is_usable (set_load n p s) = srv_is_usable s" "eweight (set_load n p s) = eweight s"
  "settled (set_load n p s) = settled s"
  by (simp_all add: set_load_def settled_def srv_is_usable_def srv_was_usable_def)

lemma beconn_ok: "backend_ok px \<Longrightarrow> backend_ok (px\<lparr>beconn := b\<rparr>)"
proof -
  assume ok: "backend_ok px"
  have "update_backend_weight (px\<lparr>beconn := b\<rparr>) = (update_backend_weight px)\<lparr>beconn := b\<rparr>"
    by (simp add: update_backend_weight_def split: option.split)
  then show ?thesis using ok by (simp add: backend_ok_def counted_iff counts_ok_def)
qed

lemma backend_load:
  "backend_ok px \<Longrightarrow> k < length (srv px) \<Longrightarrow> backend_ok (put_srv k (set_load n p (srv px ! k)) px)"
proof -
  assume b: "backend_ok px" and k: "k < length (srv px)"
  let ?s = "set_load n p (srv px ! k)"
  have "settled (srv px ! k)" using b k by (simp add: backend_ok_def)
  then show ?thesis using b k settled_put [OF b, of ?s k] counted_put_same [of px k ?s] by (simp add: backend_ok_def)
qed

lemma backend_status:
  "backend_ok px \<Longrightarrow> k < length (srv px) \<Longrightarrow> 0 \<le> w \<Longrightarrow> px_change px k (set_status st adm w (srv px ! k))"
  by (simp add: px_change_def backend_ok_def set_status_succeeds served_status)

lemma initial_ok:
  assumes "pristine t"
  defines "px \<equiv> (be t)\<lparr>wdiv := BE_WEIGHT_SCALE, srv := map (initial_weight (wmult (be t)) BE_WEIGHT_SCALE) (srv (be t))\<rparr>"
  shows "\<forall>s \<in> set (srv px). settled s" "counted (update_backend_weight (recount_servers px))"
proof -
  have "0 \<le> (uweight s * 16 + wmult (be t) - 1) div wmult (be t)" if "s \<in> set (srv (be t))" for s
    using assms(1) that by (auto simp: pristine_def intro!: pos_imp_zdiv_nonneg_iff [THEN iffD2])
  then show "\<forall>s \<in> set (srv px). settled s"
    by (auto simp: px_def initial_weight_def)
  have "counts_ok (recount_servers px)" by (simp add: counts_ok_def recount_servers_counts)
  then show "counted (update_backend_weight (recount_servers px))" by (simp add: counted_iff)
qed

context lb_sorted
begin

lemma changeI:
  "lbt_ok kf t \<Longrightarrow> k < length (srv (be t)) \<Longrightarrow> 0 \<le> w \<Longrightarrow> change t k (set_status st adm w (srv (be t) ! k))"
  using lbt_okD(6) [of kf t k] by (simp add: change_def set_status_succeeds served_status)

lemma queue_all_ok:
  assumes "distinct ks" "\<forall>k \<in> set ks. P k = None \<and> k < length (srv (be t))" "placed t P" "keys_ok kf t"
  shows "\<exists>t'. queue_all kf ks t = Some t' \<and> be t' = be t \<and> keys_ok kf t'
    \<and> placed t' (\<lambda>k. if k \<in> set ks \<and> srv_is_usable (srv (be t) ! k) then Some (group_of (srv (be t) ! k)) else P k)"
  using assms
proof (induction ks arbitrary: t P)
  case (Cons k ks)
  show ?case
  proof (cases "srv_is_usable (srv (be t) ! k)")
    case False
    have "\<exists>t'. queue_all kf ks t = Some t' \<and> be t' = be t \<and> keys_ok kf t'
      \<and> placed t' (\<lambda>k. if k \<in> set ks \<and> srv_is_usable (srv (be t) ! k) then Some (group_of (srv (be t) ! k)) else P k)"
      using Cons.prems by (intro Cons.IH) simp_all
    moreover have "(\<lambda>j. if j \<in> set (k # ks) \<and> srv_is_usable (srv (be t) ! j) then Some (group_of (srv (be t) ! j)) else P j)
      = (\<lambda>j. if j \<in> set ks \<and> srv_is_usable (srv (be t) ! j) then Some (group_of (srv (be t) ! j)) else P j)"
      using False by auto
    ultimately show ?thesis using False by simp
  next
    case True
    let ?g = "group_of (srv (be t) ! k)" and ?Q = "P(k := Some (group_of (srv (be t) ! k)))"
    have st: "set_tree k t = t\<lparr>lb_tree := ?Q\<rparr>" using Cons.prems(3) by (simp add: set_tree_be placed_def)
    have "P k = None" using Cons.prems(2) by simp
    then obtain t1 where t1: "queue_srv kf k (set_tree k t) = Some t1" "placed t1 ?Q" "be t1 = be t" "keys_ok kf t1"
      unfolding st using keys_queue [OF Cons.prems(3,4) _ True, of ?g] by blast
    have "\<exists>t'. queue_all kf ks t1 = Some t' \<and> be t' = be t1 \<and> keys_ok kf t'
      \<and> placed t' (\<lambda>k. if k \<in> set ks \<and> srv_is_usable (srv (be t1) ! k) then Some (group_of (srv (be t1) ! k)) else ?Q k)"
      using Cons.prems(1,2) t1(3) by (intro Cons.IH [OF _ _ t1(2,4)]) auto
    note this [unfolded t1(3)]
    moreover have "(\<lambda>j. if j \<in> set (k # ks) \<and> srv_is_usable (srv (be t) ! j) then Some (group_of (srv (be t) ! j)) else P j)
      = (\<lambda>j. if j \<in> set ks \<and> srv_is_usable (srv (be t) ! j) then Some (group_of (srv (be t) ! j)) else ?Q j)"
      using True by auto
    ultimately show ?thesis using True t1 by simp
  qed
qed simp

lemma init_ok:
  assumes "pristine t"
  obtains t' where "lbt_init_server_tree kf t = Some t'" "lbt_ok kf t'"
proof -
  let ?px = "(be t)\<lparr>wdiv := BE_WEIGHT_SCALE, srv := map (initial_weight (wmult (be t)) BE_WEIGHT_SCALE) (srv (be t))\<rparr>"
  let ?qx = "update_backend_weight (recount_servers ?px)" let ?n = "length (srv ?qx)"
  let ?t = "t\<lparr>be := ?qx, tree_act := None, tree_bck := None\<rparr>"
  note i = initial_ok [OF assms]
  have e: "lbt_init_server_tree kf t = queue_all kf [0..<?n] ?t" by (simp add: lbt_init_server_tree_def Let_def)
  have "lb_tree t = (\<lambda>k. None)" using assms by (auto simp: pristine_def)
  then have "placed ?t (\<lambda>k. None)" "keys_ok kf ?t"
    by (simp_all add: placed_def keys_ok_def eb_root_ok_def eb_contents_def)
  then obtain t' where t': "queue_all kf [0..<?n] ?t = Some t'" "be t' = ?qx" "keys_ok kf t'"
    "placed t' (\<lambda>k. if k \<in> set [0..<?n] \<and> srv_is_usable (srv (be ?t) ! k) then Some (group_of (srv (be ?t) ! k)) else None)"
    using queue_all_ok [of "[0..<?n]" "\<lambda>k. None" ?t] by auto
  have "place ?qx = (\<lambda>k. if k \<in> set [0..<?n] \<and> srv_is_usable (srv (be ?t) ! k) then Some (group_of (srv (be ?t) ! k)) else None)"
    by (auto simp: place_def)
  then have "lbt_ok kf t'" using t' i by (simp add: lbt_ok_def recount_servers_counts)
  then show thesis using that e t'(1) by simp
qed

lemma reachable_ok: "lb_reachable kf t \<Longrightarrow> lbt_ok kf t"
proof (induction rule: lb_reachable.induct)
  case (init t t')
  then show ?case using init_ok by fastforce
next
  case (down t k s st adm t')
  have "settled (srv (be t) ! k)" using lbt_okD(6) down by blast
  then have "change t k s" using changeI [of t k] down by (simp add: settled_def)
  then show ?case using status_down_ok [of t k s] down by (auto simp: served_status)
next
  case (up t k s st adm t')
  have "settled (srv (be t) ! k)" using lbt_okD(6) up by blast
  then have "change t k s" using changeI [of t k] up by (simp add: settled_def)
  then show ?case using status_up_ok [of t k s] up by (auto simp: served_status)
next
  case (weight t k s st adm w t')
  then have "change t k s" using changeI [of t k] by simp
  then show ?case using update_weight_ok [of t k s] weight by (auto simp: served_status)
next
  case (conn t k s n t')
  have "settled (srv (be t) ! k)" using lbt_okD(6) conn by blast
  then have "change t k s" using conn by (simp add: change_def add_served_simps) (simp add: settled_def)
  then show ?case using reposition_ok [of t k s] conn \<open>settled (srv (be t) ! k)\<close> by (auto simp: add_served_simps)
qed

end

subsection \<open>The choice of a server\<close>

lemma tree_walk_find:
  assumes "eb_root_ok key tr" "eb_contents tr = xs @ ys" "length ys \<le> n"
  shows "tree_walk n now px avoid tr (case ys of [] \<Rightarrow> None | y # _ \<Rightarrow> Some y) avoided
    = Some (case find (\<lambda>k. has_slot now px k \<and> Some k \<noteq> avoid) ys of Some k \<Rightarrow> Some k
      | None \<Rightarrow> if \<exists>k \<in> set ys. has_slot now px k then avoid else avoided)"
  using assms(2,3)
proof (induction ys arbitrary: xs n avoided)
  case (Cons y ys)
  then obtain m where n: "n = Suc m" by (cases n) auto
  have nx: "eb_next y tr = (case ys of [] \<Rightarrow> None | z # _ \<Rightarrow> Some z)"
    using next_contents [OF assms(1) Cons.prems(1)] .
  have IH: "tree_walk m now px avoid tr (case ys of [] \<Rightarrow> None | z # _ \<Rightarrow> Some z) a
    = Some (case find (\<lambda>k. has_slot now px k \<and> Some k \<noteq> avoid) ys of Some k \<Rightarrow> Some k
      | None \<Rightarrow> if \<exists>k \<in> set ys. has_slot now px k then avoid else a)" for a
    using Cons.prems n by (intro Cons.IH [of "xs @ [y]"]) simp_all
  show ?case
  proof (cases "has_slot now px y \<and> Some y \<noteq> avoid")
    case False
    then show ?thesis by (auto simp: n nx IH split: option.split)
  qed (simp add: n)
qed simp

definition lb_candidates :: "int \<Rightarrow> proxy \<Rightarrow> nat set" where
  "lb_candidates now px = {k. k < length (srv px) \<and> srv_is_usable (srv px ! k)
     \<and> is_backup (srv px ! k) = (srv_act px = 0) \<and> has_slot now px k}"

definition best_choice :: "(nat \<Rightarrow> nat \<Rightarrow> bool) \<Rightarrow> nat set \<Rightarrow> nat option \<Rightarrow> nat option \<Rightarrow> bool" where
  "best_choice le C avoid r \<longleftrightarrow>
    (case r of None \<Rightarrow> C = {}
     | Some k \<Rightarrow> k \<in> C \<and> (\<forall>j \<in> C. Some j \<noteq> avoid \<longrightarrow> Some k \<noteq> avoid \<and> le k j))"

lemma best_choice_mono:
  "best_choice le C avoid r \<Longrightarrow> (\<And>k j. k \<in> C \<Longrightarrow> j \<in> C \<Longrightarrow> le k j \<Longrightarrow> le' k j) \<Longrightarrow> best_choice le' C avoid r"
  by (auto simp: best_choice_def split: option.splits)

lemma find_best:
  assumes "eb_root_ok key tr" "length (eb_contents tr) \<le> n" "C = {k \<in> set (eb_contents tr). has_slot now px k}"
  shows "\<exists>r. tree_walk n now px avoid tr (eb_first tr) None = Some r \<and> best_choice (\<lambda>k j. key k \<le> key j) C avoid r"
proof -
  let ?ys = "eb_contents tr" and ?P = "\<lambda>k. has_slot now px k \<and> Some k \<noteq> avoid"
  have w: "tree_walk n now px avoid tr (eb_first tr) None = Some (case find ?P ?ys of Some k \<Rightarrow> Some k
      | None \<Rightarrow> if \<exists>k \<in> set ?ys. has_slot now px k then avoid else None)"
    using tree_walk_find [OF assms(1), of "[]" ?ys n now px avoid None] assms(2) by (simp add: first_contents)
  show ?thesis
  proof (cases "find ?P ?ys")
    case None
    then have "\<forall>k \<in> set ?ys. has_slot now px k \<longrightarrow> Some k = avoid" by (auto simp: find_None_iff)
    then show ?thesis using None w assms(3) by (auto simp: best_choice_def split: option.split)
  next
    case (Some k)
    then obtain i where i: "i < length ?ys" "k = ?ys ! i" "?P k" "\<And>j. j < i \<Longrightarrow> \<not> ?P (?ys ! j)"
      unfolding find_Some_iff by auto
    have "key k \<le> key j" if "j \<in> set ?ys" "?P j" for j
    proof -
      from that(1) obtain m where m: "m < length ?ys" "j = ?ys ! m" by (auto simp: in_set_conv_nth)
      then have "i \<le> m" using i(4) that(2) by (meson not_le)
      then show ?thesis using contents_sorted [OF assms(1)] i m by (simp add: sorted_iff_nth_mono)
    qed
    then show ?thesis using Some w i assms(3) by (auto simp: best_choice_def in_set_conv_nth)
  qed
qed

lemma get_next_best:
  assumes "lbt_ok kf t" "srv_act (be t) \<noteq> 0 \<or> use_all_bk (be t)"
  shows "\<exists>r. lbt_get_next_server now t avoid = Some r
    \<and> best_choice (\<lambda>k j. lb_key t k \<le> lb_key t j) (lb_candidates now (be t)) avoid r"
proof -
  note d = lbt_okD [OF assms(1)]
  let ?n = "length (srv (be t))"
  have ok: "eb_root_ok (lb_key t) (tree_act t)" "eb_root_ok (lb_key t) (tree_bck t)"
    and act: "set (eb_contents (tree_act t)) = {k. place (be t) k = Some Act}"
    and bck: "set (eb_contents (tree_bck t)) = {k. place (be t) k = Some Bck}"
    using d(3) by (simp_all add: placed_def)
  have len: "length ys \<le> ?n" if "distinct ys" "set ys \<subseteq> {k. place (be t) k \<noteq> None}" for ys
  proof -
    have "set ys \<subseteq> {0..<?n}" using that(2) by (auto simp: place_def split: if_splits)
    then show ?thesis using card_mono [of "{0..<?n}" "set ys"] distinct_card [OF that(1)] by simp
  qed
  show ?thesis
  proof (cases "srv_act (be t) = 0")
    case False
    have "lb_candidates now (be t) = {k \<in> set (eb_contents (tree_act t)). has_slot now (be t) k}"
      using act False by (auto simp: lb_candidates_def place_def group_of_def split: if_splits)
    from find_best [OF ok(1) len this] show ?thesis
      using False contents_sorted [OF ok(1)] act by (auto simp: lbt_get_next_server_def Let_def)
  next
    case True
    then have f: "fbck (be t) = None" using d(1) assms(2) by (simp add: counts_ok_def)
    have c: "lb_candidates now (be t) = {k \<in> set (eb_contents (tree_bck t)). has_slot now (be t) k}"
      using bck True by (auto simp: lb_candidates_def place_def group_of_def split: if_splits)
    show ?thesis
    proof (cases "srv_bck (be t) = 0")
      case False
      from find_best [OF ok(2) len c] show ?thesis
        using True False f contents_sorted [OF ok(2)] bck by (auto simp: lbt_get_next_server_def Let_def)
    next
      case no_bck: True
      then have "lb_servers True (srv (be t)) = []" using d(1) by (simp add: counts_ok_def)
      then have "lb_candidates now (be t) = {}"
        using True by (force simp: lb_candidates_def lb_servers_def filter_empty_conv)
      then show ?thesis using True no_bck f by (simp add: lbt_get_next_server_def Let_def best_choice_def)
    qed
  qed
qed

lemma next_alone:
  assumes "lbt_ok kf t" "single_backup (be t)"
  shows "lbt_get_next_server now t avoid = Some (first_backup (srv (be t)))"
  using backup_alone [OF lbt_okD(1) [OF assms(1)] assms(2)]
  by (cases "first_backup (srv (be t))") (simp_all add: lbt_get_next_server_def Let_def)

context lb_sorted
begin

lemma ops_defined:
  assumes ok: "lbt_ok kf t" and k: "k < length (srv (be t))" and "0 \<le> w"
  shows "lbt_update_server_weight kf k (on_be (put_srv k (set_status st adm w (srv (be t) ! k))) t) \<noteq> None"
    "srv_reposition kf k (on_be (put_srv k (add_served n (srv (be t) ! k))) t) \<noteq> None"
    "lbt_set_server_status_down kf k t \<noteq> None" "lbt_set_server_status_up kf k t \<noteq> None"
proof -
  let ?s = "srv (be t) ! k"
  have st: "settled ?s" by (rule lbt_okD(6) [OF ok k])
  have id: "on_be (put_srv k ?s) t = t" by (simp add: on_be_def put_srv_def)
  have c: "change t k ?s" "change t k (add_served n ?s)" "change t k (set_status st adm w ?s)"
    using assms st by (simp_all add: change_def add_served_simps set_status_succeeds served_status)
      (simp_all add: settled_def succeeds_def)
  show "lbt_update_server_weight kf k (on_be (put_srv k (set_status st adm w ?s)) t) \<noteq> None"
    by (rule update_weight_ok [OF c(3)]) (simp_all add: served_status)
  show "srv_reposition kf k (on_be (put_srv k (add_served n ?s)) t) \<noteq> None"
    by (rule reposition_ok [OF c(2)]) (simp_all add: add_served_simps st)
  show "lbt_set_server_status_down kf k t \<noteq> None"
    by (rule status_down_ok [OF c(1)]) (simp_all add: id)
  show "lbt_set_server_status_up kf k t \<noteq> None"
    by (rule status_up_ok [OF c(1)]) (simp_all add: id)
qed

end

lemma lbt_contents:
  assumes "lbt_ok kf t"
  shows "set (eb_contents (tree_act t)) = {k. k < length (srv (be t)) \<and> srv_is_usable (srv (be t) ! k) \<and> \<not> is_backup (srv (be t) ! k)}"
    "set (eb_contents (tree_bck t)) = {k. k < length (srv (be t)) \<and> srv_is_usable (srv (be t) ! k) \<and> is_backup (srv (be t) ! k)}"
    "\<forall>k \<in> set (eb_contents (tree_act t)) \<union> set (eb_contents (tree_bck t)). kf t k = Some (lb_key t k)"
proof -
  have p: "placed t (place (be t))" "keys_ok kf t" using assms by (simp_all add: lbt_okD)
  then show "set (eb_contents (tree_act t)) = {k. k < length (srv (be t)) \<and> srv_is_usable (srv (be t) ! k) \<and> \<not> is_backup (srv (be t) ! k)}"
    "set (eb_contents (tree_bck t)) = {k. k < length (srv (be t)) \<and> srv_is_usable (srv (be t) ! k) \<and> is_backup (srv (be t) ! k)}"
    by (auto simp: placed_def place_def group_of_def split: if_splits)
  show "\<forall>k \<in> set (eb_contents (tree_act t)) \<union> set (eb_contents (tree_bck t)). kf t k = Some (lb_key t k)"
    using p by (auto simp: placed_def keys_ok_def)
qed

lemma reachable_lbt_ok: "lb_reachable kf t \<Longrightarrow> kf = fas_key \<or> kf = fwlc_key \<Longrightarrow> lbt_ok kf t"
  using fas.reachable_ok fwlc.reachable_ok by blast

text \<open>C15: counters and trees.  After any sequence of status changes, weight changes and connections, in any
  order, the counters that \<open>lb_fas.c\<close> and \<open>lb_fwlc.c\<close> update step by step are those of a recount of all
  the servers, the trees hold exactly the usable servers of each group, and each server is at the
  key its current state gives.\<close>

theorem status_changes_recount:
  assumes "lb_reachable kf t" "kf = fas_key \<or> kf = fwlc_key"
  shows "update_backend_weight (recount_servers (be t)) = be t
    \<and> set (eb_contents (tree_act t)) = {k. k < length (srv (be t)) \<and> srv_is_usable (srv (be t) ! k) \<and> \<not> is_backup (srv (be t) ! k)}
    \<and> set (eb_contents (tree_bck t)) = {k. k < length (srv (be t)) \<and> srv_is_usable (srv (be t) ! k) \<and> is_backup (srv (be t) ! k)}
    \<and> (\<forall>k \<in> set (eb_contents (tree_act t)) \<union> set (eb_contents (tree_bck t)). kf t k = Some (lb_key t k))"
proof -
  have ok: "lbt_ok kf t" by (rule reachable_lbt_ok [OF assms])
  then have "counted (be t)" by (rule lbt_okD)
  then show ?thesis using lbt_contents [OF ok] by (simp add: counted_def)
qed

definition server1 :: "int \<Rightarrow> server" where
  "server1 w = \<lparr>state = SRV_ST_RUNNING, prev_state = SRV_ST_RUNNING, admin = 0, prev_admin = 0, is_backup = False,
     served = 0, cur_sess = 0, maxconn = 0, minconn = 0, nbpend = 0, uweight = w, eweight = w,
     prev_eweight = w, wscore = 0, last_change = 5, slowstart = 60, track = None\<rparr>"

definition trees1 :: lb_trees where
  "trees1 = \<lparr>be = \<lparr>srv = [server1 1, server1 3], srv_act = 0, srv_bck = 0, use_all_bk = False, beconn = 0, fullconn = 0,
     tot_wact = 0, tot_wbck = 0, tot_weight = 0, tot_used = 0, wmult = 1, wdiv = 1, fbck = None,
     lbmap = \<lparr>map_srv = [], map_recalc = False, rr_idx = 0\<rparr>\<rparr>,
     tree_act = None, tree_bck = None, lb_tree = Map.empty, lb_key = (\<lambda>k. 0), puid = (\<lambda>k. of_nat k + 1)\<rparr>"

lemma trees1_pristine: "pristine trees1"
  by (simp add: pristine_def trees1_def server1_def)

lemma queue_be: "queue_srv kf k t = Some t' \<Longrightarrow> be t' = be t"
  by (auto simp: queue_srv_def Let_def bind_eq_Some_conv lb_group.case_distrib [of be] split: lb_group.split)

lemma queue_all_be: "queue_all kf ks t = Some t' \<Longrightarrow> be t' = be t"
  by (induction ks arbitrary: t) (fastforce simp: bind_eq_Some_conv set_tree_def dest: queue_be split: if_splits)+

lemma trees1_be:
  assumes "kf = fas_key \<or> kf = fwlc_key"
  shows "be (the (lbt_init_server_tree kf trees1)) =
    update_backend_weight (recount_servers ((be trees1)\<lparr>wdiv := BE_WEIGHT_SCALE, srv := map (initial_weight 1 16) (srv (be trees1))\<rparr>))"
proof -
  obtain t where t: "lbt_init_server_tree kf trees1 = Some t"
  proof (cases "kf = fas_key")
    case True
    then show ?thesis using fas.init_ok [OF trees1_pristine] that by metis
  next
    case False
    then show ?thesis using fwlc.init_ok [OF trees1_pristine] that assms by metis
  qed
  have m: "wmult (be trees1) = 1" by (simp add: trees1_def)
  from t [unfolded lbt_init_server_tree_def Let_def]
  have "be t = update_backend_weight (recount_servers ((be trees1)\<lparr>wdiv := BE_WEIGHT_SCALE,
    srv := map (initial_weight 1 16) (srv (be trees1))\<rparr>))"
    using queue_all_be [OF t [unfolded lbt_init_server_tree_def Let_def]] m by simp
  then show ?thesis using t by simp
qed

lemma trees1_reachable:
  "lb_reachable fwlc_key (the (fwlc_init_server_tree trees1))" "lb_reachable fas_key (the (fas_init_server_tree trees1))"
proof -
  obtain t where t: "lbt_init_server_tree fwlc_key trees1 = Some t" using fwlc.init_ok [OF trees1_pristine] .
  from lb_reachable.init [OF trees1_pristine t] show "lb_reachable fwlc_key (the (fwlc_init_server_tree trees1))"
    by (simp add: fwlc_init_server_tree_def t)
  obtain u where u: "lbt_init_server_tree fas_key trees1 = Some u" using fas.init_ok [OF trees1_pristine] .
  from lb_reachable.init [OF trees1_pristine u] show "lb_reachable fas_key (the (fas_init_server_tree trees1))"
    by (simp add: fas_init_server_tree_def u)
qed

theorem status_changes_recount_witness:
  "let t = the (fwlc_init_server_tree trees1)
   in update_backend_weight (recount_servers (be t)) = be t
    \<and> set (eb_contents (tree_act t)) = {k. k < length (srv (be t)) \<and> srv_is_usable (srv (be t) ! k) \<and> \<not> is_backup (srv (be t) ! k)}
    \<and> set (eb_contents (tree_bck t)) = {k. k < length (srv (be t)) \<and> srv_is_usable (srv (be t) ! k) \<and> is_backup (srv (be t) ! k)}
    \<and> (\<forall>k \<in> set (eb_contents (tree_act t)) \<union> set (eb_contents (tree_bck t)). fwlc_key t k = Some (lb_key t k))"
  unfolding Let_def by (rule status_changes_recount [OF trees1_reachable(1)]) simp

text \<open>No crash.  On every reachable state, each operation that a caller may apply to a server returns:
  it neither inserts a server into no tree nor divides by a null weight.\<close>

theorem lb_operations_defined:
  assumes "lb_reachable kf t" "kf = fas_key \<or> kf = fwlc_key" "k < length (srv (be t))" "0 \<le> w"
  shows "lbt_update_server_weight kf k (on_be (put_srv k (set_status st adm w (srv (be t) ! k))) t) \<noteq> None
    \<and> srv_reposition kf k (on_be (put_srv k (add_served n (srv (be t) ! k))) t) \<noteq> None
    \<and> lbt_set_server_status_down kf k t \<noteq> None \<and> lbt_set_server_status_up kf k t \<noteq> None"
  using assms(2) fas.ops_defined [of t k w] fwlc.ops_defined [of t k w] reachable_lbt_ok [OF assms(1,2)] assms(3,4)
  by auto

theorem lb_operations_defined_witness:
  "let t = the (fwlc_init_server_tree trees1)
   in lbt_update_server_weight fwlc_key 1 (on_be (put_srv 1 (set_status SRV_ST_RUNNING 0 0 (srv (be t) ! 1))) t) \<noteq> None
    \<and> srv_reposition fwlc_key 1 (on_be (put_srv 1 (add_served 1 (srv (be t) ! 1))) t) \<noteq> None
    \<and> lbt_set_server_status_down fwlc_key 1 t \<noteq> None \<and> lbt_set_server_status_up fwlc_key 1 t \<noteq> None"
  unfolding Let_def
  by (rule lb_operations_defined [OF trees1_reachable(1)]) (simp, code_simp, simp)

text \<open>C16: least connections.  As long as no server has 524288 connections or more, nor a weight above the greatest one,
  so that the key does not overflow, \<open>fwlc_get_next_server\<close> returns, among the usable servers of the group in use that accept a
  connection, one with the least number of connections over its weight; it returns the server to
  avoid only when there is no other, and none only when there is no such server.  Without active server and
  without allbackups it returns the first usable backup server, whatever its load.\<close>

theorem fwlc_least_loaded:
  assumes "lb_reachable fwlc_key t"
    and "\<forall>s \<in> set (srv (be t)). 0 \<le> served s \<and> served s < 2 ^ 19 \<and> eweight s \<le> SRV_EWGHT_MAX"
  shows "\<exists>r. fwlc_get_next_server now t avoid = Some r \<and>
    (if single_backup (be t) then r = first_backup (srv (be t))
     else best_choice (\<lambda>k j. served (srv (be t) ! k) * SRV_EWGHT_MAX div eweight (srv (be t) ! k)
       \<le> served (srv (be t) ! j) * SRV_EWGHT_MAX div eweight (srv (be t) ! j)) (lb_candidates now (be t)) avoid r)"
proof -
  have ok: "lbt_ok fwlc_key t" by (rule fwlc.reachable_ok [OF assms(1)])
  note d = lbt_okD [OF ok]
  have key: "uint (lb_key t k) = served (srv (be t) ! k) * SRV_EWGHT_MAX div eweight (srv (be t) ! k)"
    if "k \<in> lb_candidates now (be t)" for k
  proof -
    let ?s = "srv (be t) ! k"
    have k: "k < length (srv (be t))" "srv_is_usable ?s" using that by (simp_all add: lb_candidates_def)
    then have "fwlc_key t k = Some (lb_key t k)" using d(4,5) by (auto simp: keys_ok_def place_def)
    moreover have b: "0 \<le> served ?s" "served ?s < 2 ^ 19" "eweight ?s \<le> 4096" using assms(2) k(1) by simp_all
    moreover have "0 < eweight ?s" using d(6) [OF k(1)] k(2) usable_weight [of ?s] by (simp add: settled_def)
    ultimately have e: "lb_key t k = word_of_int (served ?s * SRV_EWGHT_MAX) div word_of_int (eweight ?s)" and w: "0 < eweight ?s"
      by (simp_all add: fwlc_key_def Let_def)
    have "uint (word_of_int (served ?s * SRV_EWGHT_MAX) :: u32) = served ?s * SRV_EWGHT_MAX"
      "uint (word_of_int (eweight ?s) :: u32) = eweight ?s"
      unfolding uint_word_of_int using b w by simp_all
    then show ?thesis unfolding e uint_div_distrib by simp
  qed
  show ?thesis
  proof (cases "single_backup (be t)")
    case True
    then show ?thesis using next_alone [OF ok] by (simp add: fwlc_get_next_server_def)
  next
    case False
    then have g: "srv_act (be t) \<noteq> 0 \<or> use_all_bk (be t)" by (auto simp: single_backup_def)
    obtain r where r: "lbt_get_next_server now t avoid = Some r"
      "best_choice (\<lambda>k j. lb_key t k \<le> lb_key t j) (lb_candidates now (be t)) avoid r"
      using get_next_best [OF ok g] by blast
    show ?thesis unfolding fwlc_get_next_server_def if_not_P [OF False]
      by (intro exI conjI, rule r(1), rule best_choice_mono [OF r(2)]) (simp add: word_le_def key)
  qed
qed

theorem fwlc_least_loaded_witness:
  "let t = the (fwlc_init_server_tree trees1)
   in \<exists>r. fwlc_get_next_server 20 t (Some 0) = Some r \<and>
    (if single_backup (be t) then r = first_backup (srv (be t))
     else best_choice (\<lambda>k j. served (srv (be t) ! k) * SRV_EWGHT_MAX div eweight (srv (be t) ! k)
       \<le> served (srv (be t) ! j) * SRV_EWGHT_MAX div eweight (srv (be t) ! j)) (lb_candidates 20 (be t)) (Some 0) r)
    \<and> \<not> single_backup (be t)"
proof -
  have "\<forall>s \<in> set (srv (be (the (fwlc_init_server_tree trees1)))). 0 \<le> served s \<and> served s < 2 ^ 19 \<and> eweight s \<le> SRV_EWGHT_MAX"
    "\<not> single_backup (be (the (fwlc_init_server_tree trees1)))" by code_simp+
  then show ?thesis unfolding Let_def using fwlc_least_loaded [OF trees1_reachable(1)] by blast
qed

text \<open>First available server.  \<open>fas_get_next_server\<close> returns, among the usable servers of the group in use
  that accept a connection, the one with the lowest identifier, and the server to avoid only when
  there is no other.\<close>

theorem fas_first_available:
  assumes "lb_reachable fas_key t" "srv_act (be t) \<noteq> 0 \<or> use_all_bk (be t)"
  shows "\<exists>r. fas_get_next_server now t avoid = Some r \<and>
    best_choice (\<lambda>k j. puid t k \<le> puid t j) (lb_candidates now (be t)) avoid r"
proof -
  have ok: "lbt_ok fas_key t" by (rule fas.reachable_ok [OF assms(1)])
  note d = lbt_okD [OF ok]
  have key: "lb_key t k = puid t k" if "k \<in> lb_candidates now (be t)" for k
    using that d(4,5) by (auto simp: keys_ok_def place_def fas_key_def lb_candidates_def)
  obtain r where r: "lbt_get_next_server now t avoid = Some r"
    "best_choice (\<lambda>k j. lb_key t k \<le> lb_key t j) (lb_candidates now (be t)) avoid r"
    using get_next_best [OF ok assms(2)] by blast
  show ?thesis unfolding fas_get_next_server_def
    by (intro exI conjI, rule r(1), rule best_choice_mono [OF r(2)]) (simp add: key)
qed

theorem fas_first_available_witness:
  "let t = the (fas_init_server_tree trees1)
   in \<exists>r. fas_get_next_server 20 t (Some 0) = Some r \<and>
    best_choice (\<lambda>k j. puid t k \<le> puid t j) (lb_candidates 20 (be t)) (Some 0) r"
  unfolding Let_def
proof (rule fas_first_available [OF trees1_reachable(2)])
  show "srv_act (be (the (fas_init_server_tree trees1))) \<noteq> 0 \<or> use_all_bk (be (the (fas_init_server_tree trees1)))"
    unfolding fas_init_server_tree_def trees1_be [of fas_key, simplified] by code_simp
qed

end
