(* ===== verification/HA_LB_Chash.thy ===== *)
theory HA_LB_Chash
  imports HA_LB_Tree
begin

section \<open>Consistent hashing (src/lb_chash.c)\<close>

text \<open>
  Each server has an array of nodes whose keys are hashes of its identifier and their index; as many
  of them as the weight of the server are in the tree of its group.  Node \<open>j\<close> of server \<open>k\<close> is the element
  \<open>4096 * k + j\<close> (\<open>SRV_EWGHT_RANGE\<close> bounds the weights).  A key goes to the server of the closest node on
  the ring of hashes; without a key, servers are taken in turn from the node \<open>last\<close>, a pointer that may be
  null, or left in the tree of the other group.
\<close>

subsection \<open>State\<close>

record chash =
  ch_be :: proxy
  ch_act :: "eb option"
  ch_bck :: "eb option"
  ch_last :: "nat option"
  nodes_tot :: "nat \<Rightarrow> nat"
  nodes_now :: "nat \<Rightarrow> nat"
  node_key :: "nat \<Rightarrow> u32"
  ch_puid :: "nat \<Rightarrow> u32"

definition node_id :: "nat \<Rightarrow> nat \<Rightarrow> nat" where
  "node_id k j = 4096 * k + j"

definition node_srv :: "nat \<Rightarrow> nat" where
  "node_srv x = x div 4096"

definition on_ch :: "(proxy \<Rightarrow> proxy) \<Rightarrow> chash \<Rightarrow> chash" where
  "on_ch f t = t\<lparr>ch_be := f (ch_be t)\<rparr>"

definition ch_root :: "lb_group \<Rightarrow> chash \<Rightarrow> eb option" where
  "ch_root g t = (case g of Act \<Rightarrow> ch_act t | Bck \<Rightarrow> ch_bck t)"

definition ch_group :: "nat \<Rightarrow> chash \<Rightarrow> lb_group" where
  "ch_group k t = group_of (srv (ch_be t) ! k)"

text \<open>Following the pointers from a node stays in the tree that holds it.\<close>

definition ch_next :: "chash \<Rightarrow> nat \<Rightarrow> nat option" where
  "ch_next t x = (if x \<in> set (eb_contents (ch_act t)) then eb_next x (ch_act t) else eb_next x (ch_bck t))"

subsection \<open>Entries of a server\<close>

definition chash_skip_node :: "lb_group \<Rightarrow> chash \<Rightarrow> nat option \<Rightarrow> nat option" where
  "chash_skip_node g t node =
    (case node of None \<Rightarrow> None
     | Some x \<Rightarrow>
         let y = (case ch_next t x of None \<Rightarrow> eb_first (ch_root g t) | Some y \<Rightarrow> Some y)
         in if y = Some x then None else y)"

definition skip_last :: "nat \<Rightarrow> nat \<Rightarrow> chash \<Rightarrow> chash" where
  "skip_last k x t =
    (if ch_last t = Some x then t\<lparr>ch_last := chash_skip_node (ch_group k t) t (ch_last t)\<rparr> else t)"

definition drop_node :: "nat \<Rightarrow> chash \<Rightarrow> chash" where
  "drop_node k t =
    (let t = (if nodes_now t k \<ge> nodes_tot t k then t\<lparr>nodes_now := (nodes_now t)(k := nodes_tot t k)\<rparr> else t);
         t = t\<lparr>nodes_now := (nodes_now t)(k := nodes_now t k - 1)\<rparr>;
         x = node_id k (nodes_now t k);
         t = skip_last k x t
     in t\<lparr>ch_act := eb_delete x (ch_act t), ch_bck := eb_delete x (ch_bck t)\<rparr>)"

definition add_node :: "nat \<Rightarrow> chash \<Rightarrow> chash" where
  "add_node k t =
    (let x = node_id k (nodes_now t k);
         t = skip_last k x t;
         t = (case ch_group k t of
                Act \<Rightarrow> t\<lparr>ch_act := eb32_put (node_key t) x (ch_act t)\<rparr>
              | Bck \<Rightarrow> t\<lparr>ch_bck := eb32_put (node_key t) x (ch_bck t)\<rparr>)
     in t\<lparr>nodes_now := (nodes_now t)(k := nodes_now t k + 1)\<rparr>)"

fun drop_nodes :: "nat \<Rightarrow> nat \<Rightarrow> int \<Rightarrow> chash \<Rightarrow> chash" where
  "drop_nodes 0 k w t = t"
| "drop_nodes (Suc n) k w t = (if int (nodes_now t k) > w then drop_nodes n k w (drop_node k t) else t)"

fun add_nodes :: "nat \<Rightarrow> nat \<Rightarrow> int \<Rightarrow> chash \<Rightarrow> chash" where
  "add_nodes 0 k w t = t"
| "add_nodes (Suc n) k w t =
    (if int (nodes_now t k) < w \<and> \<not> nodes_now t k \<ge> nodes_tot t k then add_nodes n k w (add_node k t) else t)"

definition chash_dequeue_srv :: "nat \<Rightarrow> chash \<Rightarrow> chash" where
  "chash_dequeue_srv k t = drop_nodes (nodes_now t k) k 0 t"

definition chash_queue_dequeue_srv :: "nat \<Rightarrow> chash \<Rightarrow> chash" where
  "chash_queue_dequeue_srv k t =
    (let w = eweight (srv (ch_be t) ! k);
         t = drop_nodes (nodes_now t k) k w t
     in add_nodes (nodes_tot t k) k w t)"

subsection \<open>Status changes\<close>

definition chash_set_server_status_down :: "nat \<Rightarrow> chash \<Rightarrow> chash" where
  "chash_set_server_status_down k t =
    (let s = srv (ch_be t) ! k
     in if \<not> srv_lb_status_changed s then t
        else if srv_is_usable s then on_ch (commit_server k) t
        else if \<not> srv_was_usable s then on_ch (\<lambda>px. commit_server k (update_backend_weight px)) t
        else let t = chash_dequeue_srv k (on_ch (lose_server k) t)
             in on_ch (\<lambda>px. commit_server k (update_backend_weight px)) t)"

definition chash_set_server_status_up :: "nat \<Rightarrow> chash \<Rightarrow> chash" where
  "chash_set_server_status_up k t =
    (let s = srv (ch_be t) ! k
     in if \<not> srv_lb_status_changed s then t
        else if \<not> srv_is_usable s then on_ch (commit_server k) t
        else if srv_was_usable s then on_ch (\<lambda>px. commit_server k (update_backend_weight px)) t
        else let t = chash_queue_dequeue_srv k (on_ch (gain_server k) t)
             in on_ch (\<lambda>px. commit_server k (update_backend_weight px)) t)"

definition chash_update_server_weight :: "nat \<Rightarrow> chash \<Rightarrow> chash" where
  "chash_update_server_weight k t =
    (let s = srv (ch_be t) ! k; old_state = srv_was_usable s; new_state = srv_is_usable s
     in if \<not> srv_lb_status_changed s then t
        else if \<not> old_state \<and> \<not> new_state then on_ch (commit_server k) t
        else if \<not> old_state \<and> new_state then chash_set_server_status_up k t
        else if old_state \<and> \<not> new_state then chash_set_server_status_down k t
        else let t = on_ch (reweigh_server k) (chash_queue_dequeue_srv k t)
             in on_ch (\<lambda>px. commit_server k (update_backend_weight px)) t)"

definition init_nodes :: "nat \<Rightarrow> chash \<Rightarrow> chash" where
  "init_nodes k t = t\<lparr>nodes_tot := (nodes_tot t)(k := nat (uweight (srv (ch_be t) ! k) * BE_WEIGHT_SCALE)),
     nodes_now := (nodes_now t)(k := 0),
     node_key := (\<lambda>x. if node_srv x = k then full_hash (ch_puid t k * 4096 + of_nat (x mod 4096)) else node_key t x)\<rparr>"

fun chash_init_loop :: "nat list \<Rightarrow> chash \<Rightarrow> chash" where
  "chash_init_loop [] t = t"
| "chash_init_loop (k # ks) t =
    (let t = init_nodes k t
     in chash_init_loop ks (if srv_is_usable (srv (ch_be t) ! k) then chash_queue_dequeue_srv k t else t))"

definition chash_init_server_tree :: "chash \<Rightarrow> chash" where
  "chash_init_server_tree t =
    (let px = ch_be t; px = px\<lparr>wdiv := BE_WEIGHT_SCALE\<rparr>;
         px = px\<lparr>srv := map (initial_weight (wmult px) (wdiv px)) (srv px)\<rparr>;
         px = update_backend_weight (recount_servers px)
     in chash_init_loop [0..<length (srv px)] (t\<lparr>ch_be := px, ch_act := None, ch_bck := None, ch_last := None\<rparr>))"

subsection \<open>Choosing a server\<close>

datatype ch_choice = Nobody | First_backup nat | From_group lb_group

definition chash_choose_group :: "proxy \<Rightarrow> ch_choice" where
  "chash_choose_group px =
    (if srv_act px \<noteq> 0 then From_group Act
     else case fbck px of Some k \<Rightarrow> First_backup k
     | None \<Rightarrow> if srv_bck px \<noteq> 0 then From_group Bck else Nobody)"

definition chash_closest :: "(nat \<Rightarrow> u32) \<Rightarrow> eb option \<Rightarrow> u32 \<Rightarrow> nat option" where
  "chash_closest key root hash =
    (let next = (case eb32_lookup_ge key root hash of None \<Rightarrow> eb_first root | Some x \<Rightarrow> Some x)
     in case next of None \<Rightarrow> None
        | Some nx \<Rightarrow>
            (case (case eb_prev nx root of None \<Rightarrow> eb_last root | Some x \<Rightarrow> Some x) of None \<Rightarrow> None
             | Some pv \<Rightarrow>
                 if node_srv nx = node_srv pv then Some (node_srv nx)
                 else if hash - key pv \<le> key nx - hash then Some (node_srv pv) else Some (node_srv nx)))"

definition chash_get_server_hash :: "chash \<Rightarrow> u32 \<Rightarrow> nat option" where
  "chash_get_server_hash t hash =
    (case chash_choose_group (ch_be t) of Nobody \<Rightarrow> None | First_backup k \<Rightarrow> Some k
     | From_group g \<Rightarrow> chash_closest (node_key t) (ch_root g t) hash)"

definition node_after :: "lb_group \<Rightarrow> chash \<Rightarrow> nat option \<Rightarrow> nat option" where
  "node_after g t node =
    (case Option.bind node (ch_next t) of None \<Rightarrow> eb_first (ch_root g t) | Some x \<Rightarrow> Some x)"

text \<open>The walk: the server found, if any, and the new value of \<open>last\<close>; \<open>n\<close> bounds the iterations.\<close>

fun chash_walk :: "nat \<Rightarrow> int \<Rightarrow> chash \<Rightarrow> nat option \<Rightarrow> lb_group \<Rightarrow> nat option \<Rightarrow> nat option \<Rightarrow> nat option
    \<Rightarrow> (nat option \<times> nat option) option" where
  "chash_walk 0 now t avoid g node stop avoided = None"
| "chash_walk (Suc n) now t avoid g node stop avoided =
    (case node_after g t node of
       None \<Rightarrow> Some (None, None)
     | Some x \<Rightarrow>
         let stop = (case stop of None \<Rightarrow> Some x | Some y \<Rightarrow> Some y); k = node_srv x;
             ok = has_slot now (ch_be t) k
         in if ok \<and> Some k \<noteq> avoid then Some (Some k, Some x)
            else let avoided = (if ok then Some x else avoided)
                 in if Some x \<noteq> stop then chash_walk n now t avoid g (Some x) stop avoided
                    else Some (map_option node_srv avoided, avoided))"

definition chash_get_next_server :: "nat \<Rightarrow> int \<Rightarrow> chash \<Rightarrow> nat option \<Rightarrow> (nat option \<times> chash) option" where
  "chash_get_next_server n now t srvtoavoid =
    (case chash_choose_group (ch_be t) of Nobody \<Rightarrow> Some (None, t) | First_backup k \<Rightarrow> Some (Some k, t)
     | From_group g \<Rightarrow>
         map_option (\<lambda>(r, lst). (r, t\<lparr>ch_last := lst\<rparr>)) (chash_walk n now t srvtoavoid g (ch_last t) (ch_last t) None))"

end
