(* ===== verification/HA_LB_Chash_Proofs.thy ===== *)
theory HA_LB_Chash_Proofs
  imports HA_LB_Chash
begin

section \<open>The ring of servers: invariants\<close>

text \<open>
  Which nodes the trees hold, through every change of the status or weight of a server: the first
  ones of each usable server, as many as its weight says and its array allows.
\<close>

subsection \<open>Nodes\<close>

lemma node_id_simps [simp]:
  "j < 4096 \<Longrightarrow> node_srv (node_id k j) = k" "j < 4096 \<Longrightarrow> node_id k j mod 4096 = j" "node_id (node_srv x) (x mod 4096) = x"
  by (simp_all add: node_id_def node_srv_def)

lemma node_eq_iff: "x = y \<longleftrightarrow> node_srv x = node_srv y \<and> x mod 4096 = y mod 4096"
  by (metis node_id_simps(3))

lemma node_is: "j < 4096 \<Longrightarrow> x = node_id k j \<longleftrightarrow> node_srv x = k \<and> x mod 4096 = j"
  by (subst node_eq_iff) simp

definition ch_holds :: "chash \<Rightarrow> lb_group \<Rightarrow> nat set" where
  "ch_holds t g = {x. node_srv x < length (srv (ch_be t)) \<and> ch_group (node_srv x) t = g \<and> x mod 4096 < nodes_now t (node_srv x)}"

definition ring_ok :: "chash \<Rightarrow> bool" where
  "ring_ok t \<longleftrightarrow> eb_root_ok (node_key t) (ch_act t) \<and> eb_root_ok (node_key t) (ch_bck t)
    \<and> set (eb_contents (ch_act t)) = ch_holds t Act \<and> set (eb_contents (ch_bck t)) = ch_holds t Bck
    \<and> (\<forall>k < length (srv (ch_be t)). nodes_now t k \<le> nodes_tot t k \<and> nodes_tot t k \<le> 4096)
    \<and> (\<forall>x. ch_last t = Some x \<longrightarrow> x \<in> ch_holds t Act \<union> ch_holds t Bck)"

lemma ring_okD:
  assumes "ring_ok t"
  shows "eb_root_ok (node_key t) (ch_act t)" "eb_root_ok (node_key t) (ch_bck t)"
    "set (eb_contents (ch_act t)) = ch_holds t Act" "set (eb_contents (ch_bck t)) = ch_holds t Bck"
    "k < length (srv (ch_be t)) \<Longrightarrow> nodes_now t k \<le> nodes_tot t k" "k < length (srv (ch_be t)) \<Longrightarrow> nodes_tot t k \<le> 4096"
    "ch_last t = Some x \<Longrightarrow> x \<in> ch_holds t Act \<union> ch_holds t Bck"
    "eb_root_ok (node_key t) (ch_root g t)" "set (eb_contents (ch_root g t)) = ch_holds t g"
  using assms by (auto simp: ring_ok_def ch_root_def split: lb_group.split)

lemma eb_next_mem:
  assumes "eb_root_ok key t" "x \<in> set (eb_contents t)" "eb_next x t = Some y"
  shows "y \<in> set (eb_contents t) \<and> y \<noteq> x"
proof -
  obtain xs ys where c: "eb_contents t = xs @ x # ys" using split_list [OF assms(2)] by blast
  then show ?thesis using next_contents [OF assms(1) c] assms(3) contents_sorted [OF assms(1)]
    by (cases ys) auto
qed

lemma eb_first_mem: "eb_first t = Some y \<Longrightarrow> y \<in> set (eb_contents t)"
  by (auto simp: first_contents split: list.splits)

lemma skip_node_mem:
  assumes "ring_ok t" "x \<in> ch_holds t Act \<union> ch_holds t Bck" "chash_skip_node g t (Some x) = Some y"
  shows "y \<in> ch_holds t Act \<union> ch_holds t Bck \<and> y \<noteq> x"
proof -
  note d = ring_okD [OF assms(1)]
  have n: "z \<in> ch_holds t Act \<union> ch_holds t Bck" if "ch_next t x = Some z" for z
    using that assms(2) eb_next_mem [OF d(1), of x z] eb_next_mem [OF d(2), of x z]
    by (auto simp: ch_next_def d(3,4) split: if_splits)
  have f: "z \<in> ch_holds t Act \<union> ch_holds t Bck" if "eb_first (ch_root g t) = Some z" for z
    using eb_first_mem [OF that] d(9) [of g] by (cases g) auto
  show ?thesis using assms(3) n f by (auto simp: chash_skip_node_def Let_def split: option.splits if_splits)
qed

text \<open>Fields that the operations on nodes leave alone.\<close>

definition ring_others :: "nat \<Rightarrow> chash \<Rightarrow> nat list \<times> nat list" where
  "ring_others k t = (filter (\<lambda>x. node_srv x \<noteq> k) (eb_contents (ch_act t)), filter (\<lambda>x. node_srv x \<noteq> k) (eb_contents (ch_bck t)))"

definition same_servers :: "nat \<Rightarrow> chash \<Rightarrow> chash \<Rightarrow> bool" where
  "same_servers k t t' \<longleftrightarrow> ch_be t' = ch_be t \<and> nodes_tot t' = nodes_tot t \<and> node_key t' = node_key t \<and> ch_puid t' = ch_puid t
    \<and> ring_others k t' = ring_others k t"

lemma same_servers_refl [simp]: "same_servers k t t"
  by (simp add: same_servers_def)

lemma same_servers_trans: "same_servers k t u \<Longrightarrow> same_servers k u v \<Longrightarrow> same_servers k t v"
  by (simp add: same_servers_def)

lemma filter_remove: "\<not> P x \<Longrightarrow> filter P (remove1 x xs) = filter P xs"
  by (induction xs) auto

lemma filter_insert: "\<not> P x \<Longrightarrow> filter P (insert_sorted key x xs) = filter P xs"
  using filter_append [of P "takeWhile (\<lambda>y. key y \<le> key x) xs" "dropWhile (\<lambda>y. key y \<le> key x) xs"]
  by (simp add: insert_sorted_def)

lemma skip_last_frame [simp]:
  "ch_be (skip_last k x t) = ch_be t" "ch_act (skip_last k x t) = ch_act t" "ch_bck (skip_last k x t) = ch_bck t"
  "nodes_tot (skip_last k x t) = nodes_tot t" "nodes_now (skip_last k x t) = nodes_now t"
  "node_key (skip_last k x t) = node_key t" "ch_puid (skip_last k x t) = ch_puid t"
  by (simp_all add: skip_last_def)

lemma nodes_now_frame [simp]:
  "ch_root g (t\<lparr>nodes_now := f\<rparr>) = ch_root g t" "ch_group k (t\<lparr>nodes_now := f\<rparr>) = ch_group k t"
  "ch_next (t\<lparr>nodes_now := f\<rparr>) = ch_next t" "chash_skip_node g (t\<lparr>nodes_now := f\<rparr>) = chash_skip_node g t"
proof -
  show r: "ch_root g (t\<lparr>nodes_now := f\<rparr>) = ch_root g t" for g by (cases g) (simp_all add: ch_root_def)
  show n: "ch_next (t\<lparr>nodes_now := f\<rparr>) = ch_next t" by (simp add: ch_next_def fun_eq_iff)
  show "chash_skip_node g (t\<lparr>nodes_now := f\<rparr>) = chash_skip_node g t"
    by (rule ext) (unfold chash_skip_node_def r n, rule refl)
qed (simp add: ch_group_def)

lemma skip_last_mem:
  assumes "ring_ok t" "ch_last (skip_last k x t) = Some y"
  shows "y \<in> ch_holds t Act \<union> ch_holds t Bck \<and> y \<noteq> x"
proof (cases "ch_last t = Some x")
  case True
  then show ?thesis using skip_node_mem [OF assms(1) ring_okD(7) [OF assms(1) True]] assms(2)
    by (simp add: skip_last_def)
next
  case False
  then show ?thesis using ring_okD(7) [OF assms(1), of y] assms(2) by (simp add: skip_last_def)
qed

lemma drop_node_eq:
  assumes "nodes_now t k = Suc m" "Suc m \<le> nodes_tot t k"
  shows "drop_node k t = t\<lparr>nodes_now := (nodes_now t)(k := m), ch_last := ch_last (skip_last k (node_id k m) t),
    ch_act := eb_delete (node_id k m) (ch_act t), ch_bck := eb_delete (node_id k m) (ch_bck t)\<rparr>"
proof -
  have "(nodes_now t)(k := nodes_tot t k) = nodes_now t" if "nodes_tot t k \<le> Suc m"
    using that assms by (intro fun_upd_idem) simp
  then have e: "(if nodes_now t k \<ge> nodes_tot t k then t\<lparr>nodes_now := (nodes_now t)(k := nodes_tot t k)\<rparr> else t) = t"
    using assms(1) by simp
  show ?thesis unfolding drop_node_def Let_def e using assms(1)
    by (simp add: skip_last_def)
qed

lemma holds_drop:
  assumes "nodes_now t k = Suc m" "Suc m \<le> 4096" "k < length (srv (ch_be t))"
  shows "ch_holds (t\<lparr>nodes_now := (nodes_now t)(k := m)\<rparr>) g = ch_holds t g - {node_id k m}"
proof -
  have "x \<noteq> node_id k m \<longleftrightarrow> node_srv x \<noteq> k \<or> x mod 4096 \<noteq> m" for x using assms(2) by (simp add: node_is)
  then show ?thesis unfolding ch_holds_def by (rule_tac set_eqI) (use assms(1) less_Suc_eq in auto)
qed

lemma holds_cong: "ch_be t' = ch_be t \<Longrightarrow> nodes_now t' = nodes_now t \<Longrightarrow> ch_holds t' g = ch_holds t g"
  by (simp add: ch_holds_def ch_group_def)

lemma drop_node_ok:
  assumes ok: "ring_ok t" and k: "k < length (srv (ch_be t))" and n: "nodes_now t k = Suc m"
  shows "ring_ok (drop_node k t)" "same_servers k t (drop_node k t)" "nodes_now (drop_node k t) = (nodes_now t)(k := m)"
proof -
  note d = ring_okD [OF ok]
  have b: "Suc m \<le> nodes_tot t k" "Suc m \<le> 4096" using d(5,6) [OF k] n by simp_all
  note e = drop_node_eq [OF n b(1)]
  let ?x = "node_id k m"
  have h: "ch_holds (drop_node k t) g = ch_holds t g - {?x}" for g
    using holds_cong [of "drop_node k t" "t\<lparr>nodes_now := (nodes_now t)(k := m)\<rparr>" g] holds_drop [OF n b(2) k, of g] by (simp add: e)
  show "same_servers k t (drop_node k t)" "nodes_now (drop_node k t) = (nodes_now t)(k := m)"
    using b eb32.remove_contents [OF d(1)] eb32.remove_contents [OF d(2)]
    by (simp_all add: e same_servers_def ring_others_def filter_remove)
  have "ch_last (drop_node k t) = Some y \<Longrightarrow> y \<in> ch_holds t Act \<union> ch_holds t Bck \<and> y \<noteq> ?x" for y
    using skip_last_mem [OF ok, of k ?x y] by (simp add: e)
  then show "ring_ok (drop_node k t)"
    unfolding ring_ok_def h using eb32.remove_valid [OF d(1)] eb32.remove_valid [OF d(2)]
      eb32.remove_contents [OF d(1)] eb32.remove_contents [OF d(2)] eb32.in_order [OF d(1)] eb32.in_order [OF d(2)] d(3-6) b
    by (auto simp: e nth_update)
qed

lemma drop_nodes_ok:
  assumes "ring_ok t" "k < length (srv (ch_be t))" "0 \<le> w" "nodes_now t k \<le> n"
  shows "ring_ok (drop_nodes n k w t) \<and> same_servers k t (drop_nodes n k w t)
    \<and> nodes_now (drop_nodes n k w t) = (nodes_now t)(k := min (nodes_now t k) (nat w))"
  using assms
proof (induction n arbitrary: t)
  case (Suc n)
  show ?case
  proof (cases "int (nodes_now t k) > w")
    case True
    then obtain m where m: "nodes_now t k = Suc m" using Suc.prems(3) by (cases "nodes_now t k") auto
    note o = drop_node_ok [OF Suc.prems(1,2) m]
    have len: "length (srv (ch_be (drop_node k t))) = length (srv (ch_be t))" using o(2) by (simp add: same_servers_def)
    have "ring_ok (drop_nodes n k w (drop_node k t)) \<and> same_servers k (drop_node k t) (drop_nodes n k w (drop_node k t))
      \<and> nodes_now (drop_nodes n k w (drop_node k t))
        = (nodes_now (drop_node k t))(k := min (nodes_now (drop_node k t) k) (nat w))"
      using Suc.prems(2-4) m by (intro Suc.IH [OF o(1)]) (simp_all add: len o(3))
    moreover have "min m (nat w) = min (nodes_now t k) (nat w)" using True m by auto
    ultimately show ?thesis using True same_servers_trans [OF o(2)] by (simp add: o(3) m)
  next
    case False
    then have "min (nodes_now t k) (nat w) = nodes_now t k" by auto
    then show ?thesis using False Suc.prems(1) by simp
  qed
qed (simp add: fun_upd_idem)

lemma add_node_eq:
  assumes ok: "ring_ok t" and k: "k < length (srv (ch_be t))" and n: "nodes_now t k < nodes_tot t k"
  shows "node_id k (nodes_now t k) \<notin> ch_holds t g" "skip_last k (node_id k (nodes_now t k)) t = t"
proof -
  have "nodes_now t k < 4096" using ring_okD(6) [OF ok k] n by simp
  then show x: "node_id k (nodes_now t k) \<notin> ch_holds t g" for g by (simp add: ch_holds_def)
  show "skip_last k (node_id k (nodes_now t k)) t = t"
    using ring_okD(7) [OF ok, of "node_id k (nodes_now t k)"] x by (auto simp: skip_last_def)
qed

lemma add_node_ok:
  assumes ok: "ring_ok t" and k: "k < length (srv (ch_be t))" and n: "nodes_now t k < nodes_tot t k"
  shows "ring_ok (add_node k t)" "same_servers k t (add_node k t)" "nodes_now (add_node k t) = (nodes_now t)(k := Suc (nodes_now t k))"
proof -
  note d = ring_okD [OF ok]
  let ?x = "node_id k (nodes_now t k)" and ?t = "t\<lparr>nodes_now := (nodes_now t)(k := Suc (nodes_now t k))\<rparr>"
  note a = add_node_eq [OF ok k n]
  have e: "add_node k t = (case ch_group k t of Act \<Rightarrow> ?t\<lparr>ch_act := eb32_put (node_key t) ?x (ch_act t)\<rparr>
      | Bck \<Rightarrow> ?t\<lparr>ch_bck := eb32_put (node_key t) ?x (ch_bck t)\<rparr>)"
    by (simp add: add_node_def Let_def a(2) ch_group_def split: lb_group.split)
  have lt: "nodes_now t k < 4096" using d(6) [OF k] n by simp
  have h': "ch_holds ?t g = (if ch_group k t = g then insert ?x (ch_holds t g) else ch_holds t g)" for g
    using k by (rule_tac set_eqI) (auto simp: ch_holds_def node_is [OF lt] less_Suc_eq)
  have h: "ch_holds (add_node k t) g = (if ch_group k t = g then insert ?x (ch_holds t g) else ch_holds t g)" for g
    using holds_cong [of "add_node k t" ?t g] h' [of g] by (simp add: e split: lb_group.split)
  have n': "?x \<notin> set (eb_contents (ch_act t))" "?x \<notin> set (eb_contents (ch_bck t))" using a(1) d(3,4) by simp_all
  show "same_servers k t (add_node k t)" "nodes_now (add_node k t) = (nodes_now t)(k := Suc (nodes_now t k))"
    using lt eb32.put_contents [OF d(1) n'(1)] eb32.put_contents [OF d(2) n'(2)]
    by (simp_all add: e same_servers_def ring_others_def filter_insert split: lb_group.split)
  have l: "ch_last (add_node k t) = ch_last t" by (simp add: e split: lb_group.split)
  show "ring_ok (add_node k t)"
    unfolding ring_ok_def h l using eb32.put_valid [OF d(1) n'(1)] eb32.put_valid [OF d(2) n'(2)]
      eb32.put_contents [OF d(1) n'(1)] eb32.put_contents [OF d(2) n'(2)] d n
    by (cases "ch_group k t") (auto simp: e nth_update)
qed

lemma add_nodes_ok:
  assumes "ring_ok t" "k < length (srv (ch_be t))" "nodes_tot t k \<le> nodes_now t k + n" "int (nodes_now t k) \<le> w"
  shows "ring_ok (add_nodes n k w t) \<and> same_servers k t (add_nodes n k w t)
    \<and> nodes_now (add_nodes n k w t) = (nodes_now t)(k := min (nat w) (nodes_tot t k))"
  using assms
proof (induction n arbitrary: t)
  case 0
  have "min (nat w) (nodes_tot t k) = nodes_now t k" using 0 ring_okD(5) [OF 0(1,2)] by auto
  then show ?case using 0 by simp
next
  case (Suc n)
  show ?case
  proof (cases "int (nodes_now t k) < w \<and> \<not> nodes_now t k \<ge> nodes_tot t k")
    case True
    then have lt: "nodes_now t k < nodes_tot t k" by simp
    note o = add_node_ok [OF Suc.prems(1,2) lt]
    have f: "ch_be (add_node k t) = ch_be t" "nodes_tot (add_node k t) = nodes_tot t" using o(2) by (simp_all add: same_servers_def)
    have "ring_ok (add_nodes n k w (add_node k t)) \<and> same_servers k (add_node k t) (add_nodes n k w (add_node k t))
      \<and> nodes_now (add_nodes n k w (add_node k t)) = (nodes_now (add_node k t))(k := min (nat w) (nodes_tot (add_node k t) k))"
      using Suc.prems(2,3) True by (intro Suc.IH [OF o(1)]) (simp_all add: f o(3))
    then show ?thesis using True same_servers_trans [OF o(2)] by (simp add: o(3) f)
  next
    case False
    then have "min (nat w) (nodes_tot t k) = nodes_now t k" using Suc.prems ring_okD(5) [OF Suc.prems(1,2)] by auto
    then show ?thesis using False Suc.prems(1) by (auto simp: fun_upd_idem)
  qed
qed

lemma dequeue_ok:
  assumes "ring_ok t" "k < length (srv (ch_be t))"
  shows "ring_ok (chash_dequeue_srv k t) \<and> same_servers k t (chash_dequeue_srv k t)
    \<and> nodes_now (chash_dequeue_srv k t) = (nodes_now t)(k := 0)"
  using drop_nodes_ok [OF assms, of 0 "nodes_now t k"] by (simp add: chash_dequeue_srv_def)

lemma queue_dequeue_ok:
  assumes "ring_ok t" "k < length (srv (ch_be t))" "0 \<le> eweight (srv (ch_be t) ! k)"
  shows "ring_ok (chash_queue_dequeue_srv k t) \<and> same_servers k t (chash_queue_dequeue_srv k t)
    \<and> nodes_now (chash_queue_dequeue_srv k t) = (nodes_now t)(k := min (nat (eweight (srv (ch_be t) ! k))) (nodes_tot t k))"
proof -
  let ?w = "eweight (srv (ch_be t) ! k)" let ?t = "drop_nodes (nodes_now t k) k ?w t"
  have d: "ring_ok ?t" "same_servers k t ?t" "nodes_now ?t = (nodes_now t)(k := min (nodes_now t k) (nat ?w))"
    using drop_nodes_ok [OF assms(1,2,3), of "nodes_now t k"] by simp_all
  have f: "ch_be ?t = ch_be t" "nodes_tot ?t = nodes_tot t" using d(2) by (simp_all add: same_servers_def)
  have "ring_ok (add_nodes (nodes_tot t k) k ?w ?t) \<and> same_servers k ?t (add_nodes (nodes_tot t k) k ?w ?t)
    \<and> nodes_now (add_nodes (nodes_tot t k) k ?w ?t) = (nodes_now ?t)(k := min (nat ?w) (nodes_tot ?t k))"
    using assms(2,3) by (intro add_nodes_ok [OF d(1)]) (simp_all add: f d(3))
  then show ?thesis using same_servers_trans [OF d(2)] by (simp add: chash_queue_dequeue_srv_def Let_def f d(3))
qed

subsection \<open>Status changes\<close>

definition entries :: "server \<Rightarrow> nat \<Rightarrow> nat" where
  "entries s m = (if srv_is_usable s then min (nat (eweight s)) m else 0)"

lemma entries_le [simp]: "entries s m \<le> m"
  by (simp add: entries_def)

definition chash_ok :: "chash \<Rightarrow> bool" where
  "chash_ok t \<longleftrightarrow> backend_ok (ch_be t) \<and> ring_ok t
    \<and> (\<forall>k < length (srv (ch_be t)). nodes_now t k = entries (srv (ch_be t) ! k) (nodes_tot t k))"

lemma on_ch_simps [simp]:
  "ch_be (on_ch f t) = f (ch_be t)" "ch_act (on_ch f t) = ch_act t" "ch_bck (on_ch f t) = ch_bck t" "ch_last (on_ch f t) = ch_last t"
  "nodes_tot (on_ch f t) = nodes_tot t" "nodes_now (on_ch f t) = nodes_now t" "node_key (on_ch f t) = node_key t"
  "ch_puid (on_ch f t) = ch_puid t"
  by (simp_all add: on_ch_def)

lemma holds_groups:
  assumes "same_groups (ch_be t) (ch_be t')" "nodes_now t' = nodes_now t"
  shows "ch_holds t' g = ch_holds t g"
proof -
  have l: "length (srv (ch_be t')) = length (srv (ch_be t))" using assms(1) by (metis same_groups_def length_map)
  have "ch_group k t' = ch_group k t" if "k < length (srv (ch_be t))" for k
    using same_groups_nth [OF assms(1) that] by (simp add: ch_group_def group_of_def)
  then show ?thesis using l assms(2) by (auto simp: ch_holds_def)
qed

lemma ring_on_ch: "same_groups (ch_be t) (f (ch_be t)) \<Longrightarrow> ring_ok (on_ch f t) = ring_ok t"
proof -
  assume g: "same_groups (ch_be t) (f (ch_be t))"
  then have l: "length (srv (f (ch_be t))) = length (srv (ch_be t))" by (metis same_groups_def length_map)
  have h: "ch_holds (on_ch f t) b = ch_holds t b" for b using holds_groups [of t "on_ch f t"] g by simp
  show ?thesis unfolding ring_ok_def h by (simp add: l)
qed

text \<open>The backend goes through the same steps as with the other algorithms.\<close>

lemma nodes_be:
  "ch_be (drop_node k t) = ch_be t" "ch_be (add_node k t) = ch_be t"
  by (simp_all add: drop_node_def add_node_def Let_def split: lb_group.split)

lemma nodes_be' [simp]:
  "ch_be (drop_nodes n k w t) = ch_be t" "ch_be (add_nodes n k w t) = ch_be t"
  "ch_be (chash_dequeue_srv k t) = ch_be t" "ch_be (chash_queue_dequeue_srv k t) = ch_be t"
proof -
  show d: "ch_be (drop_nodes n k w t) = ch_be t" for n k w t by (induction n arbitrary: t) (simp_all add: nodes_be)
  show a: "ch_be (add_nodes n k w t) = ch_be t" for n k w t by (induction n arbitrary: t) (simp_all add: nodes_be)
  show "ch_be (chash_dequeue_srv k t) = ch_be t" "ch_be (chash_queue_dequeue_srv k t) = ch_be t"
    by (simp_all add: chash_dequeue_srv_def chash_queue_dequeue_srv_def Let_def d a)
qed

lemma nodes_frame:
  "node_key (drop_node k t) = node_key t" "node_key (add_node k t) = node_key t"
  "ch_puid (drop_node k t) = ch_puid t" "ch_puid (add_node k t) = ch_puid t"
  by (simp_all add: drop_node_def add_node_def Let_def split: lb_group.split)

lemma nodes_frame' [simp]:
  "node_key (chash_dequeue_srv k t) = node_key t" "node_key (chash_queue_dequeue_srv k t) = node_key t"
  "ch_puid (chash_dequeue_srv k t) = ch_puid t" "ch_puid (chash_queue_dequeue_srv k t) = ch_puid t"
proof -
  have d: "node_key (drop_nodes n k w t) = node_key t \<and> ch_puid (drop_nodes n k w t) = ch_puid t" for n k w t
    by (induction n arbitrary: t) (simp_all add: nodes_frame)
  have a: "node_key (add_nodes n k w t) = node_key t \<and> ch_puid (add_nodes n k w t) = ch_puid t" for n k w t
    by (induction n arbitrary: t) (simp_all add: nodes_frame)
  show "node_key (chash_dequeue_srv k t) = node_key t" "node_key (chash_queue_dequeue_srv k t) = node_key t"
    "ch_puid (chash_dequeue_srv k t) = ch_puid t" "ch_puid (chash_queue_dequeue_srv k t) = ch_puid t"
    by (simp_all add: chash_dequeue_srv_def chash_queue_dequeue_srv_def Let_def d a)
qed

lemma status_be:
  "ch_be (chash_set_server_status_down k t) = px_status_down k (ch_be t)"
  "ch_be (chash_set_server_status_up k t) = px_status_up k (ch_be t)"
  "ch_be (chash_update_server_weight k t) = px_update_weight k (ch_be t)"
proof -
  show d: "ch_be (chash_set_server_status_down k t) = px_status_down k (ch_be t)"
    and u: "ch_be (chash_set_server_status_up k t) = px_status_up k (ch_be t)"
    by (simp_all add: chash_set_server_status_down_def chash_set_server_status_up_def px_status_down_def px_status_up_def Let_def)
  show "ch_be (chash_update_server_weight k t) = px_update_weight k (ch_be t)"
    by (simp add: chash_update_server_weight_def px_update_weight_def Let_def d u)
qed

lemma chash_okI:
  assumes "chash_ok t" "k < length (srv (ch_be t))" "backend_ok (ch_be t')" "ring_ok t'" "nodes_tot t' = nodes_tot t"
    "srv (ch_be t') = (srv (ch_be t))[k := s]" "nodes_now t' = (nodes_now t)(k := entries s (nodes_tot t k))"
  shows "chash_ok t'"
  using assms by (auto simp: chash_ok_def nth_update)

lemma entries_commit [simp]: "entries (srv_lb_commit_status s) m = entries s m"
  by (simp add: entries_def)

text \<open>The effect of an operation on the ring: only the entries of one server change, to the number \<open>e\<close>.\<close>

definition ring_step :: "chash \<Rightarrow> nat \<Rightarrow> nat \<Rightarrow> chash \<Rightarrow> bool" where
  "ring_step t k e t' \<longleftrightarrow> ring_ok t' \<and> nodes_tot t' = nodes_tot t \<and> node_key t' = node_key t \<and> ch_puid t' = ch_puid t
    \<and> nodes_now t' = (nodes_now t)(k := e) \<and> ring_others k t' = ring_others k t"

lemma ring_others_on_ch [simp]: "ring_others k (on_ch f t) = ring_others k t"
  by (simp add: ring_others_def)

lemma ring_step_on_ch:
  assumes "ring_step t k e t'" "same_groups (ch_be t') (f (ch_be t'))"
  shows "ring_step t k e (on_ch f t')"
  using assms(1) ring_on_ch [of t' f, OF assms(2)] by (simp add: ring_step_def)

lemma ring_step_id: "ring_ok t \<Longrightarrow> nodes_now t k = e \<Longrightarrow> ring_step t k e t"
  by (simp add: ring_step_def fun_upd_idem)

lemma ring_step_dequeue:
  assumes "ring_ok t" "k < length (srv (ch_be t))"
  shows "ring_step t k 0 (chash_dequeue_srv k t)"
  using dequeue_ok [OF assms] by (simp add: ring_step_def same_servers_def)

lemma ring_step_queue:
  assumes "ring_ok t" "k < length (srv (ch_be t))" "0 \<le> eweight (srv (ch_be t) ! k)" "srv_is_usable (srv (ch_be t) ! k)"
  shows "ring_step t k (entries (srv (ch_be t) ! k) (nodes_tot t k)) (chash_queue_dequeue_srv k t)"
  using queue_dequeue_ok [OF assms(1-3)] assms(4) by (simp add: ring_step_def same_servers_def entries_def)

lemma ring_step_base: "ring_step (on_ch f t) k e t' \<Longrightarrow> ring_step t k e t'"
  by (simp add: ring_step_def)

lemma down_ring:
  assumes ok: "ring_ok t" and k: "k < length (srv (ch_be t))"
    and keep: "nodes_now t k = entries (srv (ch_be t) ! k) (nodes_tot t k)
      \<or> srv_lb_status_changed (srv (ch_be t) ! k) \<and> \<not> srv_is_usable (srv (ch_be t) ! k) \<and> srv_was_usable (srv (ch_be t) ! k)"
  shows "ring_step t k (entries (srv (ch_be t) ! k) (nodes_tot t k)) (chash_set_server_status_down k t)"
proof -
  let ?e = "entries (srv (ch_be t) ! k) (nodes_tot t k)"
  have l: "ring_ok (on_ch (lose_server k) t)" using ok by (simp add: ring_on_ch)
  have q: "ring_step t k 0 (chash_dequeue_srv k (on_ch (lose_server k) t))"
    by (rule ring_step_base [OF ring_step_dequeue [OF l]]) (simp add: k)
  show ?thesis
    using keep ring_step_id [OF ok, of k ?e] ring_step_on_ch [OF q] ring_step_on_ch [of t k ?e t]
    by (auto simp: chash_set_server_status_down_def Let_def entries_def)
qed

lemma up_ring:
  assumes ok: "ring_ok t" and k: "k < length (srv (ch_be t))" and w: "0 \<le> eweight (srv (ch_be t) ! k)"
    and keep: "nodes_now t k = entries (srv (ch_be t) ! k) (nodes_tot t k)
      \<or> srv_lb_status_changed (srv (ch_be t) ! k) \<and> srv_is_usable (srv (ch_be t) ! k) \<and> \<not> srv_was_usable (srv (ch_be t) ! k)"
  shows "ring_step t k (entries (srv (ch_be t) ! k) (nodes_tot t k)) (chash_set_server_status_up k t)"
proof -
  let ?s = "srv (ch_be t) ! k" let ?e = "entries ?s (nodes_tot t k)" let ?t = "on_ch (gain_server k) t"
  have l: "ring_ok ?t" using ok by (simp add: ring_on_ch)
  have q: "ring_step t k ?e (chash_queue_dequeue_srv k ?t)" if "srv_is_usable ?s"
    using ring_step_base [OF ring_step_queue [OF l, of k]] that k w by simp
  show ?thesis
    using keep ring_step_id [OF ok, of k ?e] ring_step_on_ch [OF q] ring_step_on_ch [of t k ?e t]
    by (auto simp: chash_set_server_status_up_def Let_def)
qed

lemma weight_ring:
  assumes ok: "ring_ok t" and k: "k < length (srv (ch_be t))" and w: "0 \<le> eweight (srv (ch_be t) ! k)"
    and keep: "\<not> (srv_was_usable (srv (ch_be t) ! k) \<and> eweight (srv (ch_be t) ! k) \<noteq> prev_eweight (srv (ch_be t) ! k)) \<and>
        srv_was_usable (srv (ch_be t) ! k) = srv_is_usable (srv (ch_be t) ! k)
      \<longrightarrow> nodes_now t k = entries (srv (ch_be t) ! k) (nodes_tot t k)"
  shows "ring_step t k (entries (srv (ch_be t) ! k) (nodes_tot t k)) (chash_update_server_weight k t)"
proof -
  let ?s = "srv (ch_be t) ! k" let ?e = "entries ?s (nodes_tot t k)"
  have q: "ring_step t k ?e (chash_queue_dequeue_srv k t)" if "srv_is_usable ?s"
    using ring_step_queue [OF ok k w that] .
  show ?thesis
    using keep same_status [of ?s] ring_step_id [OF ok, of k ?e] down_ring [OF ok k] up_ring [OF ok k w]
      ring_step_on_ch [OF q, of "reweigh_server k"] ring_step_on_ch [of t k ?e t] ring_step_on_ch [of t k ?e "on_ch (reweigh_server k) (chash_queue_dequeue_srv k t)"]
    by (auto simp: chash_update_server_weight_def Let_def)
qed

text \<open>One server of a consistent state becomes \<open>s\<close> and its change is reported.\<close>

lemma put_facts:
  assumes "chash_ok t" "px_change (ch_be t) k s"
  shows "ring_ok (on_ch (put_srv k s) t)" "k < length (srv (ch_be t))" "srv (ch_be (on_ch (put_srv k s) t)) ! k = s"
    "nodes_now t k = entries (srv (ch_be t) ! k) (nodes_tot t k)" "0 \<le> eweight s" "succeeds (srv (ch_be t) ! k) s"
  using assms groups_put [of s "ch_be t" k] ring_on_ch [of t "put_srv k s"]
  by (simp_all add: chash_ok_def px_change_def succeeds_def)

lemma entries_same:
  "srv_is_usable s = srv_is_usable s' \<Longrightarrow> srv_is_usable s' \<longrightarrow> eweight s = eweight s' \<Longrightarrow> entries s m = entries s' m"
  by (simp add: entries_def)

lemma step_ok:
  assumes ok: "chash_ok t" and c: "px_change (ch_be t) k s"
    and r: "ring_step (on_ch (put_srv k s) t) k (entries s (nodes_tot t k)) t'" and b: "backend_ok (ch_be t')"
    and s: "\<exists>s'. (s' = s \<or> s' = srv_lb_commit_status s) \<and> srv (ch_be t') = (srv (put_srv k s (ch_be t)))[k := s']"
  shows "chash_ok t'"
proof -
  note f = put_facts [OF ok c]
  obtain s' where s': "s' = s \<or> s' = srv_lb_commit_status s" "srv (ch_be t') = (srv (ch_be t))[k := s']" using s by auto
  have "entries s' m = entries s m" for m using s'(1) by auto
  then show ?thesis using r b s'(2) by (intro chash_okI [OF ok f(2), of t' s']) (simp_all add: ring_step_def)
qed

lemma status_cases: "srv_lb_status_changed s \<or> srv_is_usable s = srv_was_usable s"
  using same_status by blast

lemma down_step:
  assumes ok: "chash_ok t" and c: "px_change (ch_be t) k s"
    and d: "srv_is_usable s \<longrightarrow> srv_is_usable (srv (ch_be t) ! k) \<and> eweight s = eweight (srv (ch_be t) ! k)"
  shows "ring_step (on_ch (put_srv k s) t) k (entries s (nodes_tot t k)) (chash_set_server_status_down k (on_ch (put_srv k s) t))"
proof -
  note f = put_facts [OF ok c]
  have "nodes_now t k = entries s (nodes_tot t k) \<or> srv_lb_status_changed s \<and> \<not> srv_is_usable s \<and> srv_was_usable s"
    using d f(4,6) entries_same [of s "srv (ch_be t) ! k"] status_cases [of s] unfolding succeeds_def by metis
  then show ?thesis
    using down_ring [OF f(1), of k] f(2,3) by simp
qed

lemma chash_down_ok:
  assumes ok: "chash_ok t" and c: "px_change (ch_be t) k s"
    and d: "srv_is_usable s \<longrightarrow> srv_is_usable (srv (ch_be t) ! k) \<and> eweight s = eweight (srv (ch_be t) ! k)"
  shows "chash_ok (chash_set_server_status_down k (on_ch (put_srv k s) t))"
  using px_srv(1) [of k "put_srv k s (ch_be t)"] down_step [OF ok c d] px_status_down_ok [OF c d] put_facts(2) [OF ok c]
  by (intro step_ok [OF ok c]) (simp_all add: status_be)

lemma up_step:
  assumes ok: "chash_ok t" and c: "px_change (ch_be t) k s"
    and d: "srv_is_usable (srv (ch_be t) ! k) \<longrightarrow> srv_is_usable s \<and> eweight s = eweight (srv (ch_be t) ! k)"
  shows "ring_step (on_ch (put_srv k s) t) k (entries s (nodes_tot t k)) (chash_set_server_status_up k (on_ch (put_srv k s) t))"
proof -
  note f = put_facts [OF ok c]
  have "nodes_now t k = entries s (nodes_tot t k) \<or> srv_lb_status_changed s \<and> srv_is_usable s \<and> \<not> srv_was_usable s"
    using d f(4,6) entries_same [of s "srv (ch_be t) ! k"] status_cases [of s] unfolding succeeds_def by metis
  then show ?thesis
    using up_ring [OF f(1), of k] f(2,3,5) by simp
qed

lemma chash_up_ok:
  assumes ok: "chash_ok t" and c: "px_change (ch_be t) k s"
    and d: "srv_is_usable (srv (ch_be t) ! k) \<longrightarrow> srv_is_usable s \<and> eweight s = eweight (srv (ch_be t) ! k)"
  shows "chash_ok (chash_set_server_status_up k (on_ch (put_srv k s) t))"
  using px_srv(2) [of k "put_srv k s (ch_be t)"] up_step [OF ok c d] px_status_up_ok [OF c d] put_facts(2) [OF ok c]
  by (intro step_ok [OF ok c]) (simp_all add: status_be)

lemma weight_step:
  assumes ok: "chash_ok t" and c: "px_change (ch_be t) k s"
  shows "ring_step (on_ch (put_srv k s) t) k (entries s (nodes_tot t k)) (chash_update_server_weight k (on_ch (put_srv k s) t))"
proof -
  note f = put_facts [OF ok c]
  have "\<not> (srv_was_usable s \<and> eweight s \<noteq> prev_eweight s) \<and> srv_was_usable s = srv_is_usable s
      \<longrightarrow> nodes_now t k = entries s (nodes_tot t k)"
    using f(4,6) entries_same [of s "srv (ch_be t) ! k"] by (auto simp: succeeds_def)
  then show ?thesis
    using weight_ring [OF f(1), of k] f(2,3,5) by simp
qed

lemma chash_weight_ok:
  assumes ok: "chash_ok t" and c: "px_change (ch_be t) k s"
  shows "chash_ok (chash_update_server_weight k (on_ch (put_srv k s) t))"
  using px_srv(3) [of k "put_srv k s (ch_be t)"] weight_step [OF ok c] px_update_weight_ok [OF c] put_facts(2) [OF ok c]
  by (intro step_ok [OF ok c]) (simp_all add: status_be)

subsection \<open>Reachable states\<close>

definition keys_hashed :: "chash \<Rightarrow> bool" where
  "keys_hashed t \<longleftrightarrow> (\<forall>x. node_srv x < length (srv (ch_be t)) \<longrightarrow>
     node_key t x = full_hash (ch_puid t (node_srv x) * 4096 + of_nat (x mod 4096)))"

definition chash_pristine :: "chash \<Rightarrow> bool" where
  "chash_pristine t \<longleftrightarrow> 0 < wmult (ch_be t) \<and> (\<forall>s \<in> set (srv (ch_be t)). 0 \<le> uweight s \<and> uweight s \<le> 256)
    \<and> nodes_tot t = (\<lambda>k. 0) \<and> nodes_now t = (\<lambda>k. 0)"

inductive chash_reachable :: "chash \<Rightarrow> bool" where
  init: "chash_pristine t \<Longrightarrow> chash_reachable (chash_init_server_tree t)"
| down: "chash_reachable t \<Longrightarrow> k < length (srv (ch_be t)) \<Longrightarrow> s = set_status st adm (eweight (srv (ch_be t) ! k)) (srv (ch_be t) ! k) \<Longrightarrow>
    srv_is_usable s \<longrightarrow> srv_is_usable (srv (ch_be t) ! k) \<Longrightarrow>
    chash_reachable (chash_set_server_status_down k (on_ch (put_srv k s) t))"
| up: "chash_reachable t \<Longrightarrow> k < length (srv (ch_be t)) \<Longrightarrow> s = set_status st adm (eweight (srv (ch_be t) ! k)) (srv (ch_be t) ! k) \<Longrightarrow>
    srv_is_usable (srv (ch_be t) ! k) \<longrightarrow> srv_is_usable s \<Longrightarrow>
    chash_reachable (chash_set_server_status_up k (on_ch (put_srv k s) t))"
| weight: "chash_reachable t \<Longrightarrow> k < length (srv (ch_be t)) \<Longrightarrow> s = set_status st adm w (srv (ch_be t) ! k) \<Longrightarrow> 0 \<le> w \<Longrightarrow>
    chash_reachable (chash_update_server_weight k (on_ch (put_srv k s) t))"
| load: "chash_reachable t \<Longrightarrow> k < length (srv (ch_be t)) \<Longrightarrow>
    chash_reachable (on_ch (put_srv k (set_load n p (srv (ch_be t) ! k))) t)"
| conns: "chash_reachable t \<Longrightarrow> chash_reachable (on_ch (\<lambda>px. px\<lparr>beconn := b\<rparr>) t)"
| next_server: "chash_reachable t \<Longrightarrow> chash_get_next_server n now t avoid = Some (r, t') \<Longrightarrow> chash_reachable t'"

lemma init_nodes_ok:
  assumes ok: "ring_ok t" and k: "k < length (srv (ch_be t))" and z: "nodes_now t k = 0"
    and u: "uweight (srv (ch_be t) ! k) \<le> 256"
  shows "ring_ok (init_nodes k t)" "nodes_now (init_nodes k t) = nodes_now t" "ch_be (init_nodes k t) = ch_be t"
proof -
  note d = ring_okD [OF ok]
  show n: "nodes_now (init_nodes k t) = nodes_now t" and b: "ch_be (init_nodes k t) = ch_be t"
    using z by (simp_all add: init_nodes_def fun_upd_idem)
  note h = holds_cong [OF b n]
  have out: "node_srv x \<noteq> k" if "x \<in> ch_holds t g" for x g using that z by (auto simp: ch_holds_def)
  have "nat (uweight (srv (ch_be t) ! k) * 16) \<le> 4096" using u by simp
  moreover have "eb_root_ok (node_key (init_nodes k t)) (ch_act t)" "eb_root_ok (node_key (init_nodes k t)) (ch_bck t)"
    using root_ok_cong [OF d(1)] root_ok_cong [OF d(2)] d(3,4) out by (simp_all add: init_nodes_def)
  ultimately show "ring_ok (init_nodes k t)"
    using d(3-7) z unfolding ring_ok_def h b n by (auto simp: init_nodes_def)
qed

lemma init_loop_ok:
  assumes "ring_ok t" "distinct ks" "\<forall>k \<in> set ks. k < length (srv (ch_be t)) \<and> nodes_now t k = 0"
    "\<forall>s \<in> set (srv (ch_be t)). uweight s \<le> 256 \<and> 0 \<le> eweight s"
    "\<forall>k < length (srv (ch_be t)). k \<notin> set ks \<longrightarrow> nodes_now t k = entries (srv (ch_be t) ! k) (nodes_tot t k)
      \<and> (\<forall>x. node_srv x = k \<longrightarrow> node_key t x = full_hash (ch_puid t k * 4096 + of_nat (x mod 4096)))"
  shows "ring_ok (chash_init_loop ks t) \<and> ch_be (chash_init_loop ks t) = ch_be t \<and> keys_hashed (chash_init_loop ks t)
    \<and> (\<forall>k < length (srv (ch_be t)). nodes_now (chash_init_loop ks t) k = entries (srv (ch_be t) ! k) (nodes_tot (chash_init_loop ks t) k))"
  using assms
proof (induction ks arbitrary: t)
  case Nil
  then show ?case by (simp add: keys_hashed_def)
next
  case (Cons k ks)
  let ?s = "srv (ch_be t) ! k" let ?t = "init_nodes k t"
  have k: "k < length (srv (ch_be t))" and z: "nodes_now t k = 0" using Cons.prems(3) by simp_all
  have w: "0 \<le> eweight ?s" "uweight ?s \<le> 256" using Cons.prems(4) k by simp_all
  note i = init_nodes_ok [OF Cons.prems(1) k z w(2)]
  define u where "u = (if srv_is_usable ?s then chash_queue_dequeue_srv k ?t else ?t)"
  have "ring_step ?t k (entries ?s (nodes_tot ?t k)) u"
    using ring_step_queue [OF i(1), of k] ring_step_id [OF i(1), of k] k w(1) z by (auto simp: u_def i entries_def)
  note r = this [unfolded ring_step_def i]
  have b: "ch_be u = ch_be t" by (simp add: u_def i)
  have f: "nodes_tot ?t j = nodes_tot t j" "ch_puid ?t = ch_puid t" "node_srv x \<noteq> k \<Longrightarrow> node_key ?t x = node_key t x"
    "node_srv x = k \<Longrightarrow> node_key ?t x = full_hash (ch_puid t k * 4096 + of_nat (x mod 4096))" if "j \<noteq> k" for j x
    using that by (simp_all add: init_nodes_def)
  have e: "chash_init_loop (k # ks) t = chash_init_loop ks u" by (simp add: u_def i Let_def)
  have "ring_ok (chash_init_loop ks u) \<and> ch_be (chash_init_loop ks u) = ch_be u \<and> keys_hashed (chash_init_loop ks u)
    \<and> (\<forall>k < length (srv (ch_be u)). nodes_now (chash_init_loop ks u) k = entries (srv (ch_be u) ! k) (nodes_tot (chash_init_loop ks u) k))"
  proof (rule Cons.IH)
    show "\<forall>j < length (srv (ch_be u)). j \<notin> set ks \<longrightarrow> nodes_now u j = entries (srv (ch_be u) ! j) (nodes_tot u j)
      \<and> (\<forall>x. node_srv x = j \<longrightarrow> node_key u x = full_hash (ch_puid u j * 4096 + of_nat (x mod 4096)))"
    proof (intro allI impI)
      fix j assume j: "j < length (srv (ch_be u))" "j \<notin> set ks"
      show "nodes_now u j = entries (srv (ch_be u) ! j) (nodes_tot u j)
        \<and> (\<forall>x. node_srv x = j \<longrightarrow> node_key u x = full_hash (ch_puid u j * 4096 + of_nat (x mod 4096)))"
      proof (cases "j = k")
        case True
        then show ?thesis using r by (simp add: b init_nodes_def)
      next
        case False
        then show ?thesis using r j Cons.prems(5) f [of j] by (auto simp: b)
      qed
    qed
  qed (use Cons.prems r in \<open>auto simp: b\<close>)
  then show ?case unfolding e b .
qed

lemma chash_init_ok:
  assumes "chash_pristine t"
  shows "chash_ok (chash_init_server_tree t)" "keys_hashed (chash_init_server_tree t)"
proof -
  let ?px = "(ch_be t)\<lparr>wdiv := BE_WEIGHT_SCALE, srv := map (initial_weight (wmult (ch_be t)) BE_WEIGHT_SCALE) (srv (ch_be t))\<rparr>"
  let ?qx = "update_backend_weight (recount_servers ?px)"
  define u where "u = t\<lparr>ch_be := ?qx, ch_act := None, ch_bck := None, ch_last := None\<rparr>"
  have e: "chash_init_server_tree t = chash_init_loop [0..<length (srv ?qx)] u" by (simp add: chash_init_server_tree_def Let_def u_def)
  have p: "0 < wmult (ch_be t)" "\<And>s. s \<in> set (srv (ch_be t)) \<Longrightarrow> 0 \<le> uweight s \<and> uweight s \<le> 256"
    "nodes_tot u = (\<lambda>k. 0)" "nodes_now u = (\<lambda>k. 0)"
    using assms by (simp_all add: chash_pristine_def u_def)
  have "0 \<le> (uweight s * 16 + wmult (ch_be t) - 1) div wmult (ch_be t)" if "s \<in> set (srv (ch_be t))" for s
    using p(1) p(2) [OF that] by (simp add: pos_imp_zdiv_nonneg_iff)
  then have i: "\<forall>s \<in> set (srv ?px). settled s" "counted ?qx"
    by (auto simp: initial_weight_def counted_iff counts_ok_def recount_servers_counts)
  have u: "ch_be u = ?qx" "srv ?qx = srv ?px" by (simp_all add: u_def recount_servers_counts)
  have "ring_ok u" using p(3,4) by (simp add: ring_ok_def u_def eb_root_ok_def eb_contents_def ch_holds_def)
  moreover have "\<forall>s \<in> set (srv ?px). uweight s \<le> 256 \<and> 0 \<le> eweight s"
    using p i(1) by (auto simp: settled_def initial_weight_def srv_lb_commit_status_def)
  ultimately have "ring_ok (chash_init_loop [0..<length (srv ?qx)] u) \<and> ch_be (chash_init_loop [0..<length (srv ?qx)] u) = ch_be u
    \<and> keys_hashed (chash_init_loop [0..<length (srv ?qx)] u)
    \<and> (\<forall>k < length (srv (ch_be u)). nodes_now (chash_init_loop [0..<length (srv ?qx)] u) k
        = entries (srv (ch_be u) ! k) (nodes_tot (chash_init_loop [0..<length (srv ?qx)] u) k))"
    using p(4) by (intro init_loop_ok) (simp_all add: u recount_servers_counts)
  then show "chash_ok (chash_init_server_tree t)" "keys_hashed (chash_init_server_tree t)"
    unfolding e using i by (simp_all add: chash_ok_def backend_ok_def u recount_servers_counts)
qed

lemma node_after_mem:
  assumes "ring_ok t" "node_after g t node = Some y" "\<forall>x. node = Some x \<longrightarrow> x \<in> ch_holds t Act \<union> ch_holds t Bck"
  shows "y \<in> ch_holds t Act \<union> ch_holds t Bck"
proof (cases "Option.bind node (ch_next t)")
  case None
  then have "y \<in> ch_holds t g" using assms(2) eb_first_mem [of "ch_root g t" y] ring_okD(9) [OF assms(1), of g]
    by (simp add: node_after_def)
  then show ?thesis by (cases g) simp_all
next
  case (Some z)
  note d = ring_okD [OF assms(1)]
  obtain x where x: "node = Some x" "ch_next t x = Some y" using Some assms(2) by (auto simp: node_after_def bind_eq_Some_conv)
  then have "x \<in> ch_holds t Act \<union> ch_holds t Bck" using assms(3) by simp
  then show ?thesis using x(2) eb_next_mem [OF d(1), of x y] eb_next_mem [OF d(2), of x y]
    by (auto simp: ch_next_def d(3,4) split: if_splits)
qed

lemma walk_none: "node_after g t node = None \<Longrightarrow> chash_walk (Suc n) now t avoid g node stop avoided = Some (None, None)"
  by simp

lemma walk_some:
  assumes "node_after g t node = Some y" "stop' = (case stop of None \<Rightarrow> Some y | Some z \<Rightarrow> Some z)"
    "avoided' = (if has_slot now (ch_be t) (node_srv y) then Some y else avoided)"
  shows "chash_walk (Suc n) now t avoid g node stop avoided =
      (if has_slot now (ch_be t) (node_srv y) \<and> Some (node_srv y) \<noteq> avoid then Some (Some (node_srv y), Some y)
       else if Some y \<noteq> stop' then chash_walk n now t avoid g (Some y) stop' avoided'
       else Some (map_option node_srv avoided', avoided'))"
  using assms by (simp add: Let_def)

lemmas [simp del] = chash_walk.simps(2)

lemma walk_last:
  assumes "ring_ok t"
  shows "chash_walk n now t avoid g node stop avoided = Some (r, Some x) \<Longrightarrow>
    (\<forall>y. node = Some y \<or> avoided = Some y \<longrightarrow> y \<in> ch_holds t Act \<union> ch_holds t Bck) \<Longrightarrow> x \<in> ch_holds t Act \<union> ch_holds t Bck"
proof (induction n arbitrary: node stop avoided)
  case (Suc n)
  show ?case
  proof (cases "node_after g t node")
    case None
    then show ?thesis using Suc.prems(1) by (simp add: walk_none)
  next
    case (Some y)
    define stop' where "stop' = (case stop of None \<Rightarrow> Some y | Some z \<Rightarrow> Some z)"
    define avoided' where "avoided' = (if has_slot now (ch_be t) (node_srv y) then Some y else avoided)"
    have y: "y \<in> ch_holds t Act \<union> ch_holds t Bck" using node_after_mem [OF assms Some] Suc.prems(2) by simp
    have a: "z \<in> ch_holds t Act \<union> ch_holds t Bck" if "avoided' = Some z" for z
      using that y Suc.prems(2) by (auto simp: avoided'_def split: if_splits)
    show ?thesis using Suc.prems(1) y a Suc.IH [of "Some y" stop' avoided']
      unfolding walk_some [OF Some stop'_def avoided'_def] by (auto split: if_splits)
  qed
qed simp

lemma next_server_ok:
  assumes "chash_ok t" "chash_get_next_server n now t avoid = Some (r, t')"
  shows "chash_ok t' \<and> ch_be t' = ch_be t \<and> node_key t' = node_key t \<and> ch_puid t' = ch_puid t"
proof -
  have ok: "ring_ok t" using assms(1) by (simp add: chash_ok_def)
  have l: "chash_ok (t\<lparr>ch_last := l\<rparr>)" if "\<And>x. l = Some x \<Longrightarrow> x \<in> ch_holds t Act \<union> ch_holds t Bck" for l
  proof -
    have h: "ch_holds (t\<lparr>ch_last := l\<rparr>) g = ch_holds t g" for g by (rule holds_cong) simp_all
    show ?thesis using assms(1) that unfolding chash_ok_def ring_ok_def h by simp
  qed
  have w: "x \<in> ch_holds t Act \<union> ch_holds t Bck"
    if "chash_walk n now t avoid g (ch_last t) (ch_last t) None = Some (r, Some x)" for g x
    using walk_last [OF ok that] ring_okD(7) [OF ok] by auto
  have "chash_ok (t\<lparr>ch_last := b\<rparr>)" if "chash_walk n now t avoid g (ch_last t) (ch_last t) None = Some (r, b)" for g b
    using l [of b] w that by blast
  then show ?thesis using assms by (auto simp: chash_get_next_server_def split: ch_choice.splits)
qed

lemma put_status: "chash_ok t \<Longrightarrow> k < length (srv (ch_be t)) \<Longrightarrow> 0 \<le> w \<Longrightarrow> px_change (ch_be t) k (set_status st adm w (srv (ch_be t) ! k))"
  by (simp add: chash_ok_def backend_status)

lemma ok_settled: "chash_ok t \<Longrightarrow> k < length (srv (ch_be t)) \<Longrightarrow> settled (srv (ch_be t) ! k)"
  by (simp add: chash_ok_def backend_ok_def)

lemma load_ok:
  assumes ok: "chash_ok t" and k: "k < length (srv (ch_be t))"
  shows "chash_ok (on_ch (put_srv k (set_load n p (srv (ch_be t) ! k))) t)"
proof -
  let ?s = "set_load n p (srv (ch_be t) ! k)" let ?t = "on_ch (put_srv k ?s) t"
  have b: "backend_ok (ch_be t)" and r: "ring_ok t" and e: "nodes_now t k = entries (srv (ch_be t) ! k) (nodes_tot t k)"
    using ok k by (simp_all add: chash_ok_def)
  have "ring_ok ?t" using ring_on_ch [of t "put_srv k ?s"] groups_put [of ?s "ch_be t" k] r by simp
  moreover have "backend_ok (put_srv k ?s (ch_be t))" by (rule backend_load [OF b k])
  ultimately show ?thesis using k e by (intro chash_okI [OF ok k, of ?t ?s]) (simp_all add: entries_def fun_upd_idem)
qed

lemma status_keys:
  "node_key (chash_set_server_status_down k t) = node_key t" "ch_puid (chash_set_server_status_down k t) = ch_puid t"
  "node_key (chash_set_server_status_up k t) = node_key t" "ch_puid (chash_set_server_status_up k t) = ch_puid t"
  "node_key (chash_update_server_weight k t) = node_key t" "ch_puid (chash_update_server_weight k t) = ch_puid t"
  by (simp_all add: chash_set_server_status_down_def chash_set_server_status_up_def chash_update_server_weight_def Let_def)

lemma status_length:
  assumes "k < length (srv (ch_be t))"
  shows "length (srv (ch_be (chash_set_server_status_down k t))) = length (srv (ch_be t))"
    "length (srv (ch_be (chash_set_server_status_up k t))) = length (srv (ch_be t))"
    "length (srv (ch_be (chash_update_server_weight k t))) = length (srv (ch_be t))"
  using px_srv [of k "ch_be t"] assms by (auto simp: status_be)

lemma status_hashed:
  assumes "keys_hashed t" "k < length (srv (ch_be t))"
  shows "keys_hashed (chash_set_server_status_down k (on_ch (put_srv k s) t))"
    "keys_hashed (chash_set_server_status_up k (on_ch (put_srv k s) t))"
    "keys_hashed (chash_update_server_weight k (on_ch (put_srv k s) t))"
  using assms status_length [of k "on_ch (put_srv k s) t"] by (simp_all add: keys_hashed_def status_keys)

lemma chash_reachable_ok: "chash_reachable t \<Longrightarrow> chash_ok t \<and> keys_hashed t"
proof (induction rule: chash_reachable.induct)
  case (init t)
  then show ?case using chash_init_ok by blast
next
  case (down t k s st adm)
  then have c: "px_change (ch_be t) k s" using put_status [of t k] ok_settled [of t k] by (simp add: settled_def)
  show ?case using chash_down_ok [OF _ c] status_hashed(1) [of t k s] down by (simp add: served_status)
next
  case (up t k s st adm)
  then have c: "px_change (ch_be t) k s" using put_status [of t k] ok_settled [of t k] by (simp add: settled_def)
  show ?case using chash_up_ok [OF _ c] status_hashed(2) [of t k s] up by (simp add: served_status)
next
  case (weight t k s st adm w)
  then have c: "px_change (ch_be t) k s" using put_status [of t k] by simp
  show ?case using chash_weight_ok [OF _ c] status_hashed(3) [of t k s] weight by simp
next
  case (load t k n p)
  then show ?case using load_ok [of t k n p] by (simp add: keys_hashed_def)
next
  case (conns t b)
  then show ?case
    using beconn_ok [of "ch_be t" b] ring_on_ch [of t "\<lambda>px. px\<lparr>beconn := b\<rparr>"]
    by (simp add: chash_ok_def keys_hashed_def same_groups_def)
next
  case (next_server t n now avoid r t')
  then show ?case using next_server_ok [of t n now avoid r t'] by (simp add: keys_hashed_def)
qed

end
