(* ===== verification/HA_LB_Chash_Ring.thy ===== *)
theory HA_LB_Chash_Ring
  imports HA_LB_Chash_Proofs
begin

section \<open>The ring of servers: hashing\<close>

text \<open>
  What consistent hashing promises: a key goes to the closest node of the ring, and a change of one
  server moves only the keys from it or to it.
\<close>

subsection \<open>The nodes on the ring\<close>

definition node_hash :: "chash \<Rightarrow> nat \<Rightarrow> nat \<Rightarrow> u32" where
  "node_hash t k j = full_hash (ch_puid t k * 4096 + of_nat j)"

definition ring_node :: "chash \<Rightarrow> lb_group \<Rightarrow> nat \<Rightarrow> nat \<Rightarrow> bool" where
  "ring_node t g k j \<longleftrightarrow> k < length (srv (ch_be t)) \<and> srv_is_usable (srv (ch_be t) ! k) \<and> group_of (srv (ch_be t) ! k) = g
    \<and> j < min (nat (eweight (srv (ch_be t) ! k))) (nodes_tot t k)"

lemma chash_okD:
  assumes "chash_ok t"
  shows "ring_ok t" "backend_ok (ch_be t)" "counts_ok (ch_be t)"
    "k < length (srv (ch_be t)) \<Longrightarrow> nodes_now t k = entries (srv (ch_be t) ! k) (nodes_tot t k)"
  using assms by (auto simp: chash_ok_def backend_ok_def counted_iff)

lemma ring_node_bound: "chash_ok t \<Longrightarrow> ring_node t g k j \<Longrightarrow> j < 4096"
  using ring_okD(6) [of t k] by (simp add: chash_ok_def ring_node_def)

lemma holds_ring: "chash_ok t \<Longrightarrow> x \<in> ch_holds t g \<longleftrightarrow> ring_node t g (node_srv x) (x mod 4096)"
  by (auto simp: ch_holds_def ring_node_def ch_group_def chash_ok_def entries_def split: if_splits)

lemma ring_set: "chash_ok t \<Longrightarrow> set (eb_contents (ch_root g t)) = {x. ring_node t g (node_srv x) (x mod 4096)}"
  using ring_okD(9) [of t g] holds_ring [of t _ g] by (auto simp: chash_ok_def)

lemma ring_id_mem: "chash_ok t \<Longrightarrow> ring_node t g k j \<Longrightarrow> node_id k j \<in> set (eb_contents (ch_root g t))"
  using ring_node_bound [of t g k j] by (simp add: ring_set)

lemma ring_key: "keys_hashed t \<Longrightarrow> node_srv x < length (srv (ch_be t)) \<Longrightarrow> node_key t x = node_hash t (node_srv x) (x mod 4096)"
  by (simp add: keys_hashed_def node_hash_def)

lemma contents_by_hash:
  assumes "chash_reachable t"
  shows "sorted (map (\<lambda>x. node_hash t (node_srv x) (x mod 4096)) (eb_contents (ch_root g t))) \<and> distinct (eb_contents (ch_root g t))"
proof -
  have ok: "chash_ok t" and h: "keys_hashed t" using chash_reachable_ok [OF assms] by simp_all
  have "map (\<lambda>x. node_hash t (node_srv x) (x mod 4096)) (eb_contents (ch_root g t)) = map (node_key t) (eb_contents (ch_root g t))"
    using ring_set [OF ok, of g] ring_key [OF h] by (auto simp: ring_node_def)
  note m = this
  show ?thesis unfolding m by (rule contents_sorted [OF ring_okD(8) [OF chash_okD(1) [OF ok]]])
qed

text \<open>C17: the ring.  After any sequence of status changes, weight changes, connections and choices, the
  counters of the backend are those of a recount, and the trees hold, under the hashes of their
  identifiers, exactly the first nodes of each usable server, as many as its weight and at most as
  many as it has.\<close>

theorem chash_ring_invariant:
  assumes "chash_reachable t"
  shows "update_backend_weight (recount_servers (ch_be t)) = ch_be t
    \<and> set (eb_contents (ch_root g t)) = {x. ring_node t g (node_srv x) (x mod 4096)}
    \<and> sorted (map (\<lambda>x. node_hash t (node_srv x) (x mod 4096)) (eb_contents (ch_root g t)))
    \<and> distinct (eb_contents (ch_root g t))"
proof -
  have ok: "chash_ok t" using chash_reachable_ok [OF assms] by simp
  then have "update_backend_weight (recount_servers (ch_be t)) = ch_be t" by (simp add: chash_ok_def backend_ok_def counted_def)
  then show ?thesis using ring_set [OF ok] contents_by_hash [OF assms] by blast
qed

subsection \<open>From a key around the ring\<close>

text \<open>The nodes in the order in which they come after the hash \<open>h\<close>, and the choice between the next and the previous one.\<close>

definition ring_from :: "(nat \<Rightarrow> u32) \<Rightarrow> u32 \<Rightarrow> nat list \<Rightarrow> nat list" where
  "ring_from key h xs = filter (\<lambda>x. h \<le> key x) xs @ filter (\<lambda>x. key x < h) xs"

definition pick :: "(nat \<Rightarrow> u32) \<Rightarrow> u32 \<Rightarrow> nat list \<Rightarrow> nat option" where
  "pick key h rs = (if rs = [] then None
    else let nx = hd rs; pv = last rs
         in Some (if node_srv nx = node_srv pv then node_srv nx
                  else if h - key pv \<le> key nx - h then node_srv pv else node_srv nx))"

lemma sorted_cut:
  assumes "sorted (map key xs)"
  shows "xs = filter (\<lambda>x. key x < h) xs @ filter (\<lambda>x. h \<le> key x) xs"
  using assms
proof (induction xs)
  case (Cons x xs)
  then have IH: "xs = filter (\<lambda>x. key x < h) xs @ filter (\<lambda>x. h \<le> key x) xs" by simp
  show ?case
  proof (cases "key x < h")
    case True
    then show ?thesis using IH by (simp add: not_le)
  next
    case False
    then have "h \<le> key y" if "y \<in> set xs" for y using Cons.prems that by force
    then have "filter (\<lambda>x. key x < h) xs = []" "filter (\<lambda>x. h \<le> key x) xs = xs" by (auto simp: filter_empty_conv not_less)
    then show ?thesis using False by simp
  qed
qed simp

lemma closest_pick:
  assumes "eb_root_ok key tr"
  shows "chash_closest key tr h = pick key h (ring_from key h (eb_contents tr))"
proof -
  define xs where "xs = eb_contents tr"
  define as where "as = filter (\<lambda>x. key x < h) xs"
  define bs where "bs = filter (\<lambda>x. h \<le> key x) xs"
  have xs: "xs = as @ bs" using sorted_cut [of key xs h] contents_sorted [OF assms] by (simp add: xs_def as_def bs_def)
  have ge: "eb32_lookup_ge key tr h = find (\<lambda>i. h \<le> key i) xs" using ge_contents [OF assms] by (simp add: xs_def)
  have below: "find (\<lambda>i. h \<le> key i) as = None" by (auto simp: find_None_iff as_def)
  have rs: "ring_from key h (eb_contents tr) = bs @ as" by (simp add: ring_from_def as_def bs_def xs_def)
  have "chash_closest key tr h = pick key h (bs @ as)"
  proof (cases bs)
    case Nil
    have g: "eb32_lookup_ge key tr h = None" using ge xs Nil below by simp
    show ?thesis
    proof (cases as)
      case Nil
      then show ?thesis using \<open>bs = []\<close> xs g by (simp add: chash_closest_def pick_def first_contents xs_def)
    next
      case (Cons a as')
      then have c: "eb_contents tr = [] @ a # as'" using xs \<open>bs = []\<close> by (simp add: xs_def)
      then show ?thesis using g prev_contents [OF assms c] \<open>bs = []\<close> Cons
        by (simp add: chash_closest_def pick_def first_contents last_contents Let_def)
    qed
  next
    case (Cons b bs')
    then have "b \<in> set bs" by simp
    then have "h \<le> key b" by (simp add: bs_def)
    then have g: "eb32_lookup_ge key tr h = Some b" using ge xs Cons below by (simp add: find_append)
    have c: "eb_contents tr = as @ b # bs'" using xs Cons by (simp add: xs_def)
    show ?thesis using g prev_contents [OF assms c] Cons c
      by (cases "as = []") (simp_all add: chash_closest_def pick_def last_contents Let_def)
  qed
  then show ?thesis unfolding rs .
qed

text \<open>Distances forward from the hash grow along this list.\<close>

lemma ring_sorted:
  assumes "sorted (map key xs)"
  shows "sorted (map (\<lambda>x. key x - h) (ring_from key h xs))"
proof -
  have up: "sorted (map (\<lambda>x. key x - h) (filter P xs))"
    if m: "\<And>x y. P x \<Longrightarrow> P y \<Longrightarrow> key x \<le> key y \<Longrightarrow> key x - h \<le> key y - h" for P
    using assms
  proof (induction xs)
    case (Cons x xs)
    then show ?case using m by auto
  qed simp
  have a: "key x - h \<le> key y - h" if "h \<le> key x" "h \<le> key y" "key x \<le> key y" for x y
    using that by (simp add: word_le_def uint_sub_if')
  have b: "key x - h \<le> key y - h" if "key x < h" "key y < h" "key x \<le> key y" for x y
    using that by (simp add: word_le_def word_less_def uint_sub_if')
  have c: "key x - h \<le> key y - h" if "h \<le> key x" "key y < h" for x y
  proof -
    have u: "uint (key y) < 4294967296" "uint (key x) < 4294967296"
      using uint_lt2p [of "key y"] uint_lt2p [of "key x"] by simp_all
    then have "uint (key x) \<le> uint (key y) + 4294967296" "uint (key y) \<le> uint (key x) + 4294967296"
      using u uint_ge_0 [of "key x"] uint_ge_0 [of "key y"] by linarith+
    then show ?thesis using that by (simp add: word_le_def word_less_def uint_sub_if')
  qed
  show ?thesis unfolding ring_from_def map_append sorted_append using up a b c by auto
qed

lemma neg_antimono: "a \<le> b \<Longrightarrow> a \<noteq> 0 \<Longrightarrow> - b \<le> - (a :: u32)"
proof -
  assume "a \<le> b" "a \<noteq> 0"
  moreover from this have "b \<noteq> 0" using word_gt_0 [of a] by auto
  moreover have "uint (- c) = 2 ^ 32 - uint c" if "c \<noteq> 0" for c :: u32
    using that uint_sub_if' [of 0 c] uint_ge_0 [of c] by (simp add: uint_0_iff)
  ultimately show ?thesis by (simp add: word_le_def)
qed

lemma sorted_ends:
  assumes "sorted (map f rs)" "x \<in> set rs"
  shows "f (hd rs) \<le> f x" "f x \<le> (f (last rs) :: 'a :: linorder)"
proof -
  obtain i where i: "i < length rs" "x = rs ! i" using assms(2) by (auto simp: in_set_conv_nth)
  then have rs: "rs \<noteq> []" by auto
  show "f (hd rs) \<le> f x" using sorted_nth_mono [OF assms(1), of 0 i] i rs by (simp add: hd_conv_nth)
  show "f x \<le> f (last rs)" using sorted_nth_mono [OF assms(1), of i "length rs - 1"] i rs by (simp add: last_conv_nth)
qed

definition ring_dist :: "u32 \<Rightarrow> u32 \<Rightarrow> u32" where
  "ring_dist h v = min (v - h) (h - v)"

lemma pick_closest:
  assumes s: "sorted (map (\<lambda>x. key x - h) rs)" and r: "pick key h rs = Some k"
  shows "\<exists>x \<in> set rs. node_srv x = k \<and> (\<forall>y \<in> set rs. ring_dist h (key x) \<le> ring_dist h (key y))"
proof -
  let ?d = "\<lambda>x. key x - h" let ?nx = "hd rs" and ?pv = "last rs"
  have rs: "rs \<noteq> []" using r by (auto simp: pick_def)
  have neg: "h - key x = - ?d x" for x by simp
  have least: "min (?d ?nx) (- ?d ?pv) \<le> ring_dist h (key y)" if y: "y \<in> set rs" for y
  proof (cases "?d y = 0")
    case True
    then have "?d ?nx = 0" using sorted_ends(1) [OF s y] by simp
    then show ?thesis by (simp add: min_def)
  next
    case False
    then have "- ?d ?pv \<le> - ?d y" using sorted_ends(2) [OF s y] by (intro neg_antimono)
    then show ?thesis unfolding ring_dist_def neg using sorted_ends(1) [OF s y] by (rule_tac min.mono)
  qed
  define w where "w = (if - ?d ?pv \<le> ?d ?nx then ?pv else ?nx)"
  have "ring_dist h (key w) \<le> min (?d ?nx) (- ?d ?pv)"
    unfolding ring_dist_def neg w_def by (auto simp: min_def)
  then have "\<forall>y \<in> set rs. ring_dist h (key w) \<le> ring_dist h (key y)" using least order_trans by blast
  moreover have "node_srv w = k" using r rs by (auto simp: pick_def Let_def w_def split: if_splits)
  moreover have "w \<in> set rs" using rs by (simp add: w_def)
  ultimately show ?thesis by blast
qed

text \<open>Taking the nodes of one server away does not change the choice of another one.\<close>

lemma pick_others:
  assumes s: "sorted (map (\<lambda>x. key x - h) rs)"
    and apart: "\<And>x y. x \<in> set rs \<Longrightarrow> y \<in> set rs \<Longrightarrow> key x = h \<Longrightarrow> key y = h \<Longrightarrow> node_srv x = node_srv y"
    and r: "pick key h rs \<noteq> Some k"
  shows "pick key h (filter (\<lambda>x. node_srv x \<noteq> k) rs) = pick key h rs"
proof (cases "rs = []")
  case False
  let ?d = "\<lambda>x. key x - h" let ?nx = "hd rs" and ?pv = "last rs" let ?rs = "filter (\<lambda>x. node_srv x \<noteq> k) rs"
  have neg: "h - key x = - ?d x" for x by simp
  have hd: "hd ?rs = ?nx" if "node_srv ?nx \<noteq> k" using that False by (cases rs) simp_all
  have last: "last ?rs = ?pv" if "node_srv ?pv \<noteq> k"
  proof -
    have "filter (\<lambda>x. node_srv x \<noteq> k) (butlast rs @ [?pv]) = filter (\<lambda>x. node_srv x \<noteq> k) (butlast rs) @ [?pv]"
      using that by simp
    then show ?thesis unfolding append_butlast_last_id [OF False] by simp
  qed
  have one: "node_srv ?nx \<noteq> k \<or> node_srv ?pv \<noteq> k" using r False by (auto simp: pick_def)
  have ne: "?rs \<noteq> []" using one False by (metis (mono_tags) filter_empty_conv hd_in_set last_in_set)
  have mem: "hd ?rs \<in> set rs" "last ?rs \<in> set rs" using hd_in_set [OF ne] last_in_set [OF ne] by simp_all
  have e: "pick key h rs = Some (if node_srv ?nx = node_srv ?pv then node_srv ?nx
      else if - ?d ?pv \<le> ?d ?nx then node_srv ?pv else node_srv ?nx)"
    using False by (simp add: pick_def)
  have e': "pick key h ?rs = Some (if node_srv (hd ?rs) = node_srv (last ?rs) then node_srv (hd ?rs)
      else if - ?d (last ?rs) \<le> ?d (hd ?rs) then node_srv (last ?rs) else node_srv (hd ?rs))"
    using ne by (simp add: pick_def)
  consider "node_srv ?nx \<noteq> k" "node_srv ?pv \<noteq> k" | "node_srv ?nx = k" "node_srv ?pv \<noteq> k" | "node_srv ?nx \<noteq> k" "node_srv ?pv = k"
    using one by blast
  then show ?thesis
  proof cases
    case 1
    show ?thesis unfolding e e' hd [OF 1(1)] last [OF 1(2)] ..
  next
    case 2
    then have "- ?d ?pv \<le> ?d ?nx" using r unfolding e by (auto split: if_splits)
    then have "- ?d ?pv \<le> ?d (hd ?rs)" using sorted_ends(1) [OF s mem(1)] by (rule order_trans)
    then show ?thesis using 2 \<open>- ?d ?pv \<le> ?d ?nx\<close> unfolding e e' last [OF 2(2)] by auto
  next
    case 3
    then have lt: "\<not> - ?d ?pv \<le> ?d ?nx" using r unfolding e by (auto split: if_splits)
    have "node_srv ?nx = node_srv (last ?rs) \<or> \<not> - ?d (last ?rs) \<le> ?d ?nx"
    proof (cases "?d (last ?rs) = 0")
      case True
      then have "?d ?nx = 0" using sorted_ends(1) [OF s mem(2)] by simp
      then show ?thesis using apart [OF hd_in_set [OF False] mem(2)] True by simp
    next
      case nz: False
      have "- ?d ?pv \<le> - ?d (last ?rs)" using sorted_ends(2) [OF s mem(2)] nz by (rule neg_antimono)
      then show ?thesis using lt by (meson order_trans)
    qed
    then show ?thesis using 3 lt unfolding e e' hd [OF 3(1)] by auto
  qed
qed simp

lemma ring_from_filter: "ring_from key h (filter P xs) = filter P (ring_from key h xs)"
  by (simp add: ring_from_def conj_commute)

subsection \<open>The server of a key\<close>

text \<open>The closest node in group \<open>g\<close>, on either side.\<close>

definition closest_server :: "chash \<Rightarrow> lb_group \<Rightarrow> u32 \<Rightarrow> nat option \<Rightarrow> bool" where
  "closest_server t g h r \<longleftrightarrow>
    (case r of None \<Rightarrow> \<forall>k j. \<not> ring_node t g k j
     | Some k \<Rightarrow> \<exists>j. ring_node t g k j
         \<and> (\<forall>k' j'. ring_node t g k' j' \<longrightarrow> ring_dist h (node_hash t k j) \<le> ring_dist h (node_hash t k' j')))"

definition ring_list :: "chash \<Rightarrow> lb_group \<Rightarrow> u32 \<Rightarrow> nat list" where
  "ring_list t g h = ring_from (node_key t) h (eb_contents (ch_root g t))"

lemma ring_list_facts:
  assumes "chash_ok t"
  shows "set (ring_list t g h) = {x. ring_node t g (node_srv x) (x mod 4096)}"
    "sorted (map (\<lambda>x. node_key t x - h) (ring_list t g h))"
    "chash_closest (node_key t) (ch_root g t) h = pick (node_key t) h (ring_list t g h)"
proof -
  have ok: "eb_root_ok (node_key t) (ch_root g t)" by (rule ring_okD(8) [OF chash_okD(1) [OF assms]])
  show "set (ring_list t g h) = {x. ring_node t g (node_srv x) (x mod 4096)}"
    using ring_set [OF assms, of g] by (auto simp: ring_list_def ring_from_def)
  show "sorted (map (\<lambda>x. node_key t x - h) (ring_list t g h))"
    unfolding ring_list_def using contents_sorted [OF ok] by (intro ring_sorted) simp
  show "chash_closest (node_key t) (ch_root g t) h = pick (node_key t) h (ring_list t g h)"
    unfolding ring_list_def by (rule closest_pick [OF ok])
qed

lemma closest_ok:
  assumes "chash_ok t" "keys_hashed t"
  shows "closest_server t g h (chash_closest (node_key t) (ch_root g t) h)"
proof -
  note f = ring_list_facts [OF assms(1), where g = g and h = h]
  have key: "node_key t x = node_hash t (node_srv x) (x mod 4096)" if "x \<in> set (ring_list t g h)" for x
    using that f(1) ring_key [OF assms(2)] by (simp add: ring_node_def)
  have mem: "node_id k j \<in> set (ring_list t g h)" "node_key t (node_id k j) = node_hash t k j" if "ring_node t g k j" for k j
  proof -
    have j: "j < 4096" by (rule ring_node_bound [OF assms(1) that])
    then show m: "node_id k j \<in> set (ring_list t g h)" using f(1) that by simp
    show "node_key t (node_id k j) = node_hash t k j" using key [OF m] j by simp
  qed
  show ?thesis
  proof (cases "chash_closest (node_key t) (ch_root g t) h")
    case None
    then have "ring_list t g h = []" unfolding f(3) by (auto simp: pick_def Let_def split: if_splits)
    then show ?thesis using None mem(1) by (auto simp: closest_server_def)
  next
    case (Some k)
    obtain x where x: "x \<in> set (ring_list t g h)" "node_srv x = k"
      "\<forall>y \<in> set (ring_list t g h). ring_dist h (node_key t x) \<le> ring_dist h (node_key t y)"
      using pick_closest [OF f(2) Some [unfolded f(3)]] by blast
    have "ring_node t g k (x mod 4096)" using x f(1) by simp
    moreover have "ring_dist h (node_hash t k (x mod 4096)) \<le> ring_dist h (node_hash t k' j')" if "ring_node t g k' j'" for k' j'
      using bspec [OF x(3) mem(1) [OF that]] mem(2) [OF that] key [OF x(1)] x(2) by simp
    ultimately show ?thesis using Some by (auto simp: closest_server_def)
  qed
qed

text \<open>The group in use, where no single backup server is.\<close>

definition group_in_use :: "proxy \<Rightarrow> lb_group" where
  "group_in_use px = (if srv_act px \<noteq> 0 then Act else Bck)"

lemma no_servers:
  assumes "chash_ok t" "srv_act (ch_be t) = 0" "srv_bck (ch_be t) = 0"
  shows "\<not> ring_node t g k j"
proof
  assume r: "ring_node t g k j"
  let ?s = "srv (ch_be t) ! k"
  have e: "lb_servers False (srv (ch_be t)) = []" "lb_servers True (srv (ch_be t)) = []"
    using chash_okD(3) [OF assms(1)] assms(2,3) by (simp_all add: counts_ok_def)
  have m: "?s \<in> set (srv (ch_be t))" "srv_is_usable ?s" using r by (simp_all add: ring_node_def)
  show False using e m by (cases "is_backup ?s") (auto simp: lb_servers_def filter_empty_conv)
qed

lemma get_hash_group:
  assumes "chash_ok t" "srv_act (ch_be t) \<noteq> 0 \<or> use_all_bk (ch_be t)"
  shows "chash_get_server_hash t h = pick (node_key t) h (ring_list t (group_in_use (ch_be t)) h)"
proof -
  have f: "fbck (ch_be t) = None" if "srv_act (ch_be t) = 0" using assms that chash_okD(3) [OF assms(1)] by (simp add: counts_ok_def)
  show ?thesis
  proof (cases "srv_act (ch_be t) = 0 \<and> srv_bck (ch_be t) = 0")
    case True
    then have "set (ring_list t (group_in_use (ch_be t)) h) = {}"
      using no_servers [OF assms(1)] ring_list_facts(1) [OF assms(1)] by simp
    then show ?thesis using True f by (simp add: chash_get_server_hash_def chash_choose_group_def pick_def)
  next
    case False
    then show ?thesis using f ring_list_facts(3) [OF assms(1)]
      by (auto simp: chash_get_server_hash_def chash_choose_group_def group_in_use_def)
  qed
qed

lemma hash_alone:
  assumes "chash_ok t" "single_backup (ch_be t)"
  shows "chash_get_server_hash t h = first_backup (srv (ch_be t))"
  using backup_alone [OF chash_okD(3) [OF assms(1)] assms(2)]
  by (cases "first_backup (srv (ch_be t))") (simp_all add: chash_get_server_hash_def chash_choose_group_def)

text \<open>C18: consistent hashing.  On every reachable state \<open>chash_get_server_hash\<close> returns the server of a node
  at the least distance from the hash, on either side around the ring, among the nodes of the usable
  servers of the group in use, and none only when there is no node.  Without active server and
  without allbackups it returns the first usable backup server, whatever the hash.\<close>

theorem chash_hash_closest:
  assumes "chash_reachable t"
  shows "if single_backup (ch_be t) then chash_get_server_hash t h = first_backup (srv (ch_be t))
    else closest_server t (group_in_use (ch_be t)) h (chash_get_server_hash t h)"
proof -
  have ok: "chash_ok t" "keys_hashed t" using chash_reachable_ok [OF assms(1)] by simp_all
  show ?thesis
  proof (cases "single_backup (ch_be t)")
    case True
    then show ?thesis using hash_alone [OF ok(1)] by simp
  next
    case False
    then have "srv_act (ch_be t) \<noteq> 0 \<or> use_all_bk (ch_be t)" by (auto simp: single_backup_def)
    then show ?thesis
      using False closest_ok [OF ok, of "group_in_use (ch_be t)" h] get_hash_group [OF ok(1), of h]
        ring_list_facts(3) [OF ok(1), where g = "group_in_use (ch_be t)" and h = h] by simp
  qed
qed

subsection \<open>Changing one server\<close>

text \<open>The three ways in which a change of server \<open>k\<close>, from \<open>t\<close>, is reported.\<close>

inductive server_change :: "chash \<Rightarrow> nat \<Rightarrow> chash \<Rightarrow> bool" where
  down: "k < length (srv (ch_be t)) \<Longrightarrow> s = set_status st adm (eweight (srv (ch_be t) ! k)) (srv (ch_be t) ! k) \<Longrightarrow>
    srv_is_usable s \<longrightarrow> srv_is_usable (srv (ch_be t) ! k) \<Longrightarrow>
    server_change t k (chash_set_server_status_down k (on_ch (put_srv k s) t))"
| up: "k < length (srv (ch_be t)) \<Longrightarrow> s = set_status st adm (eweight (srv (ch_be t) ! k)) (srv (ch_be t) ! k) \<Longrightarrow>
    srv_is_usable (srv (ch_be t) ! k) \<longrightarrow> srv_is_usable s \<Longrightarrow>
    server_change t k (chash_set_server_status_up k (on_ch (put_srv k s) t))"
| weight: "k < length (srv (ch_be t)) \<Longrightarrow> s = set_status st adm w (srv (ch_be t) ! k) \<Longrightarrow> 0 \<le> w \<Longrightarrow>
    server_change t k (chash_update_server_weight k (on_ch (put_srv k s) t))"

lemma change_reachable: "server_change t k t' \<Longrightarrow> chash_reachable t \<Longrightarrow> chash_reachable t'"
  by (induction rule: server_change.induct) (auto intro: chash_reachable.down chash_reachable.up chash_reachable.weight)

lemma change_others: "server_change t k t' \<Longrightarrow> chash_ok t \<Longrightarrow> ring_others k t' = ring_others k t \<and> node_key t' = node_key t"
proof (induction rule: server_change.induct)
  case (down k t s st adm)
  then have c: "px_change (ch_be t) k s" using put_status [of t k] ok_settled [of t k] by (simp add: settled_def)
  show ?case using down_step [OF down(4) c] down by (simp add: ring_step_def served_status)
next
  case (up k t s st adm)
  then have c: "px_change (ch_be t) k s" using put_status [of t k] ok_settled [of t k] by (simp add: settled_def)
  show ?case using up_step [OF up(4) c] up by (simp add: ring_step_def served_status)
next
  case (weight k t s st adm w)
  then have c: "px_change (ch_be t) k s" using put_status [of t k] by simp
  show ?case using weight_step [OF weight(4) c] by (simp add: ring_step_def)
qed

lemma others_root: "ring_others k t' = ring_others k t \<Longrightarrow>
    filter (\<lambda>x. node_srv x \<noteq> k) (eb_contents (ch_root g t')) = filter (\<lambda>x. node_srv x \<noteq> k) (eb_contents (ch_root g t))"
  by (cases g) (simp_all add: ring_others_def ch_root_def)

definition alone_at :: "chash \<Rightarrow> u32 \<Rightarrow> bool" where
  "alone_at t h \<longleftrightarrow> (\<forall>k j k' j'. ring_node t Act k j \<and> ring_node t Act k' j' \<and> node_hash t k j = h \<and> node_hash t k' j' = h
     \<longrightarrow> k = k')"

text \<open>C19: minimal disruption.  When the status or the weight of one server changes, up or down, by any
  amount, a key changes server only from this server or to it: between two other servers no key
  moves, as long as the same group is in use and no two servers have a node at the hash itself.\<close>

theorem chash_minimal_disruption:
  assumes "chash_reachable t" "server_change t k t'"
    and "srv_act (ch_be t) \<noteq> 0" "srv_act (ch_be t') \<noteq> 0"
    and "alone_at t h" "alone_at t' h"
  shows "chash_get_server_hash t h = chash_get_server_hash t' h
    \<or> chash_get_server_hash t h = Some k \<or> chash_get_server_hash t' h = Some k"
proof -
  let ?k = "\<lambda>x. node_srv x \<noteq> k" and ?key = "node_key t"
  have ok: "chash_ok t" "keys_hashed t" and ok': "chash_ok t'"
    using chash_reachable_ok [OF assms(1)] chash_reachable_ok [OF change_reachable [OF assms(2,1)]] by simp_all
  have c: "ring_others k t' = ring_others k t" and key: "node_key t' = ?key" using change_others [OF assms(2) ok(1)] by simp_all
  have e: "chash_get_server_hash t h = pick ?key h (ring_list t Act h)" "chash_get_server_hash t' h = pick ?key h (ring_list t' Act h)"
    using get_hash_group [OF ok(1), of h] get_hash_group [OF ok', of h] assms(3,4) by (simp_all add: group_in_use_def key)
  have same: "filter ?k (ring_list t' Act h) = filter ?k (ring_list t Act h)"
    unfolding ring_list_def key ring_from_filter [symmetric] others_root [OF c] ..
  note f = ring_list_facts [OF ok(1), where g = Act and h = h] and f' = ring_list_facts [OF ok', where g = Act and h = h, unfolded key]
  have len: "length (srv (ch_be t')) = length (srv (ch_be t))" and pu: "ch_puid t' = ch_puid t"
    using assms(2) status_length by (cases; simp add: status_keys)+
  have hash: "?key x = node_hash t (node_srv x) (x mod 4096)" if "x \<in> set (ring_list t Act h) \<or> x \<in> set (ring_list t' Act h)" for x
    using that f(1) f'(1) ring_key [OF ok(2)] len by (auto simp: ring_node_def)
  have apart: "node_srv x = node_srv y" if "x \<in> set (ring_list t Act h)" "y \<in> set (ring_list t Act h)" "?key x = h" "?key y = h" for x y
    using assms(5) [unfolded alone_at_def, rule_format, of "node_srv x" "x mod 4096" "node_srv y" "y mod 4096"]
      that hash [of x] hash [of y] f(1) by simp
  have apart': "node_srv x = node_srv y" if "x \<in> set (ring_list t' Act h)" "y \<in> set (ring_list t' Act h)" "?key x = h" "?key y = h" for x y
    using assms(6) [unfolded alone_at_def, rule_format, of "node_srv x" "x mod 4096" "node_srv y" "y mod 4096"]
      that hash [of x] hash [of y] f'(1) pu by (simp add: node_hash_def)
  have "pick ?key h (ring_list t Act h) = pick ?key h (ring_list t' Act h)"
    if "pick ?key h (ring_list t Act h) \<noteq> Some k" "pick ?key h (ring_list t' Act h) \<noteq> Some k"
  proof -
    have "pick ?key h (filter ?k (ring_list t Act h)) = pick ?key h (ring_list t Act h)"
      using apart by (rule pick_others [OF f(2) _ that(1)])
    moreover have "pick ?key h (filter ?k (ring_list t' Act h)) = pick ?key h (ring_list t' Act h)"
      using apart' by (rule pick_others [OF f'(2) _ that(2)])
    ultimately show ?thesis unfolding same by simp
  qed
  then show ?thesis unfolding e by blast
qed

subsection \<open>Concrete rings\<close>

definition server_of :: "int \<Rightarrow> bool \<Rightarrow> server" where
  "server_of w b = (server1 w)\<lparr>is_backup := b, maxconn := 1, minconn := 1\<rparr>"

definition ring_of :: "server list \<Rightarrow> chash" where
  "ring_of ss = \<lparr>ch_be = (be trees1)\<lparr>srv := ss, use_all_bk := True, wmult := 16\<rparr>, ch_act = None, ch_bck = None, ch_last = None,
     nodes_tot = (\<lambda>k. 0), nodes_now = (\<lambda>k. 0), node_key = (\<lambda>x. 0), ch_puid = (\<lambda>k. of_nat k + 1)\<rparr>"

definition ring1 :: chash where
  "ring1 = chash_init_server_tree (ring_of [server_of 1 False, server_of 2 False])"

definition ring2 :: chash where
  "ring2 = chash_init_server_tree (ring_of [(server_of 1 False)\<lparr>state := SRV_ST_STOPPED, served := 1\<rparr>, server_of 1 True])"

lemma ring_of_reachable:
  "\<forall>s \<in> set ss. 0 \<le> uweight s \<and> uweight s \<le> 256 \<Longrightarrow> chash_reachable (chash_init_server_tree (ring_of ss))"
  by (rule chash_reachable.init) (simp add: chash_pristine_def ring_of_def)

lemma rings_reachable: "chash_reachable ring1" "chash_reachable ring2"
  unfolding ring1_def ring2_def by (rule ring_of_reachable; simp add: server_of_def server1_def)+

lemma nodes_tot_frame [simp]: "nodes_tot (chash_queue_dequeue_srv k t) = nodes_tot t"
proof -
  have o: "nodes_tot (drop_node k t) = nodes_tot t" "nodes_tot (add_node k t) = nodes_tot t" for k t
    by (simp_all add: drop_node_def add_node_def Let_def split: lb_group.split)
  have d: "nodes_tot (drop_nodes n k w t) = nodes_tot t" for n k w t by (induction n arbitrary: t) (simp_all add: o)
  have a: "nodes_tot (add_nodes n k w t) = nodes_tot t" for n k w t by (induction n arbitrary: t) (simp_all add: o)
  show ?thesis by (simp add: chash_queue_dequeue_srv_def Let_def d a)
qed

lemma last_frame: "ch_last t = None \<Longrightarrow> ch_last (chash_queue_dequeue_srv k t) = None"
proof -
  have o: "ch_last t = None \<Longrightarrow> ch_last (drop_node k t) = None" "ch_last t = None \<Longrightarrow> ch_last (add_node k t) = None" for k t
    by (simp_all add: drop_node_def add_node_def Let_def skip_last_def split: lb_group.split)
  have d: "ch_last t = None \<Longrightarrow> ch_last (drop_nodes n k w t) = None" for n k w t by (induction n arbitrary: t) (simp_all add: o)
  have a: "ch_last t = None \<Longrightarrow> ch_last (add_nodes n k w t) = None" for n k w t by (induction n arbitrary: t) (simp_all add: o)
  show "ch_last t = None \<Longrightarrow> ?thesis" by (simp add: chash_queue_dequeue_srv_def Let_def d a)
qed

lemma init_loop_frame:
  "ch_be (chash_init_loop ks t) = ch_be t" "ch_puid (chash_init_loop ks t) = ch_puid t"
  "ch_last t = None \<Longrightarrow> ch_last (chash_init_loop ks t) = None"
  "nodes_tot (chash_init_loop ks t) k = (if k \<in> set ks then nat (uweight (srv (ch_be t) ! k) * BE_WEIGHT_SCALE) else nodes_tot t k)"
  by (induction ks t rule: chash_init_loop.induct) (simp_all add: Let_def init_nodes_def last_frame)

definition initial_backend :: "proxy \<Rightarrow> proxy" where
  "initial_backend px = update_backend_weight (recount_servers
     (px\<lparr>wdiv := BE_WEIGHT_SCALE, srv := map (initial_weight (wmult px) BE_WEIGHT_SCALE) (srv px)\<rparr>))"

lemma init_frame:
  "ch_be (chash_init_server_tree t) = initial_backend (ch_be t)" "ch_puid (chash_init_server_tree t) = ch_puid t"
  "ch_last (chash_init_server_tree t) = None"
  "k < length (srv (ch_be t)) \<Longrightarrow> nodes_tot (chash_init_server_tree t) k = nat (uweight (srv (initial_backend (ch_be t)) ! k) * BE_WEIGHT_SCALE)"
  by (simp_all add: chash_init_server_tree_def Let_def init_loop_frame initial_backend_def recount_servers_counts)

lemma ring1_be: "srv (ch_be ring1) = map srv_lb_commit_status [server_of 1 False, server_of 2 False]"
    "srv_act (ch_be ring1) = 2" "use_all_bk (ch_be ring1)"
  unfolding ring1_def init_frame by code_simp+

lemma ring2_be: "srv (ch_be ring2) = map srv_lb_commit_status [(server_of 1 False)\<lparr>state := SRV_ST_STOPPED, served := 1\<rparr>, server_of 1 True]"
    "srv_act (ch_be ring2) = 0" "srv_bck (ch_be ring2) = 1" "use_all_bk (ch_be ring2)"
  unfolding ring2_def init_frame by code_simp+

lemma contents_unique:
  assumes "chash_reachable t" "set xs = {x. ring_node t g (node_srv x) (x mod 4096)}"
    and "sorted (map (\<lambda>x. node_hash t (node_srv x) (x mod 4096)) xs)" "distinct (map (\<lambda>x. node_hash t (node_srv x) (x mod 4096)) xs)"
  shows "eb_contents (ch_root g t) = xs"
proof -
  let ?f = "\<lambda>x. node_hash t (node_srv x) (x mod 4096)" and ?ys = "eb_contents (ch_root g t)"
  have s: "set ?ys = set xs" using ring_set assms(1,2) chash_reachable_ok by blast
  have i: "inj_on ?f (set ?ys \<union> set xs)" unfolding s Un_absorb using assms(4) by (simp add: distinct_map)
  have "distinct (map ?f ?ys)" using contents_by_hash [OF assms(1), of g] i by (simp add: distinct_map inj_on_Un)
  then show ?thesis using contents_by_hash [OF assms(1), of g] map_sorted_distinct_set_unique [OF i _ _ assms(3,4) s] by simp
qed

lemma ring_node_cases: "node_srv x = k \<and> x mod 4096 = j \<longleftrightarrow> x = 4096 * k + j \<and> j < 4096"
  by (auto simp: node_srv_def)

lemma ring_servers [simp]:
  "srv_is_usable (server_of w b) = (w \<noteq> 0)" "group_of (srv_lb_commit_status (server_of w b)) = (if b then Bck else Act)"
  "eweight (server_of w b) = w" "uweight (server_of w b) = w" "is_backup (server_of w b) = b"
  by (auto simp: server_of_def server1_def srv_lb_commit_status_def srv_is_usable_def lb_usable_def group_of_def)

lemma ring1_nodes: "ring_node ring1 Act k j \<longleftrightarrow> k = 0 \<and> j = 0 \<or> k = 1 \<and> (j = 0 \<or> j = 1)"
proof -
  have "nodes_tot ring1 0 = 16" "nodes_tot ring1 1 = 32"
    unfolding ring1_def by (subst init_frame; simp add: ring_of_def; code_simp)+
  then show ?thesis unfolding ring_node_def ring1_be(1) by (auto simp: less_Suc_eq nth_Cons split: nat.splits)
qed

definition stopped1 :: server where
  "stopped1 = set_status SRV_ST_STOPPED 0 2 (srv (ch_be ring1) ! 1)"

definition ring1_down :: chash where
  "ring1_down = chash_set_server_status_down 1 (on_ch (put_srv 1 stopped1) ring1)"

lemma stopped1_facts: "\<not> srv_is_usable stopped1" "eweight (srv (ch_be ring1) ! 1) = 2" "length (srv (ch_be ring1)) = 2"
  by (simp_all add: stopped1_def set_status_def srv_is_usable_def lb_usable_def ring1_be)

lemma ring1_change: "server_change ring1 1 ring1_down"
  unfolding ring1_down_def by (rule server_change.down [where st = SRV_ST_STOPPED and adm = 0])
    (simp_all add: stopped1_facts, simp add: stopped1_def stopped1_facts(2) [simplified])

lemma ring1_down_be: "srv_act (ch_be ring1_down) = 1" "srv_is_usable (srv (ch_be ring1_down) ! 1) = False" "length (srv (ch_be ring1_down)) = 2"
  unfolding ring1_down_def status_be on_ch_simps stopped1_def unfolding ring1_def init_frame by code_simp+

lemma ring1_alone: "alone_at ring1 12345" "alone_at ring1_down 12345"
proof -
  have "ch_puid ring1 = (\<lambda>k. of_nat k + 1)" by (simp add: ring1_def init_frame ring_of_def)
  moreover have "full_hash (1 * 4096 + of_nat 0) \<noteq> 12345" by code_simp
  ultimately have "node_hash ring1 0 0 \<noteq> 12345" by (simp add: node_hash_def)
  then show "alone_at ring1 12345" unfolding alone_at_def ring1_nodes by blast
  have "k = 0" if "ring_node ring1_down Act k j" for k j
    using that ring1_down_be(2,3) by (auto simp: ring_node_def less_Suc_eq numeral_2_eq_2)
  then show "alone_at ring1_down 12345" unfolding alone_at_def by blast
qed

theorem chash_ring_invariant_witness:
  "update_backend_weight (recount_servers (ch_be ring1)) = ch_be ring1
    \<and> set (eb_contents (ch_root Act ring1)) = {x. ring_node ring1 Act (node_srv x) (x mod 4096)}
    \<and> sorted (map (\<lambda>x. node_hash ring1 (node_srv x) (x mod 4096)) (eb_contents (ch_root Act ring1)))
    \<and> distinct (eb_contents (ch_root Act ring1))"
  by (rule chash_ring_invariant [OF rings_reachable(1)])

theorem chash_hash_closest_witness:
  "closest_server ring1 (group_in_use (ch_be ring1)) 12345 (chash_get_server_hash ring1 12345)"
  using chash_hash_closest [OF rings_reachable(1), of 12345] by (simp add: ring1_be single_backup_def)

theorem chash_minimal_disruption_witness:
  "chash_get_server_hash ring1 12345 = chash_get_server_hash ring1_down 12345
    \<or> chash_get_server_hash ring1 12345 = Some 1 \<or> chash_get_server_hash ring1_down 12345 = Some 1"
  by (rule chash_minimal_disruption [OF rings_reachable(1) ring1_change _ _ ring1_alone]) (simp_all add: ring1_be ring1_down_be)

end
