(* ===== verification/HA_LB_Chash_Next.thy ===== *)
theory HA_LB_Chash_Next
  imports HA_LB_Chash_Ring
begin

section \<open>The ring of servers: taking servers in turn\<close>

text \<open>
  \<open>chash_get_next_server\<close> walks around the ring from the node \<open>last\<close>.  While this node is in the ring in
  use the walk ends and finds a server; the last part shows what happens when it is not.
\<close>

subsection \<open>Walking around the ring\<close>

definition ring_at :: "nat list \<Rightarrow> nat \<Rightarrow> nat \<Rightarrow> nat" where
  "ring_at xs i m = xs ! ((i + m) mod length xs)"

lemma disjoint_groups: "ring_ok t \<Longrightarrow> x \<in> ch_holds t Bck \<Longrightarrow> x \<notin> set (eb_contents (ch_act t))"
  by (simp add: ring_okD(3)) (simp add: ch_holds_def)

lemma next_in_root:
  assumes "ring_ok t" "x \<in> set (eb_contents (ch_root g t))"
  shows "ch_next t x = eb_next x (ch_root g t)"
  using assms disjoint_groups [OF assms(1), of x] by (cases g) (auto simp: ch_next_def ch_root_def ring_okD(4))

lemma node_after_at:
  assumes ok: "ring_ok t" and xs: "xs = eb_contents (ch_root g t)" and i: "i < length xs"
  shows "node_after g t (Some (ring_at xs i m)) = Some (ring_at xs i (Suc m))"
proof -
  note root = ring_okD(8) [OF ok, of g]
  let ?j = "(i + m) mod length xs"
  have j: "?j < length xs" using i by (auto intro!: mod_less_divisor)
  have c: "eb_contents (ch_root g t) = take ?j xs @ xs ! ?j # drop (Suc ?j) xs" unfolding xs [symmetric] by (rule id_take_nth_drop [OF j])
  have n: "ch_next t (xs ! ?j) = (case drop (Suc ?j) xs of [] \<Rightarrow> None | y # _ \<Rightarrow> Some y)"
    using next_in_root [OF ok, of "xs ! ?j" g] next_contents [OF root c] j xs by simp
  show ?thesis
  proof (cases "Suc ?j < length xs")
    case True
    then have "ch_next t (xs ! ?j) = Some (xs ! Suc ?j)" unfolding n by (simp add: Cons_nth_drop_Suc [symmetric])
    moreover have "(i + Suc m) mod length xs = Suc ?j" using True by (simp add: mod_Suc)
    ultimately show ?thesis by (simp add: ring_at_def node_after_def)
  next
    case False
    then have "ch_next t (xs ! ?j) = None" "(i + Suc m) mod length xs = 0" using j n by (simp_all add: mod_Suc)
    moreover have "eb_first (ch_root g t) = Some (xs ! 0)" using i by (cases xs) (simp_all add: first_contents xs [symmetric])
    ultimately show ?thesis by (simp add: ring_at_def node_after_def)
  qed
qed

lemma in_range: "i < length xs \<Longrightarrow> (i + m) mod length xs < length xs"
  by (rule mod_less_divisor) linarith

lemma ring_at_stop:
  assumes "distinct xs" "i < length xs" "Suc m \<le> length xs"
  shows "ring_at xs i (Suc m) = ring_at xs i 0 \<longleftrightarrow> Suc m = length xs"
proof -
  have "ring_at xs i (Suc m) = ring_at xs i 0 \<longleftrightarrow> (i + Suc m) mod length xs = i mod length xs"
    using nth_eq_iff_index_eq [OF assms(1) in_range [OF assms(2), of "Suc m"] assms(2)] assms(2) by (simp add: ring_at_def)
  also have "\<dots> \<longleftrightarrow> length xs dvd Suc m" using mod_eq_dvd_iff_nat [of i "i + Suc m" "length xs"] by simp
  also have "\<dots> \<longleftrightarrow> Suc m = length xs" using assms(3) by (auto dest: dvd_imp_le)
  finally show ?thesis .
qed

text \<open>The nodes that the walk still has to see after \<open>m\<close> of them.\<close>

definition ring_rest :: "nat list \<Rightarrow> nat \<Rightarrow> nat \<Rightarrow> nat list" where
  "ring_rest xs i m = map (ring_at xs i) [Suc m..<Suc (length xs)]"

lemma ring_rest_Cons: "m < length xs \<Longrightarrow> ring_rest xs i m = ring_at xs i (Suc m) # ring_rest xs i (Suc m)"
  by (simp add: ring_rest_def upt_conv_Cons del: upt_Suc)

lemma ring_rest_end [simp]: "ring_rest xs i (length xs) = []"
  by (simp add: ring_rest_def)

lemma set_ring_rest: "i < length xs \<Longrightarrow> set (ring_rest xs i 0) = set xs"
proof
  assume i: "i < length xs"
  show "set (ring_rest xs i 0) \<subseteq> set xs" using i by (auto simp: ring_rest_def ring_at_def intro!: nth_mem mod_less_divisor)
  show "set xs \<subseteq> set (ring_rest xs i 0)"
  proof
    fix x assume "x \<in> set xs"
    then obtain j where j: "j < length xs" "x = xs ! j" by (auto simp: in_set_conv_nth)
    let ?m = "if i < j then j - i else length xs - i + j"
    have "(i + ?m) mod length xs = j" using i j by (auto simp: not_less mod_if)
    then have "ring_at xs i ?m = x" using j by (simp add: ring_at_def)
    moreover have "?m \<in> set [Suc 0..<Suc (length xs)]" using i j by (auto simp: not_less simp del: upt_Suc)
    ultimately show "x \<in> set (ring_rest xs i 0)" unfolding ring_rest_def set_map by blast
  qed
qed

definition takes :: "int \<Rightarrow> chash \<Rightarrow> nat \<Rightarrow> bool" where
  "takes now t x \<longleftrightarrow> has_slot now (ch_be t) (node_srv x)"

definition walk_result :: "int \<Rightarrow> chash \<Rightarrow> nat option \<Rightarrow> nat list \<Rightarrow> nat option \<Rightarrow> nat option \<times> nat option" where
  "walk_result now t avoid ys avoided =
    (case find (\<lambda>x. takes now t x \<and> Some (node_srv x) \<noteq> avoid) ys of Some x \<Rightarrow> (Some (node_srv x), Some x)
     | None \<Rightarrow> let a = fold (\<lambda>x a. if takes now t x then Some x else a) ys avoided in (map_option node_srv a, a))"

lemma walk_result_simps:
  "walk_result now t avoid [] a = (map_option node_srv a, a)"
  "takes now t x \<and> Some (node_srv x) \<noteq> avoid \<Longrightarrow> walk_result now t avoid (x # ys) a = (Some (node_srv x), Some x)"
  "\<not> (takes now t x \<and> Some (node_srv x) \<noteq> avoid) \<Longrightarrow>
    walk_result now t avoid (x # ys) a = walk_result now t avoid ys (if takes now t x then Some x else a)"
  by (auto simp: walk_result_def Let_def split: option.split)

lemma walk_finds:
  assumes ok: "ring_ok t" and xs: "xs = eb_contents (ch_root g t)" and i: "i < length xs"
    and m: "m < length xs" and n: "length xs - m \<le> n"
  shows "chash_walk n now t avoid g (Some (ring_at xs i m)) (Some (ring_at xs i 0)) avoided
    = Some (walk_result now t avoid (ring_rest xs i m) avoided)"
  using m n
proof (induction n arbitrary: m avoided)
  case (Suc n)
  have d: "distinct xs" using contents_sorted [OF ring_okD(8) [OF ok, of g]] xs by simp
  let ?y = "ring_at xs i (Suc m)"
  define avoided' where "avoided' = (if has_slot now (ch_be t) (node_srv ?y) then Some ?y else avoided)"
  have e: "chash_walk (Suc n) now t avoid g (Some (ring_at xs i m)) (Some (ring_at xs i 0)) avoided =
      (if has_slot now (ch_be t) (node_srv ?y) \<and> Some (node_srv ?y) \<noteq> avoid then Some (Some (node_srv ?y), Some ?y)
       else if Some ?y \<noteq> Some (ring_at xs i 0) then chash_walk n now t avoid g (Some ?y) (Some (ring_at xs i 0)) avoided'
       else Some (map_option node_srv avoided', avoided'))"
    by (rule walk_some [OF node_after_at [OF ok xs i] _ avoided'_def]) simp
  have r: "ring_rest xs i m = ?y # ring_rest xs i (Suc m)" by (rule ring_rest_Cons [OF Suc.prems(1)])
  show ?case
  proof (cases "takes now t ?y \<and> Some (node_srv ?y) \<noteq> avoid")
    case True
    then show ?thesis using walk_result_simps(2) [OF True] unfolding e r by (simp add: takes_def)
  next
    case False
    have w: "walk_result now t avoid (ring_rest xs i m) avoided = walk_result now t avoid (ring_rest xs i (Suc m)) avoided'"
      using walk_result_simps(3) [OF False, of _ avoided] unfolding r by (simp add: avoided'_def takes_def)
    show ?thesis
    proof (cases "Suc m = length xs")
      case True
      then have "ring_at xs i (Suc m) = ring_at xs i 0" using ring_at_stop [OF d i Suc_leI [OF Suc.prems(1)]] by blast
      then show ?thesis using w True unfolding e if_not_P [OF False [unfolded takes_def]] by (simp add: walk_result_simps(1))
    next
      case neq: False
      then have "ring_at xs i (Suc m) \<noteq> ring_at xs i 0" using ring_at_stop [OF d i Suc_leI [OF Suc.prems(1)]] by blast
      moreover have "chash_walk n now t avoid g (Some ?y) (Some (ring_at xs i 0)) avoided'
          = Some (walk_result now t avoid (ring_rest xs i (Suc m)) avoided')"
        using neq Suc.prems by (intro Suc.IH) auto
      ultimately show ?thesis unfolding e w if_not_P [OF False [unfolded takes_def]] by simp
    qed
  qed
qed simp

lemma fold_last_takes:
  "fold (\<lambda>x a. if P x then Some x else a) ys a = (case filter P ys of [] \<Rightarrow> a | zs \<Rightarrow> Some (last zs))"
  by (induction ys arbitrary: a) (auto split: list.split)

subsection \<open>The choice\<close>

text \<open>The servers of the ring in use that accept a connection.\<close>

definition ring_candidates :: "int \<Rightarrow> chash \<Rightarrow> nat set" where
  "ring_candidates now t = {k. \<exists>j. ring_node t (group_in_use (ch_be t)) k j \<and> has_slot now (ch_be t) k}"

lemma walk_result_choice:
  assumes "C = {node_srv x | x. x \<in> set ys \<and> takes now t x}"
  shows "best_choice (\<lambda>_ _. True) C avoid (fst (walk_result now t avoid ys None))"
proof (cases "find (\<lambda>x. takes now t x \<and> Some (node_srv x) \<noteq> avoid) ys")
  case None
  then have a: "Some (node_srv x) = avoid" if "x \<in> set ys" "takes now t x" for x using that by (auto simp: find_None_iff)
  show ?thesis
  proof (cases "filter (takes now t) ys")
    case Nil
    then have "C = {}" using assms by (auto simp: filter_empty_conv)
    then show ?thesis using None Nil by (simp add: walk_result_def fold_last_takes best_choice_def)
  next
    case (Cons z zs)
    then have "last (z # zs) \<in> set (filter (takes now t) ys)" by (metis last_in_set list.discI)
    then have m: "last (z # zs) \<in> set ys" "takes now t (last (z # zs))" by simp_all
    have f: "fst (walk_result now t avoid ys None) = Some (node_srv (last (z # zs)))"
      using None Cons by (simp add: walk_result_def fold_last_takes)
    have "node_srv (last (z # zs)) \<in> C" "\<forall>j \<in> C. Some j = avoid" using assms m a by auto
    then show ?thesis unfolding best_choice_def f option.case by blast
  qed
next
  case (Some x)
  then have "x \<in> set ys" "takes now t x" "Some (node_srv x) \<noteq> avoid" by (auto simp: find_Some_iff in_set_conv_nth)
  then show ?thesis using Some assms by (auto simp: walk_result_def best_choice_def)
qed

lemma choose_group_use:
  assumes "chash_ok t" "srv_act (ch_be t) \<noteq> 0 \<or> use_all_bk (ch_be t)" "srv_act (ch_be t) \<noteq> 0 \<or> srv_bck (ch_be t) \<noteq> 0"
  shows "chash_choose_group (ch_be t) = From_group (group_in_use (ch_be t))"
  using assms chash_okD(3) [OF assms(1)] by (auto simp: chash_choose_group_def group_in_use_def counts_ok_def)

lemma next_from_last:
  assumes ok: "chash_ok t" and u: "srv_act (ch_be t) \<noteq> 0 \<or> use_all_bk (ch_be t)"
    and l: "ch_last t = Some (node_id k j)" "ring_node t (group_in_use (ch_be t)) k j"
    and n: "length (eb_contents (ch_root (group_in_use (ch_be t)) t)) \<le> n"
  obtains i where "i < length (eb_contents (ch_root (group_in_use (ch_be t)) t))"
    "eb_contents (ch_root (group_in_use (ch_be t)) t) ! i = node_id k j"
    "chash_get_next_server n now t avoid =
      (let w = walk_result now t avoid (ring_rest (eb_contents (ch_root (group_in_use (ch_be t)) t)) i 0) None
       in Some (fst w, t\<lparr>ch_last := snd w\<rparr>))"
proof -
  let ?g = "group_in_use (ch_be t)"
  define xs where "xs = eb_contents (ch_root ?g t)"
  have r: "ring_ok t" by (rule chash_okD(1) [OF ok])
  obtain i where i: "i < length xs" "xs ! i = node_id k j"
    using ring_id_mem [OF ok l(2)] by (auto simp: xs_def in_set_conv_nth)
  have "srv_act (ch_be t) \<noteq> 0 \<or> srv_bck (ch_be t) \<noteq> 0" using no_servers [OF ok] l(2) by blast
  then have c: "chash_choose_group (ch_be t) = From_group ?g" using choose_group_use [OF ok u] by blast
  have at: "ring_at xs i 0 = node_id k j" using i by (simp add: ring_at_def)
  have "0 < length xs" using i(1) by linarith
  then have "chash_walk n now t avoid ?g (ch_last t) (ch_last t) None = Some (walk_result now t avoid (ring_rest xs i 0) None)"
    using walk_finds [OF r xs_def i(1), of 0 n now avoid None] n unfolding at l(1) by (simp add: xs_def)
  then have "chash_get_next_server n now t avoid = (let w = walk_result now t avoid (ring_rest xs i 0) None in Some (fst w, t\<lparr>ch_last := snd w\<rparr>))"
    by (simp add: chash_get_next_server_def c split_def Let_def)
  then show thesis using that i unfolding xs_def by blast
qed

text \<open>C20: a server in turn.  While \<open>last\<close> is a node of the ring in use, \<open>chash_get_next_server\<close> returns, after at
  most one turn, a server of this ring that accepts the connection, the one to avoid only when there
  is no other, and none only when no server of the ring accepts it.\<close>

theorem chash_next_choice:
  assumes "chash_reachable t" "srv_act (ch_be t) \<noteq> 0 \<or> use_all_bk (ch_be t)"
    and "ch_last t = Some (node_id k j)" "ring_node t (group_in_use (ch_be t)) k j"
    and "length (eb_contents (ch_root (group_in_use (ch_be t)) t)) \<le> n"
  shows "\<exists>r t'. chash_get_next_server n now t avoid = Some (r, t') \<and> best_choice (\<lambda>_ _. True) (ring_candidates now t) avoid r"
proof -
  let ?xs = "eb_contents (ch_root (group_in_use (ch_be t)) t)"
  have ok: "chash_ok t" using chash_reachable_ok [OF assms(1)] by simp
  obtain i where i: "i < length ?xs" "chash_get_next_server n now t avoid =
      (let w = walk_result now t avoid (ring_rest ?xs i 0) None in Some (fst w, t\<lparr>ch_last := snd w\<rparr>))"
    using next_from_last [OF ok assms(2-5)] .
  have "ring_candidates now t = {node_srv x | x. x \<in> set (ring_rest ?xs i 0) \<and> takes now t x}"
  proof -
    have "ring_node t g k j \<Longrightarrow> \<exists>x. node_srv x = k \<and> ring_node t g (node_srv x) (x mod 4096)" for g k j
      using ring_node_bound [OF ok, of g k j] by (intro exI [of _ "node_id k j"]) simp
    then show ?thesis unfolding set_ring_rest [OF i(1)] ring_set [OF ok] ring_candidates_def takes_def by blast
  qed
  from walk_result_choice [OF this, of avoid] show ?thesis using i(2) by (auto simp: Let_def)
qed

subsection \<open>Fair turns\<close>

text \<open>A sequence of \<open>m\<close> choices.\<close>

fun chash_turns :: "nat \<Rightarrow> nat \<Rightarrow> int \<Rightarrow> chash \<Rightarrow> (nat option list \<times> chash) option" where
  "chash_turns 0 n now t = Some ([], t)"
| "chash_turns (Suc m) n now t =
    (case chash_get_next_server n now t None of None \<Rightarrow> None
     | Some (r, t') \<Rightarrow> map_option (\<lambda>(rs, t''). (r # rs, t'')) (chash_turns m n now t'))"

lemma ring_at_shift: "ring_at xs ((i + m) mod length xs) (Suc 0) = ring_at xs i (Suc m)"
  by (simp add: ring_at_def mod_Suc_eq)

lemma last_irrelevant:
  assumes "ring_ok t" "x \<in> ch_holds t Act \<union> ch_holds t Bck"
  shows "ring_ok (t\<lparr>ch_last := Some x\<rparr>)"
proof -
  have h: "ch_holds (t\<lparr>ch_last := Some x\<rparr>) g = ch_holds t g" for g by (rule holds_cong) simp_all
  show ?thesis using assms unfolding ring_ok_def h by auto
qed

lemma root_last [simp]: "ch_root g (t\<lparr>ch_last := l\<rparr>) = ch_root g t"
  by (cases g) (simp_all add: ch_root_def)

lemma turn_step:
  assumes ok: "ring_ok t" and c: "chash_choose_group (ch_be t) = From_group g" and xs: "xs = eb_contents (ch_root g t)"
    and i: "i < length xs" and all: "\<forall>x \<in> set xs. takes now t x" and n: "length xs \<le> n"
  shows "chash_get_next_server n now (t\<lparr>ch_last := Some (ring_at xs i m)\<rparr>) None
    = Some (Some (node_srv (ring_at xs i (Suc m))), t\<lparr>ch_last := Some (ring_at xs i (Suc m))\<rparr>)"
proof -
  let ?t = "t\<lparr>ch_last := Some (ring_at xs i m)\<rparr>" and ?j = "(i + m) mod length xs"
  have j: "?j < length xs" by (rule in_range [OF i])
  have "ring_at xs i m \<in> ch_holds t g" using ring_okD(9) [OF ok, of g] j xs by (metis nth_mem ring_at_def)
  then have r: "ring_ok ?t" by (intro last_irrelevant [OF ok]) (cases g; simp)
  have xs': "xs = eb_contents (ch_root g ?t)" using xs by simp
  have L: "0 < length xs" using i by linarith
  have at: "ring_at xs ?j 0 = ring_at xs i m" using j by (simp add: ring_at_def)
  have "ring_at xs ?j (Suc 0) \<in> set xs" using in_range [OF i, of "Suc m"] unfolding ring_at_shift by (simp add: ring_at_def)
  then have t: "takes now ?t (ring_at xs ?j (Suc 0)) \<and> Some (node_srv (ring_at xs ?j (Suc 0))) \<noteq> None"
    using all by (simp add: takes_def)
  have w: "chash_walk n now ?t None g (Some (ring_at xs ?j 0)) (Some (ring_at xs ?j 0)) None =
      Some (walk_result now ?t None (ring_rest xs ?j 0) None)"
    using walk_finds [OF r xs' j L] n by simp
  show ?thesis
    using w walk_result_simps(2) [OF t] unfolding ring_rest_Cons [OF L] at ring_at_shift
    by (simp add: chash_get_next_server_def c)
qed

lemma turns_ok:
  assumes "ring_ok t" "chash_choose_group (ch_be t) = From_group g" "xs = eb_contents (ch_root g t)"
    and "i < length xs" "\<forall>x \<in> set xs. takes now t x" "length xs \<le> n"
  shows "chash_turns k n now (t\<lparr>ch_last := Some (ring_at xs i m)\<rparr>)
    = Some (map (\<lambda>q. Some (node_srv (ring_at xs i q))) [Suc m..<Suc m + k], t\<lparr>ch_last := Some (ring_at xs i (m + k))\<rparr>)"
proof (induction k arbitrary: m)
  case (Suc k)
  have u: "[Suc m..<Suc m + Suc k] = Suc m # [Suc (Suc m)..<Suc (Suc m) + k]" by (simp add: upt_conv_Cons del: upt_Suc)
  show ?case unfolding u using turn_step [OF assms, of m] Suc.IH [of "Suc m"] by (simp del: upt_Suc)
qed simp

lemma ring_rest_distinct:
  assumes "distinct xs" "i < length xs"
  shows "distinct (ring_rest xs i 0)"
proof -
  have "card (set (ring_rest xs i 0)) = length (ring_rest xs i 0)"
    unfolding set_ring_rest [OF assms(2)] by (simp add: distinct_card [OF assms(1)] ring_rest_def del: upt_Suc)
  then show ?thesis by (rule card_distinct)
qed

lemma count_turns: "count_list (map (\<lambda>x. Some (node_srv x)) ys) (Some k) = length (filter (\<lambda>x. node_srv x = k) ys)"
  by (induction ys) auto

lemma ring_count:
  assumes ok: "chash_ok t" and ys: "distinct ys" "set ys = set (eb_contents (ch_root g t))"
  shows "length (filter (\<lambda>x. node_srv x = k) ys) =
    (if k < length (srv (ch_be t)) \<and> group_of (srv (ch_be t) ! k) = g then entries (srv (ch_be t) ! k) (nodes_tot t k) else 0)"
proof -
  have "set (filter (\<lambda>x. node_srv x = k) ys) = node_id k ` {j. ring_node t g k j}"
  proof
    show "set (filter (\<lambda>x. node_srv x = k) ys) \<subseteq> node_id k ` {j. ring_node t g k j}"
    proof
      fix x assume "x \<in> set (filter (\<lambda>x. node_srv x = k) ys)"
      then have "ring_node t g k (x mod 4096)" "x = node_id k (x mod 4096)" using ys(2) ring_set [OF ok] by auto
      then show "x \<in> node_id k ` {j. ring_node t g k j}" by blast
    qed
    show "node_id k ` {j. ring_node t g k j} \<subseteq> set (filter (\<lambda>x. node_srv x = k) ys)"
      using ring_id_mem [OF ok] ring_node_bound [OF ok] ys(2) by auto
  qed
  moreover have "length (filter (\<lambda>x. node_srv x = k) ys) = card (set (filter (\<lambda>x. node_srv x = k) ys))"
    using distinct_card [OF distinct_filter [OF ys(1)]] by simp
  moreover have "card (node_id k ` {j. ring_node t g k j}) = card {j. ring_node t g k j}"
    by (intro card_image inj_onI) (simp add: node_id_def)
  moreover have "{j. ring_node t g k j} = {..<(if k < length (srv (ch_be t)) \<and> group_of (srv (ch_be t) ! k) = g
      then entries (srv (ch_be t) ! k) (nodes_tot t k) else 0)}"
    by (auto simp: ring_node_def entries_def)
  ultimately show ?thesis by simp
qed

text \<open>C21: weighted turns.  With active servers or the option allbackups, from a \<open>last\<close> node that is in the ring in use, and
  when no server is saturated, as many choices in a row, with no server to avoid, as the ring has nodes pick each server of the group in use exactly as often as it has nodes, that is its weight at
  most, the others never, and come back to the node where they started.\<close>

theorem chash_turns_fair:
  assumes "chash_reachable t" "srv_act (ch_be t) \<noteq> 0 \<or> use_all_bk (ch_be t)"
    and "ch_last t = Some (node_id k j)" "ring_node t (group_in_use (ch_be t)) k j"
    and "\<forall>s < length (srv (ch_be t)). has_slot now (ch_be t) s"
    and "m = length (eb_contents (ch_root (group_in_use (ch_be t)) t))"
  shows "\<exists>rs. chash_turns m m now t = Some (rs, t) \<and> (\<forall>s. count_list rs (Some s) =
    (if s < length (srv (ch_be t)) \<and> group_of (srv (ch_be t) ! s) = group_in_use (ch_be t)
     then entries (srv (ch_be t) ! s) (nodes_tot t s) else 0))"
proof -
  let ?g = "group_in_use (ch_be t)"
  define xs where "xs = eb_contents (ch_root ?g t)"
  have ok: "chash_ok t" using chash_reachable_ok [OF assms(1)] by simp
  have r: "ring_ok t" by (rule chash_okD(1) [OF ok])
  have m: "m = length xs" using assms(6) by (simp add: xs_def)
  obtain i where i: "i < length xs" "xs ! i = node_id k j" using ring_id_mem [OF ok assms(4)] by (auto simp: xs_def in_set_conv_nth)
  have "srv_act (ch_be t) \<noteq> 0 \<or> srv_bck (ch_be t) \<noteq> 0" using no_servers [OF ok] assms(4) by blast
  then have c: "chash_choose_group (ch_be t) = From_group ?g" using choose_group_use [OF ok assms(2)] by blast
  have all: "\<forall>x \<in> set xs. takes now t x" using assms(5) ring_set [OF ok, of ?g] by (auto simp: xs_def takes_def ring_node_def)
  have at: "ring_at xs i 0 = node_id k j" "ring_at xs i (length xs) = node_id k j" using i by (simp_all add: ring_at_def)
  have t: "t\<lparr>ch_last := Some (node_id k j)\<rparr> = t" using assms(3) by simp
  define ys where "ys = ring_rest xs i 0"
  have "chash_turns m m now t = Some (map (\<lambda>x. Some (node_srv x)) ys, t)"
  proof -
    have e: "Suc 0 + length xs = Suc (length xs)" by simp
    have "chash_turns (length xs) (length xs) now (t\<lparr>ch_last := Some (ring_at xs i 0)\<rparr>)
      = Some (map (\<lambda>q. Some (node_srv (ring_at xs i q))) [Suc 0..<Suc (length xs)], t\<lparr>ch_last := Some (ring_at xs i (0 + length xs))\<rparr>)"
      using turns_ok [OF r c xs_def i(1) all order_refl, of "length xs" 0] unfolding e .
    then show ?thesis unfolding m add_0 at t ys_def ring_rest_def map_map comp_def .
  qed
  moreover have "distinct ys" "set ys = set (eb_contents (ch_root ?g t))"
    using contents_sorted [OF ring_okD(8) [OF r, of ?g]] ring_rest_distinct [OF _ i(1)] set_ring_rest [OF i(1)]
    by (simp_all add: ys_def xs_def)
  note ring_count [OF ok this]
  ultimately show ?thesis unfolding count_turns [symmetric] by blast
qed

subsection \<open>A position outside of the ring\<close>

lemma walk_loops:
  assumes "\<forall>y \<in> A. \<exists>z \<in> A. node_after g t (Some y) = Some z" "x \<notin> A" "\<forall>y \<in> A. \<not> takes now t y"
  shows "node_after g t node = Some y \<Longrightarrow> y \<in> A \<Longrightarrow> chash_walk n now t avoid g node (Some x) avoided = None"
proof (induction n arbitrary: node y avoided)
  case (Suc n)
  obtain z where z: "node_after g t (Some y) = Some z" "z \<in> A" using assms(1) Suc.prems(2) by blast
  have no: "\<not> has_slot now (ch_be t) (node_srv y)" using assms(3) Suc.prems(2) by (simp add: takes_def)
  have "y \<noteq> x" using assms(2) Suc.prems(2) by blast
  then show ?case using Suc.IH [OF z, of avoided] no
    unfolding walk_some [OF Suc.prems(1) refl refl] by simp
qed simp

lemma after_in_ring:
  assumes "ring_ok t" "y \<in> set (eb_contents (ch_root g t))"
  shows "\<exists>z \<in> set (eb_contents (ch_root g t)). node_after g t (Some y) = Some z"
proof -
  define xs where "xs = eb_contents (ch_root g t)"
  obtain i where i: "i < length xs" "y = xs ! i" using assms(2) by (auto simp: in_set_conv_nth xs_def)
  have "node_after g t (Some (ring_at xs i 0)) = Some (ring_at xs i 1)" using node_after_at [OF assms(1) xs_def i(1), of 0] by simp
  moreover have "ring_at xs i 1 \<in> set xs" using in_range [OF i(1), of 1] by (simp add: ring_at_def)
  ultimately show ?thesis using i by (auto simp: ring_at_def xs_def)
qed

lemma after_in_other:
  assumes ok: "ring_ok t" and c: "eb_contents (ch_root g' t) = ps @ y # qs" and ne: "eb_contents (ch_root g t) \<noteq> []"
  shows "\<exists>z \<in> set qs \<union> set (eb_contents (ch_root g t)). node_after g t (Some y) = Some z"
proof -
  have "ch_next t y = (case qs of [] \<Rightarrow> None | z # _ \<Rightarrow> Some z)"
    using next_in_root [OF ok, of y g'] next_contents [OF ring_okD(8) [OF ok] c] c by simp
  moreover have "eb_first (ch_root g t) = Some (hd (eb_contents (ch_root g t)))"
    using ne by (cases "eb_contents (ch_root g t)") (simp_all add: first_contents)
  ultimately show ?thesis using ne by (cases qs) (simp_all add: node_after_def)
qed

text \<open>An endless walk.  When \<open>last\<close> is a node of the group that is not in use, as after the last active
  server came back, and no server accepts a connection, \<open>chash_get_next_server\<close> does not return: the
  walk goes round the ring in use and never meets the node where it should stop.\<close>

theorem chash_next_endless:
  assumes "chash_reachable t" "chash_choose_group (ch_be t) = From_group g"
    and "ch_last t = Some (node_id k j)" "ring_node t g' k j" "g' \<noteq> g" "ring_node t g k' j'"
    and "\<forall>s < length (srv (ch_be t)). \<not> has_slot now (ch_be t) s"
  shows "chash_get_next_server n now t avoid = None"
proof -
  have ok: "chash_ok t" using chash_reachable_ok [OF assms(1)] by simp
  have r: "ring_ok t" by (rule chash_okD(1) [OF ok])
  let ?x = "node_id k j" let ?xs = "eb_contents (ch_root g t)"
  obtain ps qs where c: "eb_contents (ch_root g' t) = ps @ ?x # qs" using split_list [OF ring_id_mem [OF ok assms(4)]] by blast
  have ne: "?xs \<noteq> []" using ring_id_mem [OF ok assms(6)] by auto
  let ?A = "set qs \<union> set ?xs"
  have "?x \<notin> set ?xs" using assms(4,5) ring_set [OF ok, of g] ring_node_bound [OF ok assms(4)] by (auto simp: ring_node_def)
  moreover have "?x \<notin> set qs" using contents_sorted [OF ring_okD(8) [OF r, of g']] c by simp
  ultimately have x: "?x \<notin> ?A" by blast
  have succ: "\<exists>z \<in> ?A. node_after g t (Some y) = Some z" if "y \<in> ?A" for y
  proof (cases "y \<in> set ?xs")
    case True
    then show ?thesis using after_in_ring [OF r] by blast
  next
    case False
    then obtain q1 q2 where q: "qs = q1 @ y # q2" using \<open>y \<in> ?A\<close> split_list [of y qs] by blast
    then show ?thesis using after_in_other [OF r _ ne, of g' "ps @ ?x # q1" y q2] c by auto
  qed
  obtain y where y: "node_after g t (Some ?x) = Some y" "y \<in> ?A" using after_in_other [OF r c ne] by blast
  have no: "\<not> takes now t y" if "y \<in> ?A" for y
  proof -
    have "y \<in> set (eb_contents (ch_root g' t)) \<union> set ?xs" using that c by auto
    then have "node_srv y < length (srv (ch_be t))" using ring_set [OF ok] by (auto simp: ring_node_def)
    then show ?thesis using assms(7) by (simp add: takes_def)
  qed
  have "chash_walk n now t avoid g (Some ?x) (Some ?x) None = None"
    using walk_loops [OF _ x _ y] succ no by blast
  then show ?thesis using assms(2,3) by (simp add: chash_get_next_server_def)
qed

text \<open>A walk cut short.  Without a \<open>last\<close> node, as after its server went down alone or after a failed
  choice, only the first node of the ring is looked at: when its server accepts no connection, no
  server is returned, whatever the others accept.\<close>

theorem chash_next_one_node:
  assumes "chash_choose_group (ch_be t) = From_group g" "ch_last t = None"
    and "eb_first (ch_root g t) = Some x" "\<not> has_slot now (ch_be t) (node_srv x)" "0 < n"
  shows "chash_get_next_server n now t avoid = Some (None, t)"
proof -
  obtain m where m: "n = Suc m" using assms(5) by (cases n) auto
  have "node_after g t None = Some x" using assms(3) by (simp add: node_after_def)
  from walk_some [OF this refl refl, of m now avoid None None]
  have "chash_walk n now t avoid g None None None = Some (None, None)" using assms(4) m by simp
  then show ?thesis using assms(1,2) by (simp add: chash_get_next_server_def)
qed

subsection \<open>On concrete rings\<close>

lemma ring1_contents: "eb_contents (ch_act ring1) = [4097, 4096, 0]"
proof -
  have p: "ch_puid ring1 = (\<lambda>k. of_nat k + 1)" by (simp add: ring1_def init_frame ring_of_def)
  have h: "node_hash ring1 0 0 = full_hash 4096" "node_hash ring1 1 0 = full_hash 8192" "node_hash ring1 1 1 = full_hash 8193"
    by (simp_all add: node_hash_def p)
  have v: "full_hash 8193 < full_hash 8192" "full_hash 8192 < full_hash 4096" by code_simp+
  have n: "node_srv 4097 = 1" "node_srv 4096 = 1" "node_srv 0 = 0" "(4097 :: nat) mod 4096 = 1" by (simp_all add: node_srv_def)
  have "x \<in> {4097, 4096, 0} \<longleftrightarrow> ring_node ring1 Act (node_srv x) (x mod 4096)" for x
  proof -
    have e: "(4097 :: nat) = 4096 * 1 + 1" "(4096 :: nat) = 4096 * 1 + 0" "(0 :: nat) = 4096 * 0 + 0" by simp_all
    have "x = 4097 \<longleftrightarrow> node_srv x = 1 \<and> x mod 4096 = 1" unfolding ring_node_cases e(1) [symmetric] by simp
    moreover have "x = 4096 \<longleftrightarrow> node_srv x = 1 \<and> x mod 4096 = 0" unfolding ring_node_cases e(2) [symmetric] by simp
    moreover have "x = 0 \<longleftrightarrow> node_srv x = 0 \<and> x mod 4096 = 0" unfolding ring_node_cases e(3) [symmetric] by simp
    ultimately show ?thesis unfolding ring1_nodes insert_iff empty_iff by metis
  qed
  then have "set [4097, 4096, 0] = {x. ring_node ring1 Act (node_srv x) (x mod 4096)}"
    by (intro set_eqI) (simp only: list.set mem_Collect_eq)
  then have "eb_contents (ch_root Act ring1) = [4097, 4096, 0]"
  proof (rule contents_unique [OF rings_reachable(1)])
    have m: "map (\<lambda>x. node_hash ring1 (node_srv x) (x mod 4096)) [4097, 4096, 0] = [full_hash 8193, full_hash 8192, full_hash 4096]"
      by (simp add: n h [simplified])
    have w: "full_hash 8193 < full_hash 4096" using order_less_trans [OF v] .
    show "sorted (map (\<lambda>x. node_hash ring1 (node_srv x) (x mod 4096)) [4097, 4096, 0])"
      "distinct (map (\<lambda>x. node_hash ring1 (node_srv x) (x mod 4096)) [4097, 4096, 0])"
      unfolding m using less_imp_le [OF v(1)] less_imp_le [OF v(2)] less_imp_le [OF w] less_imp_neq [OF v(1)] less_imp_neq [OF v(2)]
        less_imp_neq [OF w] by simp_all
  qed
  then show ?thesis by (simp add: ch_root_def)
qed

text \<open>The same ring after a first choice.\<close>

definition ring1_next :: chash where
  "ring1_next = ring1\<lparr>ch_last := Some (node_id 1 1)\<rparr>"

lemma ring1_last: "ch_last ring1 = None"
  by (simp add: ring1_def init_frame)

lemma ring1_slots: "s < length (srv (ch_be ring1)) \<Longrightarrow> has_slot 0 (ch_be ring1) s"
proof -
  have "has_slot 0 (ch_be ring1) 0" "has_slot 0 (ch_be ring1) 1" unfolding ring1_def init_frame by code_simp+
  moreover assume "s < length (srv (ch_be ring1))"
  then have "s = 0 \<or> s = 1" by (auto simp: ring1_be)
  ultimately show ?thesis by blast
qed

lemma ring1_next_reachable: "chash_reachable ring1_next"
proof (rule chash_reachable.next_server [OF rings_reachable(1)])
  have "node_after Act ring1 None = Some 4097" by (simp add: node_after_def first_contents ch_root_def ring1_contents)
  from walk_some [OF this refl refl, of 0 0 None None None]
  have "chash_walk (Suc 0) 0 ring1 None Act None None None = Some (Some 1, Some 4097)"
    using ring1_slots [of 1] by (simp add: node_srv_def ring1_be)
  then show "chash_get_next_server (Suc 0) 0 ring1 None = Some (Some 1, ring1_next)"
    by (simp add: chash_get_next_server_def chash_choose_group_def ring1_be ring1_next_def node_id_def ring1_last)
qed

lemma ring1_next_facts:
  "ch_be ring1_next = ch_be ring1" "ch_last ring1_next = Some (node_id 1 1)" "ring_node ring1_next Act 1 1"
  "group_in_use (ch_be ring1_next) = Act" "length (eb_contents (ch_root (group_in_use (ch_be ring1_next)) ring1_next)) = 3"
proof -
  show b: "ch_be ring1_next = ch_be ring1" and "ch_last ring1_next = Some (node_id 1 1)" by (simp_all add: ring1_next_def)
  show "ring_node ring1_next Act 1 1" using ring1_nodes [of 1 1] by (simp add: ring_node_def ring1_next_def)
  show g: "group_in_use (ch_be ring1_next) = Act" by (simp add: b group_in_use_def ring1_be)
  show "length (eb_contents (ch_root (group_in_use (ch_be ring1_next)) ring1_next)) = 3"
    unfolding g by (simp add: ch_root_def ring1_next_def ring1_contents)
qed

theorem chash_next_choice_witness:
  "\<exists>r t'. chash_get_next_server 3 0 ring1_next (Some 1) = Some (r, t')
    \<and> best_choice (\<lambda>_ _. True) (ring_candidates 0 ring1_next) (Some 1) r"
proof (rule chash_next_choice [OF ring1_next_reachable])
  show "ch_last ring1_next = Some (node_id 1 1)" "ring_node ring1_next (group_in_use (ch_be ring1_next)) 1 1"
    using ring1_next_facts(2,3) unfolding ring1_next_facts(4) .
  show "length (eb_contents (ch_root (group_in_use (ch_be ring1_next)) ring1_next)) \<le> 3" unfolding ring1_next_facts(5) ..
  show "srv_act (ch_be ring1_next) \<noteq> 0 \<or> use_all_bk (ch_be ring1_next)" by (simp add: ring1_next_facts(1) ring1_be)
qed

theorem chash_turns_fair_witness:
  "\<exists>rs. chash_turns 3 3 0 ring1_next = Some (rs, ring1_next) \<and> (\<forall>s. count_list rs (Some s) =
    (if s < length (srv (ch_be ring1_next)) \<and> group_of (srv (ch_be ring1_next) ! s) = group_in_use (ch_be ring1_next)
     then entries (srv (ch_be ring1_next) ! s) (nodes_tot ring1_next s) else 0))"
proof (rule chash_turns_fair [OF ring1_next_reachable])
  show "ch_last ring1_next = Some (node_id 1 1)" "ring_node ring1_next (group_in_use (ch_be ring1_next)) 1 1"
    using ring1_next_facts(2,3) unfolding ring1_next_facts(4) .
  show "3 = length (eb_contents (ch_root (group_in_use (ch_be ring1_next)) ring1_next))" using ring1_next_facts(5) by (rule sym)
  show "srv_act (ch_be ring1_next) \<noteq> 0 \<or> use_all_bk (ch_be ring1_next)" by (simp add: ring1_next_facts(1) ring1_be)
  show "\<forall>s < length (srv (ch_be ring1_next)). has_slot 0 (ch_be ring1_next) s" using ring1_slots by (simp add: ring1_next_facts(1))
qed

text \<open>A backup server took the last connection; it is full when the active server, full as well, comes back.\<close>

definition ring2_next :: chash where
  "ring2_next = ring2\<lparr>ch_last := Some (node_id 1 0)\<rparr>"

definition started0 :: server where
  "started0 = set_status SRV_ST_RUNNING 0 1 (srv (ch_be ring2) ! 0)"

definition ring2_up :: chash where
  "ring2_up = chash_set_server_status_up 0 (on_ch (put_srv 0 started0) ring2_next)"

definition ring2_full :: chash where
  "ring2_full = on_ch (put_srv 1 (set_load 1 0 (srv (ch_be ring2_up) ! 1))) ring2_up"

lemma ring2_contents: "eb_contents (ch_bck ring2) = [4096]"
proof -
  have tot: "nodes_tot ring2 1 = 16" "nodes_tot ring2 0 = 16"
    unfolding ring2_def by (subst init_frame; simp add: ring_of_def; code_simp)+
  have n: "ring_node ring2 Bck k j \<longleftrightarrow> k = 1 \<and> j = 0" for k j
    using tot unfolding ring_node_def ring2_be(1) by (auto simp: less_Suc_eq nth_Cons split: nat.splits)
      (simp add: srv_lb_commit_status_def srv_is_usable_def lb_usable_def)
  have e: "(4096 :: nat) = 4096 * 1 + 0" by simp
  have "x = 4096 \<longleftrightarrow> node_srv x = 1 \<and> x mod 4096 = 0" for x unfolding ring_node_cases e [symmetric] by simp
  then have "set [4096] = {x. ring_node ring2 Bck (node_srv x) (x mod 4096)}"
    unfolding n by (intro set_eqI) (simp only: list.set mem_Collect_eq insert_iff empty_iff simp_thms)
  then have "eb_contents (ch_root Bck ring2) = [4096]" by (rule contents_unique [OF rings_reachable(2)]) simp_all
  then show ?thesis by (simp add: ch_root_def)
qed

lemma ring2_next_reachable: "chash_reachable ring2_next"
proof (rule chash_reachable.next_server [OF rings_reachable(2)])
  have l: "ch_last ring2 = None" by (simp add: ring2_def init_frame)
  have slot: "has_slot 0 (ch_be ring2) 1" unfolding ring2_def init_frame by code_simp
  have f: "fbck (ch_be ring2) = None" unfolding ring2_def init_frame by code_simp
  have "node_after Bck ring2 None = Some 4096" by (simp add: node_after_def first_contents ch_root_def ring2_contents)
  from walk_some [OF this refl refl, of 0 0 None None None]
  have "chash_walk (Suc 0) 0 ring2 None Bck None None None = Some (Some 1, Some 4096)"
    using slot by (simp add: node_srv_def)
  then show "chash_get_next_server (Suc 0) 0 ring2 None = Some (Some 1, ring2_next)"
    by (simp add: chash_get_next_server_def chash_choose_group_def ring2_be ring2_next_def node_id_def l f)
qed

lemma ring2_full_reachable: "chash_reachable ring2_full"
proof -
  have "chash_reachable ring2_up"
    unfolding ring2_up_def
  proof (rule chash_reachable.up [OF ring2_next_reachable])
    show "0 < length (srv (ch_be ring2_next))" by (simp add: ring2_next_def ring2_be)
    show "started0 = set_status SRV_ST_RUNNING 0 (eweight (srv (ch_be ring2_next) ! 0)) (srv (ch_be ring2_next) ! 0)"
      by (simp add: started0_def ring2_next_def ring2_be)
    show "srv_is_usable (srv (ch_be ring2_next) ! 0) \<longrightarrow> srv_is_usable started0"
      by (simp add: ring2_next_def ring2_be) (simp add: srv_lb_commit_status_def srv_is_usable_def lb_usable_def)
  qed
  then show ?thesis unfolding ring2_full_def
    by (rule chash_reachable.load) (simp add: ring2_up_def status_be ring2_next_def, code_simp)
qed

lemma add_nodes_last:
  "ch_last t = Some x \<Longrightarrow> node_srv x \<noteq> k \<Longrightarrow> w \<le> 4096 \<Longrightarrow> ch_last (add_nodes n k w t) = Some x"
proof (induction n arbitrary: t)
  case (Suc n)
  have "ch_last (add_node k t) = Some x" if "int (nodes_now t k) < w"
  proof -
    have "node_id k (nodes_now t k) \<noteq> x" using that Suc.prems(2,3) by auto
    then show ?thesis using Suc.prems(1) by (auto simp: add_node_def Let_def skip_last_def split: lb_group.split)
  qed
  then show ?case using Suc by simp
qed simp

lemma ring2_full_be:
  "ch_be ring2_full = put_srv 1 (set_load 1 0 (srv (px_status_up 0 (put_srv 0 (set_status SRV_ST_RUNNING 0 1
     (srv (initial_backend (ch_be (ring_of [(server_of 1 False)\<lparr>state := SRV_ST_STOPPED, served := 1\<rparr>, server_of 1 True]))) ! 0))
     (initial_backend (ch_be (ring_of [(server_of 1 False)\<lparr>state := SRV_ST_STOPPED, served := 1\<rparr>, server_of 1 True]))))) ! 1))
   (px_status_up 0 (put_srv 0 (set_status SRV_ST_RUNNING 0 1
     (srv (initial_backend (ch_be (ring_of [(server_of 1 False)\<lparr>state := SRV_ST_STOPPED, served := 1\<rparr>, server_of 1 True]))) ! 0))
     (initial_backend (ch_be (ring_of [(server_of 1 False)\<lparr>state := SRV_ST_STOPPED, served := 1\<rparr>, server_of 1 True])))))"
  by (simp add: ring2_full_def ring2_up_def ring2_next_def started0_def status_be ring2_def init_frame)

lemma ring2_full_servers:
  "chash_choose_group (ch_be ring2_full) = From_group Act" "length (srv (ch_be ring2_full)) = 2"
  "has_slot 0 (ch_be ring2_full) 0 = False" "has_slot 0 (ch_be ring2_full) 1 = False"
  "map srv_is_usable (srv (ch_be ring2_full)) = [True, True]" "map eweight (srv (ch_be ring2_full)) = [1, 1]"
  "map group_of (srv (ch_be ring2_full)) = [Act, Bck]"
  unfolding ring2_full_be by code_simp+

lemma ring2_full_nodes: "ring_node ring2_full Bck 1 0" "ring_node ring2_full Act 0 0"
proof -
  have "nodes_tot ring2_full = nodes_tot ring2"
    by (simp add: ring2_full_def ring2_up_def ring2_next_def chash_set_server_status_up_def Let_def)
  moreover have "nodes_tot ring2 0 = 16" "nodes_tot ring2 1 = 16"
    unfolding ring2_def by (subst init_frame; simp add: ring_of_def; code_simp)+
  moreover have "P (srv (ch_be ring2_full) ! k) = map P (srv (ch_be ring2_full)) ! k" if "k < 2" for P :: "server \<Rightarrow> 'b" and k
    using that by (simp add: ring2_full_servers(2))
  note this [of 0 srv_is_usable] this [of 1 srv_is_usable] this [of 0 eweight] this [of 1 eweight] this [of 0 group_of] this [of 1 group_of]
  ultimately show "ring_node ring2_full Bck 1 0" "ring_node ring2_full Act 0 0"
    unfolding ring_node_def ring2_full_servers by simp_all
qed

lemma ring2_full_last: "ch_last ring2_full = Some (node_id 1 0)"
proof -
  let ?t = "on_ch (gain_server 0) (on_ch (put_srv 0 started0) ring2_next)"
  have u: "srv_is_usable (srv (ch_be ring2) ! 0) = False"
    by (simp add: ring2_be) (simp add: srv_lb_commit_status_def srv_is_usable_def lb_usable_def)
  have "nodes_now ring2_next 0 = 0"
    using chash_okD(4) [of ring2_next 0] chash_reachable_ok [OF ring2_next_reachable] u by (simp add: ring2_next_def ring2_be entries_def)
  moreover have "eweight started0 = 1" by (simp add: started0_def set_status_def)
  ultimately have "ch_last (chash_queue_dequeue_srv 0 ?t) = Some (node_id 1 0)"
    using add_nodes_last [of ?t "node_id 1 0" 0 1 "nodes_tot ring2_next 0"]
    by (simp add: chash_queue_dequeue_srv_def Let_def ring2_next_def ring2_be)
  then show ?thesis
    by (simp add: ring2_full_def ring2_up_def chash_set_server_status_up_def Let_def) (simp add: ring2_next_def)
qed

theorem chash_next_endless_witness: "chash_get_next_server 100 0 ring2_full None = None"
proof (rule chash_next_endless [OF ring2_full_reachable ring2_full_servers(1) ring2_full_last ring2_full_nodes(1) _ ring2_full_nodes(2)])
  show "\<forall>s < length (srv (ch_be ring2_full)). \<not> has_slot 0 (ch_be ring2_full) s"
    using ring2_full_servers(3,4) unfolding ring2_full_servers(2) less_2_cases_iff by auto
qed simp

text \<open>The first node of the first ring belongs to a full server, the other server is free.\<close>

definition ring1_full :: chash where
  "ring1_full = on_ch (put_srv 1 (set_load 1 0 (srv (ch_be ring1) ! 1))) ring1"

theorem chash_next_one_node_witness:
  "chash_get_next_server 100 0 ring1_full None = Some (None, ring1_full)"
proof (rule chash_next_one_node)
  have b: "ch_be ring1_full = put_srv 1 (set_load 1 0 (srv (initial_backend (ch_be (ring_of [server_of 1 False, server_of 2 False]))) ! 1))
    (initial_backend (ch_be (ring_of [server_of 1 False, server_of 2 False])))"
    by (simp add: ring1_full_def ring1_def init_frame)
  show "chash_choose_group (ch_be ring1_full) = From_group Act" unfolding b by code_simp
  have "has_slot 0 (ch_be ring1_full) 1 = False" unfolding b by code_simp
  then show "\<not> has_slot 0 (ch_be ring1_full) (node_srv 4097)" by (simp add: node_srv_def)
  show "ch_last ring1_full = None" by (simp add: ring1_full_def ring1_last)
  show "eb_first (ch_root Act ring1_full) = Some 4097" by (simp add: first_contents ch_root_def ring1_full_def ring1_contents)
qed simp

end
