(* ===== verification/HA_LB_Fwrr.thy ===== *)
theory HA_LB_Fwrr
  imports HA_LB_Tree
begin

section \<open>Weighted round robin (src/lb_fwrr.c)\<close>

text \<open>
  Each group, active or backup, has three trees: the servers placed in the current round, sorted by
  position, those waiting to be placed in it and those for the next round, sorted by weight.  The
  last two exchange their roles when the round ends: they are the trees \<open>t0\<close> and \<open>t1\<close>, and \<open>swapped\<close>
  tells which one is \<open>init\<close>.  Positions are unsigned and wrap.  The weights of the group are sums of
  weights, which are integers here; where the code mixes them with positions they are taken modulo
  \<open>2 ^ 32\<close>, as C does.
\<close>

subsection \<open>State\<close>

datatype fw_root = T0 | T1 | Curr

record fwrr_group =
  curr :: "eb option"
  t0 :: "eb option"
  t1 :: "eb option"
  swapped :: bool
  curr_pos :: int
  curr_weight :: int
  next_weight :: int

record fwrr =
  fw_be :: proxy
  fw_act :: fwrr_group
  fw_bck :: fwrr_group
  fw_tree :: "nat \<Rightarrow> fw_root option"
  fw_key :: "nat \<Rightarrow> u32"
  npos :: "nat \<Rightarrow> u32"
  lpos :: "nat \<Rightarrow> u32"
  rweight :: "nat \<Rightarrow> u32"

definition fw_init :: "fwrr_group \<Rightarrow> fw_root" where
  "fw_init gr = (if swapped gr then T1 else T0)"

definition fw_next :: "fwrr_group \<Rightarrow> fw_root" where
  "fw_next gr = (if swapped gr then T0 else T1)"

definition root_of :: "fw_root \<Rightarrow> fwrr_group \<Rightarrow> eb option" where
  "root_of r gr = (case r of T0 \<Rightarrow> t0 gr | T1 \<Rightarrow> t1 gr | Curr \<Rightarrow> curr gr)"

definition on_root :: "fw_root \<Rightarrow> (eb option \<Rightarrow> eb option) \<Rightarrow> fwrr_group \<Rightarrow> fwrr_group" where
  "on_root r f gr =
    (case r of T0 \<Rightarrow> gr\<lparr>t0 := f (t0 gr)\<rparr> | T1 \<Rightarrow> gr\<lparr>t1 := f (t1 gr)\<rparr> | Curr \<Rightarrow> gr\<lparr>curr := f (curr gr)\<rparr>)"

definition grp :: "lb_group \<Rightarrow> fwrr \<Rightarrow> fwrr_group" where
  "grp g t = (case g of Act \<Rightarrow> fw_act t | Bck \<Rightarrow> fw_bck t)"

definition on_grp :: "lb_group \<Rightarrow> (fwrr_group \<Rightarrow> fwrr_group) \<Rightarrow> fwrr \<Rightarrow> fwrr" where
  "on_grp g f t = (case g of Act \<Rightarrow> t\<lparr>fw_act := f (fw_act t)\<rparr> | Bck \<Rightarrow> t\<lparr>fw_bck := f (fw_bck t)\<rparr>)"

definition on_fw :: "(proxy \<Rightarrow> proxy) \<Rightarrow> fwrr \<Rightarrow> fwrr" where
  "on_fw f t = t\<lparr>fw_be := f (fw_be t)\<rparr>"

definition fw_group :: "nat \<Rightarrow> fwrr \<Rightarrow> lb_group" where
  "fw_group k t = group_of (srv (fw_be t) ! k)"

definition fw_weight :: "nat \<Rightarrow> fwrr \<Rightarrow> u32" where
  "fw_weight k t = word_of_int (eweight (srv (fw_be t) ! k))"

subsection \<open>The trees\<close>

definition fwrr_remove_from_tree :: "nat \<Rightarrow> fwrr \<Rightarrow> fwrr" where
  "fwrr_remove_from_tree k t = t\<lparr>fw_tree := (fw_tree t)(k := None)\<rparr>"

definition fwrr_dequeue_srv :: "nat \<Rightarrow> fwrr \<Rightarrow> fwrr" where
  "fwrr_dequeue_srv k t =
    (let del = (\<lambda>gr. gr\<lparr>curr := eb_delete k (curr gr), t0 := eb_delete k (t0 gr), t1 := eb_delete k (t1 gr)\<rparr>)
     in t\<lparr>fw_act := del (fw_act t), fw_bck := del (fw_bck t)\<rparr>)"

text \<open>Inserting the server with the key \<open>x\<close> into a tree of group \<open>g\<close>.\<close>

definition fw_link :: "lb_group \<Rightarrow> fw_root \<Rightarrow> u32 \<Rightarrow> nat \<Rightarrow> fwrr \<Rightarrow> fwrr" where
  "fw_link g r x k t =
    (let t = t\<lparr>fw_key := (fw_key t)(k := x)\<rparr>;
         t = on_grp g (on_root r (eb32_put (fw_key t) k)) t
     in t\<lparr>fw_tree := (fw_tree t)(k := Some r)\<rparr>)"

definition fwrr_queue_by_weight :: "lb_group \<Rightarrow> fw_root \<Rightarrow> nat \<Rightarrow> fwrr \<Rightarrow> fwrr" where
  "fwrr_queue_by_weight g r k t = fw_link g r (word_of_int SRV_EWGHT_MAX - fw_weight k t) k t"

definition fwrr_queue_srv :: "nat \<Rightarrow> fwrr \<Rightarrow> fwrr" where
  "fwrr_queue_srv k t =
    (let g = fw_group k t; gr = grp g t; s = srv (fw_be t) ! k
     in if \<not> srv_is_usable s then fwrr_remove_from_tree k t
        else if eweight s \<le> 0 \<or> npos t k \<ge> word_of_int (2 * curr_weight gr)
                \<or> npos t k \<ge> word_of_int (curr_weight gr + next_weight gr)
        then fwrr_queue_by_weight g (fw_next gr) k
               (t\<lparr>npos := (npos t)(k := npos t k - word_of_int (curr_weight gr))\<rparr>)
        else fw_link g Curr
               (256 * npos t k + (word_of_int SRV_EWGHT_MAX + rweight t k - fw_weight k t) div word_of_int BE_WEIGHT_SCALE) k t)"

definition fwrr_get_srv_init :: "nat \<Rightarrow> fwrr \<Rightarrow> fwrr" where
  "fwrr_get_srv_init k t = t\<lparr>npos := (npos t)(k := 0), rweight := (rweight t)(k := 0)\<rparr>"

definition fwrr_get_srv_next :: "nat \<Rightarrow> fwrr \<Rightarrow> fwrr" where
  "fwrr_get_srv_next k t =
    t\<lparr>npos := (npos t)(k := npos t k + word_of_int (curr_weight (grp (fw_group k t) t)))\<rparr>"

definition fwrr_get_srv_down :: "nat \<Rightarrow> fwrr \<Rightarrow> fwrr" where
  "fwrr_get_srv_down k t = t\<lparr>npos := (npos t)(k := word_of_int (curr_pos (grp (fw_group k t) t)))\<rparr>"

definition fwrr_get_srv :: "nat \<Rightarrow> fwrr \<Rightarrow> fwrr" where
  "fwrr_get_srv k t =
    (let gr = grp (fw_group k t) t
     in if fw_tree t k = Some (fw_init gr) then fwrr_get_srv_init k t
        else if fw_tree t k = Some (fw_next gr) then fwrr_get_srv_next k t
        else if fw_tree t k = None then fwrr_get_srv_down k t
        else t)"

definition fwrr_switch_trees :: "fwrr_group \<Rightarrow> fwrr_group" where
  "fwrr_switch_trees gr =
    gr\<lparr>swapped := \<not> swapped gr, curr_weight := next_weight gr, curr_pos := next_weight gr\<rparr>"

subsection \<open>Status changes\<close>

definition add_weight :: "lb_group \<Rightarrow> int \<Rightarrow> fwrr \<Rightarrow> fwrr" where
  "add_weight g w = on_grp g (\<lambda>gr. gr\<lparr>next_weight := next_weight gr + w\<rparr>)"

definition fw_lose :: "nat \<Rightarrow> fwrr \<Rightarrow> fwrr" where
  "fw_lose k t =
    (let s = srv (fw_be t) ! k; t = add_weight (fw_group k t) (- prev_eweight s) t
     in if is_backup s
        then on_fw (\<lambda>px. px\<lparr>tot_wbck := next_weight (fw_bck t), srv_bck := srv_bck px - 1,
               fbck := (if fbck px = Some k then next_backup (srv px) k else fbck px)\<rparr>) t
        else on_fw (\<lambda>px. px\<lparr>tot_wact := next_weight (fw_act t), srv_act := srv_act px - 1\<rparr>) t)"

definition fw_gain :: "nat \<Rightarrow> fwrr \<Rightarrow> fwrr" where
  "fw_gain k t =
    (let s = srv (fw_be t) ! k; t = add_weight (fw_group k t) (eweight s) t
     in if is_backup s
        then on_fw (\<lambda>px. px\<lparr>tot_wbck := next_weight (fw_bck t), srv_bck := srv_bck px + 1,
               fbck := (if use_all_bk px then fbck px
                        else case fbck px of None \<Rightarrow> Some k
                        | Some j \<Rightarrow> if k < j \<and> j < length (srv px) then Some k else Some j)\<rparr>) t
        else on_fw (\<lambda>px. px\<lparr>tot_wact := next_weight (fw_act t), srv_act := srv_act px + 1\<rparr>) t)"

definition fw_reweigh :: "nat \<Rightarrow> fwrr \<Rightarrow> fwrr" where
  "fw_reweigh k t =
    (let s = srv (fw_be t) ! k; t = add_weight (fw_group k t) (eweight s - prev_eweight s) t
     in on_fw (\<lambda>px. px\<lparr>tot_wact := next_weight (fw_act t), tot_wbck := next_weight (fw_bck t)\<rparr>) t)"

text \<open>The position of a server that comes back; \<open>None\<close> is a division by zero.\<close>

definition fw_place :: "nat \<Rightarrow> fwrr \<Rightarrow> fwrr option" where
  "fw_place k t =
    (let t = fwrr_get_srv k t; gr = grp (fw_group k t) t
     in if fw_weight k t = 0 then None
        else Some (fwrr_queue_srv k (t\<lparr>npos := (npos t)(k := word_of_int (curr_pos gr)
               + word_of_int (next_weight gr + curr_weight gr - curr_pos gr) div fw_weight k t)\<rparr>)))"

definition fwrr_set_server_status_down :: "nat \<Rightarrow> fwrr \<Rightarrow> fwrr option" where
  "fwrr_set_server_status_down k t =
    (let s = srv (fw_be t) ! k
     in if \<not> srv_lb_status_changed s then Some t
        else if srv_is_usable s then Some (on_fw (commit_server k) t)
        else if \<not> srv_was_usable s then Some (on_fw (\<lambda>px. commit_server k (update_backend_weight px)) t)
        else let t = fwrr_remove_from_tree k (fwrr_dequeue_srv k (fw_lose k t))
             in Some (on_fw (\<lambda>px. commit_server k (update_backend_weight px)) t))"

definition fwrr_set_server_status_up :: "nat \<Rightarrow> fwrr \<Rightarrow> fwrr option" where
  "fwrr_set_server_status_up k t =
    (let s = srv (fw_be t) ! k
     in if \<not> srv_lb_status_changed s then Some t
        else if \<not> srv_is_usable s then Some (on_fw (commit_server k) t)
        else if srv_was_usable s then Some (on_fw (\<lambda>px. commit_server k (update_backend_weight px)) t)
        else map_option (on_fw (\<lambda>px. commit_server k (update_backend_weight px))) (fw_place k (fw_gain k t)))"

text \<open>A server that stays in the current or the next round gets a new position.\<close>

definition fw_replace :: "nat \<Rightarrow> fwrr \<Rightarrow> fwrr" where
  "fw_replace k t =
    (let t = fwrr_get_srv k t; gr = grp (fw_group k t) t; w = fw_weight k t;
         t = (if w \<noteq> 0 then
                let prev_next = npos t k; step = word_of_int (next_weight gr) div w;
                    p = lpos t k + step;
                    p = (if p > prev_next then prev_next else p);
                    p = (if p < word_of_int (curr_pos gr + 2) then word_of_int (curr_pos gr) + step else p)
                in t\<lparr>npos := (npos t)(k := p), rweight := (rweight t)(k := 0)\<rparr>
              else t\<lparr>npos := (npos t)(k := word_of_int (curr_pos gr + curr_weight gr))\<rparr>)
     in fwrr_queue_srv k (fwrr_dequeue_srv k t))"

definition fwrr_update_server_weight :: "nat \<Rightarrow> fwrr \<Rightarrow> fwrr option" where
  "fwrr_update_server_weight k t =
    (let s = srv (fw_be t) ! k; old_state = srv_was_usable s; new_state = srv_is_usable s
     in if \<not> srv_lb_status_changed s then Some t
        else if \<not> old_state \<and> \<not> new_state then Some (on_fw (commit_server k) t)
        else if \<not> old_state \<and> new_state then fwrr_set_server_status_up k t
        else if old_state \<and> \<not> new_state then fwrr_set_server_status_down k t
        else let t = fw_reweigh k t; g = fw_group k t; gr = grp g t;
                 t' = (if fw_tree t k = Some (fw_init gr)
                       then Some (fwrr_queue_by_weight g (fw_init gr) k (fwrr_dequeue_srv k t))
                       else if fw_tree t k = None then fw_place k (fwrr_dequeue_srv k t)
                       else Some (fw_replace k t))
             in map_option (on_fw (\<lambda>px. commit_server k (update_backend_weight px))) t')"

definition empty_group :: "int \<Rightarrow> fwrr_group" where
  "empty_group w = \<lparr>curr = None, t0 = None, t1 = None, swapped = False, curr_pos = w, curr_weight = w, next_weight = w\<rparr>"

fun fw_queue_all :: "nat list \<Rightarrow> fwrr \<Rightarrow> fwrr" where
  "fw_queue_all [] t = t"
| "fw_queue_all (k # ks) t =
    fw_queue_all ks (if srv_is_usable (srv (fw_be t) ! k) then fwrr_queue_by_weight (fw_group k t) T0 k t else t)"

definition fwrr_init_server_groups :: "fwrr \<Rightarrow> fwrr" where
  "fwrr_init_server_groups t =
    (let px = fw_be t; px = px\<lparr>wdiv := BE_WEIGHT_SCALE\<rparr>;
         px = px\<lparr>srv := map (initial_weight (wmult px) (wdiv px)) (srv px)\<rparr>;
         px = update_backend_weight (recount_servers px)
     in fw_queue_all [0..<length (srv px)]
          (t\<lparr>fw_be := px, fw_act := empty_group (tot_wact px), fw_bck := empty_group (tot_wbck px)\<rparr>))"

subsection \<open>Choosing a server\<close>

definition fwrr_get_server_from_group :: "lb_group \<Rightarrow> fwrr \<Rightarrow> nat option \<times> fwrr" where
  "fwrr_get_server_from_group g t =
    (let gr = grp g t; node = eb_first (curr gr)
     in if (case node of None \<Rightarrow> True | Some s \<Rightarrow> npos t s > word_of_int (curr_pos gr))
        then case eb_first (root_of (fw_init gr) gr) of None \<Rightarrow> (node, t)
             | Some s \<Rightarrow> let t = fwrr_get_srv_init s t in (if fw_weight s t = 0 then None else Some s, t)
        else (node, t))"

definition fwrr_update_position :: "lb_group \<Rightarrow> nat \<Rightarrow> fwrr \<Rightarrow> fwrr option" where
  "fwrr_update_position g s t =
    (let gr = grp g t; w = fw_weight s t; nw = word_of_int (next_weight gr)
     in if w = 0 then None
        else let l = (if npos t s = 0 then word_of_int (curr_pos gr) else npos t s);
                 n = l + nw div w; r = rweight t s + nw mod w;
                 n' = (if r \<ge> w then n + 1 else n); r' = (if r \<ge> w then r - w else r)
             in Some (t\<lparr>lpos := (lpos t)(s := l), npos := (npos t)(s := n'), rweight := (rweight t)(s := r')\<rparr>))"

text \<open>The first server of the group, after a switch of the trees if there is none; a switch happens only once.\<close>

definition fw_pick :: "lb_group \<Rightarrow> bool \<Rightarrow> nat option \<Rightarrow> fwrr \<Rightarrow> nat option \<times> bool \<times> fwrr" where
  "fw_pick g switched avoided t =
    (case fwrr_get_server_from_group g t of (Some s, t) \<Rightarrow> (Some s, switched, t)
     | (None, t) \<Rightarrow>
         if switched then (avoided, switched, t)
         else case fwrr_get_server_from_group g (on_grp g fwrr_switch_trees t) of
                (Some s, t) \<Rightarrow> (Some s, True, t) | (None, t) \<Rightarrow> (avoided, True, t))"

text \<open>The loop over saturated servers; \<open>full\<close> holds those taken out of the trees, \<open>n\<close> bounds the iterations.\<close>

fun fw_loop :: "nat \<Rightarrow> int \<Rightarrow> lb_group \<Rightarrow> nat option \<Rightarrow> bool \<Rightarrow> nat option \<Rightarrow> nat list \<Rightarrow> fwrr
    \<Rightarrow> (nat option \<times> bool \<times> nat list \<times> fwrr) option" where
  "fw_loop 0 now g avoid switched avoided full t = None"
| "fw_loop (Suc n) now g avoid switched avoided full t =
    (let gr = grp g t;
         t = (if curr_weight gr = 0
              then on_grp g (\<lambda>gr. gr\<lparr>curr_weight := next_weight gr, curr_pos := next_weight gr\<rparr>) t else t)
     in case fw_pick g switched avoided t of
          (None, switched, t) \<Rightarrow> Some (None, switched, full, t)
        | (Some s, switched, t) \<Rightarrow>
            (case fwrr_update_position g s t of None \<Rightarrow> None
             | Some t \<Rightarrow>
                 let t = on_grp g (\<lambda>gr. gr\<lparr>curr_pos := curr_pos gr + 1\<rparr>) (fwrr_dequeue_srv s t);
                     ok = has_slot now (fw_be t) s
                 in if ok \<and> (Some s \<noteq> avoid \<or> avoided \<noteq> None)
                    then Some (Some s, switched, full, fwrr_queue_srv s t)
                    else fw_loop n now g avoid switched (if ok then Some s else avoided) (s # full) t))"

fun fw_requeue :: "lb_group \<Rightarrow> bool \<Rightarrow> nat option \<Rightarrow> nat list \<Rightarrow> fwrr \<Rightarrow> fwrr" where
  "fw_requeue g switched r [] t = t"
| "fw_requeue g switched r (s # full) t =
    fw_requeue g switched r full
      (if Some s = r then t
       else if switched then fwrr_queue_by_weight g (fw_init (grp g t)) s t
       else fwrr_queue_srv s t)"

definition fwrr_get_next_server :: "nat \<Rightarrow> int \<Rightarrow> fwrr \<Rightarrow> nat option \<Rightarrow> (nat option \<times> fwrr) option" where
  "fwrr_get_next_server n now t srvtoavoid =
    (let px = fw_be t; run = (\<lambda>g. map_option (\<lambda>(r, switched, full, t). (r, fw_requeue g switched r full t))
                                    (fw_loop n now g srvtoavoid False None [] t))
     in if srv_act px \<noteq> 0 then run Act
        else case fbck px of Some k \<Rightarrow> Some (Some k, t)
        | None \<Rightarrow> if srv_bck px \<noteq> 0 then run Bck else Some (None, t))"

end
