(* ===== verification/HA_LB_Fwrr_Proofs.thy ===== *)
theory HA_LB_Fwrr_Proofs
  imports HA_LB_Fwrr
begin

section \<open>Weighted round robin: trees, counters and choices\<close>

text \<open>
  Every usable server is in exactly one tree of its group, through every change of status or weight
  and every choice; the counters follow a recount; a choice returns a server that accepts the
  connection if there is one.
\<close>

subsection \<open>Servers in the trees\<close>

definition fw_linked :: "fwrr \<Rightarrow> nat set \<Rightarrow> bool" where
  "fw_linked t Q \<longleftrightarrow> (\<forall>g r. eb_root_ok (fw_key t) (root_of r (grp g t))
    \<and> set (eb_contents (root_of r (grp g t))) = {k \<in> Q. fw_tree t k = Some r \<and> fw_group k t = g})"

lemma fw_linkedD:
  assumes "fw_linked t Q"
  shows "eb_root_ok (fw_key t) (root_of r (grp g t))"
    "k \<in> set (eb_contents (root_of r (grp g t))) \<longleftrightarrow> k \<in> Q \<and> fw_tree t k = Some r \<and> fw_group k t = g"
  using assms by (auto simp: fw_linked_def)

lemma fw_linkedI:
  assumes "\<And>g r. eb_root_ok (fw_key t) (root_of r (grp g t))"
    "\<And>g r k. k \<in> set (eb_contents (root_of r (grp g t))) \<longleftrightarrow> k \<in> Q \<and> fw_tree t k = Some r \<and> fw_group k t = g"
  shows "fw_linked t Q"
  using assms by (auto simp: fw_linked_def)

lemma grp_simps [simp]:
  "grp g (on_grp h f t) = (if g = h then f (grp g t) else grp g t)"
  "fw_be (on_grp h f t) = fw_be t" "fw_tree (on_grp h f t) = fw_tree t" "fw_key (on_grp h f t) = fw_key t"
  "npos (on_grp h f t) = npos t" "rweight (on_grp h f t) = rweight t" "lpos (on_grp h f t) = lpos t"
  "grp g (t\<lparr>fw_key := x\<rparr>) = grp g t" "grp g (t\<lparr>fw_tree := y\<rparr>) = grp g t" "grp g (t\<lparr>npos := p\<rparr>) = grp g t"
  "grp g (t\<lparr>lpos := p\<rparr>) = grp g t" "grp g (t\<lparr>rweight := p\<rparr>) = grp g t" "grp g (t\<lparr>fw_be := b\<rparr>) = grp g t"
  by (cases g; cases h; simp add: grp_def on_grp_def)+

lemma root_simps [simp]:
  "root_of r (on_root q f gr) = (if r = q then f (root_of r gr) else root_of r gr)"
  "next_weight (on_root q f gr) = next_weight gr" "curr_weight (on_root q f gr) = curr_weight gr" "curr_pos (on_root q f gr) = curr_pos gr"
  "root_of r (gr\<lparr>next_weight := w\<rparr>) = root_of r gr" "root_of r (gr\<lparr>curr_weight := w\<rparr>) = root_of r gr"
  "root_of r (gr\<lparr>curr_pos := w\<rparr>) = root_of r gr" "root_of r (gr\<lparr>swapped := b\<rparr>) = root_of r gr" "swapped (on_root q f gr) = swapped gr"
  by (cases r; cases q; simp add: root_of_def on_root_def)+

lemma dequeue_simps [simp]:
  "fw_be (fwrr_dequeue_srv k t) = fw_be t" "fw_tree (fwrr_dequeue_srv k t) = fw_tree t" "fw_key (fwrr_dequeue_srv k t) = fw_key t"
  "npos (fwrr_dequeue_srv k t) = npos t" "lpos (fwrr_dequeue_srv k t) = lpos t" "rweight (fwrr_dequeue_srv k t) = rweight t"
  "root_of r (grp g (fwrr_dequeue_srv k t)) = eb_delete k (root_of r (grp g t))"
  "next_weight (grp g (fwrr_dequeue_srv k t)) = next_weight (grp g t)" "swapped (grp g (fwrr_dequeue_srv k t)) = swapped (grp g t)"
  "curr_weight (grp g (fwrr_dequeue_srv k t)) = curr_weight (grp g t)" "curr_pos (grp g (fwrr_dequeue_srv k t)) = curr_pos (grp g t)"
  by (cases r; cases g; simp add: fwrr_dequeue_srv_def grp_def root_of_def)+

lemma fw_group_cong: "fw_be t' = fw_be t \<Longrightarrow> fw_group k t' = fw_group k t"
  by (simp add: fw_group_def)

lemma linked_cong:
  assumes "fw_linked t Q" "fw_tree t' = fw_tree t" "fw_key t' = fw_key t" "\<And>g r. root_of r (grp g t') = root_of r (grp g t)"
    "\<And>k. k \<in> Q \<Longrightarrow> fw_group k t' = fw_group k t"
  shows "fw_linked t' Q"
proof (rule fw_linkedI)
  note d = fw_linkedD [OF assms(1)]
  fix g r k
  show "eb_root_ok (fw_key t') (root_of r (grp g t'))" unfolding assms(3,4) by (rule d(1))
  show "k \<in> set (eb_contents (root_of r (grp g t'))) \<longleftrightarrow> k \<in> Q \<and> fw_tree t' k = Some r \<and> fw_group k t' = g"
    unfolding assms(2,4) d(2) using assms(5) [of k] by auto
qed

lemma dequeue_linked: "fw_linked t Q \<Longrightarrow> fw_linked (fwrr_dequeue_srv k t) (Q - {k})"
proof (rule fw_linkedI)
  assume l: "fw_linked t Q"
  note d = fw_linkedD [OF l]
  fix g r j
  show "eb_root_ok (fw_key (fwrr_dequeue_srv k t)) (root_of r (grp g (fwrr_dequeue_srv k t)))"
    using eb32.remove_valid [OF d(1) [of r g]] by simp
  show "j \<in> set (eb_contents (root_of r (grp g (fwrr_dequeue_srv k t)))) \<longleftrightarrow>
      j \<in> Q - {k} \<and> fw_tree (fwrr_dequeue_srv k t) j = Some r \<and> fw_group j (fwrr_dequeue_srv k t) = g"
  proof -
    have "set (eb_contents (eb_delete k (root_of r (grp g t)))) = set (eb_contents (root_of r (grp g t))) - {k}"
      using eb32.remove_contents [OF d(1) [of r g], of k] eb32.in_order [OF d(1) [of r g]] by (simp add: set_remove1_eq)
    then show ?thesis using d(2) [of j r g] by (metis Diff_iff dequeue_simps(1,2,7) fw_group_cong)
  qed
qed

lemma link_simps [simp]:
  "fw_be (fw_link g r x k t) = fw_be t" "fw_tree (fw_link g r x k t) = (fw_tree t)(k := Some r)"
  "next_weight (grp h (fw_link g r x k t)) = next_weight (grp h t)" "fw_key (fw_link g r x k t) = (fw_key t)(k := x)"
  "swapped (grp h (fw_link g r x k t)) = swapped (grp h t)"
  by (simp_all add: fw_link_def Let_def)

lemma link_linked:
  assumes l: "fw_linked t Q" and k: "k \<notin> Q" and g: "g = fw_group k t"
  shows "fw_linked (fw_link g r x k t) (insert k Q)"
proof (rule fw_linkedI)
  note d = fw_linkedD [OF l]
  fix h q j
  have n: "k \<notin> set (eb_contents (root_of q (grp h t)))" using d(2) k by blast
  note p = put_valid_new [OF d(1) n, of x]
  have e: "root_of q (grp h (fw_link g r x k t)) =
      (if h = g \<and> q = r then eb32_put ((fw_key t)(k := x)) k (root_of q (grp h t)) else root_of q (grp h t))"
    by (simp add: fw_link_def Let_def)
  show "eb_root_ok (fw_key (fw_link g r x k t)) (root_of q (grp h (fw_link g r x k t)))"
    unfolding e link_simps using p by metis
  have "set (eb_contents (root_of q (grp h (fw_link g r x k t)))) =
      (if h = g \<and> q = r then insert k (set (eb_contents (root_of q (grp h t)))) else set (eb_contents (root_of q (grp h t))))"
  proof (cases "h = g \<and> q = r")
    case True
    show ?thesis unfolding e if_P [OF True] by (rule p(3))
  next
    case False
    show ?thesis unfolding e if_not_P [OF False] ..
  qed
  then show "j \<in> set (eb_contents (root_of q (grp h (fw_link g r x k t)))) \<longleftrightarrow>
      j \<in> insert k Q \<and> fw_tree (fw_link g r x k t) j = Some q \<and> fw_group j (fw_link g r x k t) = h"
    using d(2) [of j q h] k g fw_group_cong [of "fw_link g r x k t" t] by (cases "j = k") auto
qed

text \<open>What moving server \<open>k\<close> leaves alone.\<close>

definition fw_moved :: "nat \<Rightarrow> fwrr \<Rightarrow> fwrr \<Rightarrow> bool" where
  "fw_moved k t t' \<longleftrightarrow> fw_be t' = fw_be t \<and> (\<forall>g. next_weight (grp g t') = next_weight (grp g t))
    \<and> (\<forall>j. j \<noteq> k \<longrightarrow> fw_tree t' j = fw_tree t j) \<and> (\<forall>g. swapped (grp g t') = swapped (grp g t))"

lemma fw_moved_trans: "fw_moved k t u \<Longrightarrow> fw_moved k u v \<Longrightarrow> fw_moved k t v"
  by (simp add: fw_moved_def)

lemma by_weight_ok:
  assumes "fw_linked t Q" "k \<notin> Q"
  shows "fw_linked (fwrr_queue_by_weight (fw_group k t) r k t) (insert k Q)" "fw_moved k t (fwrr_queue_by_weight (fw_group k t) r k t)"
    "fw_tree (fwrr_queue_by_weight (fw_group k t) r k t) k = Some r"
  using link_linked [OF assms refl] by (simp_all add: fwrr_queue_by_weight_def fw_moved_def)

lemma npos_linked: "fw_linked t Q \<Longrightarrow> fw_linked (t\<lparr>npos := p\<rparr>) Q"
  by (rule linked_cong) (simp_all add: fw_group_def)

lemma queue_srv_ok:
  assumes l: "fw_linked t Q" and k: "k \<notin> Q" and u: "srv_is_usable (srv (fw_be t) ! k)"
  shows "fw_linked (fwrr_queue_srv k t) (insert k Q)" "fw_moved k t (fwrr_queue_srv k t)" "fw_tree (fwrr_queue_srv k t) k \<noteq> None"
proof -
  let ?g = "fw_group k t"
  let ?t = "t\<lparr>npos := (npos t)(k := npos t k - word_of_int (curr_weight (grp ?g t)))\<rparr>"
  have g: "fw_group k ?t = ?g" by (simp add: fw_group_def)
  note w = by_weight_ok [OF npos_linked [OF l] k, of "(npos t)(k := npos t k - word_of_int (curr_weight (grp ?g t)))", unfolded g]
  have m: "fw_moved k t t' = fw_moved k ?t t'" for t' by (simp add: fw_moved_def)
  show "fw_linked (fwrr_queue_srv k t) (insert k Q)" "fw_moved k t (fwrr_queue_srv k t)" "fw_tree (fwrr_queue_srv k t) k \<noteq> None"
    using u w link_linked [OF l k refl] unfolding m by (simp_all add: fwrr_queue_srv_def Let_def fw_moved_def)
qed

lemma get_srv_ok:
  "fw_linked t Q \<Longrightarrow> fw_linked (fwrr_get_srv k t) Q" "fw_be (fwrr_get_srv k t) = fw_be t" "fw_tree (fwrr_get_srv k t) = fw_tree t"
  "grp g (fwrr_get_srv k t) = grp g t" "fw_moved k t (fwrr_get_srv k t)"
proof -
  show b: "fw_be (fwrr_get_srv k t) = fw_be t" and tr: "fw_tree (fwrr_get_srv k t) = fw_tree t" and g: "grp g (fwrr_get_srv k t) = grp g t" for g
    by (simp_all add: fwrr_get_srv_def Let_def fwrr_get_srv_init_def fwrr_get_srv_next_def fwrr_get_srv_down_def)
  have "fw_key (fwrr_get_srv k t) = fw_key t"
    by (simp add: fwrr_get_srv_def Let_def fwrr_get_srv_init_def fwrr_get_srv_next_def fwrr_get_srv_down_def)
  then show "fw_linked t Q \<Longrightarrow> fw_linked (fwrr_get_srv k t) Q" using linked_cong [of t Q "fwrr_get_srv k t"] b tr g by (simp add: fw_group_def)
  show "fw_moved k t (fwrr_get_srv k t)" by (simp add: fw_moved_def b tr g)
qed

lemma place_ok:
  assumes l: "fw_linked t Q" and k: "k \<notin> Q" and u: "srv_is_usable (srv (fw_be t) ! k)" and w: "fw_weight k t \<noteq> 0"
  obtains t' where "fw_place k t = Some t'" "fw_linked t' (insert k Q)" "fw_moved k t t'" "fw_tree t' k \<noteq> None"
proof -
  let ?t = "fwrr_get_srv k t" note o = get_srv_ok
  define u' where "u' = ?t\<lparr>npos := (npos ?t)(k := word_of_int (curr_pos (grp (fw_group k ?t) ?t))
    + word_of_int (next_weight (grp (fw_group k ?t) ?t) + curr_weight (grp (fw_group k ?t) ?t) - curr_pos (grp (fw_group k ?t) ?t)) div fw_weight k ?t)\<rparr>"
  have "fw_weight k ?t \<noteq> 0" using w by (simp add: fw_weight_def o(2))
  then have e: "fw_place k t = Some (fwrr_queue_srv k u')" by (simp add: fw_place_def Let_def u'_def)
  have l': "fw_linked u' Q" unfolding u'_def by (rule npos_linked [OF o(1) [OF l]])
  have u'': "srv_is_usable (srv (fw_be u') ! k)" using u by (simp add: u'_def o(2))
  have "fw_moved k t u'" using o(5) [of k t] by (simp add: fw_moved_def u'_def)
  then show thesis using that [OF e] queue_srv_ok [OF l' k u''] fw_moved_trans by blast
qed

lemma replace_ok:
  assumes l: "fw_linked t Q" and k: "k \<in> Q" and u: "srv_is_usable (srv (fw_be t) ! k)"
  shows "fw_linked (fw_replace k t) Q" "fw_moved k t (fw_replace k t)" "fw_tree (fw_replace k t) k \<noteq> None"
proof -
  let ?u = "fwrr_get_srv k t"
  have "\<exists>p q. fw_replace k t = fwrr_queue_srv k (fwrr_dequeue_srv k (?u\<lparr>npos := p, rweight := q\<rparr>))"
  proof (cases "fw_weight k ?u = 0")
    case True
    then have nz: "\<not> fw_weight k ?u \<noteq> 0" by simp
    have r: "?u\<lparr>npos := p\<rparr> = ?u\<lparr>npos := p, rweight := rweight ?u\<rparr>" for p by simp
    show ?thesis unfolding fw_replace_def Let_def if_not_P [OF nz] by (intro exI, subst r, rule refl)
  next
    case False
    show ?thesis unfolding fw_replace_def Let_def if_P [OF False] by blast
  qed
  then obtain p q where e: "fw_replace k t = fwrr_queue_srv k (fwrr_dequeue_srv k (?u\<lparr>npos := p, rweight := q\<rparr>))" by blast
  define v where "v = (fwrr_get_srv k t)\<lparr>npos := p, rweight := q\<rparr>"
  have "fw_linked v Q" unfolding v_def
    by (rule linked_cong [OF get_srv_ok(1) [OF l]]) (simp_all add: fw_group_def)
  then have l': "fw_linked (fwrr_dequeue_srv k v) (Q - {k})" by (rule dequeue_linked)
  have u': "srv_is_usable (srv (fw_be (fwrr_dequeue_srv k v)) ! k)" using u by (simp add: v_def get_srv_ok)
  have m: "fw_moved k t (fwrr_dequeue_srv k v)" using get_srv_ok(5) [of k t] by (simp add: fw_moved_def v_def)
  note o = queue_srv_ok [OF l' _ u', simplified]
  show "fw_linked (fw_replace k t) Q" "fw_moved k t (fw_replace k t)" "fw_tree (fw_replace k t) k \<noteq> None"
    using o fw_moved_trans [OF m o(2)] k unfolding e v_def [symmetric] by (simp_all add: insert_absorb)
qed

subsection \<open>Status changes\<close>

definition usable :: "proxy \<Rightarrow> nat set" where
  "usable px = {k. k < length (srv px) \<and> srv_is_usable (srv px ! k)}"

definition fw_weights :: "fwrr \<Rightarrow> bool" where
  "fw_weights t \<longleftrightarrow> next_weight (grp Act t) = tot_wact (fw_be t) \<and> next_weight (grp Bck t) = tot_wbck (fw_be t)"

definition fw_inv :: "fwrr \<Rightarrow> nat set \<Rightarrow> bool" where
  "fw_inv t U \<longleftrightarrow> fw_linked t U \<and> (\<forall>k. fw_tree t k = None \<longleftrightarrow> k \<notin> U) \<and> fw_weights t"

definition fw_ok :: "fwrr \<Rightarrow> bool" where
  "fw_ok t \<longleftrightarrow> backend_ok (fw_be t) \<and> (\<forall>s \<in> set (srv (fw_be t)). eweight s \<le> SRV_EWGHT_MAX) \<and> fw_inv t (usable (fw_be t))"

lemma on_fw_simps [simp]:
  "fw_be (on_fw f t) = f (fw_be t)" "grp g (on_fw f t) = grp g t" "fw_tree (on_fw f t) = fw_tree t" "fw_key (on_fw f t) = fw_key t"
  "on_fw f (on_fw h t) = on_fw (\<lambda>px. f (h px)) t" "fw_act (on_fw f t) = fw_act t" "fw_bck (on_fw f t) = fw_bck t"
  by (simp_all add: on_fw_def)

lemma weight_nonzero:
  assumes "k < length (srv (fw_be t))" "srv_is_usable (srv (fw_be t) ! k)" "0 \<le> eweight (srv (fw_be t) ! k)" "eweight (srv (fw_be t) ! k) \<le> SRV_EWGHT_MAX"
  shows "fw_weight k t \<noteq> 0"
proof -
  have "0 < eweight (srv (fw_be t) ! k)" by (rule usable_weight [OF assms(2,3)])
  then have "uint (word_of_int (eweight (srv (fw_be t) ! k)) :: u32) \<noteq> 0"
    unfolding uint_word_of_int using assms(4) by simp
  then show ?thesis by (intro notI) (simp add: fw_weight_def)
qed

lemma same_groups_group:
  assumes "same_groups (fw_be t) (f (fw_be t))" "k < length (srv (fw_be t))"
  shows "fw_group k (on_fw f t) = fw_group k t"
  using same_groups_nth [OF assms] by (simp add: fw_group_def group_of_def)

lemma inv_on_fw:
  assumes "fw_inv t U" "same_groups (fw_be t) (f (fw_be t))" "\<And>k. k \<in> U \<Longrightarrow> k < length (srv (fw_be t))"
    "tot_wact (f (fw_be t)) = tot_wact (fw_be t)" "tot_wbck (f (fw_be t)) = tot_wbck (fw_be t)"
  shows "fw_inv (on_fw f t) U"
proof -
  have l: "fw_linked t U" using assms(1) by (simp add: fw_inv_def)
  have "fw_linked (on_fw f t) U"
    by (rule linked_cong [OF l]) (simp_all add: same_groups_group [of t f, OF assms(2)] assms(3))
  then show ?thesis using assms(1,4,5) by (simp add: fw_inv_def fw_weights_def)
qed

lemma commit_tot [simp]:
  "tot_wact (commit_server k px) = tot_wact px" "tot_wbck (commit_server k px) = tot_wbck px" "fbck (commit_server k px) = fbck px"
  by (simp_all add: commit_put)

text \<open>The steps of the counters are those of the other algorithms.\<close>

lemma fw_lose_be: "fw_weights t \<Longrightarrow> fw_be (fw_lose k t) = lose_server k (fw_be t)"
  by (simp add: fw_lose_def lose_server_def Let_def add_weight_def fw_weights_def fw_group_def group_of_def grp_def on_grp_def)

lemma fw_gain_be: "fw_weights t \<Longrightarrow> fw_be (fw_gain k t) = gain_server k (fw_be t)"
  by (simp add: fw_gain_def gain_server_def Let_def add_weight_def fw_weights_def fw_group_def group_of_def grp_def on_grp_def
      split: option.split)

lemma fw_reweigh_be: "fw_weights t \<Longrightarrow> fw_be (fw_reweigh k t) = reweigh_server k (fw_be t)"
  by (auto simp: fw_reweigh_def reweigh_server_def Let_def add_weight_def fw_weights_def fw_group_def group_of_def grp_def on_grp_def
      intro!: proxy.equality)

lemma counters_frame:
  "fw_tree (fw_lose k t) = fw_tree t" "fw_key (fw_lose k t) = fw_key t" "root_of r (grp g (fw_lose k t)) = root_of r (grp g t)"
  "fw_tree (fw_gain k t) = fw_tree t" "fw_key (fw_gain k t) = fw_key t" "root_of r (grp g (fw_gain k t)) = root_of r (grp g t)"
  "fw_tree (fw_reweigh k t) = fw_tree t" "fw_key (fw_reweigh k t) = fw_key t" "root_of r (grp g (fw_reweigh k t)) = root_of r (grp g t)"
  by (simp_all add: fw_lose_def fw_gain_def fw_reweigh_def Let_def add_weight_def)

lemma counters_group:
  "fw_group j (fw_lose k t) = fw_group j t" "fw_group j (fw_gain k t) = fw_group j t" "fw_group j (fw_reweigh k t) = fw_group j t"
  by (simp_all add: fw_lose_def fw_gain_def fw_reweigh_def Let_def add_weight_def fw_group_def)

lemma counters_linked:
  "fw_linked t Q \<Longrightarrow> fw_linked (fw_lose k t) Q" "fw_linked t Q \<Longrightarrow> fw_linked (fw_gain k t) Q" "fw_linked t Q \<Longrightarrow> fw_linked (fw_reweigh k t) Q"
  by (rule linked_cong; simp add: counters_frame counters_group)+

lemma counters_weights:
  assumes "fw_weights t"
  shows "fw_weights (fw_lose k t)" "fw_weights (fw_gain k t)" "fw_weights (fw_reweigh k t)"
  using assms
  by (auto simp: fw_weights_def fw_lose_def fw_gain_def fw_reweigh_def Let_def add_weight_def fw_group_def group_of_def grp_def on_grp_def)

lemma remove_ok:
  assumes "fw_inv t U" "k \<in> U"
  shows "fw_inv (fwrr_remove_from_tree k (fwrr_dequeue_srv k t)) (U - {k})"
proof -
  have l: "fw_linked (fwrr_dequeue_srv k t) (U - {k})" using assms(1) by (auto simp: fw_inv_def intro: dequeue_linked)
  have "fw_linked (fwrr_remove_from_tree k (fwrr_dequeue_srv k t)) (U - {k})"
  proof (rule fw_linkedI)
    note d = fw_linkedD [OF l]
    fix g r j
    show "eb_root_ok (fw_key (fwrr_remove_from_tree k (fwrr_dequeue_srv k t))) (root_of r (grp g (fwrr_remove_from_tree k (fwrr_dequeue_srv k t))))"
      using d(1) by (simp add: fwrr_remove_from_tree_def)
    show "j \<in> set (eb_contents (root_of r (grp g (fwrr_remove_from_tree k (fwrr_dequeue_srv k t))))) \<longleftrightarrow> j \<in> U - {k}
        \<and> fw_tree (fwrr_remove_from_tree k (fwrr_dequeue_srv k t)) j = Some r \<and> fw_group j (fwrr_remove_from_tree k (fwrr_dequeue_srv k t)) = g"
      using d(2) [of j r g] by (auto simp: fwrr_remove_from_tree_def fw_group_def)
  qed
  then show ?thesis using assms by (auto simp: fw_inv_def fw_weights_def fwrr_remove_from_tree_def)
qed

lemma moved_inv:
  assumes "fw_inv t U" "fw_linked t' (insert k U)" "fw_moved k t t'" "fw_tree t' k \<noteq> None"
  shows "fw_inv t' (insert k U)"
proof -
  have "fw_tree t' j = None \<longleftrightarrow> j \<notin> insert k U" for j
    using assms(1,3,4) by (cases "j = k") (simp_all add: fw_inv_def fw_moved_def)
  then show ?thesis using assms(1-3) by (simp add: fw_inv_def fw_moved_def fw_weights_def)
qed

text \<open>Before a report: the trees hold the servers \<open>U\<close> that were usable.\<close>

definition fw_before :: "fwrr \<Rightarrow> nat set \<Rightarrow> nat \<Rightarrow> bool" where
  "fw_before t U k \<longleftrightarrow> fw_inv t U \<and> k < length (srv (fw_be t)) \<and> U - {k} = usable (fw_be t) - {k}
    \<and> (k \<in> U \<longleftrightarrow> srv_was_usable (srv (fw_be t) ! k))
    \<and> 0 \<le> eweight (srv (fw_be t) ! k) \<and> eweight (srv (fw_be t) ! k) \<le> SRV_EWGHT_MAX"

lemma before_usable:
  assumes "fw_before t U k"
  shows "usable (fw_be t) = (if srv_is_usable (srv (fw_be t) ! k) then insert k U else U - {k})"
  using assms by (auto simp: fw_before_def usable_def)

lemma usable_commit [simp]: "usable (commit_server k px) = usable px" "usable (update_backend_weight px) = usable px"
  by (auto simp: usable_def commit_put nth_update split: if_splits)

lemma finish_inv:
  assumes "fw_inv t (usable (fw_be t))"
  shows "fw_inv (on_fw (commit_server k) t) (usable (fw_be t))"
    "fw_inv (on_fw (\<lambda>px. commit_server k (update_backend_weight px)) t) (usable (fw_be t))"
  by (rule inv_on_fw [OF assms]; simp add: usable_def)+

text \<open>After: an operation returned \<open>t'\<close>, the backend went through \<open>f\<close>.\<close>

definition fw_after :: "fwrr \<Rightarrow> (proxy \<Rightarrow> proxy) \<Rightarrow> fwrr option \<Rightarrow> bool" where
  "fw_after t f r \<longleftrightarrow> (\<exists>t'. r = Some t' \<and> fw_be t' = f (fw_be t) \<and> fw_inv t' (usable (fw_be t)))"

lemma afterI: "fw_be t' = f (fw_be t) \<Longrightarrow> fw_inv t' (usable (fw_be t)) \<Longrightarrow> fw_after t f (Some t')"
  by (simp add: fw_after_def)

lemma before_inv: "fw_before t U k \<Longrightarrow> srv_is_usable (srv (fw_be t) ! k) = srv_was_usable (srv (fw_be t) ! k) \<Longrightarrow> fw_inv t (usable (fw_be t))"
proof -
  assume b: "fw_before t U k" and e: "srv_is_usable (srv (fw_be t) ! k) = srv_was_usable (srv (fw_be t) ! k)"
  then have k: "k \<in> U \<longleftrightarrow> srv_is_usable (srv (fw_be t) ! k)" and i: "fw_inv t U" by (simp_all add: fw_before_def)
  have "usable (fw_be t) = U" unfolding before_usable [OF b] using k by (simp add: insert_absorb)
  then show ?thesis using i by simp
qed

lemma fw_down_ok:
  assumes b: "fw_before t U k" and d: "srv_is_usable (srv (fw_be t) ! k) \<longrightarrow> srv_was_usable (srv (fw_be t) ! k)"
  shows "fw_after t (px_status_down k) (fwrr_set_server_status_down k t)"
proof (cases "srv_is_usable (srv (fw_be t) ! k) = srv_was_usable (srv (fw_be t) ! k)")
  case True
  note i = before_inv [OF b True]
  show ?thesis using True i finish_inv [OF i]
    by (auto simp: fwrr_set_server_status_down_def px_status_down_def Let_def intro!: afterI)
next
  case False
  then have u: "\<not> srv_is_usable (srv (fw_be t) ! k)" "srv_was_usable (srv (fw_be t) ! k)" using d by auto
  have ch: "srv_lb_status_changed (srv (fw_be t) ! k)" using same_status [of "srv (fw_be t) ! k"] u by blast
  have i: "fw_inv t U" and k: "k \<in> U" using b u by (simp_all add: fw_before_def)
  then have w: "fw_weights t" and be: "fw_be (fw_lose k t) = lose_server k (fw_be t)" using fw_lose_be by (simp_all add: fw_inv_def)
  have "fw_inv (fw_lose k t) U" using i counters_linked(1) counters_weights(1) by (simp add: fw_inv_def counters_frame)
  note r = remove_ok [OF this k]
  let ?t = "fwrr_remove_from_tree k (fwrr_dequeue_srv k (fw_lose k t))"
  have bt: "fw_be ?t = lose_server k (fw_be t)" by (simp add: fwrr_remove_from_tree_def be)
  have us: "usable (fw_be t) = U - {k}" "usable (fw_be ?t) = usable (fw_be t)" using before_usable [OF b] u by (simp_all add: bt usable_def)
  have "fw_inv ?t (usable (fw_be ?t))" using r us by simp
  from finish_inv(2) [OF this, of k] show ?thesis
    using u ch bt us by (simp add: fwrr_set_server_status_down_def px_status_down_def Let_def afterI)
qed

lemma fw_up_ok:
  assumes b: "fw_before t U k" and d: "srv_was_usable (srv (fw_be t) ! k) \<longrightarrow> srv_is_usable (srv (fw_be t) ! k)"
  shows "fw_after t (px_status_up k) (fwrr_set_server_status_up k t)"
proof (cases "srv_is_usable (srv (fw_be t) ! k) = srv_was_usable (srv (fw_be t) ! k)")
  case True
  note i = before_inv [OF b True]
  show ?thesis using True i finish_inv [OF i]
    by (auto simp: fwrr_set_server_status_up_def px_status_up_def Let_def intro!: afterI)
next
  case False
  then have u: "srv_is_usable (srv (fw_be t) ! k)" "\<not> srv_was_usable (srv (fw_be t) ! k)" using d by auto
  have ch: "srv_lb_status_changed (srv (fw_be t) ! k)" using same_status [of "srv (fw_be t) ! k"] u by blast
  have i: "fw_inv t U" and k: "k \<notin> U" using b u by (simp_all add: fw_before_def)
  then have w: "fw_weights t" and be: "fw_be (fw_gain k t) = gain_server k (fw_be t)" using fw_gain_be by (simp_all add: fw_inv_def)
  have g: "fw_inv (fw_gain k t) U" using i counters_linked(2) counters_weights(2) by (simp add: fw_inv_def counters_frame)
  then have gl: "fw_linked (fw_gain k t) U" by (simp add: fw_inv_def)
  have nz: "fw_weight k (fw_gain k t) \<noteq> 0"
    using b u(1) by (intro weight_nonzero) (simp_all add: be fw_before_def)
  obtain t' where t': "fw_place k (fw_gain k t) = Some t'" "fw_linked t' (insert k U)" "fw_moved k (fw_gain k t) t'" "fw_tree t' k \<noteq> None"
    using place_ok [OF gl k _ nz] u(1) be by auto
  have bt: "fw_be t' = gain_server k (fw_be t)" using t'(3) be by (simp add: fw_moved_def)
  have us: "usable (fw_be t) = insert k U" "usable (fw_be t') = usable (fw_be t)" using before_usable [OF b] u by (simp_all add: bt usable_def)
  have "fw_inv t' (usable (fw_be t'))" using moved_inv [OF g t'(2-4)] us by simp
  from finish_inv(2) [OF this, of k] show ?thesis
    using u ch bt us t'(1) by (simp add: fwrr_set_server_status_up_def px_status_up_def Let_def afterI)
qed

lemma reweigh_branch:
  assumes i: "fw_inv t U" and k: "k \<in> U" and u: "srv_is_usable (srv (fw_be t) ! k)"
  obtains t' where "(if fw_tree t k = Some (fw_init (grp (fw_group k t) t))
      then Some (fwrr_queue_by_weight (fw_group k t) (fw_init (grp (fw_group k t) t)) k (fwrr_dequeue_srv k t))
      else if fw_tree t k = None then fw_place k (fwrr_dequeue_srv k t) else Some (fw_replace k t)) = Some t'"
    "fw_inv t' U" "fw_be t' = fw_be t"
proof -
  have l: "fw_linked t U" and n: "fw_tree t k \<noteq> None" using i k by (simp_all add: fw_inv_def)
  have g: "fw_group k (fwrr_dequeue_srv k t) = fw_group k t" by (simp add: fw_group_def)
  have m: "fw_moved k t t'" if "fw_moved k (fwrr_dequeue_srv k t) t'" for t' using that by (simp add: fw_moved_def)
  show thesis
  proof (cases "fw_tree t k = Some (fw_init (grp (fw_group k t) t))")
    case True
    let ?t = "fwrr_queue_by_weight (fw_group k t) (fw_init (grp (fw_group k t) t)) k (fwrr_dequeue_srv k t)"
    note o = by_weight_ok [OF dequeue_linked [OF l], of k k "fw_init (grp (fw_group k t) t)", unfolded g, simplified]
    have "fw_inv ?t (insert k U)" using moved_inv [OF i, of ?t k] o(1) m [OF o(2)] o(3) k by (simp add: insert_absorb)
    then show thesis using that [of ?t] True o(2) k by (simp add: insert_absorb fw_moved_def)
  next
    case False
    note o = replace_ok [OF l k u]
    have "fw_inv (fw_replace k t) (insert k U)" using moved_inv [OF i, of "fw_replace k t" k] o k by (simp add: insert_absorb)
    then show thesis using that [of "fw_replace k t"] False n o(2) k by (simp add: insert_absorb fw_moved_def)
  qed
qed

lemma fw_weight_ok:
  assumes b: "fw_before t U k"
  shows "fw_after t (px_update_weight k) (fwrr_update_server_weight k t)"
proof -
  let ?s = "srv (fw_be t) ! k"
  consider "\<not> srv_lb_status_changed ?s" | "srv_lb_status_changed ?s" "\<not> srv_was_usable ?s" "\<not> srv_is_usable ?s"
    | "srv_lb_status_changed ?s" "\<not> srv_was_usable ?s" "srv_is_usable ?s" | "srv_lb_status_changed ?s" "srv_was_usable ?s" "\<not> srv_is_usable ?s"
    | "srv_lb_status_changed ?s" "srv_was_usable ?s" "srv_is_usable ?s" by blast
  then show ?thesis
  proof cases
    case 1
    then show ?thesis using before_inv [OF b] same_status [of ?s]
      by (simp add: fwrr_update_server_weight_def px_update_weight_def Let_def afterI)
  next
    case 2
    then show ?thesis using finish_inv(1) [OF before_inv [OF b]]
      by (simp add: fwrr_update_server_weight_def px_update_weight_def Let_def afterI)
  next
    case 3
    then show ?thesis using fw_up_ok [OF b] by (simp add: fwrr_update_server_weight_def px_update_weight_def Let_def fw_after_def)
  next
    case 4
    then show ?thesis using fw_down_ok [OF b] by (simp add: fwrr_update_server_weight_def px_update_weight_def Let_def fw_after_def)
  next
    case 5
    have i: "fw_inv t U" and k: "k \<in> U" using b 5 by (simp_all add: fw_before_def)
    then have w: "fw_weights t" and be: "fw_be (fw_reweigh k t) = reweigh_server k (fw_be t)" using fw_reweigh_be by (simp_all add: fw_inv_def)
    have r: "fw_inv (fw_reweigh k t) U" using i counters_linked(3) counters_weights(3) by (simp add: fw_inv_def counters_frame)
    obtain t' where t': "(if fw_tree (fw_reweigh k t) k = Some (fw_init (grp (fw_group k (fw_reweigh k t)) (fw_reweigh k t)))
        then Some (fwrr_queue_by_weight (fw_group k (fw_reweigh k t)) (fw_init (grp (fw_group k (fw_reweigh k t)) (fw_reweigh k t))) k
          (fwrr_dequeue_srv k (fw_reweigh k t)))
        else if fw_tree (fw_reweigh k t) k = None then fw_place k (fwrr_dequeue_srv k (fw_reweigh k t)) else Some (fw_replace k (fw_reweigh k t))) = Some t'"
      "fw_inv t' U" "fw_be t' = fw_be (fw_reweigh k t)"
      using reweigh_branch [OF r k] 5(3) be by auto
    have us: "usable (fw_be t) = U" "usable (fw_be t') = usable (fw_be t)"
      using before_usable [OF b] 5 k by (simp_all add: t'(3) be usable_def insert_absorb)
    have "fw_inv t' (usable (fw_be t'))" using t'(2) us by simp
    from finish_inv(2) [OF this, of k] show ?thesis
      using 5 us unfolding fwrr_update_server_weight_def px_update_weight_def Let_def t'(1) by (simp add: afterI t'(3) be)
  qed
qed

subsection \<open>The choice of a server\<close>

text \<open>What the steps of a choice keep: only positions change, and servers leave the trees.\<close>

definition fw_steady :: "fwrr \<Rightarrow> fwrr \<Rightarrow> bool" where
  "fw_steady t t' \<longleftrightarrow> fw_be t' = fw_be t \<and> fw_tree t' = fw_tree t \<and> (\<forall>g. next_weight (grp g t') = next_weight (grp g t))"

lemma fw_steady_trans: "fw_steady t u \<Longrightarrow> fw_steady u v \<Longrightarrow> fw_steady t v"
  by (simp add: fw_steady_def)

lemma fw_steady_refl [simp]: "fw_steady t t"
  by (simp add: fw_steady_def)

lemma roots: "r = Curr \<or> r = fw_init gr \<or> r = fw_next gr"
  by (cases r) (auto simp: fw_init_def fw_next_def)

lemma first_none: "eb_first tr = None \<longleftrightarrow> eb_contents tr = []"
  by (simp add: first_contents split: list.split)

lemma get_init_ok:
  "fw_linked t Q \<Longrightarrow> fw_linked (fwrr_get_srv_init s t) Q" "fw_steady t (fwrr_get_srv_init s t)" "grp g (fwrr_get_srv_init s t) = grp g t"
proof -
  show "fw_linked t Q \<Longrightarrow> fw_linked (fwrr_get_srv_init s t) Q"
    by (rule linked_cong) (simp_all add: fwrr_get_srv_init_def fw_group_def)
qed (simp_all add: fwrr_get_srv_init_def fw_steady_def)

text \<open>The servers of group \<open>g\<close> in the trees that a choice looks at first.\<close>

lemma get_from_group:
  assumes l: "fw_linked t Q" and w: "\<And>k. k \<in> Q \<Longrightarrow> fw_weight k t \<noteq> 0"
    and e: "fwrr_get_server_from_group g t = (r, t')"
  shows "fw_linked t' Q \<and> fw_steady t t' \<and> grp g t' = grp g t
    \<and> (case r of Some s \<Rightarrow> s \<in> Q \<and> fw_group s t = g
       | None \<Rightarrow> \<forall>k \<in> Q. fw_group k t = g \<longrightarrow> fw_tree t k \<noteq> Some Curr \<and> fw_tree t k \<noteq> Some (fw_init (grp g t)))"
proof -
  note d = fw_linkedD [OF l]
  let ?gr = "grp g t"
  have curr: "eb_first (curr ?gr) = eb_first (root_of Curr ?gr)" by (simp add: root_of_def)
  have mem: "s \<in> Q \<and> fw_group s t = g" if "eb_first (root_of q ?gr) = Some s" for q s
    using that d(2) [of s q g] by (auto simp: first_contents split: list.splits)
  have none: "\<forall>k \<in> Q. fw_group k t = g \<longrightarrow> fw_tree t k \<noteq> Some q" if "eb_first (root_of q ?gr) = None" for q
    using that d(2) [of _ q g] by (auto simp: first_none)
  show ?thesis
  proof (cases "case eb_first (curr ?gr) of None \<Rightarrow> True | Some s \<Rightarrow> npos t s > word_of_int (curr_pos ?gr)")
    case False
    have e': "r = eb_first (curr ?gr)" "t' = t" using e False unfolding fwrr_get_server_from_group_def Let_def if_not_P [OF False] by auto
    from False obtain s where "eb_first (curr ?gr) = Some s" by (auto split: option.splits)
    then show ?thesis using e' mem [of Curr s] l curr by simp
  next
    case True
    show ?thesis
    proof (cases "eb_first (root_of (fw_init ?gr) ?gr)")
      case None
      have e': "r = eb_first (curr ?gr)" "t' = t"
        using e unfolding fwrr_get_server_from_group_def Let_def if_P [OF True] None by auto
      show ?thesis using e' l mem [of Curr] none [of Curr] none [OF None] curr by (auto split: option.split)
    next
      case (Some s)
      have s: "s \<in> Q" "fw_group s t = g" using mem [OF Some] by simp_all
      have "fw_weight s (fwrr_get_srv_init s t) \<noteq> 0" using w [OF s(1)] by (simp add: fw_weight_def fwrr_get_srv_init_def)
      then have e': "r = Some s" "t' = fwrr_get_srv_init s t" using e True Some by (simp_all add: fwrr_get_server_from_group_def Let_def)
      show ?thesis using e' s get_init_ok(1) [OF l] get_init_ok(2,3) by simp
    qed
  qed
qed

lemma switch_ok:
  assumes "fw_linked t Q"
  shows "fw_linked (on_grp g fwrr_switch_trees t) Q" "fw_steady t (on_grp g fwrr_switch_trees t)"
    "fw_init (grp g (on_grp g fwrr_switch_trees t)) = fw_next (grp g t)" "fw_next (grp g (on_grp g fwrr_switch_trees t)) = fw_init (grp g t)"
proof -
  show "fw_linked (on_grp g fwrr_switch_trees t) Q"
    by (rule linked_cong [OF assms]) (simp_all add: fwrr_switch_trees_def fw_group_def)
qed (simp_all add: fw_steady_def fwrr_switch_trees_def fw_init_def fw_next_def)

definition fw_drained :: "lb_group \<Rightarrow> bool \<Rightarrow> nat set \<Rightarrow> fwrr \<Rightarrow> bool" where
  "fw_drained g sw Q t \<longleftrightarrow> (sw \<longrightarrow> (\<forall>k \<in> Q. fw_group k t = g \<longrightarrow> fw_tree t k \<noteq> Some (fw_next (grp g t))))"

lemma pick_ok:
  assumes l: "fw_linked t Q" and w: "\<And>k. k \<in> Q \<Longrightarrow> fw_weight k t \<noteq> 0" and tree: "\<And>k. k \<in> Q \<Longrightarrow> fw_tree t k \<noteq> None"
    and dr: "fw_drained g sw Q t" and e: "fw_pick g sw avoided t = (r, sw', t')"
  shows "fw_linked t' Q \<and> fw_steady t t' \<and> fw_drained g sw' Q t'
    \<and> ((\<exists>s. r = Some s \<and> s \<in> Q \<and> fw_group s t = g) \<or> r = avoided \<and> (\<forall>k \<in> Q. fw_group k t \<noteq> g))"
proof -
  obtain r1 t1 where g1: "fwrr_get_server_from_group g t = (r1, t1)" by fastforce
  note o1 = get_from_group [OF l w g1]
  have dr1: "fw_drained g sw Q t1" using dr o1 by (simp add: fw_drained_def fw_steady_def fw_group_def)
  show ?thesis
  proof (cases r1)
    case (Some s)
    then have "r = Some s" "sw' = sw" "t' = t1" using e g1 by (simp_all add: fw_pick_def)
    then show ?thesis using o1 dr1 unfolding Some by simp
  next
    case None
    have n1: "fw_tree t k \<noteq> Some Curr" "fw_tree t k \<noteq> Some (fw_init (grp g t))" if "k \<in> Q" "fw_group k t = g" for k
      using o1 that unfolding None by simp_all
    show ?thesis
    proof (cases sw)
      case True
      have "fw_group k t \<noteq> g" if k: "k \<in> Q" for k
      proof
        assume g: "fw_group k t = g"
        obtain q where "fw_tree t k = Some q" using tree [OF k] by auto
        then show False using roots [of q "grp g t"] n1 [OF k g] dr True k g by (auto simp: fw_drained_def)
      qed
      then show ?thesis using e g1 o1 dr1 None True by (auto simp: fw_pick_def)
    next
      case False
      let ?u = "on_grp g fwrr_switch_trees t1"
      have l1: "fw_linked t1 Q" and s1: "fw_steady t t1" and gg: "grp g t1 = grp g t" using o1 by simp_all
      note o2 = switch_ok [OF l1, of g]
      have su: "fw_steady t ?u" by (rule fw_steady_trans [OF s1 o2(2)])
      obtain r2 t2 where g2: "fwrr_get_server_from_group g ?u = (r2, t2)" by fastforce
      have wu: "fw_weight k ?u \<noteq> 0" if "k \<in> Q" for k using w [OF that] su by (simp add: fw_weight_def fw_steady_def)
      note o3 = get_from_group [OF o2(1) wu g2]
      have s2: "fw_steady t t2" using fw_steady_trans [OF su] o3 by blast
      have grp_u: "fw_group k ?u = fw_group k t" "fw_tree ?u = fw_tree t" for k using su by (simp_all add: fw_group_def fw_steady_def)
      have dr2: "fw_drained g True Q t2"
        unfolding fw_drained_def using o3 o2(4) n1 s2 gg by (auto simp: fw_steady_def fw_group_def)
      show ?thesis
      proof (cases r2)
        case (Some s)
        then have "r = Some s" "sw' = True" "t' = t2" using e g1 None False g2 by (simp_all add: fw_pick_def)
        then show ?thesis using o3 s2 dr2 unfolding Some grp_u by simp
      next
        case n: None
        have n2: "fw_tree t k \<noteq> Some (fw_next (grp g t))" if "k \<in> Q" "fw_group k t = g" for k
          using o3 that grp_u o2(3) gg unfolding n by simp
        have "fw_group k t \<noteq> g" if k: "k \<in> Q" for k
        proof
          assume g: "fw_group k t = g"
          obtain q where "fw_tree t k = Some q" using tree [OF k] by auto
          then show False using roots [of q "grp g t"] n1 [OF k g] n2 [OF k g] by auto
        qed
        then show ?thesis using e g1 None False g2 o3 s2 dr2 n by (auto simp: fw_pick_def)
      qed
    qed
  qed
qed

lemma update_position_ok:
  assumes "fw_linked t Q" "fw_weight s t \<noteq> 0"
  obtains t' where "fwrr_update_position g s t = Some t'" "fw_linked t' Q" "fw_steady t t'" "\<And>h. grp h t' = grp h t"
proof -
  obtain l n r where e: "fwrr_update_position g s t = Some (t\<lparr>lpos := l, npos := n, rweight := r\<rparr>)"
    using assms(2) unfolding fwrr_update_position_def Let_def by auto
  have "fw_linked (t\<lparr>lpos := l, npos := n, rweight := r\<rparr>) Q"
    by (rule linked_cong [OF assms(1)]) (simp_all add: fw_group_def)
  then show thesis using that [OF e] by (simp add: fw_steady_def)
qed

text \<open>The servers \<open>full\<close> were taken out of the trees: they accept no connection, or are the one to avoid.\<close>

definition fw_passed :: "int \<Rightarrow> proxy \<Rightarrow> nat option \<Rightarrow> nat option \<Rightarrow> nat list \<Rightarrow> bool" where
  "fw_passed now px avoid avoided full \<longleftrightarrow> distinct full
    \<and> (\<forall>x \<in> set full. has_slot now px x \<longrightarrow> Some x = avoid \<and> avoided = Some x)
    \<and> (\<forall>a. avoided = Some a \<longrightarrow> a \<in> set full \<and> has_slot now px a \<and> Some a = avoid)"

definition fw_group_set :: "lb_group \<Rightarrow> proxy \<Rightarrow> nat set" where
  "fw_group_set g px = {k \<in> usable px. group_of (srv px ! k) = g}"

definition fw_result :: "int \<Rightarrow> lb_group \<Rightarrow> nat option \<Rightarrow> fwrr \<Rightarrow> nat option \<Rightarrow> nat list \<Rightarrow> fwrr \<Rightarrow> bool" where
  "fw_result now g avoid t r full t' \<longleftrightarrow> fw_be t' = fw_be t
    \<and> (\<forall>h. next_weight (grp h t') = next_weight (grp h t)) \<and> (\<forall>k. fw_tree t' k = None \<longleftrightarrow> fw_tree t k = None)
    \<and> distinct full \<and> set full \<subseteq> fw_group_set g (fw_be t)
    \<and> fw_linked t' (usable (fw_be t) - (set full - set_option r))
    \<and> best_choice (\<lambda>_ _. True) {k \<in> fw_group_set g (fw_be t). has_slot now (fw_be t) k} avoid r"

lemma passed_distinct: "fw_passed now px avoid avoided full \<Longrightarrow> distinct full"
  by (simp add: fw_passed_def)

lemma passed_avoided: "fw_passed now px avoid (Some a) full \<Longrightarrow> a \<in> set full \<and> has_slot now px a \<and> Some a = avoid"
  by (simp add: fw_passed_def)

lemma passed_slot: "fw_passed now px avoid avoided full \<Longrightarrow> x \<in> set full \<Longrightarrow> has_slot now px x \<Longrightarrow> Some x = avoid \<and> avoided = Some x"
  unfolding fw_passed_def by blast

lemma passed_more:
  assumes "fw_passed now px avoid avoided full" "s \<notin> set full" "\<not> (has_slot now px s \<and> (Some s \<noteq> avoid \<or> avoided \<noteq> None))"
  shows "fw_passed now px avoid (if has_slot now px s then Some s else avoided) (s # full)"
proof (cases "has_slot now px s")
  case True
  then have a: "Some s = avoid" "avoided = None" using assms(3) by auto
  then have "\<not> has_slot now px x" if "x \<in> set full" for x using passed_slot [OF assms(1) that] by auto
  then show ?thesis unfolding fw_passed_def if_P [OF True] using True passed_distinct [OF assms(1)] assms(2) by (simp add: a(1) [symmetric])
next
  case False
  then show ?thesis unfolding fw_passed_def if_not_P [OF False]
    using assms(1) [unfolded fw_passed_def] assms(2) by (metis distinct.simps(2) insert_iff list.set(2))
qed

lemma chosen_best:
  assumes "s \<in> fw_group_set g px" "has_slot now px s" "Some s \<noteq> avoid \<or> (\<forall>x \<in> fw_group_set g px. has_slot now px x \<longrightarrow> Some x = avoid)"
  shows "best_choice (\<lambda>_ _. True) {k \<in> fw_group_set g px. has_slot now px k} avoid (Some s)"
  using assms unfolding best_choice_def option.case by blast

lemma loop_ok:
  assumes all: "\<And>k. k \<in> usable (fw_be t) \<Longrightarrow> fw_weight k t \<noteq> 0" "\<And>k. k \<in> usable (fw_be t) \<Longrightarrow> fw_tree t k \<noteq> None"
    and l: "fw_linked t (usable (fw_be t) - set full)" and dr: "fw_drained g sw (usable (fw_be t) - set full) t"
    and p: "fw_passed now (fw_be t) avoid avoided full" and fu: "set full \<subseteq> fw_group_set g (fw_be t)"
    and n: "card (fw_group_set g (fw_be t) - set full) < n"
  shows "\<exists>r sw' full' t'. fw_loop n now g avoid sw avoided full t = Some (r, sw', full', t') \<and> fw_result now g avoid t r full' t'"
  using assms
proof (induction n arbitrary: sw avoided full t)
  case (Suc n)
  let ?U = "usable (fw_be t)" and ?G = "fw_group_set g (fw_be t)" and ?Q = "usable (fw_be t) - set full"
  define u where "u = (if curr_weight (grp g t) = 0 then on_grp g (\<lambda>gr. gr\<lparr>curr_weight := next_weight gr, curr_pos := next_weight gr\<rparr>) t else t)"
  have su: "fw_steady t u" and inu: "fw_next (grp g u) = fw_next (grp g t)" by (simp_all add: u_def fw_steady_def fw_next_def)
  have grp_u: "fw_group k u = fw_group k t" for k using su by (simp add: fw_steady_def fw_group_def)
  have lu: "fw_linked u ?Q"
    by (rule linked_cong [OF Suc.prems(3)]) (simp_all add: u_def fw_group_def)
  have dru: "fw_drained g sw ?Q u" using Suc.prems(4) su inu by (simp add: fw_drained_def fw_steady_def fw_group_def)
  have wu: "fw_weight k u \<noteq> 0" if "k \<in> ?Q" for k using Suc.prems(1) su that by (simp add: fw_weight_def fw_steady_def)
  have tu: "fw_tree u k \<noteq> None" if "k \<in> ?Q" for k using Suc.prems(2) su that by (simp add: fw_steady_def)
  obtain r sw' v where pk: "fw_pick g sw avoided u = (r, sw', v)" by (metis prod_cases3)
  note o = pick_ok [OF lu wu tu dru pk]
  have sv: "fw_steady t v" using fw_steady_trans [OF su] o by blast
  have all_full: "?G \<subseteq> set full" if "\<forall>k \<in> ?Q. fw_group k u \<noteq> g"
    using that grp_u by (auto simp: fw_group_set_def fw_group_def)
  have eb: "fw_be v = fw_be t" "fw_tree v = fw_tree t" and ew: "next_weight (grp h v) = next_weight (grp h t)" for h
    using sv by (simp_all add: fw_steady_def)
  show ?case
  proof (cases r)
    case None
    then have "avoided = None" "?G \<subseteq> set full" using o all_full by auto
    then have "\<not> has_slot now (fw_be t) k" if "k \<in> ?G" for k using Suc.prems(5) that by (auto simp: fw_passed_def)
    then have c: "{k \<in> ?G. has_slot now (fw_be t) k} = {}" by blast
    have lv: "fw_linked v (?U - (set full - set_option None))" using o by simp
    have "fw_result now g avoid t None full v"
      using lv passed_distinct [OF Suc.prems(5)] Suc.prems(6) unfolding fw_result_def c by (simp add: eb ew best_choice_def)
    then show ?thesis using pk None by (simp add: u_def [symmetric] Let_def)
  next
    case (Some s)
    consider (tree) "s \<in> ?Q" "fw_group s u = g" | (again) "avoided = Some s" "\<forall>k \<in> ?Q. fw_group k u \<noteq> g"
      using o Some by fastforce
    then have sG: "s \<in> ?G" and sQ: "s \<in> ?Q \<or> avoided = Some s \<and> ?G \<subseteq> set full"
    proof (atomize (full), cases)
      case tree
      then show "s \<in> ?G \<and> (s \<in> ?Q \<or> avoided = Some s \<and> ?G \<subseteq> set full)" using grp_u by (simp add: fw_group_set_def fw_group_def)
    next
      case again
      then show "s \<in> ?G \<and> (s \<in> ?Q \<or> avoided = Some s \<and> ?G \<subseteq> set full)"
        using all_full passed_avoided [of now "fw_be t" avoid s full] Suc.prems(5,6) by blast
    qed
    have "fw_weight s v \<noteq> 0" using Suc.prems(1) [of s] sG sv by (simp add: fw_weight_def fw_steady_def fw_group_set_def)
    moreover have lv: "fw_linked v ?Q" using o by blast
    ultimately obtain w where w: "fwrr_update_position g s v = Some w" "fw_linked w ?Q" "fw_steady v w" "\<And>h. grp h w = grp h v"
      using update_position_ok by metis
    define x where "x = on_grp g (\<lambda>gr. gr\<lparr>curr_pos := curr_pos gr + 1\<rparr>) (fwrr_dequeue_srv s w)"
    have ex: "fw_be x = fw_be t" "fw_tree x = fw_tree t" and exw: "next_weight (grp h x) = next_weight (grp h t)"
      and exn: "fw_next (grp h x) = fw_next (grp h v)" for h
      using w(3,4) eb ew by (simp_all add: x_def fw_steady_def fw_next_def)
    have lx: "fw_linked x (?Q - {s})"
      unfolding x_def by (rule linked_cong [OF dequeue_linked [OF w(2), of s]]) (simp_all add: fw_group_def)
    let ?ok = "has_slot now (fw_be x) s \<and> (Some s \<noteq> avoid \<or> avoided \<noteq> None)"
    have e: "fw_loop (Suc n) now g avoid sw avoided full t =
      (if ?ok then Some (Some s, sw', full, fwrr_queue_srv s x)
       else fw_loop n now g avoid sw' (if has_slot now (fw_be x) s then Some s else avoided) (s # full) x)"
      using pk Some w(1) by (simp add: u_def [symmetric] x_def [symmetric] Let_def)
    show ?thesis
    proof (cases ?ok)
      case True
      have us: "srv_is_usable (srv (fw_be x) ! s)" using sG ex by (simp add: fw_group_set_def usable_def)
      note q = queue_srv_ok [OF lx _ us, simplified]
      have best: "best_choice (\<lambda>_ _. True) {k \<in> ?G. has_slot now (fw_be t) k} avoid (Some s)"
      proof (rule chosen_best [OF sG])
        show "has_slot now (fw_be t) s" using True ex by simp
        show "Some s \<noteq> avoid \<or> (\<forall>x \<in> ?G. has_slot now (fw_be t) x \<longrightarrow> Some x = avoid)"
        proof (cases "s \<in> ?Q")
          case True
          have "Some s \<noteq> avoid" if "avoided = Some a" for a
            using passed_avoided [of now "fw_be t" avoid a full] Suc.prems(5) that True by auto
          then show ?thesis using \<open>?ok\<close> by (cases avoided) auto
        next
          case False
          then show ?thesis using sQ passed_slot [OF Suc.prems(5)] by blast
        qed
      qed
      have "insert s (?Q - {s}) = ?U - (set full - {s})" using sG by (auto simp: fw_group_set_def)
      moreover have "fw_tree (fwrr_queue_srv s x) k = None \<longleftrightarrow> fw_tree t k = None" for k
        using q(2,3) Suc.prems(2) [of s] sG ex by (cases "k = s") (auto simp: fw_moved_def fw_group_set_def)
      ultimately have "fw_result now g avoid t (Some s) full (fwrr_queue_srv s x)"
        using q best passed_distinct [OF Suc.prems(5)] Suc.prems(6) ex exw by (simp add: fw_result_def fw_moved_def)
      then show ?thesis unfolding e if_P [OF True] by blast
    next
      case False
      then have sQ': "s \<in> ?Q" using sQ passed_avoided [of now "fw_be t" avoid s full] Suc.prems(5) by (auto simp: ex)
      let ?av = "if has_slot now (fw_be x) s then Some s else avoided"
      have "fw_passed now (fw_be t) avoid ?av (s # full)"
        using passed_more [OF Suc.prems(5), of s] sQ' False by (simp add: ex)
      moreover have "?U - set (s # full) = ?Q - {s}" by auto
      moreover have "fw_drained g sw' (?Q - {s}) x"
        using o ex exn by (auto simp: fw_drained_def fw_group_def fw_steady_def eb)
      moreover have "card (?G - set (s # full)) < n"
      proof -
        have "?G - set (s # full) = (?G - set full) - {s}" by auto
        moreover have "finite (?G - set full)" by (simp add: fw_group_set_def usable_def)
        moreover have "s \<in> ?G - set full" using sG sQ' by simp
        ultimately show ?thesis using Suc.prems(7) card_Diff1_less [of "?G - set full" s] by simp
      qed
      ultimately have "\<exists>r sw'' full' t'. fw_loop n now g avoid sw' ?av (s # full) x = Some (r, sw'', full', t') \<and> fw_result now g avoid x r full' t'"
        using Suc.prems(1,2,6) sG lx by (intro Suc.IH) (simp_all add: ex fw_weight_def)
      then show ?thesis unfolding e if_not_P [OF False] by (simp add: fw_result_def ex exw)
    qed
  qed
qed simp

lemma fw_requeue_ok:
  assumes "fw_linked t (U - (set full - set_option r))" "distinct full" "\<forall>k \<in> set full. k \<in> U \<and> srv_is_usable (srv (fw_be t) ! k) \<and> fw_group k t = g"
  shows "fw_linked (fw_requeue g sw r full t) U \<and> fw_be (fw_requeue g sw r full t) = fw_be t
    \<and> (\<forall>h. next_weight (grp h (fw_requeue g sw r full t)) = next_weight (grp h t))
    \<and> (\<forall>k. fw_tree (fw_requeue g sw r full t) k = None \<longleftrightarrow> fw_tree t k = None \<and> k \<notin> set full - set_option r)"
  using assms
proof (induction full arbitrary: t)
  case (Cons s full)
  show ?case
  proof (cases "Some s = r")
    case True
    have "set (s # full) - set_option r = set full - set_option r" using True by auto
    then show ?thesis using Cons True by simp
  next
    case False
    define u where "u = (if sw then fwrr_queue_by_weight g (fw_init (grp g t)) s t else fwrr_queue_srv s t)"
    have s: "srv_is_usable (srv (fw_be t) ! s)" "fw_group s t = g" "s \<in> U" using Cons.prems(3) by simp_all
    have out: "s \<notin> U - (set (s # full) - set_option r)" using False by auto
    have ins: "insert s (U - (set (s # full) - set_option r)) = U - (set full - set_option r)"
      using s(3) Cons.prems(2) by auto
    have o: "fw_linked u (U - (set full - set_option r))" "fw_moved s t u" "fw_tree u s \<noteq> None"
      using by_weight_ok [OF Cons.prems(1) out, of "fw_init (grp g t)"] queue_srv_ok [OF Cons.prems(1) out s(1)]
      unfolding u_def ins s(2) by auto
    have m: "fw_be u = fw_be t" "\<And>h. next_weight (grp h u) = next_weight (grp h t)" "\<And>j. j \<noteq> s \<Longrightarrow> fw_tree u j = fw_tree t j"
      using o(2) by (simp_all add: fw_moved_def)
    have "fw_linked (fw_requeue g sw r full u) U \<and> fw_be (fw_requeue g sw r full u) = fw_be u
      \<and> (\<forall>h. next_weight (grp h (fw_requeue g sw r full u)) = next_weight (grp h u))
      \<and> (\<forall>k. fw_tree (fw_requeue g sw r full u) k = None \<longleftrightarrow> fw_tree u k = None \<and> k \<notin> set full - set_option r)"
      using Cons.prems(2,3) by (intro Cons.IH [OF o(1)]) (simp_all add: m(1) fw_group_def)
    moreover have "fw_tree u k = None \<and> k \<notin> set full - set_option r \<longleftrightarrow> fw_tree t k = None \<and> k \<notin> set (s # full) - set_option r" for k
      using o(3) m(3) [of k] False by (cases "k = s") auto
    moreover have "fw_requeue g sw r (s # full) t = fw_requeue g sw r full u" using False by (simp add: u_def)
    ultimately show ?thesis by (simp add: m(1,2))
  qed
qed simp

lemma fw_okD:
  assumes "fw_ok t"
  shows "backend_ok (fw_be t)" "fw_inv t (usable (fw_be t))" "fw_linked t (usable (fw_be t))" "fw_weights t" "counts_ok (fw_be t)"
    "fw_tree t k = None \<longleftrightarrow> k \<notin> usable (fw_be t)" "k < length (srv (fw_be t)) \<Longrightarrow> settled (srv (fw_be t) ! k)"
    "k < length (srv (fw_be t)) \<Longrightarrow> eweight (srv (fw_be t) ! k) \<le> SRV_EWGHT_MAX" "k \<in> usable (fw_be t) \<Longrightarrow> fw_weight k t \<noteq> 0"
proof -
  show s: "k < length (srv (fw_be t)) \<Longrightarrow> settled (srv (fw_be t) ! k)"
    and m: "k < length (srv (fw_be t)) \<Longrightarrow> eweight (srv (fw_be t) ! k) \<le> SRV_EWGHT_MAX"
    using assms by (auto simp: fw_ok_def backend_ok_def)
  show "k \<in> usable (fw_be t) \<Longrightarrow> fw_weight k t \<noteq> 0"
    using s m by (intro weight_nonzero) (auto simp: usable_def settled_def)
qed (use assms in \<open>auto simp: fw_ok_def fw_inv_def backend_ok_def counted_iff\<close>)

text \<open>A choice among the servers of a group.\<close>

lemma run_ok:
  assumes ok: "fw_ok t" and n: "length (srv (fw_be t)) < n"
  obtains r sw full t' where "fw_loop n now g avoid False None [] t = Some (r, sw, full, t')"
    "fw_ok (fw_requeue g sw r full t')" "fw_be (fw_requeue g sw r full t') = fw_be t"
    "best_choice (\<lambda>_ _. True) {k \<in> fw_group_set g (fw_be t). has_slot now (fw_be t) k} avoid r"
proof -
  note d = fw_okD [OF ok]
  let ?U = "usable (fw_be t)"
  have l: "fw_linked t (?U - set [])" using d(3) by simp
  have dr: "fw_drained g False (?U - set []) t" by (simp add: fw_drained_def)
  have p: "fw_passed now (fw_be t) avoid None []" by (simp add: fw_passed_def)
  have "fw_group_set g (fw_be t) \<subseteq> {..<length (srv (fw_be t))}" by (auto simp: fw_group_set_def usable_def)
  then have "card (fw_group_set g (fw_be t)) \<le> length (srv (fw_be t))" using card_mono [of "{..<length (srv (fw_be t))}"] by simp
  then have c: "card (fw_group_set g (fw_be t) - set []) < n" using n by simp
  have tr: "k \<in> ?U \<Longrightarrow> fw_tree t k \<noteq> None" for k using d(6) by simp
  obtain r sw full t' where e: "fw_loop n now g avoid False None [] t = Some (r, sw, full, t')" and res: "fw_result now g avoid t r full t'"
    using loop_ok [OF d(9) tr l dr p _ c] by auto
  have b: "fw_be t' = fw_be t" and fu: "set full \<subseteq> fw_group_set g (fw_be t)" and li: "fw_linked t' (?U - (set full - set_option r))"
    and ds: "distinct full" and no: "\<And>k. fw_tree t' k = None \<longleftrightarrow> fw_tree t k = None" and nw: "\<And>h. next_weight (grp h t') = next_weight (grp h t)"
    and best: "best_choice (\<lambda>_ _. True) {k \<in> fw_group_set g (fw_be t). has_slot now (fw_be t) k} avoid r"
    using res by (simp_all add: fw_result_def)
  have "\<forall>k \<in> set full. k \<in> ?U \<and> srv_is_usable (srv (fw_be t') ! k) \<and> fw_group k t' = g"
    using fu b by (auto simp: fw_group_set_def usable_def fw_group_def)
  note q = fw_requeue_ok [OF li ds this, of sw]
  have "k \<in> set full \<Longrightarrow> k \<in> ?U" for k using fu by (auto simp: fw_group_set_def)
  then have "fw_tree (fw_requeue g sw r full t') k = None \<longleftrightarrow> k \<notin> ?U" for k
    using q no [of k] d(6) [of k] by (metis DiffD1)
  then have "fw_ok (fw_requeue g sw r full t')"
    using q b nw ok by (simp add: fw_ok_def fw_inv_def fw_weights_def)
  then show thesis using that [OF e] q b best by simp
qed

lemma next_candidates:
  "lb_candidates now px = {k \<in> fw_group_set (if srv_act px \<noteq> 0 then Act else Bck) px. has_slot now px k}"
  by (auto simp: lb_candidates_def fw_group_set_def usable_def group_of_def)

lemma next_ok:
  assumes ok: "fw_ok t" and n: "length (srv (fw_be t)) < n"
  shows "\<exists>r t'. fwrr_get_next_server n now t avoid = Some (r, t') \<and> fw_ok t' \<and> fw_be t' = fw_be t
    \<and> (srv_act (fw_be t) \<noteq> 0 \<or> use_all_bk (fw_be t) \<longrightarrow> best_choice (\<lambda>_ _. True) (lb_candidates now (fw_be t)) avoid r)"
proof -
  note d = fw_okD [OF ok]
  consider (act) "srv_act (fw_be t) \<noteq> 0" | (first) k where "srv_act (fw_be t) = 0" "fbck (fw_be t) = Some k"
    | (bck) "srv_act (fw_be t) = 0" "fbck (fw_be t) = None" "srv_bck (fw_be t) \<noteq> 0"
    | (none) "srv_act (fw_be t) = 0" "fbck (fw_be t) = None" "srv_bck (fw_be t) = 0" by blast
  then show ?thesis
  proof cases
    case act
    obtain r sw full t' where "fw_loop n now Act avoid False None [] t = Some (r, sw, full, t')"
      "fw_ok (fw_requeue Act sw r full t')" "fw_be (fw_requeue Act sw r full t') = fw_be t"
      "best_choice (\<lambda>_ _. True) {k \<in> fw_group_set Act (fw_be t). has_slot now (fw_be t) k} avoid r"
      using run_ok [OF ok n] .
    then show ?thesis using act by (simp add: fwrr_get_next_server_def Let_def next_candidates)
  next
    case first
    then have "\<not> use_all_bk (fw_be t)" using d(5) by (auto simp: counts_ok_def)
    then show ?thesis using first ok by (simp add: fwrr_get_next_server_def Let_def)
  next
    case bck
    obtain r sw full t' where "fw_loop n now Bck avoid False None [] t = Some (r, sw, full, t')"
      "fw_ok (fw_requeue Bck sw r full t')" "fw_be (fw_requeue Bck sw r full t') = fw_be t"
      "best_choice (\<lambda>_ _. True) {k \<in> fw_group_set Bck (fw_be t). has_slot now (fw_be t) k} avoid r"
      using run_ok [OF ok n] .
    then show ?thesis using bck by (simp add: fwrr_get_next_server_def Let_def next_candidates)
  next
    case none
    then have "lb_servers True (srv (fw_be t)) = []" using d(5) by (simp add: counts_ok_def)
    then have "lb_candidates now (fw_be t) = {}" using none by (force simp: lb_candidates_def lb_servers_def filter_empty_conv)
    then show ?thesis using none ok by (simp add: fwrr_get_next_server_def Let_def best_choice_def)
  qed
qed

subsection \<open>Reachable states\<close>

definition fwrr_pristine :: "fwrr \<Rightarrow> bool" where
  "fwrr_pristine t \<longleftrightarrow> 0 < wmult (fw_be t) \<and> (\<forall>s \<in> set (srv (fw_be t)). 0 \<le> uweight s \<and> uweight s \<le> 256) \<and> fw_tree t = (\<lambda>k. None)"

inductive fwrr_reachable :: "fwrr \<Rightarrow> bool" where
  init: "fwrr_pristine t \<Longrightarrow> fwrr_reachable (fwrr_init_server_groups t)"
| down: "fwrr_reachable t \<Longrightarrow> k < length (srv (fw_be t)) \<Longrightarrow> s = set_status st adm (eweight (srv (fw_be t) ! k)) (srv (fw_be t) ! k) \<Longrightarrow>
    srv_is_usable s \<longrightarrow> srv_is_usable (srv (fw_be t) ! k) \<Longrightarrow>
    fwrr_set_server_status_down k (on_fw (put_srv k s) t) = Some t' \<Longrightarrow> fwrr_reachable t'"
| up: "fwrr_reachable t \<Longrightarrow> k < length (srv (fw_be t)) \<Longrightarrow> s = set_status st adm (eweight (srv (fw_be t) ! k)) (srv (fw_be t) ! k) \<Longrightarrow>
    srv_is_usable (srv (fw_be t) ! k) \<longrightarrow> srv_is_usable s \<Longrightarrow>
    fwrr_set_server_status_up k (on_fw (put_srv k s) t) = Some t' \<Longrightarrow> fwrr_reachable t'"
| weight: "fwrr_reachable t \<Longrightarrow> k < length (srv (fw_be t)) \<Longrightarrow> s = set_status st adm w (srv (fw_be t) ! k) \<Longrightarrow>
    0 \<le> w \<Longrightarrow> w \<le> SRV_EWGHT_MAX \<Longrightarrow>
    fwrr_update_server_weight k (on_fw (put_srv k s) t) = Some t' \<Longrightarrow> fwrr_reachable t'"
| load: "fwrr_reachable t \<Longrightarrow> k < length (srv (fw_be t)) \<Longrightarrow> fwrr_reachable (on_fw (put_srv k (set_load n p (srv (fw_be t) ! k))) t)"
| conns: "fwrr_reachable t \<Longrightarrow> fwrr_reachable (on_fw (\<lambda>px. px\<lparr>beconn := b\<rparr>) t)"
| next_server: "fwrr_reachable t \<Longrightarrow> length (srv (fw_be t)) < n \<Longrightarrow> fwrr_get_next_server n now t avoid = Some (r, t') \<Longrightarrow> fwrr_reachable t'"

lemma before_change:
  assumes ok: "fw_ok t" and c: "px_change (fw_be t) k s" and m: "eweight s \<le> SRV_EWGHT_MAX"
  shows "fw_before (on_fw (put_srv k s) t) (usable (fw_be t)) k"
proof -
  have k: "k < length (srv (fw_be t))" and su: "succeeds (srv (fw_be t) ! k) s" and w: "0 \<le> eweight s"
    using c by (simp_all add: px_change_def)
  have "fw_inv (on_fw (put_srv k s) t) (usable (fw_be t))"
    using su by (intro inv_on_fw [OF fw_okD(2) [OF ok]] groups_put) (simp_all add: succeeds_def usable_def)
  then show ?thesis using k su w m by (auto simp: fw_before_def usable_def succeeds_def nth_update split: if_splits)
qed

lemma after_ok:
  assumes ok: "fw_ok t" and k: "k < length (srv (fw_be t))" and m: "eweight s \<le> SRV_EWGHT_MAX"
    and a: "fw_after (on_fw (put_srv k s) t) f (Some t')" and b: "backend_ok (f (put_srv k s (fw_be t)))"
    and s: "\<exists>s'. (s' = s \<or> s' = srv_lb_commit_status s) \<and> srv (f (put_srv k s (fw_be t))) = (srv (put_srv k s (fw_be t)))[k := s']"
  shows "fw_ok t'"
proof -
  have e: "fw_be t' = f (put_srv k s (fw_be t))" and i: "fw_inv t' (usable (put_srv k s (fw_be t)))" using a by (simp_all add: fw_after_def)
  obtain s' where s': "s' = s \<or> s' = srv_lb_commit_status s" "srv (fw_be t') = (srv (fw_be t))[k := s']" using s e by auto
  have u: "srv_is_usable s' = srv_is_usable s" "eweight s' = eweight s" using s'(1) by auto
  have "usable (fw_be t') = usable (put_srv k s (fw_be t))" using s'(2) u k by (auto simp: usable_def nth_update split: if_splits)
  moreover have "\<forall>x \<in> set (srv (fw_be t')). eweight x \<le> SRV_EWGHT_MAX"
    using ok m u set_update_subset_insert [of "srv (fw_be t)" k s'] unfolding s'(2) by (auto simp: fw_ok_def)
  ultimately show ?thesis using i b e by (simp add: fw_ok_def)
qed

lemma status_facts:
  assumes "fw_ok t" "k < length (srv (fw_be t))" "0 \<le> w"
  shows "px_change (fw_be t) k (set_status st adm w (srv (fw_be t) ! k))" "eweight (set_status st adm w (srv (fw_be t) ! k)) = w"
    "0 \<le> eweight (srv (fw_be t) ! k)" "eweight (srv (fw_be t) ! k) \<le> SRV_EWGHT_MAX"
  using backend_status [OF fw_okD(1) [OF assms(1)] assms(2,3)] fw_okD(7,8) [OF assms(1) assms(2)] by (simp_all add: set_status_def settled_def)

lemma put_was:
  "px_change (fw_be t) k s \<Longrightarrow> srv (fw_be (on_fw (put_srv k s) t)) ! k = s \<and> srv_was_usable s = srv_is_usable (srv (fw_be t) ! k)"
  by (simp add: px_change_def succeeds_def)

lemma fw_queue_all_ok:
  assumes "fw_linked t U" "set ks \<inter> U = {}" "distinct ks"
  shows "fw_linked (fw_queue_all ks t) (U \<union> {k \<in> set ks. srv_is_usable (srv (fw_be t) ! k)})
    \<and> fw_be (fw_queue_all ks t) = fw_be t \<and> (\<forall>g. next_weight (grp g (fw_queue_all ks t)) = next_weight (grp g t))
    \<and> (\<forall>k. fw_tree (fw_queue_all ks t) k = None \<longleftrightarrow> fw_tree t k = None \<and> k \<notin> {k \<in> set ks. srv_is_usable (srv (fw_be t) ! k)})"
  using assms
proof (induction ks arbitrary: t U)
  case (Cons k ks)
  show ?case
  proof (cases "srv_is_usable (srv (fw_be t) ! k)")
    case False
    then have "{j \<in> set (k # ks). srv_is_usable (srv (fw_be t) ! j)} = {j \<in> set ks. srv_is_usable (srv (fw_be t) ! j)}" by auto
    then show ?thesis using Cons.IH [OF Cons.prems(1)] Cons.prems(2,3) False by simp
  next
    case True
    let ?t = "fwrr_queue_by_weight (fw_group k t) T0 k t"
    have k: "k \<notin> U" using Cons.prems(2) by auto
    note o = by_weight_ok [OF Cons.prems(1) k, of T0]
    have m: "fw_be ?t = fw_be t" "\<And>g. next_weight (grp g ?t) = next_weight (grp g t)" "\<And>j. j \<noteq> k \<Longrightarrow> fw_tree ?t j = fw_tree t j"
      using o(2) by (simp_all add: fw_moved_def)
    have I: "fw_linked (fw_queue_all ks ?t) (insert k U \<union> {j \<in> set ks. srv_is_usable (srv (fw_be t) ! j)})
      \<and> fw_be (fw_queue_all ks ?t) = fw_be t \<and> (\<forall>g. next_weight (grp g (fw_queue_all ks ?t)) = next_weight (grp g t))
      \<and> (\<forall>j. fw_tree (fw_queue_all ks ?t) j = None \<longleftrightarrow> fw_tree ?t j = None \<and> j \<notin> {j \<in> set ks. srv_is_usable (srv (fw_be t) ! j)})"
      using Cons.IH [OF o(1)] Cons.prems(2,3) unfolding m by auto
    have s: "insert k U \<union> {j \<in> set ks. srv_is_usable (srv (fw_be t) ! j)} = U \<union> {j \<in> set (k # ks). srv_is_usable (srv (fw_be t) ! j)}"
      using True by auto
    have tr: "fw_tree ?t j = None \<and> j \<notin> {j \<in> set ks. srv_is_usable (srv (fw_be t) ! j)} \<longleftrightarrow>
        fw_tree t j = None \<and> j \<notin> {j \<in> set (k # ks). srv_is_usable (srv (fw_be t) ! j)}" for j
      using o(3) m(3) [of j] True by (cases "j = k") auto
    show ?thesis using I True unfolding s tr by simp
  qed
qed simp

lemma fw_init_ok:
  assumes "fwrr_pristine t"
  shows "fw_ok (fwrr_init_server_groups t)"
proof -
  let ?px = "(fw_be t)\<lparr>wdiv := BE_WEIGHT_SCALE, srv := map (initial_weight (wmult (fw_be t)) BE_WEIGHT_SCALE) (srv (fw_be t))\<rparr>"
  define qx where "qx = update_backend_weight (recount_servers ?px)"
  define u where "u = t\<lparr>fw_be := qx, fw_act := empty_group (tot_wact qx), fw_bck := empty_group (tot_wbck qx)\<rparr>"
  have e: "fwrr_init_server_groups t = fw_queue_all [0..<length (srv qx)] u" by (simp add: fwrr_init_server_groups_def Let_def u_def qx_def)
  have p: "0 < wmult (fw_be t)" "\<And>s. s \<in> set (srv (fw_be t)) \<Longrightarrow> 0 \<le> uweight s \<and> uweight s \<le> 256" "fw_tree t = (\<lambda>k. None)"
    using assms by (simp_all add: fwrr_pristine_def)
  have w: "0 \<le> (uweight s * 16 + wmult (fw_be t) - 1) div wmult (fw_be t)"
    "(uweight s * 16 + wmult (fw_be t) - 1) div wmult (fw_be t) \<le> SRV_EWGHT_MAX" if "s \<in> set (srv (fw_be t))" for s
  proof -
    show "0 \<le> (uweight s * 16 + wmult (fw_be t) - 1) div wmult (fw_be t)" using p(1) p(2) [OF that] by (simp add: pos_imp_zdiv_nonneg_iff)
    have "uweight s * 16 \<le> 4096 * wmult (fw_be t)" using p(1) p(2) [OF that] by linarith
    then have le: "uweight s * 16 + wmult (fw_be t) - 1 \<le> 4096 * wmult (fw_be t) + (wmult (fw_be t) - 1)" by simp
    have "(4096 * wmult (fw_be t) + (wmult (fw_be t) - 1)) div wmult (fw_be t) = 4096 + (wmult (fw_be t) - 1) div wmult (fw_be t)"
      using p(1) by (intro div_mult_self3) simp
    moreover have "(wmult (fw_be t) - 1) div wmult (fw_be t) = 0" using p(1) by (intro div_pos_pos_trivial) simp_all
    ultimately show "(uweight s * 16 + wmult (fw_be t) - 1) div wmult (fw_be t) \<le> SRV_EWGHT_MAX"
      using zdiv_mono1 [OF le p(1)] by linarith
  qed
  have sx: "srv qx = srv ?px" by (simp add: qx_def recount_servers_counts)
  have st: "\<forall>s \<in> set (srv qx). settled s" "\<forall>s \<in> set (srv qx). eweight s \<le> SRV_EWGHT_MAX"
    using w by (auto simp: sx initial_weight_def)
  have cn: "counted qx" by (simp add: qx_def counted_iff counts_ok_def recount_servers_counts)
  have root: "root_of r (grp g u) = None" for r g by (cases r; cases g) (simp_all add: root_of_def grp_def u_def empty_group_def)
  have l: "fw_linked u {}" by (rule fw_linkedI) (simp_all add: root eb_root_ok_def eb_contents_def)
  have be: "fw_be u = qx" "fw_tree u = (\<lambda>k. None)" "fw_weights u" using p(3)
    by (simp_all add: u_def fw_weights_def grp_def empty_group_def)
  have us: "{} \<union> {k \<in> set [0..<length (srv qx)]. srv_is_usable (srv (fw_be u) ! k)} = usable qx" by (auto simp: usable_def be)
  have "fw_linked (fwrr_init_server_groups t) (usable qx) \<and> fw_be (fwrr_init_server_groups t) = qx
    \<and> (\<forall>g. next_weight (grp g (fwrr_init_server_groups t)) = next_weight (grp g u))
    \<and> (\<forall>k. fw_tree (fwrr_init_server_groups t) k = None \<longleftrightarrow> k \<notin> usable qx)"
    using fw_queue_all_ok [OF l, of "[0..<length (srv qx)]"] us unfolding e be by (simp add: be usable_def)
  then show ?thesis using st cn be(3) by (simp add: fw_ok_def backend_ok_def fw_inv_def fw_weights_def be(1))
qed

lemma fwrr_reachable_ok: "fwrr_reachable t \<Longrightarrow> fw_ok t"
proof (induction rule: fwrr_reachable.induct)
  case (init t)
  then show ?case by (rule fw_init_ok)
next
  case (down t k s st adm t')
  have w: "0 \<le> eweight (srv (fw_be t) ! k)" using fw_okD(7) [OF down.IH down.hyps(2)] by (simp add: settled_def)
  note f = status_facts(1) [OF down.IH down.hyps(2) w, of st adm, folded down.hyps(3)] status_facts(2) [OF down.IH down.hyps(2) w, of st adm, folded down.hyps(3)] status_facts(3,4) [OF down.IH down.hyps(2) w]
  note b = before_change [OF down.IH f(1)] and p = put_was [OF f(1)]
  have d: "srv_is_usable s \<longrightarrow> srv_is_usable (srv (fw_be t) ! k) \<and> eweight s = eweight (srv (fw_be t) ! k)" using down.hyps(4) f(2) by simp
  have m: "eweight s \<le> SRV_EWGHT_MAX" using f(2,4) by simp
  have a: "fw_after (on_fw (put_srv k s) t) (px_status_down k) (Some t')"
    using fw_down_ok [OF b [OF m]] p down.hyps(4,5) by simp
  show ?case
    by (rule after_ok [OF down.IH down.hyps(2) m a px_status_down_ok [OF f(1) d]]) (use px_srv(1) [of k "put_srv k s (fw_be t)"] down.hyps(2) in simp)
next
  case (up t k s st adm t')
  have w: "0 \<le> eweight (srv (fw_be t) ! k)" using fw_okD(7) [OF up.IH up.hyps(2)] by (simp add: settled_def)
  note f = status_facts(1) [OF up.IH up.hyps(2) w, of st adm, folded up.hyps(3)] status_facts(2) [OF up.IH up.hyps(2) w, of st adm, folded up.hyps(3)] status_facts(3,4) [OF up.IH up.hyps(2) w]
  note b = before_change [OF up.IH f(1)] and p = put_was [OF f(1)]
  have d: "srv_is_usable (srv (fw_be t) ! k) \<longrightarrow> srv_is_usable s \<and> eweight s = eweight (srv (fw_be t) ! k)" using up.hyps(4) f(2) by simp
  have m: "eweight s \<le> SRV_EWGHT_MAX" using f(2,4) by simp
  have a: "fw_after (on_fw (put_srv k s) t) (px_status_up k) (Some t')"
    using fw_up_ok [OF b [OF m]] p up.hyps(4,5) by simp
  show ?case
    by (rule after_ok [OF up.IH up.hyps(2) m a px_status_up_ok [OF f(1) d]]) (use px_srv(2) [of k "put_srv k s (fw_be t)"] up.hyps(2) in simp)
next
  case (weight t k s st adm w t')
  note f = status_facts(1) [OF weight.IH weight.hyps(2,4), of st adm, folded weight.hyps(3)] status_facts(2) [OF weight.IH weight.hyps(2,4), of st adm, folded weight.hyps(3)] status_facts(3,4) [OF weight.IH weight.hyps(2,4)]
  note b = before_change [OF weight.IH f(1)]
  have m: "eweight s \<le> SRV_EWGHT_MAX" using f(2) weight.hyps(5) by simp
  have a: "fw_after (on_fw (put_srv k s) t) (px_update_weight k) (Some t')"
    using fw_weight_ok [OF b [OF m]] weight.hyps(6) by simp
  show ?case
    by (rule after_ok [OF weight.IH weight.hyps(2) m a px_update_weight_ok [OF f(1)]])
      (use px_srv(3) [of k "put_srv k s (fw_be t)"] weight.hyps(2) in simp)
next
  case (load t k n p)
  let ?s = "set_load n p (srv (fw_be t) ! k)" let ?t = "on_fw (put_srv k ?s) t"
  have u: "usable (fw_be ?t) = usable (fw_be t)" using load.hyps(2) by (auto simp: usable_def nth_update split: if_splits)
  have "fw_inv ?t (usable (fw_be t))"
    by (intro inv_on_fw [OF fw_okD(2) [OF load.IH]] groups_put) (simp_all add: usable_def)
  moreover have "\<forall>x \<in> set (srv (fw_be ?t)). eweight x \<le> SRV_EWGHT_MAX"
    using load fw_okD(8) [OF load.IH load.hyps(2)] set_update_subset_insert [of "srv (fw_be t)" k ?s] by (auto simp: fw_ok_def)
  ultimately show ?case using backend_load [OF fw_okD(1) [OF load.IH] load.hyps(2)] u by (simp add: fw_ok_def)
next
  case (conns t b)
  have "fw_inv (on_fw (\<lambda>px. px\<lparr>beconn := b\<rparr>) t) (usable (fw_be t))"
    by (intro inv_on_fw [OF fw_okD(2) [OF conns.IH]]) (simp_all add: usable_def same_groups_def)
  then show ?case using conns.IH beconn_ok [of "fw_be t" b] by (simp add: fw_ok_def usable_def)
next
  case (next_server t n now avoid r t')
  then show ?case using next_ok [OF next_server.IH next_server.hyps(2), of now avoid] by auto
qed

text \<open>C22: weighted round robin, state.  After any sequence of status changes, weight changes, connections and
  choices, the counters are those of a recount, the weight of each group's next round is the sum of
  the weights of its usable servers, and the three trees of a group hold its usable servers, each in
  the one tree that the server refers to.\<close>

theorem fwrr_invariant:
  assumes "fwrr_reachable t"
  shows "update_backend_weight (recount_servers (fw_be t)) = fw_be t
    \<and> next_weight (grp Act t) = weight_sum False (srv (fw_be t)) \<and> next_weight (grp Bck t) = weight_sum True (srv (fw_be t))
    \<and> (\<forall>g r. set (eb_contents (root_of r (grp g t))) = {k \<in> usable (fw_be t). fw_tree t k = Some r \<and> fw_group k t = g})
    \<and> (\<forall>k. fw_tree t k = None \<longleftrightarrow> k \<notin> usable (fw_be t))"
proof -
  have ok: "fw_ok t" by (rule fwrr_reachable_ok [OF assms])
  note d = fw_okD [OF ok]
  have "update_backend_weight (recount_servers (fw_be t)) = fw_be t" using d(1) by (simp add: backend_ok_def counted_def)
  moreover have "next_weight (grp Act t) = weight_sum False (srv (fw_be t))" "next_weight (grp Bck t) = weight_sum True (srv (fw_be t))"
    using d(4,5) by (simp_all add: fw_weights_def counts_ok_def)
  moreover have "set (eb_contents (root_of r (grp g t))) = {k \<in> usable (fw_be t). fw_tree t k = Some r \<and> fw_group k t = g}" for g r
    using d(3) by (simp add: fw_linked_def)
  ultimately show ?thesis using d(6) by blast
qed

lemma fwrr_alone:
  assumes "fw_ok t" "single_backup (fw_be t)"
  shows "fwrr_get_next_server n now t avoid = Some (first_backup (srv (fw_be t)), t)"
  using backup_alone [OF fw_okD(5) [OF assms(1)] assms(2)]
  by (cases "first_backup (srv (fw_be t))") (simp_all add: fwrr_get_next_server_def Let_def)

text \<open>C23: weighted round robin, choice.  On every reachable state \<open>fwrr_get_next_server\<close> returns: its loops end
  after at most one pass over the servers, and divide by no null weight.  It returns a server of the
  group in use that accepts the connection, the one to avoid only when there is no other, and none
  only when none does; without active server and without allbackups it returns the first usable backup
  server, even when this one is saturated.  The trees are whole again afterwards.\<close>

theorem fwrr_choice:
  assumes "fwrr_reachable t" "length (srv (fw_be t)) < n"
  shows "\<exists>r t'. fwrr_get_next_server n now t avoid = Some (r, t')
    \<and> (if single_backup (fw_be t) then r = first_backup (srv (fw_be t))
       else best_choice (\<lambda>_ _. True) (lb_candidates now (fw_be t)) avoid r)
    \<and> fw_be t' = fw_be t \<and> (\<forall>g r. set (eb_contents (root_of r (grp g t'))) = {k \<in> usable (fw_be t). fw_tree t' k = Some r \<and> fw_group k t = g})"
proof -
  have ok: "fw_ok t" by (rule fwrr_reachable_ok [OF assms(1)])
  obtain r t' where e: "fwrr_get_next_server n now t avoid = Some (r, t')" "fw_ok t'" "fw_be t' = fw_be t"
    "srv_act (fw_be t) \<noteq> 0 \<or> use_all_bk (fw_be t) \<longrightarrow> best_choice (\<lambda>_ _. True) (lb_candidates now (fw_be t)) avoid r"
    using next_ok [OF ok assms(2), of now avoid] by blast
  have "set (eb_contents (root_of q (grp g t'))) = {k \<in> usable (fw_be t). fw_tree t' k = Some q \<and> fw_group k t = g}" for g q
    using fw_okD(3) [OF e(2)] e(3) fw_group_cong [OF e(3)] by (simp add: fw_linked_def)
  moreover have "if single_backup (fw_be t) then r = first_backup (srv (fw_be t))
      else best_choice (\<lambda>_ _. True) (lb_candidates now (fw_be t)) avoid r"
    using e(1,4) fwrr_alone [OF ok, of n now avoid] by (auto simp: single_backup_def)
  ultimately show ?thesis using e(1,3) by blast
qed

text \<open>Weighted round robin, no crash.  On every reachable state, each report on a server returns.\<close>

theorem fwrr_operations_defined:
  assumes "fwrr_reachable t" "k < length (srv (fw_be t))" "0 \<le> w" "w \<le> SRV_EWGHT_MAX"
  shows "fwrr_update_server_weight k (on_fw (put_srv k (set_status st adm w (srv (fw_be t) ! k))) t) \<noteq> None
    \<and> fwrr_set_server_status_down k t \<noteq> None \<and> fwrr_set_server_status_up k t \<noteq> None"
proof -
  have ok: "fw_ok t" by (rule fwrr_reachable_ok [OF assms(1)])
  note f = status_facts(1) [OF ok assms(2,3), of st adm] status_facts(2) [OF ok assms(2,3), of st adm] status_facts(3,4) [OF ok assms(2,3)]
  have "fw_before (on_fw (put_srv k (set_status st adm w (srv (fw_be t) ! k))) t) (usable (fw_be t)) k"
    using before_change [OF ok f(1)] f(2) assms(4) by simp
  from fw_weight_ok [OF this] have w: "fwrr_update_server_weight k (on_fw (put_srv k (set_status st adm w (srv (fw_be t) ! k))) t) \<noteq> None"
    by (auto simp: fw_after_def)
  have st: "settled (srv (fw_be t) ! k)" by (rule fw_okD(7) [OF ok assms(2)])
  have b: "fw_before t (usable (fw_be t)) k"
    using fw_okD(2) [OF ok] fw_okD(8) [OF ok assms(2)] st assms(2) by (simp add: fw_before_def settled_def usable_def)
  show ?thesis
    using w fw_down_ok [OF b] fw_up_ok [OF b] st by (auto simp: fw_after_def settled_def)
qed

subsection \<open>A concrete backend\<close>

definition fwrr1 :: fwrr where
  "fwrr1 = fwrr_init_server_groups \<lparr>fw_be = be trees1, fw_act = empty_group 0, fw_bck = empty_group 0, fw_tree = (\<lambda>k. None),
     fw_key = (\<lambda>k. 0), npos = (\<lambda>k. 0), lpos = (\<lambda>k. 0), rweight = (\<lambda>k. 0)\<rparr>"

lemma fwrr1_reachable: "fwrr_reachable fwrr1"
  unfolding fwrr1_def by (rule fwrr_reachable.init) (simp add: fwrr_pristine_def trees1_def server1_def)

lemma fwrr1_be: "srv_act (fw_be fwrr1) = 2" "length (srv (fw_be fwrr1)) = 2"
  by code_simp+

theorem fwrr_invariant_witness:
  "update_backend_weight (recount_servers (fw_be fwrr1)) = fw_be fwrr1
    \<and> next_weight (grp Act fwrr1) = weight_sum False (srv (fw_be fwrr1)) \<and> next_weight (grp Bck fwrr1) = weight_sum True (srv (fw_be fwrr1))
    \<and> (\<forall>g r. set (eb_contents (root_of r (grp g fwrr1))) = {k \<in> usable (fw_be fwrr1). fw_tree fwrr1 k = Some r \<and> fw_group k fwrr1 = g})
    \<and> (\<forall>k. fw_tree fwrr1 k = None \<longleftrightarrow> k \<notin> usable (fw_be fwrr1))"
  by (rule fwrr_invariant [OF fwrr1_reachable])

theorem fwrr_choice_witness:
  "\<exists>r t'. fwrr_get_next_server 3 0 fwrr1 (Some 1) = Some (r, t')
    \<and> best_choice (\<lambda>_ _. True) (lb_candidates 0 (fw_be fwrr1)) (Some 1) r
    \<and> fw_be t' = fw_be fwrr1 \<and> (\<forall>g r. set (eb_contents (root_of r (grp g t'))) = {k \<in> usable (fw_be fwrr1). fw_tree t' k = Some r \<and> fw_group k fwrr1 = g})"
  using fwrr_choice [OF fwrr1_reachable, of 3 0 "Some 1"] by (simp add: fwrr1_be single_backup_def)

theorem fwrr_operations_defined_witness:
  "fwrr_update_server_weight 1 (on_fw (put_srv 1 (set_status SRV_ST_RUNNING 0 7 (srv (fw_be fwrr1) ! 1))) fwrr1) \<noteq> None
    \<and> fwrr_set_server_status_down 1 fwrr1 \<noteq> None \<and> fwrr_set_server_status_up 1 fwrr1 \<noteq> None"
  by (rule fwrr_operations_defined [OF fwrr1_reachable]) (simp_all add: fwrr1_be)

end
