(* ===== verification/HA_Queue.thy ===== *)
theory HA_Queue
  imports HA_Server HA_Time "HOL-Library.Monad_Syntax"
begin

section \<open>Connection queues (src/queue.c, include/proto/queue.h)\<close>

text \<open>
  A session that finds no free connection slot waits in the queue of its server,
  or in that of the backend when it has no server yet.  Sessions and queue
  entries are objects of a store, named by numbers; the lists hold the names of
  the entries.  A queue has a list and a counter, kept apart as in the code,
  which tests the counter before it takes the head of the list: a function is
  None where the code would take the head of an empty list or use an entry that
  was freed.  All sessions belong to one backend.  A server may track one of
  another backend, whose state \<open>servers\<close> gives; \<open>take_conn\<close> and \<open>drop_conn\<close> are the
  callbacks of the load balancing algorithm, the identity when not set.
\<close>

subsection \<open>State\<close>

abbreviation SN_DIRECT :: u32 where "SN_DIRECT \<equiv> 0x1"
abbreviation SN_ASSIGNED :: u32 where "SN_ASSIGNED \<equiv> 0x2"
abbreviation SN_ADDR_SET :: u32 where "SN_ADDR_SET \<equiv> 0x4"
abbreviation SN_FORCE_PRST :: u32 where "SN_FORCE_PRST \<equiv> 0x10"

record session =
  sn_flags :: u32
  target :: "nat option"
  srv_conn :: "nat option"
  pend_pos :: "nat option"
  tv_request :: timeval
  srv_queue_size :: int
  prx_queue_size :: int
  woken :: bool

record pendconn =
  p_sess :: nat
  p_srv :: "nat option"

record queues =
  backend :: proxy
  redisp :: bool
  sess :: "nat \<Rightarrow> session"
  pool :: "nat \<rightharpoonup> pendconn"
  px_pend :: "nat list"
  srv_pend :: "nat list list"
  actconns :: "nat list list"
  px_nbpend :: int
  totpend :: int
  px_nbmax :: int
  srv_nbmax :: "int list"

abbreviation server_of :: "queues \<Rightarrow> nat \<Rightarrow> server" where
  "server_of q k \<equiv> srv (backend q) ! k"

definition on_sess :: "nat \<Rightarrow> (session \<Rightarrow> session) \<Rightarrow> queues \<Rightarrow> queues" where
  "on_sess i f q = q\<lparr>sess := (sess q)(i := f (sess q i))\<rparr>"

definition on_srv :: "nat \<Rightarrow> (server \<Rightarrow> server) \<Rightarrow> queues \<Rightarrow> queues" where
  "on_srv k f q = q\<lparr>backend := upd_srv k f (backend q)\<rparr>"

subsection \<open>Entries\<close>

definition pendconn_from_srv :: "nat \<Rightarrow> queues \<Rightarrow> nat option option" where
  "pendconn_from_srv k q =
    (if nbpend (server_of q k) = 0 then Some None
     else case srv_pend q ! k of [] \<Rightarrow> None | p # _ \<Rightarrow> Some (Some p))"

definition pendconn_from_px :: "queues \<Rightarrow> nat option option" where
  "pendconn_from_px q =
    (if px_nbpend q = 0 then Some None else case px_pend q of [] \<Rightarrow> None | p # _ \<Rightarrow> Some (Some p))"

text \<open>\<open>alloc\<close> is what the pool gives: a new entry or nothing.\<close>

definition add_to_srv :: "nat \<Rightarrow> nat \<Rightarrow> nat \<Rightarrow> queues \<Rightarrow> queues" where
  "add_to_srv p i k q =
    (let n = nbpend (server_of q k) + 1;
         q = q\<lparr>srv_pend := (srv_pend q)[k := srv_pend q ! k @ [p]],
               srv_nbmax := (srv_nbmax q)[k := max n (srv_nbmax q ! k)]\<rparr>
     in on_sess i (\<lambda>s. s\<lparr>srv_queue_size := srv_queue_size s + n\<rparr>) (on_srv k (\<lambda>s. s\<lparr>nbpend := n\<rparr>) q))"

definition add_to_px :: "nat \<Rightarrow> nat \<Rightarrow> queues \<Rightarrow> queues" where
  "add_to_px p i q =
    (let n = px_nbpend q + 1
     in on_sess i (\<lambda>s. s\<lparr>prx_queue_size := prx_queue_size s + n\<rparr>)
          (q\<lparr>px_pend := px_pend q @ [p], px_nbpend := n, px_nbmax := max n (px_nbmax q)\<rparr>))"

definition pendconn_add :: "nat option \<Rightarrow> nat \<Rightarrow> queues \<Rightarrow> nat option \<times> queues" where
  "pendconn_add alloc i q =
    (case alloc of None \<Rightarrow> (None, q)
     | Some p \<Rightarrow>
         let s = sess q i;
             q = on_sess i (\<lambda>s. s\<lparr>pend_pos := Some p\<rparr>) q;
             q = q\<lparr>pool := (pool q)(p \<mapsto> \<lparr>p_sess = i, p_srv = target s\<rparr>)\<rparr>;
             q = (if sn_flags s AND SN_ASSIGNED \<noteq> 0 \<and> target s \<noteq> None
                  then add_to_srv p i (the (target s)) q else add_to_px p i q)
         in (Some p, q\<lparr>totpend := totpend q + 1\<rparr>))"

definition pendconn_free :: "nat \<Rightarrow> queues \<Rightarrow> queues option" where
  "pendconn_free p q = do {
     pc \<leftarrow> pool q p;
     let q = q\<lparr>px_pend := remove1 p (px_pend q), srv_pend := map (remove1 p) (srv_pend q)\<rparr>;
     let q = on_sess (p_sess pc) (\<lambda>s. s\<lparr>pend_pos := None\<rparr>) q;
     let q = (case p_srv pc of Some k \<Rightarrow> on_srv k (\<lambda>s. s\<lparr>nbpend := nbpend s - 1\<rparr>) q
              | None \<Rightarrow> q\<lparr>px_nbpend := px_nbpend q - 1\<rparr>);
     Some (q\<lparr>totpend := totpend q - 1, pool := (pool q)(p := None)\<rparr>)
   }"

text \<open>A session that ends, or starts a new request, leaves the queue it is in, if any.\<close>

definition session_leave_queue :: "nat \<Rightarrow> queues \<Rightarrow> queues option" where
  "session_leave_queue i q = (case pend_pos (sess q i) of None \<Rightarrow> Some q | Some p \<Rightarrow> pendconn_free p q)"

definition session_add_srv_conn :: "nat \<Rightarrow> nat \<Rightarrow> queues \<Rightarrow> queues" where
  "session_add_srv_conn i k q =
    on_sess i (\<lambda>s. s\<lparr>srv_conn := Some k\<rparr>) (q\<lparr>actconns := (actconns q)[k := i # actconns q ! k]\<rparr>)"

definition session_del_srv_conn :: "nat \<Rightarrow> queues \<Rightarrow> queues" where
  "session_del_srv_conn i q =
    (if srv_conn (sess q i) = None then q
     else on_sess i (\<lambda>s. s\<lparr>srv_conn := None\<rparr>) (q\<lparr>actconns := map (remove1 i) (actconns q)\<rparr>))"

text \<open>A session takes or leaves a connection slot.\<close>

definition sess_change_server ::
  "(nat \<Rightarrow> proxy \<Rightarrow> proxy) \<Rightarrow> (nat \<Rightarrow> proxy \<Rightarrow> proxy) \<Rightarrow> nat \<Rightarrow> nat option \<Rightarrow> queues \<Rightarrow> queues" where
  "sess_change_server take_conn drop_conn i newsrv q =
    (if srv_conn (sess q i) = newsrv then q
     else let q = (case srv_conn (sess q i) of None \<Rightarrow> q
                   | Some k \<Rightarrow>
                       let q = on_srv k (\<lambda>s. s\<lparr>served := served s - 1\<rparr>) q
                       in session_del_srv_conn i (q\<lparr>backend := drop_conn k (backend q)\<rparr>))
          in case newsrv of None \<Rightarrow> q
             | Some k \<Rightarrow>
                 let q = on_srv k (\<lambda>s. s\<lparr>served := served s + 1\<rparr>) q
                 in session_add_srv_conn i k (q\<lparr>backend := take_conn k (backend q)\<rparr>))"

subsection \<open>Dequeuing\<close>

definition request_date :: "queues \<Rightarrow> nat \<Rightarrow> timeval" where
  "request_date q p = tv_request (sess q (p_sess (the (pool q p))))"

definition effective_server :: "(nat \<Rightarrow> server) \<Rightarrow> server \<Rightarrow> server" where
  "effective_server servers s = (case track s of None \<Rightarrow> s | Some t \<Rightarrow> servers t)"

definition next_pendconn :: "bool \<Rightarrow> nat option \<Rightarrow> nat option \<Rightarrow> queues \<Rightarrow> nat option" where
  "next_pendconn usable ps pp q =
    (if pp = None \<or> \<not> usable then ps
     else if ps = None \<or> tv_islt (request_date q (the pp)) (request_date q (the ps)) then pp else ps)"

definition assign_slot :: "(nat \<Rightarrow> proxy \<Rightarrow> proxy) \<Rightarrow> nat \<Rightarrow> nat \<Rightarrow> queues \<Rightarrow> queues" where
  "assign_slot take_conn i k q =
    (let q = on_sess i (\<lambda>s. s\<lparr>sn_flags := sn_flags s OR SN_ASSIGNED, target := Some k\<rparr>) q;
         q = on_srv k (\<lambda>s. s\<lparr>served := served s + 1\<rparr>) (session_add_srv_conn i k q)
     in q\<lparr>backend := take_conn k (backend q)\<rparr>)"

definition pendconn_get_next_sess ::
  "(nat \<Rightarrow> server) \<Rightarrow> (nat \<Rightarrow> proxy \<Rightarrow> proxy) \<Rightarrow> nat \<Rightarrow> queues \<Rightarrow> (nat option \<times> queues) option" where
  "pendconn_get_next_sess servers take_conn k q = do {
     ps \<leftarrow> pendconn_from_srv k q;
     pp \<leftarrow> pendconn_from_px q;
     case next_pendconn (srv_is_usable (effective_server servers (server_of q k))) ps pp q of
       None \<Rightarrow> Some (None, q)
     | Some p \<Rightarrow> do {
         pc \<leftarrow> pool q p;
         q \<leftarrow> pendconn_free p q;
         Some (Some (p_sess pc), assign_slot take_conn (p_sess pc) k q)
       }
   }"

definition task_wakeup_res :: "nat \<Rightarrow> queues \<Rightarrow> queues" where
  "task_wakeup_res i q = on_sess i (\<lambda>s. s\<lparr>woken := True\<rparr>) q"

text \<open>The limit is read once, before the loop; every turn but the last frees an entry.\<close>

fun dequeue_loop ::
  "nat \<Rightarrow> (nat \<Rightarrow> server) \<Rightarrow> (nat \<Rightarrow> proxy \<Rightarrow> proxy) \<Rightarrow> int \<Rightarrow> nat \<Rightarrow> queues \<Rightarrow> queues option" where
  "dequeue_loop 0 servers take_conn limit k q = None"
| "dequeue_loop (Suc n) servers take_conn limit k q =
    (if served (server_of q k) < limit then do {
       (r, q) \<leftarrow> pendconn_get_next_sess servers take_conn k q;
       case r of None \<Rightarrow> Some q
       | Some i \<Rightarrow> dequeue_loop n servers take_conn limit k (task_wakeup_res i q)
     } else Some q)"

definition process_srv_queue ::
  "int \<Rightarrow> (nat \<Rightarrow> server) \<Rightarrow> (nat \<Rightarrow> proxy \<Rightarrow> proxy) \<Rightarrow> nat \<Rightarrow> queues \<Rightarrow> queues option" where
  "process_srv_queue now servers take_conn k q =
    dequeue_loop (nat (totpend q) + 1) servers take_conn (sint (srv_dynamic_maxconn now (backend q) (server_of q k))) k q"

definition may_dequeue_tasks :: "int \<Rightarrow> nat option \<Rightarrow> queues \<Rightarrow> bool" where
  "may_dequeue_tasks now s q =
    (case s of None \<Rightarrow> False
     | Some k \<Rightarrow>
         (nbpend (server_of q k) \<noteq> 0 \<or> px_nbpend q \<noteq> 0 \<and> srv_is_usable (server_of q k)) \<and>
         server_has_room now (backend q) (server_of q k))"

definition unassigned :: "u32 \<Rightarrow> u32" where
  "unassigned w = w AND NOT (SN_DIRECT OR SN_ASSIGNED OR SN_ADDR_SET)"

text \<open>The entries of a server that goes down, but those whose session is bound to it.\<close>

fun redistribute_loop :: "nat list \<Rightarrow> int \<Rightarrow> queues \<Rightarrow> (int \<times> queues) option" where
  "redistribute_loop [] n q = Some (n, q)"
| "redistribute_loop (p # ps) n q = do {
     pc \<leftarrow> pool q p;
     let i = p_sess pc;
     if redisp q \<and> sn_flags (sess q i) AND SN_FORCE_PRST = 0 then do {
       let q = on_sess i (\<lambda>s. s\<lparr>sn_flags := unassigned (sn_flags s)\<rparr>) q;
       q \<leftarrow> pendconn_free p q;
       redistribute_loop ps (n + 1) (task_wakeup_res i q)
     } else redistribute_loop ps n q
   }"

definition pendconn_redistribute :: "nat \<Rightarrow> queues \<Rightarrow> (int \<times> queues) option" where
  "pendconn_redistribute k q = redistribute_loop (srv_pend q ! k) 0 q"

fun grab_loop :: "nat \<Rightarrow> int \<Rightarrow> nat \<Rightarrow> int \<Rightarrow> queues \<Rightarrow> (int \<times> queues) option" where
  "grab_loop 0 now k n q = None"
| "grab_loop (Suc m) now k n q =
    (if maxconn (server_of q k) = 0 \<or> word_of_int n < srv_dynamic_maxconn now (backend q) (server_of q k) then do {
       p \<leftarrow> pendconn_from_px q;
       case p of None \<Rightarrow> Some (n, q)
       | Some p \<Rightarrow> do {
           pc \<leftarrow> pool q p;
           let q = on_sess (p_sess pc) (\<lambda>s. s\<lparr>target := Some k\<rparr>) q;
           q \<leftarrow> pendconn_free p q;
           grab_loop m now k (n + 1) (task_wakeup_res (p_sess pc) q)
         }
     } else Some (n, q))"

definition pendconn_grab_from_px :: "int \<Rightarrow> nat \<Rightarrow> queues \<Rightarrow> (int \<times> queues) option" where
  "pendconn_grab_from_px now k q =
    (if \<not> srv_is_usable (server_of q k) then Some (0, q) else grab_loop (nat (totpend q) + 1) now k 0 q)"

subsection \<open>The invariant\<close>

text \<open>
  Every live entry is in the list that its server pointer names, once; the
  counters are the lengths of the lists.
\<close>

definition queues_ok :: "queues \<Rightarrow> bool" where
  "queues_ok q \<longleftrightarrow>
    length (srv_pend q) = length (srv (backend q))
    \<and> distinct (px_pend q) \<and> (\<forall>l \<in> set (srv_pend q). distinct l)
    \<and> (\<forall>p. p \<in> set (px_pend q) \<longleftrightarrow> (\<exists>i. pool q p = Some \<lparr>p_sess = i, p_srv = None\<rparr>))
    \<and> (\<forall>k < length (srv_pend q). \<forall>p. p \<in> set (srv_pend q ! k) \<longleftrightarrow> (\<exists>i. pool q p = Some \<lparr>p_sess = i, p_srv = Some k\<rparr>))
    \<and> (\<forall>p pc k. pool q p = Some pc \<longrightarrow> p_srv pc = Some k \<longrightarrow> k < length (srv_pend q))
    \<and> px_nbpend q = int (length (px_pend q))
    \<and> (\<forall>k < length (srv_pend q). nbpend (server_of q k) = int (length (srv_pend q ! k)))
    \<and> totpend q = int (length (px_pend q)) + int (sum_list (map length (srv_pend q)))"

lemma on_sess_simps [simp]:
  "backend (on_sess i f q) = backend q" "redisp (on_sess i f q) = redisp q" "pool (on_sess i f q) = pool q"
  "px_pend (on_sess i f q) = px_pend q" "srv_pend (on_sess i f q) = srv_pend q"
  "px_nbpend (on_sess i f q) = px_nbpend q" "totpend (on_sess i f q) = totpend q"
  "actconns (on_sess i f q) = actconns q" "srv_nbmax (on_sess i f q) = srv_nbmax q"
  "sess (on_sess i f q) = (sess q)(i := f (sess q i))"
  by (simp_all add: on_sess_def)

lemma on_srv_simps [simp]:
  "redisp (on_srv k g q) = redisp q" "pool (on_srv k g q) = pool q" "sess (on_srv k g q) = sess q"
  "px_pend (on_srv k g q) = px_pend q" "srv_pend (on_srv k g q) = srv_pend q"
  "px_nbpend (on_srv k g q) = px_nbpend q" "totpend (on_srv k g q) = totpend q"
  "actconns (on_srv k g q) = actconns q"
  "srv (backend (on_srv k g q)) = (srv (backend q))[k := g (server_of q k)]"
  by (simp_all add: on_srv_def upd_srv_def)

text \<open>The invariant depends on the lists, the entries and the counters only.\<close>

lemma queues_ok_cong:
  assumes "pool q' = pool q" "px_pend q' = px_pend q" "srv_pend q' = srv_pend q" "px_nbpend q' = px_nbpend q"
    "totpend q' = totpend q" "map nbpend (srv (backend q')) = map nbpend (srv (backend q))"
  shows "queues_ok q' = queues_ok q"
proof -
  have len: "length (srv (backend q')) = length (srv (backend q))" using assms(6) map_eq_imp_length_eq by blast
  have "nbpend (server_of q' k) = nbpend (server_of q k)" if "k < length (srv (backend q))" for k
    using arg_cong [OF assms(6), of "\<lambda>l. l ! k"] that len by simp
  then show ?thesis unfolding queues_ok_def using assms(1-5) len by auto
qed

lemma queues_ok_on_sess [simp]: "queues_ok (on_sess i f q) = queues_ok q"
  by (rule queues_ok_cong) simp_all

lemma int_length_remove1: "x \<in> set xs \<Longrightarrow> int (length (remove1 x xs)) = int (length xs) - 1"
  by (induction xs) auto

lemma sum_remove1:
  fixes ls :: "nat list list"
  assumes "k < length ls" "p \<in> set (ls ! k)" "\<forall>j < length ls. j \<noteq> k \<longrightarrow> p \<notin> set (ls ! j)"
  shows "map (remove1 p) ls = ls[k := remove1 p (ls ! k)]"
    "int (sum_list (map length (map (remove1 p) ls))) = int (sum_list (map length ls)) - 1"
proof -
  show e: "map (remove1 p) ls = ls[k := remove1 p (ls ! k)]"
    using assms by (intro nth_equalityI) (auto simp: nth_list_update remove1_idem)
  show "int (sum_list (map length (map (remove1 p) ls))) = int (sum_list (map length ls)) - 1"
    unfolding e using assms(1,2) elem_le_sum_list [of k "map length ls"] int_length_remove1 [OF assms(2)]
    by (simp add: map_update sum_list_update)
qed

lemma live_srv:
  assumes "queues_ok q" "pool q p = Some \<lparr>p_sess = i, p_srv = Some k\<rparr>"
  shows "k < length (srv_pend q)" "p \<in> set (srv_pend q ! k)" "distinct (srv_pend q ! k)"
proof -
  have "\<forall>p pc k. pool q p = Some pc \<longrightarrow> p_srv pc = Some k \<longrightarrow> k < length (srv_pend q)"
    using assms(1) unfolding queues_ok_def by blast
  then show k: "k < length (srv_pend q)" using assms(2) by fastforce
  then show "p \<in> set (srv_pend q ! k)" "distinct (srv_pend q ! k)" using assms by (simp_all add: queues_ok_def)
qed

text \<open>What freeing a live entry does.\<close>

lemma pendconn_free_px:
  assumes "pool q p = Some \<lparr>p_sess = i, p_srv = None\<rparr>" "queues_ok q"
  shows "pendconn_free p q = Some ((on_sess i (\<lambda>s. s\<lparr>pend_pos := None\<rparr>) q)
    \<lparr>px_pend := remove1 p (px_pend q), px_nbpend := px_nbpend q - 1, totpend := totpend q - 1, pool := (pool q)(p := None)\<rparr>)"
proof -
  have "p \<notin> set (srv_pend q ! k)" if "k < length (srv_pend q)" for k
    using assms that by (simp add: queues_ok_def)
  then have "map (remove1 p) (srv_pend q) = srv_pend q" by (intro nth_equalityI) (simp_all add: remove1_idem)
  then show ?thesis using assms(1) by (simp add: pendconn_free_def on_sess_def)
qed

lemma pendconn_free_srv:
  assumes "pool q p = Some \<lparr>p_sess = i, p_srv = Some k\<rparr>" "queues_ok q"
  shows "pendconn_free p q = Some ((on_sess i (\<lambda>s. s\<lparr>pend_pos := None\<rparr>) (on_srv k (\<lambda>s. s\<lparr>nbpend := nbpend s - 1\<rparr>) q))
    \<lparr>srv_pend := (srv_pend q)[k := remove1 p (srv_pend q ! k)], totpend := totpend q - 1, pool := (pool q)(p := None)\<rparr>)"
proof -
  have "p \<notin> set (px_pend q)" using assms by (simp add: queues_ok_def)
  moreover have "k < length (srv_pend q)" "p \<in> set (srv_pend q ! k)"
    "\<forall>j < length (srv_pend q). j \<noteq> k \<longrightarrow> p \<notin> set (srv_pend q ! j)"
    using assms by (auto simp: queues_ok_def)
  note sum_remove1(1) [OF this]
  ultimately show ?thesis using assms(1) by (simp add: pendconn_free_def on_sess_def on_srv_def remove1_idem)
qed

lemma pendconn_free_ok:
  assumes ok: "queues_ok q" and p: "pool q p = Some pc"
  shows "\<exists>q'. pendconn_free p q = Some q' \<and> queues_ok q' \<and> totpend q' = totpend q - 1"
proof (cases "p_srv pc")
  case None
  then have pc: "pool q p = Some \<lparr>p_sess = p_sess pc, p_srv = None\<rparr>" using p by (cases pc) simp
  have "p \<in> set (px_pend q)" using pc ok by (auto simp: queues_ok_def)
  moreover have "p \<notin> set (srv_pend q ! k)" if "k < length (srv_pend q)" for k
    using pc ok that by (auto simp: queues_ok_def)
  ultimately show ?thesis
    using pendconn_free_px [OF pc ok] ok
    by (auto simp: queues_ok_def int_length_remove1)
next
  case (Some k)
  then have pc: "pool q p = Some \<lparr>p_sess = p_sess pc, p_srv = Some k\<rparr>" using p by (cases pc) simp
  have k: "k < length (srv_pend q)" "p \<in> set (srv_pend q ! k)" "p \<notin> set (px_pend q)"
    "\<forall>j < length (srv_pend q). j \<noteq> k \<longrightarrow> p \<notin> set (srv_pend q ! j)"
    using pc ok by (auto simp: queues_ok_def)
  have "\<forall>l \<in> set ((srv_pend q)[k := remove1 p (srv_pend q ! k)]). distinct l"
    using ok k(1) by (auto simp: queues_ok_def dest!: set_update_subset_insert [THEN subsetD])
  then show ?thesis
    using pendconn_free_srv [OF pc ok] ok k sum_remove1 [OF k(1,2,4)]
    by (auto simp: queues_ok_def nth_list_update int_length_remove1 split: if_splits)
qed

lemma pendconn_free_frame:
  assumes "pendconn_free p q = Some q'"
  shows "length (srv (backend q')) = length (srv (backend q))" "redisp q' = redisp q"
    "length (srv_pend q') = length (srv_pend q)"
    "j < length (srv (backend q)) \<Longrightarrow> (server_of q' j)\<lparr>nbpend := 0\<rparr> = (server_of q j)\<lparr>nbpend := 0\<rparr>"
  using assms by (auto simp: pendconn_free_def Let_def bind_eq_Some_conv nth_update split: option.splits)

text \<open>
  Adding a session keeps the invariant when the pool gives an entry that is not in use and the
  session has its server assigned or has none.
\<close>

lemma pendconn_add_ok:
  assumes ok: "queues_ok q" and fresh: "pool q p = None"
    and tgt: "\<forall>k. target (sess q i) = Some k \<longrightarrow> sn_flags (sess q i) AND SN_ASSIGNED \<noteq> 0 \<and> k < length (srv (backend q))"
  shows "queues_ok (snd (pendconn_add (Some p) i q))"
proof -
  have new: "p \<notin> set (px_pend q)" "\<forall>k < length (srv_pend q). p \<notin> set (srv_pend q ! k)"
    using ok fresh by (auto simp: queues_ok_def)
  show ?thesis
  proof (cases "target (sess q i)")
    case None
    then show ?thesis using ok fresh new
      by (auto simp: pendconn_add_def add_to_px_def Let_def queues_ok_def)
  next
    case (Some k)
    then have k: "k < length (srv (backend q))" "sn_flags (sess q i) AND SN_ASSIGNED \<noteq> 0" using tgt by auto
    have "\<forall>l \<in> set ((srv_pend q)[k := srv_pend q ! k @ [p]]). distinct l"
      using ok k(1) new by (auto simp: queues_ok_def dest!: set_update_subset_insert [THEN subsetD])
    moreover have "int (sum_list (map length ((srv_pend q)[k := srv_pend q ! k @ [p]]))) = int (sum_list (map length (srv_pend q))) + 1"
      using ok k(1) elem_le_sum_list [of k "map length (srv_pend q)"] by (simp add: queues_ok_def map_update sum_list_update)
    ultimately show ?thesis using ok fresh new k Some
      by (auto simp: pendconn_add_def add_to_srv_def Let_def queues_ok_def nth_list_update)
  qed
qed

lemma queues_ok_heads:
  assumes "queues_ok q" "k < length (srv (backend q))"
  shows "pendconn_from_px q = Some (case px_pend q of [] \<Rightarrow> None | p # _ \<Rightarrow> Some p)"
    "pendconn_from_srv k q = Some (case srv_pend q ! k of [] \<Rightarrow> None | p # _ \<Rightarrow> Some p)"
  using assms by (auto simp: pendconn_from_px_def pendconn_from_srv_def queues_ok_def split: list.splits)

lemma px_head_live: "queues_ok q \<Longrightarrow> px_pend q = p # ps \<Longrightarrow> \<exists>i. pool q p = Some \<lparr>p_sess = i, p_srv = None\<rparr>"
  by (auto simp: queues_ok_def)

lemma srv_head_live:
  assumes "queues_ok q" "k < length (srv (backend q))" "srv_pend q ! k = p # ps"
  shows "\<exists>i. pool q p = Some \<lparr>p_sess = i, p_srv = Some k\<rparr>"
proof -
  have "p \<in> set (srv_pend q ! k)" using assms(3) by simp
  then show ?thesis using assms(1,2) by (auto simp: queues_ok_def)
qed

text \<open>The part of a state that the callbacks of the load balancing algorithm may not change.\<close>

definition slots :: "proxy \<Rightarrow> (int \<times> int) list" where
  "slots px = map (\<lambda>s. (served s, nbpend s)) (srv px)"

locale lb_hook =
  fixes hook :: "nat \<Rightarrow> proxy \<Rightarrow> proxy"
  assumes hook_slots: "slots (hook k px) = slots px"
begin

lemma hook_length: "length (srv (hook k px)) = length (srv px)"
  using arg_cong [OF hook_slots [of k px], of length] by (simp add: slots_def)

lemma hook_nth: "j < length (srv px) \<Longrightarrow> served (srv (hook k px) ! j) = served (srv px ! j)
    \<and> nbpend (srv (hook k px) ! j) = nbpend (srv px ! j)"
  using arg_cong [OF hook_slots [of k px], of "\<lambda>l. l ! j"] by (simp add: slots_def hook_length)

lemma queues_ok_hook: "queues_ok (q\<lparr>backend := hook k (backend q)\<rparr>) = queues_ok q"
  by (rule queues_ok_cong) (simp_all add: list_eq_iff_nth_eq hook_nth hook_length)

lemma assign_slot_ok:
  assumes "queues_ok q" "k < length (srv (backend q))"
  shows "queues_ok (assign_slot hook i k q)" "totpend (assign_slot hook i k q) = totpend q"
    "length (srv (backend (assign_slot hook i k q))) = length (srv (backend q))"
    "served (server_of (assign_slot hook i k q) k) = served (server_of q k) + 1"
proof -
  let ?q = "on_srv k (\<lambda>s. s\<lparr>served := served s + 1\<rparr>)
    (session_add_srv_conn i k (on_sess i (\<lambda>s. s\<lparr>sn_flags := sn_flags s OR SN_ASSIGNED, target := Some k\<rparr>) q))"
  have q: "assign_slot hook i k q = ?q\<lparr>backend := hook k (backend ?q)\<rparr>" by (simp add: assign_slot_def Let_def)
  have "queues_ok ?q = queues_ok q"
    using assms(2) by (intro queues_ok_cong) (auto simp: session_add_srv_conn_def list_eq_iff_nth_eq nth_list_update)
  then show "queues_ok (assign_slot hook i k q)" unfolding q queues_ok_hook using assms(1) by simp
  show "totpend (assign_slot hook i k q) = totpend q"
    "length (srv (backend (assign_slot hook i k q))) = length (srv (backend q))"
    unfolding q by (simp_all add: session_add_srv_conn_def hook_length)
  show "served (server_of (assign_slot hook i k q) k) = served (server_of q k) + 1"
    unfolding q using assms(2) by (simp add: hook_nth session_add_srv_conn_def)
qed

lemma get_next_result:
  fixes servers :: "nat \<Rightarrow> server"
  assumes ok: "queues_ok q" and k: "k < length (srv (backend q))"
  defines "usable \<equiv> srv_is_usable (effective_server servers (server_of q k))"
  shows "\<exists>r q'. pendconn_get_next_sess servers hook k q = Some (r, q') \<and> queues_ok q'
    \<and> length (srv (backend q')) = length (srv (backend q))
    \<and> (case r of
         None \<Rightarrow> q' = q \<and> srv_pend q ! k = [] \<and> (px_pend q = [] \<or> \<not> usable)
       | Some i \<Rightarrow> totpend q' = totpend q - 1 \<and> served (server_of q' k) = served (server_of q k) + 1)"
proof -
  let ?ps = "case srv_pend q ! k of [] \<Rightarrow> None | p # _ \<Rightarrow> Some p"
  let ?pp = "case px_pend q of [] \<Rightarrow> None | p # _ \<Rightarrow> Some p"
  note heads = queues_ok_heads [OF ok k]
  show ?thesis
  proof (cases "next_pendconn usable ?ps ?pp q")
    case None
    then have "srv_pend q ! k = []" "px_pend q = [] \<or> \<not> usable"
      by (auto simp: next_pendconn_def split: if_splits list.splits)
    then show ?thesis using None ok heads unfolding usable_def by (auto simp: pendconn_get_next_sess_def)
  next
    case (Some p)
    then have "Some p = ?ps \<or> Some p = ?pp" by (auto simp: next_pendconn_def split: if_splits)
    then obtain pc where pc: "pool q p = Some pc"
      using px_head_live [OF ok] srv_head_live [OF ok k] by (auto split: list.splits)
    obtain q1 where q1: "pendconn_free p q = Some q1" "queues_ok q1" "totpend q1 = totpend q - 1"
      using pendconn_free_ok [OF ok pc] by blast
    have len: "length (srv (backend q1)) = length (srv (backend q))"
      and srvd: "served (server_of q1 k) = served (server_of q k)"
      using pendconn_free_frame(1) [OF q1(1)] arg_cong [OF pendconn_free_frame(4) [OF q1(1) k], of served] by simp_all
    have k1: "k < length (srv (backend q1))" using k len by simp
    show ?thesis
      using Some q1 pc heads len srvd assign_slot_ok [OF q1(2) k1]
      unfolding usable_def by (simp add: pendconn_get_next_sess_def)
  qed
qed

text \<open>The loop ends, and leaves the server full or the queues without an entry for it.\<close>

lemma dequeue_loop_ends:
  assumes "queues_ok q" "k < length (srv (backend q))" "totpend q < int n"
  shows "\<exists>q'. dequeue_loop n servers hook limit k q = Some q' \<and> queues_ok q'
    \<and> (limit \<le> served (server_of q' k)
       \<or> srv_pend q' ! k = [] \<and> (px_pend q' = [] \<or> \<not> srv_is_usable (effective_server servers (server_of q' k))))"
  using assms
proof (induction n arbitrary: q)
  case 0
  then show ?case by (auto simp: queues_ok_def)
next
  case (Suc n)
  obtain r q1 where r: "pendconn_get_next_sess servers hook k q = Some (r, q1)" "queues_ok q1"
    "length (srv (backend q1)) = length (srv (backend q))"
    "case r of None \<Rightarrow> q1 = q \<and> srv_pend q ! k = [] \<and> (px_pend q = [] \<or> \<not> srv_is_usable (effective_server servers (server_of q k)))
     | Some i \<Rightarrow> totpend q1 = totpend q - 1 \<and> served (server_of q1 k) = served (server_of q k) + 1"
    using get_next_result [OF Suc.prems(1,2), of servers] by blast
  show ?case
  proof (cases "served (server_of q k) < limit")
    case False
    then show ?thesis using Suc.prems(1) by auto
  next
    case True
    show ?thesis
    proof (cases r)
      case None
      then show ?thesis using r True by auto
    next
      case (Some i)
      have "queues_ok (task_wakeup_res i q1)" using r(2) by (simp add: task_wakeup_res_def)
      from Suc.IH [OF this] show ?thesis
        using r Some True Suc.prems by (auto simp: task_wakeup_res_def)
    qed
  qed
qed

end

context lb_hook
begin

lemma process_srv_queue_ends:
  assumes "queues_ok q" "k < length (srv (backend q))"
  shows "\<exists>q'. process_srv_queue now servers hook k q = Some q' \<and> queues_ok q'
    \<and> (sint (srv_dynamic_maxconn now (backend q) (server_of q k)) \<le> served (server_of q' k)
       \<or> srv_pend q' ! k = [] \<and> (px_pend q' = [] \<or> \<not> srv_is_usable (effective_server servers (server_of q' k))))"
proof -
  have "totpend q < int (nat (totpend q) + 1)" using assms(1) by (simp add: queues_ok_def)
  from dequeue_loop_ends [OF assms this] show ?thesis unfolding process_srv_queue_def by blast
qed

end

text \<open>Algorithms that keep no tree sorted by the number of connections set no callback.\<close>

interpretation no_hook: lb_hook "\<lambda>k px. px"
  by unfold_locales simp

subsection \<open>Servers that go down or come up\<close>

definition bound_entry :: "queues \<Rightarrow> nat \<Rightarrow> bool" where
  "bound_entry q p \<longleftrightarrow> \<not> redisp q \<or> sn_flags (sess q (p_sess (the (pool q p)))) AND SN_FORCE_PRST \<noteq> 0"

lemma clear_flags: "unassigned w AND SN_FORCE_PRST = w AND SN_FORCE_PRST"
  by (simp add: unassigned_def and.assoc and.left_commute)

text \<open>One turn of the loop on an entry whose session may be served elsewhere.\<close>

definition release_entry :: "nat \<Rightarrow> nat \<Rightarrow> queues \<Rightarrow> queues option" where
  "release_entry p i q =
    map_option (task_wakeup_res i)
      (pendconn_free p (on_sess i (\<lambda>s. s\<lparr>sn_flags := unassigned (sn_flags s)\<rparr>) q))"

lemma release_entry_ok:
  assumes ok: "queues_ok q" and p: "pool q p = Some \<lparr>p_sess = i, p_srv = Some k\<rparr>"
  obtains q' where "release_entry p i q = Some q'" "queues_ok q'"
    "length (srv (backend q')) = length (srv (backend q))" "srv_pend q' ! k = remove1 p (srv_pend q ! k)"
    "pool q' = (pool q)(p := None)" "\<And>x. x \<noteq> p \<Longrightarrow> bound_entry q' x = bound_entry q x"
proof -
  let ?q = "on_sess i (\<lambda>s. s\<lparr>sn_flags := unassigned (sn_flags s)\<rparr>) q"
  have ok1: "queues_ok ?q" and p1: "pool ?q p = Some \<lparr>p_sess = i, p_srv = Some k\<rparr>" using ok p by simp_all
  note k = live_srv(1) [OF ok p]
  obtain q1 where q1: "pendconn_free p ?q = Some q1" "queues_ok q1" using pendconn_free_ok [OF ok1 p1] by blast
  note q1_def = q1(1) [unfolded pendconn_free_srv [OF p1 ok1] option.inject, symmetric]
  show thesis
  proof (rule that [of "task_wakeup_res i q1"])
    show "release_entry p i q = Some (task_wakeup_res i q1)" using q1(1) by (simp add: release_entry_def)
    show "queues_ok (task_wakeup_res i q1)" using q1(2) by (simp add: task_wakeup_res_def)
    show "length (srv (backend (task_wakeup_res i q1))) = length (srv (backend q))"
      by (simp add: q1_def task_wakeup_res_def)
    show "srv_pend (task_wakeup_res i q1) ! k = remove1 p (srv_pend q ! k)"
      using k by (simp add: q1_def task_wakeup_res_def)
    show "pool (task_wakeup_res i q1) = (pool q)(p := None)"
      by (simp add: q1_def task_wakeup_res_def)
    show "bound_entry (task_wakeup_res i q1) x = bound_entry q x" if "x \<noteq> p" for x
    proof -
      have "sn_flags (sess (task_wakeup_res i q1) j) AND SN_FORCE_PRST = sn_flags (sess q j) AND SN_FORCE_PRST" for j
        unfolding q1_def by (simp add: task_wakeup_res_def clear_flags)
      moreover have "redisp (task_wakeup_res i q1) = redisp q" "pool (task_wakeup_res i q1) x = pool q x"
        unfolding q1_def using that by (simp_all add: task_wakeup_res_def)
      ultimately show ?thesis by (simp add: bound_entry_def)
    qed
  qed
qed

lemma redistribute_loop_result:
  assumes "queues_ok q" "distinct ps" "\<forall>p \<in> set ps. \<exists>i. pool q p = Some \<lparr>p_sess = i, p_srv = Some k\<rparr>"
  shows "\<exists>q'. redistribute_loop ps n q = Some (n + int (length (filter (\<lambda>p. \<not> bound_entry q p) ps)), q') \<and> queues_ok q'
    \<and> length (srv (backend q')) = length (srv (backend q))
    \<and> srv_pend q' ! k = filter (\<lambda>p. p \<notin> set ps \<or> bound_entry q p) (srv_pend q ! k)"
  using assms
proof (induction ps arbitrary: n q)
  case (Cons p ps)
  from Cons.prems(3) obtain i where i: "pool q p = Some \<lparr>p_sess = i, p_srv = Some k\<rparr>"
    by (metis list.set_intros(1))
  note d = live_srv(3) [OF Cons.prems(1) i]
  show ?case
  proof (cases "bound_entry q p")
    case True
    then have "redistribute_loop (p # ps) n q = redistribute_loop ps n q" using i by (auto simp: bound_entry_def)
    moreover have "filter (\<lambda>x. x \<notin> set ps \<or> bound_entry q x) (srv_pend q ! k)
        = filter (\<lambda>x. x \<notin> set (p # ps) \<or> bound_entry q x) (srv_pend q ! k)"
      using True by (intro filter_cong) auto
    ultimately show ?thesis using Cons.IH [of q n] Cons.prems True by simp
  next
    case False
    obtain q1 where q1: "release_entry p i q = Some q1" "queues_ok q1" "length (srv (backend q1)) = length (srv (backend q))"
      "srv_pend q1 ! k = remove1 p (srv_pend q ! k)" "pool q1 = (pool q)(p := None)"
      and b: "\<And>x. x \<noteq> p \<Longrightarrow> bound_entry q1 x = bound_entry q x"
      using release_entry_ok [OF Cons.prems(1) i] by blast
    have step: "redistribute_loop (p # ps) n q = redistribute_loop ps (n + 1) q1"
      using q1(1) i False by (auto simp: release_entry_def bound_entry_def)
    have "filter (\<lambda>p. \<not> bound_entry q1 p) ps = filter (\<lambda>p. \<not> bound_entry q p) ps"
      using Cons.prems(2) by (intro filter_cong) (metis b distinct.simps(2))+
    moreover have "filter (\<lambda>p. p \<notin> set ps \<or> bound_entry q1 p) (remove1 p (srv_pend q ! k))
        = filter (\<lambda>x. x \<notin> set (p # ps) \<or> bound_entry q x) (srv_pend q ! k)"
      unfolding distinct_remove1_removeAll [OF d] removeAll_filter_not_eq filter_filter
      using False by (intro filter_cong refl) (metis b list.set_intros set_ConsD)
    moreover have "\<forall>p \<in> set ps. \<exists>i. pool q1 p = Some \<lparr>p_sess = i, p_srv = Some k\<rparr>" "distinct ps"
      using Cons.prems(2,3) q1(5) by auto
    note Cons.IH [OF q1(2) this(2,1), of "n + 1"]
    ultimately show ?thesis unfolding step using q1(3,4) False by (simp add: add.assoc)
  qed
qed simp

lemma grab_loop_result:
  assumes "queues_ok q" "k < length (srv (backend q))" "totpend q < int m"
  shows "\<exists>n' q'. grab_loop m now k n q = Some (n', q') \<and> queues_ok q'
    \<and> (px_pend q' = [] \<or> maxconn (server_of q' k) \<noteq> 0
         \<and> srv_dynamic_maxconn now (backend q') (server_of q' k) \<le> word_of_int n')"
  using assms
proof (induction m arbitrary: n q)
  case 0
  then show ?case by (auto simp: queues_ok_def)
next
  case (Suc m)
  note heads = queues_ok_heads(1) [OF Suc.prems(1,2)]
  show ?case
  proof (cases "px_pend q")
    case Nil
    then show ?thesis using Suc.prems(1) heads by auto
  next
    case (Cons p ps)
    then obtain i where p: "pool q p = Some \<lparr>p_sess = i, p_srv = None\<rparr>" using px_head_live Suc.prems(1) by blast
    let ?q = "on_sess i (\<lambda>s. s\<lparr>target := Some k\<rparr>) q"
    have "queues_ok ?q" "pool ?q p = Some \<lparr>p_sess = i, p_srv = None\<rparr>" using Suc.prems(1) p by simp_all
    then obtain q1 where q1: "pendconn_free p ?q = Some q1" "queues_ok q1" "totpend q1 = totpend ?q - 1"
      using pendconn_free_ok by blast
    have "queues_ok (task_wakeup_res i q1)" "k < length (srv (backend (task_wakeup_res i q1)))"
      "totpend (task_wakeup_res i q1) < int m"
      using q1 Suc.prems(2,3) pendconn_free_frame(1) [OF q1(1)] by (simp_all add: task_wakeup_res_def)
    from Suc.IH [OF this, of "n + 1"] show ?thesis using Suc.prems(1) heads Cons p q1(1) by auto
  qed
qed

lemma grab_ok:
  assumes "queues_ok q" "k < length (srv (backend q))"
  shows "\<exists>n q'. pendconn_grab_from_px now k q = Some (n, q') \<and> queues_ok q'"
proof -
  have "totpend q < int (nat (totpend q) + 1)" using assms(1) by (simp add: queues_ok_def)
  from grab_loop_result [OF assms this] show ?thesis
    using assms(1) unfolding pendconn_grab_from_px_def by metis
qed

lemma free_keeps_ok: "pendconn_free p q = Some q' \<Longrightarrow> queues_ok q \<Longrightarrow> queues_ok q'"
proof -
  assume f: "pendconn_free p q = Some q'" and ok: "queues_ok q"
  obtain pc where "pool q p = Some pc" using f by (cases "pool q p") (simp_all add: pendconn_free_def)
  from pendconn_free_ok [OF ok this] show "queues_ok q'" using f by auto
qed

subsection \<open>Sessions and their entries\<close>

text \<open>
  \<open>pend_pos\<close> of a session and the entries in use are inverse of each other: a session that is in a
  queue points to its entry, and a session that is in none points to nothing, so that it never frees
  an entry twice.  This depends on \<open>pend_pos\<close> and the pool only.
\<close>

definition pend_ok :: "queues \<Rightarrow> bool" where
  "pend_ok q \<longleftrightarrow> (\<forall>i p. pend_pos (sess q i) = Some p \<longleftrightarrow> (\<exists>k. pool q p = Some \<lparr>p_sess = i, p_srv = k\<rparr>))"

definition same_pos :: "queues \<Rightarrow> queues \<Rightarrow> bool" where
  "same_pos q q' \<longleftrightarrow> pool q' = pool q \<and> (\<forall>i. pend_pos (sess q' i) = pend_pos (sess q i))"

lemma same_pos_ok: "same_pos q q' \<Longrightarrow> pend_ok q' = pend_ok q"
  by (simp add: same_pos_def pend_ok_def)

lemma same_pos_sess: "(\<And>s. pend_pos (f s) = pend_pos s) \<Longrightarrow> same_pos q (on_sess i f q)"
  by (simp add: same_pos_def)

lemma pend_entry: "pend_ok q \<Longrightarrow> pool q p = Some pc \<Longrightarrow> pend_pos (sess q (p_sess pc)) = Some p"
  unfolding pend_ok_def by (cases pc) auto

lemma pend_ok_free:
  assumes ok: "pend_ok q" and f: "pendconn_free p q = Some q'"
  shows "pend_ok q'"
proof -
  obtain pc where pc: "pool q p = Some pc" using f by (cases "pool q p") (simp_all add: pendconn_free_def)
  have q': "pool q' = (pool q)(p := None)"
    "pend_pos (sess q' i) = (if i = p_sess pc then None else pend_pos (sess q i))" for i
    using f pc by (auto simp: pendconn_free_def Let_def split: option.splits)
  have "pend_pos (sess q (p_sess pc)) = Some p" by (rule pend_entry [OF ok pc])
  moreover have "i = p_sess pc" if "pend_pos (sess q i) = Some p" for i
    using ok pc that unfolding pend_ok_def by fastforce
  ultimately show ?thesis
    using ok unfolding pend_ok_def q' by (metis fun_upd_apply option.distinct(1) option.inject)
qed

lemma pend_ok_add:
  assumes "pend_ok q" "pool q p = None" "pend_pos (sess q i) = None"
  shows "pend_ok (snd (pendconn_add (Some p) i q))"
proof -
  have "pool (snd (pendconn_add (Some p) i q)) = (pool q)(p \<mapsto> \<lparr>p_sess = i, p_srv = target (sess q i)\<rparr>)"
    "pend_pos (sess (snd (pendconn_add (Some p) i q)) j) = (if j = i then Some p else pend_pos (sess q j))" for j
    by (simp_all add: pendconn_add_def add_to_srv_def add_to_px_def Let_def)
  moreover have "pool q p' \<noteq> Some \<lparr>p_sess = i, p_srv = k\<rparr>" for p' k
    using assms(1,3) unfolding pend_ok_def by (metis option.distinct(1))
  ultimately show ?thesis using assms(1,2) unfolding pend_ok_def by auto
qed

lemma same_pos_slot: "same_pos q (sess_change_server take_conn drop_conn i newsrv q)"
  by (auto simp: same_pos_def sess_change_server_def session_del_srv_conn_def session_add_srv_conn_def Let_def
      split: option.split)

lemma same_pos_assign: "same_pos q (assign_slot take_conn i k q)"
  by (simp add: same_pos_def assign_slot_def session_add_srv_conn_def Let_def)

lemma same_pos_wakeup: "same_pos q (task_wakeup_res i q)"
  by (simp add: same_pos_def task_wakeup_res_def)

lemma pend_ok_get_next:
  assumes "pendconn_get_next_sess servers take_conn k q = Some (r, q')" "pend_ok q"
  shows "pend_ok q'"
  using assms same_pos_ok [OF same_pos_assign] pend_ok_free
  by (auto simp: pendconn_get_next_sess_def bind_eq_Some_conv split: option.splits)

lemma pend_ok_dequeue:
  "dequeue_loop n servers take_conn limit k q = Some q' \<Longrightarrow> pend_ok q \<Longrightarrow> pend_ok q'"
proof (induction n arbitrary: q)
  case (Suc n)
  then show ?case
    using pend_ok_get_next same_pos_ok [OF same_pos_wakeup]
    by (auto simp: bind_eq_Some_conv split: if_splits option.splits)
qed simp

lemma pend_ok_free_after:
  assumes "pendconn_free p (on_sess i f q) = Some q'" "\<And>s. pend_pos (f s) = pend_pos s" "pend_ok q"
  shows "pend_ok (task_wakeup_res j q')"
  using pend_ok_free [OF _ assms(1)] assms(3) same_pos_ok [OF same_pos_sess [of f, OF assms(2)]]
    same_pos_ok [OF same_pos_wakeup] by blast

lemma pend_ok_redistribute: "redistribute_loop ps n q = Some (m, q') \<Longrightarrow> pend_ok q \<Longrightarrow> pend_ok q'"
proof (induction ps arbitrary: n q)
  case (Cons p ps)
  obtain pc where pc: "pool q p = Some pc" using Cons.prems(1) by (cases "pool q p") simp_all
  let ?i = "p_sess pc"
  show ?case
  proof (cases "redisp q \<and> sn_flags (sess q ?i) AND SN_FORCE_PRST = 0")
    case True
    then obtain q1 where q1: "pendconn_free p (on_sess ?i (\<lambda>s. s\<lparr>sn_flags := unassigned (sn_flags s)\<rparr>) q) = Some q1"
      "redistribute_loop ps (n + 1) (task_wakeup_res ?i q1) = Some (m, q')"
      using Cons.prems(1) pc by (auto simp: bind_eq_Some_conv Let_def)
    then show ?thesis using Cons.IH [OF q1(2)] pend_ok_free_after [OF q1(1) _ Cons.prems(2)] by simp
  next
    case False
    then have "redistribute_loop ps n q = Some (m, q')" using Cons.prems(1) pc by (auto simp: Let_def)
    then show ?thesis using Cons.IH Cons.prems(2) by blast
  qed
qed simp

lemma pend_ok_grab: "grab_loop m now k n q = Some (r, q') \<Longrightarrow> pend_ok q \<Longrightarrow> pend_ok q'"
proof (induction m arbitrary: n q)
  case (Suc m)
  show ?case
  proof (cases "q' = q")
    case False
    then obtain p where p: "pendconn_from_px q = Some (Some p)"
      using Suc.prems(1) by (auto simp: bind_eq_Some_conv split: if_splits option.splits)
    then obtain pc where pc: "pool q p = Some pc" using Suc.prems(1) False by (cases "pool q p") (auto split: if_splits)
    obtain q1 where q1: "pendconn_free p (on_sess (p_sess pc) (\<lambda>s. s\<lparr>target := Some k\<rparr>) q) = Some q1"
      "grab_loop m now k (n + 1) (task_wakeup_res (p_sess pc) q1) = Some (r, q')"
      using Suc.prems(1) False p pc
      by (cases "pendconn_free p (on_sess (p_sess pc) (\<lambda>s. s\<lparr>target := Some k\<rparr>) q)") (auto simp: Let_def split: if_splits)
    then show ?thesis using Suc.IH [OF q1(2)] pend_ok_free_after [OF q1(1) _ Suc.prems(2)] by simp
  qed (use Suc.prems(2) in simp)
qed simp

lemma pend_ok_redistribute_all: "pendconn_redistribute k q = Some (n, q') \<Longrightarrow> pend_ok q \<Longrightarrow> pend_ok q'"
  unfolding pendconn_redistribute_def by (rule pend_ok_redistribute)

lemma pend_ok_grab_all:
  assumes "pendconn_grab_from_px now k q = Some (n, q')" "pend_ok q"
  shows "pend_ok q'"
proof (cases "srv_is_usable (server_of q k)")
  case True
  then have "grab_loop (nat (totpend q) + 1) now k 0 q = Some (n, q')" using assms(1) by (simp only: pendconn_grab_from_px_def) simp
  then show ?thesis using pend_ok_grab assms(2) by blast
qed (use assms in \<open>simp add: pendconn_grab_from_px_def\<close>)

lemma pend_ok_process:
  "process_srv_queue now servers take_conn k q = Some q' \<Longrightarrow> pend_ok q \<Longrightarrow> pend_ok q'"
  unfolding process_srv_queue_def by (rule pend_ok_dequeue)

lemma leave_queue_ends:
  assumes "queues_ok q" "pend_ok q"
  shows "\<exists>q'. session_leave_queue i q = Some q' \<and> queues_ok q' \<and> pend_ok q'"
proof (cases "pend_pos (sess q i)")
  case None
  then show ?thesis using assms by (simp add: session_leave_queue_def)
next
  case (Some p)
  then obtain k where "pool q p = Some \<lparr>p_sess = i, p_srv = k\<rparr>" using assms(2) by (auto simp: pend_ok_def)
  from pendconn_free_ok [OF assms(1) this] obtain q' where "pendconn_free p q = Some q'" "queues_ok q'" by blast
  then show ?thesis using Some pend_ok_free [OF assms(2)] by (simp add: session_leave_queue_def)
qed

subsection \<open>All interleavings\<close>

text \<open>
  What happens to the queues of a backend, in any order: a session that is in no queue is queued, with
  the server it is assigned to or with none; a session ends and leaves its queue, if it is in one; a
  session takes or leaves a slot; a server is given what it can serve, goes down or comes up; and the
  state of the servers changes in ways that leave their connections alone.
\<close>

inductive queue_step ::
  "(nat \<Rightarrow> server) \<Rightarrow> (nat \<Rightarrow> proxy \<Rightarrow> proxy) \<Rightarrow> (nat \<Rightarrow> proxy \<Rightarrow> proxy) \<Rightarrow> queues \<Rightarrow> queues \<Rightarrow> bool"
  for servers take_conn drop_conn where
  queued: "pool q p = None \<Longrightarrow> pend_pos (sess q i) = None \<Longrightarrow>
    \<forall>k. target (sess q i) = Some k \<longrightarrow> sn_flags (sess q i) AND SN_ASSIGNED \<noteq> 0 \<and> k < length (srv (backend q)) \<Longrightarrow>
    queue_step servers take_conn drop_conn q (snd (pendconn_add (Some p) i q))"
| left: "session_leave_queue i q = Some q' \<Longrightarrow> queue_step servers take_conn drop_conn q q'"
| slot: "\<forall>k. newsrv = Some k \<longrightarrow> k < length (srv (backend q)) \<Longrightarrow>
    \<forall>k. srv_conn (sess q i) = Some k \<longrightarrow> k < length (srv (backend q)) \<Longrightarrow>
    queue_step servers take_conn drop_conn q (sess_change_server take_conn drop_conn i newsrv q)"
| serve: "k < length (srv (backend q)) \<Longrightarrow> process_srv_queue now servers take_conn k q = Some q' \<Longrightarrow>
    queue_step servers take_conn drop_conn q q'"
| down: "k < length (srv (backend q)) \<Longrightarrow> pendconn_redistribute k q = Some (n, q') \<Longrightarrow>
    queue_step servers take_conn drop_conn q q'"
| up: "k < length (srv (backend q)) \<Longrightarrow> pendconn_grab_from_px now k q = Some (n, q') \<Longrightarrow>
    queue_step servers take_conn drop_conn q q'"
| other: "slots px = slots (backend q) \<Longrightarrow> queue_step servers take_conn drop_conn q (q\<lparr>backend := px\<rparr>)"

lemma other_ok: "slots px = slots (backend q) \<Longrightarrow> queues_ok (q\<lparr>backend := px\<rparr>) = queues_ok q"
proof -
  assume a: "slots px = slots (backend q)"
  have "map nbpend (srv px) = map snd (slots px)" for px by (simp add: slots_def)
  with a show ?thesis by (intro queues_ok_cong) simp_all
qed

lemma served_ok:
  "queues_ok (on_srv k (\<lambda>s. s\<lparr>served := f s\<rparr>) q) = queues_ok q"
  by (rule queues_ok_cong) (auto simp: list_eq_iff_nth_eq nth_update)

lemma slot_change_ok:
  assumes "lb_hook take_conn" "lb_hook drop_conn" "queues_ok q"
  shows "queues_ok (sess_change_server take_conn drop_conn i newsrv q)"
proof -
  have del: "queues_ok (session_del_srv_conn i q) = queues_ok q" and add: "queues_ok (session_add_srv_conn i k q) = queues_ok q" for i k q
    by (rule queues_ok_cong; simp add: session_del_srv_conn_def session_add_srv_conn_def)+
  show ?thesis
    using assms(3) unfolding sess_change_server_def Let_def
    by (simp add: del add served_ok lb_hook.queues_ok_hook [OF assms(1)] lb_hook.queues_ok_hook [OF assms(2)] split: option.split)
qed

lemma redistribute_ok:
  assumes "queues_ok q" "k < length (srv (backend q))"
  shows "\<exists>q'. pendconn_redistribute k q = Some (int (length (filter (\<lambda>p. \<not> bound_entry q p) (srv_pend q ! k))), q')
    \<and> queues_ok q' \<and> srv_pend q' ! k = filter (bound_entry q) (srv_pend q ! k)"
proof -
  have "\<forall>p \<in> set (srv_pend q ! k). \<exists>i. pool q p = Some \<lparr>p_sess = i, p_srv = Some k\<rparr>" "distinct (srv_pend q ! k)"
    using assms by (simp_all add: queues_ok_def)
  from redistribute_loop_result [OF assms(1) this(2,1), of 0] show ?thesis
    by (auto simp: pendconn_redistribute_def cong: filter_cong)
qed

lemma queue_step_ok:
  assumes "queue_step servers take_conn drop_conn q q'" "lb_hook take_conn" "lb_hook drop_conn" "queues_ok q"
  shows "queues_ok q'"
  using assms(1,4)
proof cases
  case (queued p i)
  then show ?thesis using pendconn_add_ok assms(4) by blast
next
  case (left i)
  then show ?thesis using free_keeps_ok assms(4) by (auto simp: session_leave_queue_def split: option.splits)
next
  case (slot newsrv i)
  then show ?thesis using slot_change_ok [OF assms(2-4)] by simp
next
  case (serve k now)
  then show ?thesis using lb_hook.process_srv_queue_ends [OF assms(2,4) serve(1), of now servers] by auto
next
  case (down k n)
  then show ?thesis using redistribute_ok [OF assms(4)] by fastforce
next
  case (up k now n)
  then show ?thesis using grab_ok [OF assms(4) up(1), of now] by auto
next
  case (other px)
  then show ?thesis using other_ok assms(4) by simp
qed

lemma queue_step_pend_ok:
  assumes "queue_step servers take_conn drop_conn q q'" "pend_ok q"
  shows "pend_ok q'"
  using assms
proof cases
  case (left i)
  then show ?thesis using pend_ok_free assms(2) by (auto simp: session_leave_queue_def split: option.splits)
next
  case (other px)
  then show ?thesis using assms(2) by (simp add: pend_ok_def)
qed (use assms(2) in \<open>auto simp: same_pos_ok [OF same_pos_slot] intro: pend_ok_add pend_ok_process
    pend_ok_redistribute_all pend_ok_grab_all\<close>)

text \<open>The state at startup: no entry is in use, no session is queued, the counters are null.\<close>

definition queues_empty :: "queues \<Rightarrow> bool" where
  "queues_empty q \<longleftrightarrow> pool q = Map.empty \<and> (\<forall>i. pend_pos (sess q i) = None)
    \<and> px_pend q = [] \<and> srv_pend q = map (\<lambda>_. []) (srv (backend q))
    \<and> px_nbpend q = 0 \<and> totpend q = 0 \<and> (\<forall>s \<in> set (srv (backend q)). nbpend s = 0)"

lemma queues_empty_ok: "queues_empty q \<Longrightarrow> queues_ok q \<and> pend_ok q"
  by (auto simp: queues_empty_def queues_ok_def pend_ok_def comp_def sum_list_triv)

text \<open>C37: queue counters.  Whatever the order in which sessions queue and leave, take and leave slots,
  servers are given sessions, go down and come up, from empty queues, the counters that the code tests
  are the lengths of the lists, every entry is in the queue of the server it names, each session that
  waits points to its entry and the others to nothing, and no operation ever takes the head of an empty
  list or an entry that was freed: neither those of the servers, nor the end of a session, which frees
  the entry the session points to.  A session is queued only when it is in no queue, with a server
  among those of the backend and marked as assigned, or with no server, as the callers do; the
  callbacks of the algorithm leave the connections counted on the servers alone.\<close>

theorem queue_counters:
  assumes "lb_hook take_conn" "lb_hook drop_conn" "queues_empty q0"
    and "(queue_step servers take_conn drop_conn)\<^sup>*\<^sup>* q0 q" and "k < length (srv (backend q))"
  shows "queues_ok q \<and> (\<forall>i p. pend_pos (sess q i) = Some p \<longleftrightarrow> (\<exists>k. pool q p = Some \<lparr>p_sess = i, p_srv = k\<rparr>))
    \<and> session_leave_queue i q \<noteq> None \<and> process_srv_queue now servers take_conn k q \<noteq> None
    \<and> pendconn_redistribute k q \<noteq> None \<and> pendconn_grab_from_px now k q \<noteq> None"
proof -
  have "queues_ok q \<and> pend_ok q"
    using assms(4)
  proof (induction rule: rtranclp_induct)
    case base
    then show ?case using queues_empty_ok [OF assms(3)] .
  next
    case (step q q')
    then show ?case using queue_step_ok [OF step(2) assms(1,2)] queue_step_pend_ok [OF step(2)] by blast
  qed
  then have ok: "queues_ok q" "pend_ok q" by simp_all
  then show ?thesis
    using lb_hook.process_srv_queue_ends [OF assms(1) ok(1) assms(5), of now servers] grab_ok [OF ok(1) assms(5), of now]
      redistribute_ok [OF ok(1) assms(5)] leave_queue_ends [OF ok, of i] by (auto simp: pend_ok_def)
qed

text \<open>A backend with one full server, for the examples.\<close>

definition queues1 :: queues where
  "queues1 = \<lparr>backend = \<lparr>srv = [\<lparr>state = SRV_ST_RUNNING, prev_state = SRV_ST_RUNNING, admin = 0, prev_admin = 0,
        is_backup = False, served = 1, cur_sess = 1, maxconn = 1, minconn = 1, nbpend = 0, uweight = 1, eweight = 1,
        prev_eweight = 1, wscore = 0, last_change = 0, slowstart = 0, track = None\<rparr>],
      srv_act = 1, srv_bck = 0, use_all_bk = False, beconn = 1, fullconn = 0,
      tot_wact = 1, tot_wbck = 0, tot_weight = 1, tot_used = 1, wmult = 1, wdiv = 1, fbck = None,
      lbmap = \<lparr>map_srv = [Some 0], map_recalc = False, rr_idx = 0\<rparr>\<rparr>,
    redisp = True,
    sess = (\<lambda>_. \<lparr>sn_flags = 0, target = None, srv_conn = None, pend_pos = None, tv_request = \<lparr>tv_sec = 0, tv_usec = 0\<rparr>,
      srv_queue_size = 0, prx_queue_size = 0, woken = False\<rparr>),
    pool = (\<lambda>_. None), px_pend = [], srv_pend = [[]], actconns = [[]],
    px_nbpend = 0, totpend = 0, px_nbmax = 0, srv_nbmax = [0]\<rparr>"

lemma queues1_ok: "queues_ok queues1"
  by (simp add: queues_ok_def queues1_def)

lemma queues1_empty: "queues_empty queues1"
  by (simp add: queues_empty_def queues1_def)

lemma queues1_queued: "queue_step (\<lambda>_. undefined) (\<lambda>k px. px) (\<lambda>k px. px) queues1 (snd (pendconn_add (Some 7) 3 queues1))"
  by (rule queue_step.queued) (simp_all add: queues1_def)

theorem queue_counters_witness:
  "let q = snd (pendconn_add (Some 7) 3 queues1)
   in queues_ok q \<and> (\<forall>i p. pend_pos (sess q i) = Some p \<longleftrightarrow> (\<exists>k. pool q p = Some \<lparr>p_sess = i, p_srv = k\<rparr>))
    \<and> session_leave_queue 3 q \<noteq> None \<and> process_srv_queue 0 (\<lambda>_. undefined) (\<lambda>k px. px) 0 q \<noteq> None
    \<and> pendconn_redistribute 0 q \<noteq> None \<and> pendconn_grab_from_px 0 0 q \<noteq> None"
  unfolding Let_def
proof (rule queue_counters [OF no_hook.lb_hook_axioms no_hook.lb_hook_axioms queues1_empty])
  show "(queue_step (\<lambda>_. undefined) (\<lambda>k px. px) (\<lambda>k px. px))\<^sup>*\<^sup>* queues1 (snd (pendconn_add (Some 7) 3 queues1))"
    using queues1_queued by blast
  show "0 < length (srv (backend (snd (pendconn_add (Some 7) 3 queues1))))"
    by (simp add: queues1_def pendconn_add_def add_to_px_def Let_def)
qed

text \<open>C38: draining the queues.  After \<open>process_srv_queue\<close> the server holds as many sessions as its
  dynamic limit allows, or nothing is left for it to serve: its own queue is empty, and the backend's
  queue is empty or not for a server that is not usable.\<close>

theorem process_queue_drains:
  assumes "lb_hook take_conn" "queues_ok q" "k < length (srv (backend q))"
  shows "\<exists>q'. process_srv_queue now servers take_conn k q = Some q' \<and>
    (sint (srv_dynamic_maxconn now (backend q) (server_of q k)) \<le> served (server_of q' k)
     \<or> srv_pend q' ! k = [] \<and> (px_pend q' = [] \<or> \<not> srv_is_usable (effective_server servers (server_of q' k))))"
  using lb_hook.process_srv_queue_ends [OF assms, of now servers] by blast

theorem process_queue_drains_witness:
  "let q = snd (pendconn_add (Some 7) 3 queues1)
   in \<exists>q'. process_srv_queue 0 (\<lambda>_. undefined) (\<lambda>k px. px) 0 q = Some q' \<and>
    (sint (srv_dynamic_maxconn 0 (backend q) (server_of q 0)) \<le> served (server_of q' 0)
     \<or> srv_pend q' ! 0 = [] \<and> (px_pend q' = [] \<or> \<not> srv_is_usable (effective_server (\<lambda>_. undefined) (server_of q' 0))))"
  unfolding Let_def
proof (rule process_queue_drains [OF no_hook.lb_hook_axioms])
  show "queues_ok (snd (pendconn_add (Some 7) 3 queues1))"
    by (rule queue_step_ok [OF queues1_queued no_hook.lb_hook_axioms no_hook.lb_hook_axioms queues1_ok])
  show "0 < length (srv (backend (snd (pendconn_add (Some 7) 3 queues1))))"
    by (simp add: queues1_def pendconn_add_def add_to_px_def Let_def)
qed

text \<open>A server that goes down.  \<open>pendconn_redistribute\<close> frees exactly the entries of the server whose
  session may go elsewhere, when the backend redispatches, and returns their number; the entries bound
  to the server stay, in order.\<close>

theorem redistribute_exact:
  assumes "queues_ok q" "k < length (srv (backend q))"
  shows "\<exists>q'. pendconn_redistribute k q = Some (int (length (filter (\<lambda>p. \<not> bound_entry q p) (srv_pend q ! k))), q')
    \<and> queues_ok q' \<and> srv_pend q' ! k = filter (bound_entry q) (srv_pend q ! k)"
  by (rule redistribute_ok [OF assms])

theorem redistribute_exact_witness:
  "\<exists>q'. pendconn_redistribute 0 queues1 = Some (int (length (filter (\<lambda>p. \<not> bound_entry queues1 p) (srv_pend queues1 ! 0))), q')
    \<and> queues_ok q' \<and> srv_pend q' ! 0 = filter (bound_entry queues1) (srv_pend queues1 ! 0)"
  by (rule redistribute_exact [OF queues1_ok]) (simp add: queues1_def)

end
