(* ===== verification/HA_Check.thy ===== *)
theory HA_Check
  imports HA_Server HA_Time
begin

section \<open>Health checks of servers (src/checks.c, include/types/checks.h)\<close>

text \<open>
  A server has two checks, the health check and the agent check.  Each keeps a health: below \<open>rise\<close>
  the server is bad, from \<open>rise\<close> to \<open>rise + fall - 1\<close> it is good.  The functions below are those that
  turn the outcome of a check into a new health; the descriptions that go to the logs are left out.
\<close>

subsection \<open>State\<close>

datatype chk_result = CHK_RES_UNKNOWN | CHK_RES_NEUTRAL | CHK_RES_FAILED | CHK_RES_PASSED | CHK_RES_CONDPASS

datatype hchk_status =
    HCHK_STATUS_UNKNOWN | HCHK_STATUS_INI | HCHK_STATUS_START | HCHK_STATUS_CHECKED | HCHK_STATUS_HANA
  | HCHK_STATUS_SOCKERR | HCHK_STATUS_L4OK | HCHK_STATUS_L4TOUT | HCHK_STATUS_L4CON
  | HCHK_STATUS_L6OK | HCHK_STATUS_L6TOUT | HCHK_STATUS_L6RSP | HCHK_STATUS_L7TOUT | HCHK_STATUS_L7RSP
  | HCHK_STATUS_L57DATA | HCHK_STATUS_L7OKD | HCHK_STATUS_L7OKCD | HCHK_STATUS_L7STS

datatype hana_status =
    HANA_STATUS_UNKNOWN | HANA_STATUS_L4_OK | HANA_STATUS_L4_ERR | HANA_STATUS_HTTP_OK | HANA_STATUS_HTTP_STS
  | HANA_STATUS_HTTP_HDRRSP | HANA_STATUS_HTTP_RSP | HANA_STATUS_HTTP_READ_ERROR
  | HANA_STATUS_HTTP_READ_TIMEOUT | HANA_STATUS_HTTP_BROKEN_PIPE

datatype hana_obs = HANA_OBS_NONE | HANA_OBS_LAYER4 | HANA_OBS_LAYER7

datatype hana_onerr =
  HANA_ONERR_UNKNOWN | HANA_ONERR_FASTINTER | HANA_ONERR_FAILCHK | HANA_ONERR_SUDDTH | HANA_ONERR_MARKDWN

abbreviation CHK_ST_INPROGRESS :: u32 where "CHK_ST_INPROGRESS \<equiv> 0x1"
abbreviation CHK_ST_CONFIGURED :: u32 where "CHK_ST_CONFIGURED \<equiv> 0x2"
abbreviation CHK_ST_ENABLED :: u32 where "CHK_ST_ENABLED \<equiv> 0x4"
abbreviation CHK_ST_PAUSED :: u32 where "CHK_ST_PAUSED \<equiv> 0x8"
abbreviation CHK_ST_AGENT :: u32 where "CHK_ST_AGENT \<equiv> 0x10"

record check =
  chk_start :: timeval
  duration :: int
  status :: hchk_status
  result :: chk_result
  chk_state :: u32
  health :: int
  rise :: int
  fall :: int
  inter :: int
  fastinter :: int
  downinter :: int
  chk_task :: bool
  chk_expire :: u32

definition has_st :: "check \<Rightarrow> u32 \<Rightarrow> bool" where
  "has_st c m \<longleftrightarrow> chk_state c AND m \<noteq> 0"

record srv_info =
  chk_health :: check
  chk_agent :: check
  trackers :: "nat list"
  iweight :: int
  onmarkeddown_shutdown :: bool
  onmarkedup_shutdown :: bool
  onerror :: hana_onerr
  observe :: hana_obs
  consecutive_errors :: int
  consecutive_errors_limit :: int
  failed_checks :: int
  failed_hana :: int
  down_trans :: int
  down_time :: int
  warm_expire :: u32
  warm_in_rq :: bool

text \<open>The two checks of a server by their kind.\<close>

datatype which = Health | Agent

fun check_of :: "which \<Rightarrow> srv_info \<Rightarrow> check" where
  "check_of Health s = chk_health s"
| "check_of Agent s = chk_agent s"

fun on_check :: "which \<Rightarrow> (check \<Rightarrow> check) \<Rightarrow> srv_info \<Rightarrow> srv_info" where
  "on_check Health f s = s\<lparr>chk_health := f (chk_health s)\<rparr>"
| "on_check Agent f s = s\<lparr>chk_agent := f (chk_agent s)\<rparr>"

subsection \<open>The result of a status\<close>

fun check_statuses :: "hchk_status \<Rightarrow> chk_result" where
  "check_statuses HCHK_STATUS_CHECKED = CHK_RES_NEUTRAL"
| "check_statuses HCHK_STATUS_HANA = CHK_RES_FAILED"
| "check_statuses HCHK_STATUS_SOCKERR = CHK_RES_FAILED"
| "check_statuses HCHK_STATUS_L4OK = CHK_RES_PASSED"
| "check_statuses HCHK_STATUS_L4TOUT = CHK_RES_FAILED"
| "check_statuses HCHK_STATUS_L4CON = CHK_RES_FAILED"
| "check_statuses HCHK_STATUS_L6OK = CHK_RES_PASSED"
| "check_statuses HCHK_STATUS_L6TOUT = CHK_RES_FAILED"
| "check_statuses HCHK_STATUS_L6RSP = CHK_RES_FAILED"
| "check_statuses HCHK_STATUS_L7TOUT = CHK_RES_FAILED"
| "check_statuses HCHK_STATUS_L7RSP = CHK_RES_FAILED"
| "check_statuses HCHK_STATUS_L7OKD = CHK_RES_PASSED"
| "check_statuses HCHK_STATUS_L7OKCD = CHK_RES_CONDPASS"
| "check_statuses HCHK_STATUS_L7STS = CHK_RES_FAILED"
| "check_statuses st = CHK_RES_UNKNOWN"

text \<open>\<open>lr\<close>: 0 ignore, 1 error, 2 success, when layer 4 and when layer 7 is observed.\<close>

fun analyze_statuses :: "hana_status \<Rightarrow> hana_obs \<Rightarrow> nat" where
  "analyze_statuses HANA_STATUS_UNKNOWN ob = 0"
| "analyze_statuses HANA_STATUS_L4_OK ob = (if ob = HANA_OBS_LAYER4 then 2 else 0)"
| "analyze_statuses HANA_STATUS_L4_ERR ob = 1"
| "analyze_statuses HANA_STATUS_HTTP_OK ob = (if ob = HANA_OBS_LAYER7 then 2 else 0)"
| "analyze_statuses st ob = (if ob = HANA_OBS_LAYER7 then 1 else 0)"

text \<open>The statuses from \<open>HCHK_STATUS_L7TOUT\<close> on, in the order of the enumeration.\<close>

definition from_l7tout :: "hchk_status \<Rightarrow> bool" where
  "from_l7tout st \<longleftrightarrow> st \<in> {HCHK_STATUS_L7TOUT, HCHK_STATUS_L7RSP, HCHK_STATUS_L57DATA,
     HCHK_STATUS_L7OKD, HCHK_STATUS_L7OKCD, HCHK_STATUS_L7STS}"

subsection \<open>A new status\<close>

definition lose_health :: "check \<Rightarrow> check" where
  "lose_health c = c\<lparr>health := (if health c - 1 < rise c then 0 else health c - 1)\<rparr>"

definition gain_health :: "check \<Rightarrow> check" where
  "gain_health c = c\<lparr>health := (if health c + 1 \<ge> rise c then rise c + fall c - 1 else health c + 1)\<rparr>"

definition counts_failure :: "check \<Rightarrow> bool" where
  "counts_failure c \<longleftrightarrow> (\<not> has_st c CHK_ST_AGENT \<or> from_l7tout (status c)) \<and> health c \<ge> rise c"

definition counts_success :: "check \<Rightarrow> bool" where
  "counts_success c \<longleftrightarrow> health c < rise c + fall c - 1 \<and> (result c = CHK_RES_PASSED \<or> health c > 0)"

definition end_timing :: "timeval \<Rightarrow> hchk_status \<Rightarrow> check \<Rightarrow> check" where
  "end_timing now st c =
    (if st = HCHK_STATUS_HANA then c\<lparr>duration := - 1\<rparr>
     else if tv_sec (chk_start c) \<noteq> 0 \<or> tv_usec (chk_start c) \<noteq> 0
     then c\<lparr>duration := tv_ms_elapsed (chk_start c) now, chk_start := \<lparr>tv_sec = 0, tv_usec = 0\<rparr>\<rparr>
     else c)"

text \<open>A success clears the errors counted by \<open>__health_adjust\<close>, when it is in use.\<close>

definition clear_errors :: "srv_info \<Rightarrow> srv_info" where
  "clear_errors s = (if onerror s \<noteq> HANA_ONERR_UNKNOWN then s\<lparr>consecutive_errors := 0\<rparr> else s)"

definition set_server_check_status :: "timeval \<Rightarrow> which \<Rightarrow> hchk_status \<Rightarrow> srv_info \<Rightarrow> srv_info" where
  "set_server_check_status now w st s =
    (if st = HCHK_STATUS_START then on_check w (\<lambda>c. c\<lparr>result := CHK_RES_UNKNOWN, chk_start := now\<rparr>) s
     else if status (check_of w s) = HCHK_STATUS_UNKNOWN then s
     else let s = on_check w (\<lambda>c. c\<lparr>status := st,
                    result := (if check_statuses st \<noteq> CHK_RES_UNKNOWN then check_statuses st else result c)\<rparr>) s;
              s = on_check w (end_timing now st) s;
              c = check_of w s
          in case result c of
               CHK_RES_FAILED \<Rightarrow>
                 if counts_failure c then on_check w lose_health (s\<lparr>failed_checks := failed_checks s + 1\<rparr>) else s
             | CHK_RES_PASSED \<Rightarrow> clear_errors (if counts_success c then on_check w gain_health s else s)
             | CHK_RES_CONDPASS \<Rightarrow> clear_errors (if counts_success c then on_check w gain_health s else s)
             | _ \<Rightarrow> s)"

subsection \<open>The health of a check\<close>

lemma on_check_simps [simp]:
  "check_of w (on_check w f s) = f (check_of w s)"
  "w' \<noteq> w \<Longrightarrow> check_of w' (on_check w f s) = check_of w' s"
  "trackers (on_check w f s) = trackers s" "onerror (on_check w f s) = onerror s"
  "check_of w (clear_errors s) = check_of w s" "check_of w (s\<lparr>failed_checks := n\<rparr>) = check_of w s"
  "check_of w (s\<lparr>consecutive_errors := m\<rparr>) = check_of w s"
  by (cases w; cases w'; simp add: clear_errors_def)+

lemma end_timing_simps [simp]:
  "status (end_timing now st c) = status c" "result (end_timing now st c) = result c"
  "chk_state (end_timing now st c) = chk_state c" "health (end_timing now st c) = health c"
  "rise (end_timing now st c) = rise c" "fall (end_timing now st c) = fall c"
  "has_st (end_timing now st c) m = has_st c m"
  by (simp_all add: end_timing_def has_st_def)

definition check_ok :: "check \<Rightarrow> bool" where
  "check_ok c \<longleftrightarrow> 0 < rise c \<and> 0 < fall c \<and> 0 \<le> health c \<and> health c \<le> rise c + fall c - 1"

lemma check_ok_cong:
  "health c' = health c \<Longrightarrow> rise c' = rise c \<Longrightarrow> fall c' = fall c \<Longrightarrow> check_ok c' = check_ok c"
  by (simp add: check_ok_def)

lemma health_steps_ok: "check_ok c \<Longrightarrow> check_ok (lose_health c)" "check_ok c \<Longrightarrow> check_ok (gain_health c)"
  by (auto simp: check_ok_def lose_health_def gain_health_def)

text \<open>What a status that gives a result does to the check.\<close>

definition next_health :: "check \<Rightarrow> chk_result \<Rightarrow> hchk_status \<Rightarrow> int" where
  "next_health c r st =
    (if r = CHK_RES_FAILED \<and> (\<not> has_st c CHK_ST_AGENT \<or> from_l7tout st) \<and> rise c \<le> health c
     then health (lose_health c)
     else if (r = CHK_RES_PASSED \<or> r = CHK_RES_CONDPASS \<and> 0 < health c) \<and> health c < rise c + fall c - 1
     then health (gain_health c) else health c)"

lemma set_status_check:
  fixes now :: timeval
  assumes "st \<noteq> HCHK_STATUS_START" "status (check_of w s) \<noteq> HCHK_STATUS_UNKNOWN" "check_statuses st \<noteq> CHK_RES_UNKNOWN"
  defines "c' \<equiv> check_of w (set_server_check_status now w st s)"
  shows "status c' = st" "result c' = check_statuses st" "rise c' = rise (check_of w s)" "fall c' = fall (check_of w s)"
    "chk_state c' = chk_state (check_of w s)" "health c' = next_health (check_of w s) (check_statuses st) st"
  using assms(1-3)
  by (auto simp: c'_def set_server_check_status_def next_health_def counts_failure_def counts_success_def
      lose_health_def gain_health_def Let_def has_st_def split: chk_result.split)

lemma health_frame [simp]:
  "rise (lose_health c) = rise c" "fall (lose_health c) = fall c" "chk_state (lose_health c) = chk_state c"
  "rise (gain_health c) = rise c" "fall (gain_health c) = fall c" "chk_state (gain_health c) = chk_state c"
  by (simp_all add: lose_health_def gain_health_def)

lemma set_status_frame:
  "rise (check_of w (set_server_check_status now w st s)) = rise (check_of w s)"
  "fall (check_of w (set_server_check_status now w st s)) = fall (check_of w s)"
  "chk_state (check_of w (set_server_check_status now w st s)) = chk_state (check_of w s)"
  "trackers (set_server_check_status now w st s) = trackers s"
  by (auto simp: set_server_check_status_def Let_def clear_errors_def split: chk_result.split)

lemma set_status_other:
  "w' \<noteq> w \<Longrightarrow> check_of w' (set_server_check_status now w st s) = check_of w' s"
  by (auto simp: set_server_check_status_def Let_def split: chk_result.split)

lemma set_status_ok:
  assumes "check_ok (check_of w s)"
  shows "check_ok (check_of w (set_server_check_status now w st s))"
proof -
  have same: "check_ok (end_timing now st c) = check_ok c" for c by (rule check_ok_cong) simp_all
  have upd: "check_ok (c\<lparr>status := st, result := r\<rparr>) = check_ok c" "check_ok (c\<lparr>status := st\<rparr>) = check_ok c"
    "check_ok (c\<lparr>result := r, chk_start := now\<rparr>) = check_ok c" for c r
    by (rule check_ok_cong; simp)+
  show ?thesis
    using assms
    by (auto simp: set_server_check_status_def Let_def same upd intro!: health_steps_ok split: chk_result.split)
qed

subsection \<open>Sequences of results\<close>

text \<open>The number of failures at the end of a sequence, and that of successes in all.\<close>

definition outcome :: "hchk_status \<Rightarrow> bool" where
  "outcome st \<longleftrightarrow> check_statuses st = CHK_RES_PASSED"

definition decisive :: "hchk_status \<Rightarrow> bool" where
  "decisive st \<longleftrightarrow> check_statuses st = CHK_RES_PASSED \<or> check_statuses st = CHK_RES_FAILED"

definition last_failures :: "hchk_status list \<Rightarrow> nat" where
  "last_failures sts = length (takeWhile (\<lambda>st. \<not> outcome st) (rev sts))"

definition successes :: "hchk_status list \<Rightarrow> nat" where
  "successes sts = length (filter outcome sts)"

definition after :: "timeval \<Rightarrow> hchk_status list \<Rightarrow> srv_info \<Rightarrow> check" where
  "after now sts s = chk_health (fold (set_server_check_status now Health) sts s)"

lemma count_snoc:
  "last_failures [] = 0" "last_failures (sts @ [st]) = (if outcome st then 0 else Suc (last_failures sts))"
  "successes [] = 0" "successes (sts @ [st]) = (if outcome st then Suc (successes sts) else successes sts)"
  by (simp_all add: last_failures_def successes_def)

lemma after_snoc: "after now (sts @ [st]) s = check_of Health (set_server_check_status now Health st (fold (set_server_check_status now Health) sts s))"
  by (simp add: after_def)

lemma decisive_status: "decisive st \<Longrightarrow> st \<noteq> HCHK_STATUS_START \<and> st \<noteq> HCHK_STATUS_UNKNOWN \<and> check_statuses st \<noteq> CHK_RES_UNKNOWN"
  by (cases st) (simp_all add: decisive_def)

lemma after_frame:
  assumes "\<forall>st \<in> set sts. decisive st" "status (chk_health s) \<noteq> HCHK_STATUS_UNKNOWN"
  shows "status (after now sts s) \<noteq> HCHK_STATUS_UNKNOWN \<and> rise (after now sts s) = rise (chk_health s)
    \<and> fall (after now sts s) = fall (chk_health s) \<and> chk_state (after now sts s) = chk_state (chk_health s)"
  using assms
proof (induction sts rule: rev_induct)
  case (snoc st sts)
  let ?s = "fold (set_server_check_status now Health) sts s"
  have d: "st \<noteq> HCHK_STATUS_START" "st \<noteq> HCHK_STATUS_UNKNOWN" "check_statuses st \<noteq> CHK_RES_UNKNOWN"
    using snoc.prems(1) decisive_status [of st] by simp_all
  have "after now (sts @ [st]) s = check_of Health (set_server_check_status now Health st ?s)" by (rule after_snoc)
  then show ?case
    using snoc d set_status_check(1) [of st Health ?s now] set_status_frame(1-3) [where w = Health and s = ?s and st = st and now = now]
    by (simp add: after_def)
qed (simp add: after_def)

lemma after_health:
  assumes "\<forall>st \<in> set (sts @ [st]). decisive st" "status (chk_health s) \<noteq> HCHK_STATUS_UNKNOWN"
  shows "health (after now (sts @ [st]) s) = next_health (after now sts s) (check_statuses st) st"
proof -
  let ?s = "fold (set_server_check_status now Health) sts s"
  have "status (check_of Health ?s) \<noteq> HCHK_STATUS_UNKNOWN" using after_frame [of sts s now] assms by (simp add: after_def)
  then show ?thesis
    using set_status_check(6) [of st Health ?s now] decisive_status [of st] assms(1)
    by (simp add: after_snoc) (simp add: after_def)
qed

text \<open>C36: A healthy server goes down exactly at the \<open>fall\<close>-th consecutive failure of its health check: a
  success in between restores its full health, whatever the failures before.\<close>

theorem check_goes_down:
  assumes "\<forall>st \<in> set sts. decisive st" "status (chk_health s) \<noteq> HCHK_STATUS_UNKNOWN"
    "\<not> has_st (chk_health s) CHK_ST_AGENT" "check_ok (chk_health s)"
    "health (chk_health s) = rise (chk_health s) + fall (chk_health s) - 1"
    "\<forall>n < length sts. int (last_failures (take n sts)) < fall (chk_health s)"
  shows "health (after now sts s) =
    (if int (last_failures sts) < fall (chk_health s)
     then rise (chk_health s) + fall (chk_health s) - 1 - int (last_failures sts) else 0)"
  using assms(1,6)
proof (induction sts rule: rev_induct)
  case Nil
  then show ?case using assms(4,5) by (simp add: after_def count_snoc check_ok_def)
next
  case (snoc st sts)
  let ?c = "chk_health s" and ?d = "after now sts s"
  have "\<forall>n < length sts. int (last_failures (take n sts)) < fall ?c" using snoc.prems(2) by auto
  moreover have few: "int (last_failures sts) < fall ?c" using snoc.prems(2) [rule_format, of "length sts"] by simp
  ultimately have h: "health ?d = rise ?c + fall ?c - 1 - int (last_failures sts)" using snoc.IH snoc.prems(1) by simp
  have f: "rise ?d = rise ?c" "fall ?d = fall ?c" "has_st ?d CHK_ST_AGENT = has_st ?c CHK_ST_AGENT"
    using after_frame [of sts s now] snoc.prems(1) assms(2) by (simp_all add: has_st_def)
  have st: "check_statuses st = CHK_RES_PASSED \<or> check_statuses st = CHK_RES_FAILED" using snoc.prems(1) by (simp add: decisive_def)
  have "health (after now (sts @ [st]) s) = next_health ?d (check_statuses st) st"
    by (rule after_health [OF snoc.prems(1) assms(2)])
  then show ?case using st h f few assms(3,4)
    by (auto simp: next_health_def lose_health_def gain_health_def count_snoc outcome_def check_ok_def)
qed

text \<open>A server that is down comes up when \<open>rise\<close> of its health checks have passed in all, whatever the
  number of failures between them: the failures of a server that is down do not reset its health.  The
  documentation asks for \<open>rise\<close> consecutive successes.\<close>

theorem check_flapping_rises:
  assumes "\<forall>st \<in> set sts. decisive st" "status (chk_health s) \<noteq> HCHK_STATUS_UNKNOWN"
    "check_ok (chk_health s)" "health (chk_health s) = 0"
    "\<forall>n < length sts. int (successes (take n sts)) < rise (chk_health s)"
  shows "health (after now sts s) =
    (if int (successes sts) < rise (chk_health s) then int (successes sts)
     else rise (chk_health s) + fall (chk_health s) - 1)"
  using assms(1,5)
proof (induction sts rule: rev_induct)
  case Nil
  then show ?case using assms(3,4) by (simp add: after_def count_snoc check_ok_def)
next
  case (snoc st sts)
  let ?c = "chk_health s" and ?d = "after now sts s"
  have "\<forall>n < length sts. int (successes (take n sts)) < rise ?c" using snoc.prems(2) by auto
  moreover have few: "int (successes sts) < rise ?c" using snoc.prems(2) [rule_format, of "length sts"] by simp
  ultimately have h: "health ?d = int (successes sts)" using snoc.IH snoc.prems(1) by simp
  have f: "rise ?d = rise ?c" "fall ?d = fall ?c"
    using after_frame [of sts s now] snoc.prems(1) assms(2) by simp_all
  have st: "check_statuses st = CHK_RES_PASSED \<or> check_statuses st = CHK_RES_FAILED" using snoc.prems(1) by (simp add: decisive_def)
  have "health (after now (sts @ [st]) s) = next_health ?d (check_statuses st) st"
    by (rule after_health [OF snoc.prems(1) assms(2)])
  then show ?case using st h f few assms(3)
    by (auto simp: next_health_def gain_health_def count_snoc outcome_def check_ok_def)
qed

subsection \<open>Concrete checks\<close>

definition date1 :: timeval where
  "date1 = \<lparr>tv_sec = 100, tv_usec = 0\<rparr>"

definition check1 :: "int \<Rightarrow> check" where
  "check1 h = \<lparr>chk_start = date1, duration = 0, status = HCHK_STATUS_INI, result = CHK_RES_UNKNOWN,
    chk_state = CHK_ST_CONFIGURED OR CHK_ST_ENABLED, health = h, rise = 2, fall = 3, inter = 2000, fastinter = 0,
    downinter = 0, chk_task = True, chk_expire = 0\<rparr>"

definition no_check :: check where
  "no_check = (check1 0)\<lparr>chk_state := 0, chk_task := False\<rparr>"

definition info1 :: "int \<Rightarrow> srv_info" where
  "info1 h = \<lparr>chk_health = check1 h, chk_agent = no_check, trackers = [], iweight = 1, onmarkeddown_shutdown = False,
    onmarkedup_shutdown = False, onerror = HANA_ONERR_UNKNOWN, observe = HANA_OBS_NONE, consecutive_errors = 0,
    consecutive_errors_limit = 10, failed_checks = 0, failed_hana = 0, down_trans = 0, down_time = 0,
    warm_expire = 0, warm_in_rq = False\<rparr>"

lemmas check1_defs = info1_def check1_def date1_def no_check_def check_ok_def has_st_def

text \<open>Two failures, a success, then three failures.\<close>

definition downs1 :: "hchk_status list" where
  "downs1 = [HCHK_STATUS_L4CON, HCHK_STATUS_L4TOUT, HCHK_STATUS_L4OK, HCHK_STATUS_L4CON, HCHK_STATUS_L7STS, HCHK_STATUS_L4CON]"

text \<open>One success among failures, then another.\<close>

definition flaps1 :: "hchk_status list" where
  "flaps1 = [HCHK_STATUS_L4OK, HCHK_STATUS_L4CON, HCHK_STATUS_L4CON, HCHK_STATUS_L4CON, HCHK_STATUS_L4OK]"

lemma outcomes1:
  "\<forall>n < length downs1. last_failures (take n downs1) < 3" "last_failures downs1 = 3" "\<forall>st \<in> set downs1. decisive st"
  "\<forall>n < length flaps1. successes (take n flaps1) < 2" "successes flaps1 = 2" "\<forall>st \<in> set flaps1. decisive st"
  by (simp_all add: downs1_def flaps1_def last_failures_def successes_def outcome_def decisive_def All_less_Suc)

lemma info1_facts:
  "check_ok (chk_health (info1 0))" "check_ok (chk_health (info1 4))" "health (chk_health (info1 h)) = h"
  "rise (chk_health (info1 h)) = 2" "fall (chk_health (info1 h)) = 3" "status (chk_health (info1 h)) = HCHK_STATUS_INI"
  "\<not> has_st (chk_health (info1 h)) CHK_ST_AGENT"
  by (simp_all add: check1_defs)

theorem check_goes_down_witness: "health (after date1 downs1 (info1 4)) = 0"
  by (subst check_goes_down) (simp_all add: info1_facts outcomes1)

theorem check_flapping_rises_witness: "health (after date1 flaps1 (info1 0)) = 4"
  by (subst check_flapping_rises) (simp_all add: info1_facts outcomes1)

end
