(* ===== verification/HA_Server_State.thy ===== *)
theory HA_Server_State
  imports HA_Check HA_Queue HA_LB_Count HA_LB_Map
begin

section \<open>The state of servers (src/server.c, include/proto/server.h, parts of src/checks.c)\<close>

text \<open>
  A server is stopped, starting, running or stopping; its checks and the administrator move it from
  a state to another, and every move goes to the servers that track it, which may be in other
  backends.  The process keeps a list of backends, each with its queues, and the servers are known
  by a number: \<open>names\<close> gives the backend and the position of each.  A backend refers to the
  functions of its load balancing algorithm by pointers, which may be null: the options \<open>cb_up\<close>,
  \<open>cb_down\<close> and \<open>cb_weight\<close>.  Alerts and logs are left out.
\<close>

subsection \<open>State\<close>

abbreviation SN_ERR_DOWN :: u32 where "SN_ERR_DOWN \<equiv> 0x9000"
abbreviation SN_ERR_UP :: u32 where "SN_ERR_UP \<equiv> 0xB000"
abbreviation SN_ERR_MASK :: u32 where "SN_ERR_MASK \<equiv> 0xF000"
abbreviation SHUTR_NOW :: u32 where "SHUTR_NOW \<equiv> 0x40"
abbreviation SHUTW :: u32 where "SHUTW \<equiv> 0x2000"
abbreviation SHUTW_NOW :: u32 where "SHUTW_NOW \<equiv> 0x4000"

record sess_io =
  req_flags :: u32
  rep_flags :: u32
  nice :: int

record px_info =
  px_last_change :: int
  px_down_time :: int
  px_down_trans :: int
  prop_dyn :: bool
  cb_up :: "(nat \<Rightarrow> proxy \<Rightarrow> proxy) option"
  cb_down :: "(nat \<Rightarrow> proxy \<Rightarrow> proxy) option"
  cb_weight :: "(nat \<Rightarrow> proxy \<Rightarrow> proxy) option"
  io :: "nat \<Rightarrow> sess_io"

record farm =
  bes :: "queues list"
  pxs :: "px_info list"
  names :: "(nat \<times> nat) list"
  infos :: "srv_info list"

text \<open>The date in seconds and in milliseconds, \<open>now.tv_sec\<close> and \<open>now_ms\<close>.\<close>

record date =
  now_sec :: int
  now_ms :: u32

definition be_of :: "nat \<Rightarrow> farm \<Rightarrow> nat" where
  "be_of i f = fst (names f ! i)"

definition pos_of :: "nat \<Rightarrow> farm \<Rightarrow> nat" where
  "pos_of i f = snd (names f ! i)"

definition px_of :: "nat \<Rightarrow> farm \<Rightarrow> proxy" where
  "px_of i f = backend (bes f ! be_of i f)"

definition sv :: "nat \<Rightarrow> farm \<Rightarrow> server" where
  "sv i f = srv (px_of i f) ! pos_of i f"

definition info_of :: "nat \<Rightarrow> farm \<Rightarrow> srv_info" where
  "info_of i f = infos f ! i"

definition px_info_of :: "nat \<Rightarrow> farm \<Rightarrow> px_info" where
  "px_info_of i f = pxs f ! be_of i f"

definition on_queues :: "nat \<Rightarrow> (queues \<Rightarrow> queues) \<Rightarrow> farm \<Rightarrow> farm" where
  "on_queues i g f = f\<lparr>bes := (bes f)[be_of i f := g (bes f ! be_of i f)]\<rparr>"

definition on_proxy :: "nat \<Rightarrow> (proxy \<Rightarrow> proxy) \<Rightarrow> farm \<Rightarrow> farm" where
  "on_proxy i g = on_queues i (\<lambda>q. q\<lparr>backend := g (backend q)\<rparr>)"

definition on_server :: "nat \<Rightarrow> (server \<Rightarrow> server) \<Rightarrow> farm \<Rightarrow> farm" where
  "on_server i g f = on_queues i (on_srv (pos_of i f) g) f"

definition on_info :: "nat \<Rightarrow> (srv_info \<Rightarrow> srv_info) \<Rightarrow> farm \<Rightarrow> farm" where
  "on_info i g f = f\<lparr>infos := (infos f)[i := g (infos f ! i)]\<rparr>"

definition on_px :: "nat \<Rightarrow> (px_info \<Rightarrow> px_info) \<Rightarrow> farm \<Rightarrow> farm" where
  "on_px i g f = f\<lparr>pxs := (pxs f)[be_of i f := g (pxs f ! be_of i f)]\<rparr>"

definition in_maint :: "server \<Rightarrow> bool" where
  "in_maint s \<longleftrightarrow> admin s AND SRV_ADMF_MAINT \<noteq> 0"

definition in_drain :: "server \<Rightarrow> bool" where
  "in_drain s \<longleftrightarrow> admin s AND SRV_ADMF_DRAIN \<noteq> 0"

subsection \<open>Sessions\<close>

definition session_shutdown :: "nat \<Rightarrow> u32 \<Rightarrow> nat \<Rightarrow> farm \<Rightarrow> farm" where
  "session_shutdown i why n f =
    (let c = io (px_info_of i f) n
     in if req_flags c AND (SHUTW OR SHUTW_NOW) \<noteq> 0 then f
        else let f = on_px i (\<lambda>p. p\<lparr>io := (io p)(n := c\<lparr>req_flags := req_flags c OR SHUTW_NOW,
                       rep_flags := rep_flags c OR SHUTR_NOW, nice := 1024\<rparr>)\<rparr>) f
             in on_queues i (on_sess n (\<lambda>s. s\<lparr>sn_flags := (if sn_flags s AND SN_ERR_MASK = 0 then sn_flags s OR why else sn_flags s),
                       woken := True\<rparr>)) f)"

text \<open>\<open>k\<close> is the position of the server in the backend of server \<open>i\<close>.\<close>

definition shutdown_all :: "nat \<Rightarrow> u32 \<Rightarrow> nat \<Rightarrow> farm \<Rightarrow> farm" where
  "shutdown_all i why k f =
    fold (\<lambda>n f. if srv_conn (sess (bes f ! be_of i f) n) = Some k then session_shutdown i why n f else f)
      (actconns (bes f ! be_of i f) ! k) f"

definition srv_shutdown_sessions :: "nat \<Rightarrow> u32 \<Rightarrow> farm \<Rightarrow> farm" where
  "srv_shutdown_sessions i why f = shutdown_all i why (pos_of i f) f"

definition srv_shutdown_backup_sessions :: "nat \<Rightarrow> u32 \<Rightarrow> farm \<Rightarrow> farm" where
  "srv_shutdown_backup_sessions i why f =
    fold (\<lambda>k f. if is_backup (srv (px_of i f) ! k) then shutdown_all i why k f else f) [0..<length (srv (px_of i f))] f"

subsection \<open>Weights\<close>

definition slow_weight :: "int \<Rightarrow> bool \<Rightarrow> proxy \<Rightarrow> server \<Rightarrow> int" where
  "slow_weight now dyn px s =
    (if state s = SRV_ST_STARTING \<and> dyn
     then c_div (wdiv px * (now - last_change s) + slowstart s) (slowstart s) else wdiv px)"

definition new_eweight :: "int \<Rightarrow> bool \<Rightarrow> proxy \<Rightarrow> server \<Rightarrow> server" where
  "new_eweight now dyn px s =
    (let s = (if (now < last_change s \<or> now \<ge> last_change s + slowstart s) \<and> state s = SRV_ST_STARTING
              then s\<lparr>state := SRV_ST_RUNNING\<rparr> else s)
     in s\<lparr>eweight := c_div (uweight s * slow_weight now dyn px s + wmult px - 1) (wmult px)\<rparr>)"

definition call :: "(nat \<Rightarrow> proxy \<Rightarrow> proxy) option \<Rightarrow> nat \<Rightarrow> farm \<Rightarrow> farm" where
  "call cb i f = (case cb of None \<Rightarrow> f | Some g \<Rightarrow> on_proxy i (g (pos_of i f)) f)"

definition call_recalc :: "nat \<Rightarrow> farm \<Rightarrow> farm" where
  "call_recalc i f =
    (let p = px_info_of i f
     in if cb_weight p \<noteq> None then call (cb_weight p) i f
        else if srv_is_usable (sv i f) then call (cb_up p) i f else call (cb_down p) i f)"

definition server_recalc_eweight :: "date \<Rightarrow> nat \<Rightarrow> farm \<Rightarrow> farm" where
  "server_recalc_eweight d i f =
    call_recalc i (on_server i (new_eweight (now_sec d) (prop_dyn (px_info_of i f)) (px_of i f)) f)"

subsection \<open>Leaving and entering service\<close>

definition in_backend :: "nat \<Rightarrow> (queues \<Rightarrow> (int \<times> queues) option) \<Rightarrow> farm \<Rightarrow> farm option" where
  "in_backend i g f = map_option (\<lambda>(n, q). on_queues i (\<lambda>_. q) f) (g (bes f ! be_of i f))"

definition no_server :: "nat \<Rightarrow> farm \<Rightarrow> bool" where
  "no_server i f \<longleftrightarrow> srv_bck (px_of i f) = 0 \<and> srv_act (px_of i f) = 0"

definition set_backend_down :: "date \<Rightarrow> nat \<Rightarrow> farm \<Rightarrow> farm" where
  "set_backend_down d i = on_px i (\<lambda>p. p\<lparr>px_last_change := now_sec d, px_down_trans := px_down_trans p + 1\<rparr>)"

definition drop_load :: "bool \<Rightarrow> nat \<Rightarrow> farm \<Rightarrow> farm option" where
  "drop_load shut i f =
    (let f = call (cb_down (px_info_of i f)) i f;
         f = (if shut \<and> onmarkeddown_shutdown (info_of i f) then srv_shutdown_sessions i SN_ERR_DOWN f else f)
     in in_backend i (pendconn_redistribute (pos_of i f)) f)"

definition go_down :: "date \<Rightarrow> nat \<Rightarrow> farm \<Rightarrow> farm option" where
  "go_down d i f = do {
     let prev_srv_count = srv_bck (px_of i f) + srv_act (px_of i f);
     f \<leftarrow> drop_load True i (on_server i (\<lambda>s. s\<lparr>last_change := now_sec d, state := SRV_ST_STOPPED\<rparr>) f);
     let f = (if prev_srv_count \<noteq> 0 \<and> no_server i f then set_backend_down d i f else f);
     Some (on_info i (\<lambda>s. s\<lparr>down_trans := down_trans s + 1\<rparr>) f)
   }"

definition enter_drain :: "date \<Rightarrow> nat \<Rightarrow> farm \<Rightarrow> farm option" where
  "enter_drain d i f = do {
     let prev_srv_count = srv_bck (px_of i f) + srv_act (px_of i f);
     f \<leftarrow> drop_load False i (on_server i (\<lambda>s. s\<lparr>last_change := now_sec d\<rparr>) f);
     Some (if prev_srv_count \<noteq> 0 \<and> no_server i f then set_backend_down d i f else f)
   }"

definition backend_back :: "date \<Rightarrow> nat \<Rightarrow> farm \<Rightarrow> farm" where
  "backend_back d i f =
    (if no_server i f
     then on_px i (\<lambda>p. p\<lparr>px_down_time := (if px_last_change p < now_sec d then px_down_time p + (now_sec d - px_last_change p)
                                       else px_down_time p), px_last_change := now_sec d\<rparr>) f
     else f)"

definition count_down_time :: "date \<Rightarrow> nat \<Rightarrow> farm \<Rightarrow> farm" where
  "count_down_time d i f =
    (let c = last_change (sv i f)
     in if c < now_sec d then on_info i (\<lambda>s. s\<lparr>down_time := down_time s + (now_sec d - c)\<rparr>) f else f)"

text \<open>The task that raises the weight of a starting server; \<open>task_schedule\<close> leaves a task that is about to run.\<close>

definition warm_delay :: "server \<Rightarrow> u32" where
  "warm_delay s = word_of_int (max 1000 (slowstart s div 20))"

definition schedule_warmup :: "u32 \<Rightarrow> srv_info \<Rightarrow> srv_info" where
  "schedule_warmup when s =
    (if warm_in_rq s then s
     else s\<lparr>warm_expire := (if warm_expire s \<noteq> 0 then tick_first when (warm_expire s) else when)\<rparr>)"

definition start_server :: "date \<Rightarrow> nat \<Rightarrow> farm \<Rightarrow> farm" where
  "start_server d i f =
    (let f = on_server i (\<lambda>s. s\<lparr>state := SRV_ST_STARTING\<rparr>) f
     in if slowstart (sv i f) > 0
        then on_info i (schedule_warmup (tick_add (now_ms d) (warm_delay (sv i f)))) f
        else on_server i (\<lambda>s. s\<lparr>state := SRV_ST_RUNNING\<rparr>) f)"

text \<open>The end of a move to a state that may take connections.\<close>

definition take_load :: "date \<Rightarrow> nat \<Rightarrow> farm \<Rightarrow> farm option" where
  "take_load d i f =
    (let f = server_recalc_eweight d i f;
         f = (if onmarkedup_shutdown (info_of i f) \<and> \<not> is_backup (sv i f) \<and> eweight (sv i f) \<noteq> 0
              then srv_shutdown_backup_sessions i SN_ERR_UP f else f)
     in in_backend i (pendconn_grab_from_px (now_sec d) (pos_of i f)) f)"

subsection \<open>Moves of one server\<close>

text \<open>Each returns whether the servers that track this one must follow.\<close>

definition stop_one :: "date \<Rightarrow> nat \<Rightarrow> farm \<Rightarrow> (bool \<times> farm) option" where
  "stop_one d i f =
    (if in_maint (sv i f) \<or> state (sv i f) = SRV_ST_STOPPED then Some (False, f)
     else map_option (Pair True) (go_down d i f))"

definition run_one :: "date \<Rightarrow> nat \<Rightarrow> farm \<Rightarrow> (bool \<times> farm) option" where
  "run_one d i f =
    (if in_maint (sv i f) \<or> state (sv i f) = SRV_ST_STARTING \<or> state (sv i f) = SRV_ST_RUNNING then Some (False, f)
     else let f = backend_back d i f;
              f = (if state (sv i f) = SRV_ST_STOPPED then count_down_time d i f else f);
              f = start_server d i (on_server i (\<lambda>s. s\<lparr>last_change := now_sec d\<rparr>) f)
          in map_option (Pair True) (take_load d i f))"

definition stopping_one :: "date \<Rightarrow> nat \<Rightarrow> farm \<Rightarrow> (bool \<times> farm) option" where
  "stopping_one d i f =
    (if in_maint (sv i f) \<or> state (sv i f) = SRV_ST_STOPPING then Some (False, f)
     else do {
       f \<leftarrow> drop_load False i (on_server i (\<lambda>s. s\<lparr>last_change := now_sec d, state := SRV_ST_STOPPING\<rparr>) f);
       Some (True, if no_server i f then set_backend_down d i f else f)
     })"

definition pause_checks :: "srv_info \<Rightarrow> srv_info" where
  "pause_checks s = (if has_st (chk_health s) CHK_ST_ENABLED
     then s\<lparr>chk_health := (chk_health s)\<lparr>chk_state := chk_state (chk_health s) OR CHK_ST_PAUSED, health := 0\<rparr>\<rparr> else s)"

definition resume_checks :: "srv_info \<Rightarrow> srv_info" where
  "resume_checks s = (if has_st (chk_health s) CHK_ST_ENABLED
     then s\<lparr>chk_health := (chk_health s)\<lparr>chk_state := chk_state (chk_health s) AND NOT CHK_ST_PAUSED,
                                          health := rise (chk_health s)\<rparr>\<rparr> else s)"

definition passes :: "check \<Rightarrow> bool" where
  "passes c \<longleftrightarrow> \<not> has_st c CHK_ST_ENABLED \<or> health c \<ge> rise c"

text \<open>The two flags of a mode, forced and inherited.\<close>

definition both_flags :: "byte \<Rightarrow> byte \<Rightarrow> bool" where
  "both_flags mode adm \<longleftrightarrow> mode AND SRV_ADMF_MAINT \<noteq> 0 \<and> adm AND SRV_ADMF_MAINT \<noteq> 0
     \<or> mode AND SRV_ADMF_DRAIN \<noteq> 0 \<and> adm AND SRV_ADMF_DRAIN \<noteq> 0"

definition set_flag_one :: "date \<Rightarrow> byte \<Rightarrow> nat \<Rightarrow> farm \<Rightarrow> (bool \<times> farm) option" where
  "set_flag_one d mode i f =
    (if mode = 0 \<or> admin (sv i f) AND mode \<noteq> 0 then Some (False, f)
     else let f = on_server i (\<lambda>s. s\<lparr>admin := admin s OR mode\<rparr>) f
          in if both_flags mode (admin (sv i f) AND NOT mode) then Some (False, f)
             else do {
               f \<leftarrow> (if mode AND SRV_ADMF_MAINT \<noteq> 0
                    then let f = on_info i pause_checks f
                         in if state (sv i f) = SRV_ST_STOPPED then Some f
                            else go_down d i (on_info i (on_check Health (\<lambda>c. c\<lparr>health := 0\<rparr>)) f)
                    else Some f);
               f \<leftarrow> (if mode AND SRV_ADMF_DRAIN \<noteq> 0 \<and> \<not> in_maint (sv i f) then enter_drain d i f else Some f);
               Some (True, f)
             })"

definition up_again :: "nat \<Rightarrow> farm \<Rightarrow> bool" where
  "up_again i f \<longleftrightarrow> (case track (sv i f) of None \<Rightarrow> True | Some t \<Rightarrow> state (sv t f) \<noteq> SRV_ST_STOPPED)
     \<and> passes (chk_agent (info_of i f)) \<and> passes (chk_health (info_of i f))"

definition tracks_stopping :: "nat \<Rightarrow> farm \<Rightarrow> bool" where
  "tracks_stopping i f \<longleftrightarrow> (case track (sv i f) of None \<Rightarrow> False | Some t \<Rightarrow> state (sv t f) = SRV_ST_STOPPING)"

definition leave_maint :: "date \<Rightarrow> nat \<Rightarrow> farm \<Rightarrow> farm option" where
  "leave_maint d i f =
    (let f = on_info i resume_checks f
     in if up_again i f
        then let f = on_server i (\<lambda>s. s\<lparr>last_change := now_sec d\<rparr>) (count_down_time d i (backend_back d i f));
                 f = (if tracks_stopping i f then on_server i (\<lambda>s. s\<lparr>state := SRV_ST_STOPPING\<rparr>) f else start_server d i f)
             in take_load d i f
        else Some f)"

definition leave_drain :: "date \<Rightarrow> nat \<Rightarrow> farm \<Rightarrow> farm" where
  "leave_drain d i f =
    server_recalc_eweight d i (on_server i (\<lambda>s. s\<lparr>last_change := now_sec d\<rparr>) (count_down_time d i (backend_back d i f)))"

definition clr_flag_one :: "date \<Rightarrow> byte \<Rightarrow> nat \<Rightarrow> farm \<Rightarrow> (bool \<times> farm) option" where
  "clr_flag_one d mode i f =
    (if mode = 0 \<or> admin (sv i f) AND mode = 0 then Some (False, f)
     else let f = on_server i (\<lambda>s. s\<lparr>admin := admin s AND NOT mode\<rparr>) f; go = \<not> both_flags mode (admin (sv i f))
          in map_option (Pair go)
               (if in_maint (sv i f) then Some f
                else if mode AND SRV_ADMF_MAINT \<noteq> 0 then leave_maint d i f
                else if mode AND SRV_ADMF_DRAIN \<noteq> 0 \<and> in_drain (sv i f) then Some f
                else if mode AND SRV_ADMF_DRAIN \<noteq> 0 then Some (leave_drain d i f) else Some f))"

subsection \<open>Moves of a server and of those that track it\<close>

fun each :: "(nat \<Rightarrow> farm \<Rightarrow> farm option) \<Rightarrow> nat list \<Rightarrow> farm \<Rightarrow> farm option" where
  "each g [] f = Some f"
| "each g (i # is) f = Option.bind (g i f) (each g is)"

text \<open>The recursion of the code, \<open>n\<close> levels deep at most; a level deeper is \<open>None\<close>.\<close>

primrec propagate :: "nat \<Rightarrow> (nat \<Rightarrow> farm \<Rightarrow> (bool \<times> farm) option) \<Rightarrow> (nat \<Rightarrow> farm \<Rightarrow> (bool \<times> farm) option) \<Rightarrow>
    nat \<Rightarrow> farm \<Rightarrow> farm option" where
  "propagate 0 move inherited i f = None"
| "propagate (Suc n) move inherited i f = do {
     (go, f) \<leftarrow> move i f;
     if go then each (propagate n inherited inherited) (trackers (info_of i f)) f else Some f
   }"

definition levels :: "farm \<Rightarrow> nat" where
  "levels f = length (names f) + 2"

definition srv_set_stopped :: "date \<Rightarrow> nat \<Rightarrow> farm \<Rightarrow> farm option" where
  "srv_set_stopped d i f = propagate (levels f) (stop_one d) (stop_one d) i f"

definition srv_set_running :: "date \<Rightarrow> nat \<Rightarrow> farm \<Rightarrow> farm option" where
  "srv_set_running d i f = propagate (levels f) (run_one d) (run_one d) i f"

definition srv_set_stopping :: "date \<Rightarrow> nat \<Rightarrow> farm \<Rightarrow> farm option" where
  "srv_set_stopping d i f = propagate (levels f) (stopping_one d) (stopping_one d) i f"

definition inherited_flag :: "byte \<Rightarrow> byte" where
  "inherited_flag mode = (if mode AND SRV_ADMF_MAINT \<noteq> 0 then SRV_ADMF_IMAINT
     else if mode AND SRV_ADMF_DRAIN \<noteq> 0 then SRV_ADMF_IDRAIN else mode)"

definition srv_set_admin_flag :: "date \<Rightarrow> nat \<Rightarrow> byte \<Rightarrow> farm \<Rightarrow> farm option" where
  "srv_set_admin_flag d i mode f = propagate (levels f) (set_flag_one d mode) (set_flag_one d (inherited_flag mode)) i f"

definition srv_clr_admin_flag :: "date \<Rightarrow> nat \<Rightarrow> byte \<Rightarrow> farm \<Rightarrow> farm option" where
  "srv_clr_admin_flag d i mode f = propagate (levels f) (clr_flag_one d mode) (clr_flag_one d (inherited_flag mode)) i f"

definition srv_adm_set_maint :: "date \<Rightarrow> nat \<Rightarrow> farm \<Rightarrow> farm option" where
  "srv_adm_set_maint d i f = Option.bind (srv_set_admin_flag d i SRV_ADMF_FMAINT f) (srv_clr_admin_flag d i SRV_ADMF_FDRAIN)"

definition srv_adm_set_drain :: "date \<Rightarrow> nat \<Rightarrow> farm \<Rightarrow> farm option" where
  "srv_adm_set_drain d i f = Option.bind (srv_set_admin_flag d i SRV_ADMF_FDRAIN f) (srv_clr_admin_flag d i SRV_ADMF_FMAINT)"

definition srv_adm_set_ready :: "date \<Rightarrow> nat \<Rightarrow> farm \<Rightarrow> farm option" where
  "srv_adm_set_ready d i f = Option.bind (srv_clr_admin_flag d i SRV_ADMF_FDRAIN f) (srv_clr_admin_flag d i SRV_ADMF_FMAINT)"

subsection \<open>Checks (src/checks.c)\<close>

definition check_notify_failure :: "date \<Rightarrow> which \<Rightarrow> nat \<Rightarrow> farm \<Rightarrow> farm option" where
  "check_notify_failure d w i f =
    (let c = check_of w (info_of i f)
     in if has_st c CHK_ST_AGENT \<and> status c \<noteq> HCHK_STATUS_L7STS then Some f
        else if health c > 0 then Some f else srv_set_stopped d i f)"

definition others_agree :: "nat \<Rightarrow> farm \<Rightarrow> bool" where
  "others_agree i f \<longleftrightarrow> \<not> in_maint (sv i f)
     \<and> (case track (sv i f) of None \<Rightarrow> True | Some t \<Rightarrow> state (sv t f) \<noteq> SRV_ST_STOPPED)
     \<and> passes (chk_health (info_of i f)) \<and> passes (chk_agent (info_of i f))"

definition check_notify_success :: "date \<Rightarrow> which \<Rightarrow> nat \<Rightarrow> farm \<Rightarrow> farm option" where
  "check_notify_success d w i f =
    (if \<not> others_agree i f then Some f
     else if has_st (check_of w (info_of i f)) CHK_ST_AGENT \<and> state (sv i f) = SRV_ST_STOPPING then Some f
     else srv_set_running d i f)"

definition check_notify_stopping :: "date \<Rightarrow> which \<Rightarrow> nat \<Rightarrow> farm \<Rightarrow> farm option" where
  "check_notify_stopping d w i f =
    (if \<not> others_agree i f \<or> has_st (check_of w (info_of i f)) CHK_ST_AGENT then Some f else srv_set_stopping d i f)"

text \<open>A check of \<open>process_chk\<close> is complete: its result goes to the server.\<close>

definition check_complete :: "date \<Rightarrow> which \<Rightarrow> nat \<Rightarrow> farm \<Rightarrow> farm option" where
  "check_complete d w i f = map_option (on_info i (on_check w (\<lambda>c. c\<lparr>chk_state := chk_state c AND NOT CHK_ST_INPROGRESS\<rparr>)))
    (case result (check_of w (info_of i f)) of
       CHK_RES_FAILED \<Rightarrow> check_notify_failure d w i f
     | CHK_RES_CONDPASS \<Rightarrow> check_notify_stopping d w i f
     | CHK_RES_PASSED \<Rightarrow> check_notify_success d w i f
     | _ \<Rightarrow> Some f)"

definition simulate_failure :: "timeval \<Rightarrow> date \<Rightarrow> nat \<Rightarrow> farm \<Rightarrow> farm option" where
  "simulate_failure now d i f =
    check_notify_failure d Health i (on_info i (set_server_check_status now Health HCHK_STATUS_HANA) f)"

definition hasten_check :: "u32 \<Rightarrow> check \<Rightarrow> check" where
  "hasten_check now c =
    (if fastinter c \<noteq> 0
     then let expire = tick_add now (word_of_int (fastinter c))
          in if expire <s chk_expire c then c\<lparr>chk_expire := expire\<rparr> else c
     else c)"

definition too_many_errors :: "timeval \<Rightarrow> date \<Rightarrow> nat \<Rightarrow> farm \<Rightarrow> farm option" where
  "too_many_errors now d i f =
    (case onerror (info_of i f) of
       HANA_ONERR_SUDDTH \<Rightarrow> simulate_failure now d i (on_info i (on_check Health (\<lambda>c.
           if health c > rise c then c\<lparr>health := rise c + 1\<rparr> else c)) f)
     | HANA_ONERR_FAILCHK \<Rightarrow> simulate_failure now d i f
     | HANA_ONERR_MARKDWN \<Rightarrow> simulate_failure now d i (on_info i (on_check Health (\<lambda>c. c\<lparr>health := rise c\<rparr>)) f)
     | _ \<Rightarrow> Some f)"

definition health_adjust :: "timeval \<Rightarrow> date \<Rightarrow> nat \<Rightarrow> hana_status \<Rightarrow> farm \<Rightarrow> farm option" where
  "health_adjust now d i st f =
    (let s = info_of i f; lr = analyze_statuses st (observe s)
     in if observe s = HANA_OBS_NONE \<or> \<not> chk_task (chk_health s) then Some f
        else if lr = 2 then Some (on_info i (\<lambda>s. s\<lparr>consecutive_errors := 0\<rparr>) f)
        else if lr \<noteq> 1 then Some f
        else let f = on_info i (\<lambda>s. s\<lparr>consecutive_errors := consecutive_errors s + 1\<rparr>) f
             in if consecutive_errors (info_of i f) < consecutive_errors_limit (info_of i f) then Some f
                else map_option (on_info i (\<lambda>s. on_check Health (hasten_check (now_ms d))
                       (s\<lparr>consecutive_errors := 0, failed_hana := failed_hana s + 1\<rparr>)))
                     (too_many_errors now d i f))"

text \<open>The task of a starting server; the result is its next date, 0 for none.\<close>

definition server_warmup :: "date \<Rightarrow> nat \<Rightarrow> farm \<Rightarrow> (u32 \<times> farm) option" where
  "server_warmup d i f =
    (if in_maint (sv i f) \<or> state (sv i f) \<noteq> SRV_ST_STARTING then Some (0, f)
     else do {
       f \<leftarrow> in_backend i (pendconn_grab_from_px (now_sec d) (pos_of i f)) (server_recalc_eweight d i f);
       Some (if state (sv i f) = SRV_ST_STARTING then tick_add (now_ms d) (warm_delay (sv i f)) else 0, f)
     })"

subsection \<open>Requests to change a weight\<close>

text \<open>The \<open>strtol\<close> of the C library in base 10 on 64 bits: the number and the characters after it,
  \<open>None\<close> when there is no number.\<close>

fun strtol_digits :: "int \<Rightarrow> byte list \<Rightarrow> int \<times> byte list" where
  "strtol_digits n [] = (n, [])"
| "strtol_digits n (c # cs) =
    (if 48 \<le> c \<and> c \<le> 57 then strtol_digits (n * 10 + (uint c - 48)) cs else (n, c # cs))"

definition c_isspace :: "byte \<Rightarrow> bool" where
  "c_isspace c \<longleftrightarrow> c = 32 \<or> 9 \<le> c \<and> c \<le> 13"

definition strtol :: "byte list \<Rightarrow> (int \<times> byte list) option" where
  "strtol str =
    (let s = dropWhile c_isspace str;
         (neg, s) = (case s of [] \<Rightarrow> (False, s) | c # cs \<Rightarrow> if c = 45 then (True, cs) else if c = 43 then (False, cs) else (False, s))
     in case s of [] \<Rightarrow> None
        | c # _ \<Rightarrow> if 48 \<le> c \<and> c \<le> 57
            then let (n, rest) = strtol_digits 0 s
                 in Some (max (- (2 ^ 63)) (min (2 ^ 63 - 1) (if neg then - n else n)), rest)
            else None)"

datatype weight_error = No_weight | Empty_weight | Negative_weight | Weight_range | Trailing_garbage | Static_algorithm

definition known_weight :: "bool \<Rightarrow> int \<Rightarrow> int \<Rightarrow> weight_error + int" where
  "known_weight dyn iw w = (if w \<noteq> 0 \<and> w \<noteq> iw \<and> \<not> dyn then Inl Static_algorithm else Inr w)"

definition weight_request :: "bool \<Rightarrow> int \<Rightarrow> byte list \<Rightarrow> weight_error + int" where
  "weight_request dyn iw str =
    (if str = [] then Inl No_weight
     else case strtol str of None \<Rightarrow> Inl Empty_weight
     | Some (w, rest) \<Rightarrow>
         if rest = [37] then
           (if w < 0 then Inl Negative_weight
            else known_weight dyn iw (min 256 (c_div (iw * min 25600 w) 100)))
         else if w < 0 \<or> w > 256 then Inl Weight_range
         else if rest \<noteq> [] then Inl Trailing_garbage
         else known_weight dyn iw w)"

definition server_parse_weight_change_request :: "date \<Rightarrow> nat \<Rightarrow> byte list \<Rightarrow> farm \<Rightarrow> weight_error option \<times> farm" where
  "server_parse_weight_change_request d i str f =
    (case weight_request (prop_dyn (px_info_of i f)) (iweight (info_of i f)) str of
       Inl e \<Rightarrow> (Some e, f)
     | Inr w \<Rightarrow> (None, server_recalc_eweight d i (on_server i (\<lambda>s. s\<lparr>uweight := w\<rparr>) f)))"

end
