(* ===== verification/HA_Tracking.thy ===== *)
theory HA_Tracking
  imports HA_Server_State
begin

section \<open>Which server tracks which (src/cfgparse.c, src/proxy.c)\<close>

text \<open>
  At the end of the parsing of the configuration each server whose line has the keyword \<open>track\<close> is
  bound to the server it names.  The servers are known by a number; a proxy lists its servers.  The
  result of a binding is an error or the new configuration, and \<open>None\<close> when the search for a loop
  never ends.
\<close>

subsection \<open>Configurations\<close>

record cfg_server =
  srv_id :: "byte list"
  trackit :: "byte list option"
  tracked :: "nat option"
  tracked_by :: "nat list"
  checked :: bool
  admin_mode :: byte
  srv_st :: srv_state
  check_health :: int
  agent_health :: int

record cfg_proxy =
  px_id :: "byte list"
  uuid :: int
  backend_cap :: bool
  disable404 :: bool
  px_srvs :: "nat list"

record config =
  cfg_pxs :: "cfg_proxy list"
  cfg_srvs :: "cfg_server list"

datatype track_error = No_proxy | No_tracked_server | Not_checked | Loops_back | Disable404_differs

text \<open>The name of a proxy before the last slash, if there is one.\<close>

definition split_name :: "byte list \<Rightarrow> byte list option \<times> byte list" where
  "split_name s = (if 47 \<in> set s
     then (Some (rev (tl (dropWhile (\<lambda>c. c \<noteq> 47) (rev s)))), rev (takeWhile (\<lambda>c. c \<noteq> 47) (rev s)))
     else (None, s))"

text \<open>The only element with a property; several are refused.\<close>

definition unique :: "('a \<Rightarrow> bool) \<Rightarrow> 'a list \<Rightarrow> 'a option" where
  "unique P xs = (case filter P xs of [x] \<Rightarrow> Some x | _ \<Rightarrow> None)"

definition c_atoi :: "byte list \<Rightarrow> int" where
  "c_atoi s = (case strtol s of None \<Rightarrow> 0 | Some (n, _) \<Rightarrow> sint (word_of_int n :: 32 word))"

definition findproxy :: "config \<Rightarrow> byte list \<Rightarrow> nat option" where
  "findproxy c name =
    (let named = (\<lambda>p. case name of
           [] \<Rightarrow> px_id p = []
         | x # pid \<Rightarrow> if x = 35 then uuid p = c_atoi pid else px_id p = name)
     in unique (\<lambda>k. backend_cap (cfg_pxs c ! k) \<and> named (cfg_pxs c ! k)) [0..<length (cfg_pxs c)])"

definition findserver :: "config \<Rightarrow> nat \<Rightarrow> byte list \<Rightarrow> nat option" where
  "findserver c k name = unique (\<lambda>i. srv_id (cfg_srvs c ! i) = name) (px_srvs (cfg_pxs c ! k))"

subsection \<open>Binding a server to the one it names\<close>

text \<open>The loop along the servers tracked from \<open>t\<close>: it stops at the end of the chain or at \<open>new\<close>.\<close>

partial_function (option) find_loop :: "config \<Rightarrow> nat \<Rightarrow> nat option \<Rightarrow> nat option option" where
  "find_loop c new t =
    (case t of None \<Rightarrow> Some None
     | Some i \<Rightarrow> if i = new then Some (Some i) else find_loop c new (tracked (cfg_srvs c ! i)))"

definition on_cfg :: "nat \<Rightarrow> (cfg_server \<Rightarrow> cfg_server) \<Rightarrow> config \<Rightarrow> config" where
  "on_cfg i g c = c\<lparr>cfg_srvs := (cfg_srvs c)[i := g (cfg_srvs c ! i)]\<rparr>"

definition inherit_mode :: "cfg_server \<Rightarrow> cfg_server \<Rightarrow> cfg_server" where
  "inherit_mode t s = (if admin_mode t AND SRV_ADMF_MAINT \<noteq> 0
     then s\<lparr>admin_mode := admin_mode s OR SRV_ADMF_IMAINT, srv_st := SRV_ST_STOPPED, check_health := 0, agent_health := 0\<rparr>
     else s)"

definition bind_track :: "nat \<Rightarrow> nat \<Rightarrow> config \<Rightarrow> config" where
  "bind_track new t c =
    (let c = on_cfg new (\<lambda>s. (inherit_mode (cfg_srvs c ! t) s)\<lparr>tracked := Some t\<rparr>) c;
         c = on_cfg t (\<lambda>s. s\<lparr>tracked_by := new # tracked_by s\<rparr>) c
     in on_cfg new (\<lambda>s. s\<lparr>trackit := None\<rparr>) c)"

definition track_target :: "nat \<Rightarrow> byte list \<Rightarrow> config \<Rightarrow> track_error + nat \<times> nat" where
  "track_target k name c =
    (let (pname, sname) = split_name name
     in case (case pname of None \<Rightarrow> Some k | Some p \<Rightarrow> findproxy c p) of
          None \<Rightarrow> Inl No_proxy
        | Some px \<Rightarrow> (case findserver c px sname of None \<Rightarrow> Inl No_tracked_server | Some t \<Rightarrow> Inr (px, t)))"

definition resolve_track :: "nat \<Rightarrow> nat \<Rightarrow> config \<Rightarrow> (track_error option \<times> config) option" where
  "resolve_track k new c =
    (case trackit (cfg_srvs c ! new) of None \<Rightarrow> Some (None, c)
     | Some name \<Rightarrow> (case track_target k name c of Inl e \<Rightarrow> Some (Some e, c)
        | Inr (px, t) \<Rightarrow>
            (let s = cfg_srvs c ! t
             in if \<not> checked s \<and> tracked s = None \<and> trackit s = None then Some (Some Not_checked, c)
                else do {
                  loop \<leftarrow> find_loop c new (tracked s);
                  Some (if loop \<noteq> None then (Some Loops_back, c)
                        else if k \<noteq> px \<and> disable404 (cfg_pxs c ! k) \<noteq> disable404 (cfg_pxs c ! px) then (Some Disable404_differs, c)
                        else (None, bind_track new t c))
                })))"

text \<open>All the servers of all the proxies; the errors are counted.\<close>

fun resolve_servers :: "nat \<Rightarrow> nat list \<Rightarrow> nat \<times> config \<Rightarrow> (nat \<times> config) option" where
  "resolve_servers k [] (n, c) = Some (n, c)"
| "resolve_servers k (i # is) (n, c) = do {
     (e, c) \<leftarrow> resolve_track k i c;
     resolve_servers k is (if e = None then n else n + 1, c)
   }"

fun resolve_proxies :: "nat list \<Rightarrow> nat \<times> config \<Rightarrow> (nat \<times> config) option" where
  "resolve_proxies [] r = Some r"
| "resolve_proxies (k # ks) (n, c) = Option.bind (resolve_servers k (px_srvs (cfg_pxs c ! k)) (n, c)) (resolve_proxies ks)"

definition resolve_config :: "config \<Rightarrow> (nat \<times> config) option" where
  "resolve_config c = resolve_proxies [0..<length (cfg_pxs c)] (0, c)"

declare find_loop.simps [code]

subsection \<open>Chains of servers\<close>

definition links :: "config \<Rightarrow> (nat \<times> nat) set" where
  "links c = {(i, t). i < length (cfg_srvs c) \<and> tracked (cfg_srvs c ! i) = Some t}"

definition cfg_ok :: "config \<Rightarrow> bool" where
  "cfg_ok c \<longleftrightarrow> acyclic (links c) \<and> links c \<subseteq> {..<length (cfg_srvs c)} \<times> {..<length (cfg_srvs c)}
    \<and> (\<forall>i < length (cfg_srvs c). \<forall>t < length (cfg_srvs c). i \<in> set (tracked_by (cfg_srvs c ! t)) \<longleftrightarrow> (i, t) \<in> links c)
    \<and> (\<forall>s \<in> set (cfg_srvs c). trackit s \<noteq> None \<longrightarrow> tracked s = None)
    \<and> (\<forall>p \<in> set (cfg_pxs c). \<forall>i \<in> set (px_srvs p). i < length (cfg_srvs c))"

text \<open>No server names itself.\<close>

definition no_self :: "config \<Rightarrow> bool" where
  "no_self c \<longleftrightarrow> (\<forall>k < length (cfg_pxs c). \<forall>i \<in> set (px_srvs (cfg_pxs c ! k)). \<forall>name px t.
     trackit (cfg_srvs c ! i) = Some name \<longrightarrow> track_target k name c = Inr (px, t) \<longrightarrow> t \<noteq> i)"

text \<open>Along a chain without loop the search ends, and finds a server exactly when it is in the chain.\<close>

lemma find_loop_chain:
  assumes "cfg_ok c"
  shows "t < length (cfg_srvs c) \<Longrightarrow> find_loop c new (Some t) = Some (if (t, new) \<in> (links c)\<^sup>* then Some new else None)"
proof -
  have fin: "finite (links c)" using assms finite_subset by (fastforce simp: cfg_ok_def)
  have "wf ((links c)\<inverse>)" using finite_acyclic_wf_converse [OF fin] assms by (simp add: cfg_ok_def)
  then show "t < length (cfg_srvs c) \<Longrightarrow> ?thesis"
  proof (induction t rule: wf_induct_rule)
    case (less t)
    show ?case
    proof (cases "t = new")
      case True
      then show ?thesis by (simp add: find_loop.simps)
    next
      case False
      show ?thesis
      proof (cases "tracked (cfg_srvs c ! t)")
        case None
        then have "(t, new) \<notin> (links c)\<^sup>*" using False by (auto simp: links_def elim: converse_rtranclE)
        then show ?thesis using None False by (simp add: find_loop.simps)
      next
        case (Some u)
        then have l: "(t, u) \<in> links c" using less.prems by (simp add: links_def)
        then have "u < length (cfg_srvs c)" using assms by (auto simp: cfg_ok_def)
        moreover have "(t, new) \<in> (links c)\<^sup>* \<longleftrightarrow> (u, new) \<in> (links c)\<^sup>*"
          using l Some False by (auto simp: links_def elim: converse_rtranclE intro: converse_rtrancl_into_rtrancl)
        ultimately show ?thesis using less.IH [of u] l Some False by (subst find_loop.simps) simp
      qed
    qed
  qed
qed

lemma bind_frame:
  assumes "new < length (cfg_srvs c)" "t < length (cfg_srvs c)" "new \<noteq> t"
  shows "cfg_pxs (bind_track new t c) = cfg_pxs c" "length (cfg_srvs (bind_track new t c)) = length (cfg_srvs c)"
    "srv_id (cfg_srvs (bind_track new t c) ! i) = srv_id (cfg_srvs c ! i)"
    "tracked (cfg_srvs (bind_track new t c) ! i) = (if i = new then Some t else tracked (cfg_srvs c ! i))"
    "trackit (cfg_srvs (bind_track new t c) ! i) = (if i = new then None else trackit (cfg_srvs c ! i))"
    "tracked_by (cfg_srvs (bind_track new t c) ! i) = (if i = t then new # tracked_by (cfg_srvs c ! i) else tracked_by (cfg_srvs c ! i))"
  using assms by (auto simp: bind_track_def on_cfg_def inherit_mode_def Let_def nth_list_update)

lemma track_target_same:
  assumes "cfg_pxs c' = cfg_pxs c" "\<And>i. srv_id (cfg_srvs c' ! i) = srv_id (cfg_srvs c ! i)"
  shows "track_target k name c' = track_target k name c"
proof -
  have "findproxy c' = findproxy c" "findserver c' = findserver c"
    by (simp_all add: fun_eq_iff findproxy_def findserver_def assms)
  then show ?thesis by (auto simp: track_target_def split: prod.split option.split)
qed

lemma unique_member:
  assumes "unique P xs = Some x"
  shows "x \<in> set xs \<and> P x"
proof -
  have "filter P xs = [x]" using assms by (auto simp: unique_def split: list.splits)
  from arg_cong [OF this, of set] show ?thesis by auto
qed

lemma bind_links:
  assumes "new < length (cfg_srvs c)" "t < length (cfg_srvs c)" "new \<noteq> t" "tracked (cfg_srvs c ! new) = None"
  shows "links (bind_track new t c) = insert (new, t) (links c)"
  using assms by (auto simp: links_def bind_frame split: if_splits)

lemma bind_ok:
  assumes "cfg_ok c" "new < length (cfg_srvs c)" "t < length (cfg_srvs c)" "new \<noteq> t"
    "tracked (cfg_srvs c ! new) = None" "(t, new) \<notin> (links c)\<^sup>*"
  shows "cfg_ok (bind_track new t c)"
proof -
  note l = bind_links [OF assms(2-5)] and f = bind_frame [OF assms(2-4)]
  have "acyclic (links (bind_track new t c))" using assms(1,6) by (simp add: l acyclic_insert cfg_ok_def)
  moreover have "trackit s \<noteq> None \<longrightarrow> tracked s = None" if "s \<in> set (cfg_srvs (bind_track new t c))" for s
    using that assms(1) f(2,4,5) unfolding cfg_ok_def in_set_conv_nth by fastforce
  ultimately show ?thesis using assms(1-4) by (auto simp: cfg_ok_def l f)
qed

lemma target_member:
  assumes "cfg_ok c" "k < length (cfg_pxs c)" "track_target k name c = Inr (px, t)"
  shows "t < length (cfg_srvs c)"
proof -
  have "px < length (cfg_pxs c)"
    using assms(2,3) unique_member by (fastforce simp: track_target_def findproxy_def Let_def split: prod.splits option.splits)
  moreover have "t \<in> set (px_srvs (cfg_pxs c ! px))"
    using assms(3) unique_member by (fastforce simp: track_target_def findserver_def split: prod.splits option.splits)
  ultimately show ?thesis using assms(1) by (auto simp: cfg_ok_def)
qed

lemma resolve_ok:
  assumes "cfg_ok c" "no_self c" "k < length (cfg_pxs c)" "new \<in> set (px_srvs (cfg_pxs c ! k))"
  shows "\<exists>e c'. resolve_track k new c = Some (e, c') \<and> cfg_ok c' \<and> no_self c' \<and> cfg_pxs c' = cfg_pxs c
    \<and> links c \<subseteq> links c' \<and> (e = None \<longrightarrow> trackit (cfg_srvs c' ! new) = None)"
proof (cases "trackit (cfg_srvs c ! new)")
  case None
  then show ?thesis using assms by (auto simp: resolve_track_def)
next
  case name: (Some name)
  show ?thesis
  proof (cases "track_target k name c")
    case (Inl e)
    then show ?thesis using assms name by (auto simp: resolve_track_def)
  next
    case (Inr r)
    obtain px t where r: "track_target k name c = Inr (px, t)" using Inr by (cases r) simp
    have new: "new < length (cfg_srvs c)" using assms(1,3,4) by (auto simp: cfg_ok_def)
    have t: "t < length (cfg_srvs c)" "new \<noteq> t"
      using target_member [OF assms(1,3) r] assms(2-4) name r unfolding no_self_def by blast+
    have free: "tracked (cfg_srvs c ! new) = None" using assms(1) name new by (auto simp: cfg_ok_def)
    let ?u = "tracked (cfg_srvs c ! t)"
    have "find_loop c new (Some t) = find_loop c new ?u" using t(2) by (subst find_loop.simps) simp
    then have loop: "find_loop c new ?u = Some (if (t, new) \<in> (links c)\<^sup>* then Some new else None)"
      using find_loop_chain [OF assms(1) t(1), of new] by simp
    let ?c = "bind_track new t c"
    note f = bind_frame [OF new t]
    have "cfg_ok ?c \<and> no_self ?c \<and> links c \<subseteq> links ?c" if "(t, new) \<notin> (links c)\<^sup>*"
      using bind_ok [OF assms(1) new t free that] assms(2) track_target_same [of ?c c] bind_links [OF new t free] f
      by (auto simp: no_self_def)
    then show ?thesis using name r loop f assms by (auto simp: resolve_track_def Let_def)
  qed
qed

lemma resolve_servers_ok:
  "cfg_ok c \<Longrightarrow> no_self c \<Longrightarrow> k < length (cfg_pxs c) \<Longrightarrow> set is \<subseteq> set (px_srvs (cfg_pxs c ! k)) \<Longrightarrow>
    \<exists>m c'. resolve_servers k is (n, c) = Some (m, c') \<and> cfg_ok c' \<and> no_self c' \<and> cfg_pxs c' = cfg_pxs c \<and> links c \<subseteq> links c'"
proof (induction "is" arbitrary: n c)
  case (Cons i "is")
  obtain e c1 where r: "resolve_track k i c = Some (e, c1)" "cfg_ok c1" "no_self c1" "cfg_pxs c1 = cfg_pxs c" "links c \<subseteq> links c1"
    using resolve_ok [OF Cons.prems(1-3), of i] Cons.prems(4) by auto
  from Cons.IH [OF r(2,3), of "if e = None then n else n + 1"] show ?case using r Cons.prems(3,4) by auto
qed simp

lemma resolve_proxies_ok:
  "cfg_ok c \<Longrightarrow> no_self c \<Longrightarrow> \<forall>k \<in> set ks. k < length (cfg_pxs c) \<Longrightarrow>
    \<exists>m c'. resolve_proxies ks (n, c) = Some (m, c') \<and> cfg_ok c' \<and> cfg_pxs c' = cfg_pxs c \<and> links c \<subseteq> links c'"
proof (induction ks arbitrary: n c)
  case (Cons k ks)
  obtain m c1 where r: "resolve_servers k (px_srvs (cfg_pxs c ! k)) (n, c) = Some (m, c1)" "cfg_ok c1" "no_self c1"
      "cfg_pxs c1 = cfg_pxs c" "links c \<subseteq> links c1"
    using resolve_servers_ok [OF Cons.prems(1,2), of k "px_srvs (cfg_pxs c ! k)" n] Cons.prems(3) by auto
  from Cons.IH [OF r(2,3), of m] show ?case using r Cons.prems(3) by auto
qed simp

text \<open>C33: When no server names itself, binding the servers of a configuration ends, the servers bound to
  another form chains without loops, and each server lists exactly those that track it.\<close>

theorem tracking_resolved:
  assumes "cfg_ok c" "no_self c"
  shows "\<exists>n c'. resolve_config c = Some (n, c') \<and> acyclic (links c') \<and>
    (\<forall>i < length (cfg_srvs c'). \<forall>t < length (cfg_srvs c'). i \<in> set (tracked_by (cfg_srvs c' ! t)) \<longleftrightarrow> tracked (cfg_srvs c' ! i) = Some t)"
  using resolve_proxies_ok [OF assms, of "[0..<length (cfg_pxs c)]" 0]
  by (auto simp: resolve_config_def cfg_ok_def links_def)

subsection \<open>A server that tracks itself\<close>

text \<open>The search goes round the only server of the chain.\<close>

lemma find_loop_self:
  assumes "tracked (cfg_srvs c ! t) = Some t" "new \<noteq> t"
  shows "find_loop c new (Some t) = None"
proof -
  have "c' = c \<Longrightarrow> m = new \<Longrightarrow> u = Some t \<Longrightarrow> False" if "find_loop c' m u = Some r" for c' m u r
    by (rule find_loop.raw_induct [OF _ that, of "\<lambda>c' m u _. c' = c \<longrightarrow> m = new \<longrightarrow> u = Some t \<longrightarrow> False", rule_format])
       (use assms in \<open>auto split: if_splits\<close>)
  then show ?thesis by (cases "find_loop c new (Some t)") auto
qed

text \<open>C34: The search for a loop starts after the named server.  A server that names itself is accepted, and
  binding another server to it afterwards never ends: the process hangs while it reads the configuration.\<close>

theorem tracking_self_hangs:
  assumes "trackit (cfg_srvs c ! i) = Some name" "track_target k name c = Inr (k, i)" "tracked (cfg_srvs c ! i) = None"
    "i < length (cfg_srvs c)" "trackit (cfg_srvs c ! j) = Some name'" "track_target k name' c = Inr (k, i)" "j \<noteq> i"
  shows "\<exists>c'. resolve_track k i c = Some (None, c') \<and> tracked (cfg_srvs c' ! i) = Some i \<and> resolve_track k j c' = None
    \<and> resolve_servers k (i # j # is) (n, c) = None"
proof -
  let ?c = "bind_track i i c"
  have f: "cfg_pxs ?c = cfg_pxs c" "srv_id (cfg_srvs ?c ! l) = srv_id (cfg_srvs c ! l)" "tracked (cfg_srvs ?c ! i) = Some i"
    "trackit (cfg_srvs ?c ! j) = trackit (cfg_srvs c ! j)" for l
    using assms(4,7) by (auto simp: bind_track_def on_cfg_def inherit_mode_def Let_def nth_list_update)
  have one: "resolve_track k i c = Some (None, ?c)" using assms(1-3) by (simp add: resolve_track_def find_loop.simps)
  have two: "resolve_track k j ?c = None"
    using f assms(5,6,7) track_target_same [of ?c c k name'] find_loop_self [of ?c i j] by (simp add: resolve_track_def)
  show ?thesis using one two f(3) by auto
qed

text \<open>A server bound before the server it tracks has inherited maintenance stays up: with a chain declared
  from its end, the third server does not follow the first one, which is in maintenance.\<close>

lemma chain_reversed:
  assumes "trackit (cfg_srvs c ! i) = Some x" "track_target k x c = Inr (k, j)" "trackit (cfg_srvs c ! j) = Some y"
    "track_target k y c = Inr (k, l)" "tracked (cfg_srvs c ! j) = None" "tracked (cfg_srvs c ! l) = None" "checked (cfg_srvs c ! l)"
    "distinct [i, j, l]" "i < length (cfg_srvs c)" "j < length (cfg_srvs c)" "l < length (cfg_srvs c)"
    "admin_mode (cfg_srvs c ! i) = 0" "admin_mode (cfg_srvs c ! j) = 0" "admin_mode (cfg_srvs c ! l) AND SRV_ADMF_MAINT \<noteq> 0"
  shows "\<exists>c'. resolve_servers k [i, j] (n, c) = Some (n, c') \<and> tracked (cfg_srvs c' ! i) = Some j \<and> tracked (cfg_srvs c' ! j) = Some l
    \<and> admin_mode (cfg_srvs c' ! j) = SRV_ADMF_IMAINT \<and> admin_mode (cfg_srvs c' ! i) = 0"
proof -
  let ?c = "bind_track i j c" and ?d = "bind_track j l (bind_track i j c)"
  have ne: "i \<noteq> j" "j \<noteq> l" "i \<noteq> l" using assms(8) by auto
  have adm: "admin_mode (cfg_srvs ?c ! m) = admin_mode (cfg_srvs c ! m)" "checked (cfg_srvs ?c ! m) = checked (cfg_srvs c ! m)" for m
    using assms(9,10,13) by (auto simp: bind_track_def on_cfg_def inherit_mode_def Let_def nth_list_update)
  note f = bind_frame [OF assms(9,10) ne(1)]
  have one: "resolve_track k i c = Some (None, ?c)" using assms(1-3,5) by (simp add: resolve_track_def find_loop.simps)
  have two: "resolve_track k j ?c = Some (None, ?d)"
    using ne assms(3,4,6,7) f track_target_same [of ?c c k y] adm by (simp add: resolve_track_def find_loop.simps)
  have "admin_mode (cfg_srvs ?d ! j) = admin_mode (cfg_srvs ?c ! j) OR SRV_ADMF_IMAINT" "admin_mode (cfg_srvs ?d ! i) = admin_mode (cfg_srvs ?c ! i)"
    using assms(9-11,14) ne adm [of l] f(2) by (auto simp: bind_track_def [of j] on_cfg_def inherit_mode_def Let_def nth_list_update)
  then show ?thesis using one two adm f ne assms(12,13) bind_frame(4) [of j ?c l] assms(10,11) by auto
qed

subsection \<open>Concrete configurations\<close>

definition cfg_server1 :: "byte \<Rightarrow> byte list option \<Rightarrow> cfg_server" where
  "cfg_server1 x t = \<lparr>srv_id = [x], trackit = t, tracked = None, tracked_by = [], checked = (t = None), admin_mode = 0,
    srv_st = SRV_ST_RUNNING, check_health = 1, agent_health = 0\<rparr>"

text \<open>A backend \<open>p\<close> with servers \<open>a\<close>, \<open>b\<close>, \<open>c\<close>.\<close>

definition config1 :: "byte list option list \<Rightarrow> config" where
  "config1 ts = \<lparr>cfg_pxs = [\<lparr>px_id = [112], uuid = 2, backend_cap = True, disable404 = False, px_srvs = [0, 1, 2]\<rparr>],
    cfg_srvs = map2 cfg_server1 [97, 98, 99] ts\<rparr>"

theorem tracking_resolved_witness:
  "\<exists>n c'. resolve_config (config1 [Some [112, 47, 98], Some [99], None]) = Some (n, c') \<and> acyclic (links c')"
proof -
  let ?c = "config1 [Some [112, 47, 98], Some [99], None]"
  have l: "links ?c = {}" by (auto simp: links_def config1_def cfg_server1_def nth_Cons' split: if_splits)
  have "cfg_ok ?c" unfolding cfg_ok_def l by (auto simp: config1_def cfg_server1_def acyclic_def nth_Cons' split: if_splits)
  moreover have "no_self ?c"
    by (auto simp: no_self_def config1_def cfg_server1_def track_target_def split_name_def findproxy_def findserver_def unique_def
        upt_rec nth_Cons' split: if_splits)
  ultimately show ?thesis using tracking_resolved by blast
qed

theorem tracking_self_hangs_witness:
  "resolve_servers 0 [0, 1, 2] (0, config1 [Some [97], Some [97], None]) = None"
proof -
  let ?c = "config1 [Some [97], Some [97], None]"
  have "trackit (cfg_srvs ?c ! 0) = Some [97]" "track_target 0 [97] ?c = Inr (0, 0)" "tracked (cfg_srvs ?c ! 0) = None"
    "0 < length (cfg_srvs ?c)" "trackit (cfg_srvs ?c ! 1) = Some [97]"
    by (simp_all add: config1_def cfg_server1_def track_target_def split_name_def findserver_def unique_def)
  from tracking_self_hangs [OF this(1-5,2)] show ?thesis by fastforce
qed

end
