(* ===== verification/HA_Server_State_Frame.thy ===== *)
theory HA_Server_State_Frame
  imports HA_Server_State
begin

section \<open>What the moves of servers leave alone\<close>

text \<open>
  The load balancing functions and the queues change neither the state of a server nor its flags, and
  keep the counters of the backend equal to a recount.  The contract of the load balancing functions
  is a locale, interpreted on those of the static map and on the effect that the tree algorithms share.
\<close>

subsection \<open>The part of a server that only its moves change\<close>

definition core :: "server \<Rightarrow> srv_state \<times> byte \<times> int \<times> int \<times> bool \<times> nat option" where
  "core s = (state s, admin s, uweight s, slowstart s, is_backup s, track s)"

lemma core_eq: "core s = core s' \<longleftrightarrow> state s = state s' \<and> admin s = admin s' \<and> uweight s = uweight s'
    \<and> slowstart s = slowstart s' \<and> is_backup s = is_backup s' \<and> track s = track s'"
  by (auto simp: core_def)

definition same_cores :: "proxy \<Rightarrow> proxy \<Rightarrow> bool" where
  "same_cores px qx \<longleftrightarrow> map core (srv qx) = map core (srv px) \<and> wmult qx = wmult px \<and> wdiv qx = wdiv px"

definition keeps :: "proxy \<Rightarrow> proxy \<Rightarrow> bool" where
  "keeps px qx \<longleftrightarrow> same_cores px qx \<and> (backend_ok px \<longrightarrow> backend_ok qx)"

lemma same_cores_refl [simp]: "same_cores px px"
  by (simp add: same_cores_def)

lemma same_cores_trans: "same_cores px qx \<Longrightarrow> same_cores qx rx \<Longrightarrow> same_cores px rx"
  by (simp add: same_cores_def)

lemma keeps_refl [simp]: "keeps px px"
  by (simp add: keeps_def)

lemma keeps_trans: "keeps px qx \<Longrightarrow> keeps qx rx \<Longrightarrow> keeps px rx"
  using same_cores_trans by (auto simp: keeps_def)

lemma same_cores_length: "same_cores px qx \<Longrightarrow> length (srv qx) = length (srv px)"
  unfolding same_cores_def by (metis length_map)

lemma same_cores_nth:
  assumes "same_cores px qx" "k < length (srv px)"
  shows "core (srv qx ! k) = core (srv px ! k)"
  using assms same_cores_length [OF assms(1)] unfolding same_cores_def by (metis nth_map)

lemma cores_put: "core s = core (srv px ! k) \<Longrightarrow> same_cores px (put_srv k s px)"
proof (cases "k < length (srv px)")
  case True
  assume "core s = core (srv px ! k)"
  then have "(map core (srv px))[k := core s] = map core (srv px)" using True by (simp add: list_update_same_conv)
  then show ?thesis by (simp add: same_cores_def map_update put_srv_def)
qed (simp add: same_cores_def list_update_beyond put_srv_def)

subsection \<open>The queues\<close>

lemma keeps_nbpend: "k < length (srv px) \<Longrightarrow> keeps px (upd_srv k (\<lambda>s. s\<lparr>nbpend := g s\<rparr>) px)"
proof -
  assume k: "k < length (srv px)"
  let ?s = "(srv px ! k)\<lparr>nbpend := g (srv px ! k)\<rparr>"
  have e: "upd_srv k (\<lambda>s. s\<lparr>nbpend := g s\<rparr>) px = put_srv k ?s px" by (simp add: upd_srv_def put_srv_def)
  have s: "is_backup ?s = is_backup (srv px ! k)" "srv_is_usable ?s = srv_is_usable (srv px ! k)"
    "eweight ?s = eweight (srv px ! k)" "settled ?s = settled (srv px ! k)"
    by (simp_all add: settled_def srv_is_usable_def srv_was_usable_def)
  have "backend_ok (put_srv k ?s px)" if "backend_ok px"
    using that counted_put_same [of px k ?s] s k settled_put [OF that, of ?s k] by (simp add: backend_ok_def)
  then show ?thesis unfolding e keeps_def using cores_put [of ?s px k] by (simp add: core_def)
qed

definition keeps_q :: "queues \<Rightarrow> queues \<Rightarrow> bool" where
  "keeps_q q q' \<longleftrightarrow> keeps (backend q) (backend q')"

lemma keeps_q_same: "backend q' = backend q \<Longrightarrow> keeps_q q q'"
  by (simp add: keeps_q_def)

lemma keeps_q_trans: "keeps_q q q' \<Longrightarrow> keeps_q q' q'' \<Longrightarrow> keeps_q q q''"
  unfolding keeps_q_def by (rule keeps_trans)

lemma keeps_beyond: "\<not> k < length (srv px) \<Longrightarrow> keeps px (upd_srv k g px)"
  by (simp add: upd_srv_def list_update_beyond)

lemma keeps_free: "pendconn_free p q = Some q' \<Longrightarrow> keeps_q q q'"
proof -
  assume f: "pendconn_free p q = Some q'"
  have u: "keeps px (upd_srv k (\<lambda>s. s\<lparr>nbpend := nbpend s - 1\<rparr>) px)" for k px
    by (cases "k < length (srv px)") (simp_all add: keeps_nbpend keeps_beyond)
  show ?thesis using f u
    by (auto simp: pendconn_free_def Let_def keeps_q_def on_srv_def on_sess_def split: option.splits bind_splits)
qed

lemma keeps_wake [simp]: "keeps_q q (task_wakeup_res i q') = keeps_q q q'" "keeps_q (task_wakeup_res i q) q' = keeps_q q q'"
  "keeps_q (on_sess i g q) q' = keeps_q q q'"
  by (simp_all add: keeps_q_def task_wakeup_res_def)

lemma keeps_redistribute_loop: "redistribute_loop ps n q = Some (m, q') \<Longrightarrow> keeps_q q q'"
proof (induction ps n q rule: redistribute_loop.induct)
  case (2 p ps n q)
  obtain pc where pc: "pool q p = Some pc" using 2(3) by (cases "pool q p") simp_all
  show ?case
  proof (cases "redisp q \<and> sn_flags (sess q (p_sess pc)) AND SN_FORCE_PRST = 0")
    case True
    let ?q = "on_sess (p_sess pc) (\<lambda>s. s\<lparr>sn_flags := unassigned (sn_flags s)\<rparr>) q"
    obtain q1 where q1: "pendconn_free p ?q = Some q1"
      using 2(3) pc True by (cases "pendconn_free p ?q") simp_all
    have "keeps_q q q1" using keeps_free [OF q1] by simp
    moreover have "keeps_q (task_wakeup_res (p_sess pc) q1) q'" using 2(1) [OF pc refl True refl q1] 2(3) pc True q1 by simp
    ultimately show ?thesis using keeps_q_trans by simp
  next
    case False
    then show ?thesis using 2(2) [OF pc refl False] 2(3) pc by auto
  qed
qed (simp add: keeps_q_same)

lemma keeps_grab_loop: "grab_loop m now k n q = Some (r, q') \<Longrightarrow> keeps_q q q'"
proof (induction m arbitrary: n q)
  case (Suc m)
  show ?case
  proof (cases "maxconn (server_of q k) = 0 \<or> word_of_int n < srv_dynamic_maxconn now (backend q) (server_of q k)")
    case True
    then obtain h where h: "pendconn_from_px q = Some h" using Suc.prems by (cases "pendconn_from_px q") auto
    show ?thesis
    proof (cases h)
      case None
      then show ?thesis using Suc.prems True h by (auto simp: keeps_q_same)
    next
      case (Some p)
      then obtain pc where pc: "pool q p = Some pc" using Suc.prems True h by (cases "pool q p") auto
      let ?q = "on_sess (p_sess pc) (\<lambda>s. s\<lparr>target := Some k\<rparr>) q"
      obtain q1 where q1: "pendconn_free p ?q = Some q1"
        using Suc.prems True h Some pc by (cases "pendconn_free p ?q") auto
      have "keeps_q q q1" using keeps_free [OF q1] by simp
      moreover have "keeps_q (task_wakeup_res (p_sess pc) q1) q'"
        using Suc.IH [of "n + 1" "task_wakeup_res (p_sess pc) q1"] Suc.prems True h Some pc q1 by simp
      ultimately show ?thesis using keeps_q_trans by simp
    qed
  next
    case False
    then show ?thesis using Suc.prems by (auto simp: keeps_q_same)
  qed
qed simp

lemma keeps_redistribute: "pendconn_redistribute k q = Some (n, q') \<Longrightarrow> keeps_q q q'"
  unfolding pendconn_redistribute_def by (rule keeps_redistribute_loop)

lemma keeps_grab: "pendconn_grab_from_px now k q = Some (n, q') \<Longrightarrow> keeps_q q q'"
  unfolding pendconn_grab_from_px_def using keeps_grab_loop [of "nat (totpend q) + 1" now k 0 q n q']
  by (cases "srv_is_usable (server_of q k)") (simp_all add: keeps_q_same del: grab_loop.simps)

subsection \<open>The load balancing functions\<close>

definition run_cb :: "(nat \<Rightarrow> proxy \<Rightarrow> proxy) option \<Rightarrow> nat \<Rightarrow> proxy \<Rightarrow> proxy" where
  "run_cb cb k px = (case cb of None \<Rightarrow> px | Some g \<Rightarrow> g k px)"

definition recalc_cb :: "px_info \<Rightarrow> nat \<Rightarrow> proxy \<Rightarrow> proxy" where
  "recalc_cb p k px =
    (if cb_weight p \<noteq> None then run_cb (cb_weight p) k px
     else if srv_is_usable (srv px ! k) then run_cb (cb_up p) k px else run_cb (cb_down p) k px)"

definition still :: "proxy \<Rightarrow> proxy \<Rightarrow> bool" where
  "still px qx \<longleftrightarrow> same_cores px qx \<and> map nbpend (srv qx) = map nbpend (srv px)"

lemma still_trans: "still px qx \<Longrightarrow> still qx rx \<Longrightarrow> still px rx"
  using same_cores_trans by (auto simp: still_def)

locale status_callbacks =
  fixes p :: px_info
  assumes down_counts: "px_change px k s \<Longrightarrow> \<not> srv_is_usable s \<Longrightarrow> backend_ok (run_cb (cb_down p) k (put_srv k s px))"
    and recalc_counts: "px_change px k s \<Longrightarrow> backend_ok (recalc_cb p k (put_srv k s px))"
    and down_still: "still px (run_cb (cb_down p) k px)"
    and recalc_still: "still px (recalc_cb p k px)"
begin

lemma down_moves:
  assumes "px_change px k s" "\<not> srv_is_usable s"
  shows "backend_ok (run_cb (cb_down p) k (put_srv k s px))" "still (put_srv k s px) (run_cb (cb_down p) k (put_srv k s px))"
  using down_counts [OF assms] down_still by blast+

lemma recalc_moves:
  assumes "px_change px k s"
  shows "backend_ok (recalc_cb p k (put_srv k s px))" "still (put_srv k s px) (recalc_cb p k (put_srv k s px))"
  using recalc_counts [OF assms] recalc_still by blast+

end

lemma nbpend_put:
  assumes "nbpend s = nbpend (srv px ! k)"
  shows "map nbpend (srv (put_srv k s px)) = map nbpend (srv px)"
  using assms list_update_id [of "map nbpend (srv px)" k]
  by (cases "k < length (srv px)") (simp_all add: map_update list_update_beyond)

lemma still_put:
  assumes "srv qx = srv px" "wmult qx = wmult px" "wdiv qx = wdiv px"
  shows "still px qx"
  using assms by (simp add: still_def same_cores_def)

lemma still_commit: "still px (commit_server k px)"
  unfolding commit_put still_def
  by (intro conjI cores_put nbpend_put) (simp_all add: core_def srv_lb_commit_status_def)

lemma weights_frame [simp]:
  "wmult (lose_server k px) = wmult px" "wdiv (lose_server k px) = wdiv px"
  "wmult (gain_server k px) = wmult px" "wdiv (gain_server k px) = wdiv px"
  "wmult (reweigh_server k px) = wmult px" "wdiv (reweigh_server k px) = wdiv px"
  "wmult (update_backend_weight px) = wmult px" "wdiv (update_backend_weight px) = wdiv px"
  by (simp_all add: lose_server_def gain_server_def reweigh_server_def update_backend_weight_def Let_def split: option.split)

lemma still_commit_after:
  assumes "srv qx = srv px" "wmult qx = wmult px" "wdiv qx = wdiv px"
  shows "still px (commit_server k qx)"
  using still_trans [OF still_put [OF assms] still_commit] .

lemma tree_still: "still px (px_status_down k px)" "still px (px_status_up k px)" "still px (px_update_weight k px)"
  by (auto simp: px_status_down_def px_status_up_def px_update_weight_def Let_def still_put intro!: still_commit_after)

text \<open>The two families of algorithms: those on trees, and the static map, which has no function for a new weight.\<close>

definition tree_callbacks :: "px_info \<Rightarrow> px_info" where
  "tree_callbacks p = p\<lparr>cb_up := Some px_status_up, cb_down := Some px_status_down, cb_weight := Some px_update_weight\<rparr>"

definition map_callbacks :: "px_info \<Rightarrow> px_info" where
  "map_callbacks p = p\<lparr>cb_up := Some map_set_server_status_up, cb_down := Some map_set_server_status_down, cb_weight := None\<rparr>"

interpretation trees: status_callbacks "tree_callbacks p" for p
proof
  fix px k s
  assume c: "px_change px k s"
  show "backend_ok (recalc_cb (tree_callbacks p) k (put_srv k s px))"
    using px_update_weight_ok [OF c] by (simp add: recalc_cb_def tree_callbacks_def run_cb_def)
  assume "\<not> srv_is_usable s"
  then show "backend_ok (run_cb (cb_down (tree_callbacks p)) k (put_srv k s px))"
    using px_status_down_ok [OF c] by (simp add: tree_callbacks_def run_cb_def)
qed (simp_all add: tree_callbacks_def run_cb_def recalc_cb_def tree_still)

lemma backend_ok_lbmap: "backend_ok px \<Longrightarrow> backend_ok (px\<lparr>lbmap := m\<rparr>)"
proof -
  assume ok: "backend_ok px"
  have "update_backend_weight (px\<lparr>lbmap := m\<rparr>) = (update_backend_weight px)\<lparr>lbmap := m\<rparr>"
    by (simp add: update_backend_weight_def split: option.split)
  moreover have "counts_ok (px\<lparr>lbmap := m\<rparr>) = counts_ok px" by (simp add: counts_ok_def)
  ultimately show ?thesis using ok by (simp add: backend_ok_def counted_iff)
qed

lemma map_change_ok:
  assumes "px_change px k s"
  shows "backend_ok (upd_srv k srv_lb_commit_status (map_changed (put_srv k s px)))"
proof -
  let ?q = "recount_servers (put_srv k s px)"
  have "backend_ok (commit_server k (update_backend_weight ?q))"
    by (rule px_committed [OF assms]) (simp_all add: counts_ok_def recount_servers_counts)
  moreover have "upd_srv k srv_lb_commit_status (map_changed (put_srv k s px)) =
      (commit_server k (update_backend_weight ?q))\<lparr>lbmap := (lbmap ?q)\<lparr>map_recalc := True\<rparr>\<rparr>"
    by (simp add: map_changed_def Let_def commit_server_def upd_srv_def)
  ultimately show ?thesis using backend_ok_lbmap by simp
qed

lemma map_still: "still px (map_set_server_status_down k px)" "still px (map_set_server_status_up k px)"
proof -
  have "still px (upd_srv k srv_lb_commit_status qx)" if "qx = px \<or> qx = map_changed px" for qx
    using still_commit_after [of qx px k] that
    by (auto simp: commit_server_def map_changed_def Let_def recount_servers_counts)
  then show "still px (map_set_server_status_down k px)" "still px (map_set_server_status_up k px)"
    by (auto simp: map_set_server_status_down_def map_set_server_status_up_def Let_def still_put)
qed

lemma map_down_ok:
  assumes "px_change px k s" "\<not> srv_is_usable s"
  shows "backend_ok (map_set_server_status_down k (put_srv k s px))"
  using px_unchanged [OF assms(1)] map_change_ok [OF assms(1)] px_changeD(6) [OF assms(1)] assms(2)
  by (simp add: map_set_server_status_down_def Let_def)

lemma map_up_ok:
  assumes "px_change px k s" "srv_is_usable s"
  shows "backend_ok (map_set_server_status_up k (put_srv k s px))"
  using px_unchanged [OF assms(1)] map_change_ok [OF assms(1)] px_changeD(6) [OF assms(1)] assms(2)
  by (simp add: map_set_server_status_up_def Let_def)

interpretation maps: status_callbacks "map_callbacks p" for p
proof
  fix px k s
  assume c: "px_change px k s"
  show "backend_ok (recalc_cb (map_callbacks p) k (put_srv k s px))"
    using map_down_ok [OF c] map_up_ok [OF c] px_changeD(6) [OF c] by (simp add: recalc_cb_def map_callbacks_def run_cb_def)
  assume "\<not> srv_is_usable s"
  then show "backend_ok (run_cb (cb_down (map_callbacks p)) k (put_srv k s px))"
    using map_down_ok [OF c] by (simp add: map_callbacks_def run_cb_def)
qed (simp_all add: map_callbacks_def run_cb_def recalc_cb_def map_still)

subsection \<open>The farm\<close>

definition be_ok :: "queues \<Rightarrow> bool" where
  "be_ok q \<longleftrightarrow> backend_ok (backend q) \<and> queues_ok q \<and> 0 < wmult (backend q) \<and> 0 \<le> wdiv (backend q)
    \<and> (\<forall>s \<in> set (srv (backend q)). 0 \<le> uweight s \<and> 0 \<le> slowstart s)"

text \<open>A server without health nor agent check: it only follows the server it tracks.\<close>

definition checkless :: "srv_info \<Rightarrow> bool" where
  "checkless s \<longleftrightarrow> \<not> has_st (chk_health s) CHK_ST_ENABLED \<and> \<not> has_st (chk_agent s) CHK_ST_ENABLED"

definition located :: "farm \<Rightarrow> bool" where
  "located f \<longleftrightarrow> length (pxs f) = length (bes f) \<and> length (infos f) = length (names f) \<and> distinct (names f)
    \<and> (\<forall>(b, k) \<in> set (names f). b < length (bes f) \<and> k < length (srv (backend (bes f ! b))))"

definition linked :: "farm \<Rightarrow> bool" where
  "linked f \<longleftrightarrow> (\<forall>i < length (names f). \<forall>t. t \<in> set (trackers (info_of i f)) \<longleftrightarrow> t < length (names f) \<and> track (sv t f) = Some i)"

definition farm_ok :: "farm \<Rightarrow> bool" where
  "farm_ok f \<longleftrightarrow> located f \<and> linked f \<and> (\<forall>q \<in> set (bes f). be_ok q) \<and> (\<forall>p \<in> set (pxs f). status_callbacks p)"

text \<open>What stays the same all along.\<close>

definition px_fixed :: "px_info \<Rightarrow> bool \<times> (nat \<Rightarrow> proxy \<Rightarrow> proxy) option \<times> (nat \<Rightarrow> proxy \<Rightarrow> proxy) option \<times> (nat \<Rightarrow> proxy \<Rightarrow> proxy) option" where
  "px_fixed p = (prop_dyn p, cb_up p, cb_down p, cb_weight p)"

definition steady :: "farm \<Rightarrow> farm \<Rightarrow> bool" where
  "steady f f' \<longleftrightarrow> names f' = names f \<and> length (bes f') = length (bes f) \<and> map px_fixed (pxs f') = map px_fixed (pxs f)
    \<and> length (infos f') = length (infos f)
    \<and> (\<forall>i < length (names f). trackers (info_of i f') = trackers (info_of i f) \<and> checkless (info_of i f') = checkless (info_of i f)
         \<and> track (sv i f') = track (sv i f))"

lemma steady_refl [simp]: "steady f f"
  by (simp add: steady_def)

lemma steady_trans: "steady f g \<Longrightarrow> steady g h \<Longrightarrow> steady f h"
  by (simp add: steady_def)

text \<open>The state and the flags of a server; a move changes those of one server.\<close>

definition view :: "nat \<Rightarrow> farm \<Rightarrow> srv_state \<times> byte" where
  "view i f = (state (sv i f), admin (sv i f))"

definition moved :: "nat \<Rightarrow> srv_state \<times> byte \<Rightarrow> farm \<Rightarrow> farm \<Rightarrow> bool" where
  "moved i c f f' \<longleftrightarrow> farm_ok f' \<and> steady f f' \<and> (\<forall>j < length (names f). view j f' = (if j = i then c else view j f))"

definition quiet :: "farm \<Rightarrow> farm \<Rightarrow> bool" where
  "quiet f f' \<longleftrightarrow> farm_ok f' \<and> steady f f' \<and> (\<forall>j < length (names f). view j f' = view j f)"

lemma steady_names: "steady f f' \<Longrightarrow> names f' = names f"
  by (simp add: steady_def)

lemma moved_quiet: "moved i c f g \<Longrightarrow> quiet g h \<Longrightarrow> moved i c f h"
  using steady_trans [of f g h] steady_names [of f g] by (simp add: moved_def quiet_def)

lemma quiet_moved: "quiet f g \<Longrightarrow> moved i c g h \<Longrightarrow> moved i c f h"
  using steady_trans [of f g h] steady_names [of f g] by (simp add: moved_def quiet_def)

lemma quiet_trans: "quiet f g \<Longrightarrow> quiet g h \<Longrightarrow> quiet f h"
  using steady_trans [of f g h] steady_names [of f g] by (simp add: quiet_def)

lemma quiet_refl: "farm_ok f \<Longrightarrow> quiet f f"
  by (simp add: quiet_def)

lemma locatedD:
  assumes "located f" "i < length (names f)"
  shows "be_of i f < length (bes f)" "pos_of i f < length (srv (px_of i f))"
proof -
  have "(fst (names f ! i), snd (names f ! i)) \<in> set (names f)" using assms(2) by simp
  then have "fst (names f ! i) < length (bes f) \<and> snd (names f ! i) < length (srv (backend (bes f ! fst (names f ! i))))"
    using assms(1) unfolding located_def by blast
  then show "be_of i f < length (bes f)" "pos_of i f < length (srv (px_of i f))"
    by (simp_all add: be_of_def pos_of_def px_of_def)
qed

lemma place_inj:
  assumes "located f" "i < length (names f)" "j < length (names f)" "be_of i f = be_of j f" "pos_of i f = pos_of j f"
  shows "i = j"
proof -
  have "names f ! i = names f ! j" using assms(4,5) by (simp add: be_of_def pos_of_def prod_eq_iff)
  then show ?thesis using assms(1-3) by (simp add: located_def nth_eq_iff_index_eq)
qed

lemma farm_okD:
  assumes "farm_ok f" "i < length (names f)"
  shows "located f" "linked f" "be_ok (bes f ! be_of i f)" "status_callbacks (px_info_of i f)"
    "pos_of i f < length (srv (px_of i f))" "be_of i f < length (bes f)"
  using assms locatedD [of f i] by (auto simp: farm_ok_def px_info_of_def located_def)

lemma on_queues_simps [simp]:
  "names (on_queues i g f) = names f" "infos (on_queues i g f) = infos f" "pxs (on_queues i g f) = pxs f"
  "length (bes (on_queues i g f)) = length (bes f)" "be_of j (on_queues i g f) = be_of j f"
  "pos_of j (on_queues i g f) = pos_of j f" "info_of j (on_queues i g f) = info_of j f"
  "px_info_of j (on_queues i g f) = px_info_of j f"
  by (simp_all add: on_queues_def be_of_def pos_of_def info_of_def px_info_of_def)

lemma on_queues_on_queues: "on_queues i g (on_queues i h f) = on_queues i (\<lambda>q. g (h q)) f"
  by (cases "be_of i f < length (bes f)") (simp_all add: on_queues_def be_of_def list_update_beyond)

lemma on_queues_cong: "g (bes f ! be_of i f) = h (bes f ! be_of i f) \<Longrightarrow> on_queues i g f = on_queues i h f"
  by (simp add: on_queues_def)

text \<open>Replacing the backend of a server by one in which only this server may have changed.\<close>

lemma replaced_cores:
  assumes "located f" "i < length (names f)" "j < length (names f)"
    "map core (srv (backend q)) = (map core (srv (px_of i f)))[pos_of i f := c]"
  shows "core (sv j (on_queues i (\<lambda>_. q) f)) = (if j = i then c else core (sv j f))"
proof -
  note pi = locatedD [OF assms(1,2)] and pj = locatedD [OF assms(1,3)]
  have len: "length (srv (backend q)) = length (srv (px_of i f))" using arg_cong [OF assms(4), of length] by simp
  show ?thesis
  proof (cases "be_of j f = be_of i f")
    case True
    then have j: "pos_of j f < length (srv (px_of i f))" using pj(2) by (simp add: px_of_def)
    have "core (srv (backend q) ! pos_of j f) = (map core (srv (px_of i f)))[pos_of i f := c] ! pos_of j f"
      using arg_cong [OF assms(4), of "\<lambda>xs. xs ! pos_of j f"] j len by simp
    moreover have "j = i \<longleftrightarrow> pos_of j f = pos_of i f" using True place_inj [OF assms(1-3)] by auto
    moreover have "core (sv j f) = map core (srv (px_of i f)) ! pos_of j f" using j True by (simp add: sv_def px_of_def)
    moreover have "sv j (on_queues i (\<lambda>_. q) f) = srv (backend q) ! pos_of j f"
      using True pi(1) by (simp add: sv_def px_of_def) (simp add: on_queues_def)
    ultimately show ?thesis using j by (simp add: nth_list_update del: nth_map)
  next
    case False
    then show ?thesis by (auto simp: sv_def px_of_def on_queues_def be_of_def pos_of_def)
  qed
qed

lemma replaced_moved:
  assumes ok: "farm_ok f" and i: "i < length (names f)" and q: "be_ok q"
    and cs: "map core (srv (backend q)) = (map core (srv (px_of i f)))[pos_of i f := core s]" and t: "track s = track (sv i f)"
  shows "moved i (state s, admin s) f (on_queues i (\<lambda>_. q) f)"
proof -
  let ?f = "on_queues i (\<lambda>_. q) f"
  note d = farm_okD [OF ok i]
  have c: "core (sv j ?f) = (if j = i then core s else core (sv j f))" if "j < length (names f)" for j
    using replaced_cores [OF d(1) i that cs] .
  have tr: "track (sv j ?f) = track (sv j f)" if "j < length (names f)" for j
    using c [OF that] t by (cases "j = i") (simp_all add: core_eq)
  have len: "length (srv (backend q)) = length (srv (px_of i f))" using arg_cong [OF cs, of length] by simp
  have "located ?f" using d(1,6) len by (fastforce simp: located_def px_of_def on_queues_def nth_list_update)
  moreover have "linked ?f" using d(2) tr by (auto simp: linked_def)
  moreover have "be_ok q'" if "q' \<in> set (bes ?f)" for q'
    using that ok q set_update_subset_insert [of "bes f" "be_of i f" q] by (auto simp: farm_ok_def on_queues_def)
  ultimately have "farm_ok ?f" using ok by (simp add: farm_ok_def)
  moreover have "steady f ?f" using tr by (simp add: steady_def)
  moreover have "view j ?f = (if j = i then (state s, admin s) else view j f)" if "j < length (names f)" for j
    using c [OF that] by (cases "j = i") (simp_all add: core_eq view_def)
  ultimately show ?thesis by (simp add: moved_def)
qed

lemma replaced_quiet:
  assumes "farm_ok f" "i < length (names f)" "be_ok q" "same_cores (px_of i f) (backend q)"
  shows "quiet f (on_queues i (\<lambda>_. q) f)"
proof -
  have "map core (srv (backend q)) = (map core (srv (px_of i f)))[pos_of i f := core (sv i f)]"
    using assms(4) farm_okD(5) [OF assms(1,2)] list_update_id [of "map core (srv (px_of i f))" "pos_of i f"]
    by (simp add: same_cores_def sv_def)
  from replaced_moved [OF assms(1-3) this refl] show ?thesis by (auto simp: moved_def quiet_def view_def)
qed

lemma be_ok_cores:
  assumes "be_ok q" "same_cores (backend q) (backend q')" "backend_ok (backend q')" "queues_ok q'"
  shows "be_ok q'"
proof -
  have "map core (srv (backend q')) = map core (srv (backend q))" using assms(2) by (simp add: same_cores_def)
  then have "core ` set (srv (backend q')) = core ` set (srv (backend q))" by (metis set_map)
  then have "\<exists>s' \<in> set (srv (backend q)). core s = core s'" if "s \<in> set (srv (backend q'))" for s 
    using imageI [OF that, of core] by auto
  then have "0 \<le> uweight s \<and> 0 \<le> slowstart s" if "s \<in> set (srv (backend q'))" for s
    using that assms(1) unfolding be_ok_def core_eq by metis
  then show ?thesis using assms by (simp add: be_ok_def same_cores_def)
qed

subsection \<open>Notes on servers, backends and sessions\<close>

lemma cb_cong: "px_fixed p' = px_fixed p \<Longrightarrow> status_callbacks p' = status_callbacks p"
  by (simp add: status_callbacks_def recalc_cb_def px_fixed_def)

lemma sv_same_bes: "names f' = names f \<Longrightarrow> bes f' = bes f \<Longrightarrow> sv j f' = sv j f"
  by (simp add: sv_def px_of_def be_of_def pos_of_def)

lemma quiet_px:
  assumes "farm_ok f" "\<And>p. px_fixed (g p) = px_fixed p"
  shows "quiet f (on_px i g f)"
proof -
  let ?f = "on_px i g f"
  have s: "sv j ?f = sv j f" for j by (rule sv_same_bes) (simp_all add: on_px_def)
  have fixed: "map px_fixed (pxs ?f) = map px_fixed (pxs f)"
    using assms(2) list_update_id [of "map px_fixed (pxs f)" "be_of i f"]
    by (cases "be_of i f < length (pxs f)") (simp_all add: on_px_def map_update list_update_beyond)
  have "px_fixed ` set (pxs ?f) = px_fixed ` set (pxs f)" using fixed by (metis set_map)
  then have "\<exists>p' \<in> set (pxs f). px_fixed p = px_fixed p'" if "p \<in> set (pxs ?f)" for p
    using imageI [OF that, of px_fixed] by auto
  then have "status_callbacks p" if "p \<in> set (pxs ?f)" for p
    using that assms(1) cb_cong unfolding farm_ok_def by metis
  moreover have "located ?f" "linked ?f"
    using farm_ok_def assms(1) s by (simp_all add: located_def linked_def on_px_def info_of_def)
  ultimately have "farm_ok ?f" using assms(1) by (simp add: farm_ok_def on_px_def)
  moreover have "steady f ?f" using fixed s by (simp add: steady_def) (simp add: on_px_def info_of_def)
  ultimately show ?thesis using s by (simp add: quiet_def view_def)
qed

lemma quiet_info:
  assumes "farm_ok f" "trackers (g (info_of i f)) = trackers (info_of i f)" "checkless (g (info_of i f)) = checkless (info_of i f)"
  shows "quiet f (on_info i g f)"
proof -
  let ?f = "on_info i g f"
  have s: "sv j ?f = sv j f" for j by (rule sv_same_bes) (simp_all add: on_info_def)
  have n: "trackers (info_of j ?f) = trackers (info_of j f)" "checkless (info_of j ?f) = checkless (info_of j f)" for j
    using assms(2,3) by (cases "i < length (infos f)"; cases "j = i"; simp add: on_info_def info_of_def list_update_beyond)+
  have "located ?f" "linked ?f"
    using assms(1) s n by (simp_all add: farm_ok_def located_def linked_def) (simp_all add: on_info_def)
  then have "farm_ok ?f" using assms(1) by (simp add: farm_ok_def on_info_def)
  moreover have "steady f ?f" using n s by (simp add: steady_def) (simp add: on_info_def)
  ultimately show ?thesis using s by (simp add: quiet_def view_def)
qed

lemma queues_ok_backend:
  "queues_ok q \<Longrightarrow> map nbpend (srv px) = map nbpend (srv (backend q)) \<Longrightarrow> queues_ok (q\<lparr>backend := px\<rparr>)"
  by (subst queues_ok_cong [of _ q]) simp_all

lemma quiet_sessions:
  assumes "farm_ok f" "i < length (names f)"
  shows "quiet f (on_queues i (on_sess n g) f)"
proof -
  let ?q = "on_sess n g (bes f ! be_of i f)"
  have "be_ok ?q" using farm_okD(3) [OF assms] by (simp add: be_ok_def)
  from replaced_quiet [OF assms this] have "quiet f (on_queues i (\<lambda>_. ?q) f)" by (simp add: px_of_def)
  then show ?thesis by (simp add: on_queues_def)
qed

lemma quiet_session_shutdown:
  assumes "farm_ok f" "i < length (names f)"
  shows "quiet f (session_shutdown i why n f)"
proof -
  have p: "quiet f (on_px i (\<lambda>p. p\<lparr>io := g p\<rparr>) f)" for g by (rule quiet_px [OF assms(1)]) (simp add: px_fixed_def)
  have "quiet f (on_queues i (on_sess n h) (on_px i (\<lambda>p. p\<lparr>io := g p\<rparr>) f))" for g h
    using quiet_trans [OF p quiet_sessions] p [of g] assms(2) by (simp add: quiet_def steady_def)
  then show ?thesis using quiet_refl [OF assms(1)] by (simp add: session_shutdown_def Let_def)
qed

lemma quiet_fold:
  assumes "\<And>x f. farm_ok f \<Longrightarrow> i < length (names f) \<Longrightarrow> quiet f (g x f)" "farm_ok f" "i < length (names f)"
  shows "quiet f (fold g xs f)"
  using assms(2,3)
proof (induction xs arbitrary: f)
  case (Cons x xs)
  have q: "quiet f (g x f)" by (rule assms(1) [OF Cons.prems])
  then have "quiet (g x f) (fold g xs (g x f))" using Cons by (simp add: quiet_def steady_def)
  then show ?case using quiet_trans [OF q] by simp
qed (simp add: quiet_refl)

lemma quiet_shutdown_all:
  assumes "farm_ok f" "i < length (names f)"
  shows "quiet f (shutdown_all i why k f)"
  unfolding shutdown_all_def
  by (rule quiet_fold [OF _ assms]) (simp add: quiet_refl quiet_session_shutdown)

lemma quiet_shutdown_backups:
  assumes "farm_ok f" "i < length (names f)"
  shows "quiet f (srv_shutdown_backup_sessions i why f)"
  unfolding srv_shutdown_backup_sessions_def
  by (rule quiet_fold [OF _ assms]) (simp add: quiet_refl quiet_shutdown_all)

lemma in_backend_quiet:
  assumes "farm_ok f" "i < length (names f)" "g (bes f ! be_of i f) = Some (n, q)" "keeps_q (bes f ! be_of i f) q" "queues_ok q"
  shows "\<exists>f'. in_backend i g f = Some f' \<and> quiet f f'"
proof -
  have b: "be_ok (bes f ! be_of i f)" by (rule farm_okD(3) [OF assms(1,2)])
  have k: "same_cores (backend (bes f ! be_of i f)) (backend q)" "backend_ok (backend q)"
    using assms(4) b by (simp_all add: keeps_q_def keeps_def be_ok_def)
  have "be_ok q" by (rule be_ok_cores [OF b k assms(5)])
  from replaced_quiet [OF assms(1,2) this] k show ?thesis using assms(3) by (simp add: in_backend_def px_of_def)
qed

lemma redistribute_quiet:
  assumes "farm_ok f" "i < length (names f)"
  shows "\<exists>f'. in_backend i (pendconn_redistribute (pos_of i f)) f = Some f' \<and> quiet f f'"
proof -
  note d = farm_okD [OF assms]
  have k: "pos_of i f < length (srv (backend (bes f ! be_of i f)))" using d(5) by (simp add: px_of_def)
  obtain n q where "pendconn_redistribute (pos_of i f) (bes f ! be_of i f) = Some (n, q)" "queues_ok q"
    using redistribute_ok [OF _ k] d(3) by (auto simp: be_ok_def)
  then show ?thesis using in_backend_quiet [OF assms] keeps_redistribute by blast
qed

lemma grab_quiet:
  assumes "farm_ok f" "i < length (names f)"
  shows "\<exists>f'. in_backend i (pendconn_grab_from_px now (pos_of i f)) f = Some f' \<and> quiet f f'"
proof -
  note d = farm_okD [OF assms]
  have k: "pos_of i f < length (srv (backend (bes f ! be_of i f)))" using d(5) by (simp add: px_of_def)
  obtain n q where "pendconn_grab_from_px now (pos_of i f) (bes f ! be_of i f) = Some (n, q)" "queues_ok q"
    using grab_ok [OF _ k] d(3) unfolding be_ok_def by blast
  then show ?thesis using in_backend_quiet [OF assms] keeps_grab by blast
qed

subsection \<open>Moves of one server\<close>

text \<open>What a move may change in a server before the load balancing functions are called.\<close>

definition variant :: "server \<Rightarrow> server \<Rightarrow> bool" where
  "variant s s' \<longleftrightarrow> is_backup s' = is_backup s \<and> prev_state s' = prev_state s \<and> prev_admin s' = prev_admin s
    \<and> prev_eweight s' = prev_eweight s \<and> track s' = track s \<and> nbpend s' = nbpend s \<and> slowstart s' = slowstart s \<and> 0 \<le> uweight s'"

lemma variant_was: "variant s s' \<Longrightarrow> srv_was_usable s' = srv_was_usable s \<and> prev_eweight s' = prev_eweight s \<and> is_backup s' = is_backup s"
  by (simp add: variant_def srv_was_usable_def)

lemma variant_change:
  assumes "farm_ok f" "i < length (names f)" "variant (sv i f) s" "0 \<le> eweight s"
  shows "px_change (px_of i f) (pos_of i f) s"
proof -
  note d = farm_okD [OF assms(1,2)]
  have ok: "backend_ok (px_of i f)" using d(3) by (simp add: be_ok_def px_of_def)
  have "settled (sv i f)" using ok d(5) by (simp add: backend_ok_def sv_def)
  then show ?thesis using ok d(5) variant_was [OF assms(3)] assms(4)
    by (simp add: px_change_def succeeds_def sv_def settled_def)
qed

lemma on_server_put:
  "on_server i h f = on_queues i (\<lambda>q. q\<lparr>backend := put_srv (pos_of i f) (h (sv i f)) (backend q)\<rparr>) f"
  unfolding on_server_def by (rule on_queues_cong) (simp add: on_srv_def upd_srv_def put_srv_def sv_def px_of_def)

lemma put_queues_ok:
  assumes "farm_ok f" "i < length (names f)" "variant (sv i f) s" "same_cores (put_srv (pos_of i f) s (px_of i f)) qx"
    "backend_ok qx" "map nbpend (srv qx) = map nbpend (srv (px_of i f))"
  shows "moved i (state s, admin s) f (on_queues i (\<lambda>q. q\<lparr>backend := qx\<rparr>) f)"
proof -
  note d = farm_okD [OF assms(1,2)]
  let ?q = "bes f ! be_of i f"
  have px: "px_of i f = backend ?q" by (simp add: px_of_def)
  have cs: "map core (srv qx) = (map core (srv (px_of i f)))[pos_of i f := core s]"
    using assms(4) by (simp add: same_cores_def map_update)
  have "0 \<le> uweight s \<and> 0 \<le> slowstart s" using assms(3) d(3,5) by (simp add: variant_def be_ok_def sv_def px_of_def)
  then have "\<forall>s \<in> set (srv (put_srv (pos_of i f) s (px_of i f))). 0 \<le> uweight s \<and> 0 \<le> slowstart s"
    using d(3) set_update_subset_insert [of "srv (backend ?q)" "pos_of i f" s] by (auto simp: be_ok_def px)
  moreover have "core ` set (srv qx) = core ` set (srv (put_srv (pos_of i f) s (px_of i f)))"
    using assms(4) unfolding same_cores_def by (metis set_map)
  ultimately have "\<forall>s \<in> set (srv qx). 0 \<le> uweight s \<and> 0 \<le> slowstart s"
    unfolding core_def by (smt (verit) image_iff prod.inject)
  then have "be_ok (?q\<lparr>backend := qx\<rparr>)"
    using d(3) assms(4,5,6) queues_ok_backend [of ?q qx] by (simp add: be_ok_def same_cores_def px put_srv_def)
  from replaced_moved [OF assms(1,2) this, of s] cs assms(3) show ?thesis
    by (simp add: variant_def on_queues_def)
qed

text \<open>A change that the load balancing need not know.\<close>

lemma change_unseen:
  assumes "farm_ok f" "i < length (names f)" "variant (sv i f) (h (sv i f))" "eweight (h (sv i f)) = eweight (sv i f)"
    "srv_is_usable (h (sv i f)) = srv_is_usable (sv i f)"
  shows "moved i (state (h (sv i f)), admin (h (sv i f))) f (on_server i h f)"
proof -
  note d = farm_okD [OF assms(1,2)]
  have ok: "backend_ok (px_of i f)" using d(3) by (simp add: be_ok_def px_of_def)
  have se: "settled (sv i f)" using ok d(5) by (simp add: backend_ok_def sv_def)
  have c: "px_change (px_of i f) (pos_of i f) (h (sv i f))"
    using variant_change [OF assms(1-3)] assms(4) se by (simp add: settled_def)
  have "settled (h (sv i f))" using se variant_was [OF assms(3)] assms(4,5) by (simp add: settled_def)
  then have "backend_ok (put_srv (pos_of i f) (h (sv i f)) (px_of i f))"
    using px_same [OF c] assms(4,5) by (simp add: sv_def)
  from put_queues_ok [OF assms(1-3) same_cores_refl this] nbpend_put [of "h (sv i f)" "px_of i f" "pos_of i f"] assms(3)
  have "moved i (state (h (sv i f)), admin (h (sv i f))) f
      (on_queues i (\<lambda>q. q\<lparr>backend := put_srv (pos_of i f) (h (sv i f)) (px_of i f)\<rparr>) f)"
    by (simp add: variant_def sv_def)
  then show ?thesis unfolding on_server_put by (simp add: on_queues_def px_of_def)
qed

text \<open>A change that the load balancing functions learn at once.\<close>

lemma call_put:
  assumes "be_of i f < length (bes f)"
  shows "call cb i (on_server i h f) =
    on_queues i (\<lambda>q. q\<lparr>backend := run_cb cb (pos_of i f) (put_srv (pos_of i f) (h (sv i f)) (px_of i f))\<rparr>) f"
proof (cases cb)
  case None
  then show ?thesis using assms
    by (simp add: call_def run_cb_def on_server_put) (simp add: on_queues_def px_of_def)
next
  case (Some g)
  then show ?thesis using assms
    by (simp add: call_def run_cb_def on_server_put on_proxy_def on_queues_on_queues) (simp add: on_queues_def px_of_def)
qed

lemma change_down:
  assumes "farm_ok f" "i < length (names f)" "variant (sv i f) (h (sv i f))" "0 \<le> eweight (h (sv i f))" "\<not> srv_is_usable (h (sv i f))"
  shows "moved i (state (h (sv i f)), admin (h (sv i f))) f (call (cb_down (px_info_of i f)) i (on_server i h f))"
proof -
  note d = farm_okD [OF assms(1,2)]
  note m = status_callbacks.down_moves [OF d(4) variant_change [OF assms(1-4)] assms(5)]
  have "map nbpend (srv (put_srv (pos_of i f) (h (sv i f)) (px_of i f))) = map nbpend (srv (px_of i f))"
    using assms(3) by (intro nbpend_put) (simp add: variant_def sv_def)
  then show ?thesis unfolding call_put [OF d(6)]
    using m by (intro put_queues_ok [OF assms(1-3)]) (simp_all add: still_def)
qed

lemma sv_on_server:
  assumes "farm_ok f" "i < length (names f)" "j < length (names f)"
  shows "sv j (on_server i h f) = (if j = i then h (sv i f) else sv j f)"
proof -
  note d = farm_okD [OF assms(1,2)] and pj = locatedD [OF d(1) assms(3)]
  have inj: "be_of i f = be_of j f \<Longrightarrow> pos_of i f = pos_of j f \<Longrightarrow> i = j" by (rule place_inj [OF d(1) assms(2,3)])
  have e: "srv (px_of j (on_server i h f)) = (if be_of j f = be_of i f then (srv (px_of i f))[pos_of i f := h (sv i f)] else srv (px_of j f))"
    using d(6) by (simp add: on_server_put px_of_def) (simp add: on_queues_def)
  have "pos_of j (on_server i h f) = pos_of j f" by (simp add: on_server_put)
  then show ?thesis using inj pj(2) d(5) unfolding sv_def e by (auto simp: nth_list_update px_of_def)
qed

lemma call_recalc_put:
  assumes "farm_ok f" "i < length (names f)"
  shows "call_recalc i (on_server i h f) =
    on_queues i (\<lambda>q. q\<lparr>backend := recalc_cb (px_info_of i f) (pos_of i f) (put_srv (pos_of i f) (h (sv i f)) (px_of i f))\<rparr>) f"
proof -
  note d = farm_okD [OF assms]
  have "sv i (on_server i h f) = h (sv i f)" using sv_on_server [OF assms assms(2)] by simp
  moreover have "px_info_of i (on_server i h f) = px_info_of i f" by (simp add: on_server_put)
  ultimately show ?thesis using d(5) by (simp add: call_recalc_def Let_def call_put [OF d(6)] recalc_cb_def put_srv_def)
qed

lemma on_server_on_server:
  assumes "farm_ok f" "i < length (names f)"
  shows "on_server i g (on_server i h f) = on_server i (\<lambda>s. g (h s)) f"
proof -
  note d = farm_okD [OF assms]
  have "sv i (on_server i h f) = h (sv i f)" using sv_on_server [OF assms assms(2)] by simp
  then show ?thesis unfolding on_server_put [of i g] on_server_put [of i "\<lambda>s. g (h s)"]
    by (simp add: on_server_put [of i h] on_queues_on_queues)
qed

lemma new_eweight_put: "new_eweight now dyn (put_srv k s px) = new_eweight now dyn px"
  by (simp add: fun_eq_iff new_eweight_def slow_weight_def put_srv_def)

lemma new_eweight_simps [simp]:
  "admin (new_eweight now dyn px s) = admin s" "uweight (new_eweight now dyn px s) = uweight s"
  "variant t (new_eweight now dyn px s) = variant t s" "last_change (new_eweight now dyn px s) = last_change s"
  by (simp_all add: new_eweight_def Let_def variant_def)

lemma slow_weight_nonneg:
  assumes "0 \<le> wdiv px" "0 \<le> slowstart s" "state s = SRV_ST_STARTING \<longrightarrow> last_change s \<le> now"
  shows "0 \<le> slow_weight now dyn px s"
proof (cases "slowstart s = 0")
  case False
  then have "0 < slowstart s" using assms(2) by simp
  moreover have "0 \<le> wdiv px * (now - last_change s) + slowstart s" if "state s = SRV_ST_STARTING"
    using assms that by simp
  ultimately show ?thesis using assms(1) by (auto simp: slow_weight_def c_div_nonneg pos_imp_zdiv_nonneg_iff)
qed (use assms in \<open>auto simp: slow_weight_def c_div_def\<close>)

lemma new_eweight_nonneg:
  assumes "0 \<le> uweight s" "0 < wmult px" "0 \<le> wdiv px" "0 \<le> slowstart s"
  shows "0 \<le> eweight (new_eweight now dyn px s)"
proof -
  define t where "t = (if (now < last_change s \<or> now \<ge> last_change s + slowstart s) \<and> state s = SRV_ST_STARTING
    then s\<lparr>state := SRV_ST_RUNNING\<rparr> else s)"
  have "0 \<le> slow_weight now dyn px t" using assms by (intro slow_weight_nonneg) (auto simp: t_def)
  moreover have "0 \<le> uweight t" using assms(1) by (simp add: t_def)
  ultimately have "0 \<le> uweight t * slow_weight now dyn px t" by simp
  then have "0 \<le> uweight t * slow_weight now dyn px t + wmult px - 1" using assms(2) by linarith
  then have "0 \<le> c_div (uweight t * slow_weight now dyn px t + wmult px - 1) (wmult px)"
    using assms(2) by (simp add: c_div_nonneg pos_imp_zdiv_nonneg_iff del: zle_diff1_eq)
  moreover have "eweight (new_eweight now dyn px s) = c_div (uweight t * slow_weight now dyn px t + wmult px - 1) (wmult px)"
    unfolding new_eweight_def t_def [symmetric] Let_def by (simp add: t_def)
  ultimately show ?thesis by simp
qed

lemma change_recalc:
  fixes d :: date
  assumes "farm_ok f" "i < length (names f)" "variant (sv i f) (h (sv i f))"
  defines "s' \<equiv> new_eweight (now_sec d) (prop_dyn (px_info_of i f)) (px_of i f) (h (sv i f))"
  shows "moved i (state s', admin s') f (server_recalc_eweight d i (on_server i h f))"
proof -
  let ?n = "new_eweight (now_sec d) (prop_dyn (px_info_of i f)) (px_of i f)"
  note o = farm_okD [OF assms(1,2)]
  have px: "px_of i (on_server i h f) = put_srv (pos_of i f) (h (sv i f)) (px_of i f)"
    using o(6) by (simp add: on_server_put px_of_def) (simp add: on_queues_def px_of_def)
  have e: "server_recalc_eweight d i (on_server i h f) = call_recalc i (on_server i (\<lambda>s. ?n (h s)) f)"
    unfolding server_recalc_eweight_def px new_eweight_put by (simp add: on_server_put [of i h]) (simp add: on_server_put [symmetric] on_server_on_server [OF assms(1,2)])
  have v: "variant (sv i f) s'" using assms(3) by (simp add: s'_def)
  have "0 \<le> slowstart (sv i f)" "0 < wmult (px_of i f)" "0 \<le> wdiv (px_of i f)"
    using o(3,5) by (simp_all add: be_ok_def sv_def px_of_def)
  then have w: "0 \<le> eweight s'" unfolding s'_def using assms(3) by (intro new_eweight_nonneg) (simp_all add: variant_def)
  note m = status_callbacks.recalc_moves [OF o(4) variant_change [OF assms(1,2) v w]]
  have "map nbpend (srv (put_srv (pos_of i f) s' (px_of i f))) = map nbpend (srv (px_of i f))"
    using v by (intro nbpend_put) (simp add: variant_def sv_def)
  then show ?thesis unfolding e call_recalc_put [OF assms(1,2)]
    using m by (intro put_queues_ok [OF assms(1,2) v]) (simp_all add: still_def s'_def)
qed

subsection \<open>Whole moves\<close>

lemma moved_ok: "moved i c f f' \<Longrightarrow> farm_ok f' \<and> names f' = names f"
  by (simp add: moved_def steady_def)

lemma quiet_ok: "quiet f f' \<Longrightarrow> farm_ok f' \<and> names f' = names f"
  by (simp add: quiet_def steady_def)

lemma server_notes:
  "on_info i g (on_server j h f) = on_server j h (on_info i g f)"
  "on_px i k (on_server j h f) = on_server j h (on_px i k f)"
  "px_info_of n (on_server j h f) = px_info_of n f" "info_of n (on_server j h f) = info_of n f"
  "be_of n (on_server j h f) = be_of n f" "pos_of n (on_server j h f) = pos_of n f"
  "names (on_server j h f) = names f" "trackers (info_of n (on_server j h f)) = trackers (info_of n f)"
  "sv n (on_info i g f) = sv n f" "sv n (on_px i k f) = sv n f" "names (on_info i g f) = names f" "names (on_px i k f) = names f"
  by (simp_all add: on_info_def on_px_def on_server_def on_queues_def be_of_def pos_of_def sv_def px_of_def info_of_def px_info_of_def)

lemma drop_load_moves:
  assumes "farm_ok f" "i < length (names f)" "variant (sv i f) (h (sv i f))" "0 \<le> eweight (h (sv i f))" "\<not> srv_is_usable (h (sv i f))"
  shows "\<exists>f'. drop_load shut i (on_server i h f) = Some f' \<and> moved i (state (h (sv i f)), admin (h (sv i f))) f f'"
proof -
  let ?c = "(state (h (sv i f)), admin (h (sv i f)))"
  define f1 where "f1 = call (cb_down (px_info_of i f)) i (on_server i h f)"
  have m1: "moved i ?c f f1" unfolding f1_def by (rule change_down [where h = h, OF assms])
  define f2 where "f2 = (if shut \<and> onmarkeddown_shutdown (info_of i f1) then srv_shutdown_sessions i SN_ERR_DOWN f1 else f1)"
  have ok1: "farm_ok f1" "i < length (names f1)" using moved_ok [OF m1] assms(2) by simp_all
  have q2: "quiet f1 f2"
    using quiet_shutdown_all [OF ok1] quiet_refl [OF ok1(1)] by (simp add: f2_def srv_shutdown_sessions_def)
  have m2: "moved i ?c f f2" by (rule moved_quiet [OF m1 q2])
  have ok2: "farm_ok f2" "i < length (names f2)" using moved_ok [OF m2] assms(2) by simp_all
  obtain f3 where "in_backend i (pendconn_redistribute (pos_of i f2)) f2 = Some f3" "quiet f2 f3"
    using redistribute_quiet [OF ok2] by blast
  then show ?thesis using moved_quiet [OF m2]
    by (simp add: drop_load_def Let_def server_notes f1_def [symmetric] f2_def [symmetric])
qed

lemma quiet_backend_down: "farm_ok f \<Longrightarrow> quiet f (if b then set_backend_down d i f else f)"
  by (simp add: set_backend_down_def quiet_refl quiet_px px_fixed_def)

lemma go_down_moves:
  assumes "farm_ok f" "i < length (names f)" "variant (sv i f) (h (sv i f))" "0 \<le> eweight (h (sv i f))"
  shows "\<exists>f'. go_down d i (on_server i h f) = Some f' \<and> moved i (SRV_ST_STOPPED, admin (h (sv i f))) f f'"
proof -
  let ?h = "\<lambda>s. (h s)\<lparr>last_change := now_sec d, state := SRV_ST_STOPPED\<rparr>"
  have "variant (sv i f) (?h (sv i f))" "0 \<le> eweight (?h (sv i f))" "\<not> srv_is_usable (?h (sv i f))"
    using assms(3,4) by (simp_all add: variant_def srv_is_usable_def lb_usable_def)
  from drop_load_moves [where h = ?h, OF assms(1,2) this] obtain f1
    where f1: "drop_load True i (on_server i ?h f) = Some f1" "moved i (SRV_ST_STOPPED, admin (h (sv i f))) f f1"
    by auto
  have ok: "farm_ok f1" using moved_ok [OF f1(2)] by simp
  define f2 where "f2 = (if srv_bck (px_of i (on_server i h f)) + srv_act (px_of i (on_server i h f)) \<noteq> 0 \<and> no_server i f1
    then set_backend_down d i f1 else f1)"
  have q: "quiet f1 f2" unfolding f2_def by (rule quiet_backend_down [OF ok])
  then have "quiet f2 (on_info i (\<lambda>s. s\<lparr>down_trans := down_trans s + 1\<rparr>) f2)"
    using quiet_ok by (intro quiet_info) (simp_all add: checkless_def)
  from moved_quiet [OF moved_quiet [OF f1(2) q] this] show ?thesis
    using f1(1) by (simp add: go_down_def Let_def f2_def [symmetric] on_server_on_server [OF assms(1,2)])
qed

lemma enter_drain_moves:
  assumes "farm_ok f" "i < length (names f)" "variant (sv i f) (h (sv i f))" "0 \<le> eweight (h (sv i f))" "in_drain (h (sv i f))"
  shows "\<exists>f'. enter_drain d i (on_server i h f) = Some f' \<and> moved i (state (h (sv i f)), admin (h (sv i f))) f f'"
proof -
  let ?h = "\<lambda>s. (h s)\<lparr>last_change := now_sec d\<rparr>"
  have "variant (sv i f) (?h (sv i f))" "0 \<le> eweight (?h (sv i f))" "\<not> srv_is_usable (?h (sv i f))"
    using assms(3-5) by (simp_all add: variant_def srv_is_usable_def lb_usable_def in_drain_def)
  from drop_load_moves [where h = ?h, OF assms(1,2) this] obtain f1
    where f1: "drop_load False i (on_server i ?h f) = Some f1" "moved i (state (h (sv i f)), admin (h (sv i f))) f f1"
    by auto
  have ok: "farm_ok f1" using moved_ok [OF f1(2)] by simp
  from moved_quiet [OF f1(2) quiet_backend_down [OF ok]] show ?thesis
    using f1(1) by (simp add: enter_drain_def Let_def on_server_on_server [OF assms(1,2)])
qed

end
