(* ===== verification/HA_Server_State_Moves.thy ===== *)
theory HA_Server_State_Moves
  imports HA_Server_State_Frame
begin

section \<open>The outcome of each move of a server\<close>

text \<open>
  On a well-formed farm every move of one server returns, keeps the farm well formed, and changes the
  state and the flags of this server only, as its lemma says.
\<close>

subsection \<open>Notes that leave the servers alone\<close>

definition noted :: "farm \<Rightarrow> farm \<Rightarrow> bool" where
  "noted f f' \<longleftrightarrow> quiet f f' \<and> (\<forall>j. sv j f' = sv j f)"

lemma noted_refl: "farm_ok f \<Longrightarrow> noted f f"
  by (simp add: noted_def quiet_refl)

lemma noted_trans: "noted f g \<Longrightarrow> noted g h \<Longrightarrow> noted f h"
  using quiet_trans by (auto simp: noted_def)

lemma notedD: "noted f f' \<Longrightarrow> quiet f f'" "noted f f' \<Longrightarrow> farm_ok f'" "noted f f' \<Longrightarrow> names f' = names f"
  "noted f f' \<Longrightarrow> sv j f' = sv j f"
  using quiet_ok by (auto simp: noted_def)

lemma noted_info:
  "farm_ok f \<Longrightarrow> (\<And>s. trackers (g s) = trackers s \<and> checkless (g s) = checkless s) \<Longrightarrow> noted f (on_info i g f)"
  by (simp add: noted_def quiet_info server_notes)

lemma noted_px: "farm_ok f \<Longrightarrow> (\<And>p. px_fixed (g p) = px_fixed p) \<Longrightarrow> noted f (on_px i g f)"
  by (simp add: noted_def quiet_px server_notes)

lemma backend_back_noted:
  assumes "farm_ok f"
  shows "\<exists>f1. noted f f1 \<and> backend_back d i (on_server i h f) = on_server i h f1"
proof (cases "no_server i (on_server i h f)")
  case True
  let ?g = "\<lambda>p. p\<lparr>px_down_time := (if px_last_change p < now_sec d then px_down_time p + (now_sec d - px_last_change p)
    else px_down_time p), px_last_change := now_sec d\<rparr>"
  have "noted f (on_px i ?g f)" by (rule noted_px [OF assms]) (simp add: px_fixed_def)
  then show ?thesis using True by (intro exI [of _ "on_px i ?g f"]) (simp add: backend_back_def server_notes)
qed (use noted_refl [OF assms] in \<open>auto simp: backend_back_def\<close>)

lemma count_down_time_noted:
  assumes "farm_ok f"
  shows "\<exists>f1. noted f f1 \<and> count_down_time d i (on_server i h f) = on_server i h f1"
  using noted_refl [OF assms] noted_info [OF assms, of "\<lambda>s. s\<lparr>down_time := down_time s + n\<rparr>" for n]
  by (cases "last_change (sv i (on_server i h f)) < now_sec d") (auto simp: count_down_time_def Let_def server_notes checkless_def)

lemma count_down_time_plain:
  assumes "farm_ok f"
  shows "noted f (count_down_time d i f)"
  using noted_refl [OF assms] by (auto simp: count_down_time_def Let_def checkless_def intro!: noted_info [OF assms])

lemma backend_back_plain:
  assumes "farm_ok f"
  shows "noted f (backend_back d i f)"
  using noted_refl [OF assms] by (auto simp: backend_back_def px_fixed_def intro!: noted_px [OF assms])

definition phase :: "srv_state \<Rightarrow> nat" where
  "phase s = (case s of SRV_ST_STOPPED \<Rightarrow> 0 | SRV_ST_STOPPING \<Rightarrow> 1 | _ \<Rightarrow> 2)"

lemma phase_simps [simp]:
  "phase SRV_ST_STOPPED = 0" "phase SRV_ST_STOPPING = 1" "phase SRV_ST_STARTING = 2" "phase SRV_ST_RUNNING = 2"
  by (simp_all add: phase_def)

lemma phase_0 [simp]: "phase s = 0 \<longleftrightarrow> s = SRV_ST_STOPPED"
  by (cases s) simp_all

lemma phase_pos [simp]: "0 < phase s \<longleftrightarrow> s \<noteq> SRV_ST_STOPPED"
  by (cases s) simp_all

lemma phase_rest: "s \<noteq> SRV_ST_STOPPED \<Longrightarrow> s \<noteq> SRV_ST_STOPPING \<Longrightarrow> phase s = 2"
  by (cases s) simp_all

lemma phase_1: "phase s = 1 \<longleftrightarrow> s = SRV_ST_STOPPING"
  by (cases s) simp_all

lemma phase_2: "phase s = 2 \<longleftrightarrow> s = SRV_ST_STARTING \<or> s = SRV_ST_RUNNING"
  by (cases s) simp_all

lemma new_eweight_phase [simp]: "phase (state (new_eweight now dyn px s)) = phase (state s)"
  by (simp add: new_eweight_def Let_def)

lemma start_server_noted:
  assumes "farm_ok f" "i < length (names f)"
  shows "\<exists>f1 x. noted f f1 \<and> phase x = 2 \<and> start_server d i (on_server i h f) = on_server i (\<lambda>s. (h s)\<lparr>state := x\<rparr>) f1"
proof -
  let ?f = "on_server i (\<lambda>s. (h s)\<lparr>state := SRV_ST_STARTING\<rparr>) f"
  have e: "on_server i (\<lambda>s. s\<lparr>state := SRV_ST_STARTING\<rparr>) (on_server i h f) = ?f"
    by (rule on_server_on_server [OF assms])
  have r: "on_server i (\<lambda>s. s\<lparr>state := SRV_ST_RUNNING\<rparr>) ?f = on_server i (\<lambda>s. (h s)\<lparr>state := SRV_ST_RUNNING\<rparr>) f"
    unfolding on_server_on_server [OF assms] by simp
  have n: "noted f (on_info i (schedule_warmup w) f)" for w
    by (rule noted_info [OF assms(1)]) (simp add: schedule_warmup_def checkless_def)
  show ?thesis
  proof (cases "slowstart (sv i ?f) > 0")
    case True
    have "start_server d i (on_server i h f) = on_server i (\<lambda>s. (h s)\<lparr>state := SRV_ST_STARTING\<rparr>)
        (on_info i (schedule_warmup (tick_add (now_ms d) (warm_delay (sv i ?f)))) f)"
      using True by (simp add: start_server_def e Let_def server_notes)
    then show ?thesis using n phase_simps(3) by blast
  next
    case False
    then have "start_server d i (on_server i h f) = on_server i (\<lambda>s. (h s)\<lparr>state := SRV_ST_RUNNING\<rparr>) f"
      by (simp add: start_server_def e Let_def r)
    then show ?thesis using noted_refl [OF assms(1)] phase_simps(4) by blast
  qed
qed

lemma take_load_moves:
  assumes "farm_ok f" "i < length (names f)" "variant (sv i f) (h (sv i f))"
  shows "\<exists>f' x. take_load d i (on_server i h f) = Some f' \<and> phase x = phase (state (h (sv i f)))
    \<and> moved i (x, admin (h (sv i f))) f f'"
proof -
  let ?s = "new_eweight (now_sec d) (prop_dyn (px_info_of i f)) (px_of i f) (h (sv i f))"
  define f1 where "f1 = server_recalc_eweight d i (on_server i h f)"
  have m1: "moved i (state ?s, admin ?s) f f1" unfolding f1_def by (rule change_recalc [where h = h, OF assms])
  have ok1: "farm_ok f1" "i < length (names f1)" using moved_ok [OF m1] assms(2) by simp_all
  define f2 where "f2 = (if onmarkedup_shutdown (info_of i f1) \<and> \<not> is_backup (sv i f1) \<and> eweight (sv i f1) \<noteq> 0
    then srv_shutdown_backup_sessions i SN_ERR_UP f1 else f1)"
  have q: "quiet f1 f2" using quiet_shutdown_backups [OF ok1] quiet_refl [OF ok1(1)] by (simp add: f2_def)
  have m2: "moved i (state ?s, admin ?s) f f2" by (rule moved_quiet [OF m1 q])
  have ok2: "farm_ok f2" "i < length (names f2)" using moved_ok [OF m2] assms(2) by simp_all
  obtain f3 where "in_backend i (pendconn_grab_from_px (now_sec d) (pos_of i f2)) f2 = Some f3" "quiet f2 f3"
    using grab_quiet [OF ok2] by blast
  then have "take_load d i (on_server i h f) = Some f3" "moved i (state ?s, admin ?s) f f3"
    using moved_quiet [OF m2] by (simp_all add: take_load_def Let_def f1_def [symmetric] f2_def [symmetric])
  then show ?thesis using new_eweight_phase new_eweight_simps(1) by metis
qed

subsection \<open>States\<close>

lemma on_server_id: "on_server i (\<lambda>s. s) f = f"
  by (simp add: on_server_def on_queues_def on_srv_def upd_srv_def)

lemma server_facts:
  assumes "farm_ok f" "i < length (names f)"
  shows "0 \<le> uweight (sv i f)" "0 \<le> eweight (sv i f)" "variant (sv i f) (sv i f)"
proof -
  note d = farm_okD [OF assms]
  show "0 \<le> uweight (sv i f)" using d(3,5) by (simp add: be_ok_def sv_def px_of_def)
  then show "variant (sv i f) (sv i f)" by (simp add: variant_def)
  show "0 \<le> eweight (sv i f)" using d(3,5) by (simp add: be_ok_def sv_def px_of_def backend_ok_def settled_def)
qed

lemma variant_state [simp]:
  "variant t (s\<lparr>state := x\<rparr>) = variant t s" "variant t (s\<lparr>admin := a\<rparr>) = variant t s" "variant t (s\<lparr>last_change := c\<rparr>) = variant t s"
  by (simp_all add: variant_def)

lemma moved_cong: "noted f g \<Longrightarrow> moved i c g h \<Longrightarrow> moved i c f h"
  using quiet_moved notedD(1) by blast

lemma stop_one_moves:
  assumes "farm_ok f" "i < length (names f)"
  shows "\<exists>go f'. stop_one d i f = Some (go, f') \<and>
    (if go then \<not> in_maint (sv i f) \<and> state (sv i f) \<noteq> SRV_ST_STOPPED \<and> moved i (SRV_ST_STOPPED, admin (sv i f)) f f'
     else f' = f \<and> (in_maint (sv i f) \<or> state (sv i f) = SRV_ST_STOPPED))"
proof -
  obtain f' where "go_down d i (on_server i (\<lambda>s. s) f) = Some f'" "moved i (SRV_ST_STOPPED, admin (sv i f)) f f'"
    using go_down_moves [where h = "\<lambda>s. s", OF assms server_facts(3) [OF assms] server_facts(2) [OF assms]] by blast
  then show ?thesis by (auto simp: stop_one_def on_server_id)
qed

lemma stopping_one_moves:
  assumes "farm_ok f" "i < length (names f)"
  shows "\<exists>go f'. stopping_one d i f = Some (go, f') \<and>
    (if go then \<not> in_maint (sv i f) \<and> state (sv i f) \<noteq> SRV_ST_STOPPING \<and> moved i (SRV_ST_STOPPING, admin (sv i f)) f f'
     else f' = f \<and> (in_maint (sv i f) \<or> state (sv i f) = SRV_ST_STOPPING))"
proof -
  let ?h = "\<lambda>s. s\<lparr>last_change := now_sec d, state := SRV_ST_STOPPING\<rparr>"
  have "variant (sv i f) (?h (sv i f))" "0 \<le> eweight (?h (sv i f))" "\<not> srv_is_usable (?h (sv i f))"
    using server_facts [OF assms] by (simp_all add: srv_is_usable_def lb_usable_def)
  from drop_load_moves [where h = ?h, OF assms this] obtain f1
    where f1: "drop_load False i (on_server i ?h f) = Some f1" "moved i (SRV_ST_STOPPING, admin (sv i f)) f f1"
    by auto
  define f2 where "f2 = (if no_server i f1 then set_backend_down d i f1 else f1)"
  have m: "moved i (SRV_ST_STOPPING, admin (sv i f)) f f2"
    unfolding f2_def using moved_quiet [OF f1(2) quiet_backend_down] moved_ok [OF f1(2)] by blast
  show ?thesis
  proof (cases "in_maint (sv i f) \<or> state (sv i f) = SRV_ST_STOPPING")
    case True
    then have "stopping_one d i f = Some (False, f)" by (simp add: stopping_one_def)
    then show ?thesis using True by auto
  next
    case False
    then have "stopping_one d i f = Some (True, f2)" by (simp add: stopping_one_def f1(1) f2_def)
    then show ?thesis using False m by (intro exI [of _ True] exI [of _ f2]) simp
  qed
qed

text \<open>A server that comes back, from a change of flags or of state.\<close>

lemma start_moves:
  assumes "farm_ok f" "i < length (names f)" "variant (sv i f) (h (sv i f))"
  shows "\<exists>f' x. take_load d i (start_server d i (on_server i h f)) = Some f' \<and> phase x = 2 \<and> moved i (x, admin (h (sv i f))) f f'"
proof -
  obtain f1 x where s: "noted f f1" "phase x = 2" "start_server d i (on_server i h f) = on_server i (\<lambda>s. (h s)\<lparr>state := x\<rparr>) f1"
    using start_server_noted [where h = h, OF assms(1,2)] by blast
  have ok: "farm_ok f1" "i < length (names f1)" "variant (sv i f1) ((h (sv i f1))\<lparr>state := x\<rparr>)"
    using notedD(2,3,4) [OF s(1)] assms by simp_all
  from take_load_moves [where h = "\<lambda>s. (h s)\<lparr>state := x\<rparr>" and d = d, OF ok] obtain f' y
    where "take_load d i (on_server i (\<lambda>s. (h s)\<lparr>state := x\<rparr>) f1) = Some f'" "phase y = 2" "moved i (y, admin (h (sv i f1))) f1 f'"
    using s(2) by auto
  then show ?thesis using moved_cong [OF s(1)] notedD(4) [OF s(1)] by (auto simp: s(3))
qed

lemma run_one_moves:
  assumes "farm_ok f" "i < length (names f)"
  shows "\<exists>go f'. run_one d i f = Some (go, f') \<and>
    (if go then \<not> in_maint (sv i f) \<and> phase (state (sv i f)) \<noteq> 2 \<and> (\<exists>x. phase x = 2 \<and> moved i (x, admin (sv i f)) f f')
     else f' = f \<and> (in_maint (sv i f) \<or> phase (state (sv i f)) = 2))"
proof -
  define f1 where "f1 = backend_back d i f"
  define f2 where "f2 = (if state (sv i f1) = SRV_ST_STOPPED then count_down_time d i f1 else f1)"
  have n1: "noted f f1" unfolding f1_def by (rule backend_back_plain [OF assms(1)])
  have n: "noted f f2"
    using noted_trans [OF n1 count_down_time_plain] noted_trans [OF n1 noted_refl] notedD(2) [OF n1] by (simp add: f2_def)
  let ?h = "\<lambda>s. s\<lparr>last_change := now_sec d\<rparr>"
  have ok: "farm_ok f2" "i < length (names f2)" "variant (sv i f2) (?h (sv i f2))"
    using notedD(2,3,4) [OF n] assms server_facts [OF assms] by simp_all
  obtain f' x where "take_load d i (start_server d i (on_server i ?h f2)) = Some f'" "phase x = 2" "moved i (x, admin (sv i f2)) f2 f'"
    using start_moves [where h = ?h and d = d, OF ok] by auto
  then have t: "take_load d i (start_server d i (on_server i ?h f2)) = Some f'" and x: "phase x = 2"
    and m: "moved i (x, admin (sv i f)) f f'"
    using moved_cong [OF n, of i "(x, admin (sv i f2))" f'] notedD(4) [OF n, of i] by simp_all
  show ?thesis
  proof (cases "in_maint (sv i f) \<or> phase (state (sv i f)) = 2")
    case True
    then have "run_one d i f = Some (False, f)" by (auto simp: run_one_def phase_2)
    then show ?thesis using True by auto
  next
    case False
    then have "run_one d i f = Some (True, f')"
      by (simp add: run_one_def phase_2 Let_def f1_def [symmetric] f2_def [symmetric] t)
    moreover have "\<exists>x. phase x = 2 \<and> moved i (x, admin (sv i f)) f f'" using x m by blast
    ultimately show ?thesis using False by (intro exI [of _ True] exI [of _ f']) simp
  qed
qed

subsection \<open>Flags\<close>

text \<open>The bits of a mode.\<close>

lemma flag_bits:
  "(a :: byte) AND 0x1 \<noteq> 0 \<longleftrightarrow> bit a 0" "a AND 0x2 \<noteq> 0 \<longleftrightarrow> bit a 1" "a AND 0x4 \<noteq> 0 \<longleftrightarrow> bit a 2" "a AND 0x8 \<noteq> 0 \<longleftrightarrow> bit a 3"
  "a AND 0x3 \<noteq> 0 \<longleftrightarrow> bit a 0 \<or> bit a 1" "a AND 0xC \<noteq> 0 \<longleftrightarrow> bit a 2 \<or> bit a 3"
proof -
  have p: "a AND 2 ^ n \<noteq> 0 \<longleftrightarrow> bit a n" for n by (simp add: and_exp_eq_0_iff_not_bit)
  show one: "a AND 0x1 \<noteq> 0 \<longleftrightarrow> bit a 0" "a AND 0x2 \<noteq> 0 \<longleftrightarrow> bit a 1" "a AND 0x4 \<noteq> 0 \<longleftrightarrow> bit a 2" "a AND 0x8 \<noteq> 0 \<longleftrightarrow> bit a 3"
    using p [of 0] p [of 1] p [of 2] p [of 3] by simp_all
  have "a AND 0x3 = (a AND 0x1) OR (a AND 0x2)" "a AND 0xC = (a AND 0x4) OR (a AND 0x8)"
    by (simp_all flip: bit.conj_disj_distrib)
  then show "a AND 0x3 \<noteq> 0 \<longleftrightarrow> bit a 0 \<or> bit a 1" "a AND 0xC \<noteq> 0 \<longleftrightarrow> bit a 2 \<or> bit a 3"
    using one by (simp_all add: or_eq_0_iff)
qed

lemma maint_bits: "in_maint s \<longleftrightarrow> bit (admin s) 0 \<or> bit (admin s) 1" "in_drain s \<longleftrightarrow> bit (admin s) 2 \<or> bit (admin s) 3"
  by (simp_all add: in_maint_def in_drain_def flag_bits)

definition is_flag :: "byte \<Rightarrow> nat \<Rightarrow> bool" where
  "is_flag mode n \<longleftrightarrow> mode = 2 ^ n \<and> n < 4"

lemma flag_of_mode:
  assumes "is_flag mode n"
  shows "mode \<noteq> 0" "a AND mode \<noteq> 0 \<longleftrightarrow> bit a n" "bit (a OR mode) k \<longleftrightarrow> bit a k \<or> k = n"
    "bit (a AND NOT mode) k \<longleftrightarrow> bit a k \<and> k \<noteq> n" "mode AND SRV_ADMF_MAINT \<noteq> 0 \<longleftrightarrow> n < 2" "mode AND SRV_ADMF_DRAIN \<noteq> 0 \<longleftrightarrow> 2 \<le> n"
proof -
  have m: "mode = 2 ^ n" and n: "n < 4" using assms by (simp_all add: is_flag_def)
  have b: "bit mode k \<longleftrightarrow> k = n" for k using n by (auto simp: m bit_exp_iff)
  show "mode \<noteq> 0" using b [of n] by auto
  show "a AND mode \<noteq> 0 \<longleftrightarrow> bit a n" unfolding m by (simp add: and_exp_eq_0_iff_not_bit)
  show "bit (a OR mode) k \<longleftrightarrow> bit a k \<or> k = n" by (simp add: bit_or_iff b)
  show "bit (a AND NOT mode) k \<longleftrightarrow> bit a k \<and> k \<noteq> n" using bit_imp_le_length [of a k] by (auto simp: bit_and_iff bit_not_iff b)
  show "mode AND SRV_ADMF_MAINT \<noteq> 0 \<longleftrightarrow> n < 2" "mode AND SRV_ADMF_DRAIN \<noteq> 0 \<longleftrightarrow> 2 \<le> n"
    using n unfolding flag_bits b by auto
qed

text \<open>The other flag of a mode.\<close>

definition twin :: "nat \<Rightarrow> nat" where
  "twin n = (if even n then n + 1 else n - 1)"

lemma twin_simps [simp]: "twin 0 = 1" "twin (Suc 0) = 0" "twin 2 = 3" "twin 3 = 2"
  by (simp_all add: twin_def)

lemma four: "n < 4 \<longleftrightarrow> n = 0 \<or> n = Suc 0 \<or> n = 2 \<or> (n :: nat) = 3"
  by arith

lemma both_flags_twin: "is_flag mode n \<Longrightarrow> \<not> bit a n \<Longrightarrow> both_flags mode a \<longleftrightarrow> bit a (twin n)"
proof -
  assume m: "is_flag mode n" and a: "\<not> bit a n"
  then have "n < 4" by (simp add: is_flag_def)
  then show ?thesis using a unfolding both_flags_def flag_of_mode(5,6) [OF m] unfolding flag_bits by (auto simp: four)
qed

lemma usable_iff: "srv_is_usable s \<longleftrightarrow> eweight s \<noteq> 0 \<and> \<not> in_maint s \<and> \<not> in_drain s \<and> phase (state s) = 2"
  by (cases "state s") (auto simp: srv_is_usable_def lb_usable_def in_maint_def in_drain_def)

lemma enabled_bit:
  "((x :: u32) OR CHK_ST_PAUSED) AND CHK_ST_ENABLED = x AND CHK_ST_ENABLED"
  "(x AND NOT CHK_ST_PAUSED) AND CHK_ST_ENABLED = x AND CHK_ST_ENABLED"
  "(x AND NOT CHK_ST_INPROGRESS) AND CHK_ST_ENABLED = x AND CHK_ST_ENABLED"
  "(x AND - 9) AND CHK_ST_ENABLED = x AND CHK_ST_ENABLED" "(x AND - 2) AND CHK_ST_ENABLED = x AND CHK_ST_ENABLED"
  by (simp_all add: bit.conj_disj_distrib2 and.assoc)

lemma pause_frame:
  "trackers (pause_checks s) = trackers s \<and> checkless (pause_checks s) = checkless s"
  "trackers (resume_checks s) = trackers s \<and> checkless (resume_checks s) = checkless s"
  by (simp_all add: pause_checks_def resume_checks_def checkless_def has_st_def enabled_bit)

lemma health_update_frame:
  assumes "\<And>c. chk_state (g c) AND CHK_ST_ENABLED = chk_state c AND CHK_ST_ENABLED"
  shows "trackers (on_check w g s) = trackers s \<and> checkless (on_check w g s) = checkless s"
  using assms by (cases w) (simp_all add: checkless_def has_st_def)

lemma set_flag_moves:
  assumes "farm_ok f" "i < length (names f)" "is_flag mode n"
  shows "\<exists>go f'. set_flag_one d mode i f = Some (go, f') \<and>
    (if bit (admin (sv i f)) n then \<not> go \<and> f' = f
     else if bit (admin (sv i f)) (twin n) then \<not> go \<and> moved i (state (sv i f), admin (sv i f) OR mode) f f'
     else go \<and> moved i (if n < 2 then SRV_ST_STOPPED else state (sv i f), admin (sv i f) OR mode) f f')"
proof (cases "bit (admin (sv i f)) n")
  case True
  then show ?thesis by (intro exI [of _ False] exI [of _ f]) (simp add: set_flag_one_def flag_of_mode(2) [OF assms(3)])
next
  case new: False
  let ?a = "admin (sv i f)" and ?h = "\<lambda>s. s\<lparr>admin := admin s OR mode\<rparr>"
  define f1 where "f1 = on_server i ?h f"
  note m = flag_of_mode [OF assms(3)] and facts = server_facts [OF assms(1,2)]
  have n4: "n < 4" using assms(3) by (simp add: is_flag_def)
  have sv1: "sv i f1 = ?h (sv i f)" unfolding f1_def by (simp add: sv_on_server [OF assms(1,2,2)])
  have still: "(?a OR mode) AND NOT mode = ?a" using new by (intro bit_word_eqI) (auto simp: m(3,4))
  have both: "both_flags mode (admin (sv i f1) AND NOT mode) \<longleftrightarrow> bit ?a (twin n)"
    using both_flags_twin [OF assms(3) new] by (simp add: sv1 still)
  have seen: "moved i (state (sv i f), ?a OR mode) f f1" if "\<not> srv_is_usable (sv i f)"
    unfolding f1_def using change_unseen [where h = ?h, OF assms(1,2)] that facts(3)
    by (simp add: usable_iff maint_bits m(3)) blast
  show ?thesis
  proof (cases "bit ?a (twin n)")
    case True
    then have "\<not> srv_is_usable (sv i f)" using n4 by (auto simp: usable_iff maint_bits four)
    from seen [OF this] show ?thesis using new True both
      by (intro exI [of _ False] exI [of _ f1]) (simp add: set_flag_one_def m(1,2) Let_def f1_def [symmetric])
  next
    case twin: False
    have e: "set_flag_one d mode i f = do {
        f \<leftarrow> (if n < 2 then (let f = on_info i pause_checks f1 in if state (sv i f) = SRV_ST_STOPPED then Some f
               else go_down d i (on_info i (on_check Health (\<lambda>c. c\<lparr>health := 0\<rparr>)) f)) else Some f1);
        f \<leftarrow> (if 2 \<le> n \<and> \<not> in_maint (sv i f) then enter_drain d i f else Some f);
        Some (True, f) }"
      using new twin both by (simp add: set_flag_one_def m(1,2,5,6) Let_def f1_def [symmetric])
    consider (stopped) "n < 2" "state (sv i f) = SRV_ST_STOPPED" | (up) "n < 2" "state (sv i f) \<noteq> SRV_ST_STOPPED"
      | (maint) "2 \<le> n" "in_maint (sv i f)" | (drain) "2 \<le> n" "\<not> in_maint (sv i f)" by linarith
    then have "\<exists>f'. set_flag_one d mode i f = Some (True, f') \<and> moved i (if n < 2 then SRV_ST_STOPPED else state (sv i f), ?a OR mode) f f'"
    proof cases
      case stopped
      then have "moved i (state (sv i f), ?a OR mode) f f1" by (intro seen) (simp add: usable_iff)
      moreover have "noted f1 (on_info i pause_checks f1)"
        using moved_ok [OF calculation] by (intro noted_info pause_frame) blast
      ultimately have "moved i (state (sv i f), ?a OR mode) f (on_info i pause_checks f1)"
        using moved_quiet notedD(1) by blast
      then show ?thesis using stopped by (simp add: e Let_def server_notes sv1)
    next
      case up
      let ?g = "on_check Health (\<lambda>c. c\<lparr>health := 0\<rparr>)"
      define f2 where "f2 = on_info i ?g (on_info i pause_checks f)"
      have q1: "noted f (on_info i pause_checks f)" by (rule noted_info [OF assms(1)]) (rule pause_frame)
      have q2: "noted (on_info i pause_checks f) f2"
        unfolding f2_def by (rule noted_info [OF notedD(2) [OF q1]]) (simp add: checkless_def has_st_def)
      have q: "noted f f2" by (rule noted_trans [OF q1 q2])
      have c: "on_info i ?g (on_info i pause_checks f1) = on_server i ?h f2"
        by (simp add: f1_def f2_def server_notes)
      have ok: "farm_ok f2" "i < length (names f2)" "variant (sv i f2) (?h (sv i f2))" "0 \<le> eweight (?h (sv i f2))"
        using notedD(2-4) [OF q] assms(2) facts by simp_all
      obtain f' where "go_down d i (on_server i ?h f2) = Some f'" "moved i (SRV_ST_STOPPED, admin (?h (sv i f2))) f2 f'"
        using go_down_moves [where h = ?h and d = d, OF ok] by blast
      then show ?thesis using up moved_cong [OF q] notedD(4) [OF q] by (simp add: e Let_def c server_notes sv1)
    next
      case maint
      then have in_maint1: "in_maint (sv i f1)" by (auto simp: sv1 maint_bits m(3))
      from maint have "moved i (state (sv i f), ?a OR mode) f f1" by (intro seen) (simp add: usable_iff)
      then show ?thesis using maint in_maint1 by (simp add: e)
    next
      case drain
      have "n = 2 \<or> n = 3" using drain(1) n4 by linarith
      then have out: "\<not> in_maint (sv i f1)" using drain(2) by (auto simp: sv1 maint_bits m(3))
      have "n = 2 \<or> n = 3" using drain(1) n4 by linarith
      then have "in_drain (?h (sv i f))" by (auto simp: maint_bits m(3))
      then obtain f' where "enter_drain d i (on_server i ?h f) = Some f'" "moved i (state (sv i f), ?a OR mode) f f'"
        using enter_drain_moves [where h = ?h and d = d, OF assms(1,2)] facts by auto
      then have "enter_drain d i f1 = Some f'" "moved i (state (sv i f), ?a OR mode) f f'" by (simp_all add: f1_def)
      then show ?thesis using drain out by (simp add: e)
    qed
    then show ?thesis using new twin by auto
  qed
qed

text \<open>Leaving maintenance.  \<open>tracked_phase\<close> is the phase that a server without checks takes from the one it tracks.\<close>

definition tracked_phase :: "nat \<Rightarrow> farm \<Rightarrow> nat" where
  "tracked_phase i f = (case track (sv i f) of None \<Rightarrow> 2 | Some t \<Rightarrow> phase (state (sv t f)))"

definition tracks_named :: "nat \<Rightarrow> farm \<Rightarrow> bool" where
  "tracks_named i f \<longleftrightarrow> (\<forall>t. track (sv i f) = Some t \<longrightarrow> t < length (names f))"

lemma leave_maint_moves:
  assumes "farm_ok f" "i < length (names f)" "variant (sv i f) (h (sv i f))" "tracks_named i f"
    and h: "state (h (sv i f)) = SRV_ST_STOPPED" "eweight (h (sv i f)) = eweight (sv i f)" "state (sv i f) = SRV_ST_STOPPED"
  shows "\<exists>f' x. leave_maint d i (on_server i h f) = Some f' \<and> moved i (x, admin (h (sv i f))) f f'
    \<and> (checkless (info_of i f) \<longrightarrow> phase x = tracked_phase i f)"
proof -
  define f1 where "f1 = on_info i resume_checks f"
  have n1: "noted f f1" unfolding f1_def by (rule noted_info [OF assms(1)]) (rule pause_frame)
  have f1: "on_info i resume_checks (on_server i h f) = on_server i h f1" by (simp add: f1_def server_notes)
  let ?f = "on_server i h f1"
  have ok1: "farm_ok f1" "i < length (names f1)" using notedD(2,3) [OF n1] assms(2) by simp_all
  have tr: "track (sv i ?f) = track (sv i f)"
    using assms(3) notedD(4) [OF n1] sv_on_server [OF ok1 ok1(2)] by (simp add: variant_def)
  have svt: "state (sv t ?f) = state (sv t f)" if "track (sv i f) = Some t" for t
  proof -
    have "t < length (names f1)" using that assms(4) notedD(3) [OF n1] by (simp add: tracks_named_def)
    then show ?thesis using sv_on_server [OF ok1, of t h] notedD(4) [OF n1] h by simp
  qed
  have less: "checkless (info_of i f) \<Longrightarrow> passes (chk_agent (info_of i ?f)) \<and> passes (chk_health (info_of i ?f))"
    using n1 assms(2) by (auto simp: noted_def quiet_def steady_def server_notes checkless_def passes_def)
  show ?thesis
  proof (cases "up_again i ?f")
    case False
    have u: "\<not> srv_is_usable (h (sv i f1))" "\<not> srv_is_usable (sv i f1)" using h notedD(4) [OF n1] by (simp_all add: usable_iff)
    have "moved i (state (h (sv i f1)), admin (h (sv i f1))) f1 ?f"
      using change_unseen [where h = h, OF ok1] assms(3) h(2) u notedD(4) [OF n1] by simp
    then have m: "moved i (SRV_ST_STOPPED, admin (h (sv i f))) f ?f"
      using moved_cong [OF n1] notedD(4) [OF n1] h(1) by simp
    have "phase SRV_ST_STOPPED = tracked_phase i f" if pure: "checkless (info_of i f)"
    proof -
      obtain t where "track (sv i f) = Some t" "state (sv t ?f) = SRV_ST_STOPPED"
        using False less [OF pure] tr by (auto simp: up_again_def split: option.splits)
      then show ?thesis using svt by (simp add: tracked_phase_def)
    qed
    then show ?thesis using False m by (intro exI [of _ ?f] exI [of _ SRV_ST_STOPPED]) (simp add: leave_maint_def f1)
  next
    case True
    obtain f2 where f2: "noted f1 f2" "backend_back d i ?f = on_server i h f2"
      using backend_back_noted [OF ok1(1)] by blast
    obtain f3 where f3: "noted f2 f3" "count_down_time d i (on_server i h f2) = on_server i h f3"
      using count_down_time_noted [OF notedD(2) [OF f2(1)]] by blast
    let ?h = "\<lambda>s. (h s)\<lparr>last_change := now_sec d\<rparr>"
    have n: "noted f f3" using noted_trans [OF n1] noted_trans [OF f2(1) f3(1)] by blast
    have ok: "farm_ok f3" "i < length (names f3)" "variant (sv i f3) (?h (sv i f3))"
      using notedD(2-4) [OF n] assms(2,3) by simp_all
    define f4 where "f4 = on_server i ?h f3"
    have s4: "on_server i (\<lambda>s. s\<lparr>last_change := now_sec d\<rparr>) (count_down_time d i (backend_back d i ?f)) = f4"
      by (simp add: f2 f3 f4_def on_server_on_server [OF ok(1,2)])
    have st: "tracks_stopping i f4 \<longleftrightarrow> (\<exists>t. track (sv i f) = Some t \<and> state (sv t f) = SRV_ST_STOPPING)"
    proof -
      have "track (sv i f4) = track (sv i f)"
        using assms(3) notedD(4) [OF n] sv_on_server [OF ok(1,2,2)] by (simp add: f4_def variant_def)
      moreover have "state (sv t f4) = state (sv t f)" if "track (sv i f) = Some t" for t
      proof -
        have "t < length (names f3)" using that assms(4) notedD(3) [OF n] by (simp add: tracks_named_def)
        then show ?thesis using sv_on_server [OF ok(1,2), of t ?h] notedD(4) [OF n] h by (simp add: f4_def)
      qed
      ultimately show ?thesis by (auto simp: tracks_stopping_def split: option.splits)
    qed
    have up: "tracked_phase i f \<noteq> 0" using True tr svt by (auto simp: up_again_def tracked_phase_def split: option.splits)
    show ?thesis
    proof (cases "tracks_stopping i f4")
      case True
      let ?g = "\<lambda>s. (?h s)\<lparr>state := SRV_ST_STOPPING\<rparr>"
      have "variant (sv i f3) (?g (sv i f3))" using ok(3) by simp
      from take_load_moves [where h = ?g and d = d, OF ok(1,2) this] obtain f' x
        where t: "take_load d i (on_server i ?g f3) = Some f'" "phase x = 1" "moved i (x, admin (h (sv i f3))) f3 f'" by auto
      have "leave_maint d i (on_server i h f) = take_load d i (on_server i ?g f3)"
        using \<open>up_again i ?f\<close> True
        by (simp add: leave_maint_def Let_def f1 s4 [simplified Let_def]) (simp add: f4_def on_server_on_server [OF ok(1,2)])
      moreover have "phase x = tracked_phase i f" using True t(2) st by (auto simp: tracked_phase_def)
      moreover have "moved i (x, admin (h (sv i f))) f f'" using moved_cong [OF n t(3)] notedD(4) [OF n] by simp
      ultimately show ?thesis using t(1) by (intro exI [of _ f'] exI [of _ x]) simp
    next
      case False
      from start_moves [where h = ?h and d = d, OF ok] obtain f' x
        where t: "take_load d i (start_server d i (on_server i ?h f3)) = Some f'" "phase x = 2" "moved i (x, admin (h (sv i f3))) f3 f'"
        by auto
      have "leave_maint d i (on_server i h f) = take_load d i (start_server d i f4)"
        using \<open>up_again i ?f\<close> False by (simp add: leave_maint_def Let_def f1 s4)
      moreover have "phase x = tracked_phase i f"
      proof (cases "track (sv i f)")
        case None
        then show ?thesis using t(2) by (simp add: tracked_phase_def)
      next
        case (Some u)
        then have "state (sv u f) \<noteq> SRV_ST_STOPPED" "state (sv u f) \<noteq> SRV_ST_STOPPING"
          using up st False by (simp_all add: tracked_phase_def)
        then show ?thesis using Some t(2) by (simp add: tracked_phase_def phase_rest)
      qed
      moreover have "moved i (x, admin (h (sv i f))) f f'" using moved_cong [OF n t(3)] notedD(4) [OF n] by simp
      ultimately show ?thesis using t(1) by (intro exI [of _ f'] exI [of _ x]) (simp add: f4_def)
    qed
  qed
qed

lemma leave_drain_moves:
  assumes "farm_ok f" "i < length (names f)" "variant (sv i f) (h (sv i f))"
  shows "\<exists>x. phase x = phase (state (h (sv i f))) \<and> moved i (x, admin (h (sv i f))) f (leave_drain d i (on_server i h f))"
proof -
  obtain f2 where f2: "noted f f2" "backend_back d i (on_server i h f) = on_server i h f2"
    using backend_back_noted [OF assms(1)] by blast
  obtain f3 where f3: "noted f2 f3" "count_down_time d i (on_server i h f2) = on_server i h f3"
    using count_down_time_noted [OF notedD(2) [OF f2(1)]] by blast
  let ?h = "\<lambda>s. (h s)\<lparr>last_change := now_sec d\<rparr>"
  have n: "noted f f3" by (rule noted_trans [OF f2(1) f3(1)])
  have ok: "farm_ok f3" "i < length (names f3)" "variant (sv i f3) (?h (sv i f3))"
    using notedD(2-4) [OF n] assms(2,3) by simp_all
  let ?s = "new_eweight (now_sec d) (prop_dyn (px_info_of i f3)) (px_of i f3) (?h (sv i f3))"
  have "moved i (state ?s, admin ?s) f3 (server_recalc_eweight d i (on_server i ?h f3))"
    by (rule change_recalc [where h = ?h, OF ok])
  then have "moved i (state ?s, admin (h (sv i f))) f (server_recalc_eweight d i (on_server i ?h f3))"
    using moved_cong [OF n] notedD(4) [OF n, of i] by simp
  then have "moved i (state ?s, admin (h (sv i f))) f (leave_drain d i (on_server i h f))"
    unfolding leave_drain_def f2(2) f3(2) on_server_on_server [OF ok(1,2)] .
  moreover have "phase (state ?s) = phase (state (h (sv i f)))" using notedD(4) [OF n] by simp
  ultimately show ?thesis by blast
qed

lemma clr_flag_moves:
  assumes "farm_ok f" "i < length (names f)" "is_flag mode n" "tracks_named i f"
    "in_maint (sv i f) \<longrightarrow> state (sv i f) = SRV_ST_STOPPED"
  shows "\<exists>go f'. clr_flag_one d mode i f = Some (go, f') \<and>
    (if \<not> bit (admin (sv i f)) n then \<not> go \<and> f' = f
     else if bit (admin (sv i f)) (twin n) then \<not> go \<and> moved i (state (sv i f), admin (sv i f) AND NOT mode) f f'
     else go \<and> (\<exists>x. moved i (x, admin (sv i f) AND NOT mode) f f' \<and>
       (if n < 2 then checkless (info_of i f) \<longrightarrow> phase x = tracked_phase i f else phase x = phase (state (sv i f)))))"
proof (cases "bit (admin (sv i f)) n")
  case False
  then show ?thesis by (intro exI [of _ False] exI [of _ f]) (simp add: clr_flag_one_def flag_of_mode(2) [OF assms(3)])
next
  case flag: True
  let ?a = "admin (sv i f)" and ?h = "\<lambda>s. s\<lparr>admin := admin s AND NOT mode\<rparr>"
  define f1 where "f1 = on_server i ?h f"
  note m = flag_of_mode [OF assms(3)] and facts = server_facts [OF assms(1,2)]
  have n4: "n < 4" using assms(3) by (simp add: is_flag_def)
  have sv1: "sv i f1 = ?h (sv i f)" unfolding f1_def by (simp add: sv_on_server [OF assms(1,2,2)])
  have "both_flags mode (?a AND NOT mode) \<longleftrightarrow> bit (?a AND NOT mode) (twin n)"
    by (rule both_flags_twin [OF assms(3)]) (simp add: m(4))
  moreover have "twin n \<noteq> n" using n4 by (auto simp: four)
  ultimately have both: "both_flags mode (admin (sv i f1)) \<longleftrightarrow> bit ?a (twin n)" by (simp add: sv1 m(4))
  have e: "clr_flag_one d mode i f = map_option (Pair (\<not> bit ?a (twin n)))
      (if in_maint (sv i f1) then Some f1 else if n < 2 then leave_maint d i f1
       else if in_drain (sv i f1) then Some f1 else Some (leave_drain d i f1))"
    using flag n4 both m(2) [of ?a] by (simp add: clr_flag_one_def m(1,5,6) Let_def f1_def [symmetric])
  have seen: "moved i (state (sv i f), ?a AND NOT mode) f f1" if "\<not> srv_is_usable (sv i f)" "\<not> srv_is_usable (?h (sv i f))"
    unfolding f1_def using change_unseen [where h = ?h, OF assms(1,2)] that facts(3) by simp
  have bits: "in_maint (sv i f1) \<longleftrightarrow> bit ?a 0 \<and> n \<noteq> 0 \<or> bit ?a 1 \<and> n \<noteq> 1"
    "in_drain (sv i f1) \<longleftrightarrow> bit ?a 2 \<and> n \<noteq> 2 \<or> bit ?a 3 \<and> n \<noteq> 3" by (auto simp: sv1 maint_bits m(4))
  have old: "\<not> srv_is_usable (sv i f)" using flag n4 by (auto simp: usable_iff maint_bits four)
  show ?thesis
  proof (cases "bit ?a (twin n)")
    case True
    have "n = 0 \<or> n = 1 \<or> n = 2 \<or> n = 3" using n4 by arith
    then have kept: "in_maint (sv i f1) \<and> n < 2 \<or> in_drain (sv i f1) \<and> \<not> n < 2"
      using True unfolding bits by (elim disjE) simp_all
    then have "\<not> srv_is_usable (?h (sv i f))" by (auto simp: usable_iff sv1)
    from seen [OF old this] show ?thesis
      using flag True kept by (intro exI [of _ False] exI [of _ f1]) (auto simp: e)
  next
    case twin: False
    have "\<exists>f' x. clr_flag_one d mode i f = Some (True, f') \<and> moved i (x, ?a AND NOT mode) f f' \<and>
      (if n < 2 then checkless (info_of i f) \<longrightarrow> phase x = tracked_phase i f else phase x = phase (state (sv i f)))"
    proof (cases "n < 2")
      case True
      then have out: "\<not> in_maint (sv i f1)" using twin bits by (auto simp: less_2_cases_iff)
      have "in_maint (sv i f)" using flag True by (auto simp: maint_bits less_2_cases_iff)
      then have "state (sv i f) = SRV_ST_STOPPED" using assms(5) by blast
      then obtain f' x where "leave_maint d i f1 = Some f'" "moved i (x, ?a AND NOT mode) f f'"
        "checkless (info_of i f) \<longrightarrow> phase x = tracked_phase i f"
        using leave_maint_moves [where h = ?h and d = d, OF assms(1,2) _ assms(4)] facts(3) by (auto simp: f1_def)
      then show ?thesis using True out twin by (intro exI [of _ f'] exI [of _ x]) (simp add: e)
    next
      case drain: False
      then have out: "\<not> in_drain (sv i f1)" using n4 twin bits by (auto simp: four)
      show ?thesis
      proof (cases "in_maint (sv i f1)")
        case True
        then have "\<not> srv_is_usable (?h (sv i f))" by (simp add: usable_iff sv1)
        from seen [OF old this] show ?thesis using True drain twin
          by (intro exI [of _ f1] exI [of _ "state (sv i f)"]) (simp add: e)
      next
        case False
        obtain x where "phase x = phase (state (sv i f))" "moved i (x, ?a AND NOT mode) f (leave_drain d i f1)"
          using leave_drain_moves [where h = ?h and d = d, OF assms(1,2)] facts(3) by (auto simp: f1_def)
        then show ?thesis using False drain twin out by (intro exI [of _ "leave_drain d i f1"] exI [of _ x]) (simp add: e)
      qed
    qed
    then obtain f' x where r: "clr_flag_one d mode i f = Some (True, f')" "moved i (x, ?a AND NOT mode) f f'"
      "if n < 2 then checkless (info_of i f) \<longrightarrow> phase x = tracked_phase i f else phase x = phase (state (sv i f))"
      by blast
    then have "\<exists>x. moved i (x, ?a AND NOT mode) f f' \<and>
        (if n < 2 then checkless (info_of i f) \<longrightarrow> phase x = tracked_phase i f else phase x = phase (state (sv i f)))"
      by blast
    then show ?thesis using flag twin r(1) by (intro exI [of _ True] exI [of _ f']) (simp only: if_True if_False simp_thms)
  qed
qed

end
