(* ===== verification/HA_Server_State_Proofs.thy ===== *)
theory HA_Server_State_Proofs
  imports HA_Server_State_Moves
begin

section \<open>Servers that track others\<close>

text \<open>
  A move of a server goes to the servers that track it, and from them on.  The invariant of the farm
  says that a server inherits the flags of the one it tracks, is stopped when in maintenance, and
  otherwise, unless it has checks of its own, is in the phase of the one it tracks.  During a move
  the servers still to be visited break it; the locale below states what a move of one server must do
  so that the recursion ends and restores it.
\<close>

subsection \<open>The recursion\<close>

locale propagation =
  fixes move :: "nat \<Rightarrow> farm \<Rightarrow> (bool \<times> farm) option"
    and ok :: "nat set \<Rightarrow> farm \<Rightarrow> bool"
    and ready :: "nat \<Rightarrow> farm \<Rightarrow> bool"
    and left :: "farm \<Rightarrow> nat"
    and calm :: "farm \<Rightarrow> farm \<Rightarrow> bool"
  assumes step: "\<lbrakk>ok X f; i < length (names f); ready i f; \<forall>x \<in> X. ready x f\<rbrakk> \<Longrightarrow>
      \<exists>go f'. move i f = Some (go, f') \<and> calm f f' \<and> (\<forall>j < length (names f). ready j f \<longrightarrow> ready j f')
        \<and> left f' \<le> left f \<and> (go \<longrightarrow> left f' < left f)
        \<and> ok (X - {i} \<union> (if go then set (trackers (info_of i f)) else {})) f'
        \<and> (go \<longrightarrow> (\<forall>t \<in> set (trackers (info_of i f)). ready t f'))"
    and ok_farm: "ok X f \<Longrightarrow> farm_ok f \<and> X \<subseteq> {..<length (names f)}"
    and ok_mono: "ok X f \<Longrightarrow> X \<subseteq> Y \<Longrightarrow> Y \<subseteq> {..<length (names f)} \<Longrightarrow> ok Y f"
    and calm_steady: "calm f g \<Longrightarrow> steady f g"
    and calm_refl: "calm f f"
    and calm_trans: "calm f g \<Longrightarrow> calm g h \<Longrightarrow> calm f h"
begin

definition leads :: "nat set \<Rightarrow> farm \<Rightarrow> farm \<Rightarrow> bool" where
  "leads X f f' \<longleftrightarrow> ok X f' \<and> calm f f' \<and> (\<forall>j < length (names f). ready j f \<longrightarrow> ready j f') \<and> left f' \<le> left f"

lemma leads_trans: "leads X f g \<Longrightarrow> leads Y g h \<Longrightarrow> leads Y f h"
  using calm_trans [of f g h] steady_names [OF calm_steady, of f g] by (simp add: leads_def)

lemma each_leads:
  assumes "\<And>i f X. ok X f \<Longrightarrow> i < length (names f) \<Longrightarrow> ready i f \<Longrightarrow> \<forall>x \<in> X. ready x f \<Longrightarrow> left f \<le> n \<Longrightarrow>
      \<exists>f'. g i f = Some f' \<and> leads (X - {i}) f f'"
    and "ok (X \<union> set is) f" "set is \<subseteq> {..<length (names f)}" "\<forall>x \<in> X \<union> set is. ready x f" "left f \<le> n"
  shows "\<exists>f'. each g is f = Some f' \<and> leads X f f'"
  using assms(2-5)
proof (induction "is" arbitrary: f X)
  case Nil
  then show ?case by (simp add: leads_def calm_refl)
next
  case (Cons i "is")
  have "\<exists>f1. g i f = Some f1 \<and> leads (X \<union> set (i # is) - {i}) f f1"
    by (rule assms(1) [OF Cons.prems(1)]) (use Cons.prems in auto)
  then obtain f1 where f1: "g i f = Some f1" "leads (X \<union> set (i # is) - {i}) f f1" by blast
  have n: "names f1 = names f" using f1(2) steady_names calm_steady by (simp add: leads_def)
  have valid: "X \<union> set (i # is) \<subseteq> {..<length (names f)}" using ok_farm [OF Cons.prems(1)] by blast
  have "ok (X \<union> set (i # is) - {i}) f1" using f1(2) by (simp add: leads_def)
  then have "ok (X \<union> set is) f1"
    by (rule ok_mono) (use valid n in auto)
  moreover have "\<forall>x \<in> X \<union> set is. ready x f1" using Cons.prems(3) valid f1(2) by (auto simp: leads_def)
  moreover have "left f1 \<le> n" using f1(2) Cons.prems(4) by (simp add: leads_def)
  ultimately obtain f2 where "each g is f1 = Some f2" "leads X f1 f2"
    using Cons.IH [of X f1] Cons.prems(2) n by auto
  then show ?case using f1 leads_trans by auto
qed

lemma propagate_leads:
  assumes "ok X f" "i < length (names f)" "ready i f" "\<forall>x \<in> X. ready x f" "left f < n"
  shows "\<exists>f'. propagate n move move i f = Some f' \<and> leads (X - {i}) f f'"
  using assms
proof (induction n arbitrary: i f X)
  case (Suc n)
  obtain go f1 where m: "move i f = Some (go, f1)" "calm f f1" "\<forall>j < length (names f). ready j f \<longrightarrow> ready j f1"
      "left f1 \<le> left f" "go \<longrightarrow> left f1 < left f" "ok (X - {i} \<union> (if go then set (trackers (info_of i f)) else {})) f1"
      "go \<longrightarrow> (\<forall>t \<in> set (trackers (info_of i f)). ready t f1)"
    using step [OF Suc.prems(1-4)] by blast
  have n1: "names f1 = names f" and tr: "trackers (info_of i f1) = trackers (info_of i f)"
    using calm_steady [OF m(2)] Suc.prems(2) by (simp_all add: steady_def)
  have a: "leads (X - {i}) f f1" if "\<not> go" using m that by (simp add: leads_def)
  show ?case
  proof (cases go)
    case True
    let ?ts = "trackers (info_of i f)"
    have X: "X \<subseteq> {..<length (names f)}" using ok_farm [OF Suc.prems(1)] by blast
    have "\<exists>f'. each (propagate n move move) ?ts f1 = Some f' \<and> leads (X - {i}) f1 f'"
    proof (rule each_leads [where n = "left f1"])
      show "\<exists>f'. propagate n move move j g = Some f' \<and> leads (Y - {j}) g f'"
        if "ok Y g" "j < length (names g)" "ready j g" "\<forall>x \<in> Y. ready x g" "left g \<le> left f1" for j g Y
        using Suc.IH [OF that(1-4)] that(5) m(5) True Suc.prems(5) by simp
      show "ok (X - {i} \<union> set ?ts) f1" using m(6) True by simp
      show "set ?ts \<subseteq> {..<length (names f1)}" using ok_farm [OF m(6)] True by auto
      show "\<forall>x \<in> X - {i} \<union> set ?ts. ready x f1" using m(3,7) True Suc.prems(4) X by auto
    qed simp
    then obtain f2 where "each (propagate n move move) ?ts f1 = Some f2" "leads (X - {i}) f1 f2" by blast
    moreover have "leads (X - {i}) f f2"
      using calculation(2) m(2-4) n1 calm_trans [of f f1 f2] by (auto simp: leads_def)
    ultimately show ?thesis using True m(1) tr by simp
  next
    case False
    then show ?thesis using a m(1) by simp
  qed
qed simp

lemma propagate_root:
  assumes "ok {} f" "i < length (names f)" "ready i f" "left f < n"
  shows "\<exists>f'. propagate n move move i f = Some f' \<and> ok {} f' \<and> calm f f'"
  using propagate_leads [OF assms(1-3) _ assms(4)] by (auto simp: leads_def)

text \<open>A first move of another kind, as the forced flag before the inherited ones.\<close>

lemma propagate_from:
  assumes "first i f = Some (go, f1)" "steady f f1" "i < length (names f)" "left f1 < n"
    "ok (if go then set (trackers (info_of i f)) else {}) f1" "go \<longrightarrow> (\<forall>t \<in> set (trackers (info_of i f)). ready t f1)"
  shows "\<exists>f'. propagate (Suc n) first move i f = Some f' \<and> ok {} f' \<and> calm f1 f'"
proof (cases go)
  case True
  let ?ts = "trackers (info_of i f)"
  have n1: "names f1 = names f" and tr: "trackers (info_of i f1) = ?ts" using assms(2,3) by (simp_all add: steady_def)
  have "\<exists>f'. each (propagate n move move) ?ts f1 = Some f' \<and> leads {} f1 f'"
  proof (rule each_leads [where n = "left f1"])
    show "\<exists>f'. propagate n move move j g = Some f' \<and> leads (Y - {j}) g f'"
      if "ok Y g" "j < length (names g)" "ready j g" "\<forall>x \<in> Y. ready x g" "left g \<le> left f1" for j g Y
      using propagate_leads [OF that(1-4)] that(5) assms(4) by simp
    show "set ?ts \<subseteq> {..<length (names f1)}" using ok_farm [OF assms(5)] True by auto
  qed (use assms True in auto)
  then show ?thesis using True assms(1) tr by (auto simp: leads_def)
next
  case False
  then show ?thesis using assms calm_refl by simp
qed

end

subsection \<open>The invariant\<close>

text \<open>The bits of the flags: forced and inherited maintenance are 0 and 1, forced and inherited drain 2 and 3.\<close>

definition any_flag :: "nat \<Rightarrow> byte \<Rightarrow> bool" where
  "any_flag inh a \<longleftrightarrow> bit a (inh - 1) \<or> bit a inh"

definition follow :: "nat \<Rightarrow> nat set \<Rightarrow> farm \<Rightarrow> bool" where
  "follow inh X f \<longleftrightarrow> (\<forall>t < length (names f). \<forall>p. t \<notin> X \<longrightarrow> track (sv t f) = Some p \<longrightarrow>
     bit (admin (sv t f)) inh = any_flag inh (admin (sv p f)))"

definition follow_state :: "nat set \<Rightarrow> farm \<Rightarrow> bool" where
  "follow_state X f \<longleftrightarrow> (\<forall>t < length (names f). \<forall>p. t \<notin> X \<longrightarrow> track (sv t f) = Some p \<longrightarrow>
     checkless (info_of t f) \<longrightarrow> \<not> in_maint (sv t f) \<longrightarrow> phase (state (sv t f)) = phase (state (sv p f)))"

definition base :: "farm \<Rightarrow> bool" where
  "base f \<longleftrightarrow> farm_ok f \<and> (\<forall>i < length (names f). tracks_named i f \<and> (in_maint (sv i f) \<longrightarrow> state (sv i f) = SRV_ST_STOPPED))"

definition tracking_ok :: "farm \<Rightarrow> bool" where
  "tracking_ok f \<longleftrightarrow> base f \<and> follow 1 {} f \<and> follow 3 {} f \<and> follow_state {} f"

lemma maint_any: "in_maint s \<longleftrightarrow> any_flag 1 (admin s)" "in_drain s \<longleftrightarrow> any_flag 3 (admin s)"
  by (simp_all add: maint_bits any_flag_def)

lemma movedD:
  assumes "moved i (x, a) f f'" "j < length (names f)"
  shows "state (sv j f') = (if j = i then x else state (sv j f))" "admin (sv j f') = (if j = i then a else admin (sv j f))"
    "track (sv j f') = track (sv j f)" "checkless (info_of j f') = checkless (info_of j f)" "names f' = names f"
    "in_maint (sv j f') = (if j = i then any_flag 1 a else in_maint (sv j f))"
  using assms by (auto simp: moved_def steady_def view_def maint_any split: if_splits)

lemma moved_farm: "moved i c f f' \<Longrightarrow> farm_ok f' \<and> steady f f'"
  by (simp add: moved_def)

lemma base_moved:
  assumes "base f" "moved i (x, a) f f'" "i < length (names f)" "any_flag 1 a \<longrightarrow> x = SRV_ST_STOPPED"
  shows "base f'"
  using assms(1,4) movedD [OF assms(2)] movedD(5) [OF assms(2,3)] moved_farm [OF assms(2)]
  by (auto simp: base_def tracks_named_def)

lemma track_named: "base f \<Longrightarrow> t < length (names f) \<Longrightarrow> track (sv t f) = Some p \<Longrightarrow> p < length (names f)"
  by (auto simp: base_def tracks_named_def)

lemma trackers_iff:
  "base f \<Longrightarrow> i < length (names f) \<Longrightarrow> t \<in> set (trackers (info_of i f)) \<longleftrightarrow> t < length (names f) \<and> track (sv t f) = Some i"
  by (simp add: base_def farm_ok_def linked_def)

lemma trackers_valid: "base f \<Longrightarrow> i < length (names f) \<Longrightarrow> set (trackers (info_of i f)) \<subseteq> {..<length (names f)}"
  using trackers_iff by blast

lemma follow_moved:
  assumes "follow inh X f" "moved i (x, a) f f'" "i < length (names f)" "base f"
    "\<And>t. any_flag inh a \<noteq> any_flag inh (admin (sv i f)) \<Longrightarrow> t \<in> set (trackers (info_of i f)) \<Longrightarrow> t \<noteq> i \<Longrightarrow> t \<in> Y"
    "X - {i} \<subseteq> Y"
    "\<And>p. i \<notin> Y \<Longrightarrow> track (sv i f) = Some p \<Longrightarrow> bit a inh = any_flag inh (if p = i then a else admin (sv p f))"
  shows "follow inh Y f'"
  unfolding follow_def
proof (intro allI impI)
  fix t p
  assume "t < length (names f')" and Y: "t \<notin> Y" and p: "track (sv t f') = Some p"
  then have t: "t < length (names f)" using movedD(5) [OF assms(2,3)] by simp
  have p: "track (sv t f) = Some p" "p < length (names f)"
    using p movedD(3) [OF assms(2) t] track_named [OF assms(4) t] by simp_all
  show "bit (admin (sv t f')) inh = any_flag inh (admin (sv p f'))"
  proof (cases "t = i")
    case True
    then show ?thesis using assms(7) [of p] p Y movedD(2) [OF assms(2) t] movedD(2) [OF assms(2) p(2)] by simp
  next
    case False
    have "bit (admin (sv t f)) inh = any_flag inh (admin (sv p f))" using assms(1,6) t p Y False by (auto simp: follow_def)
    moreover have "any_flag inh a = any_flag inh (admin (sv i f))" if "p = i"
      using assms(5) [of t] trackers_iff [OF assms(4,3)] that p t False Y by blast
    ultimately show ?thesis using False movedD(2) [OF assms(2) t] movedD(2) [OF assms(2) p(2)] by auto
  qed
qed

lemma follow_state_moved:
  assumes "follow_state X f" "moved i (x, a) f f'" "i < length (names f)" "base f"
    "\<And>t. phase x \<noteq> phase (state (sv i f)) \<Longrightarrow> t \<in> set (trackers (info_of i f)) \<Longrightarrow> t \<noteq> i \<Longrightarrow> t \<in> Y \<or> in_maint (sv t f)"
    "X - {i} \<subseteq> Y"
    "\<And>p. i \<notin> Y \<Longrightarrow> track (sv i f) = Some p \<Longrightarrow> checkless (info_of i f) \<Longrightarrow> \<not> any_flag 1 a \<Longrightarrow> p \<noteq> i \<Longrightarrow> phase x = phase (state (sv p f))"
  shows "follow_state Y f'"
  unfolding follow_state_def
proof (intro allI impI)
  fix t p
  assume "t < length (names f')" and Y: "t \<notin> Y" and p: "track (sv t f') = Some p"
    and less: "checkless (info_of t f')" and out: "\<not> in_maint (sv t f')"
  then have t: "t < length (names f)" using movedD(5) [OF assms(2,3)] by simp
  have p: "track (sv t f) = Some p" "p < length (names f)"
    using p movedD(3) [OF assms(2) t] track_named [OF assms(4) t] by simp_all
  note v = movedD [OF assms(2) t] and w = movedD [OF assms(2) p(2)]
  show "phase (state (sv t f')) = phase (state (sv p f'))"
  proof (cases "t = i")
    case True
    then show ?thesis using assms(7) [of p] p Y v w less out by auto
  next
    case False
    then have "phase (state (sv t f)) = phase (state (sv p f))"
      using assms(1,6) t p Y less out v by (auto simp: follow_state_def)
    moreover have "phase x = phase (state (sv i f))" if "p = i"
      using assms(5) [of t] trackers_iff [OF assms(4,3)] that p t False Y out v by auto
    ultimately show ?thesis using False v w by auto
  qed
qed

lemma follow_mono: "follow inh X f \<Longrightarrow> X \<subseteq> Y \<Longrightarrow> follow inh Y f"
  by (auto simp: follow_def)

lemma follow_state_mono: "follow_state X f \<Longrightarrow> X \<subseteq> Y \<Longrightarrow> follow_state Y f"
  by (auto simp: follow_state_def)

text \<open>A move that changes no flag that others follow.\<close>

lemma follow_kept:
  assumes "follow inh {} f" "moved i (x, a) f f'" "i < length (names f)" "base f"
    "any_flag inh a = any_flag inh (admin (sv i f))" "bit a inh = bit (admin (sv i f)) inh"
  shows "follow inh {} f'"
proof (rule follow_moved [OF assms(1-4)])
  fix p assume "track (sv i f) = Some p"
  then have "bit (admin (sv i f)) inh = any_flag inh (admin (sv p f))" using assms(1,3) by (simp add: follow_def)
  then show "bit a inh = any_flag inh (if p = i then a else admin (sv p f))" using assms(5,6) by auto
qed (use assms(5) in auto)

lemma count_less:
  assumes "\<And>j. j < n \<Longrightarrow> P' j \<Longrightarrow> P j" "i < n" "P i" "\<not> P' i"
  shows "card {j. j < n \<and> P' j} < card {j. j < (n :: nat) \<and> P j}"
  by (rule psubset_card_mono) (use assms in auto)

lemma count_le:
  assumes "\<And>j. j < n \<Longrightarrow> P' j \<Longrightarrow> P j"
  shows "card {j. j < n \<and> P' j} \<le> card {j. j < (n :: nat) \<and> P j}"
  by (rule card_mono) (use assms in auto)

subsection \<open>Moves of state\<close>

definition ok_state :: "nat set \<Rightarrow> farm \<Rightarrow> bool" where
  "ok_state X f \<longleftrightarrow> base f \<and> follow 1 {} f \<and> follow 3 {} f \<and> follow_state X f \<and> X \<subseteq> {..<length (names f)}"

definition ready_state :: "nat \<Rightarrow> nat \<Rightarrow> farm \<Rightarrow> bool" where
  "ready_state r i f \<longleftrightarrow> (\<forall>p. track (sv i f) = Some p \<longrightarrow> checkless (info_of i f) \<longrightarrow> phase (state (sv p f)) = r)"

definition left_state :: "nat \<Rightarrow> farm \<Rightarrow> nat" where
  "left_state r f = card {j. j < length (names f) \<and> (\<not> in_maint (sv j f) \<and> phase (state (sv j f)) \<noteq> r)}"

definition calm_state :: "farm \<Rightarrow> farm \<Rightarrow> bool" where
  "calm_state f f' \<longleftrightarrow> steady f f' \<and> (\<forall>j < length (names f). admin (sv j f') = admin (sv j f))"

lemma calm_state_facts:
  "calm_state f g \<Longrightarrow> steady f g" "calm_state f f" "calm_state f g \<Longrightarrow> calm_state g h \<Longrightarrow> calm_state f h"
  "moved i (x, admin (sv i f)) f f' \<Longrightarrow> calm_state f f'"
  using steady_trans [of f g h] steady_names [of f g] movedD(2) moved_farm by (auto simp: calm_state_def)

definition state_move :: "nat \<Rightarrow> (nat \<Rightarrow> farm \<Rightarrow> (bool \<times> farm) option) \<Rightarrow> bool" where
  "state_move r move \<longleftrightarrow> (\<forall>i f. farm_ok f \<longrightarrow> i < length (names f) \<longrightarrow> (\<exists>go f'. move i f = Some (go, f') \<and>
    (if go then \<not> in_maint (sv i f) \<and> phase (state (sv i f)) \<noteq> r \<and> (\<exists>x. phase x = r \<and> moved i (x, admin (sv i f)) f f')
     else f' = f \<and> (in_maint (sv i f) \<or> phase (state (sv i f)) = r))))"

lemma ready_state_moved:
  assumes "ready_state r j f" "moved i (x, a) f f'" "phase x = r" "base f" "i < length (names f)" "j < length (names f)"
  shows "ready_state r j f'"
  unfolding ready_state_def
proof (intro allI impI)
  fix p assume "track (sv j f') = Some p" and c: "checkless (info_of j f')"
  then have p: "track (sv j f) = Some p" "p < length (names f)"
    using movedD(3) [OF assms(2,6)] track_named [OF assms(4,6)] by simp_all
  then have "phase (state (sv p f)) = r" using assms(1) c movedD(4) [OF assms(2,6)] by (simp add: ready_state_def)
  then show "phase (state (sv p f')) = r" using movedD(1) [OF assms(2) p(2)] assms(3) by simp
qed

lemma state_propagation:
  assumes "state_move r move"
  shows "propagation move ok_state (ready_state r) (left_state r) calm_state"
proof
  fix X f i
  assume ok: "ok_state X f" and i: "i < length (names f)" and r: "ready_state r i f" and rX: "\<forall>x \<in> X. ready_state r x f"
  let ?ts = "set (trackers (info_of i f))"
  have b: "base f" and f1: "follow 1 {} f" and f3: "follow 3 {} f" and fs: "follow_state X f" and X: "X \<subseteq> {..<length (names f)}"
    using ok by (simp_all add: ok_state_def)
  have farm: "farm_ok f" using b by (simp add: base_def)
  obtain go f' where m: "move i f = Some (go, f')"
    "if go then \<not> in_maint (sv i f) \<and> phase (state (sv i f)) \<noteq> r \<and> (\<exists>x. phase x = r \<and> moved i (x, admin (sv i f)) f f')
     else f' = f \<and> (in_maint (sv i f) \<or> phase (state (sv i f)) = r)"
    using assms farm i unfolding state_move_def by metis
  show "\<exists>go f'. move i f = Some (go, f') \<and> calm_state f f' \<and> (\<forall>j < length (names f). ready_state r j f \<longrightarrow> ready_state r j f')
      \<and> left_state r f' \<le> left_state r f \<and> (go \<longrightarrow> left_state r f' < left_state r f)
      \<and> ok_state (X - {i} \<union> (if go then ?ts else {})) f' \<and> (go \<longrightarrow> (\<forall>t \<in> ?ts. ready_state r t f'))"
  proof (cases go)
    case True
    then obtain x where x: "phase x = r" "moved i (x, admin (sv i f)) f f'" and out: "\<not> in_maint (sv i f)" "phase (state (sv i f)) \<noteq> r"
      using m(2) by auto
    note v = movedD [OF x(2)]
    have n: "names f' = names f" by (rule v(5) [OF i])
    have "base f'" by (rule base_moved [OF b x(2) i]) (use out in \<open>simp add: maint_any\<close>)
    moreover have "follow 1 {} f'" "follow 3 {} f'"
      by (rule follow_kept [OF f1 x(2) i b refl refl], rule follow_kept [OF f3 x(2) i b refl refl])
    moreover have "follow_state (X - {i} \<union> ?ts) f'"
      by (rule follow_state_moved [OF fs x(2) i b]) (use r x(1) in \<open>auto simp: ready_state_def\<close>)
    moreover have "?ts \<subseteq> {..<length (names f)}" by (rule trackers_valid [OF b i])
    ultimately have "ok_state (X - {i} \<union> ?ts) f'" using X n by (auto simp: ok_state_def)
    moreover have "left_state r f' < left_state r f"
      unfolding left_state_def n
      by (rule count_less [where i = i]) (use v i out x(1) in \<open>auto simp: maint_any split: if_splits\<close>)
    moreover have "ready_state r t f'" if "t \<in> ?ts" for t
      using that v(1) [OF i] v(3,4) x(1) trackers_iff [OF b i] by (auto simp: ready_state_def)
    ultimately show ?thesis
      using m(1) True calm_state_facts(4) [OF x(2)] ready_state_moved [OF _ x(2,1) b i] by (intro exI [of _ True] exI [of _ f']) simp
  next
    case False
    then have f: "f' = f" "in_maint (sv i f) \<or> phase (state (sv i f)) = r" using m(2) by auto
    have "follow_state (X - {i}) f"
      unfolding follow_state_def
    proof (intro allI impI)
      fix t p
      assume a: "t < length (names f)" "t \<notin> X - {i}" "track (sv t f) = Some p" "checkless (info_of t f)" "\<not> in_maint (sv t f)"
      show "phase (state (sv t f)) = phase (state (sv p f))"
        using a f(2) r fs by (cases "t = i") (auto simp: ready_state_def follow_state_def)
    qed
    then have "ok_state (X - {i}) f" using b f1 f3 X by (auto simp: ok_state_def)
    then show ?thesis using m(1) f(1) False calm_state_facts(2) by (intro exI [of _ False] exI [of _ f]) simp
  qed
next
  show "ok_state X f \<Longrightarrow> farm_ok f \<and> X \<subseteq> {..<length (names f)}" for X f by (simp add: ok_state_def base_def)
  show "ok_state X f \<Longrightarrow> X \<subseteq> Y \<Longrightarrow> Y \<subseteq> {..<length (names f)} \<Longrightarrow> ok_state Y f" for X Y f
    using follow_state_mono by (auto simp: ok_state_def)
qed (use calm_state_facts in blast)+

lemma state_moves: "state_move 0 (stop_one d)" "state_move 1 (stopping_one d)" "state_move 2 (run_one d)"
proof -
  show "state_move 0 (stop_one d)" unfolding state_move_def
  proof (intro allI impI)
    fix i f assume "farm_ok f" "i < length (names f)"
    from stop_one_moves [OF this, of d] obtain go f' where "stop_one d i f = Some (go, f')"
      "if go then \<not> in_maint (sv i f) \<and> state (sv i f) \<noteq> SRV_ST_STOPPED \<and> moved i (SRV_ST_STOPPED, admin (sv i f)) f f'
       else f' = f \<and> (in_maint (sv i f) \<or> state (sv i f) = SRV_ST_STOPPED)" by blast
    then show "\<exists>go f'. stop_one d i f = Some (go, f') \<and> (if go then \<not> in_maint (sv i f) \<and> phase (state (sv i f)) \<noteq> 0
        \<and> (\<exists>x. phase x = 0 \<and> moved i (x, admin (sv i f)) f f') else f' = f \<and> (in_maint (sv i f) \<or> phase (state (sv i f)) = 0))"
      by (intro exI [of _ go] exI [of _ f']) (cases go; simp)
  qed
  show "state_move 1 (stopping_one d)" unfolding state_move_def
  proof (intro allI impI)
    fix i f assume "farm_ok f" "i < length (names f)"
    from stopping_one_moves [OF this, of d] obtain go f' where "stopping_one d i f = Some (go, f')"
      "if go then \<not> in_maint (sv i f) \<and> state (sv i f) \<noteq> SRV_ST_STOPPING \<and> moved i (SRV_ST_STOPPING, admin (sv i f)) f f'
       else f' = f \<and> (in_maint (sv i f) \<or> state (sv i f) = SRV_ST_STOPPING)" by blast
    then show "\<exists>go f'. stopping_one d i f = Some (go, f') \<and> (if go then \<not> in_maint (sv i f) \<and> phase (state (sv i f)) \<noteq> 1
        \<and> (\<exists>x. phase x = 1 \<and> moved i (x, admin (sv i f)) f f') else f' = f \<and> (in_maint (sv i f) \<or> phase (state (sv i f)) = 1))"
      by (intro exI [of _ go] exI [of _ f']) (cases go; simp add: phase_1 del: One_nat_def)
  qed
  show "state_move 2 (run_one d)" unfolding state_move_def using run_one_moves by blast
qed

interpretation stop: propagation "stop_one d" ok_state "ready_state 0" "left_state 0" calm_state for d
  by (rule state_propagation [OF state_moves(1)])

interpretation stopping: propagation "stopping_one d" ok_state "ready_state 1" "left_state 1" calm_state for d
  by (rule state_propagation [OF state_moves(2)])

interpretation run: propagation "run_one d" ok_state "ready_state 2" "left_state 2" calm_state for d
  by (rule state_propagation [OF state_moves(3)])

lemma ok_state_tracking: "ok_state {} f = tracking_ok f"
  by (simp add: ok_state_def tracking_ok_def)

text \<open>A server that does not track another, or has checks of its own, may be moved.\<close>

definition movable :: "nat \<Rightarrow> farm \<Rightarrow> bool" where
  "movable i f \<longleftrightarrow> track (sv i f) = None \<or> \<not> checkless (info_of i f)"

lemma movable_ready: "movable i f \<Longrightarrow> ready_state r i f"
  by (auto simp: movable_def ready_state_def)

lemma left_levels: "left_state r f < levels f"
proof -
  have "left_state r f \<le> card {j. j < length (names f)}" unfolding left_state_def by (rule card_mono) auto
  then show ?thesis by (simp add: levels_def)
qed

lemma set_state_ok:
  assumes "tracking_ok f" "i < length (names f)" "movable i f"
  shows "\<exists>f'. srv_set_stopped d i f = Some f' \<and> tracking_ok f' \<and> calm_state f f'"
    "\<exists>f'. srv_set_stopping d i f = Some f' \<and> tracking_ok f' \<and> calm_state f f'"
    "\<exists>f'. srv_set_running d i f = Some f' \<and> tracking_ok f' \<and> calm_state f f'"
  unfolding srv_set_stopped_def srv_set_stopping_def srv_set_running_def ok_state_tracking [symmetric]
  using assms movable_ready [OF assms(3)] left_levels
  by (auto simp flip: ok_state_tracking intro!: stop.propagate_root stopping.propagate_root run.propagate_root)

subsection \<open>Flags\<close>

definition ready_set :: "nat \<Rightarrow> nat \<Rightarrow> farm \<Rightarrow> bool" where
  "ready_set inh i f \<longleftrightarrow> (\<exists>p. track (sv i f) = Some p \<and> any_flag inh (admin (sv p f)))"

definition ready_clr :: "nat \<Rightarrow> nat \<Rightarrow> farm \<Rightarrow> bool" where
  "ready_clr inh i f \<longleftrightarrow> (\<exists>p. track (sv i f) = Some p \<and> \<not> any_flag inh (admin (sv p f)))"

text \<open>The servers of \<open>X\<close> have not yet heard of a change of the flags \<open>inh\<close>; in maintenance they have not yet stopped.\<close>

definition ok_flag :: "bool \<Rightarrow> nat \<Rightarrow> nat set \<Rightarrow> farm \<Rightarrow> bool" where
  "ok_flag stops inh X f \<longleftrightarrow> base f \<and> (inh = 1 \<or> inh = 3) \<and> follow inh X f \<and> follow (4 - inh) {} f
     \<and> follow_state (if stops \<and> inh = 1 then X else {}) f \<and> X \<subseteq> {..<length (names f)}"

lemma flag_cases:
  assumes "is_flag mode n" "inh = 1 \<or> inh = 3" "n = inh \<or> n = inh - 1"
  shows "any_flag inh (a OR mode)" "bit (a OR mode) inh \<longleftrightarrow> bit a inh \<or> n = inh" "n < 2 \<longleftrightarrow> inh = 1"
    "any_flag (4 - inh) (a OR mode) = any_flag (4 - inh) a" "bit (a OR mode) (4 - inh) = bit a (4 - inh)"
    "any_flag (4 - inh) (a AND NOT mode) = any_flag (4 - inh) a" "bit (a AND NOT mode) (4 - inh) = bit a (4 - inh)"
    "bit (a AND NOT mode) inh \<longleftrightarrow> bit a inh \<and> n \<noteq> inh" "any_flag inh a \<longleftrightarrow> bit a n \<or> bit a (twin n)"
    "any_flag inh (a AND NOT mode) \<longleftrightarrow> bit a (twin n)" "n = inh - 1 \<Longrightarrow> twin n = inh"
  using assms(2,3) by (auto simp: any_flag_def flag_of_mode(3,4) [OF assms(1)])

lemma stopped_flag: "base f \<Longrightarrow> i < length (names f) \<Longrightarrow> any_flag 1 (admin (sv i f)) \<Longrightarrow> state (sv i f) = SRV_ST_STOPPED"
  by (simp add: base_def maint_any)

lemma set_flag_step:
  assumes ok: "ok_flag True inh X f" and i: "i < length (names f)" and mode: "is_flag mode n"
    and n: "n = inh \<and> ready_set inh i f \<or> n = inh - 1 \<and> X = {}"
  shows "\<exists>go f'. set_flag_one d mode i f = Some (go, f')
    \<and> ok_flag True inh (X - {i} \<union> (if go then set (trackers (info_of i f)) else {})) f'
    \<and> (if bit (admin (sv i f)) n then \<not> go \<and> f' = f else \<exists>x. moved i (x, admin (sv i f) OR mode) f f')"
proof -
  let ?a = "admin (sv i f)" and ?ts = "set (trackers (info_of i f))"
  have b: "base f" and inh: "inh = 1 \<or> inh = 3" and fi: "follow inh X f" and fo: "follow (4 - inh) {} f"
    and fs: "follow_state (if inh = 1 then X else {}) f" and X: "X \<subseteq> {..<length (names f)}"
    using ok by (simp_all add: ok_flag_def)
  have farm: "farm_ok f" using b by (simp add: base_def)
  have n': "n = inh \<or> n = inh - 1" using n by blast
  note c = flag_cases [OF mode inh n']
  have up: "bit (?a OR mode) inh = any_flag inh (admin (sv p f))"
    if "track (sv i f) = Some p" "i \<notin> X - {i}" "n = inh \<or> bit ?a inh \<or> p \<noteq> i" for p
    using n that fi i c(2) inh by (auto simp: ready_set_def follow_def)
  obtain go f' where m: "set_flag_one d mode i f = Some (go, f')"
    "if bit ?a n then \<not> go \<and> f' = f
     else if bit ?a (twin n) then \<not> go \<and> moved i (state (sv i f), ?a OR mode) f f'
     else go \<and> moved i (if n < 2 then SRV_ST_STOPPED else state (sv i f), ?a OR mode) f f'"
    using set_flag_moves [OF farm i mode] by blast
  show ?thesis
  proof (cases "bit ?a n")
    case True
    then have f: "f' = f" "\<not> go" using m(2) by auto
    have "any_flag inh ?a" using True c(9) by blast
    have "follow inh (X - {i}) f"
      using n fi True by (auto simp: follow_def ready_set_def)
    moreover have "follow_state (if inh = 1 then X - {i} else {}) f"
    proof (cases "inh = 1")
      case True
      then have "in_maint (sv i f)" using \<open>any_flag inh ?a\<close> by (simp add: maint_any)
      then show ?thesis using fs True by (auto simp: follow_state_def)
    qed (use fs in simp)
    ultimately have "ok_flag True inh (X - {i}) f" using b inh fo X by (auto simp: ok_flag_def)
    then show ?thesis using m(1) f True by (intro exI [of _ False] exI [of _ f]) simp
  next
    case new: False
    then obtain x where x: "moved i (x, ?a OR mode) f f'" "x = (if \<not> bit ?a (twin n) \<and> n < 2 then SRV_ST_STOPPED else state (sv i f))"
      and go: "go \<longleftrightarrow> \<not> bit ?a (twin n)" using m(2) by (auto split: if_splits)
    let ?Y = "X - {i} \<union> (if go then ?ts else {})"
    have nf: "names f' = names f" by (rule movedD(5) [OF x(1) i])
    have m1: "any_flag 1 (?a OR mode) \<longleftrightarrow> inh = 1 \<or> any_flag 1 ?a"
      using inh c(1) c(4) by auto
    have "base f'"
    proof (rule base_moved [OF b x(1) i], intro impI)
      assume "any_flag 1 (?a OR mode)"
      then show "x = SRV_ST_STOPPED"
        using m1 c(3,9) new x(2) stopped_flag [OF b i] by (cases "inh = 1"; cases "bit ?a (twin n)") auto
    qed
    moreover have "follow inh ?Y f'"
    proof (rule follow_moved [OF fi x(1) i b])
      show "t \<in> ?Y" if "any_flag inh (?a OR mode) \<noteq> any_flag inh ?a" "t \<in> ?ts" "t \<noteq> i" for t
        using that c(1,9) go new by auto
      fix p assume p: "i \<notin> ?Y" "track (sv i f) = Some p"
      show "bit (?a OR mode) inh = any_flag inh (if p = i then ?a OR mode else admin (sv p f))"
      proof (cases "p = i")
        case True
        then have "i \<in> ?ts" using p(2) i unfolding trackers_iff [OF b i] by blast
        then have "\<not> go" using p(1) by (cases go) simp_all
        then have "bit ?a (twin n)" using go by simp
        then have "bit ?a inh \<or> n = inh" using c(11) n' by metis
        then show ?thesis using True c(1) c(2) by simp
      next
        case False
        then show ?thesis using up [OF p(2)] p(1) by simp
      qed
    qed auto
    moreover have "follow (4 - inh) {} f'" by (rule follow_kept [OF fo x(1) i b c(4,5)])
    moreover have "follow_state (if inh = 1 then ?Y else {}) f'"
    proof (rule follow_state_moved [OF fs x(1) i b])
      show "t \<in> (if inh = 1 then ?Y else {}) \<or> in_maint (sv t f)"
        if "phase x \<noteq> phase (state (sv i f))" "t \<in> ?ts" "t \<noteq> i" for t
        using that x(2) go c(3) by (auto split: if_splits)
      show "(if inh = 1 then X else {}) - {i} \<subseteq> (if inh = 1 then ?Y else {})" by auto
      show "phase x = phase (state (sv p f))"
        if "track (sv i f) = Some p" "checkless (info_of i f)" "\<not> any_flag 1 (?a OR mode)" for p
        using that m1 x(2) c(3) fs i by (auto simp: follow_state_def maint_any)
    qed
    moreover have "?Y \<subseteq> {..<length (names f)}" using X trackers_valid [OF b i] by auto
    ultimately have "ok_flag True inh ?Y f'" using inh nf by (simp add: ok_flag_def)
    then show ?thesis using m(1) new x(1) by (intro exI [of _ go] exI [of _ f']) auto
  qed
qed

lemma clr_flag_step:
  assumes ok: "ok_flag False inh X f" and i: "i < length (names f)" and mode: "is_flag mode n"
    and n: "n = inh \<and> ready_clr inh i f \<or> n = inh - 1 \<and> X = {}" and rX: "\<forall>x \<in> X. ready_clr inh x f"
  shows "\<exists>go f'. clr_flag_one d mode i f = Some (go, f')
    \<and> ok_flag False inh (X - {i} \<union> (if go then set (trackers (info_of i f)) else {})) f'
    \<and> (go \<longrightarrow> \<not> any_flag inh (admin (sv i f) AND NOT mode))
    \<and> (if \<not> bit (admin (sv i f)) n then \<not> go \<and> f' = f else \<exists>x. moved i (x, admin (sv i f) AND NOT mode) f f')"
proof -
  let ?a = "admin (sv i f)" and ?ts = "set (trackers (info_of i f))"
  have b: "base f" and inh: "inh = 1 \<or> inh = 3" and fi: "follow inh X f" and fo: "follow (4 - inh) {} f"
    and fs: "follow_state {} f" and X: "X \<subseteq> {..<length (names f)}"
    using ok by (simp_all add: ok_flag_def)
  have farm: "farm_ok f" "tracks_named i f" "in_maint (sv i f) \<longrightarrow> state (sv i f) = SRV_ST_STOPPED" using b i by (simp_all add: base_def)
  have n': "n = inh \<or> n = inh - 1" using n by blast
  note c = flag_cases [OF mode inh n']
  obtain go f' where m: "clr_flag_one d mode i f = Some (go, f')"
    "if \<not> bit ?a n then \<not> go \<and> f' = f
     else if bit ?a (twin n) then \<not> go \<and> moved i (state (sv i f), ?a AND NOT mode) f f'
     else go \<and> (\<exists>x. moved i (x, ?a AND NOT mode) f f' \<and>
       (if n < 2 then checkless (info_of i f) \<longrightarrow> phase x = tracked_phase i f else phase x = phase (state (sv i f))))"
    using clr_flag_moves [OF farm(1) i mode farm(2,3)] by blast
  show ?thesis
  proof (cases "bit ?a n")
    case False
    then have f: "f' = f" "\<not> go" using m(2) by auto
    have "follow inh (X - {i}) f"
      using n fi False by (auto simp: follow_def ready_clr_def)
    then have "ok_flag False inh (X - {i}) f" using b inh fo fs X by (auto simp: ok_flag_def)
    then show ?thesis using m(1) f False by (intro exI [of _ False] exI [of _ f]) simp
  next
    case old: True
    then have any: "any_flag inh ?a" using c(9) by blast
    from old obtain x where x: "moved i (x, ?a AND NOT mode) f f'" and go: "go \<longleftrightarrow> \<not> bit ?a (twin n)"
      and ph: "if go \<and> n < 2 then checkless (info_of i f) \<longrightarrow> phase x = tracked_phase i f else phase x = phase (state (sv i f))"
      using m(2) by (cases "bit ?a (twin n)") auto
    let ?Y = "X - {i} \<union> (if go then ?ts else {})"
    have nf: "names f' = names f" by (rule movedD(5) [OF x i])
    have m1: "any_flag 1 (?a AND NOT mode) \<longleftrightarrow> (if inh = 1 then \<not> go else any_flag 1 ?a)"
      using inh c(6,10) go by auto
    have same: "phase x = phase (state (sv i f))" if "inh = 3 \<or> \<not> go" using that ph c(3) by (auto split: if_splits)
    have pj: "\<not> any_flag inh (admin (sv p f))" if "n = inh" "track (sv i f) = Some p" for p
      using that n inh by (auto simp: ready_clr_def)
    have "base f'"
    proof (rule base_moved [OF b x i], intro impI)
      assume a: "any_flag 1 (?a AND NOT mode)"
      then have "any_flag 1 ?a" "phase x = phase (state (sv i f))" using m1 any same inh by (auto split: if_splits)
      then show "x = SRV_ST_STOPPED" using stopped_flag [OF b i] by simp
    qed
    moreover have "follow inh ?Y f'"
    proof (rule follow_moved [OF fi x i b])
      show "t \<in> ?Y" if "any_flag inh (?a AND NOT mode) \<noteq> any_flag inh ?a" "t \<in> ?ts" "t \<noteq> i" for t
        using that c(10) any go by auto
      fix p assume p: "i \<notin> ?Y" "track (sv i f) = Some p"
      show "bit (?a AND NOT mode) inh = any_flag inh (if p = i then ?a AND NOT mode else admin (sv p f))"
      proof (cases "n = inh")
        case True
        then have "p \<noteq> i" "\<not> any_flag inh (admin (sv p f))" using pj [OF True p(2)] any by auto
        then show ?thesis using True c(8) by simp
      next
        case False
        then have first: "n = inh - 1" "X = {}" using n by auto
        then have bp: "bit ?a inh = any_flag inh (admin (sv p f))" using fi i p(2) by (simp add: follow_def)
        show ?thesis
        proof (cases "p = i")
          case True
          then have "i \<in> ?ts" using p(2) i unfolding trackers_iff [OF b i] by blast
          then have "\<not> go" using p(1) by (cases go) simp_all
          then have "bit ?a (twin n)" using go by simp
          then show ?thesis using True c(8,10) c(11) [OF first(1)] False by simp
        next
          case no: False
          then show ?thesis using bp c(8) False by simp
        qed
      qed
    qed auto
    moreover have "follow (4 - inh) {} f'" by (rule follow_kept [OF fo x i b c(6,7)])
    moreover have "follow_state {} f'"
    proof (rule follow_state_moved [OF fs x i b])
      show "t \<in> {} \<or> in_maint (sv t f)" if "phase x \<noteq> phase (state (sv i f))" "t \<in> ?ts" "t \<noteq> i" for t
      proof -
        have 1: "inh = 1" using that(1) same inh by auto
        have t: "t < length (names f)" "track (sv t f) = Some i" using that(2) unfolding trackers_iff [OF b i] by simp_all
        then have "t \<notin> X" using rX any by (auto simp: ready_clr_def)
        then have "bit (admin (sv t f)) 1" using fi t any 1 by (simp add: follow_def)
        then show ?thesis by (simp add: maint_bits)
      qed
      show "phase x = phase (state (sv p f))"
        if p: "track (sv i f) = Some p" "checkless (info_of i f)" "\<not> any_flag 1 (?a AND NOT mode)" for p
      proof (cases "inh = 1")
        case True
        then have "go" using p(3) m1 by simp
        then have "phase x = tracked_phase i f" using True ph c(3) p(2) by simp
        then show ?thesis using p(1) by (simp add: tracked_phase_def)
      next
        case False
        then have "\<not> in_maint (sv i f)" using p(3) m1 by (simp add: maint_any)
        then have "phase (state (sv i f)) = phase (state (sv p f))" using fs i p by (simp add: follow_state_def)
        then show ?thesis using same False inh by simp
      qed
    qed auto
    moreover have "?Y \<subseteq> {..<length (names f)}" using X trackers_valid [OF b i] by auto
    ultimately have "ok_flag False inh ?Y f'" using inh nf by (simp add: ok_flag_def)
    moreover have "go \<longrightarrow> \<not> any_flag inh (?a AND NOT mode)" using c(10) go by simp
    ultimately show ?thesis using m(1) old x by (intro exI [of _ go] exI [of _ f']) auto
  qed
qed

definition calm_flag :: "nat \<Rightarrow> farm \<Rightarrow> farm \<Rightarrow> bool" where
  "calm_flag n f f' \<longleftrightarrow> steady f f' \<and> (\<forall>j < length (names f). \<forall>k. k \<noteq> n \<longrightarrow> bit (admin (sv j f')) k = bit (admin (sv j f)) k)"

lemma calm_flag_facts:
  "calm_flag n f g \<Longrightarrow> steady f g" "calm_flag n f f" "calm_flag n f g \<Longrightarrow> calm_flag n g h \<Longrightarrow> calm_flag n f h"
  using steady_trans [of f g h] steady_names [of f g] by (auto simp: calm_flag_def)

lemma calm_flag_moved:
  assumes "is_flag mode n" "moved i (x, a) f f'" "a = admin (sv i f) OR mode \<or> a = admin (sv i f) AND NOT mode"
  shows "calm_flag n f f'"
  using movedD(2) [OF assms(2)] moved_farm [OF assms(2)] flag_of_mode(3,4) [OF assms(1)] assms(3) by (auto simp: calm_flag_def)

definition left_flag :: "bool \<Rightarrow> nat \<Rightarrow> farm \<Rightarrow> nat" where
  "left_flag v inh f = card {j. j < length (names f) \<and> bit (admin (sv j f)) inh = v}"

lemma left_flag_levels: "left_flag v inh f < levels f - 1"
proof -
  have "left_flag v inh f \<le> card {j. j < length (names f)}" unfolding left_flag_def by (rule card_mono) auto
  then show ?thesis by (simp add: levels_def)
qed

lemma ready_moved:
  assumes "moved i (x, a) f f'" "base f" "i < length (names f)" "j < length (names f)"
  shows "ready_set inh j f \<Longrightarrow> (any_flag inh (admin (sv i f)) \<Longrightarrow> any_flag inh a) \<Longrightarrow> ready_set inh j f'"
    "ready_clr inh j f \<Longrightarrow> (any_flag inh a \<Longrightarrow> any_flag inh (admin (sv i f))) \<Longrightarrow> ready_clr inh j f'"
  using movedD(2) [OF assms(1) track_named [OF assms(2,4)]] movedD(3) [OF assms(1,4)]
  by (auto simp: ready_set_def ready_clr_def split: if_splits)

lemma ready_trackers:
  assumes "moved i (x, a) f f'" "base f" "i < length (names f)" "t \<in> set (trackers (info_of i f))"
  shows "any_flag inh a \<Longrightarrow> ready_set inh t f'" "\<not> any_flag inh a \<Longrightarrow> ready_clr inh t f'"
proof -
  have t: "t < length (names f)" "track (sv t f) = Some i" using assms(4) unfolding trackers_iff [OF assms(2,3)] by simp_all
  show "any_flag inh a \<Longrightarrow> ready_set inh t f'" "\<not> any_flag inh a \<Longrightarrow> ready_clr inh t f'"
    using t movedD(3) [OF assms(1) t(1)] movedD(2) [OF assms(1,3)] by (auto simp: ready_set_def ready_clr_def)
qed

lemma set_propagation:
  assumes mode: "is_flag mode inh" and inh: "inh = 1 \<or> inh = 3"
  shows "propagation (set_flag_one d mode) (ok_flag True inh) (ready_set inh) (left_flag False inh) (calm_flag inh)"
proof
  fix X f i
  assume ok: "ok_flag True inh X f" and i: "i < length (names f)" and r: "ready_set inh i f"
  let ?ts = "set (trackers (info_of i f))" and ?a = "admin (sv i f)"
  have b: "base f" using ok by (simp add: ok_flag_def)
  obtain go f' where m: "set_flag_one d mode i f = Some (go, f')" "ok_flag True inh (X - {i} \<union> (if go then ?ts else {})) f'"
      "if bit ?a inh then \<not> go \<and> f' = f else \<exists>x. moved i (x, ?a OR mode) f f'"
    using set_flag_step [OF ok i mode, of d] r by blast
  show "\<exists>go f'. set_flag_one d mode i f = Some (go, f') \<and> calm_flag inh f f' \<and> (\<forall>j < length (names f). ready_set inh j f \<longrightarrow> ready_set inh j f')
      \<and> left_flag False inh f' \<le> left_flag False inh f \<and> (go \<longrightarrow> left_flag False inh f' < left_flag False inh f)
      \<and> ok_flag True inh (X - {i} \<union> (if go then ?ts else {})) f' \<and> (go \<longrightarrow> (\<forall>t \<in> ?ts. ready_set inh t f'))"
  proof (cases "bit ?a inh")
    case True
    then show ?thesis using m calm_flag_facts(2) by (intro exI [of _ False] exI [of _ f]) auto
  next
    case False
    then obtain x where x: "moved i (x, ?a OR mode) f f'" using m(3) by auto
    have any: "any_flag inh (?a OR mode)" using flag_cases(1) [OF mode inh] by simp
    have "left_flag False inh f' < left_flag False inh f"
      unfolding left_flag_def movedD(5) [OF x i]
      by (rule count_less [where i = i])
        (use False i movedD(2) [OF x] flag_of_mode(3) [OF mode] in \<open>auto split: if_splits\<close>)
    then show ?thesis using m(1,2) calm_flag_moved [OF mode x] any ready_moved(1) [OF x b i] ready_trackers(1) [OF x b i]
      by (intro exI [of _ go] exI [of _ f']) auto
  qed
qed (auto simp: ok_flag_def base_def intro: follow_mono follow_state_mono calm_flag_facts)

lemma clr_propagation:
  assumes mode: "is_flag mode inh" and inh: "inh = 1 \<or> inh = 3"
  shows "propagation (clr_flag_one d mode) (ok_flag False inh) (ready_clr inh) (left_flag True inh) (calm_flag inh)"
proof
  fix X f i
  assume ok: "ok_flag False inh X f" and i: "i < length (names f)" and r: "ready_clr inh i f" and rX: "\<forall>x \<in> X. ready_clr inh x f"
  let ?ts = "set (trackers (info_of i f))" and ?a = "admin (sv i f)"
  have b: "base f" using ok by (simp add: ok_flag_def)
  obtain go f' where m: "clr_flag_one d mode i f = Some (go, f')" "ok_flag False inh (X - {i} \<union> (if go then ?ts else {})) f'"
      "go \<longrightarrow> \<not> any_flag inh (?a AND NOT mode)" "if \<not> bit ?a inh then \<not> go \<and> f' = f else \<exists>x. moved i (x, ?a AND NOT mode) f f'"
    using clr_flag_step [OF ok i mode _ rX, of d] r by blast
  show "\<exists>go f'. clr_flag_one d mode i f = Some (go, f') \<and> calm_flag inh f f' \<and> (\<forall>j < length (names f). ready_clr inh j f \<longrightarrow> ready_clr inh j f')
      \<and> left_flag True inh f' \<le> left_flag True inh f \<and> (go \<longrightarrow> left_flag True inh f' < left_flag True inh f)
      \<and> ok_flag False inh (X - {i} \<union> (if go then ?ts else {})) f' \<and> (go \<longrightarrow> (\<forall>t \<in> ?ts. ready_clr inh t f'))"
  proof (cases "bit ?a inh")
    case False
    then show ?thesis using m calm_flag_facts(2) by (intro exI [of _ False] exI [of _ f]) auto
  next
    case True
    then obtain x where x: "moved i (x, ?a AND NOT mode) f f'" using m(4) by auto
    have "any_flag inh ?a" using True by (simp add: any_flag_def)
    moreover have "left_flag True inh f' < left_flag True inh f"
      unfolding left_flag_def movedD(5) [OF x i]
      by (rule count_less [where i = i])
        (use True i movedD(2) [OF x] flag_of_mode(4) [OF mode] in \<open>auto split: if_splits\<close>)
    ultimately show ?thesis using m(1,2,3) calm_flag_moved [OF mode x] ready_moved(2) [OF x b i] ready_trackers(2) [OF x b i]
      by (intro exI [of _ go] exI [of _ f']) auto
  qed
qed (auto simp: ok_flag_def base_def intro: follow_mono follow_state_mono calm_flag_facts)

lemma inherited_flags: "is_flag SRV_ADMF_IMAINT 1" "is_flag SRV_ADMF_IDRAIN 3" "is_flag SRV_ADMF_FMAINT 0" "is_flag SRV_ADMF_FDRAIN 2"
  by (simp_all add: is_flag_def)

interpretation set_maint: propagation "set_flag_one d SRV_ADMF_IMAINT" "ok_flag True 1" "ready_set 1" "left_flag False 1" "calm_flag 1" for d
  by (rule set_propagation) (use inherited_flags in simp_all)

interpretation set_drain: propagation "set_flag_one d SRV_ADMF_IDRAIN" "ok_flag True 3" "ready_set 3" "left_flag False 3" "calm_flag 3" for d
  by (rule set_propagation) (use inherited_flags in simp_all)

interpretation clr_maint: propagation "clr_flag_one d SRV_ADMF_IMAINT" "ok_flag False 1" "ready_clr 1" "left_flag True 1" "calm_flag 1" for d
  by (rule clr_propagation) (use inherited_flags in simp_all)

interpretation clr_drain: propagation "clr_flag_one d SRV_ADMF_IDRAIN" "ok_flag False 3" "ready_clr 3" "left_flag True 3" "calm_flag 3" for d
  by (rule clr_propagation) (use inherited_flags in simp_all)

end
