(* ===== verification/HA_Server_State_Run.thy ===== *)
theory HA_Server_State_Run
  imports HA_Server_State_Proofs
begin

section \<open>The operations on a farm\<close>

text \<open>
  Checks, the administrator and the passing of time move the servers of a farm.  All operations
  return on a farm that satisfies the invariant, and keep it.
\<close>

subsection \<open>Flags of the administrator\<close>

lemma tracking_flag: "inh = 1 \<or> inh = 3 \<Longrightarrow> ok_flag v inh {} f \<longleftrightarrow> tracking_ok f"
  by (auto simp: ok_flag_def tracking_ok_def)

lemma levels_Suc: "levels f = Suc (levels f - 1)" "steady f g \<Longrightarrow> levels g = levels f"
  by (simp_all add: levels_def steady_def)

lemma left_after: "steady f g \<Longrightarrow> left_flag v inh g < levels f - 1"
  using left_flag_levels [of v inh g] levels_Suc(2) [of f g] by simp

definition forced :: "byte \<Rightarrow> nat \<Rightarrow> bool" where
  "forced mode inh \<longleftrightarrow> mode = SRV_ADMF_FMAINT \<and> inh = 1 \<or> mode = SRV_ADMF_FDRAIN \<and> inh = 3"

lemma forced_facts: "forced mode inh \<Longrightarrow> is_flag mode (inh - 1) \<and> (inh = 1 \<or> inh = 3)
    \<and> propagation (set_flag_one d (inherited_flag mode)) (ok_flag True inh) (ready_set inh) (left_flag False inh) (calm_flag inh)
    \<and> propagation (clr_flag_one d (inherited_flag mode)) (ok_flag False inh) (ready_clr inh) (left_flag True inh) (calm_flag inh)"
  using inherited_flags set_maint.propagation_axioms set_drain.propagation_axioms clr_maint.propagation_axioms
    clr_drain.propagation_axioms
  by (auto simp: forced_def inherited_flag_def)

text \<open>What a forced flag does to the flags: those of the server itself, and the inherited ones of others.\<close>

definition flags_changed :: "nat \<Rightarrow> nat \<Rightarrow> bool \<Rightarrow> farm \<Rightarrow> farm \<Rightarrow> bool" where
  "flags_changed i inh v f f' \<longleftrightarrow> (\<forall>j < length (names f). \<forall>k. k \<noteq> inh \<longrightarrow>
     bit (admin (sv j f')) k = (if j = i \<and> k = inh - 1 then v else bit (admin (sv j f)) k))"

lemma flags_after:
  assumes "moved i (x, a) f f1" "i < length (names f)" "calm_flag inh f1 f'"
    "\<And>k. k \<noteq> inh \<Longrightarrow> bit a k = (if k = inh - 1 then v else bit (admin (sv i f)) k)"
  shows "flags_changed i inh v f f'"
  unfolding flags_changed_def
proof (intro allI impI)
  fix j k assume j: "j < length (names f)" and k: "k \<noteq> inh"
  then have "bit (admin (sv j f')) k = bit (admin (sv j f1)) k"
    using assms(3) movedD(5) [OF assms(1,2)] by (simp add: calm_flag_def)
  then show "bit (admin (sv j f')) k = (if j = i \<and> k = inh - 1 then v else bit (admin (sv j f)) k)"
    using movedD(2) [OF assms(1) j] assms(4) [OF k] by (cases "k = inh - 1"; cases "j = i") simp_all
qed

lemma flags_same:
  "calm_flag inh f f' \<Longrightarrow> bit (admin (sv i f)) (inh - 1) = v \<Longrightarrow> flags_changed i inh v f f'"
  by (auto simp: flags_changed_def calm_flag_def)

lemma set_forced:
  assumes "forced mode inh" "tracking_ok f" "i < length (names f)"
  shows "\<exists>f'. srv_set_admin_flag d i mode f = Some f' \<and> tracking_ok f' \<and> steady f f' \<and> flags_changed i inh True f f'"
proof -
  note c = forced_facts [OF assms(1), of d]
  have mode: "is_flag mode (inh - 1)" and inh: "inh = 1 \<or> inh = 3" using c by blast+
  let ?a = "admin (sv i f)" and ?ts = "set (trackers (info_of i f))"
  have ok: "ok_flag True inh {} f" using assms(2) tracking_flag [OF inh] by simp
  have b: "base f" using assms(2) by (simp add: tracking_ok_def)
  have pr: "propagation (set_flag_one d (inherited_flag mode)) (ok_flag True inh) (ready_set inh) (left_flag False inh) (calm_flag inh)"
    using c by blast
  obtain go f1 where m: "set_flag_one d mode i f = Some (go, f1)" "ok_flag True inh (if go then ?ts else {}) f1"
      "if bit ?a (inh - 1) then \<not> go \<and> f1 = f else \<exists>x. moved i (x, ?a OR mode) f f1"
    using set_flag_step [OF ok assms(3) mode, of d] by auto
  have st: "steady f f1" using m(3) moved_farm by (auto split: if_splits)
  have rd: "go \<longrightarrow> (\<forall>t \<in> ?ts. ready_set inh t f1)"
    using m(3) ready_trackers(1) [OF _ b assms(3)] flag_cases(1) [OF mode inh] by (auto split: if_splits)
  obtain f' where f': "srv_set_admin_flag d i mode f = Some f'" "ok_flag True inh {} f'" "calm_flag inh f1 f'"
    using propagation.propagate_from [OF pr, where first = "set_flag_one d mode" and i = i and f = f, OF m(1) st assms(3) left_after [OF st] m(2) rd] levels_Suc(1) [of f]
    unfolding srv_set_admin_flag_def by auto
  have "flags_changed i inh True f f'"
  proof (cases "bit ?a (inh - 1)")
    case True
    then show ?thesis using flags_same [of inh f f' i True] m(3) f'(3) by auto
  next
    case False
    then obtain x where "moved i (x, ?a OR mode) f f1" using m(3) by auto
    from flags_after [OF this assms(3) f'(3)] show ?thesis using flag_of_mode(3) [OF mode] by auto
  qed
  then show ?thesis using f' tracking_flag [OF inh] steady_trans [OF st] calm_flag_facts(1) by blast
qed

lemma clr_forced:
  assumes "forced mode inh" "tracking_ok f" "i < length (names f)"
  shows "\<exists>f'. srv_clr_admin_flag d i mode f = Some f' \<and> tracking_ok f' \<and> steady f f' \<and> flags_changed i inh False f f'"
proof -
  note c = forced_facts [OF assms(1), of d]
  have mode: "is_flag mode (inh - 1)" and inh: "inh = 1 \<or> inh = 3" using c by blast+
  let ?a = "admin (sv i f)" and ?ts = "set (trackers (info_of i f))"
  have ok: "ok_flag False inh {} f" using assms(2) tracking_flag [OF inh] by simp
  have b: "base f" using assms(2) by (simp add: tracking_ok_def)
  have pr: "propagation (clr_flag_one d (inherited_flag mode)) (ok_flag False inh) (ready_clr inh) (left_flag True inh) (calm_flag inh)"
    using c by blast
  obtain go f1 where m: "clr_flag_one d mode i f = Some (go, f1)" "ok_flag False inh (if go then ?ts else {}) f1"
      "go \<longrightarrow> \<not> any_flag inh (?a AND NOT mode)"
      "if \<not> bit ?a (inh - 1) then \<not> go \<and> f1 = f else \<exists>x. moved i (x, ?a AND NOT mode) f f1"
    using clr_flag_step [OF ok assms(3) mode, of d] by auto
  have st: "steady f f1" using m(4) moved_farm by (auto split: if_splits)
  have rd: "go \<longrightarrow> (\<forall>t \<in> ?ts. ready_clr inh t f1)"
    using m(3,4) ready_trackers(2) [OF _ b assms(3)] by (auto split: if_splits)
  obtain f' where f': "srv_clr_admin_flag d i mode f = Some f'" "ok_flag False inh {} f'" "calm_flag inh f1 f'"
    using propagation.propagate_from [OF pr, where first = "clr_flag_one d mode" and i = i and f = f, OF m(1) st assms(3) left_after [OF st] m(2) rd] levels_Suc(1) [of f]
    unfolding srv_clr_admin_flag_def by auto
  have "flags_changed i inh False f f'"
  proof (cases "bit ?a (inh - 1)")
    case False
    then show ?thesis using flags_same [of inh f f' i False] m(4) f'(3) by auto
  next
    case True
    then obtain x where "moved i (x, ?a AND NOT mode) f f1" using m(4) by auto
    from flags_after [OF this assms(3) f'(3)] show ?thesis using flag_of_mode(4) [OF mode] by auto
  qed
  then show ?thesis using f' tracking_flag [OF inh] steady_trans [OF st] calm_flag_facts(1) by blast
qed

lemma adm_ok:
  assumes "tracking_ok f" "i < length (names f)"
  shows "\<exists>g f'. srv_adm_set_maint d i f = Some f' \<and> tracking_ok f' \<and> steady f f' \<and> flags_changed i 1 True f g \<and> flags_changed i 3 False g f'"
    "\<exists>g f'. srv_adm_set_drain d i f = Some f' \<and> tracking_ok f' \<and> steady f f' \<and> flags_changed i 3 True f g \<and> flags_changed i 1 False g f'"
    "\<exists>g f'. srv_adm_set_ready d i f = Some f' \<and> tracking_ok f' \<and> steady f f' \<and> flags_changed i 3 False f g \<and> flags_changed i 1 False g f'"
proof -
  have m: "forced SRV_ADMF_FMAINT 1" and dr: "forced SRV_ADMF_FDRAIN 3" by (simp_all add: forced_def)
  have len: "steady f g \<Longrightarrow> i < length (names g)" for g using assms(2) steady_names by simp
  obtain g1 where g1: "srv_set_admin_flag d i SRV_ADMF_FMAINT f = Some g1" "tracking_ok g1" "steady f g1" "flags_changed i 1 True f g1"
    using set_forced [OF m assms, of d] by blast
  obtain h1 where h1: "srv_clr_admin_flag d i SRV_ADMF_FDRAIN g1 = Some h1" "tracking_ok h1" "steady g1 h1" "flags_changed i 3 False g1 h1"
    using clr_forced [OF dr g1(2) len [OF g1(3)], of d] by blast
  show "\<exists>g f'. srv_adm_set_maint d i f = Some f' \<and> tracking_ok f' \<and> steady f f' \<and> flags_changed i 1 True f g \<and> flags_changed i 3 False g f'"
    using g1 h1 steady_trans [OF g1(3) h1(3)] by (intro exI [of _ g1] exI [of _ h1]) (simp add: srv_adm_set_maint_def)
  obtain g2 where g2: "srv_set_admin_flag d i SRV_ADMF_FDRAIN f = Some g2" "tracking_ok g2" "steady f g2" "flags_changed i 3 True f g2"
    using set_forced [OF dr assms, of d] by blast
  obtain h2 where h2: "srv_clr_admin_flag d i SRV_ADMF_FMAINT g2 = Some h2" "tracking_ok h2" "steady g2 h2" "flags_changed i 1 False g2 h2"
    using clr_forced [OF m g2(2) len [OF g2(3)], of d] by blast
  show "\<exists>g f'. srv_adm_set_drain d i f = Some f' \<and> tracking_ok f' \<and> steady f f' \<and> flags_changed i 3 True f g \<and> flags_changed i 1 False g f'"
    using g2 h2 steady_trans [OF g2(3) h2(3)] by (intro exI [of _ g2] exI [of _ h2]) (simp add: srv_adm_set_drain_def)
  obtain g3 where g3: "srv_clr_admin_flag d i SRV_ADMF_FDRAIN f = Some g3" "tracking_ok g3" "steady f g3" "flags_changed i 3 False f g3"
    using clr_forced [OF dr assms, of d] by blast
  obtain h3 where h3: "srv_clr_admin_flag d i SRV_ADMF_FMAINT g3 = Some h3" "tracking_ok h3" "steady g3 h3" "flags_changed i 1 False g3 h3"
    using clr_forced [OF m g3(2) len [OF g3(3)], of d] by blast
  show "\<exists>g f'. srv_adm_set_ready d i f = Some f' \<and> tracking_ok f' \<and> steady f f' \<and> flags_changed i 3 False f g \<and> flags_changed i 1 False g f'"
    using g3 h3 steady_trans [OF g3(3) h3(3)] by (intro exI [of _ g3] exI [of _ h3]) (simp add: srv_adm_set_ready_def)
qed

subsection \<open>Checks, weights and the slow start\<close>

lemma phase_tracking:
  assumes "tracking_ok f" "i < length (names f)" "moved i (x, admin (sv i f)) f g" "phase x = phase (state (sv i f))"
  shows "tracking_ok g"
proof -
  have b: "base f" and f1: "follow 1 {} f" and f3: "follow 3 {} f" and fs: "follow_state {} f"
    using assms(1) by (simp_all add: tracking_ok_def)
  have "base g"
    by (rule base_moved [OF b assms(3,2)]) (use stopped_flag [OF b assms(2)] assms(4) in auto)
  moreover have "follow_state {} g"
  proof (rule follow_state_moved [OF fs assms(3,2) b])
    show "phase x = phase (state (sv p f))"
      if "track (sv i f) = Some p" "checkless (info_of i f)" "\<not> any_flag 1 (admin (sv i f))" for p
      using that fs assms(2,4) by (simp add: follow_state_def maint_any)
  qed (use assms(4) in auto)
  ultimately show ?thesis
    using follow_kept [OF f1 assms(3,2) b refl refl] follow_kept [OF f3 assms(3,2) b refl refl] by (simp add: tracking_ok_def)
qed

lemma quiet_tracking:
  assumes "tracking_ok f" "i < length (names f)" "quiet f g"
  shows "tracking_ok g"
proof (rule phase_tracking [OF assms(1,2)])
  show "moved i (state (sv i f), admin (sv i f)) f g"
    using assms(3) by (auto simp: quiet_def moved_def view_def)
qed simp

lemma info_tracking:
  assumes "tracking_ok f" "i < length (names f)" "trackers (g (info_of i f)) = trackers (info_of i f)"
    "checkless (g (info_of i f)) = checkless (info_of i f)"
  shows "tracking_ok (on_info i g f) \<and> steady f (on_info i g f) \<and> (\<forall>j. sv j (on_info i g f) = sv j f)"
proof -
  have "quiet f (on_info i g f)"
    using assms by (intro quiet_info) (simp_all add: tracking_ok_def base_def)
  then show ?thesis using quiet_tracking [OF assms(1,2)] by (simp add: quiet_def server_notes)
qed

lemma check_frame:
  assumes "\<And>c. chk_state (g c) AND CHK_ST_ENABLED = chk_state c AND CHK_ST_ENABLED"
  shows "trackers (on_check w g s) = trackers s" "checkless (on_check w g s) = checkless s"
  using health_update_frame [OF assms] by blast+

lemma status_info_frame:
  "trackers (set_server_check_status now w st s) = trackers s" "checkless (set_server_check_status now w st s) = checkless s"
proof -
  have "chk_state (check_of u (set_server_check_status now w st s)) = chk_state (check_of u s)" for u
    using set_status_frame(3) set_status_other by (cases "u = w") auto
  from this [of Health] this [of Agent] show "checkless (set_server_check_status now w st s) = checkless s"
    by (simp add: checkless_def has_st_def)
qed (rule set_status_frame)

lemma movable_steady: "movable i f \<Longrightarrow> steady f g \<Longrightarrow> i < length (names f) \<Longrightarrow> movable i g"
  by (simp add: movable_def steady_def)

lemma notify_ok:
  assumes "tracking_ok f" "i < length (names f)" "movable i f"
  shows "\<exists>f'. check_notify_failure d w i f = Some f' \<and> tracking_ok f' \<and> steady f f'"
    "\<exists>f'. check_notify_success d w i f = Some f' \<and> tracking_ok f' \<and> steady f f'"
    "\<exists>f'. check_notify_stopping d w i f = Some f' \<and> tracking_ok f' \<and> steady f f'"
  using set_state_ok [OF assms, of d] calm_state_facts(1) assms(1)
  by (auto simp: check_notify_failure_def check_notify_success_def check_notify_stopping_def Let_def)

lemma complete_ok:
  assumes "tracking_ok f" "i < length (names f)" "movable i f"
  shows "\<exists>f'. check_complete d w i f = Some f' \<and> tracking_ok f' \<and> steady f f'"
proof -
  let ?r = "case result (check_of w (info_of i f)) of CHK_RES_FAILED \<Rightarrow> check_notify_failure d w i f
     | CHK_RES_CONDPASS \<Rightarrow> check_notify_stopping d w i f | CHK_RES_PASSED \<Rightarrow> check_notify_success d w i f | _ \<Rightarrow> Some f"
  obtain g where g: "?r = Some g" "tracking_ok g" "steady f g"
    using notify_ok [OF assms, of d w] assms(1) steady_refl
    by (cases "result (check_of w (info_of i f))") (simp_all del: steady_refl, blast+)
  have i: "i < length (names g)" using assms(2) steady_names [OF g(3)] by simp
  let ?c = "on_check w (\<lambda>c. c\<lparr>chk_state := chk_state c AND NOT CHK_ST_INPROGRESS\<rparr>)"
  have "tracking_ok (on_info i ?c g) \<and> steady g (on_info i ?c g)"
    using info_tracking [OF g(2) i, of ?c] check_frame [of "\<lambda>c. c\<lparr>chk_state := chk_state c AND NOT CHK_ST_INPROGRESS\<rparr>" w]
    by (simp add: enabled_bit)
  then show ?thesis using g(1) steady_trans [OF g(3)] by (auto simp: check_complete_def)
qed

lemma simulate_ok:
  assumes "tracking_ok f" "i < length (names f)" "movable i f"
  shows "\<exists>f'. simulate_failure now d i f = Some f' \<and> tracking_ok f' \<and> steady f f'"
proof -
  let ?g = "set_server_check_status now Health HCHK_STATUS_HANA"
  have t: "tracking_ok (on_info i ?g f)" "steady f (on_info i ?g f)"
    using info_tracking [OF assms(1,2), of ?g] status_info_frame by simp_all
  have "i < length (names (on_info i ?g f))" "movable i (on_info i ?g f)"
    using assms(2) movable_steady [OF assms(3) t(2) assms(2)] by (simp_all add: server_notes)
  from notify_ok(1) [OF t(1) this, of d Health] show ?thesis
    using steady_trans [OF t(2)] unfolding simulate_failure_def by blast
qed

lemma errors_ok:
  assumes "tracking_ok f" "i < length (names f)" "movable i f"
  shows "\<exists>f'. too_many_errors now d i f = Some f' \<and> tracking_ok f' \<and> steady f f'"
proof -
  have on: "\<exists>f'. simulate_failure now d i (on_info i (on_check Health g) f) = Some f' \<and> tracking_ok f' \<and> steady f f'"
    if "\<And>c. chk_state (g c) = chk_state c" for g
  proof -
    have t: "tracking_ok (on_info i (on_check Health g) f)" "steady f (on_info i (on_check Health g) f)"
      using info_tracking [OF assms(1,2), of "on_check Health g"] check_frame [of g Health] that by simp_all
    have "i < length (names (on_info i (on_check Health g) f))" "movable i (on_info i (on_check Health g) f)"
      using assms(2) movable_steady [OF assms(3) t(2) assms(2)] by (simp_all add: server_notes)
    from simulate_ok [OF t(1) this] show ?thesis using steady_trans [OF t(2)] by blast
  qed
  show ?thesis
    using simulate_ok [OF assms, of now d] on [of "\<lambda>c. if health c > rise c then c\<lparr>health := rise c + 1\<rparr> else c"]
      on [of "\<lambda>c. c\<lparr>health := rise c\<rparr>"] assms(1)
    by (cases "onerror (info_of i f)") (simp_all add: too_many_errors_def)
qed

lemma adjust_ok:
  assumes "tracking_ok f" "i < length (names f)" "movable i f"
  shows "\<exists>f'. health_adjust now d i st f = Some f' \<and> tracking_ok f' \<and> steady f f'"
proof -
  have e: "tracking_ok (on_info i (\<lambda>s. s\<lparr>consecutive_errors := n s\<rparr>) f) \<and> steady f (on_info i (\<lambda>s. s\<lparr>consecutive_errors := n s\<rparr>) f)" for n
    using info_tracking [OF assms(1,2), of "\<lambda>s. s\<lparr>consecutive_errors := n s\<rparr>"] by (simp add: checkless_def)
  define g where "g = on_info i (\<lambda>s. s\<lparr>consecutive_errors := consecutive_errors s + 1\<rparr>) f"
  have g: "tracking_ok g" "steady f g" "i < length (names g)" "movable i g"
    using e [of "\<lambda>s. consecutive_errors s + 1"] assms(2) movable_steady [OF assms(3) _ assms(2)] by (simp_all add: g_def server_notes)
  obtain h where h: "too_many_errors now d i g = Some h" "tracking_ok h" "steady g h" using errors_ok [OF g(1,3,4)] by blast
  have ih: "i < length (names h)" using g(3) steady_names [OF h(3)] by simp
  let ?c = "\<lambda>s. on_check Health (hasten_check (now_ms d)) (s\<lparr>consecutive_errors := 0, failed_hana := failed_hana s + 1\<rparr>)"
  have st: "chk_state (hasten_check n c) = chk_state c" for n c by (simp add: hasten_check_def Let_def)
  have "tracking_ok (on_info i ?c h) \<and> steady h (on_info i ?c h)"
    using info_tracking [OF h(2) ih, of ?c] st by (simp add: checkless_def has_st_def)
  then have "tracking_ok (on_info i ?c h)" "steady f (on_info i ?c h)" using steady_trans [OF g(2) steady_trans [OF h(3)]] by blast+
  then show ?thesis using e [of "\<lambda>_. 0"] g h(1) assms(1)
    by (simp add: health_adjust_def Let_def g_def [symmetric])
qed

lemma recalc_ok:
  assumes "tracking_ok f" "i < length (names f)" "0 \<le> w"
  shows "tracking_ok (server_recalc_eweight d i (on_server i (\<lambda>s. s\<lparr>uweight := w\<rparr>) f))
    \<and> steady f (server_recalc_eweight d i (on_server i (\<lambda>s. s\<lparr>uweight := w\<rparr>) f))"
proof -
  let ?h = "\<lambda>s. s\<lparr>uweight := w\<rparr>"
  have farm: "farm_ok f" using assms(1) by (simp add: tracking_ok_def base_def)
  have "variant (sv i f) (?h (sv i f))" using assms(3) by (simp add: variant_def)
  note m = change_recalc [where h = ?h and d = d, OF farm assms(2) this]
  show ?thesis using phase_tracking [OF assms(1,2), of _ "server_recalc_eweight d i (on_server i ?h f)"] m moved_farm [OF m] by simp
qed

lemma warmup_ok:
  assumes "tracking_ok f" "i < length (names f)"
  shows "\<exists>x f'. server_warmup d i f = Some (x, f') \<and> tracking_ok f' \<and> steady f f'"
proof -
  have farm: "farm_ok f" using assms(1) by (simp add: tracking_ok_def base_def)
  have id: "on_server i (\<lambda>s. s\<lparr>uweight := uweight (sv i f)\<rparr>) f = f"
    unfolding on_server_put using on_server_put [of i "\<lambda>s. s" f] by (simp add: on_server_id)
  let ?g = "server_recalc_eweight d i f"
  have g: "tracking_ok ?g" "steady f ?g"
    using recalc_ok [OF assms server_facts(1) [OF farm assms(2)], of d] by (simp_all add: id)
  have ig: "i < length (names ?g)" "farm_ok ?g" using assms(2) steady_names [OF g(2)] g(1) by (simp_all add: tracking_ok_def base_def)
  obtain h where h: "in_backend i (pendconn_grab_from_px (now_sec d) (pos_of i ?g)) ?g = Some h" "quiet ?g h"
    using grab_quiet [OF ig(2,1)] by blast
  have "tracking_ok h" "steady f h"
    using quiet_tracking [OF g(1) ig(1) h(2)] steady_trans [OF g(2)] h(2) by (auto simp: quiet_def)
  moreover have "pos_of i ?g = pos_of i f" using steady_names [OF g(2)] by (simp add: pos_of_def)
  ultimately show ?thesis using h(1) assms(1) by (simp add: server_warmup_def)
qed

lemma known_weight_bounds: "known_weight dyn iw w = Inr v \<Longrightarrow> v = w \<and> (w = 0 \<or> w = iw \<or> dyn)"
  by (auto simp: known_weight_def split: if_splits)

lemma weight_bounds:
  assumes "weight_request dyn iw str = Inr w" "0 \<le> iw"
  shows "0 \<le> w \<and> w \<le> 256 \<and> (w = 0 \<or> w = iw \<or> dyn)"
proof -
  obtain n rest where s: "str \<noteq> []" "strtol str = Some (n, rest)"
    using assms(1) by (auto simp: weight_request_def split: if_splits option.splits)
  have "0 \<le> c_div (iw * min 25600 n) 100" if "0 \<le> n" using that assms(2) by (simp add: c_div_nonneg pos_imp_zdiv_nonneg_iff)
  then show ?thesis using assms(1) s known_weight_bounds
    by (fastforce simp: weight_request_def split: if_splits)
qed

subsection \<open>Reachable farms\<close>

text \<open>
  What happens to a farm: a check changes its status or completes, an observed error is counted, the
  administrator or an agent puts a server in maintenance, drains it or sets it ready, the weight of a
  server changes, a slow start goes on.  The dates are arbitrary.  The configuration refuses health
  checks on a server that tracks another (\<open>movable\<close>), and the initial weights are not negative.
\<close>

inductive farm_step :: "farm \<Rightarrow> farm \<Rightarrow> bool" where
  status: "i < length (names f) \<Longrightarrow> farm_step f (on_info i (set_server_check_status now w st) f)"
| complete: "i < length (names f) \<Longrightarrow> movable i f \<Longrightarrow> check_complete d w i f = Some f' \<Longrightarrow> farm_step f f'"
| adjust: "i < length (names f) \<Longrightarrow> movable i f \<Longrightarrow> health_adjust now d i hs f = Some f' \<Longrightarrow> farm_step f f'"
| maint: "i < length (names f) \<Longrightarrow> srv_adm_set_maint d i f = Some f' \<Longrightarrow> farm_step f f'"
| drain: "i < length (names f) \<Longrightarrow> srv_adm_set_drain d i f = Some f' \<Longrightarrow> farm_step f f'"
| ready: "i < length (names f) \<Longrightarrow> srv_adm_set_ready d i f = Some f' \<Longrightarrow> farm_step f f'"
| warmup: "i < length (names f) \<Longrightarrow> server_warmup d i f = Some (x, f') \<Longrightarrow> farm_step f f'"
| weight: "i < length (names f) \<Longrightarrow> 0 \<le> iweight (info_of i f) \<Longrightarrow>
    server_parse_weight_change_request d i str f = (e, f') \<Longrightarrow> farm_step f f'"

lemma farm_step_ok:
  assumes "farm_step f f'" "tracking_ok f"
  shows "tracking_ok f' \<and> steady f f'"
  using assms
proof cases
  case (status i now w st)
  then show ?thesis using info_tracking [OF assms(2) status(2), of "set_server_check_status now w st"] status_info_frame by simp
next
  case (complete i d w)
  then show ?thesis using complete_ok [OF assms(2) complete(1,2), of d w] by auto
next
  case (adjust i now d hs)
  then show ?thesis using adjust_ok [OF assms(2) adjust(1,2), of now d hs] by auto
next
  case (maint i d)
  then show ?thesis using adm_ok(1) [OF assms(2) maint(1), of d] by auto
next
  case (drain i d)
  then show ?thesis using adm_ok(2) [OF assms(2) drain(1), of d] by auto
next
  case (ready i d)
  then show ?thesis using adm_ok(3) [OF assms(2) ready(1), of d] by auto
next
  case (warmup i d x)
  then show ?thesis using warmup_ok [OF assms(2) warmup(1), of d] by auto
next
  case (weight i d str e)
  show ?thesis
  proof (cases "weight_request (prop_dyn (px_info_of i f)) (iweight (info_of i f)) str")
    case (Inl e')
    then show ?thesis using weight(3) assms(2) by (simp add: server_parse_weight_change_request_def)
  next
    case (Inr w)
    then show ?thesis using weight recalc_ok [OF assms(2) weight(1), of w d] weight_bounds [OF Inr weight(2)]
      by (simp add: server_parse_weight_change_request_def)
  qed
qed

lemma farm_reachable_ok: "farm_step\<^sup>*\<^sup>* f0 f \<Longrightarrow> tracking_ok f0 \<Longrightarrow> tracking_ok f \<and> steady f0 f"
proof (induction rule: rtranclp_induct)
  case (step f g)
  then show ?case using farm_step_ok [of f g] steady_trans [of f0 f g] by blast
qed simp

lemma tracking_facts:
  assumes "tracking_ok f" "t < length (names f)" "track (sv t f) = Some p"
  shows "admin (sv t f) AND SRV_ADMF_IMAINT \<noteq> 0 \<longleftrightarrow> in_maint (sv p f)" "admin (sv t f) AND SRV_ADMF_IDRAIN \<noteq> 0 \<longleftrightarrow> in_drain (sv p f)"
    "checkless (info_of t f) \<Longrightarrow> \<not> in_maint (sv t f) \<Longrightarrow> phase (state (sv t f)) = phase (state (sv p f))"
  using assms flag_of_mode(2) [OF inherited_flags(1)] flag_of_mode(2) [OF inherited_flags(2)]
  by (auto simp: tracking_ok_def follow_def follow_state_def maint_any)

end
