(* ===== verification/HA_Tracking_Modes.thy ===== *)
theory HA_Tracking_Modes
  imports HA_Tracking HA_Server_State_Run
begin

section \<open>The modes that the configuration gives (src/cfgparse.c, src/server.c)\<close>

text \<open>
  A server starts up, or in maintenance when its line has the keyword \<open>disabled\<close>.  A server that is bound
  to the one it tracks inherits the maintenance that this one has at that moment.  When every server is bound
  after the one it tracks, all the modes are inherited in the end, and the farm that starts with them
  satisfies the invariant of the operations on servers.
\<close>

definition cfg_start :: "config \<Rightarrow> bool" where
  "cfg_start c \<longleftrightarrow> (\<forall>p \<in> set (cfg_pxs c). \<forall>i \<in> set (px_srvs p). i < length (cfg_srvs c))
    \<and> (\<forall>s \<in> set (cfg_srvs c). tracked s = None \<and>
        (admin_mode s = 0 \<and> srv_st s = SRV_ST_RUNNING \<or> admin_mode s = SRV_ADMF_FMAINT \<and> srv_st s = SRV_ST_STOPPED))"

text \<open>The order in which the servers are bound, and the condition on it.\<close>

definition cfg_order :: "config \<Rightarrow> (nat \<times> nat) list" where
  "cfg_order c = concat (map (\<lambda>k. map (Pair k) (px_srvs (cfg_pxs c ! k))) [0..<length (cfg_pxs c)])"

fun tracked_first :: "config \<Rightarrow> (nat \<times> nat) list \<Rightarrow> nat list \<Rightarrow> bool" where
  "tracked_first c [] bound \<longleftrightarrow> True"
| "tracked_first c ((k, i) # xs) bound \<longleftrightarrow>
    (case trackit (cfg_srvs c ! i) of None \<Rightarrow> True
     | Some name \<Rightarrow> (case track_target k name c of Inl e \<Rightarrow> True
        | Inr (px, t) \<Rightarrow> trackit (cfg_srvs c ! t) = None \<or> t \<in> set bound))
    \<and> tracked_first c xs (i # bound)"

subsection \<open>The modes while servers are bound\<close>

definition cfg_maint :: "cfg_server \<Rightarrow> bool" where
  "cfg_maint s \<longleftrightarrow> any_flag 1 (admin_mode s)"

definition modes_inv :: "config \<Rightarrow> bool" where
  "modes_inv c \<longleftrightarrow> (\<forall>i < length (cfg_srvs c).
    (case tracked (cfg_srvs c ! i) of None \<Rightarrow> \<not> bit (admin_mode (cfg_srvs c ! i)) 1
     | Some t \<Rightarrow> t < length (cfg_srvs c) \<and> trackit (cfg_srvs c ! t) = None
         \<and> (bit (admin_mode (cfg_srvs c ! i)) 1 \<longleftrightarrow> cfg_maint (cfg_srvs c ! t)))
    \<and> srv_st (cfg_srvs c ! i) = (if cfg_maint (cfg_srvs c ! i) then SRV_ST_STOPPED else SRV_ST_RUNNING)
    \<and> \<not> any_flag 3 (admin_mode (cfg_srvs c ! i))
    \<and> (trackit (cfg_srvs c ! i) \<noteq> None \<longrightarrow> tracked (cfg_srvs c ! i) = None))"

text \<open>What the binding of the servers of \<open>bound\<close> leaves of the configuration \<open>c0\<close>.\<close>

definition bound_from :: "config \<Rightarrow> nat list \<Rightarrow> config \<Rightarrow> bool" where
  "bound_from c0 bound c \<longleftrightarrow> cfg_pxs c = cfg_pxs c0 \<and> length (cfg_srvs c) = length (cfg_srvs c0)
    \<and> (\<forall>i. srv_id (cfg_srvs c ! i) = srv_id (cfg_srvs c0 ! i)
         \<and> trackit (cfg_srvs c ! i) = (if i \<in> set bound then None else trackit (cfg_srvs c0 ! i)))"

lemma start_modes: "cfg_start c \<Longrightarrow> modes_inv c \<and> bound_from c [] c"
proof -
  assume c: "cfg_start c"
  have b: "bit (1 :: byte) n \<longleftrightarrow> n = 0" for n by (cases n) simp_all
  have "tracked (cfg_srvs c ! i) = None \<and> \<not> bit (admin_mode (cfg_srvs c ! i)) 1 \<and> \<not> any_flag 3 (admin_mode (cfg_srvs c ! i))
    \<and> srv_st (cfg_srvs c ! i) = (if cfg_maint (cfg_srvs c ! i) then SRV_ST_STOPPED else SRV_ST_RUNNING)"
    if "i < length (cfg_srvs c)" for i
  proof -
    have "tracked (cfg_srvs c ! i) = None"
      and m: "admin_mode (cfg_srvs c ! i) = 0 \<and> srv_st (cfg_srvs c ! i) = SRV_ST_RUNNING
        \<or> admin_mode (cfg_srvs c ! i) = SRV_ADMF_FMAINT \<and> srv_st (cfg_srvs c ! i) = SRV_ST_STOPPED"
      using c nth_mem [OF that] unfolding cfg_start_def by blast+
    from m show ?thesis using \<open>tracked (cfg_srvs c ! i) = None\<close> by (elim disjE) (simp_all add: cfg_maint_def any_flag_def b)
  qed
  then show ?thesis by (auto simp: modes_inv_def bound_from_def)
qed

lemma maint_flag: "a AND SRV_ADMF_MAINT \<noteq> 0 \<longleftrightarrow> any_flag 1 a" for a :: byte
  by (simp add: any_flag_def flag_bits)

lemma bind_modes:
  assumes "new < length (cfg_srvs c)" "t < length (cfg_srvs c)" "new \<noteq> t"
  shows "admin_mode (cfg_srvs (bind_track new t c) ! i) =
      (if i = new \<and> cfg_maint (cfg_srvs c ! t) then admin_mode (cfg_srvs c ! i) OR SRV_ADMF_IMAINT else admin_mode (cfg_srvs c ! i))"
    "srv_st (cfg_srvs (bind_track new t c) ! i) =
      (if i = new \<and> cfg_maint (cfg_srvs c ! t) then SRV_ST_STOPPED else srv_st (cfg_srvs c ! i))"
  using assms by (auto simp: bind_track_def on_cfg_def inherit_mode_def Let_def nth_list_update cfg_maint_def maint_flag)

lemma inherit_bits: "bit (a OR SRV_ADMF_IMAINT) n \<longleftrightarrow> bit a n \<or> n = 1" for a :: byte
  using flag_of_mode(3) [OF inherited_flags(1)] by simp

lemma bind_modes_inv:
  assumes inv: "modes_inv c" and new: "new < length (cfg_srvs c)" "trackit (cfg_srvs c ! new) \<noteq> None"
    and t: "t < length (cfg_srvs c)" "trackit (cfg_srvs c ! t) = None"
  shows "modes_inv (bind_track new t c)"
proof -
  have ne: "new \<noteq> t" using new(2) t(2) by auto
  note f = bind_frame [OF new(1) t(1) ne] and m = bind_modes [OF new(1) t(1) ne]
  have old: "tracked (cfg_srvs c ! new) = None" "\<not> bit (admin_mode (cfg_srvs c ! new)) 1"
    using inv new unfolding modes_inv_def by (fastforce split: option.splits)+
  have keep: "u \<noteq> new" if "i < length (cfg_srvs c)" "tracked (cfg_srvs c ! i) = Some u" for i u
    using inv that new(2) unfolding modes_inv_def by (fastforce split: option.splits)
  have mt: "cfg_maint (cfg_srvs (bind_track new t c) ! i) =
      (cfg_maint (cfg_srvs c ! i) \<or> i = new \<and> cfg_maint (cfg_srvs c ! t))" for i
    by (auto simp: cfg_maint_def m any_flag_def inherit_bits)
  show ?thesis
    unfolding modes_inv_def
  proof (intro allI impI)
    fix i assume "i < length (cfg_srvs (bind_track new t c))"
    then have i: "i < length (cfg_srvs c)" using f(2) by simp
    have d: "\<not> any_flag 3 (admin_mode (cfg_srvs c ! i))"
      and st: "srv_st (cfg_srvs c ! i) = (if cfg_maint (cfg_srvs c ! i) then SRV_ST_STOPPED else SRV_ST_RUNNING)"
      and ti: "trackit (cfg_srvs c ! i) \<noteq> None \<longrightarrow> tracked (cfg_srvs c ! i) = None"
      using inv i unfolding modes_inv_def by blast+
    have tr: "case tracked (cfg_srvs c ! i) of None \<Rightarrow> \<not> bit (admin_mode (cfg_srvs c ! i)) 1
       | Some t \<Rightarrow> t < length (cfg_srvs c) \<and> trackit (cfg_srvs c ! t) = None
         \<and> (bit (admin_mode (cfg_srvs c ! i)) 1 \<longleftrightarrow> cfg_maint (cfg_srvs c ! t))"
      using inv i unfolding modes_inv_def by blast
    let ?s = "cfg_srvs (bind_track new t c) ! i"
    have "case tracked ?s of None \<Rightarrow> \<not> bit (admin_mode ?s) 1
       | Some u \<Rightarrow> u < length (cfg_srvs (bind_track new t c)) \<and> trackit (cfg_srvs (bind_track new t c) ! u) = None
         \<and> (bit (admin_mode ?s) 1 \<longleftrightarrow> cfg_maint (cfg_srvs (bind_track new t c) ! u))"
    proof (cases "i = new")
      case True
      then show ?thesis using old t ne by (simp add: f m mt inherit_bits)
    next
      case False
      then show ?thesis using tr keep [OF i] by (auto simp: f m mt split: option.splits)
    qed
    moreover have "srv_st ?s = (if cfg_maint ?s then SRV_ST_STOPPED else SRV_ST_RUNNING)"
      using st by (auto simp: m mt)
    moreover have "\<not> any_flag 3 (admin_mode ?s)" using d by (auto simp: m any_flag_def inherit_bits)
    moreover have "trackit ?s \<noteq> None \<longrightarrow> tracked ?s = None" using ti by (auto simp: f)
    ultimately show "(case tracked ?s of None \<Rightarrow> \<not> bit (admin_mode ?s) 1
       | Some u \<Rightarrow> u < length (cfg_srvs (bind_track new t c)) \<and> trackit (cfg_srvs (bind_track new t c) ! u) = None
         \<and> (bit (admin_mode ?s) 1 \<longleftrightarrow> cfg_maint (cfg_srvs (bind_track new t c) ! u)))
       \<and> srv_st ?s = (if cfg_maint ?s then SRV_ST_STOPPED else SRV_ST_RUNNING)
       \<and> \<not> any_flag 3 (admin_mode ?s) \<and> (trackit ?s \<noteq> None \<longrightarrow> tracked ?s = None)" by blast
  qed
qed

subsection \<open>The whole binding\<close>

lemma bound_target:
  assumes "bound_from c0 bound c"
  shows "track_target k name c = track_target k name c0"
  using assms by (intro track_target_same) (simp_all add: bound_from_def)

lemma target_in_range:
  assumes "\<forall>p \<in> set (cfg_pxs c). \<forall>i \<in> set (px_srvs p). i < n" "k < length (cfg_pxs c)" "track_target k name c = Inr (px, t)"
  shows "t < n"
proof -
  have "px < length (cfg_pxs c)"
    using assms(2,3) unique_member by (fastforce simp: track_target_def findproxy_def Let_def split: prod.splits option.splits)
  moreover have "t \<in> set (px_srvs (cfg_pxs c ! px))"
    using assms(3) unique_member by (fastforce simp: track_target_def findserver_def split: prod.splits option.splits)
  ultimately show ?thesis using assms(1) by auto
qed

lemma resolve_track_modes:
  assumes c0: "cfg_start c0" and inv: "modes_inv c" "bound_from c0 bound c"
    and k: "k < length (cfg_pxs c0)" "i \<in> set (px_srvs (cfg_pxs c0 ! k))"
    and ord: "tracked_first c0 ((k, i) # xs) bound" and r: "resolve_track k i c = Some (None, c')"
  shows "modes_inv c' \<and> bound_from c0 (i # bound) c'"
proof (cases "trackit (cfg_srvs c ! i)")
  case None
  then have "c' = c" using r by (simp add: resolve_track_def)
  then show ?thesis using inv None by (auto simp: bound_from_def)
next
  case (Some name)
  then have i0: "trackit (cfg_srvs c0 ! i) = Some name" "i \<notin> set bound"
    using inv(2) by (auto simp: bound_from_def split: if_splits)
  have range: "\<forall>p \<in> set (cfg_pxs c0). \<forall>i \<in> set (px_srvs p). i < length (cfg_srvs c)"
    using c0 inv(2) by (simp add: cfg_start_def bound_from_def)
  then have i: "i < length (cfg_srvs c)" using k by auto
  obtain px t where t: "track_target k name c0 = Inr (px, t)" and c': "c' = bind_track i t c"
    using r Some bound_target [OF inv(2), of k name]
    by (auto simp: resolve_track_def Let_def bind_eq_Some_conv split: sum.splits prod.splits if_splits)
  have tl: "t < length (cfg_srvs c)" by (rule target_in_range [OF range k(1) t])
  have "trackit (cfg_srvs c0 ! t) = None \<or> t \<in> set bound" using ord i0 t by simp
  then have tt: "trackit (cfg_srvs c ! t) = None" using inv(2) by (auto simp: bound_from_def)
  then have ne: "i \<noteq> t" using Some by auto
  have "modes_inv c'" unfolding c' using bind_modes_inv [OF inv(1) i _ tl tt] Some by simp
  moreover have "bound_from c0 (i # bound) c'"
    using inv(2) bind_frame [OF i tl ne] by (auto simp: bound_from_def c')
  ultimately show ?thesis by simp
qed

lemma resolve_servers_count: "resolve_servers k is (n, c) = Some (m, c') \<Longrightarrow> n \<le> m"
proof (induction "is" arbitrary: n c)
  case (Cons i "is")
  obtain e c1 where r: "resolve_track k i c = Some (e, c1)"
    "resolve_servers k is (if e = None then n else n + 1, c1) = Some (m, c')"
    using Cons.prems by (auto simp: bind_eq_Some_conv)
  from Cons.IH [OF r(2)] show ?case by (simp split: if_splits)
qed simp

lemma resolve_proxies_count: "resolve_proxies ks (n, c) = Some (m, c') \<Longrightarrow> n \<le> m"
proof (induction ks arbitrary: n c)
  case (Cons k ks)
  then obtain n1 c1 where "resolve_servers k (px_srvs (cfg_pxs c ! k)) (n, c) = Some (n1, c1)" "resolve_proxies ks (n1, c1) = Some (m, c')"
    by (auto simp: bind_eq_Some_conv)
  then show ?case using Cons.IH resolve_servers_count le_trans by blast
qed simp

lemma resolve_servers_modes:
  assumes "cfg_start c0" "k < length (cfg_pxs c0)"
  shows "modes_inv c \<Longrightarrow> bound_from c0 bound c \<Longrightarrow> set is \<subseteq> set (px_srvs (cfg_pxs c0 ! k)) \<Longrightarrow>
    tracked_first c0 (map (Pair k) is @ xs) bound \<Longrightarrow> resolve_servers k is (0, c) = Some (0, c') \<Longrightarrow>
    modes_inv c' \<and> (\<exists>b. bound_from c0 b c' \<and> tracked_first c0 xs b)"
proof (induction "is" arbitrary: c bound)
  case (Cons i "is")
  obtain e c1 where r: "resolve_track k i c = Some (e, c1)"
    "resolve_servers k is (if e = None then 0 else 0 + 1, c1) = Some (0, c')"
    using Cons.prems(5) by (auto simp: bind_eq_Some_conv)
  then have e: "e = None" using resolve_servers_count [OF r(2)] by (simp split: if_splits)
  have ord: "tracked_first c0 ((k, i) # map (Pair k) is @ xs) bound" using Cons.prems(4) by simp
  have s: "modes_inv c1" "bound_from c0 (i # bound) c1"
    using resolve_track_modes [OF assms(1) Cons.prems(1,2) assms(2) _ ord] Cons.prems(3) r(1) e by simp_all
  show ?case using Cons.IH [OF s] Cons.prems(3) ord r(2) e by simp
qed auto

lemma resolve_proxies_modes:
  assumes "cfg_start c0"
  shows "modes_inv c \<Longrightarrow> bound_from c0 bound c \<Longrightarrow> \<forall>k \<in> set ks. k < length (cfg_pxs c0) \<Longrightarrow>
    tracked_first c0 (concat (map (\<lambda>k. map (Pair k) (px_srvs (cfg_pxs c0 ! k))) ks)) bound \<Longrightarrow>
    resolve_proxies ks (0, c) = Some (0, c') \<Longrightarrow> modes_inv c' \<and> length (cfg_srvs c') = length (cfg_srvs c0)"
proof (induction ks arbitrary: c bound)
  case Nil
  then show ?case by (simp add: bound_from_def)
next
  case (Cons k ks)
  have px: "cfg_pxs c = cfg_pxs c0" using Cons.prems(2) by (simp add: bound_from_def)
  obtain n1 c1 where r: "resolve_servers k (px_srvs (cfg_pxs c0 ! k)) (0, c) = Some (n1, c1)" "resolve_proxies ks (n1, c1) = Some (0, c')"
    using Cons.prems(5) px by (auto simp: bind_eq_Some_conv)
  then have n: "n1 = 0" using resolve_proxies_count [OF r(2)] by simp
  obtain b where s: "modes_inv c1" "bound_from c0 b c1"
    "tracked_first c0 (concat (map (\<lambda>k. map (Pair k) (px_srvs (cfg_pxs c0 ! k))) ks)) b"
    using resolve_servers_modes [OF assms, of k c bound "px_srvs (cfg_pxs c0 ! k)" _ c1] Cons.prems r(1) n by auto
  show ?case using Cons.IH [OF s(1,2) _ s(3)] Cons.prems(3) r(2) n by simp
qed

theorem resolved_modes:
  assumes "cfg_start c" "tracked_first c (cfg_order c) []" "resolve_config c = Some (0, c')"
  shows "modes_inv c'"
  using resolve_proxies_modes [OF assms(1), of c "[]" "[0..<length (cfg_pxs c)]" c'] start_modes [OF assms(1)] assms(2,3)
  by (simp add: cfg_order_def resolve_config_def)

subsection \<open>The farm at startup\<close>

text \<open>A farm starts from a configuration when its servers have the states, the modes and the tracked servers
  of the configuration; \<open>farm_ok\<close> says that the servers have their places in the backends, that the lists of
  trackers are those of the servers, and that the counters of the backends and their queues are set up.\<close>

definition started_from :: "config \<Rightarrow> farm \<Rightarrow> bool" where
  "started_from c f \<longleftrightarrow> farm_ok f \<and> length (names f) = length (cfg_srvs c)
    \<and> (\<forall>i < length (names f). admin (sv i f) = admin_mode (cfg_srvs c ! i) \<and> state (sv i f) = srv_st (cfg_srvs c ! i)
         \<and> track (sv i f) = tracked (cfg_srvs c ! i))"

lemma started_maint:
  "started_from c f \<Longrightarrow> i < length (names f) \<Longrightarrow> in_maint (sv i f) \<longleftrightarrow> cfg_maint (cfg_srvs c ! i)"
  by (simp add: started_from_def maint_any cfg_maint_def)

lemma started_tracking_ok:
  assumes m: "modes_inv c" and f: "started_from c f"
  shows "tracking_ok f"
proof -
  have n: "length (names f) = length (cfg_srvs c)" using f by (simp add: started_from_def)
  have s: "admin (sv i f) = admin_mode (cfg_srvs c ! i)" "state (sv i f) = srv_st (cfg_srvs c ! i)"
    "track (sv i f) = tracked (cfg_srvs c ! i)" if "i < length (cfg_srvs c)" for i
    using f that by (simp_all add: started_from_def)
  have st: "srv_st (cfg_srvs c ! i) = (if cfg_maint (cfg_srvs c ! i) then SRV_ST_STOPPED else SRV_ST_RUNNING)"
    "\<not> any_flag 3 (admin_mode (cfg_srvs c ! i))" if "i < length (cfg_srvs c)" for i
    using m that unfolding modes_inv_def by blast+
  have tr: "p < length (cfg_srvs c)" "bit (admin_mode (cfg_srvs c ! i)) 1 \<longleftrightarrow> cfg_maint (cfg_srvs c ! p)"
    if "i < length (cfg_srvs c)" "tracked (cfg_srvs c ! i) = Some p" for i p
    using m that unfolding modes_inv_def by (fastforce split: option.splits)+
  have "base f"
    using f s st tr started_maint [OF f] by (auto simp: base_def tracks_named_def n started_from_def)
  moreover have "follow 1 {} f" using s tr by (auto simp: follow_def n cfg_maint_def)
  moreover have "follow 3 {} f" using s st(2) tr(1) by (auto simp: follow_def n any_flag_def)
  moreover have "follow_state {} f"
  proof -
    have "phase (state (sv i f)) = phase (state (sv p f))"
      if i: "i < length (cfg_srvs c)" "track (sv i f) = Some p" "\<not> in_maint (sv i f)" for i p
    proof -
      have p: "p < length (cfg_srvs c)" "bit (admin_mode (cfg_srvs c ! i)) 1 \<longleftrightarrow> cfg_maint (cfg_srvs c ! p)"
        using tr [OF i(1)] i(2) s(3) [OF i(1)] by simp_all
      have "\<not> cfg_maint (cfg_srvs c ! i)" using i(1,3) started_maint [OF f] n by simp
      then have "\<not> cfg_maint (cfg_srvs c ! p)" using p(2) by (simp add: cfg_maint_def any_flag_def)
      then show ?thesis using st(1) [OF i(1)] st(1) [OF p(1)] s(2) [OF i(1)] s(2) [OF p(1)] \<open>\<not> cfg_maint (cfg_srvs c ! i)\<close> by simp
    qed
    then show ?thesis by (auto simp: follow_state_def n)
  qed
  ultimately show ?thesis by (simp add: tracking_ok_def)
qed

text \<open>A configuration that binds every server after the one it tracks, and the farm that starts from it.\<close>

definition started :: "config \<Rightarrow> farm \<Rightarrow> bool" where
  "started c f \<longleftrightarrow> cfg_start c \<and> tracked_first c (cfg_order c) []
    \<and> (\<exists>c'. resolve_config c = Some (0, c') \<and> started_from c' f)"

lemma started_ok: "started c f \<Longrightarrow> tracking_ok f"
  using resolved_modes started_tracking_ok by (auto simp: started_def)

end
