(* ===== verification/HA_Server_Farm.thy ===== *)
theory HA_Server_Farm
  imports HA_Tracking_Modes
begin

section \<open>What holds of every reachable farm\<close>

text \<open>
  The properties of the servers of a farm and of the operations of the administrator, with two farms
  on which they are applied: one with a server that tracks another, one with a server that tracks
  itself, which the configuration accepts.
\<close>

subsection \<open>Maintenance and its way out\<close>

text \<open>The servers that follow another, directly or not, are in maintenance with it.\<close>

lemma maintenance_inherited:
  assumes "tracking_ok f" "(i, t) \<in> {(p, t). t < length (names f) \<and> track (sv t f) = Some p}\<^sup>*" "in_maint (sv i f)"
  shows "in_maint (sv t f)"
  using assms(2)
proof (induction rule: rtrancl_induct)
  case (step s t)
  then have "admin (sv t f) AND SRV_ADMF_IMAINT \<noteq> 0" using tracking_facts(1) [OF assms(1), of t s] by simp
  then show ?case using flag_of_mode(2) [OF inherited_flags(1)] by (simp add: maint_any any_flag_def)
qed (rule assms(3))

lemma flags_kept:
  assumes "flags_changed i inh v f f'" "i < length (names f)" "k \<noteq> inh" "k \<noteq> inh - 1"
  shows "bit (admin (sv i f')) k = bit (admin (sv i f)) k"
  using assms by (simp add: flags_changed_def)

text \<open>Clearing the forced flag of a server that has inherited maintenance stops at that server.\<close>

lemma clear_inherited:
  assumes "tracking_ok f" "i < length (names f)" "bit (admin (sv i f)) 1" "srv_clr_admin_flag d i SRV_ADMF_FMAINT f = Some f'"
  shows "bit (admin (sv i f')) 1"
proof -
  have ok: "ok_flag False 1 {} f" using assms(1) tracking_flag [of 1] by simp
  have n: "0 = (1 :: nat) \<and> ready_clr 1 i f \<or> 0 = (1 :: nat) - 1 \<and> {} = ({} :: nat set)" and rx: "\<forall>x \<in> {}. ready_clr 1 x f"
    by simp_all
  from clr_flag_step [OF ok assms(2) inherited_flags(3) n rx, of d] obtain go f1 where m: "clr_flag_one d SRV_ADMF_FMAINT i f = Some (go, f1)"
      "go \<longrightarrow> \<not> any_flag 1 (admin (sv i f) AND NOT SRV_ADMF_FMAINT)"
      "if \<not> bit (admin (sv i f)) 0 then \<not> go \<and> f1 = f else \<exists>x. moved i (x, admin (sv i f) AND NOT SRV_ADMF_FMAINT) f f1"
    by blast
  note b = flag_of_mode(4) [OF inherited_flags(3), of "admin (sv i f)" 1]
  have "\<not> go" using m(2) assms(3) b by (auto simp: any_flag_def)
  then have "f' = f1" using assms(4) m(1) levels_Suc(1) [of f] unfolding srv_clr_admin_flag_def by (cases "levels f") auto
  moreover have "bit (admin (sv i f1)) 1" using m(3) assms(3) b movedD(2) [OF _ assms(2)] by (auto split: if_splits)
  ultimately show ?thesis by simp
qed

text \<open>The invariant gives what the rest of the program sees of the servers.\<close>

lemma tracking_view:
  assumes ok: "tracking_ok f" and i: "i < length (names f)"
  shows "(in_maint (sv i f) \<longrightarrow> state (sv i f) = SRV_ST_STOPPED) \<and>
    (\<forall>p. track (sv i f) = Some p \<longrightarrow>
      (admin (sv i f) AND SRV_ADMF_IMAINT \<noteq> 0 \<longleftrightarrow> in_maint (sv p f)) \<and>
      (admin (sv i f) AND SRV_ADMF_IDRAIN \<noteq> 0 \<longleftrightarrow> in_drain (sv p f)) \<and>
      (checkless (info_of i f) \<and> \<not> in_maint (sv i f) \<longrightarrow> phase (state (sv i f)) = phase (state (sv p f)))) \<and>
    srv_act (px_of i f) = int (length (lb_servers False (srv (px_of i f)))) \<and>
    srv_bck (px_of i f) = int (length (lb_servers True (srv (px_of i f))))"
proof -
  have "counts_ok (px_of i f)"
    using ok farm_okD(3) [OF _ i] by (simp add: tracking_ok_def base_def be_ok_def backend_ok_def counted_iff px_of_def)
  then show ?thesis using ok i tracking_facts [OF ok i] by (simp add: counts_ok_def tracking_ok_def base_def)
qed

text \<open>C30: In every farm reachable from one that starts from a configuration in which each server is bound
  after the one it tracks, a server in maintenance is stopped; a server that tracks another has
  inherited exactly its maintenance and drain modes, and, without checks of its own and out of
  maintenance, is stopped, stopping or up like the tracked one; the backend counts exactly the
  servers that can be used.  (A configuration that declares a chain from its end breaks this from the start:
  see \<open>chain_reversed\<close>.)\<close>

theorem server_tracking:
  assumes "started c f0" "farm_step\<^sup>*\<^sup>* f0 f" "i < length (names f)"
  shows "(in_maint (sv i f) \<longrightarrow> state (sv i f) = SRV_ST_STOPPED) \<and>
    (\<forall>p. track (sv i f) = Some p \<longrightarrow>
      (admin (sv i f) AND SRV_ADMF_IMAINT \<noteq> 0 \<longleftrightarrow> in_maint (sv p f)) \<and>
      (admin (sv i f) AND SRV_ADMF_IDRAIN \<noteq> 0 \<longleftrightarrow> in_drain (sv p f)) \<and>
      (checkless (info_of i f) \<and> \<not> in_maint (sv i f) \<longrightarrow> phase (state (sv i f)) = phase (state (sv p f)))) \<and>
    srv_act (px_of i f) = int (length (lb_servers False (srv (px_of i f)))) \<and>
    srv_bck (px_of i f) = int (length (lb_servers True (srv (px_of i f))))"
proof -
  have "tracking_ok f" using farm_reachable_ok [OF assms(2) started_ok [OF assms(1)]] by simp
  then show ?thesis using tracking_view assms(3) by blast
qed

text \<open>C31: On every reachable farm all the operations return, even when servers track each other in a
  circle: the recursion from a server to those that track it ends within the depth of the model, the
  queues it empties or fills are well formed.\<close>

theorem farm_operations_return:
  assumes "tracking_ok f0" "farm_step\<^sup>*\<^sup>* f0 f" "i < length (names f)"
  shows "srv_adm_set_maint d i f \<noteq> None \<and> srv_adm_set_drain d i f \<noteq> None \<and> srv_adm_set_ready d i f \<noteq> None
    \<and> server_warmup d i f \<noteq> None \<and>
    (movable i f \<longrightarrow> srv_set_stopped d i f \<noteq> None \<and> srv_set_stopping d i f \<noteq> None \<and> srv_set_running d i f \<noteq> None
      \<and> check_complete d w i f \<noteq> None \<and> health_adjust now d i hs f \<noteq> None)"
proof -
  have ok: "tracking_ok f" using farm_reachable_ok [OF assms(2,1)] by simp
  have "srv_set_stopped d i f \<noteq> None \<and> srv_set_stopping d i f \<noteq> None \<and> srv_set_running d i f \<noteq> None
      \<and> check_complete d w i f \<noteq> None \<and> health_adjust now d i hs f \<noteq> None" if "movable i f"
    using set_state_ok [OF ok assms(3) that, of d] complete_ok [OF ok assms(3) that, of d w]
      adjust_ok [OF ok assms(3) that, of now d hs] by auto
  then show ?thesis using adm_ok [OF ok assms(3), of d] warmup_ok [OF ok assms(3), of d] by auto
qed


text \<open>C32: On every farm reachable from one that starts from a configuration in which each server is bound after
  the one it tracks, once the administrator has put a server in maintenance, it and every server that
  tracks it, directly or through others, in any backend, are in maintenance, stopped, and not usable by
  the load balancing.\<close>

theorem maintenance_reaches:
  assumes "started c f0" "farm_step\<^sup>*\<^sup>* f0 f" "i < length (names f)" "srv_adm_set_maint d i f = Some f'"
    "(i, t) \<in> {(p, t). t < length (names f) \<and> track (sv t f) = Some p}\<^sup>*"
  shows "in_maint (sv t f') \<and> state (sv t f') = SRV_ST_STOPPED \<and> \<not> srv_is_usable (sv t f')"
proof -
  let ?R = "\<lambda>f. {(p, t). t < length (names f) \<and> track (sv t f) = Some p}"
  have ok: "tracking_ok f" using farm_reachable_ok [OF assms(2) started_ok [OF assms(1)]] by simp
  have m: "forced SRV_ADMF_FMAINT 1" and dr: "forced SRV_ADMF_FDRAIN 3" by (simp_all add: forced_def)
  obtain h where h: "srv_set_admin_flag d i SRV_ADMF_FMAINT f = Some h" "tracking_ok h" "steady f h" "flags_changed i 1 True f h"
    using set_forced [OF m ok assms(3), of d] by blast
  have i: "i < length (names h)" using assms(3) steady_names [OF h(3)] by simp
  have g: "tracking_ok f'" "steady f f'" "flags_changed i 3 False h f'"
    using clr_forced [OF dr h(2) i, of d] assms(4) h(1) steady_trans [OF h(3)] by (auto simp: srv_adm_set_maint_def)
  have t: "t < length (names f)" using assms(3,5) by (auto elim: rtranclE)
  have "?R f' = ?R f" using g(2) by (auto simp: steady_def)
  moreover have "in_maint (sv i f')" using h(4) assms(3) flags_kept [OF g(3) i, of 0]
    by (simp add: maint_any any_flag_def flags_changed_def)
  ultimately have "in_maint (sv t f')" using maintenance_inherited [OF g(1), of i t] assms(5) by simp
  moreover have "in_maint (sv t f') \<longrightarrow> state (sv t f') = SRV_ST_STOPPED"
    using g(1) t steady_names [OF g(2)] by (simp add: tracking_ok_def base_def)
  ultimately show ?thesis by (simp add: usable_iff)
qed

text \<open>A server that tracks itself, which the configuration accepts, never leaves maintenance: it
  inherits its own mode, so that neither the order to be ready nor any other order of the
  administrator brings it back, on any reachable farm.\<close>

theorem self_tracking_stuck:
  assumes "tracking_ok f0" "farm_step\<^sup>*\<^sup>* f0 f" "i < length (names f)" "track (sv i f) = Some i" "in_maint (sv i f)"
    "srv_adm_set_ready d i f = Some f' \<or> srv_adm_set_drain d i f = Some f'"
  shows "in_maint (sv i f') \<and> \<not> srv_is_usable (sv i f')"
proof -
  have ok: "tracking_ok f" using farm_reachable_ok [OF assms(2,1)] by simp
  have b: "bit (admin (sv i f)) 1"
    using tracking_facts(1) [OF ok assms(3,4)] assms(5) flag_of_mode(2) [OF inherited_flags(1)] by simp
  have "bit (admin (sv i f')) 1" if g: "tracking_ok g" "steady f g" "flags_changed i 3 v f g" "srv_clr_admin_flag d i SRV_ADMF_FMAINT g = Some f'" for g v
    using clear_inherited [OF g(1) _ _ g(4)] flags_kept [OF g(3) assms(3), of 1] b steady_names [OF g(2)] assms(3) by simp
  moreover have dr: "forced SRV_ADMF_FDRAIN 3" by (simp add: forced_def)
  ultimately have "bit (admin (sv i f')) 1"
    using assms(6) set_forced [OF dr ok assms(3), of d] clr_forced [OF dr ok assms(3), of d]
    by (auto simp: srv_adm_set_ready_def srv_adm_set_drain_def)
  then show ?thesis by (simp add: usable_iff maint_any any_flag_def)
qed

subsection \<open>Slow start\<close>

text \<open>The weight of a starting server in a backend whose algorithm has dynamic weights.\<close>

lemma slow_weight_bounds:
  assumes "0 < slowstart s" "last_change s \<le> now" "now < last_change s + slowstart s" "0 < wdiv px"
  shows "1 \<le> slow_weight now dyn px s" "slow_weight now dyn px s \<le> wdiv px"
proof -
  let ?t = "now - last_change s" and ?S = "slowstart s"
  have "wdiv px * ?t + ?S \<le> wdiv px * (?S - 1) + ?S" using assms by (simp add: mult_left_mono)
  also have "\<dots> < ?S * (wdiv px + 1)" using assms(4) by (simp add: algebra_simps)
  finally have "?S * ((wdiv px * ?t + ?S) div ?S) < ?S * (wdiv px + 1)"
    using mult_div_mod_eq [of ?S "wdiv px * ?t + ?S"] pos_mod_sign [OF assms(1), of "wdiv px * ?t + ?S"] by linarith
  then have "(wdiv px * ?t + ?S) div ?S < wdiv px + 1" using assms(1) by simp
  moreover have "1 * ?S \<le> wdiv px * ?t + ?S" using assms by simp
  then have "1 \<le> (wdiv px * ?t + ?S) div ?S" using assms(1) pos_imp_zdiv_pos_iff [of ?S "wdiv px * ?t + ?S"] by simp
  ultimately show "1 \<le> slow_weight now dyn px s" "slow_weight now dyn px s \<le> wdiv px"
    using assms c_div_nonneg [of "wdiv px * ?t + ?S" ?S] by (simp_all add: slow_weight_def)
qed

lemma slow_weight_mono:
  assumes "0 < slowstart s" "last_change s \<le> now" "now \<le> now'" "0 < wdiv px"
  shows "slow_weight now dyn px s \<le> slow_weight now' dyn px s"
proof -
  let ?x = "\<lambda>n. wdiv px * (n - last_change s) + slowstart s"
  have "0 \<le> ?x now" using assms by simp
  moreover have "?x now \<le> ?x now'" using assms by (simp add: mult_left_mono)
  ultimately show ?thesis using assms(1) zdiv_mono1 [of "?x now" "?x now'" "slowstart s"]
      c_div_nonneg [of "?x now" "slowstart s"] c_div_nonneg [of "?x now'" "slowstart s"] by (simp add: slow_weight_def)
qed

text \<open>C35: During its slow start the weight of a server is between one and its full weight, unless it is null,
  and never goes down as time goes by; at the end of the slow start it is the full weight.\<close>

theorem slow_start_ramp:
  assumes "state s = SRV_ST_STARTING" "0 < slowstart s" "last_change s \<le> now" "now \<le> now'"
    "0 < uweight s" "0 < wdiv px" "0 < wmult px"
  shows "1 \<le> eweight (new_eweight now dyn px s) \<and> eweight (new_eweight now dyn px s) \<le> eweight (new_eweight now' dyn px s)
    \<and> eweight (new_eweight now' dyn px s) \<le> (uweight s * wdiv px + wmult px - 1) div wmult px
    \<and> (last_change s + slowstart s \<le> now' \<longrightarrow>
        eweight (new_eweight now' dyn px s) = (uweight s * wdiv px + wmult px - 1) div wmult px)"
proof -
  define w where "w n = (if n < last_change s + slowstart s then slow_weight n dyn px s else wdiv px)" for n
  have b: "1 \<le> w n" "w n \<le> wdiv px" if "last_change s \<le> n" for n
    using slow_weight_bounds [OF assms(2) that _ assms(6), of dyn] assms(6) by (simp_all add: w_def)
  have m: "w now \<le> w now'"
    using slow_weight_mono [OF assms(2,3,4,6), of dyn] b(2) [OF assms(3)] assms(4) by (auto simp: w_def)
  have e: "eweight (new_eweight n dyn px s) = (uweight s * w n + wmult px - 1) div wmult px" if "last_change s \<le> n" for n
  proof -
    have "0 \<le> uweight s * w n" using b(1) [OF that] assms(5) by simp
    then have "c_div (uweight s * w n + wmult px - 1) (wmult px) = (uweight s * w n + wmult px - 1) div wmult px"
      using assms(7) by (intro c_div_nonneg) simp_all
    moreover have "eweight (new_eweight n dyn px s) = c_div (uweight s * w n + wmult px - 1) (wmult px)"
      using that assms(1) by (simp add: new_eweight_def slow_weight_def w_def Let_def)
    ultimately show ?thesis by simp
  qed
  have le: "(uweight s * x + wmult px - 1) div wmult px \<le> (uweight s * y + wmult px - 1) div wmult px" if "x \<le> y" for x y
  proof -
    have "uweight s * x \<le> uweight s * y" using that assms(5) by (intro mult_left_mono) simp_all
    then show ?thesis using assms(7) by (intro zdiv_mono1) linarith+
  qed
  have n': "last_change s \<le> now'" using assms(3,4) by simp
  have "1 * 1 \<le> uweight s * w now" using b(1) [OF assms(3)] assms(5) by (intro mult_mono) simp_all
  then have "1 \<le> (uweight s * w now + wmult px - 1) div wmult px"
    using assms(7) pos_imp_zdiv_pos_iff [of "wmult px" "uweight s * w now + wmult px - 1"] by simp
  then show ?thesis using e [OF assms(3)] e [OF n'] le [OF m] le [OF b(2) [OF n']] by (auto simp: w_def)
qed

subsection \<open>Concrete farms\<close>

text \<open>A backend with the static map, its servers of weight one tracking those of \<open>ts\<close>; no session waits.\<close>

definition tracked_servers :: "nat option list \<Rightarrow> server list" where
  "tracked_servers ts = map (\<lambda>t. (srv (backend queues1) ! 0)\<lparr>served := 0, cur_sess := 0, track := t\<rparr>) ts"

definition tracked_farm :: "nat option list \<Rightarrow> farm" where
  "tracked_farm ts = (let n = int (length ts) in
    \<lparr>bes = [queues1\<lparr>backend := (backend queues1)\<lparr>srv := tracked_servers ts, srv_act := n, tot_wact := n, tot_weight := n, tot_used := n,
          lbmap := \<lparr>map_srv = map Some [0..<length ts], map_recalc = True, rr_idx = 0\<rparr>\<rparr>,
        srv_pend := replicate (length ts) [], actconns := replicate (length ts) [], srv_nbmax := replicate (length ts) 0\<rparr>],
     pxs = [map_callbacks \<lparr>px_last_change = 0, px_down_time = 0, px_down_trans = 0, prop_dyn = False, cb_up = None, cb_down = None,
          cb_weight = None, io = (\<lambda>_. \<lparr>req_flags = 0, rep_flags = 0, nice = 0\<rparr>)\<rparr>],
     names = map (Pair 0) [0..<length ts],
     infos = map (\<lambda>i. (info1 0)\<lparr>chk_health := (check1 0)\<lparr>chk_state := 0\<rparr>, trackers := filter (\<lambda>t. ts ! t = Some i) [0..<length ts]\<rparr>)
          [0..<length ts]\<rparr>)"

lemma tracked_server:
  "k < length ts \<Longrightarrow> sv k (tracked_farm ts) = (srv (backend queues1) ! 0)\<lparr>served := 0, cur_sess := 0, track := ts ! k\<rparr>"
  "k < length ts \<Longrightarrow> info_of k (tracked_farm ts) =
     (info1 0)\<lparr>chk_health := (check1 0)\<lparr>chk_state := 0\<rparr>, trackers := filter (\<lambda>t. ts ! t = Some k) [0..<length ts]\<rparr>"
  "length (names (tracked_farm ts)) = length ts"
  by (simp_all add: sv_def px_of_def be_of_def pos_of_def info_of_def tracked_farm_def tracked_servers_def Let_def)

lemma tracked_usable: "s \<in> set (tracked_servers ts) \<Longrightarrow>
    srv_is_usable s \<and> \<not> is_backup s \<and> eweight s = 1 \<and> settled s \<and> uweight s = 1 \<and> slowstart s = 0 \<and> nbpend s = 0"
  by (auto simp: tracked_servers_def queues1_def srv_is_usable_def lb_usable_def settled_def srv_was_usable_def)

lemma tracked_counts:
  "lb_servers False (tracked_servers ts) = tracked_servers ts" "lb_servers True (tracked_servers ts) = []"
  "length (tracked_servers ts) = length ts" "weight_sum False (tracked_servers ts) = int (length ts)"
  "weight_sum True (tracked_servers ts) = 0" "first_backup (tracked_servers ts) = None"
proof -
  show l: "lb_servers False (tracked_servers ts) = tracked_servers ts" "lb_servers True (tracked_servers ts) = []"
    using tracked_usable by (auto simp: lb_servers_def filter_id_conv filter_empty_conv)
  show n: "length (tracked_servers ts) = length ts" by (simp add: tracked_servers_def)
  have "map eweight (tracked_servers ts) = replicate (length ts) 1"
    using tracked_usable n by (intro replicate_eqI) auto
  then show "weight_sum False (tracked_servers ts) = int (length ts)" "weight_sum True (tracked_servers ts) = 0"
    by (simp_all add: weight_sum_def l sum_list_replicate)
  show "first_backup (tracked_servers ts) = None" using tracked_usable [OF nth_mem] by (auto simp: first_backup_none)
qed

lemma tracked_be_ok: "\<forall>q \<in> set (bes (tracked_farm ts)). be_ok q"
proof -
  let ?q = "bes (tracked_farm ts) ! 0"
  have srvs: "srv (backend ?q) = tracked_servers ts" and q: "bes (tracked_farm ts) = [?q]" by (simp_all add: tracked_farm_def Let_def)
  have "counts_ok (backend ?q)"
    using tracked_counts [of ts] by (simp add: tracked_farm_def Let_def counts_ok_def) (simp add: queues1_def)
  moreover have "update_backend_weight (backend ?q) = backend ?q" by (simp add: tracked_farm_def Let_def update_backend_weight_def queues1_def)
  ultimately have "backend_ok (backend ?q)" using tracked_usable srvs by (simp add: backend_ok_def counted_iff)
  moreover have "queues_ok ?q" using tracked_usable [OF nth_mem, of _ ts] tracked_counts(3) [of ts] by (simp add: tracked_farm_def Let_def queues_ok_def queues1_def)
  ultimately have "be_ok ?q" using tracked_usable srvs by (simp add: be_ok_def tracked_farm_def Let_def queues1_def)
  then show ?thesis using q by (metis list.set_intros(1) set_ConsD empty_iff list.set(1))
qed

lemma tracked_farm_ok:
  assumes "\<forall>p. Some p \<in> set ts \<longrightarrow> p < length ts"
  shows "tracking_ok (tracked_farm ts)"
proof -
  let ?f = "tracked_farm ts"
  have flags: "admin (sv k ?f) = 0" "state (sv k ?f) = SRV_ST_RUNNING" "track (sv k ?f) = ts ! k" if "k < length ts" for k
    using that by (simp_all add: tracked_server queues1_def)
  have "located ?f"
    using tracked_counts(3) [of ts] by (auto simp: located_def tracked_farm_def Let_def distinct_map inj_on_def)
  moreover have "linked ?f" using flags by (auto simp: linked_def tracked_server)
  moreover have "\<forall>p \<in> set (pxs ?f). status_callbacks p"
    using maps.status_callbacks_axioms by (simp add: tracked_farm_def Let_def)
  ultimately have "farm_ok ?f" using tracked_be_ok by (simp add: farm_ok_def)
  then have "base ?f" using flags assms by (auto simp: base_def tracked_server(3) tracks_named_def maint_any any_flag_def) (metis nth_mem)
  moreover have "p < length ts" if "k < length ts" "ts ! k = Some p" for k p using that assms by (metis nth_mem)
  ultimately show ?thesis
    using flags by (auto simp: tracking_ok_def follow_def follow_state_def tracked_server(3) any_flag_def)
qed

text \<open>A server, and one that tracks it; a server that tracks itself.\<close>

definition farm1 :: farm where
  "farm1 = tracked_farm [None, Some 0]"

definition farm2 :: farm where
  "farm2 = tracked_farm [Some 0]"

lemma farms_ok: "tracking_ok farm1" "tracking_ok farm2" "length (names farm1) = 2" "length (names farm2) = 1"
  "track (sv 1 farm1) = Some 0" "track (sv 0 farm2) = Some 0" "\<not> movable 1 farm1" "movable 0 farm1"
  by (auto intro!: tracked_farm_ok simp: farm1_def farm2_def tracked_server movable_def checkless_def check1_defs nth_Cons' split: if_splits)

text \<open>The configuration of the first one: a server with a check, and one that tracks it.\<close>

definition config2 :: config where
  "config2 = \<lparr>cfg_pxs = [\<lparr>px_id = [112], uuid = 2, backend_cap = True, disable404 = False, px_srvs = [0, 1]\<rparr>],
    cfg_srvs = [cfg_server1 97 None, cfg_server1 98 (Some [97])]\<rparr>"

lemma farm1_started: "started config2 farm1"
proof -
  define c' where "c' = snd (the (resolve_config config2))"
  have "map_option fst (resolve_config config2) = Some 0" by code_simp
  then have r: "resolve_config config2 = Some (0, c')" by (auto simp: c'_def)
  have s: "cfg_start config2" "tracked_first config2 (cfg_order config2) []" by code_simp+
  have c': "length (cfg_srvs c') = 2" "admin_mode (cfg_srvs c' ! 0) = 0" "admin_mode (cfg_srvs c' ! 1) = 0"
    "srv_st (cfg_srvs c' ! 0) = SRV_ST_RUNNING" "srv_st (cfg_srvs c' ! 1) = SRV_ST_RUNNING"
    "tracked (cfg_srvs c' ! 0) = None" "tracked (cfg_srvs c' ! 1) = Some 0"
    unfolding c'_def by code_simp+
  have "farm_ok farm1" using farms_ok(1) by (simp add: tracking_ok_def base_def)
  moreover have "admin (sv i farm1) = 0 \<and> state (sv i farm1) = SRV_ST_RUNNING \<and> track (sv i farm1) = [None, Some 0] ! i" if "i < 2" for i
    using that by (simp add: farm1_def tracked_server queues1_def)
  ultimately have "started_from c' farm1"
    using c' farms_ok(3) by (auto simp: started_from_def less_Suc_eq numeral_2_eq_2)
  then show ?thesis using s r by (auto simp: started_def)
qed

definition later :: date where
  "later = \<lparr>now_sec = 100, now_ms = 100000\<rparr>"

lemma into_maintenance:
  "\<exists>f. srv_adm_set_maint later 0 farm1 = Some f \<and> farm_step\<^sup>*\<^sup>* farm1 f \<and> steady farm1 f"
  "\<exists>f. srv_adm_set_maint later 0 farm2 = Some f \<and> farm_step\<^sup>*\<^sup>* farm2 f \<and> steady farm2 f \<and> in_maint (sv 0 f)"
proof -
  show "\<exists>f. srv_adm_set_maint later 0 farm1 = Some f \<and> farm_step\<^sup>*\<^sup>* farm1 f \<and> steady farm1 f"
    using adm_ok(1) [OF farms_ok(1), of 0 later] farms_ok(3) farm_step.maint [of 0 farm1 later] by auto
  have m: "forced SRV_ADMF_FMAINT 1" and dr: "forced SRV_ADMF_FDRAIN 3" by (simp_all add: forced_def)
  obtain h where h: "srv_set_admin_flag later 0 SRV_ADMF_FMAINT farm2 = Some h" "tracking_ok h" "steady farm2 h" "flags_changed 0 1 True farm2 h"
    using set_forced [OF m farms_ok(2), of 0 later] farms_ok(4) by auto
  have z: "0 < length (names h)" using h(3) farms_ok(4) by (simp add: steady_def)
  obtain f where f: "srv_adm_set_maint later 0 farm2 = Some f" "steady farm2 f" "flags_changed 0 3 False h f"
    using clr_forced [OF dr h(2) z, of later] h(1) steady_trans [OF h(3)] by (auto simp: srv_adm_set_maint_def)
  have "in_maint (sv 0 f)"
    using h(4) farms_ok(4) flags_kept [OF f(3) z, of 0] by (simp add: maint_any any_flag_def flags_changed_def)
  then show "\<exists>f. srv_adm_set_maint later 0 farm2 = Some f \<and> farm_step\<^sup>*\<^sup>* farm2 f \<and> steady farm2 f \<and> in_maint (sv 0 f)"
    using f farm_step.maint [of 0 farm2 later f] farms_ok(4) by auto
qed

subsection \<open>The properties on these farms\<close>

theorem server_tracking_witness:
  "\<exists>f. srv_adm_set_maint later 0 farm1 = Some f \<and> (in_maint (sv 1 f) \<longrightarrow> state (sv 1 f) = SRV_ST_STOPPED)
    \<and> (admin (sv 1 f) AND SRV_ADMF_IMAINT \<noteq> 0 \<longleftrightarrow> in_maint (sv 0 f))"
proof -
  obtain f where f: "srv_adm_set_maint later 0 farm1 = Some f" "farm_step\<^sup>*\<^sup>* farm1 f" "steady farm1 f"
    using into_maintenance(1) by blast
  have "1 < length (names f)" "track (sv 1 f) = Some 0" using f(3) farms_ok by (simp_all add: steady_def)
  then show ?thesis using server_tracking [OF farm1_started f(2), of 1] f(1) by simp
qed

theorem farm_operations_return_witness:
  "srv_adm_set_ready later 1 farm1 \<noteq> None \<and> srv_set_stopped later 0 farm1 \<noteq> None"
  using farm_operations_return [OF farms_ok(1), of farm1 1 later] farm_operations_return [OF farms_ok(1), of farm1 0 later] farms_ok
  by simp

theorem maintenance_reaches_witness:
  "\<exists>f. srv_adm_set_maint later 0 farm1 = Some f \<and> in_maint (sv 1 f) \<and> state (sv 1 f) = SRV_ST_STOPPED"
proof -
  obtain f where f: "srv_adm_set_maint later 0 farm1 = Some f" using into_maintenance(1) by blast
  have "(0, 1) \<in> {(p, t). t < length (names farm1) \<and> track (sv t farm1) = Some p}\<^sup>*"
    using farms_ok by (intro r_into_rtrancl) simp
  from maintenance_reaches [OF farm1_started rtranclp.rtrancl_refl _ f this] f show ?thesis using farms_ok by simp
qed

theorem self_tracking_stuck_witness:
  "\<exists>f f'. srv_adm_set_maint later 0 farm2 = Some f \<and> srv_adm_set_ready later 0 f = Some f' \<and> in_maint (sv 0 f')"
proof -
  obtain f where f: "srv_adm_set_maint later 0 farm2 = Some f" "farm_step\<^sup>*\<^sup>* farm2 f" "steady farm2 f" "in_maint (sv 0 f)"
    using into_maintenance(2) by blast
  have i: "0 < length (names f)" "track (sv 0 f) = Some 0" using f(3) farms_ok by (simp_all add: steady_def)
  have "tracking_ok f" using farm_reachable_ok [OF f(2) farms_ok(2)] by simp
  then obtain f' where "srv_adm_set_ready later 0 f = Some f'" using adm_ok(3) [OF _ i(1), of later] by blast
  then show ?thesis using self_tracking_stuck [OF farms_ok(2) f(2) i f(4), of later f'] f(1) by blast
qed

text \<open>Half way through a slow start of 60 seconds, with weights in sixteenths.\<close>

definition warm1 :: "server \<times> proxy" where
  "warm1 = ((srv (backend queues1) ! 0)\<lparr>state := SRV_ST_STARTING, slowstart := 60, last_change := 100\<rparr>, (backend queues1)\<lparr>wdiv := 16\<rparr>)"

theorem slow_start_ramp_witness:
  "eweight (new_eweight 110 True (snd warm1) (fst warm1)) = 3 \<and> eweight (new_eweight 130 True (snd warm1) (fst warm1)) = 9
    \<and> eweight (new_eweight 110 True (snd warm1) (fst warm1)) \<le> eweight (new_eweight 130 True (snd warm1) (fst warm1))"
  using slow_start_ramp [of "fst warm1" 110 130 "snd warm1" True]
  by (simp add: warm1_def queues1_def new_eweight_def slow_weight_def c_div_def Let_def)

end
