(* ===== verification/HA_Fd.thy ===== *)
theory HA_Fd
  imports HA_Time "HOL-Library.Monad_Syntax"
begin

section \<open>File descriptors and pollers (include/proto/fd.h, src/fd.c, src/ev_poll.c, src/ev_epoll.c)\<close>

text \<open>
  Each descriptor has an activity, a readiness and a polling flag in each direction.  A change is noted
  in the list of updates; before it waits, the poller scans the list, asks the kernel to watch the
  directions that are active and not ready, and puts the descriptors with a direction that is active
  and ready in the cache of events, which is processed without polling.  The arrays have one entry per
  possible descriptor; an access outside them is \<open>None\<close>.  The state of the poller, of a type of its
  own, is what it keeps for the kernel.
\<close>

subsection \<open>State\<close>

abbreviation FD_EV_ACTIVE_R :: byte where "FD_EV_ACTIVE_R \<equiv> 0x01"
abbreviation FD_EV_READY_R :: byte where "FD_EV_READY_R \<equiv> 0x02"
abbreviation FD_EV_POLLED_R :: byte where "FD_EV_POLLED_R \<equiv> 0x04"
abbreviation FD_EV_ACTIVE_W :: byte where "FD_EV_ACTIVE_W \<equiv> 0x10"
abbreviation FD_EV_READY_W :: byte where "FD_EV_READY_W \<equiv> 0x20"
abbreviation FD_EV_POLLED_W :: byte where "FD_EV_POLLED_W \<equiv> 0x40"
abbreviation FD_EV_POLLED_RW :: byte where "FD_EV_POLLED_RW \<equiv> 0x44"
abbreviation FD_EV_ACTIVE_RW :: byte where "FD_EV_ACTIVE_RW \<equiv> 0x11"

abbreviation FD_POLL_IN :: byte where "FD_POLL_IN \<equiv> 0x01"
abbreviation FD_POLL_OUT :: byte where "FD_POLL_OUT \<equiv> 0x04"
abbreviation FD_POLL_ERR :: byte where "FD_POLL_ERR \<equiv> 0x08"
abbreviation FD_POLL_HUP :: byte where "FD_POLL_HUP \<equiv> 0x10"
abbreviation FD_POLL_STICKY :: byte where "FD_POLL_STICKY \<equiv> 0x18"

record fd_entry =
  owned :: bool
  has_iocb :: bool
  cache_pos :: nat
  fd_state :: byte
  fd_ev :: byte
  fresh :: bool
  updated :: bool
  linger_risk :: bool
  cloned :: bool

record 'k fds =
  fdtab :: "fd_entry list"
  fd_cache :: "nat list"
  fd_cache_num :: nat
  fd_updt :: "nat list"
  fd_nbupdt :: nat
  maxfd :: nat
  kern :: 'k

text \<open>A poller: how it closes a descriptor, with the closing by the kernel, and how it takes a change of
  the polling flags from the first state to the second.\<close>

record 'k poller =
  p_clo :: "fd_entry \<Rightarrow> nat \<Rightarrow> 'k \<Rightarrow> 'k"
  p_set :: "nat \<Rightarrow> byte \<Rightarrow> byte \<Rightarrow> 'k \<Rightarrow> 'k"

definition on_fd :: "nat \<Rightarrow> (fd_entry \<Rightarrow> fd_entry) \<Rightarrow> 'k fds \<Rightarrow> 'k fds" where
  "on_fd fd g s = s\<lparr>fdtab := (fdtab s)[fd := g (fdtab s ! fd)]\<rparr>"

subsection \<open>The list of updates and the cache\<close>

definition updt_fd :: "nat \<Rightarrow> 'k fds \<Rightarrow> 'k fds option" where
  "updt_fd fd s =
    (if fd \<ge> length (fdtab s) then None
     else if updated (fdtab s ! fd) then Some s
     else if fd_nbupdt s \<ge> length (fd_updt s) then None
     else Some ((on_fd fd (\<lambda>e. e\<lparr>updated := True\<rparr>) s)\<lparr>fd_updt := (fd_updt s)[fd_nbupdt s := fd], fd_nbupdt := fd_nbupdt s + 1\<rparr>))"

definition fd_alloc_cache_entry :: "nat \<Rightarrow> 'k fds \<Rightarrow> 'k fds option" where
  "fd_alloc_cache_entry fd s =
    (if fd \<ge> length (fdtab s) then None
     else if cache_pos (fdtab s ! fd) \<noteq> 0 then Some s
     else if fd_cache_num s \<ge> length (fd_cache s) then None
     else Some ((on_fd fd (\<lambda>e. e\<lparr>cache_pos := fd_cache_num s + 1\<rparr>) s)
            \<lparr>fd_cache_num := fd_cache_num s + 1, fd_cache := (fd_cache s)[fd_cache_num s := fd]\<rparr>))"

definition fd_release_cache_entry :: "nat \<Rightarrow> 'k fds \<Rightarrow> 'k fds option" where
  "fd_release_cache_entry fd s =
    (if fd \<ge> length (fdtab s) then None
     else let pos = cache_pos (fdtab s ! fd)
          in if pos = 0 then Some s
             else if fd_cache_num s = 0 then None
             else let n = fd_cache_num s - 1; s = (on_fd fd (\<lambda>e. e\<lparr>cache_pos := 0\<rparr>) s)\<lparr>fd_cache_num := n\<rparr>
                  in if pos \<le> n
                     then if n \<ge> length (fd_cache s) \<or> fd_cache s ! n \<ge> length (fdtab s) then None
                          else let last = fd_cache s ! n
                               in Some (on_fd last (\<lambda>e. e\<lparr>cache_pos := pos\<rparr>) (s\<lparr>fd_cache := (fd_cache s)[pos - 1 := last]\<rparr>))
                     else Some s)"

definition fd_compute_new_polled_status :: "byte \<Rightarrow> byte" where
  "fd_compute_new_polled_status st =
    (let st = (if st AND FD_EV_ACTIVE_R \<noteq> 0 then if st AND FD_EV_READY_R = 0 then st OR FD_EV_POLLED_R else st
               else st AND NOT FD_EV_POLLED_R)
     in if st AND FD_EV_ACTIVE_W \<noteq> 0 then if st AND FD_EV_READY_W = 0 then st OR FD_EV_POLLED_W else st
        else st AND NOT FD_EV_POLLED_W)"

definition needs_cache :: "byte \<Rightarrow> bool" where
  "needs_cache st \<longleftrightarrow> st AND (FD_EV_READY_R OR FD_EV_ACTIVE_R) = FD_EV_READY_R OR FD_EV_ACTIVE_R
     \<or> st AND (FD_EV_READY_W OR FD_EV_ACTIVE_W) = FD_EV_READY_W OR FD_EV_ACTIVE_W"

definition fd_alloc_or_release_cache_entry :: "nat \<Rightarrow> byte \<Rightarrow> 'k fds \<Rightarrow> 'k fds option" where
  "fd_alloc_or_release_cache_entry fd st s =
    (if needs_cache st then fd_alloc_cache_entry fd s else fd_release_cache_entry fd s)"

subsection \<open>Changes of the flags of a descriptor\<close>

text \<open>Clear or set a flag; nothing is done when none is set, or when it is already set.\<close>

definition fd_clear :: "byte \<Rightarrow> nat \<Rightarrow> 'k fds \<Rightarrow> 'k fds option" where
  "fd_clear m fd s =
    (if fd \<ge> length (fdtab s) then None
     else if fd_state (fdtab s ! fd) AND m = 0 then Some s
     else updt_fd fd (on_fd fd (\<lambda>e. e\<lparr>fd_state := fd_state e AND NOT m\<rparr>) s))"

definition fd_raise :: "byte \<Rightarrow> nat \<Rightarrow> 'k fds \<Rightarrow> 'k fds option" where
  "fd_raise m fd s =
    (if fd \<ge> length (fdtab s) then None
     else if fd_state (fdtab s ! fd) AND m \<noteq> 0 then Some s
     else updt_fd fd (on_fd fd (\<lambda>e. e\<lparr>fd_state := fd_state e OR m\<rparr>) s))"

definition fd_stop_recv :: "nat \<Rightarrow> 'k fds \<Rightarrow> 'k fds option" where "fd_stop_recv = fd_clear FD_EV_ACTIVE_R"
definition fd_stop_send :: "nat \<Rightarrow> 'k fds \<Rightarrow> 'k fds option" where "fd_stop_send = fd_clear FD_EV_ACTIVE_W"
definition fd_stop_both :: "nat \<Rightarrow> 'k fds \<Rightarrow> 'k fds option" where "fd_stop_both = fd_clear FD_EV_ACTIVE_RW"
definition fd_cant_recv :: "nat \<Rightarrow> 'k fds \<Rightarrow> 'k fds option" where "fd_cant_recv = fd_clear FD_EV_READY_R"
definition fd_cant_send :: "nat \<Rightarrow> 'k fds \<Rightarrow> 'k fds option" where "fd_cant_send = fd_clear FD_EV_READY_W"
definition fd_may_recv :: "nat \<Rightarrow> 'k fds \<Rightarrow> 'k fds option" where "fd_may_recv = fd_raise FD_EV_READY_R"
definition fd_may_send :: "nat \<Rightarrow> 'k fds \<Rightarrow> 'k fds option" where "fd_may_send = fd_raise FD_EV_READY_W"
definition fd_want_recv :: "nat \<Rightarrow> 'k fds \<Rightarrow> 'k fds option" where "fd_want_recv = fd_raise FD_EV_ACTIVE_R"
definition fd_want_send :: "nat \<Rightarrow> 'k fds \<Rightarrow> 'k fds option" where "fd_want_send = fd_raise FD_EV_ACTIVE_W"

definition fd_done_recv :: "nat \<Rightarrow> 'k fds \<Rightarrow> 'k fds option" where
  "fd_done_recv fd s =
    (if fd \<ge> length (fdtab s) then None
     else if fd_state (fdtab s ! fd) AND FD_EV_POLLED_R \<noteq> 0 then fd_cant_recv fd s else Some s)"

subsection \<open>Opening and closing\<close>

definition fd_insert :: "nat \<Rightarrow> 'k fds \<Rightarrow> 'k fds option" where
  "fd_insert fd s =
    (if fd \<ge> length (fdtab s) then None
     else Some ((on_fd fd (\<lambda>e. e\<lparr>fd_ev := 0, fresh := True, linger_risk := False, cloned := False\<rparr>) s)
            \<lparr>maxfd := max (maxfd s) (fd + 1)\<rparr>))"

text \<open>A connection, from \<open>conn_ctrl_init\<close>, and a listener.\<close>

definition fd_open_conn :: "nat \<Rightarrow> 'k fds \<Rightarrow> 'k fds option" where
  "fd_open_conn fd s = do {
     s \<leftarrow> fd_insert fd s;
     s \<leftarrow> fd_may_recv fd s;
     s \<leftarrow> fd_may_send fd s;
     Some (on_fd fd (\<lambda>e. e\<lparr>owned := True, has_iocb := True\<rparr>) s)
   }"

definition fd_open_listener :: "nat \<Rightarrow> 'k fds \<Rightarrow> 'k fds option" where
  "fd_open_listener fd s =
    (if fd \<ge> length (fdtab s) then None else fd_insert fd (on_fd fd (\<lambda>e. e\<lparr>owned := True, has_iocb := True\<rparr>) s))"

primrec shrink_maxfd :: "fd_entry list \<Rightarrow> nat \<Rightarrow> nat" where
  "shrink_maxfd t 0 = 0"
| "shrink_maxfd t (Suc n) = (if \<not> owned (t ! n) then shrink_maxfd t n else Suc n)"

definition fd_delete :: "'k poller \<Rightarrow> nat \<Rightarrow> 'k fds \<Rightarrow> 'k fds option" where
  "fd_delete p fd s =
    (if fd \<ge> length (fdtab s) then None
     else do {
       s \<leftarrow> fd_release_cache_entry fd (s\<lparr>kern := p_clo p (fdtab s ! fd) fd (kern s)\<rparr>);
       let s = on_fd fd (\<lambda>e. e\<lparr>fd_state := 0, owned := False, fresh := False\<rparr>) s;
       Some (s\<lparr>maxfd := shrink_maxfd (fdtab s) (maxfd s)\<rparr>)
     })"

subsection \<open>What a handler does\<close>

text \<open>The handlers of connections and listeners are a parameter: a function from the descriptor and the
  table to the operations it makes, in order.\<close>

datatype fd_op = Stop_recv nat | Stop_send nat | Stop_both nat | Cant_recv nat | Cant_send nat | Done_recv nat
  | May_recv nat | May_send nat | Want_recv nat | Want_send nat | Set_linger nat bool | Open_conn nat | Open_listener nat | Delete nat

text \<open>The descriptor of an operation, and whether it opens it.\<close>

fun fd_of :: "fd_op \<Rightarrow> nat" where
  "fd_of (Stop_recv fd) = fd" | "fd_of (Stop_send fd) = fd" | "fd_of (Stop_both fd) = fd" | "fd_of (Cant_recv fd) = fd"
| "fd_of (Cant_send fd) = fd" | "fd_of (Done_recv fd) = fd" | "fd_of (May_recv fd) = fd" | "fd_of (May_send fd) = fd"
| "fd_of (Want_recv fd) = fd" | "fd_of (Want_send fd) = fd" | "fd_of (Set_linger fd b) = fd" | "fd_of (Open_conn fd) = fd"
| "fd_of (Open_listener fd) = fd" | "fd_of (Delete fd) = fd"

fun opens :: "fd_op \<Rightarrow> bool" where
  "opens (Open_conn fd) = True" | "opens (Open_listener fd) = True" | "opens x = False"

fun run_op :: "'k poller \<Rightarrow> fd_op \<Rightarrow> 'k fds \<Rightarrow> 'k fds option" where
  "run_op p (Stop_recv fd) s = fd_stop_recv fd s"
| "run_op p (Stop_send fd) s = fd_stop_send fd s"
| "run_op p (Stop_both fd) s = fd_stop_both fd s"
| "run_op p (Cant_recv fd) s = fd_cant_recv fd s"
| "run_op p (Cant_send fd) s = fd_cant_send fd s"
| "run_op p (Done_recv fd) s = fd_done_recv fd s"
| "run_op p (May_recv fd) s = fd_may_recv fd s"
| "run_op p (May_send fd) s = fd_may_send fd s"
| "run_op p (Want_recv fd) s = fd_want_recv fd s"
| "run_op p (Want_send fd) s = fd_want_send fd s"
| "run_op p (Set_linger fd b) s = (if fd \<ge> length (fdtab s) then None else Some (on_fd fd (\<lambda>e. e\<lparr>linger_risk := b\<rparr>) s))"
| "run_op p (Open_conn fd) s = fd_open_conn fd s"
| "run_op p (Open_listener fd) s = fd_open_listener fd s"
| "run_op p (Delete fd) s = fd_delete p fd s"

fun run_ops :: "'k poller \<Rightarrow> fd_op list \<Rightarrow> 'k fds \<Rightarrow> 'k fds option" where
  "run_ops p [] s = Some s"
| "run_ops p (x # xs) s = Option.bind (run_op p x s) (run_ops p xs)"

type_synonym fd_handler = "nat \<Rightarrow> fd_entry list \<Rightarrow> fd_op list"

subsection \<open>Processing events\<close>

definition poll_ready :: "byte \<Rightarrow> byte \<Rightarrow> byte" where
  "poll_ready st ev = (let ev = ev AND FD_POLL_STICKY;
     ev = (if st AND (FD_EV_READY_R OR FD_EV_ACTIVE_R) = FD_EV_READY_R OR FD_EV_ACTIVE_R then ev OR FD_POLL_IN else ev)
     in if st AND (FD_EV_READY_W OR FD_EV_ACTIVE_W) = FD_EV_READY_W OR FD_EV_ACTIVE_W then ev OR FD_POLL_OUT else ev)"

text \<open>The test of a new descriptor looks at its polling flag too.\<close>

definition fresh_ready :: "byte \<Rightarrow> byte \<Rightarrow> byte" where
  "fresh_ready st ev = (let ev = ev AND FD_POLL_STICKY;
     ev = (if st AND 0x07 = FD_EV_READY_R OR FD_EV_ACTIVE_R then ev OR FD_POLL_IN else ev)
     in if st AND 0x70 = FD_EV_READY_W OR FD_EV_ACTIVE_W then ev OR FD_POLL_OUT else ev)"

definition callable :: "fd_entry \<Rightarrow> bool" where
  "callable e \<longleftrightarrow> has_iocb e \<and> owned e \<and> fd_ev e \<noteq> 0"

text \<open>The updates noted by the handler, from the last one back to the first, for the new descriptors.\<close>

primrec fresh_loop :: "'k poller \<Rightarrow> fd_handler \<Rightarrow> nat \<Rightarrow> nat \<Rightarrow> 'k fds \<Rightarrow> 'k fds option" where
  "fresh_loop p h old 0 s = Some s"
| "fresh_loop p h old (Suc n) s =
    (if Suc n \<le> old then Some s
     else if n \<ge> length (fd_updt s) \<or> fd_updt s ! n \<ge> length (fdtab s) then None
     else let fd = fd_updt s ! n
          in if \<not> fresh (fdtab s ! fd) then fresh_loop p h old n s
             else let s = on_fd fd (\<lambda>e. e\<lparr>fresh := False, fd_ev := fresh_ready (fd_state e) (fd_ev e)\<rparr>) s
                  in Option.bind (if callable (fdtab s ! fd) then run_ops p (h fd (fdtab s)) s else Some s)
                    (\<lambda>s. fresh_loop p h old n
                       (if Suc n = fd_nbupdt s \<and> fd_state (fdtab s ! fd) AND FD_EV_ACTIVE_RW = 0
                        then (on_fd fd (\<lambda>e. e\<lparr>updated := False\<rparr>) s)\<lparr>fd_nbupdt := n\<rparr> else s)))"

definition fd_process_polled_events :: "'k poller \<Rightarrow> fd_handler \<Rightarrow> nat \<Rightarrow> 'k fds \<Rightarrow> 'k fds option" where
  "fd_process_polled_events p h fd s =
    (if fd \<ge> length (fdtab s) then None
     else do {
       s \<leftarrow> (if fd_ev (fdtab s ! fd) AND (FD_POLL_IN OR FD_POLL_HUP OR FD_POLL_ERR) \<noteq> 0 then fd_may_recv fd s else Some s);
       s \<leftarrow> (if fd_ev (fdtab s ! fd) AND (FD_POLL_OUT OR FD_POLL_ERR) \<noteq> 0 then fd_may_send fd s else Some s);
       if cache_pos (fdtab s ! fd) \<noteq> 0 \<or> \<not> has_iocb (fdtab s ! fd) \<or> fd_ev (fdtab s ! fd) = 0 then Some s
       else do {
         let old = fd_nbupdt s;
         s \<leftarrow> run_ops p (h fd (fdtab s)) s;
         fresh_loop p h old (fd_nbupdt s) s
       }
     })"

text \<open>One entry of the cache, and the loop over its entries; the handlers only remove entries, so that the
  number of entries bounds the number of rounds.\<close>

definition cached_event :: "'k poller \<Rightarrow> fd_handler \<Rightarrow> nat \<Rightarrow> 'k fds \<Rightarrow> 'k fds option" where
  "cached_event p h fd s =
    (if fd \<ge> length (fdtab s) then None
     else let s = on_fd fd (\<lambda>e. e\<lparr>fd_ev := poll_ready (fd_state e) (fd_ev e)\<rparr>) s
          in if callable (fdtab s ! fd) then run_ops p (h fd (fdtab s)) s else updt_fd fd s)"

primrec cached_loop :: "nat \<Rightarrow> 'k poller \<Rightarrow> fd_handler \<Rightarrow> nat \<Rightarrow> 'k fds \<Rightarrow> 'k fds option" where
  "cached_loop 0 p h entry s = (if entry < fd_cache_num s then None else Some s)"
| "cached_loop (Suc n) p h entry s =
    (if \<not> entry < fd_cache_num s then Some s
     else if entry \<ge> length (fd_cache s) then None
     else let fd = fd_cache s ! entry
          in Option.bind (cached_event p h fd s)
            (\<lambda>s. cached_loop n p h (if entry < fd_cache_num s \<and> fd_cache s ! entry \<noteq> fd then entry else entry + 1) s))"

definition fd_process_cached_events :: "'k poller \<Rightarrow> fd_handler \<Rightarrow> 'k fds \<Rightarrow> 'k fds option" where
  "fd_process_cached_events p h s = cached_loop (fd_cache_num s) p h 0 s"

subsection \<open>The scan of the updates, the waiting time, and a round of the poller\<close>

definition scan_fd :: "'k poller \<Rightarrow> nat \<Rightarrow> 'k fds \<Rightarrow> 'k fds option" where
  "scan_fd p fd s =
    (if fd \<ge> length (fdtab s) then None
     else let s = on_fd fd (\<lambda>e. e\<lparr>updated := False, fresh := False\<rparr>) s
          in if \<not> owned (fdtab s ! fd) then Some s
             else let eo = fd_state (fdtab s ! fd); en = fd_compute_new_polled_status eo;
                      s = (if (eo XOR en) AND FD_EV_POLLED_RW \<noteq> 0
                           then (on_fd fd (\<lambda>e. e\<lparr>fd_state := en\<rparr>) s)\<lparr>kern := p_set p fd eo en (kern s)\<rparr> else s)
                  in fd_alloc_or_release_cache_entry fd en s)"

fun scan_list :: "'k poller \<Rightarrow> nat list \<Rightarrow> 'k fds \<Rightarrow> 'k fds option" where
  "scan_list p [] s = Some s"
| "scan_list p (fd # l) s = Option.bind (scan_fd p fd s) (scan_list p l)"

definition scan_updates :: "'k poller \<Rightarrow> 'k fds \<Rightarrow> 'k fds option" where
  "scan_updates p s = map_option (\<lambda>s. s\<lparr>fd_nbupdt := 0\<rparr>) (scan_list p (take (fd_nbupdt s) (fd_updt s)) s)"

definition poll_wait_time :: "u32 \<Rightarrow> u32 \<Rightarrow> nat \<Rightarrow> nat \<Rightarrow> 'k fds \<Rightarrow> int" where
  "poll_wait_time now exp run_queue signals s =
    (if fd_cache_num s \<noteq> 0 \<or> run_queue \<noteq> 0 \<or> signals \<noteq> 0 then 0
     else if exp = 0 then 1000
     else if tick_is_expired exp now then 0
     else min 1000 (sint (tick_remain now exp) + 1))"

text \<open>The events the kernel reports, already translated to the flags \<open>FD_POLL_*\<close>.\<close>

fun polled_events :: "'k poller \<Rightarrow> fd_handler \<Rightarrow> (nat \<times> byte) list \<Rightarrow> 'k fds \<Rightarrow> 'k fds option" where
  "polled_events p h [] s = Some s"
| "polled_events p h ((fd, n) # evs) s =
    (if fd \<ge> length (fdtab s) then None
     else if \<not> owned (fdtab s ! fd) then polled_events p h evs s
     else Option.bind (fd_process_polled_events p h fd (on_fd fd (\<lambda>e. e\<lparr>fd_ev := (fd_ev e AND FD_POLL_STICKY) OR n\<rparr>) s))
            (polled_events p h evs))"

definition fd_round :: "'k poller \<Rightarrow> fd_handler \<Rightarrow> (nat \<times> byte) list \<Rightarrow> 'k fds \<Rightarrow> 'k fds option" where
  "fd_round p h evs s = do {
     s \<leftarrow> scan_updates p s;
     s \<leftarrow> polled_events p h evs s;
     fd_process_cached_events p h s
   }"

text \<open>The tables before any descriptor is open, as \<open>init_pollers\<close> and the start of the program allocate them.\<close>

definition closed_fd :: fd_entry where
  "closed_fd = \<lparr>owned = False, has_iocb = False, cache_pos = 0, fd_state = 0, fd_ev = 0, fresh = False, updated = False,
     linger_risk = False, cloned = False\<rparr>"

definition init_pollers :: "nat \<Rightarrow> 'k \<Rightarrow> 'k fds" where
  "init_pollers maxsock k = \<lparr>fdtab = replicate maxsock closed_fd, fd_cache = replicate maxsock 0, fd_cache_num = 0,
     fd_updt = replicate maxsock 0, fd_nbupdt = 0, maxfd = 0, kern = k\<rparr>"

text \<open>A sequence of operations and rounds.\<close>

datatype fd_input = Op fd_op | Round "(nat \<times> byte) list"

fun run_inputs :: "'k poller \<Rightarrow> fd_handler \<Rightarrow> fd_input list \<Rightarrow> 'k fds \<Rightarrow> 'k fds option" where
  "run_inputs p h [] s = Some s"
| "run_inputs p h (Op x # xs) s = Option.bind (run_op p x s) (run_inputs p h xs)"
| "run_inputs p h (Round evs # xs) s = Option.bind (fd_round p h evs s) (run_inputs p h xs)"

text \<open>The inputs that the program makes: they open closed descriptors, use open ones, and the kernel reports
  descriptors of the table.\<close>

fun valid_inputs :: "'k poller \<Rightarrow> fd_handler \<Rightarrow> fd_input list \<Rightarrow> 'k fds \<Rightarrow> bool" where
  "valid_inputs p h [] s = True"
| "valid_inputs p h (Op x # xs) s = (fd_of x < length (fdtab s) \<and> owned (fdtab s ! fd_of x) = (\<not> opens x)
     \<and> (case run_op p x s of None \<Rightarrow> True | Some s' \<Rightarrow> valid_inputs p h xs s'))"
| "valid_inputs p h (Round evs # xs) s = ((\<forall>(fd, n) \<in> set evs. fd < length (fdtab s))
     \<and> (case fd_round p h evs s of None \<Rightarrow> True | Some s' \<Rightarrow> valid_inputs p h xs s'))"

subsection \<open>The poller over \<open>poll\<close>\<close>

record poll_bits =
  rd_evts :: "u32 list"
  wr_evts :: "u32 list"

definition hap_fd_isset :: "nat \<Rightarrow> u32 list \<Rightarrow> bool" where
  "hap_fd_isset fd evts \<longleftrightarrow> evts ! (fd div 32) AND push_bit (fd mod 32) 1 \<noteq> 0"

definition hap_fd_set :: "nat \<Rightarrow> u32 list \<Rightarrow> u32 list" where
  "hap_fd_set fd evts = evts[fd div 32 := (evts ! (fd div 32)) OR push_bit (fd mod 32) 1]"

definition hap_fd_clr :: "nat \<Rightarrow> u32 list \<Rightarrow> u32 list" where
  "hap_fd_clr fd evts = evts[fd div 32 := (evts ! (fd div 32)) AND NOT (push_bit (fd mod 32) 1)]"

definition poll_dir :: "byte \<Rightarrow> nat \<Rightarrow> byte \<Rightarrow> byte \<Rightarrow> u32 list \<Rightarrow> u32 list" where
  "poll_dir m fd eo en evts = (if (eo AND NOT en) AND m \<noteq> 0 then hap_fd_clr fd evts
     else if (en AND NOT eo) AND m \<noteq> 0 then hap_fd_set fd evts else evts)"

definition poll_poller :: "poll_bits poller" where
  "poll_poller = \<lparr>p_clo = (\<lambda>e fd k. \<lparr>rd_evts = hap_fd_clr fd (rd_evts k), wr_evts = hap_fd_clr fd (wr_evts k)\<rparr>),
     p_set = (\<lambda>fd eo en k. \<lparr>rd_evts = poll_dir FD_EV_POLLED_R fd eo en (rd_evts k), wr_evts = poll_dir FD_EV_POLLED_W fd eo en (wr_evts k)\<rparr>)\<rparr>"

text \<open>The table given to \<open>poll\<close>: each watched descriptor with whether it is watched to read and to write.\<close>

definition poll_word :: "nat \<Rightarrow> nat \<Rightarrow> u32 \<Rightarrow> u32 \<Rightarrow> (nat \<times> bool \<times> bool) list" where
  "poll_word m fds rn wn =
    (if rn OR wn = 0 then []
     else [(fds * 32 + count, bit rn count, bit wn count).
             count \<leftarrow> [0..<32], fds * 32 + count < m, bit rn count \<or> bit wn count])"

definition poll_table :: "nat \<Rightarrow> poll_bits \<Rightarrow> (nat \<times> bool \<times> bool) list" where
  "poll_table m k = concat (map (\<lambda>fds. poll_word m fds (rd_evts k ! fds) (wr_evts k ! fds)) [0..<(m + 31) div 32])"

definition poll_init :: "nat \<Rightarrow> poll_bits" where
  "poll_init maxsock = \<lparr>rd_evts = replicate ((maxsock + 3) div 4) 0, wr_evts = replicate ((maxsock + 3) div 4) 0\<rparr>"

subsection \<open>The poller over \<open>epoll\<close>\<close>

text \<open>The kernel keeps the events watched for each descriptor; \<open>ctl\<close> is \<open>epoll_ctl\<close> and \<open>gone\<close> what closing
  a descriptor does to the set.\<close>

datatype epoll_op = EPOLL_CTL_ADD | EPOLL_CTL_MOD | EPOLL_CTL_DEL

definition epoll_events :: "byte \<Rightarrow> u32" where
  "epoll_events en = (if en AND FD_EV_POLLED_R \<noteq> 0 then 0x2001 else 0) OR (if en AND FD_EV_POLLED_W \<noteq> 0 then 4 else 0)"

definition epoll_opcode :: "byte \<Rightarrow> byte \<Rightarrow> epoll_op" where
  "epoll_opcode eo en = (if en AND FD_EV_POLLED_RW = 0 then EPOLL_CTL_DEL
     else if eo AND FD_EV_POLLED_RW = 0 then EPOLL_CTL_ADD else EPOLL_CTL_MOD)"

definition epoll_poller :: "(epoll_op \<Rightarrow> nat \<Rightarrow> u32 \<Rightarrow> 'k \<Rightarrow> 'k) \<Rightarrow> (nat \<Rightarrow> 'k \<Rightarrow> 'k) \<Rightarrow> 'k poller" where
  "epoll_poller ctl gone = \<lparr>p_clo = (\<lambda>e fd k. gone fd (if cloned e then ctl EPOLL_CTL_DEL fd 0 k else k)),
     p_set = (\<lambda>fd eo en k. ctl (epoll_opcode eo en) fd (epoll_events en) k)\<rparr>"

text \<open>The flags of an event of \<open>epoll\<close>; a half-closed connection counts as closed.\<close>

definition epoll_flags :: "u32 \<Rightarrow> byte" where
  "epoll_flags e = (let n = ucast (e AND 0x1F) in if e AND 0x2000 \<noteq> 0 then n OR FD_POLL_HUP else n)"

end
