(* ===== verification/HA_Fd_Proofs.thy ===== *)
theory HA_Fd_Proofs
  imports HA_Fd
begin

section \<open>Consistency of the table of descriptors\<close>

text \<open>
  What a poller must do is a locale; on any poller that does it, the cache and the list of updates stay
  consistent with the table whatever the handlers do, and no event is lost.
\<close>

subsection \<open>Flags as bits\<close>

lemma byte_flags:
  fixes st :: byte
  shows "st AND 0x01 = 0 \<longleftrightarrow> \<not> bit st 0" "st AND 0x02 = 0 \<longleftrightarrow> \<not> bit st 1" "st AND 0x04 = 0 \<longleftrightarrow> \<not> bit st 2"
    "st AND 0x08 = 0 \<longleftrightarrow> \<not> bit st 3" "st AND 0x10 = 0 \<longleftrightarrow> \<not> bit st 4" "st AND 0x20 = 0 \<longleftrightarrow> \<not> bit st 5" "st AND 0x40 = 0 \<longleftrightarrow> \<not> bit st 6"
  using and_exp_eq_0_iff_not_bit [of st 0] and_exp_eq_0_iff_not_bit [of st 1] and_exp_eq_0_iff_not_bit [of st 2]
    and_exp_eq_0_iff_not_bit [of st 3] and_exp_eq_0_iff_not_bit [of st 4] and_exp_eq_0_iff_not_bit [of st 5]
    and_exp_eq_0_iff_not_bit [of st 6] by simp_all

lemma flag_masks:
  "bit (0x44 :: byte) k \<longleftrightarrow> k = 2 \<or> k = 6" "bit (0x11 :: byte) k \<longleftrightarrow> k = 0 \<or> k = 4"
  "bit (0x01 :: byte) k \<longleftrightarrow> k = 0" "bit (0x02 :: byte) k \<longleftrightarrow> k = 1" "bit (0x04 :: byte) k \<longleftrightarrow> k = 2"
  "bit (0x10 :: byte) k \<longleftrightarrow> k = 4" "bit (0x20 :: byte) k \<longleftrightarrow> k = 5" "bit (0x40 :: byte) k \<longleftrightarrow> k = 6"
  "bit (0x03 :: byte) k \<longleftrightarrow> k = 0 \<or> k = 1" "bit (0x30 :: byte) k \<longleftrightarrow> k = 4 \<or> k = 5"
proof -
  have "k < 8 \<Longrightarrow> k \<in> {0, 1, 2, 3, 4, 5, 6, 7}" by auto
  then show "bit (0x44 :: byte) k \<longleftrightarrow> k = 2 \<or> k = 6" "bit (0x11 :: byte) k \<longleftrightarrow> k = 0 \<or> k = 4"
    "bit (0x01 :: byte) k \<longleftrightarrow> k = 0" "bit (0x02 :: byte) k \<longleftrightarrow> k = 1" "bit (0x04 :: byte) k \<longleftrightarrow> k = 2"
    "bit (0x10 :: byte) k \<longleftrightarrow> k = 4" "bit (0x20 :: byte) k \<longleftrightarrow> k = 5" "bit (0x40 :: byte) k \<longleftrightarrow> k = 6"
    "bit (0x03 :: byte) k \<longleftrightarrow> k = 0 \<or> k = 1" "bit (0x30 :: byte) k \<longleftrightarrow> k = 4 \<or> k = 5"
    by (cases "k < 8"; auto simp: byte_bit_ge)+
qed

lemma needs_cache_bits: "needs_cache st \<longleftrightarrow> bit st 0 \<and> bit st 1 \<or> bit st 4 \<and> bit st 5"
proof -
  have "st AND m = m \<longleftrightarrow> (\<forall>k. bit m k \<longrightarrow> bit st k)" for m :: byte
    by (metis bit_and_iff bit_word_eqI)
  then show ?thesis by (auto simp: needs_cache_def flag_masks simp del: bit_numeral_word_iff)
qed

lemma and_not_bits: "bit (x AND NOT y) k \<longleftrightarrow> bit x k \<and> \<not> bit (y :: byte) k"
  using bit_imp_le_length [of x k] by (auto simp: bit_and_iff bit_not_iff)

definition polled_one :: "byte \<Rightarrow> byte \<Rightarrow> byte \<Rightarrow> byte \<Rightarrow> byte" where
  "polled_one a r p st = (if st AND a \<noteq> 0 then if st AND r = 0 then st OR p else st else st AND NOT p)"

lemma polled_one_bits:
  "bit (polled_one 0x01 0x02 0x04 st) k \<longleftrightarrow> (if k = 2 then bit st 0 \<and> (bit st 1 \<longrightarrow> bit st 2) else bit st k)"
  "bit (polled_one 0x10 0x20 0x40 st) k \<longleftrightarrow> (if k = 6 then bit st 4 \<and> (bit st 5 \<longrightarrow> bit st 6) else bit st k)"
  unfolding polled_one_def byte_flags by (simp_all only: and_not_bits bit_or_iff flag_masks if_distrib [of "\<lambda>x. bit x k"]) auto

lemma compute_bits:
  "bit (fd_compute_new_polled_status st) k \<longleftrightarrow>
    (if k = 2 then bit st 0 \<and> (bit st 1 \<longrightarrow> bit st 2) else if k = 6 then bit st 4 \<and> (bit st 5 \<longrightarrow> bit st 6) else bit st k)"
proof -
  have "fd_compute_new_polled_status st = polled_one 0x10 0x20 0x40 (polled_one 0x01 0x02 0x04 st)"
    by (simp add: fd_compute_new_polled_status_def polled_one_def Let_def)
  then show ?thesis by (simp add: polled_one_bits)
qed

lemma compute_fixed: "fd_compute_new_polled_status st = st \<longleftrightarrow>
    (bit st 2 \<longrightarrow> bit st 0) \<and> (bit st 0 \<and> \<not> bit st 1 \<longrightarrow> bit st 2) \<and> (bit st 6 \<longrightarrow> bit st 4) \<and> (bit st 4 \<and> \<not> bit st 5 \<longrightarrow> bit st 6)"
proof -
  have "fd_compute_new_polled_status st = st \<longleftrightarrow> (\<forall>k. bit (fd_compute_new_polled_status st) k = bit st k)"
    by (metis bit_word_eqI)
  also have "\<dots> \<longleftrightarrow> (bit st 0 \<and> (bit st 1 \<longrightarrow> bit st 2)) = bit st 2 \<and> (bit st 4 \<and> (bit st 5 \<longrightarrow> bit st 6)) = bit st 6"
    (is "?L \<longleftrightarrow> ?R")
  proof
    assume ?L
    from spec [OF this, of 2] spec [OF this, of 6] show ?R by (simp add: compute_bits)
  qed (simp add: compute_bits)
  finally show ?thesis by blast
qed

lemma polled_eq: "x AND FD_EV_POLLED_RW = y AND FD_EV_POLLED_RW \<longleftrightarrow> bit x 2 = bit y 2 \<and> bit x 6 = bit (y :: byte) 6"
proof
  assume "x AND FD_EV_POLLED_RW = y AND FD_EV_POLLED_RW"
  then have "bit (x AND FD_EV_POLLED_RW) k = bit (y AND FD_EV_POLLED_RW) k" for k by simp
  from this [of 2] this [of 6] show "bit x 2 = bit y 2 \<and> bit x 6 = bit y 6" by (simp add: bit_and_iff flag_masks del: bit_numeral_word_iff)
qed (auto intro!: bit_word_eqI simp: bit_and_iff flag_masks simp del: bit_numeral_word_iff)

lemma polled_zero: "x AND FD_EV_POLLED_RW = 0 \<longleftrightarrow> \<not> bit x 2 \<and> \<not> bit (x :: byte) 6"
  using polled_eq [of x 0] by simp

lemma active_zero: "x AND FD_EV_ACTIVE_RW = 0 \<longleftrightarrow> \<not> bit x 0 \<and> \<not> bit (x :: byte) 4"
proof
  assume z: "x AND FD_EV_ACTIVE_RW = 0"
  have "bit (x AND FD_EV_ACTIVE_RW) k = False" for k using z by simp
  from this [of 0] this [of 4] show "\<not> bit x 0 \<and> \<not> bit x 4" by (simp add: bit_and_iff flag_masks del: bit_numeral_word_iff)
qed (auto intro!: bit_word_eqI simp: bit_and_iff flag_masks simp del: bit_numeral_word_iff)

lemma polled_change: "(eo XOR en) AND FD_EV_POLLED_RW = 0 \<longleftrightarrow> eo AND FD_EV_POLLED_RW = en AND (FD_EV_POLLED_RW :: byte)"
  by (simp only: polled_zero polled_eq bit_xor_iff) auto

lemma compute_idem: "fd_compute_new_polled_status (fd_compute_new_polled_status st) = fd_compute_new_polled_status st"
  unfolding compute_fixed compute_bits by auto

lemma compute_unchanged:
  "(st XOR fd_compute_new_polled_status st) AND FD_EV_POLLED_RW = 0 \<Longrightarrow> fd_compute_new_polled_status st = st"
  unfolding polled_change polled_eq by (intro bit_word_eqI) (auto simp: compute_bits)

subsection \<open>The cache of events\<close>

definition cache_ok :: "'k fds \<Rightarrow> bool" where
  "cache_ok s \<longleftrightarrow> length (fd_cache s) = length (fdtab s) \<and> fd_cache_num s \<le> length (fdtab s)
    \<and> (\<forall>k < fd_cache_num s. fd_cache s ! k < length (fdtab s) \<and> cache_pos (fdtab s ! (fd_cache s ! k)) = k + 1)
    \<and> (\<forall>fd < length (fdtab s). cache_pos (fdtab s ! fd) \<noteq> 0 \<longrightarrow>
         cache_pos (fdtab s ! fd) \<le> fd_cache_num s \<and> fd_cache s ! (cache_pos (fdtab s ! fd) - 1) = fd)"

text \<open>The rest of a table: all but the positions in the cache.\<close>

definition but_cache :: "'k fds \<Rightarrow> fd_entry list \<times> nat list \<times> nat \<times> nat \<times> 'k" where
  "but_cache s = (map (\<lambda>e. e\<lparr>cache_pos := 0\<rparr>) (fdtab s), fd_updt s, fd_nbupdt s, maxfd s, kern s)"

lemma but_cache_length: "but_cache s = but_cache t \<Longrightarrow> length (fdtab s) = length (fdtab t)"
  unfolding but_cache_def by (metis Pair_inject length_map)

lemma but_cache_entry:
  assumes "but_cache s = but_cache t" "fd < length (fdtab t)"
  shows "(fdtab s ! fd)\<lparr>cache_pos := 0\<rparr> = (fdtab t ! fd)\<lparr>cache_pos := 0\<rparr>"
proof -
  have "map (\<lambda>e. e\<lparr>cache_pos := 0\<rparr>) (fdtab s) = map (\<lambda>e. e\<lparr>cache_pos := 0\<rparr>) (fdtab t)" using assms(1) by (simp add: but_cache_def)
  then have "map (\<lambda>e. e\<lparr>cache_pos := 0\<rparr>) (fdtab s) ! fd = map (\<lambda>e. e\<lparr>cache_pos := 0\<rparr>) (fdtab t) ! fd" by simp
  then show ?thesis using assms but_cache_length [OF assms(1)] by simp
qed

lemma but_cache_fields:
  assumes "but_cache s = but_cache t" "fd < length (fdtab t)"
  shows "owned (fdtab s ! fd) = owned (fdtab t ! fd)" "fd_state (fdtab s ! fd) = fd_state (fdtab t ! fd)"
    "updated (fdtab s ! fd) = updated (fdtab t ! fd)" "fresh (fdtab s ! fd) = fresh (fdtab t ! fd)"
    "has_iocb (fdtab s ! fd) = has_iocb (fdtab t ! fd)" "fd_ev (fdtab s ! fd) = fd_ev (fdtab t ! fd)"
  using but_cache_entry [OF assms] by (cases "fdtab s ! fd"; cases "fdtab t ! fd"; simp)+

lemma on_fd_simps [simp]:
  "length (fdtab (on_fd fd g s)) = length (fdtab s)" "fd_cache (on_fd fd g s) = fd_cache s" "fd_cache_num (on_fd fd g s) = fd_cache_num s"
  "fd_updt (on_fd fd g s) = fd_updt s" "fd_nbupdt (on_fd fd g s) = fd_nbupdt s" "maxfd (on_fd fd g s) = maxfd s" "kern (on_fd fd g s) = kern s"
  "fdtab (on_fd fd g s) ! i = (if i = fd \<and> fd < length (fdtab s) then g (fdtab s ! fd) else fdtab s ! i)"
  by (auto simp: on_fd_def nth_list_update) (simp add: list_update_beyond)

lemma on_fd_but_cache: "but_cache (on_fd fd (\<lambda>e. e\<lparr>cache_pos := n\<rparr>) s) = but_cache s"
proof (cases "fd < length (fdtab s)")
  case True
  then have "(map (\<lambda>e. e\<lparr>cache_pos := 0\<rparr>) (fdtab s))[fd := (fdtab s ! fd)\<lparr>cache_pos := 0\<rparr>] = map (\<lambda>e. e\<lparr>cache_pos := 0\<rparr>) (fdtab s)"
    by (simp add: list_update_same_conv)
  then show ?thesis by (simp add: but_cache_def on_fd_def map_update)
qed (simp add: on_fd_def list_update_beyond)

lemma but_cache_more [simp]: "but_cache (s\<lparr>fd_cache := c\<rparr>) = but_cache s" "but_cache (s\<lparr>fd_cache_num := n\<rparr>) = but_cache s"
  by (simp_all add: but_cache_def)

lemma cache_distinct: "cache_ok s \<Longrightarrow> j < fd_cache_num s \<Longrightarrow> k < fd_cache_num s \<Longrightarrow> fd_cache s ! j = fd_cache s ! k \<Longrightarrow> j = k"
  unfolding cache_ok_def by (metis add_right_cancel)

text \<open>There is room in the cache for a descriptor that is not in it.\<close>

lemma cache_room:
  assumes "cache_ok s" "fd < length (fdtab s)" "cache_pos (fdtab s ! fd) = 0"
  shows "fd_cache_num s < length (fd_cache s)"
proof -
  let ?C = "(!) (fd_cache s) ` {..<fd_cache_num s}"
  have "inj_on ((!) (fd_cache s)) {..<fd_cache_num s}" using cache_distinct [OF assms(1)] by (auto intro: inj_onI)
  then have "card ?C = fd_cache_num s" by (simp add: card_image)
  moreover have "?C \<subseteq> {..<length (fdtab s)} - {fd}" using assms(1,3) by (auto simp: cache_ok_def)
  then have "card ?C \<le> length (fdtab s) - 1" using card_mono [of "{..<length (fdtab s)} - {fd}" ?C] assms(2) by simp
  ultimately show ?thesis using assms(1,2) by (simp add: cache_ok_def)
qed

lemma alloc_ok:
  assumes "cache_ok s" "fd < length (fdtab s)"
  shows "\<exists>s'. fd_alloc_cache_entry fd s = Some s' \<and> cache_ok s' \<and> but_cache s' = but_cache s
    \<and> (\<forall>i < length (fdtab s). cache_pos (fdtab s' ! i) = 0 \<longleftrightarrow> i \<noteq> fd \<and> cache_pos (fdtab s ! i) = 0)"
proof (cases "cache_pos (fdtab s ! fd) = 0")
  case True
  note room = cache_room [OF assms True]
  let ?s = "(on_fd fd (\<lambda>e. e\<lparr>cache_pos := fd_cache_num s + 1\<rparr>) s)\<lparr>fd_cache_num := fd_cache_num s + 1, fd_cache := (fd_cache s)[fd_cache_num s := fd]\<rparr>"
  have "cache_ok ?s"
    using assms room True by (auto simp: cache_ok_def nth_list_update less_Suc_eq)
  moreover have "but_cache ?s = but_cache s" by (simp add: on_fd_but_cache)
  ultimately show ?thesis using assms(2) room True by (auto simp: fd_alloc_cache_entry_def)
next
  case False
  then show ?thesis using assms by (auto simp: fd_alloc_cache_entry_def)
qed

lemma release_ok:
  assumes "cache_ok s" "fd < length (fdtab s)"
  shows "\<exists>s'. fd_release_cache_entry fd s = Some s' \<and> cache_ok s' \<and> but_cache s' = but_cache s
    \<and> (\<forall>i < length (fdtab s). cache_pos (fdtab s' ! i) = 0 \<longleftrightarrow> i = fd \<or> cache_pos (fdtab s ! i) = 0)
    \<and> fd_cache_num s' \<le> fd_cache_num s \<and> (fd_cache_num s' = fd_cache_num s \<longrightarrow> fd_cache s' = fd_cache s)"
proof (cases "cache_pos (fdtab s ! fd) = 0")
  case True
  then show ?thesis using assms by (auto simp: fd_release_cache_entry_def)
next
  case False
  let ?p = "cache_pos (fdtab s ! fd)" and ?n = "fd_cache_num s - 1"
  let ?t = "(on_fd fd (\<lambda>e. e\<lparr>cache_pos := 0\<rparr>) s)\<lparr>fd_cache_num := ?n\<rparr>"
  have p: "?p \<le> fd_cache_num s" "fd_cache s ! (?p - 1) = fd" using assms False by (auto simp: cache_ok_def)
  have n: "?n < fd_cache_num s" "fd_cache s ! ?n < length (fdtab s)" "cache_pos (fdtab s ! (fd_cache s ! ?n)) = fd_cache_num s"
    "?n < length (fd_cache s)"
    using assms(1) p(1) False unfolding cache_ok_def by auto
  show ?thesis
  proof (cases "?p \<le> ?n")
    case True
    let ?l = "fd_cache s ! ?n"
    let ?u = "on_fd ?l (\<lambda>e. e\<lparr>cache_pos := ?p\<rparr>) (?t\<lparr>fd_cache := (fd_cache s)[?p - 1 := ?l]\<rparr>)"
    have l: "?l \<noteq> fd" using n(1,3) True by auto
    have "cache_ok ?u"
      unfolding cache_ok_def
    proof (intro conjI allI impI)
      fix k assume k: "k < fd_cache_num ?u"
      then have c: "fd_cache s ! k < length (fdtab s) \<and> cache_pos (fdtab s ! (fd_cache s ! k)) = k + 1"
        using assms(1) n(1) by (auto simp: cache_ok_def)
      have "k \<noteq> ?p - 1 \<longrightarrow> fd_cache s ! k \<noteq> fd" using c by auto
      moreover have "fd_cache s ! k \<noteq> ?l" using c n(3) k by auto
      ultimately show "fd_cache ?u ! k < length (fdtab ?u)" "cache_pos (fdtab ?u ! (fd_cache ?u ! k)) = k + 1"
        using c n(2,4) k l False True by (auto simp: nth_list_update)
    next
      fix i assume i: "i < length (fdtab ?u)" and z: "cache_pos (fdtab ?u ! i) \<noteq> 0"
      have "i \<noteq> fd" using z l assms(2) by (auto split: if_splits)
      have both: "cache_pos (fdtab ?u ! i) \<le> fd_cache_num ?u \<and> fd_cache ?u ! (cache_pos (fdtab ?u ! i) - 1) = i"
      proof (cases "i = ?l")
        case True
        then show ?thesis
          using \<open>?p \<le> ?n\<close> n(2,4) l by (simp_all add: nth_list_update)
      next
        case False
        then have z: "cache_pos (fdtab s ! i) \<noteq> 0" and e: "cache_pos (fdtab ?u ! i) = cache_pos (fdtab s ! i)"
          using z \<open>i \<noteq> fd\<close> by simp_all
        have c: "cache_pos (fdtab s ! i) \<le> fd_cache_num s" "fd_cache s ! (cache_pos (fdtab s ! i) - 1) = i"
          using assms(1) i z by (auto simp: cache_ok_def)
        have "cache_pos (fdtab s ! i) \<noteq> fd_cache_num s" using c(2) False by auto
        moreover have "cache_pos (fdtab s ! i) - 1 \<noteq> ?p - 1" using c(2) p(2) \<open>i \<noteq> fd\<close> by auto
        ultimately show ?thesis
          using c unfolding e by simp_all
      qed
      show "cache_pos (fdtab ?u ! i) \<le> fd_cache_num ?u" "fd_cache ?u ! (cache_pos (fdtab ?u ! i) - 1) = i" using both by blast+
    qed (use assms(1) in \<open>auto simp: cache_ok_def\<close>)
    moreover have "but_cache ?u = but_cache s" by (simp add: on_fd_but_cache)
    moreover have "fd_release_cache_entry fd s = Some ?u"
      using assms(2) False True n by (simp add: fd_release_cache_entry_def Let_def)
    ultimately show ?thesis using n False l by (auto simp: nth_list_update)
  next
    case False
    then have e: "?p = fd_cache_num s" using p(1) by simp
    have "cache_ok ?t"
      unfolding cache_ok_def
    proof (intro conjI allI impI)
      fix k assume k: "k < fd_cache_num ?t"
      then have c: "fd_cache s ! k < length (fdtab s) \<and> cache_pos (fdtab s ! (fd_cache s ! k)) = k + 1"
        using assms(1) n(1) by (auto simp: cache_ok_def)
      then have "fd_cache s ! k \<noteq> fd" using k e by auto
      then show "fd_cache ?t ! k < length (fdtab ?t)" "cache_pos (fdtab ?t ! (fd_cache ?t ! k)) = k + 1" using c by simp_all
    next
      fix i assume i: "i < length (fdtab ?t)" and z: "cache_pos (fdtab ?t ! i) \<noteq> 0"
      have "i \<noteq> fd" using z assms(2) by (auto split: if_splits)
      moreover have c: "cache_pos (fdtab s ! i) \<le> fd_cache_num s" "fd_cache s ! (cache_pos (fdtab s ! i) - 1) = i"
        using assms(1) i z \<open>i \<noteq> fd\<close> by (auto simp: cache_ok_def)
      ultimately have "cache_pos (fdtab s ! i) \<noteq> fd_cache_num s" using p(2) e by auto
      then show "cache_pos (fdtab ?t ! i) \<le> fd_cache_num ?t" "fd_cache ?t ! (cache_pos (fdtab ?t ! i) - 1) = i"
        using c \<open>i \<noteq> fd\<close> by simp_all
    qed (use assms(1) in \<open>auto simp: cache_ok_def\<close>)
    moreover have "but_cache ?t = but_cache s" by (simp add: on_fd_but_cache)
    moreover have "fd_release_cache_entry fd s = Some ?t"
      using assms(2) \<open>?p \<noteq> 0\<close> False n(1) by (simp add: fd_release_cache_entry_def Let_def)
    ultimately show ?thesis using n(1) assms(2) by auto
  qed
qed

subsection \<open>The consistency of the table\<close>

definition calm_fd :: "fd_entry \<Rightarrow> bool" where
  "calm_fd e \<longleftrightarrow> cache_pos e = 0 \<and> fd_state e AND FD_EV_POLLED_RW = 0"

text \<open>A closed descriptor has no state; an open one without a pending update is polled and cached as it should.\<close>

definition entry_ok :: "fd_entry \<Rightarrow> bool" where
  "entry_ok e \<longleftrightarrow> (\<not> owned e \<longrightarrow> fd_state e = 0 \<and> cache_pos e = 0 \<and> \<not> fresh e) \<and> (fresh e \<longrightarrow> calm_fd e)
    \<and> (owned e \<and> \<not> updated e \<longrightarrow> fd_compute_new_polled_status (fd_state e) = fd_state e
         \<and> (cache_pos e \<noteq> 0 \<longleftrightarrow> needs_cache (fd_state e)))"

lemma entry_ok_cong:
  assumes "owned e = owned e'" "fd_state e = fd_state e'" "updated e = updated e'" "fresh e = fresh e'"
    "(cache_pos e = 0) = (cache_pos e' = 0)"
  shows "entry_ok e = entry_ok e'"
  using assms by (simp add: entry_ok_def calm_fd_def)

text \<open>The descriptors of \<open>U\<close> have a pending update; \<open>I\<close> gives what the poller watches.\<close>

definition table_ok :: "(nat \<Rightarrow> 'k \<Rightarrow> bool) \<Rightarrow> ('k \<Rightarrow> nat \<Rightarrow> byte) \<Rightarrow> nat set \<Rightarrow> 'k fds \<Rightarrow> bool" where
  "table_ok good I U s \<longleftrightarrow> cache_ok s \<and> good (length (fdtab s)) (kern s) \<and> U \<subseteq> {..<length (fdtab s)} \<and> maxfd s \<le> length (fdtab s)
    \<and> (\<forall>fd < length (fdtab s). entry_ok (fdtab s ! fd) \<and> updated (fdtab s ! fd) = (fd \<in> U)
         \<and> (owned (fdtab s ! fd) \<longrightarrow> fd < maxfd s)
         \<and> I (kern s) fd = fd_state (fdtab s ! fd) AND FD_EV_POLLED_RW)"

definition pending :: "'k fds \<Rightarrow> nat list" where
  "pending s = take (fd_nbupdt s) (fd_updt s)"

definition updates_ok :: "'k fds \<Rightarrow> bool" where
  "updates_ok s \<longleftrightarrow> length (fd_updt s) = length (fdtab s) \<and> set (fd_updt s) \<subseteq> {..<length (fdtab s)}
    \<and> fd_nbupdt s \<le> length (fdtab s) \<and> distinct (pending s)"

definition fds_ok :: "(nat \<Rightarrow> 'k \<Rightarrow> bool) \<Rightarrow> ('k \<Rightarrow> nat \<Rightarrow> byte) \<Rightarrow> 'k fds \<Rightarrow> bool" where
  "fds_ok good I s \<longleftrightarrow> table_ok good I (set (pending s)) s \<and> updates_ok s"

text \<open>What the operations of a handler leave: they add no entry to the cache, and keep the pending updates.\<close>

definition kept :: "'k fds \<Rightarrow> 'k fds \<Rightarrow> bool" where
  "kept s s' \<longleftrightarrow> length (fdtab s') = length (fdtab s) \<and> fd_cache_num s' \<le> fd_cache_num s
    \<and> (fd_cache_num s' = fd_cache_num s \<longrightarrow> fd_cache s' = fd_cache s)
    \<and> fd_nbupdt s \<le> fd_nbupdt s' \<and> take (fd_nbupdt s) (fd_updt s') = take (fd_nbupdt s) (fd_updt s)
    \<and> (\<forall>fd < length (fdtab s). calm_fd (fdtab s ! fd) \<longrightarrow> calm_fd (fdtab s' ! fd))"

lemma kept_refl [simp]: "kept s s"
  by (simp add: kept_def)

lemma kept_trans: "kept s t \<Longrightarrow> kept t u \<Longrightarrow> kept s u"
proof -
  assume a: "kept s t" "kept t u"
  have m: "take (fd_nbupdt s) (take (fd_nbupdt t) l) = take (fd_nbupdt s) l" for l :: "nat list"
    using a by (simp add: kept_def min_def)
  have "take (fd_nbupdt t) (fd_updt u) = take (fd_nbupdt t) (fd_updt t)" using a by (simp add: kept_def)
  then have "take (fd_nbupdt s) (fd_updt u) = take (fd_nbupdt s) (fd_updt t)" using m [of "fd_updt u"] m [of "fd_updt t"] by simp
  then show ?thesis using a by (auto simp: kept_def)
qed

lemma updates_room:
  assumes "updates_ok s" "fd < length (fdtab s)" "fd \<notin> set (pending s)"
  shows "fd_nbupdt s < length (fd_updt s)"
proof -
  have "set (pending s) \<subseteq> {..<length (fdtab s)} - {fd}"
    using assms set_take_subset [of "fd_nbupdt s" "fd_updt s"] by (auto simp: updates_ok_def pending_def)
  then have "card (set (pending s)) \<le> length (fdtab s) - 1"
    using card_mono [of "{..<length (fdtab s)} - {fd}" "set (pending s)"] assms(2) by simp
  moreover have "card (set (pending s)) = fd_nbupdt s"
    using assms(1) by (simp add: updates_ok_def pending_def distinct_card)
  ultimately show ?thesis using assms(1,2) by (simp add: updates_ok_def)
qed

lemma pending_append:
  assumes "fd_nbupdt s < length (fd_updt s)"
  shows "pending (s\<lparr>fd_updt := (fd_updt s)[fd_nbupdt s := fd], fd_nbupdt := fd_nbupdt s + 1\<rparr>) = pending s @ [fd]"
  using assms by (simp add: pending_def take_Suc_conv_app_nth)

subsection \<open>One operation\<close>

lemma fds_okD:
  assumes "fds_ok good I s"
  shows "cache_ok s" "good (length (fdtab s)) (kern s)" "updates_ok s"
    "fd < length (fdtab s) \<Longrightarrow> entry_ok (fdtab s ! fd)" "fd < length (fdtab s) \<Longrightarrow> updated (fdtab s ! fd) = (fd \<in> set (pending s))"
    "fd < length (fdtab s) \<Longrightarrow> owned (fdtab s ! fd) \<Longrightarrow> fd < maxfd s"
    "fd < length (fdtab s) \<Longrightarrow> I (kern s) fd = fd_state (fdtab s ! fd) AND FD_EV_POLLED_RW"
    "maxfd s \<le> length (fdtab s)"
  using assms by (auto simp: fds_ok_def table_ok_def)

text \<open>The entry of an open descriptor changes, its place in the cache and its polling flags apart.\<close>

definition same_place :: "fd_entry \<Rightarrow> fd_entry \<Rightarrow> bool" where
  "same_place e e' \<longleftrightarrow> cache_pos e' = cache_pos e \<and> updated e' = updated e
     \<and> fd_state e' AND FD_EV_POLLED_RW = fd_state e AND FD_EV_POLLED_RW"

lemma same_place_calm: "same_place e e' \<Longrightarrow> calm_fd e' = calm_fd e"
  by (simp add: same_place_def calm_fd_def)

lemma cache_ok_on_fd: "cache_pos (g (fdtab s ! fd)) = cache_pos (fdtab s ! fd) \<Longrightarrow> cache_ok (on_fd fd g s) = cache_ok s"
  by (auto simp: cache_ok_def)

lemma pending_on_fd [simp]: "pending (on_fd fd g s) = pending s" "updates_ok (on_fd fd g s) = updates_ok s"
  by (simp_all add: pending_def updates_ok_def)

lemma kept_on_fd: "same_place (fdtab s ! fd) (g (fdtab s ! fd)) \<Longrightarrow> kept s (on_fd fd g s)"
  using same_place_calm by (auto simp: kept_def)

lemma edit_ok:
  assumes "fds_ok good I s" "same_place (fdtab s ! fd) (g (fdtab s ! fd))" "entry_ok (g (fdtab s ! fd))"
    "owned (g (fdtab s ! fd)) \<Longrightarrow> fd < maxfd s"
  shows "fds_ok good I (on_fd fd g s)"
  using assms cache_ok_on_fd [of g s fd] unfolding fds_ok_def table_ok_def by (auto simp: same_place_def)

lemma touch_ok:
  assumes "fds_ok good I s" "fd < length (fdtab s)" "fd < maxfd s" "same_place (fdtab s ! fd) (g (fdtab s ! fd))"
    "owned (g (fdtab s ! fd))" "fresh (g (fdtab s ! fd)) \<Longrightarrow> calm_fd (fdtab s ! fd)"
  shows "\<exists>s'. updt_fd fd (on_fd fd g s) = Some s' \<and> fds_ok good I s' \<and> kept s s'"
proof (cases "updated (fdtab s ! fd)")
  case True
  have "entry_ok (g (fdtab s ! fd))"
    using assms(4-6) True same_place_calm [OF assms(4)] by (auto simp: entry_ok_def same_place_def)
  then have "fds_ok good I (on_fd fd g s)" using edit_ok [where g = g, OF assms(1,4)] assms(3) by blast
  then show ?thesis using True assms(2,4) kept_on_fd [where g = g, OF assms(4)] by (simp add: updt_fd_def same_place_def)
next
  case False
  let ?h = "\<lambda>e. (g e)\<lparr>updated := True\<rparr>"
  let ?t = "on_fd fd ?h s"
  let ?u = "?t\<lparr>fd_updt := (fd_updt s)[fd_nbupdt s := fd], fd_nbupdt := fd_nbupdt s + 1\<rparr>"
  have new: "fd \<notin> set (pending s)" using False fds_okD(5) [OF assms(1,2)] by simp
  have room: "fd_nbupdt s < length (fd_updt s)" by (rule updates_room [OF fds_okD(3) [OF assms(1)] assms(2) new])
  have p: "pending ?u = pending s @ [fd]" using pending_append [of ?t fd] room by simp
  have e: "entry_ok (?h (fdtab s ! fd))"
    using assms(4-6) same_place_calm [OF assms(4)] by (auto simp: entry_ok_def calm_fd_def)
  have "cache_ok ?t" using fds_okD(1) [OF assms(1)] assms(4) cache_ok_on_fd [of ?h s fd] by (simp add: same_place_def)
  then have "cache_ok ?u" by (simp add: cache_ok_def)
  then have "table_ok good I (set (pending ?u)) ?u"
    using assms(1-4) e unfolding p fds_ok_def table_ok_def by (auto simp: same_place_def)
  moreover have "updates_ok ?u"
    using fds_okD(3) [OF assms(1)] new room assms(2) set_update_subset_insert [of "fd_updt s" "fd_nbupdt s" fd]
    unfolding updates_ok_def p by (auto simp: subset_iff)
  moreover have "updt_fd fd (on_fd fd g s) = Some ?u"
    using False assms(2,4) room by (simp add: updt_fd_def same_place_def on_fd_def)
  moreover have "kept s ?u" using same_place_calm [OF assms(4)] by (auto simp: kept_def calm_fd_def)
  ultimately show ?thesis by (auto simp: fds_ok_def)
qed

lemma polled_kept:
  "m AND FD_EV_POLLED_RW = 0 \<Longrightarrow> (st AND NOT m) AND FD_EV_POLLED_RW = st AND (FD_EV_POLLED_RW :: byte)"
  "m AND FD_EV_POLLED_RW = 0 \<Longrightarrow> (st OR m) AND FD_EV_POLLED_RW = st AND (FD_EV_POLLED_RW :: byte)"
  unfolding polled_zero polled_eq by (auto simp: and_not_bits bit_or_iff)

lemma fresh_calm: "fds_ok good I s \<Longrightarrow> fd < length (fdtab s) \<Longrightarrow> fresh (fdtab s ! fd) \<Longrightarrow> calm_fd (fdtab s ! fd)"
  using fds_okD(4) by (auto simp: entry_ok_def)

lemma flag_change_ok:
  assumes "fds_ok good I s" "fd < length (fdtab s)" "owned (fdtab s ! fd)" "m AND FD_EV_POLLED_RW = 0"
  shows "\<exists>s'. fd_clear m fd s = Some s' \<and> fds_ok good I s' \<and> kept s s'"
    "\<exists>s'. fd_raise m fd s = Some s' \<and> fds_ok good I s' \<and> kept s s'"
proof -
  have t: "\<exists>s'. updt_fd fd (on_fd fd (\<lambda>e. e\<lparr>fd_state := f (fd_state e)\<rparr>) s) = Some s' \<and> fds_ok good I s' \<and> kept s s'"
    if "f (fd_state (fdtab s ! fd)) AND FD_EV_POLLED_RW = fd_state (fdtab s ! fd) AND FD_EV_POLLED_RW" for f
    using touch_ok [where g = "\<lambda>e. e\<lparr>fd_state := f (fd_state e)\<rparr>", OF assms(1,2) fds_okD(6) [OF assms(1-3)]]
      that assms(3) fresh_calm [OF assms(1,2)] by (simp add: same_place_def)
  show "\<exists>s'. fd_clear m fd s = Some s' \<and> fds_ok good I s' \<and> kept s s'"
    using t [of "\<lambda>st. st AND NOT m"] polled_kept(1) [OF assms(4)] assms(1,2) by (simp add: fd_clear_def)
  show "\<exists>s'. fd_raise m fd s = Some s' \<and> fds_ok good I s' \<and> kept s s'"
    using t [of "\<lambda>st. st OR m"] polled_kept(2) [OF assms(4)] assms(1,2) by (simp add: fd_raise_def)
qed

text \<open>The opening of a descriptor.\<close>

lemma grow_ok: "fds_ok good I s \<Longrightarrow> maxfd s \<le> n \<Longrightarrow> n \<le> length (fdtab s) \<Longrightarrow> fds_ok good I (s\<lparr>maxfd := n\<rparr>)"
  "kept s t \<Longrightarrow> kept s (t\<lparr>maxfd := n\<rparr>)" "kept (s\<lparr>maxfd := n\<rparr>) t = kept s t"
  by (auto simp: fds_ok_def table_ok_def cache_ok_def updates_ok_def pending_def kept_def)

definition opened :: "byte \<Rightarrow> fd_entry \<Rightarrow> fd_entry" where
  "opened st e = e\<lparr>owned := True, has_iocb := True, fd_ev := 0, fresh := True, linger_risk := False, cloned := False, fd_state := st\<rparr>"

lemma closed_facts:
  assumes "fds_ok good I s" "fd < length (fdtab s)" "\<not> owned (fdtab s ! fd)"
  shows "fd_state (fdtab s ! fd) = 0" "cache_pos (fdtab s ! fd) = 0" "calm_fd (fdtab s ! fd)"
  using fds_okD(4) [OF assms(1,2)] assms(3) by (auto simp: entry_ok_def calm_fd_def)

lemma on_fd_on_fd: "on_fd fd g (on_fd fd h s) = on_fd fd (g \<circ> h) s"
  by (cases "fd < length (fdtab s)") (simp_all add: on_fd_def list_update_beyond)

lemma on_fd_maxfd: "on_fd fd g (s\<lparr>maxfd := n\<rparr>) = (on_fd fd g s)\<lparr>maxfd := n\<rparr>"
  by (simp add: on_fd_def)

lemma on_fd_cong: "g (fdtab s ! fd) = h (fdtab s ! fd) \<Longrightarrow> on_fd fd g s = on_fd fd h s"
  by (simp add: on_fd_def)

lemma open_listener_ok:
  assumes "fds_ok good I s" "fd < length (fdtab s)" "\<not> owned (fdtab s ! fd)"
  shows "\<exists>s'. fd_open_listener fd s = Some s' \<and> fds_ok good I s' \<and> kept s s'"
proof -
  note c = closed_facts [OF assms]
  let ?n = "max (maxfd s) (fd + 1)"
  let ?t = "(on_fd fd (opened 0) s)\<lparr>maxfd := ?n\<rparr>"
  have place: "same_place (fdtab s ! fd) (opened 0 (fdtab s ! fd))" using c(1) by (simp add: same_place_def opened_def)
  have "entry_ok (opened 0 (fdtab s ! fd))"
    using c by (simp add: entry_ok_def opened_def calm_fd_def compute_fixed needs_cache_bits)
  then have "fds_ok good I (on_fd fd (opened 0) (s\<lparr>maxfd := ?n\<rparr>))"
    using edit_ok [where g = "opened 0", OF grow_ok(1) [OF assms(1)], of ?n fd] place assms(2) fds_okD(8) [OF assms(1)] by simp
  moreover have "opened 0 (fdtab s ! fd) =
      (fdtab s ! fd)\<lparr>owned := True, has_iocb := True, fd_ev := 0, fresh := True, linger_risk := False, cloned := False\<rparr>"
    using c(1) by (cases "fdtab s ! fd") (simp add: opened_def)
  then have "fd_open_listener fd s = Some ?t"
    using assms(2) by (simp add: fd_open_listener_def fd_insert_def on_fd_on_fd) (rule fds.equality; simp add: on_fd_def)
  ultimately show ?thesis using kept_on_fd [where g = "opened 0", OF place] grow_ok(2) by (auto simp: on_fd_maxfd)
qed

lemma open_conn_ok:
  assumes "fds_ok good I s" "fd < length (fdtab s)" "\<not> owned (fdtab s ! fd)"
  shows "\<exists>s'. fd_open_conn fd s = Some s' \<and> fds_ok good I s' \<and> kept s s'"
proof -
  note c = closed_facts [OF assms]
  let ?n = "max (maxfd s) (fd + 1)" and ?st = "FD_EV_READY_R OR FD_EV_READY_W"
  let ?s = "s\<lparr>maxfd := ?n\<rparr>"
  have place: "same_place (fdtab s ! fd) (opened ?st (fdtab s ! fd))" using c(1) by (simp add: same_place_def opened_def)
  have "fds_ok good I ?s" by (rule grow_ok(1) [OF assms(1)]) (use assms(2) fds_okD(8) [OF assms(1)] in simp_all)
  then have "\<exists>s'. updt_fd fd (on_fd fd (opened ?st) ?s) = Some s' \<and> fds_ok good I s' \<and> kept ?s s'"
    by (rule touch_ok) (use assms(2) place c(3) in \<open>simp_all add: opened_def\<close>)
  then obtain s' where t: "updt_fd fd (on_fd fd (opened ?st) ?s) = Some s'" "fds_ok good I s'" "kept ?s s'" by blast
  have "fd_open_conn fd s = updt_fd fd (on_fd fd (opened ?st) ?s)"
  proof (cases "updated (fdtab s ! fd)")
    case True
    then show ?thesis using assms(2) c(1)
      by (simp add: fd_open_conn_def fd_insert_def fd_may_recv_def fd_may_send_def fd_raise_def updt_fd_def on_fd_on_fd on_fd_maxfd opened_def)
         (rule fds.equality; cases "fdtab s ! fd"; simp add: on_fd_def opened_def)
  next
    case False
    have "fd_nbupdt s < length (fd_updt s)"
      by (rule updates_room [OF fds_okD(3) [OF assms(1)] assms(2)]) (use False fds_okD(5) [OF assms(1,2)] in simp)
    then show ?thesis using assms(2) c(1) False
      by (simp add: fd_open_conn_def fd_insert_def fd_may_recv_def fd_may_send_def fd_raise_def updt_fd_def on_fd_on_fd on_fd_maxfd opened_def)
         (rule fds.equality; cases "fdtab s ! fd"; simp add: on_fd_def opened_def)
  qed
  then show ?thesis using t grow_ok(3) by auto
qed

subsection \<open>What a handler may do\<close>

text \<open>A handler uses open descriptors, and opens those that the system gives it, which are closed.\<close>

definition legal_op :: "fd_op \<Rightarrow> 'k fds \<Rightarrow> bool" where
  "legal_op x s \<longleftrightarrow> fd_of x < length (fdtab s) \<and> owned (fdtab s ! fd_of x) = (\<not> opens x)"

fun legal :: "'k poller \<Rightarrow> fd_op list \<Rightarrow> 'k fds \<Rightarrow> bool" where
  "legal p [] s = True"
| "legal p (x # xs) s = (legal_op x s \<and> (case run_op p x s of None \<Rightarrow> True | Some s' \<Rightarrow> legal p xs s'))"

definition sane_handler :: "'k poller \<Rightarrow> (nat \<Rightarrow> 'k \<Rightarrow> bool) \<Rightarrow> ('k \<Rightarrow> nat \<Rightarrow> byte) \<Rightarrow> fd_handler \<Rightarrow> bool" where
  "sane_handler p good I h \<longleftrightarrow>
    (\<forall>s fd. fds_ok good I s \<longrightarrow> fd < length (fdtab s) \<longrightarrow> owned (fdtab s ! fd) \<longrightarrow> legal p (h fd (fdtab s)) s)"

subsection \<open>Any poller\<close>

locale fd_poller =
  fixes p :: "'k poller" and good :: "nat \<Rightarrow> 'k \<Rightarrow> bool" and watched :: "'k \<Rightarrow> nat \<Rightarrow> byte"
  assumes set_good: "good n k \<Longrightarrow> fd < n \<Longrightarrow> watched k fd = eo AND FD_EV_POLLED_RW \<Longrightarrow>
      eo AND FD_EV_POLLED_RW \<noteq> en AND FD_EV_POLLED_RW \<Longrightarrow> good n (p_set p fd eo en k)"
    and set_watched: "good n k \<Longrightarrow> fd < n \<Longrightarrow> watched k fd = eo AND FD_EV_POLLED_RW \<Longrightarrow>
      eo AND FD_EV_POLLED_RW \<noteq> en AND FD_EV_POLLED_RW \<Longrightarrow> i < n \<Longrightarrow>
      watched (p_set p fd eo en k) i = (if i = fd then en AND FD_EV_POLLED_RW else watched k i)"
    and clo_good: "good n k \<Longrightarrow> fd < n \<Longrightarrow> good n (p_clo p e fd k)"
    and clo_watched: "good n k \<Longrightarrow> fd < n \<Longrightarrow> i < n \<Longrightarrow> watched (p_clo p e fd k) i = (if i = fd then 0 else watched k i)"
begin

abbreviation ok :: "'k fds \<Rightarrow> bool" where
  "ok \<equiv> fds_ok good watched"

lemma shrink_owned: "owned (t ! fd) \<Longrightarrow> fd < n \<Longrightarrow> fd < shrink_maxfd t n"
  by (induction n) (auto simp: less_Suc_eq)

lemma shrink_le: "shrink_maxfd t n \<le> n"
  by (induction n) auto

lemma delete_ok:
  assumes "ok s" "fd < length (fdtab s)"
  shows "\<exists>s'. fd_delete p fd s = Some s' \<and> ok s' \<and> kept s s'"
proof -
  let ?s = "s\<lparr>kern := p_clo p (fdtab s ! fd) fd (kern s)\<rparr>"
  have "cache_ok ?s" using fds_okD(1) [OF assms(1)] by (simp add: cache_ok_def)
  then obtain t where t: "fd_release_cache_entry fd ?s = Some t" "cache_ok t" "but_cache t = but_cache ?s"
      "\<forall>i < length (fdtab s). cache_pos (fdtab t ! i) = 0 \<longleftrightarrow> i = fd \<or> cache_pos (fdtab s ! i) = 0"
      "fd_cache_num t \<le> fd_cache_num s" "fd_cache_num t = fd_cache_num s \<longrightarrow> fd_cache t = fd_cache s"
    using release_ok [of ?s fd] assms(2) by auto
  have len: "length (fdtab t) = length (fdtab s)" using but_cache_length [OF t(3)] by simp
  have more: "fd_updt t = fd_updt s" "fd_nbupdt t = fd_nbupdt s" "maxfd t = maxfd s" "kern t = kern ?s"
    using t(3) by (simp_all add: but_cache_def)
  note f = but_cache_fields [OF t(3)]
  let ?g = "\<lambda>e. e\<lparr>fd_state := 0, owned := False, fresh := False\<rparr>"
  let ?u = "on_fd fd ?g t"
  let ?v = "?u\<lparr>maxfd := shrink_maxfd (fdtab ?u) (maxfd t)\<rparr>"
  have pend: "pending ?v = pending s" by (simp add: pending_def more)
  have e: "entry_ok (fdtab ?v ! i) \<and> updated (fdtab ?v ! i) = (i \<in> set (pending ?v)) \<and> (owned (fdtab ?v ! i) \<longrightarrow> i < maxfd ?v)
      \<and> watched (kern ?v) i = fd_state (fdtab ?v ! i) AND FD_EV_POLLED_RW" if i: "i < length (fdtab s)" for i
  proof (cases "i = fd")
    case True
    then show ?thesis
      using assms(2) t(4) f(3) [of fd] len more pend fds_okD(5) [OF assms] clo_watched [OF fds_okD(2) [OF assms(1)] assms(2) assms(2)]
      by (simp add: entry_ok_def)
  next
    case False
    have "entry_ok (fdtab t ! i)"
      using entry_ok_cong [of "fdtab t ! i" "fdtab s ! i"] fds_okD(4) [OF assms(1) i] f [of i] i t(4) False by simp
    moreover have "owned (fdtab s ! i) \<longrightarrow> i < maxfd ?v"
      using shrink_owned [of "fdtab ?u" i "maxfd t"] fds_okD(6) [OF assms(1) i] f(1) [of i] i False more by simp
    ultimately show ?thesis
      using f [of i] i False more pend fds_okD(5,7) [OF assms(1) i] clo_watched [OF fds_okD(2) [OF assms(1)] assms(2) i] by simp
  qed
  have "cache_ok ?v" using t(2) cache_ok_on_fd [of ?g t fd] by (simp add: cache_ok_def)
  moreover have "good (length (fdtab ?v)) (kern ?v)" using clo_good [OF fds_okD(2) [OF assms(1)] assms(2)] len more by simp
  moreover have "updates_ok ?v" using fds_okD(3) [OF assms(1)] pend len more by (simp add: updates_ok_def)
  moreover have "maxfd ?v \<le> length (fdtab ?v)" using shrink_le [of "fdtab ?u" "maxfd t"] fds_okD(8) [OF assms(1)] len more by simp
  ultimately have "ok ?v"
    using e len more pend fds_okD(3) [OF assms(1)] set_take_subset [of "fd_nbupdt s" "fd_updt s"]
    unfolding fds_ok_def table_ok_def updates_ok_def pending_def by auto
  moreover have "kept s ?v"
  proof -
    have "calm_fd (fdtab ?v ! i)" if "i < length (fdtab s)" "calm_fd (fdtab s ! i)" for i
      using that t(4) f(2) [of i] by (auto simp: calm_fd_def)
    then show ?thesis using t(5,6) len more by (simp add: kept_def)
  qed
  moreover have "fd_delete p fd s = Some ?v" using assms(2) t(1) by (simp add: fd_delete_def Let_def)
  ultimately show ?thesis by blast
qed

lemma run_op_ok:
  assumes "ok s" "legal_op x s"
  shows "\<exists>s'. run_op p x s = Some s' \<and> ok s' \<and> kept s s'"
proof -
  let ?fd = "fd_of x"
  have fd: "?fd < length (fdtab s)" "owned (fdtab s ! ?fd) = (\<not> opens x)" using assms(2) by (simp_all add: legal_op_def)
  have c: "\<exists>s'. fd_clear m ?fd s = Some s' \<and> ok s' \<and> kept s s'" "\<exists>s'. fd_raise m ?fd s = Some s' \<and> ok s' \<and> kept s s'"
    if "\<not> opens x" "m AND FD_EV_POLLED_RW = 0" for m
    using flag_change_ok [OF assms(1) fd(1) _ that(2)] fd(2) that(1) by auto
  have lin: "fds_ok good watched (on_fd fd (\<lambda>e. e\<lparr>linger_risk := b\<rparr>) s) \<and> kept s (on_fd fd (\<lambda>e. e\<lparr>linger_risk := b\<rparr>) s)"
    if "?fd = fd" for fd b
    using edit_ok [where g = "\<lambda>e. e\<lparr>linger_risk := b\<rparr>" and fd = fd, OF assms(1)] kept_on_fd [of s fd "\<lambda>e. e\<lparr>linger_risk := b\<rparr>"]
      fds_okD(4,6) [OF assms(1), of fd] fd that by (simp add: same_place_def entry_ok_def calm_fd_def)
  show ?thesis
    using fd c lin assms(1) open_conn_ok [OF assms(1) fd(1)] open_listener_ok [OF assms(1) fd(1)] delete_ok [OF assms(1) fd(1)]
    by (cases x) (simp_all add: fd_stop_recv_def fd_stop_send_def fd_stop_both_def fd_cant_recv_def fd_cant_send_def
        fd_may_recv_def fd_may_send_def fd_want_recv_def fd_want_send_def fd_done_recv_def)
qed

lemma run_ops_ok: "ok s \<Longrightarrow> legal p xs s \<Longrightarrow> \<exists>s'. run_ops p xs s = Some s' \<and> ok s' \<and> kept s s'"
proof (induction xs arbitrary: s)
  case (Cons x xs)
  obtain t where t: "run_op p x s = Some t" "ok t" "kept s t" using run_op_ok [OF Cons.prems(1)] Cons.prems(2) by auto
  then show ?case using Cons.IH [OF t(2)] Cons.prems(2) kept_trans by auto
qed simp

text \<open>A change of the events of a descriptor, and of its mark of a new one.\<close>

lemma event_ok:
  assumes "ok s" "fd < length (fdtab s)"
  shows "ok (on_fd fd (\<lambda>e. e\<lparr>fd_ev := n e\<rparr>) s)" "kept s (on_fd fd (\<lambda>e. e\<lparr>fd_ev := n e\<rparr>) s)"
    "ok (on_fd fd (\<lambda>e. e\<lparr>fresh := False, fd_ev := n e\<rparr>) s)" "kept s (on_fd fd (\<lambda>e. e\<lparr>fresh := False, fd_ev := n e\<rparr>) s)"
  using edit_ok [where g = "\<lambda>e. e\<lparr>fd_ev := n e\<rparr>" and fd = fd, OF assms(1)] kept_on_fd [of s fd "\<lambda>e. e\<lparr>fd_ev := n e\<rparr>"]
    edit_ok [where g = "\<lambda>e. e\<lparr>fresh := False, fd_ev := n e\<rparr>" and fd = fd, OF assms(1)]
    kept_on_fd [of s fd "\<lambda>e. e\<lparr>fresh := False, fd_ev := n e\<rparr>"] fds_okD(4,6) [OF assms(1), of fd] assms(2)
  by (simp_all add: same_place_def entry_ok_def calm_fd_def)

lemma handle_ok:
  assumes "ok s" "fd < length (fdtab s)" "sane_handler p good watched h" "owned (fdtab s ! fd)"
  shows "\<exists>s'. run_ops p (h fd (fdtab s)) s = Some s' \<and> ok s' \<and> kept s s'"
  using run_ops_ok [OF assms(1)] assms unfolding sane_handler_def by blast

lemma call_ok:
  assumes "ok s" "fd < length (fdtab s)" "sane_handler p good watched h"
  shows "\<exists>t. (if callable (fdtab s ! fd) then run_ops p (h fd (fdtab s)) s else Some s) = Some t \<and> ok t \<and> kept s t"
proof (cases "callable (fdtab s ! fd)")
  case True
  then show ?thesis using handle_ok [OF assms] by (simp add: callable_def)
qed (use assms(1) in simp)

text \<open>The last update is dropped when its descriptor has nothing to watch.\<close>

lemma drop_update_ok:
  assumes "ok s" "fd_nbupdt s = Suc n" "fd_updt s ! n = fd" "calm_fd (fdtab s ! fd)" "fd_state (fdtab s ! fd) AND FD_EV_ACTIVE_RW = 0"
  shows "ok ((on_fd fd (\<lambda>e. e\<lparr>updated := False\<rparr>) s)\<lparr>fd_nbupdt := n\<rparr>)"
proof -
  let ?t = "on_fd fd (\<lambda>e. e\<lparr>updated := False\<rparr>) s"
  let ?u = "?t\<lparr>fd_nbupdt := n\<rparr>"
  have n: "n < length (fd_updt s)" using fds_okD(3) [OF assms(1)] assms(2) by (simp add: updates_ok_def)
  have pend: "pending s = pending ?u @ [fd]" using n assms(2,3) by (simp add: pending_def take_Suc_conv_app_nth)
  have fd: "fd < length (fdtab s)" using fds_okD(3) [OF assms(1)] n assms(3) nth_mem [OF n] by (auto simp: updates_ok_def)
  have d: "fd \<notin> set (pending ?u)" "distinct (pending ?u)"
    using fds_okD(3) [OF assms(1)] unfolding updates_ok_def pend by simp_all
  have "needs_cache (fd_state (fdtab s ! fd)) = False" "fd_compute_new_polled_status (fd_state (fdtab s ! fd)) = fd_state (fdtab s ! fd)"
    using assms(4,5) unfolding needs_cache_bits compute_fixed calm_fd_def polled_zero active_zero by simp_all
  then have e: "entry_ok (fdtab ?u ! fd)"
    using fds_okD(4) [OF assms(1) fd] assms(4) fd by (simp add: entry_ok_def calm_fd_def)
  have "cache_ok ?u" using fds_okD(1) [OF assms(1)] cache_ok_on_fd [of "\<lambda>e. e\<lparr>updated := False\<rparr>" s fd] by (simp add: cache_ok_def)
  moreover have "set (pending ?u) \<subseteq> {..<length (fdtab ?u)}"
    using assms(1) unfolding fds_ok_def table_ok_def pend by auto
  moreover have "entry_ok (fdtab ?u ! i) \<and> updated (fdtab ?u ! i) = (i \<in> set (pending ?u)) \<and> (owned (fdtab ?u ! i) \<longrightarrow> i < maxfd ?u)
      \<and> watched (kern ?u) i = fd_state (fdtab ?u ! i) AND FD_EV_POLLED_RW" if "i < length (fdtab s)" for i
    using e d(1) fds_okD(4-7) [OF assms(1) that] fd pend by (cases "i = fd") auto
  ultimately have "table_ok good watched (set (pending ?u)) ?u"
    using fds_okD(2,8) [OF assms(1)] unfolding table_ok_def by simp
  moreover have "updates_ok ?u" using fds_okD(3) [OF assms(1)] d(2) assms(2) by (simp add: updates_ok_def)
  ultimately show ?thesis by (simp add: fds_ok_def)
qed

lemma fresh_loop_ok:
  assumes "sane_handler p good watched h"
  shows "ok s \<Longrightarrow> n \<le> fd_nbupdt s \<Longrightarrow> \<exists>s'. fresh_loop p h old n s = Some s' \<and> ok s' \<and> length (fdtab s') = length (fdtab s)"
proof (induction n arbitrary: s)
  case (Suc n)
  show ?case
  proof (cases "Suc n \<le> old")
    case True
    then show ?thesis using Suc.prems(1) by simp
  next
    case False
    let ?fd = "fd_updt s ! n"
    have u: "updates_ok s" by (rule fds_okD(3) [OF Suc.prems(1)])
    then have n: "n < length (fd_updt s)" using Suc.prems(2) by (simp add: updates_ok_def)
    have "set (fd_updt s) \<subseteq> {..<length (fdtab s)}" using u by (simp add: updates_ok_def)
    then have fd: "?fd < length (fdtab s)" using nth_mem [OF n] by blast
    show ?thesis
    proof (cases "fresh (fdtab s ! ?fd)")
      case False
      then show ?thesis using Suc.IH [OF Suc.prems(1)] Suc.prems(2) n fd \<open>\<not> Suc n \<le> old\<close> by simp
    next
      case True
      let ?s = "on_fd ?fd (\<lambda>e. e\<lparr>fresh := False, fd_ev := fresh_ready (fd_state e) (fd_ev e)\<rparr>) s"
      have ok1: "ok ?s" by (rule event_ok(3) [OF Suc.prems(1) fd])
      have calm1: "calm_fd (fdtab ?s ! ?fd)" using fresh_calm [OF Suc.prems(1) fd True] fd by (simp add: calm_fd_def)
      obtain t where t: "(if callable (fdtab ?s ! ?fd) then run_ops p (h ?fd (fdtab ?s)) ?s else Some ?s) = Some t" "ok t" "kept ?s t"
        using call_ok [OF ok1 _ assms, of ?fd] fd unfolding on_fd_simps(1) by blast
      have nb: "Suc n \<le> fd_nbupdt t" using t(3) Suc.prems(2) by (simp add: kept_def)
      have "take (fd_nbupdt s) (fd_updt t) ! n = take (fd_nbupdt s) (fd_updt s) ! n" using t(3) by (simp add: kept_def)
      then have last: "fd_updt t ! n = ?fd" using Suc.prems(2) by simp
      have calm: "calm_fd (fdtab t ! ?fd)" using t(3) calm1 fd by (simp add: kept_def)
      have len: "length (fdtab t) = length (fdtab s)" using t(3) by (simp add: kept_def)
      let ?t = "if Suc n = fd_nbupdt t \<and> fd_state (fdtab t ! ?fd) AND FD_EV_ACTIVE_RW = 0
        then (on_fd ?fd (\<lambda>e. e\<lparr>updated := False\<rparr>) t)\<lparr>fd_nbupdt := n\<rparr> else t"
      have "ok ?t" using t(2) drop_update_ok [OF t(2) _ last calm] by simp
      moreover have "n \<le> fd_nbupdt ?t" using nb by simp
      ultimately obtain u where "fresh_loop p h old n ?t = Some u" "ok u" "length (fdtab u) = length (fdtab ?t)" using Suc.IH by blast
      moreover have "fresh_loop p h old (Suc n) s = fresh_loop p h old n ?t"
        using t(1) n fd True \<open>\<not> Suc n \<le> old\<close> by (simp add: Let_def del: if_split)
      ultimately show ?thesis using len by simp
    qed
  qed
qed simp

lemma process_polled_ok:
  assumes "sane_handler p good watched h" "ok s" "fd < length (fdtab s)" "owned (fdtab s ! fd)"
  shows "\<exists>s'. fd_process_polled_events p h fd s = Some s' \<and> ok s' \<and> length (fdtab s') = length (fdtab s)"
proof -
  have may: "\<exists>t'. (if b then fd_raise m fd t else Some t) = Some t' \<and> ok t' \<and> length (fdtab t') = length (fdtab s) \<and> owned (fdtab t' ! fd)"
    if "m AND FD_EV_POLLED_RW = 0" "ok t" "length (fdtab t) = length (fdtab s)" "owned (fdtab t ! fd)" for b m t
  proof -
    have "owned (fdtab t' ! fd)" if "fd_raise m fd t = Some t'" for t'
      using that \<open>owned (fdtab t ! fd)\<close> assms(3) \<open>length (fdtab t) = length (fdtab s)\<close>
      by (auto simp: fd_raise_def updt_fd_def split: if_splits)
    then show ?thesis using flag_change_ok(2) [OF that(2) _ that(4,1)] assms(3) that by (auto simp: kept_def)
  qed
  obtain t where t: "(if fd_ev (fdtab s ! fd) AND (FD_POLL_IN OR FD_POLL_HUP OR FD_POLL_ERR) \<noteq> 0 then fd_may_recv fd s else Some s) = Some t"
      "ok t" "length (fdtab t) = length (fdtab s)" "owned (fdtab t ! fd)"
    using may [of FD_EV_READY_R s] assms(2,4) unfolding fd_may_recv_def by auto
  obtain u where u: "(if fd_ev (fdtab t ! fd) AND (FD_POLL_OUT OR FD_POLL_ERR) \<noteq> 0 then fd_may_send fd t else Some t) = Some u"
      "ok u" "length (fdtab u) = length (fdtab s)" "owned (fdtab u ! fd)"
    using may [of FD_EV_READY_W t] t unfolding fd_may_send_def by auto
  obtain v where v: "run_ops p (h fd (fdtab u)) u = Some v" "ok v" "kept u v"
    using handle_ok [OF u(2) _ assms(1)] u(3,4) assms(3) by auto
  obtain w where "fresh_loop p h (fd_nbupdt u) (fd_nbupdt v) v = Some w" "ok w" "length (fdtab w) = length (fdtab v)"
    using fresh_loop_ok [OF assms(1) v(2) order_refl] by blast
  then show ?thesis using t(1) u v assms(3)
    by (auto simp: fd_process_polled_events_def Let_def kept_def simp del: fresh_loop.simps)
qed

lemma polled_events_ok:
  assumes "sane_handler p good watched h"
  shows "ok s \<Longrightarrow> \<forall>(fd, n) \<in> set evs. fd < length (fdtab s) \<Longrightarrow>
    \<exists>s'. polled_events p h evs s = Some s' \<and> ok s' \<and> length (fdtab s') = length (fdtab s)"
proof (induction evs arbitrary: s)
  case (Cons x evs)
  obtain fd n where x: "x = (fd, n)" by (cases x)
  have fd: "fd < length (fdtab s)" using Cons.prems(2) x by auto
  show ?case
  proof (cases "owned (fdtab s ! fd)")
    case False
    then show ?thesis using Cons x fd by simp
  next
    case True
    let ?s = "on_fd fd (\<lambda>e. e\<lparr>fd_ev := (fd_ev e AND FD_POLL_STICKY) OR n\<rparr>) s"
    obtain t where t: "fd_process_polled_events p h fd ?s = Some t" "ok t" "length (fdtab t) = length (fdtab s)"
      using process_polled_ok [OF assms event_ok(1) [OF Cons.prems(1) fd, of "\<lambda>e. (fd_ev e AND FD_POLL_STICKY) OR n"], of fd] fd True by auto
    then show ?thesis using Cons.IH [OF t(2)] Cons.prems(2) x fd True by auto
  qed
qed simp

lemma cached_event_ok:
  assumes "sane_handler p good watched h" "ok s" "k < fd_cache_num s"
  shows "\<exists>s'. cached_event p h (fd_cache s ! k) s = Some s' \<and> ok s' \<and> kept s s'"
proof -
  let ?fd = "fd_cache s ! k"
  have fd: "?fd < length (fdtab s)" "cache_pos (fdtab s ! ?fd) \<noteq> 0" using fds_okD(1) [OF assms(2)] assms(3) by (simp_all add: cache_ok_def)
  then have own: "owned (fdtab s ! ?fd)" using fds_okD(4) [OF assms(2) fd(1)] by (auto simp: entry_ok_def)
  let ?s = "on_fd ?fd (\<lambda>e. e\<lparr>fd_ev := poll_ready (fd_state e) (fd_ev e)\<rparr>) s"
  note e = event_ok(1,2) [OF assms(2) fd(1), of "\<lambda>e. poll_ready (fd_state e) (fd_ev e)"]
  obtain t where t: "run_ops p (h ?fd (fdtab ?s)) ?s = Some t" "ok t" "kept ?s t"
    using handle_ok [OF e(1) _ assms(1), of ?fd] fd(1) own by auto
  have "\<exists>u. updt_fd ?fd ?s = Some u \<and> ok u \<and> kept ?s u"
  proof -
    have "on_fd ?fd (\<lambda>e. e) ?s = ?s" by (simp add: on_fd_def)
    then show ?thesis
      using touch_ok [where g = "\<lambda>e. e" and fd = ?fd, OF e(1)] fd(1) own fds_okD(6) [OF assms(2) fd(1)] fresh_calm [OF e(1), of ?fd]
      by (simp add: same_place_def)
  qed
  then show ?thesis using t kept_trans [OF e(2)] fd(1) by (auto simp: cached_event_def Let_def)
qed

lemma cached_loop_ok:
  assumes "sane_handler p good watched h"
  shows "ok s \<Longrightarrow> fd_cache_num s \<le> entry + n \<Longrightarrow>
    \<exists>s'. cached_loop n p h entry s = Some s' \<and> ok s' \<and> length (fdtab s') = length (fdtab s)"
proof (induction n arbitrary: entry s)
  case (Suc n)
  show ?case
  proof (cases "entry < fd_cache_num s")
    case True
    let ?fd = "fd_cache s ! entry"
    have bound: "entry < length (fd_cache s)" using fds_okD(1) [OF Suc.prems(1)] True by (simp add: cache_ok_def)
    obtain t where t: "cached_event p h ?fd s = Some t" "ok t" "kept s t" using cached_event_ok [OF assms Suc.prems(1) True] by blast
    let ?e = "if entry < fd_cache_num t \<and> fd_cache t ! entry \<noteq> ?fd then entry else entry + 1"
    have "fd_cache_num t \<le> ?e + n" using t(3) Suc.prems(2) True by (auto simp: kept_def le_less)
    then show ?thesis using Suc.IH [OF t(2), of ?e] t True bound by (auto simp: kept_def Let_def simp del: if_split)
  next
    case False
    then show ?thesis using Suc.prems(1) by simp
  qed
qed auto

text \<open>The scan of one update.\<close>

lemma scan_fd_ok:
  assumes t: "table_ok good watched U s" and fd: "fd \<in> U"
  shows "\<exists>s'. scan_fd p fd s = Some s' \<and> table_ok good watched (U - {fd}) s' \<and> length (fdtab s') = length (fdtab s)
    \<and> fd_updt s' = fd_updt s \<and> fd_nbupdt s' = fd_nbupdt s \<and> maxfd s' = maxfd s
    \<and> (\<forall>i < length (fdtab s). owned (fdtab s' ! i) = owned (fdtab s ! i)
         \<and> (\<forall>k. k \<noteq> 2 \<longrightarrow> k \<noteq> 6 \<longrightarrow> bit (fd_state (fdtab s' ! i)) k = bit (fd_state (fdtab s ! i)) k))"
proof -
  have len: "fd < length (fdtab s)" and U: "U \<subseteq> {..<length (fdtab s)}" and c: "cache_ok s" and g: "good (length (fdtab s)) (kern s)"
    and m: "maxfd s \<le> length (fdtab s)"
    using t fd by (auto simp: table_ok_def)
  have e: "entry_ok (fdtab s ! i)" "updated (fdtab s ! i) = (i \<in> U)" "owned (fdtab s ! i) \<Longrightarrow> i < maxfd s"
    "watched (kern s) i = fd_state (fdtab s ! i) AND FD_EV_POLLED_RW" if "i < length (fdtab s)" for i
    using t that by (simp_all add: table_ok_def)
  let ?h = "\<lambda>e. e\<lparr>updated := False, fresh := False\<rparr>"
  let ?s = "on_fd fd ?h s"
  have c1: "cache_ok ?s" using c cache_ok_on_fd [of ?h s fd] by simp
  show ?thesis
  proof (cases "owned (fdtab s ! fd)")
    case False
    have "table_ok good watched (U - {fd}) ?s"
      using c1 g m U e e(1) [OF len] False by (auto simp: table_ok_def entry_ok_def)
    then show ?thesis using False len by (auto simp: scan_fd_def Let_def)
  next
    case True
    let ?eo = "fd_state (fdtab s ! fd)" and ?en = "fd_compute_new_polled_status (fd_state (fdtab s ! fd))"
    let ?ch = "(?eo XOR ?en) AND FD_EV_POLLED_RW \<noteq> 0"
    define k where "k = (if ?ch then p_set p fd ?eo ?en (kern s) else kern s)"
    let ?u = "(on_fd fd (\<lambda>e. e\<lparr>updated := False, fresh := False, fd_state := ?en\<rparr>) s)\<lparr>kern := k\<rparr>"
    have same: "\<not> ?ch \<Longrightarrow> ?en = ?eo" using compute_unchanged by blast
    have k: "good (length (fdtab s)) k" "i < length (fdtab s) \<Longrightarrow> watched k i = (if i = fd then ?en AND FD_EV_POLLED_RW else watched (kern s) i)" for i
      using set_good [OF g len e(4) [OF len], of ?en] set_watched [OF g len e(4) [OF len], of ?en i] g e(4) [OF len] same polled_change [of ?eo ?en]
      by (auto simp: k_def)
    have upd: "(if ?ch then (on_fd fd (\<lambda>e. e\<lparr>fd_state := ?en\<rparr>) ?s)\<lparr>kern := p_set p fd ?eo ?en (kern ?s)\<rparr> else ?s) = ?u"
    proof (cases ?ch)
      case True
      then show ?thesis by (simp add: k_def on_fd_on_fd comp_def)
    next
      case False
      then show ?thesis using same [OF False]
        by (simp add: k_def) (rule fds.equality; cases "fdtab s ! fd"; simp add: on_fd_def)
    qed
    have c2: "cache_ok ?u" using c cache_ok_on_fd [of "\<lambda>e. e\<lparr>updated := False, fresh := False, fd_state := ?en\<rparr>" s fd] by (simp add: cache_ok_def)
    have len2: "fd < length (fdtab ?u)" using len by simp
    have "\<exists>v. fd_alloc_or_release_cache_entry fd ?en ?u = Some v \<and> cache_ok v \<and> but_cache v = but_cache ?u
      \<and> (\<forall>i < length (fdtab s). cache_pos (fdtab v ! i) = 0 \<longleftrightarrow> (if i = fd then \<not> needs_cache ?en else cache_pos (fdtab s ! i) = 0))"
    proof (cases "needs_cache ?en")
      case True
      obtain v where "fd_alloc_cache_entry fd ?u = Some v" "cache_ok v" "but_cache v = but_cache ?u"
          "\<forall>i < length (fdtab ?u). cache_pos (fdtab v ! i) = 0 \<longleftrightarrow> i \<noteq> fd \<and> cache_pos (fdtab ?u ! i) = 0"
        using alloc_ok [OF c2 len2] by blast
      then show ?thesis using True by (intro exI [of _ v]) (simp add: fd_alloc_or_release_cache_entry_def)
    next
      case False
      obtain v where "fd_release_cache_entry fd ?u = Some v" "cache_ok v" "but_cache v = but_cache ?u"
          "\<forall>i < length (fdtab ?u). cache_pos (fdtab v ! i) = 0 \<longleftrightarrow> i = fd \<or> cache_pos (fdtab ?u ! i) = 0"
        using release_ok [OF c2 len2] by blast
      then show ?thesis using False by (intro exI [of _ v]) (simp add: fd_alloc_or_release_cache_entry_def)
    qed
    then obtain v where v: "fd_alloc_or_release_cache_entry fd ?en ?u = Some v" "cache_ok v" "but_cache v = but_cache ?u"
        "\<forall>i < length (fdtab s). cache_pos (fdtab v ! i) = 0 \<longleftrightarrow> (if i = fd then \<not> needs_cache ?en else cache_pos (fdtab s ! i) = 0)"
      by blast
    have lv: "length (fdtab v) = length (fdtab s)" using but_cache_length [OF v(3)] by simp
    have more: "fd_updt v = fd_updt s" "fd_nbupdt v = fd_nbupdt s" "maxfd v = maxfd s" "kern v = k" using v(3) by (simp_all add: but_cache_def)
    note f = but_cache_fields [OF v(3)]
    have ent: "entry_ok (fdtab v ! i) \<and> updated (fdtab v ! i) = (i \<in> U - {fd}) \<and> (owned (fdtab v ! i) \<longrightarrow> i < maxfd v)
        \<and> watched (kern v) i = fd_state (fdtab v ! i) AND FD_EV_POLLED_RW" if i: "i < length (fdtab s)" for i
    proof (cases "i = fd")
      case True
      then show ?thesis using f [of fd] len v(4) e(3) [OF len] \<open>owned (fdtab s ! fd)\<close> k(2) [OF len] more compute_idem
        by (simp add: entry_ok_def)
    next
      case False
      have "entry_ok (fdtab v ! i)"
        using entry_ok_cong [of "fdtab v ! i" "fdtab s ! i"] e(1) [OF i] f [of i] v(4) i False by simp
      then show ?thesis using f [of i] e(2-4) [OF i] k(2) [OF i] more i False by simp
    qed
    have "table_ok good watched (U - {fd}) v"
      using v(2) k(1) m U ent lv more unfolding table_ok_def by auto
    moreover have "scan_fd p fd s = Some v"
      using v(1) len True upd unfolding scan_fd_def by (simp add: Let_def)
    moreover have "k \<noteq> 2 \<Longrightarrow> k \<noteq> 6 \<Longrightarrow> bit ?en k = bit ?eo k" for k by (simp add: compute_bits)
    ultimately show ?thesis using lv more f by auto
  qed
qed

lemma scan_list_ok:
  "table_ok good watched (set l) s \<Longrightarrow> distinct l \<Longrightarrow>
    \<exists>s'. scan_list p l s = Some s' \<and> table_ok good watched {} s' \<and> length (fdtab s') = length (fdtab s) \<and> fd_updt s' = fd_updt s
      \<and> maxfd s' = maxfd s \<and> (\<forall>i < length (fdtab s). owned (fdtab s' ! i) = owned (fdtab s ! i)
         \<and> (\<forall>k. k \<noteq> 2 \<longrightarrow> k \<noteq> 6 \<longrightarrow> bit (fd_state (fdtab s' ! i)) k = bit (fd_state (fdtab s ! i)) k))"
proof (induction l arbitrary: s)
  case (Cons fd l)
  obtain t where t: "scan_fd p fd s = Some t" "table_ok good watched (set (fd # l) - {fd}) t" "length (fdtab t) = length (fdtab s)"
      "fd_updt t = fd_updt s" "maxfd t = maxfd s" "\<forall>i < length (fdtab s). owned (fdtab t ! i) = owned (fdtab s ! i)
         \<and> (\<forall>k. k \<noteq> 2 \<longrightarrow> k \<noteq> 6 \<longrightarrow> bit (fd_state (fdtab t ! i)) k = bit (fd_state (fdtab s ! i)) k)"
    using scan_fd_ok [OF Cons.prems(1), of fd] by auto
  have "set (fd # l) - {fd} = set l" using Cons.prems(2) by auto
  then obtain u where "scan_list p l t = Some u" "table_ok good watched {} u" "length (fdtab u) = length (fdtab t)"
      "fd_updt u = fd_updt t" "maxfd u = maxfd t" "\<forall>i < length (fdtab t). owned (fdtab u ! i) = owned (fdtab t ! i)
         \<and> (\<forall>k. k \<noteq> 2 \<longrightarrow> k \<noteq> 6 \<longrightarrow> bit (fd_state (fdtab u ! i)) k = bit (fd_state (fdtab t ! i)) k)"
    using Cons.IH [of t] t(2) Cons.prems(2) by auto
  then show ?case using t by auto
qed simp

text \<open>After the scan nothing is pending, and the flags that the handlers set are those from before.\<close>

lemma scan_ok:
  assumes "ok s"
  shows "\<exists>s'. scan_updates p s = Some s' \<and> ok s' \<and> pending s' = [] \<and> length (fdtab s') = length (fdtab s) \<and> maxfd s' = maxfd s
      \<and> (\<forall>i < length (fdtab s). owned (fdtab s' ! i) = owned (fdtab s ! i)
         \<and> (\<forall>k. k \<noteq> 2 \<longrightarrow> k \<noteq> 6 \<longrightarrow> bit (fd_state (fdtab s' ! i)) k = bit (fd_state (fdtab s ! i)) k))"
proof -
  have u: "updates_ok s" by (rule fds_okD(3) [OF assms])
  have "table_ok good watched (set (pending s)) s" using assms by (simp add: fds_ok_def)
  from scan_list_ok [OF this] u obtain t where t: "scan_list p (pending s) s = Some t" "table_ok good watched {} t"
      "length (fdtab t) = length (fdtab s)" "fd_updt t = fd_updt s" "maxfd t = maxfd s" "\<forall>i < length (fdtab s). owned (fdtab t ! i) = owned (fdtab s ! i)
         \<and> (\<forall>k. k \<noteq> 2 \<longrightarrow> k \<noteq> 6 \<longrightarrow> bit (fd_state (fdtab t ! i)) k = bit (fd_state (fdtab s ! i)) k)"
    unfolding updates_ok_def by blast
  let ?u = "t\<lparr>fd_nbupdt := 0\<rparr>"
  have p: "pending ?u = []" by (simp add: pending_def)
  have "ok ?u" using t(2-4) u unfolding fds_ok_def p by (simp add: table_ok_def cache_ok_def updates_ok_def p)
  then show ?thesis using t p by (auto simp: scan_updates_def pending_def)
qed

text \<open>A round of the poller.\<close>

lemma round_ok:
  assumes "sane_handler p good watched h" "ok s" "\<forall>(fd, n) \<in> set evs. fd < length (fdtab s)"
  shows "\<exists>s'. fd_round p h evs s = Some s' \<and> ok s' \<and> length (fdtab s') = length (fdtab s)"
proof -
  obtain t where t: "scan_updates p s = Some t" "ok t" "length (fdtab t) = length (fdtab s)" using scan_ok [OF assms(2)] by blast
  have "\<forall>(fd, n) \<in> set evs. fd < length (fdtab t)" using assms(3) t(3) by simp
  from polled_events_ok [OF assms(1) t(2) this] obtain u where u: "polled_events p h evs t = Some u" "ok u" "length (fdtab u) = length (fdtab t)"
    by blast
  from cached_loop_ok [OF assms(1) u(2), of 0 "fd_cache_num u"] show ?thesis
    using t u by (auto simp: fd_round_def fd_process_cached_events_def)
qed

text \<open>With nothing pending, an active direction is in the cache when it is ready and watched when it is not.\<close>

lemma settled_directions:
  assumes "ok s" "pending s = []" "fd < length (fdtab s)" "owned (fdtab s ! fd)"
  shows "bit (fd_state (fdtab s ! fd)) 0 \<Longrightarrow> \<not> bit (fd_state (fdtab s ! fd)) 1 \<Longrightarrow> bit (watched (kern s) fd) 2"
    "bit (fd_state (fdtab s ! fd)) 4 \<Longrightarrow> \<not> bit (fd_state (fdtab s ! fd)) 5 \<Longrightarrow> bit (watched (kern s) fd) 6"
    "bit (watched (kern s) fd) 2 \<Longrightarrow> bit (fd_state (fdtab s ! fd)) 0" "bit (watched (kern s) fd) 6 \<Longrightarrow> bit (fd_state (fdtab s ! fd)) 4"
    "cache_pos (fdtab s ! fd) \<noteq> 0 \<longleftrightarrow> needs_cache (fd_state (fdtab s ! fd))"
proof -
  have e: "entry_ok (fdtab s ! fd)" "\<not> updated (fdtab s ! fd)" using fds_okD(4,5) [OF assms(1,3)] assms(2) by simp_all
  have w: "bit (watched (kern s) fd) 2 = bit (fd_state (fdtab s ! fd)) 2" "bit (watched (kern s) fd) 6 = bit (fd_state (fdtab s ! fd)) 6"
    unfolding fds_okD(7) [OF assms(1,3)] by (simp_all add: bit_and_iff flag_masks del: bit_numeral_word_iff)
  have "fd_compute_new_polled_status (fd_state (fdtab s ! fd)) = fd_state (fdtab s ! fd)" using e assms(4) by (simp add: entry_ok_def)
  then show "bit (fd_state (fdtab s ! fd)) 0 \<Longrightarrow> \<not> bit (fd_state (fdtab s ! fd)) 1 \<Longrightarrow> bit (watched (kern s) fd) 2"
    "bit (fd_state (fdtab s ! fd)) 4 \<Longrightarrow> \<not> bit (fd_state (fdtab s ! fd)) 5 \<Longrightarrow> bit (watched (kern s) fd) 6"
    "bit (watched (kern s) fd) 2 \<Longrightarrow> bit (fd_state (fdtab s ! fd)) 0" "bit (watched (kern s) fd) 6 \<Longrightarrow> bit (fd_state (fdtab s ! fd)) 4"
    unfolding compute_fixed w by blast+
  show "cache_pos (fdtab s ! fd) \<noteq> 0 \<longleftrightarrow> needs_cache (fd_state (fdtab s ! fd))" using e assms(4) by (simp add: entry_ok_def)
qed

end

end
