(* ===== verification/HA_Fd_Run.thy ===== *)
theory HA_Fd_Run
  imports HA_Fd_Proofs
begin

section \<open>The pollers over \<open>poll\<close> and \<open>epoll\<close>, and the loop that uses them\<close>

text \<open>
  The arrays of bits given to \<open>poll\<close> and the events registered with \<open>epoll\<close> follow the polling flags of
  the descriptors.  A table is reached from the one that \<open>init_pollers\<close> allocates by operations on
  descriptors and rounds of the poller.
\<close>

subsection \<open>The arrays of bits\<close>

definition poll_good :: "nat \<Rightarrow> poll_bits \<Rightarrow> bool" where
  "poll_good n k \<longleftrightarrow> n \<le> 32 * length (rd_evts k) \<and> n \<le> 32 * length (wr_evts k)"

definition poll_watched :: "poll_bits \<Rightarrow> nat \<Rightarrow> byte" where
  "poll_watched k fd = (if hap_fd_isset fd (rd_evts k) then FD_EV_POLLED_R else 0)
     OR (if hap_fd_isset fd (wr_evts k) then FD_EV_POLLED_W else 0)"

lemma bit_one: "bit (2 ^ m :: u32) j \<longleftrightarrow> j = m \<and> m < 32"
  by (auto simp: bit_exp_iff)

lemma isset_bit: "hap_fd_isset fd evts \<longleftrightarrow> bit (evts ! (fd div 32)) (fd mod 32)"
proof -
  have "x AND push_bit m 1 \<noteq> 0 \<longleftrightarrow> bit x m" if "m < 32" for x :: u32 and m
    using that bit_eq_iff [of "x AND push_bit m 1" 0] by (auto simp: bit_and_iff bit_one)
  then show ?thesis by (simp add: hap_fd_isset_def)
qed

lemma same_bit: "i div 32 = fd div 32 \<Longrightarrow> (i mod 32 = fd mod 32) = (i = (fd :: nat))"
  by (metis div_mult_mod_eq)

lemma isset_set:
  assumes "fd < 32 * length evts"
  shows "hap_fd_isset i (hap_fd_set fd evts) \<longleftrightarrow> i = fd \<or> hap_fd_isset i evts"
proof -
  have "fd div 32 < length evts" using assms by (simp add: div_less_iff_less_mult mult.commute)
  then show ?thesis
    using same_bit [of i fd] by (cases "i div 32 = fd div 32") (auto simp: isset_bit hap_fd_set_def bit_or_iff bit_one)
qed

lemma isset_clr:
  assumes "fd < 32 * length evts"
  shows "hap_fd_isset i (hap_fd_clr fd evts) \<longleftrightarrow> i \<noteq> fd \<and> hap_fd_isset i evts"
proof -
  have "fd div 32 < length evts" using assms by (simp add: div_less_iff_less_mult mult.commute)
  then show ?thesis
    using same_bit [of i fd]
    by (cases "i div 32 = fd div 32") (auto simp: isset_bit hap_fd_clr_def bit_and_iff bit_not_iff bit_one dest: bit_imp_le_length)
qed

lemma evts_length [simp]: "length (hap_fd_set fd evts) = length evts" "length (hap_fd_clr fd evts) = length evts"
  "length (poll_dir m fd eo en evts) = length evts"
  by (simp_all add: hap_fd_set_def hap_fd_clr_def poll_dir_def)

lemma watched_bits:
  "bit (poll_watched k fd) 2 \<longleftrightarrow> hap_fd_isset fd (rd_evts k)" "bit (poll_watched k fd) 6 \<longleftrightarrow> hap_fd_isset fd (wr_evts k)"
  by (simp_all add: poll_watched_def bit_or_iff flag_masks del: bit_numeral_word_iff)

lemma watched_eq: "poll_watched k fd = st AND FD_EV_POLLED_RW \<longleftrightarrow>
    hap_fd_isset fd (rd_evts k) = bit st 2 \<and> hap_fd_isset fd (wr_evts k) = bit st 6"
proof -
  have "poll_watched k fd = poll_watched k fd AND FD_EV_POLLED_RW" by (simp add: poll_watched_def)
  then show ?thesis using polled_eq [of "poll_watched k fd" st] watched_bits [of k fd] by simp
qed

lemma watched_same: "poll_watched k fd = poll_watched k' fd \<longleftrightarrow>
    hap_fd_isset fd (rd_evts k) = hap_fd_isset fd (rd_evts k') \<and> hap_fd_isset fd (wr_evts k) = hap_fd_isset fd (wr_evts k')"
proof
  assume "poll_watched k fd = poll_watched k' fd"
  then show "hap_fd_isset fd (rd_evts k) = hap_fd_isset fd (rd_evts k') \<and> hap_fd_isset fd (wr_evts k) = hap_fd_isset fd (wr_evts k')"
    unfolding watched_bits [symmetric] by simp
qed (simp add: poll_watched_def)

interpretation poll: fd_poller poll_poller poll_good poll_watched
proof
  fix n k fd eo en i e
  assume g: "poll_good n k" and fd: "fd < n"
  show "poll_good n (p_clo poll_poller e fd k)" using g by (simp add: poll_good_def poll_poller_def)
  show "poll_watched (p_clo poll_poller e fd k) i = (if i = fd then 0 else poll_watched k i)"
    using g fd by (simp add: poll_watched_def poll_poller_def poll_good_def isset_clr)
  show "poll_good n (p_set poll_poller fd eo en k)" using g by (simp add: poll_good_def poll_poller_def)
  assume w: "poll_watched k fd = eo AND FD_EV_POLLED_RW"
  have dir: "hap_fd_isset i (poll_dir m fd eo en evts) = (if i = fd then bit en j else hap_fd_isset i evts)"
    if "fd < 32 * length evts" "\<And>x. x AND m \<noteq> 0 \<longleftrightarrow> bit (x :: byte) j" "hap_fd_isset fd evts = bit eo j" for evts m j
    using that(3) by (auto simp: poll_dir_def that(2) and_not_bits isset_set [OF that(1)] isset_clr [OF that(1)])
  have l: "fd < 32 * length (rd_evts k)" "fd < 32 * length (wr_evts k)" and
    o: "hap_fd_isset fd (rd_evts k) = bit eo 2" "hap_fd_isset fd (wr_evts k) = bit eo 6"
    using g fd w unfolding watched_eq by (simp_all add: poll_good_def)
  have rd: "hap_fd_isset i (poll_dir FD_EV_POLLED_R fd eo en (rd_evts k)) = (if i = fd then bit en 2 else hap_fd_isset i (rd_evts k))"
    by (rule dir [OF l(1) _ o(1)]) (simp add: byte_flags)
  have wr: "hap_fd_isset i (poll_dir FD_EV_POLLED_W fd eo en (wr_evts k)) = (if i = fd then bit en 6 else hap_fd_isset i (wr_evts k))"
    by (rule dir [OF l(2) _ o(2)]) (simp add: byte_flags)
  show "poll_watched (p_set poll_poller fd eo en k) i = (if i = fd then en AND FD_EV_POLLED_RW else poll_watched k i)"
  proof (cases "i = fd")
    case True
    then show ?thesis using rd wr by (simp add: poll_poller_def watched_eq)
  next
    case False
    then show ?thesis using rd wr by (simp add: poll_poller_def watched_same)
  qed
qed

subsection \<open>The table given to \<open>poll\<close>\<close>

lemma concat_if: "concat (map (\<lambda>c. if P c then [g c] else []) xs) = map g (filter P xs)"
  by (induction xs) auto

lemma upt_blocks: "concat (map (\<lambda>f. [f * 32..<f * 32 + 32]) [0..<c]) = [0..<c * (32 :: nat)]"
proof (induction c)
  case (Suc c)
  then show ?case using upt_add_eq_append [of 0 "c * 32" 32] by (simp add: add.commute)
qed simp

lemma poll_word_filter:
  "poll_word m f (rd_evts k ! f) (wr_evts k ! f) =
    map (\<lambda>fd. (fd, hap_fd_isset fd (rd_evts k), hap_fd_isset fd (wr_evts k)))
      (filter (\<lambda>fd. fd < m \<and> poll_watched k fd \<noteq> 0) [f * 32..<f * 32 + 32])"
proof -
  have w: "poll_watched k fd \<noteq> 0 \<longleftrightarrow> hap_fd_isset fd (rd_evts k) \<or> hap_fd_isset fd (wr_evts k)" for fd
    by (auto simp: poll_watched_def)
  have block: "[f * 32..<f * 32 + 32] = map (\<lambda>c. f * 32 + c) [0..<32]"
    using map_add_upt [of "f * 32" 32] by (simp add: add.commute)
  have i: "hap_fd_isset (f * 32 + c) evts = bit (evts ! f) c" if "c < 32" for c evts
    using that by (simp add: isset_bit)
  have "filter (\<lambda>fd. fd < m \<and> poll_watched k fd \<noteq> 0) (map (\<lambda>c. f * 32 + c) [0..<32]) =
      map (\<lambda>c. f * 32 + c) (filter (\<lambda>c. f * 32 + c < m \<and> (bit (rd_evts k ! f) c \<or> bit (wr_evts k ! f) c)) [0..<32])"
    unfolding filter_map comp_def w by (intro arg_cong [where f = "map _"] filter_cong) (auto simp: i)
  then have m: "map (\<lambda>fd. (fd, hap_fd_isset fd (rd_evts k), hap_fd_isset fd (wr_evts k)))
      (filter (\<lambda>fd. fd < m \<and> poll_watched k fd \<noteq> 0) [f * 32..<f * 32 + 32]) =
      map (\<lambda>c. (f * 32 + c, bit (rd_evts k ! f) c, bit (wr_evts k ! f) c))
        (filter (\<lambda>c. f * 32 + c < m \<and> (bit (rd_evts k ! f) c \<or> bit (wr_evts k ! f) c)) [0..<32])"
    unfolding block by (auto simp: i)
  show ?thesis
  proof (cases "rd_evts k ! f OR wr_evts k ! f = 0")
    case True
    then have "\<not> bit (rd_evts k ! f) c \<and> \<not> bit (wr_evts k ! f) c" for c by (metis bit_or_iff bit_0_eq bot_apply bot_bool_def)
    then show ?thesis using True m by (simp add: poll_word_def)
  next
    case False
    have "poll_word m f (rd_evts k ! f) (wr_evts k ! f) = concat (map (\<lambda>c. if f * 32 + c < m \<and> (bit (rd_evts k ! f) c \<or> bit (wr_evts k ! f) c)
        then [(f * 32 + c, bit (rd_evts k ! f) c, bit (wr_evts k ! f) c)] else []) [0..<32])"
      using False by (simp add: poll_word_def) (auto intro!: arg_cong [where f = concat])
    then show ?thesis using m by (simp only: concat_if)
  qed
qed

lemma poll_table_filter:
  "poll_table m k = map (\<lambda>fd. (fd, hap_fd_isset fd (rd_evts k), hap_fd_isset fd (wr_evts k)))
     (filter (\<lambda>fd. poll_watched k fd \<noteq> 0) [0..<m])"
proof -
  let ?c = "(m + 31) div 32"
  have "filter (\<lambda>fd. fd < m \<and> poll_watched k fd \<noteq> 0) [0..<?c * 32] = filter (\<lambda>fd. poll_watched k fd \<noteq> 0) [0..<m]"
  proof -
    have "m \<le> ?c * 32" by linarith
    then have "[0..<?c * 32] = [0..<m] @ [m..<?c * 32]" using upt_add_eq_append [of 0 m "?c * 32 - m"] by simp
    moreover have "filter (\<lambda>fd. fd < m \<and> poll_watched k fd \<noteq> 0) [m..<?c * 32] = []" by (auto simp: filter_empty_conv)
    moreover have "filter (\<lambda>fd. fd < m \<and> poll_watched k fd \<noteq> 0) [0..<m] = filter (\<lambda>fd. poll_watched k fd \<noteq> 0) [0..<m]"
      by (rule filter_cong) auto
    ultimately show ?thesis by simp
  qed
  then have "concat (map (\<lambda>f. filter (\<lambda>fd. fd < m \<and> poll_watched k fd \<noteq> 0) [f * 32..<f * 32 + 32]) [0..<?c]) =
      filter (\<lambda>fd. poll_watched k fd \<noteq> 0) [0..<m]"
    unfolding upt_blocks [symmetric] by (simp add: filter_concat comp_def)
  moreover have "concat (map (\<lambda>f. map g (F f)) xs) = map g (concat (map F xs))" for g :: "nat \<Rightarrow> nat \<times> bool \<times> bool" and F and xs :: "nat list"
    by (simp add: map_concat comp_def)
  ultimately show ?thesis unfolding poll_table_def poll_word_filter by simp
qed

subsection \<open>The events registered with \<open>epoll\<close>\<close>

text \<open>What the kernel documents of \<open>epoll_ctl\<close> and of the closing of a descriptor: an event is added to a
  descriptor that has none, changed or removed where there is one, and removed when the descriptor
  is closed; removing what is not there changes nothing.\<close>

definition epoll_good :: "('k \<Rightarrow> nat \<Rightarrow> u32 option) \<Rightarrow> nat \<Rightarrow> 'k \<Rightarrow> bool" where
  "epoll_good seen n k \<longleftrightarrow> (\<forall>fd < n. seen k fd \<in> {None, Some 0x2001, Some 4, Some 0x2005})"

definition epoll_watched :: "('k \<Rightarrow> nat \<Rightarrow> u32 option) \<Rightarrow> 'k \<Rightarrow> nat \<Rightarrow> byte" where
  "epoll_watched seen k fd = (case seen k fd of None \<Rightarrow> 0
     | Some e \<Rightarrow> (if e AND 1 \<noteq> 0 then FD_EV_POLLED_R else 0) OR (if e AND 4 \<noteq> 0 then FD_EV_POLLED_W else 0))"

locale epoll_kernel =
  fixes ctl :: "epoll_op \<Rightarrow> nat \<Rightarrow> u32 \<Rightarrow> 'k \<Rightarrow> 'k" and gone :: "nat \<Rightarrow> 'k \<Rightarrow> 'k" and seen :: "'k \<Rightarrow> nat \<Rightarrow> u32 option"
  assumes added: "seen k fd = None \<Longrightarrow> seen (ctl EPOLL_CTL_ADD fd e k) = (seen k)(fd := Some e)"
    and modified: "seen k fd \<noteq> None \<Longrightarrow> seen (ctl EPOLL_CTL_MOD fd e k) = (seen k)(fd := Some e)"
    and removed: "seen (ctl EPOLL_CTL_DEL fd e k) = (seen k)(fd := None)"
    and closed: "seen (gone fd k) = (seen k)(fd := None)"
begin

lemma seen_none: "epoll_good seen n k \<Longrightarrow> fd < n \<Longrightarrow> seen k fd = None \<longleftrightarrow> epoll_watched seen k fd = 0"
  by (auto simp: epoll_good_def epoll_watched_def)

lemma set_seen:
  assumes "epoll_good seen n k" "fd < n" "epoll_watched seen k fd = eo AND FD_EV_POLLED_RW"
    "eo AND FD_EV_POLLED_RW \<noteq> en AND FD_EV_POLLED_RW"
  shows "seen (ctl (epoll_opcode eo en) fd (epoll_events en) k) =
    (seen k)(fd := if en AND FD_EV_POLLED_RW = 0 then None else Some (epoll_events en))"
  using assms seen_none [OF assms(1,2)] by (simp add: epoll_opcode_def added modified removed)

lemma events_shape:
  "en AND FD_EV_POLLED_RW \<noteq> 0 \<Longrightarrow> epoll_events en \<in> {0x2001, 4, 0x2005}"
  "(if epoll_events en AND 1 \<noteq> 0 then FD_EV_POLLED_R else 0) OR (if epoll_events en AND 4 \<noteq> 0 then FD_EV_POLLED_W else 0) = en AND FD_EV_POLLED_RW"
proof -
  have r: "en AND FD_EV_POLLED_R \<noteq> 0 \<longleftrightarrow> bit en 2" "en AND FD_EV_POLLED_W \<noteq> 0 \<longleftrightarrow> bit en 6" by (simp_all add: byte_flags)
  show "en AND FD_EV_POLLED_RW \<noteq> 0 \<Longrightarrow> epoll_events en \<in> {0x2001, 4, 0x2005}"
    unfolding polled_zero by (auto simp: epoll_events_def r)
  have "en AND FD_EV_POLLED_RW = (if bit en 2 then FD_EV_POLLED_R else 0) OR (if bit en 6 then FD_EV_POLLED_W else 0)"
    using polled_eq [of en "(if bit en 2 then FD_EV_POLLED_R else 0) OR (if bit en 6 then FD_EV_POLLED_W else 0)"]
    by (auto simp: bit_or_iff flag_masks simp del: bit_numeral_word_iff)
  then show "(if epoll_events en AND 1 \<noteq> 0 then FD_EV_POLLED_R else 0) OR (if epoll_events en AND 4 \<noteq> 0 then FD_EV_POLLED_W else 0) = en AND FD_EV_POLLED_RW"
    unfolding epoll_events_def r by simp
qed

end

sublocale epoll_kernel \<subseteq> fd_poller "epoll_poller ctl gone" "epoll_good seen" "epoll_watched seen"
proof
  fix n k fd eo en i e
  assume g: "epoll_good seen n k" and fd: "fd < n"
  have c: "seen (p_clo (epoll_poller ctl gone) e fd k) = (seen k)(fd := None)"
    by (simp add: epoll_poller_def removed closed)
  show "epoll_good seen n (p_clo (epoll_poller ctl gone) e fd k)" using g by (simp add: epoll_good_def c)
  show "epoll_watched seen (p_clo (epoll_poller ctl gone) e fd k) i = (if i = fd then 0 else epoll_watched seen k i)"
    by (simp add: epoll_watched_def c)
  assume w: "epoll_watched seen k fd = eo AND FD_EV_POLLED_RW" "eo AND FD_EV_POLLED_RW \<noteq> en AND FD_EV_POLLED_RW"
  have t: "seen (p_set (epoll_poller ctl gone) fd eo en k) =
      (seen k)(fd := if en AND FD_EV_POLLED_RW = 0 then None else Some (epoll_events en))"
    using set_seen [OF g fd w] by (simp add: epoll_poller_def)
  show "epoll_good seen n (p_set (epoll_poller ctl gone) fd eo en k)"
    using g events_shape(1) [of en] by (simp add: epoll_good_def t)
  show "epoll_watched seen (p_set (epoll_poller ctl gone) fd eo en k) i = (if i = fd then en AND FD_EV_POLLED_RW else epoll_watched seen k i)"
    using events_shape(2) [of en] by (simp add: epoll_watched_def t)
qed

text \<open>A kernel that is a map from descriptors to events.\<close>

definition map_ctl :: "epoll_op \<Rightarrow> nat \<Rightarrow> u32 \<Rightarrow> (nat \<Rightarrow> u32 option) \<Rightarrow> nat \<Rightarrow> u32 option" where
  "map_ctl x fd e k = (case x of EPOLL_CTL_ADD \<Rightarrow> if k fd = None then k(fd := Some e) else k
     | EPOLL_CTL_MOD \<Rightarrow> if k fd = None then k else k(fd := Some e) | EPOLL_CTL_DEL \<Rightarrow> k(fd := None))"

interpretation map_kernel: epoll_kernel map_ctl "\<lambda>fd k. k(fd := None)" "\<lambda>k. k"
  by unfold_locales (auto simp: map_ctl_def)

subsection \<open>What is reached\<close>

context fd_poller
begin

lemma init_ok:
  assumes "good n k" "\<And>i. i < n \<Longrightarrow> watched k i = 0"
  shows "ok (init_pollers n k)"
  using assms
  by (simp add: fds_ok_def table_ok_def updates_ok_def cache_ok_def pending_def entry_ok_def init_pollers_def closed_fd_def)
     (auto simp: in_set_replicate split: if_splits)

lemma inputs_ok:
  "ok s \<Longrightarrow> sane_handler p good watched h \<Longrightarrow> valid_inputs p h xs s \<Longrightarrow>
    \<exists>s'. run_inputs p h xs s = Some s' \<and> ok s' \<and> length (fdtab s') = length (fdtab s)"
proof (induction xs arbitrary: s)
  case (Cons x xs)
  show ?case
  proof (cases x)
    case (Op a)
    have "legal_op a s" using Cons.prems(3) Op by (simp add: legal_op_def)
    then obtain t where t: "run_op p a s = Some t" "ok t" "kept s t" using run_op_ok [OF Cons.prems(1)] by blast
    then show ?thesis using Cons.IH [OF t(2) Cons.prems(2)] Cons.prems(3) Op by (auto simp: kept_def)
  next
    case (Round evs)
    then obtain t where t: "fd_round p h evs s = Some t" "ok t" "length (fdtab t) = length (fdtab s)"
      using round_ok [OF Cons.prems(2,1)] Cons.prems(3) by auto
    then show ?thesis using Cons.IH [OF t(2) Cons.prems(2)] Cons.prems(3) Round by auto
  qed
qed simp

text \<open>A table and its cache, updates and descriptors.\<close>

lemma ok_parts:
  assumes "ok s"
  shows "k < fd_cache_num s \<Longrightarrow> fd_cache s ! k < length (fdtab s) \<and> cache_pos (fdtab s ! (fd_cache s ! k)) = k + 1"
    "fd < length (fdtab s) \<Longrightarrow> cache_pos (fdtab s ! fd) = 0 \<or> fd_cache s ! (cache_pos (fdtab s ! fd) - 1) = fd \<and> cache_pos (fdtab s ! fd) \<le> fd_cache_num s"
    "distinct (take (fd_nbupdt s) (fd_updt s))"
    "fd < length (fdtab s) \<Longrightarrow> updated (fdtab s ! fd) = (fd \<in> set (take (fd_nbupdt s) (fd_updt s)))"
    "fd < length (fdtab s) \<Longrightarrow> \<not> owned (fdtab s ! fd) \<Longrightarrow> cache_pos (fdtab s ! fd) = 0 \<and> watched (kern s) fd = 0"
    "fd < length (fdtab s) \<Longrightarrow> owned (fdtab s ! fd) \<Longrightarrow> fd < maxfd s"
proof -
  show "k < fd_cache_num s \<Longrightarrow> fd_cache s ! k < length (fdtab s) \<and> cache_pos (fdtab s ! (fd_cache s ! k)) = k + 1"
    "fd < length (fdtab s) \<Longrightarrow> cache_pos (fdtab s ! fd) = 0 \<or> fd_cache s ! (cache_pos (fdtab s ! fd) - 1) = fd \<and> cache_pos (fdtab s ! fd) \<le> fd_cache_num s"
    using fds_okD(1) [OF assms] by (auto simp: cache_ok_def)
  show "distinct (take (fd_nbupdt s) (fd_updt s))" using fds_okD(3) [OF assms] by (simp add: updates_ok_def pending_def)
  show "fd < length (fdtab s) \<Longrightarrow> updated (fdtab s ! fd) = (fd \<in> set (take (fd_nbupdt s) (fd_updt s)))"
    using fds_okD(5) [OF assms] by (simp add: pending_def)
  show "fd < length (fdtab s) \<Longrightarrow> \<not> owned (fdtab s ! fd) \<Longrightarrow> cache_pos (fdtab s ! fd) = 0 \<and> watched (kern s) fd = 0"
    using fds_okD(4,7) [OF assms] by (simp add: entry_ok_def)
  show "fd < length (fdtab s) \<Longrightarrow> owned (fdtab s ! fd) \<Longrightarrow> fd < maxfd s" by (rule fds_okD(6) [OF assms])
qed

text \<open>What the scan leaves.\<close>

lemma scan_settles:
  assumes "ok s"
  shows "\<exists>s'. scan_updates p s = Some s' \<and> ok s' \<and> length (fdtab s') = length (fdtab s)
    \<and> (\<forall>fd < length (fdtab s). owned (fdtab s' ! fd) = owned (fdtab s ! fd) \<and> (owned (fdtab s ! fd) \<longrightarrow>
        (let st = fd_state (fdtab s ! fd); w = watched (kern s') fd; c = cache_pos (fdtab s' ! fd) \<noteq> 0
         in (bit st 0 \<and> bit st 1 \<longrightarrow> c) \<and> (bit st 4 \<and> bit st 5 \<longrightarrow> c)
          \<and> (bit st 0 \<and> \<not> bit st 1 \<longrightarrow> bit w 2) \<and> (bit st 4 \<and> \<not> bit st 5 \<longrightarrow> bit w 6)
          \<and> (bit w 2 \<longrightarrow> bit st 0) \<and> (bit w 6 \<longrightarrow> bit st 4)
          \<and> (c \<longrightarrow> bit st 0 \<and> bit st 1 \<or> bit st 4 \<and> bit st 5))))"
proof -
  obtain s' where s: "scan_updates p s = Some s'" "ok s'" "pending s' = []" "length (fdtab s') = length (fdtab s)"
    "\<And>i. i < length (fdtab s) \<Longrightarrow> owned (fdtab s' ! i) = owned (fdtab s ! i)"
    "\<And>i k. i < length (fdtab s) \<Longrightarrow> k \<noteq> 2 \<Longrightarrow> k \<noteq> 6 \<Longrightarrow> bit (fd_state (fdtab s' ! i)) k = bit (fd_state (fdtab s ! i)) k"
    using scan_ok [OF assms] by blast
  have "(let st = fd_state (fdtab s ! fd); w = watched (kern s') fd; c = cache_pos (fdtab s' ! fd) \<noteq> 0
         in (bit st 0 \<and> bit st 1 \<longrightarrow> c) \<and> (bit st 4 \<and> bit st 5 \<longrightarrow> c)
          \<and> (bit st 0 \<and> \<not> bit st 1 \<longrightarrow> bit w 2) \<and> (bit st 4 \<and> \<not> bit st 5 \<longrightarrow> bit w 6)
          \<and> (bit w 2 \<longrightarrow> bit st 0) \<and> (bit w 6 \<longrightarrow> bit st 4)
          \<and> (c \<longrightarrow> bit st 0 \<and> bit st 1 \<or> bit st 4 \<and> bit st 5))" if fd: "fd < length (fdtab s)" "owned (fdtab s ! fd)" for fd
    using settled_directions [OF s(2,3), of fd] s(4) s(5) [OF fd(1)] s(6) [OF fd(1)] fd
    unfolding needs_cache_bits Let_def by simp
  then show ?thesis using s by blast
qed

end

subsection \<open>Two pollers\<close>

text \<open>Tables that differ by what their pollers keep only.\<close>

definition same_table :: "'k fds \<Rightarrow> 'j fds \<Rightarrow> bool" where
  "same_table s t \<longleftrightarrow> fdtab s = fdtab t \<and> fd_cache s = fd_cache t \<and> fd_cache_num s = fd_cache_num t
     \<and> fd_updt s = fd_updt t \<and> fd_nbupdt s = fd_nbupdt t \<and> maxfd s = maxfd t"

abbreviation alike :: "'k fds option \<Rightarrow> 'j fds option \<Rightarrow> bool" where
  "alike \<equiv> rel_option same_table"

lemma alike_bind: "alike a b \<Longrightarrow> (\<And>s t. same_table s t \<Longrightarrow> alike (f s) (g t)) \<Longrightarrow> alike (Option.bind a f) (Option.bind b g)"
  by (cases a; cases b) auto

lemma sameD: "same_table s t \<Longrightarrow> fdtab t = fdtab s" "same_table s t \<Longrightarrow> fd_cache t = fd_cache s" "same_table s t \<Longrightarrow> fd_cache_num t = fd_cache_num s"
  "same_table s t \<Longrightarrow> fd_updt t = fd_updt s" "same_table s t \<Longrightarrow> fd_nbupdt t = fd_nbupdt s" "same_table s t \<Longrightarrow> maxfd t = maxfd s"
  by (simp_all add: same_table_def)

lemma same_on_fd: "same_table s t \<Longrightarrow> same_table (on_fd fd g s) (on_fd fd g t)"
  by (simp add: same_table_def on_fd_def)

lemma same_flag:
  assumes "same_table s t"
  shows "alike (updt_fd fd s) (updt_fd fd t)" "alike (fd_alloc_cache_entry fd s) (fd_alloc_cache_entry fd t)"
    "alike (fd_release_cache_entry fd s) (fd_release_cache_entry fd t)" "alike (fd_insert fd s) (fd_insert fd t)"
  using assms
  by (simp_all add: same_table_def updt_fd_def fd_alloc_cache_entry_def fd_release_cache_entry_def fd_insert_def on_fd_def Let_def)

lemma same_change:
  assumes "same_table s t"
  shows "alike (fd_clear m fd s) (fd_clear m fd t)" "alike (fd_raise m fd s) (fd_raise m fd t)"
proof -
  have "alike (updt_fd fd (on_fd fd g s)) (updt_fd fd (on_fd fd g t))" for g by (rule same_flag(1) [OF same_on_fd [OF assms]])
  then show "alike (fd_clear m fd s) (fd_clear m fd t)" "alike (fd_raise m fd s) (fd_raise m fd t)"
    using assms by (simp_all add: fd_clear_def fd_raise_def) (simp_all add: same_table_def)
qed

lemma same_delete: "same_table s t \<Longrightarrow> alike (fd_delete p fd s) (fd_delete q fd t)"
proof -
  assume a: "same_table s t"
  have "alike (fd_release_cache_entry fd (s\<lparr>kern := j\<rparr>)) (fd_release_cache_entry fd (t\<lparr>kern := k\<rparr>))" for j k
    using a by (intro same_flag) (simp add: same_table_def)
  then show ?thesis using a unfolding fd_delete_def
    by (auto simp: Let_def same_table_def on_fd_def intro!: alike_bind)
qed

lemma same_run_op: "same_table s t \<Longrightarrow> alike (run_op p x s) (run_op q x t)"
proof -
  assume a: "same_table s t"
  then have f: "fdtab s = fdtab t" by (simp add: same_table_def)
  have conn: "alike (fd_open_conn fd s) (fd_open_conn fd t)" for fd
    unfolding fd_open_conn_def fd_may_recv_def fd_may_send_def
    using a by (auto intro!: alike_bind same_flag(4) same_change same_on_fd)
  have lis: "alike (fd_open_listener fd s) (fd_open_listener fd t)" for fd
    using same_flag(4) [OF same_on_fd [OF a]] f by (simp add: fd_open_listener_def)
  show ?thesis
    using conn lis same_delete [OF a] same_change [OF a] same_on_fd [OF a] a f
    by (cases x) (simp_all add: fd_stop_recv_def fd_stop_send_def fd_stop_both_def fd_cant_recv_def fd_cant_send_def
        fd_may_recv_def fd_may_send_def fd_want_recv_def fd_want_send_def fd_done_recv_def)
qed

lemma same_run_ops: "same_table s t \<Longrightarrow> alike (run_ops p xs s) (run_ops q xs t)"
  by (induction xs arbitrary: s t) (auto intro!: alike_bind same_run_op)

definition fresh_call :: "'k poller \<Rightarrow> fd_handler \<Rightarrow> nat \<Rightarrow> 'k fds \<Rightarrow> 'k fds option" where
  "fresh_call p h fd s = (if callable (fdtab s ! fd) then run_ops p (h fd (fdtab s)) s else Some s)"

definition fresh_drop :: "nat \<Rightarrow> nat \<Rightarrow> 'k fds \<Rightarrow> 'k fds" where
  "fresh_drop n fd s = (if Suc n = fd_nbupdt s \<and> fd_state (fdtab s ! fd) AND FD_EV_ACTIVE_RW = 0
     then (on_fd fd (\<lambda>e. e\<lparr>updated := False\<rparr>) s)\<lparr>fd_nbupdt := n\<rparr> else s)"

lemma fresh_loop_steps: "fresh_loop p h old (Suc n) s =
  (if Suc n \<le> old then Some s
   else if n \<ge> length (fd_updt s) \<or> fd_updt s ! n \<ge> length (fdtab s) then None
   else if \<not> fresh (fdtab s ! (fd_updt s ! n)) then fresh_loop p h old n s
   else Option.bind (fresh_call p h (fd_updt s ! n) (on_fd (fd_updt s ! n) (\<lambda>e. e\<lparr>fresh := False, fd_ev := fresh_ready (fd_state e) (fd_ev e)\<rparr>) s))
     (\<lambda>t. fresh_loop p h old n (fresh_drop n (fd_updt s ! n) t)))"
  unfolding fresh_loop.simps Let_def fresh_call_def fresh_drop_def by (rule refl)

lemma same_fresh_call: "same_table s t \<Longrightarrow> alike (fresh_call p h fd s) (fresh_call q h fd t)"
  using same_run_ops [of s t] by (simp add: fresh_call_def sameD [of s t])

lemma same_fresh_drop: "same_table s t \<Longrightarrow> same_table (fresh_drop n fd s) (fresh_drop n fd t)"
  by (simp add: fresh_drop_def same_table_def on_fd_def)

lemma same_fresh_loop: "same_table s t \<Longrightarrow> alike (fresh_loop p h old n s) (fresh_loop q h old n t)"
proof (induction n arbitrary: s t)
  case (Suc n)
  note a = Suc.prems
  have b: "alike (Option.bind (fresh_call p h fd (on_fd fd g s)) (\<lambda>t. fresh_loop p h old n (fresh_drop n fd t)))
      (Option.bind (fresh_call q h fd (on_fd fd g t)) (\<lambda>t. fresh_loop q h old n (fresh_drop n fd t)))" for fd g
    by (intro alike_bind same_fresh_call same_on_fd a Suc.IH same_fresh_drop)
  show ?case unfolding fresh_loop_steps sameD(1,4) [OF a] using Suc.IH [OF a] a b by simp
qed simp

definition may_if :: "byte \<Rightarrow> (fd_entry list \<Rightarrow> bool) \<Rightarrow> nat \<Rightarrow> 'k fds \<Rightarrow> 'k fds option" where
  "may_if m b fd s = (if b (fdtab s) then fd_raise m fd s else Some s)"

definition handled :: "'k poller \<Rightarrow> fd_handler \<Rightarrow> nat \<Rightarrow> 'k fds \<Rightarrow> 'k fds option" where
  "handled p h fd s = (if cache_pos (fdtab s ! fd) \<noteq> 0 \<or> \<not> has_iocb (fdtab s ! fd) \<or> fd_ev (fdtab s ! fd) = 0 then Some s
     else Option.bind (run_ops p (h fd (fdtab s)) s) (\<lambda>s'. fresh_loop p h (fd_nbupdt s) (fd_nbupdt s') s'))"

lemma process_polled_steps: "fd_process_polled_events p h fd s = (if fd \<ge> length (fdtab s) then None
    else Option.bind (may_if FD_EV_READY_R (\<lambda>l. fd_ev (l ! fd) AND (FD_POLL_IN OR FD_POLL_HUP OR FD_POLL_ERR) \<noteq> 0) fd s)
      (\<lambda>s. Option.bind (may_if FD_EV_READY_W (\<lambda>l. fd_ev (l ! fd) AND (FD_POLL_OUT OR FD_POLL_ERR) \<noteq> 0) fd s) (handled p h fd)))"
  unfolding fd_process_polled_events_def fd_may_recv_def fd_may_send_def Let_def may_if_def handled_def by (rule refl)

lemma same_may_if: "same_table s t \<Longrightarrow> alike (may_if m b fd s) (may_if m b fd t)"
  using same_change(2) [of s t m fd] by (simp add: may_if_def sameD [of s t])

lemma same_handled: "same_table s t \<Longrightarrow> alike (handled p h fd s) (handled q h fd t)"
proof -
  assume a: "same_table s t"
  have "alike (fresh_loop p h (fd_nbupdt s) (fd_nbupdt u) u) (fresh_loop q h (fd_nbupdt s) (fd_nbupdt v) v)"
    if "same_table u v" for u :: "'a fds" and v :: "'b fds"
    using same_fresh_loop [OF that] by (simp add: sameD [OF that])
  from alike_bind [OF same_run_ops [OF a] this] show ?thesis using a by (simp add: handled_def sameD [OF a])
qed

lemma same_process_polled: "same_table s t \<Longrightarrow> alike (fd_process_polled_events p h fd s) (fd_process_polled_events q h fd t)"
proof -
  assume a: "same_table s t"
  show ?thesis unfolding process_polled_steps sameD(1) [OF a]
    by (cases "length (fdtab s) \<le> fd") (simp_all only: if_True if_False option.rel_inject, intro alike_bind same_may_if a same_handled)
qed

lemma same_polled_events: "same_table s t \<Longrightarrow> alike (polled_events p h evs s) (polled_events q h evs t)"
proof (induction evs arbitrary: s t)
  case (Cons x evs)
  obtain fd n where x: "x = (fd, n)" by (cases x)
  have f: "fdtab t = fdtab s" using Cons.prems by (simp add: same_table_def)
  show ?case
    using Cons.IH [OF Cons.prems] f alike_bind [OF same_process_polled [OF same_on_fd [OF Cons.prems]] Cons.IH]
    by (simp add: x)
qed simp

lemma same_cached_loop: "same_table s t \<Longrightarrow> alike (cached_loop n p h entry s) (cached_loop n q h entry t)"
proof (induction n arbitrary: entry s t)
  case (Suc n)
  have e: "alike (cached_event p h fd s) (cached_event q h fd t)" for fd
    using same_run_ops [OF same_on_fd [OF Suc.prems]] same_flag(1) [OF same_on_fd [OF Suc.prems]]
    by (simp add: cached_event_def Let_def sameD [OF Suc.prems] sameD(1) [OF same_on_fd [OF Suc.prems]])
  have "alike (cached_loop n p h (if entry < fd_cache_num s \<and> fd_cache s ! entry \<noteq> fd then entry else entry + 1) s)
      (cached_loop n q h (if entry < fd_cache_num t \<and> fd_cache t ! entry \<noteq> fd then entry else entry + 1) t)"
    if "same_table s t" for s :: "'a fds" and t :: "'b fds" and fd
    using Suc.IH [OF that] by (simp add: sameD [OF that])
  from alike_bind [OF e this] show ?case using Suc.prems by (simp add: sameD [OF Suc.prems] Let_def)
next
  case 0
  then show ?case by (simp add: same_table_def)
qed

lemma same_scan_fd: "same_table s t \<Longrightarrow> alike (scan_fd p fd s) (scan_fd q fd t)"
proof -
  assume a: "same_table s t"
  let ?g = "\<lambda>e. e\<lparr>updated := False, fresh := False\<rparr>"
  have b: "same_table (on_fd fd ?g s) (on_fd fd ?g t)" by (rule same_on_fd [OF a])
  have k: "same_table ((on_fd fd g s)\<lparr>kern := j\<rparr>) ((on_fd fd g t)\<lparr>kern := k\<rparr>)" if "same_table s t" for g j k and s :: "'a fds" and t :: "'b fds"
    using that by (simp add: same_table_def on_fd_def)
  have "alike (fd_alloc_or_release_cache_entry fd en s) (fd_alloc_or_release_cache_entry fd en t)" if "same_table s t" for en and s :: "'a fds" and t :: "'b fds"
    using same_flag [OF that] by (simp add: fd_alloc_or_release_cache_entry_def)
  from this [OF k [OF b]] this [OF b] show ?thesis using b by (simp add: scan_fd_def Let_def sameD [OF a])
qed

lemma same_scan_list: "same_table s t \<Longrightarrow> alike (scan_list p l s) (scan_list q l t)"
  by (induction l arbitrary: s t) (auto intro!: alike_bind same_scan_fd)

lemma same_round: "same_table s t \<Longrightarrow> alike (fd_round p h evs s) (fd_round q h evs t)"
proof -
  assume a: "same_table s t"
  have "alike (scan_updates p s) (scan_updates q t)"
    using same_scan_list [OF a, of p "take (fd_nbupdt s) (fd_updt s)" q] a
    by (auto simp: scan_updates_def option.rel_map same_table_def elim!: option.rel_mono_strong)
  then show ?thesis unfolding fd_round_def
    by (intro alike_bind) (auto intro: same_polled_events simp: fd_process_cached_events_def, metis same_cached_loop same_table_def)
qed

lemma same_inputs: "same_table s t \<Longrightarrow> alike (run_inputs p h xs s) (run_inputs q h xs t)"
proof (induction xs arbitrary: s t)
  case (Cons x xs)
  then show ?case by (cases x) (auto intro!: alike_bind same_run_op same_round)
qed simp

lemma same_valid: "same_table s t \<Longrightarrow> valid_inputs p h xs s = valid_inputs q h xs t"
proof (induction xs arbitrary: s t)
  case (Cons x xs)
  have c: "(case a of None \<Rightarrow> True | Some s' \<Rightarrow> valid_inputs p h xs s') = (case b of None \<Rightarrow> True | Some s' \<Rightarrow> valid_inputs q h xs s')"
    if "alike a b" for a b using that Cons.IH by (cases a; cases b) auto
  show ?case
  proof (cases x)
    case (Op y)
    then show ?thesis using c [OF same_run_op [OF Cons.prems, of p y q]] by (simp add: sameD(1) [OF Cons.prems])
  next
    case (Round evs)
    then show ?thesis using c [OF same_round [OF Cons.prems, of p h evs q]] by (simp add: sameD(1) [OF Cons.prems])
  qed
qed simp

subsection \<open>A run\<close>

text \<open>A handler that closes a descriptor whose peer has closed, and reads the others to the end.\<close>

definition read_handler :: fd_handler where
  "read_handler fd t = (if fd_ev (t ! fd) AND FD_POLL_HUP \<noteq> 0 then [Delete fd] else [Cant_recv fd])"

lemma read_handler_sane: "sane_handler p good I read_handler"
  by (simp add: sane_handler_def read_handler_def legal_op_def split: option.split)

text \<open>Two connections and a listener are opened; one connection is read, then reported again with its
  peer closed.\<close>

definition demo_inputs :: "fd_input list" where
  "demo_inputs = [Op (Open_listener 0), Op (Want_recv 0), Op (Open_conn 1), Op (Open_conn 2), Op (Want_recv 1), Op (Want_send 2),
     Round [], Round [(0, 1), (1, 0x11)]]"

lemma demo_valid: "valid_inputs poll_poller read_handler demo_inputs (init_pollers 3 (poll_init 3))"
  by code_simp

definition demo_table :: "poll_bits fds" where
  "demo_table = the (run_inputs poll_poller read_handler demo_inputs (init_pollers 3 (poll_init 3)))"

lemma demo_runs:
  "run_inputs poll_poller read_handler demo_inputs (init_pollers 3 (poll_init 3)) = Some demo_table"
  "owned (fdtab demo_table ! 0)" "bit (fd_state (fdtab demo_table ! 0)) 0" "\<not> bit (fd_state (fdtab demo_table ! 0)) 1"
  by code_simp+

subsection \<open>The properties\<close>

lemma poll_init_isset: "i < n \<Longrightarrow> \<not> hap_fd_isset i (replicate ((n + 3) div 4) 0)"
proof -
  assume "i < n"
  then have "i div 32 < (n + 3) div 4" by linarith
  then show ?thesis by (simp add: isset_bit)
qed

lemma poll_start_ok: "poll.ok (init_pollers n (poll_init n))"
proof (rule poll.init_ok)
  have "n \<le> 32 * ((n + 3) div 4)" by linarith
  then show "poll_good n (poll_init n)" by (simp add: poll_good_def poll_init_def)
  show "poll_watched (poll_init n) i = 0" if "i < n" for i
    using poll_init_isset [OF that] by (simp add: poll_watched_def poll_init_def)
qed

lemma poll_inputs:
  assumes "sane_handler poll_poller poll_good poll_watched h" "valid_inputs poll_poller h xs (init_pollers n (poll_init n))"
  shows "\<exists>s. run_inputs poll_poller h xs (init_pollers n (poll_init n)) = Some s \<and> poll.ok s \<and> length (fdtab s) = n"
  using poll.inputs_ok [OF poll_start_ok assms] by (simp add: init_pollers_def)

text \<open>Both pollers from the same table, over a kernel.\<close>

context epoll_kernel
begin

lemma seen_of_watched:
  assumes "epoll_good seen n k" "fd < n" "epoll_watched seen k fd = poll_watched b fd"
  shows "seen k fd = (let rd = hap_fd_isset fd (rd_evts b); wr = hap_fd_isset fd (wr_evts b)
        in if \<not> rd \<and> \<not> wr then None else Some ((if rd then 0x2001 else 0) OR (if wr then 4 else 0)))"
  using assms unfolding epoll_good_def epoll_watched_def poll_watched_def Let_def
  by (elim allE [of _ fd]) (auto split: if_splits)

lemma agree_with_poll:
  assumes "\<forall>fd. seen k0 fd = None" "sane_handler poll_poller poll_good poll_watched h"
    "sane_handler (epoll_poller ctl gone) (epoll_good seen) (epoll_watched seen) h"
    "valid_inputs poll_poller h xs (init_pollers n (poll_init n))"
  shows "\<exists>s t. run_inputs poll_poller h xs (init_pollers n (poll_init n)) = Some s
    \<and> run_inputs (epoll_poller ctl gone) h xs (init_pollers n k0) = Some t \<and> same_table s t
    \<and> (\<forall>fd < n. seen (kern t) fd = (let rd = hap_fd_isset fd (rd_evts (kern s)); wr = hap_fd_isset fd (wr_evts (kern s))
        in if \<not> rd \<and> \<not> wr then None else Some ((if rd then 0x2001 else 0) OR (if wr then 4 else 0))))"
proof -
  have st: "same_table (init_pollers n (poll_init n)) (init_pollers n k0)" by (simp add: same_table_def init_pollers_def)
  obtain s where s: "run_inputs poll_poller h xs (init_pollers n (poll_init n)) = Some s" "poll.ok s" "length (fdtab s) = n"
    using poll_inputs [OF assms(2,4)] by blast
  have "ok (init_pollers n k0)" using assms(1) by (intro init_ok) (simp_all add: epoll_good_def epoll_watched_def)
  then obtain t where t: "run_inputs (epoll_poller ctl gone) h xs (init_pollers n k0) = Some t" "ok t" "length (fdtab t) = n"
    using inputs_ok [of "init_pollers n k0", OF _ assms(3), of xs] assms(4) same_valid [OF st, of poll_poller h xs "epoll_poller ctl gone"]
    by (auto simp: init_pollers_def)
  have same: "same_table s t" using same_inputs [OF st, of poll_poller h xs "epoll_poller ctl gone"] s(1) t(1) by simp
  have "epoll_watched seen (kern t) fd = poll_watched (kern s) fd" if "fd < n" for fd
    using fds_okD(7) [OF s(2), of fd] fds_okD(7) [OF t(2), of fd] that s(3) t(3) same by (simp add: same_table_def)
  then show ?thesis using s(1) t(1) same seen_of_watched [of n "kern t" _ "kern s"] fds_okD(2) [OF t(2)] t(3) by blast
qed

end

text \<open>C25: every sequence of operations on descriptors and of rounds of the poller returns: no access is outside
  the tables, neither the cache nor the list of updates overflows, and the loops over them end whatever the
  handlers change on the way.  After it the entries of the cache and the positions of the descriptors agree,
  each pending update is noted once, closed descriptors are neither cached nor watched, and all open
  descriptors are below \<open>maxfd\<close>.\<close>

theorem fd_tables_consistent:
  assumes "sane_handler poll_poller poll_good poll_watched h" "valid_inputs poll_poller h xs (init_pollers n (poll_init n))"
  shows "\<exists>s. run_inputs poll_poller h xs (init_pollers n (poll_init n)) = Some s \<and> maxfd s \<le> n
    \<and> (\<forall>k < fd_cache_num s. fd_cache s ! k < n \<and> cache_pos (fdtab s ! (fd_cache s ! k)) = k + 1)
    \<and> (\<forall>fd < n. cache_pos (fdtab s ! fd) = 0 \<or> cache_pos (fdtab s ! fd) \<le> fd_cache_num s \<and> fd_cache s ! (cache_pos (fdtab s ! fd) - 1) = fd)
    \<and> distinct (take (fd_nbupdt s) (fd_updt s))
    \<and> (\<forall>fd < n. updated (fdtab s ! fd) = (fd \<in> set (take (fd_nbupdt s) (fd_updt s))))
    \<and> (\<forall>fd < n. \<not> owned (fdtab s ! fd) \<longrightarrow> cache_pos (fdtab s ! fd) = 0 \<and> poll_watched (kern s) fd = 0)
    \<and> (\<forall>fd < n. owned (fdtab s ! fd) \<longrightarrow> fd < maxfd s)"
proof -
  obtain s where s: "run_inputs poll_poller h xs (init_pollers n (poll_init n)) = Some s" "poll.ok s" "length (fdtab s) = n"
    using poll_inputs [OF assms] by blast
  show ?thesis using s(1) poll.ok_parts [OF s(2), unfolded s(3)] fds_okD(8) [OF s(2), unfolded s(3)] by blast
qed

theorem fd_tables_consistent_witness:
  "\<exists>s. run_inputs poll_poller read_handler demo_inputs (init_pollers 3 (poll_init 3)) = Some s \<and> maxfd s \<le> 3
    \<and> distinct (take (fd_nbupdt s) (fd_updt s))
    \<and> (\<forall>k < fd_cache_num s. fd_cache s ! k < 3 \<and> cache_pos (fdtab s ! (fd_cache s ! k)) = k + 1)"
  using fd_tables_consistent [OF read_handler_sane demo_valid] by blast

text \<open>C24: no event is lost and none is waited for in vain: when the poller has scanned the updates, each open
  descriptor with a direction that is active and ready (the bits 0 and 1 of its state to read, 4 and 5 to
  write) is in the cache, and then the poller does not wait; each direction that is active and not ready
  is watched; and no direction that is not active is watched.\<close>

theorem fd_no_lost_events:
  assumes "sane_handler poll_poller poll_good poll_watched h" "valid_inputs poll_poller h xs (init_pollers n (poll_init n))"
    "run_inputs poll_poller h xs (init_pollers n (poll_init n)) = Some s"
  shows "\<exists>s'. scan_updates poll_poller s = Some s' \<and> (\<forall>fd < n. owned (fdtab s ! fd) \<longrightarrow>
      (let st = fd_state (fdtab s ! fd); rd = hap_fd_isset fd (rd_evts (kern s')); wr = hap_fd_isset fd (wr_evts (kern s'))
       in (bit st 0 \<and> bit st 1 \<or> bit st 4 \<and> bit st 5 \<longrightarrow>
            cache_pos (fdtab s' ! fd) \<noteq> 0 \<and> fd_cache s' ! (cache_pos (fdtab s' ! fd) - 1) = fd \<and> poll_wait_time now exp rq sg s' = 0)
        \<and> (bit st 0 \<and> \<not> bit st 1 \<longrightarrow> rd) \<and> (bit st 4 \<and> \<not> bit st 5 \<longrightarrow> wr)
        \<and> (rd \<longrightarrow> bit st 0) \<and> (wr \<longrightarrow> bit st 4)))"
proof -
  have s: "poll.ok s" "length (fdtab s) = n" using poll_inputs [OF assms(1,2)] assms(3) by auto
  from poll.scan_settles [OF s(1)] obtain s' where t: "scan_updates poll_poller s = Some s'" "poll.ok s'" "length (fdtab s') = n"
    and d: "\<forall>fd < n. owned (fdtab s ! fd) \<longrightarrow>
        (let st = fd_state (fdtab s ! fd); w = poll_watched (kern s') fd; c = cache_pos (fdtab s' ! fd) \<noteq> 0
         in (bit st 0 \<and> bit st 1 \<longrightarrow> c) \<and> (bit st 4 \<and> bit st 5 \<longrightarrow> c)
          \<and> (bit st 0 \<and> \<not> bit st 1 \<longrightarrow> bit w 2) \<and> (bit st 4 \<and> \<not> bit st 5 \<longrightarrow> bit w 6)
          \<and> (bit w 2 \<longrightarrow> bit st 0) \<and> (bit w 6 \<longrightarrow> bit st 4)
          \<and> (c \<longrightarrow> bit st 0 \<and> bit st 1 \<or> bit st 4 \<and> bit st 5))"
    unfolding s(2) by blast
  have c: "fd_cache s' ! (cache_pos (fdtab s' ! fd) - 1) = fd \<and> poll_wait_time now exp rq sg s' = 0"
    if "fd < n" "cache_pos (fdtab s' ! fd) \<noteq> 0" for fd
    using poll.ok_parts(2) [OF t(2), of fd] that t(3) by (auto simp: poll_wait_time_def)
  have "let st = fd_state (fdtab s ! fd); rd = hap_fd_isset fd (rd_evts (kern s')); wr = hap_fd_isset fd (wr_evts (kern s'))
       in (bit st 0 \<and> bit st 1 \<or> bit st 4 \<and> bit st 5 \<longrightarrow>
            cache_pos (fdtab s' ! fd) \<noteq> 0 \<and> fd_cache s' ! (cache_pos (fdtab s' ! fd) - 1) = fd \<and> poll_wait_time now exp rq sg s' = 0)
        \<and> (bit st 0 \<and> \<not> bit st 1 \<longrightarrow> rd) \<and> (bit st 4 \<and> \<not> bit st 5 \<longrightarrow> wr)
        \<and> (rd \<longrightarrow> bit st 0) \<and> (wr \<longrightarrow> bit st 4)" if "fd < n" "owned (fdtab s ! fd)" for fd
    using d [rule_format, OF that] c [OF that(1)] unfolding Let_def watched_bits by blast
  then show ?thesis using t(1) by blast
qed

theorem fd_no_lost_events_witness:
  "\<exists>s s'. run_inputs poll_poller read_handler demo_inputs (init_pollers 3 (poll_init 3)) = Some s \<and> scan_updates poll_poller s = Some s'
    \<and> hap_fd_isset 0 (rd_evts (kern s'))"
proof -
  have s: "run_inputs poll_poller read_handler demo_inputs (init_pollers 3 (poll_init 3)) = Some demo_table"
    "owned (fdtab demo_table ! 0)" "bit (fd_state (fdtab demo_table ! 0)) 0" "\<not> bit (fd_state (fdtab demo_table ! 0)) 1"
    by (fact demo_runs)+
  from fd_no_lost_events [OF read_handler_sane demo_valid s(1), of 5 10 0 0] obtain s' where
    "scan_updates poll_poller demo_table = Some s'" "hap_fd_isset 0 (rd_evts (kern s'))"
    using s(2-4) by (auto simp: Let_def)
  then show ?thesis using s(1) by blast
qed

text \<open>The table given to \<open>poll\<close>, read from the arrays of bits word by word up to \<open>maxfd\<close>, lists exactly the
  watched descriptors, in order and once each, with the directions in their states, so that it never
  exceeds the array of \<open>maxsock\<close> entries.\<close>

theorem poll_table_exact:
  assumes "sane_handler poll_poller poll_good poll_watched h" "valid_inputs poll_poller h xs (init_pollers n (poll_init n))"
    "run_inputs poll_poller h xs (init_pollers n (poll_init n)) = Some s"
  shows "poll_table (maxfd s) (kern s) = map (\<lambda>fd. (fd, bit (fd_state (fdtab s ! fd)) 2, bit (fd_state (fdtab s ! fd)) 6))
      (filter (\<lambda>fd. fd_state (fdtab s ! fd) AND FD_EV_POLLED_RW \<noteq> 0) [0..<n])
    \<and> length (poll_table (maxfd s) (kern s)) \<le> n"
proof -
  have s: "poll.ok s" "length (fdtab s) = n" using poll_inputs [OF assms(1,2)] assms(3) by auto
  have m: "maxfd s \<le> n" using fds_okD(8) [OF s(1)] s(2) by simp
  have w: "poll_watched (kern s) fd = fd_state (fdtab s ! fd) AND FD_EV_POLLED_RW" if "fd < n" for fd
    using fds_okD(7) [OF s(1)] that s(2) by simp
  have b: "hap_fd_isset fd (rd_evts (kern s)) = bit (fd_state (fdtab s ! fd)) 2" "hap_fd_isset fd (wr_evts (kern s)) = bit (fd_state (fdtab s ! fd)) 6"
    if "fd < n" for fd using w [OF that] unfolding watched_eq by simp_all
  have above: "fd_state (fdtab s ! fd) AND FD_EV_POLLED_RW = 0" if "fd < n" "maxfd s \<le> fd" for fd
    using w [OF that(1)] poll.ok_parts(5,6) [OF s(1), of fd] that s(2) by fastforce
  have "filter (\<lambda>fd. fd_state (fdtab s ! fd) AND FD_EV_POLLED_RW \<noteq> 0) [0..<n] = filter (\<lambda>fd. poll_watched (kern s) fd \<noteq> 0) [0..<maxfd s]"
  proof -
    have "[0..<n] = [0..<maxfd s] @ [maxfd s..<n]" using m upt_add_eq_append [of 0 "maxfd s" "n - maxfd s"] by simp
    moreover have "filter (\<lambda>fd. fd_state (fdtab s ! fd) AND FD_EV_POLLED_RW \<noteq> 0) [maxfd s..<n] = []"
      using above by (auto simp: filter_empty_conv)
    moreover have "filter (\<lambda>fd. fd_state (fdtab s ! fd) AND FD_EV_POLLED_RW \<noteq> 0) [0..<maxfd s] = filter (\<lambda>fd. poll_watched (kern s) fd \<noteq> 0) [0..<maxfd s]"
      using w m by (intro filter_cong) auto
    ultimately show ?thesis by simp
  qed
  then have "poll_table (maxfd s) (kern s) = map (\<lambda>fd. (fd, bit (fd_state (fdtab s ! fd)) 2, bit (fd_state (fdtab s ! fd)) 6))
      (filter (\<lambda>fd. fd_state (fdtab s ! fd) AND FD_EV_POLLED_RW \<noteq> 0) [0..<n])"
    unfolding poll_table_filter using b m by (auto intro!: map_cong)
  then show ?thesis using length_filter_le [of _ "[0..<n]"] by simp
qed

theorem poll_table_exact_witness:
  "length (poll_table (maxfd demo_table) (kern demo_table)) \<le> 3 \<and> poll_table (maxfd demo_table) (kern demo_table) =
    map (\<lambda>fd. (fd, bit (fd_state (fdtab demo_table ! fd)) 2, bit (fd_state (fdtab demo_table ! fd)) 6))
      (filter (\<lambda>fd. fd_state (fdtab demo_table ! fd) AND FD_EV_POLLED_RW \<noteq> 0) [0..<3])"
  using poll_table_exact [OF read_handler_sane demo_valid demo_runs(1)] by blast

text \<open>C26: the pollers agree: over any kernel whose \<open>epoll_ctl\<close> adds, changes and removes as documented, the same
  inputs leave with \<open>epoll\<close> the same table, cache and updates as with \<open>poll\<close>, and the events registered
  with the kernel are those of the arrays of bits.\<close>

theorem pollers_agree:
  assumes "epoll_kernel ctl gone seen" "\<forall>fd. seen k0 fd = None"
    "sane_handler poll_poller poll_good poll_watched h"
    "sane_handler (epoll_poller ctl gone) (epoll_good seen) (epoll_watched seen) h"
    "valid_inputs poll_poller h xs (init_pollers n (poll_init n))"
  shows "\<exists>s t. run_inputs poll_poller h xs (init_pollers n (poll_init n)) = Some s
    \<and> run_inputs (epoll_poller ctl gone) h xs (init_pollers n k0) = Some t
    \<and> fdtab t = fdtab s \<and> take (fd_cache_num t) (fd_cache t) = take (fd_cache_num s) (fd_cache s)
    \<and> take (fd_nbupdt t) (fd_updt t) = take (fd_nbupdt s) (fd_updt s)
    \<and> (\<forall>fd < n. seen (kern t) fd = (let rd = hap_fd_isset fd (rd_evts (kern s)); wr = hap_fd_isset fd (wr_evts (kern s))
        in if \<not> rd \<and> \<not> wr then None else Some ((if rd then 0x2001 else 0) OR (if wr then 4 else 0))))"
proof -
  obtain s t where st: "run_inputs poll_poller h xs (init_pollers n (poll_init n)) = Some s"
    "run_inputs (epoll_poller ctl gone) h xs (init_pollers n k0) = Some t" "same_table s t"
    "\<forall>fd < n. seen (kern t) fd = (let rd = hap_fd_isset fd (rd_evts (kern s)); wr = hap_fd_isset fd (wr_evts (kern s))
        in if \<not> rd \<and> \<not> wr then None else Some ((if rd then 0x2001 else 0) OR (if wr then 4 else 0)))"
    using epoll_kernel.agree_with_poll [OF assms] by blast
  then show ?thesis by (intro exI [of _ s] exI [of _ t]) (simp add: same_table_def)
qed

theorem pollers_agree_witness:
  "\<exists>t. run_inputs (epoll_poller map_ctl (\<lambda>fd k. k(fd := None))) read_handler demo_inputs (init_pollers 3 (\<lambda>fd. None)) = Some t
    \<and> fdtab t = fdtab demo_table"
proof -
  note agree = pollers_agree [of _ _ "\<lambda>k. k" "\<lambda>fd. None", OF map_kernel.epoll_kernel_axioms _ read_handler_sane read_handler_sane demo_valid]
  show ?thesis using agree demo_runs(1) by auto
qed

end
