(* ===== verification/HA_Conn.thy ===== *)
theory HA_Conn
  imports HA_Fd HA_Numbers
begin

section \<open>Connections (src/connection.c, include/proto/connection.h, src/standard.c)\<close>

text \<open>
  The flags of a connection say which directions its handshake and its data layer want, and which the
  descriptor polls; the functions below bring the second in line with the first.  The PROXY protocol,
  versions 1 and 2, gives the addresses of a forwarded connection before its data: the line is peeked
  at in the socket, parsed in a working area that keeps the bytes of its former uses, and then read.
  Addresses and ports are in host order.  \<open>inet_ntop\<close> and \<open>inet_pton\<close> for IPv6 are parameters.
\<close>

subsection \<open>State\<close>

abbreviation CO_FL_SOCK_RD_ENA :: u32 where "CO_FL_SOCK_RD_ENA \<equiv> 0x01"
abbreviation CO_FL_DATA_RD_ENA :: u32 where "CO_FL_DATA_RD_ENA \<equiv> 0x02"
abbreviation CO_FL_CURR_RD_ENA :: u32 where "CO_FL_CURR_RD_ENA \<equiv> 0x04"
abbreviation CO_FL_SOCK_WR_ENA :: u32 where "CO_FL_SOCK_WR_ENA \<equiv> 0x10"
abbreviation CO_FL_DATA_WR_ENA :: u32 where "CO_FL_DATA_WR_ENA \<equiv> 0x20"
abbreviation CO_FL_CURR_WR_ENA :: u32 where "CO_FL_CURR_WR_ENA \<equiv> 0x40"
abbreviation CO_FL_CTRL_READY :: u32 where "CO_FL_CTRL_READY \<equiv> 0x100"
abbreviation CO_FL_WAIT_DATA :: u32 where "CO_FL_WAIT_DATA \<equiv> 0x400"
abbreviation CO_FL_WAIT_ROOM :: u32 where "CO_FL_WAIT_ROOM \<equiv> 0x800"
abbreviation CO_FL_ADDR_FROM_SET :: u32 where "CO_FL_ADDR_FROM_SET \<equiv> 0x1000"
abbreviation CO_FL_ADDR_TO_SET :: u32 where "CO_FL_ADDR_TO_SET \<equiv> 0x2000"
abbreviation CO_FL_SOCK_RD_SH :: u32 where "CO_FL_SOCK_RD_SH \<equiv> 0x40000"
abbreviation CO_FL_SOCK_WR_SH :: u32 where "CO_FL_SOCK_WR_SH \<equiv> 0x80000"
abbreviation CO_FL_ERROR :: u32 where "CO_FL_ERROR \<equiv> 0x100000"
abbreviation CO_FL_ACCEPT_PROXY :: u32 where "CO_FL_ACCEPT_PROXY \<equiv> 0x04000000"
abbreviation CO_FL_POLL_SOCK :: u32 where "CO_FL_POLL_SOCK \<equiv> 0x07C00000"

datatype sockaddr = Unspec | Inet u32 u16 | Inet6 "byte list" u16

datatype co_err = CO_ER_NONE | CO_ER_PRX_EMPTY | CO_ER_PRX_ABORT | CO_ER_PRX_TRUNCATED | CO_ER_PRX_NOT_HDR
  | CO_ER_PRX_BAD_HDR | CO_ER_PRX_BAD_PROTO

record connection =
  co_flags :: u32
  co_fd :: nat
  err_code :: co_err
  addr_from :: sockaddr
  addr_to :: sockaddr

definition co_set :: "u32 \<Rightarrow> connection \<Rightarrow> connection" where
  "co_set m c = c\<lparr>co_flags := co_flags c OR m\<rparr>"

definition co_clear :: "u32 \<Rightarrow> connection \<Rightarrow> connection" where
  "co_clear m c = c\<lparr>co_flags := co_flags c AND NOT m\<rparr>"

definition conn_ctrl_ready :: "connection \<Rightarrow> bool" where
  "conn_ctrl_ready c \<longleftrightarrow> co_flags c AND CO_FL_CTRL_READY \<noteq> 0"

subsection \<open>Polling\<close>

definition conn_refresh_polling_flags :: "connection \<Rightarrow> 'k fds \<Rightarrow> connection" where
  "conn_refresh_polling_flags c s =
    (let c = co_clear (CO_FL_WAIT_ROOM OR CO_FL_WAIT_DATA) c
     in if conn_ctrl_ready c
        then let c = co_clear (CO_FL_CURR_RD_ENA OR CO_FL_CURR_WR_ENA) c; st = fd_state (fdtab s ! co_fd c);
                 c = (if st AND FD_EV_ACTIVE_R \<noteq> 0 then co_set CO_FL_CURR_RD_ENA c else c)
             in if st AND FD_EV_ACTIVE_W \<noteq> 0 then co_set CO_FL_CURR_WR_ENA c else c
        else c)"

definition conn_data_polling_changes :: "connection \<Rightarrow> u32" where
  "conn_data_polling_changes c =
    (let f = co_flags c AND (CO_FL_DATA_WR_ENA OR CO_FL_DATA_RD_ENA OR CO_FL_CURR_WR_ENA OR CO_FL_CURR_RD_ENA OR CO_FL_ERROR);
         f = (f XOR push_bit 1 f) AND (CO_FL_CURR_WR_ENA OR CO_FL_CURR_RD_ENA)
     in f AND (CO_FL_CURR_WR_ENA OR CO_FL_CURR_RD_ENA OR CO_FL_ERROR))"

definition conn_sock_polling_changes :: "connection \<Rightarrow> u32" where
  "conn_sock_polling_changes c =
    (let f = co_flags c AND (CO_FL_SOCK_WR_ENA OR CO_FL_SOCK_RD_ENA OR CO_FL_CURR_WR_ENA OR CO_FL_CURR_RD_ENA OR CO_FL_ERROR);
         f = (f XOR push_bit 2 f) AND (CO_FL_CURR_WR_ENA OR CO_FL_CURR_RD_ENA)
     in f AND (CO_FL_CURR_WR_ENA OR CO_FL_CURR_RD_ENA OR CO_FL_ERROR))"

text \<open>One direction: \<open>m\<close> is the flag of what is polled, \<open>w\<close> of what is wanted, and \<open>start\<close> and \<open>stop\<close> change the descriptor.\<close>

definition update_dir :: "u32 \<Rightarrow> u32 \<Rightarrow> (nat \<Rightarrow> 'k fds \<Rightarrow> 'k fds option) \<Rightarrow> (nat \<Rightarrow> 'k fds \<Rightarrow> 'k fds option)
    \<Rightarrow> nat \<Rightarrow> u32 \<times> 'k fds \<Rightarrow> (u32 \<times> 'k fds) option" where
  "update_dir m w start stop fd = (\<lambda>(f, s).
     if f AND (m OR w) = w then map_option (\<lambda>s. (f OR m, s)) (start fd s)
     else if f AND (m OR w) = m then map_option (\<lambda>s. (f AND NOT m, s)) (stop fd s)
     else Some (f, s))"

definition conn_update_polling :: "u32 \<Rightarrow> u32 \<Rightarrow> connection \<Rightarrow> 'k fds \<Rightarrow> (connection \<times> 'k fds) option" where
  "conn_update_polling rd wr c s =
    (if \<not> conn_ctrl_ready c then Some (c, s)
     else do {
       (f, s) \<leftarrow> update_dir CO_FL_CURR_RD_ENA rd fd_want_recv fd_stop_recv (co_fd c) (co_flags c, s);
       (f, s) \<leftarrow> update_dir CO_FL_CURR_WR_ENA wr fd_want_send fd_stop_send (co_fd c) (f, s);
       Some (c\<lparr>co_flags := f\<rparr>, s)
     })"

definition conn_update_data_polling :: "connection \<Rightarrow> 'k fds \<Rightarrow> (connection \<times> 'k fds) option" where
  "conn_update_data_polling = conn_update_polling CO_FL_DATA_RD_ENA CO_FL_DATA_WR_ENA"

definition conn_update_sock_polling :: "connection \<Rightarrow> 'k fds \<Rightarrow> (connection \<times> 'k fds) option" where
  "conn_update_sock_polling = conn_update_polling CO_FL_SOCK_RD_ENA CO_FL_SOCK_WR_ENA"

definition conn_stop_polling :: "connection \<Rightarrow> 'k fds \<Rightarrow> (connection \<times> 'k fds) option" where
  "conn_stop_polling c s = map_option (\<lambda>s. (co_clear (CO_FL_CURR_RD_ENA OR CO_FL_CURR_WR_ENA OR CO_FL_SOCK_RD_ENA
     OR CO_FL_SOCK_WR_ENA OR CO_FL_DATA_RD_ENA OR CO_FL_DATA_WR_ENA) c, s)) (fd_stop_both (co_fd c) s)"

definition conn_cond_update_data_polling :: "connection \<Rightarrow> 'k fds \<Rightarrow> (connection \<times> 'k fds) option" where
  "conn_cond_update_data_polling c s =
    (if co_flags c AND CO_FL_POLL_SOCK = 0 \<and> conn_data_polling_changes c \<noteq> 0 then conn_update_data_polling c s else Some (c, s))"

definition conn_cond_update_sock_polling :: "connection \<Rightarrow> 'k fds \<Rightarrow> (connection \<times> 'k fds) option" where
  "conn_cond_update_sock_polling c s =
    (if co_flags c AND CO_FL_POLL_SOCK \<noteq> 0 \<and> conn_sock_polling_changes c \<noteq> 0 then conn_update_sock_polling c s else Some (c, s))"

definition conn_cond_update_polling :: "connection \<Rightarrow> 'k fds \<Rightarrow> (connection \<times> 'k fds) option" where
  "conn_cond_update_polling c s =
    (if co_flags c AND CO_FL_ERROR \<noteq> 0 then conn_stop_polling c s
     else if co_flags c AND CO_FL_POLL_SOCK = 0 \<and> conn_data_polling_changes c \<noteq> 0 then conn_update_data_polling c s
     else if co_flags c AND CO_FL_POLL_SOCK \<noteq> 0 \<and> conn_sock_polling_changes c \<noteq> 0 then conn_update_sock_polling c s
     else Some (c, s))"

text \<open>What the data layer and the handshakes ask for.\<close>

definition conn_data_want_recv :: "connection \<Rightarrow> 'k fds \<Rightarrow> (connection \<times> 'k fds) option" where
  "conn_data_want_recv c = conn_cond_update_data_polling (co_set CO_FL_DATA_RD_ENA c)"
definition conn_data_stop_recv :: "connection \<Rightarrow> 'k fds \<Rightarrow> (connection \<times> 'k fds) option" where
  "conn_data_stop_recv c = conn_cond_update_data_polling (co_clear CO_FL_DATA_RD_ENA c)"
definition conn_data_want_send :: "connection \<Rightarrow> 'k fds \<Rightarrow> (connection \<times> 'k fds) option" where
  "conn_data_want_send c = conn_cond_update_data_polling (co_set CO_FL_DATA_WR_ENA c)"
definition conn_data_stop_send :: "connection \<Rightarrow> 'k fds \<Rightarrow> (connection \<times> 'k fds) option" where
  "conn_data_stop_send c = conn_cond_update_data_polling (co_clear CO_FL_DATA_WR_ENA c)"
definition conn_data_stop_both :: "connection \<Rightarrow> 'k fds \<Rightarrow> (connection \<times> 'k fds) option" where
  "conn_data_stop_both c = conn_cond_update_data_polling (co_clear (CO_FL_DATA_WR_ENA OR CO_FL_DATA_RD_ENA) c)"
definition conn_sock_want_recv :: "connection \<Rightarrow> 'k fds \<Rightarrow> (connection \<times> 'k fds) option" where
  "conn_sock_want_recv c = conn_cond_update_sock_polling (co_set CO_FL_SOCK_RD_ENA c)"
definition conn_sock_stop_recv :: "connection \<Rightarrow> 'k fds \<Rightarrow> (connection \<times> 'k fds) option" where
  "conn_sock_stop_recv c = conn_cond_update_sock_polling (co_clear CO_FL_SOCK_RD_ENA c)"
definition conn_sock_want_send :: "connection \<Rightarrow> 'k fds \<Rightarrow> (connection \<times> 'k fds) option" where
  "conn_sock_want_send c = conn_cond_update_sock_polling (co_set CO_FL_SOCK_WR_ENA c)"
definition conn_sock_stop_send :: "connection \<Rightarrow> 'k fds \<Rightarrow> (connection \<times> 'k fds) option" where
  "conn_sock_stop_send c = conn_cond_update_sock_polling (co_clear CO_FL_SOCK_WR_ENA c)"
definition sock_stop_both :: "connection \<Rightarrow> connection" where
  "sock_stop_both = co_clear (CO_FL_SOCK_WR_ENA OR CO_FL_SOCK_RD_ENA)"
definition conn_sock_stop_both :: "connection \<Rightarrow> 'k fds \<Rightarrow> (connection \<times> 'k fds) option" where
  "conn_sock_stop_both c = conn_cond_update_sock_polling (sock_stop_both c)"

subsection \<open>The text of addresses\<close>

text \<open>\<open>inetaddr_host_lim_ret\<close>: the three digits of each number are kept in the bytes of three words, each
  starting as four ASCII zeros, and weighed at the end; the list is what lies between the text and its end.\<close>

abbreviation ascii_zero :: u32 where "ascii_zero \<equiv> 0x30303030"

definition put_digit :: "nat \<Rightarrow> byte list \<Rightarrow> nat \<Rightarrow> u32 \<Rightarrow> u32" where
  "put_digit n ds i d = (if i < length ds then d OR push_bit (8 * n) (ucast (rev ds ! i)) else d)"

primrec inetaddr_loop :: "nat \<Rightarrow> byte list \<Rightarrow> u32 \<Rightarrow> u32 \<Rightarrow> u32 \<Rightarrow> u32 \<times> byte list" where
  "inetaddr_loop 0 s dig100 dig10 dig1 =
    (let ds = takeWhile is_digit s
     in (((put_digit 0 ds 2 dig100 - ascii_zero) * 10 + (put_digit 0 ds 1 dig10 - ascii_zero)) * 10 + (put_digit 0 ds 0 dig1 - ascii_zero),
         dropWhile is_digit s))"
| "inetaddr_loop (Suc n) s dig100 dig10 dig1 =
    (let ds = takeWhile is_digit s; rest = dropWhile is_digit s;
         dig1 = put_digit (Suc n) ds 0 dig1; dig10 = put_digit (Suc n) ds 1 dig10; dig100 = put_digit (Suc n) ds 2 dig100
     in if rest = [] \<or> hd rest \<noteq> DOT
        then (((dig100 - ascii_zero) * 10 + (dig10 - ascii_zero)) * 10 + (dig1 - ascii_zero), rest)
        else inetaddr_loop n (tl rest) dig100 dig10 dig1)"

definition inetaddr_host_lim_ret :: "byte list \<Rightarrow> u32 \<times> byte list" where
  "inetaddr_host_lim_ret s = inetaddr_loop 3 s ascii_zero ascii_zero ascii_zero"

text \<open>Decimal numbers as \<open>snprintf\<close> writes them, and the text of an IPv4 address from \<open>inet_ntop\<close>.\<close>

fun dec_text :: "nat \<Rightarrow> byte list" where
  "dec_text n = (if n < 10 then [of_nat (48 + n)] else dec_text (n div 10) @ [of_nat (48 + n mod 10)])"

declare dec_text.simps [simp del]

definition octet :: "nat \<Rightarrow> u32 \<Rightarrow> nat" where
  "octet i a = unat (drop_bit (8 * i) a AND 0xFF)"

definition inet_ntop4 :: "u32 \<Rightarrow> byte list" where
  "inet_ntop4 a = dec_text (octet 3 a) @ [DOT] @ dec_text (octet 2 a) @ [DOT] @ dec_text (octet 1 a) @ [DOT] @ dec_text (octet 0 a)"

subsection \<open>The PROXY line\<close>

text \<open>Version 1, in a buffer of \<open>n\<close> bytes; \<open>None\<close> when it does not fit.\<close>

definition v1_ports :: "u16 \<Rightarrow> u16 \<Rightarrow> byte list" where
  "v1_ports sp dp = [SP] @ dec_text (unat sp) @ [SP] @ dec_text (unat dp) @ [CR, LF]"

definition v1_line :: "nat \<Rightarrow> byte list \<Rightarrow> byte list \<Rightarrow> byte list \<Rightarrow> u16 \<Rightarrow> u16 \<Rightarrow> byte list option" where
  "v1_line n head src dst sp dp =
    (if length head \<ge> n then None
     else if length src + 1 > n - length head then None
     else let ret = length head + length src + 1
          in if length dst + 1 > n - ret then None
             else if ret + length dst \<ge> n then None
             else let t = head @ src @ [SP] @ dst @ v1_ports sp dp in if length t \<ge> n then None else Some t)"

definition make_proxy_line_v1 :: "(byte list \<Rightarrow> byte list) \<Rightarrow> nat \<Rightarrow> sockaddr option \<Rightarrow> sockaddr option \<Rightarrow> byte list option" where
  "make_proxy_line_v1 ntop6 n src dst =
    (case (src, dst) of
       (Some (Inet a sp), Some (Inet b dp)) \<Rightarrow> v1_line n (bytes ''PROXY TCP4 '') (inet_ntop4 a) (inet_ntop4 b) sp dp
     | (Some (Inet6 a sp), Some (Inet6 b dp)) \<Rightarrow> v1_line n (bytes ''PROXY TCP6 '') (ntop6 a) (ntop6 b) sp dp
     | _ \<Rightarrow> let t = bytes ''PROXY UNKNOWN'' @ [CR, LF] in if length t \<ge> n then None else Some t)"

text \<open>Version 2: the signature, the command, the family, the length and the addresses in network order.\<close>

definition pp2_signature :: "byte list" where
  "pp2_signature = [0x0D, 0x0A, 0x0D, 0x0A, 0x00, 0x0D, 0x0A, 0x51, 0x55, 0x49, 0x54, 0x0A]"

definition be16 :: "u16 \<Rightarrow> byte list" where
  "be16 x = [ucast (drop_bit 8 x), ucast x]"

definition be32 :: "u32 \<Rightarrow> byte list" where
  "be32 x = [ucast (drop_bit 24 x), ucast (drop_bit 16 x), ucast (drop_bit 8 x), ucast x]"

definition make_proxy_line_v2 :: "nat \<Rightarrow> (sockaddr \<times> sockaddr) option \<Rightarrow> byte list option" where
  "make_proxy_line_v2 n remote =
    (if n < 16 then None
     else case (case remote of None \<Rightarrow> (Unspec, Unspec) | Some r \<Rightarrow> r) of
       (Inet a sp, Inet b dp) \<Rightarrow> if n < 28 then None else Some (pp2_signature @ [0x21, 0x11] @ be16 12 @ be32 a @ be32 b @ be16 sp @ be16 dp)
     | (Inet6 a sp, Inet6 b dp) \<Rightarrow> if n < 52 then None else Some (pp2_signature @ [0x21, 0x21] @ be16 36 @ a @ b @ be16 sp @ be16 dp)
     | _ \<Rightarrow> Some (pp2_signature @ [0x20, 0x00] @ be16 0))"

definition make_proxy_line :: "(byte list \<Rightarrow> byte list) \<Rightarrow> nat \<Rightarrow> bool \<Rightarrow> (sockaddr \<times> sockaddr) option \<Rightarrow> byte list option" where
  "make_proxy_line ntop6 n v2 remote =
    (if v2 then make_proxy_line_v2 n remote
     else case remote of Some (from, to) \<Rightarrow> make_proxy_line_v1 ntop6 n (Some from) (Some to)
       | None \<Rightarrow> make_proxy_line_v1 ntop6 n None None)"

subsection \<open>Reading the PROXY line\<close>

text \<open>What the parser decides: a line that is not complete, errors, or the length of the line with the
  addresses that it sets.\<close>

datatype verdict = Missing | Bad_header | Bad_proto | Not_hdr | Line nat "(sockaddr \<times> sockaddr) option"

definition parse_tcp4 :: "nat \<Rightarrow> byte list \<Rightarrow> verdict" where
  "parse_tcp4 tot line =
    (let (src3, line) = inetaddr_host_lim_ret line
     in if line = [] then Missing else if hd line \<noteq> SP then Bad_header
     else let (dst3, line) = inetaddr_host_lim_ret (tl line)
     in if line = [] then Missing else if hd line \<noteq> SP then Bad_header
     else let (sport, line) = read_uint (tl line)
     in if line = [] then Missing else if hd line \<noteq> SP then Bad_header
     else let (dport, line) = read_uint (tl line)
     in if length line < 2 then Missing else if hd line \<noteq> CR then Bad_header else if hd (tl line) \<noteq> LF then Bad_header
     else Line (tot - length (tl (tl line))) (Some (Inet src3 (ucast sport), Inet dst3 (ucast dport))))"

text \<open>When the end of the protocol name itself is a byte of a former use, the pointer is beyond the end of the line:
  no digit is read, but the dots and the spaces of the former use are.\<close>

definition skip_dots :: "byte list \<Rightarrow> nat \<Rightarrow> nat" where
  "skip_dots a i = i + length (takeWhile (\<lambda>c. c = DOT) (take 3 (drop i a)))"

definition parse_short4 :: "byte list \<Rightarrow> verdict" where
  "parse_short4 a =
    (let i = skip_dots a 11
     in if at a i \<noteq> SP then Bad_header
     else let j = skip_dots a (i + 1) in if at a j \<noteq> SP then Bad_header else if at a (j + 1) \<noteq> SP then Bad_header else Missing)"

text \<open>The scan of a TCP6 line for its end: what precedes it and what follows it.\<close>

datatype line_end = No_end | Bad_end | End "byte list" "byte list"

fun scan_tcp6 :: "byte list \<Rightarrow> byte list \<Rightarrow> line_end" where
  "scan_tcp6 acc (c # d # s) = (if c = CR then if d \<noteq> LF then Bad_end else End acc s else scan_tcp6 (acc @ [c]) (d # s))"
| "scan_tcp6 acc s = No_end"

text \<open>The spaces are replaced with zeros: a field ends at the next space, and its text at its first zero.\<close>

definition field :: "byte list \<Rightarrow> byte list" where "field s = takeWhile (\<lambda>c. c \<noteq> SP) s"
definition after_field :: "byte list \<Rightarrow> byte list option" where
  "after_field s = (case dropWhile (\<lambda>c. c \<noteq> SP) s of [] \<Rightarrow> None | _ # r \<Rightarrow> Some r)"
definition c_text :: "byte list \<Rightarrow> byte list" where "c_text s = takeWhile (\<lambda>c. c \<noteq> 0) s"

definition parse_tcp6 :: "(byte list \<Rightarrow> byte list option) \<Rightarrow> nat \<Rightarrow> byte list \<Rightarrow> verdict" where
  "parse_tcp6 pton6 tot line =
    (case scan_tcp6 [] line of No_end \<Rightarrow> Missing | Bad_end \<Rightarrow> Bad_header
     | End text rest \<Rightarrow>
        case Option.bind (after_field text) (\<lambda>dst. Option.bind (after_field dst) (\<lambda>sport. map_option (\<lambda>dport. (dst, sport, dport)) (after_field sport)))
        of None \<Rightarrow> Bad_header
        | Some (dst_s, sport_s, dport_s) \<Rightarrow>
          let (sport, s) = read_uint (field sport_s); (dport, d) = read_uint (field dport_s)
          in if cur s \<noteq> 0 then Bad_header else if cur d \<noteq> 0 then Bad_header
          else case pton6 (c_text (field text)) of None \<Rightarrow> Bad_header
          | Some src3 \<Rightarrow> case pton6 (c_text (field dst_s)) of None \<Rightarrow> Bad_header
            | Some dst3 \<Rightarrow> Line (tot - length rest) (Some (Inet6 src3 (ucast sport), Inet6 dst3 (ucast dport))))"

text \<open>The bytes of the working area from a position on; the area goes on after the \<open>len\<close> bytes received.\<close>

definition word_at :: "byte list \<Rightarrow> nat \<Rightarrow> u16" where
  "word_at a i = push_bit 8 (ucast (at a i)) OR ucast (at a (i + 1))"

definition long_at :: "byte list \<Rightarrow> nat \<Rightarrow> u32" where
  "long_at a i = push_bit 24 (ucast (at a i)) OR push_bit 16 (ucast (at a (i + 1))) OR push_bit 8 (ucast (at a (i + 2))) OR ucast (at a (i + 3))"

definition parse_v2 :: "byte list \<Rightarrow> nat \<Rightarrow> verdict" where
  "parse_v2 a len =
    (if len < 16 then Missing
     else if take 12 a \<noteq> pp2_signature \<or> at a 12 AND 0xF0 \<noteq> 0x20 then Not_hdr
     else let tot = 16 + unat (word_at a 14)
     in if len < tot then Missing
     else if at a 12 AND 0x0F = 0x01
       then if at a 13 = 0x11 then Line tot (Some (Inet (long_at a 16) (word_at a 24), Inet (long_at a 20) (word_at a 26)))
         else if at a 13 = 0x21 then Line tot (Some (Inet6 (take 16 (drop 16 a)) (word_at a 48), Inet6 (take 16 (drop 32 a)) (word_at a 50)))
         else Line tot None
     else if at a 12 AND 0x0F = 0x00 then Line tot None
     else Bad_header)"

definition parse_proxy :: "(byte list \<Rightarrow> byte list option) \<Rightarrow> byte list \<Rightarrow> nat \<Rightarrow> verdict" where
  "parse_proxy pton6 a len =
    (if len < 6 then Missing
     else if take 6 a \<noteq> bytes ''PROXY '' then parse_v2 a len
     else if len < 9 then Missing
     else if take 5 (drop 6 a) = bytes ''TCP4 '' then if len < 11 then parse_short4 a else parse_tcp4 len (drop 11 (take len a))
     else if take 5 (drop 6 a) = bytes ''TCP6 '' then parse_tcp6 pton6 len (drop 11 (take len a))
     else if take 9 (drop 6 a) = bytes ''UNKNOWN'' @ [CR, LF] then Line 15 None
     else Bad_proto)"

text \<open>The socket: what \<open>recv\<close> gives.  In the loops \<open>do ... while (0)\<close> around it, \<open>continue\<close> leaves the loop with
  the length -1.\<close>

datatype recv_result = Received "byte list" | Interrupted | Would_block | Recv_error

definition conn_fail :: "co_err option \<Rightarrow> connection \<Rightarrow> connection" where
  "conn_fail e c = co_set CO_FL_ERROR (sock_stop_both (case e of None \<Rightarrow> c | Some e \<Rightarrow> c\<lparr>err_code := e\<rparr>))"

definition recv_abort :: "connection \<Rightarrow> connection" where
  "recv_abort c = conn_fail None (co_set (CO_FL_SOCK_RD_SH OR CO_FL_SOCK_WR_SH) (c\<lparr>err_code := CO_ER_PRX_ABORT\<rparr>))"

definition set_addresses :: "(sockaddr \<times> sockaddr) option \<Rightarrow> connection \<Rightarrow> connection" where
  "set_addresses r c = (case r of None \<Rightarrow> c
     | Some (from, to) \<Rightarrow> co_set (CO_FL_ADDR_FROM_SET OR CO_FL_ADDR_TO_SET) (c\<lparr>addr_from := from, addr_to := to\<rparr>))"

definition eat_header :: "u32 \<Rightarrow> nat \<Rightarrow> recv_result \<Rightarrow> connection \<Rightarrow> bool \<times> connection" where
  "eat_header flag len r c =
    (case r of Interrupted \<Rightarrow> (True, co_clear flag c)
     | Received d \<Rightarrow> if length d \<noteq> len then (False, recv_abort c) else (True, co_clear flag c)
     | _ \<Rightarrow> (False, recv_abort c))"

text \<open>\<open>stale\<close> is the working area, \<open>peek\<close> the first \<open>recv\<close> and \<open>eat\<close> the second, for the length asked.  The result
  says whether the handshake is done and whether the descriptor is to be marked as not ready.\<close>

definition conn_recv_proxy :: "(byte list \<Rightarrow> byte list option) \<Rightarrow> u32 \<Rightarrow> bool \<Rightarrow> byte list \<Rightarrow> recv_result \<Rightarrow> (nat \<Rightarrow> recv_result)
    \<Rightarrow> connection \<Rightarrow> bool \<times> bool \<times> connection" where
  "conn_recv_proxy pton6 flag ready stale peek eat c =
    (if co_flags c AND CO_FL_SOCK_RD_SH \<noteq> 0 then (False, False, conn_fail None c)
     else if \<not> conn_ctrl_ready c then (False, False, conn_fail None c)
     else if \<not> ready then (False, False, c)
     else case peek of
       Would_block \<Rightarrow> (False, True, c)
     | Recv_error \<Rightarrow> (False, False, recv_abort c)
     | Interrupted \<Rightarrow> (False, False, conn_fail (Some CO_ER_PRX_TRUNCATED) c)
     | Received d \<Rightarrow>
         if d = [] then (False, False, conn_fail (Some CO_ER_PRX_EMPTY) c)
         else (case parse_proxy pton6 (d @ drop (length d) stale) (length d) of
             Missing \<Rightarrow> (False, False, conn_fail (Some CO_ER_PRX_TRUNCATED) c)
           | Bad_header \<Rightarrow> (False, False, conn_fail (Some CO_ER_PRX_BAD_HDR) c)
           | Bad_proto \<Rightarrow> (False, False, conn_fail (Some CO_ER_PRX_BAD_PROTO) c)
           | Not_hdr \<Rightarrow> (False, False, conn_fail (Some CO_ER_PRX_NOT_HDR) c)
           | Line len r \<Rightarrow> (let (ok, c) = eat_header flag len (eat len) (set_addresses r c) in (ok, False, c))))"

end
