(* ===== verification/HA_Conn_Proofs.thy ===== *)
theory HA_Conn_Proofs
  imports HA_Conn HA_Fd_Run
begin

section \<open>What the polling of a connection follows\<close>

text \<open>
  The descriptor polls exactly what the layer in charge wants: the handshake while one is in progress, the
  data layer otherwise.
\<close>

subsection \<open>Flags\<close>

lemma u32_flags:
  fixes x :: u32
  shows "x AND CO_FL_SOCK_RD_ENA = 0 \<longleftrightarrow> \<not> bit x 0" "x AND CO_FL_DATA_RD_ENA = 0 \<longleftrightarrow> \<not> bit x 1" "x AND CO_FL_CURR_RD_ENA = 0 \<longleftrightarrow> \<not> bit x 2"
    "x AND CO_FL_SOCK_WR_ENA = 0 \<longleftrightarrow> \<not> bit x 4" "x AND CO_FL_DATA_WR_ENA = 0 \<longleftrightarrow> \<not> bit x 5" "x AND CO_FL_CURR_WR_ENA = 0 \<longleftrightarrow> \<not> bit x 6"
    "x AND CO_FL_CTRL_READY = 0 \<longleftrightarrow> \<not> bit x 8" "x AND CO_FL_ERROR = 0 \<longleftrightarrow> \<not> bit x 20"
  using and_exp_eq_0_iff_not_bit [of x 0] and_exp_eq_0_iff_not_bit [of x 1] and_exp_eq_0_iff_not_bit [of x 2] and_exp_eq_0_iff_not_bit [of x 4]
    and_exp_eq_0_iff_not_bit [of x 5] and_exp_eq_0_iff_not_bit [of x 6] and_exp_eq_0_iff_not_bit [of x 8] and_exp_eq_0_iff_not_bit [of x 20]
  by simp_all

lemma and_or_zero: "x AND (a OR b) = 0 \<longleftrightarrow> x AND a = 0 \<and> x AND (b :: u32) = 0"
  by (simp add: bit.conj_disj_distrib or_eq_0_iff)

lemma curr_bits: "x AND 0x44 = 0 \<longleftrightarrow> \<not> bit (x :: u32) 2 \<and> \<not> bit x 6"
  using and_or_zero [of x CO_FL_CURR_RD_ENA CO_FL_CURR_WR_ENA] by (simp add: u32_flags)

lemma xor_shift: "k < 32 \<Longrightarrow> bit (x XOR push_bit j x) k \<longleftrightarrow> bit (x :: u32) k \<noteq> (j \<le> k \<and> bit x (k - j))"
  by (auto simp: bit_xor_iff bit_push_bit_iff)

lemma shifted_changes:
  "((x XOR push_bit j x) AND 0x44) AND 0x100044 \<noteq> 0 \<longleftrightarrow>
    bit (x :: u32) 2 \<noteq> (j \<le> 2 \<and> bit x (2 - j)) \<or> bit x 6 \<noteq> (j \<le> 6 \<and> bit x (6 - j))"
proof -
  have "((x XOR push_bit j x) AND 0x44) AND 0x100044 = (x XOR push_bit j x) AND 0x44" by (simp only: and.assoc) simp
  then show ?thesis by (simp only: curr_bits xor_shift) (simp add: xor_shift)
qed

lemma data_changes: "conn_data_polling_changes c \<noteq> 0 \<longleftrightarrow>
    bit (co_flags c) 2 \<noteq> bit (co_flags c) 1 \<or> bit (co_flags c) 6 \<noteq> bit (co_flags c) 5"
proof -
  define x where "x = co_flags c AND 0x100066"
  have "conn_data_polling_changes c = ((x XOR push_bit 1 x) AND 0x44) AND 0x100044"
    unfolding conn_data_polling_changes_def Let_def x_def by (simp del: push_bit_and)
  moreover have "bit x 1 = bit (co_flags c) 1" "bit x 2 = bit (co_flags c) 2" "bit x 5 = bit (co_flags c) 5" "bit x 6 = bit (co_flags c) 6"
    by (simp_all add: x_def bit_and_iff)
  ultimately show ?thesis using shifted_changes [of x 1] by simp
qed

lemma sock_changes: "conn_sock_polling_changes c \<noteq> 0 \<longleftrightarrow>
    bit (co_flags c) 2 \<noteq> bit (co_flags c) 0 \<or> bit (co_flags c) 6 \<noteq> bit (co_flags c) 4"
proof -
  define x where "x = co_flags c AND 0x100055"
  have "conn_sock_polling_changes c = ((x XOR push_bit 2 x) AND 0x44) AND 0x100044"
    unfolding conn_sock_polling_changes_def Let_def x_def by (simp del: push_bit_and)
  moreover have "bit x 0 = bit (co_flags c) 0" "bit x 2 = bit (co_flags c) 2" "bit x 4 = bit (co_flags c) 4" "bit x 6 = bit (co_flags c) 6"
    by (simp_all add: x_def bit_and_iff)
  ultimately show ?thesis using shifted_changes [of x 2] by simp
qed

subsection \<open>Polling\<close>

lemma u32_and_not: "bit (x AND NOT y) k \<longleftrightarrow> bit x k \<and> \<not> bit (y :: u32) k"
  using bit_imp_le_length [of x k] by (auto simp: bit_and_iff bit_not_iff)

text \<open>Another table in which the other descriptors have the same state.\<close>

definition only_fd :: "nat \<Rightarrow> 'k fds \<Rightarrow> 'k fds \<Rightarrow> bool" where
  "only_fd fd s s' \<longleftrightarrow> length (fdtab s') = length (fdtab s) \<and> (\<forall>i. owned (fdtab s' ! i) = owned (fdtab s ! i))
     \<and> (\<forall>i. i \<noteq> fd \<longrightarrow> fd_state (fdtab s' ! i) = fd_state (fdtab s ! i))"

lemma only_fd_trans: "only_fd fd s t \<Longrightarrow> only_fd fd t u \<Longrightarrow> only_fd fd s u"
  by (simp add: only_fd_def)

lemma flag_effect:
  "fd_clear m fd s = Some s' \<Longrightarrow> only_fd fd s s' \<and> (\<forall>k. bit (fd_state (fdtab s' ! fd)) k \<longleftrightarrow> bit (fd_state (fdtab s ! fd)) k \<and> \<not> bit m k)"
  "fd_raise m fd s = Some s' \<Longrightarrow> only_fd fd s s' \<and> fd_state (fdtab s' ! fd) = (if fd_state (fdtab s ! fd) AND m \<noteq> 0 then fd_state (fdtab s ! fd) else fd_state (fdtab s ! fd) OR m)"
proof -
  have z: "fd_state (fdtab s ! fd) AND m = 0 \<Longrightarrow> bit (fd_state (fdtab s ! fd)) k \<Longrightarrow> \<not> bit m k" for k
    by (metis bit_and_iff bit_0_eq bot_apply bot_bool_def)
  show "fd_clear m fd s = Some s' \<Longrightarrow> only_fd fd s s' \<and> (\<forall>k. bit (fd_state (fdtab s' ! fd)) k \<longleftrightarrow> bit (fd_state (fdtab s ! fd)) k \<and> \<not> bit m k)"
    using z by (auto simp: fd_clear_def updt_fd_def only_fd_def and_not_bits split: if_splits)
  show "fd_raise m fd s = Some s' \<Longrightarrow> only_fd fd s s' \<and> fd_state (fdtab s' ! fd) = (if fd_state (fdtab s ! fd) AND m \<noteq> 0 then fd_state (fdtab s ! fd) else fd_state (fdtab s ! fd) OR m)"
    by (auto simp: fd_raise_def updt_fd_def only_fd_def split: if_splits)
qed

text \<open>One direction: afterwards the descriptor and the flag of what is polled have the value of what is wanted.\<close>

lemma update_dir_ok:
  assumes "fds_ok good I s" "fd < length (fdtab s)" "owned (fdtab s ! fd)"
    and w: "\<And>f. f AND (m OR w) = w \<longleftrightarrow> \<not> bit f k \<and> bit f j" "\<And>f. f AND (m OR w) = m \<longleftrightarrow> bit f k \<and> \<not> bit f j"
    and m: "\<And>i. bit m i \<longleftrightarrow> i = k" and a: "\<And>i. bit am i \<longleftrightarrow> i = a" "am AND FD_EV_POLLED_RW = 0" "\<And>x. x AND am = 0 \<longleftrightarrow> \<not> bit x a"
    and kj: "k \<noteq> j" and sync: "bit f k = bit (fd_state (fdtab s ! fd)) a"
  shows "\<exists>f' s'. update_dir m w (fd_raise am) (fd_clear am) fd (f, s) = Some (f', s') \<and> fds_ok good I s' \<and> only_fd fd s s'
    \<and> bit f' k = bit f j \<and> (\<forall>i. i \<noteq> k \<longrightarrow> bit f' i = bit f i)
    \<and> bit (fd_state (fdtab s' ! fd)) a = bit f j \<and> (\<forall>i. i \<noteq> a \<longrightarrow> bit (fd_state (fdtab s' ! fd)) i = bit (fd_state (fdtab s ! fd)) i)"
proof -
  consider "\<not> bit f k" "bit f j" | "bit f k" "\<not> bit f j" | "bit f k = bit f j" by blast
  then show ?thesis
  proof cases
    case 1
    obtain s' where s: "fd_raise am fd s = Some s'" "fds_ok good I s'" using flag_change_ok(2) [OF assms(1-3) a(2)] by blast
    then show ?thesis using 1 flag_effect(2) [OF s(1)] sync w m a(1,3)
      by (intro exI [of _ "f OR m"] exI [of _ s']) (auto simp: update_dir_def bit_or_iff)
  next
    case 2
    obtain s' where s: "fd_clear am fd s = Some s'" "fds_ok good I s'" using flag_change_ok(1) [OF assms(1-3) a(2)] by blast
    then show ?thesis using 2 flag_effect(1) [OF s(1)] sync w m a(1,3)
      by (intro exI [of _ "f AND NOT m"] exI [of _ s']) (auto simp: update_dir_def u32_and_not)
  next
    case 3
    then show ?thesis using w assms(1) sync by (intro exI [of _ f] exI [of _ s]) (auto simp: update_dir_def only_fd_def)
  qed
qed

lemma two_flags:
  fixes f :: u32
  shows "f AND (CO_FL_CURR_RD_ENA OR CO_FL_DATA_RD_ENA) = CO_FL_DATA_RD_ENA \<longleftrightarrow> \<not> bit f 2 \<and> bit f 1"
    "f AND (CO_FL_CURR_RD_ENA OR CO_FL_DATA_RD_ENA) = CO_FL_CURR_RD_ENA \<longleftrightarrow> bit f 2 \<and> \<not> bit f 1"
    "f AND (CO_FL_CURR_WR_ENA OR CO_FL_DATA_WR_ENA) = CO_FL_DATA_WR_ENA \<longleftrightarrow> \<not> bit f 6 \<and> bit f 5"
    "f AND (CO_FL_CURR_WR_ENA OR CO_FL_DATA_WR_ENA) = CO_FL_CURR_WR_ENA \<longleftrightarrow> bit f 6 \<and> \<not> bit f 5"
    "f AND (CO_FL_CURR_RD_ENA OR CO_FL_SOCK_RD_ENA) = CO_FL_SOCK_RD_ENA \<longleftrightarrow> \<not> bit f 2 \<and> bit f 0"
    "f AND (CO_FL_CURR_RD_ENA OR CO_FL_SOCK_RD_ENA) = CO_FL_CURR_RD_ENA \<longleftrightarrow> bit f 2 \<and> \<not> bit f 0"
    "f AND (CO_FL_CURR_WR_ENA OR CO_FL_SOCK_WR_ENA) = CO_FL_SOCK_WR_ENA \<longleftrightarrow> \<not> bit f 6 \<and> bit f 4"
    "f AND (CO_FL_CURR_WR_ENA OR CO_FL_SOCK_WR_ENA) = CO_FL_CURR_WR_ENA \<longleftrightarrow> bit f 6 \<and> \<not> bit f 4"
proof -
  have p: "bit (2 ^ i :: u32) n \<longleftrightarrow> n = i \<and> i < 32" for i n by (auto simp: bit_exp_iff)
  have t: "f AND (2 ^ i OR 2 ^ j) = 2 ^ j \<longleftrightarrow> \<not> bit f i \<and> bit f j" "f AND (2 ^ i OR 2 ^ j) = 2 ^ i \<longleftrightarrow> bit f i \<and> \<not> bit f j"
    if "i \<noteq> j" "i < 32" "j < 32" for i j
    using that bit_eq_iff [of "f AND (2 ^ i OR 2 ^ j)" "2 ^ j"] bit_eq_iff [of "f AND (2 ^ i OR 2 ^ j)" "2 ^ i"]
    by (auto simp: bit_and_iff bit_or_iff p)
  show "f AND (CO_FL_CURR_RD_ENA OR CO_FL_DATA_RD_ENA) = CO_FL_DATA_RD_ENA \<longleftrightarrow> \<not> bit f 2 \<and> bit f 1"
    "f AND (CO_FL_CURR_RD_ENA OR CO_FL_DATA_RD_ENA) = CO_FL_CURR_RD_ENA \<longleftrightarrow> bit f 2 \<and> \<not> bit f 1"
    "f AND (CO_FL_CURR_WR_ENA OR CO_FL_DATA_WR_ENA) = CO_FL_DATA_WR_ENA \<longleftrightarrow> \<not> bit f 6 \<and> bit f 5"
    "f AND (CO_FL_CURR_WR_ENA OR CO_FL_DATA_WR_ENA) = CO_FL_CURR_WR_ENA \<longleftrightarrow> bit f 6 \<and> \<not> bit f 5"
    "f AND (CO_FL_CURR_RD_ENA OR CO_FL_SOCK_RD_ENA) = CO_FL_SOCK_RD_ENA \<longleftrightarrow> \<not> bit f 2 \<and> bit f 0"
    "f AND (CO_FL_CURR_RD_ENA OR CO_FL_SOCK_RD_ENA) = CO_FL_CURR_RD_ENA \<longleftrightarrow> bit f 2 \<and> \<not> bit f 0"
    "f AND (CO_FL_CURR_WR_ENA OR CO_FL_SOCK_WR_ENA) = CO_FL_SOCK_WR_ENA \<longleftrightarrow> \<not> bit f 6 \<and> bit f 4"
    "f AND (CO_FL_CURR_WR_ENA OR CO_FL_SOCK_WR_ENA) = CO_FL_CURR_WR_ENA \<longleftrightarrow> bit f 6 \<and> \<not> bit f 4"
    using t [of 2 1] t [of 6 5] t [of 2 0] t [of 6 4] by simp_all
qed

text \<open>The flags of what is polled are those of the descriptor.\<close>

definition curr_sync :: "u32 \<Rightarrow> byte \<Rightarrow> bool" where
  "curr_sync f st \<longleftrightarrow> bit f 2 = bit st 0 \<and> bit f 6 = bit st 4"

lemma co_bits:
  "bit (co_flags (co_clear m c)) k \<longleftrightarrow> bit (co_flags c) k \<and> \<not> bit m k" "bit (co_flags (co_set m c)) k \<longleftrightarrow> bit (co_flags c) k \<or> bit m k"
  "co_fd (co_clear m c) = co_fd c" "co_fd (co_set m c) = co_fd c" "conn_ctrl_ready c \<longleftrightarrow> bit (co_flags c) 8"
  using u32_and_not [of "co_flags c" m k] by (simp_all add: co_clear_def co_set_def bit_or_iff conn_ctrl_ready_def u32_flags)

lemma refresh_sync: "conn_ctrl_ready c \<Longrightarrow> curr_sync (co_flags (conn_refresh_polling_flags c s)) (fd_state (fdtab s ! co_fd c))"
  "co_fd (conn_refresh_polling_flags c s) = co_fd c" "conn_ctrl_ready c \<Longrightarrow> conn_ctrl_ready (conn_refresh_polling_flags c s)"
proof -
  have f: "st AND FD_EV_ACTIVE_R \<noteq> 0 \<longleftrightarrow> bit st 0" "st AND FD_EV_ACTIVE_W \<noteq> 0 \<longleftrightarrow> bit st 4" for st :: byte
    by (simp_all add: byte_flags)
  show "co_fd (conn_refresh_polling_flags c s) = co_fd c" by (simp add: conn_refresh_polling_flags_def co_bits Let_def)
  assume r: "conn_ctrl_ready c"
  then show "conn_ctrl_ready (conn_refresh_polling_flags c s)" "curr_sync (co_flags (conn_refresh_polling_flags c s)) (fd_state (fdtab s ! co_fd c))"
    by (simp_all add: conn_refresh_polling_flags_def co_bits curr_sync_def f Let_def)
qed

lemma dir_bits:
  "bit (CO_FL_CURR_RD_ENA :: u32) i \<longleftrightarrow> i = 2" "bit (CO_FL_CURR_WR_ENA :: u32) i \<longleftrightarrow> i = 6"
proof -
  have p: "bit (2 ^ k :: u32) n \<longleftrightarrow> n = k \<and> k < 32" for k n by (auto simp: bit_exp_iff)
  show "bit (CO_FL_CURR_RD_ENA :: u32) i \<longleftrightarrow> i = 2" "bit (CO_FL_CURR_WR_ENA :: u32) i \<longleftrightarrow> i = 6"
    using p [of 2 i] p [of 6 i] by (simp_all del: bit_numeral_word_iff)
qed

lemma update_polling_ok:
  assumes "fds_ok good I s" "co_fd c < length (fdtab s)" "owned (fdtab s ! co_fd c)" "conn_ctrl_ready c"
    "curr_sync (co_flags c) (fd_state (fdtab s ! co_fd c))"
    and rd: "\<And>f. f AND (CO_FL_CURR_RD_ENA OR rd) = rd \<longleftrightarrow> \<not> bit f 2 \<and> bit f jr" "\<And>f. f AND (CO_FL_CURR_RD_ENA OR rd) = CO_FL_CURR_RD_ENA \<longleftrightarrow> bit f 2 \<and> \<not> bit f jr"
    and wr: "\<And>f. f AND (CO_FL_CURR_WR_ENA OR wr) = wr \<longleftrightarrow> \<not> bit f 6 \<and> bit f jw" "\<And>f. f AND (CO_FL_CURR_WR_ENA OR wr) = CO_FL_CURR_WR_ENA \<longleftrightarrow> bit f 6 \<and> \<not> bit f jw"
    and j: "jr \<notin> {2, 6}" "jw \<notin> {2, 6}"
  shows "\<exists>c' s'. conn_update_polling rd wr c s = Some (c', s') \<and> fds_ok good I s' \<and> only_fd (co_fd c) s s'
    \<and> curr_sync (co_flags c') (fd_state (fdtab s' ! co_fd c))
    \<and> bit (fd_state (fdtab s' ! co_fd c)) 0 = bit (co_flags c) jr \<and> bit (fd_state (fdtab s' ! co_fd c)) 4 = bit (co_flags c) jw"
proof -
  let ?fd = "co_fd c" and ?f = "co_flags c"
  note sync = assms(5) [unfolded curr_sync_def]
  have ar: "FD_EV_ACTIVE_R AND FD_EV_POLLED_RW = (0 :: byte)" "FD_EV_ACTIVE_W AND FD_EV_POLLED_RW = (0 :: byte)" by simp_all
  have br: "bit (FD_EV_ACTIVE_R :: byte) i \<longleftrightarrow> i = 0" "bit (FD_EV_ACTIVE_W :: byte) i \<longleftrightarrow> i = 4" for i
    by (simp_all add: flag_masks del: bit_numeral_word_iff)
  obtain f1 s1 where 1: "update_dir CO_FL_CURR_RD_ENA rd (fd_raise FD_EV_ACTIVE_R) (fd_clear FD_EV_ACTIVE_R) ?fd (?f, s) = Some (f1, s1)"
      "fds_ok good I s1" "only_fd ?fd s s1" "bit f1 2 = bit ?f jr" "\<forall>i. i \<noteq> 2 \<longrightarrow> bit f1 i = bit ?f i"
      "bit (fd_state (fdtab s1 ! ?fd)) 0 = bit ?f jr" "\<forall>i. i \<noteq> 0 \<longrightarrow> bit (fd_state (fdtab s1 ! ?fd)) i = bit (fd_state (fdtab s ! ?fd)) i"
    using update_dir_ok [OF assms(1-3) rd dir_bits(1) br(1) ar(1) byte_flags(1) _ sync [THEN conjunct1]] j by auto
  have len: "?fd < length (fdtab s1)" "owned (fdtab s1 ! ?fd)" using 1(3) assms(2,3) by (auto simp: only_fd_def)
  have "bit f1 6 = bit (fd_state (fdtab s1 ! ?fd)) 4" using 1(5,7) sync by simp
  then obtain f2 s2 where 2: "update_dir CO_FL_CURR_WR_ENA wr (fd_raise FD_EV_ACTIVE_W) (fd_clear FD_EV_ACTIVE_W) ?fd (f1, s1) = Some (f2, s2)"
      "fds_ok good I s2" "only_fd ?fd s1 s2" "bit f2 6 = bit f1 jw" "\<forall>i. i \<noteq> 6 \<longrightarrow> bit f2 i = bit f1 i"
      "bit (fd_state (fdtab s2 ! ?fd)) 4 = bit f1 jw" "\<forall>i. i \<noteq> 4 \<longrightarrow> bit (fd_state (fdtab s2 ! ?fd)) i = bit (fd_state (fdtab s1 ! ?fd)) i"
    using update_dir_ok [OF 1(2) len wr dir_bits(2) br(2) ar(2) byte_flags(5), of f1] j by auto
  have "conn_update_polling rd wr c s = Some (c\<lparr>co_flags := f2\<rparr>, s2)"
    using 1(1) 2(1) assms(4) by (simp add: conn_update_polling_def fd_want_recv_def fd_stop_recv_def fd_want_send_def fd_stop_send_def)
  then show ?thesis using 1 2 j only_fd_trans [OF 1(3) 2(3)]
    by (intro exI [of _ "c\<lparr>co_flags := f2\<rparr>"] exI [of _ s2]) (auto simp: curr_sync_def)
qed

lemma stop_polling_ok:
  assumes "fds_ok good I s" "co_fd c < length (fdtab s)" "owned (fdtab s ! co_fd c)"
  shows "\<exists>c' s'. conn_stop_polling c s = Some (c', s') \<and> fds_ok good I s' \<and> only_fd (co_fd c) s s'
    \<and> curr_sync (co_flags c') (fd_state (fdtab s' ! co_fd c))
    \<and> \<not> bit (fd_state (fdtab s' ! co_fd c)) 0 \<and> \<not> bit (fd_state (fdtab s' ! co_fd c)) 4"
proof -
  have "FD_EV_ACTIVE_RW AND FD_EV_POLLED_RW = (0 :: byte)" by simp
  then obtain s' where s: "fd_clear FD_EV_ACTIVE_RW (co_fd c) s = Some s'" "fds_ok good I s'"
    using flag_change_ok(1) [OF assms] by blast
  obtain c' where c: "conn_stop_polling c s = Some (c', s')" "\<not> bit (co_flags c') 2" "\<not> bit (co_flags c') 6"
    using s(1) by (simp add: conn_stop_polling_def fd_stop_both_def co_bits)
  then show ?thesis using s(2) flag_effect(1) [OF s(1)]
    by (intro exI [of _ c'] exI [of _ s']) (simp add: curr_sync_def flag_masks del: bit_numeral_word_iff)
qed

lemma cond_update_ok:
  assumes "fds_ok good I s" "co_fd c < length (fdtab s)" "owned (fdtab s ! co_fd c)" "conn_ctrl_ready c"
    "curr_sync (co_flags c) (fd_state (fdtab s ! co_fd c))"
  shows "\<exists>c' s'. conn_cond_update_polling c s = Some (c', s') \<and> fds_ok good I s' \<and> only_fd (co_fd c) s s'
    \<and> curr_sync (co_flags c') (fd_state (fdtab s' ! co_fd c))
    \<and> (let f = co_flags c; st = fd_state (fdtab s' ! co_fd c); sock = f AND CO_FL_POLL_SOCK \<noteq> 0; err = bit f 20
       in bit st 0 = (\<not> err \<and> (if sock then bit f 0 else bit f 1)) \<and> bit st 4 = (\<not> err \<and> (if sock then bit f 4 else bit f 5)))"
proof -
  have e: "co_flags c AND CO_FL_ERROR \<noteq> 0 \<longleftrightarrow> bit (co_flags c) 20" by (simp add: u32_flags)
  note sync = assms(5) [unfolded curr_sync_def]
  show ?thesis
  proof (cases "bit (co_flags c) 20")
    case True
    then show ?thesis using stop_polling_ok [OF assms(1-3)] e by (auto simp: conn_cond_update_polling_def Let_def)
  next
    case False
    note F = False
    show ?thesis
    proof (cases "co_flags c AND CO_FL_POLL_SOCK = 0")
      case True
      then show ?thesis
        using update_polling_ok [OF assms two_flags(1-4)] F e data_changes [of c] sync assms(1,5)
        by (cases "conn_data_polling_changes c = 0")
           (auto simp: conn_cond_update_polling_def conn_update_data_polling_def Let_def only_fd_def)
    next
      case False
      then show ?thesis
        using update_polling_ok [OF assms two_flags(5-8)] F e sock_changes [of c] sync assms(1,5)
        by (cases "conn_sock_polling_changes c = 0")
           (auto simp: conn_cond_update_polling_def conn_update_sock_polling_def Let_def only_fd_def)
    qed
  qed
qed

text \<open>C28: at the end of a handler of a connection whose flags of what is polled agree with its descriptor, as
  \<open>conn_refresh_polling_flags\<close> makes them, \<open>conn_cond_update_polling\<close> returns with the descriptor active in
  exactly the directions that the layer in charge wants: the handshake (bits 0 and 4) while one is in
  progress, the data layer (bits 1 and 5) otherwise, and none on an error; the flags of what is polled (bits
  2 and 6) agree again, and no other descriptor changes.\<close>

theorem conn_polling_follows:
  assumes "fds_ok good I s" "co_fd c < length (fdtab s)" "owned (fdtab s ! co_fd c)" "conn_ctrl_ready c"
    "bit (co_flags c) 2 = bit (fd_state (fdtab s ! co_fd c)) 0" "bit (co_flags c) 6 = bit (fd_state (fdtab s ! co_fd c)) 4"
  shows "\<exists>c' s'. conn_cond_update_polling c s = Some (c', s') \<and> fds_ok good I s'
    \<and> (\<forall>i. i \<noteq> co_fd c \<longrightarrow> fd_state (fdtab s' ! i) = fd_state (fdtab s ! i))
    \<and> (let f = co_flags c; st = fd_state (fdtab s' ! co_fd c); sock = f AND CO_FL_POLL_SOCK \<noteq> 0; err = f AND CO_FL_ERROR \<noteq> 0
       in bit st 0 = (\<not> err \<and> (if sock then bit f 0 else bit f 1)) \<and> bit st 4 = (\<not> err \<and> (if sock then bit f 4 else bit f 5))
        \<and> bit (co_flags c') 2 = bit st 0 \<and> bit (co_flags c') 6 = bit st 4)"
proof -
  have "curr_sync (co_flags c) (fd_state (fdtab s ! co_fd c))" using assms(5,6) by (simp add: curr_sync_def)
  note ok = cond_update_ok [OF assms(1-4) this, unfolded Let_def curr_sync_def only_fd_def]
  have e: "co_flags c AND CO_FL_ERROR \<noteq> 0 \<longleftrightarrow> bit (co_flags c) 20" by (simp add: u32_flags)
  show ?thesis unfolding Let_def e using ok by blast
qed

definition demo_conn :: connection where
  "demo_conn = conn_refresh_polling_flags \<lparr>co_flags = CO_FL_CTRL_READY OR CO_FL_DATA_RD_ENA, co_fd = 2, err_code = CO_ER_NONE,
     addr_from = Unspec, addr_to = Unspec\<rparr> demo_table"

theorem conn_polling_follows_witness:
  "\<exists>c s. conn_cond_update_polling demo_conn demo_table = Some (c, s) \<and> bit (fd_state (fdtab s ! 2)) 0 \<and> \<not> bit (fd_state (fdtab s ! 2)) 4"
proof -
  have "poll.ok demo_table" "length (fdtab demo_table) = 3"
    using poll_inputs [OF read_handler_sane demo_valid] demo_runs(1) by auto
  moreover have "owned (fdtab demo_table ! 2)" "co_fd demo_conn = 2" "conn_ctrl_ready demo_conn" "bit (co_flags demo_conn) 2 = bit (fd_state (fdtab demo_table ! 2)) 0"
    "bit (co_flags demo_conn) 6 = bit (fd_state (fdtab demo_table ! 2)) 4" "co_flags demo_conn AND CO_FL_POLL_SOCK = 0"
    "co_flags demo_conn AND CO_FL_ERROR = 0" "bit (co_flags demo_conn) 1" "\<not> bit (co_flags demo_conn) 5"
    by code_simp+
  ultimately show ?thesis using conn_polling_follows [of poll_good poll_watched demo_table demo_conn] by (auto simp: Let_def)
qed

end
