(* ===== verification/HA_Conn_Text.thy ===== *)
theory HA_Conn_Text
  imports HA_Conn HA_Numbers_Proofs
begin

section \<open>Texts of ports and IPv4 addresses\<close>

text \<open>
  A decimal text is read back by \<open>read_uint\<close>, and \<open>inetaddr_host_lim_ret\<close>, which works on the characters of the
  four numbers in parallel, reads back the text of every IPv4 address.
\<close>

subsection \<open>Decimal texts\<close>

lemma dec_text_small:
  "n < 10 \<Longrightarrow> dec_text n = [of_nat (48 + n)]"
  "10 \<le> n \<Longrightarrow> n < 100 \<Longrightarrow> dec_text n = [of_nat (48 + n div 10), of_nat (48 + n mod 10)]"
  "100 \<le> n \<Longrightarrow> n < 1000 \<Longrightarrow> dec_text n = [of_nat (48 + n div 100), of_nat (48 + n div 10 mod 10), of_nat (48 + n mod 10)]"
proof -
  have d: "n div 10 div 10 = n div 100" by (simp add: div_mult2_eq [symmetric])
  have l: "n < 100 \<Longrightarrow> n div 10 < 10" "10 \<le> n \<Longrightarrow> n div 10 \<noteq> 0" "100 \<le> n \<Longrightarrow> \<not> n div 10 < 10" "n < 1000 \<Longrightarrow> n div 100 < 10"
    by linarith+
  show "n < 10 \<Longrightarrow> dec_text n = [of_nat (48 + n)]"
    "10 \<le> n \<Longrightarrow> n < 100 \<Longrightarrow> dec_text n = [of_nat (48 + n div 10), of_nat (48 + n mod 10)]"
    "100 \<le> n \<Longrightarrow> n < 1000 \<Longrightarrow> dec_text n = [of_nat (48 + n div 100), of_nat (48 + n div 10 mod 10), of_nat (48 + n mod 10)]"
    using d l by (simp_all add: dec_text.simps [of n] dec_text.simps [of "n div 10"] dec_text.simps [of "n div 100"])
qed

lemma digit_char: "d < 10 \<Longrightarrow> is_digit (of_nat (48 + d)) \<and> unat (of_nat (48 + d) :: byte) = 48 + d"
proof -
  assume "d < 10"
  then have "unat (of_nat (48 + d) :: byte) = 48 + d" by (simp add: unsigned_of_nat take_bit_nat_eq_self del: of_nat_add)
  then show ?thesis using \<open>d < 10\<close> by (simp add: is_digit_def word_le_nat_alt del: of_nat_add)
qed

lemma dec_text_digits: "list_all is_digit (dec_text n)"
proof (induction n rule: dec_text.induct)
  case (1 n)
  then show ?case using digit_char [of n] digit_char [of "n mod 10"] by (subst dec_text.simps) simp
qed

lemma dec_text_nonempty: "dec_text n \<noteq> []"
  by (subst dec_text.simps) simp

lemma dec_text_value: "dec_value (dec_text n) = n"
proof (induction n rule: dec_text.induct)
  case (1 n)
  have v: "d < 10 \<Longrightarrow> digit_val (of_nat (48 + d)) = d" for d using digit_char [of d] by (simp add: digit_val_def)
  show ?case
  proof (cases "n < 10")
    case True
    then show ?thesis using v [of n] dec_value_snoc [of "[]"] by (subst dec_text.simps) simp
  next
    case False
    then have "dec_value (dec_text (n div 10)) = n div 10" by (rule 1)
    then show ?thesis using False v [of "n mod 10"] by (subst dec_text.simps) simp
  qed
qed

lemma dec_text_read:
  assumes "n < 2 ^ 32" "r = [] \<or> \<not> is_digit (hd r)"
  shows "read_uint (dec_text n @ r) = (of_nat n, r)"
proof -
  have d: "\<forall>c \<in> set (dec_text n). is_digit c" using dec_text_digits [of n] by (simp add: list_all_iff)
  have "takeWhile is_digit r = []" "dropWhile is_digit r = r" using assms(2) by (cases r; simp)+
  then show ?thesis using d by (simp add: read_uint_eq dec_text_value)
qed

subsection \<open>IPv4 addresses\<close>

definition dig :: "nat \<Rightarrow> nat \<Rightarrow> nat" where "dig i n = n div 10 ^ i mod 10"

lemma put_digit_text:
  assumes "n < 1000" "i < 3"
  shows "put_digit k (dec_text n) i d = (if i < length (dec_text n) then d OR push_bit (8 * k) (of_nat (48 + dig i n)) else d)"
    "i \<ge> length (dec_text n) \<Longrightarrow> dig i n = 0"
proof -
  have u: "d < 10 \<Longrightarrow> ucast (of_nat (48 + d) :: byte) = (of_nat (48 + d) :: u32)" for d
    by (simp add: unsigned_of_nat take_bit_nat_eq_self del: of_nat_add)
  have l: "n < 100 \<Longrightarrow> n div 10 < 10" "100 \<le> n \<Longrightarrow> n div 100 < 10" "n < 10 \<Longrightarrow> n div 10 = 0" "n < 100 \<Longrightarrow> n div 100 = 0"
    using assms(1) by linarith+
  have dig: "dig 0 n = n mod 10" "dig 1 n = n div 10 mod 10" "dig 2 n = n div 100 mod 10" by (simp_all add: dig_def)
  have put: "put_digit k ds i d = (if i < length ds then d OR push_bit (8 * k) (of_nat (48 + e)) else d)"
    if "i < length ds \<Longrightarrow> rev ds ! i = of_nat (48 + e)" "e < 10" for ds e
    using that(1) u [OF that(2)] by (auto simp: put_digit_def simp del: of_nat_add)
  have e: "dig i n < 10" by (simp add: dig_def)
  have len: "length (dec_text n) = (if n < 10 then 1 else if n < 100 then 2 else 3)"
    using dec_text_small [of n] assms(1) by simp
  consider "i = 0" | "i = 1" | "i = 2" using assms(2) by linarith
  then have "(i < length (dec_text n) \<longrightarrow> rev (dec_text n) ! i = of_nat (48 + dig i n)) \<and> (i \<ge> length (dec_text n) \<longrightarrow> dig i n = 0)"
  proof cases
    case 1
    then show ?thesis unfolding 1 dig len using dec_text_small [of n] assms(1) by (cases "n < 10"; cases "n < 100"; simp)
  next
    case 2
    then show ?thesis unfolding 2 dig len using dec_text_small [of n] assms(1) l by (cases "n < 10"; cases "n < 100"; simp)
  next
    case 3
    then show ?thesis unfolding 3 dig len using dec_text_small [of n] assms(1) l by (cases "n < 10"; cases "n < 100"; simp)
  qed
  then have "put_digit k (dec_text n) i d = (if i < length (dec_text n) then d OR push_bit (8 * k) (of_nat (48 + dig i n)) else d)
      \<and> (i \<ge> length (dec_text n) \<longrightarrow> dig i n = 0)" using put [OF _ e] by blast
  then show "put_digit k (dec_text n) i d = (if i < length (dec_text n) then d OR push_bit (8 * k) (of_nat (48 + dig i n)) else d)"
    "i \<ge> length (dec_text n) \<Longrightarrow> dig i n = 0" by blast+
qed

lemma put_digit_slot:
  assumes "n < 1000" "i < 3" "k < 4"
  shows "put_digit k (dec_text n) i (ascii_zero OR x) = ascii_zero OR (x OR push_bit (8 * k) (of_nat (dig i n)))"
proof -
  have z: "ascii_zero OR push_bit (8 * k) 48 = (ascii_zero :: u32)"
  proof -
    have "k = 0 \<or> k = 1 \<or> k = 2 \<or> k = 3" using assms(3) by auto
    then show ?thesis by (elim disjE) simp_all
  qed
  have o: "of_nat (48 + d) = 48 OR (of_nat d :: u32)" if "d < 10" for d
  proof -
    have "d = 0 \<or> d = 1 \<or> d = 2 \<or> d = 3 \<or> d = 4 \<or> d = 5 \<or> d = 6 \<or> d = 7 \<or> d = 8 \<or> d = 9" using that by auto
    then show ?thesis by (elim disjE) simp_all
  qed
  have "(ascii_zero OR x) OR push_bit (8 * k) (of_nat (48 + d)) = ascii_zero OR (x OR push_bit (8 * k) (of_nat d))" if "d < 10" for d
  proof -
    have "(ascii_zero OR x) OR push_bit (8 * k) (of_nat (48 + d)) = (ascii_zero OR push_bit (8 * k) 48) OR (x OR push_bit (8 * k) (of_nat d))"
      unfolding o [OF that] push_bit_or by (simp only: or.assoc or.left_commute or.commute)
    then show ?thesis by (simp only: z)
  qed
  moreover have "dig i n < 10" by (simp add: dig_def)
  ultimately show ?thesis using put_digit_text(1) [OF assms(1,2), of k "ascii_zero OR x"] put_digit_text(2) [OF assms(1,2)] by (cases "i < length (dec_text n)") auto
qed

lemma slot_bits:
  assumes "d < 16" "bit (push_bit s (of_nat d :: u32)) n"
  shows "s \<le> n \<and> n < s + 4"
proof -
  have b: "bit d (n - s)" "s \<le> n" using assms(2) by (auto simp: bit_push_bit_iff bit_of_nat_iff)
  have "d div 2 ^ k = 0" if "4 \<le> k" for k
    using assms(1) power_increasing [OF that, of "2 :: nat"] by (simp add: div_eq_0_iff)
  then have "n - s < 4" using b(1) by (metis bit_iff_odd even_zero not_le)
  then show ?thesis using b(2) by linarith
qed

lemma zero_bits: "bit ascii_zero n \<Longrightarrow> n \<in> {4, 5, 12, 13, 20, 21, 28, 29}"
proof -
  assume b: "bit ascii_zero n"
  have "\<forall>n \<in> set [0..<32]. bit ascii_zero n \<longrightarrow> n \<in> {4, 5, 12, 13, 20, 21, 28, 29}" by code_simp
  moreover have "n < 32" using bit_imp_le_length [OF b] by simp
  ultimately show ?thesis using b by auto
qed

lemma slots_disjoint:
  fixes p3 p2 p1 p0 :: u32
  assumes "\<And>n. bit p3 n \<Longrightarrow> 24 \<le> n \<and> n < 28" "\<And>n. bit p2 n \<Longrightarrow> 16 \<le> n \<and> n < 20" "\<And>n. bit p1 n \<Longrightarrow> 8 \<le> n \<and> n < 12" "\<And>n. bit p0 n \<Longrightarrow> n < 4"
  shows "ascii_zero OR (((p3 OR p2) OR p1) OR p0) = ascii_zero + (p3 + p2 + p1 + p0)"
proof -
  have d: "\<not> bit p3 n \<or> \<not> bit p2 n" "\<not> bit (p3 OR p2) n \<or> \<not> bit p1 n" "\<not> bit ((p3 OR p2) OR p1) n \<or> \<not> bit p0 n" for n
    using assms(1) [of n] assms(2) [of n] assms(3) [of n] assms(4) [of n] by (auto simp: bit_or_iff)
  have "\<not> bit ascii_zero n \<or> \<not> bit (((p3 OR p2) OR p1) OR p0) n" for n
  proof (rule ccontr)
    assume a: "\<not> (\<not> bit ascii_zero n \<or> \<not> bit (((p3 OR p2) OR p1) OR p0) n)"
    then have "n \<in> {4, 5, 12, 13, 20, 21, 28, 29}" using zero_bits by blast
    moreover have "bit p3 n \<or> bit p2 n \<or> bit p1 n \<or> bit p0 n" using a unfolding bit_or_iff by blast
    then have "n < 4 \<or> 8 \<le> n \<and> n < 12 \<or> 16 \<le> n \<and> n < 20 \<or> 24 \<le> n \<and> n < 28" using assms by blast
    ultimately show False by auto
  qed
  from disjunctive_add [OF this] show ?thesis
    by (simp only: disjunctive_add [OF d(1)] disjunctive_add [OF d(2)] disjunctive_add [OF d(3)])
qed

lemma slots_sum:
  assumes "d3 < 16" "d2 < 16" "d1 < 16" "d0 < 16"
  shows "(ascii_zero OR (((push_bit 24 (of_nat d3) OR push_bit 16 (of_nat d2)) OR push_bit 8 (of_nat d1)) OR push_bit 0 (of_nat d0))) - ascii_zero
    = (of_nat (d3 * 2 ^ 24 + d2 * 2 ^ 16 + d1 * 2 ^ 8 + d0) :: u32)"
proof -
  have "ascii_zero OR (((push_bit 24 (of_nat d3) OR push_bit 16 (of_nat d2)) OR push_bit 8 (of_nat d1)) OR push_bit 0 (of_nat d0)) =
      ascii_zero + (push_bit 24 (of_nat d3) + push_bit 16 (of_nat d2) + push_bit 8 (of_nat d1) + push_bit 0 (of_nat d0))"
    by (rule slots_disjoint) (use slot_bits [OF assms(1), of 24] slot_bits [OF assms(2), of 16] slot_bits [OF assms(3), of 8] slot_bits [OF assms(4), of 0] in fastforce)+
  then show ?thesis by (simp add: push_bit_eq_mult)
qed

lemma text_digits:
  "takeWhile is_digit (dec_text n @ c # s) = (if is_digit c then dec_text n @ takeWhile is_digit (c # s) else dec_text n)"
  "dropWhile is_digit (dec_text n @ s) = dropWhile is_digit s" "takeWhile is_digit (dec_text n @ s) = dec_text n @ takeWhile is_digit s"
  using dec_text_digits [of n] by (simp_all add: list_all_iff)

lemma inetaddr_step:
  assumes "n < 1000" "k < 3"
  shows "inetaddr_loop (Suc k) (dec_text n @ DOT # s) (ascii_zero OR a) (ascii_zero OR b) (ascii_zero OR c) =
    inetaddr_loop k s (ascii_zero OR (a OR push_bit (8 * Suc k) (of_nat (dig 2 n)))) (ascii_zero OR (b OR push_bit (8 * Suc k) (of_nat (dig 1 n))))
      (ascii_zero OR (c OR push_bit (8 * Suc k) (of_nat (dig 0 n))))"
proof -
  have d: "\<not> is_digit DOT" by (simp add: is_digit_def)
  have k: "Suc k < 4" using assms(2) by simp
  show ?thesis
    unfolding inetaddr_loop.simps text_digits takeWhile.simps dropWhile.simps if_not_P [OF d] append_Nil2 Let_def
    by (simp only: put_digit_slot [OF assms(1) _ k] list.distinct list.sel simp_thms if_False zero_less_numeral one_less_numeral_iff numeral_less_iff
        Num.rel_simps zero_neq_one)
qed

lemma inetaddr_last:
  assumes "n < 1000" "s = [] \<or> \<not> is_digit (hd s)"
  shows "inetaddr_loop 0 (dec_text n @ s) (ascii_zero OR a) (ascii_zero OR b) (ascii_zero OR c) =
    ((((ascii_zero OR (a OR push_bit 0 (of_nat (dig 2 n)))) - ascii_zero) * 10 + ((ascii_zero OR (b OR push_bit 0 (of_nat (dig 1 n)))) - ascii_zero)) * 10
      + ((ascii_zero OR (c OR push_bit 0 (of_nat (dig 0 n)))) - ascii_zero), s)"
proof -
  have d: "takeWhile is_digit s = []" "dropWhile is_digit s = s" using assms(2) by (cases s; simp)+
  show ?thesis using put_digit_slot [OF assms(1), of _ 0] by (simp only: inetaddr_loop.simps text_digits d append_Nil2 Let_def) simp
qed

lemma inetaddr_four:
  assumes "o3 < 256" "o2 < 256" "o1 < 256" "o0 < 256" "s = [] \<or> \<not> is_digit (hd s)"
  shows "inetaddr_host_lim_ret (dec_text o3 @ DOT # dec_text o2 @ DOT # dec_text o1 @ DOT # dec_text o0 @ s) =
    (of_nat (o3 * 2 ^ 24 + o2 * 2 ^ 16 + o1 * 2 ^ 8 + o0), s)"
proof -
  have l: "o3 < 1000" "o2 < 1000" "o1 < 1000" "o0 < 1000" using assms by simp_all
  have z: "ascii_zero = ascii_zero OR 0" by simp
  have d: "dig i n < 16" for i n using mod_less_divisor [of 10 "n div 10 ^ i"] by (simp add: dig_def)
  have n: "n = (dig 2 n * 10 + dig 1 n) * 10 + dig 0 n" if "n < 256" for n
  proof -
    have "n div 100 = n div 10 div 10" by (simp add: div_mult2_eq [symmetric])
    moreover have "n div 100 < 10" using that by linarith
    ultimately show ?thesis by (simp add: dig_def)
  qed
  let ?v = "\<lambda>i. dig i o3 * 2 ^ 24 + dig i o2 * 2 ^ 16 + dig i o1 * 2 ^ 8 + dig i o0"
  have 3: "inetaddr_loop 3 (dec_text o3 @ DOT # t) ascii_zero ascii_zero ascii_zero = inetaddr_loop 2 t (ascii_zero OR push_bit 24 (of_nat (dig 2 o3)))
      (ascii_zero OR push_bit 24 (of_nat (dig 1 o3))) (ascii_zero OR push_bit 24 (of_nat (dig 0 o3)))" for t
    using inetaddr_step [OF l(1), of 2 t 0 0 0] by (simp only: or.right_neutral or.left_neutral eval_nat_numeral mult_Suc_right) simp
  have 2: "inetaddr_loop 2 (dec_text o2 @ DOT # t) (ascii_zero OR a) (ascii_zero OR b) (ascii_zero OR c) = inetaddr_loop 1 t (ascii_zero OR (a OR push_bit 16 (of_nat (dig 2 o2))))
      (ascii_zero OR (b OR push_bit 16 (of_nat (dig 1 o2)))) (ascii_zero OR (c OR push_bit 16 (of_nat (dig 0 o2))))" for t a b c
    using inetaddr_step [OF l(2), of 1 t a b c] by (simp only: Suc_1) simp
  have 1: "inetaddr_loop 1 (dec_text o1 @ DOT # t) (ascii_zero OR a) (ascii_zero OR b) (ascii_zero OR c) = inetaddr_loop 0 t (ascii_zero OR (a OR push_bit 8 (of_nat (dig 2 o1))))
      (ascii_zero OR (b OR push_bit 8 (of_nat (dig 1 o1)))) (ascii_zero OR (c OR push_bit 8 (of_nat (dig 0 o1))))" for t a b c
    using inetaddr_step [OF l(3), of 0 t a b c] by (simp only: One_nat_def) simp
  have A: "inetaddr_host_lim_ret (dec_text o3 @ DOT # dec_text o2 @ DOT # dec_text o1 @ DOT # dec_text o0 @ s) =
      ((of_nat (?v 2) * 10 + of_nat (?v 1)) * 10 + of_nat (?v 0), s)"
    unfolding inetaddr_host_lim_ret_def 3 2 1 inetaddr_last [OF l(4) assms(5)] slots_sum [OF d d d d] by (rule refl)
  have B: "((of_nat (?v 2) * 10 + of_nat (?v 1)) * 10 + of_nat (?v 0) :: u32) = of_nat ((?v 2 * 10 + ?v 1) * 10 + ?v 0)" by simp
  have C: "(?v 2 * 10 + ?v 1) * 10 + ?v 0 = o3 * 2 ^ 24 + o2 * 2 ^ 16 + o1 * 2 ^ 8 + o0"
  proof -
    have "((a2 * p + b2 * q + c2 * r + d2) * 10 + (a1 * p + b1 * q + c1 * r + d1)) * 10 + (a0 * p + b0 * q + c0 * r + d0) =
        ((a2 * 10 + a1) * 10 + a0) * p + ((b2 * 10 + b1) * 10 + b0) * q + ((c2 * 10 + c1) * 10 + c0) * r + ((d2 * 10 + d1) * 10 + d0)"
      for a2 a1 a0 b2 b1 b0 c2 c1 c0 d2 d1 d0 p q r :: nat by (simp add: algebra_simps)
    then show ?thesis by (simp only: n [OF assms(1), symmetric] n [OF assms(2), symmetric] n [OF assms(3), symmetric] n [OF assms(4), symmetric])
  qed
  show ?thesis unfolding A B C by (rule refl)
qed

lemma octets: "octet i a = unat a div 256 ^ i mod 256"
proof -
  have "drop_bit (8 * i) a AND 0xFF = take_bit 8 (drop_bit (8 * i) a)" by (simp add: take_bit_eq_mask mask_eq_exp_minus_1)
  then have "octet i a = take_bit 8 (drop_bit (8 * i) (unat a))" by (simp add: octet_def unsigned_take_bit_eq unsigned_drop_bit_eq take_bit_nat_eq_self [OF u32_less, simplified])
  then show ?thesis by (simp add: take_bit_eq_mod drop_bit_eq_div power_mult)
qed

lemma octet_small: "octet i a < 256" by (simp add: octets)

lemma octets_all: "octet 3 a * 2 ^ 24 + octet 2 a * 2 ^ 16 + octet 1 a * 2 ^ 8 + octet 0 a = unat a"
proof -
  define n where "n = unat a"
  have "n < 2 ^ 32" unfolding n_def by (rule u32_less)
  then have 3: "n div 16777216 mod 256 = n div 16777216" by simp
  have "n div 256 div 256 = n div 65536" "n div 65536 div 256 = n div 16777216" by (simp_all add: div_mult2_eq [symmetric])
  moreover note div_mult_mod_eq [of n 256] div_mult_mod_eq [of "n div 256" 256] div_mult_mod_eq [of "n div 65536" 256]
  ultimately have "n div 16777216 * 16777216 + n div 65536 mod 256 * 65536 + n div 256 mod 256 * 256 + n mod 256 = n" by linarith
  then show ?thesis using 3 by (simp add: octets n_def [symmetric])
qed

lemma inetaddr_text:
  assumes "s = [] \<or> \<not> is_digit (hd s)"
  shows "inetaddr_host_lim_ret (inet_ntop4 a @ s) = (a, s)"
proof -
  have a: "of_nat (octet 3 a * 2 ^ 24 + octet 2 a * 2 ^ 16 + octet 1 a * 2 ^ 8 + octet 0 a) = a" unfolding octets_all by simp
  show ?thesis
    using inetaddr_four [OF octet_small [of 3 a] octet_small [of 2 a] octet_small [of 1 a] octet_small [of 0 a] assms]
    unfolding a by (simp add: inet_ntop4_def)
qed
end
