(* ===== verification/HA_Proxy_Line.thy ===== *)
theory HA_Proxy_Line
  imports HA_Conn_Text HA_Conn_Proofs
begin

section \<open>The PROXY protocol: what is sent is what is read\<close>

text \<open>
  A line that \<open>make_proxy_line\<close> writes, in version 1 or 2, is read back by \<open>conn_recv_proxy\<close> with the same
  addresses, whatever follows it.  A header of version 2 that is too short for its addresses, and a
  \<open>recv\<close> that is interrupted, are not handled.
\<close>

subsection \<open>Bytes in network order\<close>

lemma be32_back: "push_bit 24 (ucast (ucast (drop_bit 24 x) :: byte)) OR push_bit 16 (ucast (ucast (drop_bit 16 x) :: byte))
    OR push_bit 8 (ucast (ucast (drop_bit 8 x) :: byte)) OR ucast (ucast x :: byte) = (x :: u32)"
proof (rule bit_word_eqI)
  fix n assume n: "n < LENGTH(32)"
  then consider "n < 8" | "8 \<le> n" "n < 16" | "16 \<le> n" "n < 24" | "24 \<le> n" by linarith
  then show "bit (push_bit 24 (ucast (ucast (drop_bit 24 x) :: byte)) OR push_bit 16 (ucast (ucast (drop_bit 16 x) :: byte))
    OR push_bit 8 (ucast (ucast (drop_bit 8 x) :: byte)) OR ucast (ucast x :: byte) :: u32) n = bit x n"
    by cases (use n in \<open>auto simp: bit_or_iff bit_push_bit_iff bit_ucast_iff bit_drop_bit_eq\<close>)
qed

lemma be16_back: "push_bit 8 (ucast (ucast (drop_bit 8 x) :: byte)) OR ucast (ucast x :: byte) = (x :: u16)"
proof (rule bit_word_eqI)
  fix n assume n: "n < LENGTH(16)"
  then consider "n < 8" | "8 \<le> n" by linarith
  then show "bit (push_bit 8 (ucast (ucast (drop_bit 8 x) :: byte)) OR ucast (ucast x :: byte) :: u16) n = bit x n"
    by cases (use n in \<open>auto simp: bit_or_iff bit_push_bit_iff bit_ucast_iff bit_drop_bit_eq\<close>)
qed

lemma at_append: "at (xs @ ys) i = (if i < length xs then at xs i else at ys (i - length xs))"
  by (simp add: at_nth nth_append) arith

lemma word_at_append: "length xs \<le> i \<Longrightarrow> word_at (xs @ ys) i = word_at ys (i - length xs)"
  "length xs \<le> i \<Longrightarrow> long_at (xs @ ys) i = long_at ys (i - length xs)"
proof -
  assume l: "length xs \<le> i"
  have "at (xs @ ys) (i + k) = at ys (i - length xs + k)" for k using l by (simp add: at_append)
  from this [of 0] this [of 1] this [of 2] this [of 3]
  show "word_at (xs @ ys) i = word_at ys (i - length xs)" "long_at (xs @ ys) i = long_at ys (i - length xs)"
    by (simp_all add: word_at_def long_at_def)
qed

lemma word_at_be: "word_at (be16 x @ s) 0 = x" "long_at (be32 y @ s) 0 = y"
  using be16_back [of x] be32_back [of y] by (simp_all add: word_at_def long_at_def be16_def be32_def)

lemma be_length [simp]: "length (be16 x) = 2" "length (be32 y) = 4" "length pp2_signature = 12"
  by (simp_all add: be16_def be32_def pp2_signature_def)

subsection \<open>Version 2\<close>

definition sent_addresses :: "sockaddr \<Rightarrow> sockaddr \<Rightarrow> (sockaddr \<times> sockaddr) option" where
  "sent_addresses from to = (case (from, to) of (Inet a sp, Inet b dp) \<Rightarrow> Some (from, to) | (Inet6 a sp, Inet6 b dp) \<Rightarrow> Some (from, to) | _ \<Rightarrow> None)"

fun sockaddr_ok :: "sockaddr \<Rightarrow> bool" where
  "sockaddr_ok (Inet6 a p) = (length a = 16)"
| "sockaddr_ok s = True"

lemma parse_v2_head:
  assumes "16 + unat n \<le> len"
  shows "parse_v2 (pp2_signature @ [vc, fam] @ be16 n @ body) len =
    (if vc AND 0xF0 \<noteq> 0x20 then Not_hdr
     else if vc AND 0x0F = 0x01
       then if fam = 0x11 then Line (16 + unat n) (Some (Inet (long_at body 0) (word_at body 8), Inet (long_at body 4) (word_at body 10)))
         else if fam = 0x21 then Line (16 + unat n) (Some (Inet6 (take 16 body) (word_at body 32), Inet6 (take 16 (drop 16 body)) (word_at body 34)))
         else Line (16 + unat n) None
     else if vc AND 0x0F = 0x00 then Line (16 + unat n) None else Bad_header)"
proof -
  define a where "a = pp2_signature @ [vc, fam] @ be16 n @ body"
  have h: "a = (pp2_signature @ [vc, fam]) @ be16 n @ body" "a = (pp2_signature @ [vc, fam] @ be16 n) @ body" by (simp_all add: a_def)
  have a: "at a 12 = vc" "at a 13 = fam" "take 12 a = pp2_signature" by (simp_all add: a_def at_append pp2_signature_def)
  have n: "word_at a 14 = n" unfolding h(1) by (subst word_at_append) (simp_all add: word_at_be)
  have "word_at a (16 + i) = word_at body i" "long_at a (16 + i) = long_at body i" for i
    unfolding h(2) by (subst word_at_append; simp)+
  from this(2) [of 0] this(2) [of 4] this(1) [of 8] this(1) [of 10] this(1) [of 32] this(1) [of 34]
  have b: "long_at a 16 = long_at body 0" "long_at a 20 = long_at body 4" "word_at a 24 = word_at body 8" "word_at a 26 = word_at body 10"
    "word_at a 48 = word_at body 32" "word_at a 50 = word_at body 34" by simp_all
  have d: "drop 16 a = body" "drop 32 a = drop 16 body" by (simp_all add: a_def pp2_signature_def be16_def)
  show ?thesis
    unfolding a_def [symmetric] parse_v2_def a n d b Let_def using assms by simp
qed

lemma word_at_skip:
  "length xs = i \<Longrightarrow> word_at (xs @ be16 x @ s) i = x" "length xs = i \<Longrightarrow> long_at (xs @ be32 y @ s) i = y"
  using word_at_append [of xs i] by (simp_all add: word_at_be)

lemma parse_v2_line:
  assumes "make_proxy_line_v2 n (Some (from, to)) = Some line" "sockaddr_ok from" "sockaddr_ok to" "length line \<le> len"
  shows "parse_v2 (line @ xs) len = Line (length line) (sent_addresses from to) \<and> take 6 (line @ xs) \<noteq> bytes ''PROXY '' \<and> length line \<le> n \<and> 6 \<le> length line"
proof -
  have sig: "take 6 (pp2_signature @ x) \<noteq> bytes ''PROXY ''" for x by (simp add: pp2_signature_def bytes_def)
  have u: "unat (12 :: u16) = 12" "unat (36 :: u16) = 36" "unat (0 :: u16) = 0" by simp_all
  consider (inet) a sp b dp where "from = Inet a sp" "to = Inet b dp" | (inet6) a sp b dp where "from = Inet6 a sp" "to = Inet6 b dp"
    | (other) "sent_addresses from to = None" "make_proxy_line_v2 n (Some (from, to)) = (if n < 16 then None else Some (pp2_signature @ [0x20, 0x00] @ be16 0))"
    by (cases "from"; cases "to"; simp add: sent_addresses_def make_proxy_line_v2_def)
  then show ?thesis
  proof cases
    case inet
    let ?b = "be32 a @ be32 b @ be16 sp @ be16 dp @ xs"
    have l: "line = pp2_signature @ [0x21, 0x11] @ be16 12 @ be32 a @ be32 b @ be16 sp @ be16 dp" "28 \<le> n"
      using assms(1) inet by (auto simp: make_proxy_line_v2_def split: if_splits)
    have e: "line @ xs = pp2_signature @ [0x21, 0x11] @ be16 12 @ ?b" by (simp add: l)
    have len: "16 + unat (12 :: u16) \<le> len" using assms(4) by (simp add: l)
    have "long_at ?b 0 = a" "long_at ?b 4 = b" "word_at ?b 8 = sp" "word_at ?b 10 = dp"
      using word_at_be(2) [of a] word_at_skip(2) [of "be32 a" 4 b] word_at_skip(1) [of "be32 a @ be32 b" 8 sp]
        word_at_skip(1) [of "be32 a @ be32 b @ be16 sp" 10 dp] by simp_all
    then show ?thesis using parse_v2_head [OF len, of "0x21" "0x11" ?b] l(2) sig
      unfolding e u by (simp add: l(1) inet sent_addresses_def)
  next
    case inet6
    let ?b = "a @ b @ be16 sp @ be16 dp @ xs"
    have w: "length a = 16" "length b = 16" using assms(2,3) inet6 by simp_all
    have l: "line = pp2_signature @ [0x21, 0x21] @ be16 36 @ a @ b @ be16 sp @ be16 dp" "52 \<le> n"
      using assms(1) inet6 by (auto simp: make_proxy_line_v2_def split: if_splits)
    have e: "line @ xs = pp2_signature @ [0x21, 0x21] @ be16 36 @ ?b" by (simp add: l)
    have len: "16 + unat (36 :: u16) \<le> len" using assms(4) w by (simp add: l)
    have "take 16 ?b = a" "take 16 (drop 16 ?b) = b" "word_at ?b 32 = sp" "word_at ?b 34 = dp"
      using w word_at_skip(1) [of "a @ b" 32 sp] word_at_skip(1) [of "a @ b @ be16 sp" 34 dp] by simp_all
    then show ?thesis using parse_v2_head [OF len, of "0x21" "0x21" ?b] l(2) sig w
      unfolding e u by (simp add: l(1) inet6 sent_addresses_def)
  next
    case other
    then have l: "line = pp2_signature @ [0x20, 0x00] @ be16 0" "16 \<le> n" using assms(1) by (auto split: if_splits)
    have e: "line @ xs = pp2_signature @ [0x20, 0x00] @ be16 0 @ xs" by (simp add: l)
    have len: "16 + unat (0 :: u16) \<le> len" using assms(4) by (simp add: l)
    then show ?thesis using parse_v2_head [OF len, of "0x20" "0x00" xs] l(2) sig unfolding e u by (simp add: l(1) other)
  qed
qed

subsection \<open>Version 1\<close>

lemma scan_tcp6_end: "CR \<notin> set t \<Longrightarrow> scan_tcp6 acc (t @ CR # LF # s) = End (acc @ t) s"
proof (induction t arbitrary: acc)
  case (Cons c t)
  obtain d r where "t @ CR # LF # s = d # r" by (cases t) auto
  then show ?case using Cons.IH [of "acc @ [c]"] Cons.prems by simp
qed simp

lemma field_take: "SP \<notin> set t \<Longrightarrow> field (t @ SP # s) = t" "SP \<notin> set t \<Longrightarrow> after_field (t @ SP # s) = Some s" "SP \<notin> set t \<Longrightarrow> field t = t"
proof -
  assume a: "SP \<notin> set t"
  then have "\<forall>c \<in> set t. c \<noteq> SP" by auto
  then show "field (t @ SP # s) = t" "after_field (t @ SP # s) = Some s" "field t = t"
    by (simp_all add: field_def after_field_def takeWhile_append dropWhile_append takeWhile_eq_all_conv)
qed

lemma dec_text_chars: "c \<in> set (dec_text n) \<Longrightarrow> c \<noteq> SP \<and> c \<noteq> CR \<and> c \<noteq> 0 \<and> c \<noteq> LF"
  using dec_text_digits [of n] by (auto simp: list_all_iff is_digit_def)

definition text_addresses :: "(byte list \<Rightarrow> byte list) \<Rightarrow> (byte list \<Rightarrow> byte list option) \<Rightarrow> bool" where
  "text_addresses ntop6 pton6 \<longleftrightarrow> (\<forall>a. length a = 16 \<longrightarrow> pton6 (ntop6 a) = Some a \<and> (\<forall>c \<in> set (ntop6 a). c \<noteq> SP \<and> c \<noteq> CR \<and> c \<noteq> 0))"

lemma port_read: "r = [] \<or> \<not> is_digit (hd r) \<Longrightarrow> read_uint (dec_text (unat (p :: u16)) @ r) = (of_nat (unat p), r)"
proof -
  assume r: "r = [] \<or> \<not> is_digit (hd r)"
  have "unat p < 2 ^ 16" using unsigned_less [of p] by simp
  then show ?thesis by (intro dec_text_read r) simp
qed

lemma port_back: "ucast (of_nat (unat p) :: u32) = (p :: u16)"
  by (rule bit_word_eqI) (simp add: bit_ucast_iff bit_imp_le_length)

lemma v1_line_parts: "v1_line n head src dst sp dp = Some line \<Longrightarrow> line = head @ src @ [SP] @ dst @ v1_ports sp dp \<and> length line < n"
  by (auto simp: v1_line_def Let_def split: if_splits)

lemma parse_tcp4_text:
  "parse_tcp4 tot (inet_ntop4 a @ SP # inet_ntop4 b @ SP # dec_text (unat sp) @ SP # dec_text (unat dp) @ CR # LF # xs) =
    Line (tot - length xs) (Some (Inet a sp, Inet b dp))"
proof -
  have d: "\<not> is_digit SP" "\<not> is_digit CR" by (simp_all add: is_digit_def)
  have r: "inetaddr_host_lim_ret (inet_ntop4 x @ SP # s) = (x, SP # s)" for x s using inetaddr_text [of "SP # s" x] d by simp
  have p: "read_uint (dec_text (unat q) @ SP # s) = (of_nat (unat q), SP # s)" "read_uint (dec_text (unat q) @ CR # s) = (of_nat (unat q), CR # s)"
    for q :: u16 and s using port_read [of "SP # s" q] port_read [of "CR # s" q] d by simp_all
  show ?thesis by (simp add: parse_tcp4_def r p port_back del: of_nat_unat)
qed

lemma parse_tcp6_text:
  assumes "text_addresses ntop6 pton6" "length a = 16" "length b = 16"
  shows "parse_tcp6 pton6 tot (ntop6 a @ SP # ntop6 b @ SP # dec_text (unat sp) @ SP # dec_text (unat dp) @ CR # LF # xs) =
    Line (tot - length xs) (Some (Inet6 a sp, Inet6 b dp))"
proof -
  let ?t = "ntop6 a @ SP # ntop6 b @ SP # dec_text (unat sp) @ SP # dec_text (unat dp)"
  have c: "x \<in> set (ntop6 a) \<Longrightarrow> x \<noteq> SP \<and> x \<noteq> CR \<and> x \<noteq> 0" "x \<in> set (ntop6 b) \<Longrightarrow> x \<noteq> SP \<and> x \<noteq> CR \<and> x \<noteq> 0"
    and pton: "pton6 (ntop6 a) = Some a" "pton6 (ntop6 b) = Some b" for x
    using assms by (auto simp: text_addresses_def)
  have sp: "SP \<notin> set (ntop6 a)" "SP \<notin> set (ntop6 b)" "SP \<notin> set (dec_text n)" for n using c dec_text_chars by blast+
  have cr: "CR \<notin> set (ntop6 a)" "CR \<notin> set (ntop6 b)" "CR \<notin> set (dec_text n)" for n using c dec_text_chars by blast+
  then have "CR \<notin> set ?t" by simp
  then have scan: "scan_tcp6 [] (?t @ CR # LF # xs) = End ?t xs" using scan_tcp6_end [of ?t "[]" xs] by simp
  have ct: "c_text (ntop6 a) = ntop6 a" "c_text (ntop6 b) = ntop6 b" using c by (auto simp: c_text_def takeWhile_eq_all_conv)
  have r: "read_uint (dec_text (unat q)) = (of_nat (unat q), [])" for q :: u16 using port_read [of "[]" q] by simp
  have e: "ntop6 a @ SP # ntop6 b @ SP # dec_text (unat sp) @ SP # dec_text (unat dp) @ CR # LF # xs = ?t @ CR # LF # xs" by simp
  show ?thesis unfolding e parse_tcp6_def scan
    by (simp add: field_take sp ct r pton port_back del: of_nat_unat)
qed

lemma parse_v1_line:
  assumes "make_proxy_line_v1 ntop6 n (Some from) (Some to) = Some line" "sockaddr_ok from" "sockaddr_ok to" "text_addresses ntop6 pton6"
    "length line \<le> len" "len \<le> length (line @ xs)"
  shows "parse_proxy pton6 (line @ xs) len = Line (length line) (sent_addresses from to) \<and> length line \<le> n"
proof -
  define xs' where "xs' = take (len - length line) xs"
  have tk: "take len (line @ xs) = line @ xs'" and lx: "len - length xs' = length line" using assms(5,6) by (simp_all add: xs'_def)
  consider (inet) a sp b dp where "from = Inet a sp" "to = Inet b dp" | (inet6) a sp b dp where "from = Inet6 a sp" "to = Inet6 b dp"
    | (other) "sent_addresses from to = None" "line = bytes ''PROXY UNKNOWN'' @ [CR, LF]" "length line < n"
    using assms(1) by (cases "from"; cases "to"; auto simp: sent_addresses_def make_proxy_line_v1_def Let_def split: if_splits)
  then show ?thesis
  proof cases
    case inet
    have l: "line = bytes ''PROXY TCP4 '' @ inet_ntop4 a @ [SP] @ inet_ntop4 b @ v1_ports sp dp" "length line < n"
      using v1_line_parts [of n "bytes ''PROXY TCP4 ''"] assms(1) inet by (auto simp: make_proxy_line_v1_def)
    have t: "drop 11 (line @ xs') = inet_ntop4 a @ SP # inet_ntop4 b @ SP # dec_text (unat sp) @ SP # dec_text (unat dp) @ CR # LF # xs'"
      by (simp add: l(1) v1_ports_def)
    have len: "11 \<le> len" using assms(5) l(1) by simp
    have h: "take 6 (line @ xs) = bytes ''PROXY ''" "take 5 (drop 6 (line @ xs)) = bytes ''TCP4 ''" by (simp_all add: l(1))
    show ?thesis using len l(2) unfolding parse_proxy_def tk t parse_tcp4_text h lx by (simp add: inet sent_addresses_def)
  next
    case inet6
    have w: "length a = 16" "length b = 16" using assms(2,3) inet6 by simp_all
    have l: "line = bytes ''PROXY TCP6 '' @ ntop6 a @ [SP] @ ntop6 b @ v1_ports sp dp" "length line < n"
      using v1_line_parts [of n "bytes ''PROXY TCP6 ''"] assms(1) inet6 by (auto simp: make_proxy_line_v1_def)
    have t: "drop 11 (line @ xs') = ntop6 a @ SP # ntop6 b @ SP # dec_text (unat sp) @ SP # dec_text (unat dp) @ CR # LF # xs'"
      by (simp add: l(1) v1_ports_def)
    have len: "11 \<le> len" using assms(5) l(1) by simp
    have h: "take 6 (line @ xs) = bytes ''PROXY ''" "take 5 (drop 6 (line @ xs)) = bytes ''TCP6 ''" by (simp_all add: l(1))
    have ne: "bytes ''TCP6 '' \<noteq> bytes ''TCP4 ''" by (simp add: bytes_def)
    show ?thesis using len l(2) ne unfolding parse_proxy_def tk t parse_tcp6_text [OF assms(4) w] h lx by (simp add: inet6 sent_addresses_def)
  next
    case other
    have h: "take 6 (line @ xs) = bytes ''PROXY ''" "take 5 (drop 6 (line @ xs)) = bytes ''UNKNO''" "take 9 (drop 6 (line @ xs)) = bytes ''UNKNOWN'' @ [CR, LF]"
      by (simp_all add: other(2))
    have ne: "bytes ''UNKNO'' \<noteq> bytes ''TCP4 ''" "bytes ''UNKNO'' \<noteq> bytes ''TCP6 ''" by (simp_all add: bytes_def)
    have len: "length line = 15" "15 \<le> len" using assms(5) by (simp_all add: other(2))
    show ?thesis using len other(3) ne unfolding parse_proxy_def h by (simp add: other(1))
  qed
qed

subsection \<open>From one end to the other\<close>

lemma parse_proxy_line:
  assumes "make_proxy_line ntop6 n v2 (Some (from, to)) = Some line" "sockaddr_ok from" "sockaddr_ok to" "text_addresses ntop6 pton6"
    "length line \<le> len" "len \<le> length (line @ xs)"
  shows "parse_proxy pton6 (line @ xs) len = Line (length line) (sent_addresses from to) \<and> length line \<le> n \<and> line \<noteq> []"
proof (cases v2)
  case True
  then have "make_proxy_line_v2 n (Some (from, to)) = Some line" using assms(1) by (simp add: make_proxy_line_def)
  from parse_v2_line [OF this assms(2,3,5), of xs] show ?thesis using assms(5) by (auto simp: parse_proxy_def)
next
  case False
  then have m: "make_proxy_line_v1 ntop6 n (Some from) (Some to) = Some line" using assms(1) by (simp add: make_proxy_line_def)
  have "line \<noteq> []" using m by (cases "from"; cases "to"; auto simp: make_proxy_line_v1_def v1_line_def v1_ports_def Let_def split: if_splits)
  then show ?thesis using parse_v1_line [OF m assms(2-6)] by blast
qed

text \<open>Texts of IPv6 addresses for examples: sixteen numbers, each followed by a dot.\<close>

definition dot_ntop6 :: "byte list \<Rightarrow> byte list" where
  "dot_ntop6 a = concat (map (\<lambda>b. dec_text (unat b) @ [DOT]) a)"

primrec dot_numbers :: "nat \<Rightarrow> byte list \<Rightarrow> byte list" where
  "dot_numbers 0 s = []"
| "dot_numbers (Suc n) s = (let (v, r) = read_uint s in ucast v # dot_numbers n (tl r))"

definition dot_pton6 :: "byte list \<Rightarrow> byte list option" where
  "dot_pton6 s = Some (dot_numbers 16 s)"

lemma dot_addresses: "text_addresses dot_ntop6 dot_pton6"
proof -
  have "dot_numbers (length a) (concat (map (\<lambda>b. dec_text (unat b) @ [DOT]) a)) = a" for a
  proof (induction a)
    case (Cons b a)
    have "unat b < 2 ^ 32" using byte_less_256 [of b] by simp
    then have "read_uint (dec_text (unat b) @ DOT # s) = (of_nat (unat b), DOT # s)" for s
      using dec_text_read [of "unat b" "DOT # s"] by (simp add: is_digit_def)
    moreover have "ucast (of_nat (unat b) :: u32) = b" by (rule bit_word_eqI) (simp add: bit_ucast_iff bit_imp_le_length)
    ultimately show ?case using Cons.IH by simp
  qed simp
  then have "length a = 16 \<Longrightarrow> dot_pton6 (dot_ntop6 a) = Some a" for a by (metis dot_pton6_def dot_ntop6_def)
  moreover have "c \<in> set (dot_ntop6 a) \<Longrightarrow> c \<noteq> SP \<and> c \<noteq> CR \<and> c \<noteq> 0" for a c
    using dec_text_chars [of c] by (auto simp: dot_ntop6_def split: if_splits)
  ultimately show ?thesis by (simp add: text_addresses_def)
qed

text \<open>C27: a PROXY line, of version 1 or 2, fits in the buffer it is made in, and a connection that receives it,
  whatever data follow it and whatever its working area held, takes exactly the line off the socket and
  ends the handshake with the two addresses and ports that were sent, for IPv4 as for IPv6, or with its own
  addresses when the two are of different families.\<close>

theorem proxy_line_roundtrip:
  assumes "make_proxy_line ntop6 n v2 (Some (from, to)) = Some line" "sockaddr_ok from" "sockaddr_ok to" "text_addresses ntop6 pton6"
    "conn_ctrl_ready c" "co_flags c AND CO_FL_SOCK_RD_SH = 0" "eat (length line) = Received line"
  shows "conn_recv_proxy pton6 flag True stale (Received (line @ data)) eat c =
      (True, False, co_clear flag (set_addresses (sent_addresses from to) c)) \<and> length line \<le> n"
proof -
  have "parse_proxy pton6 (line @ data @ drop (length (line @ data)) stale) (length (line @ data)) = Line (length line) (sent_addresses from to)
      \<and> length line \<le> n \<and> line \<noteq> []"
    by (rule parse_proxy_line [OF assms(1-4)]) simp_all
  then show ?thesis using assms(5-7) by (simp add: conn_recv_proxy_def eat_header_def)
qed

definition proxy_conn :: connection where
  "proxy_conn = \<lparr>co_flags = CO_FL_CTRL_READY OR CO_FL_ACCEPT_PROXY, co_fd = 5, err_code = CO_ER_NONE, addr_from = Unspec, addr_to = Unspec\<rparr>"

definition proxy_sample :: "byte list" where
  "proxy_sample = bytes ''PROXY TCP4 192.168.0.1 10.0.0.7 1025 80'' @ [CR, LF]"

theorem proxy_line_roundtrip_witness:
  "conn_recv_proxy dot_pton6 CO_FL_ACCEPT_PROXY True [] (Received (proxy_sample @ bytes ''GET /'')) (\<lambda>n. Received (take n proxy_sample)) proxy_conn =
    (True, False, co_clear CO_FL_ACCEPT_PROXY (set_addresses (sent_addresses (Inet 0xC0A80001 1025) (Inet 0x0A000007 80)) proxy_conn))"
proof -
  have "make_proxy_line dot_ntop6 100 False (Some (Inet 0xC0A80001 1025, Inet 0x0A000007 80)) = Some proxy_sample" by code_simp
  moreover have "conn_ctrl_ready proxy_conn" "co_flags proxy_conn AND CO_FL_SOCK_RD_SH = 0" by code_simp+
  ultimately show ?thesis using proxy_line_roundtrip [OF _ _ _ dot_addresses] by simp
qed

text \<open>C29: a header of version 2 for IPv4 with a length of zero is accepted, with addresses and ports taken from
  what the working area held before.\<close>

theorem proxy_v2_stale_addresses:
  assumes "conn_ctrl_ready c" "co_flags c AND CO_FL_SOCK_RD_SH = 0" "eat 16 = Received (pp2_signature @ [0x21, 0x11, 0, 0])"
  shows "conn_recv_proxy pton6 flag True stale (Received (pp2_signature @ [0x21, 0x11, 0, 0])) eat c =
    (True, False, co_clear flag (set_addresses (Some (Inet (long_at stale 16) (word_at stale 24), Inet (long_at stale 20) (word_at stale 26))) c))"
proof -
  have z: "be16 0 = [0, 0]" "unat (0 :: u16) = 0" by (simp_all add: be16_def)
  have p: "take 6 (pp2_signature @ x) \<noteq> bytes ''PROXY ''" for x by (simp add: pp2_signature_def bytes_def)
  have a: "at (drop 16 stale) i = at stale (16 + i)" for i by (simp add: at_def add.commute)
  have v: "parse_v2 (pp2_signature @ [0x21, 0x11] @ be16 0 @ drop 16 stale) 16 =
      Line 16 (Some (Inet (long_at stale 16) (word_at stale 24), Inet (long_at stale 20) (word_at stale 26)))"
    using parse_v2_head [of 0 16 "0x21" "0x11" "drop 16 stale"] by (simp add: long_at_def word_at_def a)
  then have "parse_proxy pton6 ((pp2_signature @ [0x21, 0x11, 0, 0]) @ drop 16 stale) 16 =
      Line 16 (Some (Inet (long_at stale 16) (word_at stale 24), Inet (long_at stale 20) (word_at stale 26)))"
    using p by (simp add: parse_proxy_def z)
  then show ?thesis using assms by (simp add: conn_recv_proxy_def eat_header_def)
qed

theorem proxy_v2_stale_addresses_witness:
  "conn_recv_proxy dot_pton6 CO_FL_ACCEPT_PROXY True (replicate 16 0 @ [1, 2, 3, 4, 5, 6, 7, 8, 0, 80, 1, 187])
      (Received (pp2_signature @ [0x21, 0x11, 0, 0])) (\<lambda>n. Received (pp2_signature @ [0x21, 0x11, 0, 0])) proxy_conn =
    (True, False, co_clear CO_FL_ACCEPT_PROXY (set_addresses (Some (Inet 0x01020304 80, Inet 0x05060708 443)) proxy_conn))"
proof -
  let ?s = "replicate 16 0 @ [1, 2, 3, 4, 5, 6, 7, 8, 0, 80, 1, 187] :: byte list"
  have "conn_ctrl_ready proxy_conn" "co_flags proxy_conn AND CO_FL_SOCK_RD_SH = 0" by code_simp+
  moreover have "long_at ?s 16 = 0x01020304" "long_at ?s 20 = 0x05060708" "word_at ?s 24 = 80" "word_at ?s 26 = 443" by code_simp+
  ultimately show ?thesis using proxy_v2_stale_addresses [of proxy_conn "\<lambda>n. Received (pp2_signature @ [0x21, 0x11, 0, 0])" dot_pton6 CO_FL_ACCEPT_PROXY ?s]
    by simp
qed

text \<open>An interrupted \<open>recv\<close> is not tried again: at the first one the connection fails as if its line were
  truncated, and at the second the handshake ends well with the line still in front of the data.\<close>

theorem proxy_interrupted:
  assumes "conn_ctrl_ready c" "co_flags c AND CO_FL_SOCK_RD_SH = 0"
    "make_proxy_line ntop6 n v2 (Some (from, to)) = Some line" "sockaddr_ok from" "sockaddr_ok to" "text_addresses ntop6 pton6"
  shows "conn_recv_proxy pton6 flag True stale Interrupted eat c = (False, False, conn_fail (Some CO_ER_PRX_TRUNCATED) c)
    \<and> conn_recv_proxy pton6 flag True stale (Received (line @ data)) (\<lambda>len. Interrupted) c =
      (True, False, co_clear flag (set_addresses (sent_addresses from to) c))"
proof -
  have "parse_proxy pton6 (line @ data @ drop (length (line @ data)) stale) (length (line @ data)) = Line (length line) (sent_addresses from to)
      \<and> length line \<le> n \<and> line \<noteq> []"
    by (rule parse_proxy_line [OF assms(3-6)]) simp_all
  then show ?thesis using assms(1,2) by (simp add: conn_recv_proxy_def eat_header_def)
qed

theorem proxy_interrupted_witness:
  "conn_recv_proxy dot_pton6 CO_FL_ACCEPT_PROXY True [] Interrupted (\<lambda>n. Interrupted) proxy_conn = (False, False, conn_fail (Some CO_ER_PRX_TRUNCATED) proxy_conn)
   \<and> fst (conn_recv_proxy dot_pton6 CO_FL_ACCEPT_PROXY True [] (Received proxy_sample) (\<lambda>n. Interrupted) proxy_conn)"
proof -
  have m: "make_proxy_line dot_ntop6 100 False (Some (Inet 0xC0A80001 1025, Inet 0x0A000007 80)) = Some proxy_sample" by code_simp
  have c: "conn_ctrl_ready proxy_conn" "co_flags proxy_conn AND CO_FL_SOCK_RD_SH = 0" by code_simp+
  show ?thesis
    using proxy_interrupted [OF c m _ _ dot_addresses, of CO_FL_ACCEPT_PROXY "[]" "\<lambda>n. Interrupted" "[]"] by simp
qed

end
