(* ===== verification/HA_Hdr_Idx.thy ===== *)
theory HA_Hdr_Idx
  imports HA_Prelude
begin

section \<open>The header index (src/hdr_idx.c, include/proto/hdr_idx.h)\<close>

text \<open>
  The index is an array of lines (length without the line end, presence of a CR,
  next line); entry 0 is the start line and the head of the list, 0 as a next
  index ends it.  The bit fields keep 16 bits of a length and 15 of an index.
\<close>

record hdr_idx_elem =
  hlen :: nat
  hcr :: nat
  hnext :: nat

record hdr_idx =
  hv :: "hdr_idx_elem list"
  used :: nat
  hlast :: nat
  tail :: nat

abbreviation hsize :: "hdr_idx \<Rightarrow> nat" where
  "hsize l \<equiv> length (hv l)"

definition elem0 :: hdr_idx_elem where
  "elem0 = \<lparr>hlen = 0, hcr = 0, hnext = 0\<rparr>"

definition hdr_idx_init :: "hdr_idx \<Rightarrow> hdr_idx" where
  "hdr_idx_init l =
    (let l = (if hsize l \<noteq> 0 then l\<lparr>hv := (hv l)[0 := elem0]\<rparr> else l)
     in l\<lparr>tail := 0, used := 1, hlast := 1\<rparr>)"

definition hdr_idx_first_idx :: "hdr_idx \<Rightarrow> nat" where
  "hdr_idx_first_idx l = hnext (hv l ! 0)"

definition hdr_idx_first_pos :: "hdr_idx \<Rightarrow> nat" where
  "hdr_idx_first_pos l = hlen (hv l ! 0) + hcr (hv l ! 0) + 1"

definition hdr_idx_set_start :: "hdr_idx \<Rightarrow> int \<Rightarrow> bool \<Rightarrow> hdr_idx" where
  "hdr_idx_set_start l len cr =
    l\<lparr>hv := (hv l)[0 := (hv l ! 0)\<lparr>hlen := nat (len mod 2 ^ 16), hcr := of_bool cr\<rparr>]\<rparr>"

text \<open>
  The scan for a hole starts at entry 1 and stops at the first unused one; the
  array is not full, so there is one (a scan that leaves the array is None).
\<close>

fun find_hole :: "hdr_idx_elem list \<Rightarrow> nat \<Rightarrow> nat option" where
  "find_hole [] new = None"
| "find_hole (e # es) new = (if hlen e = 0 then Some new else find_hole es (new + 1))"

definition hdr_idx_add :: "nat \<Rightarrow> bool \<Rightarrow> hdr_idx \<Rightarrow> nat \<Rightarrow> (int \<times> hdr_idx) option" where
  "hdr_idx_add len cr l after =
    (if used l = hsize l then Some (- 1, l)
     else case (if hlast l < hsize l then Some (hlast l, l\<lparr>hlast := hlast l + 1\<rparr>)
                else map_option (\<lambda>new. (new, l)) (find_hole (tl (hv l)) 1)) of
       None \<Rightarrow> None
     | Some (new, l) \<Rightarrow>
         (let e = \<lparr>hlen = nat (int len mod 2 ^ 16), hcr = of_bool cr, hnext = hnext (hv l ! after)\<rparr>;
              v = (hv l)[after := (hv l ! after)\<lparr>hnext := nat (int new mod 2 ^ 15)\<rparr>]
          in Some (int new, l\<lparr>hv := v[new := e], used := used l + 1, tail := new\<rparr>)))"

subsection \<open>Lines in the order of the list\<close>

text \<open>
  While a message is parsed the array is filled linearly: entry \<open>k\<close> is line \<open>k\<close>
  and points to \<open>k + 1\<close>.
\<close>

definition linear :: "hdr_idx \<Rightarrow> bool" where
  "linear l \<longleftrightarrow> 0 < used l \<and> used l \<le> hsize l \<and> hsize l \<le> 2 ^ 15 \<and> hlast l = used l
    \<and> tail l + 1 = used l
    \<and> (\<forall>k < used l. hnext (hv l ! k) = (if k + 1 < used l then k + 1 else 0))"

definition line_size :: "hdr_idx_elem \<Rightarrow> nat" where
  "line_size e = hlen e + hcr e + 1"

text \<open>Where line \<open>k\<close> starts, and where the lines end.\<close>

definition line_pos :: "hdr_idx \<Rightarrow> nat \<Rightarrow> nat" where
  "line_pos l k = sum_list (map line_size (take k (hv l)))"

lemma linear_init: "0 < hsize l \<Longrightarrow> hsize l \<le> 2 ^ 15 \<Longrightarrow> linear (hdr_idx_init l)"
  by (auto simp: linear_def hdr_idx_init_def elem0_def Let_def Suc_le_eq)

lemma hnext_set_start: "k < hsize l \<Longrightarrow> hnext (hv (hdr_idx_set_start l len cr) ! k) = hnext (hv l ! k)"
  by (cases k) (simp_all add: hdr_idx_set_start_def)

lemma linear_set_start: "linear l \<Longrightarrow> linear (hdr_idx_set_start l len cr)"
  using hnext_set_start [of _ l len cr] by (simp add: linear_def) (simp add: hdr_idx_set_start_def)

lemma line_pos_Suc: "k < hsize l \<Longrightarrow> line_pos l (Suc k) = line_pos l k + line_size (hv l ! k)"
  by (simp add: line_pos_def take_Suc_conv_app_nth)

lemma line_pos_cong:
  "(\<And>j. j < k \<Longrightarrow> line_size (hv l ! j) = line_size (hv l' ! j)) \<Longrightarrow> k \<le> hsize l \<Longrightarrow> k \<le> hsize l'
    \<Longrightarrow> line_pos l k = line_pos l' k"
  unfolding line_pos_def by (rule arg_cong [where f = sum_list], rule nth_equalityI) auto

text \<open>What adding a line at the tail does while the array is filled linearly.\<close>

lemma hdr_idx_add_linear:
  assumes l: "linear l" and room: "used l \<noteq> hsize l"
  obtains l' where "hdr_idx_add len cr l (tail l) = Some (int (used l), l')"
    and "linear l'" and "used l' = used l + 1" and "hsize l' = hsize l"
    and "hv l' ! used l = \<lparr>hlen = nat (int len mod 2 ^ 16), hcr = of_bool cr, hnext = 0\<rparr>"
    and "line_pos l' (used l) = line_pos l (used l)"
    and "\<And>k. k < used l \<Longrightarrow> line_size (hv l' ! k) = line_size (hv l ! k) \<and> hcr (hv l' ! k) = hcr (hv l ! k)"
proof -
  define v where "v = (hv l)[tail l := (hv l ! tail l)\<lparr>hnext := nat (int (used l) mod 2 ^ 15)\<rparr>]"
  define e where "e = \<lparr>hlen = nat (int len mod 2 ^ 16), hcr = of_bool cr, hnext = 0\<rparr>"
  define l' where "l' = l\<lparr>hlast := hlast l + 1, hv := v[used l := e], used := used l + 1, tail := used l\<rparr>"
  have u: "used l < hsize l" "hlast l = used l" "tail l + 1 = used l" "used l < 2 ^ 15"
    "hnext (hv l ! tail l) = 0" "hsize l \<le> 2 ^ 15"
    using l room by (auto simp: linear_def)
  have n: "hnext (hv l ! k) = (if k + 1 < used l then k + 1 else 0)" if "k < used l" for k
    using l that by (simp add: linear_def)
  have a: "hdr_idx_add len cr l (tail l) = Some (int (used l), l')"
    using room u by (simp add: hdr_idx_add_def l'_def v_def e_def Let_def)
  have nth: "hv l' ! k = (if k = used l then e else if k = tail l then (hv l ! k)\<lparr>hnext := used l\<rparr> else hv l ! k)"
    if "k < hsize l" for k
    using that u by (auto simp: l'_def v_def nth_list_update)
  have lin: "linear l'"
    unfolding linear_def
  proof (intro conjI allI impI)
    fix k assume "k < used l'"
    then have k: "k < used l + 1" by (simp add: l'_def)
    then show "hnext (hv l' ! k) = (if k + 1 < used l' then k + 1 else 0)"
      using nth [of k] u n [of k] by (auto simp: l'_def e_def)
  qed (use u in \<open>simp_all add: l'_def v_def\<close>)
  have "line_pos l' (used l) = line_pos l (used l)"
    using u nth by (intro line_pos_cong) (auto simp: line_size_def l'_def v_def nth_list_update)
  moreover have "line_size (hv l' ! k) = line_size (hv l ! k) \<and> hcr (hv l' ! k) = hcr (hv l ! k)"
    if "k < used l" for k
    using that u nth [of k] by (simp add: line_size_def)
  ultimately show ?thesis using a lin nth [OF u(1)]
    by (intro that [of l']) (simp_all add: l'_def e_def v_def)
qed

lemma hdr_idx_add_full: "used l = hsize l \<Longrightarrow> hdr_idx_add len cr l after = Some (- 1, l)"
  by (simp add: hdr_idx_add_def)

end
