(* ===== verification/HA_Http_Msg.thy ===== *)
theory HA_Http_Msg
  imports HA_Hdr_Idx
begin

section \<open>The HTTP message parser (src/proto_http.c: http_msg_analyzer and its start line parsers)\<close>

text \<open>
  The parser is a state machine over the input of a channel's buffer, which does
  not wrap here.  Every label of the C code is a value of \<open>ht_state\<close>.  A step at a
  label reads the byte under \<open>ptr\<close> and jumps without moving (\<open>Goto\<close>), eats the
  byte and jumps (\<open>Eat\<close>), or leaves the machine (\<open>Stop\<close>).  The two start line
  parsers are called from one place each and share their labels with the
  analyzer, so that their steps are steps of the same machine.  Positions are
  relative to \<open>buf->p\<close>; \<open>area\<close> is the input from there, \<open>pending\<close> is \<open>buf->o\<close>.
\<close>

subsection \<open>Character classes\<close>

definition http_is_spht :: "byte \<Rightarrow> bool" where
  "http_is_spht c \<longleftrightarrow> c = SP \<or> c = HT"

definition http_is_crlf :: "byte \<Rightarrow> bool" where
  "http_is_crlf c \<longleftrightarrow> c = CR \<or> c = LF"

definition http_is_lws :: "byte \<Rightarrow> bool" where
  "http_is_lws c \<longleftrightarrow> c = SP \<or> c = HT \<or> c = CR \<or> c = LF"

definition http_is_sep :: "byte \<Rightarrow> bool" where
  "http_is_sep c \<longleftrightarrow> c \<in> set [40, 41, 60, 62, 64, 44, 59, 58, 34, 47, 91, 93, 123, 125, 63, 61, 32, 9, 92]"

definition http_is_ctl :: "byte \<Rightarrow> bool" where
  "http_is_ctl c \<longleftrightarrow> c \<le> 31 \<or> c = 127"

text \<open>The table of token characters, by its ones between 32 and 126.\<close>

definition http_is_token :: "byte \<Rightarrow> bool" where
  "http_is_token c \<longleftrightarrow>
    c = 33 \<or> 35 \<le> c \<and> c \<le> 39 \<or> c = 42 \<or> c = 43 \<or> c = 45 \<or> c = 46 \<or> is_digit c
    \<or> 65 \<le> c \<and> c \<le> 90 \<or> c = 94 \<or> c = 95 \<or> c = 96 \<or> 97 \<le> c \<and> c \<le> 122 \<or> c = 124 \<or> c = 126"

definition http_is_ver_token :: "byte \<Rightarrow> bool" where
  "http_is_ver_token c \<longleftrightarrow> c = 46 \<or> c = 47 \<or> is_digit c \<or> c = 72 \<or> c = 80 \<or> c = 84"

subsection \<open>States and messages\<close>

datatype ht_state =
  HTTP_MSG_RQBEFORE | HTTP_MSG_RQBEFORE_CR | HTTP_MSG_RQMETH | HTTP_MSG_RQMETH_SP
| HTTP_MSG_RQURI | HTTP_MSG_RQURI_SP | HTTP_MSG_RQVER | HTTP_MSG_RQLINE_END
| HTTP_MSG_RPBEFORE | HTTP_MSG_RPBEFORE_CR | HTTP_MSG_RPVER | HTTP_MSG_RPVER_SP
| HTTP_MSG_RPCODE | HTTP_MSG_RPCODE_SP | HTTP_MSG_RPREASON | HTTP_MSG_RPLINE_END
| HTTP_MSG_HDR_FIRST | HTTP_MSG_HDR_NAME | HTTP_MSG_HDR_COL | HTTP_MSG_HDR_L1_SP
| HTTP_MSG_HDR_L1_LF | HTTP_MSG_HDR_L1_LWS | HTTP_MSG_HDR_VAL | HTTP_MSG_HDR_L2_LF
| HTTP_MSG_HDR_L2_LWS | HTTP_MSG_LAST_LF | HTTP_MSG_ERROR | HTTP_MSG_BODY
| HTTP_MSG_100_SENT | HTTP_MSG_CHUNK_SIZE | HTTP_MSG_DATA | HTTP_MSG_CHUNK_CRLF
| HTTP_MSG_TRAILERS | HTTP_MSG_ENDING | HTTP_MSG_DONE | HTTP_MSG_CLOSING
| HTTP_MSG_CLOSED | HTTP_MSG_TUNNEL

record rq_line =
  rq_l :: int
  rq_m_l :: int
  rq_u :: int
  rq_u_l :: int
  rq_v :: int
  rq_v_l :: int

record st_line =
  st_l :: int
  st_v_l :: int
  st_c :: int
  st_c_l :: int
  st_r :: int
  st_r_l :: int

record http_msg =
  area :: "byte list"
  pending :: nat
  msg_state :: ht_state
  nxt :: nat
  sov :: nat
  eoh :: nat
  sol :: nat
  eol :: nat
  err_pos :: int
  rq :: rq_line
  st :: st_line
  idx :: hdr_idx

datatype flow = Goto ht_state nat http_msg | Eat ht_state http_msg | Stop http_msg

definition ood :: "ht_state \<Rightarrow> nat \<Rightarrow> http_msg \<Rightarrow> flow" where
  "ood state p m = Stop (m\<lparr>msg_state := state, nxt := p\<rparr>)"

definition invalid :: "nat \<Rightarrow> http_msg \<Rightarrow> flow" where
  "invalid p m = Stop (m\<lparr>msg_state := HTTP_MSG_ERROR, nxt := p\<rparr>)"

definition expect_lf :: "byte \<Rightarrow> ht_state \<Rightarrow> nat \<Rightarrow> http_msg \<Rightarrow> flow" where
  "expect_lf c good p m = (if c \<noteq> LF then invalid p m else Eat good m)"

subsection \<open>The status line\<close>

definition rpline_eol :: "nat \<Rightarrow> http_msg \<Rightarrow> http_msg" where
  "rpline_eol p m = m\<lparr>st := (st m)\<lparr>st_l := int p - int (sol m)\<rparr>\<rparr>"

text \<open>What the analyzer does with the line that \<open>http_parse_stsline\<close> returns.\<close>

definition stsline_done :: "nat \<Rightarrow> http_msg \<Rightarrow> flow" where
  "stsline_done p m =
    (let cr = (area m ! p = CR);
         m = m\<lparr>idx := hdr_idx_set_start (idx m) (st_l (st m)) cr, sol := p\<rparr>
     in if cr then Eat HTTP_MSG_RPLINE_END m else Goto HTTP_MSG_RPLINE_END p m)"

definition rsp_no_reason :: "nat \<Rightarrow> http_msg \<Rightarrow> flow" where
  "rsp_no_reason p m =
    stsline_done p (rpline_eol p (m\<lparr>st := (st m)\<lparr>st_r := int p, st_r_l := 0\<rparr>\<rparr>))"

definition http_parse_stsline :: "ht_state \<Rightarrow> nat \<Rightarrow> http_msg \<Rightarrow> flow" where
  "http_parse_stsline lbl p m =
    (let c = area m ! p
     in case lbl of
       HTTP_MSG_RPVER \<Rightarrow>
         if http_is_ver_token c then Eat HTTP_MSG_RPVER m
         else if http_is_spht c then Eat HTTP_MSG_RPVER_SP (m\<lparr>st := (st m)\<lparr>st_v_l := int p\<rparr>\<rparr>)
         else invalid p m
     | HTTP_MSG_RPVER_SP \<Rightarrow>
         if \<not> http_is_lws c then Goto HTTP_MSG_RPCODE p (m\<lparr>st := (st m)\<lparr>st_c := int p\<rparr>\<rparr>)
         else if http_is_spht c then Eat HTTP_MSG_RPVER_SP m
         else invalid p m
     | HTTP_MSG_RPCODE \<Rightarrow>
         if \<not> http_is_lws c then Eat HTTP_MSG_RPCODE m
         else let m = m\<lparr>st := (st m)\<lparr>st_c_l := int p - st_c (st m)\<rparr>\<rparr>
              in if http_is_spht c then Eat HTTP_MSG_RPCODE_SP m else rsp_no_reason p m
     | HTTP_MSG_RPCODE_SP \<Rightarrow>
         if \<not> http_is_lws c then Goto HTTP_MSG_RPREASON p (m\<lparr>st := (st m)\<lparr>st_r := int p\<rparr>\<rparr>)
         else if http_is_spht c then Eat HTTP_MSG_RPCODE_SP m
         else rsp_no_reason p m
     | HTTP_MSG_RPREASON \<Rightarrow>
         if \<not> http_is_crlf c then Eat HTTP_MSG_RPREASON m
         else stsline_done p (rpline_eol p (m\<lparr>st := (st m)\<lparr>st_r_l := int p - st_r (st m)\<rparr>\<rparr>))
     | _ \<Rightarrow> ood lbl p m)"

subsection \<open>The request line\<close>

definition rqline_eol :: "nat \<Rightarrow> http_msg \<Rightarrow> http_msg" where
  "rqline_eol p m = m\<lparr>rq := (rq m)\<lparr>rq_l := int p - int (sol m)\<rparr>\<rparr>"

definition reqline_done :: "nat \<Rightarrow> http_msg \<Rightarrow> flow" where
  "reqline_done p m =
    (let cr = (area m ! p = CR);
         m = m\<lparr>idx := hdr_idx_set_start (idx m) (rq_l (rq m)) cr, sol := p\<rparr>
     in if cr then Eat HTTP_MSG_RQLINE_END m else Goto HTTP_MSG_RQLINE_END p m)"

text \<open>The ends of a line without a version: from the method, from the URI and after it.\<close>

definition req09_ver :: "nat \<Rightarrow> http_msg \<Rightarrow> flow" where
  "req09_ver p m = reqline_done p (rqline_eol p (m\<lparr>rq := (rq m)\<lparr>rq_v := int p, rq_v_l := 0\<rparr>\<rparr>))"

definition req09_uri_e :: "nat \<Rightarrow> http_msg \<Rightarrow> flow" where
  "req09_uri_e p m = req09_ver p (m\<lparr>rq := (rq m)\<lparr>rq_u_l := int p - rq_u (rq m)\<rparr>\<rparr>)"

definition req09_uri :: "nat \<Rightarrow> http_msg \<Rightarrow> flow" where
  "req09_uri p m = req09_uri_e p (m\<lparr>rq := (rq m)\<lparr>rq_u := int p\<rparr>\<rparr>)"

definition uri_invalid_char :: "nat \<Rightarrow> http_msg \<Rightarrow> flow" where
  "uri_invalid_char p m = invalid p (m\<lparr>err_pos := int p\<rparr>)"

definition http_parse_reqline :: "ht_state \<Rightarrow> nat \<Rightarrow> http_msg \<Rightarrow> flow" where
  "http_parse_reqline lbl p m =
    (let c = area m ! p
     in case lbl of
       HTTP_MSG_RQMETH \<Rightarrow>
         if http_is_token c then Eat HTTP_MSG_RQMETH m
         else if http_is_spht c then Eat HTTP_MSG_RQMETH_SP (m\<lparr>rq := (rq m)\<lparr>rq_m_l := int p\<rparr>\<rparr>)
         else if http_is_crlf c then req09_uri p (m\<lparr>rq := (rq m)\<lparr>rq_m_l := int p\<rparr>\<rparr>)
         else invalid p m
     | HTTP_MSG_RQMETH_SP \<Rightarrow>
         if \<not> http_is_lws c then Goto HTTP_MSG_RQURI p (m\<lparr>rq := (rq m)\<lparr>rq_u := int p\<rparr>\<rparr>)
         else if http_is_spht c then Eat HTTP_MSG_RQMETH_SP m
         else req09_uri p m
     | HTTP_MSG_RQURI \<Rightarrow>
         if c - 33 \<le> 93 then Eat HTTP_MSG_RQURI m
         else if http_is_spht c
         then Eat HTTP_MSG_RQURI_SP (m\<lparr>rq := (rq m)\<lparr>rq_u_l := int p - rq_u (rq m)\<rparr>\<rparr>)
         else if c \<ge> 128 then
           (if err_pos m < - 1 then uri_invalid_char p m
            else Eat HTTP_MSG_RQURI (if err_pos m = - 1 then m\<lparr>err_pos := int p\<rparr> else m))
         else if http_is_crlf c then req09_uri_e p m
         else uri_invalid_char p m
     | HTTP_MSG_RQURI_SP \<Rightarrow>
         if \<not> http_is_lws c then Goto HTTP_MSG_RQVER p (m\<lparr>rq := (rq m)\<lparr>rq_v := int p\<rparr>\<rparr>)
         else if http_is_spht c then Eat HTTP_MSG_RQURI_SP m
         else req09_ver p m
     | HTTP_MSG_RQVER \<Rightarrow>
         if http_is_ver_token c then Eat HTTP_MSG_RQVER m
         else if http_is_crlf c
         then reqline_done p (rqline_eol p (m\<lparr>rq := (rq m)\<lparr>rq_v_l := int p - rq_v (rq m)\<rparr>\<rparr>))
         else invalid p m
     | _ \<Rightarrow> ood lbl p m)"

subsection \<open>Headers\<close>

text \<open>The bytes from \<open>i\<close> to \<open>p\<close> excluded become spaces.\<close>

definition blank :: "nat \<Rightarrow> nat \<Rightarrow> byte list \<Rightarrow> byte list" where
  "blank i p d = map (\<lambda>k. if i \<le> k \<and> k < p then SP else d ! k) [0..<length d]"

text \<open>A line starts at \<open>p\<close>: a header, or the end of the headers.\<close>

definition line_start :: "nat \<Rightarrow> http_msg \<Rightarrow> flow" where
  "line_start p m =
    (let c = area m ! p; m = m\<lparr>sol := p\<rparr>
     in if \<not> http_is_crlf c then Goto HTTP_MSG_HDR_NAME p m
        else if c = CR then Eat HTTP_MSG_LAST_LF m
        else Goto HTTP_MSG_LAST_LF p m)"

definition complete_header :: "nat \<Rightarrow> http_msg \<Rightarrow> flow" where
  "complete_header p m =
    (case hdr_idx_add (eol m - sol m) (area m ! eol m = CR) (idx m) (tail (idx m)) of
       None \<Rightarrow> invalid p m
     | Some (r, l) \<Rightarrow> if r < 0 then invalid p (m\<lparr>idx := l\<rparr>) else line_start p (m\<lparr>idx := l\<rparr>))"

definition header_step :: "ht_state \<Rightarrow> nat \<Rightarrow> http_msg \<Rightarrow> flow" where
  "header_step lbl p m =
    (let c = area m ! p
     in case lbl of
       HTTP_MSG_HDR_FIRST \<Rightarrow> line_start p m
     | HTTP_MSG_HDR_NAME \<Rightarrow>
         if http_is_token c then Eat HTTP_MSG_HDR_NAME m
         else if c = COLON then Eat HTTP_MSG_HDR_L1_SP m
         else if err_pos m < - 1 \<or> c = LF then invalid p m
         else Eat HTTP_MSG_HDR_NAME (if err_pos m = - 1 then m\<lparr>err_pos := int p\<rparr> else m)
     | HTTP_MSG_HDR_L1_SP \<Rightarrow>
         if http_is_spht c then Eat HTTP_MSG_HDR_L1_SP m
         else let m = m\<lparr>sov := p\<rparr>
              in if \<not> http_is_crlf c then Goto HTTP_MSG_HDR_VAL p m
                 else if c = CR then Eat HTTP_MSG_HDR_L1_LF m
                 else Goto HTTP_MSG_HDR_L1_LF p m
     | HTTP_MSG_HDR_L1_LF \<Rightarrow> expect_lf c HTTP_MSG_HDR_L1_LWS p m
     | HTTP_MSG_HDR_L1_LWS \<Rightarrow>
         if http_is_spht c
         then Goto HTTP_MSG_HDR_L1_SP p (m\<lparr>area := blank (sov m) p (area m), sov := max (sov m) p\<rparr>)
         else complete_header p (m\<lparr>eol := sov m\<rparr>)
     | HTTP_MSG_HDR_VAL \<Rightarrow>
         if \<not> http_is_crlf c then Eat HTTP_MSG_HDR_VAL m
         else let m = m\<lparr>eol := p\<rparr>
              in if c = CR then Eat HTTP_MSG_HDR_L2_LF m else Goto HTTP_MSG_HDR_L2_LF p m
     | HTTP_MSG_HDR_L2_LF \<Rightarrow> expect_lf c HTTP_MSG_HDR_L2_LWS p m
     | HTTP_MSG_HDR_L2_LWS \<Rightarrow>
         if http_is_spht c
         then Goto HTTP_MSG_HDR_VAL p (m\<lparr>area := blank (eol m) p (area m), eol := max (eol m) p\<rparr>)
         else complete_header p m
     | HTTP_MSG_LAST_LF \<Rightarrow>
         if c \<noteq> LF then invalid p m
         else let m = m\<lparr>sov := p + 1, nxt := p + 1, eoh := sol m, sol := 0\<rparr>
              in Stop (m\<lparr>eol := sov m - eoh m, msg_state := HTTP_MSG_BODY\<rparr>)
     | _ \<Rightarrow> ood lbl p m)"

subsection \<open>The analyzer\<close>

text \<open>
  Before the start line.  \<open>state\<close> is the C variable of that name: it still holds the
  state of the call, and not the label, when output is pending.
\<close>

definition before_step ::
  "ht_state \<Rightarrow> ht_state \<Rightarrow> ht_state \<Rightarrow> ht_state \<Rightarrow> (http_msg \<Rightarrow> http_msg) \<Rightarrow> nat \<Rightarrow> http_msg \<Rightarrow> flow" where
  "before_step state before before_cr start init p m =
    (let c = area m ! p
     in if http_is_token c then
          (if p \<noteq> 0 \<and> pending m \<noteq> 0 then ood state p m
           else Goto start 0 (init (m\<lparr>area := drop p (area m), sol := 0\<rparr>)))
        else if \<not> http_is_crlf c then invalid p m
        else if c = LF then Eat before m
        else Eat before_cr m)"

definition analyzer_step :: "ht_state \<Rightarrow> ht_state \<Rightarrow> nat \<Rightarrow> http_msg \<Rightarrow> flow" where
  "analyzer_step state lbl p m =
    (case lbl of
       HTTP_MSG_RPBEFORE \<Rightarrow>
         before_step state HTTP_MSG_RPBEFORE HTTP_MSG_RPBEFORE_CR HTTP_MSG_RPVER
           (\<lambda>m. m\<lparr>st := (st m)\<lparr>st_l := 0\<rparr>, idx := hdr_idx_init (idx m)\<rparr>) p m
     | HTTP_MSG_RPBEFORE_CR \<Rightarrow> expect_lf (area m ! p) HTTP_MSG_RPBEFORE p m
     | HTTP_MSG_RPLINE_END \<Rightarrow> expect_lf (area m ! p) HTTP_MSG_HDR_FIRST p m
     | HTTP_MSG_RQBEFORE \<Rightarrow>
         before_step state HTTP_MSG_RQBEFORE HTTP_MSG_RQBEFORE_CR HTTP_MSG_RQMETH
           (\<lambda>m. m\<lparr>rq := (rq m)\<lparr>rq_l := 0\<rparr>\<rparr>) p m
     | HTTP_MSG_RQBEFORE_CR \<Rightarrow> expect_lf (area m ! p) HTTP_MSG_RQBEFORE p m
     | HTTP_MSG_RQLINE_END \<Rightarrow>
         if rq_v_l (rq m) = 0 then Goto HTTP_MSG_LAST_LF p m
         else expect_lf (area m ! p) HTTP_MSG_HDR_FIRST p m
     | _ \<Rightarrow>
         if lbl \<in> set [HTTP_MSG_RPVER, HTTP_MSG_RPVER_SP, HTTP_MSG_RPCODE, HTTP_MSG_RPCODE_SP, HTTP_MSG_RPREASON]
         then http_parse_stsline lbl p m
         else if lbl \<in> set [HTTP_MSG_RQMETH, HTTP_MSG_RQMETH_SP, HTTP_MSG_RQURI, HTTP_MSG_RQURI_SP, HTTP_MSG_RQVER]
         then http_parse_reqline lbl p m
         else header_step lbl p m)"

text \<open>
  Jumps that do not move go to a label of lower rank, and the only step that
  changes the area's length drops what precedes \<open>ptr\<close>.
\<close>

fun rank :: "ht_state \<Rightarrow> nat" where
  "rank HTTP_MSG_RPBEFORE = 9"
| "rank HTTP_MSG_RQBEFORE = 9"
| "rank HTTP_MSG_RPVER_SP = 8"
| "rank HTTP_MSG_RPCODE_SP = 8"
| "rank HTTP_MSG_RQMETH_SP = 8"
| "rank HTTP_MSG_RQURI_SP = 8"
| "rank HTTP_MSG_RPVER = 7"
| "rank HTTP_MSG_RPCODE = 7"
| "rank HTTP_MSG_RPREASON = 7"
| "rank HTTP_MSG_RQMETH = 7"
| "rank HTTP_MSG_RQURI = 7"
| "rank HTTP_MSG_RQVER = 7"
| "rank HTTP_MSG_RQLINE_END = 6"
| "rank HTTP_MSG_RPLINE_END = 6"
| "rank HTTP_MSG_HDR_FIRST = 5"
| "rank HTTP_MSG_HDR_L1_LWS = 5"
| "rank HTTP_MSG_HDR_L2_LWS = 5"
| "rank HTTP_MSG_HDR_L1_SP = 4"
| "rank HTTP_MSG_HDR_VAL = 3"
| "rank _ = 0"

lemmas flow_defs = ood_def invalid_def expect_lf_def

lemmas line_defs = stsline_done_def rpline_eol_def rsp_no_reason_def rqline_eol_def reqline_done_def
  req09_ver_def req09_uri_e_def req09_uri_def uri_invalid_char_def line_start_def complete_header_def

lemma length_blank [simp]: "length (blank i p d) = length d"
  by (simp add: blank_def)

fun flow_ok :: "nat \<Rightarrow> ht_state \<Rightarrow> nat \<Rightarrow> flow \<Rightarrow> bool" where
  "flow_ok n lbl p (Goto l q m) \<longleftrightarrow> rank l < rank lbl \<and> length (area m) = n - p + q"
| "flow_ok n lbl p (Eat l m) \<longleftrightarrow> length (area m) = n"
| "flow_ok n lbl p (Stop m) \<longleftrightarrow> True"

lemma stsline_flow: "p < length (area m) \<Longrightarrow> flow_ok (length (area m)) lbl p (http_parse_stsline lbl p m)"
  by (cases lbl) (auto simp: http_parse_stsline_def flow_defs line_defs Let_def)

lemma reqline_flow: "p < length (area m) \<Longrightarrow> flow_ok (length (area m)) lbl p (http_parse_reqline lbl p m)"
  by (cases lbl) (auto simp: http_parse_reqline_def flow_defs line_defs Let_def)

lemma header_flow: "p < length (area m) \<Longrightarrow> flow_ok (length (area m)) lbl p (header_step lbl p m)"
  by (cases lbl) (auto simp: header_step_def flow_defs line_defs Let_def split: option.split prod.split)

lemma analyzer_flow:
  "p < length (area m) \<Longrightarrow> flow_ok (length (area m)) lbl p (analyzer_step state lbl p m)"
  using stsline_flow [of p m lbl] reqline_flow [of p m lbl] header_flow [of p m lbl]
  by (cases lbl) (auto simp: analyzer_step_def before_step_def flow_defs Let_def)

function analyze :: "ht_state \<Rightarrow> ht_state \<Rightarrow> nat \<Rightarrow> http_msg \<Rightarrow> http_msg" where
  "analyze state lbl p m =
    (if p \<ge> length (area m) then m\<lparr>msg_state := lbl, nxt := p\<rparr>
     else case analyzer_step state lbl p m of
       Goto l q m' \<Rightarrow> analyze state l q m'
     | Eat l m' \<Rightarrow> analyze state l (p + 1) m'
     | Stop m' \<Rightarrow> m')"
  by auto
termination
proof (relation "measures [\<lambda>(_, _, p, m). length (area m) - p, \<lambda>(_, lbl, _, _). rank lbl]")
  fix state lbl p m l q m'
  assume "\<not> length (area m) \<le> p" "analyzer_step state lbl p m = Goto l q m'"
  then show "((state, l, q, m'), state, lbl, p, m)
      \<in> measures [\<lambda>(_, _, p, m). length (area m) - p, \<lambda>(_, lbl, _, _). rank lbl]"
    using analyzer_flow [of p m lbl state] by auto
next
  fix state lbl p m l m'
  assume "\<not> length (area m) \<le> p" "analyzer_step state lbl p m = Eat l m'"
  then show "((state, l, p + 1, m'), state, lbl, p, m)
      \<in> measures [\<lambda>(_, _, p, m). length (area m) - p, \<lambda>(_, lbl, _, _). rank lbl]"
    using analyzer_flow [of p m lbl state] by auto
qed simp

declare analyze.simps [simp del]

definition http_msg_analyzer :: "http_msg \<Rightarrow> http_msg" where
  "http_msg_analyzer m = analyze (msg_state m) (msg_state m) (nxt m) m"

subsection \<open>Interruption\<close>

text \<open>More bytes arrive behind those the parser has seen.\<close>

definition more :: "byte list \<Rightarrow> http_msg \<Rightarrow> http_msg" where
  "more e m = m\<lparr>area := area m @ e\<rparr>"

fun flow_map :: "(http_msg \<Rightarrow> http_msg) \<Rightarrow> flow \<Rightarrow> flow" where
  "flow_map f (Goto l q m) = Goto l q (f m)"
| "flow_map f (Eat l m) = Eat l (f m)"
| "flow_map f (Stop m) = Stop (f m)"

text \<open>Where the value of the header under way lies when its line end is being parsed.\<close>

definition hdr_inv :: "ht_state \<Rightarrow> nat \<Rightarrow> http_msg \<Rightarrow> bool" where
  "hdr_inv lbl p m \<longleftrightarrow>
    (lbl = HTTP_MSG_HDR_L1_LF \<longrightarrow> sov m \<le> p) \<and> (lbl = HTTP_MSG_HDR_L1_LWS \<longrightarrow> sov m < p)
    \<and> (lbl = HTTP_MSG_HDR_L2_LF \<longrightarrow> eol m \<le> p) \<and> (lbl = HTTP_MSG_HDR_L2_LWS \<longrightarrow> eol m < p)"

fun flow_inv :: "nat \<Rightarrow> flow \<Rightarrow> bool" where
  "flow_inv p (Goto l q m) \<longleftrightarrow> hdr_inv l q m"
| "flow_inv p (Eat l m) \<longleftrightarrow> hdr_inv l (p + 1) m"
| "flow_inv p (Stop m) \<longleftrightarrow> hdr_inv (msg_state m) (nxt m) m"

lemma blank_append: "p \<le> length d \<Longrightarrow> blank i p (d @ e) = blank i p d @ e"
  by (rule nth_equalityI) (auto simp: blank_def nth_append)

lemma more_simps [simp]:
  "area (more e m) = area m @ e" "msg_state (more e m) = msg_state m" "nxt (more e m) = nxt m"
  "sov (more e m) = sov m" "sol (more e m) = sol m" "eol (more e m) = eol m" "eoh (more e m) = eoh m"
  "err_pos (more e m) = err_pos m" "rq (more e m) = rq m" "st (more e m) = st m" "idx (more e m) = idx m"
  "pending (more e m) = pending m"
  by (simp_all add: more_def)

lemma stsline_more:
  "p < length (area m) \<Longrightarrow> http_parse_stsline lbl p (more e m) = flow_map (more e) (http_parse_stsline lbl p m)"
  by (cases lbl) (auto simp: http_parse_stsline_def flow_defs line_defs Let_def nth_append more_def)

lemma reqline_more:
  "p < length (area m) \<Longrightarrow> http_parse_reqline lbl p (more e m) = flow_map (more e) (http_parse_reqline lbl p m)"
  by (cases lbl) (auto simp: http_parse_reqline_def flow_defs line_defs Let_def nth_append more_def)

lemma header_more:
  "p < length (area m) \<Longrightarrow> hdr_inv lbl p m \<Longrightarrow>
    header_step lbl p (more e m) = flow_map (more e) (header_step lbl p m)"
  by (cases lbl)
    (auto simp: header_step_def flow_defs line_defs Let_def nth_append more_def blank_append hdr_inv_def
      split: option.split prod.split)

lemma step_more:
  "p < length (area m) \<Longrightarrow> hdr_inv lbl p m \<Longrightarrow>
    analyzer_step state lbl p (more e m) = flow_map (more e) (analyzer_step state lbl p m)"
  using stsline_more [of p m lbl e] reqline_more [of p m lbl e] header_more [of p m lbl e]
  by (cases lbl) (auto simp: analyzer_step_def before_step_def flow_defs Let_def nth_append more_def)

lemma header_inv: "hdr_inv lbl p m \<Longrightarrow> flow_inv p (header_step lbl p m)"
  by (cases lbl)
    (auto simp: header_step_def flow_defs line_defs Let_def hdr_inv_def
      split: option.split prod.split)

lemma step_inv:
  "hdr_inv lbl p m \<Longrightarrow> hdr_inv state p m \<or> pending m = 0 \<Longrightarrow> flow_inv p (analyzer_step state lbl p m)"
  using header_inv [of lbl p m]
  by (cases lbl) (auto simp: analyzer_step_def before_step_def http_parse_stsline_def
      http_parse_reqline_def flow_defs line_defs Let_def hdr_inv_def)

definition at_state :: "ht_state \<Rightarrow> nat \<Rightarrow> http_msg \<Rightarrow> http_msg" where
  "at_state x y m = m\<lparr>msg_state := x, nxt := y\<rparr>"

fun flow_cont :: "(http_msg \<Rightarrow> http_msg) \<Rightarrow> flow \<Rightarrow> flow" where
  "flow_cont f (Goto l q m) = Goto l q (f m)"
| "flow_cont f (Eat l m) = Eat l (f m)"
| "flow_cont f (Stop m) = Stop m"

text \<open>No step reads where the last call stopped; without pending output none reads \<open>state\<close>.\<close>

lemma step_at_state:
  "pending m = 0 \<Longrightarrow>
    analyzer_step s lbl p (at_state x y m) = flow_cont (at_state x y) (analyzer_step s' lbl p m)"
  by (cases lbl)
    (auto simp: analyzer_step_def before_step_def header_step_def http_parse_stsline_def
      http_parse_reqline_def flow_defs line_defs Let_def at_state_def split: option.split prod.split)

fun flow_pending :: "nat \<Rightarrow> flow \<Rightarrow> bool" where
  "flow_pending n (Goto l q m) \<longleftrightarrow> pending m = n"
| "flow_pending n (Eat l m) \<longleftrightarrow> pending m = n"
| "flow_pending n (Stop m) \<longleftrightarrow> pending m = n"

lemma step_pending: "flow_pending (pending m) (analyzer_step s lbl p m)"
  by (cases lbl)
    (auto simp: analyzer_step_def before_step_def header_step_def http_parse_stsline_def
      http_parse_reqline_def flow_defs line_defs Let_def split: option.split prod.split)

definition parsed :: "ht_state \<Rightarrow> bool" where
  "parsed x \<longleftrightarrow> x \<in> set [HTTP_MSG_HDR_COL, HTTP_MSG_ERROR, HTTP_MSG_BODY, HTTP_MSG_100_SENT,
    HTTP_MSG_CHUNK_SIZE, HTTP_MSG_DATA, HTTP_MSG_CHUNK_CRLF, HTTP_MSG_TRAILERS, HTTP_MSG_ENDING,
    HTTP_MSG_DONE, HTTP_MSG_CLOSING, HTTP_MSG_CLOSED, HTTP_MSG_TUNNEL]"

lemma step_stop: "pending m = 0 \<Longrightarrow> analyzer_step s lbl p m = Stop m' \<Longrightarrow> parsed (msg_state m')"
  by (cases lbl)
    (auto simp: analyzer_step_def before_step_def header_step_def http_parse_stsline_def parsed_def
      http_parse_reqline_def flow_defs line_defs Let_def split: option.splits prod.splits if_splits)

lemma analyzer_parsed: "parsed (msg_state m) \<Longrightarrow> http_msg_analyzer m = m"
  unfolding http_msg_analyzer_def
  by (subst analyze.simps) (auto simp: parsed_def analyzer_step_def header_step_def flow_defs)

lemma analyze_at_state: "pending m = 0 \<Longrightarrow> analyze s lbl p (at_state x y m) = analyze s' lbl p m"
proof (induction s' lbl p m rule: analyze.induct)
  case (1 s' lbl p m)
  have st: "analyzer_step s lbl p (at_state x y m) = flow_cont (at_state x y) (analyzer_step s' lbl p m)"
    by (rule step_at_state [OF "1.prems"])
  have pn: "flow_pending 0 (analyzer_step s' lbl p m)"
    using step_pending [of m s' lbl p] "1.prems" by simp
  show ?case
  proof (cases "length (area m) \<le> p")
    case True
    then show ?thesis by (subst (1 2) analyze.simps) (simp add: at_state_def)
  next
    case False
    then have l: "\<not> length (area (at_state x y m)) \<le> p" by (simp add: at_state_def)
    show ?thesis using False st pn l "1.IH"
      by (subst (1 2) analyze.simps) (auto split: flow.split)
  qed
qed

lemma more_at_state: "more e (at_state x y m) = at_state x y (more e m)"
  by (cases m) (simp add: more_def at_state_def)

lemma analyze_more:
  "hdr_inv lbl p m \<Longrightarrow> pending m = 0 \<Longrightarrow>
    analyze s lbl p (more e m) = http_msg_analyzer (more e (analyze s lbl p m))
    \<and> hdr_inv (msg_state (analyze s lbl p m)) (nxt (analyze s lbl p m)) (analyze s lbl p m)
    \<and> pending (analyze s lbl p m) = 0"
proof (induction s lbl p m rule: analyze.induct)
  case (1 s lbl p m)
  show ?case
  proof (cases "length (area m) \<le> p")
    case True
    have a: "analyze s lbl p m = at_state lbl p m"
      using True by (subst analyze.simps) (simp add: at_state_def)
    have "http_msg_analyzer (more e (at_state lbl p m)) = analyze lbl lbl p (at_state lbl p (more e m))"
      by (simp add: http_msg_analyzer_def more_at_state) (simp add: at_state_def)
    also have "\<dots> = analyze s lbl p (more e m)"
      by (rule analyze_at_state) (simp add: "1.prems")
    finally show ?thesis using "1.prems" by (simp add: a) (simp add: at_state_def hdr_inv_def)
  next
    case False
    then have lt: "p < length (area m)" by simp
    let ?f = "analyzer_step s lbl p m"
    have m: "analyzer_step s lbl p (more e m) = flow_map (more e) ?f"
      by (rule step_more [OF lt "1.prems"(1)])
    have inv: "flow_inv p ?f" using step_inv "1.prems" by simp
    have pn: "flow_pending 0 ?f" using step_pending [of m s lbl p] "1.prems"(2) by simp
    have u: "analyze s lbl p m = (case ?f of Goto l q m' \<Rightarrow> analyze s l q m'
        | Eat l m' \<Rightarrow> analyze s l (p + 1) m' | Stop m' \<Rightarrow> m')"
      using False by (subst analyze.simps) simp
    have u': "analyze s lbl p (more e m) = (case flow_map (more e) ?f of Goto l q m' \<Rightarrow> analyze s l q m'
        | Eat l m' \<Rightarrow> analyze s l (p + 1) m' | Stop m' \<Rightarrow> m')"
      using lt m by (subst analyze.simps) simp
    show ?thesis
    proof (cases ?f)
      case (Goto l q m')
      then show ?thesis using "1.IH"(1) [OF False Goto] inv pn unfolding u u' by simp
    next
      case (Eat l m')
      then show ?thesis using "1.IH"(2) [OF False Eat] inv pn unfolding u u' by simp
    next
      case (Stop m')
      have "parsed (msg_state (more e m'))" using step_stop [OF "1.prems"(2) Stop] by simp
      then show ?thesis using inv pn unfolding u u' by (simp add: Stop analyzer_parsed)
    qed
  qed
qed

text \<open>C1: the parser may be interrupted anywhere.  From a new message, or any state in which the value under way lies
  before the position of the parser (\<open>hdr_inv\<close>), and with no output pending before the message,
  calling \<open>http_msg_analyzer\<close> after each arrival of bytes, whatever their boundaries, gives the same
  message, header index, states and error positions as one call on all the bytes.  (With pending output
  it may not: see \<open>analyzer_stale_state\<close>.)\<close>

theorem http_msg_analyzer_chunks:
  assumes "hdr_inv (msg_state m) (nxt m) m" "pending m = 0"
  shows "foldl (\<lambda>m e. http_msg_analyzer (more e m)) (http_msg_analyzer m) es
    = http_msg_analyzer (more (concat es) m)"
proof -
  have step: "http_msg_analyzer (more e m) = http_msg_analyzer (more e (http_msg_analyzer m))"
    if "hdr_inv (msg_state m) (nxt m) m" "pending m = 0" for e m
    using analyze_more [OF that] by (simp add: http_msg_analyzer_def)
  have mm: "more (a @ b) m = more b (more a m)" for a b m by (simp add: more_def)
  show ?thesis using assms
  proof (induction es arbitrary: m)
    case Nil
    then show ?case by (simp add: more_def)
  next
    case (Cons e es)
    have "hdr_inv (msg_state (more e m)) (nxt (more e m)) (more e m)" "pending (more e m) = 0"
      using Cons.prems by (simp_all add: hdr_inv_def)
    from Cons.IH [OF this] step [OF Cons.prems, of e] show ?case by (simp add: mm)
  qed
qed

definition msg0 :: "ht_state \<Rightarrow> int \<Rightarrow> nat \<Rightarrow> byte list \<Rightarrow> http_msg" where
  "msg0 state err headers d =
    \<lparr>area = d, pending = 0, msg_state = state, nxt = 0, sov = 0, eoh = 0, sol = 0, eol = 0, err_pos = err,
     rq = \<lparr>rq_l = 0, rq_m_l = 0, rq_u = 0, rq_u_l = 0, rq_v = 0, rq_v_l = 0\<rparr>,
     st = \<lparr>st_l = 0, st_v_l = 0, st_c = 0, st_c_l = 0, st_r = 0, st_r_l = 0\<rparr>,
     idx = hdr_idx_init \<lparr>hv = replicate headers elem0, used = 1, hlast = 1, tail = 0\<rparr>\<rparr>"

theorem http_msg_analyzer_chunks_witness:
  "foldl (\<lambda>m e. http_msg_analyzer (more e m))
      (http_msg_analyzer (msg0 HTTP_MSG_RQBEFORE (- 2) 4 (bytes ''GE'')))
      [bytes ''T / HTTP'', bytes ''/1.0'', [CR], [LF, CR], [LF]]
    = http_msg_analyzer (more (concat [bytes ''T / HTTP'', bytes ''/1.0'', [CR], [LF, CR], [LF]])
        (msg0 HTTP_MSG_RQBEFORE (- 2) 4 (bytes ''GE'')))"
  by (rule http_msg_analyzer_chunks) (simp_all add: msg0_def hdr_inv_def)

text \<open>With output still pending before the message, an interruption after a leading CR is
  not harmless: the call that sees the rest of the empty line and the method suspends with the
  state of its entry, CR seen, at the first byte of the method, and the next call then rejects
  this valid request, which one call accepts.\<close>

theorem analyzer_stale_state:
  "msg_state (http_msg_analyzer (msg0 HTTP_MSG_RQBEFORE (- 2) 4
        ([CR, LF] @ bytes ''GET / HTTP/1.0'' @ [CR, LF, CR, LF]))) = HTTP_MSG_BODY
    \<and> (let m1 = http_msg_analyzer ((msg0 HTTP_MSG_RQBEFORE (- 2) 4 [CR])\<lparr>pending := 1\<rparr>);
           m2 = http_msg_analyzer (more ([LF] @ bytes ''GET / HTTP/1.0'' @ [CR, LF, CR, LF]) m1);
           m3 = http_msg_analyzer (m2\<lparr>pending := 0\<rparr>)
       in msg_state m2 = HTTP_MSG_RQBEFORE_CR \<and> msg_state m3 = HTTP_MSG_ERROR)"
  by code_simp

end
