(* ===== verification/HA_Http_Lines.thy ===== *)
theory HA_Http_Lines
  imports HA_Http_Msg
begin

section \<open>What the parser leaves in the header index\<close>

text \<open>
  The functions that look up, add and remove headers never scan the message: they
  walk the index, each line starting where the previous one ends.  This theory
  shows that the parser fills the index so that this walk is right.
\<close>

text \<open>Line \<open>k\<close> ends with a line feed, after a CR when the index says so.\<close>

definition line_ok :: "byte list \<Rightarrow> hdr_idx \<Rightarrow> nat \<Rightarrow> bool" where
  "line_ok d l k \<longleftrightarrow> line_pos l (k + 1) \<le> length d \<and> d ! (line_pos l (k + 1) - 1) = LF
    \<and> (hcr (hv l ! k) = 1 \<longrightarrow> d ! (line_pos l k + hlen (hv l ! k)) = CR)"

definition lines_ok :: "byte list \<Rightarrow> hdr_idx \<Rightarrow> bool" where
  "lines_ok d l \<longleftrightarrow> (\<forall>k < used l. line_ok d l k)"

definition eol_at :: "byte list \<Rightarrow> nat \<Rightarrow> nat" where
  "eol_at d e = e + of_bool (d ! e = CR)"

definition headers_inv :: "nat \<Rightarrow> http_msg \<Rightarrow> bool" where
  "headers_inv p m \<longleftrightarrow> line_pos (idx m) (used (idx m)) = sol m \<and> sol m \<le> p \<and> lines_ok (area m) (idx m)"

definition in_start_line :: "ht_state \<Rightarrow> bool" where
  "in_start_line lbl \<longleftrightarrow> lbl \<in> set [HTTP_MSG_RQMETH, HTTP_MSG_RQMETH_SP, HTTP_MSG_RQURI,
    HTTP_MSG_RQURI_SP, HTTP_MSG_RQVER]"

definition req_inv :: "ht_state \<Rightarrow> nat \<Rightarrow> http_msg \<Rightarrow> bool" where
  "req_inv lbl p m \<longleftrightarrow> length (area m) < 2 ^ 16 \<and> linear (idx m) \<and>
    (case lbl of
       HTTP_MSG_RQBEFORE \<Rightarrow> used (idx m) = 1
     | HTTP_MSG_RQBEFORE_CR \<Rightarrow> used (idx m) = 1
     | HTTP_MSG_RQLINE_END \<Rightarrow> used (idx m) = 1 \<and> p = eol_at (area m) (sol m)
         \<and> hlen (hv (idx m) ! 0) = sol m \<and> hcr (hv (idx m) ! 0) = of_bool (area m ! sol m = CR)
     | HTTP_MSG_HDR_FIRST \<Rightarrow> line_pos (idx m) (used (idx m)) = p \<and> lines_ok (area m) (idx m)
     | HTTP_MSG_HDR_NAME \<Rightarrow> headers_inv p m
     | HTTP_MSG_HDR_L1_SP \<Rightarrow> headers_inv p m
     | HTTP_MSG_HDR_VAL \<Rightarrow> headers_inv p m
     | HTTP_MSG_HDR_L1_LF \<Rightarrow> headers_inv (sov m) m \<and> p = eol_at (area m) (sov m)
     | HTTP_MSG_HDR_L1_LWS \<Rightarrow> headers_inv (sov m) m \<and> p = eol_at (area m) (sov m) + 1
         \<and> area m ! (p - 1) = LF
     | HTTP_MSG_HDR_L2_LF \<Rightarrow> headers_inv (eol m) m \<and> p = eol_at (area m) (eol m)
     | HTTP_MSG_HDR_L2_LWS \<Rightarrow> headers_inv (eol m) m \<and> p = eol_at (area m) (eol m) + 1
         \<and> area m ! (p - 1) = LF
     | HTTP_MSG_LAST_LF \<Rightarrow> p = eol_at (area m) (sol m)
         \<and> (headers_inv p m \<or> rq_v_l (rq m) = 0)
     | HTTP_MSG_BODY \<Rightarrow> rq_v_l (rq m) = 0 \<or>
         line_pos (idx m) (used (idx m)) = eoh m \<and> lines_ok (area m) (idx m)
         \<and> nxt m = eoh m + eol m \<and> eol m = 1 + of_bool (area m ! eoh m = CR)
         \<and> area m ! (nxt m - 1) = LF
     | _ \<Rightarrow> in_start_line lbl \<longrightarrow> used (idx m) = 1 \<and> sol m = 0)"

fun flow_req :: "nat \<Rightarrow> flow \<Rightarrow> bool" where
  "flow_req p (Goto l q m) \<longleftrightarrow> req_inv l q m"
| "flow_req p (Eat l m) \<longleftrightarrow> req_inv l (p + 1) m"
| "flow_req p (Stop m) \<longleftrightarrow> req_inv (msg_state m) (nxt m) m"

lemmas eol_defs = eol_at_def headers_inv_def

lemma line_pos_start: "0 < hsize l \<Longrightarrow>
    line_pos (hdr_idx_set_start l len cr) 1 = nat (len mod 2 ^ 16) + of_bool cr + 1"
  by (cases "hv l") (simp_all add: line_pos_def hdr_idx_set_start_def line_size_def)

lemma set_start_simps [simp]:
  "0 < hsize l \<Longrightarrow> hlen (hv (hdr_idx_set_start l len cr) ! 0) = nat (len mod 2 ^ 16)"
  "0 < hsize l \<Longrightarrow> hcr (hv (hdr_idx_set_start l len cr) ! 0) = of_bool cr"
  "used (hdr_idx_set_start l len cr) = used l"
  by (simp_all add: hdr_idx_set_start_def)

lemma linear_hsize: "linear l \<Longrightarrow> 0 < hsize l \<and> 0 < used l \<and> used l \<le> hsize l"
  by (auto simp: linear_def)

lemma reqline_done_req:
  assumes "p < length (area m)" "length (area m) < 2 ^ 16" "linear (idx m)" "used (idx m) = 1"
    "rq_l (rq m) = int p" "http_is_crlf (area m ! p)"
  shows "flow_req p (reqline_done p m)"
  using assms linear_set_start [OF assms(3)] linear_hsize [OF assms(3)]
  by (auto simp: reqline_done_def Let_def req_inv_def eol_at_def)

lemma req09_req:
  assumes "p < length (area m)" "length (area m) < 2 ^ 16" "linear (idx m)" "used (idx m) = 1"
    "sol m = 0" "http_is_crlf (area m ! p)"
  shows "flow_req p (req09_ver p m)" "flow_req p (req09_uri_e p m)" "flow_req p (req09_uri p m)"
  using assms by (auto simp: req09_ver_def req09_uri_e_def req09_uri_def rqline_eol_def
      intro!: reqline_done_req)

lemma lws_crlf: "http_is_lws c \<Longrightarrow> \<not> http_is_spht c \<Longrightarrow> http_is_crlf c"
  by (auto simp: http_is_lws_def http_is_spht_def http_is_crlf_def)

lemma reqline_req:
  assumes "req_inv lbl p m" "p < length (area m)" "in_start_line lbl"
  shows "flow_req p (http_parse_reqline lbl p m)"
proof -
  have i: "length (area m) < 2 ^ 16" "linear (idx m)" "used (idx m) = 1" "sol m = 0"
    using assms by (auto simp: req_inv_def in_start_line_def)
  have stay: "req_inv l q m'" if "in_start_line l" "area m' = area m" "idx m' = idx m" "sol m' = 0" for l q m'
    using that i by (auto simp: req_inv_def in_start_line_def)
  have bad: "flow_req p (invalid p m')" if "area m' = area m" "idx m' = idx m" for m'
    using that i by (auto simp: invalid_def req_inv_def in_start_line_def)
  have sl: "in_start_line HTTP_MSG_RQMETH" "in_start_line HTTP_MSG_RQMETH_SP" "in_start_line HTTP_MSG_RQURI"
    "in_start_line HTTP_MSG_RQURI_SP" "in_start_line HTTP_MSG_RQVER" by (simp_all add: in_start_line_def)
  from assms(3) consider "lbl = HTTP_MSG_RQMETH" | "lbl = HTTP_MSG_RQMETH_SP" | "lbl = HTTP_MSG_RQURI"
    | "lbl = HTTP_MSG_RQURI_SP" | "lbl = HTTP_MSG_RQVER" by (auto simp: in_start_line_def)
  then show ?thesis
    by cases (simp_all add: http_parse_reqline_def Let_def uri_invalid_char_def rqline_eol_def
        i [simplified] assms(2) sl stay bad req09_req [simplified] reqline_done_req [simplified] lws_crlf)
qed

lemma lines_ok_cong:
  assumes "lines_ok d l" "length d = length d'" "linear l"
    and "\<And>k. k < line_pos l (used l) \<Longrightarrow> d ! k = d' ! k"
  shows "lines_ok d' l"
  unfolding lines_ok_def
proof (intro allI impI)
  fix k assume k: "k < used l"
  have m: "line_pos l (k + 1) \<le> line_pos l (used l)"
    using k linear_hsize [OF assms(3)] unfolding line_pos_def
    by (metis (no_types, lifting) Suc_eq_plus1 Suc_leI le_iff_add map_append sum_list_append take_add trans_le_add1 order_refl)
  have s: "line_pos l (k + 1) = line_pos l k + line_size (hv l ! k)"
    using k linear_hsize [OF assms(3)] line_pos_Suc [of k l] by simp
  have "line_ok d l k" using assms(1) k by (simp add: lines_ok_def)
  then show "line_ok d' l k"
    using assms(2) assms(4) [of "line_pos l (k + 1) - 1"] assms(4) [of "line_pos l k + hlen (hv l ! k)"] m s
    by (auto simp: line_ok_def line_size_def)
qed

lemma line_start_req:
  assumes "length (area m) < 2 ^ 16" "linear (idx m)" "line_pos (idx m) (used (idx m)) = p"
    "lines_ok (area m) (idx m)"
  shows "flow_req p (line_start p m)"
  using assms by (auto simp: line_start_def Let_def req_inv_def eol_defs http_is_crlf_def)

lemma invalid_req: "length (area m) < 2 ^ 16 \<Longrightarrow> linear (idx m) \<Longrightarrow> flow_req p (invalid p m)"
  by (simp add: invalid_def req_inv_def in_start_line_def)

lemma complete_header_req:
  assumes len: "length (area m) < 2 ^ 16" and lin: "linear (idx m)" and hd: "headers_inv (eol m) m"
    and p: "p = eol_at (area m) (eol m) + 1" "p < length (area m)" "area m ! (p - 1) = LF"
  shows "flow_req p (complete_header p m)"
proof (cases "used (idx m) = hsize (idx m)")
  case True
  then show ?thesis
    using invalid_req [OF len lin, of p] by (simp add: complete_header_def hdr_idx_add_full)
next
  case False
  let ?cr = "area m ! eol m = CR"
  let ?u = "used (idx m)"
  obtain l' where a: "hdr_idx_add (eol m - sol m) ?cr (idx m) (tail (idx m)) = Some (int ?u, l')"
    and l': "linear l'" "used l' = ?u + 1" "hsize l' = hsize (idx m)"
    and e: "hv l' ! ?u = \<lparr>hlen = nat (int (eol m - sol m) mod 2 ^ 16), hcr = of_bool ?cr, hnext = 0\<rparr>"
    and pos: "line_pos l' ?u = line_pos (idx m) ?u" and keep: "\<And>k. k < ?u \<Longrightarrow> line_size (hv l' ! k) = line_size (hv (idx m) ! k)
      \<and> hcr (hv l' ! k) = hcr (hv (idx m) ! k)"
    using hdr_idx_add_linear [OF lin False, of "eol m - sol m" ?cr] by blast
  have h: "line_pos (idx m) ?u = sol m" "sol m \<le> eol m" "lines_ok (area m) (idx m)"
    using hd by (auto simp: headers_inv_def)
  have u: "?u < hsize l'" using l' linear_hsize [OF l'(1)] by simp
  have n: "nat (int (eol m - sol m) mod 2 ^ 16) = eol m - sol m"
    using p len by (simp add: eol_at_def)
  note e = e [unfolded n]
  have np: "line_pos l' (?u + 1) = p"
    using line_pos_Suc [OF u] h pos p(1) by (simp add: e line_size_def eol_at_def)
  have lp: "line_pos l' k = line_pos (idx m) k" if "k \<le> ?u" for k
    using that keep linear_hsize [OF lin] l'(3) by (intro line_pos_cong) auto
  have "lines_ok (area m) l'"
    unfolding lines_ok_def
  proof (intro allI impI)
    fix k assume "k < used l'"
    then consider "k < ?u" | "k = ?u" using l'(2) by linarith
    then show "line_ok (area m) l' k"
    proof cases
      case 1
      then have "hlen (hv l' ! k) = hlen (hv (idx m) ! k)" using keep [OF 1] by (simp add: line_size_def)
      moreover have "line_ok (area m) (idx m) k" using h(3) 1 by (simp add: lines_ok_def)
      ultimately show ?thesis using 1 lp [of k] lp [of "k + 1"] keep [OF 1] by (simp add: line_ok_def)
    next
      case 2
      then show ?thesis using np p h pos by (simp add: line_ok_def e)
    qed
  qed
  then have "flow_req p (line_start p (m\<lparr>idx := l'\<rparr>))"
    using len l' np by (intro line_start_req) simp_all
  then show ?thesis by (simp add: complete_header_def a)
qed

lemma blank_nth: "k < length d \<Longrightarrow> blank i p d ! k = (if i \<le> k \<and> k < p then SP else d ! k)"
  by (simp add: blank_def)

lemma headers_blank:
  assumes "headers_inv i m" "linear (idx m)" "p \<le> length (area m)" "i \<le> p"
  shows "line_pos (idx m) (used (idx m)) = sol m \<and> sol m \<le> p \<and> lines_ok (blank i p (area m)) (idx m)"
proof -
  have h: "line_pos (idx m) (used (idx m)) = sol m" "sol m \<le> i" "lines_ok (area m) (idx m)"
    using assms(1) by (simp_all add: headers_inv_def)
  have "lines_ok (blank i p (area m)) (idx m)"
    by (rule lines_ok_cong [OF h(3)]) (use h assms in \<open>simp_all add: blank_nth\<close>)
  with h assms(4) show ?thesis by simp
qed

lemma header_req:
  assumes r: "req_inv lbl p m" and p: "p < length (area m)" and h: "rank lbl < 6"
    and nb: "\<not> parsed lbl" "lbl \<noteq> HTTP_MSG_RQBEFORE_CR" "lbl \<noteq> HTTP_MSG_RPBEFORE_CR"
  shows "flow_req p (header_step lbl p m)"
proof -
  have i: "length (area m) < 2 ^ 16" "linear (idx m)" using r by (simp_all add: req_inv_def)
  note inv = req_inv_def in_start_line_def
  note bad = invalid_req [OF i]
  show ?thesis
  proof (cases lbl)
    case HTTP_MSG_HDR_FIRST
    then show ?thesis using r line_start_req [OF i] by (simp add: header_step_def inv)
  next
    case HTTP_MSG_HDR_NAME
    then show ?thesis using r bad by (simp add: header_step_def Let_def inv eol_defs)
  next
    case HTTP_MSG_HDR_L1_SP
    then show ?thesis using r by (auto simp: header_step_def Let_def inv eol_defs http_is_crlf_def)
  next
    case HTTP_MSG_HDR_L1_LF
    then show ?thesis using r bad by (simp add: header_step_def Let_def inv eol_defs expect_lf_def)
  next
    case HTTP_MSG_HDR_L1_LWS
    then have q: "headers_inv (sov m) m" "p = eol_at (area m) (sov m) + 1" "area m ! (p - 1) = LF"
      using r by (auto simp: inv)
    have "flow_req p (complete_header p (m\<lparr>eol := sov m\<rparr>))"
      using i q p by (intro complete_header_req) (simp_all add: headers_inv_def)
    moreover have "req_inv HTTP_MSG_HDR_L1_SP p (m\<lparr>area := blank (sov m) p (area m), sov := max (sov m) p\<rparr>)"
      using headers_blank [OF q(1) i(2), of p] p q(2) i by (simp add: inv eol_defs)
    ultimately show ?thesis by (simp add: header_step_def HTTP_MSG_HDR_L1_LWS)
  next
    case HTTP_MSG_HDR_VAL
    then show ?thesis using r by (auto simp: header_step_def Let_def inv eol_defs http_is_crlf_def)
  next
    case HTTP_MSG_HDR_L2_LF
    then show ?thesis using r bad by (simp add: header_step_def Let_def inv eol_defs expect_lf_def)
  next
    case HTTP_MSG_HDR_L2_LWS
    then have q: "headers_inv (eol m) m" "p = eol_at (area m) (eol m) + 1" "area m ! (p - 1) = LF"
      using r by (auto simp: inv)
    have "flow_req p (complete_header p m)" using i q p by (intro complete_header_req) simp_all
    moreover have "req_inv HTTP_MSG_HDR_VAL p (m\<lparr>area := blank (eol m) p (area m), eol := max (eol m) p\<rparr>)"
      using headers_blank [OF q(1) i(2), of p] p q(2) i by (simp add: inv eol_defs)
    ultimately show ?thesis by (simp add: header_step_def HTTP_MSG_HDR_L2_LWS)
  next
    case HTTP_MSG_LAST_LF
    then show ?thesis using r bad [of p] by (auto simp: header_step_def Let_def inv eol_defs)
  qed (use h nb in \<open>simp_all add: parsed_def\<close>)
qed

lemma before_req:
  assumes "req_inv lbl p m" "p < length (area m)" "lbl = HTTP_MSG_RQBEFORE \<or> lbl = HTTP_MSG_RQBEFORE_CR
      \<or> lbl = HTTP_MSG_RQLINE_END" "pending m = 0"
  shows "flow_req p (analyzer_step s lbl p m)"
proof -
  have i: "length (area m) < 2 ^ 16" "linear (idx m)" "used (idx m) = 1"
    using assms by (auto simp: req_inv_def)
  from assms(3) show ?thesis
  proof (elim disjE)
    assume l: "lbl = HTTP_MSG_RQLINE_END"
    have q: "p = eol_at (area m) (sol m)" "hlen (hv (idx m) ! 0) = sol m"
      "hcr (hv (idx m) ! 0) = of_bool (area m ! sol m = CR)" using assms(1) by (simp_all add: l req_inv_def)
    have pos: "line_pos (idx m) 0 = 0" "line_pos (idx m) 1 = p + 1"
      using q linear_hsize [OF i(2)] line_pos_Suc [of 0 "idx m"]
      by (simp_all add: line_pos_def line_size_def eol_at_def)
    then have "lines_ok (area m) (idx m)" if "area m ! p = LF"
      using that assms(2) i(3) q by (auto simp: lines_ok_def line_ok_def)
    then show ?thesis using q pos i invalid_req [OF i(1,2), of p]
      by (simp add: l analyzer_step_def expect_lf_def req_inv_def in_start_line_def)
  qed (use assms i invalid_req [OF i(1,2), of p] in \<open>auto simp: analyzer_step_def before_step_def
      expect_lf_def Let_def req_inv_def in_start_line_def\<close>)
qed

text \<open>The labels of a request.\<close>

definition request_label :: "ht_state \<Rightarrow> bool" where
  "request_label l \<longleftrightarrow> l \<notin> set [HTTP_MSG_RPBEFORE, HTTP_MSG_RPBEFORE_CR, HTTP_MSG_RPVER, HTTP_MSG_RPVER_SP,
    HTTP_MSG_RPCODE, HTTP_MSG_RPCODE_SP, HTTP_MSG_RPREASON, HTTP_MSG_RPLINE_END]"

fun flow_request :: "flow \<Rightarrow> bool" where
  "flow_request (Goto l q m) \<longleftrightarrow> request_label l"
| "flow_request (Eat l m) \<longleftrightarrow> request_label l"
| "flow_request (Stop m) \<longleftrightarrow> True"

lemma request_closed: "request_label lbl \<Longrightarrow> flow_request (analyzer_step s lbl p m)"
  by (cases lbl)
    (auto simp: request_label_def analyzer_step_def before_step_def header_step_def http_parse_reqline_def
      flow_defs line_defs Let_def split: option.split prod.split)

lemma request_step:
  assumes "req_inv lbl p m" "p < length (area m)" "request_label lbl" "pending m = 0" "\<not> parsed lbl"
  shows "flow_req p (analyzer_step s lbl p m)"
  using before_req [OF assms(1,2) _ assms(4), of s] reqline_req [OF assms(1,2)] header_req [OF assms(1,2)] assms(3,5)
  by (cases lbl) (auto simp: request_label_def analyzer_step_def in_start_line_def parsed_def)

lemma analyze_req:
  "req_inv lbl p m \<Longrightarrow> request_label lbl \<Longrightarrow> pending m = 0 \<Longrightarrow> \<not> parsed lbl \<Longrightarrow>
    req_inv (msg_state (analyze s lbl p m)) (nxt (analyze s lbl p m)) (analyze s lbl p m)"
proof (induction s lbl p m rule: analyze.induct)
  case (1 s lbl p m)
  show ?case
  proof (cases "length (area m) \<le> p")
    case True
    then have "analyze s lbl p m = m\<lparr>msg_state := lbl, nxt := p\<rparr>" by (subst analyze.simps) simp
    then show ?thesis using "1.prems" by (cases lbl) (auto simp: req_inv_def headers_inv_def parsed_def)
  next
    case False
    then have lt: "p < length (area m)" by simp
    let ?f = "analyzer_step s lbl p m"
    have f: "flow_req p ?f" "flow_request ?f" "flow_pending 0 ?f"
      using request_step [OF "1.prems"(1) lt "1.prems"(2-4)] request_closed "1.prems"(2)
        step_pending [of m s lbl p] "1.prems"(3) by simp_all
    have u: "analyze s lbl p m = (case ?f of Goto l q m' \<Rightarrow> analyze s l q m'
        | Eat l m' \<Rightarrow> analyze s l (p + 1) m' | Stop m' \<Rightarrow> m')"
      using False by (subst analyze.simps) simp
    have np: "\<not> parsed l" if "?f = Goto l q m' \<or> ?f = Eat l m'" for l q m'
      using that by (cases lbl)
        (auto simp: parsed_def analyzer_step_def before_step_def header_step_def http_parse_reqline_def
          http_parse_stsline_def flow_defs line_defs Let_def split: option.splits prod.splits if_splits)
    show ?thesis
    proof (cases ?f)
      case (Goto l q m')
      then show ?thesis using "1.IH"(1) [OF False Goto] f np [of l q m'] unfolding u by simp
    next
      case (Eat l m')
      then show ?thesis using "1.IH"(2) [OF False Eat] f np [of l _ m'] unfolding u by simp
    next
      case (Stop m')
      then show ?thesis using f unfolding u by simp
    qed
  qed
qed

text \<open>C2: when \<open>http_msg_analyzer\<close> accepts a request of less than 65536 bytes whose start line has a version (one of
  HTTP/0.9 has none, and no headers), in an index of at most 32768 entries, the header index tiles the message: the start line is at 0, each line starts where the previous one ends, every line ends
  with the line feed (and the CR) the index announces, the last one ends at \<open>eoh\<close>, and the next byte to parse
  follows the empty line, of one or two bytes as \<open>eol\<close> tells.\<close>

theorem request_lines:
  assumes "length d < 2 ^ 16" "0 < headers" "headers \<le> 2 ^ 15"
    and "m = http_msg_analyzer (msg0 HTTP_MSG_RQBEFORE err headers d)"
    and "msg_state m = HTTP_MSG_BODY" "rq_v_l (rq m) \<noteq> 0"
  shows "line_pos (idx m) (used (idx m)) = eoh m \<and> lines_ok (area m) (idx m) \<and> linear (idx m)
    \<and> nxt m = eoh m + eol m \<and> eol m = 1 + of_bool (area m ! eoh m = CR) \<and> area m ! (nxt m - 1) = LF"
proof -
  let ?m = "msg0 HTTP_MSG_RQBEFORE err headers d"
  have "linear (idx ?m)" using assms(2,3) by (simp add: msg0_def linear_init)
  moreover have "used (idx ?m) = 1" by (simp add: msg0_def hdr_idx_init_def Let_def)
  ultimately have "req_inv HTTP_MSG_RQBEFORE 0 ?m"
    using assms(1) by (simp add: req_inv_def) (simp add: msg0_def)
  then have "req_inv (msg_state m) (nxt m) m"
    unfolding assms(4) http_msg_analyzer_def
    by (simp add: msg0_def) (rule analyze_req, simp_all add: request_label_def parsed_def)
  then show ?thesis using assms(5,6) by (auto simp: req_inv_def)
qed

theorem request_lines_witness:
  "let m = http_msg_analyzer (msg0 HTTP_MSG_RQBEFORE (- 2) 8
      (bytes ''GET / HTTP/1.0'' @ [CR, LF] @ bytes ''A: b'' @ [LF, SP, 99, CR, LF, CR, LF]))
    in line_pos (idx m) (used (idx m)) = eoh m \<and> eoh m = 25 \<and> used (idx m) = 2"
proof -
  let ?d = "bytes ''GET / HTTP/1.0'' @ [CR, LF] @ bytes ''A: b'' @ [LF, SP, 99, CR, LF, CR, LF]"
  let ?m = "http_msg_analyzer (msg0 HTTP_MSG_RQBEFORE (- 2) 8 ?d)"
  have e: "msg_state ?m = HTTP_MSG_BODY" "rq_v_l (rq ?m) \<noteq> 0" "eoh ?m = 25" "used (idx ?m) = 2"
    by code_simp+
  show ?thesis using request_lines [OF _ _ _ refl e(1,2)] e by (simp add: Let_def)
qed

end
