(* ===== verification/HA_Http_Body.thy ===== *)
theory HA_Http_Body
  imports HA_Http_Msg HA_Buffer HA_Strings
begin

section \<open>Chunked bodies (src/proto_http.c: http_parse_chunk_size, http_skip_chunk_crlf, http_forward_trailers)\<close>

text \<open>
  These parsers run on a buffer whose input may wrap: they move a pointer around
  the ring until it meets the end of the input.  The ring level definitions below
  follow the code; the list level ones say the same of the bytes of the input in
  order, and the refinement lemmas relate the two.  A loop has the buffer's size
  as fuel, which it never exhausts on a well-formed buffer.
\<close>

subsection \<open>State\<close>

record body_msg =
  bbuf :: buffer
  bnext :: nat
  bsol :: nat
  bstate :: ht_state
  chunk_len :: int
  body_len :: int
  berr_pos :: int

text \<open>A scan stops for lack of data, at an error, or at a position with a value.\<close>

datatype 'p scan = Missing | Fail 'p | At 'p int

fun scan_bind :: "'p scan option \<Rightarrow> ('p \<Rightarrow> int \<Rightarrow> 'p scan option) \<Rightarrow> 'p scan option" where
  "scan_bind (Some (At p v)) f = f p v"
| "scan_bind r f = r"

subsection \<open>On the ring\<close>

definition succ_ptr :: "buffer \<Rightarrow> nat \<Rightarrow> nat" where
  "succ_ptr b p = (if p + 1 \<ge> bsize b then 0 else p + 1)"

fun hex_loop :: "nat \<Rightarrow> buffer \<Rightarrow> nat \<Rightarrow> nat \<Rightarrow> int \<Rightarrow> nat scan option" where
  "hex_loop 0 b stop p chunk = None"
| "hex_loop (Suc n) b stop p chunk =
    (if p = stop then Some Missing
     else let c = hex2i (data b ! p)
          in if c < 0 then Some (At p chunk)
             else let p = succ_ptr b p
                  in if chunk \<ge> 2 ^ 27 then Some (Fail p)
                     else hex_loop n b stop p (chunk * 16 + c))"

fun spht_loop :: "nat \<Rightarrow> buffer \<Rightarrow> nat \<Rightarrow> nat \<Rightarrow> int \<Rightarrow> nat scan option" where
  "spht_loop 0 b stop p v = None"
| "spht_loop (Suc n) b stop p v =
    (if http_is_spht (data b ! p)
     then let p = succ_ptr b p in if p = stop then Some Missing else spht_loop n b stop p v
     else Some (At p v))"

fun ext_loop :: "nat \<Rightarrow> buffer \<Rightarrow> nat \<Rightarrow> nat \<Rightarrow> int \<Rightarrow> nat scan option" where
  "ext_loop 0 b stop p v = None"
| "ext_loop (Suc n) b stop p v =
    (if \<not> http_is_crlf (data b ! p)
     then let p = succ_ptr b p in if p = stop then Some Missing else ext_loop n b stop p v
     else Some (At p v))"

definition crlf_end :: "buffer \<Rightarrow> nat \<Rightarrow> nat \<Rightarrow> int \<Rightarrow> nat scan option" where
  "crlf_end b stop p v =
    (if data b ! p = CR \<and> succ_ptr b p = stop then Some Missing
     else let p = (if data b ! p = CR then succ_ptr b p else p)
          in if data b ! p \<noteq> LF then Some (Fail p) else Some (At (succ_ptr b p) v))"

definition size_end :: "nat \<Rightarrow> buffer \<Rightarrow> nat \<Rightarrow> nat \<Rightarrow> int \<Rightarrow> nat scan option" where
  "size_end n b stop p v =
    (if http_is_crlf (data b ! p) then crlf_end b stop p v
     else if data b ! p = SEMICOLON then
       let p = succ_ptr b p
       in if p = stop then Some Missing
          else scan_bind (ext_loop n b stop p v) (\<lambda>p v. crlf_end b stop p v)
     else Some (Fail p))"

definition buffer_count :: "buffer \<Rightarrow> nat \<Rightarrow> nat \<Rightarrow> nat" where
  "buffer_count b from to = nat (let n = int to - int from in if n < 0 then n + int (bsize b) else n)"

definition scan_size :: "nat \<Rightarrow> buffer \<Rightarrow> nat \<Rightarrow> nat \<Rightarrow> nat scan option" where
  "scan_size n b stop old =
    scan_bind (hex_loop n b stop old 0)
      (\<lambda>p chunk. if p = old then Some (Fail p)
         else scan_bind (spht_loop n b stop p chunk) (\<lambda>p chunk. size_end n b stop p chunk))"

definition http_parse_chunk_size :: "body_msg \<Rightarrow> (int \<times> body_msg) option" where
  "http_parse_chunk_size m =
    (let b = bbuf m;
         old = b_ptr b (int (bnext m));
         stop = bi_end b
     in case scan_size (bsize b + 1) b stop old of
       None \<Rightarrow> None
     | Some Missing \<Rightarrow> Some (0, m)
     | Some (Fail p) \<Rightarrow> Some (- 1, m\<lparr>berr_pos := int (buffer_count b (ptr b) p)\<rparr>)
     | Some (At p chunk) \<Rightarrow>
         Some (1, m\<lparr>bsol := buffer_count b old p, bnext := buffer_count b (ptr b) p, chunk_len := chunk,
           body_len := (body_len m + chunk) mod 2 ^ 64,
           bstate := (if chunk \<noteq> 0 then HTTP_MSG_DATA else HTTP_MSG_TRAILERS)\<rparr>))"

definition http_skip_chunk_crlf :: "body_msg \<Rightarrow> int \<times> body_msg" where
  "http_skip_chunk_crlf m =
    (let b = bbuf m;
         p = b_ptr b (int (bnext m));
         cr = (data b ! p = CR);
         len = (if cr then 2 else 1);
         p = (if cr then succ_ptr b p else p)
     in if bnext m + len > inp b then (0, m)
        else if data b ! p \<noteq> LF then (- 1, m\<lparr>berr_pos := int (buffer_count b (ptr b) p)\<rparr>)
        else (1, m\<lparr>bnext := bnext m + len, bstate := HTTP_MSG_CHUNK_SIZE\<rparr>))"

text \<open>
  One line of trailers: \<open>p1\<close> is the position of its CR or, failing that, of its LF.
\<close>

fun trailer_line :: "nat \<Rightarrow> buffer \<Rightarrow> nat \<Rightarrow> nat \<Rightarrow> nat option \<Rightarrow> (nat \<times> nat) scan option" where
  "trailer_line 0 b stop p p1 = None"
| "trailer_line (Suc n) b stop p p1 =
    (if p = stop then Some Missing
     else if data b ! p = LF then Some (At (case p1 of None \<Rightarrow> p | Some q \<Rightarrow> q, p) 0)
     else if data b ! p = CR \<and> p1 \<noteq> None then Some (Fail (p, p))
     else trailer_line n b stop (succ_ptr b p) (if data b ! p = CR then Some p else p1))"

fun http_forward_trailers :: "nat \<Rightarrow> body_msg \<Rightarrow> (int \<times> body_msg) option" where
  "http_forward_trailers 0 m = None"
| "http_forward_trailers (Suc n) m =
    (let b = bbuf m; start = b_ptr b (int (bnext m))
     in case trailer_line (bsize b + 1) b (bi_end b) start None of
       None \<Rightarrow> None
     | Some Missing \<Rightarrow> Some (0, m)
     | Some (Fail (p, _)) \<Rightarrow> Some (- 1, m\<lparr>berr_pos := int (buffer_count b (ptr b) p)\<rparr>)
     | Some (At (p1, p2) _) \<Rightarrow>
         let m' = m\<lparr>bnext := buffer_count b (ptr b) (succ_ptr b p2)\<rparr>
         in if p1 = start then Some (1, m'\<lparr>bstate := HTTP_MSG_DONE\<rparr>) else http_forward_trailers n m')"

subsection \<open>On the bytes in order\<close>

fun hex_s :: "byte list \<Rightarrow> nat \<Rightarrow> int \<Rightarrow> nat scan" where
  "hex_s [] j chunk = Missing"
| "hex_s (x # xs) j chunk =
    (if hex2i x < 0 then At j chunk
     else if chunk \<ge> 2 ^ 27 then Fail (j + 1)
     else hex_s xs (j + 1) (chunk * 16 + hex2i x))"

fun skip_s :: "(byte \<Rightarrow> bool) \<Rightarrow> byte list \<Rightarrow> nat \<Rightarrow> int \<Rightarrow> nat scan" where
  "skip_s P [] j v = Missing"
| "skip_s P (x # xs) j v = (if P x then skip_s P xs (j + 1) v else At j v)"

fun crlf_s :: "byte list \<Rightarrow> nat \<Rightarrow> int \<Rightarrow> nat scan" where
  "crlf_s [] j v = Missing"
| "crlf_s (x # xs) j v =
    (if x = CR then (case xs of [] \<Rightarrow> Missing | y # ys \<Rightarrow> if y \<noteq> LF then Fail (j + 1) else At (j + 2) v)
     else if x \<noteq> LF then Fail j else At (j + 1) v)"

fun scan_then :: "'p scan \<Rightarrow> ('p \<Rightarrow> int \<Rightarrow> 'p scan) \<Rightarrow> 'p scan" where
  "scan_then (At p v) f = f p v"
| "scan_then r f = r"

definition end_s :: "byte list \<Rightarrow> nat \<Rightarrow> int \<Rightarrow> nat scan" where
  "end_s xs k v =
    (if http_is_crlf (xs ! k) then crlf_s (drop k xs) k v
     else if xs ! k = SEMICOLON
     then scan_then (skip_s (\<lambda>x. \<not> http_is_crlf x) (drop (k + 1) xs) (k + 1) v)
            (\<lambda>k v. crlf_s (drop k xs) k v)
     else Fail k)"

text \<open>The size line that starts at \<open>j\<close>: its value and where the data start.\<close>

definition size_s :: "byte list \<Rightarrow> nat \<Rightarrow> nat scan" where
  "size_s xs j =
    scan_then (hex_s (drop j xs) j 0)
      (\<lambda>k v. if k = j then Fail k
         else scan_then (skip_s http_is_spht (drop k xs) k v) (\<lambda>k v. end_s xs k v))"

subsection \<open>Refinement\<close>

definition pos :: "buffer \<Rightarrow> nat \<Rightarrow> nat" where
  "pos b j = (ptr b + j) mod bsize b"

text \<open>A well-formed buffer whose input does not fill it, and a position in the input.\<close>

definition ring_ok :: "buffer \<Rightarrow> bool" where
  "ring_ok b \<longleftrightarrow> buf_ok b \<and> inp b < bsize b"

lemma pos_read: "j < inp b \<Longrightarrow> data b ! pos b j = buf_in b ! j"
  by (simp add: pos_def buf_in_def nth_ring)

lemma pos_succ: "ring_ok b \<Longrightarrow> succ_ptr b (pos b j) = pos b (j + 1)"
proof -
  assume "ring_ok b"
  then have "(ptr b + j) mod bsize b < bsize b"
    by (intro mod_less_divisor) (auto simp: ring_ok_def buf_ok_def)
  then show ?thesis by (auto simp: succ_ptr_def pos_def mod_Suc)
qed

lemma pos_inj:
  assumes "ring_ok b" "i \<le> j" "j < bsize b"
  shows "pos b i = pos b j \<longleftrightarrow> i = j"
proof
  assume e: "pos b i = pos b j"
  show "i = j"
  proof (rule ccontr)
    assume "i \<noteq> j"
    moreover have "(ptr b + i + (j - i)) mod bsize b = (ptr b + i) mod bsize b"
      using e assms(2) by (simp add: pos_def)
    ultimately show False using mod_eq_small [of "ptr b + i" "j - i" "bsize b"] assms(2,3) by fastforce
  qed
qed simp

lemma pos_stop: "ring_ok b \<Longrightarrow> j \<le> inp b \<Longrightarrow> pos b j = bi_end b \<longleftrightarrow> j = inp b"
  using pos_inj [of b j "inp b"] by (simp add: ring_ok_def bi_end_mod pos_def)

lemma drop_in: "j < inp b \<Longrightarrow> drop j (buf_in b) = buf_in b ! j # drop (j + 1) (buf_in b)"
  by (simp add: Cons_nth_drop_Suc)

lemma buffer_count_pos:
  assumes "ring_ok b" "i \<le> j" "j < bsize b"
  shows "buffer_count b (pos b i) (pos b j) = j - i"
proof -
  have "ptr b < bsize b" using assms by (simp add: ring_ok_def buf_ok_def)
  then show ?thesis using assms
    by (auto simp: buffer_count_def pos_def mod_wrap Let_def)
qed

lemma hex_loop_refines:
  "ring_ok b \<Longrightarrow> j \<le> inp b \<Longrightarrow> inp b - j < n \<Longrightarrow>
    hex_loop n b (bi_end b) (pos b j) v = Some (map_scan (pos b) (hex_s (drop j (buf_in b)) j v))"
proof (induction n arbitrary: j v)
  case (Suc n)
  show ?case
  proof (cases "j = inp b")
    case True
    then show ?thesis using pos_stop [OF Suc.prems(1,2)] by simp
  next
    case False
    then have lt: "j < inp b" using Suc.prems by simp
    have "hex_loop n b (bi_end b) (pos b (j + 1)) (v * 16 + hex2i (buf_in b ! j))
        = Some (map_scan (pos b) (hex_s (drop (j + 1) (buf_in b)) (j + 1) (v * 16 + hex2i (buf_in b ! j))))"
      using lt Suc.prems by (intro Suc.IH) auto
    then show ?thesis using False pos_stop [OF Suc.prems(1,2)] pos_succ [OF Suc.prems(1), of j]
      by (simp add: drop_in lt pos_read Let_def)
  qed
qed simp

lemma skip_loop_refines:
  assumes "ring_ok b" "j < inp b" "inp b - j \<le> n"
  shows "spht_loop n b (bi_end b) (pos b j) v = Some (map_scan (pos b) (skip_s http_is_spht (drop j (buf_in b)) j v))"
    and "ext_loop n b (bi_end b) (pos b j) v
      = Some (map_scan (pos b) (skip_s (\<lambda>x. \<not> http_is_crlf x) (drop j (buf_in b)) j v))"
proof -
  have "spht_loop n b (bi_end b) (pos b j) v = Some (map_scan (pos b) (skip_s http_is_spht (drop j (buf_in b)) j v))
    \<and> ext_loop n b (bi_end b) (pos b j) v
      = Some (map_scan (pos b) (skip_s (\<lambda>x. \<not> http_is_crlf x) (drop j (buf_in b)) j v))"
    using assms
  proof (induction n arbitrary: j)
    case (Suc n)
    have s: "pos b (j + 1) = bi_end b \<longleftrightarrow> j + 1 = inp b"
      using pos_stop [OF Suc.prems(1), of "j + 1"] Suc.prems by simp
    show ?case
    proof (cases "j + 1 = inp b")
      case True
      then show ?thesis using Suc.prems s pos_succ [OF Suc.prems(1), of j]
        by (simp add: drop_in pos_read Let_def)
    next
      case False
      then show ?thesis using Suc.prems s Suc.IH [of "j + 1"] pos_succ [OF Suc.prems(1), of j]
        by (simp add: drop_in pos_read Let_def)
    qed
  qed simp
  then show "spht_loop n b (bi_end b) (pos b j) v = Some (map_scan (pos b) (skip_s http_is_spht (drop j (buf_in b)) j v))"
    "ext_loop n b (bi_end b) (pos b j) v
      = Some (map_scan (pos b) (skip_s (\<lambda>x. \<not> http_is_crlf x) (drop j (buf_in b)) j v))" by simp_all
qed

lemma crlf_refines:
  assumes b: "ring_ok b" and j: "j < inp b"
  shows "crlf_end b (bi_end b) (pos b j) v = Some (map_scan (pos b) (crlf_s (drop j (buf_in b)) j v))"
proof -
  have s: "pos b (Suc j) = bi_end b \<longleftrightarrow> j + 1 = inp b"
    using pos_stop [OF b, of "j + 1"] j by simp
  have p: "succ_ptr b (pos b k) = pos b (Suc k)" for k using pos_succ [OF b, of k] by simp
  show ?thesis
  proof (cases "j + 1 = inp b")
    case True
    then show ?thesis using s j by (simp add: crlf_end_def drop_in p pos_read Let_def)
  next
    case False
    then show ?thesis using s j drop_in [of "j + 1" b]
      by (auto simp: crlf_end_def drop_in p pos_read Let_def)
  qed
qed

lemma skip_s_at: "skip_s P xs j v = At k w \<Longrightarrow> j \<le> k \<and> k < j + length xs \<and> w = v"
  by (induction xs arbitrary: j) (fastforce split: if_splits)+

lemma hex_s_at: "hex_s xs j v = At k w \<Longrightarrow> j \<le> k \<and> k < j + length xs"
  by (induction xs arbitrary: j v) (fastforce split: if_splits)+

lemma end_refines:
  assumes b: "ring_ok b" and j: "j < inp b" and n: "inp b - j \<le> n"
  shows "size_end n b (bi_end b) (pos b j) v = Some (map_scan (pos b) (end_s (buf_in b) j v))"
proof (cases "http_is_crlf (buf_in b ! j) \<or> buf_in b ! j \<noteq> SEMICOLON")
  case True
  then show ?thesis using crlf_refines [OF b j] j by (auto simp: size_end_def end_s_def pos_read)
next
  case False
  have s: "pos b (Suc j) = bi_end b \<longleftrightarrow> j + 1 = inp b"
    using pos_stop [OF b, of "j + 1"] j by simp
  show ?thesis
  proof (cases "j + 1 = inp b")
    case True
    then show ?thesis using False s j pos_succ [OF b, of j]
      by (auto simp: size_end_def end_s_def pos_read Let_def)
  next
    case l: False
    let ?r = "skip_s (\<lambda>x. \<not> http_is_crlf x) (drop (j + 1) (buf_in b)) (j + 1) v"
    have e: "ext_loop n b (bi_end b) (pos b (j + 1)) v = Some (map_scan (pos b) ?r)"
      using l j n by (intro skip_loop_refines [OF b]) auto
    have "size_end n b (bi_end b) (pos b j) v
        = scan_bind (Some (map_scan (pos b) ?r)) (\<lambda>p v. crlf_end b (bi_end b) p v)"
      using False s l j e pos_succ [OF b, of j] by (auto simp: size_end_def pos_read Let_def)
    also have "\<dots> = Some (map_scan (pos b) (scan_then ?r (\<lambda>k v. crlf_s (drop k (buf_in b)) k v)))"
    proof (cases ?r)
      case (At k w)
      then have "k < inp b" using skip_s_at [OF At] l j by simp
      then show ?thesis using At crlf_refines [OF b] by simp
    qed simp_all
    finally show ?thesis using False by (auto simp: end_s_def)
  qed
qed

lemma scan_size_refines:
  assumes b: "ring_ok b" and j: "j \<le> inp b" and n: "inp b < n"
  shows "scan_size n b (bi_end b) (pos b j) = Some (map_scan (pos b) (size_s (buf_in b) j))"
proof -
  let ?h = "hex_s (drop j (buf_in b)) j 0"
  have h: "hex_loop n b (bi_end b) (pos b j) 0 = Some (map_scan (pos b) ?h)"
    using n by (intro hex_loop_refines [OF b j]) simp
  show ?thesis
  proof (cases ?h)
    case (At k w)
    have k: "j \<le> k" "k < inp b" using hex_s_at [OF At] j by simp_all
    let ?r = "skip_s http_is_spht (drop k (buf_in b)) k w"
    have e: "spht_loop n b (bi_end b) (pos b k) w = Some (map_scan (pos b) ?r)"
      using k n by (intro skip_loop_refines [OF b]) auto
    have "scan_bind (Some (map_scan (pos b) ?r)) (\<lambda>p v. size_end n b (bi_end b) p v)
        = Some (map_scan (pos b) (scan_then ?r (\<lambda>k v. end_s (buf_in b) k v)))"
    proof (cases ?r)
      case (At i w')
      then have "i < inp b" using skip_s_at [OF At] k by simp
      then show ?thesis using At n end_refines [OF b] by simp
    qed simp_all
    moreover have "pos b j = pos b k \<longleftrightarrow> j = k"
      using pos_inj [OF b, of j k] k b by (auto simp: ring_ok_def)
    ultimately show ?thesis using At h e by (auto simp: scan_size_def size_s_def)
  qed (use h in \<open>simp_all add: scan_size_def size_s_def\<close>)
qed

subsection \<open>Properties\<close>

text \<open>What the parser does with the verdict of the list level.\<close>

definition chunk_result :: "body_msg \<Rightarrow> nat scan \<Rightarrow> int \<times> body_msg" where
  "chunk_result m r =
    (case r of
       Missing \<Rightarrow> (0, m)
     | Fail j \<Rightarrow> (- 1, m\<lparr>berr_pos := int j\<rparr>)
     | At j chunk \<Rightarrow> (1, m\<lparr>bsol := j - bnext m, bnext := j, chunk_len := chunk,
         body_len := (body_len m + chunk) mod 2 ^ 64,
         bstate := (if chunk \<noteq> 0 then HTTP_MSG_DATA else HTTP_MSG_TRAILERS)\<rparr>))"

lemma crlf_s_bound: "crlf_s xs j v = At k w \<Longrightarrow> j \<le> k \<and> k \<le> j + length xs"
  "crlf_s xs j v = Fail k \<Longrightarrow> k < j + length xs"
  by (cases xs; auto split: if_splits list.splits)+

lemma skip_s_fail: "skip_s P xs j v \<noteq> Fail k"
  by (induction xs arbitrary: j) auto

lemma hex_s_fail: "hex_s xs j v = Fail k \<Longrightarrow> k \<le> j + length xs"
  by (induction xs arbitrary: j v) (fastforce split: if_splits)+

lemma end_s_bound:
  assumes "k < length xs"
  shows "end_s xs k v = At i w \<Longrightarrow> k \<le> i \<and> i \<le> length xs" and "end_s xs k v = Fail i \<Longrightarrow> i \<le> length xs"
proof -
  let ?r = "skip_s (\<lambda>x. \<not> http_is_crlf x) (drop (k + 1) xs) (k + 1) v"
  show "k \<le> i \<and> i \<le> length xs" if "end_s xs k v = At i w"
    using that assms crlf_s_bound(1) [of "drop k xs" k v i w]
    by (cases ?r) (auto simp: end_s_def split: if_splits dest!: skip_s_at crlf_s_bound)
  show "i \<le> length xs" if "end_s xs k v = Fail i"
    using that assms crlf_s_bound(2) [of "drop k xs" k v i] skip_s_fail [of "\<lambda>x. \<not> http_is_crlf x" "drop (k + 1) xs" "k + 1" v]
    by (cases ?r) (auto simp: end_s_def split: if_splits dest!: skip_s_at crlf_s_bound)
qed

lemma size_s_bound:
  assumes "j \<le> length xs"
  shows "size_s xs j = At i w \<Longrightarrow> j \<le> i \<and> i \<le> length xs" and "size_s xs j = Fail i \<Longrightarrow> i \<le> length xs"
proof -
  let ?h = "hex_s (drop j xs) j 0"
  have k: "j \<le> k \<and> k < length xs" if "?h = At k v" for k v using hex_s_at [OF that] assms by simp
  have l: "k \<le> l \<and> l < length xs \<and> v' = v"
    if "skip_s http_is_spht (drop k xs) k v = At l v'" "k < length xs" for k l v v'
    using skip_s_at [OF that(1)] that(2) by simp
  have z: "\<exists>k v l. j \<le> l \<and> l < length xs \<and> (size_s xs j = end_s xs l v \<or> size_s xs j = Missing)
      \<or> size_s xs j = Missing \<or> size_s xs j = Fail k \<and> k \<le> length xs"
  proof (cases ?h)
    case (At k v)
    then show ?thesis using k [OF At] l [of k v]
      by (cases "skip_s http_is_spht (drop k xs) k v")
        (fastforce simp: size_s_def skip_s_fail)+
  next
    case (Fail k)
    then show ?thesis using hex_s_fail [OF Fail] assms by (auto simp: size_s_def)
  qed (auto simp: size_s_def)
  show "j \<le> i \<and> i \<le> length xs" if "size_s xs j = At i w"
    using z that by (auto dest!: end_s_bound(1) [OF _ sym, rotated])
  show "i \<le> length xs" if "size_s xs j = Fail i"
    using z that by (auto dest!: end_s_bound(2) [OF _ sym, rotated])
qed

lemma chunk_size_list:
  assumes "ring_ok (bbuf m)" "bnext m \<le> inp (bbuf m)"
  shows "http_parse_chunk_size m = Some (chunk_result m (size_s (buf_in (bbuf m)) (bnext m)))"
proof -
  let ?b = "bbuf m" and ?j = "bnext m"
  have p: "b_ptr ?b (int ?j) = pos ?b ?j"
    using assms by (auto simp: pos_def ring_ok_def buf_ok_def intro!: b_ptr_pos)
  have "inp ?b < bsize ?b" using assms(1) by (simp add: ring_ok_def)
  then have r: "scan_size (bsize ?b + 1) ?b (bi_end ?b) (pos ?b ?j) = Some (map_scan (pos ?b) (size_s (buf_in ?b) ?j))"
    by (intro scan_size_refines [OF assms]) simp
  have z: "ptr ?b = pos ?b 0" using assms by (simp add: pos_def ring_ok_def buf_ok_def)
  have c: "buffer_count ?b (pos ?b i) (pos ?b k) = k - i" if "i \<le> k" "k \<le> inp ?b" for i k
    using assms that by (intro buffer_count_pos) (auto simp: ring_ok_def)
  show ?thesis
    using size_s_bound [of ?j "buf_in ?b"] assms(2)
    unfolding http_parse_chunk_size_def Let_def p r
    by (cases "size_s (buf_in ?b) ?j") (simp_all add: chunk_result_def z c)
qed

text \<open>C10: on any well-formed buffer that its input does not fill, wrapped or not,
  \<open>http_parse_chunk_size\<close> returns, and its result is that of the size line read from the input
  in order: lack of data changes nothing, an error is located, a success moves to the data.\<close>

theorem chunk_size_refines:
  assumes "ring_ok (bbuf m)" "bnext m \<le> inp (bbuf m)"
  shows "http_parse_chunk_size m = Some (chunk_result m (size_s (buf_in (bbuf m)) (bnext m)))"
  using assms by (rule chunk_size_list)

theorem chunk_size_refines_witness:
  "http_parse_chunk_size \<lparr>bbuf = \<lparr>data = [97, CR, LF, 0, 0, 49], ptr = 5, inp = 4, out = 0\<rparr>, bnext = 0,
      bsol = 0, bstate = HTTP_MSG_CHUNK_SIZE, chunk_len = 0, body_len = 5, berr_pos = - 1\<rparr>
    = Some (1, \<lparr>bbuf = \<lparr>data = [97, CR, LF, 0, 0, 49], ptr = 5, inp = 4, out = 0\<rparr>, bnext = 4,
        bsol = 4, bstate = HTTP_MSG_DATA, chunk_len = 26, body_len = 31, berr_pos = - 1\<rparr>)"
proof -
  let ?b = "\<lparr>data = [97, CR, LF, 0, 0, 49], ptr = 5, inp = 4, out = 0\<rparr> :: buffer"
  have "size_s (buf_in ?b) 0 = At 4 26" by code_simp
  then show ?thesis
    using chunk_size_refines [of "\<lparr>bbuf = ?b, bnext = 0, bsol = 0, bstate = HTTP_MSG_CHUNK_SIZE,
      chunk_len = 0, body_len = 5, berr_pos = - 1\<rparr>"]
    by (simp add: ring_ok_def buf_ok_def chunk_result_def)
qed

text \<open>The number that a string of hexadecimal digits denotes.\<close>

definition hex_value :: "byte list \<Rightarrow> int" where
  "hex_value ds = foldl (\<lambda>v x. v * 16 + hex2i x) 0 ds"

lemma hex2i_le: "hex2i x \<le> 15"
proof -
  have "list_all (\<lambda>n. hex2i (of_nat n) \<le> 15) [0..<256]" by code_simp
  then have "\<forall>n \<in> {0..<256}. hex2i (of_nat n) \<le> 15" by (simp only: list_all_iff set_upt)
  then have "hex2i (of_nat (unat x)) \<le> 15" by (rule bspec) (use byte_less_256 [of x] in simp)
  then show ?thesis by simp
qed

lemma hex_fold_mono:
  "list_all (\<lambda>x. 0 \<le> hex2i x) ds \<Longrightarrow> 0 \<le> v \<Longrightarrow> v \<le> foldl (\<lambda>v x. v * 16 + hex2i x) v ds"
proof (induction ds arbitrary: v)
  case (Cons x ds)
  have "v \<le> v * 16 + hex2i x" using Cons.prems by simp
  also have "\<dots> \<le> foldl (\<lambda>v x. v * 16 + hex2i x) (v * 16 + hex2i x) ds" using Cons by simp
  finally show ?case by simp
qed simp

lemma hex_s_value:
  "list_all (\<lambda>x. 0 \<le> hex2i x) ds \<Longrightarrow> 0 \<le> v \<Longrightarrow> foldl (\<lambda>v x. v * 16 + hex2i x) v ds < 2 ^ 31 \<Longrightarrow>
    hex2i y < 0 \<Longrightarrow>
    hex_s (ds @ y # ys) j v = At (j + length ds) (foldl (\<lambda>v x. v * 16 + hex2i x) v ds)"
proof (induction ds arbitrary: j v)
  case (Cons x ds)
  have x: "0 \<le> hex2i x" using Cons.prems by simp
  have "v * 16 + hex2i x \<le> foldl (\<lambda>v x. v * 16 + hex2i x) (v * 16 + hex2i x) ds"
    using Cons.prems x by (intro hex_fold_mono) simp_all
  then have "v < 2 ^ 27" using Cons.prems x by simp
  then show ?case using Cons.IH [of "v * 16 + hex2i x" "j + 1"] Cons.prems x by simp
qed simp

lemma hex_s_overflow:
  "list_all (\<lambda>x. 0 \<le> hex2i x) ds \<Longrightarrow> 0 \<le> v \<Longrightarrow> v < 2 ^ 31 \<Longrightarrow>
    2 ^ 31 \<le> foldl (\<lambda>v x. v * 16 + hex2i x) v ds \<Longrightarrow> \<exists>k. hex_s (ds @ ys) j v = Fail k"
proof (induction ds arbitrary: j v)
  case (Cons x ds)
  show ?case
  proof (cases "v < 2 ^ 27")
    case True
    then have "v * 16 + hex2i x < 2 ^ 31" using hex2i_le [of x] by simp
    then show ?thesis using Cons.IH [of "v * 16 + hex2i x" "j + 1"] Cons.prems True by simp
  next
    case False
    then show ?thesis using Cons.prems by simp
  qed
qed simp

text \<open>C11: a chunk size line of hexadecimal digits and a line end gives exactly the number the
  digits denote when it is below \<open>2 ^ 31\<close>, with the data starting right after the line end, and
  is an error above.\<close>

theorem chunk_size_value:
  assumes "ring_ok (bbuf m)" "bnext m \<le> inp (bbuf m)"
    and line: "drop (bnext m) (buf_in (bbuf m)) = ds @ [CR, LF] @ rest"
    and ds: "ds \<noteq> []" "list_all (\<lambda>x. 0 \<le> hex2i x) ds"
  shows "(hex_value ds < 2 ^ 31 \<longrightarrow>
      (\<exists>m'. http_parse_chunk_size m = Some (1, m') \<and> chunk_len m' = hex_value ds
        \<and> bnext m' = bnext m + length ds + 2))
    \<and> (hex_value ds \<ge> 2 ^ 31 \<longrightarrow> (\<exists>m'. http_parse_chunk_size m = Some (- 1, m')))"
proof (intro conjI)
  let ?xs = "buf_in (bbuf m)" and ?j = "bnext m"
  let ?k = "?j + length ds"
  have cr: "hex2i CR < 0" by code_simp
  have dk: "drop ?k ?xs = CR # LF # rest"
    using arg_cong [OF line, of "drop (length ds)"] by (simp add: add.commute)
  have nth: "?xs ! ?k = CR" using dk by (metis hd_drop_conv_nth list.sel(1) length_drop list.discI not_less drop_all)
  have sp: "\<not> http_is_spht CR" "http_is_crlf CR" by (simp_all add: http_is_spht_def http_is_crlf_def)
  show "hex_value ds < 2 ^ 31 \<longrightarrow>
      (\<exists>m'. http_parse_chunk_size m = Some (1, m') \<and> chunk_len m' = hex_value ds \<and> bnext m' = bnext m + length ds + 2)"
  proof
    assume "hex_value ds < 2 ^ 31"
    then have "hex_s (drop ?j ?xs) ?j 0 = At ?k (hex_value ds)"
      using hex_s_value [of ds 0 CR "LF # rest" ?j] ds cr by (simp add: line hex_value_def)
    then have "size_s ?xs ?j = At (?k + 2) (hex_value ds)"
      using ds(1) dk nth sp by (simp add: size_s_def end_s_def)
    then show "\<exists>m'. http_parse_chunk_size m = Some (1, m') \<and> chunk_len m' = hex_value ds
        \<and> bnext m' = bnext m + length ds + 2"
      using chunk_size_list [OF assms(1,2)] by (simp add: chunk_result_def)
  qed
  show "hex_value ds \<ge> 2 ^ 31 \<longrightarrow> (\<exists>m'. http_parse_chunk_size m = Some (- 1, m'))"
  proof
    assume "hex_value ds \<ge> 2 ^ 31"
    then obtain k where "hex_s (drop ?j ?xs) ?j 0 = Fail k"
      using hex_s_overflow [of ds 0 "CR # LF # rest" ?j] ds by (auto simp: line hex_value_def)
    then show "\<exists>m'. http_parse_chunk_size m = Some (- 1, m')"
      using chunk_size_list [OF assms(1,2)] by (simp add: size_s_def chunk_result_def)
  qed
qed

theorem chunk_size_value_witness:
  "\<exists>m'. http_parse_chunk_size \<lparr>bbuf = \<lparr>data = [49, 48, CR, LF, 0, 0], ptr = 0, inp = 4, out = 0\<rparr>,
      bnext = 0, bsol = 0, bstate = HTTP_MSG_CHUNK_SIZE, chunk_len = 0, body_len = 0, berr_pos = - 1\<rparr>
      = Some (1, m') \<and> chunk_len m' = 16"
proof -
  let ?b = "\<lparr>data = [49, 48, CR, LF, 0, 0], ptr = 0, inp = 4, out = 0\<rparr> :: buffer"
  have "drop 0 (buf_in ?b) = [49, 48] @ [CR, LF] @ []" "list_all (\<lambda>x. 0 \<le> hex2i x) [49, 48]"
    "hex_value [49, 48] = 16" by code_simp+
  then show ?thesis
    using chunk_size_value [of "\<lparr>bbuf = ?b, bnext = 0, bsol = 0, bstate = HTTP_MSG_CHUNK_SIZE,
      chunk_len = 0, body_len = 0, berr_pos = - 1\<rparr>" "[49, 48]" "[]"]
    by (auto simp: ring_ok_def buf_ok_def)
qed

end
