(* ===== verification/HA_Http_Hdr.thy ===== *)
theory HA_Http_Hdr
  imports HA_Http_Lines
begin

section \<open>Headers, cookies and URLs (src/proto_http.c)\<close>

text \<open>
  The functions that read and edit the headers of a parsed message through its
  index.  A pointer into the message is a position in \<open>area\<close>.  The walk over the
  index takes at most as many steps as the array has entries; that number is its
  fuel, and a walk that needs more (a cyclic index) is None.
\<close>

subsection \<open>Character functions of the C library\<close>

definition tolower :: "byte \<Rightarrow> byte" where
  "tolower c = (if 65 \<le> c \<and> c \<le> 90 then c + 32 else c)"

definition isalpha :: "byte \<Rightarrow> bool" where
  "isalpha c \<longleftrightarrow> 65 \<le> c \<and> c \<le> 90 \<or> 97 \<le> c \<and> c \<le> 122"

definition isalnum :: "byte \<Rightarrow> bool" where
  "isalnum c \<longleftrightarrow> isalpha c \<or> is_digit c"

text \<open>\<open>strncasecmp(a, b, n) == 0\<close>, where a common zero ends both strings.\<close>

fun strncasecmp_eq :: "byte list \<Rightarrow> byte list \<Rightarrow> nat \<Rightarrow> bool" where
  "strncasecmp_eq a b 0 \<longleftrightarrow> True"
| "strncasecmp_eq a b (Suc n) \<longleftrightarrow>
    tolower (cur a) = tolower (cur b) \<and> (cur a = NUL \<or> strncasecmp_eq (tl a) (tl b) n)"

subsection \<open>Values\<close>

text \<open>
  \<open>find_hdr_value_end\<close> and \<open>find_cookie_value_end\<close> differ in the delimiters: the
  position of the first one outside quotes, or the end.
\<close>

fun value_end :: "(byte \<Rightarrow> bool) \<Rightarrow> bool \<Rightarrow> bool \<Rightarrow> byte list \<Rightarrow> nat" where
  "value_end delim quoted qdpair [] = 0"
| "value_end delim quoted qdpair (c # s) =
    (if qdpair then Suc (value_end delim quoted False s)
     else if quoted then
       (if c = BACKSLASH then Suc (value_end delim quoted True s)
        else if c = DQUOTE then Suc (value_end delim False qdpair s)
        else Suc (value_end delim quoted qdpair s))
     else if c = DQUOTE then Suc (value_end delim True qdpair s)
     else if delim c then 0
     else Suc (value_end delim quoted qdpair s))"

definition find_hdr_value_end :: "byte list \<Rightarrow> nat" where
  "find_hdr_value_end s = value_end (\<lambda>c. c = COMMA) False False s"

definition find_cookie_value_end :: "byte list \<Rightarrow> nat" where
  "find_cookie_value_end s = value_end (\<lambda>c. c = COMMA \<or> c = SEMICOLON) False False s"

text \<open>Positions of the first byte from \<open>i\<close> to \<open>e\<close> that is not in a class, and of the last one.\<close>

definition skip_while :: "(byte \<Rightarrow> bool) \<Rightarrow> byte list \<Rightarrow> nat \<Rightarrow> nat \<Rightarrow> nat" where
  "skip_while P d i e = i + length (takeWhile P (take (e - i) (drop i d)))"

definition trim_back :: "(byte \<Rightarrow> bool) \<Rightarrow> byte list \<Rightarrow> nat \<Rightarrow> nat \<Rightarrow> nat" where
  "trim_back P d i e = e - length (takeWhile P (rev (take (e - i) (drop i d))))"

definition http_header_match2 :: "byte list \<Rightarrow> nat \<Rightarrow> nat \<Rightarrow> byte list \<Rightarrow> nat \<Rightarrow> nat" where
  "http_header_match2 d hdr en name len =
    (if hdr + len \<ge> en then 0
     else if d ! (hdr + len) \<noteq> COLON then 0
     else if \<not> strncasecmp_eq (drop hdr d) name len then 0
     else let val = skip_while http_is_spht d (hdr + len + 1) en
          in if val \<ge> en \<and> len + 2 \<le> en - hdr then len + 2 else val - hdr)"

subsection \<open>Lookups\<close>

record hdr_ctx =
  cline :: nat
  cidx :: nat
  cval :: nat
  cvlen :: nat
  ctws :: nat
  cdel :: nat
  cprev :: nat

text \<open>With no name, the name of the line under the cursor is taken, for good.\<close>

definition any_name :: "byte list \<Rightarrow> nat \<Rightarrow> nat \<Rightarrow> byte list \<Rightarrow> nat \<Rightarrow> byte list \<times> nat" where
  "any_name d ln le name len =
    (if len = 0 then (drop ln d, length (takeWhile (\<lambda>c. c \<noteq> COLON) (take (le - ln) (drop ln d))))
     else (name, len))"

definition name_matches :: "byte list \<Rightarrow> nat \<Rightarrow> nat \<Rightarrow> byte list \<Rightarrow> nat \<Rightarrow> bool" where
  "name_matches d ln le name len \<longleftrightarrow>
    len < le - ln \<and> d ! (ln + len) = COLON \<and> strncasecmp_eq (drop ln d) name len"

text \<open>
  \<open>found\<close> is what happens with a match: the whole line for
  \<open>http_find_full_header2\<close>, one value of a list for \<open>http_find_header2\<close>.
\<close>

definition full_value :: "byte list \<Rightarrow> nat \<Rightarrow> nat \<Rightarrow> nat \<Rightarrow> hdr_ctx \<Rightarrow> hdr_ctx" where
  "full_value d ln va le c =
    (let e = trim_back http_is_lws d va le
     in c\<lparr>cval := va - ln, ctws := le - e, cvlen := e - va\<rparr>)"

definition list_value :: "byte list \<Rightarrow> nat \<Rightarrow> nat \<Rightarrow> nat \<Rightarrow> hdr_ctx \<Rightarrow> hdr_ctx" where
  "list_value d ln va le c =
    full_value d ln va (va + find_hdr_value_end (take (le - va) (drop va d))) c"

fun find_hdr_loop ::
  "(byte list \<Rightarrow> nat \<Rightarrow> nat \<Rightarrow> nat \<Rightarrow> hdr_ctx \<Rightarrow> hdr_ctx) \<Rightarrow> nat \<Rightarrow> byte list \<Rightarrow> hdr_idx \<Rightarrow> byte list \<Rightarrow> nat
    \<Rightarrow> nat \<Rightarrow> nat \<Rightarrow> nat \<Rightarrow> hdr_ctx \<Rightarrow> (bool \<times> hdr_ctx) option" where
  "find_hdr_loop found fuel d l name len ln old 0 c = Some (False, c)"
| "find_hdr_loop found 0 d l name len ln old (Suc k) c = None"
| "find_hdr_loop found (Suc fuel) d l name len ln old (Suc k) c =
    (let cur_idx = Suc k;
         le = ln + hlen (hv l ! cur_idx);
         (name, len) = any_name d ln le name len
     in if name_matches d ln le name len then
          let va = skip_while http_is_lws d (ln + len + 1) le
          in Some (True, found d ln va le (c\<lparr>cdel := len, cline := ln, cprev := old, cidx := cur_idx\<rparr>))
        else find_hdr_loop found fuel d l name len (le + hcr (hv l ! cur_idx) + 1) cur_idx
               (hnext (hv l ! cur_idx)) c)"

definition next_hdr ::
  "(byte list \<Rightarrow> nat \<Rightarrow> nat \<Rightarrow> nat \<Rightarrow> hdr_ctx \<Rightarrow> hdr_ctx) \<Rightarrow> byte list \<Rightarrow> hdr_idx \<Rightarrow> byte list \<Rightarrow> nat
    \<Rightarrow> hdr_ctx \<Rightarrow> (bool \<times> hdr_ctx) option" where
  "next_hdr found d l name len c =
    (let e = hv l ! cidx c
     in find_hdr_loop found (hsize l) d l name len (cline c + hlen e + hcr e + 1) (cidx c) (hnext e) c)"

definition first_hdr ::
  "(byte list \<Rightarrow> nat \<Rightarrow> nat \<Rightarrow> nat \<Rightarrow> hdr_ctx \<Rightarrow> hdr_ctx) \<Rightarrow> byte list \<Rightarrow> hdr_idx \<Rightarrow> byte list \<Rightarrow> nat
    \<Rightarrow> hdr_ctx \<Rightarrow> (bool \<times> hdr_ctx) option" where
  "first_hdr found d l name len c =
    find_hdr_loop found (hsize l) d l name len (hdr_idx_first_pos l) 0 (hdr_idx_first_idx l) c"

definition http_find_full_header2 ::
  "byte list \<Rightarrow> nat \<Rightarrow> byte list \<Rightarrow> hdr_idx \<Rightarrow> hdr_ctx \<Rightarrow> (bool \<times> hdr_ctx) option" where
  "http_find_full_header2 name len d l c =
    (if cidx c \<noteq> 0 then next_hdr full_value d l name len c else first_hdr full_value d l name len c)"

definition http_find_header2 ::
  "byte list \<Rightarrow> nat \<Rightarrow> byte list \<Rightarrow> hdr_idx \<Rightarrow> hdr_ctx \<Rightarrow> (bool \<times> hdr_ctx) option" where
  "http_find_header2 name len d l c =
    (if cidx c \<noteq> 0 then
       let c = c\<lparr>cdel := cval c + cvlen c + ctws c\<rparr>;
           va = cline c + cdel c;
           le = cline c + hlen (hv l ! cidx c)
       in if va \<ge> le then next_hdr list_value d l name len c
          else Some (True, list_value d (cline c) (skip_while http_is_lws d (va + 1) le) le c)
     else first_hdr list_value d l name len c)"

text \<open>
  \<open>http_get_hdr\<close> and \<open>http_get_fhdr\<close> take an occurrence from the front, or from the
  back through a ring of the last ten values; \<open>lookup_next\<close> is the lookup they repeat.
\<close>

abbreviation MAX_HDR_HISTORY :: nat where "MAX_HDR_HISTORY \<equiv> 10"

datatype occurrence = NotFound | Value nat nat | OutOfBounds

fun nth_value ::
  "nat \<Rightarrow> (hdr_ctx \<Rightarrow> (bool \<times> hdr_ctx) option) \<Rightarrow> int \<Rightarrow> hdr_ctx \<Rightarrow> occurrence option" where
  "nth_value 0 lookup_next occ c = None"
| "nth_value (Suc fuel) lookup_next occ c =
    (case lookup_next c of
       None \<Rightarrow> None
     | Some (False, c) \<Rightarrow> Some NotFound
     | Some (True, c) \<Rightarrow>
         let occ = occ - 1
         in if occ \<le> 0 then Some (Value (cline c + cval c) (cvlen c)) else nth_value fuel lookup_next occ c)"

fun history ::
  "nat \<Rightarrow> (hdr_ctx \<Rightarrow> (bool \<times> hdr_ctx) option) \<Rightarrow> hdr_ctx \<Rightarrow> (nat \<times> nat) list \<Rightarrow> nat \<Rightarrow> nat
    \<Rightarrow> ((nat \<times> nat) list \<times> nat \<times> nat) option" where
  "history 0 lookup_next c hist hist_ptr found = None"
| "history (Suc fuel) lookup_next c hist hist_ptr found =
    (case lookup_next c of
       None \<Rightarrow> None
     | Some (False, c) \<Rightarrow> Some (hist, hist_ptr, found)
     | Some (True, c) \<Rightarrow>
         history fuel lookup_next c (hist[hist_ptr := (cline c + cval c, cvlen c)])
           (if hist_ptr + 1 \<ge> MAX_HDR_HISTORY then 0 else hist_ptr + 1) (found + 1))"

definition from_history :: "(nat \<times> nat) list \<Rightarrow> int \<Rightarrow> occurrence" where
  "from_history hist i =
    (let i = i mod 2 ^ 32;
         i = (if i \<ge> int MAX_HDR_HISTORY then i - int MAX_HDR_HISTORY else i)
     in if i < int MAX_HDR_HISTORY then (case hist ! nat i of (p, n) \<Rightarrow> Value p n) else OutOfBounds)"

definition get_occurrence ::
  "int \<Rightarrow> nat \<Rightarrow> (hdr_ctx \<Rightarrow> (bool \<times> hdr_ctx) option) \<Rightarrow> int \<Rightarrow> hdr_ctx \<Rightarrow> occurrence option" where
  "get_occurrence bias fuel lookup_next occ c =
    (if occ \<ge> 0 then nth_value fuel lookup_next occ c
     else if - occ > int MAX_HDR_HISTORY then Some NotFound
     else case history fuel lookup_next c (replicate MAX_HDR_HISTORY (0, 0)) 0 0 of
       None \<Rightarrow> None
     | Some (hist, hist_ptr, found) \<Rightarrow>
         Some (if - occ > int found then NotFound else from_history hist (int hist_ptr + occ + bias)))"

definition http_get_hdr ::
  "nat \<Rightarrow> byte list \<Rightarrow> nat \<Rightarrow> byte list \<Rightarrow> hdr_idx \<Rightarrow> int \<Rightarrow> hdr_ctx \<Rightarrow> occurrence option" where
  "http_get_hdr fuel name len d l occ c =
    get_occurrence (int MAX_HDR_HISTORY) fuel (http_find_header2 name len d l) occ c"

definition http_get_fhdr ::
  "nat \<Rightarrow> byte list \<Rightarrow> nat \<Rightarrow> byte list \<Rightarrow> hdr_idx \<Rightarrow> int \<Rightarrow> hdr_ctx \<Rightarrow> occurrence option" where
  "http_get_fhdr fuel name len d l occ c =
    get_occurrence 0 fuel (http_find_full_header2 name len d l) occ c"

subsection \<open>Editing\<close>

definition splice :: "byte list \<Rightarrow> nat \<Rightarrow> nat \<Rightarrow> byte list \<Rightarrow> byte list" where
  "splice d a b str = take a d @ str @ drop b d"

definition move_end :: "int \<Rightarrow> http_msg \<Rightarrow> http_msg" where
  "move_end n m = m\<lparr>nxt := nat (int (nxt m) + n), sov := nat (int (sov m) + n), eoh := nat (int (eoh m) + n)\<rparr>"

text \<open>\<open>room\<close> is what the buffer has left behind its input.\<close>

definition http_header_add_tail2 :: "nat \<Rightarrow> byte list \<Rightarrow> http_msg \<Rightarrow> (int \<times> http_msg) option" where
  "http_header_add_tail2 room hdr m =
    (if length hdr + 2 \<ge> room then Some (- 1, m)
     else let m = move_end (int (length hdr) + 2) (m\<lparr>area := splice (area m) (eoh m) (eoh m) (hdr @ [CR, LF])\<rparr>)
          in map_option (\<lambda>(r, l). (r, m\<lparr>idx := l\<rparr>)) (hdr_idx_add (length hdr) True (idx m) (tail (idx m))))"

definition http_remove_header2 :: "http_msg \<Rightarrow> hdr_ctx \<Rightarrow> nat \<times> http_msg \<times> hdr_ctx" where
  "http_remove_header2 m c =
    (let l = idx m; cur_idx = cidx c; ln = cline c; hdr = hv l ! cur_idx;
         en = cval c + cvlen c + ctws c
     in if cur_idx = 0 then (0, m, c)
        else if area m ! (ln + cdel c) = COLON \<and> en = hlen hdr then
          let n = hlen hdr + hcr hdr + 1;
              m = move_end (- int n) (m\<lparr>area := splice (area m) ln (ln + n) []\<rparr>);
              v = (hv l)[cur_idx := hdr\<lparr>hlen := 0\<rparr>];
              v = v[cprev c := (v ! cprev c)\<lparr>hnext := hnext hdr\<rparr>];
              l = l\<lparr>hv := v, used := used l - 1, tail := (if tail l = cur_idx then cprev c else tail l)\<rparr>;
              c = c\<lparr>cidx := cprev c, cline := cline c - (hlen (v ! cprev c) + hcr (v ! cur_idx) + 1),
                    cval := hlen (v ! cprev c), ctws := 0, cvlen := 0\<rparr>
          in (cidx c, m\<lparr>idx := l\<rparr>, c)
        else
          let skip_comma = (if en = hlen hdr then 0 else 1);
              delta = int en - int (cdel c);
              m = move_end (- delta)
                    (m\<lparr>area := splice (area m) (ln + cdel c + skip_comma) (ln + en + skip_comma) []\<rparr>);
              l = l\<lparr>hv := (hv l)[cur_idx := hdr\<lparr>hlen := nat (int (hlen hdr) - delta)\<rparr>]\<rparr>;
              c = c\<lparr>cval := cdel c, ctws := 0, cvlen := 0\<rparr>
          in (cidx c, m\<lparr>idx := l\<rparr>, c))"

subsection \<open>Cookies\<close>

text \<open>The name of an attribute: \<open>equal\<close> and \<open>att_end\<close> from \<open>equal\<close> on.\<close>

function att_scan :: "bool \<Rightarrow> byte list \<Rightarrow> nat \<Rightarrow> nat \<Rightarrow> nat \<Rightarrow> nat \<times> nat" where
  "att_scan lst d en equal att_end =
    (if equal < en then
       if d ! equal = EQUALS \<or> d ! equal = SEMICOLON \<or> lst \<and> d ! equal = COMMA then (equal, att_end)
       else if http_is_spht (d ! equal) then att_scan lst d en (equal + 1) att_end
       else att_scan lst d en (equal + 1) (equal + 1)
     else (equal, att_end))"
  by auto
termination by (relation "measure (\<lambda>(_, _, en, equal, _). en - equal)") auto

declare att_scan.simps [simp del]

record cookie =
  att_beg :: nat
  att_end :: nat
  equal_pos :: nat
  val_beg :: nat
  val_end :: nat
  next_pos :: nat

definition parse_cookie :: "bool \<Rightarrow> byte list \<Rightarrow> nat \<Rightarrow> nat \<Rightarrow> cookie" where
  "parse_cookie lst d en beg =
    (let beg = skip_while http_is_spht d beg en;
         (equal, ae) = att_scan lst d en beg beg
     in if equal < en \<and> d ! equal = EQUALS then
          let vb = skip_while http_is_spht d (equal + 1) en;
              nx = vb + find_cookie_value_end (take (en - vb) (drop vb d))
          in \<lparr>att_beg = beg, att_end = ae, equal_pos = equal, val_beg = vb,
              val_end = trim_back http_is_spht d vb nx, next_pos = nx\<rparr>
        else \<lparr>att_beg = beg, att_end = ae, equal_pos = equal, val_beg = equal, val_end = equal, next_pos = equal\<rparr>)"

text \<open>The value's position and length, and where to go on from; a byte \<open>'$'\<close> is 36.\<close>

fun extract_cookie_value ::
  "nat \<Rightarrow> byte list \<Rightarrow> nat \<Rightarrow> nat \<Rightarrow> byte list \<Rightarrow> bool \<Rightarrow> (nat \<times> nat \<times> nat) option option" where
  "extract_cookie_value 0 d hdr en name lst = None"
| "extract_cookie_value (Suc fuel) d hdr en name lst =
    (if hdr + length name + 1 < en then
       let k = parse_cookie lst d en hdr
       in if at d (att_beg k) = 36 \<or> equal_pos k = next_pos k
          then extract_cookie_value fuel d (next_pos k + 1) en name lst
          else if att_end k - att_beg k = length name \<and> take (length name) (drop (att_beg k) d) = name
          then Some (Some (val_beg k, val_end k - val_beg k, next_pos k + 1))
          else if \<not> lst then Some None
          else extract_cookie_value fuel d (next_pos k + 1) en name lst
     else Some None)"

subsection \<open>Methods, paths and parameters\<close>

datatype http_meth = HTTP_METH_NONE | HTTP_METH_OPTIONS | HTTP_METH_GET | HTTP_METH_HEAD | HTTP_METH_POST
  | HTTP_METH_PUT | HTTP_METH_DELETE | HTTP_METH_TRACE | HTTP_METH_CONNECT | HTTP_METH_OTHER

definition http_methods :: "(http_meth \<times> byte list) list" where
  "http_methods =
    [(HTTP_METH_CONNECT, bytes ''CONNECT''), (HTTP_METH_DELETE, bytes ''DELETE''), (HTTP_METH_GET, bytes ''GET''),
     (HTTP_METH_HEAD, bytes ''HEAD''), (HTTP_METH_POST, bytes ''POST''), (HTTP_METH_PUT, bytes ''PUT''),
     (HTTP_METH_TRACE, bytes ''TRACE'')]"

definition find_http_meth :: "byte list \<Rightarrow> http_meth" where
  "find_http_meth s =
    (if cur s - 65 < 26 then
       (case List.find (\<lambda>(m, t). cur t = cur s \<and> t = s) http_methods of
          Some (m, _) \<Rightarrow> m | None \<Rightarrow> HTTP_METH_OTHER)
     else HTTP_METH_NONE)"

text \<open>\<open>http_get_path\<close> on the bytes of the URI: the position of the path.\<close>

definition skip_scheme :: "byte list \<Rightarrow> nat option" where
  "skip_scheme u =
    (if u \<noteq> [] \<and> isalpha (cur u) then
       let i = skip_while (\<lambda>c. isalnum c \<or> c = PLUS \<or> c = MINUS \<or> c = DOT) u 1 (length u)
       in if take 3 (drop i u) = [COLON, SLASH, SLASH] then Some (i + 3) else None
     else Some 0)"

definition http_get_path :: "byte list \<Rightarrow> nat option" where
  "http_get_path u =
    (if u = [] \<or> cur u = 42 then None
     else case skip_scheme u of
       None \<Rightarrow> None
     | Some i \<Rightarrow> let i = skip_while (\<lambda>c. c \<noteq> SLASH) u i (length u)
                in if i = length u then None else Some i)"

definition is_param_delimiter :: "byte \<Rightarrow> byte \<Rightarrow> bool" where
  "is_param_delimiter c delim \<longleftrightarrow> c = 38 \<or> c = SEMICOLON \<or> c = delim"

function find_url_param_pos :: "byte \<Rightarrow> byte list \<Rightarrow> byte list \<Rightarrow> nat \<Rightarrow> nat option" where
  "find_url_param_pos delim q name i =
    (if i + length name + 1 \<le> length q then
       if q ! (i + length name) = EQUALS \<and> take (length name) (drop i q) = name then Some i
       else let i' = (if q ! (i + length name) = EQUALS then i + length name + 1 else i);
                j = skip_while (\<lambda>c. \<not> is_param_delimiter c delim) q i' (max i' (length q - length name))
            in find_url_param_pos delim q name (j + 1)
     else None)"
  by auto
termination
  by (relation "measure (\<lambda>(_, q, _, i). length q - i)") (auto simp: skip_while_def Let_def)

declare find_url_param_pos.simps [simp del]

definition find_url_param_value :: "byte \<Rightarrow> byte list \<Rightarrow> byte list \<Rightarrow> (nat \<times> nat) option" where
  "find_url_param_value delim path name =
    (let q0 = length (takeWhile (\<lambda>c. c \<noteq> delim) path)
     in if q0 = length path then None
        else let q = drop (q0 + 1) path
             in case find_url_param_pos delim q name 0 of
               None \<Rightarrow> None
             | Some i \<Rightarrow>
                 let v = i + length name + 1;
                     e = skip_while (\<lambda>c. \<not> is_param_delimiter c delim) q v (length q)
                 in if e = v then None else Some (q0 + 1 + v, e - v))"

subsection \<open>Quality values and languages\<close>

text \<open>The value and the number of bytes consumed, of a zero-terminated string.\<close>

definition parse_qvalue :: "byte list \<Rightarrow> int \<times> nat" where
  "parse_qvalue s =
    (let d = (\<lambda>i. int (digit_val (at s i)));
         (q, e) =
           (if \<not> is_digit (at s 0) then (1000, 0)
            else if at s 1 \<noteq> DOT then (d 0 * 1000, 2)
            else if \<not> is_digit (at s 2) then (d 0 * 1000, 2)
            else if \<not> is_digit (at s 3) then (d 0 * 1000 + d 2 * 100, 3)
            else if \<not> is_digit (at s 4) then (d 0 * 1000 + d 2 * 100 + d 3 * 10, 4)
            else (d 0 * 1000 + d 2 * 100 + d 3 * 10 + d 4, 5))
     in (if q > 1000 then 1000 else q, e))"

fun language_range_match :: "byte list \<Rightarrow> byte list \<Rightarrow> bool" where
  "language_range_match [] tag \<longleftrightarrow> tag = []"
| "language_range_match (r # rs) tag \<longleftrightarrow>
    (if r = MINUS \<and> tag = [] then True
     else if tag = [] \<or> r \<noteq> cur tag then False
     else language_range_match rs (tl tag))"

subsection \<open>Lookups find the first line that matches\<close>

definition line_matches :: "byte list \<Rightarrow> hdr_idx \<Rightarrow> byte list \<Rightarrow> nat \<Rightarrow> nat \<Rightarrow> bool" where
  "line_matches d l name len k \<longleftrightarrow>
    name_matches d (line_pos l k) (line_pos l k + hlen (hv l ! k)) name len"

fun first_match :: "(nat \<Rightarrow> bool) \<Rightarrow> nat \<Rightarrow> nat \<Rightarrow> nat option" where
  "first_match P k 0 = None"
| "first_match P k (Suc n) = (if P k then Some k else first_match P (k + 1) n)"

lemma first_match_None: "first_match P k n = None \<longleftrightarrow> (\<forall>i. k \<le> i \<and> i < k + n \<longrightarrow> \<not> P i)"
proof (induction n arbitrary: k)
  case (Suc n)
  have "(\<forall>i. k \<le> i \<and> i < k + Suc n \<longrightarrow> \<not> P i) \<longleftrightarrow> \<not> P k \<and> (\<forall>i. k + 1 \<le> i \<and> i < k + 1 + n \<longrightarrow> \<not> P i)"
  proof (intro iffI conjI allI impI)
    fix i assume a: "\<not> P k \<and> (\<forall>i. k + 1 \<le> i \<and> i < k + 1 + n \<longrightarrow> \<not> P i)" and i: "k \<le> i \<and> i < k + Suc n"
    then show "\<not> P i" by (cases "i = k") auto
  qed auto
  then show ?case using Suc.IH [of "k + 1"] by simp
qed auto

lemma first_match_Some:
  "first_match P k n = Some j \<Longrightarrow> k \<le> j \<and> j < k + n \<and> P j \<and> (\<forall>i. k \<le> i \<and> i < j \<longrightarrow> \<not> P i)"
proof (induction n arbitrary: k)
  case (Suc n)
  show ?case
  proof (cases "P k")
    case False
    then have "k + 1 \<le> j \<and> j < k + 1 + n \<and> P j \<and> (\<forall>i. k + 1 \<le> i \<and> i < j \<longrightarrow> \<not> P i)"
      using Suc.prems by (intro Suc.IH) simp
    moreover have "\<not> P i" if "k \<le> i" "i < j" "\<forall>i. k + 1 \<le> i \<and> i < j \<longrightarrow> \<not> P i" for i
      using that False by (cases "i = k") auto
    ultimately show ?thesis by simp
  qed (use Suc.prems in auto)
qed simp

text \<open>What a lookup that starts at line \<open>k\<close> of a linear index gives.\<close>

definition lookup_result ::
  "(byte list \<Rightarrow> nat \<Rightarrow> nat \<Rightarrow> nat \<Rightarrow> hdr_ctx \<Rightarrow> hdr_ctx) \<Rightarrow> byte list \<Rightarrow> hdr_idx \<Rightarrow> nat \<Rightarrow> hdr_ctx
    \<Rightarrow> nat option \<Rightarrow> bool \<times> hdr_ctx" where
  "lookup_result found d l len c r =
    (case r of None \<Rightarrow> (False, c)
     | Some j \<Rightarrow>
         let ln = line_pos l j; le = ln + hlen (hv l ! j)
         in (True, found d ln (skip_while http_is_lws d (ln + len + 1) le) le
               (c\<lparr>cdel := len, cline := ln, cprev := j - 1, cidx := j\<rparr>)))"

lemma find_hdr_loop_linear:
  assumes l: "linear l" and len: "0 < len"
  shows "0 < k \<Longrightarrow> k < used l \<Longrightarrow> used l - k \<le> n \<Longrightarrow>
    find_hdr_loop found n d l name len (line_pos l k) (k - 1) k c
      = Some (lookup_result found d l len c (first_match (line_matches d l name len) k (used l - k)))"
proof (induction n arbitrary: k)
  case (Suc n)
  obtain i where k: "k = Suc i" using Suc.prems by (cases k) auto
  have nx: "hnext (hv l ! k) = (if k + 1 < used l then k + 1 else 0)"
    using l Suc.prems by (simp add: linear_def)
  have lp: "line_pos l k + hlen (hv l ! k) + hcr (hv l ! k) + 1 = line_pos l (Suc k)"
    using line_pos_Suc [of k l] linear_hsize [OF l] Suc.prems by (simp add: line_size_def)
  have an: "any_name d a b name len = (name, len)" for a b using len by (simp add: any_name_def)
  have m: "line_matches d l name len k \<longleftrightarrow>
      name_matches d (line_pos l k) (line_pos l k + hlen (hv l ! k)) name len"
    by (simp add: line_matches_def)
  obtain u where u: "used l - k = Suc u" using Suc.prems by (cases "used l - k") auto
  show ?case
  proof (cases "line_matches d l name len k")
    case True
    then have "name_matches d (line_pos l (Suc i)) (line_pos l (Suc i) + hlen (hv l ! Suc i)) name len"
      using m by (simp add: k)
    then show ?thesis using True u by (simp add: k an lookup_result_def Let_def)
  next
    case False
    then have "\<not> name_matches d (line_pos l (Suc i)) (line_pos l (Suc i) + hlen (hv l ! Suc i)) name len"
      using m by (simp add: k)
    then have s: "find_hdr_loop found (Suc n) d l name len (line_pos l k) (k - 1) k c
        = find_hdr_loop found n d l name len (line_pos l (Suc k)) k (hnext (hv l ! k)) c"
      using lp by (simp add: k an Let_def add.assoc)
    show ?thesis
    proof (cases "k + 1 < used l")
      case True
      moreover have "used l - (k + 1) = u" using u by simp
      ultimately show ?thesis using Suc.IH [of "k + 1"] Suc.prems s nx False u by simp
    next
      case last: False
      then have "u = 0" using u by simp
      with last show ?thesis using s nx False u Suc.prems by (simp add: lookup_result_def)
    qed
  qed
qed simp

subsection \<open>What the name and the value of a header line are\<close>

text \<open>
  The text of a line, without its line end.  Its field name is what stands before the first colon, and
  letters are compared without their case; a line without a colon has no name.
\<close>

definition line_text :: "byte list \<Rightarrow> hdr_idx \<Rightarrow> nat \<Rightarrow> byte list" where
  "line_text d l k = take (hlen (hv l ! k)) (drop (line_pos l k) d)"

definition field_name :: "byte list \<Rightarrow> byte list option" where
  "field_name line =
    (if COLON \<in> set line then Some (map tolower (takeWhile (\<lambda>c. c \<noteq> COLON) line)) else None)"

text \<open>The first value of a field: what follows the colon and blanks, up to the first comma that is not between
  quotes, without the blanks at its end.\<close>

definition field_body :: "byte list \<Rightarrow> byte list" where
  "field_body line = dropWhile http_is_lws (tl (dropWhile (\<lambda>c. c \<noteq> COLON) line))"

definition first_value :: "byte list \<Rightarrow> byte list" where
  "first_value line =
    (let item = take (find_hdr_value_end (field_body line)) (field_body line)
     in rev (dropWhile http_is_lws (rev item)))"

lemma value_end_plain:
  "\<forall>c \<in> set s. c \<noteq> DQUOTE \<Longrightarrow> value_end delim False False s = length (takeWhile (\<lambda>c. \<not> delim c) s)"
  by (induction s) auto

lemma value_end_le: "value_end delim quoted qdpair s \<le> length s"
  by (induction delim quoted qdpair s rule: value_end.induct) auto

lemma tolower_colon [simp]: "tolower c = COLON \<longleftrightarrow> c = COLON"
proof
  assume "tolower c = COLON"
  then show "c = COLON" by (cases "65 \<le> c \<and> c \<le> 90") (auto simp: tolower_def word_le_nat_alt unat_arith_simps dest: sym)
qed (simp add: tolower_def)

lemma strncasecmp_names:
  "NUL \<notin> set (take n b) \<Longrightarrow> n \<le> length a \<Longrightarrow> n \<le> length b \<Longrightarrow>
    strncasecmp_eq a b n \<longleftrightarrow> map tolower (take n a) = map tolower (take n b)"
proof (induction n arbitrary: a b)
  case (Suc n)
  then obtain x xs y ys where ab: "a = x # xs" "b = y # ys" by (cases a; cases b) auto
  have "tolower 0 \<noteq> tolower y" if "y \<noteq> 0"
  proof (cases "65 \<le> y \<and> y \<le> 90")
    case True
    then have "y + 32 \<noteq> 0" by (unat_arith; simp)
    then show ?thesis using True by (simp add: tolower_def)
  next
    case False
    then show ?thesis unfolding tolower_def using that by auto
  qed
  then show ?case using Suc.IH [of ys xs] Suc.prems ab by auto
qed simp

lemma takeWhile_shorter: "\<exists>x \<in> set xs. \<not> P x \<Longrightarrow> length (takeWhile P xs) < length xs"
  by (induction xs) auto

lemma line_text_nth: "j < hlen (hv l ! k) \<Longrightarrow> line_pos l k + hlen (hv l ! k) \<le> length d \<Longrightarrow>
    line_text d l k ! j = d ! (line_pos l k + j)"
  by (simp add: line_text_def)

text \<open>The test of the code, at the position given by the length of the name, finds the lines with this name.\<close>

lemma line_matches_name:
  assumes "line_pos l k + hlen (hv l ! k) \<le> length d" "len \<le> length name"
    and "NUL \<notin> set (take len name)" "COLON \<notin> set (take len name)"
  shows "line_matches d l name len k \<longleftrightarrow> field_name (line_text d l k) = Some (map tolower (take len name))"
proof -
  let ?t = "line_text d l k"
  have lt: "length ?t = hlen (hv l ! k)" using assms(1) by (simp add: line_text_def)
  have tk: "take len (drop (line_pos l k) d) = take len ?t" if "len < length ?t"
    using that lt by (simp add: line_text_def min_def)
  have "line_matches d l name len k \<longleftrightarrow>
      len < length ?t \<and> ?t ! len = COLON \<and> map tolower (take len ?t) = map tolower (take len name)"
    unfolding line_matches_def name_matches_def
    using strncasecmp_names [OF assms(3), of "drop (line_pos l k) d"] assms(1,2) lt tk line_text_nth [of len l k d]
    by auto
  also have "\<dots> \<longleftrightarrow> field_name ?t = Some (map tolower (take len name))"
  proof
    assume a: "len < length ?t \<and> ?t ! len = COLON \<and> map tolower (take len ?t) = map tolower (take len name)"
    then have "COLON \<in> set ?t" using nth_mem by metis
    moreover have "COLON \<notin> set (take len ?t)"
    proof
      assume "COLON \<in> set (take len ?t)"
      then have "tolower COLON \<in> set (map tolower (take len ?t))" unfolding set_map by (rule imageI)
      then have "tolower COLON \<in> tolower ` set (take len name)" unfolding set_map [symmetric] using a by simp
      then obtain x where "x \<in> set (take len name)" "tolower x = tolower COLON" by (metis imageE)
      moreover have "tolower COLON = COLON" by (simp add: tolower_def)
      ultimately show False using assms(4) by simp
    qed
    then have "takeWhile (\<lambda>c. c \<noteq> COLON) ?t = take len ?t"
      using a by (intro takeWhile_eq_take_P_nth) (auto simp: in_set_conv_nth)
    ultimately show "field_name ?t = Some (map tolower (take len name))" using a by (simp add: field_name_def)
  next
    assume f: "field_name ?t = Some (map tolower (take len name))"
    define w where "w = takeWhile (\<lambda>c. c \<noteq> COLON) ?t"
    have c: "COLON \<in> set ?t" and w: "map tolower w = map tolower (take len name)"
      using f by (auto simp: field_name_def w_def split: if_splits)
    have n: "length w = len" using arg_cong [OF w, of length] assms(2) by simp
    have "length w < length ?t"  using c unfolding w_def by (intro takeWhile_shorter) auto
    moreover have "?t ! length w = COLON" using nth_length_takeWhile [of "\<lambda>c. c \<noteq> COLON" ?t] \<open>length w < length ?t\<close>
      by (simp add: w_def)
    moreover have "take (length w) ?t = w" by (simp add: w_def takeWhile_eq_take [symmetric])
    ultimately show "len < length ?t \<and> ?t ! len = COLON \<and> map tolower (take len ?t) = map tolower (take len name)"
      using w n by auto
  qed
  finally show ?thesis .
qed

lemma line_within: "linear l \<Longrightarrow> k < used l \<Longrightarrow> line_pos l k + hlen (hv l ! k) \<le> line_pos l (used l)"
proof -
  assume l: "linear l" and k: "k < used l"
  have "line_pos l (Suc k) \<le> line_pos l (used l)"
    using k unfolding line_pos_def by (metis Suc_leI le_add1 le_add_diff_inverse map_append sum_list_append take_add)
  then show ?thesis using line_pos_Suc [of k l] linear_hsize [OF l] k by (simp add: line_size_def)
qed

lemma field_name_colon:
  assumes "field_name line = Some nm"
  shows "tl (dropWhile (\<lambda>c. c \<noteq> COLON) line) = drop (length nm + 1) line"
proof -
  have "length nm = length (takeWhile (\<lambda>c. c \<noteq> COLON) line)"
    using assms by (auto simp: field_name_def split: if_splits)
  then show ?thesis by (simp add: dropWhile_eq_drop drop_Suc tl_drop)
qed

lemma rev_dropWhile_rev: "rev (dropWhile P (rev xs)) = take (length xs - length (takeWhile P (rev xs))) xs"
  by (simp add: dropWhile_eq_drop rev_drop)

text \<open>The bounds that \<open>http_find_header2\<close> gives in its context are those of this value.\<close>

lemma list_value_first:
  assumes le: "le = line_pos l k + hlen (hv l ! k)" "le \<le> length d"
    and nm: "field_name (line_text d l k) = Some nm" "length nm < hlen (hv l ! k)"
    and va: "va = skip_while http_is_lws d (line_pos l k + length nm + 1) le"
    and c': "c' = list_value d (line_pos l k) va le c"
  shows "take (cvlen c') (drop (line_pos l k + cval c') d) = first_value (line_text d l k)"
proof -
  let ?ln = "line_pos l k"
  define R where "R = take (le - (?ln + length nm + 1)) (drop (?ln + length nm + 1) d)"
  define B where "B = field_body (line_text d l k)"
  define n where "n = find_hdr_value_end B"
  have "tl (dropWhile (\<lambda>c. c \<noteq> COLON) (line_text d l k)) = R"
    unfolding field_name_colon [OF nm(1)] using le by (simp add: line_text_def R_def drop_take add.commute add.left_commute)
  then have B: "B = drop (length (takeWhile http_is_lws R)) R" by (simp add: B_def field_body_def dropWhile_eq_drop)
  have va': "va = ?ln + length nm + 1 + length (takeWhile http_is_lws R)" by (simp add: va skip_while_def R_def)
  have Bd: "B = take (le - va) (drop va d)" unfolding B va' by (simp add: R_def drop_take add.commute add.left_commute)
  have n: "n \<le> length B" by (simp add: n_def find_hdr_value_end_def value_end_le)
  then have "n \<le> le - va" using le(2) by (simp add: Bd)
  then have item: "take n (drop va d) = take n B" by (simp add: Bd min_def)
  have "cval c' = va - ?ln" "cvlen c' = n - length (takeWhile http_is_lws (rev (take n B)))"
    using c' item by (simp_all add: list_value_def full_value_def trim_back_def Let_def Bd [symmetric] n_def [symmetric])
  moreover have "first_value (line_text d l k) = take (n - length (takeWhile http_is_lws (rev (take n B)))) (take n B)"
    using n by (simp add: first_value_def Let_def B_def [symmetric] n_def [symmetric] rev_dropWhile_rev)
  moreover have "line_pos l k + (va - line_pos l k) = va" using va' by simp
  ultimately show ?thesis unfolding item [symmetric] by simp
qed

text \<open>C12: on an index filled as the parser fills it, whose lines are within the message, a first lookup by
  \<open>http_find_header2\<close> for a name without colon nor null byte stops at the first header line whose field
  name, what stands before its first colon, is the given one, case left aside.  The context then gives
  the bounds of the first value of this line: what follows the colon and blanks, up to a comma outside
  quotes, without trailing blanks.  The lookup finds nothing exactly when no header line has this name.\<close>

theorem find_header_first:
  assumes l: "linear l" "line_pos l (used l) \<le> length d" and new: "cidx c = 0"
    and len: "0 < len" "len \<le> length name" "NUL \<notin> set (take len name)" "COLON \<notin> set (take len name)"
  shows "(\<exists>j c'. http_find_header2 name len d l c = Some (True, c') \<and> 0 < j \<and> j < used l
        \<and> field_name (line_text d l j) = Some (map tolower (take len name))
        \<and> (\<forall>i. 0 < i \<and> i < j \<longrightarrow> field_name (line_text d l i) \<noteq> Some (map tolower (take len name)))
        \<and> cidx c' = j \<and> cline c' = line_pos l j \<and> cdel c' = len
        \<and> take (cvlen c') (drop (cline c' + cval c') d) = first_value (line_text d l j))
    \<or> http_find_header2 name len d l c = Some (False, c)
        \<and> (\<forall>i. 0 < i \<and> i < used l \<longrightarrow> field_name (line_text d l i) \<noteq> Some (map tolower (take len name)))"
proof -
  have hs: "0 < hsize l" "used l \<le> hsize l" using linear_hsize [OF l(1)] by simp_all
  have p: "hdr_idx_first_pos l = line_pos l 1"
    using hs by (cases "hv l") (simp_all add: hdr_idx_first_pos_def line_pos_def line_size_def)
  have i: "hdr_idx_first_idx l = (if 1 < used l then 1 else 0)"
    using l by (simp add: hdr_idx_first_idx_def linear_def)
  let ?named = "\<lambda>k. field_name (line_text d l k) = Some (map tolower (take len name))"
  have inside: "line_pos l k + hlen (hv l ! k) \<le> length d" if "k < used l" for k
    using line_within [OF l(1) that] l(2) by simp
  have m: "line_matches d l name len k \<longleftrightarrow> ?named k" if "k < used l" for k
    using line_matches_name [OF inside [OF that] len(2-4)] .
  let ?r = "first_match (line_matches d l name len) 1 (used l - 1)"
  show ?thesis
  proof (cases "1 < used l")
    case True
    have r: "http_find_header2 name len d l c = Some (lookup_result list_value d l len c ?r)"
      using find_hdr_loop_linear [OF l(1) len(1), of 1 "hsize l" list_value d name c] True hs new
      by (simp add: http_find_header2_def first_hdr_def p i)
    then show ?thesis
    proof (cases ?r)
      case None
      then show ?thesis using first_match_None [of "line_matches d l name len" 1 "used l - 1"] r True m
        by (simp add: lookup_result_def Suc_le_eq)
    next
      case (Some j)
      have j: "0 < j" "j < used l" "line_matches d l name len j" "\<forall>i. 0 < i \<and> i < j \<longrightarrow> \<not> line_matches d l name len i"
        using first_match_Some [OF Some] True by (simp_all add: Suc_le_eq)
      have named: "?named j" "\<forall>i. 0 < i \<and> i < j \<longrightarrow> \<not> ?named i" using j m by auto
      have ln: "length (map tolower (take len name)) = len" using len(2) by simp
      have "len < hlen (hv l ! j)" using j(3) by (simp add: line_matches_def name_matches_def)
      note v = list_value_first [OF refl inside [OF j(2)] named(1) _ refl refl, unfolded ln, OF this]
      show ?thesis
        by (rule disjI1) (use r Some j(1,2) named v in \<open>simp add: lookup_result_def Let_def list_value_def full_value_def\<close>)
    qed
  next
    case False
    then have "\<forall>i. 0 < i \<and> i < used l \<longrightarrow> \<not> ?named i" by auto
    with False show ?thesis using new by (simp add: http_find_header2_def first_hdr_def i)
  qed
qed

definition ctx0 :: hdr_ctx where
  "ctx0 = \<lparr>cline = 0, cidx = 0, cval = 0, cvlen = 0, ctws = 0, cdel = 0, cprev = 0\<rparr>"

theorem find_header_first_witness:
  "let m = http_msg_analyzer (msg0 HTTP_MSG_RQBEFORE (- 2) 8
      (bytes ''GET / HTTP/1.0'' @ [LF] @ bytes ''Xa: a'' @ [LF] @ bytes ''X:  b1 ,c'' @ [LF, LF]))
    in \<exists>c'. http_find_header2 (bytes ''x'') 1 (area m) (idx m) ctx0 = Some (True, c') \<and> cidx c' = 2
      \<and> take (cvlen c') (drop (cline c' + cval c') (area m)) = bytes ''b1''"
proof -
  let ?m = "http_msg_analyzer (msg0 HTTP_MSG_RQBEFORE (- 2) 8
      (bytes ''GET / HTTP/1.0'' @ [LF] @ bytes ''Xa: a'' @ [LF] @ bytes ''X:  b1 ,c'' @ [LF, LF]))"
  let ?named = "\<lambda>k. field_name (line_text (area ?m) (idx ?m) k) = Some (map tolower (take 1 (bytes ''x'')))"
  have e: "linear (idx ?m)" "line_pos (idx ?m) (used (idx ?m)) \<le> length (area ?m)" "\<not> ?named 1" "?named 2"
    "used (idx ?m) = 3" "first_value (line_text (area ?m) (idx ?m) 2) = bytes ''b1''" "cidx ctx0 = 0"
    "NUL \<notin> set (take 1 (bytes ''x''))" "COLON \<notin> set (take 1 (bytes ''x''))" "1 \<le> length (bytes ''x'')" by code_simp+
  have j: "j = 2" if "0 < j" "j < used (idx ?m)" "?named j" for j
  proof -
    have "j = 1 \<or> j = 2" using that(1,2) e(5) by auto
    then show ?thesis using that(3) e(3) by metis
  qed
  consider (found) k c' where "http_find_header2 (bytes ''x'') 1 (area ?m) (idx ?m) ctx0 = Some (True, c')"
      "0 < k" "k < used (idx ?m)" "?named k" "cidx c' = k"
      "take (cvlen c') (drop (cline c' + cval c') (area ?m)) = first_value (line_text (area ?m) (idx ?m) k)"
    | (none) "\<forall>i. 0 < i \<and> i < used (idx ?m) \<longrightarrow> \<not> ?named i"
    using find_header_first [OF e(1,2,7) zero_less_one e(10,8,9)] by blast
  then show ?thesis
  proof cases
    case found
    then show ?thesis using j [OF found(2-4)] e(6) by (auto simp: Let_def)
  next
    case none
    then show ?thesis using e(4,5) by simp
  qed
qed

subsection \<open>Editing keeps the index in step with the message\<close>

text \<open>A parsed message with a version: its lines tile it up to \<open>eoh\<close>.\<close>

definition tiled :: "http_msg \<Rightarrow> bool" where
  "tiled m \<longleftrightarrow> linear (idx m) \<and> line_pos (idx m) (used (idx m)) = eoh m \<and> lines_ok (area m) (idx m)
    \<and> eoh m \<le> length (area m)"

lemma splice_before: "k < a \<Longrightarrow> a \<le> length d \<Longrightarrow> splice d a b str ! k = d ! k"
  by (simp add: splice_def nth_append)

lemma splice_in_new: "a \<le> length d \<Longrightarrow> a \<le> k \<Longrightarrow> k < a + length str \<Longrightarrow> splice d a b str ! k = str ! (k - a)"
  by (auto simp: splice_def nth_append)

text \<open>\<open>http_header_add_tail2\<close>, when the buffer has room and the index an entry, leaves a message
  that the index still tiles: the new line is the last one, its bytes are the text and a CRLF, and
  every earlier line is where it was.\<close>

theorem add_tail_tiled:
  assumes t: "tiled m" and len: "length hdr < 2 ^ 16" and room: "length hdr + 2 < room"
    and free: "used (idx m) < hsize (idx m)"
  shows "\<exists>m'. http_header_add_tail2 room hdr m = Some (int (used (idx m)), m') \<and> tiled m'
    \<and> eoh m' = eoh m + length hdr + 2
    \<and> take (length hdr + 2) (drop (eoh m) (area m')) = hdr @ [CR, LF]
    \<and> take (eoh m) (area m') = take (eoh m) (area m)"
proof -
  let ?u = "used (idx m)"
  define d where "d = splice (area m) (eoh m) (eoh m) (hdr @ [CR, LF])"
  have lin: "linear (idx m)" and e: "line_pos (idx m) ?u = eoh m" "eoh m \<le> length (area m)"
    and ok: "lines_ok (area m) (idx m)" using t by (simp_all add: tiled_def)
  obtain l' where a: "hdr_idx_add (length hdr) True (idx m) (tail (idx m)) = Some (int ?u, l')"
    and l': "linear l'" "used l' = ?u + 1" "hsize l' = hsize (idx m)"
    and n: "hv l' ! ?u = \<lparr>hlen = nat (int (length hdr) mod 2 ^ 16), hcr = of_bool True, hnext = 0\<rparr>"
    and p: "line_pos l' ?u = line_pos (idx m) ?u"
    and keep: "\<And>k. k < ?u \<Longrightarrow> line_size (hv l' ! k) = line_size (hv (idx m) ! k) \<and> hcr (hv l' ! k) = hcr (hv (idx m) ! k)"
    using hdr_idx_add_linear [OF lin less_imp_neq [OF free], of "length hdr" True] by blast
  have n': "hlen (hv l' ! ?u) = length hdr" "hcr (hv l' ! ?u) = 1" using len by (simp_all add: n)
  have np: "line_pos l' (?u + 1) = eoh m + length hdr + 2"
    using line_pos_Suc [of ?u l'] l' free p e n' by (simp add: line_size_def)
  have ld: "length d = length (area m) + length hdr + 2" using e by (simp add: d_def splice_def)
  have lp: "line_pos l' k = line_pos (idx m) k" if "k \<le> ?u" for k
    using that keep linear_hsize [OF lin] l'(3) by (intro line_pos_cong) auto
  have mono: "line_pos (idx m) k \<le> eoh m" if "k \<le> ?u" for k
    using that linear_hsize [OF lin] unfolding e(1) [symmetric] line_pos_def
    by (metis le_add1 le_add_diff_inverse map_append sum_list_append take_add)
  have "line_ok d l' k" if "k < used l'" for k
  proof (cases "k = ?u")
    case True
    then show ?thesis using np ld e n' p splice_in_new [OF e(2)]
      by (simp add: line_ok_def d_def nth_append)
  next
    case False
    then have k: "k < ?u" using that l' by simp
    have o: "line_ok (area m) (idx m) k" using ok k by (simp add: lines_ok_def)
    have s: "hlen (hv l' ! k) = hlen (hv (idx m) ! k)" using keep [OF k] by (simp add: line_size_def)
    have "line_pos (idx m) (k + 1) = line_pos (idx m) k + line_size (hv (idx m) ! k)"
      using line_pos_Suc [of k "idx m"] k linear_hsize [OF lin] by simp
    then show ?thesis
      using o s keep [OF k] lp [of k] lp [of "k + 1"] k mono [of "k + 1"] ld e(2)
      by (auto simp: line_ok_def line_size_def d_def splice_before)
  qed
  then have "lines_ok d l'" by (simp add: lines_ok_def)
  moreover have "http_header_add_tail2 room hdr m
      = Some (int ?u, (move_end (int (length hdr) + 2) (m\<lparr>area := d\<rparr>))\<lparr>idx := l'\<rparr>)"
    using room a by (simp add: http_header_add_tail2_def d_def move_end_def Let_def)
  moreover have "take (length hdr + 2) (drop (eoh m) d) = hdr @ [CR, LF]" "take (eoh m) d = take (eoh m) (area m)"
    using e by (simp_all add: d_def splice_def)
  ultimately show ?thesis using l' np ld e by (auto simp: tiled_def move_end_def nat_add_distrib)
qed

theorem add_tail_tiled_witness:
  "let m = http_msg_analyzer (msg0 HTTP_MSG_RQBEFORE (- 2) 8 (bytes ''GET / HTTP/1.0'' @ [LF, LF]))
    in \<exists>m'. http_header_add_tail2 100 (bytes ''A: b'') m = Some (1, m') \<and> tiled m' \<and> eoh m' = 21"
proof -
  let ?m = "http_msg_analyzer (msg0 HTTP_MSG_RQBEFORE (- 2) 8 (bytes ''GET / HTTP/1.0'' @ [LF, LF]))"
  have "tiled ?m" "used (idx ?m) = 1" "hsize (idx ?m) = 8" "eoh ?m = 15" by code_simp+
  then show ?thesis using add_tail_tiled [of ?m "bytes ''A: b''" 100] by (auto simp: Let_def)
qed

text \<open>\<open>http_remove_header2\<close> walks back by the length of the previous line with the line end of
  the removed one: when a line ended by CRLF is removed after a line ended by a lone LF, the
  context it leaves no longer points to the start of a line.\<close>

theorem remove_header_mixed_eol:
  "let m = http_msg_analyzer (msg0 HTTP_MSG_RQBEFORE (- 2) 8
         (bytes ''GET / HTTP/1.0'' @ [LF] @ bytes ''Host: a'' @ [LF] @ bytes ''X: b'' @ [CR, LF, LF]))
    in case http_find_header2 (bytes ''X'') 1 (area m) (idx m) ctx0 of
      Some (True, c) \<Rightarrow>
        (case http_remove_header2 m c of (_, m', c') \<Rightarrow> cidx c' = 1 \<and> cline c' + 1 = line_pos (idx m') 1)
    | _ \<Rightarrow> False"
  by code_simp

text \<open>\<open>http_get_fhdr\<close> asked for the last occurrence of a header that appears ten times reads
  outside its history: the unsigned position below the first slot is reduced from above instead.
  \<open>http_get_hdr\<close> on the same message returns the last value.\<close>

theorem get_fhdr_out_of_bounds:
  "let m = http_msg_analyzer (msg0 HTTP_MSG_RQBEFORE (- 2) 16
         (bytes ''GET / HTTP/1.0'' @ [LF] @ concat (replicate 10 (bytes ''A:b'' @ [LF])) @ [LF]))
    in http_get_fhdr 20 (bytes ''A'') 1 (area m) (idx m) (- 1) ctx0 = Some OutOfBounds
      \<and> http_get_hdr 20 (bytes ''A'') 1 (area m) (idx m) (- 1) ctx0 = Some (Value 53 1)"
  by code_simp

text \<open>The value that \<open>parse_qvalue\<close> returns is between 0 and 1000 whatever the text.\<close>

theorem parse_qvalue_bounds: "0 \<le> fst (parse_qvalue s) \<and> fst (parse_qvalue s) \<le> 1000"
  by (auto simp: parse_qvalue_def Let_def)

end
