(* ===== verification/Spec2Isabelle.thy ===== *)
theory Spec2Isabelle
  imports
    HA_Prelude HA_Numbers_Proofs HA_Strings HA_Hash HA_Time HA_Freq
    HA_Buffer HA_Fifo HA_Channel
    HA_Ebtree_Order HA_Task_Run HA_Server HA_LB_Map HA_LB_Tree HA_LB_Chash_Next HA_LB_Fwrr_Proofs HA_Queue
    HA_Server_Farm HA_Tracking HA_Tracking_Modes
    HA_Fd_Run HA_Conn_Proofs HA_Proxy_Line
    HA_Hdr_Idx HA_Http_Msg HA_Http_Lines HA_Http_Body HA_Http_Hdr
begin

text \<open>
  \<^bold>\<open>HAProxy 1.5.1 in Isabelle/HOL.\<close>

  The repository carries the sources of the load balancer HAProxy 1.5.1, under
  \<open>src/aws/servers/haproxy-generic/root/haproxy-1.5.1\<close>; it is its only C program.  File names below
  are relative to that directory.  This development is a shallow embedding of its core: each C
  function is a HOL function on values, the words it computes with kept at their width.

  \<^bold>\<open>The program.\<close>  A session connects a client to a server chosen by a backend.  Bytes travel
  through two channels, each over a ring buffer; an analyser parses the HTTP messages in place and
  keeps an index of their header lines; the backend picks a server with a load balancing algorithm,
  or queues the session until a server has a free slot; timers and rate counters on a millisecond
  clock that wraps drive the rest, in elastic binary trees.

  \<^bold>\<open>Theories and sources.\<close>
  \<^item> \<open>HA_Prelude\<close>: words, bytes, lists, options and the proof rules the others share.
  \<^item> \<open>HA_Numbers\<close>, \<open>HA_Numbers_Proofs\<close> (\<open>src/standard.c\<close>, \<open>include/common/standard.h\<close>): printing and
    parsing integers, times and sizes.  Exact ranges, no silent wrap-around, round trips.
  \<^item> \<open>HA_Strings\<close> (\<open>src/standard.c\<close>): percent encoding and decoding, quoting, matching, addresses.
  \<^item> \<open>HA_Hash\<close> (\<open>src/hash.c\<close>, \<open>src/base64.c\<close>): key hashes and the base64 codecs, with their round trips.
  \<^item> \<open>HA_Time\<close> (\<open>src/time.c\<close>, \<open>include/common/time.h\<close>, \<open>include/common/ticks.h\<close>): dates, ticks
    and the monotonic clock of \<open>tv_update_date\<close>.
  \<^item> \<open>HA_Freq\<close> (\<open>src/freq_ctr.c\<close>, \<open>include/proto/freq_ctr.h\<close>): event rates and limits.
  \<^item> \<open>HA_Buffer\<close> (\<open>include/common/buffer.h\<close>, \<open>src/buffer.c\<close>): the ring buffer, its storage as a list
    of bytes; \<open>HA_Fifo\<close> states the queue contract, a locale, which \<open>HA_Channel\<close>
    (\<open>src/channel.c\<close>, \<open>include/proto/channel.h\<close>) interprets with the channel operations.
  \<^item> \<open>HA_Hdr_Idx\<close> (\<open>src/hdr_idx.c\<close>): the index of header lines, an array of linked entries.
  \<^item> \<open>HA_Http_Msg\<close>, \<open>HA_Http_Lines\<close> (\<open>src/proto_http.c\<close>): the message parser, a state machine that
    suspends when data run out, one step per byte; the independence of its result from the way
    data arrive, and the shape of the index it leaves.
  \<^item> \<open>HA_Http_Body\<close> (\<open>src/proto_http.c\<close>): chunk sizes, chunk ends and trailers, which may wrap in
    the buffer; they refine readings of the input in order.
  \<^item> \<open>HA_Http_Hdr\<close> (\<open>src/proto_http.c\<close>): header lookup and edition, cookies, URL parameters.
  \<^item> \<open>HA_Ebtree\<close>, \<open>HA_Ebtree_Search\<close>, \<open>HA_Ebtree_Order\<close> (\<open>ebtree/ebtree.h\<close>, \<open>ebtree/eb32tree.h\<close>):
    elastic binary trees on 32-bit keys with duplicates, as a refinement of sorted lists.
  \<^item> \<open>HA_Server\<close> (\<open>src/backend.c\<close>, \<open>include/proto/backend.h\<close>): servers, usability, counts and
    weights of a backend, dynamic connection limits.  Without active server and without the option
    allbackups (\<open>single_backup\<close>) the algorithms return the first usable backup server, and the
    properties of their choices say so.
  \<^item> \<open>HA_LB_Map\<close> (\<open>src/lb_map.c\<close>): the static map of servers and its users.
  \<^item> \<open>HA_Queue\<close> (\<open>src/queue.c\<close>, parts of \<open>src/session.c\<close>): pending connections of servers and
    backends; the hooks of the load balancing algorithms are the parameters of a locale.  The pointers
    from sessions to entries and back are inverse of each other, so that no entry is freed twice.
  \<^item> \<open>HA_LB_Count\<close>, \<open>HA_LB_Tree\<close> (\<open>src/lb_fwlc.c\<close>, \<open>src/lb_fas.c\<close>): counters kept step by step, and the
    trees of the least connections and first available server algorithms.
  \<^item> \<open>HA_LB_Chash\<close>, \<open>HA_LB_Chash_Proofs\<close>, \<open>HA_LB_Chash_Ring\<close>, \<open>HA_LB_Chash_Next\<close> (\<open>src/lb_chash.c\<close>):
    consistent hashing, the ring of nodes, lookups by hash and turns.
  \<^item> \<open>HA_LB_Fwrr\<close>, \<open>HA_LB_Fwrr_Proofs\<close> (\<open>src/lb_fwrr.c\<close>): weighted round robin with its three trees.
  \<^item> \<open>HA_Task\<close>, \<open>HA_Task_Proofs\<close>, \<open>HA_Task_Run\<close> (\<open>src/task.c\<close>, \<open>include/proto/task.h\<close>): timers and the
    run queue, over elastic binary trees; the functions of the tasks are a parameter.  The niceness of
    a task is set when it is in no run queue; \<open>niced_tasks_underflow\<close> shows what happens otherwise.
  \<^item> \<open>HA_Check\<close> (parts of \<open>src/checks.c\<close>): what the result of a check does to the health of a server.
  \<^item> \<open>HA_Server_State\<close> (\<open>src/server.c\<close>, parts of \<open>src/checks.c\<close>): the states of the servers of all
    backends, the modes of the administrator, weights and slow start; a change goes from a server to
    those that track it.  \<open>HA_Server_State_Frame\<close> holds the contract of the load balancing functions
    as a locale, \<open>HA_Server_State_Moves\<close> what a move does to one server, \<open>HA_Server_State_Proofs\<close> the
    propagation as a locale interpreted on each kind of move, \<open>HA_Server_State_Run\<close> the step relation
    of a farm and its invariant, \<open>HA_Server_Farm\<close> the properties.
  \<^item> \<open>HA_Tracking\<close> (\<open>src/cfgparse.c\<close>, \<open>src/proxy.c\<close>): how the configuration binds a server to the one
    it tracks, and the loops it misses; \<open>HA_Tracking_Modes\<close> the modes that are inherited on the way, and
    that a farm started from such a configuration satisfies the invariant of \<open>HA_Server_State_Run\<close>
    when every server is bound after the one it tracks.
  \<^item> \<open>HA_Fd\<close> (\<open>src/fd.c\<close>, \<open>include/proto/fd.h\<close>, \<open>src/ev_poll.c\<close>, \<open>src/ev_epoll.c\<close>): the table of file
    descriptors, the cache of events, the list of updates and a round of a poller; the handlers are
    a parameter.  \<open>HA_Fd_Proofs\<close> states what a poller must do as a locale and proves the consistency
    of the tables in it; \<open>HA_Fd_Run\<close> interprets it on the arrays of \<open>poll\<close> and, over any kernel that
    keeps the documented laws of \<open>epoll_ctl\<close>, on \<open>epoll\<close>, and holds the properties.
  \<^item> \<open>HA_Conn\<close> (\<open>src/connection.c\<close>, \<open>include/proto/connection.h\<close>): the polling flags of connections and
    the PROXY protocol.  \<open>HA_Conn_Proofs\<close> shows that the descriptor polls what is wanted, \<open>HA_Conn_Text\<close>
    that the texts of ports and IPv4 addresses are read back, \<open>HA_Proxy_Line\<close> that a PROXY line is.

  \<^bold>\<open>State.\<close>  Structures are records with the source's field names; pointers into an area are
  offsets, pointers to servers, sessions and queue entries are numbers; the accesses C leaves
  undefined (outside an array, through a null or freed pointer) are the value \<open>None\<close>, and the
  theorems that return \<open>Some\<close> show that they do not happen.

  \<^bold>\<open>Fuel.\<close>  The loops of the program are structural recursions on what they read, or carry a
  bound: the bytes left of a buffer, the entries of a map, the length of a queue, the number of
  servers of a farm for the depth of a propagation, the entries of the cache of descriptors.  The theorems on these functions state that the
  bound suffices: the result is \<open>Some\<close>.  The loops that may not end are \<open>partial_function\<close>s.

  \<^bold>\<open>Not modelled.\<close>  Sockets, the pollers over \<open>select\<close> and \<open>kqueue\<close>, OpenSSL and zlib wrappers, the
  configuration parser (the binding of tracking servers apart), statistics and logs, which are text front ends
  over system calls or over the whole state of the process; the analysers and the handlers that glue the
  modelled parts to them; stick tables, ACLs and samples, which interpret the configuration over sessions.
  What the code takes from the C library for IPv6 addresses, from the kernel and from the handlers is a
  parameter.
\<close>

end
